(* ===== verification/M64_Prelude.thy ===== *)
theory M64_Prelude
  imports Main "HOL-Library.Word"
begin

unbundle bit_operations_syntax

text \<open>
  What every component shares: the machine types, big-endian fields, byte ranges and chunks,
  the search for a magic in a byte buffer, and results with an error branch. The collections
  \<open>m64_bytes\<close> (fields and byte strings) and \<open>m64_result\<close> (results) carry the simplification of
  the component proofs.
\<close>

named_theorems m64_bytes "round trips and lengths of byte fields"
named_theorems m64_result "evaluation of results"

subsection \<open>Machine types\<close>

type_synonym u8 = "8 word"
type_synonym u16 = "16 word"
type_synonym u32 = "32 word"
type_synonym u64 = "64 word"
type_synonym octets = "8 word list"

subsection \<open>I/O results\<close>

text \<open>\<open>io::ErrorKind\<close>, as far as the code tells errors apart.\<close>

datatype io_kind =
    TimedOut | ConnectionReset | InvalidData | InvalidInput | UnexpectedEof | WriteZero
  | Interrupted | WouldBlock | Unsupported | NotFound | AlreadyExists | StorageFull | OtherKind

subsection \<open>Results\<close>

text \<open>The \<open>?\<close> operator of the source: an error ends the function, a value goes on.\<close>

definition bind_result :: "'e + 'a \<Rightarrow> ('a \<Rightarrow> 'e + 'b) \<Rightarrow> 'e + 'b" where
  "bind_result r f = (case r of Inl e \<Rightarrow> Inl e | Inr v \<Rightarrow> f v)"

definition ok_or :: "'e \<Rightarrow> 'a option \<Rightarrow> 'e + 'a" where
  "ok_or e o' = (case o' of None \<Rightarrow> Inl e | Some v \<Rightarrow> Inr v)"

lemma bind_result_simps [simp, m64_result]:
  "bind_result (Inl e) f = Inl e"
  "bind_result (Inr v) f = f v"
  by (simp_all add: bind_result_def)

lemma ok_or_simps [simp, m64_result]:
  "ok_or e None = Inl e"
  "ok_or e (Some v) = Inr v"
  by (simp_all add: ok_or_def)

lemma bind_result_Inr_iff [m64_result]:
  "bind_result r f = Inr w \<longleftrightarrow> (\<exists>v. r = Inr v \<and> f v = Inr w)"
  by (cases r) auto

lemma ok_or_Inr_iff [m64_result]: "ok_or e o' = Inr v \<longleftrightarrow> o' = Some v"
  by (cases o') auto

subsection \<open>Big-endian fields\<close>

definition be16 :: "u16 \<Rightarrow> octets" where
  "be16 w = [ucast (drop_bit 8 w), ucast w]"

definition be32 :: "u32 \<Rightarrow> octets" where
  "be32 w = [ucast (drop_bit 24 w), ucast (drop_bit 16 w), ucast (drop_bit 8 w), ucast w]"

definition of_be16 :: "u8 \<Rightarrow> u8 \<Rightarrow> u16" where
  "of_be16 a b = push_bit 8 (ucast a) OR ucast b"

definition of_be32 :: "u8 \<Rightarrow> u8 \<Rightarrow> u8 \<Rightarrow> u8 \<Rightarrow> u32" where
  "of_be32 a b c d =
     push_bit 24 (ucast a) OR push_bit 16 (ucast b) OR push_bit 8 (ucast c) OR ucast d"

lemma bit_ucast8 [simp]: "\<not> bit (a :: u8) n" if "8 \<le> n" for n
  using that by (auto dest: bit_imp_le_length)

lemma of_be32_be32 [simp, m64_bytes]:
  "of_be32 (ucast (drop_bit 24 w)) (ucast (drop_bit 16 w)) (ucast (drop_bit 8 w)) (ucast w) = w"
proof (rule bit_word_eqI)
  fix n :: nat
  assume "n < LENGTH(32)"
  then consider "n < 8" | "8 \<le> n" "n < 16" | "16 \<le> n" "n < 24" | "24 \<le> n" "n < 32"
    by fastforce
  then show "bit (of_be32 (ucast (drop_bit 24 w)) (ucast (drop_bit 16 w)) (ucast (drop_bit 8 w))
      (ucast w)) n = bit w n"
    by cases (auto simp: of_be32_def bit_simps)
qed

lemma of_be16_be16 [simp, m64_bytes]: "of_be16 (ucast (drop_bit 8 w)) (ucast w) = w"
proof (rule bit_word_eqI)
  fix n :: nat
  assume "n < LENGTH(16)"
  then consider "n < 8" | "8 \<le> n" "n < 16" by fastforce
  then show "bit (of_be16 (ucast (drop_bit 8 w)) (ucast w)) n = bit w n"
    by cases (auto simp: of_be16_def bit_simps)
qed

lemma be32_of_be32 [simp, m64_bytes]: "be32 (of_be32 a b c d) = [a, b, c, d]"
  by (auto simp: of_be32_def be32_def bit_simps intro!: bit_word_eqI)

lemma be16_of_be16 [simp, m64_bytes]: "be16 (of_be16 a b) = [a, b]"
  by (auto simp: of_be16_def be16_def bit_simps intro!: bit_word_eqI)

lemma length_be32 [simp, m64_bytes]: "length (be32 w) = 4"
  by (simp add: be32_def)

lemma length_be16 [simp, m64_bytes]: "length (be16 w) = 2"
  by (simp add: be16_def)

lemma of_be32_0 [simp]: "of_be32 0 0 0 d = ucast d"
  by (simp add: of_be32_def)

text \<open>Four bytes at an offset, read as one field: the \<open>u32::from_be_bytes([b[i], ..])\<close> idiom.\<close>

definition be32_at :: "octets \<Rightarrow> nat \<Rightarrow> u32" where
  "be32_at b i = of_be32 (b ! i) (b ! (i + 1)) (b ! (i + 2)) (b ! (i + 3))"

definition be16_at :: "octets \<Rightarrow> nat \<Rightarrow> u16" where
  "be16_at b i = of_be16 (b ! i) (b ! (i + 1))"

lemma be32_at_be32 [simp, m64_bytes]:
  "length xs = i \<Longrightarrow> be32_at (xs @ be32 w @ ys) i = w"
  by (auto simp: be32_at_def be32_def nth_append)

lemma be16_at_be16 [simp, m64_bytes]:
  "length xs = i \<Longrightarrow> be16_at (xs @ be16 w @ ys) i = w"
  by (auto simp: be16_at_def be16_def nth_append)

lemma be32_at_append [simp, m64_bytes]:
  "i + 3 < length b \<Longrightarrow> be32_at (b @ more) i = be32_at b i"
  by (simp add: be32_at_def nth_append)

lemma be16_at_append [simp, m64_bytes]:
  "i + 1 < length b \<Longrightarrow> be16_at (b @ more) i = be16_at b i"
  by (simp add: be16_at_def nth_append)

subsection \<open>Ranges and chunks\<close>

text \<open>\<open>&b[i..j]\<close> where the code has already checked the bounds, and \<open>b.get(i..j)\<close>.\<close>

definition slice :: "nat \<Rightarrow> nat \<Rightarrow> 'a list \<Rightarrow> 'a list" where
  "slice i j xs = take (j - i) (drop i xs)"

definition get_range :: "'a list \<Rightarrow> nat \<Rightarrow> nat \<Rightarrow> 'a list option" where
  "get_range xs i j = (if i \<le> j \<and> j \<le> length xs then Some (slice i j xs) else None)"

definition get_at :: "'a list \<Rightarrow> nat \<Rightarrow> 'a option" where
  "get_at xs i = (if i < length xs then Some (xs ! i) else None)"

text \<open>\<open>dst[at..at + src.len()].copy_from_slice(src)\<close>, in range.\<close>

definition splice :: "nat \<Rightarrow> 'a list \<Rightarrow> 'a list \<Rightarrow> 'a list" where
  "splice at' src dst = take at' dst @ src @ drop (at' + length src) dst"

lemma drop_numeral_add_Cons [simp]:
  "drop (numeral k + n) (x # xs) = drop (pred_numeral k + n) xs"
  by (simp add: numeral_eq_Suc)

lemma length_slice [simp, m64_bytes]: "length (slice i j xs) = min (j - i) (length xs - i)"
  by (simp add: slice_def)

lemma slice_append_left [simp]: "j \<le> length xs \<Longrightarrow> slice i j (xs @ ys) = slice i j xs"
  by (cases "i \<le> length xs") (simp_all add: slice_def)

lemma nth_slice: "i + k < j \<Longrightarrow> j \<le> length xs \<Longrightarrow> slice i j xs ! k = xs ! (i + k)"
  by (simp add: slice_def)

lemma slice_all [simp]: "slice 0 (length xs) xs = xs"
  by (simp add: slice_def)

lemma slice_split:
  assumes "i \<le> j" "j \<le> k"
  shows "slice i j xs @ slice j k xs = slice i k xs"
proof -
  have "k - i = (j - i) + (k - j)" using assms by simp
  moreover have "drop j xs = drop (j - i) (drop i xs)" using assms by simp
  ultimately show ?thesis by (simp only: slice_def take_add)
qed

lemma get_range_Some_iff:
  "get_range xs i j = Some ys \<longleftrightarrow> i \<le> j \<and> j \<le> length xs \<and> ys = slice i j xs"
  by (auto simp: get_range_def)

lemma length_splice [simp, m64_bytes]:
  "at' + length src \<le> length dst \<Longrightarrow> length (splice at' src dst) = length dst"
  by (simp add: splice_def)

lemma nth_splice:
  "at' + length src \<le> length dst \<Longrightarrow> i < length dst \<Longrightarrow>
   splice at' src dst ! i =
     (if at' \<le> i \<and> i < at' + length src then src ! (i - at') else dst ! i)"
  by (auto simp: splice_def nth_append)

lemma splice_Nil [simp]: "splice at' [] dst = dst"
  by (simp add: splice_def)

lemma slice_splice_same [simp]:
  "at' + length src \<le> length dst \<Longrightarrow> slice at' (at' + length src) (splice at' src dst) = src"
  by (simp add: splice_def slice_def)

lemma slice_splice_apart:
  "at' + length src \<le> length dst \<Longrightarrow> j \<le> length dst \<Longrightarrow> j \<le> at' \<or> at' + length src \<le> i \<Longrightarrow>
   slice i j (splice at' src dst) = slice i j dst"
  by (rule nth_equalityI) (auto simp: nth_slice nth_splice)

text \<open>Rust's \<open>chunks(n)\<close>; every caller passes a positive \<open>n\<close> (it panics on 0).\<close>

function chunks :: "nat \<Rightarrow> 'a list \<Rightarrow> 'a list list" where
  "chunks n xs = (if n = 0 \<or> xs = [] then [] else take n xs # chunks n (drop n xs))"
  by pat_completeness auto
termination
  by (relation "measure (\<lambda>(n, xs). length xs)") auto

declare chunks.simps [simp del]

lemma chunks_Nil [simp]: "chunks n [] = []"
  by (simp add: chunks.simps)

lemma concat_chunks [simp]: "0 < n \<Longrightarrow> concat (chunks n xs) = xs"
  by (induction n xs rule: chunks.induct) (subst chunks.simps, simp)

lemma chunks_bounds: "c \<in> set (chunks n xs) \<Longrightarrow> 0 < length c \<and> length c \<le> n"
proof (induction n xs rule: chunks.induct)
  case (1 n xs)
  show ?case
  proof (cases "n = 0 \<or> xs = []")
    case True
    with "1.prems" show ?thesis by (subst (asm) chunks.simps) simp
  next
    case False
    with "1.prems" consider "c = take n xs" | "c \<in> set (chunks n (drop n xs))"
      by (subst (asm) chunks.simps) auto
    then show ?thesis using "1.IH" False by cases auto
  qed
qed

subsection \<open>Searching for a magic\<close>

text \<open>\<open>buf.windows(pat.len()).position(|w| w == pat)\<close>.\<close>

fun find_sub :: "'a list \<Rightarrow> 'a list \<Rightarrow> nat option" where
  "find_sub pat [] = None"
| "find_sub pat (x # xs) =
     (if take (length pat) (x # xs) = pat then Some 0 else map_option Suc (find_sub pat xs))"

lemma find_sub_Some_iff:
  "pat \<noteq> [] \<Longrightarrow> find_sub pat buf = Some p \<longleftrightarrow>
     take (length pat) (drop p buf) = pat \<and> (\<forall>q < p. take (length pat) (drop q buf) \<noteq> pat)"
proof (induction buf arbitrary: p)
  case Nil
  then show ?case by simp
next
  case (Cons x xs)
  show ?case
  proof (cases p)
    case 0
    then show ?thesis by auto
  next
    case (Suc p')
    have "(\<forall>q < Suc p'. take (length pat) (drop q (x # xs)) \<noteq> pat) \<longleftrightarrow>
        take (length pat) (x # xs) \<noteq> pat \<and> (\<forall>q < p'. take (length pat) (drop q xs) \<noteq> pat)"
      by (auto simp: less_Suc_eq_0_disj)
    with Suc Cons show ?thesis by auto
  qed
qed

lemma find_sub_None_iff:
  "pat \<noteq> [] \<Longrightarrow> find_sub pat buf = None \<longleftrightarrow> (\<forall>q. take (length pat) (drop q buf) \<noteq> pat)"
proof (induction buf)
  case Nil
  then show ?case by simp
next
  case (Cons x xs)
  have "(\<forall>q. take (length pat) (drop q (x # xs)) \<noteq> pat) \<longleftrightarrow>
      take (length pat) (x # xs) \<noteq> pat \<and> (\<forall>q. take (length pat) (drop q xs) \<noteq> pat)"
    by (metis drop0 drop_Suc_Cons not0_implies_Suc)
  with Cons show ?case by auto
qed

lemma find_sub_bound:
  assumes "pat \<noteq> []" "find_sub pat buf = Some p"
  shows "p + length pat \<le> length buf"
proof -
  from assms have "take (length pat) (drop p buf) = pat" by (simp add: find_sub_Some_iff)
  then have "length (take (length pat) (drop p buf)) = length pat" by (rule arg_cong)
  then have "length pat \<le> length buf - p" by simp
  moreover have "0 < length pat" using assms(1) by simp
  ultimately show ?thesis by linarith
qed

lemma window_append:
  "q + n \<le> length buf \<Longrightarrow> take n (drop q (buf @ more)) = take n (drop q buf)"
  by simp

text \<open>
  The resynchronization both stream parsers do: drop everything before the first magic; with
  none in the buffer, keep only the bytes that can still begin one.
\<close>

definition skip_to :: "'a list \<Rightarrow> 'a list \<Rightarrow> 'a list" where
  "skip_to pat buf =
     (case find_sub pat buf of
        Some p \<Rightarrow> drop p buf
      | None \<Rightarrow> drop (length buf - min (length pat - 1) (length buf)) buf)"

lemma skip_to_Some: "find_sub pat buf = Some p \<Longrightarrow> skip_to pat buf = drop p buf"
  by (simp add: skip_to_def)

lemma skip_to_None:
  "find_sub pat buf = None \<Longrightarrow>
   skip_to pat buf = drop (length buf - min (length pat - 1) (length buf)) buf"
  by (simp add: skip_to_def)

lemma length_skip_to: "length (skip_to pat buf) \<le> length buf"
  by (simp add: skip_to_def split: option.split)

lemma skip_to_starts:
  assumes "pat \<noteq> []" "length pat \<le> length (skip_to pat buf)"
  shows "take (length pat) (skip_to pat buf) = pat"
proof (cases "find_sub pat buf")
  case None
  then have "length (skip_to pat buf) \<le> length pat - 1" by (simp add: skip_to_def)
  moreover have "0 < length pat" using assms(1) by simp
  ultimately show ?thesis using assms(2) by linarith
next
  case (Some p)
  with find_sub_Some_iff [OF assms(1)] have "take (length pat) (drop p buf) = pat" by blast
  with Some show ?thesis by (simp add: skip_to_def)
qed

lemma find_sub_append:
  assumes "pat \<noteq> []" "find_sub pat buf = Some p"
  shows "find_sub pat (buf @ more) = Some p"
proof -
  from assms have bound: "p + length pat \<le> length buf" by (rule find_sub_bound)
  then have same: "take (length pat) (drop q (buf @ more)) = take (length pat) (drop q buf)"
    if "q \<le> p" for q
    using that by (intro window_append) simp
  moreover have "take (length pat) (drop p buf) = pat"
      "\<forall>q < p. take (length pat) (drop q buf) \<noteq> pat"
    using assms by (simp_all add: find_sub_Some_iff)
  ultimately have "take (length pat) (drop p (buf @ more)) = pat"
      "\<forall>q < p. take (length pat) (drop q (buf @ more)) \<noteq> pat"
    using same by (metis order_refl, metis less_imp_le_nat)
  then show ?thesis using find_sub_Some_iff [OF assms(1)] by blast
qed

lemma find_sub_drop:
  assumes "pat \<noteq> []" "find_sub pat buf = Some p" "d \<le> p"
  shows "find_sub pat (drop d buf) = Some (p - d)"
  using assms by (simp add: find_sub_Some_iff add.commute less_diff_conv)

lemma skip_to_resume:
  assumes "pat \<noteq> []"
  shows "skip_to pat (skip_to pat buf @ more) = skip_to pat (buf @ more)"
proof (cases "find_sub pat buf")
  case (Some p)
  from find_sub_bound [OF assms Some] have "p \<le> length buf" by simp
  with Some assms show ?thesis
    using find_sub_append [OF assms Some, of more]
      find_sub_append [OF assms find_sub_drop [OF assms Some order_refl], of more]
    by (simp add: skip_to_def)
next
  case None
  define d where "d = length buf - min (length pat - 1) (length buf)"
  have skip: "skip_to pat buf = drop d buf" using None by (simp add: skip_to_def d_def)
  have app: "drop d buf @ more = drop d (buf @ more)" by (simp add: d_def)
  have pos: "0 < length pat" using assms by simp
  have none: "take (length pat) (drop q (buf @ more)) \<noteq> pat" if "q < d" for q
  proof -
    from that pos have "q + length pat \<le> length buf" by (auto simp: d_def)
    then have "take (length pat) (drop q (buf @ more)) = take (length pat) (drop q buf)"
      by (rule window_append)
    moreover have "take (length pat) (drop q buf) \<noteq> pat"
      using None find_sub_None_iff [OF assms] by blast
    ultimately show ?thesis by (rule ssubst)
  qed
  show ?thesis
  proof (cases "find_sub pat (buf @ more)")
    case (Some p)
    with none have "d \<le> p" using assms by (meson find_sub_Some_iff not_le_imp_less)
    have "find_sub pat (drop d (buf @ more)) = Some (p - d)"
      using assms Some \<open>d \<le> p\<close> by (rule find_sub_drop)
    then have "skip_to pat (drop d (buf @ more)) = drop (p - d) (drop d (buf @ more))"
      by (rule skip_to_Some)
    then show ?thesis using \<open>d \<le> p\<close>
      by (simp only: skip app skip_to_Some [OF Some] drop_drop diff_add)
  next
    case again: None
    then have "find_sub pat (drop d (buf @ more)) = None"
      by (simp only: find_sub_None_iff [OF assms] drop_drop) blast
    moreover have "d \<le> length (buf @ more) - min (length pat - 1) (length (buf @ more))"
      by (auto simp: d_def)
    ultimately show ?thesis
      by (simp only: skip app skip_to_None [OF again] skip_to_None drop_drop length_drop)
        (rule arg_cong [where f = "\<lambda>k. drop k (buf @ more)"], auto simp: min_def)
  qed
qed

lemma skip_to_id:
  "take (length pat) buf = pat \<Longrightarrow> pat \<noteq> [] \<Longrightarrow> skip_to pat buf = buf"
  by (cases buf) (simp_all add: skip_to_def)

lemma skip_to_extend:
  assumes "pat \<noteq> []" "length pat \<le> length (skip_to pat buf)"
  shows "skip_to pat (buf @ more) = skip_to pat buf @ more"
proof -
  have "take (length pat) (skip_to pat buf @ more) = pat"
    using skip_to_starts [OF assms] assms(2) by simp
  then have "skip_to pat (skip_to pat buf @ more) = skip_to pat buf @ more"
    using assms(1) by (rule skip_to_id)
  then show ?thesis using skip_to_resume [OF assms(1)] by simp
qed

end
