(* ===== verification/L3_Frame.thy ===== *)
theory L3_Frame
  imports M64_Prelude
begin

text \<open>
  The L3 application protocol of \<open>crates/l3\<close>: frame types, channels and error codes
  (\<open>types.rs\<close>), the encoder (\<open>encode.rs\<close>), the one-frame decoder (\<open>decode.rs\<close>) and the
  handshake payloads (\<open>lib.rs\<close>).
\<close>

subsection \<open>Types\<close>

datatype frame_type =
    Handshake | HandshakeOk | HandshakeReject
  | Data | Ack | Error
  | Heartbeat | HeartbeatAck
  | SessionOpen | SessionOpenOk | SessionClose | SessionCloseAck

definition frame_type_from_u8 :: "u8 \<Rightarrow> frame_type option" where
  "frame_type_from_u8 v =
     (if v = 0x01 then Some Handshake
      else if v = 0x02 then Some HandshakeOk
      else if v = 0x03 then Some HandshakeReject
      else if v = 0x10 then Some Data
      else if v = 0x11 then Some Ack
      else if v = 0x12 then Some Error
      else if v = 0x20 then Some Heartbeat
      else if v = 0x21 then Some HeartbeatAck
      else if v = 0x30 then Some SessionOpen
      else if v = 0x31 then Some SessionOpenOk
      else if v = 0x32 then Some SessionClose
      else if v = 0x33 then Some SessionCloseAck
      else None)"

fun frame_type_to_u8 :: "frame_type \<Rightarrow> u8" where
  "frame_type_to_u8 Handshake = 0x01"
| "frame_type_to_u8 HandshakeOk = 0x02"
| "frame_type_to_u8 HandshakeReject = 0x03"
| "frame_type_to_u8 Data = 0x10"
| "frame_type_to_u8 Ack = 0x11"
| "frame_type_to_u8 Error = 0x12"
| "frame_type_to_u8 Heartbeat = 0x20"
| "frame_type_to_u8 HeartbeatAck = 0x21"
| "frame_type_to_u8 SessionOpen = 0x30"
| "frame_type_to_u8 SessionOpenOk = 0x31"
| "frame_type_to_u8 SessionClose = 0x32"
| "frame_type_to_u8 SessionCloseAck = 0x33"

text \<open>\<open>Experimental\<close> may hold any byte; only \<open>0x80..=0xFF\<close> decodes to it.\<close>

datatype channel = Application | Log | Control | Experimental u8

definition channel_from_u8 :: "u8 \<Rightarrow> channel option" where
  "channel_from_u8 v =
     (if v = 0x00 then Some Application
      else if v = 0x01 then Some Log
      else if v = 0x02 then Some Control
      else if 0x80 \<le> v then Some (Experimental v)
      else None)"

fun channel_to_u8 :: "channel \<Rightarrow> u8" where
  "channel_to_u8 Application = 0x00"
| "channel_to_u8 Log = 0x01"
| "channel_to_u8 Control = 0x02"
| "channel_to_u8 (Experimental v) = v"

type_synonym frame_flags = u16

definition FLAGS_FINAL :: frame_flags where "FLAGS_FINAL = 0x0001"
definition flags_empty :: frame_flags where "flags_empty = 0"

definition flags_contains :: "frame_flags \<Rightarrow> frame_flags \<Rightarrow> bool" where
  "flags_contains self other \<longleftrightarrow> self AND other = other"

record frame =
  frame_ty :: frame_type
  frame_channel :: channel
  frame_flags :: frame_flags
  frame_request_id :: u32
  frame_payload :: octets

datatype error_code =
    Unspecified | VersionUnsupported | FrameTooLarge | MalformedFrame | UnknownFrameTypeCode
  | BufferFull | TransportTimeout | SessionReset | FeatureUnsupported | SessionLayerRequired
  | SessionNotOpen

definition error_code_from_u16 :: "u16 \<Rightarrow> error_code option" where
  "error_code_from_u16 v =
     (if v = 0x0000 then Some Unspecified
      else if v = 0x0001 then Some VersionUnsupported
      else if v = 0x0002 then Some FrameTooLarge
      else if v = 0x0003 then Some MalformedFrame
      else if v = 0x0004 then Some UnknownFrameTypeCode
      else if v = 0x0005 then Some BufferFull
      else if v = 0x0006 then Some TransportTimeout
      else if v = 0x0007 then Some SessionReset
      else if v = 0x0008 then Some FeatureUnsupported
      else if v = 0x0009 then Some SessionLayerRequired
      else if v = 0x000A then Some SessionNotOpen
      else None)"

fun error_code_to_u16 :: "error_code \<Rightarrow> u16" where
  "error_code_to_u16 Unspecified = 0x0000"
| "error_code_to_u16 VersionUnsupported = 0x0001"
| "error_code_to_u16 FrameTooLarge = 0x0002"
| "error_code_to_u16 MalformedFrame = 0x0003"
| "error_code_to_u16 UnknownFrameTypeCode = 0x0004"
| "error_code_to_u16 BufferFull = 0x0005"
| "error_code_to_u16 TransportTimeout = 0x0006"
| "error_code_to_u16 SessionReset = 0x0007"
| "error_code_to_u16 FeatureUnsupported = 0x0008"
| "error_code_to_u16 SessionLayerRequired = 0x0009"
| "error_code_to_u16 SessionNotOpen = 0x000A"

lemma frame_type_from_to [simp]: "frame_type_from_u8 (frame_type_to_u8 t) = Some t"
  by (cases t) (simp_all add: frame_type_from_u8_def)

lemma frame_type_to_from: "frame_type_from_u8 v = Some t \<Longrightarrow> frame_type_to_u8 t = v"
  by (auto simp: frame_type_from_u8_def split: if_splits)

lemma channel_to_from: "channel_from_u8 v = Some c \<Longrightarrow> channel_to_u8 c = v"
  by (auto simp: channel_from_u8_def split: if_splits)

lemma error_code_from_to [simp]: "error_code_from_u16 (error_code_to_u16 e) = Some e"
  by (cases e) (simp_all add: error_code_from_u16_def)

lemma error_code_to_from: "error_code_from_u16 v = Some e \<Longrightarrow> error_code_to_u16 e = v"
  by (auto simp: error_code_from_u16_def split: if_splits)

text \<open>The channels a frame may carry: the three standard ones and the experimental range.\<close>

fun channel_valid :: "channel \<Rightarrow> bool" where
  "channel_valid (Experimental v) \<longleftrightarrow> 0x80 \<le> v"
| "channel_valid _ \<longleftrightarrow> True"

lemma channel_from_to: "channel_from_u8 (channel_to_u8 c) = Some c \<longleftrightarrow> channel_valid c"
  by (cases c) (auto simp: channel_from_u8_def word_le_nat_alt)

lemma channel_from_valid: "channel_from_u8 v = Some c \<Longrightarrow> channel_valid c"
  by (auto simp: channel_from_u8_def split: if_splits)

subsection \<open>Encoding\<close>

definition MAGIC :: octets where "MAGIC = [0x4D, 0x36, 0x34, 0x42]"
definition HEADER_LEN :: nat where "HEADER_LEN = 16"
definition PROTO_MAJOR :: u8 where "PROTO_MAJOR = 1"
definition PROTO_MINOR :: u8 where "PROTO_MINOR = 0"
definition DEFAULT_MAX_PAYLOAD :: u32 where "DEFAULT_MAX_PAYLOAD = 8192"
definition MAX_PAYLOAD_CEILING :: u32 where "MAX_PAYLOAD_CEILING = 1048576"

datatype encode_error =
    EncPayloadTooLarge nat u32
  | EncInvalidChannel u8
  | EncInvalidFrameType u8

definition encode_frame_with_cap :: "frame \<Rightarrow> u32 option \<Rightarrow> encode_error + octets" where
  "encode_frame_with_cap f max_payload =
     (let plen = length (frame_payload f);
          max' = (case max_payload of
                    None \<Rightarrow> MAX_PAYLOAD_CEILING
                  | Some m \<Rightarrow> min m MAX_PAYLOAD_CEILING);
          ty = frame_type_to_u8 (frame_ty f);
          ch = channel_to_u8 (frame_channel f)
      in if unat max' < plen then Inl (EncPayloadTooLarge plen max')
         else if frame_type_from_u8 ty = None then Inl (EncInvalidFrameType ty)
         else if channel_from_u8 ch \<noteq> Some (frame_channel f) then Inl (EncInvalidChannel ch)
         else Inr (MAGIC @ [ty, ch] @ be16 (frame_flags f) @ be32 (frame_request_id f)
                     @ be32 (of_nat plen) @ frame_payload f))"

definition encode_frame :: "frame \<Rightarrow> encode_error + octets" where
  "encode_frame f = encode_frame_with_cap f None"

definition wire_len :: "frame \<Rightarrow> nat" where
  "wire_len f = HEADER_LEN + length (frame_payload f)"

subsection \<open>Decoding one frame\<close>

datatype decode_error =
    TooShort
  | BadMagic
  | UnknownFrameType u8
  | InvalidChannel u8
  | PayloadTooLarge u32
  | InvalidPayloadLength

record header =
  hd_ty :: frame_type
  hd_channel :: channel
  hd_flags :: frame_flags
  hd_request_id :: u32
  hd_payload_len :: nat

definition into_frame :: "header \<Rightarrow> octets \<Rightarrow> frame" where
  "into_frame h payload =
     \<lparr>frame_ty = hd_ty h, frame_channel = hd_channel h, frame_flags = hd_flags h,
      frame_request_id = hd_request_id h, frame_payload = payload\<rparr>"

definition parse_header :: "octets \<Rightarrow> decode_error + header" where
  "parse_header buf =
     (if length buf < HEADER_LEN then Inl TooShort
      else if slice 0 4 buf \<noteq> MAGIC then Inl BadMagic
      else bind_result (ok_or (UnknownFrameType (buf ! 4)) (frame_type_from_u8 (buf ! 4))) (\<lambda>ty.
           bind_result (ok_or (InvalidChannel (buf ! 5)) (channel_from_u8 (buf ! 5))) (\<lambda>ch.
           let payload_len = be32_at buf 12 in
           if MAX_PAYLOAD_CEILING < payload_len then Inl (PayloadTooLarge payload_len)
           else Inr \<lparr>hd_ty = ty, hd_channel = ch, hd_flags = be16_at buf 6,
                     hd_request_id = be32_at buf 8, hd_payload_len = unat payload_len\<rparr>)))"

definition decode_frame :: "octets \<Rightarrow> decode_error + (frame \<times> nat)" where
  "decode_frame buf =
     bind_result (parse_header buf) (\<lambda>h.
       let total = HEADER_LEN + hd_payload_len h in
       if length buf < total then Inl TooShort
       else Inr (into_frame h (slice HEADER_LEN total buf), total))"

text \<open>The header bytes an encoded frame begins with.\<close>

definition header_bytes :: "frame \<Rightarrow> octets" where
  "header_bytes f =
     MAGIC @ [frame_type_to_u8 (frame_ty f), channel_to_u8 (frame_channel f)]
       @ be16 (frame_flags f) @ be32 (frame_request_id f) @ be32 (of_nat (length (frame_payload f)))"

text \<open>What the protocol allows a frame to be.\<close>

definition frame_valid :: "frame \<Rightarrow> bool" where
  "frame_valid f \<longleftrightarrow>
     channel_valid (frame_channel f) \<and> length (frame_payload f) \<le> unat MAX_PAYLOAD_CEILING"

lemma length_MAGIC [simp]: "length MAGIC = 4"
  by (simp add: MAGIC_def)

lemma MAGIC_nonempty [simp]: "MAGIC \<noteq> []"
  by (simp add: MAGIC_def)

lemma length_header_bytes [simp]: "length (header_bytes f) = 16"
  by (simp add: header_bytes_def)

lemma encode_frame_iff:
  "encode_frame f = Inr bytes \<longleftrightarrow> frame_valid f \<and> bytes = header_bytes f @ frame_payload f"
  by (auto simp: encode_frame_def encode_frame_with_cap_def frame_valid_def header_bytes_def
      channel_from_to Let_def split: if_splits)

lemma encode_with_cap_iff:
  "encode_frame_with_cap f cap = Inr bytes \<longleftrightarrow>
     channel_valid (frame_channel f) \<and> bytes = header_bytes f @ frame_payload f \<and>
     length (frame_payload f) \<le> unat (case cap of None \<Rightarrow> MAX_PAYLOAD_CEILING
                                                | Some m \<Rightarrow> min m MAX_PAYLOAD_CEILING)"
  by (auto simp: encode_frame_with_cap_def header_bytes_def channel_from_to Let_def
      split: if_splits)

lemma unat_ceiling: "unat MAX_PAYLOAD_CEILING = 1048576"
  by (simp add: MAX_PAYLOAD_CEILING_def)

lemma payload_len_field:
  assumes "frame_valid f"
  shows "unat (of_nat (length (frame_payload f)) :: u32) = length (frame_payload f)"
    and "(of_nat (length (frame_payload f)) :: u32) \<le> MAX_PAYLOAD_CEILING"
proof -
  have le: "length (frame_payload f) \<le> 1048576" using assms by (simp add: frame_valid_def unat_ceiling)
  then show *: "unat (of_nat (length (frame_payload f)) :: u32) = length (frame_payload f)"
    by (simp add: unat_of_nat)
  show "(of_nat (length (frame_payload f)) :: u32) \<le> MAX_PAYLOAD_CEILING"
    unfolding word_le_nat_alt * unat_ceiling by (rule le)
qed

lemma header_bytes_fields [simp, m64_bytes]:
  "slice 0 4 (header_bytes f @ xs) = MAGIC"
  "(header_bytes f @ xs) ! 4 = frame_type_to_u8 (frame_ty f)"
  "(header_bytes f @ xs) ! 5 = channel_to_u8 (frame_channel f)"
  "be16_at (header_bytes f @ xs) 6 = frame_flags f"
  "be32_at (header_bytes f @ xs) 8 = frame_request_id f"
  "be32_at (header_bytes f @ xs) 12 = of_nat (length (frame_payload f))"
  by (simp_all add: header_bytes_def slice_def MAGIC_def be16_at_def be32_at_def be16_def be32_def)

lemma parse_header_bytes:
  assumes "frame_valid f"
  shows "parse_header (header_bytes f @ xs) =
    Inr \<lparr>hd_ty = frame_ty f, hd_channel = frame_channel f, hd_flags = frame_flags f,
         hd_request_id = frame_request_id f, hd_payload_len = length (frame_payload f)\<rparr>"
  using assms payload_len_field [OF assms]
  by (simp add: parse_header_def HEADER_LEN_def channel_from_to [THEN iffD2] frame_valid_def
      Let_def not_less)

lemma decode_encoded:
  assumes "frame_valid f"
  shows "decode_frame (header_bytes f @ frame_payload f @ xs) = Inr (f, wire_len f)"
  using parse_header_bytes [OF assms, of "frame_payload f @ xs"]
  by (simp add: decode_frame_def wire_len_def into_frame_def HEADER_LEN_def slice_def)

lemma parse_header_append:
  "HEADER_LEN \<le> length buf \<Longrightarrow> parse_header (buf @ xs) = parse_header buf"
  by (simp add: parse_header_def HEADER_LEN_def nth_append slice_append_left cong: if_cong)

lemma parse_header_Inr:
  assumes "parse_header buf = Inr h"
  shows "16 \<le> length buf" "slice 0 4 buf = MAGIC"
    "frame_type_from_u8 (buf ! 4) = Some (hd_ty h)" "channel_from_u8 (buf ! 5) = Some (hd_channel h)"
    "be32_at buf 12 \<le> MAX_PAYLOAD_CEILING"
    "hd_flags h = be16_at buf 6" "hd_request_id h = be32_at buf 8"
    "hd_payload_len h = unat (be32_at buf 12)"
  using assms
  by (auto simp: parse_header_def HEADER_LEN_def m64_result Let_def not_less split: if_splits)

lemma parse_header_bound: "parse_header buf = Inr h \<Longrightarrow> hd_payload_len h \<le> 1048576"
  using parse_header_Inr(5,8) [of buf h] by (simp add: word_le_nat_alt unat_ceiling)

end
