(* ===== verification/Stream_Scan.thy ===== *)
theory Stream_Scan
  imports M64_Prelude
begin

text \<open>
  The contract of an incremental parser: what one pass of its loop may do to the bytes it
  holds. Three parsers of the repository are loops of this kind: the L3 \<open>StreamDecoder\<close>, the
  SummerCart64 \<open>WireBuffer\<close> and the EverDrive X7 \<open>WireBuffer\<close>. The laws say that a pass that
  skips or emits does not look at what comes after the bytes it used, and that a pass that
  waits keeps enough to go on as if nothing had been dropped. From them follows, once for all
  three, that where the stream is cut into reads does not matter.
\<close>

datatype ('e, 'b) scan =
    Wait "'b list"
  | Skip "'b list"
  | Emit 'e "'b list"

text \<open>Pushing a sequence of reads into a parser that drains after each.\<close>

fun feed :: "('b list \<Rightarrow> 'e list \<times> 'b list) \<Rightarrow> 'b list \<Rightarrow> 'b list list \<Rightarrow> 'e list \<times> 'b list" where
  "feed dr buf [] = ([], buf)"
| "feed dr buf (c # cs) =
     (let (es, r) = dr (buf @ c); (fs, r') = feed dr r cs in (es @ fs, r'))"

locale scanner =
  fixes step :: "'b list \<Rightarrow> ('e, 'b) scan"
  assumes skip_shrinks: "step buf = Skip r \<Longrightarrow> length r < length buf"
    and emit_shrinks: "step buf = Emit e r \<Longrightarrow> length r < length buf"
    and skip_extend: "step buf = Skip r \<Longrightarrow> step (buf @ more) = Skip (r @ more)"
    and emit_extend: "step buf = Emit e r \<Longrightarrow> step (buf @ more) = Emit e (r @ more)"
    and wait_resume: "step buf = Wait r \<Longrightarrow> step (r @ more) = step (buf @ more)"
begin

lemma wait_stuck: "step buf = Wait r \<Longrightarrow> step r = Wait r"
  using wait_resume [of buf r "[]"] by simp

end

text \<open>A parser whose push runs the loop until it waits, collecting what it emits.\<close>

locale draining = scanner step for step :: "'b list \<Rightarrow> ('e, 'b) scan" +
  fixes drain :: "'b list \<Rightarrow> 'e list \<times> 'b list"
  assumes drain_unfold:
    "drain buf =
       (case step buf of
          Wait r \<Rightarrow> ([], r)
        | Skip r \<Rightarrow> drain r
        | Emit e r \<Rightarrow> (let (es, r') = drain r in (e # es, r')))"
begin

lemma drain_Wait: "step buf = Wait r \<Longrightarrow> drain buf = ([], r)"
  by (subst drain_unfold) simp

lemma drain_Skip: "step buf = Skip r \<Longrightarrow> drain buf = drain r"
  by (subst drain_unfold) simp

lemma drain_Emit: "step buf = Emit e r \<Longrightarrow> drain buf = (e # fst (drain r), snd (drain r))"
  by (subst drain_unfold) (simp add: case_prod_beta)

lemma drain_append:
  "drain (buf @ more) =
     (fst (drain buf) @ fst (drain (snd (drain buf) @ more)), snd (drain (snd (drain buf) @ more)))"
proof (induction buf rule: length_induct)
  case (1 buf)
  show ?case
  proof (cases "step buf")
    case (Wait r)
    then have "drain (r @ more) = drain (buf @ more)"
      by (subst (1 2) drain_unfold) (simp add: wait_resume)
    with Wait show ?thesis by (simp add: drain_Wait)
  next
    case (Skip r)
    with 1 skip_shrinks show ?thesis by (simp add: drain_Skip skip_extend)
  next
    case (Emit e r)
    then have "drain (r @ more) =
        (fst (drain r) @ fst (drain (snd (drain r) @ more)), snd (drain (snd (drain r) @ more)))"
      using 1 emit_shrinks by blast
    with Emit emit_extend [OF Emit, of more] show ?thesis by (simp add: drain_Emit)
  qed
qed

lemma drain_rest: "drain (snd (drain buf)) = ([], snd (drain buf))"
proof (induction buf rule: length_induct)
  case (1 buf)
  show ?case
  proof (cases "step buf")
    case (Wait r)
    then show ?thesis using wait_stuck [OF Wait] by (simp add: drain_Wait)
  next
    case (Skip r)
    with 1 skip_shrinks show ?thesis by (simp add: drain_Skip)
  next
    case (Emit e r)
    with 1 emit_shrinks show ?thesis by (simp add: drain_Emit)
  qed
qed

lemma drain_rest_waits: "step (snd (drain buf)) = Wait (snd (drain buf))"
proof (induction buf rule: length_induct)
  case (1 buf)
  show ?case
  proof (cases "step buf")
    case (Wait r)
    then show ?thesis using wait_stuck [OF Wait] by (simp add: drain_Wait)
  next
    case (Skip r)
    with 1 skip_shrinks show ?thesis by (simp add: drain_Skip)
  next
    case (Emit e r)
    with 1 emit_shrinks show ?thesis by (simp add: drain_Emit)
  qed
qed

lemma feed_concat:
  "drain buf = ([], buf) \<Longrightarrow> feed drain buf cs = drain (buf @ concat cs)"
proof (induction cs arbitrary: buf)
  case Nil
  then show ?case by simp
next
  case (Cons c cs)
  let ?r = "snd (drain (buf @ c))"
  have "feed drain ?r cs = drain (?r @ concat cs)"
    by (rule Cons.IH) (rule drain_rest)
  then show ?case
    using drain_append [of "buf @ c" "concat cs"] by (simp add: case_prod_beta)
qed

end

text \<open>
  A parser asked for one item at a time: the loop ends at the first item, or waits. Seen from
  outside it is a scanner that never skips.
\<close>

locale pulling = scanner step for step :: "'b list \<Rightarrow> ('e, 'b) scan" +
  fixes pull :: "'b list \<Rightarrow> 'e option \<times> 'b list"
  assumes pull_unfold:
    "pull buf =
       (case step buf of
          Wait r \<Rightarrow> (None, r)
        | Skip r \<Rightarrow> pull r
        | Emit e r \<Rightarrow> (Some e, r))"
begin

lemma pull_Wait: "step buf = Wait r \<Longrightarrow> pull buf = (None, r)"
  by (subst pull_unfold) simp

lemma pull_Skip: "step buf = Skip r \<Longrightarrow> pull buf = pull r"
  by (subst pull_unfold) simp

lemma pull_Emit: "step buf = Emit e r \<Longrightarrow> pull buf = (Some e, r)"
  by (subst pull_unfold) simp

lemma pull_shrinks: "pull buf = (Some e, r) \<Longrightarrow> length r < length buf"
proof (induction buf rule: length_induct)
  case (1 buf)
  show ?case
  proof (cases "step buf")
    case (Wait r')
    with "1.prems" show ?thesis by (simp add: pull_Wait)
  next
    case (Skip r')
    with 1 show ?thesis using skip_shrinks [OF Skip] by (auto simp: pull_Skip)
  next
    case (Emit e' r')
    with "1.prems" show ?thesis using emit_shrinks [OF Emit] by (simp add: pull_Emit)
  qed
qed

lemma pull_extend: "pull buf = (Some e, r) \<Longrightarrow> pull (buf @ more) = (Some e, r @ more)"
proof (induction buf rule: length_induct)
  case (1 buf)
  show ?case
  proof (cases "step buf")
    case (Wait r')
    with "1.prems" show ?thesis by (simp add: pull_Wait)
  next
    case (Skip r')
    with 1 show ?thesis using skip_shrinks [OF Skip] skip_extend [OF Skip, of more]
      by (simp add: pull_Skip)
  next
    case (Emit e' r')
    with "1.prems" show ?thesis using emit_extend [OF Emit, of more] by (simp add: pull_Emit)
  qed
qed

lemma pull_resume: "pull buf = (None, r) \<Longrightarrow> pull (r @ more) = pull (buf @ more)"
proof (induction buf rule: length_induct)
  case (1 buf)
  show ?case
  proof (cases "step buf")
    case (Wait r')
    with "1.prems" have "r = r'" by (simp add: pull_Wait)
    with Wait show ?thesis by (subst (1 2) pull_unfold) (simp add: wait_resume)
  next
    case (Skip r')
    with 1 show ?thesis using skip_shrinks [OF Skip] skip_extend [OF Skip, of more]
      by (simp add: pull_Skip)
  next
    case (Emit e' r')
    with "1.prems" show ?thesis by (simp add: pull_Emit)
  qed
qed

lemma pull_stuck: "pull buf = (None, r) \<Longrightarrow> pull r = (None, r)"
  using pull_resume [of buf r "[]"] by simp

end

sublocale pulling \<subseteq> items: scanner
  "\<lambda>buf. case pull buf of (None, r) \<Rightarrow> Wait r | (Some e, r) \<Rightarrow> Emit e r"
  by unfold_locales
    (auto simp: pull_shrinks pull_extend pull_resume split: prod.splits option.splits
      dest: pull_shrinks pull_extend pull_resume)

end
