(* ===== verification/L3_Stream.thy ===== *)
theory L3_Stream
  imports L3_Frame Stream_Scan
begin

text \<open>
  The incremental decoder \<open>StreamDecoder\<close> of \<open>crates/l3/src/decode.rs\<close>: one pass of its loop,
  the loop, and pushing bytes. Its loop is a \<open>draining\<close> scanner, so the way a stream is cut
  into reads cannot change the frames that come out.
\<close>

subsection \<open>The decoder\<close>

record stream_decoder =
  sd_buf :: octets

definition stream_decoder_new :: stream_decoder where
  "stream_decoder_new = \<lparr>sd_buf = []\<rparr>"

definition find_magic :: "octets \<Rightarrow> nat option" where
  "find_magic buf = find_sub MAGIC buf"

text \<open>
  One pass of the \<open>loop\<close> in \<open>drain_frames\<close>: \<open>Wait\<close> is its \<open>return\<close>, \<open>Skip\<close> its \<open>continue\<close> after
  a header that can only be noise, \<open>Emit\<close> a frame handed to the caller.
\<close>

definition drain_step :: "octets \<Rightarrow> (frame, u8) scan" where
  "drain_step buf =
     (case find_magic buf of
        None \<Rightarrow>
          (let keep = min (length MAGIC - 1) (length buf)
           in Wait (drop (length buf - keep) buf))
      | Some magic_pos \<Rightarrow>
          (let buf = drop magic_pos buf in
           if length buf < HEADER_LEN then Wait buf
           else (case parse_header buf of
                   Inl _ \<Rightarrow> Skip (drop 1 buf)
                 | Inr h \<Rightarrow>
                     (let total = HEADER_LEN + hd_payload_len h in
                      if length buf < total then Wait buf
                      else Emit (into_frame h (slice HEADER_LEN total buf)) (drop total buf)))))"

text \<open>The same pass, read off the buffer once it has been resynchronized.\<close>

definition drain_aligned :: "octets \<Rightarrow> (frame, u8) scan" where
  "drain_aligned buf =
     (if length buf < HEADER_LEN then Wait buf
      else case parse_header buf of
        Inl _ \<Rightarrow> Skip (drop 1 buf)
      | Inr h \<Rightarrow>
          if length buf < HEADER_LEN + hd_payload_len h then Wait buf
          else Emit (into_frame h (slice HEADER_LEN (HEADER_LEN + hd_payload_len h) buf))
                 (drop (HEADER_LEN + hd_payload_len h) buf))"

lemma drain_step_aligned: "drain_step buf = drain_aligned (skip_to MAGIC buf)"
proof (cases "find_magic buf")
  case None
  then have "length (skip_to MAGIC buf) < HEADER_LEN"
    by (simp add: find_magic_def skip_to_None HEADER_LEN_def)
  with None show ?thesis
    by (simp add: drain_step_def drain_aligned_def find_magic_def skip_to_None Let_def)
next
  case (Some p)
  then show ?thesis
    by (simp add: drain_step_def drain_aligned_def find_magic_def skip_to_Some Let_def
        split: sum.split)
qed

lemma drain_aligned_Wait: "drain_aligned buf = Wait r \<Longrightarrow> r = buf"
  by (auto simp: drain_aligned_def split: if_splits sum.splits)

lemma drain_aligned_Skip:
  "drain_aligned buf = Skip r \<Longrightarrow> HEADER_LEN \<le> length buf \<and> r = drop 1 buf"
  by (auto simp: drain_aligned_def split: if_splits sum.splits)

lemma drain_aligned_Emit:
  "drain_aligned buf = Emit e r \<Longrightarrow>
     \<exists>h. parse_header buf = Inr h \<and> HEADER_LEN + hd_payload_len h \<le> length buf \<and>
       r = drop (HEADER_LEN + hd_payload_len h) buf \<and>
       e = into_frame h (slice HEADER_LEN (HEADER_LEN + hd_payload_len h) buf)"
  by (auto simp: drain_aligned_def split: if_splits sum.splits)

lemma drain_aligned_extend:
  "drain_aligned buf = Skip r \<Longrightarrow> drain_aligned (buf @ xs) = Skip (r @ xs)"
  "drain_aligned buf = Emit e r \<Longrightarrow> drain_aligned (buf @ xs) = Emit e (r @ xs)"
  by (auto simp: drain_aligned_def parse_header_append slice_append_left not_less HEADER_LEN_def
      split: if_splits sum.splits)

lemma skip_to_MAGIC_extend:
  "HEADER_LEN \<le> length (skip_to MAGIC buf) \<Longrightarrow> skip_to MAGIC (buf @ xs) = skip_to MAGIC buf @ xs"
  by (rule skip_to_extend) (simp_all add: HEADER_LEN_def)

interpretation l3: scanner drain_step
proof unfold_locales
  fix buf r xs :: octets and e
  show "length r < length buf" if "drain_step buf = Skip r"
    using that length_skip_to [of MAGIC buf]
    by (auto simp: drain_step_aligned HEADER_LEN_def dest!: drain_aligned_Skip)
  show "length r < length buf" if "drain_step buf = Emit e r"
    using that length_skip_to [of MAGIC buf]
    by (auto simp: drain_step_aligned HEADER_LEN_def dest!: drain_aligned_Emit)
  show "drain_step (buf @ xs) = Skip (r @ xs)" if "drain_step buf = Skip r"
    using that drain_aligned_Skip [of "skip_to MAGIC buf" r]
    by (simp add: drain_step_aligned skip_to_MAGIC_extend drain_aligned_extend)
  show "drain_step (buf @ xs) = Emit e (r @ xs)" if "drain_step buf = Emit e r"
    using that drain_aligned_Emit [of "skip_to MAGIC buf" e r]
    by (auto simp: drain_step_aligned skip_to_MAGIC_extend drain_aligned_extend)
  show "drain_step (r @ xs) = drain_step (buf @ xs)" if "drain_step buf = Wait r"
  proof -
    from that have "r = skip_to MAGIC buf"
      by (auto simp: drain_step_aligned dest: drain_aligned_Wait)
    then show ?thesis by (simp add: drain_step_aligned skip_to_resume)
  qed
qed

text \<open>The whole loop: the frames emitted, in order, and what stays in the buffer.\<close>

function drain_frames :: "octets \<Rightarrow> frame list \<times> octets" where
  "drain_frames buf =
     (case drain_step buf of
        Wait r \<Rightarrow> ([], r)
      | Skip r \<Rightarrow> drain_frames r
      | Emit f r \<Rightarrow> (let (fs, r') = drain_frames r in (f # fs, r')))"
  by pat_completeness auto
termination
  by (relation "measure length") (auto dest: l3.skip_shrinks l3.emit_shrinks)

declare drain_frames.simps [simp del]

interpretation l3: draining drain_step drain_frames
  by unfold_locales (rule drain_frames.simps)

definition push_bytes :: "stream_decoder \<Rightarrow> octets \<Rightarrow> frame list \<times> stream_decoder" where
  "push_bytes sd chunk =
     (let (fs, r) = drain_frames (sd_buf sd @ chunk) in (fs, sd\<lparr>sd_buf := r\<rparr>))"

fun push_all :: "stream_decoder \<Rightarrow> octets list \<Rightarrow> frame list \<times> stream_decoder" where
  "push_all sd [] = ([], sd)"
| "push_all sd (c # cs) =
     (let (fs, sd') = push_bytes sd c; (gs, sd'') = push_all sd' cs in (fs @ gs, sd''))"

lemma push_all_feed:
  "push_all sd cs =
     (fst (feed drain_frames (sd_buf sd) cs), sd\<lparr>sd_buf := snd (feed drain_frames (sd_buf sd) cs)\<rparr>)"
  by (induction cs arbitrary: sd) (simp_all add: push_bytes_def case_prod_beta Let_def)

lemma drain_frames_Nil [simp]: "drain_frames [] = ([], [])"
  by (simp add: drain_frames.simps drain_step_def find_magic_def)

subsection \<open>What comes out\<close>

lemma drain_step_frame:
  assumes "frame_valid f"
  shows "drain_step (header_bytes f @ frame_payload f @ xs) = Emit f xs"
proof -
  let ?b = "header_bytes f @ frame_payload f @ xs"
  have "take (length MAGIC) ?b = MAGIC" by (simp add: header_bytes_def)
  then have "skip_to MAGIC ?b = ?b" by (rule skip_to_id) simp
  then show ?thesis
    using parse_header_bytes [OF assms, of "frame_payload f @ xs"]
    by (simp add: drain_step_aligned drain_aligned_def HEADER_LEN_def into_frame_def slice_def)
qed

lemma drain_encoded:
  assumes "\<forall>f \<in> set fs. frame_valid f"
  shows "drain_frames (concat (map (\<lambda>f. header_bytes f @ frame_payload f) fs) @ xs) =
    (fs @ fst (drain_frames xs), snd (drain_frames xs))"
  using assms
proof (induction fs)
  case Nil
  then show ?case by simp
next
  case (Cons f fs)
  then show ?case
    using l3.drain_Emit [OF drain_step_frame [of f "concat (map (\<lambda>f. header_bytes f @ frame_payload f) fs) @ xs"]]
    by simp
qed

text \<open>Bytes in which no magic begins, up to a real frame: the noise of a link joined mid-stream.\<close>

lemma drain_after_noise:
  assumes "frame_valid f" "find_magic (noise @ MAGIC) = Some (length noise)"
  shows "drain_frames (noise @ header_bytes f @ frame_payload f @ xs) =
    drain_frames (header_bytes f @ frame_payload f @ xs)"
proof -
  let ?b = "header_bytes f @ frame_payload f @ xs"
  obtain tl where tl: "?b = MAGIC @ tl" by (simp add: header_bytes_def)
  have "find_sub MAGIC ((noise @ MAGIC) @ tl) = Some (length noise)"
    by (rule find_sub_append [OF MAGIC_nonempty assms(2) [unfolded find_magic_def]])
  then have "skip_to MAGIC (noise @ ?b) = ?b" by (simp add: tl skip_to_Some)
  moreover have "skip_to MAGIC ?b = ?b" by (rule skip_to_id) (simp_all add: tl)
  ultimately have "drain_step (noise @ ?b) = drain_step ?b" by (simp add: drain_step_aligned)
  then show ?thesis by (simp add: drain_frames.simps [of "noise @ ?b"] drain_frames.simps [of ?b])
qed

lemma drain_emits_valid: "f \<in> set (fst (drain_frames buf)) \<Longrightarrow> frame_valid f"
proof (induction buf rule: length_induct)
  case (1 buf)
  show ?case
  proof (cases "drain_step buf")
    case (Wait r)
    with "1.prems" show ?thesis by (simp add: l3.drain_Wait)
  next
    case (Skip r)
    with 1 l3.skip_shrinks [OF Skip] show ?thesis by (auto simp: l3.drain_Skip)
  next
    case (Emit e r)
    then obtain h where h: "parse_header (skip_to MAGIC buf) = Inr h"
      "e = into_frame h (slice HEADER_LEN (HEADER_LEN + hd_payload_len h) (skip_to MAGIC buf))"
      by (auto simp: drain_step_aligned dest: drain_aligned_Emit)
    have "channel_valid (hd_channel h)"
      using parse_header_Inr(4) [OF h(1)] by (rule channel_from_valid)
    moreover have "min (hd_payload_len h) k \<le> 1048576" for k
      using parse_header_bound [OF h(1)] by simp
    ultimately have "frame_valid e"
      by (simp add: h(2) frame_valid_def into_frame_def unat_ceiling)
    moreover have "f = e \<or> f \<in> set (fst (drain_frames r))"
      using "1.prems" Emit by (simp add: l3.drain_Emit)
    ultimately show ?thesis using 1 l3.emit_shrinks [OF Emit] by blast
  qed
qed

lemma drain_rest_bound: "length (snd (drain_frames buf)) < 1048592"
proof -
  let ?r = "snd (drain_frames buf)"
  have "drain_aligned (skip_to MAGIC ?r) = Wait ?r"
    using l3.drain_rest_waits [of buf] by (simp add: drain_step_aligned)
  then have "drain_aligned ?r = Wait ?r"
    using drain_aligned_Wait by fastforce
  then consider "length ?r < HEADER_LEN" |
      h where "parse_header ?r = Inr h" "length ?r < HEADER_LEN + hd_payload_len h"
    by (auto simp: drain_aligned_def split: if_splits sum.splits)
  then show ?thesis
    by cases (auto simp: HEADER_LEN_def dest: parse_header_bound)
qed

text \<open>C23: The L3 stream decoder is insensitive to how the byte stream is cut into reads: two
  sequences of pushes that carry the same bytes emit the same frames in the same order and
  leave the same bytes buffered.\<close>

theorem push_all_chunking:
  "concat cs = concat ds \<Longrightarrow> push_all stream_decoder_new cs = push_all stream_decoder_new ds"
  by (simp add: push_all_feed stream_decoder_new_def l3.feed_concat)

theorem push_all_chunking_witness:
  "push_all stream_decoder_new [[0x4D], [0x36, 0x34], [0x42, 1]] =
   push_all stream_decoder_new [[0x4D, 0x36, 0x34], [0x42], [1]]"
  by (rule push_all_chunking) simp

lemma push_encoded:
  assumes "list_all2 (\<lambda>f b. encode_frame f = Inr b) fs bs"
  shows "push_all stream_decoder_new bs = (fs, stream_decoder_new)"
proof -
  from assms have "\<forall>f \<in> set fs. frame_valid f" and bs: "bs = map (\<lambda>f. header_bytes f @ frame_payload f) fs"
    by (induction rule: list_all2_induct) (auto simp: encode_frame_iff)
  from drain_encoded [OF this(1), of "[]"] bs drain_frames.simps [of "[]"] show ?thesis
    by (simp add: push_all_feed stream_decoder_new_def l3.feed_concat)
qed


definition sample_frame :: frame where
  "sample_frame = \<lparr>frame_ty = Data, frame_channel = Application, frame_flags = FLAGS_FINAL,
     frame_request_id = 7, frame_payload = [1, 2]\<rparr>"


text \<open>C30: Every frame the decoder emits is one the protocol allows: its channel is standard or
  experimental and its payload is within the ceiling, whatever bytes were pushed.\<close>

theorem push_all_emits_valid:
  "\<forall>f \<in> set (fst (push_all stream_decoder_new cs)). frame_valid f"
  by (auto simp: push_all_feed stream_decoder_new_def l3.feed_concat drain_emits_valid)

theorem push_all_emits_valid_witness:
  "fst (push_all stream_decoder_new [header_bytes sample_frame @ [1, 2]]) = [sample_frame] \<and>
   frame_valid sample_frame"
proof
  have "list_all2 (\<lambda>f b. encode_frame f = Inr b) [sample_frame] [header_bytes sample_frame @ [1, 2]]"
    by (simp add: encode_frame_iff frame_valid_def sample_frame_def unat_ceiling)
  from push_encoded [OF this]
  show one: "fst (push_all stream_decoder_new [header_bytes sample_frame @ [1, 2]]) = [sample_frame]" by simp
  from push_all_emits_valid [of "[header_bytes sample_frame @ [1, 2]]"] one
  show "frame_valid sample_frame" by simp
qed

text \<open>The decoder's memory is bounded: after any pushes it holds less than a header and the
  largest payload together, so a header that claims four gigabytes is never waited for.\<close>

theorem push_all_memory_bound:
  "length (sd_buf (snd (push_all stream_decoder_new cs))) <
     HEADER_LEN + unat MAX_PAYLOAD_CEILING"
  using drain_rest_bound [of "concat cs"]
  by (simp add: push_all_feed stream_decoder_new_def l3.feed_concat HEADER_LEN_def unat_ceiling)

lemma take16_fields:
  "16 \<le> length buf \<Longrightarrow>
   take 16 buf = slice 0 4 buf @ [buf ! 4, buf ! 5] @ be16 (be16_at buf 6)
     @ be32 (be32_at buf 8) @ be32 (be32_at buf 12)"
  by (auto simp: numeral_eq_Suc Suc_le_length_iff slice_def be16_at_def be32_at_def)

text \<open>A frame decodes from its own encoding and from nothing shorter, and decoding is
  canonical: what \<open>decode_frame\<close> accepts is exactly the encoding of the frame it returns.\<close>

theorem decode_frame_iff_encode:
  "decode_frame buf = Inr (f, n) \<longleftrightarrow>
     n \<le> length buf \<and> encode_frame f = Inr (take n buf) \<and> n = wire_len f"
proof
  assume dec: "decode_frame buf = Inr (f, n)"
  then obtain h where h: "parse_header buf = Inr h" "HEADER_LEN + hd_payload_len h \<le> length buf"
      "n = HEADER_LEN + hd_payload_len h" "f = into_frame h (slice HEADER_LEN n buf)"
    by (auto simp: decode_frame_def m64_result Let_def not_less split: if_splits)
  note hd = parse_header_Inr [OF h(1)]
  have plen: "length (frame_payload f) = hd_payload_len h"
    using h(2,3) by (simp add: h(4) into_frame_def)
  have valid: "frame_valid f"
    using parse_header_bound [OF h(1)] plen channel_from_valid [OF hd(4)]
    by (simp add: frame_valid_def unat_ceiling h(4) into_frame_def)
  have "of_nat (length (frame_payload f)) = be32_at buf 12" by (simp add: plen hd(8))
  then have "header_bytes f = slice 0 4 buf @ [buf ! 4, buf ! 5] @ be16 (be16_at buf 6)
      @ be32 (be32_at buf 8) @ be32 (be32_at buf 12)"
    using frame_type_to_from [OF hd(3)] channel_to_from [OF hd(4)]
    by (simp add: header_bytes_def h(4) into_frame_def hd(2,6,7))
  then have "header_bytes f = take 16 buf"
    by (simp add: take16_fields [OF hd(1)])
  moreover have "frame_payload f = drop 16 (take n buf)"
    using h(3) by (simp add: h(4) into_frame_def slice_def HEADER_LEN_def drop_take)
  ultimately have "header_bytes f @ frame_payload f = take n buf"
    using h(3) by (metis HEADER_LEN_def append_take_drop_id le_add1 min_absorb1 take_take)
  with valid h(2,3) plen show "n \<le> length buf \<and> encode_frame f = Inr (take n buf) \<and> n = wire_len f"
    by (simp add: encode_frame_iff wire_len_def)
next
  assume "n \<le> length buf \<and> encode_frame f = Inr (take n buf) \<and> n = wire_len f"
  then have "frame_valid f" "buf = header_bytes f @ frame_payload f @ drop n buf" "n = wire_len f"
    by (auto simp: encode_frame_iff) (metis append.assoc append_take_drop_id)
  then show "decode_frame buf = Inr (f, n)" by (metis decode_encoded)
qed

end
