(* ===== verification/L3_Session.thy ===== *)
theory L3_Session
  imports L3_Frame
begin

text \<open>
  The handshake payloads of \<open>crates/l3/src/lib.rs\<close> and the session layer of
  \<open>crates/l3/src/session.rs\<close>: building and parsing each payload, and \<open>SessionState\<close>, which says
  when application data may flow.
\<close>

subsection \<open>Handshake payloads\<close>

definition control_frame :: "frame_type \<Rightarrow> frame_flags \<Rightarrow> u32 \<Rightarrow> octets \<Rightarrow> frame" where
  "control_frame t fl rid p =
     \<lparr>frame_ty = t, frame_channel = Control, frame_flags = fl, frame_request_id = rid,
      frame_payload = p\<rparr>"

definition handshake_client_frame :: "u32 \<Rightarrow> u32 \<Rightarrow> encode_error + frame" where
  "handshake_client_frame max_payload features =
     Inr (control_frame Handshake flags_empty 0
       ([PROTO_MAJOR, PROTO_MINOR, 0, 0] @ be32 max_payload @ be32 features))"

definition parse_handshake_client :: "octets \<Rightarrow> decode_error + (u8 \<times> u8 \<times> u32 \<times> u32)" where
  "parse_handshake_client payload =
     (if length payload \<noteq> 12 then Inl InvalidPayloadLength
      else Inr (payload ! 0, payload ! 1, be32_at payload 4, be32_at payload 8))"

definition handshake_ok_frame :: "u8 \<Rightarrow> u8 \<Rightarrow> u32 \<Rightarrow> encode_error + frame" where
  "handshake_ok_frame proto_major proto_minor effective_max_payload =
     Inr (control_frame HandshakeOk flags_empty 0
       ([proto_major, proto_minor, 0, 0] @ be32 effective_max_payload))"

definition parse_handshake_ok :: "octets \<Rightarrow> decode_error + (u8 \<times> u8 \<times> u32)" where
  "parse_handshake_ok payload =
     (if length payload \<noteq> 8 then Inl InvalidPayloadLength
      else Inr (payload ! 0, payload ! 1, be32_at payload 4))"

subsection \<open>UTF-8\<close>

text \<open>\<open>std::str::from_utf8\<close>: which byte strings are a \<open>str\<close>.\<close>

definition utf8_cont :: "u8 \<Rightarrow> bool" where
  "utf8_cont b \<longleftrightarrow> 0x80 \<le> b \<and> b \<le> 0xBF"

fun utf8_valid :: "octets \<Rightarrow> bool" where
  "utf8_valid [] \<longleftrightarrow> True"
| "utf8_valid (a # bs) \<longleftrightarrow>
     (if a < 0x80 then utf8_valid bs
      else case bs of
        [] \<Rightarrow> False
      | b # cs \<Rightarrow>
          (if 0xC2 \<le> a \<and> a \<le> 0xDF then utf8_cont b \<and> utf8_valid cs
           else case cs of
             [] \<Rightarrow> False
           | c # ds \<Rightarrow>
               (if 0xE0 \<le> a \<and> a \<le> 0xEF
                then utf8_cont b \<and> (a = 0xE0 \<longrightarrow> 0xA0 \<le> b) \<and> (a = 0xED \<longrightarrow> b \<le> 0x9F) \<and>
                     utf8_cont c \<and> utf8_valid ds
                else case ds of
                  [] \<Rightarrow> False
                | d # es \<Rightarrow>
                    0xF0 \<le> a \<and> a \<le> 0xF4 \<and> utf8_cont b \<and> (a = 0xF0 \<longrightarrow> 0x90 \<le> b) \<and>
                    (a = 0xF4 \<longrightarrow> b \<le> 0x8F) \<and> utf8_cont c \<and> utf8_cont d \<and> utf8_valid es)))"

subsection \<open>Session payloads\<close>

definition FEATURE_SESSION_LAYER :: u32 where "FEATURE_SESSION_LAYER = 1"

definition session_open_frame :: "u32 \<Rightarrow> encode_error + frame" where
  "session_open_frame session_id =
     Inr (control_frame SessionOpen FLAGS_FINAL 0 (be32 session_id @ [0, 0]))"

definition parse_session_open :: "octets \<Rightarrow> decode_error + u32" where
  "parse_session_open payload =
     (if length payload \<noteq> 6 then Inl InvalidPayloadLength
      else if payload ! 4 \<noteq> 0 \<or> payload ! 5 \<noteq> 0 then Inl InvalidPayloadLength
      else Inr (be32_at payload 0))"

definition session_open_ok_frame :: "u32 \<Rightarrow> encode_error + frame" where
  "session_open_ok_frame session_id =
     Inr (control_frame SessionOpenOk FLAGS_FINAL 0 (be32 session_id))"

definition parse_session_open_ok :: "octets \<Rightarrow> decode_error + u32" where
  "parse_session_open_ok payload =
     (if length payload \<noteq> 4 then Inl InvalidPayloadLength else Inr (be32_at payload 0))"

text \<open>The message is a \<open>str\<close>: its bytes.\<close>

definition session_close_frame :: "u16 \<Rightarrow> octets option \<Rightarrow> encode_error + frame" where
  "session_close_frame reason message =
     (let msg_bytes = (case message of None \<Rightarrow> [] | Some m \<Rightarrow> m) in
      if 65535 < length msg_bytes
      then Inl (EncPayloadTooLarge (4 + length msg_bytes) 65535)
      else Inr (control_frame SessionClose FLAGS_FINAL 0
             (be16 reason @ be16 (of_nat (length msg_bytes)) @ msg_bytes)))"

definition parse_session_close :: "octets \<Rightarrow> decode_error + (u16 \<times> octets)" where
  "parse_session_close payload =
     (if length payload < 4 then Inl InvalidPayloadLength
      else let reason = of_be16 (payload ! 0) (payload ! 1);
               msg_len = unat (of_be16 (payload ! 2) (payload ! 3)) in
           if length payload \<noteq> 4 + msg_len then Inl InvalidPayloadLength
           else if \<not> utf8_valid (drop 4 payload) then Inl InvalidPayloadLength
           else Inr (reason, drop 4 payload))"

definition session_close_ack_frame :: "u32 \<Rightarrow> encode_error + frame" where
  "session_close_ack_frame request_id =
     Inr (control_frame SessionCloseAck FLAGS_FINAL request_id [])"

lemmas l3_builders =
  handshake_client_frame_def handshake_ok_frame_def session_open_frame_def
  session_open_ok_frame_def session_close_frame_def session_close_ack_frame_def
  control_frame_def

lemma handshake_client_parses:
  "handshake_client_frame m ft = Inr f \<Longrightarrow>
   parse_handshake_client (frame_payload f) = Inr (PROTO_MAJOR, PROTO_MINOR, m, ft)"
  by (auto simp: l3_builders parse_handshake_client_def be32_at_def be32_def)

lemma handshake_ok_parses:
  "handshake_ok_frame mj mn m = Inr f \<Longrightarrow> parse_handshake_ok (frame_payload f) = Inr (mj, mn, m)"
  by (auto simp: l3_builders parse_handshake_ok_def be32_at_def be32_def)

lemma session_open_parses:
  "session_open_frame i = Inr f \<Longrightarrow> parse_session_open (frame_payload f) = Inr i"
  by (auto simp: l3_builders parse_session_open_def be32_at_def be32_def)

lemma session_open_ok_parses:
  "session_open_ok_frame i = Inr f \<Longrightarrow> parse_session_open_ok (frame_payload f) = Inr i"
  by (auto simp: l3_builders parse_session_open_ok_def be32_at_def be32_def)

lemma unat_u16_length: "n \<le> 65535 \<Longrightarrow> unat (of_nat n :: u16) = n"
  by (simp add: unat_of_nat)

lemma session_close_parses:
  assumes "session_close_frame r m = Inr f"
    and "utf8_valid (case m of None \<Rightarrow> [] | Some s \<Rightarrow> s)"
  shows "parse_session_close (frame_payload f) = Inr (r, case m of None \<Rightarrow> [] | Some s \<Rightarrow> s)"
proof -
  let ?s = "case m of None \<Rightarrow> [] | Some s \<Rightarrow> s"
  from assms(1) have "length ?s \<le> 65535" and p: "frame_payload f = be16 r @ be16 (of_nat (length ?s)) @ ?s"
    by (auto simp: l3_builders Let_def split: if_splits)
  then show ?thesis
    using assms(2) by (simp add: parse_session_close_def be16_def Let_def unat_u16_length)
qed

text \<open>Every control payload the library builds is read back as what it was built from: both
  handshakes, session open and its answer, and a session close with its reason and message.\<close>

theorem control_payloads_round_trip:
  assumes "utf8_valid msg" and "length msg \<le> 65535"
  shows "(\<exists>f. handshake_client_frame m ft = Inr f \<and>
            parse_handshake_client (frame_payload f) = Inr (PROTO_MAJOR, PROTO_MINOR, m, ft)) \<and>
         (\<exists>f. handshake_ok_frame mj mn m = Inr f \<and>
            parse_handshake_ok (frame_payload f) = Inr (mj, mn, m)) \<and>
         (\<exists>f. session_open_frame i = Inr f \<and> parse_session_open (frame_payload f) = Inr i) \<and>
         (\<exists>f. session_open_ok_frame i = Inr f \<and> parse_session_open_ok (frame_payload f) = Inr i) \<and>
         (\<exists>f. session_close_frame r (Some msg) = Inr f \<and>
            parse_session_close (frame_payload f) = Inr (r, msg))"
proof -
  have "\<exists>f. session_close_frame r (Some msg) = Inr f"
    using assms(2) by (simp add: l3_builders Let_def)
  then show ?thesis
    using handshake_client_parses [of m ft] handshake_ok_parses [of mj mn m]
      session_open_parses [of i] session_open_ok_parses [of i]
      session_close_parses [of r "Some msg"] assms(1)
    by (auto simp: handshake_client_frame_def handshake_ok_frame_def session_open_frame_def
        session_open_ok_frame_def)
qed

theorem control_payloads_round_trip_witness:
  "(\<exists>f. session_close_frame 7 (Some [0x6F, 0x6B]) = Inr f \<and>
      parse_session_close (frame_payload f) = Inr (7, [0x6F, 0x6B]))"
proof -
  have "utf8_valid [0x6F, 0x6B]" "length [0x6F, 0x6B :: u8] \<le> 65535" by simp_all
  from control_payloads_round_trip [OF this, of 0 0 0 0 0 7] show ?thesis by blast
qed

subsection \<open>The session state\<close>

record session_state =
  session_layer :: bool
  handshake_complete :: bool
  session_id :: "u32 option"

definition session_new :: "bool \<Rightarrow> session_state" where
  "session_new session_layer_negotiated =
     \<lparr>session_layer = session_layer_negotiated, handshake_complete = False, session_id = None\<rparr>"

definition on_handshake_ok :: "session_state \<Rightarrow> session_state" where
  "on_handshake_ok s = s\<lparr>handshake_complete := True\<rparr>"

definition on_session_open_ok :: "u32 \<Rightarrow> session_state \<Rightarrow> session_state" where
  "on_session_open_ok i s = s\<lparr>session_id := Some i\<rparr>"

definition on_session_closed :: "session_state \<Rightarrow> session_state" where
  "on_session_closed s = (if session_layer s then s\<lparr>session_id := None\<rparr> else s)"

definition application_data_allowed :: "session_state \<Rightarrow> bool" where
  "application_data_allowed s =
     (if \<not> handshake_complete s then False
      else if \<not> session_layer s then True
      else session_id s \<noteq> None)"

text \<open>The three events that move it, and a history of them.\<close>

datatype session_event = HandshakeOkSeen | SessionOpenOkSeen u32 | SessionClosedSeen

fun session_step :: "session_state \<Rightarrow> session_event \<Rightarrow> session_state" where
  "session_step s HandshakeOkSeen = on_handshake_ok s"
| "session_step s (SessionOpenOkSeen i) = on_session_open_ok i s"
| "session_step s SessionClosedSeen = on_session_closed s"

inductive session_reachable :: "bool \<Rightarrow> session_event list \<Rightarrow> session_state \<Rightarrow> bool" where
  start: "session_reachable layer [] (session_new layer)"
| event: "session_reachable layer evs s \<Longrightarrow> session_reachable layer (evs @ [e]) (session_step s e)"

inductive_cases session_reachable_snocE: "session_reachable layer (evs @ [e]) s"

text \<open>What the specification asks of a history: a session is open when the last open came after
  the last close.\<close>

fun open_at :: "session_event list \<Rightarrow> u32 option" where
  "open_at [] = None"
| "open_at (SessionOpenOkSeen i # evs) = Some i"
| "open_at (SessionClosedSeen # evs) = None"
| "open_at (HandshakeOkSeen # evs) = open_at evs"

lemma session_reachable_inv:
  "session_reachable layer evs s \<Longrightarrow>
     session_layer s = layer \<and>
     (handshake_complete s \<longleftrightarrow> HandshakeOkSeen \<in> set evs) \<and>
     (layer \<longrightarrow> session_id s = open_at (rev evs))"
proof (induction rule: session_reachable.induct)
  case (start layer)
  then show ?case by (simp add: session_new_def)
next
  case (event layer evs s e)
  then show ?case
    by (cases e) (auto simp: on_handshake_ok_def on_session_open_ok_def on_session_closed_def)
qed

text \<open>C31: After any history of handshake, open and close events, application data is allowed
  exactly when the handshake completed and, if the session layer was negotiated, a session was
  opened and not closed since.\<close>

theorem application_data_allowed_iff:
  assumes "session_reachable layer evs s"
  shows "application_data_allowed s \<longleftrightarrow>
     HandshakeOkSeen \<in> set evs \<and> (layer \<longrightarrow> open_at (rev evs) \<noteq> None)"
  using session_reachable_inv [OF assms] by (auto simp: application_data_allowed_def)

theorem application_data_allowed_iff_witness:
  "\<not> application_data_allowed (session_step (session_step (session_step (session_new True)
       HandshakeOkSeen) (SessionOpenOkSeen 42)) SessionClosedSeen)"
proof -
  have "session_reachable True ((([] @ [HandshakeOkSeen]) @ [SessionOpenOkSeen 42]) @ [SessionClosedSeen])
      (session_step (session_step (session_step (session_new True)
       HandshakeOkSeen) (SessionOpenOkSeen 42)) SessionClosedSeen)"
    by (intro session_reachable.intros)
  from application_data_allowed_iff [OF this] show ?thesis by simp
qed

end
