(* ===== verification/Sc64_Wire.thy ===== *)
theory Sc64_Wire
  imports Stream_Scan
begin

text \<open>
  The SummerCart64 USB protocol of \<open>crates/sc64-link\<close>: \<open>CMD\<close> packets and \<open>USB_WRITE\<close> chunks
  (\<open>lib.rs\<close>), and the incremental parser of \<open>CMP\<close>/\<open>ERR\<close>/\<open>PKT\<close> responses (\<open>wire.rs\<close>).
\<close>

subsection \<open>Commands\<close>

definition CMD_IDENTIFIER_GET :: u8 where "CMD_IDENTIFIER_GET = 0x76"
definition CMD_USB_WRITE :: u8 where "CMD_USB_WRITE = 0x55"
definition CMD_MEMORY_READ :: u8 where "CMD_MEMORY_READ = 0x6D"
definition CMD_MEMORY_WRITE :: u8 where "CMD_MEMORY_WRITE = 0x4D"
definition CMD_SD_CARD_OP :: u8 where "CMD_SD_CARD_OP = 0x69"
definition CMD_SD_READ :: u8 where "CMD_SD_READ = 0x73"
definition CMD_SD_WRITE :: u8 where "CMD_SD_WRITE = 0x53"

definition MULTI64_L3_TYPE :: u8 where "MULTI64_L3_TYPE = 0x01"
definition DEFAULT_USB_WRITE_CHUNK :: nat where "DEFAULT_USB_WRITE_CHUNK = 8192"
definition MAX_CMP_DATA_LEN :: nat where "MAX_CMP_DATA_LEN = 0x08000000"
definition MAX_PKT_DATA_LEN :: nat where "MAX_PKT_DATA_LEN = 4 + 0x00FFFFFF"

definition TAG_CMD :: octets where "TAG_CMD = [0x43, 0x4D, 0x44]"
definition TAG_CMP :: octets where "TAG_CMP = [0x43, 0x4D, 0x50]"
definition TAG_ERR :: octets where "TAG_ERR = [0x45, 0x52, 0x52]"
definition TAG_PKT :: octets where "TAG_PKT = [0x50, 0x4B, 0x54]"

lemmas sc64_tags = TAG_CMD_def TAG_CMP_def TAG_ERR_def TAG_PKT_def

definition cmd_packet :: "u8 \<Rightarrow> u32 \<Rightarrow> u32 \<Rightarrow> octets \<Rightarrow> octets" where
  "cmd_packet cmd_id arg0 arg1 data = TAG_CMD @ [cmd_id] @ be32 arg0 @ be32 arg1 @ data"

definition usb_write_l3_chunk :: "octets \<Rightarrow> octets" where
  "usb_write_l3_chunk chunk =
     cmd_packet CMD_USB_WRITE (ucast MULTI64_L3_TYPE) (of_nat (length chunk)) chunk"

definition usb_write_l3_stream :: "octets \<Rightarrow> nat \<Rightarrow> octets list" where
  "usb_write_l3_stream data max_chunk = map usb_write_l3_chunk (chunks max_chunk data)"

definition pkt_u_multi64_l3_payload :: "octets \<Rightarrow> octets option" where
  "pkt_u_multi64_l3_payload d =
     (if length d < 4 then None
      else if d ! 0 \<noteq> MULTI64_L3_TYPE then None
      else let len = of_be32 0 (d ! 1) (d ! 2) (d ! 3);
               end' = 4 + unat len in
           if length d < end' then None else Some (slice 4 end' d))"

subsection \<open>Responses\<close>

record cmp_response =
  cmp_ok :: bool
  cmp_cmd_id :: u8
  cmp_data :: octets

record pkt_packet =
  pkt_id :: u8
  pkt_data :: octets

datatype wire_event = Cmp cmp_response | Pkt pkt_packet

definition header_data_len :: "octets \<Rightarrow> nat option" where
  "header_data_len buf =
     (let tag = slice 0 3 buf;
          len = unat (be32_at buf 4) in
      if tag = TAG_CMP \<or> tag = TAG_ERR then (if len \<le> MAX_CMP_DATA_LEN then Some len else None)
      else if tag = TAG_PKT then (if len \<le> MAX_PKT_DATA_LEN then Some len else None)
      else None)"

text \<open>One pass of the loop in \<open>next_event\<close>.\<close>

definition next_event_step :: "octets \<Rightarrow> (wire_event, u8) scan" where
  "next_event_step buf =
     (if length buf < 8 then Wait buf
      else case header_data_len buf of
        None \<Rightarrow> Skip (drop 1 buf)
      | Some len \<Rightarrow>
          (let total = 8 + len in
           if length buf < total then Wait buf
           else let is_pkt = slice 0 3 buf = TAG_PKT;
                    ok = slice 0 3 buf = TAG_CMP;
                    i = buf ! 3;
                    data = slice 8 total buf
                in Emit (if is_pkt then Pkt \<lparr>pkt_id = i, pkt_data = data\<rparr>
                         else Cmp \<lparr>cmp_ok = ok, cmp_cmd_id = i, cmp_data = data\<rparr>)
                     (drop total buf)))"

lemma header_data_len_append:
  "8 \<le> length buf \<Longrightarrow> header_data_len (buf @ xs) = header_data_len buf"
  by (simp add: header_data_len_def)

lemma header_data_len_bound: "header_data_len buf = Some len \<Longrightarrow> len \<le> 0x08000000"
  by (auto simp: header_data_len_def MAX_CMP_DATA_LEN_def MAX_PKT_DATA_LEN_def Let_def
      split: if_splits)

interpretation sc64: scanner next_event_step
proof unfold_locales
  fix buf r xs :: octets and e
  show "length r < length buf" if "next_event_step buf = Skip r"
    using that by (auto simp: next_event_step_def Let_def split: if_splits option.splits)
  show "length r < length buf" if "next_event_step buf = Emit e r"
    using that by (auto simp: next_event_step_def Let_def split: if_splits option.splits)
  show "next_event_step (buf @ xs) = Skip (r @ xs)" if "next_event_step buf = Skip r"
    using that
    by (auto simp: next_event_step_def header_data_len_append Let_def split: if_splits option.splits)
  show "next_event_step (buf @ xs) = Emit e (r @ xs)" if "next_event_step buf = Emit e r"
    using that
    by (auto simp: next_event_step_def header_data_len_append Let_def nth_append
        split: if_splits option.splits)
  show "next_event_step (r @ xs) = next_event_step (buf @ xs)" if "next_event_step buf = Wait r"
    using that by (auto simp: next_event_step_def Let_def split: if_splits option.splits)
qed

text \<open>The loop: the next whole packet, or \<open>None\<close> when more bytes are needed, and what is kept.\<close>

function next_event :: "octets \<Rightarrow> wire_event option \<times> octets" where
  "next_event buf =
     (case next_event_step buf of
        Wait r \<Rightarrow> (None, r)
      | Skip r \<Rightarrow> next_event r
      | Emit e r \<Rightarrow> (Some e, r))"
  by pat_completeness auto
termination
  by (relation "measure length") (auto dest: sc64.skip_shrinks)

declare next_event.simps [simp del]

interpretation sc64: pulling next_event_step next_event
  by unfold_locales (rule next_event.simps)

text \<open>\<open>ResponseBuffer\<close>: the next command response, packets skipped.\<close>

function next_cmp :: "octets \<Rightarrow> cmp_response option \<times> octets" where
  "next_cmp wire =
     (case next_event wire of
        (None, r) \<Rightarrow> (None, r)
      | (Some (Cmp c), r) \<Rightarrow> (Some c, r)
      | (Some (Pkt _), r) \<Rightarrow> next_cmp r)"
  by pat_completeness auto
termination
  by (relation "measure length") (auto dest: sc64.pull_shrinks [OF sym])

declare next_cmp.simps [simp del]

text \<open>Every packet of a byte stream in order: what a reader that never stops sees.\<close>

function wire_events :: "octets \<Rightarrow> wire_event list \<times> octets" where
  "wire_events buf =
     (case next_event_step buf of
        Wait r \<Rightarrow> ([], r)
      | Skip r \<Rightarrow> wire_events r
      | Emit e r \<Rightarrow> (let (es, r') = wire_events r in (e # es, r')))"
  by pat_completeness auto
termination
  by (relation "measure length") (auto dest: sc64.skip_shrinks sc64.emit_shrinks)

declare wire_events.simps [simp del]

interpretation sc64_all: draining next_event_step wire_events
  by unfold_locales (rule wire_events.simps)

lemma wire_events_next:
  "wire_events buf =
     (case next_event buf of
        (None, r) \<Rightarrow> ([], r)
      | (Some e, r) \<Rightarrow> (e # fst (wire_events r), snd (wire_events r)))"
proof (induction buf rule: length_induct)
  case (1 buf)
  show ?case
  proof (cases "next_event_step buf")
    case (Skip r)
    then show ?thesis using 1 sc64.skip_shrinks [OF Skip]
      by (simp add: sc64_all.drain_Skip sc64.pull_Skip)
  qed (simp_all add: sc64_all.drain_Wait sc64.pull_Wait sc64_all.drain_Emit sc64.pull_Emit)
qed

lemma wire_events_None: "next_event buf = (None, r) \<Longrightarrow> wire_events buf = ([], r)"
  by (simp add: wire_events_next)

subsection \<open>Packets as the cart sends them\<close>

definition event_wf :: "wire_event \<Rightarrow> bool" where
  "event_wf ev \<longleftrightarrow>
     (case ev of
        Cmp c \<Rightarrow> length (cmp_data c) \<le> MAX_CMP_DATA_LEN
      | Pkt p \<Rightarrow> length (pkt_data p) \<le> MAX_PKT_DATA_LEN)"

definition event_bytes :: "wire_event \<Rightarrow> octets" where
  "event_bytes ev =
     (case ev of
        Cmp c \<Rightarrow> (if cmp_ok c then TAG_CMP else TAG_ERR) @ [cmp_cmd_id c]
                   @ be32 (of_nat (length (cmp_data c))) @ cmp_data c
      | Pkt p \<Rightarrow> TAG_PKT @ [pkt_id p] @ be32 (of_nat (length (pkt_data p))) @ pkt_data p)"

lemma unat_u32_length: "n < 0x100000000 \<Longrightarrow> unat (of_nat n :: u32) = n"
  by (simp add: unat_of_nat)

lemma next_event_step_bytes:
  assumes "event_wf ev"
  shows "next_event_step (event_bytes ev @ xs) = Emit ev xs"
proof (cases ev)
  case (Cmp c)
  have "unat (of_nat (length (cmp_data c)) :: u32) = length (cmp_data c)"
    using assms Cmp by (intro unat_u32_length) (simp add: event_wf_def MAX_CMP_DATA_LEN_def)
  then show ?thesis
    using assms Cmp by (cases "cmp_ok c")
      (cases c, simp_all add: event_bytes_def next_event_step_def header_data_len_def event_wf_def
        sc64_tags slice_def be32_at_def be32_def Let_def)
next
  case (Pkt p)
  have "unat (of_nat (length (pkt_data p)) :: u32) = length (pkt_data p)"
    using assms Pkt by (intro unat_u32_length) (simp add: event_wf_def MAX_PKT_DATA_LEN_def)
  then show ?thesis
    using assms Pkt
    by (simp add: event_bytes_def next_event_step_def header_data_len_def event_wf_def sc64_tags
        slice_def be32_at_def be32_def Let_def)
qed

lemma wire_events_bytes:
  assumes "\<forall>ev \<in> set evs. event_wf ev"
  shows "wire_events (concat (map event_bytes evs) @ xs) =
    (evs @ fst (wire_events xs), snd (wire_events xs))"
  using assms
proof (induction evs)
  case (Cons ev evs)
  then show ?case
    using sc64_all.drain_Emit [OF next_event_step_bytes [of ev "concat (map event_bytes evs) @ xs"]]
    by simp
qed simp

text \<open>The SummerCart64 parser returns every packet the cart sent, whole and in order, however
  the serial port cuts the bytes, and never waits for more than the largest packet the protocol
  allows.\<close>

theorem sc64_packets_reassembled:
  assumes "\<forall>ev \<in> set evs. event_wf ev" and "concat cs = concat (map event_bytes evs)"
  shows "feed wire_events [] cs = (evs, []) \<and>
    (\<forall>bs. length (snd (feed wire_events [] bs)) < 8 + MAX_CMP_DATA_LEN)"
proof
  have empty: "wire_events [] = ([], [])"
    by (simp add: wire_events.simps next_event_step_def)
  then show "feed wire_events [] cs = (evs, [])"
    using wire_events_bytes [OF assms(1), of "[]"] by (simp add: sc64_all.feed_concat assms(2))
  show "\<forall>bs. length (snd (feed wire_events [] bs)) < 8 + MAX_CMP_DATA_LEN"
  proof
    fix bs
    let ?r = "snd (wire_events (concat bs))"
    have "next_event_step ?r = Wait ?r" by (rule sc64_all.drain_rest_waits)
    then have "length ?r < 8 + MAX_CMP_DATA_LEN"
      by (auto simp: next_event_step_def Let_def MAX_CMP_DATA_LEN_def
          dest!: header_data_len_bound split: if_splits option.splits)
    then show "length (snd (feed wire_events [] bs)) < 8 + MAX_CMP_DATA_LEN"
      by (simp add: sc64_all.feed_concat empty)
  qed
qed

theorem sc64_packets_reassembled_witness:
  "fst (feed wire_events [] [[0x50, 0x4B], [0x54, 0x55, 0, 0, 0], [1, 9]]) =
   [Pkt \<lparr>pkt_id = 0x55, pkt_data = [9]\<rparr>]"
proof -
  let ?evs = "[Pkt \<lparr>pkt_id = 0x55, pkt_data = [9]\<rparr>]"
  have "\<forall>ev \<in> set ?evs. event_wf ev" by (simp add: event_wf_def MAX_PKT_DATA_LEN_def)
  moreover have "concat [[0x50, 0x4B], [0x54, 0x55, 0, 0, 0], [1, 9]] = concat (map event_bytes ?evs)"
    by (simp add: event_bytes_def sc64_tags be32_def)
  ultimately show ?thesis using sc64_packets_reassembled by fastforce
qed

text \<open>Splitting an L3 stream into \<open>USB_WRITE\<close> commands loses nothing: each command carries
  the L3 datatype and its own length, none is empty or longer than the limit, and the payloads
  in order are the stream.\<close>

theorem usb_write_stream_carries:
  assumes "0 < max_chunk" and "max_chunk < 2 ^ 32"
  shows "concat (map (drop 12) (usb_write_l3_stream data max_chunk)) = data \<and>
    (\<forall>p \<in> set (usb_write_l3_stream data max_chunk).
       take 4 p = TAG_CMD @ [CMD_USB_WRITE] \<and> be32_at p 4 = 1 \<and>
       unat (be32_at p 8) = length p - 12 \<and> 12 < length p \<and> length p \<le> 12 + max_chunk)"
proof
  have drop12: "drop 12 (usb_write_l3_chunk c) = c" for c
    by (simp add: usb_write_l3_chunk_def cmd_packet_def sc64_tags be32_def)
  then show "concat (map (drop 12) (usb_write_l3_stream data max_chunk)) = data"
    using assms(1) by (simp add: usb_write_l3_stream_def comp_def)
  have "take 4 p = TAG_CMD @ [CMD_USB_WRITE] \<and> be32_at p 4 = 1 \<and>
       unat (be32_at p 8) = length p - 12 \<and> 12 < length p \<and> length p \<le> 12 + max_chunk"
    if p: "p = usb_write_l3_chunk c" and "c \<in> set (chunks max_chunk data)" for p c
  proof -
    have len: "0 < length c" "length c \<le> max_chunk" using chunks_bounds [OF that(2)] by simp_all
    then have "unat (of_nat (length c) :: u32) = length c"
      using assms(2) by (intro unat_u32_length) simp
    with len show ?thesis
      by (simp add: p usb_write_l3_chunk_def cmd_packet_def sc64_tags be32_def be32_at_def
          MULTI64_L3_TYPE_def)
  qed
  then show "\<forall>p \<in> set (usb_write_l3_stream data max_chunk).
       take 4 p = TAG_CMD @ [CMD_USB_WRITE] \<and> be32_at p 4 = 1 \<and>
       unat (be32_at p 8) = length p - 12 \<and> 12 < length p \<and> length p \<le> 12 + max_chunk"
    by (auto simp: usb_write_l3_stream_def)
qed

theorem usb_write_stream_carries_witness:
  "concat (map (drop 12) (usb_write_l3_stream [1, 2, 3] 2)) = [1, 2, 3]"
  using usb_write_stream_carries [of 2 "[1, 2, 3]"] by simp

end
