(* ===== verification/L2_Port.thy ===== *)
theory L2_Port
  imports M64_Prelude
begin

text \<open>
  What the two serial L2 adapters share: the results of the port reads they make, in the order
  the port gives them, and the contract between an adapter's parser and its read queue. The
  contract is a conservation law over \<^emph>\<open>items\<close>, the L3 octets and L2 errors that the raw bytes
  stand for, in stream order: parsing moves items from the wire buffer to the queue and the
  pending error, and neither loses nor invents nor reorders one.
\<close>

subsection \<open>Port reads\<close>

text \<open>One result of \<open>port.read(&mut scratch)\<close>; \<open>PortBytes []\<close> is \<open>Ok(0)\<close>.\<close>

datatype port_read = PortBytes octets | PortErr io_kind

text \<open>The next result of a port that has \<open>script\<close> to give; past its end nothing arrives.\<close>

fun port_next :: "port_read list \<Rightarrow> port_read \<times> port_read list" where
  "port_next [] = (PortErr TimedOut, [])"
| "port_next (r # rs) = (r, rs)"

fun port_bytes :: "port_read list \<Rightarrow> octets" where
  "port_bytes [] = []"
| "port_bytes (PortBytes bs # rs) = bs @ port_bytes rs"
| "port_bytes (PortErr e # rs) = port_bytes rs"

lemma port_bytes_append [simp]: "port_bytes (xs @ ys) = port_bytes xs @ port_bytes ys"
  by (induction xs rule: port_bytes.induct) simp_all

subsection \<open>Items, and the contract of a parser\<close>

type_synonym item = "io_kind + u8"

definition octet_items :: "octets \<Rightarrow> item list" where
  "octet_items bs = map Inr bs"

definition error_items :: "io_kind option \<Rightarrow> item list" where
  "error_items e = (case e of None \<Rightarrow> [] | Some k \<Rightarrow> [Inl k])"

lemma octet_items_simps [simp]:
  "octet_items [] = []" "octet_items (xs @ ys) = octet_items xs @ octet_items ys"
  by (simp_all add: octet_items_def)

lemma error_items_simps [simp]: "error_items None = []" "error_items (Some k) = [Inl k]"
  by (simp_all add: error_items_def)

locale l2_parser =
  fixes items :: "octets \<Rightarrow> item list"
    and process :: "octets \<Rightarrow> octets \<Rightarrow> io_kind option \<times> octets \<times> octets"
  assumes items_Nil: "items [] = []"
    and process_conserves:
      "process wire rx = (err, wire', rx') \<Longrightarrow>
       octet_items rx @ items (wire @ xs) = octet_items rx' @ error_items err @ items (wire' @ xs)"
begin

text \<open>What a pipe still owes its reader: the queue, then the pending error, then what the wire
  buffer and the bytes to come stand for.\<close>

definition owed :: "octets \<Rightarrow> io_kind option \<Rightarrow> octets \<Rightarrow> octets \<Rightarrow> item list" where
  "owed rx err wire xs = octet_items rx @ error_items err @ items (wire @ xs)"

lemma owed_process:
  "process wire rx = (err, wire', rx') \<Longrightarrow> owed rx' err wire' xs = owed rx None wire xs"
  by (simp add: owed_def process_conserves)

lemma owed_take:
  "octet_items (take n rx) @ owed (drop n rx) err wire xs = owed rx err wire xs"
proof -
  have "octet_items (take n rx) @ octet_items (drop n rx) = octet_items rx"
    by (simp flip: octet_items_simps(2))
  then show ?thesis unfolding owed_def by (metis append.assoc)
qed

lemma owed_error: "Inl e # owed [] None wire xs = owed [] (Some e) wire xs"
  by (simp add: owed_def)

lemma owed_push: "owed rx err (wire @ bs) xs = owed rx err wire (bs @ xs)"
  by (simp add: owed_def)

end

end
