(* ===== verification/Sc64_L2.thy ===== *)
theory Sc64_L2
  imports Sc64_Wire L2_Port
begin

text \<open>
  The SummerCart64 L2 adapter of \<open>crates/sc64-l2/src/lib.rs\<close>: \<open>process_wire_events\<close> and the
  pipe \<open>Sc64L2Pipe\<close> over a serial port given by the results of its reads. Opening the port and
  its timeout are the operating system's; nothing here depends on them.
\<close>

subsection \<open>From packets to L3 octets\<close>

definition PKT_U :: u8 where "PKT_U = 0x55"
definition PKT_G :: u8 where "PKT_G = 0x47"

function process_wire_events :: "octets \<Rightarrow> octets \<Rightarrow> io_kind option \<times> octets \<times> octets" where
  "process_wire_events wire l3_rx =
     (case next_event wire of
        (None, r) \<Rightarrow> (None, r, l3_rx)
      | (Some (Cmp _), r) \<Rightarrow> process_wire_events r l3_rx
      | (Some (Pkt p), r) \<Rightarrow>
          (if pkt_id p = PKT_U then
             (case pkt_u_multi64_l3_payload (pkt_data p) of
                Some l3 \<Rightarrow> process_wire_events r (l3_rx @ l3)
              | None \<Rightarrow> process_wire_events r l3_rx)
           else if pkt_id p = PKT_G then (Some ConnectionReset, r, l3_rx)
           else process_wire_events r l3_rx))"
  by pat_completeness auto
termination
  by (relation "measure (\<lambda>(wire, rx). length wire)") (auto dest: sc64.pull_shrinks [OF sym])

declare process_wire_events.simps [simp del]

text \<open>What one packet stands for on the L3 side.\<close>

definition event_items :: "wire_event \<Rightarrow> item list" where
  "event_items ev =
     (case ev of
        Cmp _ \<Rightarrow> []
      | Pkt p \<Rightarrow>
          (if pkt_id p = PKT_U then
             (case pkt_u_multi64_l3_payload (pkt_data p) of Some l3 \<Rightarrow> octet_items l3 | None \<Rightarrow> [])
           else if pkt_id p = PKT_G then [Inl ConnectionReset]
           else []))"

definition sc64_items :: "octets \<Rightarrow> item list" where
  "sc64_items raw = concat (map event_items (fst (wire_events raw)))"

lemma sc64_items_Some:
  "next_event wire = (Some ev, r) \<Longrightarrow> sc64_items (wire @ xs) = event_items ev @ sc64_items (r @ xs)"
  by (simp add: sc64_items_def wire_events_next [of "wire @ xs"] sc64.pull_extend)

lemma sc64_items_None:
  "next_event wire = (None, r) \<Longrightarrow> sc64_items (wire @ xs) = sc64_items (r @ xs)"
  by (simp add: sc64_items_def wire_events_next [of "wire @ xs"] wire_events_next [of "r @ xs"]
      sc64.pull_resume)

lemma process_wire_events_conserves:
  "process_wire_events wire rx = (err, wire', rx') \<Longrightarrow>
   octet_items rx @ sc64_items (wire @ xs) =
     octet_items rx' @ error_items err @ sc64_items (wire' @ xs)"
proof (induction wire rx rule: process_wire_events.induct)
  case (1 wire rx)
  show ?case
  proof (cases "next_event wire")
    case (Pair o' r)
    show ?thesis
    proof (cases o')
      case None
      with Pair "1.prems" show ?thesis
        by (auto simp: process_wire_events.simps [of wire] sc64_items_None)
    next
      case (Some ev)
      with Pair have nxt: "next_event wire = (Some ev, r)" by simp
      note step = "1.prems" [unfolded process_wire_events.simps [of wire]]
      show ?thesis
        using step nxt "1.IH" sc64_items_Some [OF nxt, of xs]
        by (auto simp: event_items_def split: wire_event.splits if_splits option.splits)
    qed
  qed
qed

interpretation sc64_l2: l2_parser sc64_items process_wire_events
  by unfold_locales
    (simp add: sc64_items_def wire_events.simps next_event_step_def,
     rule process_wire_events_conserves)

lemma process_wire_events_clean:
  "process_wire_events wire rx = (None, wire', rx') \<Longrightarrow> sc64_items wire' = []"
proof (induction wire rx rule: process_wire_events.induct)
  case (1 wire rx)
  show ?case
  proof (cases "next_event wire")
    case (Pair o' r)
    show ?thesis
    proof (cases o')
      case None
      with Pair have "next_event r = (None, r)" using sc64.pull_stuck by simp
      with None Pair "1.prems" show ?thesis
        by (auto simp: process_wire_events.simps [of wire] sc64_items_def dest: wire_events_None)
    next
      case (Some ev)
      with Pair have nxt: "next_event wire = (Some ev, r)" by simp
      note step = "1.prems" [unfolded process_wire_events.simps [of wire]]
      show ?thesis
        using step nxt "1.IH"
        by (auto split: wire_event.splits if_splits option.splits)
    qed
  qed
qed

subsection \<open>The pipe\<close>

record sc64_pipe =
  sp_port :: "port_read list"
  sp_written :: octets
  sp_wire :: octets
  sp_l3_rx :: octets
  sp_pending_err :: "io_kind option"

definition sc64_pipe_open :: "port_read list \<Rightarrow> sc64_pipe" where
  "sc64_pipe_open port =
     \<lparr>sp_port = port, sp_written = [], sp_wire = [], sp_l3_rx = [], sp_pending_err = None\<rparr>"

definition sc64_clear_serial_buffers :: "sc64_pipe \<Rightarrow> sc64_pipe" where
  "sc64_clear_serial_buffers p = p\<lparr>sp_wire := [], sp_l3_rx := [], sp_pending_err := None\<rparr>"

definition sc64_write_l3_stream_with_max :: "octets \<Rightarrow> nat \<Rightarrow> sc64_pipe \<Rightarrow> sc64_pipe" where
  "sc64_write_l3_stream_with_max buf max_chunk p =
     p\<lparr>sp_written := sp_written p @ concat (usb_write_l3_stream buf (max max_chunk 1))\<rparr>"

definition sc64_write_l3_stream :: "octets \<Rightarrow> sc64_pipe \<Rightarrow> sc64_pipe" where
  "sc64_write_l3_stream buf p = sc64_write_l3_stream_with_max buf DEFAULT_USB_WRITE_CHUNK p"

text \<open>
  \<open>read_l3_bytes\<close> into a buffer of \<open>n\<close> bytes: \<open>Inr bs\<close> is \<open>Ok(bs.len())\<close> with those bytes filled
  in. A port that has nothing more to give times out, so the loop always ends.
\<close>

function sc64_read_l3_bytes :: "nat \<Rightarrow> sc64_pipe \<Rightarrow> (io_kind + octets) \<times> sc64_pipe" where
  "sc64_read_l3_bytes n p =
     (if n = 0 then (Inr [], p)
      else if sp_l3_rx p \<noteq> [] then
        (Inr (take n (sp_l3_rx p)), p\<lparr>sp_l3_rx := drop n (sp_l3_rx p)\<rparr>)
      else case sp_pending_err p of
        Some e \<Rightarrow> (Inl e, p\<lparr>sp_pending_err := None\<rparr>)
      | None \<Rightarrow>
          (case sp_port p of
             [] \<Rightarrow> (Inr [], p)
           | PortErr e # port \<Rightarrow>
               ((if e = TimedOut then Inr [] else Inl e), p\<lparr>sp_port := port\<rparr>)
           | PortBytes bs # port \<Rightarrow>
               (if bs = [] then (Inr [], p\<lparr>sp_port := port\<rparr>)
                else case process_wire_events (sp_wire p @ bs) (sp_l3_rx p) of
                  (err, wire, rx) \<Rightarrow>
                    sc64_read_l3_bytes n
                      (p\<lparr>sp_port := port, sp_wire := wire, sp_l3_rx := rx, sp_pending_err := err\<rparr>))))"
  by pat_completeness auto
termination
  by (relation "measure (\<lambda>(n, p). length (sp_port p))") auto

declare sc64_read_l3_bytes.simps [simp del]

text \<open>What a pipe still owes: the items of everything read and of the bytes to come.\<close>

definition sc64_owed :: "sc64_pipe \<Rightarrow> item list" where
  "sc64_owed p =
     sc64_l2.owed (sp_l3_rx p) (sp_pending_err p) (sp_wire p) (port_bytes (sp_port p))"

definition port_clean :: "port_read list \<Rightarrow> bool" where
  "port_clean port \<longleftrightarrow> (\<forall>r \<in> set port. \<forall>e. r = PortErr e \<longrightarrow> e = TimedOut)"

definition read_items :: "io_kind + octets \<Rightarrow> item list" where
  "read_items r = (case r of Inl e \<Rightarrow> [Inl e] | Inr bs \<Rightarrow> octet_items bs)"

lemma sc64_read_conserves:
  assumes "sc64_read_l3_bytes n p = (res, p')" "port_clean (sp_port p)"
  shows "sc64_owed p = read_items res @ sc64_owed p' \<and> port_clean (sp_port p')"
  using assms
proof (induction "length (sp_port p)" arbitrary: p res p' rule: less_induct)
  case less
  note step = less.prems(1) [unfolded sc64_read_l3_bytes.simps [of n p]]
  consider (empty) "n = 0" | (queue) "n \<noteq> 0" "sp_l3_rx p \<noteq> []"
    | (err) e where "n \<noteq> 0" "sp_l3_rx p = []" "sp_pending_err p = Some e"
    | (port) "n \<noteq> 0" "sp_l3_rx p = []" "sp_pending_err p = None" by blast
  then show ?case
  proof cases
    case empty
    with step less.prems(2) show ?thesis by (auto simp: read_items_def)
  next
    case queue
    with step less.prems(2) show ?thesis
      by (auto simp: read_items_def sc64_owed_def sc64_l2.owed_take)
  next
    case err
    with step less.prems(2) show ?thesis
      by (auto simp: read_items_def sc64_owed_def sc64_l2.owed_error)
  next
    case port
    show ?thesis
    proof (cases "sp_port p")
      case Nil
      with port step less.prems(2) show ?thesis by (auto simp: read_items_def)
    next
      case (Cons r rs)
      have clean: "port_clean rs" using less.prems(2) Cons by (simp add: port_clean_def)
      show ?thesis
      proof (cases r)
        case (PortErr e)
        moreover have "e = TimedOut" using less.prems(2) Cons PortErr by (simp add: port_clean_def)
        ultimately show ?thesis using port Cons step clean by (auto simp: read_items_def sc64_owed_def)
      next
        case (PortBytes bs)
        show ?thesis
        proof (cases "bs = []")
          case True
          with PortBytes port Cons step clean show ?thesis
            by (auto simp: read_items_def sc64_owed_def)
        next
          case False
          obtain err wire rx where proc: "process_wire_events (sp_wire p @ bs) (sp_l3_rx p) = (err, wire, rx)"
            by (cases "process_wire_events (sp_wire p @ bs) (sp_l3_rx p)") auto
          let ?q = "p\<lparr>sp_port := rs, sp_wire := wire, sp_l3_rx := rx, sp_pending_err := err\<rparr>"
          have "sc64_read_l3_bytes n ?q = (res, p')"
            using step port Cons PortBytes False proc by simp
          then have "sc64_owed ?q = read_items res @ sc64_owed p' \<and> port_clean (sp_port p')"
            using clean by (intro less.hyps) (simp_all add: Cons)
          moreover have "sc64_owed ?q = sc64_owed p"
            using sc64_l2.owed_process [OF proc] port
            by (simp add: sc64_owed_def Cons PortBytes sc64_l2.owed_push)
          ultimately show ?thesis by simp
        qed
      qed
    qed
  qed
qed

text \<open>A session of reads into buffers of the given sizes, errors included.\<close>

fun sc64_reads :: "nat list \<Rightarrow> sc64_pipe \<Rightarrow> (io_kind + octets) list \<times> sc64_pipe" where
  "sc64_reads [] p = ([], p)"
| "sc64_reads (n # ns) p =
     (let (r, p') = sc64_read_l3_bytes n p; (rs, p'') = sc64_reads ns p' in (r # rs, p''))"

lemma sc64_reads_conserve:
  "sc64_reads ns p = (rs, p') \<Longrightarrow> port_clean (sp_port p) \<Longrightarrow>
   sc64_owed p = concat (map read_items rs) @ sc64_owed p'"
proof (induction ns arbitrary: p rs)
  case Nil
  then show ?case by simp
next
  case (Cons n ns)
  obtain r q where first: "sc64_read_l3_bytes n p = (r, q)" by fastforce
  obtain rs' where rest: "sc64_reads ns q = (rs', p')" "rs = r # rs'"
    using Cons.prems(1) first by (auto split: prod.splits)
  from sc64_read_conserves [OF first Cons.prems(2)] Cons.IH [OF rest(1)] show ?case
    by (simp add: rest(2))
qed

text \<open>C26: Reading from a SummerCart64 yields the L3 octets the cart sent and the link errors it
  reported, in exactly the order they were sent: over any port reads (timeouts among them) and
  any buffer sizes, what was returned followed by what is still owed is what the bytes stand for.
  So an error comes only after every octet before it, and nothing is lost, repeated or moved.\<close>

theorem sc64_reads_in_order:
  assumes "port_clean script" and "sc64_reads ns (sc64_pipe_open script) = (rs, p')"
  shows "concat (map read_items rs) @ sc64_owed p' = sc64_items (port_bytes script)"
  using sc64_reads_conserve [OF assms(2)] assms(1)
  by (simp add: sc64_pipe_open_def sc64_owed_def sc64_l2.owed_def)

definition sc64_sample_script :: "port_read list" where
  "sc64_sample_script =
     [PortBytes (event_bytes (Pkt \<lparr>pkt_id = PKT_U, pkt_data = [1, 0, 0, 2, 8, 9]\<rparr>)), PortErr TimedOut]"

theorem sc64_reads_in_order_witness:
  "\<exists>rs p'. sc64_reads [1, 4, 4] (sc64_pipe_open sc64_sample_script) = (rs, p') \<and>
     concat (map read_items rs) @ sc64_owed p' = sc64_items (port_bytes sc64_sample_script)"
proof -
  obtain rs p' where run: "sc64_reads [1, 4, 4] (sc64_pipe_open sc64_sample_script) = (rs, p')"
    by fastforce
  have "port_clean sc64_sample_script" by (simp add: port_clean_def sc64_sample_script_def)
  from sc64_reads_in_order [OF this run] run show ?thesis by blast
qed

text \<open>
  Progress: as long as the cart reports no flush, every read into a buffer with room takes something
  from the port or hands over something that is owed, so enough reads hand over everything.
\<close>

definition sc64_settled :: "sc64_pipe \<Rightarrow> bool" where
  "sc64_settled p \<longleftrightarrow>
     sp_pending_err p = None \<and> sc64_items (sp_wire p) = [] \<and> port_clean (sp_port p) \<and>
     (\<forall>x \<in> set (sc64_owed p). \<exists>b. x = Inr b)"

definition sc64_left :: "sc64_pipe \<Rightarrow> nat" where
  "sc64_left p = length (sc64_owed p) + length (sp_port p)"

lemma sc64_read_progress:
  assumes "sc64_read_l3_bytes n p = (res, p')" "0 < n" "sc64_settled p"
  shows "sc64_settled p' \<and> sc64_left p' \<le> sc64_left p \<and>
    (sc64_left p' = sc64_left p \<longrightarrow> sc64_left p = 0)"
  using assms
proof (induction "length (sp_port p)" arbitrary: p res p' rule: less_induct)
  case less
  note step = less.prems(1) [unfolded sc64_read_l3_bytes.simps [of n p]]
  have clean: "port_clean (sp_port p)" and pend: "sp_pending_err p = None"
    and wire: "sc64_items (sp_wire p) = []" and oct: "\<forall>x \<in> set (sc64_owed p). \<exists>b. x = Inr b"
    using less.prems(3) by (simp_all add: sc64_settled_def)
  note cons = sc64_read_conserves [OF less.prems(1) clean]
  show ?case
  proof (cases "sp_l3_rx p = []")
    case False
    then have "res = Inr (take n (sp_l3_rx p))" "p' = p\<lparr>sp_l3_rx := drop n (sp_l3_rx p)\<rparr>"
      using step less.prems(2) by auto
    with cons oct False pend wire clean less.prems(2) show ?thesis
      by (auto simp: sc64_settled_def sc64_left_def read_items_def octet_items_def)
  next
    case rx: True
    show ?thesis
    proof (cases "sp_port p")
      case Nil
      then have "sc64_owed p = []"
        using rx pend wire by (simp add: sc64_owed_def sc64_l2.owed_def)
      moreover have "p' = p" using step Nil rx pend less.prems(2) by simp
      ultimately show ?thesis using less.prems(3) Nil by (simp add: sc64_left_def)
    next
      case (Cons r rs)
      let ?q = "p\<lparr>sp_port := rs\<rparr>"
      show ?thesis
      proof (cases "\<exists>bs. r = PortBytes bs \<and> bs \<noteq> []")
        case False
        then have "p' = ?q \<and> sc64_owed ?q = sc64_owed p"
          using step Cons rx pend less.prems(2) clean
          by (cases r) (auto simp: port_clean_def sc64_owed_def)
        with oct clean wire pend Cons show ?thesis
          by (auto simp: sc64_settled_def sc64_left_def port_clean_def)
      next
        case True
        then obtain bs where bs: "r = PortBytes bs" "bs \<noteq> []" by blast
        obtain err w' rx' where proc: "process_wire_events (sp_wire p @ bs) (sp_l3_rx p) = (err, w', rx')"
          by (metis prod_cases3)
        let ?q = "p\<lparr>sp_port := rs, sp_wire := w', sp_l3_rx := rx', sp_pending_err := err\<rparr>"
        have read: "sc64_read_l3_bytes n ?q = (res, p')"
          using step Cons bs rx pend less.prems(2) proc by simp
        have owed: "sc64_owed ?q = sc64_owed p"
          using sc64_l2.owed_process [OF proc] rx pend
          by (simp add: sc64_owed_def Cons bs sc64_l2.owed_push)
        have "err = None"
          using oct unfolding owed [symmetric]
          by (cases err) (auto simp: sc64_owed_def sc64_l2.owed_def)
        then have settled: "sc64_settled ?q"
          using process_wire_events_clean [of "sp_wire p @ bs" "sp_l3_rx p" w' rx'] proc clean oct owed Cons
          by (simp add: sc64_settled_def port_clean_def)
        have "sc64_settled p' \<and> sc64_left p' \<le> sc64_left ?q"
          using less.hyps [OF _ read less.prems(2) settled] by (simp add: Cons)
        moreover have "sc64_left ?q < sc64_left p" by (simp add: sc64_left_def owed Cons)
        ultimately show ?thesis by auto
      qed
    qed
  qed
qed

lemma sc64_reads_progress:
  assumes "sc64_reads ns p = (rs, p')" "\<forall>n \<in> set ns. 0 < n" "sc64_settled p" "sc64_left p \<le> length ns"
  shows "sc64_owed p' = []"
  using assms
proof (induction ns arbitrary: p rs)
  case Nil
  then show ?case by (simp add: sc64_left_def)
next
  case (Cons n ns)
  obtain r q where first: "sc64_read_l3_bytes n p = (r, q)" by fastforce
  obtain rs' where rest: "sc64_reads ns q = (rs', p')"
    using Cons.prems(1) first by (auto split: prod.splits)
  note pr = sc64_read_progress [OF first _ Cons.prems(3)]
  show ?case
    by (rule Cons.IH [OF rest]) (use pr Cons.prems(2,4) in auto)
qed

text \<open>
  After a flush notice the parser stops, with whole packets possibly behind it. They are parsed
  by the next read that brings bytes, and not before: with a quiet port the octets of a packet
  already held stay unread.
\<close>

definition flush_script :: "port_read list" where
  "flush_script =
     [PortBytes (event_bytes (Pkt \<lparr>pkt_id = PKT_G, pkt_data = []\<rparr>)
        @ event_bytes (Pkt \<lparr>pkt_id = PKT_U, pkt_data = [1, 0, 0, 1, 8]\<rparr>))]"

lemma sc64_octets_behind_flush_wait:
  "\<exists>p. fst (sc64_read_l3_bytes 16 (sc64_pipe_open flush_script)) = Inl ConnectionReset \<and>
     snd (sc64_read_l3_bytes 16 (sc64_pipe_open flush_script)) = p \<and>
     sc64_read_l3_bytes 16 p = (Inr [], p) \<and> sc64_owed p = [Inr 8]"
proof -
  let ?u = "Pkt \<lparr>pkt_id = PKT_U, pkt_data = [1, 0, 0, 1, 8]\<rparr>"
  let ?g = "Pkt \<lparr>pkt_id = PKT_G, pkt_data = []\<rparr>"
  have "next_event (event_bytes ?g @ event_bytes ?u) = (Some ?g, event_bytes ?u)"
    by (rule sc64.pull_Emit, rule next_event_step_bytes) (simp add: event_wf_def)
  then have proc: "process_wire_events (event_bytes ?g @ event_bytes ?u) [] =
      (Some ConnectionReset, event_bytes ?u, [])"
    by (simp add: process_wire_events.simps PKT_G_def PKT_U_def)
  let ?p = "\<lparr>sp_port = [], sp_written = [], sp_wire = event_bytes ?u, sp_l3_rx = [],
    sp_pending_err = None\<rparr>"
  have nonempty: "event_bytes ?g @ event_bytes ?u \<noteq> []" by (simp add: event_bytes_def sc64_tags)
  have "sc64_read_l3_bytes 16 (sc64_pipe_open flush_script) = (Inl ConnectionReset, ?p)"
    by (simp add: sc64_read_l3_bytes.simps sc64_pipe_open_def flush_script_def proc nonempty
        del: append_is_Nil_conv)
  moreover have "sc64_read_l3_bytes 16 ?p = (Inr [], ?p)"
    by (simp add: sc64_read_l3_bytes.simps)
  moreover have "wire_events (event_bytes ?u) = ([?u], [])"
    using wire_events_bytes [of "[?u]" "[]"] wire_events_None [of "[]" "[]"]
    by (simp add: event_wf_def MAX_PKT_DATA_LEN_def next_event.simps next_event_step_def)
  then have "sc64_owed ?p = [Inr 8]"
    by (simp add: sc64_owed_def sc64_l2.owed_def sc64_items_def event_items_def
        pkt_u_multi64_l3_payload_def MULTI64_L3_TYPE_def slice_def octet_items_def)
  ultimately show ?thesis by simp
qed

end
