(* ===== verification/Ed64_L2.thy ===== *)
theory Ed64_L2
  imports Stream_Scan L2_Port
begin

text \<open>
  The EverDrive-64 X7 L2 adapter of \<open>crates/ed64-l2/src/lib.rs\<close>: the \<open>DMA@\<close> framing in both
  directions, its parser with the resynchronization after a bad trailer, and the pipe, which also
  drops a message the cart stops sending part-way. Time is what each port read took, in
  milliseconds.
\<close>

subsection \<open>Framing\<close>

definition ED64_L3_TYPE :: u8 where "ED64_L3_TYPE = 0x01"
definition DMA_MAGIC :: octets where "DMA_MAGIC = [0x44, 0x4D, 0x41, 0x40]"
definition CMP_MAGIC :: octets where "CMP_MAGIC = [0x43, 0x4D, 0x50, 0x48]"
definition WIRE_ALIGN :: nat where "WIRE_ALIGN = 2"
definition MAX_MESSAGE_BYTES :: nat where "MAX_MESSAGE_BYTES = 0x00FFFFFF"
definition PARTIAL_MESSAGE_STALL :: nat where "PARTIAL_MESSAGE_STALL = 500"
definition DEFAULT_ED64_CHUNK :: nat where "DEFAULT_ED64_CHUNK = 512"

definition align_up :: "nat \<Rightarrow> nat \<Rightarrow> nat" where
  "align_up n k = (n + k - 1) div k * k"

record wire_message =
  wm_datatype :: u8
  wm_payload :: octets

definition resync :: "octets \<Rightarrow> octets" where
  "resync buf =
     (if take 4 buf = DMA_MAGIC then buf
      else case find_sub DMA_MAGIC buf of
        Some at' \<Rightarrow> drop at' buf
      | None \<Rightarrow>
          (let keep = min (length DMA_MAGIC - 1) (length buf) in drop (length buf - keep) buf))"

text \<open>
  \<open>next_message\<close>: \<open>Wait\<close> is \<open>Ok(None)\<close>, \<open>Emit (Inr m)\<close> is \<open>Ok(Some(m))\<close> and \<open>Emit (Inl e)\<close> is
  \<open>Err(e)\<close>; the bytes are what the buffer holds afterwards.
\<close>

definition next_message :: "octets \<Rightarrow> (io_kind + wire_message, u8) scan" where
  "next_message buf0 =
     (let buf = resync buf0 in
      if length buf < 8 then Wait buf
      else
        let head = be32_at buf 4;
            datatype' = (ucast (drop_bit 24 head) :: u8);
            size = unat (head AND 0x00FFFFFF);
            trailer = 8 + size;
            total = align_up (trailer + length CMP_MAGIC) WIRE_ALIGN
        in if length buf < total then Wait buf
           else if slice trailer (trailer + length CMP_MAGIC) buf \<noteq> CMP_MAGIC
             then Emit (Inl InvalidData) (drop (length DMA_MAGIC) buf)
           else Emit (Inr \<lparr>wm_datatype = datatype', wm_payload = slice 8 trailer buf\<rparr>)
                  (drop total buf))"

text \<open>Host to cart: the payload is padded and the trailer follows the padding.\<close>

definition encode_message :: "u8 \<Rightarrow> octets \<Rightarrow> io_kind + octets" where
  "encode_message datatype' payload =
     (if MAX_MESSAGE_BYTES < length payload then Inl OtherKind
      else let padded = align_up (length payload) WIRE_ALIGN;
               head = push_bit 24 (ucast datatype') OR (of_nat (length payload) AND 0x00FFFFFF)
           in Inr (DMA_MAGIC @ be32 head @ payload @ replicate (padded - length payload) 0 @ CMP_MAGIC))"

text \<open>Cart to host, as the specification and libdragon have it: the trailer straight after the
  payload, then one byte of whatever when the length is odd.\<close>

definition cart_message :: "u8 \<Rightarrow> octets \<Rightarrow> u8 \<Rightarrow> octets" where
  "cart_message datatype' payload pad =
     DMA_MAGIC @ be32 (push_bit 24 (ucast datatype') OR (of_nat (length payload) AND 0x00FFFFFF))
       @ payload @ CMP_MAGIC @ (if even (length payload) then [] else [pad])"

lemma length_DMA [simp]: "length DMA_MAGIC = 4" and length_CMP [simp]: "length CMP_MAGIC = 4"
  by (simp_all add: DMA_MAGIC_def CMP_MAGIC_def)

lemma DMA_nonempty [simp]: "DMA_MAGIC \<noteq> []"
  by (simp add: DMA_MAGIC_def)

lemma align_up_2: "align_up n WIRE_ALIGN = n + n mod 2"
  by (simp add: align_up_def WIRE_ALIGN_def) presburger

lemma align_up_ge: "n \<le> align_up n WIRE_ALIGN"
  by (simp add: align_up_2)

lemma resync_skip_to: "resync buf = skip_to DMA_MAGIC buf"
  using skip_to_id [of DMA_MAGIC buf]
  by (auto simp: resync_def skip_to_def Let_def split: option.split)

definition message_at :: "octets \<Rightarrow> (io_kind + wire_message, u8) scan" where
  "message_at buf =
     (if length buf < 8 then Wait buf
      else
        let size = unat (be32_at buf 4 AND 0x00FFFFFF);
            total = align_up (8 + size + 4) WIRE_ALIGN
        in if length buf < total then Wait buf
           else if slice (8 + size) (8 + size + 4) buf \<noteq> CMP_MAGIC
             then Emit (Inl InvalidData) (drop 4 buf)
           else Emit (Inr \<lparr>wm_datatype = ucast (drop_bit 24 (be32_at buf 4)),
                           wm_payload = slice 8 (8 + size) buf\<rparr>) (drop total buf))"

lemma next_message_at: "next_message buf = message_at (skip_to DMA_MAGIC buf)"
  by (simp add: next_message_def message_at_def resync_skip_to Let_def)

lemma message_at_Wait: "message_at buf = Wait r \<Longrightarrow> r = buf"
  by (auto simp: message_at_def Let_def split: if_splits)

lemma message_at_not_Skip: "message_at buf \<noteq> Skip r"
  by (auto simp: message_at_def Let_def)

lemma message_at_Emit:
  "message_at buf = Emit e r \<Longrightarrow> 8 \<le> length buf \<and> length r < length buf"
  using align_up_ge [of "8 + unat (be32_at buf 4 AND 0x00FFFFFF) + 4"]
  by (auto simp: message_at_def Let_def split: if_splits)

lemma message_at_extend:
  assumes "message_at buf = Emit e r"
  shows "message_at (buf @ xs) = Emit e (r @ xs)"
proof -
  let ?size = "unat (be32_at buf 4 AND 0x00FFFFFF)"
  have "8 + ?size + 4 \<le> align_up (8 + ?size + 4) WIRE_ALIGN" by (rule align_up_ge)
  with assms show ?thesis
    by (auto simp: message_at_def Let_def not_less split: if_splits)
qed

interpretation ed64: scanner next_message
proof unfold_locales
  fix buf r xs :: octets and e
  let ?s = "skip_to DMA_MAGIC buf"
  show "length r < length buf" if "next_message buf = Skip r"
    using that by (simp add: next_message_at message_at_not_Skip)
  show "length r < length buf" if "next_message buf = Emit e r"
    using that length_skip_to [of DMA_MAGIC buf]
    by (auto simp: next_message_at dest!: message_at_Emit)
  show "next_message (buf @ xs) = Skip (r @ xs)" if "next_message buf = Skip r"
    using that by (simp add: next_message_at message_at_not_Skip)
  show "next_message (buf @ xs) = Emit e (r @ xs)" if "next_message buf = Emit e r"
  proof -
    from that have m: "message_at ?s = Emit e r" by (simp add: next_message_at)
    then have "skip_to DMA_MAGIC (buf @ xs) = ?s @ xs"
      using message_at_Emit [OF m] by (intro skip_to_extend) simp_all
    with m show ?thesis by (simp add: next_message_at message_at_extend)
  qed
  show "next_message (r @ xs) = next_message (buf @ xs)" if "next_message buf = Wait r"
  proof -
    from that have "r = ?s" by (auto simp: next_message_at dest: message_at_Wait)
    then show ?thesis by (simp add: next_message_at skip_to_resume)
  qed
qed

text \<open>Every message and framing error of a byte stream, in order.\<close>

function wire_messages :: "octets \<Rightarrow> (io_kind + wire_message) list \<times> octets" where
  "wire_messages buf =
     (case next_message buf of
        Wait r \<Rightarrow> ([], r)
      | Skip r \<Rightarrow> wire_messages r
      | Emit e r \<Rightarrow> (let (es, r') = wire_messages r in (e # es, r')))"
  by pat_completeness auto
termination
  by (relation "measure length") (auto dest: ed64.skip_shrinks ed64.emit_shrinks)

declare wire_messages.simps [simp del]

interpretation ed64: draining next_message wire_messages
  by unfold_locales (rule wire_messages.simps)

subsection \<open>The two directions\<close>

lemma mask24: "(0x00FFFFFF :: u32) = mask 24"
  by (simp add: mask_eq_exp_minus_1)

lemma head_size:
  assumes "n \<le> MAX_MESSAGE_BYTES"
  shows "unat ((push_bit 24 (ucast (d :: u8)) OR (of_nat n AND 0x00FFFFFF) :: u32) AND 0x00FFFFFF) = n"
proof -
  have "(push_bit 24 (ucast d) OR (of_nat n AND 0x00FFFFFF) :: u32) AND 0x00FFFFFF = of_nat n AND 0x00FFFFFF"
    by (rule bit_word_eqI) (auto simp: mask24 bit_simps)
  moreover have "(of_nat n AND 0x00FFFFFF :: u32) = take_bit 24 (of_nat n)"
    by (simp only: mask24 take_bit_eq_mask)
  moreover have "n < 2 ^ 24" using assms by (simp add: MAX_MESSAGE_BYTES_def)
  then have "unat (take_bit 24 (of_nat n :: u32)) = n"
    by (simp only: unsigned_take_bit_eq) (simp add: unsigned_of_nat take_bit_nat_eq_self)
  ultimately show ?thesis by simp
qed

lemma head_datatype:
  "(ucast (drop_bit 24 (push_bit 24 (ucast d) OR (n AND 0x00FFFFFF) :: u32)) :: u8) = d"
  by (rule bit_word_eqI) (auto simp: mask24 bit_simps)

subsection \<open>What the parser makes of a message\<close>

lemma slice_append_exact: "length a = i \<Longrightarrow> i + length b = j \<Longrightarrow> slice i j (a @ b @ c) = b"
  by (auto simp: slice_def)

lemma next_message_framed:
  assumes "unat (head AND 0x00FFFFFF) = length payload"
    and "length tail = align_up (length payload) WIRE_ALIGN - length payload + 4"
  shows "next_message (DMA_MAGIC @ be32 head @ payload @ tail @ xs) =
    (if take 4 tail = CMP_MAGIC
     then Emit (Inr \<lparr>wm_datatype = ucast (drop_bit 24 head), wm_payload = payload\<rparr>) xs
     else Emit (Inl InvalidData) (be32 head @ payload @ tail @ xs))"
proof -
  let ?buf = "DMA_MAGIC @ be32 head @ payload @ tail @ xs"
  have at': "skip_to DMA_MAGIC ?buf = ?buf" by (rule skip_to_id) simp_all
  have head: "be32_at ?buf 4 = head" by (rule be32_at_be32) simp
  have total: "align_up (8 + length payload + 4) WIRE_ALIGN = 8 + length payload + length tail"
    using assms(2) by (simp add: align_up_2) presburger
  have "slice 8 (8 + length payload) ((DMA_MAGIC @ be32 head) @ payload @ (tail @ xs)) = payload"
    by (rule slice_append_exact) simp_all
  then have body: "slice 8 (8 + length payload) ?buf = payload" by simp
  have "slice (8 + length payload) (8 + length payload + 4)
      ((DMA_MAGIC @ be32 head @ payload) @ take 4 tail @ (drop 4 tail @ xs)) = take 4 tail"
    using assms(2) by (intro slice_append_exact) simp_all
  moreover have "take 4 tail @ drop 4 tail @ xs = tail @ xs"
    by (simp only: append_assoc [symmetric] append_take_drop_id)
  ultimately have trailer: "slice (8 + length payload) (8 + length payload + 4) ?buf = take 4 tail"
    by (simp only: append_assoc)
  show ?thesis
    unfolding next_message_at at' message_at_def Let_def head assms(1) total trailer body
    using assms(2) by simp
qed

lemma next_message_cart:
  assumes "length payload \<le> MAX_MESSAGE_BYTES"
  shows "next_message (cart_message d payload pad @ xs) =
    Emit (Inr \<lparr>wm_datatype = d, wm_payload = payload\<rparr>) xs"
proof -
  let ?tail = "CMP_MAGIC @ (if even (length payload) then [] else [pad])"
  have "length ?tail = align_up (length payload) WIRE_ALIGN - length payload + 4"
    by (simp add: align_up_2 odd_iff_mod_2_eq_one even_iff_mod_2_eq_zero)
  from next_message_framed [OF head_size [OF assms] this] show ?thesis
    unfolding cart_message_def head_datatype by simp
qed

lemma encode_message_frame:
  assumes "length payload \<le> MAX_MESSAGE_BYTES"
  obtains head where "unat (head AND 0x00FFFFFF) = length payload" "ucast (drop_bit 24 head) = d"
    "encode_message d payload =
       Inr (DMA_MAGIC @ be32 head @ payload @ (if even (length payload) then [] else [0]) @ CMP_MAGIC)"
proof
  let ?head = "push_bit 24 (ucast d) OR (of_nat (length payload) AND 0x00FFFFFF) :: u32"
  show "unat (?head AND 0x00FFFFFF) = length payload" by (rule head_size [OF assms])
  show "ucast (drop_bit 24 ?head) = d" by (rule head_datatype)
  show "encode_message d payload =
       Inr (DMA_MAGIC @ be32 ?head @ payload @ (if even (length payload) then [] else [0]) @ CMP_MAGIC)"
    using assms by (simp add: encode_message_def Let_def align_up_2 odd_iff_mod_2_eq_one
        even_iff_mod_2_eq_zero)
qed

lemma next_message_encoded:
  assumes "length payload \<le> MAX_MESSAGE_BYTES" "encode_message d payload = Inr msg"
  shows "next_message (msg @ xs) =
    (if even (length payload) then Emit (Inr \<lparr>wm_datatype = d, wm_payload = payload\<rparr>) xs
     else Emit (Inl InvalidData) (drop 4 msg @ xs))"
proof -
  obtain head where head: "unat (head AND 0x00FFFFFF) = length payload" "ucast (drop_bit 24 head) = d"
    "encode_message d payload =
       Inr (DMA_MAGIC @ be32 head @ payload @ (if even (length payload) then [] else [0]) @ CMP_MAGIC)"
    using encode_message_frame [OF assms(1)] by metis
  let ?tail = "(if even (length payload) then [] else [0]) @ CMP_MAGIC"
  have "length ?tail = align_up (length payload) WIRE_ALIGN - length payload + 4"
    by (simp add: align_up_2 odd_iff_mod_2_eq_one even_iff_mod_2_eq_zero)
  from next_message_framed [OF head(1) this, of xs] head(2,3) assms(2) show ?thesis
    by (cases "even (length payload)") (auto simp: CMP_MAGIC_def DMA_MAGIC_def)
qed

text \<open>\<open>WireBuffer::next_message\<close> reads what a cart sends: any datatype, any payload the
  24-bit size field can carry, even or odd, and whatever alignment byte follows an odd one, with
  anything after it left in the buffer. It reads what the host sends only when the payload is
  even: an odd one puts the alignment before the trailer, and is reported as a bad trailer.\<close>

theorem next_message_reads_messages:
  assumes "length payload \<le> MAX_MESSAGE_BYTES"
  shows "next_message (cart_message d payload pad @ rest) =
      Emit (Inr \<lparr>wm_datatype = d, wm_payload = payload\<rparr>) rest \<and>
    (\<exists>msg. encode_message d payload = Inr msg \<and>
      next_message (msg @ rest) =
       (if even (length payload) then Emit (Inr \<lparr>wm_datatype = d, wm_payload = payload\<rparr>) rest
        else Emit (Inl InvalidData) (drop 4 msg @ rest)))"
  using next_message_cart [OF assms] next_message_encoded [OF assms] encode_message_frame [OF assms]
  by metis

theorem next_message_reads_messages_witness:
  "next_message (cart_message 1 [5, 6, 7] 0xEE @ [9]) =
      Emit (Inr \<lparr>wm_datatype = 1, wm_payload = [5, 6, 7]\<rparr>) [9] \<and>
    (\<exists>msg. encode_message 1 [5, 6, 7] = Inr msg \<and>
      next_message (msg @ [9]) = Emit (Inl InvalidData) (drop 4 msg @ [9]))"
  using next_message_reads_messages [where payload = "[5, 6, 7]" and d = 1 and pad = "0xEE" and rest = "[9]"]
  by (simp add: MAX_MESSAGE_BYTES_def del: drop_append)

subsection \<open>From messages to L3 octets\<close>

function process_wire_messages :: "octets \<Rightarrow> octets \<Rightarrow> io_kind option \<times> octets \<times> octets" where
  "process_wire_messages wire l3_rx =
     (case next_message wire of
        Wait r \<Rightarrow> (None, r, l3_rx)
      | Skip r \<Rightarrow> process_wire_messages r l3_rx
      | Emit (Inl e) r \<Rightarrow> (Some e, r, l3_rx)
      | Emit (Inr m) r \<Rightarrow>
          (if wm_datatype m = ED64_L3_TYPE then process_wire_messages r (l3_rx @ wm_payload m)
           else process_wire_messages r l3_rx))"
  by pat_completeness auto
termination
  by (relation "measure (\<lambda>(wire, rx). length wire)")
    (auto dest: ed64.skip_shrinks ed64.emit_shrinks)

declare process_wire_messages.simps [simp del]

definition message_items :: "io_kind + wire_message \<Rightarrow> item list" where
  "message_items r =
     (case r of
        Inl e \<Rightarrow> [Inl e]
      | Inr m \<Rightarrow> if wm_datatype m = ED64_L3_TYPE then octet_items (wm_payload m) else [])"

definition ed64_items :: "octets \<Rightarrow> item list" where
  "ed64_items raw = concat (map message_items (fst (wire_messages raw)))"

lemma ed64_items_Emit:
  "next_message wire = Emit e r \<Longrightarrow> ed64_items (wire @ xs) = message_items e @ ed64_items (r @ xs)"
  by (simp add: ed64_items_def ed64.drain_Emit [OF ed64.emit_extend])

lemma ed64_items_Wait:
  "next_message wire = Wait r \<Longrightarrow> ed64_items (wire @ xs) = ed64_items (r @ xs)"
  by (simp add: ed64_items_def wire_messages.simps [of "wire @ xs"] wire_messages.simps [of "r @ xs"]
      ed64.wait_resume)

lemma next_message_not_Skip: "next_message buf \<noteq> Skip r"
  by (simp add: next_message_at message_at_not_Skip)

lemma process_wire_messages_conserves:
  "process_wire_messages wire rx = (err, wire', rx') \<Longrightarrow>
   octet_items rx @ ed64_items (wire @ xs) =
     octet_items rx' @ error_items err @ ed64_items (wire' @ xs)"
proof (induction wire rx rule: process_wire_messages.induct)
  case (1 wire rx)
  note step = "1.prems" [unfolded process_wire_messages.simps [of wire]]
  show ?case
  proof (cases "next_message wire")
    case (Wait r)
    with step show ?thesis by (auto simp: ed64_items_Wait)
  next
    case (Skip r)
    then show ?thesis by (simp add: next_message_not_Skip)
  next
    case (Emit e r)
    with step "1.IH" ed64_items_Emit [OF Emit, of xs] show ?thesis
      by (auto simp: message_items_def split: sum.splits if_splits)
  qed
qed

interpretation ed64_l2: l2_parser ed64_items process_wire_messages
  by unfold_locales
    (simp add: ed64_items_def wire_messages.simps next_message_def resync_def DMA_MAGIC_def Let_def,
     rule process_wire_messages_conserves)

subsection \<open>The pipe\<close>

text \<open>The port gives, for each read, how long it blocked and what it brought.\<close>

record ed64_pipe =
  ep_port :: "(nat \<times> port_read) list"
  ep_written :: octets
  ep_wire :: octets
  ep_l3_rx :: octets
  ep_pending_err :: "io_kind option"
  ep_quiet :: nat
  ep_stall :: nat

definition ed64_pipe_open :: "(nat \<times> port_read) list \<Rightarrow> ed64_pipe" where
  "ed64_pipe_open port =
     \<lparr>ep_port = port, ep_written = [], ep_wire = [], ep_l3_rx = [], ep_pending_err = None,
      ep_quiet = 0, ep_stall = PARTIAL_MESSAGE_STALL\<rparr>"

definition ed64_clear_serial_buffers :: "ed64_pipe \<Rightarrow> ed64_pipe" where
  "ed64_clear_serial_buffers p =
     p\<lparr>ep_wire := [], ep_l3_rx := [], ep_pending_err := None, ep_quiet := 0\<rparr>"

fun write_messages :: "octets list \<Rightarrow> ed64_pipe \<Rightarrow> (io_kind + unit) \<times> ed64_pipe" where
  "write_messages [] p = (Inr (), p)"
| "write_messages (c # cs) p =
     (case encode_message ED64_L3_TYPE c of
        Inl e \<Rightarrow> (Inl e, p)
      | Inr msg \<Rightarrow> write_messages cs (p\<lparr>ep_written := ep_written p @ msg\<rparr>))"

definition ed64_write_l3_stream_with_max ::
  "octets \<Rightarrow> nat \<Rightarrow> ed64_pipe \<Rightarrow> (io_kind + unit) \<times> ed64_pipe" where
  "ed64_write_l3_stream_with_max buf max_chunk p =
     write_messages (chunks (min (max max_chunk 1) MAX_MESSAGE_BYTES) buf) p"

definition ed64_write_l3_stream :: "octets \<Rightarrow> ed64_pipe \<Rightarrow> (io_kind + unit) \<times> ed64_pipe" where
  "ed64_write_l3_stream buf p = ed64_write_l3_stream_with_max buf DEFAULT_ED64_CHUNK p"

text \<open>\<open>discard_partial\<close> gives what the log line says and empties the buffer.\<close>

definition discard_partial :: "octets \<Rightarrow> (nat \<times> nat option) \<times> octets" where
  "discard_partial buf =
     ((length buf,
       if 8 \<le> length buf \<and> take 4 buf = DMA_MAGIC
       then Some (unat (of_be32 0 (buf ! 5) (buf ! 6) (buf ! 7))) else None), [])"

definition count_quiet :: "nat \<Rightarrow> ed64_pipe \<Rightarrow> ed64_pipe" where
  "count_quiet waited p =
     (if ep_wire p = [] then p\<lparr>ep_quiet := 0\<rparr>
      else let q = p\<lparr>ep_quiet := ep_quiet p + waited\<rparr>
           in if ep_quiet q < ep_stall q then q
              else q\<lparr>ep_quiet := 0, ep_wire := snd (discard_partial (ep_wire q))\<rparr>)"

text \<open>One port read of the loop of \<open>read_l3_bytes\<close>: \<open>Inl r\<close> is a return with \<open>r\<close>, \<open>Inr\<close> goes
  round again. A port with no more to give times out at once.\<close>

definition ed64_port_read :: "ed64_pipe \<Rightarrow> (io_kind + octets) option \<times> ed64_pipe" where
  "ed64_port_read p =
     (case ep_port p of
        [] \<Rightarrow> (Some (Inr []), p)
      | (waited, r) # port \<Rightarrow>
          (let q = count_quiet waited (p\<lparr>ep_port := port\<rparr>) in
           case r of
             PortErr e \<Rightarrow> (Some (if e = TimedOut then Inr [] else Inl e), q)
           | PortBytes bs \<Rightarrow>
               if bs = [] then (Some (Inr []), q)
               else case process_wire_messages (ep_wire q @ bs) (ep_l3_rx q) of
                 (err, wire, rx) \<Rightarrow>
                   (None, q\<lparr>ep_quiet := 0, ep_wire := wire, ep_l3_rx := rx, ep_pending_err := err\<rparr>)))"

definition ed64_reparse :: "ed64_pipe \<Rightarrow> ed64_pipe" where
  "ed64_reparse p =
     (if ep_wire p = [] then p
      else case process_wire_messages (ep_wire p) (ep_l3_rx p) of
        (err, wire, rx) \<Rightarrow> p\<lparr>ep_wire := wire, ep_l3_rx := rx, ep_pending_err := err\<rparr>)"

text \<open>What the loop hands out before it looks at the port.\<close>

definition ed64_ready :: "nat \<Rightarrow> ed64_pipe \<Rightarrow> ((io_kind + octets) \<times> ed64_pipe) option" where
  "ed64_ready n p =
     (if ep_l3_rx p \<noteq> [] then
        Some (Inr (take n (ep_l3_rx p)), p\<lparr>ep_l3_rx := drop n (ep_l3_rx p)\<rparr>)
      else case ep_pending_err p of
        Some e \<Rightarrow> Some (Inl e, p\<lparr>ep_pending_err := None\<rparr>)
      | None \<Rightarrow> None)"

lemma ed64_reparse_port [simp]: "ep_port (ed64_reparse p) = ep_port p"
  by (simp add: ed64_reparse_def split: prod.split)

lemma count_quiet_same [simp]:
  "ep_port (count_quiet w p) = ep_port p" "ep_l3_rx (count_quiet w p) = ep_l3_rx p"
  "ep_pending_err (count_quiet w p) = ep_pending_err p" "ep_stall (count_quiet w p) = ep_stall p"
  by (simp_all add: count_quiet_def Let_def)

function ed64_read_l3_bytes :: "nat \<Rightarrow> ed64_pipe \<Rightarrow> (io_kind + octets) \<times> ed64_pipe" where
  "ed64_read_l3_bytes n p =
     (if n = 0 then (Inr [], p)
      else case ed64_ready n p of
        Some res \<Rightarrow> res
      | None \<Rightarrow>
          (case ed64_ready n (ed64_reparse p) of
             Some res \<Rightarrow> res
           | None \<Rightarrow>
               (case ed64_port_read (ed64_reparse p) of
                  (Some r, q) \<Rightarrow> (r, q)
                | (None, q) \<Rightarrow> ed64_read_l3_bytes n q)))"
  by pat_completeness auto
termination
proof (relation "measure (\<lambda>(n, p). length (ep_port p))", simp, goal_cases)
  case (1 n p x q)
  from 1(4,5) have "ed64_port_read (ed64_reparse p) = (None, q)" by simp
  then show ?case
    by (auto simp: ed64_port_read_def Let_def split: list.splits prod.splits port_read.splits if_splits)
qed

declare ed64_read_l3_bytes.simps [simp del]

subsection \<open>Reading in order\<close>

definition ed64_owed :: "ed64_pipe \<Rightarrow> item list" where
  "ed64_owed p =
     ed64_l2.owed (ep_l3_rx p) (ep_pending_err p) (ep_wire p) (port_bytes (map snd (ep_port p)))"

definition ed64_result_items :: "io_kind + octets \<Rightarrow> item list" where
  "ed64_result_items r = (case r of Inl e \<Rightarrow> [Inl e] | Inr bs \<Rightarrow> octet_items bs)"

text \<open>No run of reads without a byte reaches the stall, and the port's only error is a timeout.\<close>

fun never_stalls :: "nat \<Rightarrow> nat \<Rightarrow> (nat \<times> port_read) list \<Rightarrow> bool" where
  "never_stalls stall quiet [] \<longleftrightarrow> True"
| "never_stalls stall quiet ((w, PortErr e) # rs) \<longleftrightarrow>
     e = TimedOut \<and> quiet + w < stall \<and> never_stalls stall (quiet + w) rs"
| "never_stalls stall quiet ((w, PortBytes bs) # rs) \<longleftrightarrow>
     quiet + w < stall \<and> never_stalls stall (if bs = [] then quiet + w else 0) rs"

definition ed64_calm :: "ed64_pipe \<Rightarrow> bool" where
  "ed64_calm p \<longleftrightarrow> never_stalls (ep_stall p) (ep_quiet p) (ep_port p)"

lemma never_stalls_mono:
  "never_stalls stall q rs \<Longrightarrow> q' \<le> q \<Longrightarrow> never_stalls stall q' rs"
  by (induction stall q rs arbitrary: q' rule: never_stalls.induct) (auto split: if_splits)

lemma ed64_ready_owed:
  "ed64_ready n p = Some (r, q) \<Longrightarrow>
   ed64_owed p = ed64_result_items r @ ed64_owed q \<and> (ed64_calm p \<longrightarrow> ed64_calm q)"
  by (auto simp: ed64_ready_def ed64_owed_def ed64_result_items_def ed64_calm_def ed64_l2.owed_take
      ed64_l2.owed_error split: if_splits option.splits)

lemma ed64_ready_None_iff:
  "ed64_ready n p = None \<longleftrightarrow> ep_l3_rx p = [] \<and> ep_pending_err p = None"
  by (auto simp: ed64_ready_def split: option.splits)

lemma ed64_reparse_owed:
  assumes "ep_pending_err p = None"
  shows "ed64_owed (ed64_reparse p) = ed64_owed p" "ed64_calm (ed64_reparse p) = ed64_calm p"
  using assms ed64_l2.owed_process [of "ep_wire p" "ep_l3_rx p"]
  by (auto simp: ed64_reparse_def ed64_owed_def ed64_calm_def split: prod.splits)

lemma count_quiet_calm:
  assumes "ep_quiet p + w < ep_stall p"
  shows "ep_wire (count_quiet w p) = ep_wire p" "ep_quiet (count_quiet w p) \<le> ep_quiet p + w"
  using assms by (simp_all add: count_quiet_def Let_def)

lemma ed64_port_read_owed:
  assumes "ed64_calm p" "ep_l3_rx p = []" "ep_pending_err p = None" "ed64_port_read p = (res, q)"
  shows "ed64_calm q \<and>
    ed64_owed p = (case res of None \<Rightarrow> [] | Some r \<Rightarrow> ed64_result_items r) @ ed64_owed q"
proof (cases "ep_port p")
  case Nil
  with assms show ?thesis by (auto simp: ed64_port_read_def ed64_result_items_def)
next
  case (Cons wr port)
  obtain w r where wr: "wr = (w, r)" by fastforce
  let ?q = "count_quiet w (p\<lparr>ep_port := port\<rparr>)"
  have small: "ep_quiet p + w < ep_stall p"
    using assms(1) by (cases r) (simp_all add: ed64_calm_def Cons wr)
  note quiet = count_quiet_calm [of "p\<lparr>ep_port := port\<rparr>" w, simplified, OF small]
  show ?thesis
  proof (cases r)
    case (PortErr e)
    with assms Cons wr quiet small show ?thesis
      by (auto simp: ed64_port_read_def ed64_calm_def ed64_result_items_def ed64_owed_def Let_def
          elim: never_stalls_mono)
  next
    case (PortBytes bs)
    obtain err wire rx where proc: "process_wire_messages (ep_wire p @ bs) (ep_l3_rx p) = (err, wire, rx)"
      by (cases "process_wire_messages (ep_wire p @ bs) (ep_l3_rx p)") auto
    show ?thesis
    proof (cases "bs = []")
      case True
      with assms Cons wr quiet small PortBytes show ?thesis
        by (auto simp: ed64_port_read_def ed64_calm_def ed64_result_items_def ed64_owed_def Let_def
            elim: never_stalls_mono)
    next
      case False
      with assms Cons wr quiet small PortBytes proc ed64_l2.owed_process [OF proc] show ?thesis
        by (auto simp: ed64_port_read_def ed64_calm_def ed64_owed_def Let_def ed64_l2.owed_push)
    qed
  qed
qed

lemma ed64_read_conserves:
  assumes "ed64_read_l3_bytes n p = (res, p')" "ed64_calm p"
  shows "ed64_owed p = ed64_result_items res @ ed64_owed p' \<and> ed64_calm p'"
  using assms
proof (induction n p arbitrary: res p' rule: ed64_read_l3_bytes.induct)
  case (1 n p)
  note step = "1.prems"(1) [unfolded ed64_read_l3_bytes.simps [of n p]]
  show ?case
  proof (cases "n = 0")
    case True
    with step "1.prems"(2) show ?thesis by (auto simp: ed64_result_items_def)
  next
    case n: False
    show ?thesis
    proof (cases "ed64_ready n p")
      case (Some rq)
      with step n "1.prems"(2) ed64_ready_owed [of n p res p'] show ?thesis by auto
    next
      case idle: None
      then have empty: "ep_l3_rx p = []" "ep_pending_err p = None" by (simp_all add: ed64_ready_None_iff)
      note re = ed64_reparse_owed [OF empty(2)]
      show ?thesis
      proof (cases "ed64_ready n (ed64_reparse p)")
        case (Some rq)
        with step n idle "1.prems"(2) re ed64_ready_owed [of n "ed64_reparse p" res p'] show ?thesis
          by auto
      next
        case idle2: None
        then have empty2: "ep_l3_rx (ed64_reparse p) = []" "ep_pending_err (ed64_reparse p) = None"
          by (simp_all add: ed64_ready_None_iff)
        obtain res' q where port: "ed64_port_read (ed64_reparse p) = (res', q)" by fastforce
        have calm: "ed64_calm (ed64_reparse p)" using re "1.prems"(2) by simp
        note pr = ed64_port_read_owed [OF calm empty2 port]
        show ?thesis
        proof (cases res')
          case None
          then have "ed64_read_l3_bytes n q = (res, p')" using step n idle idle2 port by simp
          from "1.IH" [OF n idle idle2 _ None this] port pr None re show ?thesis by simp
        next
          case (Some r)
          with step n idle idle2 port pr re show ?thesis by auto
        qed
      qed
    qed
  qed
qed

fun ed64_reads :: "nat list \<Rightarrow> ed64_pipe \<Rightarrow> (io_kind + octets) list \<times> ed64_pipe" where
  "ed64_reads [] p = ([], p)"
| "ed64_reads (n # ns) p =
     (let (r, p') = ed64_read_l3_bytes n p; (rs, p'') = ed64_reads ns p' in (r # rs, p''))"

lemma ed64_reads_conserve:
  "ed64_reads ns p = (rs, p') \<Longrightarrow> ed64_calm p \<Longrightarrow>
   ed64_owed p = concat (map ed64_result_items rs) @ ed64_owed p'"
proof (induction ns arbitrary: p rs)
  case Nil
  then show ?case by simp
next
  case (Cons n ns)
  obtain r q where first: "ed64_read_l3_bytes n p = (r, q)" by fastforce
  obtain rs' where rest: "ed64_reads ns q = (rs', p')" "rs = r # rs'"
    using Cons.prems(1) first by (auto split: prod.splits)
  from ed64_read_conserves [OF first Cons.prems(2)] Cons.IH [OF rest(1)] show ?case
    by (simp add: rest(2))
qed



subsection \<open>Recovering from a cut-off message\<close>

lemma process_wire_messages_Wait:
  "next_message wire = Wait r \<Longrightarrow> process_wire_messages wire rx = (None, r, rx)"
  by (simp add: process_wire_messages.simps [of wire])

definition holding :: "octets \<Rightarrow> nat \<Rightarrow> (nat \<times> port_read) list \<Rightarrow> ed64_pipe \<Rightarrow> bool" where
  "holding wire quiet port p \<longleftrightarrow>
     ep_wire p = wire \<and> ep_quiet p = quiet \<and> ep_port p = port \<and> ep_l3_rx p = [] \<and>
     ep_pending_err p = None \<and> ep_stall p = PARTIAL_MESSAGE_STALL"

lemma next_message_Nil [simp]: "next_message [] = Wait []"
  by (simp add: next_message_def resync_def DMA_MAGIC_def Let_def)

lemma holding_reparse:
  assumes "holding wire q port p" "next_message wire = Wait wire"
  shows "holding wire q port (ed64_reparse p)" "ed64_ready n p = None" "ed64_ready n (ed64_reparse p) = None"
  using assms
  by (auto simp: holding_def ed64_reparse_def ed64_ready_None_iff process_wire_messages_Wait)

text \<open>One read that times out, with part of a message held or nothing held.\<close>

lemma read_timeout:
  assumes "holding wire q ((w, PortErr TimedOut) # port) p" "next_message wire = Wait wire" "0 < n"
  shows "\<exists>p'. ed64_read_l3_bytes n p = (Inr [], p') \<and>
    holding (if wire = [] \<or> q + w < PARTIAL_MESSAGE_STALL then wire else [])
      (if wire \<noteq> [] \<and> q + w < PARTIAL_MESSAGE_STALL then q + w else 0) port p'"
proof -
  note re = holding_reparse [OF assms(1,2)]
  have "\<exists>p'. ed64_port_read (ed64_reparse p) = (Some (Inr []), p') \<and>
      holding (if wire = [] \<or> q + w < PARTIAL_MESSAGE_STALL then wire else [])
        (if wire \<noteq> [] \<and> q + w < PARTIAL_MESSAGE_STALL then q + w else 0) port p'"
    using re(1) by (auto simp: ed64_port_read_def holding_def count_quiet_def Let_def discard_partial_def)
  with assms(3) re(2,3) show ?thesis by (auto simp: ed64_read_l3_bytes.simps [of n p])
qed

lemma reads_timeout:
  assumes "holding wire q (map (\<lambda>w. (w, PortErr TimedOut)) ws @ port) p"
    and "next_message wire = Wait wire" "0 < n"
    and "wire = [] \<or> PARTIAL_MESSAGE_STALL \<le> q + sum_list ws" "q < PARTIAL_MESSAGE_STALL"
  shows "\<exists>p' q'. ed64_reads (replicate (length ws) n) p = (replicate (length ws) (Inr []), p') \<and>
    holding [] q' port p'"
  using assms
proof (induction ws arbitrary: p wire q)
  case Nil
  then show ?case by auto
next
  case (Cons w ws)
  from Cons.prems(1) have "holding wire q
      ((w, PortErr TimedOut) # map (\<lambda>w. (w, PortErr TimedOut)) ws @ port) p" by simp
  from read_timeout [OF this Cons.prems(2,3)] obtain p1 where
    first: "ed64_read_l3_bytes n p = (Inr [], p1)"
    and h: "holding (if wire = [] \<or> q + w < PARTIAL_MESSAGE_STALL then wire else [])
      (if wire \<noteq> [] \<and> q + w < PARTIAL_MESSAGE_STALL then q + w else 0)
      (map (\<lambda>w. (w, PortErr TimedOut)) ws @ port) p1" by blast
  have "\<exists>p' q'. ed64_reads (replicate (length ws) n) p1 = (replicate (length ws) (Inr []), p') \<and>
      holding [] q' port p'"
    by (rule Cons.IH [OF h]) (use Cons.prems in \<open>auto simp: PARTIAL_MESSAGE_STALL_def\<close>)
  with first show ?case by auto
qed

lemma read_pushes:
  assumes "holding wire q ((w, PortBytes bs) # port) p" "next_message wire = Wait wire" "0 < n"
    and "wire = [] \<or> q + w < PARTIAL_MESSAGE_STALL" "bs \<noteq> []"
    and "process_wire_messages (wire @ bs) [] = (err, wire', rx)"
  shows "\<exists>p'. ep_port p' = port \<and> ep_wire p' = wire' \<and> ep_l3_rx p' = rx \<and>
    ep_pending_err p' = err \<and> ep_quiet p' = 0 \<and> ep_stall p' = PARTIAL_MESSAGE_STALL \<and>
    ed64_read_l3_bytes n p = ed64_read_l3_bytes n p'"
proof -
  note re = holding_reparse [OF assms(1,2)]
  have "\<exists>p'. ep_port p' = port \<and> ep_wire p' = wire' \<and> ep_l3_rx p' = rx \<and>
      ep_pending_err p' = err \<and> ep_quiet p' = 0 \<and> ep_stall p' = PARTIAL_MESSAGE_STALL \<and>
      ed64_port_read (ed64_reparse p) = (None, p')"
    using re(1) assms(4-)
    by (auto simp: ed64_port_read_def holding_def count_quiet_def Let_def)
  with assms(3) re(2,3) show ?thesis
    by (auto simp: ed64_read_l3_bytes.simps [of n p])
qed

text \<open>C27: A message the cart stops sending part-way does not swallow what follows it. However much
  of it arrived, once reads that brought nothing add up to the stall, it is dropped, and the next
  message is read whole; until then every read returns 0.\<close>

theorem ed64_stall_recovers:
  assumes cut: "part \<noteq> []" "next_message part = Wait part"
    and quiet: "PARTIAL_MESSAGE_STALL \<le> sum_list ws"
    and ask: "0 < n"
    and after: "payload \<noteq> []" "length payload \<le> MAX_MESSAGE_BYTES"
  shows "fst (ed64_reads (replicate (length ws) n @ [n])
      (ed64_pipe_open ((0, PortBytes part) # map (\<lambda>w. (w, PortErr TimedOut)) ws @
        [(0, PortBytes (cart_message ED64_L3_TYPE payload pad))]))) =
    replicate (length ws) (Inr []) @ [Inr (take n payload)]"
proof -
  define next' where "next' = [(0 :: nat, PortBytes (cart_message ED64_L3_TYPE payload pad))]"
  define quiets where "quiets = map (\<lambda>w. (w, PortErr TimedOut)) ws"
  let ?p0 = "ed64_pipe_open ((0, PortBytes part) # quiets @ next')"
  have "holding [] 0 ((0, PortBytes part) # quiets @ next') ?p0"
    by (simp add: holding_def ed64_pipe_open_def)
  then obtain p1 where p1: "holding part 0 (quiets @ next') p1"
      "ed64_read_l3_bytes n ?p0 = ed64_read_l3_bytes n p1"
    using read_pushes [of "[]" 0 0 part "quiets @ next'" ?p0 n None part "[]"] cut ask
    by (auto simp: process_wire_messages_Wait holding_def)
  obtain w ws' where ws: "ws = w # ws'" using quiet by (cases ws) (simp_all add: PARTIAL_MESSAGE_STALL_def)
  have same: "ed64_reads (replicate (length ws) n @ ns) ?p0 =
      ed64_reads (replicate (length ws) n @ ns) p1" for ns
    by (simp add: ws p1(2))
  obtain p2 q2 where p2: "ed64_reads (replicate (length ws) n) p1 = (replicate (length ws) (Inr []), p2)"
      "holding [] q2 next' p2"
    using reads_timeout [OF p1(1) [unfolded quiets_def] cut(2) ask] quiet
    by (auto simp: PARTIAL_MESSAGE_STALL_def)
  have split: "ed64_reads (ns @ [n]) p =
      (let (rs, p') = ed64_reads ns p; (r, p'') = ed64_read_l3_bytes n p' in (rs @ [r], p''))" for ns p
    by (induction ns arbitrary: p) (auto simp: Let_def split: prod.splits)
  have "process_wire_messages (cart_message ED64_L3_TYPE payload pad) [] = (None, [], payload)"
    using next_message_cart [OF after(2), of ED64_L3_TYPE pad "[]"]
    by (simp add: process_wire_messages.simps [of "cart_message ED64_L3_TYPE payload pad"]
        process_wire_messages_Wait)
  then obtain p3 where "ep_l3_rx p3 = payload" "ed64_read_l3_bytes n p2 = ed64_read_l3_bytes n p3"
    using read_pushes [OF p2(2) [unfolded next'_def] next_message_Nil ask]
    by (auto simp: cart_message_def)
  then have "fst (ed64_read_l3_bytes n p2) = Inr (take n payload)"
    using ask after(1) by (simp add: ed64_read_l3_bytes.simps [of n p3] ed64_ready_def)
  then have "fst (ed64_reads (replicate (length ws) n @ [n]) p1) =
      replicate (length ws) (Inr []) @ [Inr (take n payload)]"
    by (simp only: split p2(1)) (simp add: Let_def case_prod_beta)
  then have "fst (ed64_reads (replicate (length ws) n @ [n]) ?p0) =
      replicate (length ws) (Inr []) @ [Inr (take n payload)]"
    by (simp only: same)
  then show ?thesis by (simp add: quiets_def next'_def)
qed

theorem ed64_stall_recovers_witness:
  "fst (ed64_reads (replicate 2 16 @ [16])
      (ed64_pipe_open ((0, PortBytes [0x44, 0x4D, 0x41, 0x40, 1, 0, 0x10, 0x1A, 7]) #
        map (\<lambda>w. (w, PortErr TimedOut)) [300, 200] @
        [(0, PortBytes (cart_message ED64_L3_TYPE [8, 9] 0))]))) =
    [Inr [], Inr [], Inr [8, 9]]"
proof -
  have "next_message [0x44, 0x4D, 0x41, 0x40, 1, 0, 0x10, 0x1A, 7] =
      Wait [0x44, 0x4D, 0x41, 0x40, 1, 0, 0x10, 0x1A, 7]"
    by (simp add: next_message_def resync_def DMA_MAGIC_def be32_at_def of_be32_def align_up_2 Let_def)
  from ed64_stall_recovers [OF _ this, of "[300, 200]" 16 "[8, 9]" 0] show ?thesis
    by (simp add: PARTIAL_MESSAGE_STALL_def MAX_MESSAGE_BYTES_def numeral_2_eq_2)
qed

end
