(* ===== verification/Byte_Store.thy ===== *)
theory Byte_Store
  imports M64_Prelude
begin

text \<open>
  Stores of bytes, as several components see them: an address space as a function, what is read
  from it and laid over it, and the ordered maps the code keeps in \<open>BTreeMap\<close>s, as their entries in
  key order.
\<close>

subsection \<open>Address spaces\<close>

definition bytes_at :: "(nat \<Rightarrow> u8) \<Rightarrow> nat \<Rightarrow> nat \<Rightarrow> octets" where
  "bytes_at f a n = map f [a ..< a + n]"

lemma length_bytes_at [simp]: "length (bytes_at f a n) = n"
  by (simp add: bytes_at_def)

lemma nth_bytes_at [simp]: "i < n \<Longrightarrow> bytes_at f a n ! i = f (a + i)"
  by (simp add: bytes_at_def)

lemma bytes_at_add: "bytes_at f a (m + n) = bytes_at f a m @ bytes_at f (a + m) n"
  by (rule nth_equalityI) (auto simp: nth_append)

lemma bytes_at_0 [simp]: "bytes_at f a 0 = []"
  by (simp add: bytes_at_def)

lemma slice_bytes_at: "j \<le> n \<Longrightarrow> slice i j (bytes_at f a n) = bytes_at f (a + i) (j - i)"
  by (rule nth_equalityI) (auto simp: nth_slice add.assoc)

text \<open>Bytes laid over what was there.\<close>

definition overlay :: "(nat \<Rightarrow> u8) \<Rightarrow> nat \<Rightarrow> octets \<Rightarrow> nat \<Rightarrow> u8" where
  "overlay f at' bs a = (if at' \<le> a \<and> a < at' + length bs then bs ! (a - at') else f a)"

lemma overlay_Nil [simp]: "overlay f at' [] = f"
  by (auto simp: overlay_def fun_eq_iff)

lemma overlay_overlay:
  "overlay (overlay f at' xs) (at' + length xs) ys = overlay f at' (xs @ ys)"
  by (auto simp: overlay_def fun_eq_iff nth_append)

lemma bytes_at_overlay: "bytes_at (overlay f at' bs) at' (length bs) = bs"
  by (rule nth_equalityI) (simp_all add: overlay_def)

lemma bytes_at_overlay_splice:
  assumes "p + length buf \<le> n"
  shows "bytes_at (overlay f (a + p) buf) a n = splice p buf (bytes_at f a n)"
  by (rule nth_equalityI) (use assms in \<open>auto simp: overlay_def nth_splice length_splice\<close>)

subsection \<open>Ordered maps\<close>

definition bt_insert :: "nat \<Rightarrow> 'v \<Rightarrow> (nat \<times> 'v) list \<Rightarrow> (nat \<times> 'v) list" where
  "bt_insert k v xs =
     takeWhile (\<lambda>e. fst e < k) xs @ (k, v) # dropWhile (\<lambda>e. fst e \<le> k) xs"

definition bt_remove :: "nat \<Rightarrow> (nat \<times> 'v) list \<Rightarrow> (nat \<times> 'v) list" where
  "bt_remove k xs = filter (\<lambda>e. fst e \<noteq> k) xs"

text \<open>\<open>entries.range(..=k).next_back()\<close>.\<close>

definition bt_last_le :: "nat \<Rightarrow> (nat \<times> 'v) list \<Rightarrow> (nat \<times> 'v) option" where
  "bt_last_le k xs =
     (case filter (\<lambda>e. fst e \<le> k) xs of [] \<Rightarrow> None | y # ys \<Rightarrow> Some (last (y # ys)))"

lemma bt_last_le_Some: "bt_last_le k xs = Some e \<Longrightarrow> e \<in> set xs \<and> fst e \<le> k"
proof -
  assume "bt_last_le k xs = Some e"
  then have "filter (\<lambda>e. fst e \<le> k) xs \<noteq> []" "e = last (filter (\<lambda>e. fst e \<le> k) xs)"
    by (auto simp: bt_last_le_def split: list.splits)
  then have "e \<in> set (filter (\<lambda>e. fst e \<le> k) xs)" using last_in_set by blast
  then show ?thesis by auto
qed

lemma map_of_bt_insert:
  assumes "sorted_wrt (<) (map fst xs)"
  shows "map_of (bt_insert k v xs) = (map_of xs)(k \<mapsto> v)"
  using assms
proof (induction xs)
  case Nil
  then show ?case by (simp add: bt_insert_def)
next
  case (Cons e xs)
  show ?case
  proof (cases "fst e < k")
    case True
    then have "bt_insert k v (e # xs) = e # bt_insert k v xs" by (simp add: bt_insert_def)
    with Cons True show ?thesis by (auto simp: fun_eq_iff)
  next
    case ge: False
    have above: "dropWhile (\<lambda>e. fst e \<le> k) xs = xs"
      using Cons.prems ge by (cases xs) (auto simp: dropWhile_eq_Cons_conv)
    show ?thesis
    proof (cases "fst e = k")
      case True
      with ge above show ?thesis by (auto simp: bt_insert_def fun_eq_iff)
    next
      case False
      with ge show ?thesis by (auto simp: bt_insert_def fun_eq_iff)
    qed
  qed
qed

lemma sorted_bt_insert:
  assumes "sorted_wrt (<) (map fst xs)"
  shows "sorted_wrt (<) (map fst (bt_insert k v xs))"
proof -
  have low: "fst e < k" if "e \<in> set (takeWhile (\<lambda>e. fst e < k) xs)" for e
    using set_takeWhileD [OF that] by simp
  have high: "k < fst e" if "e \<in> set (dropWhile (\<lambda>e. fst e \<le> k) xs)" for e
    using assms that
  proof (induction xs)
    case (Cons x xs)
    then show ?case by (cases "fst x \<le> k") (auto split: if_splits)
  qed simp
  have "sorted_wrt (<) (map fst (takeWhile (\<lambda>e. fst e < k) xs))"
    "sorted_wrt (<) (map fst (dropWhile (\<lambda>e. fst e \<le> k) xs))"
    using assms by (simp_all add: sorted_wrt_map sorted_wrt_takeWhile sorted_wrt_dropWhile)
  with low high show ?thesis by (fastforce simp: bt_insert_def sorted_wrt_append)
qed

end
