(* ===== verification/Sd_Cache.thy ===== *)
theory Sd_Cache
  imports Byte_Store
begin

text \<open>
  The SD read cache of \<open>crates/multi64-sc64-sd/src/sd_read_cache.rs\<close>. A \<open>BTreeMap\<close> is its entries
  in key order; a sector number is a natural number, since the callers keep it below 2^32. The card
  behind the cache is a state of the caller's, with the two closures the cache is called with as
  parameters: \<open>card_io\<close> says what they must do, and that a read through the cache then gives what
  the card holds.
\<close>

subsection \<open>The cache\<close>

definition SECTOR_BYTES :: nat where "SECTOR_BYTES = 512"
definition BUDGET_BYTES :: nat where "BUDGET_BYTES = 8 * 1024 * 1024"

record sd_read_cache =
  sc_entries :: "(nat \<times> octets) list"
  sc_order :: "nat list"
  sc_bytes :: nat

definition cache_default :: sd_read_cache where
  "cache_default = \<lparr>sc_entries = [], sc_order = [], sc_bytes = 0\<rparr>"

definition cache_clear :: "sd_read_cache \<Rightarrow> sd_read_cache" where
  "cache_clear c = c\<lparr>sc_entries := [], sc_order := [], sc_bytes := 0\<rparr>"

definition cache_end :: "nat \<Rightarrow> nat \<Rightarrow> nat" where
  "cache_end lba len = lba + (len + SECTOR_BYTES - 1) div SECTOR_BYTES"

definition covering :: "sd_read_cache \<Rightarrow> nat \<Rightarrow> nat \<Rightarrow> octets option" where
  "covering c lba len =
     (case bt_last_le lba (sc_entries c) of
        None \<Rightarrow> None
      | Some (start, bytes) \<Rightarrow>
          (let from' = (lba - start) * SECTOR_BYTES in get_range bytes from' (from' + len)))"

definition cache_remove :: "nat \<Rightarrow> sd_read_cache \<Rightarrow> sd_read_cache" where
  "cache_remove start c =
     (case map_of (sc_entries c) start of
        None \<Rightarrow> c
      | Some bytes \<Rightarrow>
          c\<lparr>sc_entries := bt_remove start (sc_entries c), sc_bytes := sc_bytes c - length bytes,
            sc_order := filter (\<lambda>s. s \<noteq> start) (sc_order c)\<rparr>)"

definition doomed :: "nat \<Rightarrow> nat \<Rightarrow> sd_read_cache \<Rightarrow> nat list" where
  "doomed lba len c =
     map fst (filter (\<lambda>(start, bytes). start < cache_end lba len \<and> lba < cache_end start (length bytes))
       (sc_entries c))"

definition invalidate :: "nat \<Rightarrow> nat \<Rightarrow> sd_read_cache \<Rightarrow> sd_read_cache" where
  "invalidate lba len c = fold cache_remove (doomed lba len c) c"

text \<open>The eviction loop of \<open>insert\<close>. It has no measure of its own: that it ends rests on the order
  queue naming the entries (\<open>evict_total\<close> below).\<close>

partial_function (option) evict :: "nat \<Rightarrow> sd_read_cache \<Rightarrow> sd_read_cache option" where
  "evict len c =
     (if BUDGET_BYTES < sc_bytes c + len then
        (case sc_order c of
           [] \<Rightarrow> Some c
         | oldest # _ \<Rightarrow> evict len (cache_remove oldest c))
      else Some c)"

definition cache_insert :: "nat \<Rightarrow> octets \<Rightarrow> sd_read_cache \<Rightarrow> sd_read_cache option" where
  "cache_insert lba bytes c =
     (if BUDGET_BYTES < length bytes then Some c
      else map_option
        (\<lambda>c. c\<lparr>sc_bytes := sc_bytes c + length bytes,
               sc_entries := bt_insert lba bytes (sc_entries c),
               sc_order := sc_order c @ [lba]\<rparr>)
        (evict (length bytes) (invalidate lba (length bytes) c)))"

text \<open>\<open>fetch\<close> and \<open>store\<close> are the closures, on the state \<open>w\<close> they work on. A result \<open>None\<close> is a
  call that does not return.\<close>

definition read_through ::
  "(nat \<Rightarrow> nat \<Rightarrow> 'w \<Rightarrow> (io_kind + octets) \<times> 'w) \<Rightarrow> nat \<Rightarrow> nat \<Rightarrow> sd_read_cache \<Rightarrow> 'w
     \<Rightarrow> ((io_kind + octets) \<times> sd_read_cache \<times> 'w) option" where
  "read_through fetch lba len c w =
     (if len = 0 then (case fetch lba len w of (r, w') \<Rightarrow> Some (r, c, w'))
      else case covering c lba len of
        Some bytes \<Rightarrow> Some (Inr bytes, c, w)
      | None \<Rightarrow>
          (case fetch lba len w of
             (Inl e, w') \<Rightarrow> Some (Inl e, c, w')
           | (Inr bytes, w') \<Rightarrow> map_option (\<lambda>c'. (Inr bytes, c', w')) (cache_insert lba bytes c)))"

definition write_through ::
  "(nat \<Rightarrow> octets \<Rightarrow> 'w \<Rightarrow> (io_kind + unit) \<times> 'w) \<Rightarrow> nat \<Rightarrow> octets \<Rightarrow> sd_read_cache \<Rightarrow> 'w
     \<Rightarrow> (io_kind + unit) \<times> sd_read_cache \<times> 'w" where
  "write_through store lba bytes c w =
     (case store lba bytes w of (r, w') \<Rightarrow> (r, invalidate lba (length bytes) c, w'))"

subsection \<open>The invariant\<close>

definition apart :: "nat \<times> octets \<Rightarrow> nat \<times> octets \<Rightarrow> bool" where
  "apart e f \<longleftrightarrow> cache_end (fst e) (length (snd e)) \<le> fst f"

definition cache_inv :: "sd_read_cache \<Rightarrow> bool" where
  "cache_inv c \<longleftrightarrow>
     sorted_wrt apart (sc_entries c) \<and> (\<forall>e \<in> set (sc_entries c). snd e \<noteq> []) \<and>
     distinct (sc_order c) \<and> set (sc_order c) = fst ` set (sc_entries c) \<and>
     sc_bytes c = sum_list (map (length \<circ> snd) (sc_entries c)) \<and> sc_bytes c \<le> BUDGET_BYTES"

lemma cache_end_gt: "0 < len \<Longrightarrow> lba < cache_end lba len"
  by (simp add: cache_end_def SECTOR_BYTES_def)

lemma cache_end_covers: "lba * SECTOR_BYTES + len \<le> cache_end lba len * SECTOR_BYTES"
proof -
  have "len + 511 = (len + 511) div 512 * 512 + (len + 511) mod 512" "(len + 511) mod 512 < 512"
    by simp_all
  then have "len \<le> (len + 511) div 512 * 512" by linarith
  then show ?thesis by (simp add: cache_end_def SECTOR_BYTES_def add_mult_distrib)
qed

lemma cache_inv_default: "cache_inv cache_default"
  by (simp add: cache_inv_def cache_default_def)

lemma cache_inv_clear: "cache_inv (cache_clear c)"
  by (simp add: cache_inv_def cache_clear_def)

lemma apart_less: "apart e f \<Longrightarrow> snd e \<noteq> [] \<Longrightarrow> fst e < fst f"
  using cache_end_gt [of "length (snd e)" "fst e"] by (auto simp: apart_def)

lemma sorted_wrt_apart_keys:
  assumes "sorted_wrt apart xs" "\<forall>e \<in> set xs. snd e \<noteq> []"
  shows "sorted_wrt (<) (map fst xs)"
proof -
  from assms(1) have "sorted_wrt (\<lambda>e f. fst e < fst f) xs"
    by (rule sorted_wrt_mono_rel [rotated]) (use assms(2) in \<open>auto intro: apart_less\<close>)
  then show ?thesis by (simp add: sorted_wrt_map)
qed

lemma cache_inv_distinct: "cache_inv c \<Longrightarrow> distinct (map fst (sc_entries c))"
  using sorted_wrt_apart_keys by (simp add: cache_inv_def strict_sorted_iff)

lemma sum_list_bt_remove:
  assumes "distinct (map fst xs)" "(k, v) \<in> set xs"
  shows "sum_list (map (length \<circ> snd) (bt_remove k xs)) + length v = sum_list (map (length \<circ> snd) xs)"
  using assms
proof (induction xs)
  case Nil
  then show ?case by simp
next
  case (Cons e xs)
  obtain k' v' where e: "e = (k', v')" by fastforce
  show ?case
  proof (cases "k' = k")
    case True
    then have "k \<notin> fst ` set xs" using Cons.prems(1) by (simp add: e)
    then have "bt_remove k xs = xs" "v = v'"
      using Cons.prems(2) True e by (auto simp: bt_remove_def filter_id_conv image_iff)
    with True show ?thesis by (simp add: bt_remove_def e)
  next
    case False
    with Cons show ?thesis by (simp add: bt_remove_def e)
  qed
qed

lemma sorted_wrt_filter': "sorted_wrt P xs \<Longrightarrow> sorted_wrt P (filter Q xs)"
  by (rule sorted_wrt_filter)

lemma cache_inv_remove:
  assumes "cache_inv c"
  shows "cache_inv (cache_remove s c)"
proof (cases "map_of (sc_entries c) s")
  case None
  with assms show ?thesis by (simp add: cache_remove_def)
next
  case (Some v)
  then have mem: "(s, v) \<in> set (sc_entries c)" by (rule map_of_SomeD)
  note sum = sum_list_bt_remove [OF cache_inv_distinct [OF assms] mem]
  have "fst ` set (bt_remove s (sc_entries c)) = fst ` set (sc_entries c) - {s}"
    by (auto simp: bt_remove_def)
  with assms Some sum show ?thesis
    by (auto simp: cache_inv_def cache_remove_def bt_remove_def intro: sorted_wrt_filter')
qed

lemma cache_remove_entries:
  assumes "cache_inv c"
  shows "set (sc_entries (cache_remove s c)) = {e \<in> set (sc_entries c). fst e \<noteq> s}"
proof (cases "map_of (sc_entries c) s")
  case None
  then have "s \<notin> fst ` set (sc_entries c)" by (simp add: map_of_eq_None_iff)
  with None show ?thesis by (auto simp: cache_remove_def)
next
  case (Some v)
  then show ?thesis by (auto simp: cache_remove_def bt_remove_def)
qed

lemma fold_cache_remove:
  assumes "cache_inv c"
  shows "cache_inv (fold cache_remove ss c)"
    and "set (sc_entries (fold cache_remove ss c)) = {e \<in> set (sc_entries c). fst e \<notin> set ss}"
  using assms
  by (induction ss arbitrary: c) (auto simp: cache_inv_remove cache_remove_entries)

lemma cache_inv_invalidate: "cache_inv c \<Longrightarrow> cache_inv (invalidate lba len c)"
  by (simp add: invalidate_def fold_cache_remove)

lemma invalidate_entries:
  assumes "cache_inv c"
  shows "set (sc_entries (invalidate lba len c)) =
    {(s, b) \<in> set (sc_entries c). cache_end lba len \<le> s \<or> cache_end s (length b) \<le> lba}"
proof -
  have "s \<in> set (doomed lba len c) \<longleftrightarrow> s < cache_end lba len \<and> lba < cache_end s (length b)"
    if mem: "(s, b) \<in> set (sc_entries c)" for s b
  proof -
    have only: "b' = b" if "(s, b') \<in> set (sc_entries c)" for b'
      using eq_key_imp_eq_value [OF cache_inv_distinct [OF assms]] mem that by metis
    have "s \<in> set (doomed lba len c) \<longleftrightarrow>
        (\<exists>b'. (s, b') \<in> set (sc_entries c) \<and> s < cache_end lba len \<and> lba < cache_end s (length b'))"
      by (force simp: doomed_def)
    with mem only show ?thesis by metis
  qed
  then have "e \<in> set (sc_entries c) \<and> fst e \<notin> set (doomed lba len c) \<longleftrightarrow>
      e \<in> {(s, b) \<in> set (sc_entries c). cache_end lba len \<le> s \<or> cache_end s (length b) \<le> lba}" for e
    by (cases e) (simp add: not_less, metis not_less)
  then show ?thesis
    unfolding invalidate_def fold_cache_remove(2) [OF assms] by blast
qed

subsection \<open>Eviction ends, and an insertion keeps the invariant\<close>

lemma cache_remove_oldest:
  assumes "cache_inv c" "sc_order c = s # ss"
  shows "sc_order (cache_remove s c) = ss"
proof -
  have "s \<in> fst ` set (sc_entries c)" using assms by (auto simp: cache_inv_def)
  then obtain v where "map_of (sc_entries c) s = Some v"
    by (cases "map_of (sc_entries c) s") (auto simp: map_of_eq_None_iff)
  moreover have "s \<notin> set ss" using assms by (simp add: cache_inv_def)
  ultimately show ?thesis using assms(2) by (simp add: cache_remove_def) (auto simp: filter_id_conv)
qed

lemma evict_total:
  assumes "cache_inv c"
  shows "\<exists>c'. evict len c = Some c' \<and> cache_inv c' \<and> set (sc_entries c') \<subseteq> set (sc_entries c) \<and>
    (len \<le> BUDGET_BYTES \<longrightarrow> sc_bytes c' + len \<le> BUDGET_BYTES)"
  using assms
proof (induction "length (sc_order c)" arbitrary: c)
  case 0
  then have "sc_bytes c = 0" by (simp add: cache_inv_def)
  with 0 show ?case by (auto simp: evict.simps [of len c])
next
  case (Suc n)
  then obtain s ss where order: "sc_order c = s # ss" by (cases "sc_order c") auto
  show ?case
  proof (cases "BUDGET_BYTES < sc_bytes c + len")
    case True
    have inv: "cache_inv (cache_remove s c)" by (rule cache_inv_remove [OF Suc.prems])
    have "n = length (sc_order (cache_remove s c))"
      using Suc.hyps(2) order cache_remove_oldest [OF Suc.prems order] by simp
    from Suc.hyps(1) [OF this inv] obtain c' where "evict len (cache_remove s c) = Some c'"
      "cache_inv c'" "set (sc_entries c') \<subseteq> set (sc_entries (cache_remove s c))"
      "len \<le> BUDGET_BYTES \<longrightarrow> sc_bytes c' + len \<le> BUDGET_BYTES" by blast
    then show ?thesis
      using True order cache_remove_entries [OF Suc.prems] by (auto simp: evict.simps [of len c])
  next
    case False
    with Suc.prems show ?thesis by (auto simp: evict.simps [of len c])
  qed
qed

lemma bt_insert_apart:
  assumes "sorted_wrt apart xs" "\<forall>e \<in> set xs. snd e \<noteq> []" "v \<noteq> []"
    and "\<forall>e \<in> set xs. apart e (k, v) \<or> apart (k, v) e"
  shows "sorted_wrt apart (bt_insert k v xs) \<and> set (bt_insert k v xs) = insert (k, v) (set xs) \<and>
    sum_list (map (length \<circ> snd) (bt_insert k v xs)) =
      length v + sum_list (map (length \<circ> snd) xs)"
  using assms
proof (induction xs)
  case Nil
  then show ?case by (simp add: bt_insert_def)
next
  case (Cons e xs)
  have key: "fst e \<noteq> k" using Cons.prems(2-4) apart_less [of e "(k, v)"] apart_less [of "(k, v)" e] by auto
  show ?case
  proof (cases "fst e < k")
    case True
    then have "bt_insert k v (e # xs) = e # bt_insert k v xs" by (simp add: bt_insert_def)
    moreover have "apart e (k, v)"
      using True Cons.prems(3,4) apart_less [of "(k, v)" e] by auto
    ultimately show ?thesis using Cons by auto
  next
    case False
    then have ins: "bt_insert k v (e # xs) = (k, v) # e # xs"
      using key by (simp add: bt_insert_def)
    have first: "apart (k, v) e" using False key Cons.prems(2,4) apart_less [of e "(k, v)"] by auto
    have "apart (k, v) f" if "f \<in> set xs" for f
    proof -
      have "apart e f" using Cons.prems(1) that by simp
      then have "fst e \<le> fst f" using Cons.prems(2) apart_less by fastforce
      with first show ?thesis by (simp add: apart_def)
    qed
    with ins first Cons.prems show ?thesis by simp
  qed
qed

lemma cache_insert_total:
  assumes "cache_inv c" "bytes \<noteq> []"
  shows "\<exists>c'. cache_insert lba bytes c = Some c' \<and> cache_inv c' \<and>
    set (sc_entries c') \<subseteq> insert (lba, bytes) (set (sc_entries c))"
proof (cases "BUDGET_BYTES < length bytes")
  case True
  with assms show ?thesis by (auto simp: cache_insert_def)
next
  case False
  let ?i = "invalidate lba (length bytes) c"
  have inv: "cache_inv ?i" by (rule cache_inv_invalidate [OF assms(1)])
  from evict_total [OF inv, of "length bytes"] False obtain d where
    d: "evict (length bytes) ?i = Some d" "cache_inv d" "set (sc_entries d) \<subseteq> set (sc_entries ?i)"
      "sc_bytes d + length bytes \<le> BUDGET_BYTES" by auto
  have "\<forall>e \<in> set (sc_entries d). apart e (lba, bytes) \<or> apart (lba, bytes) e"
    using d(3) invalidate_entries [OF assms(1)] by (force simp: apart_def)
  note ins = bt_insert_apart [OF _ _ assms(2) this]
  have "lba \<notin> fst ` set (sc_entries d)"
  proof
    assume "lba \<in> fst ` set (sc_entries d)"
    then obtain b where "(lba, b) \<in> set (sc_entries d)" by auto
    with d(2,3) invalidate_entries [OF assms(1)]
    have "b \<noteq> []" "cache_end lba (length bytes) \<le> lba \<or> cache_end lba (length b) \<le> lba"
      by (auto simp: cache_inv_def)
    with assms(2) cache_end_gt [of "length bytes" lba] cache_end_gt [of "length b" lba] show False by auto
  qed
  with d ins False assms(2) invalidate_entries [OF assms(1)] show ?thesis
    by (auto simp: cache_insert_def cache_inv_def)
qed

subsection \<open>The card behind the cache\<close>

text \<open>
  \<open>content w a\<close> is byte \<open>a\<close> of the card. A fetch reads it and changes nothing; a store that
  succeeds leaves the written bytes, and one that fails may leave anything in the sectors it was
  given, but touches no other. The laws are for states that are \<open>ok\<close>, which both keep, and for requests
  that are \<open>served\<close>.
\<close>

locale card_io =
  fixes ok :: "'w \<Rightarrow> bool"
    and served :: "nat \<Rightarrow> nat \<Rightarrow> bool"
    and content :: "'w \<Rightarrow> nat \<Rightarrow> u8"
    and fetch :: "nat \<Rightarrow> nat \<Rightarrow> 'w \<Rightarrow> (io_kind + octets) \<times> 'w"
    and store :: "nat \<Rightarrow> octets \<Rightarrow> 'w \<Rightarrow> (io_kind + unit) \<times> 'w"
  assumes fetch_keeps: "ok w \<Longrightarrow> served lba len \<Longrightarrow> fetch lba len w = (r, w') \<Longrightarrow>
      ok w' \<and> content w' = content w"
    and fetch_reads: "ok w \<Longrightarrow> served lba len \<Longrightarrow> fetch lba len w = (Inr bytes, w') \<Longrightarrow>
      bytes = map (content w) [lba * SECTOR_BYTES ..< lba * SECTOR_BYTES + len]"
    and store_ok: "ok w \<Longrightarrow> served lba (length bytes) \<Longrightarrow> store lba bytes w = (res, w') \<Longrightarrow> ok w'"
    and store_apart: "ok w \<Longrightarrow> served lba (length bytes) \<Longrightarrow> store lba bytes w = (res, w') \<Longrightarrow>
      a < lba * SECTOR_BYTES \<or> cache_end lba (length bytes) * SECTOR_BYTES \<le> a \<Longrightarrow>
      content w' a = content w a"
    and store_writes: "ok w \<Longrightarrow> served lba (length bytes) \<Longrightarrow> store lba bytes w = (Inr u, w') \<Longrightarrow>
      i < length bytes \<Longrightarrow> content w' (lba * SECTOR_BYTES + i) = bytes ! i"
begin

definition coherent :: "'w \<Rightarrow> sd_read_cache \<Rightarrow> bool" where
  "coherent w c \<longleftrightarrow>
     (\<forall>(s, b) \<in> set (sc_entries c).
        b = map (content w) [s * SECTOR_BYTES ..< s * SECTOR_BYTES + length b])"

lemma covering_reads:
  assumes "cache_inv c" "coherent w c" "covering c lba len = Some bytes"
  shows "bytes = map (content w) [lba * SECTOR_BYTES ..< lba * SECTOR_BYTES + len]"
proof -
  obtain s b where e: "bt_last_le lba (sc_entries c) = Some (s, b)"
      "get_range b ((lba - s) * SECTOR_BYTES) ((lba - s) * SECTOR_BYTES + len) = Some bytes"
    using assms(3) by (auto simp: covering_def Let_def split: option.splits)
  from bt_last_le_Some [OF e(1)] have s: "(s, b) \<in> set (sc_entries c)" "s \<le> lba" by auto
  let ?from = "(lba - s) * SECTOR_BYTES"
  from s assms(2) have b: "b = map (content w) [s * SECTOR_BYTES ..< s * SECTOR_BYTES + length b]"
    by (auto simp: coherent_def)
  from e(2) have r: "bytes = slice ?from (?from + len) b" "?from + len \<le> length b"
    by (auto simp: get_range_Some_iff)
  have at': "s * SECTOR_BYTES + ?from = lba * SECTOR_BYTES"
    using s(2) by (simp add: diff_mult_distrib)
  show ?thesis
  proof (rule nth_equalityI)
    show "length bytes = length (map (content w) [lba * SECTOR_BYTES ..< lba * SECTOR_BYTES + len])"
      using r by simp
  next
    fix i assume "i < length bytes"
    then have i: "i < len" using r by simp
    then have "bytes ! i = b ! (?from + i)" using r by (simp add: nth_slice)
    also have "\<dots> = content w (s * SECTOR_BYTES + (?from + i))"
      by (subst b) (use i r in \<open>simp del: upt_Suc\<close>)
    finally show "bytes ! i = map (content w) [lba * SECTOR_BYTES ..< lba * SECTOR_BYTES + len] ! i"
      using i at' by (simp flip: add.assoc)
  qed
qed

lemma read_through_coherent:
  assumes "cache_inv c" "coherent w c" and w: "ok w" and served: "served lba len"
  shows "\<exists>r c' w'. read_through fetch lba len c w = Some (r, c', w') \<and> cache_inv c' \<and> coherent w' c' \<and>
    ok w' \<and> content w' = content w \<and>
    (\<forall>bytes. r = Inr bytes \<longrightarrow>
       bytes = map (content w) [lba * SECTOR_BYTES ..< lba * SECTOR_BYTES + len])"
proof (cases "len = 0")
  case True
  obtain r w' where f: "fetch lba len w = (r, w')" by fastforce
  with True assms fetch_keeps [OF w served f] show ?thesis
    by (auto simp: read_through_def coherent_def dest: fetch_reads [OF w served [unfolded True]])
next
  case False
  show ?thesis
  proof (cases "covering c lba len")
    case (Some bytes)
    with False assms covering_reads [OF assms(1,2) Some] show ?thesis by (simp add: read_through_def)
  next
    case None
    obtain r w' where f: "fetch lba len w = (r, w')" by fastforce
    note keep = fetch_keeps [OF w served f]
    show ?thesis
    proof (cases r)
      case (Inl e)
      with None False assms f keep show ?thesis by (simp add: read_through_def coherent_def)
    next
      case (Inr bytes)
      with f have reads: "bytes = map (content w) [lba * SECTOR_BYTES ..< lba * SECTOR_BYTES + len]"
        using fetch_reads [OF w served] by simp
      then have ne: "bytes \<noteq> []" and l: "length bytes = len" using False by auto
      obtain c' where ins: "cache_insert lba bytes c = Some c'" "cache_inv c'"
          "set (sc_entries c') \<subseteq> insert (lba, bytes) (set (sc_entries c))"
        using cache_insert_total [OF assms(1) ne] by blast
      then have "coherent w' c'"
        using assms(2) reads l keep by (fastforce simp: coherent_def)
      with None False f keep Inr ins reads show ?thesis by (simp add: read_through_def)
    qed
  qed
qed

lemma write_through_coherent:
  assumes "cache_inv c" "coherent w c" "write_through store lba bytes c w = (r, c', w')"
    and w: "ok w" and served: "served lba (length bytes)"
  shows "cache_inv c' \<and> coherent w' c' \<and> ok w'"
proof -
  from assms(3) have s: "store lba bytes w = (r, w')" and c': "c' = invalidate lba (length bytes) c"
    by (auto simp: write_through_def split: prod.splits)
  have "b = map (content w') [s * SECTOR_BYTES ..< s * SECTOR_BYTES + length b]"
    if e: "(s, b) \<in> set (sc_entries c')" for s b
  proof -
    from e have old: "(s, b) \<in> set (sc_entries c)"
      and off: "cache_end lba (length bytes) \<le> s \<or> cache_end s (length b) \<le> lba"
      unfolding c' invalidate_entries [OF assms(1)] by auto
    have "content w' a = content w a"
      if "a \<in> set [s * SECTOR_BYTES ..< s * SECTOR_BYTES + length b]" for a
    proof (rule store_apart [OF w served s])
      from that have a: "s * SECTOR_BYTES \<le> a" "a < s * SECTOR_BYTES + length b" by simp_all
      from off show "a < lba * SECTOR_BYTES \<or> cache_end lba (length bytes) * SECTOR_BYTES \<le> a"
      proof
        assume "cache_end lba (length bytes) \<le> s"
        then have "cache_end lba (length bytes) * SECTOR_BYTES \<le> s * SECTOR_BYTES"
          by (rule mult_le_mono1)
        with a show ?thesis by linarith
      next
        assume "cache_end s (length b) \<le> lba"
        then have "cache_end s (length b) * SECTOR_BYTES \<le> lba * SECTOR_BYTES" by simp
        with a cache_end_covers [of s "length b"] show ?thesis by linarith
      qed
    qed
    then have "map (content w') [s * SECTOR_BYTES ..< s * SECTOR_BYTES + length b] =
        map (content w) [s * SECTOR_BYTES ..< s * SECTOR_BYTES + length b]" by (rule map_cong [OF refl])
    moreover have "b = map (content w) [s * SECTOR_BYTES ..< s * SECTOR_BYTES + length b]"
      using old assms(2) by (auto simp: coherent_def)
    ultimately show ?thesis by (rule trans [OF _ sym, rotated])
  qed
  with assms(1) store_ok [OF w served s] show ?thesis by (auto simp: c' coherent_def cache_inv_invalidate)
qed

lemma coherent_default: "coherent w cache_default" and coherent_clear: "coherent w (cache_clear c)"
  by (simp_all add: coherent_def cache_default_def cache_clear_def)

end

subsection \<open>A card that is an image\<close>

text \<open>The closures over a byte image that serves sectors, as the repository's image-backed
  transport has them.\<close>

definition image_fetch :: "nat \<Rightarrow> nat \<Rightarrow> octets \<Rightarrow> (io_kind + octets) \<times> octets" where
  "image_fetch lba len img =
     (ok_or OtherKind (get_range img (lba * SECTOR_BYTES) (lba * SECTOR_BYTES + len)), img)"

definition image_store :: "nat \<Rightarrow> octets \<Rightarrow> octets \<Rightarrow> (io_kind + unit) \<times> octets" where
  "image_store lba bytes img =
     (if lba * SECTOR_BYTES + length bytes \<le> length img
      then (Inr (), splice (lba * SECTOR_BYTES) bytes img) else (Inl OtherKind, img))"

definition image_content :: "octets \<Rightarrow> nat \<Rightarrow> u8" where
  "image_content img a = (if a < length img then img ! a else 0)"

interpretation img: card_io "\<lambda>_. True" "\<lambda>_ _. True" image_content image_fetch image_store
proof unfold_locales
  fix lba len a i :: nat and w w' bytes :: octets
  show "True \<and> image_content w' = image_content w" if "image_fetch lba len w = (r, w')" for r
    using that by (simp add: image_fetch_def)
  show "bytes = map (image_content w) [lba * SECTOR_BYTES ..< lba * SECTOR_BYTES + len]"
    if "image_fetch lba len w = (Inr bytes, w')"
    using that
    by (auto simp: image_fetch_def ok_or_Inr_iff get_range_Some_iff image_content_def nth_slice
        intro!: nth_equalityI)
  show True by simp
  show "image_content w' a = image_content w a"
    if "image_store lba bytes w = (res, w')"
      and "a < lba * SECTOR_BYTES \<or> cache_end lba (length bytes) * SECTOR_BYTES \<le> a" for res
    using that cache_end_covers [of lba "length bytes"]
    by (auto simp: image_store_def image_content_def nth_splice split: if_splits)
  show "image_content w' (lba * SECTOR_BYTES + i) = bytes ! i"
    if "image_store lba bytes w = (Inr u, w')" "i < length bytes" for u
    using that by (auto simp: image_store_def image_content_def nth_splice split: if_splits)
qed

subsection \<open>A session of reads and writes\<close>

text \<open>What happens to one cache and card: requests through the cache, and the ends of a PC session,
  where the cache is cleared and the console may do anything to the card.\<close>

datatype 'w sd_op = SdRead nat nat | SdWrite nat octets | SdSession "'w \<Rightarrow> 'w"

text \<open>The run, with for each read what it returned and the card as it then was; \<open>None\<close> is a run
  that hangs.\<close>

fun sd_run ::
  "(nat \<Rightarrow> nat \<Rightarrow> 'w \<Rightarrow> (io_kind + octets) \<times> 'w) \<Rightarrow> (nat \<Rightarrow> octets \<Rightarrow> 'w \<Rightarrow> (io_kind + unit) \<times> 'w) \<Rightarrow>
     'w sd_op list \<Rightarrow> sd_read_cache \<Rightarrow> 'w \<Rightarrow>
     ((nat \<times> nat \<times> (io_kind + octets) \<times> 'w) list \<times> sd_read_cache \<times> 'w) option" where
  "sd_run fetch store [] c w = Some ([], c, w)"
| "sd_run fetch store (SdRead lba len # ops) c w =
     (case read_through fetch lba len c w of
        None \<Rightarrow> None
      | Some (r, c', w') \<Rightarrow>
          map_option (\<lambda>(log, rest). ((lba, len, r, w') # log, rest)) (sd_run fetch store ops c' w'))"
| "sd_run fetch store (SdWrite lba bytes # ops) c w =
     (case write_through store lba bytes c w of
        (_, c', w') \<Rightarrow> sd_run fetch store ops c' w')"
| "sd_run fetch store (SdSession change # ops) c w =
     sd_run fetch store ops (cache_clear c) (change w)"

text \<open>A run whose requests are served, and whose changes of the card keep the state \<open>ok\<close>.\<close>

fun op_served :: "('w \<Rightarrow> bool) \<Rightarrow> (nat \<Rightarrow> nat \<Rightarrow> bool) \<Rightarrow> 'w sd_op \<Rightarrow> bool" where
  "op_served ok served (SdRead lba len) \<longleftrightarrow> served lba len"
| "op_served ok served (SdWrite lba bytes) \<longleftrightarrow> served lba (length bytes)"
| "op_served ok served (SdSession change) \<longleftrightarrow> (\<forall>w. ok w \<longrightarrow> ok (change w))"

context card_io
begin

lemma sd_run_coherent:
  assumes "cache_inv c" "coherent w c" "ok w" "\<forall>x \<in> set ops. op_served ok served x"
  shows "\<exists>log c' w'. sd_run fetch store ops c w = Some (log, c', w') \<and> cache_inv c' \<and> coherent w' c' \<and>
    (\<forall>(lba, len, r, v) \<in> set log. \<forall>bytes. r = Inr bytes \<longrightarrow>
       bytes = map (content v) [lba * SECTOR_BYTES ..< lba * SECTOR_BYTES + len])"
  using assms
proof (induction ops arbitrary: c w)
  case Nil
  then show ?case by simp
next
  case (Cons opn ops)
  show ?case
  proof (cases opn)
    case (SdRead lba len)
    then have "served lba len" using Cons.prems(4) by simp
    from read_through_coherent [OF Cons.prems(1-3) this] obtain r c1 w1 where
      one: "read_through fetch lba len c w = Some (r, c1, w1)" "cache_inv c1" "coherent w1 c1" "ok w1"
        "content w1 = content w"
        "\<forall>bytes. r = Inr bytes \<longrightarrow> bytes = map (content w) [lba * SECTOR_BYTES ..< lba * SECTOR_BYTES + len]"
      by blast
    from Cons.IH [OF one(2-4)] one SdRead Cons.prems(4) show ?thesis by fastforce
  next
    case (SdWrite lba bytes)
    obtain r c1 w1 where one: "write_through store lba bytes c w = (r, c1, w1)"
      by (metis prod_cases3)
    have "served lba (length bytes)" using Cons.prems(4) SdWrite by simp
    from write_through_coherent [OF Cons.prems(1,2) one Cons.prems(3) this] Cons.IH one SdWrite Cons.prems(4)
    show ?thesis by simp
  next
    case (SdSession change)
    then show ?thesis using Cons.IH [OF cache_inv_clear coherent_clear] Cons.prems(3,4) by simp
  qed
qed

end

text \<open>C19: The SD read cache never serves a stale byte. Over any sequence of reads and writes of any
  ranges, some failing part-way, and of session ends at which the card changes under it, every
  read that succeeds returns what the card holds at that moment; the run always returns (the
  eviction loop ends), and the cached bytes stay within the budget.\<close>

theorem cache_never_stale:
  assumes "card_io ok served content fetch store" and "ok w" and "\<forall>x \<in> set ops. op_served ok served x"
  shows "\<exists>log c' w'. sd_run fetch store ops cache_default w = Some (log, c', w') \<and>
    sc_bytes c' = sum_list (map (length \<circ> snd) (sc_entries c')) \<and> sc_bytes c' \<le> BUDGET_BYTES \<and>
    (\<forall>(lba, len, r, v) \<in> set log. \<forall>bytes. r = Inr bytes \<longrightarrow>
       bytes = map (content v) [lba * SECTOR_BYTES ..< lba * SECTOR_BYTES + len])"
proof -
  from card_io.sd_run_coherent [OF assms(1) cache_inv_default card_io.coherent_default [OF assms(1)] assms(2,3)]
  show ?thesis unfolding cache_inv_def by blast
qed

theorem cache_never_stale_witness:
  "\<exists>log c' w'. sd_run image_fetch image_store
      [SdRead 0 512, SdWrite 0 (replicate 512 7), SdRead 0 512] cache_default (replicate 1024 0) =
        Some (log, c', w') \<and>
    sc_bytes c' = sum_list (map (length \<circ> snd) (sc_entries c')) \<and> sc_bytes c' \<le> BUDGET_BYTES \<and>
    (\<forall>(lba, len, r, v) \<in> set log. \<forall>bytes. r = Inr bytes \<longrightarrow>
       bytes = map (image_content v) [lba * SECTOR_BYTES ..< lba * SECTOR_BYTES + len])"
  by (rule cache_never_stale [OF img.card_io_axioms]) simp_all

end
