(* ===== verification/Sector_Disk.thy ===== *)
theory Sector_Disk
  imports Sd_Cache
begin

text \<open>
  Byte access to a partition over sector transports: \<open>SectorPartitionDisk\<close> of
  \<open>crates/multi64-sc64-sd/src/partition.rs\<close>, the session cache as a transport (the guards of
  \<open>Sc64Link::read_sd_sectors\<close> and \<open>write_sd_sectors\<close> in \<open>link.rs\<close>), and the RAM image
  \<open>RamPartitionDisk\<close> of \<open>mem_disk.rs\<close> that stands in for a partition. \<open>sector_transport\<close> is the
  contract of the \<open>SdCardTransport\<close> trait. A result \<open>None\<close> is a call that does not return.
\<close>

subsection \<open>The transport contract\<close>

type_synonym 'w sd_read = "nat \<Rightarrow> nat \<Rightarrow> 'w \<Rightarrow> ((io_kind + octets) \<times> 'w) option"
type_synonym 'w sd_write = "nat \<Rightarrow> octets \<Rightarrow> 'w \<Rightarrow> ((io_kind + unit) \<times> 'w) option"

locale sector_transport =
  fixes ok :: "'w \<Rightarrow> bool"
    and content :: "'w \<Rightarrow> nat \<Rightarrow> u8"
    and rd :: "'w sd_read"
    and wr :: "'w sd_write"
  assumes rd_total: "ok w \<Longrightarrow> \<exists>r w'. rd lba n w = Some (r, w')"
    and rd_keeps: "ok w \<Longrightarrow> rd lba n w = Some (r, w') \<Longrightarrow> ok w' \<and> content w' = content w"
    and rd_reads: "ok w \<Longrightarrow> rd lba n w = Some (Inr bs, w') \<Longrightarrow>
      bs = bytes_at (content w) (lba * SECTOR_BYTES) n"
    and wr_total: "ok w \<Longrightarrow> \<exists>res w'. wr lba bytes w = Some (res, w')"
    and wr_ok: "ok w \<Longrightarrow> wr lba bytes w = Some (res, w') \<Longrightarrow> ok w'"
    and wr_apart: "ok w \<Longrightarrow> wr lba bytes w = Some (res, w') \<Longrightarrow>
      a < lba * SECTOR_BYTES \<or> cache_end lba (length bytes) * SECTOR_BYTES \<le> a \<Longrightarrow>
      content w' a = content w a"
    and wr_writes: "ok w \<Longrightarrow> wr lba bytes w = Some (Inr u, w') \<Longrightarrow>
      a \<in> {lba * SECTOR_BYTES ..< lba * SECTOR_BYTES + length bytes} \<Longrightarrow>
      content w' a = bytes ! (a - lba * SECTOR_BYTES)"

subsection \<open>The session cache as a transport\<close>

definition SD_CARD_BUFFER_MAX_BYTES :: nat where "SD_CARD_BUFFER_MAX_BYTES = 128 * 1024"

definition read_sd_sectors ::
  "(nat \<Rightarrow> nat \<Rightarrow> 'w \<Rightarrow> (io_kind + octets) \<times> 'w) \<Rightarrow> (sd_read_cache \<times> 'w) sd_read" where
  "read_sd_sectors fetch start_lba len cw =
     (if \<not> SECTOR_BYTES dvd len then Some (Inl OtherKind, cw)
      else if len = 0 then Some (Inr [], cw)
      else if SD_CARD_BUFFER_MAX_BYTES < len then Some (Inl OtherKind, cw)
      else if 2 ^ 32 - 1 < start_lba then Some (Inl OtherKind, cw)
      else read_through fetch start_lba len (fst cw) (snd cw))"

definition write_sd_sectors ::
  "(nat \<Rightarrow> octets \<Rightarrow> 'w \<Rightarrow> (io_kind + unit) \<times> 'w) \<Rightarrow> (sd_read_cache \<times> 'w) sd_write" where
  "write_sd_sectors store start_lba bytes cw =
     (if bytes = [] \<or> \<not> SECTOR_BYTES dvd length bytes then Some (Inl OtherKind, cw)
      else if SD_CARD_BUFFER_MAX_BYTES < length bytes then Some (Inl OtherKind, cw)
      else if 2 ^ 32 - 1 < start_lba then Some (Inl OtherKind, cw)
      else Some (write_through store start_lba bytes (fst cw) (snd cw)))"

text \<open>A card behind the guards, which let only requests through that it serves.\<close>

locale guarded_card = card_io ok served content fetch store
  for ok :: "'w \<Rightarrow> bool" and served content fetch store +
  assumes guards: "SECTOR_BYTES dvd len \<Longrightarrow> 0 < len \<Longrightarrow> len \<le> SD_CARD_BUFFER_MAX_BYTES \<Longrightarrow> lba < 2 ^ 32 \<Longrightarrow>
    served lba len"

sublocale guarded_card \<subseteq> cached: sector_transport
  "\<lambda>(c, w). cache_inv c \<and> coherent w c \<and> ok w" "\<lambda>(c, w). content w" "read_sd_sectors fetch"
  "write_sd_sectors store"
proof unfold_locales
  fix lba n a :: nat and bytes bs :: octets and cw cw' :: "sd_read_cache \<times> 'w"
  obtain c w where cw: "cw = (c, w)" by fastforce
  assume "case cw of (c, w) \<Rightarrow> cache_inv c \<and> coherent w c \<and> ok w"
  then have inv: "cache_inv c" "coherent w c" "ok w" by (simp_all add: cw)
  have rd: "read_sd_sectors fetch lba n cw = Some (Inl OtherKind, cw) \<or>
      read_sd_sectors fetch lba n cw = Some (Inr [], cw) \<and> n = 0 \<or>
      read_sd_sectors fetch lba n cw = read_through fetch lba n c w \<and> served lba n"
    using guards [of n lba] by (auto simp: read_sd_sectors_def cw)
  have wr: "write_sd_sectors store lba bytes cw = Some (Inl OtherKind, cw) \<or>
      write_sd_sectors store lba bytes cw = Some (write_through store lba bytes c w) \<and>
      served lba (length bytes)"
    using guards [of "length bytes" lba] by (auto simp: write_sd_sectors_def cw)
  have got: "\<exists>r1 c1 w1. read_through fetch lba n c w = Some (r1, c1, w1) \<and> cache_inv c1 \<and> coherent w1 c1 \<and>
      ok w1 \<and> content w1 = content w \<and>
      (\<forall>bytes. r1 = Inr bytes \<longrightarrow> bytes = map (content w) [lba * SECTOR_BYTES ..< lba * SECTOR_BYTES + n])"
    if "served lba n"
    by (rule read_through_coherent [OF inv that])
  obtain r2 c2 w2 where wrote: "write_through store lba bytes c w = (r2, c2, w2)"
    by (metis prod_cases3)
  note inv2 = write_through_coherent [OF inv(1,2) wrote inv(3)]
  have store: "store lba bytes w = (r2, w2)"
    using wrote by (auto simp: write_through_def split: prod.splits)
  show "\<exists>r w'. read_sd_sectors fetch lba n cw = Some (r, w')"
    using rd got by auto
  show "(case cw' of (c, w) \<Rightarrow> cache_inv c \<and> coherent w c \<and> ok w) \<and>
      (case cw' of (c, w) \<Rightarrow> content w) = (case cw of (c, w) \<Rightarrow> content w)"
    if "read_sd_sectors fetch lba n cw = Some (r, cw')" for r
    using that rd got inv by (auto simp: cw)
  show "bs = bytes_at (case cw of (c, w) \<Rightarrow> content w) (lba * SECTOR_BYTES) n"
    if "read_sd_sectors fetch lba n cw = Some (Inr bs, cw')"
    using that rd got by (auto simp: cw bytes_at_def)
  show "\<exists>res w'. write_sd_sectors store lba bytes cw = Some (res, w')"
    using wr wrote by auto
  show "case cw' of (c, w) \<Rightarrow> cache_inv c \<and> coherent w c \<and> ok w"
    if "write_sd_sectors store lba bytes cw = Some (res, cw')" for res
    using that inv inv2 wr wrote by (auto simp: cw)
  show "(case cw' of (c, w) \<Rightarrow> content w) a = (case cw of (c, w) \<Rightarrow> content w) a"
    if "write_sd_sectors store lba bytes cw = Some (res, cw')"
      and "a < lba * SECTOR_BYTES \<or> cache_end lba (length bytes) * SECTOR_BYTES \<le> a" for res
    using that wr wrote store_apart [OF inv(3) _ store] by (auto simp: cw)
  show "(case cw' of (c, w) \<Rightarrow> content w) a = bytes ! (a - lba * SECTOR_BYTES)"
    if "write_sd_sectors store lba bytes cw = Some (Inr u, cw')"
      and "a \<in> {lba * SECTOR_BYTES ..< lba * SECTOR_BYTES + length bytes}" for u
    using that wr wrote store store_writes [of w lba bytes u w2 "a - lba * SECTOR_BYTES", OF inv(3)]
    by (auto simp: cw)
qed

interpretation img: guarded_card "\<lambda>_. True" "\<lambda>_ _. True" image_content image_fetch image_store
  by unfold_locales simp

interpretation img: sector_transport "\<lambda>(c, w). cache_inv c \<and> img.coherent w c" "\<lambda>(c, w). image_content w"
  "read_sd_sectors image_fetch" "write_sd_sectors image_store"
  using img.cached.sector_transport_axioms by simp

subsection \<open>The partition disk\<close>

record partition_disk =
  pd_start :: nat
  pd_bytes :: nat
  pd_pos :: nat
  pd_writable :: bool

definition partition_disk_new :: "nat \<Rightarrow> nat \<Rightarrow> partition_disk" where
  "partition_disk_new start bytes =
     \<lparr>pd_start = start, pd_bytes = bytes, pd_pos = 0, pd_writable = False\<rparr>"

definition partition_disk_new_writable :: "nat \<Rightarrow> nat \<Rightarrow> partition_disk" where
  "partition_disk_new_writable start bytes =
     \<lparr>pd_start = start, pd_bytes = bytes, pd_pos = 0, pd_writable = True\<rparr>"

text \<open>How many sectors one request of the loop covers, \<open>None\<close> for a part of one sector.\<close>

definition batch_bytes :: "nat \<Rightarrow> nat option" where
  "batch_bytes contiguous =
     (if contiguous < 512 then None
      else Some (min (contiguous div 512) (SD_CARD_BUFFER_MAX_BYTES div 512) * 512))"

partial_function (option) disk_read_loop ::
  "'w sd_read \<Rightarrow> partition_disk \<Rightarrow> nat \<Rightarrow> octets \<Rightarrow> 'w \<Rightarrow> ((io_kind + octets) \<times> 'w) option" where
  "disk_read_loop rd d want got w =
     (if want \<le> length got then Some (Inr got, w)
      else
        let abs_byte = pd_pos d + length got;
            abs_sec = pd_start d + abs_byte div 512;
            off = abs_byte mod 512;
            remaining = want - length got
        in if off \<noteq> 0 then
             (case rd abs_sec 512 w of
                None \<Rightarrow> None
              | Some (Inl e, w') \<Rightarrow> Some (Inl e, w')
              | Some (Inr sector, w') \<Rightarrow>
                  (let k = min (512 - off) remaining
                   in disk_read_loop rd d want (got @ slice off (off + k) sector) w'))
           else
             (let contiguous = min remaining (pd_bytes d - abs_byte) in
              case batch_bytes contiguous of
                None \<Rightarrow>
                  (case rd abs_sec 512 w of
                     None \<Rightarrow> None
                   | Some (Inl e, w') \<Rightarrow> Some (Inl e, w')
                   | Some (Inr sector, w') \<Rightarrow>
                       disk_read_loop rd d want (got @ slice 0 contiguous sector) w')
              | Some batch \<Rightarrow>
                  (case rd abs_sec batch w of
                     None \<Rightarrow> None
                   | Some (Inl e, w') \<Rightarrow> Some (Inl e, w')
                   | Some (Inr bytes, w') \<Rightarrow> disk_read_loop rd d want (got @ bytes) w')))"

definition disk_read ::
  "'w sd_read \<Rightarrow> nat \<Rightarrow> partition_disk \<Rightarrow> 'w \<Rightarrow> ((io_kind + octets) \<times> partition_disk \<times> 'w) option" where
  "disk_read rd n d w =
     (if n = 0 then Some (Inr [], d, w)
      else if pd_bytes d \<le> pd_pos d then Some (Inr [], d, w)
      else
        let want = min n (pd_bytes d - pd_pos d) in
        case disk_read_loop rd d want [] w of
          None \<Rightarrow> None
        | Some (Inl e, w') \<Rightarrow> Some (Inl e, d, w')
        | Some (Inr got, w') \<Rightarrow> Some (Inr got, d\<lparr>pd_pos := pd_pos d + length got\<rparr>, w'))"

text \<open>Reading a sector, changing part of it and writing it back.\<close>

definition patch_sector ::
  "'w sd_read \<Rightarrow> 'w sd_write \<Rightarrow> nat \<Rightarrow> nat \<Rightarrow> octets \<Rightarrow> 'w \<Rightarrow> ((io_kind + unit) \<times> 'w) option" where
  "patch_sector rd wr sec off bytes w =
     (case rd sec 512 w of
        None \<Rightarrow> None
      | Some (Inl e, w') \<Rightarrow> Some (Inl e, w')
      | Some (Inr sector, w') \<Rightarrow> wr sec (splice off bytes sector) w')"

partial_function (option) disk_write_loop ::
  "'w sd_read \<Rightarrow> 'w sd_write \<Rightarrow> partition_disk \<Rightarrow> octets \<Rightarrow> nat \<Rightarrow> 'w \<Rightarrow> ((io_kind + nat) \<times> 'w) option" where
  "disk_write_loop rd wr d buf written w =
     (if length buf \<le> written then Some (Inr written, w)
      else
        let abs' = pd_pos d + written in
        if pd_bytes d \<le> abs' then Some (Inl WriteZero, w)
        else
          let abs_sec = pd_start d + abs' div 512;
              off = abs' mod 512;
              remaining = length buf - written
          in if off \<noteq> 0 then
               (let k = min (512 - off) remaining in
                case patch_sector rd wr abs_sec off (slice written (written + k) buf) w of
                  None \<Rightarrow> None
                | Some (Inl e, w') \<Rightarrow> Some (Inl e, w')
                | Some (Inr _, w') \<Rightarrow> disk_write_loop rd wr d buf (written + k) w')
             else
               (let contiguous = min remaining (pd_bytes d - abs') in
                case batch_bytes contiguous of
                  None \<Rightarrow>
                    (case patch_sector rd wr abs_sec 0 (slice written (written + contiguous) buf) w of
                       None \<Rightarrow> None
                     | Some (Inl e, w') \<Rightarrow> Some (Inl e, w')
                     | Some (Inr _, w') \<Rightarrow> disk_write_loop rd wr d buf (written + contiguous) w')
                | Some batch \<Rightarrow>
                    (case wr abs_sec (slice written (written + batch) buf) w of
                       None \<Rightarrow> None
                     | Some (Inl e, w') \<Rightarrow> Some (Inl e, w')
                     | Some (Inr _, w') \<Rightarrow> disk_write_loop rd wr d buf (written + batch) w')))"

definition disk_write ::
  "'w sd_read \<Rightarrow> 'w sd_write \<Rightarrow> octets \<Rightarrow> partition_disk \<Rightarrow> 'w \<Rightarrow>
     ((io_kind + nat) \<times> partition_disk \<times> 'w) option" where
  "disk_write rd wr buf d w =
     (if \<not> pd_writable d then Some (Inl Unsupported, d, w)
      else if buf = [] then Some (Inr 0, d, w)
      else case disk_write_loop rd wr d buf 0 w of
        None \<Rightarrow> None
      | Some (Inl e, w') \<Rightarrow> Some (Inl e, d, w')
      | Some (Inr n, w') \<Rightarrow> Some (Inr n, d\<lparr>pd_pos := pd_pos d + n\<rparr>, w'))"

datatype seek_from = SeekStart nat | SeekCurrent int | SeekEnd int

fun seek_target :: "nat \<Rightarrow> nat \<Rightarrow> seek_from \<Rightarrow> int" where
  "seek_target pos len (SeekStart s) = int s"
| "seek_target pos len (SeekCurrent delta) = int pos + delta"
| "seek_target pos len (SeekEnd delta) = int len + delta"

definition disk_seek :: "seek_from \<Rightarrow> partition_disk \<Rightarrow> (io_kind + nat) \<times> partition_disk" where
  "disk_seek where' d =
     (let new_pos = seek_target (pd_pos d) (pd_bytes d) where' in
      if new_pos < 0 then (Inl InvalidInput, d)
      else if pd_bytes d < nat new_pos then (Inl InvalidInput, d)
      else (Inr (nat new_pos), d\<lparr>pd_pos := nat new_pos\<rparr>))"

subsection \<open>What reads and writes do\<close>

lemma batch_bytes_Some:
  assumes "batch_bytes c = Some b"
  shows "0 < b" "b \<le> c" "512 dvd b" "b \<le> SD_CARD_BUFFER_MAX_BYTES"
proof -
  let ?k = "min (c div 512) (SD_CARD_BUFFER_MAX_BYTES div 512)"
  from assms have c: "\<not> c < 512" and b: "b = ?k * 512"
    by (auto simp: batch_bytes_def split: if_splits)
  from c have "0 < c div 512" by (simp add: div_greater_zero_iff)
  then have "0 < ?k" by (simp add: SD_CARD_BUFFER_MAX_BYTES_def)
  with b show "0 < b" by simp
  have "?k * 512 \<le> c div 512 * 512" by (rule mult_le_mono1) simp
  also have "\<dots> \<le> c" by simp
  finally show "b \<le> c" by (simp only: b)
  show "512 dvd b" by (simp add: b)
  have "?k * 512 \<le> SD_CARD_BUFFER_MAX_BYTES div 512 * 512" by (rule mult_le_mono1) simp
  also have "\<dots> \<le> SD_CARD_BUFFER_MAX_BYTES" by simp
  finally show "b \<le> SD_CARD_BUFFER_MAX_BYTES" by (simp only: b)
qed

lemma batch_bytes_None: "batch_bytes c = None \<longleftrightarrow> c < 512"
  by (simp add: batch_bytes_def)

definition disk_base :: "partition_disk \<Rightarrow> nat" where
  "disk_base d = pd_start d * SECTOR_BYTES"

lemma sector_of: "(pd_start d + a div 512) * SECTOR_BYTES + a mod 512 = disk_base d + a"
  by (simp add: disk_base_def SECTOR_BYTES_def add_mult_distrib)

context sector_transport
begin

lemma rd_cases:
  assumes "ok w"
  obtains (err) e w' where "rd lba n w = Some (Inl e, w')" "ok w'" "content w' = content w"
  | (bytes) w' where "rd lba n w = Some (Inr (bytes_at (content w) (lba * SECTOR_BYTES) n), w')"
      "ok w'" "content w' = content w"
proof -
  obtain r w' where r: "rd lba n w = Some (r, w')" using rd_total [OF assms] by blast
  with rd_keeps [OF assms r] rd_reads [OF assms] that show thesis by (cases r) auto
qed

lemma disk_read_loop_result:
  assumes "ok w" "want \<le> pd_bytes d - pd_pos d" "length got \<le> want"
    and "got = bytes_at (content w) (disk_base d + pd_pos d) (length got)"
  shows "\<exists>r w'. disk_read_loop rd d want got w = Some (r, w') \<and> ok w' \<and> content w' = content w \<and>
    (\<forall>bs. r = Inr bs \<longrightarrow> bs = bytes_at (content w) (disk_base d + pd_pos d) want)"
  using assms
proof (induction "want - length got" arbitrary: got w rule: less_induct)
  case less
  show ?case
  proof (cases "want \<le> length got")
    case True
    with less.prems have "length got = want" by simp
    with less.prems show ?thesis by (subst disk_read_loop.simps) auto
  next
    case False
    let ?a = "pd_pos d + length got"
    let ?sec = "pd_start d + ?a div 512"
    let ?off = "?a mod 512"
    have at': "?sec * SECTOR_BYTES + ?off = disk_base d + pd_pos d + length got"
      using sector_of [of d ?a] by simp
    have go: "\<exists>r w'. disk_read_loop rd d want (got @ bs) v = Some (r, w') \<and> ok w' \<and> content w' = content w \<and>
        (\<forall>bs. r = Inr bs \<longrightarrow> bs = bytes_at (content w) (disk_base d + pd_pos d) want)"
      if bs: "bs = bytes_at (content w) (?sec * SECTOR_BYTES + ?off) k" "0 < k" "k \<le> want - length got"
        and v: "ok v" "content v = content w" for bs k v
    proof -
      have "got @ bs = bytes_at (content v) (disk_base d + pd_pos d) (length (got @ bs))"
        using less.prems(4) bs v at' by (simp add: bytes_at_add [of _ _ "length got"])
      from less.hyps [OF _ v(1) less.prems(2) _ this] bs v False less.prems(3) show ?thesis by auto
    qed
    show ?thesis
    proof (cases "?off = 0")
      case off: False
      let ?k = "min (512 - ?off) (want - length got)"
      have k: "0 < ?k" "?k \<le> want - length got" "?off + ?k \<le> 512" using False by auto
      show ?thesis
      proof (rule rd_cases [OF less.prems(1), of ?sec 512])
        fix e w' assume "rd ?sec 512 w = Some (Inl e, w')" "ok w'" "content w' = content w"
        with False off show ?thesis by (subst disk_read_loop.simps) (simp add: Let_def)
      next
        fix w' assume r: "rd ?sec 512 w = Some (Inr (bytes_at (content w) (?sec * SECTOR_BYTES) 512), w')"
          and v: "ok w'" "content w' = content w"
        have "slice ?off (?off + ?k) (bytes_at (content w) (?sec * SECTOR_BYTES) 512) =
            bytes_at (content w) (?sec * SECTOR_BYTES + ?off) ?k"
          by (subst slice_bytes_at [OF k(3)]) simp
        from go [OF this k(1,2) v] show ?thesis
          using False off r by (subst disk_read_loop.simps) (simp add: Let_def)
      qed
    next
      case off: True
      let ?c = "min (want - length got) (pd_bytes d - ?a)"
      have c: "0 < ?c" "?c \<le> want - length got" using False less.prems(2) by auto
      show ?thesis
      proof (cases "batch_bytes ?c")
        case None
        then have c512: "?c \<le> 512" by (simp add: batch_bytes_None)
        show ?thesis
        proof (rule rd_cases [OF less.prems(1), of ?sec 512])
          fix e w' assume "rd ?sec 512 w = Some (Inl e, w')" "ok w'" "content w' = content w"
          with False off None show ?thesis by (subst disk_read_loop.simps) (simp add: Let_def)
        next
          fix w' assume r: "rd ?sec 512 w = Some (Inr (bytes_at (content w) (?sec * SECTOR_BYTES) 512), w')"
            and v: "ok w'" "content w' = content w"
          have "slice 0 ?c (bytes_at (content w) (?sec * SECTOR_BYTES) 512) =
              bytes_at (content w) (?sec * SECTOR_BYTES + ?off) ?c"
            by (subst slice_bytes_at [OF c512]) (simp add: off)
          from go [OF this c v] show ?thesis
            using False off None r by (subst disk_read_loop.simps) (simp add: Let_def)
        qed
      next
        case (Some b)
        note b = batch_bytes_Some [OF Some]
        show ?thesis
        proof (rule rd_cases [OF less.prems(1), of ?sec b])
          fix e w' assume "rd ?sec b w = Some (Inl e, w')" "ok w'" "content w' = content w"
          with False off Some show ?thesis by (subst disk_read_loop.simps) (simp add: Let_def)
        next
          fix w' assume r: "rd ?sec b w = Some (Inr (bytes_at (content w) (?sec * SECTOR_BYTES) b), w')"
            and v: "ok w'" "content w' = content w"
          have "bytes_at (content w) (?sec * SECTOR_BYTES) b =
              bytes_at (content w) (?sec * SECTOR_BYTES + ?off) b" by (simp add: off)
          from go [OF this b(1) order_trans [OF b(2) c(2)] v] show ?thesis
            using False off Some r by (subst disk_read_loop.simps) (simp add: Let_def)
        qed
      qed
    qed
  qed
qed

lemma disk_read_result:
  assumes "ok w"
  shows "\<exists>r d' w'. disk_read rd n d w = Some (r, d', w') \<and> ok w' \<and> content w' = content w \<and>
    (\<forall>e. r = Inl e \<longrightarrow> d' = d) \<and>
    (\<forall>bs. r = Inr bs \<longrightarrow>
       bs = bytes_at (content w) (disk_base d + pd_pos d) (min n (pd_bytes d - pd_pos d)) \<and>
       d' = d\<lparr>pd_pos := pd_pos d + length bs\<rparr>)"
proof (cases "n = 0 \<or> pd_bytes d \<le> pd_pos d")
  case True
  with assms show ?thesis by (auto simp: disk_read_def)
next
  case False
  let ?want = "min n (pd_bytes d - pd_pos d)"
  have "?want \<le> pd_bytes d - pd_pos d" by simp
  from disk_read_loop_result [OF assms this, of "[]"] obtain r w' where
    loop: "disk_read_loop rd d ?want [] w = Some (r, w')" "ok w'" "content w' = content w"
      "\<forall>bs. r = Inr bs \<longrightarrow> bs = bytes_at (content w) (disk_base d + pd_pos d) ?want" by auto
  with False show ?thesis by (cases r) (auto simp: disk_read_def Let_def)
qed

end

text \<open>The sectors a range of bytes touches.\<close>

definition touched :: "nat \<Rightarrow> nat \<Rightarrow> nat set" where
  "touched at' n = {at' div 512 * 512 ..< (at' + n + 511) div 512 * 512}"

lemma touched_mono:
  assumes "at' \<le> at2" "at2 + n2 \<le> at' + n"
  shows "touched at2 n2 \<subseteq> touched at' n"
  using assms div_le_mono [of at' at2 512] div_le_mono [of "at2 + n2 + 511" "at' + n + 511" 512]
  by (auto simp: touched_def)

lemma touched_aligned: "touched (s * 512) (512 * m) = {s * 512 ..< s * 512 + 512 * m}"
proof -
  have "(s * 512 + 512 * m + 511) div 512 = (511 + (s + m) * 512) div 512"
    by (simp add: algebra_simps)
  also have "\<dots> = s + m" by (subst div_mult_self1) simp_all
  finally show ?thesis by (simp add: touched_def algebra_simps)
qed

lemma touched_within:
  assumes "off + n \<le> 512" "0 < n"
  shows "touched (s * 512 + off) n = {s * 512 ..< s * 512 + 512}"
proof -
  have "(s * 512 + off + n + 511) div 512 = (off + n + 511 + s * 512) div 512"
    by (simp add: algebra_simps)
  also have "\<dots> = s + (off + n + 511) div 512" by (rule div_mult_self1) simp
  also have "(off + n + 511) div 512 = 1" using assms by (intro div_nat_eqI) auto
  finally have "(s * 512 + off + n + 511) div 512 = s + 1" .
  moreover have "(s * 512 + off) div 512 = s" using assms by simp
  ultimately show ?thesis by (simp add: touched_def add.commute)
qed

lemma touched_apart: "a \<notin> touched at' n \<Longrightarrow> a < at' div 512 * 512 \<or> (at' + n + 511) div 512 * 512 \<le> a"
  by (auto simp: touched_def)

context sector_transport
begin

definition writes_at :: "'w \<Rightarrow> nat \<Rightarrow> octets \<Rightarrow> ((io_kind + unit) \<times> 'w) option \<Rightarrow> bool" where
  "writes_at w at' bs res \<longleftrightarrow>
     (\<exists>r w'. res = Some (r, w') \<and> ok w' \<and>
        (\<forall>u. r = Inr u \<longrightarrow> content w' = overlay (content w) at' bs) \<and>
        (\<forall>a. a \<notin> touched at' (length bs) \<longrightarrow> content w' a = content w a))"

lemma wr_writes_at:
  assumes "ok w" "512 dvd length bs"
  shows "writes_at w (sec * SECTOR_BYTES) bs (wr sec bs w)"
proof -
  obtain r w' where r: "wr sec bs w = Some (r, w')" using wr_total [OF assms(1)] by blast
  obtain m where m: "length bs = 512 * m" using assms(2) by (rule dvdE)
  have "cache_end sec (length bs) * SECTOR_BYTES = sec * SECTOR_BYTES + length bs"
    by (simp add: cache_end_def SECTOR_BYTES_def m)
  then have apart: "content w' a = content w a"
    if "a \<notin> {sec * SECTOR_BYTES ..< sec * SECTOR_BYTES + length bs}" for a
    using wr_apart [OF assms(1) r, of a] that by auto
  have "touched (sec * SECTOR_BYTES) (length bs) = {sec * SECTOR_BYTES ..< sec * SECTOR_BYTES + length bs}"
    by (simp add: touched_aligned SECTOR_BYTES_def m)
  moreover have "content w' = overlay (content w) (sec * SECTOR_BYTES) bs" if "r = Inr u" for u
    using wr_writes [OF assms(1), of sec bs u w'] apart r that by (fastforce simp: overlay_def fun_eq_iff)
  ultimately show ?thesis
    using r apart wr_ok [OF assms(1) r] by (auto simp: writes_at_def)
qed

lemma patch_sector_writes_at:
  assumes "ok w" "off + length bs \<le> 512" "bs \<noteq> []"
  shows "writes_at w (sec * SECTOR_BYTES + off) bs (patch_sector rd wr sec off bs w)"
proof (rule rd_cases [OF assms(1), of sec 512])
  fix e w' assume "rd sec 512 w = Some (Inl e, w')" "ok w'" "content w' = content w"
  then show ?thesis by (simp add: patch_sector_def writes_at_def)
next
  let ?old = "bytes_at (content w) (sec * SECTOR_BYTES) 512"
  fix v assume v: "rd sec 512 w = Some (Inr ?old, v)" "ok v" "content v = content w"
  have len: "length (splice off bs ?old) = 512" using assms(2) by (simp add: length_splice)
  have part: "touched (sec * SECTOR_BYTES + off) (length bs) = touched (sec * SECTOR_BYTES) 512"
    using touched_within [OF assms(2), of sec] touched_aligned [of sec 1] assms(3)
    by (simp add: SECTOR_BYTES_def)
  have "overlay (content w) (sec * SECTOR_BYTES) (splice off bs ?old) =
      overlay (content w) (sec * SECTOR_BYTES + off) bs"
  proof
    fix a
    show "overlay (content w) (sec * SECTOR_BYTES) (splice off bs ?old) a =
        overlay (content w) (sec * SECTOR_BYTES + off) bs a"
      using assms(2) by (auto simp: overlay_def len nth_splice less_diff_conv2)
  qed
  with wr_writes_at [OF v(2), of "splice off bs ?old" sec] v part show ?thesis
    by (simp add: patch_sector_def writes_at_def len)
qed

lemma disk_write_loop_result:
  assumes "ok w" "written \<le> length buf"
    and "content w = overlay f (disk_base d + pd_pos d) (take written buf)"
  shows "\<exists>r w'. disk_write_loop rd wr d buf written w = Some (r, w') \<and> ok w' \<and>
    (\<forall>n. r = Inr n \<longrightarrow> n = length buf \<and> content w' = overlay f (disk_base d + pd_pos d) buf) \<and>
    (\<forall>a. a \<notin> touched (disk_base d + pd_pos d) (length buf) \<longrightarrow> content w' a = f a)"
  using assms
proof (induction "length buf - written" arbitrary: written w rule: less_induct)
  case less
  let ?p = "disk_base d + pd_pos d"
  have start: "content w a = f a" if "a \<notin> touched ?p (length buf)" for a
  proof -
    have "a < ?p \<or> ?p + length buf \<le> a"
      using touched_apart [OF that] by linarith
    with less.prems(3) show ?thesis by (auto simp: overlay_def)
  qed
  show ?case
  proof (cases "length buf \<le> written")
    case True
    with less.prems start show ?thesis by (subst disk_write_loop.simps) auto
  next
    case False
    let ?a = "pd_pos d + written"
    let ?sec = "pd_start d + ?a div 512"
    let ?off = "?a mod 512"
    have at': "?sec * SECTOR_BYTES + ?off = ?p + written" using sector_of [of d ?a] by simp
    have go: "\<exists>r w'. (case m of None \<Rightarrow> None | Some (Inl e, w') \<Rightarrow> Some (Inl e, w')
          | Some (Inr _, w') \<Rightarrow> disk_write_loop rd wr d buf (written + k) w') = Some (r, w') \<and> ok w' \<and>
        (\<forall>n. r = Inr n \<longrightarrow> n = length buf \<and> content w' = overlay f ?p buf) \<and>
        (\<forall>a. a \<notin> touched ?p (length buf) \<longrightarrow> content w' a = f a)"
      if m: "writes_at w (?sec * SECTOR_BYTES + ?off) (slice written (written + k) buf) m"
        and k: "0 < k" "k \<le> length buf - written" for m k
    proof -
      let ?bs = "slice written (written + k) buf"
      have len: "length ?bs = k" using k False by simp
      from m obtain r v where v: "m = Some (r, v)" "ok v"
          "\<And>u. r = Inr u \<Longrightarrow> content v = overlay (content w) (?p + written) ?bs"
          "\<And>a. a \<notin> touched (?p + written) k \<Longrightarrow> content v a = content w a"
        unfolding at' writes_at_def len by auto
      have sub: "touched (?p + written) k \<subseteq> touched ?p (length buf)"
        by (rule touched_mono) (use k False in auto)
      show ?thesis
      proof (cases r)
        case (Inl e)
        have "content v a = f a" if "a \<notin> touched ?p (length buf)" for a
          using v(4) [of a] start [OF that] sub that by auto
        with v Inl show ?thesis by auto
      next
        case (Inr u)
        have "take (written + k) buf = take written buf @ ?bs" by (simp add: slice_def take_add)
        then have "content v = overlay f ?p (take (written + k) buf)"
          using v(3) [OF Inr] less.prems(2,3) overlay_overlay [of f ?p "take written buf" ?bs]
          by (simp add: min_absorb2)
        from less.hyps [OF _ v(2) _ this] k False v Inr show ?thesis by auto
      qed
    qed
    show ?thesis
    proof (cases "pd_bytes d \<le> ?a")
      case True
      with False less.prems(1) start show ?thesis by (subst disk_write_loop.simps) (auto simp: Let_def)
    next
      case inside: False
      show ?thesis
      proof (cases "?off = 0")
        case off: False
        let ?k = "min (512 - ?off) (length buf - written)"
        have k: "0 < ?k" "?k \<le> length buf - written" "?off + ?k \<le> 512" using False by auto
        have "writes_at w (?sec * SECTOR_BYTES + ?off) (slice written (written + ?k) buf)
            (patch_sector rd wr ?sec ?off (slice written (written + ?k) buf) w)"
          by (rule patch_sector_writes_at [OF less.prems(1)]) (use k in \<open>auto simp: slice_def\<close>)
        from go [OF this k(1,2)] False inside off show ?thesis
          by (subst disk_write_loop.simps) (simp add: Let_def)
      next
        case off: True
        let ?c = "min (length buf - written) (pd_bytes d - ?a)"
        have c: "0 < ?c" "?c \<le> length buf - written" using False inside by auto
        show ?thesis
        proof (cases "batch_bytes ?c")
          case None
          have "writes_at w (?sec * SECTOR_BYTES + ?off) (slice written (written + ?c) buf)
              (patch_sector rd wr ?sec ?off (slice written (written + ?c) buf) w)"
            by (rule patch_sector_writes_at [OF less.prems(1)])
              (use c None in \<open>auto simp: slice_def off batch_bytes_None\<close>)
          from go [OF this c] False inside off None show ?thesis
            by (subst disk_write_loop.simps) (simp add: Let_def)
        next
          case (Some b)
          note b = batch_bytes_Some [OF Some]
          have le: "b \<le> length buf - written" using b(2) c(2) by linarith
          have "writes_at w (?sec * SECTOR_BYTES) (slice written (written + b) buf)
              (wr ?sec (slice written (written + b) buf) w)"
            by (rule wr_writes_at [OF less.prems(1)]) (use b(3) le in simp)
          then have "writes_at w (?sec * SECTOR_BYTES + ?off) (slice written (written + b) buf)
              (wr ?sec (slice written (written + b) buf) w)" by (simp add: off)
          from go [OF this b(1) le] False inside off Some show ?thesis
            by (subst disk_write_loop.simps) (simp add: Let_def)
        qed
      qed
    qed
  qed
qed

lemma disk_write_result:
  assumes "ok w"
  shows "\<exists>r d' w'. disk_write rd wr buf d w = Some (r, d', w') \<and> ok w' \<and>
    (\<forall>e. r = Inl e \<longrightarrow> d' = d) \<and>
    (\<forall>n. r = Inr n \<longrightarrow> n = length buf \<and> d' = d\<lparr>pd_pos := pd_pos d + n\<rparr> \<and>
       content w' = overlay (content w) (disk_base d + pd_pos d) buf) \<and>
    (\<forall>a. a \<notin> touched (disk_base d + pd_pos d) (length buf) \<longrightarrow> content w' a = content w a)"
proof (cases "\<not> pd_writable d \<or> buf = []")
  case True
  with assms show ?thesis by (auto simp: disk_write_def)
next
  case False
  from disk_write_loop_result [OF assms, of 0 buf "content w" d] obtain r w' where
    loop: "disk_write_loop rd wr d buf 0 w = Some (r, w')" "ok w'"
      "\<forall>n. r = Inr n \<longrightarrow> n = length buf \<and> content w' = overlay (content w) (disk_base d + pd_pos d) buf"
      "\<forall>a. a \<notin> touched (disk_base d + pd_pos d) (length buf) \<longrightarrow> content w' a = content w a" by auto
  with False show ?thesis by (cases r) (auto simp: disk_write_def)
qed

end

subsection \<open>A RAM image as a partition\<close>

record ram_disk =
  rm_storage :: octets
  rm_pos :: nat
  rm_writable :: bool

definition ram_new_writable :: "octets \<Rightarrow> ram_disk" where
  "ram_new_writable storage = \<lparr>rm_storage = storage, rm_pos = 0, rm_writable = True\<rparr>"

definition ram_new_readonly :: "octets \<Rightarrow> ram_disk" where
  "ram_new_readonly storage = \<lparr>rm_storage = storage, rm_pos = 0, rm_writable = False\<rparr>"

definition ram_read :: "nat \<Rightarrow> ram_disk \<Rightarrow> (io_kind + octets) \<times> ram_disk" where
  "ram_read n m =
     (if n = 0 then (Inr [], m)
      else let len = length (rm_storage m) in
        if len \<le> rm_pos m then (Inr [], m)
        else let k = min n (len - rm_pos m) in
          (Inr (slice (rm_pos m) (rm_pos m + k) (rm_storage m)), m\<lparr>rm_pos := rm_pos m + k\<rparr>))"

definition ram_write :: "octets \<Rightarrow> ram_disk \<Rightarrow> (io_kind + nat) \<times> ram_disk" where
  "ram_write buf m =
     (if \<not> rm_writable m then (Inl Unsupported, m)
      else if buf = [] then (Inr 0, m)
      else if length (rm_storage m) < rm_pos m + length buf then (Inl WriteZero, m)
      else (Inr (length buf),
            m\<lparr>rm_storage := splice (rm_pos m) buf (rm_storage m), rm_pos := rm_pos m + length buf\<rparr>))"

definition ram_seek :: "seek_from \<Rightarrow> ram_disk \<Rightarrow> (io_kind + nat) \<times> ram_disk" where
  "ram_seek where' m =
     (let len = length (rm_storage m); new_pos = seek_target (rm_pos m) len where' in
      if new_pos < 0 then (Inl InvalidInput, m)
      else if len < nat new_pos then (Inl InvalidInput, m)
      else (Inr (nat new_pos), m\<lparr>rm_pos := nat new_pos\<rparr>))"

subsection \<open>The sector disk and the RAM disk\<close>

datatype disk_op = OpRead nat | OpWrite octets | OpSeek seek_from
datatype disk_result = GotBytes octets | GotCount nat | GotErr io_kind

definition result_of :: "('a \<Rightarrow> disk_result) \<Rightarrow> io_kind + 'a \<Rightarrow> disk_result" where
  "result_of f r = (case r of Inl e \<Rightarrow> GotErr e | Inr v \<Rightarrow> f v)"

fun disk_do :: "'w sd_read \<Rightarrow> 'w sd_write \<Rightarrow> disk_op \<Rightarrow> partition_disk \<times> 'w \<Rightarrow>
    (disk_result \<times> partition_disk \<times> 'w) option" where
  "disk_do rd wr (OpRead n) (d, w) =
     map_option (\<lambda>(r, st). (result_of GotBytes r, st)) (disk_read rd n d w)"
| "disk_do rd wr (OpWrite buf) (d, w) =
     map_option (\<lambda>(r, st). (result_of GotCount r, st)) (disk_write rd wr buf d w)"
| "disk_do rd wr (OpSeek s) (d, w) =
     (case disk_seek s d of (r, d') \<Rightarrow> Some (result_of GotCount r, d', w))"

fun ram_do :: "disk_op \<Rightarrow> ram_disk \<Rightarrow> disk_result \<times> ram_disk" where
  "ram_do (OpRead n) m = (case ram_read n m of (r, m') \<Rightarrow> (result_of GotBytes r, m'))"
| "ram_do (OpWrite buf) m = (case ram_write buf m of (r, m') \<Rightarrow> (result_of GotCount r, m'))"
| "ram_do (OpSeek s) m = (case ram_seek s m of (r, m') \<Rightarrow> (result_of GotCount r, m'))"

fun disk_run :: "'w sd_read \<Rightarrow> 'w sd_write \<Rightarrow> disk_op list \<Rightarrow> partition_disk \<times> 'w \<Rightarrow>
    (disk_result list \<times> partition_disk \<times> 'w) option" where
  "disk_run rd wr [] st = Some ([], st)"
| "disk_run rd wr (x # xs) st =
     (case disk_do rd wr x st of
        None \<Rightarrow> None
      | Some (r, st') \<Rightarrow> map_option (\<lambda>(rs, st''). (r # rs, st'')) (disk_run rd wr xs st'))"

fun ram_run :: "disk_op list \<Rightarrow> ram_disk \<Rightarrow> disk_result list \<times> ram_disk" where
  "ram_run [] m = ([], m)"
| "ram_run (x # xs) m =
     (let (r, m') = ram_do x m; (rs, m'') = ram_run xs m' in (r # rs, m''))"

text \<open>A run in which no read or write failed (a seek may).\<close>

fun io_fine :: "disk_op \<Rightarrow> disk_result \<Rightarrow> bool" where
  "io_fine (OpSeek s) r \<longleftrightarrow> True"
| "io_fine x (GotErr e) \<longleftrightarrow> False"
| "io_fine x r \<longleftrightarrow> True"

text \<open>The RAM disk that holds what a partition holds.\<close>

definition ram_view :: "(nat \<Rightarrow> u8) \<Rightarrow> partition_disk \<Rightarrow> ram_disk" where
  "ram_view f d =
     \<lparr>rm_storage = bytes_at f (disk_base d) (pd_bytes d), rm_pos = pd_pos d, rm_writable = pd_writable d\<rparr>"

text \<open>A write that succeeds fitted, since a partition is a whole number of sectors.\<close>

lemma sector_fits:
  assumes "512 dvd (b :: nat)" "a < b" "a mod 512 \<noteq> 0"
  shows "a + (512 - a mod 512) \<le> b"
proof -
  obtain k where k: "b = 512 * k" using assms(1) by (rule dvdE)
  then have "a div 512 < k" using assms(2) by (simp add: less_mult_imp_div_less mult.commute)
  then have "(a div 512 + 1) * 512 \<le> b" using k by (simp add: mult.commute)
  moreover define q m where "q = a div 512" and "m = a mod 512"
  then have "a = q * 512 + m" "m < 512" by simp_all
  then have "a + (512 - a mod 512) = (a div 512 + 1) * 512"
    unfolding q_def [symmetric] m_def [symmetric] by simp
  ultimately show ?thesis by simp
qed

lemma disk_write_loop_fits:
  assumes "disk_write_loop rd wr d buf written w = Some y"
  shows "512 dvd pd_bytes d \<longrightarrow> pd_pos d + written \<le> pd_bytes d \<longrightarrow> written \<le> length buf \<longrightarrow>
    fst y = Inr n \<longrightarrow> pd_pos d + length buf \<le> pd_bytes d"
proof (rule disk_write_loop.raw_induct [OF _ assms], goal_cases)
  case (1 loop rd wr d buf written w y)
  let ?a = "pd_pos d + written"
  note fits = sector_fits [of "pd_bytes d" ?a]
  have batch: "written + b \<le> length buf \<and> ?a + b \<le> pd_bytes d"
    if "batch_bytes (min (length buf - written) (pd_bytes d - ?a)) = Some b"
      "\<not> length buf \<le> written" "\<not> pd_bytes d \<le> ?a" for b
    using batch_bytes_Some(2) [OF that(1)] that(2,3) by simp linarith
  have go: "pd_pos d + length buf \<le> pd_bytes d"
    if "loop rd wr d buf k v = Some y" "pd_pos d + k \<le> pd_bytes d" "k \<le> length buf"
      "512 dvd pd_bytes d" "fst y = Inr n" for k v
    using 1(1) [OF that(1)] that by blast
  show ?case
    using 1(2) fits
    by (auto simp: Let_def split: if_splits option.splits sum.splits prod.splits dest!: batch intro!: go)
qed

lemma disk_write_fits:
  assumes "disk_write rd wr buf d w = Some (Inr n, d', w')" "512 dvd pd_bytes d" "pd_pos d \<le> pd_bytes d"
  shows "pd_pos d + length buf \<le> pd_bytes d \<and> pd_writable d"
  using assms disk_write_loop_fits [of rd wr d buf 0 w "(Inr n, w')" n]
  by (auto simp: disk_write_def split: if_splits option.splits sum.splits)

context sector_transport
begin

lemma sim_step:
  assumes "ok w" "512 dvd pd_bytes d" "pd_pos d \<le> pd_bytes d"
    and "disk_do rd wr x (d, w) = Some (r, d', w')" "io_fine x r"
  shows "ram_do x (ram_view (content w) d) = (r, ram_view (content w') d') \<and> ok w' \<and>
    pd_bytes d' = pd_bytes d \<and> pd_pos d' \<le> pd_bytes d'"
proof (cases x)
  case (OpRead n)
  obtain r1 where r1: "disk_read rd n d w = Some (r1, d', w')" "r = result_of GotBytes r1"
    using assms(4) by (auto simp: OpRead)
  then obtain bs where "r1 = Inr bs" using assms(5) by (cases r1) (auto simp: OpRead result_of_def)
  with r1 disk_read_result [OF assms(1), of n d] assms(3) show ?thesis
    by (auto simp: OpRead ram_read_def ram_view_def disk_base_def slice_bytes_at result_of_def Let_def)
next
  case (OpWrite buf)
  obtain r1 where r1: "disk_write rd wr buf d w = Some (r1, d', w')" "r = result_of GotCount r1"
    using assms(4) by (auto simp: OpWrite)
  then obtain k where k: "r1 = Inr k" using assms(5) by (cases r1) (auto simp: OpWrite result_of_def)
  note fits = disk_write_fits [OF r1(1) [unfolded k] assms(2,3)]
  from r1 k disk_write_result [OF assms(1), of buf d] have
    res: "k = length buf" "d' = d\<lparr>pd_pos := pd_pos d + k\<rparr>" "ok w'"
      "content w' = overlay (content w) (disk_base d + pd_pos d) buf" by auto
  with fits r1(2) k show ?thesis
    by (auto simp: OpWrite ram_write_def ram_view_def disk_base_def bytes_at_overlay_splice result_of_def)
next
  case (OpSeek s)
  with assms(1,3,4) show ?thesis
    by (auto simp: disk_seek_def ram_seek_def ram_view_def disk_base_def Let_def result_of_def
        split: if_splits)
qed

lemma disk_do_total:
  assumes "ok w"
  shows "\<exists>r d' w'. disk_do rd wr x (d, w) = Some (r, d', w') \<and> ok w'"
proof (cases x)
  case (OpRead n)
  with disk_read_result [OF assms, of n d] show ?thesis by auto
next
  case (OpWrite buf)
  with disk_write_result [OF assms, of buf d] show ?thesis by auto
next
  case (OpSeek s)
  with assms show ?thesis by (auto split: prod.split)
qed

lemma sim_run:
  assumes "ok w" "512 dvd pd_bytes d" "pd_pos d \<le> pd_bytes d"
  shows "\<exists>rs d' w'. disk_run rd wr xs (d, w) = Some (rs, d', w') \<and>
    (list_all2 io_fine xs rs \<longrightarrow> ram_run xs (ram_view (content w) d) = (rs, ram_view (content w') d'))"
  using assms
proof (induction xs arbitrary: d w)
  case Nil
  then show ?case by simp
next
  case (Cons x xs)
  obtain r d1 w1 where one: "disk_do rd wr x (d, w) = Some (r, d1, w1)" "ok w1"
    using disk_do_total [OF Cons.prems(1)] by blast
  show ?case
  proof (cases "io_fine x r")
    case True
    note step = sim_step [OF Cons.prems one(1) True]
    with Cons.IH [of w1 d1] Cons.prems(2) one show ?thesis by auto
  next
    case False
    have "\<exists>rs st. disk_run rd wr xs (d1, w1) = Some (rs, st)" if "ok w1" for d1 w1
      using that
    proof (induction xs arbitrary: d1 w1)
      case Nil
      then show ?case by simp
    next
      case (Cons y ys)
      with disk_do_total [OF Cons.prems, of y d1] show ?case by fastforce
    qed
    with one False show ?thesis by fastforce
  qed
qed

end

text \<open>The sector disk gives byte access to its partition. Over any sector transport, a read
  returns exactly the partition's bytes from the position up to its end, and a write that
  succeeds changes exactly the bytes it was given: the rest of a sector it had to rewrite, and
  every byte of a neighbouring partition, is kept. A write that fails may have changed bytes only
  in the sectors it was for. Both always return.\<close>

theorem sector_disk_exact:
  assumes "sector_transport ok content rd wr" and "ok w"
  shows "(\<exists>r d' w'. disk_read rd n d w = Some (r, d', w') \<and> content w' = content w \<and>
      (\<forall>bs. r = Inr bs \<longrightarrow>
        bs = bytes_at (content w) (disk_base d + pd_pos d) (min n (pd_bytes d - pd_pos d)) \<and>
        d' = d\<lparr>pd_pos := pd_pos d + length bs\<rparr>)) \<and>
    (\<exists>r d' w'. disk_write rd wr buf d w = Some (r, d', w') \<and>
      (\<forall>k. r = Inr k \<longrightarrow> k = length buf \<and> d' = d\<lparr>pd_pos := pd_pos d + k\<rparr> \<and>
        content w' = overlay (content w) (disk_base d + pd_pos d) buf) \<and>
      (\<forall>a. a \<notin> touched (disk_base d + pd_pos d) (length buf) \<longrightarrow> content w' a = content w a))"
  using sector_transport.disk_read_result [OF assms, of n d]
    sector_transport.disk_write_result [OF assms, of buf d]
  by blast

theorem sector_disk_exact_witness:
  "(\<exists>r d' w'. disk_read (read_sd_sectors image_fetch) 600 (partition_disk_new_writable 1 1024)
        (cache_default, replicate 2048 3) = Some (r, d', w') \<and>
      image_content (snd w') = image_content (replicate 2048 3) \<and>
      (\<forall>bs. r = Inr bs \<longrightarrow> bs = bytes_at (image_content (replicate 2048 3)) 512 600 \<and>
        pd_pos d' = length bs)) \<and>
    (\<exists>r d' w'. disk_write (read_sd_sectors image_fetch) (write_sd_sectors image_store) [1, 2]
        (partition_disk_new_writable 1 1024) (cache_default, replicate 2048 3) = Some (r, d', w') \<and>
      (\<forall>k. r = Inr k \<longrightarrow> k = 2 \<and>
        image_content (snd w') = overlay (image_content (replicate 2048 3)) 512 [1, 2]))"
  using sector_disk_exact [OF img.sector_transport_axioms, where w = "(cache_default, replicate 2048 3)"
      and n = 600 and d = "partition_disk_new_writable 1 1024" and buf = "[1, 2]"]
  by (auto simp: cache_inv_default img.coherent_default disk_base_def partition_disk_new_writable_def
      SECTOR_BYTES_def)

text \<open>C18: The RAM image that stands in for a partition in the repository's tests behaves like the
  real disk. Any sequence of reads, writes and seeks on the sector disk, over any transport, in
  which no read or write fails, gives the same results on a RAM disk holding the partition's
  bytes, and leaves it holding the partition's new bytes; a seek out of range is refused by both.\<close>

theorem sector_disk_refines_ram:
  assumes "sector_transport ok content rd wr" and "ok w"
    and "512 dvd pd_bytes d" and "pd_pos d \<le> pd_bytes d"
  shows "\<exists>rs d' w'. disk_run rd wr xs (d, w) = Some (rs, d', w') \<and>
    (list_all2 io_fine xs rs \<longrightarrow> ram_run xs (ram_view (content w) d) = (rs, ram_view (content w') d'))"
  by (rule sector_transport.sim_run [OF assms])

theorem sector_disk_refines_ram_witness:
  "\<exists>rs d' w'. disk_run (read_sd_sectors image_fetch) (write_sd_sectors image_store)
      [OpSeek (SeekStart 5), OpWrite [1, 2], OpSeek (SeekEnd (- 1020)), OpRead 8]
      (partition_disk_new_writable 1 1024, cache_default, replicate 2048 3) = Some (rs, d', w') \<and>
    (list_all2 io_fine [OpSeek (SeekStart 5), OpWrite [1, 2], OpSeek (SeekEnd (- 1020)), OpRead 8] rs \<longrightarrow>
      ram_run [OpSeek (SeekStart 5), OpWrite [1, 2], OpSeek (SeekEnd (- 1020)), OpRead 8]
        (ram_view (image_content (replicate 2048 3)) (partition_disk_new_writable 1 1024)) =
      (rs, ram_view (image_content (snd w')) d'))"
proof -
  have "case (cache_default, replicate 2048 3) of (c, w) \<Rightarrow> cache_inv c \<and> img.coherent w c"
    by (simp add: cache_inv_default img.coherent_default)
  from sector_disk_refines_ram [OF img.sector_transport_axioms this,
      of "partition_disk_new_writable 1 1024"
        "[OpSeek (SeekStart 5), OpWrite [1, 2], OpSeek (SeekEnd (- 1020)), OpRead 8]"]
  show ?thesis by (fastforce simp: partition_disk_new_writable_def)
qed

end
