(* ===== verification/M64p.thy ===== *)
theory M64p
  imports L3_Frame
begin

text \<open>
  The M64P codec of \<open>crates/ap64-cart/src/m64p.rs\<close>: memory requests as bytes and the cart's bytes as
  responses. A walk the code does with an offset into the payload is a recursion on what is left
  of it. \<open>response_bytes\<close> and \<open>request_of\<close> are the wire format as the protocol has it, for the
  directions the code does not have: writing a response and reading a request.
\<close>

subsection \<open>Constants and messages\<close>

definition M64P_MAGIC :: octets where "M64P_MAGIC = [0x4D, 0x36, 0x34, 0x50]"

definition MSG_HELLO :: u8 where "MSG_HELLO = 0x01"
definition MSG_PEEKV :: u8 where "MSG_PEEKV = 0x02"
definition MSG_POKEV :: u8 where "MSG_POKEV = 0x03"
definition MSG_PEEKROM :: u8 where "MSG_PEEKROM = 0x04"
definition MSG_WATCH :: u8 where "MSG_WATCH = 0x05"
definition MSG_HELLO_ACK :: u8 where "MSG_HELLO_ACK = 0x81"
definition MSG_PEEKV_RESP :: u8 where "MSG_PEEKV_RESP = 0x82"
definition MSG_POKE_ACK :: u8 where "MSG_POKE_ACK = 0x83"
definition MSG_PEEKROM_RESP :: u8 where "MSG_PEEKROM_RESP = 0x84"
definition MSG_WATCH_ACK :: u8 where "MSG_WATCH_ACK = 0x85"
definition MSG_ERR :: u8 where "MSG_ERR = 0xE0"

definition MAX_REGIONS :: nat where "MAX_REGIONS = 32"
definition MAX_REGION_BYTES :: nat where "MAX_REGION_BYTES = 4096"
definition MAX_TOTAL_BYTES :: nat where "MAX_TOTAL_BYTES = 7936"
definition FLAG_WRITABLE :: u8 where "FLAG_WRITABLE = 0x01"
definition FLAG_CART_ROM :: u8 where "FLAG_CART_ROM = 0x02"
definition FLAG_WATCH :: u8 where "FLAG_WATCH = 0x04"
definition FLAG_POKE_ONCE :: u8 where "FLAG_POKE_ONCE = 0x08"
definition E_BUSY :: u8 where "E_BUSY = 0x07"
definition WATCH_MAX_LEN :: nat where "WATCH_MAX_LEN = 8"
definition WATCH_MAX_VALUES :: nat where "WATCH_MAX_VALUES = 8"

lemmas m64p_msgs = MSG_HELLO_def MSG_PEEKV_def MSG_POKEV_def MSG_PEEKROM_def MSG_WATCH_def
  MSG_HELLO_ACK_def MSG_PEEKV_RESP_def MSG_POKE_ACK_def MSG_PEEKROM_RESP_def MSG_WATCH_ACK_def
  MSG_ERR_def

record region =
  rg_addr :: u32
  rg_len :: u16

record slot =
  sl_addr :: u32
  sl_len :: u8
  sl_at :: u8
  sl_values :: octets

record event =
  ev_slot :: u8
  ev_bytes :: octets

datatype response =
    HelloAck u8 u16 u32 u8 "u32 option" "u8 option"
  | PeekV u16 "octets list" "event list" u16
  | PeekRom u16 "octets list"
  | PokeAck u16 u8
  | WatchAck u16 u8
  | ErrResp u16 u8

fun rid_of :: "response \<Rightarrow> u16 option" where
  "rid_of (HelloAck _ _ _ _ _ _) = None"
| "rid_of (PeekV rid _ _ _) = Some rid"
| "rid_of (PeekRom rid _) = Some rid"
| "rid_of (PokeAck rid _) = Some rid"
| "rid_of (WatchAck rid _) = Some rid"
| "rid_of (ErrResp rid _) = Some rid"

datatype m64p_error =
    NotM64p | Truncated | UnknownMsg u8 | EchoedRequest u8 | TooManyRegions nat
  | RegionTooLarge nat | TotalTooLarge nat | Refused u16 u8

subsection \<open>Requests\<close>

definition m64p_header :: "u8 \<Rightarrow> octets" where
  "m64p_header msg = M64P_MAGIC @ [msg]"

fun limits_loop :: "nat list \<Rightarrow> nat \<Rightarrow> m64p_error + nat" where
  "limits_loop [] tot = Inr tot"
| "limits_loop (len # lens) tot =
     (if MAX_REGION_BYTES < len then Inl (RegionTooLarge len) else limits_loop lens (tot + len))"

definition check_limits :: "nat list \<Rightarrow> m64p_error + unit" where
  "check_limits lens =
     (if MAX_REGIONS < length lens then Inl (TooManyRegions (length lens))
      else bind_result (limits_loop lens 0)
        (\<lambda>tot. if MAX_TOTAL_BYTES < tot then Inl (TotalTooLarge tot) else Inr ()))"

definition encode_hello :: octets where
  "encode_hello = m64p_header MSG_HELLO"

definition encode_peek :: "u8 \<Rightarrow> u16 \<Rightarrow> region list \<Rightarrow> m64p_error + octets" where
  "encode_peek msg rid regions =
     bind_result (check_limits (map (unat \<circ> rg_len) regions))
       (\<lambda>_. Inr (m64p_header msg @ be16 rid @ [of_nat (length regions)] @
          concat (map (\<lambda>r. be32 (rg_addr r) @ be16 (rg_len r)) regions)))"

definition encode_peekv :: "u16 \<Rightarrow> region list \<Rightarrow> m64p_error + octets" where
  "encode_peekv rid regions = encode_peek MSG_PEEKV rid regions"

definition encode_peekrom :: "u16 \<Rightarrow> region list \<Rightarrow> m64p_error + octets" where
  "encode_peekrom rid regions = encode_peek MSG_PEEKROM rid regions"

definition encode_pokev :: "u16 \<Rightarrow> (u32 \<times> octets) list \<Rightarrow> m64p_error + octets" where
  "encode_pokev rid writes =
     bind_result (check_limits (map (length \<circ> snd) writes))
       (\<lambda>_. Inr (m64p_header MSG_POKEV @ be16 rid @ [of_nat (length writes)] @
          concat (map (\<lambda>(addr, data). be32 addr @ be16 (of_nat (length data)) @ data) writes)))"

definition check_slot :: "slot \<Rightarrow> m64p_error + unit" where
  "check_slot s =
     (if WATCH_MAX_LEN < unat (sl_len s) \<or> sl_len s = 0 then Inl (RegionTooLarge (unat (sl_len s)))
      else if WATCH_MAX_VALUES < length (sl_values s) then Inl (RegionTooLarge (length (sl_values s)))
      else if sl_values s \<noteq> [] \<and> sl_len s \<le> sl_at s then Inl (RegionTooLarge (unat (sl_at s)))
      else Inr ())"

fun check_slots :: "slot list \<Rightarrow> m64p_error + unit" where
  "check_slots [] = Inr ()"
| "check_slots (s # ss) = bind_result (check_slot s) (\<lambda>_. check_slots ss)"

definition slot_bytes :: "slot \<Rightarrow> octets" where
  "slot_bytes s =
     be32 (sl_addr s) @ [sl_len s, sl_at s, of_nat (length (sl_values s))] @ sl_values s"

definition encode_watch :: "u16 \<Rightarrow> slot list \<Rightarrow> m64p_error + octets" where
  "encode_watch rid slots =
     (if 255 < length slots then Inl (TooManyRegions (length slots))
      else bind_result (check_slots slots)
        (\<lambda>_. Inr (M64P_MAGIC @ [MSG_WATCH] @ be16 rid @ [of_nat (length slots)] @
           concat (map slot_bytes slots))))"

subsection \<open>Parsing a response\<close>

fun take_regions :: "nat \<Rightarrow> octets \<Rightarrow> m64p_error + octets list \<times> octets" where
  "take_regions 0 b = Inr ([], b)"
| "take_regions (Suc n) b =
     (if length b < 2 then Inl Truncated
      else let len = unat (of_be16 (b ! 0) (b ! 1)); r = drop 2 b in
        if length r < len then Inl Truncated
        else bind_result (take_regions n (drop len r)) (\<lambda>(rs, b'). Inr (take len r # rs, b')))"

fun take_events :: "nat \<Rightarrow> octets \<Rightarrow> m64p_error + event list \<times> octets" where
  "take_events 0 b = Inr ([], b)"
| "take_events (Suc n) b =
     (if length b < 2 then Inl Truncated
      else let len = unat (b ! 1); r = drop 2 b in
        if length r < len then Inl Truncated
        else bind_result (take_events n (drop len r))
          (\<lambda>(es, b'). Inr (\<lparr>ev_slot = b ! 0, ev_bytes = take len r\<rparr> # es, b')))"

definition parse_hello_ack :: "octets \<Rightarrow> m64p_error + response" where
  "parse_hello_ack b =
     (if length b < 8 then Inl Truncated
      else let flags = b ! 7 in
        bind_result
          (if flags AND FLAG_CART_ROM \<noteq> 0 then
             (if length b < 12 then Inl Truncated else Inr (Some (be32_at b 8)))
           else Inr None)
          (\<lambda>rom_bytes.
             let off = (if rom_bytes \<noteq> None then 12 else 8) in
             bind_result
               (if flags AND FLAG_WATCH \<noteq> 0
                then bind_result (ok_or Truncated (get_at b off)) (\<lambda>w. Inr (Some w)) else Inr None)
               (\<lambda>watch_slots.
                  Inr (HelloAck (b ! 0) (be16_at b 1) (be32_at b 3) flags rom_bytes watch_slots))))"

definition parse_trailer :: "octets \<Rightarrow> m64p_error + event list \<times> u16" where
  "parse_trailer b =
     (if 3 \<le> length b then
        bind_result (take_events (unat (b ! 0)) (drop 3 b)) (\<lambda>(es, _). Inr (es, of_be16 (b ! 1) (b ! 2)))
      else Inr ([], 0))"

definition parse_peek :: "u8 \<Rightarrow> octets \<Rightarrow> m64p_error + response" where
  "parse_peek msg b =
     (if length b < 3 then Inl Truncated
      else bind_result (take_regions (unat (b ! 2)) (drop 3 b))
        (\<lambda>(regions, b').
           if msg = MSG_PEEKROM_RESP then Inr (PeekRom (be16_at b 0) regions)
           else bind_result (parse_trailer b')
             (\<lambda>(events, dropped). Inr (PeekV (be16_at b 0) regions events dropped))))"

definition parse_short :: "(u16 \<Rightarrow> u8 \<Rightarrow> response) \<Rightarrow> octets \<Rightarrow> m64p_error + response" where
  "parse_short f b = (if length b < 3 then Inl Truncated else Inr (f (be16_at b 0) (b ! 2)))"

definition parse :: "octets \<Rightarrow> m64p_error + response" where
  "parse app =
     (if length app < 5 \<or> slice 0 4 app \<noteq> M64P_MAGIC then Inl NotM64p
      else let msg = app ! 4; b = drop 5 app in
        if msg = MSG_HELLO_ACK then parse_hello_ack b
        else if msg = MSG_PEEKV_RESP \<or> msg = MSG_PEEKROM_RESP then parse_peek msg b
        else if msg = MSG_POKE_ACK then parse_short PokeAck b
        else if msg = MSG_WATCH_ACK then parse_short WatchAck b
        else if msg = MSG_ERR then parse_short ErrResp b
        else if msg \<in> {MSG_HELLO, MSG_PEEKV, MSG_POKEV, MSG_PEEKROM, MSG_WATCH} then Inl (EchoedRequest msg)
        else Inl (UnknownMsg msg))"

subsection \<open>The wire format of responses and requests\<close>

definition region_bytes :: "octets \<Rightarrow> octets" where
  "region_bytes d = be16 (of_nat (length d)) @ d"

definition event_wire :: "event \<Rightarrow> octets" where
  "event_wire e = [ev_slot e, of_nat (length (ev_bytes e))] @ ev_bytes e"

text \<open>A cart that was told to watch sends the trailer, and one that was not leaves it out.\<close>

fun response_body :: "bool \<Rightarrow> response \<Rightarrow> u8 \<times> octets" where
  "response_body tr (HelloAck proto ver rdram flags rom watch) =
     (MSG_HELLO_ACK, [proto] @ be16 ver @ be32 rdram @ [flags] @
        (case rom of None \<Rightarrow> [] | Some r \<Rightarrow> be32 r) @ (case watch of None \<Rightarrow> [] | Some w \<Rightarrow> [w]))"
| "response_body tr (PeekV rid regions events dropped) =
     (MSG_PEEKV_RESP, be16 rid @ [of_nat (length regions)] @ concat (map region_bytes regions) @
        (if tr then [of_nat (length events)] @ be16 dropped @ concat (map event_wire events) else []))"
| "response_body tr (PeekRom rid regions) =
     (MSG_PEEKROM_RESP, be16 rid @ [of_nat (length regions)] @ concat (map region_bytes regions))"
| "response_body tr (PokeAck rid applied) = (MSG_POKE_ACK, be16 rid @ [applied])"
| "response_body tr (WatchAck rid watching) = (MSG_WATCH_ACK, be16 rid @ [watching])"
| "response_body tr (ErrResp rid code) = (MSG_ERR, be16 rid @ [code])"

definition response_bytes :: "bool \<Rightarrow> response \<Rightarrow> octets" where
  "response_bytes tr r = (case response_body tr r of (msg, b) \<Rightarrow> m64p_header msg @ b)"

fun response_wf :: "bool \<Rightarrow> response \<Rightarrow> bool" where
  "response_wf tr (HelloAck proto ver rdram flags rom watch) \<longleftrightarrow>
     (rom \<noteq> None \<longleftrightarrow> flags AND FLAG_CART_ROM \<noteq> 0) \<and> (watch \<noteq> None \<longleftrightarrow> flags AND FLAG_WATCH \<noteq> 0)"
| "response_wf tr (PeekV rid regions events dropped) \<longleftrightarrow>
     length regions < 2 ^ 8 \<and> (\<forall>d \<in> set regions. length d < 2 ^ 16) \<and>
     length events < 2 ^ 8 \<and> (\<forall>e \<in> set events. length (ev_bytes e) < 2 ^ 8) \<and>
     (tr \<or> events = [] \<and> dropped = 0)"
| "response_wf tr (PeekRom rid regions) \<longleftrightarrow>
     length regions < 2 ^ 8 \<and> (\<forall>d \<in> set regions. length d < 2 ^ 16)"
| "response_wf tr r \<longleftrightarrow> True"

lemma unat_of_nat_8 [simp]: "n < 2 ^ 8 \<Longrightarrow> unat (of_nat n :: u8) = n"
  and unat_of_nat_16 [simp]: "n < 2 ^ 16 \<Longrightarrow> unat (of_nat n :: u16) = n"
  by (simp_all add: unat_of_nat take_bit_nat_eq_self)

lemma of_be16_split: "be16 w = [a, b] \<Longrightarrow> of_be16 a b = w"
  by (auto simp: be16_def)

lemma take_regions_bytes:
  "\<forall>d \<in> set regions. length d < 2 ^ 16 \<Longrightarrow>
   take_regions (length regions) (concat (map region_bytes regions) @ xs) = Inr (regions, xs)"
proof (induction regions)
  case Nil
  then show ?case by simp
next
  case (Cons d ds)
  obtain a b where ab: "be16 (of_nat (length d)) = [a, b]" by (simp add: be16_def)
  then have "unat (of_be16 a b) = length d" using Cons.prems by (simp add: of_be16_split)
  with ab Cons show ?case by (simp add: region_bytes_def Let_def)
qed

lemma take_events_bytes:
  "\<forall>e \<in> set events. length (ev_bytes e) < 2 ^ 8 \<Longrightarrow>
   take_events (length events) (concat (map event_wire events) @ xs) = Inr (events, xs)"
  by (induction events) (simp_all add: event_wire_def Let_def)

text \<open>C29: Every response a cart can send, with or without the watch trailer and with every optional
  field of \<open>HELLO_ACK\<close> the flags call for, is parsed back to exactly that response.\<close>

theorem parse_response_bytes:
  assumes "response_wf tr r"
  shows "parse (response_bytes tr r) = Inr r"
proof -
  have hd: "parse (m64p_header msg @ b) =
      (if msg = MSG_HELLO_ACK then parse_hello_ack b
        else if msg = MSG_PEEKV_RESP \<or> msg = MSG_PEEKROM_RESP then parse_peek msg b
        else if msg = MSG_POKE_ACK then parse_short PokeAck b
        else if msg = MSG_WATCH_ACK then parse_short WatchAck b
        else if msg = MSG_ERR then parse_short ErrResp b
        else if msg \<in> {MSG_HELLO, MSG_PEEKV, MSG_POKEV, MSG_PEEKROM, MSG_WATCH} then Inl (EchoedRequest msg)
        else Inl (UnknownMsg msg))" for msg b
    by (simp add: parse_def m64p_header_def M64P_MAGIC_def slice_def)
  show ?thesis
  proof (cases r)
    case (HelloAck proto ver rdram flags rom watch)
    with assms show ?thesis
      by (cases rom; cases watch)
        (auto simp: response_bytes_def hd parse_hello_ack_def be16_def be32_def be16_at_def be32_at_def
          Let_def get_at_def)
  next
    case (PeekV rid regions events dropped)
    with assms take_regions_bytes [of regions] take_events_bytes [of events "[]"] show ?thesis
      by (auto simp: response_bytes_def hd parse_peek_def be16_def be16_at_def parse_trailer_def
          m64p_msgs)
  next
    case (PeekRom rid regions)
    with assms take_regions_bytes [of regions "[]"] show ?thesis
      by (auto simp: response_bytes_def hd parse_peek_def be16_def be16_at_def m64p_msgs)
  qed (auto simp: response_bytes_def hd parse_short_def be16_def be16_at_def m64p_msgs)
qed

theorem parse_response_bytes_witness:
  "parse (response_bytes True (PeekV 7 [[1, 2], []] [\<lparr>ev_slot = 3, ev_bytes = [9]\<rparr>] 4)) =
   Inr (PeekV 7 [[1, 2], []] [\<lparr>ev_slot = 3, ev_bytes = [9]\<rparr>] 4)"
  by (rule parse_response_bytes) simp

subsection \<open>Requests, read as the cart reads them\<close>

datatype request =
    ReqHello | ReqPeekV u16 "region list" | ReqPeekRom u16 "region list"
  | ReqPokeV u16 "(u32 \<times> octets) list" | ReqWatch u16 "slot list"

fun regions_of :: "nat \<Rightarrow> octets \<Rightarrow> region list option" where
  "regions_of 0 b = (if b = [] then Some [] else None)"
| "regions_of (Suc n) (a0 # a1 # a2 # a3 # l0 # l1 # b) =
     map_option (\<lambda>rs. \<lparr>rg_addr = of_be32 a0 a1 a2 a3, rg_len = of_be16 l0 l1\<rparr> # rs) (regions_of n b)"
| "regions_of (Suc n) b = None"

fun writes_of :: "nat \<Rightarrow> octets \<Rightarrow> (u32 \<times> octets) list option" where
  "writes_of 0 b = (if b = [] then Some [] else None)"
| "writes_of (Suc n) (a0 # a1 # a2 # a3 # l0 # l1 # b) =
     (let len = unat (of_be16 l0 l1) in
      if length b < len then None
      else map_option (\<lambda>ws. (of_be32 a0 a1 a2 a3, take len b) # ws) (writes_of n (drop len b)))"
| "writes_of (Suc n) b = None"

fun slots_of :: "nat \<Rightarrow> octets \<Rightarrow> slot list option" where
  "slots_of 0 b = (if b = [] then Some [] else None)"
| "slots_of (Suc n) (a0 # a1 # a2 # a3 # len # at' # k # b) =
     (if length b < unat k then None
      else map_option
        (\<lambda>ss. \<lparr>sl_addr = of_be32 a0 a1 a2 a3, sl_len = len, sl_at = at', sl_values = take (unat k) b\<rparr> # ss)
        (slots_of n (drop (unat k) b)))"
| "slots_of (Suc n) b = None"

fun request_of :: "octets \<Rightarrow> request option" where
  "request_of (m0 # m1 # m2 # m3 # msg # b) =
     (if [m0, m1, m2, m3] \<noteq> M64P_MAGIC then None
      else if msg = MSG_HELLO then (if b = [] then Some ReqHello else None)
      else case b of
        r0 # r1 # n # b' \<Rightarrow>
          (let rid = of_be16 r0 r1 in
           if msg = MSG_PEEKV then map_option (ReqPeekV rid) (regions_of (unat n) b')
           else if msg = MSG_PEEKROM then map_option (ReqPeekRom rid) (regions_of (unat n) b')
           else if msg = MSG_POKEV then map_option (ReqPokeV rid) (writes_of (unat n) b')
           else if msg = MSG_WATCH then map_option (ReqWatch rid) (slots_of (unat n) b')
           else None)
      | _ \<Rightarrow> None)"
| "request_of b = None"

lemma be_cons:
  "be16 w @ xs = ucast (drop_bit 8 w) # ucast w # xs"
  "be32 v @ xs = ucast (drop_bit 24 v) # ucast (drop_bit 16 v) # ucast (drop_bit 8 v) # ucast v # xs"
  by (simp_all add: be16_def be32_def)

lemma regions_of_bytes:
  "regions_of (length rs) (concat (map (\<lambda>r. be32 (rg_addr r) @ be16 (rg_len r)) rs)) = Some rs"
  by (induction rs) (simp_all add: be_cons)

lemma writes_of_bytes:
  "\<forall>w \<in> set ws. length (snd w) < 2 ^ 16 \<Longrightarrow>
   writes_of (length ws)
     (concat (map (\<lambda>(addr, data). be32 addr @ be16 (of_nat (length data)) @ data) ws)) = Some ws"
  by (induction ws) (auto simp: be_cons Let_def)

lemma slots_of_bytes:
  "\<forall>s \<in> set ss. length (sl_values s) < 2 ^ 8 \<Longrightarrow>
   slots_of (length ss) (concat (map slot_bytes ss)) = Some ss"
  by (induction ss) (simp_all add: slot_bytes_def be_cons)

lemma limits_loop_Inr:
  "limits_loop lens tot = Inr t \<longleftrightarrow> (\<forall>l \<in> set lens. l \<le> MAX_REGION_BYTES) \<and> t = tot + sum_list lens"
  by (induction lens arbitrary: tot) auto

lemma check_limits_Inr:
  "check_limits lens = Inr u \<longleftrightarrow>
     length lens \<le> MAX_REGIONS \<and> (\<forall>l \<in> set lens. l \<le> MAX_REGION_BYTES) \<and> sum_list lens \<le> MAX_TOTAL_BYTES"
  by (auto simp: check_limits_def bind_result_Inr_iff limits_loop_Inr)

lemma check_slots_Inr:
  "check_slots ss = Inr u \<longleftrightarrow> (\<forall>s \<in> set ss. check_slot s = Inr ())"
  by (induction ss) (auto simp: bind_result_Inr_iff)

lemma request_of_body:
  assumes "n < 2 ^ 8"
  shows "request_of (m64p_header msg @ be16 rid @ [of_nat n] @ b) =
    (if msg = MSG_HELLO then None
     else if msg = MSG_PEEKV then map_option (ReqPeekV rid) (regions_of n b)
     else if msg = MSG_PEEKROM then map_option (ReqPeekRom rid) (regions_of n b)
     else if msg = MSG_POKEV then map_option (ReqPokeV rid) (writes_of n b)
     else if msg = MSG_WATCH then map_option (ReqWatch rid) (slots_of n b)
     else None)"
  using assms by (simp add: m64p_header_def M64P_MAGIC_def be_cons)

lemma length_concat_le:
  "(\<And>x. x \<in> set xs \<Longrightarrow> length (f x) \<le> k) \<Longrightarrow> length (concat (map f xs)) \<le> k * length xs"
proof (induction xs)
  case Nil
  then show ?case by simp
next
  case (Cons x xs)
  have "length (f x) + length (concat (map f xs)) \<le> k + k * length xs"
    using Cons by (intro add_mono) simp_all
  then show ?case by simp
qed

lemma pokev_length:
  "length (concat (map (\<lambda>(addr, data). be32 addr @ be16 (of_nat (length data)) @ data) ws)) =
     6 * length ws + sum_list (map (length \<circ> snd) ws)"
  by (induction ws) auto

text \<open>The largest M64P message the host sends.\<close>

definition request_fits :: "octets \<Rightarrow> bool" where
  "request_fits b \<longleftrightarrow> length b \<le> 8 + 6 * MAX_REGIONS + MAX_TOTAL_BYTES"

lemma encode_peek_decoded:
  assumes "encode_peek msg rid rs = Inr b"
  shows "b = m64p_header msg @ be16 rid @ [of_nat (length rs)] @
      concat (map (\<lambda>r. be32 (rg_addr r) @ be16 (rg_len r)) rs)"
    and "length rs < 2 ^ 8" and "request_fits b"
proof -
  from assms show b: "b = m64p_header msg @ be16 rid @ [of_nat (length rs)] @
      concat (map (\<lambda>r. be32 (rg_addr r) @ be16 (rg_len r)) rs)"
    and n: "length rs < 2 ^ 8"
    by (auto simp: encode_peek_def bind_result_Inr_iff check_limits_Inr MAX_REGIONS_def)
  have "length (concat (map (\<lambda>r. be32 (rg_addr r) @ be16 (rg_len r)) rs)) \<le> 6 * length rs"
    by (rule length_concat_le) simp
  with assms show "request_fits b"
    unfolding b request_fits_def
    by (auto simp: encode_peek_def bind_result_Inr_iff check_limits_Inr MAX_REGIONS_def MAX_TOTAL_BYTES_def
        m64p_header_def M64P_MAGIC_def)
qed

text \<open>Every request the codec encodes is read by the cart's side as exactly the request asked
  for, and fits in the default L3 payload with its largest limits reached; a region list over
  the limits is refused and never sent.\<close>

theorem requests_read_back:
  assumes "encode_peekv rid1 rs1 = Inr b1" and "encode_peekrom rid2 rs2 = Inr b2"
    and "encode_pokev rid3 ws = Inr b3" and "encode_watch rid4 ss = Inr b4"
  shows "request_of b1 = Some (ReqPeekV rid1 rs1) \<and> request_of b2 = Some (ReqPeekRom rid2 rs2) \<and>
    request_of b3 = Some (ReqPokeV rid3 ws) \<and> request_of b4 = Some (ReqWatch rid4 ss) \<and>
    request_of encode_hello = Some ReqHello \<and>
    (\<forall>b \<in> {b1, b2, b3, b4}. request_fits b \<and> length b \<le> unat DEFAULT_MAX_PAYLOAD)"
proof -
  have fits: "length b \<le> unat DEFAULT_MAX_PAYLOAD" if "request_fits b" for b
    using that by (simp add: request_fits_def MAX_REGIONS_def MAX_TOTAL_BYTES_def DEFAULT_MAX_PAYLOAD_def)
  note p1 = encode_peek_decoded [OF assms(1) [unfolded encode_peekv_def]]
  note p2 = encode_peek_decoded [OF assms(2) [unfolded encode_peekrom_def]]
  have r1: "request_of b1 = Some (ReqPeekV rid1 rs1)"
    unfolding p1(1) request_of_body [OF p1(2)] by (simp add: regions_of_bytes m64p_msgs)
  have r2: "request_of b2 = Some (ReqPeekRom rid2 rs2)"
    unfolding p2(1) request_of_body [OF p2(2)] by (simp add: regions_of_bytes m64p_msgs)
  from assms(3) have ws: "\<forall>w \<in> set ws. length (snd w) < 2 ^ 16" "length ws < 2 ^ 8"
      "length ws \<le> MAX_REGIONS" "sum_list (map (length \<circ> snd) ws) \<le> MAX_TOTAL_BYTES"
    and b3: "b3 = m64p_header MSG_POKEV @ be16 rid3 @ [of_nat (length ws)] @
      concat (map (\<lambda>(addr, data). be32 addr @ be16 (of_nat (length data)) @ data) ws)"
    by (fastforce simp: encode_pokev_def bind_result_Inr_iff check_limits_Inr MAX_REGIONS_def
        MAX_REGION_BYTES_def)+
  have r3: "request_of b3 = Some (ReqPokeV rid3 ws)"
    unfolding b3 request_of_body [OF ws(2)] by (simp add: writes_of_bytes [OF ws(1)] m64p_msgs)
  have f3: "request_fits b3"
    using ws(3,4) unfolding b3 request_fits_def
    by (simp add: pokev_length m64p_header_def M64P_MAGIC_def)
  from assms(4) have ss: "\<forall>s \<in> set ss. length (sl_values s) \<le> 8" "length ss < 2 ^ 8"
    and b4: "b4 = m64p_header MSG_WATCH @ be16 rid4 @ [of_nat (length ss)] @ concat (map slot_bytes ss)"
    by (auto simp: encode_watch_def bind_result_Inr_iff check_slots_Inr check_slot_def m64p_header_def
        WATCH_MAX_VALUES_def split: if_splits)
  have r4: "request_of b4 = Some (ReqWatch rid4 ss)"
    unfolding b4 request_of_body [OF ss(2)] using ss(1)
    by (subst slots_of_bytes) (auto simp: m64p_msgs)
  have "length (concat (map slot_bytes ss)) \<le> 15 * length ss"
    using ss(1) by (intro length_concat_le) (simp add: slot_bytes_def)
  then have f4: "request_fits b4"
    using ss(2) unfolding b4 request_fits_def
    by (simp add: m64p_header_def M64P_MAGIC_def MAX_REGIONS_def MAX_TOTAL_BYTES_def)
  have "request_of encode_hello = Some ReqHello"
    by (simp add: encode_hello_def m64p_header_def M64P_MAGIC_def m64p_msgs)
  with r1 r2 r3 r4 p1(3) p2(3) f3 f4 fits show ?thesis by auto
qed

theorem requests_read_back_witness:
  "\<exists>b1 b2 b3 b4. encode_peekv 1 [\<lparr>rg_addr = 0x80000000, rg_len = 4\<rparr>] = Inr b1 \<and>
     request_of b1 = Some (ReqPeekV 1 [\<lparr>rg_addr = 0x80000000, rg_len = 4\<rparr>]) \<and>
     request_of b3 = Some (ReqPokeV 3 [(0x80000010, [1, 2])]) \<and>
     request_of b4 = Some (ReqWatch 4 [\<lparr>sl_addr = 16, sl_len = 2, sl_at = 1, sl_values = [7]\<rparr>])"
proof -
  have "\<not> (2 :: u8) \<le> 1" by (simp add: word_le_nat_alt)
  then obtain b1 b2 b3 b4 where b:
    "encode_peekv 1 [\<lparr>rg_addr = 0x80000000, rg_len = 4\<rparr>] = Inr b1" "encode_peekrom 2 [] = Inr b2"
    "encode_pokev 3 [(0x80000010, [1, 2])] = Inr b3"
    "encode_watch 4 [\<lparr>sl_addr = 16, sl_len = 2, sl_at = 1, sl_values = [7]\<rparr>] = Inr b4"
    by (auto simp: encode_peekv_def encode_peekrom_def encode_peek_def encode_pokev_def encode_watch_def
        check_limits_def check_slot_def MAX_REGIONS_def MAX_REGION_BYTES_def MAX_TOTAL_BYTES_def
        WATCH_MAX_LEN_def WATCH_MAX_VALUES_def)
  from requests_read_back [OF b] b show ?thesis by blast
qed

subsection \<open>Truncated responses\<close>

lemma take_regions_extend:
  "take_regions n b = Inr (rs, b') \<Longrightarrow> take_regions n (b @ xs) = Inr (rs, b' @ xs)"
proof (induction n b arbitrary: rs b' rule: take_regions.induct)
  case (1 b)
  then show ?case by simp
next
  case (2 n b)
  let ?len = "unat (of_be16 (b ! 0) (b ! 1))"
  from "2.prems" have "2 \<le> length b" "?len \<le> length b - 2"
    by (auto simp: Let_def split: if_splits)
  with "2.prems" "2.IH" [OF _ refl refl] show ?case
    by (auto simp: Let_def bind_result_Inr_iff nth_append)
qed

text \<open>The part of a response that a watch trailer does not touch.\<close>

fun answer :: "response \<Rightarrow> response" where
  "answer (PeekV rid regions events dropped) = PeekV rid regions [] 0"
| "answer r = r"

text \<open>A response cut short is never mistaken for a different answer. If the first bytes of a
  payload parse at all, and the whole payload parses too, both give the same answer: the same
  request id and the same bytes for every region; only the watch events may be missing.\<close>

theorem parse_prefix_safe:
  assumes "parse app = Inr r" and "parse (app @ rest) = Inr r'"
  shows "answer r' = answer r"
proof -
  have len: "\<not> length app < 5" and magic: "slice 0 4 app = M64P_MAGIC"
    using assms(1) by (auto simp: parse_def split: if_splits)
  let ?b = "drop 5 app"
  have parse: "parse (app @ ys) =
      (let msg = app ! 4; b = ?b @ ys in
        if msg = MSG_HELLO_ACK then parse_hello_ack b
        else if msg = MSG_PEEKV_RESP \<or> msg = MSG_PEEKROM_RESP then parse_peek msg b
        else if msg = MSG_POKE_ACK then parse_short PokeAck b
        else if msg = MSG_WATCH_ACK then parse_short WatchAck b
        else if msg = MSG_ERR then parse_short ErrResp b
        else if msg \<in> {MSG_HELLO, MSG_PEEKV, MSG_POKEV, MSG_PEEKROM, MSG_WATCH} then Inl (EchoedRequest msg)
        else Inl (UnknownMsg msg))" for ys
    using len magic by (simp add: parse_def nth_append)
  have peek: "answer r' = answer r"
    if "parse_peek msg ?b = Inr r" "parse_peek msg (?b @ rest) = Inr r'" for msg
    using that take_regions_extend [of "unat (?b ! 2)" "drop 3 ?b" _ _ rest]
    by (auto simp: parse_peek_def bind_result_Inr_iff nth_append split: if_splits)
  have short: "r' = r" if "parse_short f ?b = Inr r" "parse_short f (?b @ rest) = Inr r'" for f
    using that by (auto simp: parse_short_def nth_append split: if_splits)
  have ack: "r' = r" if "parse_hello_ack ?b = Inr r" "parse_hello_ack (?b @ rest) = Inr r'"
    using that
    by (auto simp: parse_hello_ack_def Let_def bind_result_Inr_iff ok_or_Inr_iff get_at_def nth_append
        split: if_splits)
  have "parse (app @ []) = Inr r" using assms(1) by simp
  from trans [OF parse [symmetric] this] trans [OF parse [symmetric] assms(2)] show ?thesis
    by (auto simp: Let_def split: if_splits dest: peek short ack)
qed

theorem parse_prefix_safe_witness:
  "answer (PeekV 7 [[1, 2]] [\<lparr>ev_slot = 3, ev_bytes = [9]\<rparr>] 4) = answer (PeekV 7 [[1, 2]] [] 0)"
proof -
  have "response_bytes True (PeekV 7 [[1, 2]] [\<lparr>ev_slot = 3, ev_bytes = [9]\<rparr>] 4) =
      response_bytes False (PeekV 7 [[1, 2]] [] 0) @ [1, 0, 4, 3, 1, 9]"
    by (simp add: response_bytes_def be16_def event_wire_def)
  moreover have "parse (response_bytes False (PeekV 7 [[1, 2]] [] 0)) = Inr (PeekV 7 [[1, 2]] [] 0)"
    "parse (response_bytes True (PeekV 7 [[1, 2]] [\<lparr>ev_slot = 3, ev_bytes = [9]\<rparr>] 4)) =
      Inr (PeekV 7 [[1, 2]] [\<lparr>ev_slot = 3, ev_bytes = [9]\<rparr>] 4)"
    by (code_simp, code_simp)
  ultimately show ?thesis by (metis parse_prefix_safe)
qed

end
