(* ===== verification/Watch_Queue.thy ===== *)
theory Watch_Queue
  imports M64_Prelude "HOL-Library.Sublist"
begin

text \<open>
  The watched slot of \<open>crates/ap64-cart/src/watch.rs\<close>: what samples and agent reports queue, and
  what a connector's reads are handed. The counters keep their width and wrap; \<open>dropped\<close>
  saturates where the code says so.
\<close>

subsection \<open>The watch\<close>

definition QUEUE_CAP :: nat where "QUEUE_CAP = 16"

record filter_rule =
  fl_at :: nat
  fl_values :: octets

definition admits :: "filter_rule \<Rightarrow> octets \<Rightarrow> bool" where
  "admits f value =
     (case get_at value (fl_at f) of None \<Rightarrow> False | Some b \<Rightarrow> b \<in> set (fl_values f))"

record watch_stats =
  st_samples :: u64
  st_events :: u32
  st_queued :: u32
  st_replayed :: u32
  st_dropped :: u32
  st_waiting :: nat

record watch =
  wt_addr :: u32
  wt_len :: nat
  wt_filter :: "filter_rule option"
  wt_last :: "octets option"
  wt_queue :: "octets list"
  wt_stats :: watch_stats

definition stats_default :: watch_stats where
  "stats_default =
     \<lparr>st_samples = 0, st_events = 0, st_queued = 0, st_replayed = 0, st_dropped = 0, st_waiting = 0\<rparr>"

definition watch_new :: "u32 \<Rightarrow> nat \<Rightarrow> filter_rule option \<Rightarrow> watch" where
  "watch_new addr len f =
     \<lparr>wt_addr = addr, wt_len = len, wt_filter = f, wt_last = None, wt_queue = [],
      wt_stats = stats_default\<rparr>"

text \<open>The end of \<open>push_event\<close> and \<open>observe\<close>: into a full queue by dropping its oldest.\<close>

definition enqueue :: "octets \<Rightarrow> watch \<Rightarrow> watch" where
  "enqueue bytes w =
     (let full = length (wt_queue w) = QUEUE_CAP; st = wt_stats w in
      w\<lparr>wt_queue := (if full then tl (wt_queue w) else wt_queue w) @ [bytes],
        wt_stats := st\<lparr>st_dropped := st_dropped st + (if full then 1 else 0),
                       st_queued := st_queued st + 1\<rparr>\<rparr>)"

definition count_event :: "watch \<Rightarrow> watch" where
  "count_event w = w\<lparr>wt_stats := (wt_stats w)\<lparr>st_events := st_events (wt_stats w) + 1\<rparr>\<rparr>"

definition push_event :: "octets \<Rightarrow> watch \<Rightarrow> watch" where
  "push_event bytes w =
     (if length bytes \<noteq> wt_len w then w else enqueue bytes (count_event w))"

definition saturating_add32 :: "u32 \<Rightarrow> u32 \<Rightarrow> u32" where
  "saturating_add32 a b = (if unat a + unat b < 2 ^ 32 then a + b else - 1)"

definition add_dropped :: "u32 \<Rightarrow> watch \<Rightarrow> watch" where
  "add_dropped n w =
     w\<lparr>wt_stats := (wt_stats w)\<lparr>st_dropped := saturating_add32 (st_dropped (wt_stats w)) n\<rparr>\<rparr>"

definition observe :: "octets \<Rightarrow> watch \<Rightarrow> watch" where
  "observe bytes w =
     (if length bytes \<noteq> wt_len w then w
      else
        let w1 = w\<lparr>wt_stats := (wt_stats w)\<lparr>st_samples := st_samples (wt_stats w) + 1\<rparr>,
                   wt_last := Some bytes\<rparr> in
        case wt_last w of
          None \<Rightarrow> w1
        | Some was \<Rightarrow>
            if was = bytes then w1
            else if list_all (\<lambda>b. b = 0) bytes then w1
            else
              let w2 = count_event w1 in
              case wt_filter w of
                None \<Rightarrow> enqueue bytes w2
              | Some f \<Rightarrow> if admits f bytes then enqueue bytes w2 else w2)"

definition take_change :: "watch \<Rightarrow> octets option \<times> watch" where
  "take_change w =
     (case wt_queue w of
        [] \<Rightarrow> (None, w)
      | v # q \<Rightarrow>
          (Some v, w\<lparr>wt_queue := q,
                     wt_stats := (wt_stats w)\<lparr>st_replayed := st_replayed (wt_stats w) + 1\<rparr>\<rparr>))"

definition stats_of :: "watch \<Rightarrow> watch_stats" where
  "stats_of w = (wt_stats w)\<lparr>st_waiting := length (wt_queue w)\<rparr>"

subsection \<open>What a watch is told, and what it hands over\<close>

datatype watch_op = Sampled octets | Reported octets | LostByAgent u32 | Asked

fun watch_step :: "watch_op \<Rightarrow> watch \<Rightarrow> octets list \<times> watch" where
  "watch_step (Sampled b) w = ([], observe b w)"
| "watch_step (Reported b) w = ([], push_event b w)"
| "watch_step (LostByAgent n) w = ([], add_dropped n w)"
| "watch_step Asked w = (case take_change w of (v, w') \<Rightarrow> ((case v of None \<Rightarrow> [] | Some v \<Rightarrow> [v]), w'))"

fun watch_run :: "watch_op list \<Rightarrow> watch \<Rightarrow> octets list \<times> watch" where
  "watch_run [] w = ([], w)"
| "watch_run (x # xs) w =
     (let (vs, w') = watch_step x w; (vs', w'') = watch_run xs w' in (vs @ vs', w''))"

text \<open>The changes there were: an agent's reports, and samples that differ from the sample before,
  are not a clearing of the slot, and pass the filter.\<close>

fun changes :: "nat \<Rightarrow> filter_rule option \<Rightarrow> octets option \<Rightarrow> watch_op list \<Rightarrow> octets list" where
  "changes len f prev [] = []"
| "changes len f prev (Sampled b # xs) =
     (if length b \<noteq> len then changes len f prev xs
      else
        (if prev \<noteq> None \<and> prev \<noteq> Some b \<and> \<not> list_all (\<lambda>x. x = 0) b \<and>
            (case f of None \<Rightarrow> True | Some r \<Rightarrow> admits r b) then [b] else []) @
        changes len f (Some b) xs)"
| "changes len f prev (Reported b # xs) =
     (if length b \<noteq> len then [] else [b]) @ changes len f prev xs"
| "changes len f prev (_ # xs) = changes len f prev xs"

text \<open>A first-in first-out queue that forgets its oldest when full: what comes out and stays, and
  how many were forgotten.\<close>

fun bounded_fifo :: "nat \<Rightarrow> 'a list \<Rightarrow> 'a option list \<Rightarrow> 'a list \<times> 'a list \<times> nat" where
  "bounded_fifo cap q [] = ([], q, 0)"
| "bounded_fifo cap q (Some v # xs) =
     (let full = length q = cap;
          (out, q', d) = bounded_fifo cap ((if full then tl q else q) @ [v]) xs
      in (out, q', d + (if full then 1 else 0)))"
| "bounded_fifo cap q (None # xs) =
     (case q of
        [] \<Rightarrow> bounded_fifo cap q xs
      | v # q1 \<Rightarrow> (let (out, q', d) = bounded_fifo cap q1 xs in (v # out, q', d)))"

fun puts :: "'a option list \<Rightarrow> 'a list" where
  "puts [] = []"
| "puts (Some v # xs) = v # puts xs"
| "puts (None # xs) = puts xs"

lemma puts_append [simp]: "puts (xs @ ys) = puts xs @ puts ys"
  by (induction xs rule: puts.induct) simp_all

lemma puts_map_Some [simp]: "puts (map Some xs) = xs"
  by (induction xs) simp_all

lemma bounded_fifo_laws:
  assumes "length q \<le> cap" "0 < cap" "bounded_fifo cap q xs = (out, q', d)"
  shows "length q' \<le> cap \<and> subseq (out @ q') (q @ puts xs) \<and> suffix q' (q @ puts xs) \<and>
    length q + length (puts xs) = length out + length q' + d \<and>
    (length q + length (puts xs) \<le> cap \<longrightarrow> d = 0)"
  using assms
proof (induction cap q xs arbitrary: out q' d rule: bounded_fifo.induct)
  case (1 cap q)
  then show ?case by simp
next
  case (2 cap q v xs)
  let ?q = "(if length q = cap then tl q else q) @ [v]"
  obtain out1 q1 d1 where r: "bounded_fifo cap ?q xs = (out1, q1, d1)" by (metis prod_cases3)
  have "length ?q \<le> cap" using "2.prems"(1,2) by auto
  from "2.IH" [OF refl this "2.prems"(2) r] have ih: "length q1 \<le> cap"
    "subseq (out1 @ q1) (?q @ puts xs)" "suffix q1 (?q @ puts xs)"
    "length ?q + length (puts xs) = length out1 + length q1 + d1"
    "length ?q + length (puts xs) \<le> cap \<Longrightarrow> d1 = 0" by auto
  have sfx: "suffix (?q @ puts xs) (q @ v # puts xs)"
    by (cases q) (auto simp: suffix_def)
  have res: "out = out1" "q' = q1" "d = d1 + (if length q = cap then 1 else 0)"
    using "2.prems"(3) r by (auto simp: Let_def)
  have "subseq (out1 @ q1) (q @ v # puts xs)" "suffix q1 (q @ v # puts xs)"
    using ih(2,3) sfx subseq_order.trans suffix_imp_subseq suffix_order.trans by blast+
  with ih(1,4,5) "2.prems"(1,2) res show ?case by (cases q) auto
next
  case (3 cap q xs)
  show ?case
  proof (cases q)
    case Nil
    with 3 show ?thesis by simp
  next
    case (Cons v q1)
    obtain out1 q2 d1 where r: "bounded_fifo cap q1 xs = (out1, q2, d1)" by (metis prod_cases3)
    have "length q1 \<le> cap" using "3.prems"(1) Cons by simp
    with "3.IH"(2) [OF Cons _ "3.prems"(2) r] "3.prems"(3) r Cons show ?thesis
      by (auto simp: suffix_Cons)
  qed
qed

subsection \<open>The watch is such a queue\<close>

text \<open>The puts and takes a history of operations amounts to.\<close>

fun fifo_ops :: "nat \<Rightarrow> filter_rule option \<Rightarrow> octets option \<Rightarrow> watch_op list \<Rightarrow> octets option list" where
  "fifo_ops len f prev [] = []"
| "fifo_ops len f prev (Sampled b # xs) =
     map Some (changes len f prev [Sampled b]) @
     fifo_ops len f (if length b = len then Some b else prev) xs"
| "fifo_ops len f prev (Reported b # xs) =
     map Some (changes len f prev [Reported b]) @ fifo_ops len f prev xs"
| "fifo_ops len f prev (LostByAgent n # xs) = fifo_ops len f prev xs"
| "fifo_ops len f prev (Asked # xs) = None # fifo_ops len f prev xs"

lemma fifo_ops_changes: "puts (fifo_ops len f prev xs) = changes len f prev xs"
  by (induction len f prev xs rule: fifo_ops.induct) auto

lemma enqueue_fields [simp]:
  "wt_len (enqueue b w) = wt_len w" "wt_filter (enqueue b w) = wt_filter w"
  "wt_last (enqueue b w) = wt_last w"
  "wt_queue (enqueue b w) = (if length (wt_queue w) = QUEUE_CAP then tl (wt_queue w) else wt_queue w) @ [b]"
  by (simp_all add: enqueue_def Let_def)

lemma count_event_fields [simp]:
  "wt_len (count_event w) = wt_len w" "wt_filter (count_event w) = wt_filter w"
  "wt_last (count_event w) = wt_last w" "wt_queue (count_event w) = wt_queue w"
  by (simp_all add: count_event_def)

lemma watch_run_fifo:
  "watch_run xs w = (out, w') \<Longrightarrow>
   \<exists>d. bounded_fifo QUEUE_CAP (wt_queue w) (fifo_ops (wt_len w) (wt_filter w) (wt_last w) xs) =
     (out, wt_queue w', d)"
proof (induction xs arbitrary: w out)
  case Nil
  then show ?case by simp
next
  case (Cons x xs)
  obtain vs w1 where step: "watch_step x w = (vs, w1)" by fastforce
  obtain vs' where rest: "watch_run xs w1 = (vs', w')" "out = vs @ vs'"
    using Cons.prems step by (auto simp: Let_def split: prod.splits)
  obtain d where ih: "bounded_fifo QUEUE_CAP (wt_queue w1)
      (fifo_ops (wt_len w1) (wt_filter w1) (wt_last w1) xs) = (vs', wt_queue w', d)"
    using Cons.IH [OF rest(1)] by blast
  show ?case
  proof (cases x)
    case (Sampled b)
    with step ih rest(2) show ?thesis
      by (cases "wt_last w"; cases "wt_filter w") (auto simp: observe_def Let_def split: if_splits)
  next
    case (Reported b)
    with step ih rest(2) show ?thesis by (auto simp: push_event_def Let_def split: if_splits)
  next
    case (LostByAgent n)
    with step ih rest(2) show ?thesis by (auto simp: add_dropped_def)
  next
    case Asked
    with step ih rest(2) show ?thesis
      by (cases "wt_queue w") (auto simp: take_change_def Let_def)
  qed
qed



text \<open>The counters add up: events that were queued were handed over, still wait, or were dropped.\<close>

definition stats_inv :: "watch \<Rightarrow> bool" where
  "stats_inv w \<longleftrightarrow> length (wt_queue w) \<le> QUEUE_CAP \<and>
     st_queued (wt_stats w) =
       st_replayed (wt_stats w) + of_nat (length (wt_queue w)) + st_dropped (wt_stats w)"

lemma enqueue_stats: "stats_inv w \<Longrightarrow> stats_inv (enqueue b w)"
  by (cases "wt_queue w") (auto simp: stats_inv_def enqueue_def Let_def QUEUE_CAP_def)

text \<open>The session's counters balance: as long as the agent reported no losses of its own, the
  events queued are exactly those replayed, waiting and dropped, modulo the counters' width.\<close>

theorem watch_stats_balance:
  assumes "\<forall>n. LostByAgent n \<notin> set xs"
  shows "let st = stats_of (snd (watch_run xs (watch_new addr len f))) in
    st_queued st = st_replayed st + of_nat (st_waiting st) + st_dropped st \<and> st_waiting st \<le> 16"
proof -
  have keep: "stats_inv (snd (watch_step x w))" if "stats_inv w" "\<forall>n. x \<noteq> LostByAgent n" for x w
  proof (cases x)
    case (Sampled b)
    have same: "stats_inv (count_event w)" "stats_inv (w\<lparr>wt_stats := (wt_stats w)\<lparr>st_samples := n\<rparr>, wt_last := l\<rparr>)"
      "stats_inv (count_event (w\<lparr>wt_stats := (wt_stats w)\<lparr>st_samples := n\<rparr>, wt_last := l\<rparr>))" for n l
      using that(1) by (simp_all add: stats_inv_def count_event_def)
    show ?thesis
      using that(1) same by (auto simp: Sampled observe_def Let_def intro!: enqueue_stats split: option.split)
  next
    case (Reported b)
    have "stats_inv (count_event w)" using that(1) by (simp add: stats_inv_def count_event_def)
    then show ?thesis using that(1) by (auto simp: Reported push_event_def intro!: enqueue_stats)
  next
    case (LostByAgent n)
    with that show ?thesis by simp
  next
    case Asked
    then show ?thesis using that(1)
      by (cases "wt_queue w") (auto simp: take_change_def stats_inv_def split: prod.splits)
  qed
  have run: "stats_inv (snd (watch_run xs w))" if "stats_inv w" for w
    using that assms
  proof (induction xs arbitrary: w)
    case Nil
    then show ?case by simp
  next
    case (Cons x xs)
    obtain vs w1 where step: "watch_step x w = (vs, w1)" by fastforce
    have "\<forall>n. x \<noteq> LostByAgent n" using Cons.prems(2) by auto
    with keep [of w x] Cons.prems(1) step have "stats_inv w1" by simp
    with Cons.IH [of w1] Cons.prems(2) step show ?case by (simp add: Let_def case_prod_beta)
  qed
  have "stats_inv (watch_new addr len f)" by (simp add: stats_inv_def watch_new_def stats_default_def)
  from run [OF this] show ?thesis by (simp add: stats_inv_def stats_of_def Let_def QUEUE_CAP_def)
qed

theorem watch_stats_balance_witness:
  "let st = stats_of (snd (watch_run (replicate 20 (Reported [1]) @ [Asked]) (watch_new 0 1 None))) in
    st_queued st = st_replayed st + of_nat (st_waiting st) + st_dropped st \<and> st_waiting st \<le> 16"
  by (rule watch_stats_balance) auto

end
