(* ===== verification/Backend_Batch.thy ===== *)
theory Backend_Batch
  imports M64p Watch_Queue Byte_Store
begin

text \<open>
  How a connector's reads and writes become requests to the cart: the pure part of
  \<open>crates/ap64-cart/src/backend.rs\<close> (\<open>split\<close>, \<open>batches\<close>, \<open>stitch\<close>, \<open>chunks_of\<close>, \<open>coalesce\<close>
  and the request loop of \<open>write_many\<close>). Each request respects the limits of the wire, and the
  requests together do what was asked.
\<close>

subsection \<open>Splitting reads and joining replies\<close>

definition check_in :: "u32 \<Rightarrow> nat \<Rightarrow> nat \<Rightarrow> io_kind + unit" where
  "check_in addr len sz = (if sz < unat addr + len then Inl InvalidInput else Inr ())"

function split_region :: "u32 \<Rightarrow> nat \<Rightarrow> nat \<Rightarrow> region list" where
  "split_region addr len done' =
     (if done' < len then
        let k = min (len - done') MAX_REGION_BYTES in
        \<lparr>rg_addr = addr + of_nat done', rg_len = of_nat k\<rparr> # split_region addr len (done' + k)
      else [])"
  by pat_completeness auto
termination
  by (relation "measure (\<lambda>(addr, len, done'). len - done')") (auto simp: MAX_REGION_BYTES_def)

declare split_region.simps [simp del]

fun split_regions :: "(u32 \<times> nat) list \<Rightarrow> nat \<Rightarrow> io_kind + region list \<times> nat list" where
  "split_regions [] sz = Inr ([], [])"
| "split_regions ((addr, len) # rs) sz =
     bind_result (check_in addr len sz)
       (\<lambda>_. let here = split_region addr len 0 in
          bind_result (split_regions rs sz)
            (\<lambda>(chunks, counts). Inr (here @ chunks, length here # counts)))"

text \<open>The loop of \<open>batches\<close>: what is packed so far, with its sz, and the chunks to come.\<close>

fun batches_loop :: "region list \<Rightarrow> nat \<Rightarrow> region list \<Rightarrow> region list list" where
  "batches_loop batch bytes [] = (if batch = [] then [] else [batch])"
| "batches_loop batch bytes (c # cs) =
     (if length batch = MAX_REGIONS \<or> MAX_TOTAL_BYTES < bytes + unat (rg_len c)
      then batch # batches_loop [c] (unat (rg_len c)) cs
      else batches_loop (batch @ [c]) (bytes + unat (rg_len c)) cs)"

definition batches :: "region list \<Rightarrow> region list list" where
  "batches cs = batches_loop [] 0 cs"

definition fits :: "region list \<Rightarrow> nat \<Rightarrow> bool" where
  "fits batch len \<longleftrightarrow>
     length batch < MAX_REGIONS \<and> sum_list (map (\<lambda>r. unat (rg_len r)) batch) + len \<le> MAX_TOTAL_BYTES"

fun stitch :: "octets list \<Rightarrow> nat list \<Rightarrow> io_kind + octets list" where
  "stitch flat [] = Inr []"
| "stitch flat (n # ns) =
     (if length flat < n then Inl OtherKind
      else bind_result (stitch (drop n flat) ns) (\<lambda>out. Inr (concat (take n flat) # out)))"

subsection \<open>Merging writes\<close>

type_synonym mem_write = "u32 \<times> octets"

definition chunk_write :: "mem_write \<Rightarrow> mem_write list" where
  "chunk_write w =
     map (\<lambda>(i, c). (fst w + of_nat (i * MAX_REGION_BYTES), c))
       (enumerate 0 (chunks MAX_REGION_BYTES (snd w)))"

definition chunks_of :: "mem_write list \<Rightarrow> mem_write list" where
  "chunks_of writes = concat (map chunk_write writes)"

definition fits_one_request :: "mem_write list \<Rightarrow> bool" where
  "fits_one_request chunks' \<longleftrightarrow>
     length chunks' \<le> MAX_REGIONS \<and> sum_list (map (\<lambda>w. length (snd w)) chunks') \<le> MAX_TOTAL_BYTES"

definition insert_bytes :: "mem_write \<Rightarrow> (nat \<times> u8) list \<Rightarrow> (nat \<times> u8) list" where
  "insert_bytes w m =
     fold (\<lambda>(i, b). bt_insert (unat (fst w + of_nat i)) b) (enumerate 0 (snd w)) m"

definition add_byte :: "nat \<times> u8 \<Rightarrow> mem_write list \<Rightarrow> mem_write list" where
  "add_byte ab runs =
     (case rev runs of
        (start, run) # _ \<Rightarrow>
          if unat (start + of_nat (length run)) = fst ab
          then butlast runs @ [(start, run @ [snd ab])]
          else runs @ [(of_nat (fst ab), [snd ab])]
      | [] \<Rightarrow> [(of_nat (fst ab), [snd ab])])"

definition coalesce :: "mem_write list \<Rightarrow> mem_write list" where
  "coalesce writes = fold add_byte (fold insert_bytes writes []) []"

text \<open>The loop of \<open>write_many\<close> that sends the chunks, as the list of requests it makes.\<close>

fun write_batches_loop :: "mem_write list \<Rightarrow> nat \<Rightarrow> mem_write list \<Rightarrow> mem_write list list" where
  "write_batches_loop batch bytes [] = (if batch = [] then [] else [batch])"
| "write_batches_loop batch bytes (c # cs) =
     (if length batch = MAX_REGIONS \<or> MAX_TOTAL_BYTES < bytes + length (snd c)
      then batch # write_batches_loop [c] (length (snd c)) cs
      else write_batches_loop (batch @ [c]) (bytes + length (snd c)) cs)"

definition write_requests :: "mem_write list \<Rightarrow> mem_write list list" where
  "write_requests writes =
     (let merged_chunks = chunks_of (coalesce writes);
          chunks' = if fits_one_request merged_chunks then merged_chunks else chunks_of writes
      in write_batches_loop [] 0 chunks')"

subsection \<open>Reads: limits, order and joining\<close>

definition region_span :: "region \<Rightarrow> nat \<times> nat" where
  "region_span r = (unat (rg_addr r), unat (rg_len r))"

definition request_ok :: "region list \<Rightarrow> bool" where
  "request_ok batch \<longleftrightarrow>
     batch \<noteq> [] \<and> length batch \<le> MAX_REGIONS \<and> (\<forall>r \<in> set batch. unat (rg_len r) \<le> MAX_REGION_BYTES) \<and>
     sum_list (map (\<lambda>r. unat (rg_len r)) batch) \<le> MAX_TOTAL_BYTES"

lemma batches_loop_concat: "concat (batches_loop batch bytes cs) = batch @ cs"
  by (induction batch bytes cs rule: batches_loop.induct) auto

lemma request_ok_single: "unat (rg_len c) \<le> MAX_REGION_BYTES \<Longrightarrow> request_ok [c]"
  by (simp add: request_ok_def MAX_REGIONS_def MAX_REGION_BYTES_def MAX_TOTAL_BYTES_def)

lemma request_ok_snoc:
  "request_ok batch \<Longrightarrow> unat (rg_len c) \<le> MAX_REGION_BYTES \<Longrightarrow> length batch \<noteq> MAX_REGIONS \<Longrightarrow>
   sum_list (map (\<lambda>r. unat (rg_len r)) batch) + unat (rg_len c) \<le> MAX_TOTAL_BYTES \<Longrightarrow>
   request_ok (batch @ [c])"
  by (auto simp: request_ok_def)

lemma batches_loop_ok:
  assumes "request_ok batch" "bytes = sum_list (map (\<lambda>r. unat (rg_len r)) batch)"
    and "\<forall>c \<in> set cs. unat (rg_len c) \<le> MAX_REGION_BYTES" "b \<in> set (batches_loop batch bytes cs)"
  shows "request_ok b"
  using assms
proof (induction batch bytes cs rule: batches_loop.induct)
  case (1 batch bytes)
  then show ?case by (simp split: if_splits)
next
  case (2 batch bytes c cs)
  have c: "unat (rg_len c) \<le> MAX_REGION_BYTES" using "2.prems"(3) by simp
  show ?case
  proof (cases "length batch = MAX_REGIONS \<or> MAX_TOTAL_BYTES < bytes + unat (rg_len c)")
    case True
    then consider "b = batch" | "b \<in> set (batches_loop [c] (unat (rg_len c)) cs)"
      using "2.prems"(4) by auto
    then show ?thesis
    proof cases
      case 1
      with "2.prems"(1) show ?thesis by simp
    next
      case 2
      with "2.IH"(1) [OF True request_ok_single [OF c]] "2.prems"(3) show ?thesis by simp
    qed
  next
    case False
    have "request_ok (batch @ [c])"
      using False "2.prems"(1,2) c by (intro request_ok_snoc) auto
    from "2.IH"(2) [OF False this] "2.prems"(2-4) False show ?thesis by simp
  qed
qed

lemma batches_ok:
  assumes "\<forall>c \<in> set cs. unat (rg_len c) \<le> MAX_REGION_BYTES" "b \<in> set (batches cs)"
  shows "request_ok b"
proof (cases cs)
  case Nil
  with assms show ?thesis by (simp add: batches_def)
next
  case (Cons c cs')
  then have c: "unat (rg_len c) \<le> MAX_REGION_BYTES" using assms(1) by simp
  then have "\<not> MAX_TOTAL_BYTES < unat (rg_len c)"
    by (simp add: MAX_REGION_BYTES_def MAX_TOTAL_BYTES_def)
  then have "batches cs = batches_loop [c] (unat (rg_len c)) cs'"
    by (simp add: batches_def Cons MAX_REGIONS_def)
  with batches_loop_ok [OF request_ok_single [OF c], of "unat (rg_len c)" cs' b] assms Cons
  show ?thesis by simp
qed

lemma concat_batches [simp]: "concat (batches cs) = cs"
  by (simp add: batches_def batches_loop_concat)

text \<open>The bytes a request for these regions is answered with, when memory holds \<open>f\<close>.\<close>

definition reply_of :: "(nat \<Rightarrow> u8) \<Rightarrow> region list \<Rightarrow> octets list" where
  "reply_of f batch = map (\<lambda>r. bytes_at f (unat (rg_addr r)) (unat (rg_len r))) batch"

lemma reply_of_append [simp]: "reply_of f (xs @ ys) = reply_of f xs @ reply_of f ys"
  and length_reply_of [simp]: "length (reply_of f xs) = length xs"
  by (simp_all add: reply_of_def)

lemma split_region_reply:
  assumes "unat addr + len < 2 ^ 32" "done' \<le> len"
  shows "concat (reply_of f (split_region addr len done')) =
      bytes_at f (unat addr + done') (len - done') \<and>
    (\<forall>r \<in> set (split_region addr len done'). unat (rg_len r) \<le> MAX_REGION_BYTES)"
  using assms
proof (induction addr len done' rule: split_region.induct)
  case (1 addr len done')
  show ?case
  proof (cases "done' < len")
    case True
    let ?k = "min (len - done') MAX_REGION_BYTES"
    have k: "?k < 2 ^ 16" "done' + ?k \<le> len" using True by (auto simp: MAX_REGION_BYTES_def)
    have a: "unat (addr + of_nat done') = unat addr + done'"
      using "1.prems" by (simp add: unat_word_ariths unat_of_nat)
    have "bytes_at f (unat addr + done') (len - done') =
        bytes_at f (unat addr + done') ?k @ bytes_at f (unat addr + done' + ?k) (len - (done' + ?k))"
      using k(2) by (simp flip: bytes_at_add)
    with "1.IH" [OF True refl "1.prems"(1) k(2)] True k(1) a show ?thesis
      by (subst (1 2) split_region.simps) (simp add: Let_def reply_of_def add.assoc)
  next
    case False
    with "1.prems" show ?thesis by (subst (1 2) split_region.simps) (simp add: reply_of_def)
  qed
qed

lemma split_regions_Inr:
  assumes "split_regions rs sz = Inr (chunks', counts)" "sz < 2 ^ 32"
  shows "stitch (reply_of f chunks') counts = Inr (map (\<lambda>(a, n). bytes_at f (unat a) n) rs) \<and>
    (\<forall>r \<in> set chunks'. unat (rg_len r) \<le> MAX_REGION_BYTES)"
  using assms
proof (induction rs arbitrary: chunks' counts)
  case Nil
  then show ?case by (simp add: reply_of_def)
next
  case (Cons r rs)
  obtain a n where r: "r = (a, n)" by fastforce
  obtain cs ns where rest: "split_regions rs sz = Inr (cs, ns)"
      "chunks' = split_region a n 0 @ cs" "counts = length (split_region a n 0) # ns"
      "unat a + n \<le> sz"
    using Cons.prems(1) by (auto simp: r bind_result_Inr_iff check_in_def Let_def split: if_splits)
  have "unat a + n < 2 ^ 32" using rest(4) Cons.prems(2) by simp
  from split_region_reply [OF this, of 0 f] Cons.IH [OF rest(1) Cons.prems(2)] rest show ?case
    by (auto simp: r)
qed

lemma split_regions_Inl:
  "split_regions rs sz = Inl e \<longleftrightarrow> e = InvalidInput \<and> (\<exists>(a, n) \<in> set rs. sz < unat a + n)"
proof (induction rs arbitrary: e)
  case Nil
  then show ?case by simp
next
  case (Cons r rs)
  then show ?case
    by (cases r; cases "split_regions rs sz") (auto simp: check_in_def Let_def)
qed

subsection \<open>Writes: merging, limits and effect\<close>

text \<open>Memory after applying writes one by one.\<close>

fun apply_writes :: "mem_write list \<Rightarrow> (nat \<Rightarrow> u8) \<Rightarrow> nat \<Rightarrow> u8" where
  "apply_writes [] f = f"
| "apply_writes (w # ws) f = apply_writes ws (overlay f (unat (fst w)) (snd w))"

lemma apply_writes_append [simp]: "apply_writes (xs @ ys) f = apply_writes ys (apply_writes xs f)"
  by (induction xs arbitrary: f) simp_all

definition within :: "nat \<Rightarrow> mem_write \<Rightarrow> bool" where
  "within sz w \<longleftrightarrow> unat (fst w) + length (snd w) \<le> sz"

definition laid :: "(nat \<Rightarrow> u8) \<Rightarrow> (nat \<times> u8) list \<Rightarrow> nat \<Rightarrow> u8" where
  "laid f m x = (case map_of m x of Some b \<Rightarrow> b | None \<Rightarrow> f x)"

lemma unat_add_within: "unat (a :: u32) + n < 2 ^ 32 \<Longrightarrow> unat (a + of_nat n) = unat a + n"
  by (simp add: unat_word_ariths unat_of_nat)

lemma insert_bytes_snoc:
  "insert_bytes (a, d @ [b]) m = bt_insert (unat (a + of_nat (length d))) b (insert_bytes (a, d) m)"
  by (simp add: insert_bytes_def enumerate_append_eq)

lemma insert_bytes_laid:
  assumes "sorted_wrt (<) (map fst m)" "unat a + length d < 2 ^ 32"
  shows "sorted_wrt (<) (map fst (insert_bytes (a, d) m)) \<and>
    laid f (insert_bytes (a, d) m) = overlay (laid f m) (unat a) d \<and>
    fst ` set (insert_bytes (a, d) m) = fst ` set m \<union> {unat a ..< unat a + length d}"
  using assms(2)
proof (induction d rule: rev_induct)
  case Nil
  with assms(1) show ?case by (simp add: insert_bytes_def)
next
  case (snoc b d)
  let ?m = "insert_bytes (a, d) m"
  have ih: "sorted_wrt (<) (map fst ?m)" "laid f ?m = overlay (laid f m) (unat a) d"
      "fst ` set ?m = fst ` set m \<union> {unat a ..< unat a + length d}"
    using snoc by auto
  have at': "unat (a + of_nat (length d)) = unat a + length d"
    using snoc.prems by (intro unat_add_within) simp
  have "laid f (bt_insert (unat a + length d) b ?m) = overlay (laid f ?m) (unat a + length d) [b]"
    by (auto simp: laid_def map_of_bt_insert [OF ih(1)] overlay_def fun_eq_iff)
  also have "\<dots> = overlay (laid f m) (unat a) (d @ [b])"
    by (simp add: ih(2) overlay_overlay)
  finally have l: "laid f (bt_insert (unat a + length d) b ?m) = overlay (laid f m) (unat a) (d @ [b])" .
  have "fst ` set (bt_insert (unat a + length d) b ?m) = insert (unat a + length d) (fst ` set ?m)"
    using map_of_bt_insert [OF ih(1), of "unat a + length d" b]
    by (metis dom_map_of_conv_image_fst dom_fun_upd option.distinct(1))
  with ih l at' sorted_bt_insert [OF ih(1)] show ?case
    by (auto simp: insert_bytes_snoc)
qed

lemma fold_insert_bytes:
  assumes "sorted_wrt (<) (map fst m)" "\<forall>w \<in> set ws. within sz w" "sz < 2 ^ 32"
    and "\<forall>k \<in> fst ` set m. k < sz"
  shows "sorted_wrt (<) (map fst (fold insert_bytes ws m)) \<and>
    laid f (fold insert_bytes ws m) = apply_writes ws (laid f m) \<and>
    (\<forall>k \<in> fst ` set (fold insert_bytes ws m). k < sz)"
  using assms
proof (induction ws arbitrary: m)
  case Nil
  then show ?case by simp
next
  case (Cons w ws)
  obtain a d where w: "w = (a, d)" by fastforce
  have "unat a + length d < 2 ^ 32" "unat a + length d \<le> sz"
    using Cons.prems(2,3) by (auto simp: w within_def)
  note one = insert_bytes_laid [OF Cons.prems(1) this(1), of f] this(2)
  have "\<forall>k \<in> fst ` set (insert_bytes (a, d) m). k < sz"
    using one Cons.prems(4) by auto
  with Cons.IH [of "insert_bytes (a, d) m"] one Cons.prems show ?case by (simp add: w)
qed

subsection \<open>The runs\<close>

definition run_gap :: "mem_write \<Rightarrow> mem_write \<Rightarrow> bool" where
  "run_gap w v \<longleftrightarrow> unat (fst w) + length (snd w) < unat (fst v)"

definition runs_ok :: "nat \<Rightarrow> mem_write list \<Rightarrow> bool" where
  "runs_ok k runs \<longleftrightarrow>
     sorted_wrt run_gap runs \<and> (\<forall>w \<in> set runs. unat (fst w) + length (snd w) \<le> k \<and> snd w \<noteq> [])"

lemma overlay_snoc: "overlay f at' (bs @ [b]) = overlay (overlay f at' bs) (at' + length bs) [b]"
  by (simp add: overlay_overlay)

lemma add_byte_run:
  assumes "runs_ok k runs" "k < 2 ^ 32"
  shows "apply_writes (add_byte (k, b) runs) f = overlay (apply_writes runs f) k [b] \<and>
    runs_ok (Suc k) (add_byte (k, b) runs)"
proof (cases runs rule: rev_cases)
  case Nil
  with assms(2) show ?thesis by (simp add: add_byte_def runs_ok_def unat_of_nat take_bit_nat_eq_self)
next
  case (snoc rs w)
  obtain st run where w: "w = (st, run)" by fastforce
  have ends: "unat st + length run \<le> k" "run \<noteq> []" and gaps: "sorted_wrt run_gap (rs @ [(st, run)])"
    and all: "\<forall>w \<in> set rs. unat (fst w) + length (snd w) \<le> k \<and> snd w \<noteq> []"
    using assms(1) by (auto simp: runs_ok_def snoc w)
  have at': "unat (st + of_nat (length run)) = unat st + length run"
    using ends assms(2) by (intro unat_add_within) simp
  show ?thesis
  proof (cases "unat st + length run = k")
    case True
    then have "add_byte (k, b) runs = rs @ [(st, run @ [b])]"
      by (simp add: add_byte_def snoc w at')
    with True gaps all show ?thesis
      by (auto simp: snoc w overlay_snoc runs_ok_def sorted_wrt_append run_gap_def le_SucI)
  next
    case False
    then have "add_byte (k, b) runs = runs @ [(of_nat k, [b])]"
      by (simp add: add_byte_def snoc w at')
    moreover have "unat (of_nat k :: u32) = k" using assms(2) by (simp add: unat_of_nat take_bit_nat_eq_self)
    moreover have "run_gap v (of_nat k, [b])" if "v \<in> set runs" for v
      using that gaps ends all False \<open>unat (of_nat k :: u32) = k\<close>
      by (fastforce simp: snoc w run_gap_def sorted_wrt_append)
    ultimately show ?thesis
      using assms(1) by (auto simp: runs_ok_def sorted_wrt_append le_SucI)
  qed
qed

lemma runs_ok_mono: "runs_ok k runs \<Longrightarrow> k \<le> k' \<Longrightarrow> runs_ok k' runs"
  by (fastforce simp: runs_ok_def)

lemma laid_Cons:
  "k \<notin> fst ` set m \<Longrightarrow> laid f ((k, b) # m) = laid (overlay f k [b]) m"
  unfolding map_of_eq_None_iff [symmetric]
  by (auto simp: laid_def overlay_def fun_eq_iff less_Suc_eq_le split: option.split)

lemma laid_Nil [simp]: "laid f [] = f"
  by (simp add: laid_def fun_eq_iff)

lemma fold_add_byte:
  assumes "sorted_wrt (<) (map fst m)" "\<forall>k \<in> fst ` set m. lo \<le> k \<and> k < sz" "sz < 2 ^ 32"
    and "runs_ok lo runs" "lo \<le> sz"
  shows "apply_writes (fold add_byte m runs) f = laid (apply_writes runs f) m \<and>
    runs_ok sz (fold add_byte m runs)"
  using assms
proof (induction m arbitrary: runs lo)
  case Nil
  then show ?case by (auto simp: laid_def intro: runs_ok_mono)
next
  case (Cons kb m)
  obtain k b where kb: "kb = (k, b)" by fastforce
  have k: "lo \<le> k" "k < sz" and new: "k \<notin> fst ` set m" and up: "\<forall>j \<in> fst ` set m. Suc k \<le> j \<and> j < sz"
    using Cons.prems(1,2) by (auto simp: kb)
  have "runs_ok k runs" using Cons.prems(4) k(1) by (rule runs_ok_mono)
  then have step: "apply_writes (add_byte (k, b) runs) f = overlay (apply_writes runs f) k [b]"
      "runs_ok (Suc k) (add_byte (k, b) runs)"
    using add_byte_run [of k runs b f] k(2) Cons.prems(3) by simp_all
  have "sorted_wrt (<) (map fst m)" using Cons.prems(1) by simp
  from Cons.IH [OF this up Cons.prems(3) step(2)] k(2) step(1) laid_Cons [OF new] show ?case
    by (simp add: kb)
qed

lemma coalesce_effect:
  assumes "\<forall>w \<in> set ws. within sz w" "sz < 2 ^ 32"
  shows "apply_writes (coalesce ws) f = apply_writes ws f \<and> runs_ok sz (coalesce ws)"
proof -
  let ?m = "fold insert_bytes ws []"
  have "sorted_wrt (<) (map fst ?m)" "laid f ?m = apply_writes ws f" "\<forall>k \<in> fst ` set ?m. 0 \<le> k \<and> k < sz"
    using fold_insert_bytes [of "[]" ws sz f] assms by simp_all
  with fold_add_byte [of ?m 0 sz "[]" f] assms(2) show ?thesis
    by (simp add: coalesce_def runs_ok_def)
qed

lemma chunk_write_effect:
  assumes "unat a + length d < 2 ^ 32"
  shows "apply_writes (chunk_write (a, d)) f = overlay f (unat a) d \<and>
    (\<forall>w \<in> set (chunk_write (a, d)). snd w \<noteq> [] \<and> length (snd w) \<le> MAX_REGION_BYTES)"
proof -
  have pos: "0 < MAX_REGION_BYTES" by (simp add: MAX_REGION_BYTES_def)
  have "apply_writes (map (\<lambda>(i, c). (a + of_nat (i * MAX_REGION_BYTES), c)) (enumerate n (chunks MAX_REGION_BYTES e))) g =
      overlay g (unat a + n * MAX_REGION_BYTES) e"
    if "unat a + n * MAX_REGION_BYTES + length e < 2 ^ 32" for n e g
    using that
  proof (induction "length e" arbitrary: n e g rule: less_induct)
    case less
    show ?case
    proof (cases "e = []")
      case True
      then show ?thesis by (simp add: chunks.simps [of _ "[]"])
    next
      case False
      let ?t = "take MAX_REGION_BYTES e" and ?r = "drop MAX_REGION_BYTES e"
      have c: "chunks MAX_REGION_BYTES e = ?t # chunks MAX_REGION_BYTES ?r"
        using False pos by (subst chunks.simps) simp
      have at': "unat (a + of_nat (n * MAX_REGION_BYTES)) = unat a + n * MAX_REGION_BYTES"
        using less.prems by (intro unat_add_within) simp
      show ?thesis
      proof (cases "MAX_REGION_BYTES < length e")
        case True
        have "apply_writes (map (\<lambda>(i, c). (a + of_nat (i * MAX_REGION_BYTES), c))
              (enumerate (Suc n) (chunks MAX_REGION_BYTES ?r))) h =
            overlay h (unat a + Suc n * MAX_REGION_BYTES) ?r" for h
          using less.prems True pos by (intro less.hyps) auto
        moreover have "unat a + Suc n * MAX_REGION_BYTES = unat a + n * MAX_REGION_BYTES + length ?t"
          using True by simp
        ultimately show ?thesis
          using overlay_overlay [of g "unat a + n * MAX_REGION_BYTES" ?t ?r] at'
          unfolding c by (simp del: mult_Suc of_nat_mult)
      next
        case last: False
        then have "chunks MAX_REGION_BYTES ?r = []" "?t = e" by simp_all
        with at' show ?thesis unfolding c by (simp del: of_nat_mult)
      qed
    qed
  qed
  from this [of 0 d f] assms have eff: "apply_writes (chunk_write (a, d)) f = overlay f (unat a) d"
    by (simp add: chunk_write_def)
  have "snd ` set (chunk_write (a, d)) \<subseteq> set (chunks MAX_REGION_BYTES d)"
    by (force simp: chunk_write_def in_set_enumerate_eq)
  with chunks_bounds [of _ MAX_REGION_BYTES d] eff show ?thesis by fastforce
qed

lemma chunks_of_effect:
  assumes "\<forall>w \<in> set ws. within sz w" "sz < 2 ^ 32"
  shows "apply_writes (chunks_of ws) f = apply_writes ws f \<and>
    (\<forall>w \<in> set (chunks_of ws). snd w \<noteq> [] \<and> length (snd w) \<le> MAX_REGION_BYTES)"
  using assms
proof (induction ws arbitrary: f)
  case Nil
  then show ?case by (simp add: chunks_of_def)
next
  case (Cons w ws)
  obtain a d where w: "w = (a, d)" by fastforce
  have "unat a + length d < 2 ^ 32" using Cons.prems by (auto simp: w within_def)
  from chunk_write_effect [OF this, of f] Cons.IH [of "overlay f (unat a) d"] Cons.prems show ?case
    by (auto simp: chunks_of_def w)
qed

definition write_request_ok :: "mem_write list \<Rightarrow> bool" where
  "write_request_ok req \<longleftrightarrow>
     req \<noteq> [] \<and> length req \<le> MAX_REGIONS \<and> (\<forall>w \<in> set req. length (snd w) \<le> MAX_REGION_BYTES) \<and>
     sum_list (map (\<lambda>w. length (snd w)) req) \<le> MAX_TOTAL_BYTES"

lemma write_batches_concat: "concat (write_batches_loop batch bytes cs) = batch @ cs"
  by (induction batch bytes cs rule: write_batches_loop.induct) auto

lemma write_request_ok_single: "length (snd c) \<le> MAX_REGION_BYTES \<Longrightarrow> write_request_ok [c]"
  by (simp add: write_request_ok_def MAX_REGIONS_def MAX_REGION_BYTES_def MAX_TOTAL_BYTES_def)

lemma write_batches_ok:
  assumes "batch = [] \<or> write_request_ok batch" "bytes = sum_list (map (\<lambda>w. length (snd w)) batch)"
    and "\<forall>c \<in> set cs. length (snd c) \<le> MAX_REGION_BYTES"
    and "b \<in> set (write_batches_loop batch bytes cs)"
  shows "write_request_ok b"
  using assms
proof (induction batch bytes cs rule: write_batches_loop.induct)
  case (1 batch bytes)
  then show ?case by (auto split: if_splits)
next
  case (2 batch bytes c cs)
  have c: "length (snd c) \<le> MAX_REGION_BYTES" using "2.prems"(3) by simp
  note one = write_request_ok_single [OF c]
  show ?case
  proof (cases "length batch = MAX_REGIONS \<or> MAX_TOTAL_BYTES < bytes + length (snd c)")
    case True
    then have "batch \<noteq> []"
      using "2.prems"(2) c by (auto simp: MAX_REGIONS_def MAX_REGION_BYTES_def MAX_TOTAL_BYTES_def)
    then have ok: "write_request_ok batch" using "2.prems"(1) by simp
    from True consider "b = batch" | "b \<in> set (write_batches_loop [c] (length (snd c)) cs)"
      using "2.prems"(4) by auto
    then show ?thesis
      using ok "2.IH"(1) [OF True disjI2 [OF one]] "2.prems"(3) by cases simp_all
  next
    case False
    have "write_request_ok (batch @ [c])"
      using False "2.prems"(1,2) c one by (cases "batch = []") (auto simp: write_request_ok_def)
    from "2.IH"(2) [OF False disjI2 [OF this]] "2.prems"(2-4) False show ?thesis by simp
  qed
qed

lemma write_batches_single:
  "fits_one_request (batch @ cs) \<Longrightarrow> bytes = sum_list (map (\<lambda>w. length (snd w)) batch) \<Longrightarrow>
   write_batches_loop batch bytes cs = (if batch @ cs = [] then [] else [batch @ cs])"
proof (induction batch bytes cs rule: write_batches_loop.induct)
  case (1 batch bytes)
  then show ?case by simp
next
  case (2 batch bytes c cs)
  have go: "\<not> (length batch = MAX_REGIONS \<or> MAX_TOTAL_BYTES < bytes + length (snd c))"
    using "2.prems" by (simp add: fits_one_request_def)
  have "fits_one_request ((batch @ [c]) @ cs)" using "2.prems"(1) by simp
  moreover have "bytes + length (snd c) = sum_list (map (\<lambda>w. length (snd w)) (batch @ [c]))"
    using "2.prems"(2) by simp
  ultimately have "write_batches_loop (batch @ [c]) (bytes + length (snd c)) cs = [(batch @ [c]) @ cs]"
    using "2.IH"(2) [OF go] by simp
  with go show ?case by simp
qed

text \<open>C22: What \<open>write_many\<close> sends has exactly the effect of the writes it was given, applied in
  order: the last write to a byte wins, and no byte is written that was not asked for. Every
  request is within the wire limits. A batch that fits one request when merged goes out as at
  most one; any other keeps the client's order.\<close>

theorem write_requests_effect:
  assumes "\<forall>w \<in> set ws. within sz w" and "sz < 2 ^ 32"
  shows "apply_writes (concat (write_requests ws)) f = apply_writes ws f \<and>
    (\<forall>req \<in> set (write_requests ws). write_request_ok req) \<and>
    (if fits_one_request (chunks_of (coalesce ws)) then length (write_requests ws) \<le> 1
     else concat (write_requests ws) = chunks_of ws)"
proof -
  note co = coalesce_effect [OF assms]
  have "\<forall>w \<in> set (coalesce ws). within sz w" using co by (auto simp: runs_ok_def within_def)
  note merged = chunks_of_effect [OF this assms(2)]
  note plain = chunks_of_effect [OF assms]
  have small: "\<forall>c \<in> set (if fits_one_request (chunks_of (coalesce ws)) then chunks_of (coalesce ws)
      else chunks_of ws). length (snd c) \<le> MAX_REGION_BYTES"
    using merged plain by auto
  have ok: "\<forall>req \<in> set (write_requests ws). write_request_ok req"
    unfolding write_requests_def Let_def
    by (rule ballI, rule write_batches_ok [OF disjI1 [OF refl] _ small]) simp_all
  have "concat (write_requests ws) =
      (if fits_one_request (chunks_of (coalesce ws)) then chunks_of (coalesce ws) else chunks_of ws)"
    by (simp add: write_requests_def write_batches_concat Let_def)
  moreover have "length (write_requests ws) \<le> 1" if "fits_one_request (chunks_of (coalesce ws))"
    using that write_batches_single [of "[]" "chunks_of (coalesce ws)" 0]
    by (simp add: write_requests_def Let_def)
  ultimately show ?thesis using merged plain co ok by auto
qed

theorem write_requests_effect_witness:
  "apply_writes (concat (write_requests [(0x100, [1, 2]), (0x102, [3]), (0x101, [9])])) (\<lambda>_. 0) =
     apply_writes [(0x100, [1, 2]), (0x102, [3]), (0x101, [9])] (\<lambda>_. 0) \<and>
   length (write_requests [(0x100, [1, 2]), (0x102, [3]), (0x101, [9])]) \<le> 1"
proof -
  have "fits_one_request (chunks_of (coalesce [(0x100, [1, 2]), (0x102, [3]), (0x101, [9])]))"
    by code_simp
  with write_requests_effect [of "[(0x100, [1, 2]), (0x102, [3]), (0x101, [9])]" "0x800000" "\<lambda>_. 0"]
  show ?thesis by (simp add: within_def)
qed

end
