(* ===== verification/Backend_Link.thy ===== *)
theory Backend_Link
  imports Backend_Batch
begin

text \<open>
  The \<open>Multi64\<close> backend of \<open>crates/ap64-cart/src/backend.rs\<close>: retries, reconnects and health
  (\<open>with_retry\<close> and what it calls), the write that must land at most once (\<open>poke_once\<close>), the watch,
  and the batched reads and writes over them. The transport, the clock and the cancel callback are
  a record of operations on a link state; a result \<open>None\<close> is a call that never returns. Log lines
  are left out, and durations are milliseconds.
\<close>

subsection \<open>The link\<close>

datatype cart_err =
    CartRefused u8 | LinkRestarted | CartStopped | CartGaveUp | CartIo io_kind

fun is_refused :: "cart_err \<Rightarrow> bool" where
  "is_refused (CartRefused code) = True"
| "is_refused _ = False"

record 'c link_ops =
  lk_now :: "'c \<Rightarrow> nat"
  lk_wait :: "nat \<Rightarrow> 'c \<Rightarrow> 'c"
  lk_cancelled :: "'c \<Rightarrow> bool"
  lk_connect :: "'c \<Rightarrow> bool \<times> 'c"
  lk_poke_once :: "'c \<Rightarrow> bool"
  lk_forbid_copy :: "'c \<Rightarrow> 'c"
  lk_watch_slots :: "'c \<Rightarrow> u8 option"
  lk_rdram :: "'c \<Rightarrow> u32"
  lk_rom_bytes :: "'c \<Rightarrow> u32 option"
  lk_peek :: "region list \<Rightarrow> 'c \<Rightarrow> (cart_err + octets list) \<times> 'c"
  lk_peek_rom :: "region list \<Rightarrow> 'c \<Rightarrow> (cart_err + octets list) \<times> 'c"
  lk_watch :: "slot list \<Rightarrow> 'c \<Rightarrow> (cart_err + u8) \<times> 'c"
  lk_take_events :: "'c \<Rightarrow> (event list \<times> u32) \<times> 'c"
  lk_send_poke :: "mem_write list \<Rightarrow> 'c \<Rightarrow> (cart_err + u16) \<times> 'c"
  lk_resend_poke :: "u16 \<Rightarrow> mem_write list \<Rightarrow> 'c \<Rightarrow> (cart_err + unit) \<times> 'c"
  lk_await_poke :: "u16 \<Rightarrow> nat \<Rightarrow> 'c \<Rightarrow> (cart_err + unit) \<times> 'c"

definition REPLY_TIMEOUT :: nat where "REPLY_TIMEOUT = 1200"
definition RECONNECT_DEADLINE :: nat where "RECONNECT_DEADLINE = 300000"
definition RECONNECT_BACKOFF_MAX :: nat where "RECONNECT_BACKOFF_MAX = 2000"
definition SOFT_RETRIES :: nat where "SOFT_RETRIES = 2"
definition BUSY_WAIT :: nat where "BUSY_WAIT = 20"
definition ROM_PAGE :: nat where "ROM_PAGE = 1024"
definition ROM_HEADER :: nat where "ROM_HEADER = 0x40"

definition soft_retries_for :: "nat \<Rightarrow> nat" where
  "soft_retries_for budget = max (budget div REPLY_TIMEOUT - 1) SOFT_RETRIES"

datatype retry = Resend | Once

record 'c multi64 =
  mu_link :: 'c
  mu_rom_pages :: "nat \<Rightarrow> octets option"
  mu_generation :: nat
  mu_watch :: "watch option"
  mu_watch_on_cart :: bool
  mu_watch_armed_at :: "nat option"
  mu_soft_retries :: nat
  mu_reconnect_deadline :: nat
  mu_ailing :: bool
  mu_quiet_probes :: nat
  mu_missed :: bool
  mu_health :: "bool list"
  mu_regions :: nat
  mu_stalls :: nat
  mu_reconnects :: nat

definition multi64_connect :: "'c \<Rightarrow> 'c multi64" where
  "multi64_connect c =
     \<lparr>mu_link = c, mu_rom_pages = (\<lambda>_. None), mu_generation = 0, mu_watch = None,
      mu_watch_on_cart = False, mu_watch_armed_at = None, mu_soft_retries = SOFT_RETRIES,
      mu_reconnect_deadline = RECONNECT_DEADLINE, mu_ailing = False, mu_quiet_probes = 0,
      mu_missed = False, mu_health = [], mu_regions = 0, mu_stalls = 0, mu_reconnects = 0\<rparr>"

definition set_silence_budget :: "nat \<Rightarrow> 'c multi64 \<Rightarrow> 'c multi64" where
  "set_silence_budget budget m = m\<lparr>mu_soft_retries := soft_retries_for budget\<rparr>"

definition give_up :: "'c link_ops \<Rightarrow> 'c multi64 \<Rightarrow> bool" where
  "give_up ops m = lk_cancelled ops (mu_link m)"

subsection \<open>Health, and the ROM after a silence\<close>

definition same_rom :: "'c link_ops \<Rightarrow> octets \<Rightarrow> 'c \<Rightarrow> (cart_err + bool) \<times> 'c" where
  "same_rom ops known c =
     (case lk_peek_rom ops [\<lparr>rg_addr = 0, rg_len = of_nat ROM_HEADER\<rparr>] c of
        (Inr got, c') \<Rightarrow> (Inr (case got of [] \<Rightarrow> False | h # _ \<Rightarrow> h = known), c')
      | (Inl (CartRefused code), c') \<Rightarrow> (Inr False, c')
      | (Inl e, c') \<Rightarrow> (Inl e, c'))"

definition known_header :: "'c multi64 \<Rightarrow> octets option" where
  "known_header m = map_option (take ROM_HEADER) (mu_rom_pages m 0)"

definition rom_changed :: "'c link_ops \<Rightarrow> 'c multi64 \<Rightarrow> 'c multi64" where
  "rom_changed ops m =
     (case lk_connect ops (mu_link m) of
        (ok, c) \<Rightarrow>
          m\<lparr>mu_link := (if ok then c else lk_forbid_copy ops c),
            mu_reconnects := mu_reconnects m + (if ok then 1 else 0),
            mu_missed := False, mu_rom_pages := (\<lambda>_. None),
            mu_generation := mu_generation m + 1, mu_watch_on_cart := False\<rparr>)"

definition recheck_rom :: "'c link_ops \<Rightarrow> 'c multi64 \<Rightarrow> 'c multi64" where
  "recheck_rom ops m =
     (case known_header m of
        None \<Rightarrow> m\<lparr>mu_missed := False\<rparr>
      | Some known \<Rightarrow>
          (case same_rom ops known (mu_link m) of
             (Inr True, c) \<Rightarrow> m\<lparr>mu_link := c, mu_missed := False\<rparr>
           | (Inr False, c) \<Rightarrow> rom_changed ops (m\<lparr>mu_link := c\<rparr>)
           | (Inl _, c) \<Rightarrow> m\<lparr>mu_link := c\<rparr>))"

definition answering :: "'c link_ops \<Rightarrow> 'c multi64 \<Rightarrow> 'c multi64" where
  "answering ops m =
     (let m1 = m\<lparr>mu_quiet_probes := 0\<rparr>;
          m2 = (if mu_missed m1 then recheck_rom ops m1 else m1)
      in if mu_ailing m2 then m2\<lparr>mu_ailing := False, mu_health := mu_health m2 @ [True]\<rparr> else m2)"

definition not_answering :: "'c multi64 \<Rightarrow> 'c multi64" where
  "not_answering m =
     (if mu_ailing m then m else m\<lparr>mu_ailing := True, mu_health := mu_health m @ [False]\<rparr>)"

subsection \<open>Retrying\<close>

text \<open>\<open>op\<close> works on the link and on state of its own, which the closures of the source capture.\<close>

type_synonym ('c, 's, 'a) cart_op = "'s \<Rightarrow> 'c \<Rightarrow> (cart_err + 'a) \<times> 's \<times> 'c"
type_synonym ('c, 's, 'a) cart_res = "(cart_err + 'a) \<times> 's \<times> 'c multi64"

text \<open>The loop on the same transport: \<open>Inl\<close> returns from \<open>with_retry\<close>, \<open>Inr\<close> breaks out of it.\<close>

partial_function (option) soft_phase ::
  "'c link_ops \<Rightarrow> ('c, 's, 'a) cart_op \<Rightarrow> nat \<Rightarrow> nat \<Rightarrow> 's \<Rightarrow> 'c multi64 \<Rightarrow>
     (('c, 's, 'a) cart_res + cart_err \<times> 's \<times> 'c multi64) option" where
  "soft_phase ops op busy_until timeouts s m =
     (case op s (mu_link m) of
        (Inr v, s', c) \<Rightarrow>
          (let m1 = m\<lparr>mu_link := c, mu_stalls := mu_stalls m + (if 0 < timeouts then 1 else 0)\<rparr>
           in Some (Inl (Inr v, s', answering ops m1)))
      | (Inl e, s', c) \<Rightarrow>
          (let m1 = m\<lparr>mu_link := c\<rparr> in
           if is_refused e then Some (Inl (Inl e, s', answering ops m1))
           else if e = LinkRestarted then
             Some (Inl (Inl e, s', answering ops (rom_changed ops m1)))
           else if e = CartIo WouldBlock \<and> lk_now ops c < busy_until then
             (let m2 = m1\<lparr>mu_link := lk_wait ops BUSY_WAIT c\<rparr> in
              if give_up ops m2 then Some (Inl (Inl CartStopped, s', m2))
              else soft_phase ops op busy_until timeouts s' m2)
           else if e = CartIo TimedOut \<and> timeouts < mu_soft_retries m then
             (let m2 = m1\<lparr>mu_missed := True\<rparr> in
              if give_up ops m2 then Some (Inl (Inl CartStopped, s', m2))
              else soft_phase ops op busy_until (timeouts + 1) s' m2)
           else Some (Inr (e, s', m1))))"

text \<open>A rebuilt link: nothing read from the old one is kept.\<close>

definition relinked :: "'c \<Rightarrow> 'c multi64 \<Rightarrow> 'c multi64" where
  "relinked c m =
     m\<lparr>mu_link := c, mu_reconnects := mu_reconnects m + 1, mu_rom_pages := (\<lambda>_. None),
       mu_generation := mu_generation m + 1, mu_missed := False\<rparr>"

partial_function (option) reconnect_phase ::
  "'c link_ops \<Rightarrow> retry \<Rightarrow> ('c, 's, 'a) cart_op \<Rightarrow> nat \<Rightarrow> nat \<Rightarrow> 's \<Rightarrow> 'c multi64 \<Rightarrow>
     ('c, 's, 'a) cart_res option" where
  "reconnect_phase ops retry op deadline wait s m =
     (if give_up ops m then Some (Inl CartStopped, s, m)
      else if deadline \<le> lk_now ops (mu_link m) then Some (Inl CartGaveUp, s, m)
      else
        let c1 = lk_wait ops wait (mu_link m); wait' = min (wait * 2) RECONNECT_BACKOFF_MAX in
        case lk_connect ops c1 of
          (ok, c) \<Rightarrow>
            if \<not> ok then reconnect_phase ops retry op deadline wait' s (m\<lparr>mu_link := c\<rparr>)
            else (let m1 = relinked c m in
             if give_up ops m1 then Some (Inl CartStopped, s, m1)
             else
               let m2 = m1\<lparr>mu_watch_on_cart := False\<rparr> in
               if retry = Once then Some (Inl LinkRestarted, s, answering ops m2)
               else case op s (mu_link m2) of
                 (Inr v, s', c') \<Rightarrow> Some (Inr v, s', answering ops (m2\<lparr>mu_link := c'\<rparr>))
               | (Inl e, s', c') \<Rightarrow>
                   (if is_refused e
                    then Some (Inl e, s', answering ops (m2\<lparr>mu_link := c'\<rparr>))
                    else reconnect_phase ops retry op deadline wait' s' (m2\<lparr>mu_link := c'\<rparr>))))"

definition with_retry ::
  "'c link_ops \<Rightarrow> retry \<Rightarrow> ('c, 's, 'a) cart_op \<Rightarrow> 's \<Rightarrow> 'c multi64 \<Rightarrow> ('c, 's, 'a) cart_res option" where
  "with_retry ops retry op s m =
     (let busy_until = lk_now ops (mu_link m) + REPLY_TIMEOUT * (mu_soft_retries m + 1) in
      case soft_phase ops op busy_until 0 s m of
        None \<Rightarrow> None
      | Some (Inl res) \<Rightarrow> Some res
      | Some (Inr (e, s', m')) \<Rightarrow>
          reconnect_phase ops retry op (lk_now ops (mu_link m') + mu_reconnect_deadline m') 250 s'
            (not_answering m'))"

subsection \<open>Writing at most once\<close>

definition poke_op ::
  "'c link_ops \<Rightarrow> octets option \<Rightarrow> mem_write list \<Rightarrow> ('c, u16 option, unit) cart_op" where
  "poke_op ops known batch sent c =
     (case sent of
        None \<Rightarrow>
          (case lk_send_poke ops batch c of
             (Inl e, c') \<Rightarrow> (Inl e, None, c')
           | (Inr rid, c') \<Rightarrow>
               (case lk_await_poke ops rid (length batch) c' of (r, c'') \<Rightarrow> (r, Some rid, c'')))
      | Some rid \<Rightarrow>
          (if lk_poke_once ops c then
             (case (case known of None \<Rightarrow> (Inr True, c) | Some k \<Rightarrow> same_rom ops k c) of
                (Inl e, c1) \<Rightarrow> (Inl e, sent, c1)
              | (Inr False, c1) \<Rightarrow> (Inl LinkRestarted, sent, c1)
              | (Inr True, c1) \<Rightarrow>
                  (case lk_resend_poke ops rid batch c1 of
                     (Inl e, c2) \<Rightarrow> (Inl e, sent, c2)
                   | (Inr _, c2) \<Rightarrow>
                       (case lk_await_poke ops rid (length batch) c2 of (r, c3) \<Rightarrow> (r, sent, c3))))
           else (case lk_await_poke ops rid (length batch) c of (r, c') \<Rightarrow> (r, sent, c'))))"

definition poke_once ::
  "'c link_ops \<Rightarrow> mem_write list \<Rightarrow> 'c multi64 \<Rightarrow> ((cart_err + unit) \<times> 'c multi64) option" where
  "poke_once ops batch m =
     (if batch = [] then Some (Inr (), m)
      else map_option (\<lambda>(r, s, m'). (r, m'))
        (with_retry ops Once (poke_op ops (known_header m) batch) None m))"

subsection \<open>What the agent does with a write\<close>

text \<open>What goes to the cart, as far as a write is concerned: a \<open>POKEV\<close> under some rid, any other M64P
  request, and a \<open>HELLO\<close>. A copy is a \<open>POKEV\<close> under a rid that went before.\<close>

datatype wire_ev = WriteReq u16 | OtherReq | HelloReq

text \<open>How often an agent with bit 3 applies the writes it is sent, holding the rid of the request it
  served last if that was a write (\<open>m64p_handle\<close> of the agent).\<close>

fun agent_applies :: "u16 option \<Rightarrow> wire_ev list \<Rightarrow> nat" where
  "agent_applies held [] = 0"
| "agent_applies held (WriteReq r # es) =
     (if held = Some r then agent_applies held es else Suc (agent_applies (Some r) es))"
| "agent_applies held (OtherReq # es) = agent_applies None es"
| "agent_applies held (HelloReq # es) = agent_applies None es"

definition same_write :: "u16 \<Rightarrow> wire_ev list \<Rightarrow> bool" where
  "same_write r es \<longleftrightarrow> set es \<subseteq> {WriteReq r}"

definition no_write :: "wire_ev list \<Rightarrow> bool" where
  "no_write es \<longleftrightarrow> set es \<subseteq> {OtherReq, HelloReq}"

lemma no_write_append [simp]: "no_write (xs @ ys) \<longleftrightarrow> no_write xs \<and> no_write ys"
  and no_write_Nil [simp]: "no_write []"
  and same_write_append [simp]: "same_write r (xs @ ys) \<longleftrightarrow> same_write r xs \<and> same_write r ys"
  and same_write_Nil [simp]: "same_write r []"
  by (auto simp: no_write_def same_write_def)

lemma agent_applies_no_write: "no_write es \<Longrightarrow> agent_applies held es = 0"
  by (induction held es rule: agent_applies.induct) (auto simp: no_write_def)

lemma agent_applies_held:
  "same_write r xs \<Longrightarrow> no_write ys \<Longrightarrow> agent_applies (Some r) (xs @ ys) = 0"
proof (induction xs)
  case Nil
  then show ?case by (simp add: agent_applies_no_write)
next
  case (Cons x xs)
  then show ?case by (auto simp: same_write_def)
qed

lemma agent_applies_once:
  "same_write r xs \<Longrightarrow> no_write ys \<Longrightarrow> agent_applies held (xs @ ys) \<le> 1"
proof (cases xs)
  case Nil
  then show "no_write ys \<Longrightarrow> ?thesis" by (simp add: agent_applies_no_write)
next
  case (Cons x xs')
  assume "same_write r xs" "no_write ys"
  then have "x = WriteReq r" "same_write r xs'" by (auto simp: same_write_def Cons)
  with agent_applies_held [OF this(2) \<open>no_write ys\<close>] show ?thesis by (auto simp: Cons)
qed

lemma subseq_once:
  assumes "subseq ds (xs @ ys)" "same_write r xs" "no_write ys"
  shows "agent_applies held ds \<le> 1"
proof -
  obtain xs' ys' where ds: "ds = xs' @ ys'" "subseq xs' xs" "subseq ys' ys"
    using assms(1) by (auto simp: subseq_append_iff)
  have sub: "set us \<subseteq> set vs" if "subseq us vs" for us vs :: "wire_ev list"
    using that by (auto elim: list_emb_set)
  have "same_write r xs'" "no_write ys'"
    using sub [OF ds(2)] sub [OF ds(3)] assms(2,3) by (auto simp: same_write_def no_write_def)
  then show ?thesis unfolding ds(1) by (rule agent_applies_once)
qed

text \<open>The transport's operations, by what they put on the wire. \<open>owns rid\<close> says that the request
  waiting for its answer, if there is one, is the write sent as \<open>rid\<close>.\<close>

locale poke_link =
  fixes ops :: "'c link_ops"
    and wire :: "'c \<Rightarrow> wire_ev list"
    and owns :: "u16 \<Rightarrow> 'c \<Rightarrow> bool"
  assumes wait_wire: "wire (lk_wait ops n c) = wire c"
    and wait_owns: "owns rid (lk_wait ops n c) = owns rid c"
    and forbid_wire: "wire (lk_forbid_copy ops c) = wire c"
    and connect_wire: "lk_connect ops c = (ok, c') \<Longrightarrow> \<exists>k. wire c' = wire c @ replicate k HelloReq"
    and rom_wire: "lk_peek_rom ops rs c = (res, c') \<Longrightarrow> \<exists>k. wire c' = wire c @ replicate k OtherReq"
    and send_wire: "lk_send_poke ops b c = (Inr rid, c') \<Longrightarrow> wire c' = wire c @ [WriteReq rid] \<and> owns rid c'"
    and send_fails: "lk_send_poke ops b c = (Inl e, c') \<Longrightarrow>
      e = CartIo OtherKind \<and> (wire c' = wire c \<or> (\<exists>rid. wire c' = wire c @ [WriteReq rid]))"
    and resend_wire: "lk_resend_poke ops rid b c = (res2, c') \<Longrightarrow>
      (wire c' = wire c \<or> wire c' = wire c @ [WriteReq rid]) \<and> (owns rid c \<longrightarrow> owns rid c')"
    and await_wire: "lk_await_poke ops rid n c = (res3, c') \<Longrightarrow> owns rid c \<Longrightarrow>
      (\<exists>k. wire c' = wire c @ replicate k (WriteReq rid)) \<and> owns rid c'"
begin

definition adds :: "(wire_ev list \<Rightarrow> bool) \<Rightarrow> 'c \<Rightarrow> 'c \<Rightarrow> bool" where
  "adds P c c' \<longleftrightarrow> (\<exists>es. wire c' = wire c @ es \<and> P es)"

lemma adds_refl: "adds no_write c c" and adds_same_refl: "adds (same_write r) c c"
  by (simp_all add: adds_def)

lemma adds_trans: "adds no_write c c' \<Longrightarrow> adds no_write c' c'' \<Longrightarrow> adds no_write c c''"
  unfolding adds_def by (metis append.assoc no_write_append)

lemma adds_same_trans:
  "adds (same_write r) c c' \<Longrightarrow> adds (same_write r) c' c'' \<Longrightarrow> adds (same_write r) c c''"
  unfolding adds_def by (metis append.assoc same_write_append)

lemma connect_adds: "lk_connect ops c = (ok, c') \<Longrightarrow> adds no_write c c'"
  using connect_wire [of c ok c'] by (auto simp: adds_def no_write_def)

lemma same_rom_adds: "same_rom ops k c = (r, c') \<Longrightarrow> adds no_write c c'"
  using rom_wire by (fastforce simp: same_rom_def adds_def no_write_def split: prod.splits sum.splits cart_err.splits)

lemma rom_changed_adds: "adds no_write (mu_link m) (mu_link (rom_changed ops m))"
proof -
  obtain ok c where c: "lk_connect ops (mu_link m) = (ok, c)" by fastforce
  from connect_adds [OF c] c show ?thesis
    by (auto simp: rom_changed_def adds_def forbid_wire)
qed

lemma recheck_rom_adds: "adds no_write (mu_link m) (mu_link (recheck_rom ops m))"
proof (cases "known_header m")
  case None
  then show ?thesis by (simp add: recheck_rom_def adds_refl)
next
  case (Some k)
  obtain r c where c: "same_rom ops k (mu_link m) = (r, c)" by fastforce
  note a = same_rom_adds [OF c]
  from a rom_changed_adds [of "m\<lparr>mu_link := c\<rparr>"] Some c show ?thesis
    by (auto simp: recheck_rom_def intro: adds_trans split: sum.split bool.split)
qed

lemma answering_adds: "adds no_write (mu_link m) (mu_link (answering ops m))"
  using recheck_rom_adds [of "m\<lparr>mu_quiet_probes := 0\<rparr>"]
  by (auto simp: answering_def Let_def adds_refl)

text \<open>One try of the write when the ROM header is not known: nothing but copies of it goes out.\<close>

definition owns_sent :: "u16 option \<Rightarrow> 'c \<Rightarrow> bool" where
  "owns_sent s c \<longleftrightarrow> (\<forall>rid. s = Some rid \<longrightarrow> owns rid c)"

lemma poke_op_adds:
  assumes "poke_op ops None b s c = (r, s', c')" "owns_sent s c"
  shows "owns_sent s' c' \<and>
   ((s' = None \<and> s = None \<and> r = Inl (CartIo OtherKind) \<and> (\<exists>rid. adds (same_write rid) c c')) \<or>
    (\<exists>rid. s' = Some rid \<and> (s = None \<or> s = Some rid) \<and> adds (same_write rid) c c'))"
proof (cases s)
  case None
  obtain r1 c1 where send: "lk_send_poke ops b c = (r1, c1)" by fastforce
  show ?thesis
  proof (cases r1)
    case (Inl e)
    with send_fails [of b c e c1] send None assms show ?thesis
      by (auto simp: poke_op_def adds_def same_write_def owns_sent_def)
  next
    case (Inr rid)
    obtain r2 c2 where aw: "lk_await_poke ops rid (length b) c1 = (r2, c2)" by fastforce
    from send_wire [of b c rid c1] await_wire [OF aw] send aw None Inr assms show ?thesis
      by (auto simp: poke_op_def adds_def same_write_def owns_sent_def)
  qed
next
  case (Some rid)
  obtain r1 c1 where re: "lk_resend_poke ops rid b c = (r1, c1)" by fastforce
  obtain r2 c2 where aw1: "lk_await_poke ops rid (length b) c1 = (r2, c2)" by fastforce
  obtain r3 c3 where aw: "lk_await_poke ops rid (length b) c = (r3, c3)" by fastforce
  from resend_wire [OF re] await_wire [OF aw1] await_wire [OF aw] re aw1 aw Some assms show ?thesis
    by (auto simp: poke_op_def adds_def same_write_def owns_sent_def split: if_splits sum.splits)
qed

text \<open>The loop on one transport, then the reconnect: the copies of the write come first.\<close>

definition wrote_once :: "'c \<Rightarrow> 'c \<Rightarrow> bool" where
  "wrote_once c c' \<longleftrightarrow>
     (\<exists>rid xs ys. wire c' = wire c @ xs @ ys \<and> same_write rid xs \<and> no_write ys)"

lemma wrote_once_then: "adds (same_write rid) c c' \<Longrightarrow> adds no_write c' c'' \<Longrightarrow> wrote_once c c''"
  unfolding adds_def wrote_once_def by (metis append.assoc)

lemma wrote_once_calm: "wrote_once c c' \<Longrightarrow> adds no_write c' c'' \<Longrightarrow> wrote_once c c''"
  unfolding adds_def wrote_once_def by (metis append.assoc no_write_append)

lemma adds_wrote_once: "adds (same_write rid) c c' \<Longrightarrow> wrote_once c c'"
  using wrote_once_then adds_refl by blast

definition soft_start :: "'c \<Rightarrow> u16 option \<Rightarrow> 'c \<Rightarrow> bool" where
  "soft_start c0 s c \<longleftrightarrow>
     owns_sent s c \<and> (case s of None \<Rightarrow> wire c = wire c0 | Some rid \<Rightarrow> adds (same_write rid) c0 c)"

lemma soft_start_op:
  assumes "soft_start c0 s c" "poke_op ops None b s c = (r, s', c')"
  shows "wrote_once c0 c' \<and>
    (r \<noteq> Inl (CartIo OtherKind) \<longrightarrow> soft_start c0 s' c')"
proof (cases s)
  case None
  then have "wire c = wire c0" using assms(1) by (simp add: soft_start_def)
  then have "adds P c c' = adds P c0 c'" for P by (simp add: adds_def)
  moreover have "owns_sent s c" using None by (simp add: owns_sent_def)
  ultimately show ?thesis using poke_op_adds [OF assms(2)] None
    by (auto simp: soft_start_def intro: adds_wrote_once)
next
  case (Some rid)
  then have "adds (same_write rid) c0 c" "owns_sent s c" using assms(1) by (simp_all add: soft_start_def)
  moreover have "s' = Some rid" "adds (same_write rid) c c'" "owns_sent s' c'"
    using poke_op_adds [OF assms(2) \<open>owns_sent s c\<close>] Some by auto
  ultimately have "adds (same_write rid) c0 c'" by (blast intro: adds_same_trans)
  with \<open>s' = Some rid\<close> \<open>owns_sent s' c'\<close> show ?thesis by (auto simp: soft_start_def intro: adds_wrote_once)
qed

lemma soft_phase_once:
  assumes "soft_phase ops' opn bu t s m = Some res"
  shows "ops' = ops \<longrightarrow> opn = poke_op ops None b \<longrightarrow> soft_start c0 s (mu_link m) \<longrightarrow>
    (case res of Inl (r, s', m') \<Rightarrow> wrote_once c0 (mu_link m')
     | Inr (e, s', m') \<Rightarrow> wrote_once c0 (mu_link m'))"
proof (rule soft_phase.raw_induct [OF _ assms], goal_cases)
  case (1 loop ops' opn bu t s m res)
  show ?case
  proof (intro impI)
    assume opn: "ops' = ops" "opn = poke_op ops None b" and start: "soft_start c0 s (mu_link m)"
    obtain r s' c where run: "poke_op ops None b s (mu_link m) = (r, s', c)" by (metis prod_cases3)
    note here = soft_start_op [OF start run]
    have ans: "wrote_once c0 (mu_link (answering ops m1))" if "mu_link m1 = c" for m1
      using wrote_once_calm [OF _ answering_adds [of m1]] here that by simp
    have chg: "wrote_once c0 (mu_link (answering ops (rom_changed ops m1)))" if "mu_link m1 = c" for m1
      using wrote_once_calm [OF wrote_once_calm [OF _ rom_changed_adds [of m1]] answering_adds] here that
      by simp
    have waited: "soft_start c0 s' (lk_wait ops n c)" "wrote_once c0 (lk_wait ops n c)"
      if "r \<noteq> Inl (CartIo OtherKind)" for n
      using here that by (auto simp: soft_start_def wrote_once_def adds_def wait_wire owns_sent_def wait_owns split: option.splits)
    show "case res of Inl (r, s', m') \<Rightarrow> wrote_once c0 (mu_link m')
        | Inr (e, s', m') \<Rightarrow> wrote_once c0 (mu_link m')"
    proof (cases r)
      case (Inr v)
      with 1(2) opn run ans show ?thesis by (auto simp: Let_def)
    next
      case (Inl e)
      show ?thesis
        using 1(2) opn run ans chg waited here Inl 1(1) [rule_format, OF _ opn(1) opn(2)]
        by (auto simp: Let_def split: if_splits)
    qed
  qed
qed

lemma reconnect_phase_calm:
  assumes "reconnect_phase ops' retry opn dl w s m = Some (r, s', m')"
  shows "ops' = ops \<longrightarrow> retry = Once \<longrightarrow> adds no_write (mu_link m) (mu_link m')"
proof -
  have "ops' = ops \<longrightarrow> retry = Once \<longrightarrow> adds no_write (mu_link m) (mu_link (snd (snd (r, s', m'))))"
  proof (rule reconnect_phase.raw_induct [OF _ assms], goal_cases)
    case (1 loop ops' retry opn dl w s m res)
    show ?case
    proof (intro impI)
      assume opn: "ops' = ops" "retry = Once"
      let ?c1 = "lk_wait ops w (mu_link m)"
      obtain ok c where c: "lk_connect ops ?c1 = (ok, c)" by fastforce
      have a: "adds no_write (mu_link m) c"
        using connect_adds [OF c] by (auto simp: adds_def wait_wire)
      have ans: "adds no_write (mu_link m) (mu_link (answering ops m1))" if "mu_link m1 = c" for m1
        using adds_trans [OF _ answering_adds [of m1]] a that by simp
      have loop: "adds no_write (mu_link m) (mu_link (snd (snd res)))"
        if "loop ops Once opn dl (min (w * 2) RECONNECT_BACKOFF_MAX) s (m\<lparr>mu_link := c\<rparr>) = Some res"
        using 1(1) [OF that] adds_trans [OF a] by simp
      show "adds no_write (mu_link m) (mu_link (snd (snd res)))"
        using 1(2) opn c a ans loop adds_refl
        by (auto simp: Let_def relinked_def split: if_splits)
    qed
  qed
  then show ?thesis by simp
qed

lemma poke_once_wire:
  assumes "known_header m = None" "poke_once ops b m = Some (r, m')"
  shows "wrote_once (mu_link m) (mu_link m')"
proof (cases "b = []")
  case True
  with assms(2) show ?thesis by (auto simp: poke_once_def intro: adds_wrote_once adds_same_refl)
next
  case False
  then obtain s' where retry: "with_retry ops Once (poke_op ops None b) None m = Some (r, s', m')"
    using assms by (auto simp: poke_once_def)
  let ?bu = "lk_now ops (mu_link m) + REPLY_TIMEOUT * (mu_soft_retries m + 1)"
  have start: "soft_start (mu_link m) None (mu_link m)" by (simp add: soft_start_def owns_sent_def)
  obtain res where soft: "soft_phase ops (poke_op ops None b) ?bu 0 None m = Some res"
    using retry by (auto simp: with_retry_def Let_def split: option.splits)
  note once = soft_phase_once [OF soft, rule_format, OF refl refl start]
  show ?thesis
  proof (cases res)
    case (Inl x)
    with once soft retry show ?thesis by (auto simp: with_retry_def Let_def)
  next
    case (Inr y)
    obtain e s1 m1 where y: "y = (e, s1, m1)" by (metis prod_cases3)
    have rec: "reconnect_phase ops Once (poke_op ops None b)
        (lk_now ops (mu_link m1) + mu_reconnect_deadline m1) 250 s1 (not_answering m1) = Some (r, s', m')"
      using retry soft Inr y by (simp add: with_retry_def Let_def)
    from reconnect_phase_calm [OF rec] have "adds no_write (mu_link m1) (mu_link m')"
      by (simp add: not_answering_def split: if_splits)
    with once Inr y show ?thesis by (auto intro: wrote_once_calm)
  qed
qed

lemma poke_at_most_once:
  assumes "known_header m = None" "poke_once ops b m = Some (r, m')"
  shows "\<exists>es. wire (mu_link m') = wire (mu_link m) @ es \<and>
    (\<forall>held ds. subseq ds es \<longrightarrow> agent_applies held ds \<le> 1)"
  using poke_once_wire [OF assms] subseq_once unfolding wrote_once_def by metis

end

subsection \<open>A console behind a lossy link\<close>

text \<open>
  An agent built with the repeated-write switch, as \<open>m64p_handle\<close> of the agent's
  \<open>mem_proto.c\<close> serves requests, behind a link that may lose a request or its reply: \<open>cl_script\<close>
  says for each exchange whether the request arrives and whether its reply does, and past its end
  everything does. \<open>cl_applied\<close> are the writes that reached memory.
\<close>

record console_link =
  cl_now :: nat
  cl_script :: "(bool \<times> bool) list"
  cl_next_rid :: u16
  cl_reply :: bool
  cl_rom :: octets
  cl_held :: "u16 option"
  cl_applied :: "u16 list"
  cl_wire :: "wire_ev list"

definition console_new :: "(bool \<times> bool) list \<Rightarrow> octets \<Rightarrow> console_link" where
  "console_new script rom =
     \<lparr>cl_now = 0, cl_script = script, cl_next_rid = 1, cl_reply = False, cl_rom = rom, cl_held = None,
      cl_applied = [], cl_wire = []\<rparr>"

fun agent_serve :: "wire_ev \<Rightarrow> console_link \<Rightarrow> console_link" where
  "agent_serve (WriteReq r) c =
     (if cl_held c = Some r then c else c\<lparr>cl_held := Some r, cl_applied := cl_applied c @ [r]\<rparr>)"
| "agent_serve OtherReq c = c\<lparr>cl_held := None\<rparr>"
| "agent_serve HelloReq c = c\<lparr>cl_held := None\<rparr>"

definition transmit :: "wire_ev \<Rightarrow> console_link \<Rightarrow> console_link" where
  "transmit ev c =
     (let (arrives, answered) = (case cl_script c of [] \<Rightarrow> (True, True) | x # _ \<Rightarrow> x);
          c1 = c\<lparr>cl_script := tl (cl_script c), cl_wire := cl_wire c @ [ev],
                 cl_reply := arrives \<and> answered\<rparr>
      in if arrives then agent_serve ev c1 else c1)"

definition await_reply :: "console_link \<Rightarrow> (cart_err + unit) \<times> console_link" where
  "await_reply c =
     (if cl_reply c then (Inr (), c\<lparr>cl_reply := False, cl_now := cl_now c + 47\<rparr>)
      else (Inl (CartIo TimedOut), c\<lparr>cl_now := cl_now c + REPLY_TIMEOUT\<rparr>))"

definition console_ops :: "console_link link_ops" where
  "console_ops =
     \<lparr>lk_now = cl_now, lk_wait = (\<lambda>n c. c\<lparr>cl_now := cl_now c + n\<rparr>), lk_cancelled = (\<lambda>c. False),
      lk_connect = (\<lambda>c. case await_reply (transmit HelloReq c) of (r, c') \<Rightarrow> (r = Inr (), c')),
      lk_poke_once = (\<lambda>c. True), lk_forbid_copy = (\<lambda>c. c), lk_watch_slots = (\<lambda>c. None),
      lk_rdram = (\<lambda>c. 0x800000), lk_rom_bytes = (\<lambda>c. Some (of_nat (length (cl_rom c)))),
      lk_peek = (\<lambda>rs c. case await_reply (transmit OtherReq c) of
         (Inl e, c') \<Rightarrow> (Inl e, c') | (Inr _, c') \<Rightarrow> (Inr (reply_of (\<lambda>_. 0) rs), c')),
      lk_peek_rom = (\<lambda>rs c. case await_reply (transmit OtherReq c) of
         (Inl e, c') \<Rightarrow> (Inl e, c')
       | (Inr _, c') \<Rightarrow>
           (Inr (map (\<lambda>r. take (unat (rg_len r)) (drop (unat (rg_addr r)) (cl_rom c))) rs), c')),
      lk_watch = (\<lambda>ss c. case await_reply (transmit OtherReq c) of
         (Inl e, c') \<Rightarrow> (Inl e, c') | (Inr _, c') \<Rightarrow> (Inr 0, c')),
      lk_take_events = (\<lambda>c. (([], 0), c)),
      lk_send_poke = (\<lambda>b c. let rid = cl_next_rid c in
         (Inr rid, transmit (WriteReq rid) (c\<lparr>cl_next_rid := rid + 1\<rparr>))),
      lk_resend_poke = (\<lambda>rid b c. (Inr (), transmit (WriteReq rid) c)),
      lk_await_poke = (\<lambda>rid n c. await_reply c)\<rparr>"

lemma cl_wire_transmit [simp]: "cl_wire (transmit ev c) = cl_wire c @ [ev]"
proof -
  have "cl_wire (agent_serve ev d) = cl_wire d" for d by (cases ev) simp_all
  then show ?thesis by (simp add: transmit_def Let_def split: prod.split list.split)
qed

lemma cl_wire_await: "await_reply c = (r, c') \<Longrightarrow> cl_wire c' = cl_wire c"
  by (auto simp: await_reply_def split: if_splits)

interpretation console: poke_link console_ops cl_wire "\<lambda>rid c. True"
proof -
  have one: "\<exists>k. [ev] = replicate k ev" for ev :: wire_ev by (rule exI [of _ 1]) simp
  have nil: "\<exists>k. [] = replicate k ev" for ev :: wire_ev by (rule exI [of _ 0]) simp
  show "poke_link console_ops cl_wire (\<lambda>rid c. True)"
    by unfold_locales
      (auto simp: console_ops_def Let_def cl_wire_await one nil dest!: cl_wire_await
        split: prod.splits sum.splits)
qed

text \<open>C17: A write lands at most once, as long as the ROM header has not been read on this link. Over any
  transport that puts on the wire what the operations say, whatever \<open>poke_once\<close> does about
  silences, copies and reconnects, an agent that recognizes a repeated write applies this one at
  most once, whichever of the requests reach it.\<close>

theorem poke_lands_at_most_once:
  assumes "poke_link ops wire owns" and "known_header m = None" and "poke_once ops batch m = Some (r, m')"
  shows "\<exists>es. wire (mu_link m') = wire (mu_link m) @ es \<and>
    (\<forall>held ds. subseq ds es \<longrightarrow> agent_applies held ds \<le> 1)"
  by (rule poke_link.poke_at_most_once [OF assms])

text \<open>Three exchanges: the write arrives and its reply is lost, then the next two are answered.\<close>

definition lost_reply :: "(bool \<times> bool) list" where
  "lost_reply = [(True, False), (True, True), (True, True)]"

lemmas console_eval = poke_once_def with_retry_def soft_phase.simps poke_op_def console_ops_def
  multi64_connect_def known_header_def transmit_def await_reply_def give_up_def answering_def
  recheck_rom_def same_rom_def console_new_def lost_reply_def SOFT_RETRIES_def REPLY_TIMEOUT_def
  ROM_HEADER_def Let_def

theorem poke_lands_at_most_once_witness:
  "\<exists>m'. poke_once console_ops [(0x1000, [1])] (multi64_connect (console_new lost_reply (replicate 64 7))) =
      Some (Inr (), m') \<and> cl_applied (mu_link m') = [1] \<and>
    (\<exists>es. cl_wire (mu_link m') = [] @ es \<and> (\<forall>held ds. subseq ds es \<longrightarrow> agent_applies held ds \<le> 1))"
proof -
  let ?m = "multi64_connect (console_new lost_reply (replicate 64 7))"
  have "\<exists>m'. poke_once console_ops [(0x1000, [1])] ?m = Some (Inr (), m') \<and> cl_applied (mu_link m') = [1]"
    by (simp add: console_eval)
  moreover have "known_header ?m = None" by (simp add: multi64_connect_def known_header_def)
  moreover have "cl_wire (mu_link ?m) = []" by (simp add: multi64_connect_def console_new_def)
  ultimately show ?thesis using poke_lands_at_most_once [OF console.poke_link_axioms] by metis
qed

text \<open>C39: Once the ROM header has been read, the guarantee is gone. A write whose reply is lost is
  followed by a read of the header, which ends the agent's hold on the write, and only then by the
  copy, which the agent applies again: one call of \<open>poke_once\<close>, one lost reply, two writes, and
  \<open>Ok\<close> returned.\<close>

theorem poke_lands_twice_after_header_check:
  "\<exists>m'. poke_once console_ops [(0x1000, [1])]
        ((multi64_connect (console_new lost_reply (replicate 64 7)))
           \<lparr>mu_rom_pages := (\<lambda>p. if p = 0 then Some (replicate 64 7) else None)\<rparr>) =
      Some (Inr (), m') \<and>
    cl_wire (mu_link m') = [WriteReq 1, OtherReq, WriteReq 1, OtherReq] \<and>
    cl_applied (mu_link m') = [1, 1]"
  by (simp add: console_eval)

end
