(* ===== verification/Backend_Memory.thy ===== *)
theory Backend_Memory
  imports Backend_Link
begin

text \<open>
  Memory as a connector sees it (\<open>crates/ap64-cart/src/backend.rs\<close>): the contract of the \<open>Backend\<close>
  trait for RDRAM, the image backend \<open>RamImage\<close>, and the reads, writes and the watch of \<open>Multi64\<close>
  over \<open>with_retry\<close>. A result \<open>None\<close> is a call that does not return, or a panic.
\<close>

subsection \<open>The contract\<close>

definition spans :: "(nat \<Rightarrow> u8) \<Rightarrow> (u32 \<times> nat) list \<Rightarrow> octets list" where
  "spans f rs = map (\<lambda>(a, n). bytes_at f (unat a) n) rs"

locale memory_backend =
  fixes content :: "'b \<Rightarrow> nat \<Rightarrow> u8"
    and rdram :: "'b \<Rightarrow> nat"
    and read_many :: "(u32 \<times> nat) list \<Rightarrow> 'b \<Rightarrow> (io_kind + octets list) \<times> 'b"
    and write_many :: "mem_write list \<Rightarrow> 'b \<Rightarrow> (io_kind + unit) \<times> 'b"
  assumes read_keeps: "read_many rs b = (r, b') \<Longrightarrow> content b' = content b \<and> rdram b' = rdram b"
    and read_exact: "read_many rs b = (Inr out, b') \<Longrightarrow> out = spans (content b) rs"
    and read_bounds: "(a, n) \<in> set rs \<Longrightarrow> rdram b < unat a + n \<Longrightarrow> \<exists>e. fst (read_many rs b) = Inl e"
    and write_effect: "write_many ws b = (Inr u, b') \<Longrightarrow>
      content b' = apply_writes ws (content b) \<and> rdram b' = rdram b"
    and write_bounds: "w \<in> set ws \<Longrightarrow> \<not> within (rdram b) w \<Longrightarrow> write_many ws b = (res, b') \<Longrightarrow>
      res = Inl InvalidInput \<and> content b' = content b"
begin

lemma read_after_write:
  assumes "write_many [(a, d)] b = (Inr u, b1)" "read_many [(a, length d)] b1 = (Inr out, b2)"
  shows "out = [d]"
  using read_exact [OF assms(2)] write_effect [OF assms(1)] by (simp add: spans_def bytes_at_overlay)

lemma read_beside_write:
  assumes "write_many [(a, d)] b = (Inr u, b1)" "read_many [(x, n)] b1 = (Inr out, b2)"
    and "unat x + n \<le> unat a \<or> unat a + length d \<le> unat x"
  shows "out = spans (content b) [(x, n)]"
proof -
  have "bytes_at (overlay (content b) (unat a) d) (unat x) n = bytes_at (content b) (unat x) n"
    by (rule nth_equalityI) (use assms(3) in \<open>auto simp: overlay_def\<close>)
  with read_exact [OF assms(2)] write_effect [OF assms(1)] show ?thesis by (simp add: spans_def)
qed

end

subsection \<open>The image backend\<close>

record ram_image =
  ri_ram :: octets
  ri_rom :: "octets option"
  ri_watch :: "watch option"

definition ram_image_new :: "octets \<Rightarrow> ram_image" where
  "ram_image_new ram = \<lparr>ri_ram = ram, ri_rom = None, ri_watch = None\<rparr>"

definition ram_image_with_rom :: "octets \<Rightarrow> octets \<Rightarrow> ram_image" where
  "ram_image_with_rom ram rom = \<lparr>ri_ram = ram, ri_rom = Some rom, ri_watch = None\<rparr>"

text \<open>\<open>self.ram.len() as u32\<close>.\<close>

definition ri_rdram_size :: "ram_image \<Rightarrow> nat" where
  "ri_rdram_size b = length (ri_ram b) mod 2 ^ 32"

definition ri_at :: "ram_image \<Rightarrow> u32 \<Rightarrow> nat \<Rightarrow> io_kind + octets" where
  "ri_at b addr len =
     bind_result (check_in addr len (ri_rdram_size b))
       (\<lambda>_. Inr (slice (unat addr) (unat addr + len) (ri_ram b)))"

fun collect_results :: "('a \<Rightarrow> 'e + 'b) \<Rightarrow> 'a list \<Rightarrow> 'e + 'b list" where
  "collect_results f [] = Inr []"
| "collect_results f (x # xs) =
     bind_result (f x) (\<lambda>v. bind_result (collect_results f xs) (\<lambda>vs. Inr (v # vs)))"

definition ri_sample_watch :: "ram_image \<Rightarrow> (io_kind + unit) \<times> ram_image" where
  "ri_sample_watch b =
     (case ri_watch b of
        None \<Rightarrow> (Inr (), b)
      | Some w \<Rightarrow>
          (case ri_at b (wt_addr w) (wt_len w) of
             Inl e \<Rightarrow> (Inl e, b)
           | Inr bytes \<Rightarrow> (Inr (), b\<lparr>ri_watch := Some (observe bytes w)\<rparr>)))"

definition ri_read_many :: "(u32 \<times> nat) list \<Rightarrow> ram_image \<Rightarrow> (io_kind + octets list) \<times> ram_image" where
  "ri_read_many regions b =
     (let out = collect_results (\<lambda>(addr, len). ri_at b addr len) regions in
      case ri_sample_watch b of (Inl e, b') \<Rightarrow> (Inl e, b') | (Inr _, b') \<Rightarrow> (out, b'))"

fun copy_in :: "mem_write list \<Rightarrow> octets \<Rightarrow> octets" where
  "copy_in [] ram = ram"
| "copy_in ((addr, data) # ws) ram = copy_in ws (splice (unat addr) data ram)"

definition ri_write_many :: "mem_write list \<Rightarrow> ram_image \<Rightarrow> (io_kind + unit) \<times> ram_image" where
  "ri_write_many writes b =
     (case collect_results (\<lambda>(addr, data). check_in addr (length data) (ri_rdram_size b)) writes of
        Inl e \<Rightarrow> (Inl e, b)
      | Inr _ \<Rightarrow> (Inr (), b\<lparr>ri_ram := copy_in writes (ri_ram b)\<rparr>))"

definition ri_rom_window :: "ram_image \<Rightarrow> nat option" where
  "ri_rom_window b = map_option (\<lambda>r. length r mod 2 ^ 32) (ri_rom b)"

definition ri_read_rom_many :: "(u32 \<times> nat) list \<Rightarrow> ram_image \<Rightarrow> io_kind + octets list" where
  "ri_read_rom_many regions b =
     (case ri_rom b of
        None \<Rightarrow> Inl OtherKind
      | Some rom \<Rightarrow>
          collect_results
            (\<lambda>(addr, len). bind_result (check_in addr len (length rom mod 2 ^ 32))
               (\<lambda>_. Inr (slice (unat addr) (unat addr + len) rom))) regions)"

definition ri_take_watched :: "ram_image \<Rightarrow> octets option \<times> ram_image" where
  "ri_take_watched b =
     (case ri_watch b of
        None \<Rightarrow> (None, b)
      | Some w \<Rightarrow> (case take_change w of (v, w') \<Rightarrow> (v, b\<lparr>ri_watch := Some w'\<rparr>)))"

definition list_content :: "octets \<Rightarrow> nat \<Rightarrow> u8" where
  "list_content xs a = (if a < length xs then xs ! a else 0)"

lemma slice_list_content: "a + n \<le> length xs \<Longrightarrow> slice a (a + n) xs = bytes_at (list_content xs) a n"
  by (rule nth_equalityI) (auto simp: nth_slice list_content_def)

lemma list_content_splice:
  "a + length d \<le> length xs \<Longrightarrow> list_content (splice a d xs) = overlay (list_content xs) a d"
  by (auto simp: list_content_def overlay_def nth_splice length_splice fun_eq_iff)

lemma collect_results_Inr:
  "collect_results f xs = Inr ys \<longleftrightarrow> list_all2 (\<lambda>x y. f x = Inr y) xs ys"
  by (induction xs arbitrary: ys) (auto simp: bind_result_Inr_iff list_all2_Cons1)

lemma collect_results_Inl: "x \<in> set xs \<Longrightarrow> f x = Inl e \<Longrightarrow> \<exists>e'. collect_results f xs = Inl e'"
  by (induction xs) (auto, metis bind_result_simps old.sum.exhaust)

lemma copy_in_content:
  "\<forall>w \<in> set ws. unat (fst w) + length (snd w) \<le> length ram \<Longrightarrow>
   list_content (copy_in ws ram) = apply_writes ws (list_content ram) \<and> length (copy_in ws ram) = length ram"
  by (induction ws ram rule: copy_in.induct) (auto simp: list_content_splice length_splice)

lemma collect_check:
  "collect_results (\<lambda>(addr, data). check_in addr (length data) sz) ws =
     (if \<forall>w \<in> set ws. within sz w then Inr (map (\<lambda>_. ()) ws) else Inl InvalidInput)"
  by (induction ws) (auto simp: check_in_def within_def not_less)

interpretation ram: memory_backend "\<lambda>b. list_content (ri_ram b)" ri_rdram_size ri_read_many ri_write_many
proof unfold_locales
  fix rs :: "(u32 \<times> nat) list" and ws :: "mem_write list" and b b' :: ram_image and w :: mem_write
  fix a :: u32 and n :: nat
  have le: "ri_rdram_size b \<le> length (ri_ram b)" by (simp add: ri_rdram_size_def mod_less_eq_dividend)
  have at': "ri_at b x k = (if ri_rdram_size b < unat x + k then Inl InvalidInput
      else Inr (bytes_at (list_content (ri_ram b)) (unat x) k))" for x k
    using le by (simp add: ri_at_def check_in_def slice_list_content)
  show "list_content (ri_ram b') = list_content (ri_ram b) \<and> ri_rdram_size b' = ri_rdram_size b"
    if "ri_read_many rs b = (r, b')" for r
    using that by (auto simp: ri_read_many_def ri_sample_watch_def ri_rdram_size_def Let_def
        split: option.splits sum.splits prod.splits)
  show "out = spans (list_content (ri_ram b)) rs" if "ri_read_many rs b = (Inr out, b')" for out
  proof -
    from that have "collect_results (\<lambda>(addr, len). ri_at b addr len) rs = Inr out"
      by (auto simp: ri_read_many_def Let_def split: prod.splits sum.splits)
    then have "list_all2 (\<lambda>x y. (case x of (addr, len) \<Rightarrow> ri_at b addr len) = Inr y) rs out"
      by (simp add: collect_results_Inr)
    then show ?thesis
      by (induction rs out rule: list_all2_induct) (auto simp: spans_def at' split: if_splits)
  qed
  show "\<exists>e. fst (ri_read_many rs b) = Inl e"
    if "(a, n) \<in> set rs" "ri_rdram_size b < unat a + n"
  proof -
    have "(\<lambda>(addr, len). ri_at b addr len) (a, n) = Inl InvalidInput" using that(2) by (simp add: at')
    from collect_results_Inl [where f = "\<lambda>(addr, len). ri_at b addr len", OF that(1) this] show ?thesis
      by (auto simp: ri_read_many_def Let_def split: prod.split sum.split)
  qed
  show "list_content (ri_ram b') = apply_writes ws (list_content (ri_ram b)) \<and>
      ri_rdram_size b' = ri_rdram_size b"
    if "ri_write_many ws b = (Inr u, b')" for u
  proof -
    from that have "\<forall>w \<in> set ws. within (ri_rdram_size b) w" and b': "b' = b\<lparr>ri_ram := copy_in ws (ri_ram b)\<rparr>"
      by (auto simp: ri_write_many_def collect_check split: if_splits)
    then have "\<forall>w \<in> set ws. unat (fst w) + length (snd w) \<le> length (ri_ram b)"
      using le by (fastforce simp: within_def)
    from copy_in_content [OF this] show ?thesis by (simp add: b' ri_rdram_size_def)
  qed
  show "res = Inl InvalidInput \<and> list_content (ri_ram b') = list_content (ri_ram b)"
    if "w \<in> set ws" "\<not> within (ri_rdram_size b) w" "ri_write_many ws b = (res, b')" for res
  proof -
    have out: "\<not> (\<forall>w \<in> set ws. within (ri_rdram_size b) w)" using that(1,2) by blast
    show ?thesis using that(3) unfolding ri_write_many_def collect_check if_not_P [OF out] by simp
  qed
qed

subsection \<open>Reads over the link\<close>

definition collect_events :: "'c link_ops \<Rightarrow> 'c multi64 \<Rightarrow> 'c multi64" where
  "collect_events ops m =
     (if \<not> mu_watch_on_cart m then m
      else case lk_take_events ops (mu_link m) of
        ((events, dropped), c) \<Rightarrow>
          m\<lparr>mu_link := c,
            mu_watch := map_option
              (\<lambda>w. add_dropped dropped (fold (\<lambda>e w. push_event (ev_bytes e) w) events w)) (mu_watch m)\<rparr>)"

definition alive :: "'c link_ops \<Rightarrow> 'c multi64 \<Rightarrow> bool \<times> 'c multi64" where
  "alive ops m =
     (case lk_peek ops [\<lparr>rg_addr = 0, rg_len = 4\<rparr>] (mu_link m) of
        (Inr _, c) \<Rightarrow> (True, answering ops (collect_events ops (m\<lparr>mu_link := c\<rparr>)))
      | (Inl _, c) \<Rightarrow>
          (let m1 = m\<lparr>mu_link := c, mu_quiet_probes := mu_quiet_probes m + 1, mu_missed := True\<rparr> in
           (False, if mu_soft_retries m1 < mu_quiet_probes m1 then not_answering m1 else m1)))"

text \<open>An operation that keeps no state of its own between tries.\<close>

definition plain_op :: "('c \<Rightarrow> (cart_err + 'a) \<times> 'c) \<Rightarrow> ('c, unit, 'a) cart_op" where
  "plain_op f s c = (case f c of (r, c') \<Rightarrow> (r, (), c'))"

definition resend ::
  "'c link_ops \<Rightarrow> ('c \<Rightarrow> (cart_err + 'a) \<times> 'c) \<Rightarrow> 'c multi64 \<Rightarrow> ((cart_err + 'a) \<times> 'c multi64) option" where
  "resend ops f m = map_option (\<lambda>(r, s, m'). (r, m')) (with_retry ops Resend (plain_op f) () m)"

definition watch_slot :: "watch \<Rightarrow> slot" where
  "watch_slot w =
     \<lparr>sl_addr = wt_addr w, sl_len = of_nat (wt_len w),
      sl_at = (case wt_filter w of None \<Rightarrow> 0 | Some f \<Rightarrow> of_nat (fl_at f)),
      sl_values = (case wt_filter w of None \<Rightarrow> [] | Some f \<Rightarrow> fl_values f)\<rparr>"

definition arm_watch :: "'c link_ops \<Rightarrow> 'c multi64 \<Rightarrow> ((cart_err + unit) \<times> 'c multi64) option" where
  "arm_watch ops m =
     (case mu_watch m of
        None \<Rightarrow> Some (Inr (), m)
      | Some w \<Rightarrow>
          (if (case lk_watch_slots ops (mu_link m) of None \<Rightarrow> 0 | Some n \<Rightarrow> n) = 0
           then Some (Inr (), m\<lparr>mu_watch_armed_at := Some (mu_generation m)\<rparr>)
           else case resend ops (lk_watch ops [watch_slot w]) m of
             None \<Rightarrow> None
           | Some (Inl e, m1) \<Rightarrow>
               Some (Inl e, if is_refused e then m1\<lparr>mu_watch_armed_at := Some (mu_generation m1)\<rparr> else m1)
           | Some (Inr watching, m1) \<Rightarrow>
               Some (Inr (), m1\<lparr>mu_watch_on_cart := 0 < watching,
                                mu_watch_armed_at := Some (mu_generation m1)\<rparr>)))"

definition set_watch :: "'c link_ops \<Rightarrow> watch \<Rightarrow> 'c multi64 \<Rightarrow> 'c multi64 option" where
  "set_watch ops w m =
     map_option snd
       (arm_watch ops (m\<lparr>mu_watch := Some w, mu_watch_on_cart := False, mu_watch_armed_at := None\<rparr>))"

definition take_watched :: "'c multi64 \<Rightarrow> octets option \<times> 'c multi64" where
  "take_watched m =
     (case mu_watch m of
        None \<Rightarrow> (None, m)
      | Some w \<Rightarrow> (case take_change w of (v, w') \<Rightarrow> (v, m\<lparr>mu_watch := Some w'\<rparr>)))"

definition watch_region :: "watch \<Rightarrow> region" where
  "watch_region w = \<lparr>rg_addr = wt_addr w, rg_len = of_nat (wt_len w)\<rparr>"

definition sample_watch :: "'c link_ops \<Rightarrow> 'c multi64 \<Rightarrow> ((cart_err + unit) \<times> 'c multi64) option" where
  "sample_watch ops m =
     (if mu_watch_on_cart m then Some (Inr (), m)
      else case mu_watch m of
        None \<Rightarrow> Some (Inr (), m)
      | Some w \<Rightarrow>
          (case resend ops (lk_peek ops [watch_region w]) (m\<lparr>mu_regions := mu_regions m + 1\<rparr>) of
             None \<Rightarrow> None
           | Some (Inl e, m1) \<Rightarrow> Some (Inl e, m1)
           | Some (Inr done', m1) \<Rightarrow>
               Some (Inr (), case done' of [] \<Rightarrow> m1
                 | bytes # _ \<Rightarrow> m1\<lparr>mu_watch := map_option (observe bytes) (mu_watch m1)\<rparr>)))"

text \<open>The probe that rides a batch of reads, when the watched slot is sampled from here and fits.\<close>

definition probe_for :: "'c multi64 \<Rightarrow> region list \<Rightarrow> region option" where
  "probe_for m batch =
     (case mu_watch m of
        None \<Rightarrow> None
      | Some w \<Rightarrow> if mu_watch_on_cart m \<or> \<not> fits batch (wt_len w) then None else Some (watch_region w))"

fun read_loop :: "'c link_ops \<Rightarrow> region list list \<Rightarrow> octets list \<Rightarrow> 'c multi64 \<Rightarrow>
    ((cart_err + octets list) \<times> 'c multi64) option" where
  "read_loop ops [] flat m = Some (Inr flat, m)"
| "read_loop ops (batch # bs) flat m =
     (let probe = probe_for m batch;
          sent = batch @ (case probe of None \<Rightarrow> [] | Some p \<Rightarrow> [p])
      in case resend ops (lk_peek ops sent) (m\<lparr>mu_regions := mu_regions m + length sent\<rparr>) of
        None \<Rightarrow> None
      | Some (Inl e, m1) \<Rightarrow> Some (Inl e, m1)
      | Some (Inr done', m1) \<Rightarrow>
          (if probe = None then read_loop ops bs (flat @ done') (collect_events ops m1)
           else
             let bytes = (if done' = [] then [] else last done');
                 m2 = m1\<lparr>mu_watch := map_option (observe bytes) (mu_watch m1)\<rparr>
             in read_loop ops bs (flat @ butlast done') (collect_events ops m2)))"

definition io_result :: "io_kind + 'a \<Rightarrow> cart_err + 'a" where
  "io_result r = (case r of Inl e \<Rightarrow> Inl (CartIo e) | Inr v \<Rightarrow> Inr v)"

definition read_many :: "'c link_ops \<Rightarrow> (u32 \<times> nat) list \<Rightarrow> 'c multi64 \<Rightarrow>
    ((cart_err + octets list) \<times> 'c multi64) option" where
  "read_many ops regions m0 =
     (case (if mu_watch m0 \<noteq> None \<and> mu_watch_armed_at m0 \<noteq> Some (mu_generation m0)
            then map_option snd (arm_watch ops m0) else Some m0) of
        None \<Rightarrow> None
      | Some m \<Rightarrow>
          (case split_regions regions (unat (lk_rdram ops (mu_link m))) of
             Inl e \<Rightarrow> Some (Inl (CartIo e), m)
           | Inr (chunks', counts) \<Rightarrow>
               (case read_loop ops (batches chunks') [] m of
                  None \<Rightarrow> None
                | Some (Inl e, m') \<Rightarrow> Some (Inl e, m')
                | Some (Inr flat, m') \<Rightarrow> Some (io_result (stitch flat counts), m'))))"

text \<open>Writes: everything is checked before anything is sent, then one \<open>poke_once\<close> per request.\<close>

fun write_loop :: "'c link_ops \<Rightarrow> mem_write list list \<Rightarrow> 'c multi64 \<Rightarrow>
    ((cart_err + unit) \<times> 'c multi64) option" where
  "write_loop ops [] m = Some (Inr (), m)"
| "write_loop ops (req # reqs) m =
     (case poke_once ops req (m\<lparr>mu_regions := mu_regions m + length req\<rparr>) of
        None \<Rightarrow> None
      | Some (Inl e, m1) \<Rightarrow> Some (Inl e, m1)
      | Some (Inr _, m1) \<Rightarrow> write_loop ops reqs m1)"

definition write_many :: "'c link_ops \<Rightarrow> mem_write list \<Rightarrow> 'c multi64 \<Rightarrow>
    ((cart_err + unit) \<times> 'c multi64) option" where
  "write_many ops writes m =
     (case collect_results
         (\<lambda>(addr, data). check_in addr (length data) (unat (lk_rdram ops (mu_link m)))) writes of
        Inl e \<Rightarrow> Some (Inl (CartIo e), m)
      | Inr _ \<Rightarrow> write_loop ops (write_requests writes) m)"

subsection \<open>Reads give what memory holds\<close>

text \<open>What \<open>with_retry\<close> returns as a success is a success of the operation, and the ROM cache is kept
  exactly as long as the generation is.\<close>

definition cache_kept :: "'c multi64 \<Rightarrow> 'c multi64 \<Rightarrow> bool" where
  "cache_kept m m' \<longleftrightarrow>
     mu_generation m < mu_generation m' \<and> mu_rom_pages m' = (\<lambda>_. None) \<or>
     mu_generation m' = mu_generation m \<and> mu_rom_pages m' = mu_rom_pages m"

lemma cache_kept_refl [simp]: "cache_kept m m"
  and cache_kept_trans: "cache_kept m m1 \<Longrightarrow> cache_kept m1 m' \<Longrightarrow> cache_kept m m'"
  by (auto simp: cache_kept_def)

lemma cache_kept_upd [simp]:
  "cache_kept m (m1\<lparr>mu_link := c\<rparr>) = cache_kept m m1"
  "cache_kept m (m1\<lparr>mu_missed := b\<rparr>) = cache_kept m m1"
  "cache_kept m (m1\<lparr>mu_stalls := n\<rparr>) = cache_kept m m1"
  "cache_kept m (m1\<lparr>mu_watch_on_cart := b\<rparr>) = cache_kept m m1"
  "cache_kept m (m1\<lparr>mu_quiet_probes := n\<rparr>) = cache_kept m m1"
  "cache_kept m (m1\<lparr>mu_health := h\<rparr>) = cache_kept m m1"
  "cache_kept m (m1\<lparr>mu_ailing := b\<rparr>) = cache_kept m m1"
  "cache_kept (m1\<lparr>mu_link := c\<rparr>) m = cache_kept m1 m"
  "cache_kept (m1\<lparr>mu_missed := b\<rparr>) m = cache_kept m1 m"
  "cache_kept (m1\<lparr>mu_regions := n\<rparr>) m = cache_kept m1 m"
  "cache_kept (m1\<lparr>mu_watch_on_cart := b\<rparr>) m = cache_kept m1 m"
  by (simp_all add: cache_kept_def)

lemma rom_changed_kept [simp]: "cache_kept m (rom_changed ops m)"
  and relinked_kept [simp]: "cache_kept m (relinked c m)"
  by (auto simp: cache_kept_def rom_changed_def relinked_def split: prod.split)

lemma answering_kept [simp]: "cache_kept m (answering ops m)"
proof -
  have "cache_kept m (recheck_rom ops (m\<lparr>mu_quiet_probes := 0\<rparr>))"
  proof (cases "known_header (m\<lparr>mu_quiet_probes := 0\<rparr>)")
    case None
    then show ?thesis by (simp add: recheck_rom_def)
  next
    case (Some k)
    have "cache_kept m (rom_changed ops (m\<lparr>mu_quiet_probes := 0, mu_link := c\<rparr>))" for c
      using rom_changed_kept [of "m\<lparr>mu_quiet_probes := 0, mu_link := c\<rparr>" ops]
      by (rule cache_kept_trans [rotated]) simp
    with Some show ?thesis
      by (auto simp: recheck_rom_def split: prod.split sum.split bool.split)
  qed
  then show ?thesis by (simp add: answering_def Let_def)
qed

definition op_succeeds :: "('c, 's, 'a) cart_op \<Rightarrow> 'a \<Rightarrow> bool" where
  "op_succeeds op v \<longleftrightarrow> (\<exists>s c s' c'. op s c = (Inr v, s', c'))"

lemma soft_phase_result:
  assumes "soft_phase ops op bu t s m = Some res"
  shows "case res of Inl (r, s', m') \<Rightarrow> cache_kept m m' \<and> (\<forall>v. r = Inr v \<longrightarrow> op_succeeds op v)
    | Inr (e, s', m') \<Rightarrow> cache_kept m m'"
proof (rule soft_phase.raw_induct [OF _ assms], goal_cases)
  case (1 loop ops op bu t s m res)
  obtain r s' c where run: "op s (mu_link m) = (r, s', c)" by (metis prod_cases3)
  have ans: "cache_kept m (answering ops m1)" if "cache_kept m m1" for m1
    using cache_kept_trans [OF that] by simp
  have chg: "cache_kept m (answering ops (rom_changed ops m1))" if "cache_kept m m1" for m1
    using cache_kept_trans [OF that cache_kept_trans [OF rom_changed_kept answering_kept]] .
  show ?case
  proof (cases r)
    case (Inr v)
    have "op_succeeds op v" using run Inr unfolding op_succeeds_def by blast
    with Inr 1(2) run ans show ?thesis by (auto simp: Let_def)
  next
    case (Inl e)
    with 1(2) run ans chg 1(1) show ?thesis
      by (fastforce simp: Let_def split: if_splits sum.splits dest!: 1(1))
  qed
qed

lemma reconnect_phase_result:
  assumes "reconnect_phase ops retry op dl w s m = Some res"
  shows "cache_kept m (snd (snd res)) \<and> (\<forall>v. fst res = Inr v \<longrightarrow> op_succeeds op v)"
proof (rule reconnect_phase.raw_induct [OF _ assms], goal_cases)
  case (1 loop ops retry op dl w s m res)
  let ?c1 = "lk_wait ops w (mu_link m)"
  obtain ok c where c: "lk_connect ops ?c1 = (ok, c)" by fastforce
  let ?m2 = "(relinked c m)\<lparr>mu_watch_on_cart := False\<rparr>"
  obtain r s' c' where run: "op s (mu_link ?m2) = (r, s', c')" by (metis prod_cases3)
  have ans: "cache_kept m (answering ops m1)" if "cache_kept m m1" for m1
    using cache_kept_trans [OF that] by simp
  have succ: "op_succeeds op v" if "r = Inr v" for v
    using run that unfolding op_succeeds_def by blast
  have loop: "cache_kept m (snd (snd res)) \<and> (\<forall>v. fst res = Inr v \<longrightarrow> op_succeeds op v)"
    if "loop ops retry op dl (min (w * 2) RECONNECT_BACKOFF_MAX) s1 m1 = Some res" "cache_kept m m1"
    for s1 m1
    using 1(1) [OF that(1)] cache_kept_trans [OF that(2)] by blast
  show ?case
  proof (cases "give_up ops m \<or> dl \<le> lk_now ops (mu_link m) \<or> \<not> ok \<or> give_up ops (relinked c m) \<or> retry = Once")
    case True
    with 1(2) c ans loop show ?thesis by (auto simp: Let_def split: if_splits)
  next
    case False
    then show ?thesis
      using 1(2) c run ans succ loop by (auto simp: Let_def split: if_splits sum.splits)
  qed
qed

lemma with_retry_result:
  assumes "with_retry ops retry op s m = Some (r, s', m')"
  shows "cache_kept m m' \<and> (\<forall>v. r = Inr v \<longrightarrow> op_succeeds op v)"
proof -
  let ?bu = "lk_now ops (mu_link m) + REPLY_TIMEOUT * (mu_soft_retries m + 1)"
  obtain res where soft: "soft_phase ops op ?bu 0 s m = Some res"
    using assms by (auto simp: with_retry_def Let_def split: option.splits)
  note sr = soft_phase_result [OF soft]
  show ?thesis
  proof (cases res)
    case (Inl x)
    with sr soft assms show ?thesis by (auto simp: with_retry_def Let_def)
  next
    case (Inr y)
    obtain e s1 m1 where y: "y = (e, s1, m1)" by (metis prod_cases3)
    have "cache_kept m (not_answering m1)" using sr Inr y by (simp add: not_answering_def)
    moreover from reconnect_phase_result soft assms Inr y
    have "cache_kept (not_answering m1) m' \<and> (\<forall>v. r = Inr v \<longrightarrow> op_succeeds op v)"
      by (fastforce simp: with_retry_def Let_def)
    ultimately show ?thesis by (blast intro: cache_kept_trans)
  qed
qed

lemma plain_op_succeeds: "op_succeeds (plain_op f) v \<Longrightarrow> \<exists>c c'. f c = (Inr v, c')"
proof -
  assume "op_succeeds (plain_op f) v"
  then obtain s c s' c' where p: "plain_op f s c = (Inr v, s', c')" by (auto simp: op_succeeds_def)
  then show ?thesis by (cases "f c") (auto simp: plain_op_def)
qed

lemma resend_result:
  assumes "resend ops f m = Some (r, m')"
  shows "cache_kept m m'" "r = Inr v \<Longrightarrow> \<exists>c c'. f c = (Inr v, c')"
proof -
  obtain s' where w: "with_retry ops Resend (plain_op f) () m = Some (r, s', m')"
    using assms by (auto simp: resend_def)
  show "cache_kept m m'" using with_retry_result [OF w] by simp
  show "\<exists>c c'. f c = (Inr v, c')" if "r = Inr v"
    using with_retry_result [OF w] that by (intro plain_op_succeeds) simp
qed

text \<open>A link over which every answered read gives the bytes memory holds, and the same for ROM.\<close>

definition reads_of :: "(region list \<Rightarrow> 'c \<Rightarrow> (cart_err + octets list) \<times> 'c) \<Rightarrow> (nat \<Rightarrow> u8) \<Rightarrow> bool" where
  "reads_of pk f \<longleftrightarrow> (\<forall>batch c out c'. pk batch c = (Inr out, c') \<longrightarrow> out = reply_of f batch)"

lemma reads_ofD: "reads_of pk f \<Longrightarrow> pk batch c = (Inr out, c') \<Longrightarrow> out = reply_of f batch"
  unfolding reads_of_def by blast

lemma read_loop_exact:
  assumes "reads_of (lk_peek ops) f" "read_loop ops bs flat m = Some (Inr out, m')"
  shows "out = flat @ reply_of f (concat bs)"
  using assms
proof (induction ops bs flat m rule: read_loop.induct)
  case (1 ops flat m)
  then show ?case by (simp add: reply_of_def)
next
  case (2 ops batch bs flat m)
  let ?probe = "probe_for m batch"
  let ?sent = "batch @ (case ?probe of None \<Rightarrow> [] | Some p \<Rightarrow> [p])"
  let ?r = "resend ops (lk_peek ops ?sent) (m\<lparr>mu_regions := mu_regions m + length ?sent\<rparr>)"
  obtain done' m1 where r: "?r = Some (Inr done', m1)"
    using "2.prems"(2) by (auto simp: Let_def split: option.splits sum.splits)
  obtain c c' where "lk_peek ops ?sent c = (Inr done', c')" using resend_result(2) [OF r refl] by blast
  from reads_ofD [OF "2.prems"(1) this] have done': "done' = reply_of f ?sent" .
  show ?case
  proof (cases ?probe)
    case None
    with "2.prems"(2) r have "read_loop ops bs (flat @ done') (collect_events ops m1) = Some (Inr out, m')" by simp
    from 2(1) [OF refl refl r refl refl None "2.prems"(1) this] show ?thesis using None by (simp add: done')
  next
    case (Some p)
    with done' have b: "butlast done' = reply_of f batch" by (simp add: reply_of_def)
    let ?m2 = "m1\<lparr>mu_watch := map_option (observe (if done' = [] then [] else last done')) (mu_watch m1)\<rparr>"
    from Some "2.prems"(2) r have
      l: "read_loop ops bs (flat @ butlast done') (collect_events ops ?m2) = Some (Inr out, m')"
      by (simp add: Let_def)
    have "?probe \<noteq> None" using Some by simp
    from 2(2) [OF refl refl r refl refl this refl refl "2.prems"(1) l] show ?thesis by (simp add: b)
  qed
qed

text \<open>C20: A batched read over the link gives the bytes memory holds, range by range and in the order asked
  for, however it is cut into requests, whichever silences and reconnects it goes through, and
  whether or not a probe of the watched slot rides along; a range outside RDRAM is refused before
  anything is read.\<close>

theorem read_many_exact:
  assumes "reads_of (lk_peek ops) f" and "read_many ops regions m = Some (r, m')"
    and "\<forall>c c'. lk_rdram ops c = lk_rdram ops c'"
  shows "(\<forall>out. r = Inr out \<longrightarrow> out = spans f regions) \<and>
    ((\<exists>(a, n) \<in> set regions. unat (lk_rdram ops (mu_link m)) < unat a + n) \<longrightarrow> r = Inl (CartIo InvalidInput))"
proof -
  let ?arm = "if mu_watch m \<noteq> None \<and> mu_watch_armed_at m \<noteq> Some (mu_generation m)
     then map_option snd (arm_watch ops m) else Some m"
  let ?sz = "unat (lk_rdram ops (mu_link m))"
  obtain m1 where m1: "?arm = Some m1"
    using assms(2) by (auto simp: read_many_def split: option.splits)
  have sz: "unat (lk_rdram ops (mu_link m1)) = ?sz" using assms(3) by metis
  have lt: "?sz < 2 ^ 32" by (rule order_less_le_trans [OF unsigned_less]) simp
  show ?thesis
  proof (cases "split_regions regions ?sz")
    case (Inl e)
    with assms(2) m1 sz have "r = Inl (CartIo e)" by (simp add: read_many_def)
    with Inl split_regions_Inl show ?thesis by blast
  next
    case (Inr x)
    obtain cs counts where x: "x = (cs, counts)" by fastforce
    have in_bounds: "\<not> (\<exists>(a, n) \<in> set regions. ?sz < unat a + n)"
      using Inr split_regions_Inl [of regions ?sz] by (metis Inr_not_Inl)
    obtain lr m2 where loop: "read_loop ops (batches cs) [] m1 = Some (lr, m2)"
      using assms(2) m1 sz Inr x by (auto simp: read_many_def split: option.splits)
    have "out = spans f regions" if "r = Inr out" for out
    proof (cases lr)
      case (Inl e)
      with that assms(2) m1 sz Inr x loop \<open>split_regions regions ?sz = Inr x\<close>
      show ?thesis by (simp add: read_many_def)
    next
      case (Inr flat)
      with that assms(2) m1 sz x loop \<open>split_regions regions ?sz = Inr x\<close>
      have "io_result (stitch flat counts) = Inr out" by (simp add: read_many_def)
      moreover have "flat = reply_of f cs"
        using read_loop_exact [OF assms(1) loop [unfolded Inr]] by simp
      moreover have "stitch (reply_of f cs) counts = Inr (spans f regions)"
        using split_regions_Inr [OF \<open>split_regions regions ?sz = Inr x\<close> [unfolded x] lt]
        by (simp add: spans_def)
      ultimately show ?thesis by (simp add: io_result_def)
    qed
    with in_bounds show ?thesis by blast
  qed
qed

lemma console_reads: "reads_of (lk_peek console_ops) (\<lambda>_. 0)"
  by (auto simp: reads_of_def console_ops_def split: prod.splits sum.splits)

lemma console_rdram: "lk_rdram console_ops c = 0x800000"
  by (simp add: console_ops_def)

text \<open>The first request's reply is lost, and the read is answered on the second try.\<close>

theorem read_many_exact_witness:
  "\<exists>m'. read_many console_ops [(0x1000, 2)] (multi64_connect (console_new lost_reply [])) =
      Some (Inr [[0, 0]], m') \<and> length (cl_wire (mu_link m')) = 2"
proof -
  let ?m = "multi64_connect (console_new lost_reply [])"
  have split: "split_region 0x1000 2 0 = [\<lparr>rg_addr = 0x1000, rg_len = 2\<rparr>]"
    by (simp add: split_region.simps MAX_REGION_BYTES_def)
  have "\<exists>r m'. read_many console_ops [(0x1000, 2)] ?m = Some (Inr r, m') \<and> length (cl_wire (mu_link m')) = 2"
    by (simp add: read_many_def split check_in_def batches_def MAX_REGIONS_def MAX_TOTAL_BYTES_def
        resend_def plain_op_def probe_for_def collect_events_def reply_of_def io_result_def console_eval)
  then obtain r m' where run: "read_many console_ops [(0x1000, 2)] ?m = Some (Inr r, m')"
    and two: "length (cl_wire (mu_link m')) = 2" by blast
  have "r = spans (\<lambda>_. 0) [(0x1000, 2)]"
    using read_many_exact [OF console_reads run] console_rdram by simp
  then have "r = [[0, 0]]" by (simp add: spans_def bytes_at_def upt_rec)
  with run two show ?thesis by blast
qed

end
