(* ===== verification/Rom_Pages.thy ===== *)
theory Rom_Pages
  imports Backend_Memory
begin

text \<open>
  The cartridge ROM as a connector reads it: the page cache of \<open>Multi64\<close> and \<open>read_rom_many\<close>
  (\<open>crates/ap64-cart/src/backend.rs\<close>). A page that is missing when it is copied from would be a
  panic, the result \<open>None\<close>.
\<close>

subsection \<open>Filling pages, and copying from them\<close>

definition wanted_pages :: "(u32 \<times> nat) list \<Rightarrow> nat list" where
  "wanted_pages regions =
     remdups_adj (sort (concat (map (\<lambda>(addr, len).
       if 0 < len then [unat addr div ROM_PAGE ..< Suc ((unat addr + len - 1) div ROM_PAGE)] else []) regions)))"

definition page_region :: "nat \<Rightarrow> region" where
  "page_region p = \<lparr>rg_addr = of_nat (p * ROM_PAGE), rg_len = of_nat ROM_PAGE\<rparr>"

definition keep_pages :: "region list \<Rightarrow> octets list \<Rightarrow> 'c multi64 \<Rightarrow> 'c multi64" where
  "keep_pages batch got m =
     m\<lparr>mu_rom_pages := fold (\<lambda>(r, bytes) pg. pg(unat (rg_addr r) div ROM_PAGE \<mapsto> bytes)) (zip batch got)
         (mu_rom_pages m)\<rparr>"

fun fill_loop :: "'c link_ops \<Rightarrow> region list list \<Rightarrow> 'c multi64 \<Rightarrow> ((cart_err + unit) \<times> 'c multi64) option" where
  "fill_loop ops [] m = Some (Inr (), m)"
| "fill_loop ops (batch # bs) m =
     (case resend ops (lk_peek_rom ops batch) (m\<lparr>mu_regions := mu_regions m + length batch\<rparr>) of
        None \<Rightarrow> None
      | Some (Inl e, m1) \<Rightarrow> Some (Inl e, m1)
      | Some (Inr got, m1) \<Rightarrow> fill_loop ops bs (keep_pages batch got m1))"

definition fill_rom_pages :: "'c link_ops \<Rightarrow> nat list \<Rightarrow> 'c multi64 \<Rightarrow> ((cart_err + unit) \<times> 'c multi64) option" where
  "fill_rom_pages ops pages m =
     fill_loop ops (batches (map page_region (filter (\<lambda>p. mu_rom_pages m p = None) pages))) m"

text \<open>A page that is not there, or is too short, is a panic.\<close>

lemma rom_step: "at' < end' \<Longrightarrow> 0 < min (end' - at') (ROM_PAGE - at' mod ROM_PAGE)"
  by (simp add: ROM_PAGE_def)

function rom_copy :: "(nat \<Rightarrow> octets option) \<Rightarrow> nat \<Rightarrow> nat \<Rightarrow> octets option" where
  "rom_copy pages at' end' =
     (if at' < end' then
        case pages (at' div ROM_PAGE) of
          None \<Rightarrow> None
        | Some page \<Rightarrow>
            let off = at' mod ROM_PAGE; k = min (end' - at') (ROM_PAGE - off) in
            if length page < off + k then None
            else map_option (\<lambda>rest. slice off (off + k) page @ rest) (rom_copy pages (at' + k) end')
      else Some [])"
  by pat_completeness auto
termination
  by (relation "measure (\<lambda>(pages, at', end'). end' - at')") (use rom_step in \<open>auto intro!: diff_less_mono2\<close>)

declare rom_copy.simps [simp del]

fun rom_copies :: "(nat \<Rightarrow> octets option) \<Rightarrow> (u32 \<times> nat) list \<Rightarrow> octets list option" where
  "rom_copies pages [] = Some []"
| "rom_copies pages ((addr, len) # rs) =
     (case rom_copy pages (unat addr) (unat addr + len) of
        None \<Rightarrow> None
      | Some out \<Rightarrow> map_option (\<lambda>outs. out # outs) (rom_copies pages rs))"

definition read_rom_many :: "'c link_ops \<Rightarrow> (u32 \<times> nat) list \<Rightarrow> 'c multi64 \<Rightarrow>
    ((cart_err + octets list) \<times> 'c multi64) option" where
  "read_rom_many ops regions m =
     (case lk_rom_bytes ops (mu_link m) of
        None \<Rightarrow> Some (Inl (CartIo OtherKind), m)
      | Some window \<Rightarrow>
          (case collect_results (\<lambda>(addr, len). check_in addr len (unat window)) regions of
             Inl e \<Rightarrow> Some (Inl (CartIo e), m)
           | Inr _ \<Rightarrow>
               (case fill_rom_pages ops (wanted_pages regions) m of
                  None \<Rightarrow> None
                | Some (Inl e, m1) \<Rightarrow> Some (Inl e, m1)
                | Some (Inr _, m1) \<Rightarrow>
                    (if mu_generation m1 \<noteq> mu_generation m then Some (Inl LinkRestarted, m1)
                     else map_option (\<lambda>out. (Inr out, m1)) (rom_copies (mu_rom_pages m1) regions)))))"

definition pages_ok :: "(nat \<Rightarrow> octets \<Rightarrow> bool) \<Rightarrow> 'c multi64 \<Rightarrow> bool" where
  "pages_ok P m \<longleftrightarrow> (\<forall>p page. mu_rom_pages m p = Some page \<longrightarrow> P p page)"

text \<open>The cache holds pages of the image \<open>g\<close>; and, knowing less, whole pages.\<close>

abbreviation rom_page_of :: "(nat \<Rightarrow> u8) \<Rightarrow> nat \<Rightarrow> octets \<Rightarrow> bool" where
  "rom_page_of g p page \<equiv> page = bytes_at g (p * ROM_PAGE) ROM_PAGE"

definition pages_hold :: "(nat \<Rightarrow> u8) \<Rightarrow> 'c multi64 \<Rightarrow> bool" where
  "pages_hold g m \<longleftrightarrow> pages_ok (rom_page_of g) m"

definition whole_page :: "nat \<Rightarrow> octets \<Rightarrow> bool" where
  "whole_page p page \<longleftrightarrow> length page = ROM_PAGE"

lemma whole_pages_hold: "pages_ok whole_page m \<Longrightarrow> \<exists>g. pages_hold g m"
proof
  assume whole: "pages_ok whole_page m"
  let ?g = "\<lambda>x. case mu_rom_pages m (x div ROM_PAGE) of None \<Rightarrow> 0 | Some page \<Rightarrow> page ! (x mod ROM_PAGE)"
  have "page = bytes_at ?g (p * ROM_PAGE) ROM_PAGE" if "mu_rom_pages m p = Some page" for p page
  proof (rule nth_equalityI)
    show len: "length page = length (bytes_at ?g (p * ROM_PAGE) ROM_PAGE)"
      using whole that by (simp add: pages_ok_def whole_page_def)
    fix i assume "i < length page"
    then have "i < ROM_PAGE" using len by simp
    with that show "page ! i = bytes_at ?g (p * ROM_PAGE) ROM_PAGE ! i"
      by (simp add: div_mult_self3 ROM_PAGE_def)
  qed
  then show "pages_hold ?g m" by (simp add: pages_hold_def pages_ok_def)
qed

definition rom_page_region :: "region \<Rightarrow> bool" where
  "rom_page_region r \<longleftrightarrow> ROM_PAGE dvd unat (rg_addr r) \<and> unat (rg_len r) = ROM_PAGE"

definition pages_of :: "region list \<Rightarrow> nat set" where
  "pages_of rs = (\<lambda>r. unat (rg_addr r) div ROM_PAGE) ` set rs"

lemma pages_of_append [simp]: "pages_of (xs @ ys) = pages_of xs \<union> pages_of ys"
  and pages_of_Cons: "pages_of (r # rs) = insert (unat (rg_addr r) div ROM_PAGE) (pages_of rs)"
  and pages_of_Nil [simp]: "pages_of [] = {}"
  by (auto simp: pages_of_def)

definition page_answers :: "(nat \<Rightarrow> octets \<Rightarrow> bool) \<Rightarrow> region list \<Rightarrow> octets list \<Rightarrow> bool" where
  "page_answers P batch got \<longleftrightarrow> list_all2 (\<lambda>r b. P (unat (rg_addr r) div ROM_PAGE) b) batch got"

text \<open>Every answered read of pages gives pages as \<open>P\<close> says.\<close>

definition answers_ok :: "(region list \<Rightarrow> 'c \<Rightarrow> (cart_err + octets list) \<times> 'c) \<Rightarrow> (nat \<Rightarrow> octets \<Rightarrow> bool) \<Rightarrow> bool" where
  "answers_ok pk P \<longleftrightarrow>
     (\<forall>batch c out c'. pk batch c = (Inr out, c') \<longrightarrow> (\<forall>r \<in> set batch. rom_page_region r) \<longrightarrow> page_answers P batch out)"

lemma answers_okD:
  "answers_ok pk P \<Longrightarrow> pk batch c = (Inr out, c') \<Longrightarrow> \<forall>r \<in> set batch. rom_page_region r \<Longrightarrow> page_answers P batch out"
  unfolding answers_ok_def by blast

lemma reads_of_answers: "reads_of pk g \<Longrightarrow> answers_ok pk (rom_page_of g)"
  unfolding answers_ok_def
proof (intro allI impI)
  fix batch c out c'
  assume "reads_of pk g" "pk batch c = (Inr out, c')" and regs: "\<forall>r \<in> set batch. rom_page_region r"
  then have out: "out = reply_of g batch" by (blast dest: reads_ofD)
  show "page_answers (rom_page_of g) batch out"
    using regs unfolding out
    by (induction batch) (auto simp: page_answers_def reply_of_def rom_page_region_def)
qed

lemma keep_pages_ok:
  assumes "pages_ok P m" "page_answers P batch got"
  shows "pages_ok P (keep_pages batch got m) \<and> mu_generation (keep_pages batch got m) = mu_generation m \<and>
    dom (mu_rom_pages (keep_pages batch got m)) = dom (mu_rom_pages m) \<union> pages_of batch"
  using assms(2,1) unfolding page_answers_def
proof (induction batch got arbitrary: m rule: list_all2_induct)
  case Nil
  then show ?case by (simp add: keep_pages_def)
next
  case (Cons r batch b got)
  let ?m = "m\<lparr>mu_rom_pages := (mu_rom_pages m)(unat (rg_addr r) div ROM_PAGE \<mapsto> b)\<rparr>"
  have "pages_ok P ?m" using Cons by (auto simp: pages_ok_def)
  note ih = Cons.IH [OF this]
  have "keep_pages (r # batch) (b # got) m = keep_pages batch got ?m" by (simp add: keep_pages_def)
  with ih show ?case by (auto simp: pages_of_Cons)
qed

lemma rom_copy_exact:
  assumes "pages = mu_rom_pages m" "pages_hold g m"
    and "\<forall>x. at' \<le> x \<and> x < end' \<longrightarrow> pages (x div ROM_PAGE) \<noteq> None"
  shows "rom_copy pages at' end' = Some (bytes_at g at' (end' - at'))"
  using assms
proof (induction pages at' end' rule: rom_copy.induct)
  case (1 pages at' end')
  show ?case
  proof (cases "at' < end'")
    case False
    then show ?thesis by (simp add: rom_copy.simps)
  next
    case True
    let ?off = "at' mod ROM_PAGE"
    let ?k = "min (end' - at') (ROM_PAGE - ?off)"
    obtain page where page: "pages (at' div ROM_PAGE) = Some page" using "1.prems"(3) True by blast
    have hold: "page = bytes_at g (at' div ROM_PAGE * ROM_PAGE) ROM_PAGE"
      using "1.prems"(1,2) page by (simp add: pages_hold_def pages_ok_def)
    have k: "0 < ?k" "?off + ?k \<le> ROM_PAGE" using rom_step [OF True] by linarith+
    have "\<not> length page < ?off + ?k" using k(2) by (simp add: hold)
    moreover have "slice ?off (?off + ?k) page = bytes_at g at' ?k"
      using k(2) by (intro nth_equalityI) (auto simp: hold nth_slice add.assoc [symmetric])
    moreover have "rom_copy pages (at' + ?k) end' = Some (bytes_at g (at' + ?k) (end' - (at' + ?k)))"
      by (rule "1.IH" [OF True page refl refl calculation(1) "1.prems"(1,2)]) (use "1.prems"(3) in auto)
    moreover have "bytes_at g at' ?k @ bytes_at g (at' + ?k) (end' - (at' + ?k)) = bytes_at g at' (end' - at')"
      unfolding bytes_at_add [symmetric] by (rule arg_cong [where f = "bytes_at g at'"]) auto
    ultimately show ?thesis using True page by (simp add: rom_copy.simps [of pages at' end'] Let_def)
  qed
qed

lemma rom_copies_exact:
  assumes "pages_hold g m" "\<forall>(a, n) \<in> set rs. \<forall>x. unat a \<le> x \<and> x < unat a + n \<longrightarrow> mu_rom_pages m (x div ROM_PAGE) \<noteq> None"
  shows "rom_copies (mu_rom_pages m) rs = Some (spans g rs)"
  using assms(2)
proof (induction rs)
  case (Cons r rs)
  obtain a n where r: "r = (a, n)" by fastforce
  have "rom_copy (mu_rom_pages m) (unat a) (unat a + n) = Some (bytes_at g (unat a) (unat a + n - unat a))"
    by (rule rom_copy_exact [OF refl assms(1)]) (use Cons.prems r in auto)
  with Cons r show ?case by (simp add: spans_def)
qed (simp add: spans_def)

lemma wanted_pages_cover:
  assumes "(a, n) \<in> set rs" "unat a \<le> x" "x < unat a + n"
  shows "x div ROM_PAGE \<in> set (wanted_pages rs)"
proof -
  have "unat a div ROM_PAGE \<le> x div ROM_PAGE" "x div ROM_PAGE \<le> (unat a + n - 1) div ROM_PAGE" "0 < n"
    using assms(2,3) by (auto intro: div_le_mono)
  with assms(1) show ?thesis by (force simp: wanted_pages_def)
qed

lemma wanted_pages_bound:
  assumes "\<forall>(a, n) \<in> set rs. unat a + n \<le> w" "p \<in> set (wanted_pages rs)"
  shows "p * ROM_PAGE < w"
proof -
  obtain a n where an: "(a, n) \<in> set rs" "0 < n" "p \<le> (unat a + n - 1) div ROM_PAGE"
    using assms(2) by (auto simp: wanted_pages_def split: if_splits)
  have "p * ROM_PAGE \<le> (unat a + n - 1) div ROM_PAGE * ROM_PAGE" using an(3) by simp
  also have "\<dots> \<le> unat a + n - 1" by (simp add: div_times_less_eq_dividend)
  finally show ?thesis using assms(1) an(1,2) by fastforce
qed

lemma fill_loop_result:
  assumes "answers_ok (lk_peek_rom ops) P" "fill_loop ops bs m = Some (Inr u, m')" "pages_ok P m"
    and "\<forall>r \<in> set (concat bs). rom_page_region r"
  shows "pages_ok P m' \<and> mu_generation m \<le> mu_generation m' \<and>
    (mu_generation m' = mu_generation m \<longrightarrow>
       dom (mu_rom_pages m) \<union> pages_of (concat bs) \<subseteq> dom (mu_rom_pages m'))"
  using assms
proof (induction ops bs m rule: fill_loop.induct)
  case (1 ops m)
  then show ?case by simp
next
  case (2 ops batch bs m)
  let ?m0 = "m\<lparr>mu_regions := mu_regions m + length batch\<rparr>"
  obtain got m1 where r: "resend ops (lk_peek_rom ops batch) ?m0 = Some (Inr got, m1)"
    using "2.prems"(2) by (auto split: option.splits sum.splits)
  obtain c c' where "lk_peek_rom ops batch c = (Inr got, c')" using resend_result(2) [OF r refl] by blast
  from answers_okD [OF "2.prems"(1) this] have got: "page_answers P batch got" using "2.prems"(4) by simp
  have kept: "cache_kept m m1" using resend_result(1) [OF r] by simp
  then have "pages_ok P m1" using "2.prems"(3) by (auto simp: cache_kept_def pages_ok_def)
  note keep = keep_pages_ok [OF this got]
  let ?m2 = "keep_pages batch got m1"
  have l: "fill_loop ops bs ?m2 = Some (Inr u, m')" using "2.prems"(2) r by simp
  have k: "pages_ok P ?m2 \<and> mu_generation ?m2 = mu_generation m1 \<and>
    dom (mu_rom_pages ?m2) = dom (mu_rom_pages m1) \<union> pages_of batch"
    by (rule keep)
  have ih: "pages_ok P m' \<and> mu_generation ?m2 \<le> mu_generation m' \<and>
    (mu_generation m' = mu_generation ?m2 \<longrightarrow>
       dom (mu_rom_pages ?m2) \<union> pages_of (concat bs) \<subseteq> dom (mu_rom_pages m'))"
    by (rule "2.IH" [OF r refl refl "2.prems"(1) l]) (use k "2.prems"(4) in auto)
  from kept have gen: "mu_generation m \<le> mu_generation m1"
    "mu_generation m1 = mu_generation m \<longrightarrow> dom (mu_rom_pages m1) = dom (mu_rom_pages m)"
    by (auto simp: cache_kept_def)
  show ?case
  proof (intro conjI impI)
    show "pages_ok P m'" "mu_generation m \<le> mu_generation m'" using ih k gen by simp_all
    assume "mu_generation m' = mu_generation m"
    then have "mu_generation m1 = mu_generation m" "mu_generation m' = mu_generation ?m2" using ih k gen by simp_all
    with ih k gen show "dom (mu_rom_pages m) \<union> pages_of (concat (batch # bs))
        \<subseteq> dom (mu_rom_pages m')"
      unfolding concat.simps pages_of_append by auto
  qed
qed

lemma page_region_ok:
  assumes "p * ROM_PAGE < 2 ^ 32"
  shows "rom_page_region (page_region p) \<and> unat (rg_addr (page_region p)) div ROM_PAGE = p"
  using assms
  by (simp add: rom_page_region_def page_region_def unat_of_nat take_bit_nat_eq_self ROM_PAGE_def
      del: of_nat_mult)

text \<open>After the pages are filled on an unchanged link, every byte asked for is there.\<close>

definition present :: "(u32 \<times> nat) list \<Rightarrow> 'c multi64 \<Rightarrow> bool" where
  "present regions m \<longleftrightarrow>
     (\<forall>(a, n) \<in> set regions. \<forall>x. unat a \<le> x \<and> x < unat a + n \<longrightarrow> mu_rom_pages m (x div ROM_PAGE) \<noteq> None)"

lemma fill_rom_pages_present:
  assumes "answers_ok (lk_peek_rom ops) P" "pages_ok P m"
    and "collect_results (\<lambda>(addr, len). check_in addr len (unat (window :: u32))) regions = Inr cs"
    and "fill_rom_pages ops (wanted_pages regions) m = Some (Inr u, m1)" "mu_generation m1 = mu_generation m"
  shows "pages_ok P m1 \<and> present regions m1"
proof -
  have lt: "unat window < 2 ^ 32" by (rule order_less_le_trans [OF unsigned_less]) simp
  have "list_all2 (\<lambda>x y. (case x of (addr, len) \<Rightarrow> check_in addr len (unat window)) = Inr y) regions cs"
    using assms(3) by (simp add: collect_results_Inr)
  then have bound: "\<forall>(a, n) \<in> set regions. unat a + n \<le> unat window"
    by (induction regions cs rule: list_all2_induct) (auto simp: check_in_def split: if_splits)
  let ?missing = "filter (\<lambda>p. mu_rom_pages m p = None) (wanted_pages regions)"
  have small: "p * ROM_PAGE < 2 ^ 32" if "p \<in> set (wanted_pages regions)" for p
    using wanted_pages_bound [OF bound that] lt by linarith
  have regs: "\<forall>r \<in> set (concat (batches (map page_region ?missing))). rom_page_region r"
    using page_region_ok small by auto
  note res = fill_loop_result [OF assms(1) assms(4) [unfolded fill_rom_pages_def] assms(2) regs]
  have all: "p \<in> dom (mu_rom_pages m1)" if "p \<in> set (wanted_pages regions)" for p
  proof (cases "mu_rom_pages m p")
    case None
    with that have "p \<in> pages_of (map page_region ?missing)"
      using page_region_ok [OF small [OF that]] by (force simp: pages_of_def image_iff)
    moreover have "pages_of (map page_region ?missing) \<subseteq> dom (mu_rom_pages m1)"
      using res assms(5) by simp
    ultimately show ?thesis by blast
  next
    case (Some x)
    with res assms(5) show ?thesis by auto
  qed
  then have "present regions m1" using wanted_pages_cover by (fastforce simp: present_def dom_def)
  with res show ?thesis by simp
qed

lemma read_rom_many_cases:
  assumes "fill_rom_pages ops (wanted_pages regions) m = Some (fr, m1)"
  obtains (error) e m' where "read_rom_many ops regions m = Some (Inl e, m')"
  | (filled) window cs u where "lk_rom_bytes ops (mu_link m) = Some window"
      "collect_results (\<lambda>(addr, len). check_in addr len (unat window)) regions = Inr cs"
      "fr = Inr u" "mu_generation m1 = mu_generation m"
      "read_rom_many ops regions m = map_option (\<lambda>out. (Inr out, m1)) (rom_copies (mu_rom_pages m1) regions)"
proof (cases "lk_rom_bytes ops (mu_link m)")
  case None
  with error show ?thesis by (simp add: read_rom_many_def)
next
  case (Some window)
  let ?check = "collect_results (\<lambda>(addr, len). check_in addr len (unat window)) regions"
  show ?thesis
  proof (cases "(\<exists>e. ?check = Inl e) \<or> (\<exists>e. fr = Inl e) \<or> mu_generation m1 \<noteq> mu_generation m")
    case True
    then have "\<exists>e m'. read_rom_many ops regions m = Some (Inl e, m')"
      using Some assms by (auto simp: read_rom_many_def split: sum.split)
    with error show ?thesis by blast
  next
    case False
    then obtain cs u where "?check = Inr cs" "fr = Inr u" "mu_generation m1 = mu_generation m"
      by (metis sum.exhaust)
    with filled Some assms show ?thesis by (simp add: read_rom_many_def)
  qed
qed


text \<open>Whatever the answers hold, as long as each page comes whole, nothing panics.\<close>

lemma read_rom_many_total:
  assumes "answers_ok (lk_peek_rom ops) whole_page" "pages_ok whole_page m"
    and "fill_rom_pages ops (wanted_pages regions) m \<noteq> None"
  shows "read_rom_many ops regions m \<noteq> None"
proof -
  obtain fr m1 where fill: "fill_rom_pages ops (wanted_pages regions) m = Some (fr, m1)"
    using assms(3) by fastforce
  then show ?thesis
  proof (cases rule: read_rom_many_cases)
    case (filled window cs u)
    from fill_rom_pages_present [OF assms(1,2) filled(2) fill [unfolded filled(3)] filled(4)]
    obtain g where hold: "pages_hold g m1" and "present regions m1" using whole_pages_hold by blast
    from rom_copies_exact [OF hold] this(2) filled show ?thesis by (simp add: present_def)
  qed simp
qed

text \<open>A console whose ROM holds a counting pattern.\<close>

definition rom_console :: "console_link link_ops" where
  "rom_console = console_ops\<lparr>lk_rom_bytes := (\<lambda>c. Some 0x10000),
     lk_peek_rom := (\<lambda>rs c. case await_reply (transmit OtherReq c) of
       (Inl e, c') \<Rightarrow> (Inl e, c') | (Inr _, c') \<Rightarrow> (Inr (reply_of of_nat rs), c'))\<rparr>"


end
