(* ===== verification/Link_Clock.thy ===== *)
theory Link_Clock
  imports Rom_Pages
begin

text \<open>
  The \<open>Multi64\<close> calls return. \<open>with_retry\<close> and the loops over it are partial functions, since
  nothing in the code bounds their rounds but the clock; \<open>clocked_link\<close> says what a link's clock
  must do for them to come to an end.
\<close>

subsection \<open>Retries end\<close>

definition later :: "'c link_ops \<Rightarrow> 'c \<Rightarrow> 'c \<Rightarrow> bool" where
  "later ops c c' \<longleftrightarrow> lk_now ops c \<le> lk_now ops c' \<and> (lk_cancelled ops c \<longrightarrow> lk_cancelled ops c')"

text \<open>A link whose clock never goes back, whose waits pass the time they are given unless a stop is
  asked for, and where a stop stays asked for.\<close>

locale clocked_link =
  fixes ops :: "'c link_ops"
  assumes wait_later: "later ops c (lk_wait ops n c)"
    and wait_passes: "lk_now ops c + n \<le> lk_now ops (lk_wait ops n c) \<or> lk_cancelled ops (lk_wait ops n c)"
    and connect_later: "lk_connect ops c = (ok, c') \<Longrightarrow> later ops c c'"
    and peek_later: "lk_peek ops rs c = (r1, c') \<Longrightarrow> later ops c c'"
    and rom_later: "lk_peek_rom ops rs c = (r1, c') \<Longrightarrow> later ops c c'"
    and watch_later: "lk_watch ops ss c = (r2, c') \<Longrightarrow> later ops c c'"
    and send_later: "lk_send_poke ops b c = (r3, c') \<Longrightarrow> later ops c c'"
    and resend_later: "lk_resend_poke ops rid b c = (r4, c') \<Longrightarrow> later ops c c'"
    and await_later: "lk_await_poke ops rid k c = (r4, c') \<Longrightarrow> later ops c c'"
begin

definition steady :: "('c, 's, 'a) cart_op \<Rightarrow> bool" where
  "steady op \<longleftrightarrow> (\<forall>s c r s' c'. op s c = (r, s', c') \<longrightarrow> later ops c c')"

lemma later_refl [simp]: "later ops c c"
  and later_trans: "later ops c c1 \<Longrightarrow> later ops c1 c' \<Longrightarrow> later ops c c'"
  by (auto simp: later_def)

lemma soft_phase_returns:
  assumes "steady op"
  shows "soft_phase ops op bu k s m \<noteq> None"
proof (induction "(bu - lk_now ops (mu_link m)) + (mu_soft_retries m - k)" arbitrary: k s m rule: less_induct)
  case less
  obtain r s' c where run: "op s (mu_link m) = (r, s', c)" by (metis prod_cases3)
  have c: "lk_now ops (mu_link m) \<le> lk_now ops c" using assms run by (auto simp: steady_def later_def)
  have busy: "soft_phase ops op bu k s' (m\<lparr>mu_link := lk_wait ops BUSY_WAIT c\<rparr>) \<noteq> None"
    if "lk_now ops c < bu" "\<not> lk_cancelled ops (lk_wait ops BUSY_WAIT c)"
  proof (rule less)
    show "bu - lk_now ops (mu_link (m\<lparr>mu_link := lk_wait ops BUSY_WAIT c\<rparr>)) +
        (mu_soft_retries (m\<lparr>mu_link := lk_wait ops BUSY_WAIT c\<rparr>) - k) <
        bu - lk_now ops (mu_link m) + (mu_soft_retries m - k)"
      using wait_passes [of c BUSY_WAIT] that c by (auto simp: BUSY_WAIT_def)
  qed
  have quiet: "soft_phase ops op bu (k + 1) s' (m\<lparr>mu_link := c, mu_missed := True\<rparr>) \<noteq> None"
    if "k < mu_soft_retries m"
    by (rule less) (use that c in auto)
  show ?case
    using run busy quiet
    by (subst soft_phase.simps) (auto simp: Let_def give_up_def split: sum.split)
qed

lemma reconnect_phase_returns:
  assumes "steady op" "0 < w"
  shows "reconnect_phase ops retry op dl w s m \<noteq> None"
  using assms(2)
proof (induction "dl - lk_now ops (mu_link m)" arbitrary: w s m rule: less_induct)
  case less
  let ?c1 = "lk_wait ops w (mu_link m)" and ?w = "min (w * 2) RECONNECT_BACKOFF_MAX"
  show ?case
  proof (cases "give_up ops m \<or> dl \<le> lk_now ops (mu_link m)")
    case True
    then show ?thesis by (subst reconnect_phase.simps) auto
  next
    case False
    obtain ok c where con: "lk_connect ops ?c1 = (ok, c)" by fastforce
    have w': "0 < ?w" using less.prems by (simp add: RECONNECT_BACKOFF_MAX_def)
    have again: "reconnect_phase ops retry op dl ?w s1 m1 \<noteq> None" if "later ops c (mu_link m1)" for s1 m1
    proof (cases "give_up ops m1")
      case True
      then show ?thesis by (subst reconnect_phase.simps) simp
    next
      case running: False
      have "later ops ?c1 (mu_link m1)" using later_trans [OF connect_later [OF con] that] .
      with running have "lk_now ops (mu_link m) + w \<le> lk_now ops (mu_link m1)"
        using wait_passes [of "mu_link m" w] by (auto simp: later_def give_up_def)
      with False less.prems have "dl - lk_now ops (mu_link m1) < dl - lk_now ops (mu_link m)" by auto
      from less.hyps [OF this w'] show ?thesis .
    qed
    let ?m2 = "(relinked c m)\<lparr>mu_watch_on_cart := False\<rparr>"
    obtain r s' c' where run: "op s (mu_link ?m2) = (r, s', c')" by (metis prod_cases3)
    have "later ops c c'" using assms(1) run by (auto simp: steady_def relinked_def)
    with again [of "m\<lparr>mu_link := c\<rparr>"] again [of "?m2\<lparr>mu_link := c'\<rparr>"] False con run show ?thesis
      by (subst reconnect_phase.simps) (auto simp: Let_def split: sum.split)
  qed
qed

lemma with_retry_returns:
  assumes "steady op"
  shows "with_retry ops retry op s m \<noteq> None"
proof -
  let ?bu = "lk_now ops (mu_link m) + REPLY_TIMEOUT * (mu_soft_retries m + 1)"
  obtain res where "soft_phase ops op ?bu 0 s m = Some res"
    using soft_phase_returns [OF assms] by blast
  then show ?thesis using reconnect_phase_returns [OF assms, of 250]
    by (auto simp: with_retry_def Let_def split: sum.split)
qed

lemma same_rom_later: "same_rom ops k c = (r, c') \<Longrightarrow> later ops c c'"
  using rom_later by (fastforce simp: same_rom_def split: prod.splits sum.splits cart_err.splits)

lemma poke_op_steady: "steady (poke_op ops known b)"
proof (unfold steady_def, intro allI impI)
  fix s c r s' c'
  assume run: "poke_op ops known b s c = (r, s', c')"
  show "later ops c c'"
  proof (cases s)
    case None
    obtain r1 c1 where send: "lk_send_poke ops b c = (r1, c1)" by fastforce
    show ?thesis
    proof (cases r1)
      case (Inl e)
      with run None send send_later [OF send] show ?thesis by (simp add: poke_op_def)
    next
      case (Inr rid)
      obtain r2 c2 where aw: "lk_await_poke ops rid (length b) c1 = (r2, c2)" by fastforce
      with run None send Inr later_trans [OF send_later [OF send] await_later [OF aw]]
      show ?thesis by (simp add: poke_op_def)
    qed
  next
    case (Some rid)
    obtain r0 c0 where rom: "(case known of None \<Rightarrow> (Inr True, c) | Some k \<Rightarrow> same_rom ops k c) = (r0, c0)"
      by fastforce
    have l0: "later ops c c0" using rom same_rom_later by (auto split: option.splits)
    obtain r1 c1 where re: "lk_resend_poke ops rid b c0 = (r1, c1)" by fastforce
    obtain r2 c2 where aw: "lk_await_poke ops rid (length b) c1 = (r2, c2)" by fastforce
    obtain r3 c3 where aw0: "lk_await_poke ops rid (length b) c = (r3, c3)" by fastforce
    show ?thesis
      using run Some rom re aw aw0 l0 later_trans [OF l0 resend_later [OF re]] await_later [OF aw0]
        later_trans [OF later_trans [OF l0 resend_later [OF re]] await_later [OF aw]]
      by (auto simp: poke_op_def split: if_splits sum.splits bool.splits)
  qed
qed

lemma resend_returns: "(\<And>c r c'. f c = (r, c') \<Longrightarrow> later ops c c') \<Longrightarrow> resend ops f m \<noteq> None"
proof -
  assume f: "\<And>c r c'. f c = (r, c') \<Longrightarrow> later ops c c'"
  have "steady (plain_op f)" unfolding steady_def plain_op_def using f by (auto split: prod.splits)
  from with_retry_returns [OF this] show ?thesis by (simp add: resend_def)
qed

lemma poke_once_returns: "poke_once ops b m \<noteq> None"
  by (simp add: poke_once_def with_retry_returns [OF poke_op_steady] del: not_None_eq)

lemma write_loop_returns: "write_loop ops reqs m \<noteq> None"
proof (induction reqs arbitrary: m)
  case (Cons req reqs)
  obtain r m1 where "poke_once ops req (m\<lparr>mu_regions := mu_regions m + length req\<rparr>) = Some (r, m1)"
    using poke_once_returns by fastforce
  with Cons show ?case by (auto split: sum.split)
qed simp

lemma write_many_returns: "write_many ops ws m \<noteq> None"
  using write_loop_returns by (simp add: write_many_def split: sum.split)

lemma arm_watch_returns: "arm_watch ops m \<noteq> None"
proof (cases "mu_watch m")
  case (Some w)
  obtain x where "resend ops (lk_watch ops [watch_slot w]) m = Some x"
    using resend_returns [OF watch_later] by fastforce
  with Some show ?thesis by (cases x) (auto simp: arm_watch_def split: sum.split)
qed (simp add: arm_watch_def)

lemma sample_watch_returns: "sample_watch ops m \<noteq> None"
proof (cases "mu_watch m")
  case (Some w)
  obtain x where "resend ops (lk_peek ops [watch_region w]) (m\<lparr>mu_regions := mu_regions m + 1\<rparr>) = Some x"
    using resend_returns [OF peek_later] by fastforce
  with Some show ?thesis by (cases x) (auto simp: sample_watch_def split: sum.split)
qed (simp add: sample_watch_def)

lemma read_loop_returns: "read_loop ops bs flat m \<noteq> None"
proof (induction bs arbitrary: flat m)
  case (Cons batch bs)
  let ?sent = "batch @ (case probe_for m batch of None \<Rightarrow> [] | Some p \<Rightarrow> [p])"
  obtain r m1 where "resend ops (lk_peek ops ?sent) (m\<lparr>mu_regions := mu_regions m + length ?sent\<rparr>) = Some (r, m1)"
    using resend_returns [OF peek_later] by fastforce
  with Cons show ?case by (auto simp: Let_def split: sum.split)
qed simp

lemma read_many_returns: "read_many ops regions m \<noteq> None"
proof -
  have "(if mu_watch m \<noteq> None \<and> mu_watch_armed_at m \<noteq> Some (mu_generation m)
     then map_option snd (arm_watch ops m) else Some m) \<noteq> None"
    using arm_watch_returns by (simp del: not_None_eq)
  then obtain m1 where m1: "(if mu_watch m \<noteq> None \<and> mu_watch_armed_at m \<noteq> Some (mu_generation m)
     then map_option snd (arm_watch ops m) else Some m) = Some m1" by blast
  show ?thesis
  proof (cases "split_regions regions (unat (lk_rdram ops (mu_link m1)))")
    case (Inl e)
    with m1 show ?thesis by (simp add: read_many_def)
  next
    case (Inr y)
    obtain lr m2 where "read_loop ops (batches (fst y)) [] m1 = Some (lr, m2)"
      using read_loop_returns [of "batches (fst y)" "[]" m1] by fastforce
    with m1 Inr show ?thesis by (cases y; cases lr) (simp_all add: read_many_def)
  qed
qed

lemma fill_loop_returns: "fill_loop ops bs m \<noteq> None"
proof (induction bs arbitrary: m)
  case (Cons batch bs)
  obtain r m1 where "resend ops (lk_peek_rom ops batch) (m\<lparr>mu_regions := mu_regions m + length batch\<rparr>) = Some (r, m1)"
    using resend_returns [OF rom_later] by fastforce
  with Cons show ?case by (auto split: sum.split)
qed simp

lemma fill_rom_pages_returns: "fill_rom_pages ops pages m \<noteq> None"
  by (simp add: fill_rom_pages_def fill_loop_returns)

lemma set_watch_returns: "set_watch ops w m \<noteq> None"
  by (simp add: set_watch_def arm_watch_returns del: not_None_eq)

end

end
