(* ===== verification/Cart_Transport.thy ===== *)
theory Cart_Transport
  imports Link_Clock L3_Stream
begin

text \<open>
  M64P over the daemon's WebSocket: \<open>Multi64Transport\<close> of \<open>crates/ap64-cart/src/transport.rs\<close>. The
  world is a clock, the links the daemon will give (what its \<open>GET /\<close> says, whether it accepts, and
  what arrives on the socket when), whether each send succeeds, and the moment a stop is asked for.
  Times are milliseconds; a read takes no longer than its timeout, and nothing else takes time.
\<close>

subsection \<open>The world\<close>

datatype ws_msg = WsBinary octets | WsControl | WsClose | WsBroken

record link_script =
  ls_body :: "string option"
  ls_open :: bool
  ls_in :: "(nat \<times> ws_msg) list"

record net =
  nt_now :: nat
  nt_links :: "link_script list"
  nt_send :: "bool list"
  nt_sent :: "octets list"
  nt_stop_at :: "nat option"

record outstanding =
  os_rid :: u16
  os_app :: octets
  os_sent :: nat
  os_may_copy :: bool
  os_copied :: bool

record transport =
  tp_net :: net
  tp_in :: "(nat \<times> ws_msg) list"
  tp_decoder :: stream_decoder
  tp_pending :: "octets list"
  tp_next_rid :: u16
  tp_requests :: u32
  tp_echo_reported :: bool
  tp_rdram_bytes :: u32
  tp_writable :: bool
  tp_poke_once :: bool
  tp_rom_bytes :: "u32 option"
  tp_watch_slots :: "u8 option"
  tp_events :: "event list"
  tp_dropped_seen :: u16
  tp_dropped_new :: u32
  tp_quick_resends :: u32
  tp_whole_requests :: bool
  tp_srtt :: "nat option"
  tp_rtt_samples :: u32
  tp_last_answer :: "nat option"
  tp_outstanding :: "outstanding option"

definition QUICK_COPY_MIN :: nat where "QUICK_COPY_MIN = 150"
definition QUICK_COPY_MAX :: nat where "QUICK_COPY_MAX = 600"
definition QUICK_COPY_RTTS :: nat where "QUICK_COPY_RTTS = 4"
definition QUICK_COPY_SAMPLES :: u32 where "QUICK_COPY_SAMPLES = 8"
definition QUICK_COPY_LIVE :: nat where "QUICK_COPY_LIVE = 1000"

abbreviation tp_now :: "transport \<Rightarrow> nat" where "tp_now t \<equiv> nt_now (tp_net t)"
abbreviation tp_sent :: "transport \<Rightarrow> octets list" where "tp_sent t \<equiv> nt_sent (tp_net t)"

subsection \<open>What a reply must be\<close>

datatype want = WantHello | WantRid u16

fun want_matches :: "want \<Rightarrow> response \<Rightarrow> bool" where
  "want_matches WantHello resp = (case resp of HelloAck _ _ _ _ _ _ \<Rightarrow> True | _ \<Rightarrow> False)"
| "want_matches (WantRid rid) resp = (rid_of resp = Some rid)"

definition check_regions :: "region list \<Rightarrow> octets list \<Rightarrow> cart_err + unit" where
  "check_regions asked got =
     (if length got \<noteq> length asked then Inl (CartIo OtherKind)
      else if list_all (\<lambda>(r, block). length block = unat (rg_len r)) (zip asked got) then Inr ()
      else Inl (CartIo OtherKind))"

record daemon_status =
  ds_serial_active :: "bool option"
  ds_cart :: "string option"

definition contains_str :: "string \<Rightarrow> string \<Rightarrow> bool" where
  "contains_str body pat \<longleftrightarrow> find_sub pat body \<noteq> None"

definition cart_key :: string where
  "cart_key = [CHR 0x22] @ ''cart'' @ [CHR 0x22, CHR 0x3A, CHR 0x22]"

definition active_key :: string where
  "active_key = [CHR 0x22] @ ''serialActive'' @ [CHR 0x22, CHR 0x3A]"

definition parse_status :: "string \<Rightarrow> daemon_status" where
  "parse_status body =
     \<lparr>ds_serial_active =
        (if contains_str body (active_key @ ''true'') then Some True
         else if contains_str body (active_key @ ''false'') then Some False else None),
      ds_cart =
        (case find_sub cart_key body of
           None \<Rightarrow> None
         | Some at' \<Rightarrow>
             (let rest = drop (at' + length cart_key) body in
              map_option (\<lambda>n. take n rest) (find_sub [CHR 0x22] rest)))\<rparr>"

definition link_keeps_requests_whole :: "string option \<Rightarrow> bool" where
  "link_keeps_requests_whole cart \<longleftrightarrow> cart = Some ''sc64''"

subsection \<open>Sending\<close>

definition take_rid :: "transport \<Rightarrow> u16 \<times> transport" where
  "take_rid t =
     (tp_next_rid t,
      t\<lparr>tp_requests := tp_requests t + 1,
        tp_next_rid := (if tp_next_rid t + 1 = 0 then 1 else tp_next_rid t + 1)\<rparr>)"

definition app_frame :: "octets \<Rightarrow> frame" where
  "app_frame app =
     \<lparr>frame_ty = Data, frame_channel = Application, frame_flags = FLAGS_FINAL, frame_request_id = 0,
      frame_payload = app\<rparr>"

text \<open>What is logged as sent is the payload of each frame handed to the socket.\<close>

definition send_app :: "octets \<Rightarrow> transport \<Rightarrow> (cart_err + unit) \<times> transport" where
  "send_app app t =
     (case encode_frame (app_frame app) of
        Inl _ \<Rightarrow> (Inl (CartIo OtherKind), t)
      | Inr wire \<Rightarrow>
          (let n = tp_net t; ok = (case nt_send n of [] \<Rightarrow> True | b # _ \<Rightarrow> b) in
           (if ok then Inr () else Inl (CartIo OtherKind),
            t\<lparr>tp_net := n\<lparr>nt_send := tl (nt_send n), nt_sent := nt_sent n @ [app]\<rparr>\<rparr>)))"

definition send_request :: "u16 \<Rightarrow> octets \<Rightarrow> bool \<Rightarrow> transport \<Rightarrow> (cart_err + unit) \<times> transport" where
  "send_request rid app may_copy t =
     (case send_app app t of
        (Inl e, t1) \<Rightarrow> (Inl e, t1)
      | (Inr _, t1) \<Rightarrow>
          (Inr (), t1\<lparr>tp_outstanding := Some \<lparr>os_rid = rid, os_app = app, os_sent = tp_now t1,
                        os_may_copy = may_copy, os_copied = False\<rparr>\<rparr>))"

definition quick_copy_at :: "u16 \<Rightarrow> transport \<Rightarrow> nat option" where
  "quick_copy_at rid t =
     (case tp_outstanding t of
        None \<Rightarrow> None
      | Some o' \<Rightarrow>
          (if \<not> (os_rid o' = rid \<and> os_may_copy o' \<and> \<not> os_copied o') then None
           else if \<not> tp_whole_requests t \<or> tp_rtt_samples t < QUICK_COPY_SAMPLES then None
           else if \<not> (case tp_last_answer t of None \<Rightarrow> False | Some a \<Rightarrow> os_sent o' - a < QUICK_COPY_LIVE)
           then None
           else map_option
             (\<lambda>s. os_sent o' + min (max (s * QUICK_COPY_RTTS) QUICK_COPY_MIN) QUICK_COPY_MAX) (tp_srtt t)))"

definition send_quick_copy :: "transport \<Rightarrow> (cart_err + unit) \<times> transport" where
  "send_quick_copy t =
     (case tp_outstanding t of
        None \<Rightarrow> (Inr (), t)
      | Some o' \<Rightarrow>
          send_app (os_app o') (t\<lparr>tp_outstanding := Some (o'\<lparr>os_copied := True\<rparr>),
                                  tp_quick_resends := tp_quick_resends t + 1\<rparr>))"

definition answered :: "want \<Rightarrow> transport \<Rightarrow> transport" where
  "answered w t =
     (let t1 = t\<lparr>tp_last_answer := Some (tp_now t)\<rparr> in
      case w of
        WantHello \<Rightarrow> t1
      | WantRid rid \<Rightarrow>
          (case tp_outstanding t1 of
             None \<Rightarrow> t1
           | Some o' \<Rightarrow>
               (if os_rid o' \<noteq> rid then t1
                else let t2 = t1\<lparr>tp_outstanding := None\<rparr> in
                  if os_copied o' then t2
                  else let rtt = tp_now t - os_sent o' in
                    t2\<lparr>tp_srtt := Some (case tp_srtt t of None \<Rightarrow> rtt | Some s \<Rightarrow> (s * 7 + rtt) div 8),
                       tp_rtt_samples := saturating_add32 (tp_rtt_samples t) 1\<rparr>)))"

subsection \<open>Waiting for a reply\<close>

definition keep_watch_trailer :: "response \<Rightarrow> transport \<Rightarrow> response \<times> transport" where
  "keep_watch_trailer resp t =
     (case resp of
        PeekV rid regions events dropped \<Rightarrow>
          (PeekV rid regions [] dropped,
           t\<lparr>tp_events := tp_events t @ events,
             tp_dropped_new := tp_dropped_new t +
               (if tp_dropped_seen t < dropped then ucast (dropped - tp_dropped_seen t) else 0),
             tp_dropped_seen := max (tp_dropped_seen t) dropped\<rparr>)
      | _ \<Rightarrow> (resp, t))"

text \<open>The loop over the payloads already decoded, which \<open>tp_pending\<close> holds in the order they are
  popped. \<open>Some\<close> is the result \<open>await_response\<close> returns.\<close>

fun drain_pending :: "want \<Rightarrow> octets list \<Rightarrow> transport \<Rightarrow> (cart_err + response) option \<times> transport" where
  "drain_pending w [] t = (None, t\<lparr>tp_pending := []\<rparr>)"
| "drain_pending w (app # apps) t =
     (case parse app of
        Inr resp \<Rightarrow>
          (case keep_watch_trailer resp t of (resp', t1) \<Rightarrow>
             if want_matches w resp' then
               (Some (case resp' of ErrResp rid code \<Rightarrow> Inl (CartRefused code) | _ \<Rightarrow> Inr resp'),
                (answered w t1)\<lparr>tp_pending := apps\<rparr>)
             else drain_pending w apps t1)
      | Inl NotM64p \<Rightarrow> drain_pending w apps t
      | Inl (EchoedRequest m) \<Rightarrow> drain_pending w apps (t\<lparr>tp_echo_reported := True\<rparr>)
      | Inl _ \<Rightarrow> (Some (Inl (CartIo OtherKind)), t\<lparr>tp_pending := apps\<rparr>))"

text \<open>One socket read that waits at most \<open>left\<close>; \<open>None\<close> is its time-out.\<close>

definition ws_read :: "nat \<Rightarrow> transport \<Rightarrow> ws_msg option \<times> transport" where
  "ws_read left t =
     (let until = tp_now t + max left 1; quiet = (None, t\<lparr>tp_net := (tp_net t)\<lparr>nt_now := until\<rparr>\<rparr>) in
      case tp_in t of
        [] \<Rightarrow> quiet
      | (at', m) # rest \<Rightarrow>
          (if at' \<le> until
           then (Some m, t\<lparr>tp_in := rest, tp_net := (tp_net t)\<lparr>nt_now := max (tp_now t) at'\<rparr>\<rparr>)
           else quiet))"

definition data_payloads :: "frame list \<Rightarrow> octets list" where
  "data_payloads fs =
     map frame_payload (filter (\<lambda>f. frame_ty f = Data \<and> frame_channel f = Application) fs)"

text \<open>The early copy, when it is due, and what of \<open>quick_at\<close> is left then.\<close>

definition quick_step :: "nat option \<Rightarrow> transport \<Rightarrow> (cart_err + unit) \<times> nat option \<times> transport" where
  "quick_step quick_at t =
     (case quick_at of
        None \<Rightarrow> (Inr (), None, t)
      | Some q \<Rightarrow>
          (if q \<le> tp_now t then (case send_quick_copy t of (r, t1) \<Rightarrow> (r, None, t1))
           else (Inr (), Some q, t)))"

definition read_until :: "nat \<Rightarrow> nat option \<Rightarrow> nat" where
  "read_until deadline quick_at = (case quick_at of None \<Rightarrow> deadline | Some q \<Rightarrow> min q deadline)"

lemma drain_pending_net [simp]:
  "tp_net (snd (drain_pending w apps t)) = tp_net t" "tp_in (snd (drain_pending w apps t)) = tp_in t"
  by (induction w apps t rule: drain_pending.induct)
    (auto simp: keep_watch_trailer_def answered_def Let_def
      split: sum.split m64p_error.split response.splits want.split option.split)

lemma send_app_same [simp]:
  "tp_in (snd (send_app app t)) = tp_in t" "tp_now (snd (send_app app t)) = tp_now t"
  "tp_outstanding (snd (send_app app t)) = tp_outstanding t"
  by (auto simp: send_app_def Let_def split: sum.split)

lemma send_quick_copy_same [simp]:
  "tp_in (snd (send_quick_copy t)) = tp_in t" "tp_now (snd (send_quick_copy t)) = tp_now t"
  by (simp_all add: send_quick_copy_def split: option.split)

lemma quick_step_same [simp]:
  "tp_in (snd (snd (quick_step q t))) = tp_in t" "tp_now (snd (snd (quick_step q t))) = tp_now t"
  by (simp_all add: quick_step_def case_prod_beta split: option.split)

lemma ws_read_step:
  assumes "ws_read left t = (m, t')"
  shows "tp_now t \<le> tp_now t'" "tp_now t' \<le> tp_now t + max left 1"
    and "length (tp_in t') + (dl - tp_now t') \<le> length (tp_in t) + (dl - tp_now t)"
    and "tp_now t < dl \<Longrightarrow> length (tp_in t') + (dl - tp_now t') < length (tp_in t) + (dl - tp_now t)"
  using assms by (auto simp: ws_read_def Let_def split: list.splits prod.splits if_splits)

lemma await_measure:
  assumes "(None, t1) = drain_pending w apps t" "(r, q', t2) = quick_step q t1" "\<not> dl \<le> tp_now t2"
    and "(m, t3) = ws_read left t2"
  shows "length (tp_in t3) + (dl - tp_now t3) < length (tp_in t) + (dl - tp_now t)"
  using ws_read_step(4) [OF assms(4) [symmetric], of dl] drain_pending_net [of w apps t]
    quick_step_same [of q t1] assms(3)
  by (simp add: assms(1,2) [symmetric])

function await_loop :: "want \<Rightarrow> nat \<Rightarrow> nat option \<Rightarrow> transport \<Rightarrow> (cart_err + response) \<times> transport" where
  "await_loop w deadline quick_at t =
     (case drain_pending w (tp_pending t) t of
        (Some r, t1) \<Rightarrow> (r, t1)
      | (None, t1) \<Rightarrow>
          (case quick_step quick_at t1 of
             (Inl e, _, t2) \<Rightarrow> (Inl e, t2)
           | (Inr _, q, t2) \<Rightarrow>
               (if deadline \<le> tp_now t2 then (Inl (CartIo TimedOut), t2)
                else case ws_read (read_until deadline q - tp_now t2) t2 of
                  (None, t3) \<Rightarrow> await_loop w deadline q t3
                | (Some WsControl, t3) \<Rightarrow> await_loop w deadline q t3
                | (Some WsClose, t3) \<Rightarrow> (Inl (CartIo OtherKind), t3)
                | (Some WsBroken, t3) \<Rightarrow> (Inl (CartIo OtherKind), t3)
                | (Some (WsBinary bytes), t3) \<Rightarrow>
                    (case push_bytes (tp_decoder t3) bytes of
                       (fs, d) \<Rightarrow>
                         await_loop w deadline q (t3\<lparr>tp_decoder := d, tp_pending := data_payloads fs\<rparr>)))))"
  by pat_completeness auto
termination
proof (relation "measure (\<lambda>(w, dl, q, t). length (tp_in t) + (dl - tp_now t))", goal_cases)
  case 1
  then show ?case by simp
qed (use await_measure in \<open>auto simp del: measure_def\<close>)

declare await_loop.simps [simp del]

definition await_response :: "want \<Rightarrow> transport \<Rightarrow> (cart_err + response) \<times> transport" where
  "await_response w t =
     await_loop w (tp_now t + REPLY_TIMEOUT)
       (case w of WantRid rid \<Rightarrow> quick_copy_at rid t | WantHello \<Rightarrow> None) t"

subsection \<open>Requests\<close>

definition wire_result :: "m64p_error + 'a \<Rightarrow> cart_err + 'a" where
  "wire_result r = (case r of Inl _ \<Rightarrow> Inl (CartIo OtherKind) | Inr v \<Rightarrow> Inr v)"

text \<open>Encode a request under the next rid, send it, wait for its answer, and make of it what \<open>f\<close>
  says: what \<open>peek\<close>, \<open>watch\<close> and \<open>peek_rom\<close> have in common.\<close>

definition request_under ::
  "(u16 \<Rightarrow> m64p_error + octets) \<Rightarrow> bool \<Rightarrow> transport \<Rightarrow> (cart_err + response) \<times> transport" where
  "request_under enc may_copy t =
     (case take_rid t of
        (rid, t1) \<Rightarrow>
          (case wire_result (enc rid) of
             Inl e \<Rightarrow> (Inl e, t1)
           | Inr app \<Rightarrow>
               (case send_request rid app may_copy t1 of
                  (Inl e, t2) \<Rightarrow> (Inl e, t2)
                | (Inr _, t2) \<Rightarrow> await_response (WantRid rid) t2)))"

definition regions_result :: "region list \<Rightarrow> octets list \<Rightarrow> cart_err + octets list" where
  "regions_result regions got = bind_result (check_regions regions got) (\<lambda>_. Inr got)"

definition t_peek :: "region list \<Rightarrow> transport \<Rightarrow> (cart_err + octets list) \<times> transport" where
  "t_peek regions t =
     (if regions = [] then (Inr [], t)
      else case request_under (\<lambda>rid. encode_peekv rid regions) True t of
        (Inr (PeekV _ got _ _), t1) \<Rightarrow> (regions_result regions got, t1)
      | (Inr _, t1) \<Rightarrow> (Inl (CartIo OtherKind), t1)
      | (Inl e, t1) \<Rightarrow> (Inl e, t1))"

definition t_watch :: "slot list \<Rightarrow> transport \<Rightarrow> (cart_err + u8) \<times> transport" where
  "t_watch slots t =
     (case request_under (\<lambda>rid. encode_watch rid slots) False t of
        (Inr (WatchAck _ watching), t1) \<Rightarrow> (Inr watching, t1\<lparr>tp_events := [], tp_dropped_seen := 0\<rparr>)
      | (Inr _, t1) \<Rightarrow> (Inl (CartIo OtherKind), t1)
      | (Inl e, t1) \<Rightarrow> (Inl e, t1))"

definition t_take_events :: "transport \<Rightarrow> (event list \<times> u32) \<times> transport" where
  "t_take_events t = ((tp_events t, tp_dropped_new t), t\<lparr>tp_events := [], tp_dropped_new := 0\<rparr>)"

definition t_peek_rom :: "region list \<Rightarrow> transport \<Rightarrow> (cart_err + octets list) \<times> transport" where
  "t_peek_rom regions t =
     (if regions = [] then (Inr [], t)
      else if tp_rom_bytes t = None then (Inl (CartIo OtherKind), t)
      else case request_under (\<lambda>rid. encode_peekrom rid regions) True t of
        (Inr (PeekRom _ got), t1) \<Rightarrow> (regions_result regions got, t1)
      | (Inr _, t1) \<Rightarrow> (Inl (CartIo OtherKind), t1)
      | (Inl e, t1) \<Rightarrow> (Inl (if e = CartRefused E_BUSY then CartIo WouldBlock else e), t1))"

definition t_send_poke :: "mem_write list \<Rightarrow> transport \<Rightarrow> (cart_err + u16) \<times> transport" where
  "t_send_poke writes t =
     (if \<not> tp_writable t then (Inl (CartIo OtherKind), t)
      else case take_rid t of
        (rid, t1) \<Rightarrow>
          (case wire_result (encode_pokev rid writes) of
             Inl e \<Rightarrow> (Inl e, t1)
           | Inr app \<Rightarrow>
               (case send_request rid app (tp_poke_once t1) t1 of
                  (Inl e, t2) \<Rightarrow> (Inl e, t2)
                | (Inr _, t2) \<Rightarrow> (Inr rid, t2))))"

definition t_resend_poke :: "u16 \<Rightarrow> mem_write list \<Rightarrow> transport \<Rightarrow> (cart_err + unit) \<times> transport" where
  "t_resend_poke rid writes t =
     (if \<not> tp_poke_once t then (Inl (CartIo OtherKind), t)
      else case wire_result (encode_pokev rid writes) of
        Inl e \<Rightarrow> (Inl e, t)
      | Inr app \<Rightarrow> send_app app t)"

definition t_await_poke :: "u16 \<Rightarrow> nat \<Rightarrow> transport \<Rightarrow> (cart_err + unit) \<times> transport" where
  "t_await_poke rid n t =
     (case await_response (WantRid rid) t of
        (Inr (PokeAck _ applied), t1) \<Rightarrow>
          (if unat applied \<noteq> n then Inl (CartIo OtherKind) else Inr (), t1)
      | (Inr _, t1) \<Rightarrow> (Inl (CartIo OtherKind), t1)
      | (Inl e, t1) \<Rightarrow> (Inl e, t1))"

definition t_poke :: "mem_write list \<Rightarrow> transport \<Rightarrow> (cart_err + unit) \<times> transport" where
  "t_poke writes t =
     (if writes = [] then (Inr (), t)
      else case t_send_poke writes t of
        (Inl e, t1) \<Rightarrow> (Inl e, t1)
      | (Inr rid, t1) \<Rightarrow> t_await_poke rid (length writes) t1)"

subsection \<open>Connecting\<close>

definition transport_new :: "net \<Rightarrow> (nat \<times> ws_msg) list \<Rightarrow> transport" where
  "transport_new n inp =
     \<lparr>tp_net = n, tp_in = inp, tp_decoder = stream_decoder_new, tp_pending = [], tp_next_rid = 1,
      tp_requests = 0, tp_echo_reported = False, tp_rdram_bytes = 0, tp_writable = False,
      tp_poke_once = False, tp_rom_bytes = None, tp_watch_slots = None, tp_events = [],
      tp_dropped_seen = 0, tp_dropped_new = 0, tp_quick_resends = 0, tp_whole_requests = False,
      tp_srtt = None, tp_rtt_samples = 0, tp_last_answer = None, tp_outstanding = None\<rparr>"

definition hello_done :: "daemon_status option \<Rightarrow> response \<Rightarrow> transport \<Rightarrow> cart_err + transport" where
  "hello_done status resp t =
     (case resp of
        HelloAck proto agent rdram flags rom_bytes watch_slots \<Rightarrow>
          (if proto \<noteq> 0 then Inl (CartIo OtherKind)
           else let whole = link_keeps_requests_whole (Option.bind status ds_cart) in
             Inr (t\<lparr>tp_rdram_bytes := rdram, tp_writable := (flags AND FLAG_WRITABLE \<noteq> 0),
                    tp_whole_requests := whole,
                    tp_poke_once := (flags AND FLAG_POKE_ONCE \<noteq> 0 \<and> whole),
                    tp_rom_bytes := rom_bytes, tp_watch_slots := watch_slots\<rparr>))
      | _ \<Rightarrow> Inl (CartIo OtherKind))"

text \<open>\<open>connect\<close>: the transport, or an error and the world as it left it.\<close>

definition t_connect :: "net \<Rightarrow> (cart_err \<times> net) + transport" where
  "t_connect n =
     (case nt_links n of
        [] \<Rightarrow> Inl (CartIo OtherKind, n)
      | l # ls \<Rightarrow>
          (let n1 = n\<lparr>nt_links := ls\<rparr>; status = map_option parse_status (ls_body l) in
           if Option.bind status ds_serial_active = Some False \<or> \<not> ls_open l
           then Inl (CartIo OtherKind, n1)
           else case send_app encode_hello (transport_new n1 (ls_in l)) of
             (Inl e, t) \<Rightarrow> Inl (e, tp_net t)
           | (Inr _, t) \<Rightarrow>
               (case await_response WantHello t of
                  (Inl e, t1) \<Rightarrow> Inl (e, tp_net t1)
                | (Inr resp, t1) \<Rightarrow>
                    (case hello_done status resp t1 of
                       Inl e \<Rightarrow> Inl (e, tp_net t1)
                     | Inr t2 \<Rightarrow> Inr t2))))"

text \<open>The operations \<open>Multi64\<close> runs on. Connecting keeps the old transport when it fails.\<close>

definition stopped :: "transport \<Rightarrow> bool" where
  "stopped t \<longleftrightarrow> (case nt_stop_at (tp_net t) of None \<Rightarrow> False | Some s \<Rightarrow> s \<le> tp_now t)"

definition wait_unless :: "nat \<Rightarrow> transport \<Rightarrow> transport" where
  "wait_unless n t =
     (let until = (case nt_stop_at (tp_net t) of None \<Rightarrow> tp_now t + n | Some s \<Rightarrow> min (max s (tp_now t)) (tp_now t + n))
      in t\<lparr>tp_net := (tp_net t)\<lparr>nt_now := until\<rparr>\<rparr>)"

definition transport_ops :: "transport link_ops" where
  "transport_ops =
     \<lparr>lk_now = (\<lambda>t. tp_now t), lk_wait = wait_unless, lk_cancelled = stopped,
      lk_connect = (\<lambda>t. case t_connect (tp_net t) of Inr t' \<Rightarrow> (True, t') | Inl (e, n) \<Rightarrow> (False, t\<lparr>tp_net := n\<rparr>)),
      lk_poke_once = tp_poke_once, lk_forbid_copy = (\<lambda>t. t\<lparr>tp_poke_once := False\<rparr>),
      lk_watch_slots = tp_watch_slots, lk_rdram = tp_rdram_bytes, lk_rom_bytes = tp_rom_bytes,
      lk_peek = t_peek, lk_peek_rom = t_peek_rom, lk_watch = t_watch, lk_take_events = t_take_events,
      lk_send_poke = t_send_poke, lk_resend_poke = t_resend_poke, lk_await_poke = t_await_poke\<rparr>"

subsection \<open>What waiting for a reply changes\<close>

text \<open>What no request changes: what the \<open>HELLO\<close> said, and what the world has in store.\<close>

definition tp_frame where
  "tp_frame t = (nt_links (tp_net t), nt_stop_at (tp_net t), tp_poke_once t, tp_writable t,
     tp_whole_requests t, tp_rom_bytes t, tp_rdram_bytes t, tp_watch_slots t)"

lemma tp_frame_upd [simp]:
  "tp_frame (t\<lparr>tp_in := i\<rparr>) = tp_frame t" "tp_frame (t\<lparr>tp_pending := p\<rparr>) = tp_frame t"
  "tp_frame (t\<lparr>tp_decoder := d\<rparr>) = tp_frame t" "tp_frame (t\<lparr>tp_outstanding := q\<rparr>) = tp_frame t"
  "tp_frame (t\<lparr>tp_quick_resends := n\<rparr>) = tp_frame t" "tp_frame (t\<lparr>tp_events := es\<rparr>) = tp_frame t"
  "tp_frame (t\<lparr>tp_dropped_new := n\<rparr>) = tp_frame t" "tp_frame (t\<lparr>tp_dropped_seen := d'\<rparr>) = tp_frame t"
  "tp_frame (t\<lparr>tp_last_answer := a\<rparr>) = tp_frame t" "tp_frame (t\<lparr>tp_srtt := r\<rparr>) = tp_frame t"
  "tp_frame (t\<lparr>tp_rtt_samples := n\<rparr>) = tp_frame t" "tp_frame (t\<lparr>tp_echo_reported := e\<rparr>) = tp_frame t"
  "tp_frame (t\<lparr>tp_net := (tp_net t)\<lparr>nt_now := now\<rparr>\<rparr>) = tp_frame t"
  "tp_frame (t\<lparr>tp_net := (tp_net t)\<lparr>nt_send := sn, nt_sent := st\<rparr>\<rparr>) = tp_frame t"
  "tp_frame (t\<lparr>tp_requests := n, tp_next_rid := rid\<rparr>) = tp_frame t"
  by (simp_all add: tp_frame_def)

text \<open>\<open>t'\<close> comes after \<open>t\<close> while one request waits: at most its own bytes went out again, and only
  when an early copy was due (\<open>q\<close>).\<close>

definition await_rel :: "bool \<Rightarrow> transport \<Rightarrow> transport \<Rightarrow> bool" where
  "await_rel q t t' \<longleftrightarrow>
     tp_now t \<le> tp_now t' \<and> tp_frame t' = tp_frame t \<and>
     (case tp_outstanding t of
        None \<Rightarrow> tp_outstanding t' = None \<and> tp_sent t' = tp_sent t
      | Some o' \<Rightarrow>
          (tp_outstanding t' = None \<or> (\<exists>c. tp_outstanding t' = Some (o'\<lparr>os_copied := c\<rparr>))) \<and>
          (tp_sent t' = tp_sent t \<or> q \<and> tp_sent t' = tp_sent t @ [os_app o']))"

text \<open>The same, when nothing goes out.\<close>

definition calm_rel :: "transport \<Rightarrow> transport \<Rightarrow> bool" where
  "calm_rel t t' \<longleftrightarrow>
     tp_now t \<le> tp_now t' \<and> tp_frame t' = tp_frame t \<and> tp_sent t' = tp_sent t \<and>
     tp_outstanding t' = tp_outstanding t"

lemma calm_rel_refl [simp]: "calm_rel t t"
  by (simp add: calm_rel_def)

lemma calm_await: "calm_rel t t1 \<Longrightarrow> await_rel q t1 t' \<Longrightarrow> await_rel q t t'"
  by (auto simp: calm_rel_def await_rel_def split: option.splits)

lemma calm_calm: "calm_rel t t1 \<Longrightarrow> calm_rel t1 t' \<Longrightarrow> calm_rel t t'"
  by (auto simp: calm_rel_def)

lemma calm_is_await: "calm_rel t t' \<Longrightarrow> await_rel q t t'"
  by (auto simp: calm_rel_def await_rel_def split: option.splits)
    (metis outstanding.surjective outstanding.update_convs(5))

lemma await_rel_weaken: "await_rel q t t' \<Longrightarrow> (q \<Longrightarrow> q') \<Longrightarrow> await_rel q' t t'"
  by (auto simp: await_rel_def split: option.splits)

lemma keep_watch_trailer_calm: "keep_watch_trailer resp t = (resp', t1) \<Longrightarrow> calm_rel t t1"
  by (auto simp: keep_watch_trailer_def calm_rel_def split: response.splits)

lemma os_copied_same [simp]: "\<exists>c. o' = o'\<lparr>os_copied := c\<rparr>"
  by (rule exI [of _ "os_copied o'"]) simp

lemma drain_pending_rel:
  "drain_pending w apps t = (res, t') \<Longrightarrow>
   (res = None \<longrightarrow> calm_rel t t') \<and> (\<forall>q. await_rel q t t') \<and>
   (\<forall>resp. res = Some (Inr resp) \<longrightarrow> want_matches w resp \<and> (\<forall>rid code. resp \<noteq> ErrResp rid code))"
proof (induction w apps t rule: drain_pending.induct)
  case (1 w t)
  have "calm_rel t (t\<lparr>tp_pending := []\<rparr>)" by (simp add: calm_rel_def)
  with 1 show ?case by (auto intro: calm_is_await)
next
  case (2 w app apps t)
  show ?case
  proof (cases "parse app")
    case (Inl e)
    have "calm_rel t (t\<lparr>tp_echo_reported := True\<rparr>)" "calm_rel t (t\<lparr>tp_pending := apps\<rparr>)"
      by (simp_all add: calm_rel_def)
    with Inl 2 show ?thesis
      by (cases e) (auto intro: calm_is_await calm_await calm_calm)
  next
    case (Inr resp)
    obtain resp' t1 where k: "keep_watch_trailer resp t = (resp', t1)" by fastforce
    note calm = keep_watch_trailer_calm [OF k]
    show ?thesis
    proof (cases "want_matches w resp'")
      case False
      with Inr k 2 calm show ?thesis by (auto intro: calm_await calm_calm)
    next
      case True
      have "await_rel q t1 ((answered w t1)\<lparr>tp_pending := apps\<rparr>)" for q
        by (auto simp: await_rel_def answered_def Let_def split: option.splits want.splits)
      then have "await_rel q t ((answered w t1)\<lparr>tp_pending := apps\<rparr>)" for q
        using calm_await [OF calm] by blast
      with Inr k 2(4) True show ?thesis by (auto split: response.splits)
    qed
  qed
qed

lemma send_app_rel:
  assumes "send_app app t = (r, t')"
  shows "tp_now t' = tp_now t \<and> tp_frame t' = tp_frame t \<and> tp_outstanding t' = tp_outstanding t \<and>
    tp_in t' = tp_in t \<and>
    (tp_sent t' = tp_sent t \<and> r \<noteq> Inr () \<or> tp_sent t' = tp_sent t @ [app]) \<and>
    (\<forall>e. r = Inl e \<longrightarrow> e = CartIo OtherKind)"
  using assms by (auto simp: send_app_def Let_def split: sum.splits if_splits)

lemma quick_step_rel:
  assumes "quick_step q t = (r, q', t')"
  shows "await_rel (q \<noteq> None) t t' \<and> (q' = None \<or> q' = q \<and> t' = t) \<and> (q = None \<longrightarrow> t' = t) \<and>
    (\<forall>e. r = Inl e \<longrightarrow> e = CartIo OtherKind)"
proof (cases "tp_outstanding t")
  case None
  then show ?thesis
    using assms by (auto simp: quick_step_def send_quick_copy_def await_rel_def split: option.splits if_splits)
next
  case (Some o')
  let ?t1 = "t\<lparr>tp_outstanding := Some (o'\<lparr>os_copied := True\<rparr>), tp_quick_resends := tp_quick_resends t + 1\<rparr>"
  obtain r1 t1 where send: "send_app (os_app o') ?t1 = (r1, t1)" by fastforce
  show ?thesis
    using assms Some send send_app_rel [OF send]
    by (auto simp: quick_step_def send_quick_copy_def await_rel_def split: option.splits if_splits)
qed

text \<open>Two stretches of one wait: only one of them may send the early copy.\<close>

lemma await_rel_trans:
  assumes "await_rel q1 t t1" "await_rel q2 t1 t'" "\<not> (q1 \<and> q2) \<or> t1 = t"
  shows "await_rel (q1 \<or> q2) t t'"
  using assms by (auto simp: await_rel_def split: option.splits)

lemma ws_read_rel: "ws_read left t = (m, t') \<Longrightarrow> calm_rel t t'"
  by (auto simp: ws_read_def calm_rel_def tp_frame_def Let_def split: list.splits prod.splits if_splits)

lemma await_loop_rel:
  assumes "await_loop w dl q t = (r, t')"
  shows "await_rel (q \<noteq> None) t t' \<and> tp_now t' \<le> max dl (tp_now t) \<and>
    (\<forall>resp. r = Inr resp \<longrightarrow> want_matches w resp \<and> (\<forall>rid code. resp \<noteq> ErrResp rid code))"
  using assms
proof (induction w dl q t arbitrary: r t' rule: await_loop.induct)
  case (1 w dl q t)
  obtain res t1 where d: "drain_pending w (tp_pending t) t = (res, t1)" by fastforce
  note drel = drain_pending_rel [OF d]
  have d_now: "tp_now t1 = tp_now t" using drain_pending_net(1) [of w "tp_pending t" t] by (simp add: d)
  note step = "1.prems" [unfolded await_loop.simps [of w dl q t] d prod.case]
  show ?case
  proof (cases res)
    case (Some r1)
    with step drel d_now show ?thesis by auto
  next
    case None
    obtain rq q' t2 where qs: "quick_step q t1 = (rq, q', t2)" by (metis prod_cases3)
    note qrel = quick_step_rel [OF qs]
    have q_now: "tp_now t2 = tp_now t" using quick_step_same(2) [of q t1] d_now by (simp add: qs)
    have t2: "await_rel (q \<noteq> None) t t2" using drel None qrel calm_await by blast
    show ?thesis
    proof (cases "(\<exists>e. rq = Inl e) \<or> dl \<le> tp_now t2")
      case True
      with step None qs t2 q_now show ?thesis by (auto split: sum.splits if_splits)
    next
      case False
      then obtain u where rq: "rq = Inr u" and dl: "tp_now t2 < dl" by (cases rq) auto
      obtain m t3 where rd: "ws_read (read_until dl q' - tp_now t2) t2 = (m, t3)" by fastforce
      have lim: "tp_now t3 \<le> dl"
        using ws_read_step(2) [OF rd] dl by (auto simp: read_until_def split: option.splits)
      have calm3: "calm_rel t2 t3" by (rule ws_read_rel [OF rd])
      have q': "\<not> (q \<noteq> None \<and> q' \<noteq> None) \<or> t2 = t1" using qrel by blast
      have fin: "await_rel (q \<noteq> None) t t'" if "calm_rel t2 tx" "await_rel (q' \<noteq> None) tx t'" for tx
      proof -
        have "await_rel (q \<noteq> None \<or> q' \<noteq> None) t1 t'"
          by (rule await_rel_trans [OF _ calm_await [OF that]]) (use qrel in auto)
        then have "await_rel (q \<noteq> None) t1 t'" by (rule await_rel_weaken) (use qrel in auto)
        with drel None show ?thesis using calm_await by blast
      qed
      let ?bin = "\<lambda>d fs. t3\<lparr>tp_decoder := d, tp_pending := data_payloads fs\<rparr>"
      have calmb: "calm_rel t2 (?bin d fs)" for d fs
        by (rule calm_calm [OF calm3]) (simp add: calm_rel_def)
      have ndl: "\<not> dl \<le> tp_now t2" using dl by simp
      note IH = "1.IH" [OF d [symmetric] None qs [symmetric] rq refl ndl rd [symmetric]]
      have lim': "max dl (tp_now t3) = max dl (tp_now t)" using lim dl q_now by simp
      show ?thesis
      proof (cases m)
        case None
        with step \<open>res = None\<close> qs rq ndl rd have "await_loop w dl q' t3 = (r, t')" by simp
        from IH(1) [OF None this] fin [OF calm3] lim' show ?thesis by auto
      next
        case (Some msg)
        show ?thesis
        proof (cases msg)
          case (WsBinary bytes)
          obtain fs dd where pb: "push_bytes (tp_decoder t3) bytes = (fs, dd)" by fastforce
          with step None qs rq ndl rd Some WsBinary
          have "await_loop w dl q' (?bin dd fs) = (r, t')" by simp
          from IH(2) [OF Some WsBinary pb [symmetric] this] fin [OF calmb] lim' show ?thesis by auto
        next
          case WsControl
          with step None qs rq ndl rd Some have "await_loop w dl q' t3 = (r, t')" by simp
          from IH(3) [OF Some WsControl this] fin [OF calm3] lim' show ?thesis by auto
        qed (use step None qs rq ndl rd Some fin [OF calm3] lim calm_is_await [OF calm_rel_refl] in auto)
      qed
    qed
  qed
qed

lemma await_response_rel:
  assumes "await_response w t = (r, t')"
  shows "await_rel (\<exists>rid. w = WantRid rid \<and> quick_copy_at rid t \<noteq> None) t t' \<and>
    tp_now t' \<le> tp_now t + REPLY_TIMEOUT \<and>
    (\<forall>resp. r = Inr resp \<longrightarrow> want_matches w resp \<and> (\<forall>rid code. resp \<noteq> ErrResp rid code))"
proof -
  let ?q = "case w of WantRid rid \<Rightarrow> quick_copy_at rid t | WantHello \<Rightarrow> None"
  from await_loop_rel [of w "tp_now t + REPLY_TIMEOUT" ?q t r t'] assms
  have "await_rel (?q \<noteq> None) t t' \<and> tp_now t' \<le> tp_now t + REPLY_TIMEOUT \<and>
    (\<forall>resp. r = Inr resp \<longrightarrow> want_matches w resp \<and> (\<forall>rid code. resp \<noteq> ErrResp rid code))"
    by (simp add: await_response_def)
  then show ?thesis by (auto elim: await_rel_weaken split: want.splits)
qed

lemma quick_copy_at_Some:
  "quick_copy_at rid t = Some q \<Longrightarrow>
   \<exists>o'. tp_outstanding t = Some o' \<and> os_rid o' = rid \<and> os_may_copy o' \<and> \<not> os_copied o' \<and> tp_whole_requests t"
  by (auto simp: quick_copy_at_def split: option.splits if_splits)

subsection \<open>What goes to the cart\<close>

definition wire_of :: "octets \<Rightarrow> wire_ev" where
  "wire_of app =
     (if app ! 4 = MSG_POKEV then WriteReq (be16_at app 5)
      else if app ! 4 = MSG_HELLO then HelloReq else OtherReq)"

definition tp_wire :: "transport \<Rightarrow> wire_ev list" where
  "tp_wire t = map wire_of (tp_sent t)"

definition owns_write :: "u16 \<Rightarrow> transport \<Rightarrow> bool" where
  "owns_write rid t \<longleftrightarrow> (\<forall>o'. tp_outstanding t = Some o' \<longrightarrow> wire_of (os_app o') = WriteReq rid)"

lemma wire_of_pokev: "encode_pokev rid ws = Inr app \<Longrightarrow> wire_of app = WriteReq rid"
  by (auto simp: encode_pokev_def wire_of_def m64p_header_def M64P_MAGIC_def be16_def be16_at_def
      bind_result_Inr_iff)

lemma wire_of_peek:
  "encode_peek msg rid regions = Inr app \<Longrightarrow> msg \<noteq> MSG_POKEV \<Longrightarrow> msg \<noteq> MSG_HELLO \<Longrightarrow> wire_of app = OtherReq"
  by (auto simp: encode_peek_def wire_of_def m64p_header_def M64P_MAGIC_def bind_result_Inr_iff)

lemma wire_of_others:
  "encode_peekv rid regions = Inr app \<Longrightarrow> wire_of app = OtherReq"
  "encode_peekrom rid regions = Inr app \<Longrightarrow> wire_of app = OtherReq"
  "encode_watch rid slots = Inr app \<Longrightarrow> wire_of app = OtherReq"
  "wire_of encode_hello = HelloReq"
proof -
  show "encode_peekv rid regions = Inr app \<Longrightarrow> wire_of app = OtherReq"
    unfolding encode_peekv_def by (erule wire_of_peek) (simp_all add: MSG_PEEKV_def MSG_POKEV_def MSG_HELLO_def)
  show "encode_peekrom rid regions = Inr app \<Longrightarrow> wire_of app = OtherReq"
    unfolding encode_peekrom_def by (erule wire_of_peek) (simp_all add: MSG_PEEKROM_def MSG_POKEV_def MSG_HELLO_def)
  show "encode_watch rid slots = Inr app \<Longrightarrow> wire_of app = OtherReq"
    by (auto simp: encode_watch_def wire_of_def M64P_MAGIC_def bind_result_Inr_iff MSG_WATCH_def
        MSG_POKEV_def MSG_HELLO_def split: if_splits)
  show "wire_of encode_hello = HelloReq"
    by (simp add: encode_hello_def m64p_header_def wire_of_def M64P_MAGIC_def MSG_POKEV_def MSG_HELLO_def)
qed

lemma await_rel_wire:
  assumes "await_rel q t t'" "\<forall>o'. tp_outstanding t = Some o' \<longrightarrow> wire_of (os_app o') = ev"
  shows "(\<exists>k \<le> 1. tp_wire t' = tp_wire t @ replicate k ev) \<and>
    (\<forall>o'. tp_outstanding t' = Some o' \<longrightarrow> wire_of (os_app o') = ev)"
  using assms
  by (auto simp: await_rel_def tp_wire_def split: option.splits intro: exI [of _ 0] exI [of _ 1])

lemma take_rid_rel: "take_rid t = (rid, t1) \<Longrightarrow> calm_rel t t1 \<and> tp_wire t1 = tp_wire t \<and> tp_outstanding t1 = tp_outstanding t"
  by (auto simp: take_rid_def calm_rel_def tp_wire_def)

lemma send_request_rel:
  assumes "send_request rid app mc t = (r, t')"
  shows "tp_now t' = tp_now t \<and> tp_frame t' = tp_frame t \<and>
    (r = Inr () \<and> tp_wire t' = tp_wire t @ [wire_of app] \<and> (\<exists>o'. tp_outstanding t' = Some o' \<and> os_app o' = app \<and> os_may_copy o' = mc \<and> os_rid o' = rid)
     \<or> r = Inl (CartIo OtherKind) \<and> (tp_wire t' = tp_wire t \<or> tp_wire t' = tp_wire t @ [wire_of app])
       \<and> tp_outstanding t' = tp_outstanding t)"
proof -
  obtain r1 t1 where s: "send_app app t = (r1, t1)" by fastforce
  from send_app_rel [OF s] s assms show ?thesis
    by (cases r1) (auto simp: send_request_def tp_wire_def)
qed

lemma request_under_rel:
  assumes "request_under enc mc t = (r, t')" "\<And>rid app. enc rid = Inr app \<Longrightarrow> wire_of app = OtherReq"
  shows "tp_now t \<le> tp_now t' \<and> tp_frame t' = tp_frame t \<and> (\<exists>k. tp_wire t' = tp_wire t @ replicate k OtherReq)"
proof -
  obtain rid t1 where t1: "take_rid t = (rid, t1)" by fastforce
  note rel1 = take_rid_rel [OF t1]
  show ?thesis
  proof (cases "enc rid")
    case (Inl e)
    with assms(1) t1 rel1 show ?thesis
      by (auto simp: request_under_def wire_result_def calm_rel_def intro: exI [of _ 0])
  next
    case (Inr app)
    obtain r2 t2 where s: "send_request rid app mc t1 = (r2, t2)" by fastforce
    note rel2 = send_request_rel [OF s]
    show ?thesis
    proof (cases r2)
      case (Inl e)
      with assms t1 rel1 Inr s rel2 show ?thesis
        by (auto simp: request_under_def wire_result_def calm_rel_def intro: exI [of _ 0] exI [of _ 1])
    next
      case r2: (Inr u)
      then have aw: "await_response (WantRid rid) t2 = (r, t')"
        using assms(1) t1 Inr s by (simp add: request_under_def wire_result_def)
      note rel3 = await_response_rel [OF aw]
      have own: "\<forall>o'. tp_outstanding t2 = Some o' \<longrightarrow> wire_of (os_app o') = OtherReq"
        using rel2 r2 assms(2) [OF Inr] by auto
      obtain k where "tp_wire t' = tp_wire t2 @ replicate k OtherReq"
        using await_rel_wire [OF conjunct1 [OF rel3] own] by blast
      then have "tp_wire t' = tp_wire t @ replicate (Suc k) OtherReq"
        using rel1 rel2 r2 assms(2) [OF Inr] by simp
      moreover have "tp_now t \<le> tp_now t' \<and> tp_frame t' = tp_frame t"
        using rel1 rel2 rel3 by (auto simp: calm_rel_def await_rel_def)
      ultimately show ?thesis by blast
    qed
  qed
qed

lemma t_peek_rel:
  assumes "t_peek regions t = (r, t')"
  shows "tp_now t \<le> tp_now t' \<and> tp_frame t' = tp_frame t \<and> (\<exists>k. tp_wire t' = tp_wire t @ replicate k OtherReq)"
proof -
  obtain r1 t1 where req: "request_under (\<lambda>rid. encode_peekv rid regions) True t = (r1, t1)" by fastforce
  note rel = request_under_rel [OF req wire_of_others(1)]
  show ?thesis
    using assms req rel
    by (auto simp: t_peek_def split: if_splits sum.splits response.splits intro: exI [of _ 0])
qed

lemma t_peek_rom_rel:
  assumes "t_peek_rom regions t = (r, t')"
  shows "tp_now t \<le> tp_now t' \<and> tp_frame t' = tp_frame t \<and> (\<exists>k. tp_wire t' = tp_wire t @ replicate k OtherReq)"
proof -
  obtain r1 t1 where req: "request_under (\<lambda>rid. encode_peekrom rid regions) True t = (r1, t1)" by fastforce
  note rel = request_under_rel [OF req wire_of_others(2)]
  show ?thesis
    using assms req rel
    by (auto simp: t_peek_rom_def split: if_splits sum.splits response.splits intro: exI [of _ 0])
qed

lemma t_watch_rel:
  assumes "t_watch slots t = (r, t')"
  shows "tp_now t \<le> tp_now t' \<and> tp_frame t' = tp_frame t \<and> (\<exists>k. tp_wire t' = tp_wire t @ replicate k OtherReq)"
proof -
  obtain r1 t1 where req: "request_under (\<lambda>rid. encode_watch rid slots) False t = (r1, t1)" by fastforce
  note rel = request_under_rel [OF req wire_of_others(3)]
  show ?thesis
    using assms req rel
    by (auto simp: t_watch_def tp_wire_def split: sum.splits response.splits)
qed

lemma t_send_poke_rel:
  assumes "t_send_poke ws t = (r, t')"
  shows "tp_now t' = tp_now t \<and> tp_frame t' = tp_frame t \<and>
    (case r of
       Inr rid \<Rightarrow> tp_wire t' = tp_wire t @ [WriteReq rid] \<and> owns_write rid t'
     | Inl e \<Rightarrow> e = CartIo OtherKind \<and> (tp_wire t' = tp_wire t \<or> (\<exists>rid. tp_wire t' = tp_wire t @ [WriteReq rid])))"
proof (cases "tp_writable t")
  case False
  with assms show ?thesis by (auto simp: t_send_poke_def)
next
  case True
  obtain rid t1 where t1: "take_rid t = (rid, t1)" by fastforce
  note rel1 = take_rid_rel [OF t1]
  have now1: "tp_now t1 = tp_now t" using t1 by (auto simp: take_rid_def)
  show ?thesis
  proof (cases "encode_pokev rid ws")
    case (Inl e)
    with assms True t1 rel1 now1 show ?thesis by (auto simp: t_send_poke_def wire_result_def calm_rel_def)
  next
    case (Inr app)
    obtain r2 t2 where s: "send_request rid app (tp_poke_once t1) t1 = (r2, t2)" by fastforce
    note rel2 = send_request_rel [OF s]
    show ?thesis
      using assms True t1 Inr s rel1 rel2 now1 wire_of_pokev [OF Inr]
      by (auto simp: t_send_poke_def wire_result_def calm_rel_def owns_write_def split: sum.splits)
  qed
qed

lemma t_resend_poke_rel:
  assumes "t_resend_poke rid ws t = (r, t')"
  shows "tp_now t' = tp_now t \<and> tp_frame t' = tp_frame t \<and> tp_outstanding t' = tp_outstanding t \<and>
    (tp_wire t' = tp_wire t \<or> tp_wire t' = tp_wire t @ [WriteReq rid])"
proof (cases "encode_pokev rid ws")
  case (Inl e)
  with assms show ?thesis by (auto simp: t_resend_poke_def wire_result_def split: if_splits)
next
  case (Inr app)
  obtain r1 t1 where s: "send_app app t = (r1, t1)" by fastforce
  from assms Inr s send_app_rel [OF s] wire_of_pokev [OF Inr] show ?thesis
    by (auto simp: t_resend_poke_def wire_result_def tp_wire_def split: if_splits)
qed

lemma t_await_poke_rel:
  assumes "t_await_poke rid n t = (r, t')"
  shows "tp_now t \<le> tp_now t' \<and> tp_now t' \<le> tp_now t + REPLY_TIMEOUT \<and> tp_frame t' = tp_frame t \<and>
    (owns_write rid t \<longrightarrow> owns_write rid t' \<and> (\<exists>k \<le> 1. tp_wire t' = tp_wire t @ replicate k (WriteReq rid)))"
proof -
  obtain r1 t1 where aw: "await_response (WantRid rid) t = (r1, t1)" by fastforce
  note rel = await_response_rel [OF aw]
  have t': "t' = t1" using assms aw by (auto simp: t_await_poke_def split: sum.splits response.splits)
  have "owns_write rid t \<longrightarrow> owns_write rid t' \<and> (\<exists>k \<le> 1. tp_wire t' = tp_wire t @ replicate k (WriteReq rid))"
    unfolding t' owns_write_def using await_rel_wire [OF conjunct1 [OF rel], of "WriteReq rid"] by blast
  with rel show ?thesis unfolding t' by (simp add: await_rel_def)
qed

lemma t_connect_rel:
  assumes "t_connect n = res"
  shows "case res of
      Inr t' \<Rightarrow> nt_now n \<le> tp_now t' \<and> (\<exists>k. map wire_of (tp_sent t') = map wire_of (nt_sent n) @ replicate k HelloReq)
        \<and> nt_stop_at (tp_net t') = nt_stop_at n
    | Inl (e, n') \<Rightarrow> nt_now n \<le> nt_now n' \<and> (\<exists>k. map wire_of (nt_sent n') = map wire_of (nt_sent n) @ replicate k HelloReq)
        \<and> nt_stop_at n' = nt_stop_at n"
proof (cases "nt_links n")
  case Nil
  with assms show ?thesis by (auto simp: t_connect_def intro: exI [of _ 0])
next
  case (Cons l ls)
  let ?n1 = "n\<lparr>nt_links := ls\<rparr>"
  let ?t0 = "transport_new ?n1 (ls_in l)"
  obtain r1 t1 where s: "send_app encode_hello ?t0 = (r1, t1)" by fastforce
  obtain r2 t2 where aw: "await_response WantHello t1 = (r2, t2)" by fastforce
  note rel1 = send_app_rel [OF s]
  have f0: "tp_now ?t0 = nt_now n" "tp_sent ?t0 = nt_sent n" "tp_outstanding ?t0 = None"
    "nt_stop_at (tp_net ?t0) = nt_stop_at n"
    by (simp_all add: transport_new_def)
  have hello: "\<exists>k. map wire_of (tp_sent t1) = map wire_of (nt_sent n) @ replicate k HelloReq"
    using rel1 f0 wire_of_others(4) by (auto intro: exI [of _ 0] exI [of _ 1])
  have rel2: "tp_now t1 \<le> tp_now t2" "tp_sent t2 = tp_sent t1" "tp_frame t2 = tp_frame t1"
    using await_response_rel [OF aw] rel1 f0 by (auto simp: await_rel_def split: option.splits)
  have stop: "nt_stop_at (tp_net t1) = nt_stop_at n" "nt_stop_at (tp_net t2) = nt_stop_at n"
    using rel1 rel2(3) f0 by (auto simp: tp_frame_def)
  have done': "tp_net t3 = tp_net t2" if "hello_done st resp t2 = Inr t3" for st resp t3
    using that by (auto simp: hello_done_def Let_def split: response.splits if_splits)
  show ?thesis
  proof (cases "Option.bind (map_option parse_status (ls_body l)) ds_serial_active = Some False \<or> \<not> ls_open l")
    case True
    with assms Cons show ?thesis by (auto simp: t_connect_def Let_def intro: exI [of _ 0])
  next
    case False
    then have res: "res = (case send_app encode_hello ?t0 of
             (Inl e, t) \<Rightarrow> Inl (e, tp_net t)
           | (Inr _, t) \<Rightarrow>
               (case await_response WantHello t of
                  (Inl e, t1) \<Rightarrow> Inl (e, tp_net t1)
                | (Inr resp, t1) \<Rightarrow>
                    (case hello_done (map_option parse_status (ls_body l)) resp t1 of
                       Inl e \<Rightarrow> Inl (e, tp_net t1)
                     | Inr t2 \<Rightarrow> Inr t2)))"
      using assms Cons by (auto simp: t_connect_def Let_def)
    show ?thesis
      using res s aw rel1 f0 hello rel2 stop done'
      by (auto split: sum.splits)
  qed
qed

interpretation tp: poke_link transport_ops tp_wire owns_write
proof
  fix n c rid b c' e
  show "tp_wire (lk_wait transport_ops n c) = tp_wire c"
    "owns_write rid (lk_wait transport_ops n c) = owns_write rid c"
    "tp_wire (lk_forbid_copy transport_ops c) = tp_wire c"
    by (simp_all add: transport_ops_def wait_unless_def tp_wire_def owns_write_def Let_def)
  show "\<exists>k. tp_wire c' = tp_wire c @ replicate k HelloReq" if "lk_connect transport_ops c = (ok, c')" for ok
    using that t_connect_rel [of "tp_net c", OF refl]
    by (auto simp: transport_ops_def tp_wire_def split: sum.splits)
  show "\<exists>k. tp_wire c' = tp_wire c @ replicate k OtherReq"
    if "lk_peek_rom transport_ops rs c = (res, c')" for rs res
    using that t_peek_rom_rel by (simp add: transport_ops_def)
  show "tp_wire c' = tp_wire c @ [WriteReq rid] \<and> owns_write rid c'"
    if "lk_send_poke transport_ops b c = (Inr rid, c')"
    using t_send_poke_rel [of b c "Inr rid" c'] that by (simp add: transport_ops_def)
  show "e = CartIo OtherKind \<and> (tp_wire c' = tp_wire c \<or> (\<exists>rid. tp_wire c' = tp_wire c @ [WriteReq rid]))"
    if "lk_send_poke transport_ops b c = (Inl e, c')"
    using t_send_poke_rel [of b c "Inl e" c'] that by (simp add: transport_ops_def)
  show "(tp_wire c' = tp_wire c \<or> tp_wire c' = tp_wire c @ [WriteReq rid]) \<and> (owns_write rid c \<longrightarrow> owns_write rid c')"
    if "lk_resend_poke transport_ops rid b c = (res2, c')" for res2
    using t_resend_poke_rel [of rid b c res2 c'] that by (simp add: transport_ops_def owns_write_def)
  show "(\<exists>k. tp_wire c' = tp_wire c @ replicate k (WriteReq rid)) \<and> owns_write rid c'"
    if "lk_await_poke transport_ops rid n c = (res3, c')" "owns_write rid c" for res3
    using t_await_poke_rel [of rid n c res3 c'] that by (auto simp: transport_ops_def)
qed

text \<open>C1: Over the WebSocket transport itself, a write lands at most once, as long as the ROM header has
  not been read on this link: whatever the daemon sends and when, whichever sends fail, and however
  often the link is rebuilt, an agent that recognizes a repeated write applies this one at most once,
  whichever of the requests reach it.\<close>

theorem transport_write_lands_at_most_once:
  assumes "known_header m = None" and "poke_once transport_ops batch m = Some (r, m')"
  shows "\<exists>es. tp_wire (mu_link m') = tp_wire (mu_link m) @ es \<and>
    (\<forall>held ds. subseq ds es \<longrightarrow> agent_applies held ds \<le> 1)"
  by (rule tp.poke_at_most_once [OF assms])

subsection \<open>Every call returns\<close>

lemma later_transport:
  "later transport_ops t t' \<longleftrightarrow> tp_now t \<le> tp_now t' \<and> (stopped t \<longrightarrow> stopped t')"
  by (simp add: later_def transport_ops_def)

lemma frame_later:
  assumes "tp_now t \<le> tp_now t'" "tp_frame t' = tp_frame t"
  shows "later transport_ops t t'"
  using assms by (auto simp: later_transport stopped_def tp_frame_def split: option.splits)

interpretation tp: clocked_link transport_ops
proof
  fix c :: transport and n c' rid k
  show "later transport_ops c (lk_wait transport_ops n c)"
    unfolding later_transport
    by (auto simp: stopped_def transport_ops_def wait_unless_def Let_def split: option.split)
  show "lk_now transport_ops c + n \<le> lk_now transport_ops (lk_wait transport_ops n c) \<or>
      lk_cancelled transport_ops (lk_wait transport_ops n c)"
    by (auto simp: transport_ops_def wait_unless_def stopped_def Let_def split: option.split)
  show "later transport_ops c c'" if "lk_connect transport_ops c = (ok, c')" for ok
    using that t_connect_rel [of "tp_net c", OF refl] unfolding later_transport
    by (auto simp: transport_ops_def stopped_def split: sum.splits option.splits)
  show "later transport_ops c c'" if "lk_peek transport_ops rs c = (r1, c')" for rs r1
    using that t_peek_rel [of rs c r1 c'] by (intro frame_later) (simp_all add: transport_ops_def)
  show "later transport_ops c c'" if "lk_peek_rom transport_ops rs c = (r1, c')" for rs r1
    using that t_peek_rom_rel [of rs c r1 c'] by (intro frame_later) (simp_all add: transport_ops_def)
  show "later transport_ops c c'" if "lk_watch transport_ops ss c = (r2, c')" for ss r2
    using that t_watch_rel [of ss c r2 c'] by (intro frame_later) (simp_all add: transport_ops_def)
  show "later transport_ops c c'" if "lk_send_poke transport_ops b c = (r3, c')" for b r3
    using that t_send_poke_rel [of b c r3 c'] by (intro frame_later) (simp_all add: transport_ops_def)
  show "later transport_ops c c'" if "lk_resend_poke transport_ops rid b c = (r4, c')" for b r4
    using that t_resend_poke_rel [of rid b c r4 c'] by (intro frame_later) (simp_all add: transport_ops_def)
  show "later transport_ops c c'" if "lk_await_poke transport_ops rid k c = (r4, c')" for r4
    using that t_await_poke_rel [of rid k c r4 c'] by (intro frame_later) (simp_all add: transport_ops_def)
qed

text \<open>Every block a reply hands on is as long as it was asked for.\<close>

lemma check_regions_Inr:
  "check_regions asked got = Inr u \<longleftrightarrow> list_all2 (\<lambda>r block. length block = unat (rg_len r)) asked got"
  by (auto simp: check_regions_def list_all2_iff list_all_iff)

lemma t_peek_rom_lengths:
  "t_peek_rom regions t = (Inr got, t') \<Longrightarrow> list_all2 (\<lambda>r block. length block = unat (rg_len r)) regions got"
  by (auto simp: t_peek_rom_def regions_result_def bind_result_Inr_iff check_regions_Inr
      split: if_splits prod.splits sum.splits response.splits)

lemma t_peek_lengths:
  "t_peek regions t = (Inr got, t') \<Longrightarrow> list_all2 (\<lambda>r block. length block = unat (rg_len r)) regions got"
  by (auto simp: t_peek_def regions_result_def bind_result_Inr_iff check_regions_Inr
      split: if_splits prod.splits sum.splits response.splits)

lemma transport_pages: "answers_ok (lk_peek_rom transport_ops) whole_page"
  unfolding answers_ok_def
proof (intro allI impI)
  fix batch c out c'
  assume "lk_peek_rom transport_ops batch c = (Inr out, c')" and regs: "\<forall>r \<in> set batch. rom_page_region r"
  then have "list_all2 (\<lambda>r block. length block = unat (rg_len r)) batch out"
    by (intro t_peek_rom_lengths) (simp add: transport_ops_def)
  then show "page_answers whole_page batch out"
    using regs by (auto simp: page_answers_def whole_page_def rom_page_region_def list_all2_conv_all_nth)
qed


text \<open>A link that carries nothing at all.\<close>

definition dead_net :: net where
  "dead_net = \<lparr>nt_now = 0, nt_links = [], nt_send = [], nt_sent = [], nt_stop_at = None\<rparr>"


text \<open>A writable link to an agent that recognizes copies, over which nothing ever comes back.\<close>

definition silent_link :: transport where
  "silent_link = (transport_new dead_net [])\<lparr>tp_writable := True, tp_poke_once := True, tp_whole_requests := True\<rparr>"

theorem transport_write_lands_at_most_once_witness:
  "\<exists>r m' es. poke_once transport_ops [(0x1000, [1])] (multi64_connect silent_link) = Some (r, m') \<and>
     tp_wire (mu_link m') = [] @ es \<and> (\<forall>held ds. subseq ds es \<longrightarrow> agent_applies held ds \<le> 1)"
proof -
  let ?m = "multi64_connect silent_link"
  obtain r m' where run: "poke_once transport_ops [(0x1000, [1])] ?m = Some (r, m')"
    using tp.poke_once_returns [of "[(0x1000, [1])]" ?m] by fastforce
  have "known_header ?m = None" by (simp add: known_header_def multi64_connect_def)
  moreover have "tp_wire (mu_link ?m) = []"
    by (simp add: multi64_connect_def silent_link_def transport_new_def tp_wire_def dead_net_def)
  ultimately show ?thesis using transport_write_lands_at_most_once [OF _ run] run by auto
qed

text \<open>C15: Waiting for a reply takes no longer than the reply time-out, whatever arrives; what it returns
  is the answer to that very request, never an \<open>ERR\<close> taken for one; and it sends at most one thing,
  the waiting request once more, byte for byte: only if that request may go twice, has not yet, and
  the link keeps requests whole.\<close>

theorem await_response_disciplined:
  assumes "await_response w t = (r, t')"
  shows "tp_now t \<le> tp_now t' \<and> tp_now t' \<le> tp_now t + REPLY_TIMEOUT \<and>
    (\<forall>resp. r = Inr resp \<longrightarrow> want_matches w resp \<and> (\<forall>rid code. resp \<noteq> ErrResp rid code)) \<and>
    (tp_sent t' = tp_sent t \<or>
     (\<exists>o'. tp_outstanding t = Some o' \<and> w = WantRid (os_rid o') \<and> os_may_copy o' \<and> \<not> os_copied o' \<and>
        tp_whole_requests t \<and> tp_sent t' = tp_sent t @ [os_app o']))"
proof -
  note rel = await_response_rel [OF assms]
  have "tp_sent t' = tp_sent t \<or> (\<exists>rid q. w = WantRid rid \<and> quick_copy_at rid t = Some q \<and>
      tp_sent t' = tp_sent t @ [os_app (the (tp_outstanding t))])"
    using rel by (auto simp: await_rel_def split: option.splits)
  then have "tp_sent t' = tp_sent t \<or>
     (\<exists>o'. tp_outstanding t = Some o' \<and> w = WantRid (os_rid o') \<and> os_may_copy o' \<and> \<not> os_copied o' \<and>
        tp_whole_requests t \<and> tp_sent t' = tp_sent t @ [os_app o'])"
    using quick_copy_at_Some by fastforce
  with rel show ?thesis by (simp add: await_rel_def)
qed

theorem await_response_disciplined_witness:
  "\<exists>r t'. await_response (WantRid 1) silent_link = (r, t') \<and> tp_now t' \<le> REPLY_TIMEOUT \<and>
     tp_sent t' = []"
proof -
  obtain r t' where run: "await_response (WantRid 1) silent_link = (r, t')" by fastforce
  have "tp_now silent_link = 0" "tp_sent silent_link = []" "tp_outstanding silent_link = None"
    by (simp_all add: silent_link_def transport_new_def dead_net_def)
  with await_response_disciplined [OF run] run show ?thesis by auto
qed

end
