(* ===== verification/Rom_Image.thy ===== *)
theory Rom_Image
  imports M64_Prelude
begin

text \<open>
  ROM images as the patcher reads them (crates/ap64-core/src/rom.rs) and the checksum IPL3
  verifies at boot (crates/ap64-core/src/crc.rs). A run of the patcher ends in one of three ways,
  \<open>outcome\<close>: with a value, with an error it reports, or in a panic (an index or a slice past the
  end). SHA-1 is a third-party crate, the parameter \<open>sha1\<close> of the definitions that use it.
\<close>

subsection \<open>Outcomes\<close>

datatype ('e, 'a) outcome = Done 'a | Refused 'e | Panicked

definition bind_outcome :: "('e, 'a) outcome \<Rightarrow> ('a \<Rightarrow> ('e, 'b) outcome) \<Rightarrow> ('e, 'b) outcome" where
  "bind_outcome r f = (case r of Done v \<Rightarrow> f v | Refused e \<Rightarrow> Refused e | Panicked \<Rightarrow> Panicked)"

definition of_result :: "'e + 'a \<Rightarrow> ('e, 'a) outcome" where
  "of_result r = (case r of Inl e \<Rightarrow> Refused e | Inr v \<Rightarrow> Done v)"

text \<open>An index or a slice that panics when it is out of range.\<close>

definition or_panic :: "'a option \<Rightarrow> ('e, 'a) outcome" where
  "or_panic r = (case r of None \<Rightarrow> Panicked | Some v \<Rightarrow> Done v)"

definition map_refused :: "('e \<Rightarrow> 'f) \<Rightarrow> ('e, 'a) outcome \<Rightarrow> ('f, 'a) outcome" where
  "map_refused f r = (case r of Done v \<Rightarrow> Done v | Refused e \<Rightarrow> Refused (f e) | Panicked \<Rightarrow> Panicked)"

lemma bind_outcome_simps [simp, m64_result]:
  "bind_outcome (Done v) f = f v"
  "bind_outcome (Refused e) f = Refused e"
  "bind_outcome Panicked f = Panicked"
  by (simp_all add: bind_outcome_def)

lemma bind_outcome_Done_iff [m64_result]:
  "bind_outcome r f = Done w \<longleftrightarrow> (\<exists>v. r = Done v \<and> f v = Done w)"
  by (cases r) auto

lemma of_result_simps [simp, m64_result]:
  "of_result (Inl e) = Refused e"
  "of_result (Inr v) = Done v"
  by (simp_all add: of_result_def)

lemma of_result_Done_iff [simp, m64_result]: "of_result r = Done v \<longleftrightarrow> r = Inr v"
  by (cases r) auto

lemma or_panic_simps [simp, m64_result]:
  "or_panic None = Panicked"
  "or_panic (Some v) = Done v"
  by (simp_all add: or_panic_def)

lemma or_panic_Done_iff [simp, m64_result]: "or_panic r = Done v \<longleftrightarrow> r = Some v"
  by (cases r) auto

lemma map_refused_Done_iff [simp, m64_result]: "map_refused f r = Done v \<longleftrightarrow> r = Done v"
  by (cases r) (auto simp: map_refused_def)

text \<open>A loop that an error or a panic ends: \<open>for x in xs { .. ? .. }\<close>.\<close>

fun fold_outcome :: "('x \<Rightarrow> 's \<Rightarrow> ('e, 's) outcome) \<Rightarrow> 'x list \<Rightarrow> 's \<Rightarrow> ('e, 's) outcome" where
  "fold_outcome f [] s = Done s"
| "fold_outcome f (x # xs) s = bind_outcome (f x s) (fold_outcome f xs)"

lemma fold_outcome_append:
  "fold_outcome f (xs @ ys) s = bind_outcome (fold_outcome f xs s) (fold_outcome f ys)"
proof (induction xs arbitrary: s)
  case (Cons x xs)
  then show ?case by (cases "f x s") simp_all
qed simp

lemma fold_outcome_invariant:
  assumes "fold_outcome f xs s = Done s'" "P s"
    and "\<And>x s s'. x \<in> set xs \<Longrightarrow> P s \<Longrightarrow> f x s = Done s' \<Longrightarrow> P s'"
  shows "P s'"
  using assms
proof (induction xs arbitrary: s)
  case (Cons x xs)
  then obtain t where "f x s = Done t" "fold_outcome f xs t = Done s'"
    by (auto simp: bind_outcome_Done_iff)
  then show ?case using Cons.IH [of t] Cons.prems by (metis list.set_intros)
qed simp

subsection \<open>Byte orders (rom.rs)\<close>

datatype byte_order = Z64 | V64 | N64

definition byte_order_of :: "octets \<Rightarrow> byte_order option" where
  "byte_order_of d =
     (case get_range d 0 4 of
        None \<Rightarrow> None
      | Some w \<Rightarrow>
          if w = [0x80, 0x37, 0x12, 0x40] then Some Z64
          else if w = [0x37, 0x80, 0x40, 0x12] then Some V64
          else if w = [0x40, 0x12, 0x37, 0x80] then Some N64
          else None)"

fun swap_pairs :: "octets \<Rightarrow> octets" where
  "swap_pairs (a # b # xs) = b # a # swap_pairs xs"
| "swap_pairs xs = xs"

fun rev_quads :: "octets \<Rightarrow> octets" where
  "rev_quads (a # b # c # d # xs) = d # c # b # a # rev_quads xs"
| "rev_quads xs = xs"

fun to_big_endian :: "octets \<Rightarrow> byte_order \<Rightarrow> octets" where
  "to_big_endian d Z64 = d"
| "to_big_endian d V64 = swap_pairs d"
| "to_big_endian d N64 = rev_quads d"

subsection \<open>Header and words (rom.rs)\<close>

record rom_header =
  rh_name :: string
  rh_game_code :: string
  rh_version :: u8

text \<open>\<open>is_ascii_graphic() || b == b' '\<close>, everything else a full stop.\<close>

definition shown_char :: "u8 \<Rightarrow> char" where
  "shown_char b =
     (if 0x21 \<le> b \<and> b \<le> 0x7E \<or> b = 0x20 then char_of (unat b) else CHR ''.'')"

text \<open>\<open>trim_end\<close>, on text whose only white space is the space.\<close>

definition trim_spaces_end :: "string \<Rightarrow> string" where
  "trim_spaces_end s = rev (dropWhile (\<lambda>c. c = CHR '' '') (rev s))"

definition header :: "octets \<Rightarrow> rom_header option" where
  "header rom =
     (if length rom < 0x1000 then None
      else Some \<lparr>rh_name = trim_spaces_end (map shown_char (slice 0x20 0x34 rom)),
                 rh_game_code = map shown_char (slice 0x3B 0x3F rom),
                 rh_version = rom ! 0x3F\<rparr>)"

definition read_u32 :: "octets \<Rightarrow> nat \<Rightarrow> u32 option" where
  "read_u32 rom i = map_option (\<lambda>b. of_be32 (b ! 0) (b ! 1) (b ! 2) (b ! 3)) (get_range rom i (i + 4))"

text \<open>The slice it copies into panics when the word is past the end.\<close>

definition write_u32 :: "octets \<Rightarrow> nat \<Rightarrow> u32 \<Rightarrow> octets option" where
  "write_u32 rom i v = (if i + 4 \<le> length rom then Some (splice i (be32 v) rom) else None)"

subsection \<open>The boot checksum (crc.rs)\<close>

definition CRC_START :: nat where "CRC_START = 0x1000"
definition CRC_END :: nat where "CRC_END = 0x101000"
definition CRC_OFFSET :: nat where "CRC_OFFSET = 0x10"
definition IPL3_START :: nat where "IPL3_START = 0x40"
definition IPL3_END :: nat where "IPL3_END = 0x1000"

lemmas crc_bounds = CRC_START_def CRC_END_def CRC_OFFSET_def IPL3_START_def IPL3_END_def

datatype cic = Cic6101 | Cic6102 | Cic6103 | Cic6105

definition cic_of_string :: "string \<Rightarrow> cic option" where
  "cic_of_string s =
     (if s = ''6101'' then Some Cic6101
      else if s = ''6102'' then Some Cic6102
      else if s = ''6103'' then Some Cic6103
      else if s = ''6105'' then Some Cic6105
      else None)"

text \<open>\<open>{b:02x}\<close> of every byte.\<close>

definition hex_digit :: "nat \<Rightarrow> char" where
  "hex_digit n = (if n < 10 then char_of (48 + n) else char_of (87 + n))"

definition hex :: "octets \<Rightarrow> string" where
  "hex bs = concat (map (\<lambda>b. [hex_digit (unat b div 16), hex_digit (unat b mod 16)]) bs)"

definition KNOWN_IPL3 :: "(string \<times> cic) list" where
  "KNOWN_IPL3 =
     [(''eaadcb8cca9c6ba1445f98f1727bf4adbabb88b2'', Cic6101),
      (''b2afae246e1dab746bfb28cb346e2911965eefa1'', Cic6102),
      (''3f7347aa0426ee97d96721b09b918d4c9cddb69b'', Cic6103),
      (''4159269055e8a5be2e5c8e3e0f5e0d552f1e85ad'', Cic6105)]"

definition identify :: "(octets \<Rightarrow> octets) \<Rightarrow> octets \<Rightarrow> cic option" where
  "identify sha1 rom =
     (case get_range rom IPL3_START IPL3_END of
        None \<Rightarrow> None
      | Some ipl3 \<Rightarrow> map_option snd (find (\<lambda>(h, c). h = hex (sha1 ipl3)) KNOWN_IPL3))"

record crc_state =
  crc_t1 :: u32
  crc_t2 :: u32
  crc_t3 :: u32
  crc_t4 :: u32
  crc_t5 :: u32
  crc_t6 :: u32

fun crc_seed :: "cic \<Rightarrow> u32" where
  "crc_seed Cic6101 = 0xF8CA4DDC"
| "crc_seed Cic6102 = 0xF8CA4DDC"
| "crc_seed Cic6103 = 0xA3886759"
| "crc_seed Cic6105 = 0xDF26F436"

text \<open>One round of the loop, on the word at \<open>i\<close>.\<close>

definition crc_step :: "octets \<Rightarrow> cic \<Rightarrow> nat \<Rightarrow> crc_state \<Rightarrow> crc_state" where
  "crc_step rom c i s =
     (let d = be32_at rom i;
          total = crc_t6 s + d;
          n4 = (if total < crc_t6 s then crc_t4 s + 1 else crc_t4 s);
          n6 = total;
          n3 = crc_t3 s XOR d;
          rot = word_rotl (unat (d AND 0x1F)) d;
          n5 = crc_t5 s + rot;
          n2 = crc_t2 s XOR (if crc_t2 s > d then rot else n6 XOR d);
          n1 = crc_t1 s + (case c of
                 Cic6105 \<Rightarrow> be32_at rom (0x40 + 0x0710 + i mod 0x100) XOR d
               | _ \<Rightarrow> n5 XOR d)
      in \<lparr>crc_t1 = n1, crc_t2 = n2, crc_t3 = n3, crc_t4 = n4, crc_t5 = n5, crc_t6 = n6\<rparr>)"

text \<open>\<open>(CRC_START..CRC_END).step_by(4)\<close>\<close>

definition crc_offsets :: "nat list" where
  "crc_offsets = map (\<lambda>k. CRC_START + 4 * k) [0..<(CRC_END - CRC_START) div 4]"

fun crc_words :: "cic \<Rightarrow> crc_state \<Rightarrow> u32 \<times> u32" where
  "crc_words Cic6103 s = ((crc_t6 s XOR crc_t4 s) + crc_t3 s, (crc_t5 s XOR crc_t2 s) + crc_t1 s)"
| "crc_words c s = (crc_t6 s XOR crc_t4 s XOR crc_t3 s, crc_t5 s XOR crc_t2 s XOR crc_t1 s)"

text \<open>An image shorter than the summed range panics in \<open>word\<close>.\<close>

definition compute :: "octets \<Rightarrow> cic \<Rightarrow> (u32 \<times> u32) option" where
  "compute rom c =
     (if length rom < CRC_END then None
      else let seed = crc_seed c
           in Some (crc_words c (fold (crc_step rom c) crc_offsets
                \<lparr>crc_t1 = seed, crc_t2 = seed, crc_t3 = seed, crc_t4 = seed, crc_t5 = seed, crc_t6 = seed\<rparr>)))"

definition stored :: "octets \<Rightarrow> (u32 \<times> u32) option" where
  "stored rom =
     (case read_u32 rom CRC_OFFSET of
        None \<Rightarrow> None
      | Some a \<Rightarrow> map_option (\<lambda>b. (a, b)) (read_u32 rom (CRC_OFFSET + 4)))"

definition fix_checksum :: "octets \<Rightarrow> cic \<Rightarrow> (octets \<times> u32 \<times> u32) option" where
  "fix_checksum rom c =
     (case compute rom c of
        None \<Rightarrow> None
      | Some (a, b) \<Rightarrow>
          (case write_u32 rom CRC_OFFSET a of
             None \<Rightarrow> None
           | Some rom1 \<Rightarrow>
               (case write_u32 rom1 (CRC_OFFSET + 4) b of
                  None \<Rightarrow> None
                | Some rom2 \<Rightarrow> Some (rom2, a, b))))"

subsection \<open>Lemmas: words and byte orders\<close>

lemma read_u32_Some_iff:
  "read_u32 rom i = Some w \<longleftrightarrow> i + 4 \<le> length rom \<and> w = be32_at rom i"
  by (auto simp: read_u32_def get_range_def be32_at_def slice_def)

lemma read_u32_write [simp]: "i + 4 \<le> length rom \<Longrightarrow> read_u32 (splice i (be32 w) rom) i = Some w"
  using slice_splice_same [of i "be32 w" rom]
  by (simp add: read_u32_def get_range_def) (simp add: be32_def)

lemma be32_at_cong:
  "(\<And>k. i \<le> k \<Longrightarrow> k < i + 4 \<Longrightarrow> a ! k = b ! k) \<Longrightarrow> be32_at a i = be32_at b i"
  by (simp add: be32_at_def)

lemma read_u32_splice_apart:
  "at' + length src \<le> length rom \<Longrightarrow> i + 4 \<le> at' \<or> at' + length src \<le> i \<Longrightarrow>
   read_u32 (splice at' src rom) i = read_u32 rom i"
  by (auto simp: read_u32_def get_range_def slice_splice_apart)

lemma length_swap_pairs [simp]: "length (swap_pairs d) = length d"
  by (induction d rule: swap_pairs.induct) simp_all

lemma length_rev_quads [simp]: "length (rev_quads d) = length d"
  by (induction d rule: rev_quads.induct) simp_all

lemma swap_pairs_twice [simp]: "swap_pairs (swap_pairs d) = d"
  by (induction d rule: swap_pairs.induct) simp_all

lemma rev_quads_twice [simp]: "rev_quads (rev_quads d) = d"
  by (induction d rule: rev_quads.induct) simp_all

lemma to_big_endian_twice [simp]: "to_big_endian (to_big_endian d bo) bo = d"
  by (cases bo) simp_all

lemma length_to_big_endian [simp]: "length (to_big_endian d bo) = length d"
  by (cases bo) simp_all

lemma byte_order_of_to_big_endian:
  assumes "byte_order_of d = Some bo"
  shows "byte_order_of (to_big_endian d bo) = Some Z64"
proof -
  from assms have "4 \<le> length d" by (auto simp: byte_order_of_def get_range_def split: if_splits)
  then obtain a b c e xs where "d = a # b # c # e # xs"
    by (auto simp: numeral_eq_Suc Suc_le_length_iff)
  then show ?thesis
    using assms by (auto simp: byte_order_of_def get_range_def slice_def split: if_splits)
qed

subsection \<open>Lemmas: the checksum\<close>

lemma crc_offsets_bounds: "i \<in> set crc_offsets \<Longrightarrow> CRC_START \<le> i \<and> i + 4 \<le> CRC_END"
  by (auto simp: crc_offsets_def crc_bounds)

lemma crc_step_cong:
  assumes "\<And>k. IPL3_START \<le> k \<Longrightarrow> k < CRC_END \<Longrightarrow> a ! k = b ! k" "CRC_START \<le> i" "i + 4 \<le> CRC_END"
  shows "crc_step a c i = crc_step b c i"
proof -
  have "be32_at a i = be32_at b i"
    by (rule be32_at_cong) (rule assms(1), use assms(2,3) in \<open>simp_all add: crc_bounds\<close>)
  moreover have "be32_at a (0x40 + 0x0710 + i mod 0x100) = be32_at b (0x40 + 0x0710 + i mod 0x100)"
    using mod_less_divisor [of "0x100" i] by (intro be32_at_cong assms(1)) (auto simp: crc_bounds)
  ultimately show ?thesis
    by (intro ext) (simp add: crc_step_def Let_def split: cic.split)
qed

lemma compute_cong:
  assumes "length a = length b" "\<And>k. IPL3_START \<le> k \<Longrightarrow> k < length a \<Longrightarrow> a ! k = b ! k"
  shows "compute a c = compute b c"
proof (cases "CRC_END \<le> length a")
  case True
  have "crc_step a c i = crc_step b c i" if "i \<in> set crc_offsets" for i
    using crc_offsets_bounds [OF that] True by (intro crc_step_cong assms(2)) auto
  then have "fold (crc_step a c) crc_offsets s = fold (crc_step b c) crc_offsets s" for s
    by (intro fold_cong) auto
  then show ?thesis using assms(1) by (simp add: compute_def Let_def)
qed (use assms(1) in \<open>simp add: compute_def\<close>)

lemma compute_Some_iff: "(\<exists>v. compute rom c = Some v) \<longleftrightarrow> CRC_END \<le> length rom"
  by (auto simp: compute_def Let_def)

lemma fix_checksum_Some:
  assumes "fix_checksum rom c = Some (out, a, b)"
  shows "CRC_END \<le> length rom" "length out = length rom"
    "i < length rom \<Longrightarrow> i < CRC_OFFSET \<or> CRC_OFFSET + 8 \<le> i \<Longrightarrow> out ! i = rom ! i"
    "compute rom c = Some (a, b)" "compute out c = Some (a, b)" "stored out = Some (a, b)"
proof -
  from assms have sums: "compute rom c = Some (a, b)"
    and out: "out = splice (CRC_OFFSET + 4) (be32 b) (splice CRC_OFFSET (be32 a) rom)"
    by (auto simp: fix_checksum_def write_u32_def split: option.splits if_splits)
  then show len: "CRC_END \<le> length rom" using compute_Some_iff [of rom c] by auto
  then have fits: "CRC_OFFSET + 8 \<le> length rom" by (simp add: crc_bounds)
  with out show "length out = length rom" by simp
  show same: "out ! i = rom ! i" if "i < length rom" "i < CRC_OFFSET \<or> CRC_OFFSET + 8 \<le> i" for i
    using that fits by (auto simp: out nth_splice)
  have "out ! k = rom ! k" if "IPL3_START \<le> k" "k < length out" for k
    using that \<open>length out = length rom\<close> by (intro same) (simp_all add: crc_bounds)
  then show "compute out c = Some (a, b)"
    using compute_cong [of out rom c] \<open>length out = length rom\<close> sums by simp
  show "compute rom c = Some (a, b)" by (fact sums)
  show "stored out = Some (a, b)"
    using fits by (simp add: stored_def out read_u32_splice_apart)
qed

lemma fix_checksum_returns:
  assumes "CRC_END \<le> length rom"
  shows "\<exists>out a b. fix_checksum rom c = Some (out, a, b)"
proof -
  obtain a b where "compute rom c = Some (a, b)" using assms compute_Some_iff [of rom c] by auto
  then show ?thesis using assms by (simp add: fix_checksum_def write_u32_def crc_bounds)
qed

text \<open>C35: \<open>crc::fix\<close> returns on every image that holds the summed range; what it stores in the header is the checksum of
  the image it returns, nothing but those eight bytes changes, and fixing again changes nothing.\<close>

theorem fix_stores_the_checksum:
  assumes "CRC_END \<le> length rom"
  shows "\<exists>out a b. fix_checksum rom c = Some (out, a, b) \<and>
    stored out = compute out c \<and> compute out c = compute rom c \<and>
    length out = length rom \<and>
    take CRC_OFFSET out = take CRC_OFFSET rom \<and> drop (CRC_OFFSET + 8) out = drop (CRC_OFFSET + 8) rom \<and>
    fix_checksum out c = Some (out, a, b)"
proof -
  obtain out a b where fixed: "fix_checksum rom c = Some (out, a, b)"
    using fix_checksum_returns [OF assms] by blast
  note facts = fix_checksum_Some [OF fixed]
  have out: "out = splice (CRC_OFFSET + 4) (be32 b) (splice CRC_OFFSET (be32 a) rom)"
    using fixed by (auto simp: fix_checksum_def write_u32_def split: option.splits if_splits)
  have fits: "CRC_OFFSET + 8 \<le> length rom" using assms by (simp add: crc_bounds)
  have "splice (CRC_OFFSET + 4) (be32 b) (splice CRC_OFFSET (be32 a) out) = out"
    using fits by (intro nth_equalityI) (auto simp: out nth_splice)
  then have "fix_checksum out c = Some (out, a, b)"
    using facts(1,2,5) fits by (simp add: fix_checksum_def write_u32_def)
  moreover have "take CRC_OFFSET out = take CRC_OFFSET rom"
      "drop (CRC_OFFSET + 8) out = drop (CRC_OFFSET + 8) rom"
    using facts(2) facts(3) fits by (auto intro!: nth_equalityI)
  ultimately show ?thesis using fixed facts by auto
qed

theorem fix_stores_the_checksum_witness:
  "\<exists>out a b. fix_checksum (replicate 1052672 0) Cic6105 = Some (out, a, b) \<and> stored out = compute out Cic6105"
  using fix_stores_the_checksum [of "replicate 1052672 0" Cic6105] by (auto simp: CRC_END_def)

end
