(* ===== verification/Rom_Files.thy ===== *)
theory Rom_Files
  imports Rom_Image
begin

text \<open>
  Whole-ROM transforms (crates/ap64-core/src/transform.rs): the Yaz0 decoder, the file table
  (dmadata), the decompressed image a profile patches, and the layout of a patched image back over
  its seed. Offsets are \<open>usize\<close>, here \<open>nat\<close>; the table's fields keep their 32 bits.
\<close>

datatype files_error =
    NoYaz0Header nat
  | Yaz0Corrupt nat
  | Yaz0TooLong nat nat nat
  | TablePastEnd
  | TableEndless
  | NoTable u32
  | DecompressedTooBig nat
  | FileBackwards
  | StoredPastEnd u32
  | InFile u32 files_error
  | TableNotPlain u32
  | NoPatchedHeader
  | FilePastImage u32
  | PlainPastEnd nat

subsection \<open>Yaz0\<close>

text \<open>The copy of a back-reference, a byte at a time: it may read what it has just written.\<close>

fun yaz0_copy :: "nat \<Rightarrow> nat \<Rightarrow> octets \<Rightarrow> octets" where
  "yaz0_copy 0 dist out = out"
| "yaz0_copy (Suc n) dist out = yaz0_copy n dist (out @ [out ! (length out - dist)])"

text \<open>
  One code bit: a literal, or a back-reference of two bytes, three when its length does not fit the
  first. \<open>None\<close> is the error that the data is truncated or corrupt; the result is the read position
  and the output.
\<close>

definition yaz0_item :: "octets \<Rightarrow> u8 \<Rightarrow> nat \<Rightarrow> nat \<times> octets \<Rightarrow> (nat \<times> octets) option" where
  "yaz0_item src code bit_no st =
     (let (s, out) = st in
      if code AND drop_bit bit_no 0x80 \<noteq> 0 then
        (case get_at src s of None \<Rightarrow> None | Some b \<Rightarrow> Some (s + 1, out @ [b]))
      else
        (case (get_at src s, get_at src (s + 1)) of
           (Some b1, Some b2) \<Rightarrow>
             (let s2 = s + 2;
                  dist = (unat (b1 AND 0xF) * 256 + unat b2) + 1;
                  hi = unat (drop_bit 4 b1);
                  run = (if hi = 0 then map_option (\<lambda>b3. (s2 + 1, unat b3 + 0x12)) (get_at src s2)
                         else Some (s2, hi + 2))
              in (case run of
                    None \<Rightarrow> None
                  | Some (s3, n) \<Rightarrow>
                      if dist > length out then None else Some (s3, yaz0_copy n dist out)))
         | _ \<Rightarrow> None))"

text \<open>The eight bits of a code byte, as far as the output is not full.\<close>

fun yaz0_bits :: "octets \<Rightarrow> nat \<Rightarrow> u8 \<Rightarrow> nat list \<Rightarrow> nat \<times> octets \<Rightarrow> (nat \<times> octets) option" where
  "yaz0_bits src len code [] st = Some st"
| "yaz0_bits src len code (i # is) st =
     (if length (snd st) \<ge> len then Some st
      else (case yaz0_item src code i st of
              None \<Rightarrow> None
            | Some st' \<Rightarrow> yaz0_bits src len code is st'))"

lemma length_yaz0_copy [simp]: "length (yaz0_copy n dist out) = length out + n"
  by (induction n dist out rule: yaz0_copy.induct) simp_all

lemma yaz0_item_bounds:
  assumes "yaz0_item src code i (s, out) = Some (s', out')"
  shows "length out < length out'" "length out' \<le> length out + 0x111" "s < s'"
proof -
  have byte: "unat (b :: u8) < 256" for b using unsigned_less [of b] by simp
  have nibble: "unat (drop_bit 4 (b :: u8)) < 16" for b
    using byte [of b] by (subst unat_drop_bit_eq) (simp add: drop_bit_eq_div)
  show "length out < length out'" "s < s'"
    using assms by (auto simp: yaz0_item_def Let_def split: if_splits option.splits)
  show "length out' \<le> length out + 0x111"
    using assms byte [of "src ! (s + 2)"] nibble [of "src ! s"]
    by (auto simp: yaz0_item_def Let_def get_at_def split: if_splits option.splits)
qed

lemma yaz0_bits_grows:
  "yaz0_bits src len code is st = Some st' \<Longrightarrow> length (snd st) \<le> length (snd st')"
proof (induction "is" arbitrary: st)
  case (Cons i "is")
  show ?case
  proof (cases "len \<le> length (snd st)")
    case False
    then obtain t where "yaz0_item src code i st = Some t" "yaz0_bits src len code is t = Some st'"
      using Cons.prems by (auto split: option.splits)
    then show ?thesis
      using Cons.IH [of t] yaz0_item_bounds(1) [of src code i "fst st" "snd st" "fst t" "snd t"] by simp
  qed (use Cons.prems in simp)
qed simp

lemma yaz0_bits_progress:
  assumes "yaz0_bits src len code (i # is) (s, out) = Some (s', out')" "length out < len"
  shows "length out < length out'"
  using assms
  by (auto split: option.splits dest!: yaz0_item_bounds(1) yaz0_bits_grows)

function yaz0_loop :: "octets \<Rightarrow> nat \<Rightarrow> nat \<Rightarrow> octets \<Rightarrow> octets option" where
  "yaz0_loop src len s out =
     (if length out < len then
        (case get_at src s of
           None \<Rightarrow> None
         | Some code \<Rightarrow>
             (case yaz0_bits src len code [0..<8] (s + 1, out) of
                None \<Rightarrow> None
              | Some (s', out') \<Rightarrow> yaz0_loop src len s' out'))
      else Some out)"
  by pat_completeness auto
termination
proof (relation "measure (\<lambda>(src, len, s, out). len - length out)")
  show "((src, len, s', out'), src, len, s, out)
      \<in> measure (\<lambda>(src, len, s, out). len - length out)"
    if "length out < len" "yaz0_bits src len code [0..<8] (s + 1, out) = Some p" "(s', out') = p"
    for src :: octets and len s out code p s' out'
    using that yaz0_bits_progress [of src len code 0 "[1..<8]" "s + 1" out s' out']
    by (auto simp: upt_rec [of 0 8])
qed simp

declare yaz0_loop.simps [simp del]

definition yaz0 :: "octets \<Rightarrow> nat \<Rightarrow> nat \<Rightarrow> files_error + octets" where
  "yaz0 src i max_len =
     (if get_range src i (i + 4) \<noteq> Some [0x59, 0x61, 0x7A, 0x30] then Inl (NoYaz0Header i)
      else bind_result (ok_or (Yaz0Corrupt i) (map_option unat (read_u32 src (i + 4))))
        (\<lambda>len. if len > max_len then Inl (Yaz0TooLong i len max_len)
               else ok_or (Yaz0Corrupt i) (yaz0_loop src len (i + 16) [])))"

subsection \<open>Yaz0: what a stream means\<close>

text \<open>
  A reference reading of the format: a stream is a list of literals and back-references, and a
  back-reference appends the last \<open>d\<close> bytes over and over until it has appended \<open>n\<close>.
\<close>

datatype yaz_token = Lit u8 | Back nat nat

definition periodic :: "nat \<Rightarrow> nat \<Rightarrow> octets \<Rightarrow> octets" where
  "periodic n d out = out @ map (\<lambda>k. out ! (length out - d + k mod d)) [0..<n]"

fun yaz_expand :: "yaz_token list \<Rightarrow> octets \<Rightarrow> octets" where
  "yaz_expand [] out = out"
| "yaz_expand (Lit b # ts) out = yaz_expand ts (out @ [b])"
| "yaz_expand (Back d n # ts) out = yaz_expand ts (periodic n d out)"

text \<open>What the format can hold, from an output of \<open>k\<close> bytes on.\<close>

fun yaz_valid :: "nat \<Rightarrow> yaz_token list \<Rightarrow> bool" where
  "yaz_valid k [] = True"
| "yaz_valid k (Lit b # ts) = yaz_valid (k + 1) ts"
| "yaz_valid k (Back d n # ts) =
     (1 \<le> d \<and> d \<le> k \<and> d \<le> 0x1000 \<and> 3 \<le> n \<and> n \<le> 0x111 \<and> yaz_valid (k + n) ts)"

fun yaz_bytes :: "yaz_token \<Rightarrow> octets" where
  "yaz_bytes (Lit b) = [b]"
| "yaz_bytes (Back d n) =
     (if n < 0x12 then [word_of_nat (16 * (n - 2) + (d - 1) div 256), word_of_nat (d - 1)]
      else [word_of_nat ((d - 1) div 256), word_of_nat (d - 1), word_of_nat (n - 0x12)])"

fun is_lit :: "yaz_token \<Rightarrow> bool" where
  "is_lit (Lit b) = True"
| "is_lit (Back d n) = False"

fun yaz_code :: "nat \<Rightarrow> yaz_token list \<Rightarrow> u8" where
  "yaz_code i [] = 0"
| "yaz_code i (t # ts) = (if is_lit t then drop_bit i 0x80 else 0) OR yaz_code (i + 1) ts"

definition yaz_stream :: "yaz_token list \<Rightarrow> octets" where
  "yaz_stream ts =
     [0x59, 0x61, 0x7A, 0x30] @ be32 (word_of_nat (length (yaz_expand ts []))) @ replicate 8 0 @
     concat (map (\<lambda>g. yaz_code 0 g # concat (map yaz_bytes g)) (chunks 8 ts))"

lemma yaz0_copy_Suc_end:
  "yaz0_copy (Suc n) d out = (let o1 = yaz0_copy n d out in o1 @ [o1 ! (length o1 - d)])"
  by (induction n d out rule: yaz0_copy.induct) (simp_all add: Let_def)

lemma yaz0_copy_periodic:
  assumes "1 \<le> d" "d \<le> length out"
  shows "yaz0_copy n d out = periodic n d out"
proof (induction n)
  case 0
  then show ?case by (simp add: periodic_def)
next
  case (Suc n)
  have "periodic n d out ! (length out + n - d) = out ! (length out - d + n mod d)"
  proof (cases "n < d")
    case True
    with assms have "length out + n - d < length out" "length out + n - d = length out - d + n"
      by linarith+
    with True show ?thesis by (simp add: periodic_def nth_append)
  next
    case False
    then have "(n - d) mod d = n mod d" by (simp add: le_mod_geq)
    then show ?thesis using False assms by (simp add: periodic_def nth_append)
  qed
  then show ?case
    unfolding yaz0_copy_Suc_end Suc.IH Let_def by (simp add: periodic_def)
qed

lemma length_periodic [simp]: "length (periodic n d out) = length out + n"
  by (simp add: periodic_def)

lemma yaz_expand_append: "yaz_expand (ts @ us) out = yaz_expand us (yaz_expand ts out)"
  by (induction ts out rule: yaz_expand.induct) simp_all

lemma yaz_valid_append:
  "yaz_valid (length out) (ts @ us) \<longleftrightarrow> yaz_valid (length out) ts \<and> yaz_valid (length (yaz_expand ts out)) us"
  by (induction ts out rule: yaz_expand.induct) (auto simp flip: length_periodic, auto)

lemma length_yaz_expand: "yaz_valid k ts \<Longrightarrow> length out + length ts \<le> length (yaz_expand ts out)"
proof (induction ts out arbitrary: k rule: yaz_expand.induct)
  case (2 b ts out)
  then show ?case using "2.IH" [of "k + 1"] by simp
next
  case (3 d n ts out)
  then show ?case using "3.IH" [of "k + n"] by simp
qed simp

lemma drop_past: "drop s src = xs @ ys \<Longrightarrow> drop (s + length xs) src = ys"
proof -
  assume "drop s src = xs @ ys"
  then have "drop (length xs) (drop s src) = ys" by simp
  then show ?thesis by (simp add: add.commute)
qed

lemma drop_Cons_nth: "drop s src = x # xs \<longleftrightarrow> s < length src \<and> src ! s = x \<and> drop (Suc s) src = xs"
proof (cases "s < length src")
  case True
  then show ?thesis using Cons_nth_drop_Suc [OF True] by (metis list.inject)
qed simp

lemma unat_low_nibble: "unat (b AND 0xF :: u8) = unat b mod 16"
proof -
  have "b AND 0xF = take_bit 4 b" by (simp add: take_bit_eq_mask mask_eq_exp_minus_1)
  then have "unat (b AND 0xF) = take_bit 4 (unat b)" by (simp only: unsigned_take_bit_eq)
  then show ?thesis by (simp add: take_bit_eq_mod)
qed

lemma unat_high_nibble: "unat (drop_bit 4 b :: u8) = unat b div 16"
  by (subst unat_drop_bit_eq) (simp add: drop_bit_eq_div)

lemma yaz0_item_token:
  assumes "drop s src = yaz_bytes t @ rest" "yaz_valid (length out) [t]"
    and "code AND drop_bit i 0x80 \<noteq> 0 \<longleftrightarrow> is_lit t"
  shows "yaz0_item src code i (s, out) = Some (s + length (yaz_bytes t), yaz_expand [t] out)"
proof (cases t)
  case (Lit b)
  with assms show ?thesis by (simp add: yaz0_item_def get_at_def drop_Cons_nth)
next
  case (Back d n)
  from assms(2) Back have d: "1 \<le> d" "d \<le> length out" "d \<le> 0x1000" and n: "3 \<le> n" "n \<le> 0x111"
    by simp_all
  define hi where "hi = (d - 1) div 256"
  have hi: "hi < 16" and dist: "hi * 256 + (d - 1) mod 256 + 1 = d"
    using d by (auto simp: hi_def)
  have low: "unat (word_of_nat (d - 1) :: u8) = (d - 1) mod 256"
    by (simp add: unsigned_of_nat take_bit_eq_mod)
  have copy: "yaz0_copy n d out = periodic n d out"
    using d by (intro yaz0_copy_periodic)
  show ?thesis
  proof (cases "n < 0x12")
    case True
    have first: "unat (word_of_nat (16 * (n - 2) + hi) :: u8) = 16 * (n - 2) + hi"
      using True hi by (subst unsigned_of_nat) (simp add: take_bit_eq_mod)
    have bytes: "s + 1 < length src" "src ! s = word_of_nat (16 * (n - 2) + hi)"
        "src ! (s + 1) = word_of_nat (d - 1)"
      using assms(1) Back True by (auto simp: drop_Cons_nth hi_def)
    have len: "Suc (Suc (n - 2)) = n" using n by simp
    have parts: "unat (src ! s AND 0xF) = hi" "unat (drop_bit 4 (src ! s)) = n - 2"
      unfolding unat_low_nibble unat_high_nibble bytes first using hi by simp_all
    show ?thesis
      using bytes parts True n dist d copy low assms(3) Back
      by (simp add: yaz0_item_def Let_def get_at_def len del: yaz0_copy.simps)
  next
    case False
    have first: "unat (word_of_nat hi :: u8) = hi"
      using hi by (simp add: unsigned_of_nat take_bit_eq_mod)
    have bytes: "s + 2 < length src" "src ! s = word_of_nat hi"
        "src ! (s + 1) = word_of_nat (d - 1)" "src ! (s + 2) = word_of_nat (n - 0x12)"
      using assms(1) Back False by (auto simp: drop_Cons_nth hi_def)
    have parts: "unat (src ! s AND 0xF) = hi" "unat (drop_bit 4 (src ! s)) = 0"
      unfolding unat_low_nibble unat_high_nibble bytes first using hi by simp_all
    have "unat (word_of_nat (n - 0x12) :: u8) = n - 0x12"
      using False n by (subst unsigned_of_nat) (simp add: take_bit_eq_mod)
    then have run: "unat (src ! (s + 2)) + 0x12 = n"
      using False unfolding bytes by simp
    show ?thesis
      using bytes parts False run dist d copy low assms(3) Back
      by (simp add: yaz0_item_def Let_def get_at_def numeral_3_eq_3 del: yaz0_copy.simps)
  qed
qed

lemma code_bit: "i < 8 \<Longrightarrow> (code :: u8) AND drop_bit i 0x80 \<noteq> 0 \<longleftrightarrow> bit code (7 - i)"
proof -
  assume "i < 8"
  then have "i \<in> {0, 1, 2, 3, 4, 5, 6, 7}" by auto
  then have "drop_bit i (0x80 :: u8) = 2 ^ (7 - i)" by (auto simp: drop_bit_eq_div)
  then show ?thesis by (simp add: and_exp_eq_0_iff_not_bit)
qed

lemma bit_yaz_code:
  "k + length ts \<le> 8 \<Longrightarrow> i < 8 \<Longrightarrow>
   bit (yaz_code k ts) (7 - i) \<longleftrightarrow> k \<le> i \<and> i < k + length ts \<and> is_lit (ts ! (i - k))"
proof (induction ts arbitrary: k)
  case (Cons t ts)
  have "bit (drop_bit k (0x80 :: u8)) (7 - i) \<longleftrightarrow> i = k"
  proof -
    have "k \<in> {0, 1, 2, 3, 4, 5, 6, 7}" "i \<in> {0, 1, 2, 3, 4, 5, 6, 7}" using Cons.prems by auto
    then show ?thesis by (auto simp: bit_simps)
  qed
  moreover have "(t # ts) ! (i - k) = ts ! (i - (k + 1))" if "k + 1 \<le> i"
    using that by (simp add: nth_Cons')
  ultimately show ?case
    using Cons.IH [of "k + 1"] Cons.prems by (cases "i = k") (auto simp: bit_simps)
qed simp

lemma yaz0_bits_group:
  assumes "drop s src = concat (map yaz_bytes ts) @ rest" "yaz_valid (length out) ts"
    and "i + length ts \<le> 8" "\<And>j. j < length ts \<Longrightarrow> code AND drop_bit (i + j) 0x80 \<noteq> 0 \<longleftrightarrow> is_lit (ts ! j)"
    and "length (yaz_expand ts out) \<le> len" "i + length ts = 8 \<or> length (yaz_expand ts out) = len"
  shows "yaz0_bits src len code [i..<8] (s, out) =
    Some (s + length (concat (map yaz_bytes ts)), yaz_expand ts out)"
  using assms
proof (induction ts arbitrary: i s out)
  case Nil
  then show ?case by (cases "i < 8") (auto simp: upt_rec)
next
  case (Cons t ts)
  have valid: "yaz_valid (length out) [t]" "yaz_valid (length (yaz_expand [t] out)) ts"
    using Cons.prems(2) yaz_valid_append [of out "[t]" ts] by simp_all
  have expand: "yaz_expand (t # ts) out = yaz_expand ts (yaz_expand [t] out)"
    using yaz_expand_append [of "[t]" ts out] by simp
  have item: "yaz0_item src code i (s, out) = Some (s + length (yaz_bytes t), yaz_expand [t] out)"
  proof (rule yaz0_item_token)
    show "drop s src = yaz_bytes t @ concat (map yaz_bytes ts) @ rest" using Cons.prems(1) by simp
    show "(code AND drop_bit i 0x80 \<noteq> 0) = is_lit t" using Cons.prems(4) [of 0] by simp
  qed (fact valid(1))
  have "length out < len"
    using length_yaz_expand [OF Cons.prems(2), of out] Cons.prems(5) by simp
  moreover have after: "drop (s + length (yaz_bytes t)) src = concat (map yaz_bytes ts) @ rest"
    using Cons.prems(1) by (intro drop_past) simp
  moreover have "yaz0_bits src len code [Suc i..<8] (s + length (yaz_bytes t), yaz_expand [t] out) =
      Some (s + length (yaz_bytes t) + length (concat (map yaz_bytes ts)), yaz_expand ts (yaz_expand [t] out))"
  proof (rule Cons.IH)
    show "(code AND drop_bit (Suc i + j) 0x80 \<noteq> 0) = is_lit (ts ! j)" if "j < length ts" for j
      using Cons.prems(4) [of "Suc j"] that by simp
    show "Suc i + length ts \<le> 8" using Cons.prems(3) by simp
    show "length (yaz_expand ts (yaz_expand [t] out)) \<le> len"
      using Cons.prems(5) by (simp only: expand)
    show "Suc i + length ts = 8 \<or> length (yaz_expand ts (yaz_expand [t] out)) = len"
      using Cons.prems(6) by (simp only: expand) simp
  qed (fact after, fact valid(2))
  ultimately show ?case
    using item Cons.prems(3) by (simp add: expand upt_conv_Cons)
qed

lemma yaz0_loop_groups:
  assumes "drop s src = concat (map (\<lambda>g. yaz_code 0 g # concat (map yaz_bytes g)) (chunks 8 ts)) @ rest"
    and "yaz_valid (length out) ts" "length (yaz_expand ts out) = len"
  shows "yaz0_loop src len s out = Some (yaz_expand ts out)"
  using assms
proof (induction "8 :: nat" ts arbitrary: s out rule: chunks.induct)
  case (1 ts)
  show ?case
  proof (cases "ts = []")
    case True
    then show ?thesis using "1.prems" by (subst yaz0_loop.simps) simp
  next
    case False
    define g us where "g = take 8 ts" and "us = drop 8 ts"
    have ts: "ts = g @ us" by (simp add: g_def us_def)
    have chunks: "chunks 8 ts = g # chunks 8 us"
      using False by (subst chunks.simps) (simp add: g_def us_def)
    have g: "g \<noteq> []" "length g \<le> 8" and full: "us \<noteq> [] \<Longrightarrow> length g = 8"
      using False by (auto simp: g_def us_def)
    have valid: "yaz_valid (length out) g" "yaz_valid (length (yaz_expand g out)) us"
      using "1.prems"(2) yaz_valid_append [of out g us] ts by simp_all
    have expand: "yaz_expand ts out = yaz_expand us (yaz_expand g out)"
      by (simp add: ts yaz_expand_append)
    define s' where "s' = s + 1 + length (concat (map yaz_bytes g))"
    define tail_bytes where
      "tail_bytes = concat (map (\<lambda>g. yaz_code 0 g # concat (map yaz_bytes g)) (chunks 8 us)) @ rest"
    have here: "drop s src = yaz_code 0 g # concat (map yaz_bytes g) @ tail_bytes"
      using "1.prems"(1) by (simp add: chunks tail_bytes_def)
    then have code: "get_at src s = Some (yaz_code 0 g)"
      and body: "drop (s + 1) src = concat (map yaz_bytes g) @ tail_bytes"
      by (simp_all add: drop_Cons_nth get_at_def)
    from body have after: "drop s' src = tail_bytes"
      unfolding s'_def by (rule drop_past)
    have "length (yaz_expand g out) \<le> len"
      using length_yaz_expand [OF valid(2), of "yaz_expand g out"] "1.prems"(3) expand by simp
    moreover have "length out < length (yaz_expand g out)"
      using length_yaz_expand [OF valid(1), of out] g(1) by (cases g) simp_all
    ultimately have more: "length out < len" "length (yaz_expand g out) \<le> len" by simp_all
    have "yaz0_bits src len (yaz_code 0 g) [0..<8] (s + 1, out) = Some (s', yaz_expand g out)"
      unfolding s'_def
    proof (rule yaz0_bits_group [OF body valid(1)])
      show "(yaz_code 0 g AND drop_bit (0 + j) 0x80 \<noteq> 0) = is_lit (g ! j)" if "j < length g" for j
        using that g(2) by (subst code_bit) (simp_all add: bit_yaz_code)
      show "0 + length g = 8 \<or> length (yaz_expand g out) = len"
        using full "1.prems"(3) expand by (cases us) simp_all
    qed (use g more in auto)
    moreover have "yaz0_loop src len s' (yaz_expand g out) = Some (yaz_expand us (yaz_expand g out))"
      using "1.hyps" [of s' "yaz_expand g out"] False after valid(2) "1.prems"(3) expand
      by (simp add: us_def tail_bytes_def)
    ultimately show ?thesis
      using more(1) code by (subst yaz0_loop.simps) (simp add: expand)
  qed
qed

text \<open>C33: The Yaz0 decoder agrees with the reference reading of the format: for every well-formed stream of
  literals and back-references, wherever it lies in the ROM, it returns exactly what the tokens expand to.\<close>

theorem yaz0_decodes_streams:
  assumes "yaz_valid 0 ts" "length (yaz_expand ts []) \<le> max_len" "length (yaz_expand ts []) < 2 ^ 32"
  shows "yaz0 (pre @ yaz_stream ts @ post) (length pre) max_len = Inr (yaz_expand ts [])"
proof -
  define src where "src = pre @ yaz_stream ts @ post"
  define n where "n = length (yaz_expand ts [])"
  have "get_range src (length pre) (length pre + 4) = Some [0x59, 0x61, 0x7A, 0x30]"
    by (simp add: src_def yaz_stream_def get_range_def slice_def)
  moreover have "src = (pre @ [0x59, 0x61, 0x7A, 0x30]) @ be32 (word_of_nat n) @
      (replicate 8 0 @ concat (map (\<lambda>g. yaz_code 0 g # concat (map yaz_bytes g)) (chunks 8 ts)) @ post)"
    by (simp add: src_def yaz_stream_def n_def)
  then have "read_u32 src (length pre + 4) = Some (word_of_nat n)"
    using be32_at_be32 [of "pre @ [0x59, 0x61, 0x7A, 0x30]" "length pre + 4" "word_of_nat n"]
    by (simp add: read_u32_Some_iff)
  moreover have "unat (word_of_nat n :: u32) = n"
    using assms(3) by (simp add: n_def unsigned_of_nat take_bit_eq_mod)
  moreover have "yaz0_loop src n (length pre + 16) [] = Some (yaz_expand ts [])"
  proof (rule yaz0_loop_groups)
    show "drop (length pre + 16) src =
        concat (map (\<lambda>g. yaz_code 0 g # concat (map yaz_bytes g)) (chunks 8 ts)) @ post"
      by (simp add: src_def yaz_stream_def)
  qed (use assms in \<open>simp_all add: n_def\<close>)
  ultimately show ?thesis using assms(2) by (simp add: yaz0_def n_def src_def)
qed

theorem yaz0_decodes_streams_witness:
  "yaz0 (yaz_stream [Lit 0x61, Lit 0x62, Back 2 5, Lit 0x21] @ [9]) 0 8 =
     Inr [0x61, 0x62, 0x61, 0x62, 0x61, 0x62, 0x61, 0x21]"
  using yaz0_decodes_streams [of "[Lit 0x61, Lit 0x62, Back 2 5, Lit 0x21]" 8 "[]" "[9]"]
  by (simp add: periodic_def upt_rec)

subsection \<open>Yaz0: bounds\<close>

lemma yaz0_bits_bound:
  "yaz0_bits src len code is st = Some st' \<Longrightarrow> length (snd st) < len + 0x111 \<Longrightarrow>
   length (snd st') < len + 0x111"
proof (induction "is" arbitrary: st)
  case (Cons i "is")
  show ?case
  proof (cases "len \<le> length (snd st)")
    case False
    then obtain t where item: "yaz0_item src code i st = Some t" and rest: "yaz0_bits src len code is t = Some st'"
      using Cons.prems by (auto split: option.splits)
    have "length (snd t) < len + 0x111"
      using item False yaz0_item_bounds(2) [of src code i "fst st" "snd st" "fst t" "snd t"] by simp
    then show ?thesis using Cons.IH [OF rest] by simp
  qed (use Cons.prems in simp)
qed simp

lemma yaz0_loop_bounds:
  "yaz0_loop src len s out = Some res \<Longrightarrow> length out < len + 0x111 \<Longrightarrow>
   len \<le> length res \<and> length res < len + 0x111"
proof (induction src len s out rule: yaz0_loop.induct)
  case (1 src len s out)
  show ?case
  proof (cases "length out < len")
    case True
    then obtain code s' out' where step: "get_at src s = Some code"
        "yaz0_bits src len code [0..<8] (s + 1, out) = Some (s', out')" "yaz0_loop src len s' out' = Some res"
      using "1.prems"(1) by (subst (asm) yaz0_loop.simps) (auto split: option.splits)
    then show ?thesis
      using "1.IH" [OF True step(1,2) refl step(3)] yaz0_bits_bound [OF step(2)] "1.prems"(2) by simp
  next
    case False
    then show ?thesis using "1.prems" by (subst (asm) yaz0_loop.simps) simp
  qed
qed

text \<open>C36: What the Yaz0 decoder returns holds the size its header claims, which is at most \<open>max_len\<close>, and
  at most 0x110 bytes more: the run of the last back-reference is not cut at the size.\<close>

theorem yaz0_output_bounds:
  assumes "yaz0 src i max_len = Inr out"
  shows "\<exists>w. read_u32 src (i + 4) = Some w \<and> unat w \<le> max_len \<and>
    unat w \<le> length out \<and> length out \<le> unat w + 0x110"
  using assms yaz0_loop_bounds [of src _ "i + 16" "[]" out]
  by (fastforce simp: yaz0_def bind_result_Inr_iff ok_or_Inr_iff split: if_splits)

lemma yaz0_long_run:
  "yaz0 [0x59, 0x61, 0x7A, 0x30, 0, 0, 0, 2, 0, 0, 0, 0, 0, 0, 0, 0, 0x80, 0x61, 0x10, 0] 0 2 =
     Inr [0x61, 0x61, 0x61, 0x61]"
  by code_simp

theorem yaz0_output_bounds_witness:
  "\<exists>w. read_u32 [0x59, 0x61, 0x7A, 0x30, 0, 0, 0, 2, 0, 0, 0, 0, 0, 0, 0, 0, 0x80, 0x61, 0x10, 0] (0 + 4) =
     Some w \<and> unat w \<le> 2"
  using yaz0_output_bounds [OF yaz0_long_run] by blast

text \<open>C37: \<open>max_len\<close> is documented as the most a file may decompress to. The decoder can return more: a
  stream that claims two bytes and ends in a back-reference of three gives four.\<close>

theorem yaz0_overruns_its_span:
  "\<exists>src max_len out. yaz0 src 0 max_len = Inr out \<and> max_len < length out"
  using yaz0_long_run by fastforce

subsection \<open>The file table\<close>

record dma_entry =
  de_at :: nat
  de_vs :: u32
  de_ve :: u32
  de_rs :: u32
  de_re :: u32

definition read_entry :: "octets \<Rightarrow> nat \<Rightarrow> dma_entry option" where
  "read_entry rom i =
     (case (read_u32 rom i, read_u32 rom (i + 4), read_u32 rom (i + 8), read_u32 rom (i + 12)) of
        (Some a, Some b, Some c, Some d) \<Rightarrow> Some \<lparr>de_at = i, de_vs = a, de_ve = b, de_rs = c, de_re = d\<rparr>
      | _ \<Rightarrow> None)"

function dma_loop :: "octets \<Rightarrow> nat \<Rightarrow> nat \<Rightarrow> dma_entry list \<Rightarrow> files_error + dma_entry list" where
  "dma_loop rom table i out =
     (case read_entry rom i of
        None \<Rightarrow> Inl TablePastEnd
      | Some e \<Rightarrow>
          if de_vs e = 0 \<and> de_ve e = 0 \<and> i > table then Inr out
          else if length (out @ [e]) > 0x2000 then Inl TableEndless
          else dma_loop rom table (i + 16) (out @ [e]))"
  by pat_completeness auto
termination
  by (relation "measure (\<lambda>(rom, table, i, out). 0x2001 - length out)") auto

declare dma_loop.simps [simp del]

definition dma_entries :: "octets \<Rightarrow> nat \<Rightarrow> files_error + dma_entry list" where
  "dma_entries rom table = dma_loop rom table table []"

definition ABSENT :: u32 where "ABSENT = 0xFFFFFFFF"

definition used :: "dma_entry \<Rightarrow> bool" where
  "used e \<longleftrightarrow> de_rs e \<noteq> ABSENT"

text \<open>\<open>iter().max().unwrap_or(0)\<close>\<close>

definition max_or_0 :: "nat list \<Rightarrow> nat" where
  "max_or_0 xs = foldr max xs 0"

subsection \<open>The decompressed image\<close>

text \<open>The bytes of one file, plain or decompressed, as its entry stores them.\<close>

definition stored_file :: "octets \<Rightarrow> dma_entry \<Rightarrow> files_error + octets" where
  "stored_file rom e =
     (if de_ve e < de_vs e then Inl FileBackwards
      else let len = unat (de_ve e - de_vs e)
           in if de_re e = 0
              then ok_or (StoredPastEnd (de_vs e))
                     (get_range rom (unat (de_rs e)) (unat (de_rs e) + len))
              else (case yaz0 rom (unat (de_rs e)) len of
                      Inl why \<Rightarrow> Inl (InFile (de_vs e) why)
                    | Inr data \<Rightarrow> Inr data))"

text \<open>A copy that panics when it does not fit.\<close>

definition copy_into :: "nat \<Rightarrow> octets \<Rightarrow> octets \<Rightarrow> octets option" where
  "copy_into i src dst = (if i + length src \<le> length dst then Some (splice i src dst) else None)"

definition place_file :: "octets \<Rightarrow> dma_entry \<Rightarrow> octets \<Rightarrow> (files_error, octets) outcome" where
  "place_file rom e out =
     bind_outcome (of_result (stored_file rom e))
       (\<lambda>data. or_panic (copy_into (unat (de_vs e)) data out))"

text \<open>The words of an entry, one \<open>write_u32\<close> after the other.\<close>

definition write_words :: "nat \<Rightarrow> u32 list \<Rightarrow> octets \<Rightarrow> ('e, octets) outcome" where
  "write_words i ws out =
     fold_outcome (\<lambda>(k, w) o1. or_panic (write_u32 o1 (i + 4 * k) w)) (enumerate 0 ws) out"

definition rewrite_entry :: "dma_entry \<Rightarrow> octets \<Rightarrow> (files_error, octets) outcome" where
  "rewrite_entry e = write_words (de_at e) [de_vs e, de_ve e, de_vs e, 0]"

definition yaz0_dmadata :: "octets \<Rightarrow> u32 \<Rightarrow> (files_error, octets) outcome" where
  "yaz0_dmadata rom table =
     bind_outcome (of_result (dma_entries rom (unat table))) (\<lambda>entries.
       if \<not> list_ex (\<lambda>e. de_vs e = table \<and> de_rs e = table) entries then Refused (NoTable table)
       else
         let last_end = max_or_0 (map (\<lambda>e. unat (de_ve e)) (filter used entries))
         in if last_end > 0x04000000 then Refused (DecompressedTooBig last_end)
            else if length rom < 0x1000 then Panicked
            else
              let out = splice 0 (take 0x1000 rom) (replicate (max last_end 0x00101000) 0)
              in bind_outcome (fold_outcome (place_file rom) (filter used entries) out)
                   (fold_outcome rewrite_entry (filter used entries)))"

text \<open>
  Where the ROM holds the byte a game reads at \<open>vrom\<close>; the sum is a plain \<open>+\<close> of 32 bits, which
  wraps in a release build.
\<close>

definition rom_address :: "dma_entry list \<Rightarrow> u32 \<Rightarrow> u32 option" where
  "rom_address entries vrom =
     (case find (\<lambda>e. de_rs e \<noteq> ABSENT \<and> de_vs e \<le> vrom \<and> vrom < de_ve e) entries of
        None \<Rightarrow> None
      | Some e \<Rightarrow> if de_re e = 0 then Some (de_rs e + (vrom - de_vs e)) else None)"

subsection \<open>Repacking\<close>

record repacked =
  rp_rom :: octets
  rp_kept :: nat
  rp_moved :: "(u32 \<times> u32 \<times> u32) list"

text \<open>What the loop over the new entries carries besides: the entries to write, with where they go.\<close>

record repack_state =
  rs_out :: repacked
  rs_entries :: "(nat \<times> u32 list) list"

definition entry_words :: "dma_entry \<Rightarrow> u32 list" where
  "entry_words e = [de_vs e, de_ve e, de_rs e, de_re e]"

definition saturating_add32 :: "u32 \<Rightarrow> u32 \<Rightarrow> u32" where
  "saturating_add32 a b = (if unat a + unat b < 2 ^ 32 then a + b else 0xFFFFFFFF)"

definition stored_end :: "dma_entry \<Rightarrow> u32" where
  "stored_end e =
     (if de_re e \<noteq> 0 then de_re e
      else saturating_add32 (de_rs e) (if de_ve e < de_vs e then 0 else de_ve e - de_vs e))"

definition next_multiple :: "nat \<Rightarrow> nat \<Rightarrow> nat" where
  "next_multiple n k = (n + (k - 1)) div k * k"

definition resize0 :: "nat \<Rightarrow> octets \<Rightarrow> octets" where
  "resize0 n xs = take n xs @ replicate (n - length xs) 0"

definition repack_entry ::
    "octets \<Rightarrow> octets \<Rightarrow> dma_entry list \<Rightarrow> nat \<times> dma_entry \<Rightarrow> repack_state \<Rightarrow> (files_error, repack_state) outcome" where
  "repack_entry original patched seed_entries ie st =
     (let (i, e) = ie;
          before = (case get_at seed_entries i of
                      None \<Rightarrow> None
                    | Some o1 \<Rightarrow> if de_vs o1 = de_vs e \<and> de_ve o1 = de_ve e then Some o1 else None);
          r = rs_out st;
          put = (\<lambda>r' ws. Done \<lparr>rs_out = r', rs_entries = rs_entries st @ [(de_at e, ws)]\<rparr>)
      in if de_rs e = ABSENT then
           put r (case before of None \<Rightarrow> [de_vs e, de_ve e, ABSENT, ABSENT] | Some o1 \<Rightarrow> entry_words o1)
         else
           (case get_range patched (unat (de_vs e)) (unat (de_ve e)) of
              None \<Rightarrow> Refused (FilePastImage (de_vs e))
            | Some data \<Rightarrow>
                (let move = (let padded = resize0 (next_multiple (length (rp_rom r)) 16) (rp_rom r);
                                 to = word_of_nat (length padded)
                             in put (r\<lparr>rp_rom := padded @ data,
                                       rp_moved := rp_moved r @ [(de_vs e, de_ve e, to)]\<rparr>)
                                  [de_vs e, de_ve e, to, 0])
                 in (case before of
                       None \<Rightarrow> move
                     | Some o1 \<Rightarrow>
                         if de_rs o1 \<noteq> ABSENT \<and>
                            get_range original (unat (de_vs e)) (unat (de_ve e)) = Some data
                         then put (r\<lparr>rp_kept := rp_kept r + 1\<rparr>) (entry_words o1)
                         else if de_rs o1 \<noteq> ABSENT \<and> de_re o1 = 0
                         then (case copy_into (unat (de_rs o1)) data (rp_rom r) of
                                 None \<Rightarrow> Refused (PlainPastEnd (unat (de_rs o1)))
                               | Some rom' \<Rightarrow>
                                   put (r\<lparr>rp_rom := rom'\<rparr>) [de_vs o1, de_ve o1, de_rs o1, 0])
                         else move))))"

definition is_pad :: "u8 \<Rightarrow> bool" where
  "is_pad b \<longleftrightarrow> b = 0x00 \<or> b = 0xFF"

definition data_end_of :: "octets \<Rightarrow> dma_entry list \<Rightarrow> nat" where
  "data_end_of seed seed_entries =
     min (max (max_or_0 (map (\<lambda>e. unat (stored_end e)) (filter used seed_entries))) CRC_END)
       (length seed)"

definition repack :: "octets \<Rightarrow> octets \<Rightarrow> octets \<Rightarrow> u32 \<Rightarrow> (files_error, repacked) outcome" where
  "repack seed original patched table =
     bind_outcome (of_result (dma_entries seed (unat table))) (\<lambda>seed_entries.
     bind_outcome (of_result (dma_entries patched (unat table))) (\<lambda>new_entries.
       if \<not> list_ex (\<lambda>e. de_vs e = table \<and> de_rs e = table \<and> de_re e = 0) seed_entries
       then Refused (TableNotPlain table)
       else
         let data_end = data_end_of seed seed_entries;
             keep = (if list_all is_pad (drop data_end seed) then data_end else length seed);
             rom = take keep seed
         in if length rom < 0x1000 then Panicked
            else if length patched < 0x1000 then Refused NoPatchedHeader
            else
              bind_outcome
                (fold_outcome (repack_entry original patched seed_entries) (enumerate 0 new_entries)
                   \<lparr>rs_out = \<lparr>rp_rom = splice 0 (take 0x1000 patched) rom, rp_kept = 0, rp_moved = []\<rparr>,
                    rs_entries = []\<rparr>)
                (\<lambda>st. bind_outcome
                   (fold_outcome (\<lambda>(i, ws). write_words i ws) (rs_entries st) (rp_rom (rs_out st)))
                   (\<lambda>rom. Done ((rs_out st)\<lparr>rp_rom := rom\<rparr>)))))"

lemma read_u32_eq: "read_u32 rom i = (if i + 4 \<le> length rom then Some (be32_at rom i) else None)"
  by (simp add: read_u32_def get_range_def be32_at_def slice_def)

subsection \<open>The table, read and written\<close>

lemma splice_splice_next:
  assumes "i + length x + length y \<le> length out"
  shows "splice (i + length x) y (splice i x out) = splice i (x @ y) out"
  by (rule nth_equalityI) (use assms in \<open>auto simp: nth_splice nth_append\<close>)

lemma length_words [simp]: "length (concat (map be32 ws)) = 4 * length ws"
  by (induction ws) simp_all

lemma write_words_from:
  "fold_outcome (\<lambda>(k, w) o1. or_panic (write_u32 o1 (i + 4 * k) w)) (enumerate m ws) out =
     (if ws = [] \<or> i + 4 * (m + length ws) \<le> length out
      then Done (splice (i + 4 * m) (concat (map be32 ws)) out) else Panicked)"
proof (induction ws arbitrary: m out)
  case (Cons w ws)
  have "splice (i + 4 * Suc m) y (splice (i + 4 * m) (be32 w) out) =
      splice (i + 4 * m) (be32 w @ y) out" if "i + 4 * m + 4 + length y \<le> length out" for y
    using splice_splice_next [of "i + 4 * m" "be32 w" y out] that by (simp add: ac_simps)
  then show ?case using Cons.IH [of "Suc m"] by (cases "ws = []") (auto simp: write_u32_def)
qed simp

lemma write_words_eq:
  assumes "ws \<noteq> []"
  shows "write_words i ws out =
    (if i + 4 * length ws \<le> length out then Done (splice i (concat (map be32 ws)) out) else Panicked)"
  using assms unfolding write_words_def write_words_from by simp

lemma read_entry_Some_iff:
  "read_entry rom i = Some e \<longleftrightarrow> i + 16 \<le> length rom \<and>
     e = \<lparr>de_at = i, de_vs = be32_at rom i, de_ve = be32_at rom (i + 4),
          de_rs = be32_at rom (i + 8), de_re = be32_at rom (i + 12)\<rparr>"
  by (auto simp: read_entry_def read_u32_Some_iff split: option.splits)
     (auto simp: read_u32_def get_range_def split: if_splits)

lemma read_entry_splice:
  assumes "i + 16 \<le> length rom"
  shows "read_entry (splice i (concat (map be32 [a, b, c, d])) rom) i =
    Some \<lparr>de_at = i, de_vs = a, de_ve = b, de_rs = c, de_re = d\<rparr>"
proof -
  define new where "new = splice i (concat (map be32 [a, b, c, d])) rom"
  have len: "length new = length rom" using assms by (simp add: new_def)
  have new: "new = take i rom @ be32 a @ be32 b @ be32 c @ be32 d @ drop (i + 16) rom"
    by (simp add: new_def splice_def)
  have "be32_at new i = a" "be32_at new (i + 4) = b" "be32_at new (i + 8) = c" "be32_at new (i + 12) = d"
    using be32_at_be32 [of "take i rom" i a] be32_at_be32 [of "take i rom @ be32 a" "i + 4" b]
      be32_at_be32 [of "take i rom @ be32 a @ be32 b" "i + 8" c]
      be32_at_be32 [of "take i rom @ be32 a @ be32 b @ be32 c" "i + 12" d] assms
    by (simp_all add: new)
  then show ?thesis using assms len unfolding new_def [symmetric] by (simp add: read_entry_Some_iff)
qed

lemma read_entry_splice_apart:
  assumes "j + length src \<le> length rom" "i + 16 \<le> j \<or> j + length src \<le> i"
  shows "read_entry (splice j src rom) i = read_entry rom i"
proof -
  have "read_u32 (splice j src rom) (i + k) = read_u32 rom (i + k)" if "k \<le> 12" for k
    using assms that by (intro read_u32_splice_apart) auto
  from this [of 0] this [of 4] this [of 8] this [of 12] show ?thesis
    by (simp add: read_entry_def)
qed

lemma dma_loop_table:
  assumes "dma_loop rom table i out = Inr es"
  shows "\<exists>tail. es = out @ tail \<and> (length out \<le> 0x2000 \<longrightarrow> length es \<le> 0x2000) \<and>
    (\<forall>k < length tail. read_entry rom (i + 16 * k) = Some (tail ! k) \<and>
       (table < i + 16 * k \<longrightarrow> \<not> (de_vs (tail ! k) = 0 \<and> de_ve (tail ! k) = 0))) \<and>
    (\<exists>z. read_entry rom (i + 16 * length tail) = Some z \<and> de_vs z = 0 \<and> de_ve z = 0 \<and>
       table < i + 16 * length tail)"
  using assms
proof (induction rom table i out rule: dma_loop.induct)
  case (1 rom table i out)
  obtain e where e: "read_entry rom i = Some e"
    using "1.prems" by (subst (asm) dma_loop.simps) (auto split: option.splits)
  show ?case
  proof (cases "de_vs e = 0 \<and> de_ve e = 0 \<and> i > table")
    case True
    then have "es = out" using "1.prems" e by (subst (asm) dma_loop.simps) simp
    then show ?thesis using True e by (intro exI [of _ "[]"]) simp
  next
    case False
    then have rest: "\<not> length (out @ [e]) > 0x2000" "dma_loop rom table (i + 16) (out @ [e]) = Inr es"
      using "1.prems" [unfolded dma_loop.simps [of rom table i out]] e by (auto split: if_splits)
    from "1.IH" [OF e False rest] obtain tail where tail: "es = (out @ [e]) @ tail"
        "length (out @ [e]) \<le> 0x2000 \<longrightarrow> length es \<le> 0x2000"
        "\<forall>k < length tail. read_entry rom (i + 16 + 16 * k) = Some (tail ! k) \<and>
           (table < i + 16 + 16 * k \<longrightarrow> \<not> (de_vs (tail ! k) = 0 \<and> de_ve (tail ! k) = 0))"
        "\<exists>z. read_entry rom (i + 16 + 16 * length tail) = Some z \<and> de_vs z = 0 \<and> de_ve z = 0 \<and>
           table < i + 16 + 16 * length tail"
      by blast
    have "read_entry rom (i + 16 * k) = Some ((e # tail) ! k) \<and>
       (table < i + 16 * k \<longrightarrow> \<not> (de_vs ((e # tail) ! k) = 0 \<and> de_ve ((e # tail) ! k) = 0))"
      if "k < length (e # tail)" for k
      using that tail(3) e False by (cases k) (auto simp: add.assoc)
    then show ?thesis
      using tail rest(1) by (intro exI [of _ "e # tail"]) (auto simp: add.assoc)
  qed
qed

lemma dma_entries_table:
  assumes "dma_entries rom table = Inr es"
  shows "length es \<le> 0x2000"
    and "k < length es \<Longrightarrow> read_entry rom (table + 16 * k) = Some (es ! k)"
    and "k < length es \<Longrightarrow> de_at (es ! k) = table + 16 * k"
    and "0 < k \<Longrightarrow> k < length es \<Longrightarrow> de_vs (es ! k) \<noteq> 0 \<or> de_ve (es ! k) \<noteq> 0"
    and "\<exists>z. read_entry rom (table + 16 * length es) = Some z \<and> de_vs z = 0 \<and> de_ve z = 0"
  using dma_loop_table [of rom table table "[]" es] assms
  by (auto simp: dma_entries_def read_entry_Some_iff)
subsection \<open>The decompressed image holds every file\<close>

text \<open>Where a file lands: its vrom, and as many bytes as it decompresses to.\<close>

definition file_span :: "octets \<Rightarrow> dma_entry \<Rightarrow> nat \<times> nat" where
  "file_span rom e =
     (unat (de_vs e), case stored_file rom e of Inl _ \<Rightarrow> 0 | Inr data \<Rightarrow> length data)"

definition apart :: "nat \<times> nat \<Rightarrow> nat \<times> nat \<Rightarrow> bool" where
  "apart a b \<longleftrightarrow> fst a + snd a \<le> fst b \<or> fst b + snd b \<le> fst a"

text \<open>No other file, and no entry of the table, lies where \<open>e\<close> lands.\<close>

definition alone :: "octets \<Rightarrow> dma_entry list \<Rightarrow> dma_entry \<Rightarrow> bool" where
  "alone rom es e \<longleftrightarrow>
     list_all (\<lambda>e'. (e' = e \<or> apart (file_span rom e) (file_span rom e')) \<and>
       apart (file_span rom e) (de_at e', 16)) (filter used es)"

lemma place_file_Done:
  "place_file rom e out = Done out' \<longleftrightarrow>
     (\<exists>data. stored_file rom e = Inr data \<and> unat (de_vs e) + length data \<le> length out \<and>
        out' = splice (unat (de_vs e)) data out)"
  by (auto simp: place_file_def copy_into_def m64_result)

lemma length_place_file: "place_file rom e out = Done out' \<Longrightarrow> length out' = length out"
  by (auto simp: place_file_Done)

lemma length_place_files: "fold_outcome (place_file rom) us out = Done out' \<Longrightarrow> length out' = length out"
  using fold_outcome_invariant [of "place_file rom" us out out' "\<lambda>o1. length o1 = length out"]
    length_place_file by metis

lemma place_files_apart:
  assumes "fold_outcome (place_file rom) us out = Done out'" "i + n \<le> length out"
    and "list_all (\<lambda>e. apart (i, n) (file_span rom e)) us"
  shows "slice i (i + n) out' = slice i (i + n) out"
  using assms
proof (induction us arbitrary: out)
  case (Cons e us)
  then obtain o1 where o1: "place_file rom e out = Done o1" "fold_outcome (place_file rom) us o1 = Done out'"
    by (auto simp: bind_outcome_Done_iff)
  then have "slice i (i + n) o1 = slice i (i + n) out"
    using Cons.prems(2,3) by (auto simp: place_file_Done apart_def file_span_def slice_splice_apart)
  then show ?case using Cons.IH [of o1] o1 Cons.prems length_place_file by auto
qed simp

lemma rewrite_entry_Done:
  "rewrite_entry e out = Done out' \<longleftrightarrow>
     de_at e + 16 \<le> length out \<and>
     out' = splice (de_at e) (concat (map be32 [de_vs e, de_ve e, de_vs e, 0])) out"
  by (auto simp: rewrite_entry_def write_words_eq simp del: list.map concat.simps)

lemma rewrite_entries_apart:
  assumes "fold_outcome rewrite_entry us out = Done out'"
    and "i + n \<le> length out" "list_all (\<lambda>e. apart (i, n) (de_at e, 16)) us"
  shows "length out' = length out \<and> slice i (i + n) out' = slice i (i + n) out"
  using assms
proof (induction us arbitrary: out)
  case (Cons e us)
  then obtain o1 where "rewrite_entry e out = Done o1" and rest: "fold_outcome rewrite_entry us o1 = Done out'"
    by (auto simp: bind_outcome_Done_iff)
  then have fits: "de_at e + 16 \<le> length out"
    and o1: "o1 = splice (de_at e) (concat (map be32 [de_vs e, de_ve e, de_vs e, 0])) out"
    by (simp_all add: rewrite_entry_Done)
  have "length o1 = length out" using fits by (simp add: o1)
  moreover have "slice i (i + n) o1 = slice i (i + n) out"
    unfolding o1 using Cons.prems(2,3) fits by (intro slice_splice_apart) (auto simp: apart_def)
  ultimately show ?case using Cons.IH [OF rest] Cons.prems by auto
qed simp

lemma read_entry_slice:
  "i + 16 \<le> length a \<Longrightarrow> length a = length b \<Longrightarrow> slice i (i + 16) a = slice i (i + 16) b \<Longrightarrow>
   read_entry a i = read_entry b i"
proof -
  assume fits: "i + 16 \<le> length a" and len: "length a = length b"
    and same: "slice i (i + 16) a = slice i (i + 16) b"
  have bytes: "a ! (i + k) = b ! (i + k)" if "k < 16" for k
    using nth_slice [of i k "i + 16" a] nth_slice [of i k "i + 16" b] fits len same that by simp
  have "be32_at a (i + j) = be32_at b (i + j)" if "j \<le> 12" for j
  proof (rule be32_at_cong)
    show "a ! k = b ! k" if "i + j \<le> k" "k < i + j + 4" for k
      using bytes [of "k - i"] that \<open>j \<le> 12\<close> by simp
  qed
  from this [of 0] this [of 4] this [of 8] this [of 12]
  have "be32_at a i = be32_at b i" "be32_at a (i + 4) = be32_at b (i + 4)"
      "be32_at a (i + 8) = be32_at b (i + 8)" "be32_at a (i + 12) = be32_at b (i + 12)"
    by simp_all
  then show ?thesis
    using fits len by (simp add: read_entry_def read_u32_eq)
qed

lemma yaz0_dmadata_steps:
  assumes "yaz0_dmadata rom table = Done out" "dma_entries rom (unat table) = Inr es"
  obtains o1 where
    "fold_outcome (place_file rom) (filter used es)
       (splice 0 (take 0x1000 rom) (replicate (max (max_or_0 (map (\<lambda>e. unat (de_ve e)) (filter used es))) 0x101000) 0)) = Done o1"
    "fold_outcome rewrite_entry (filter used es) o1 = Done out"
    "length o1 = max (max_or_0 (map (\<lambda>e. unat (de_ve e)) (filter used es))) 0x101000"
    "list_ex (\<lambda>e. de_vs e = table \<and> de_rs e = table) es" "0x1000 \<le> length rom"
    "max_or_0 (map (\<lambda>e. unat (de_ve e)) (filter used es)) \<le> 0x4000000"
proof -
  from assms obtain o1 where o1: "fold_outcome (place_file rom) (filter used es)
       (splice 0 (take 0x1000 rom) (replicate (max (max_or_0 (map (\<lambda>e. unat (de_ve e)) (filter used es))) 0x101000) 0)) = Done o1"
    and rest: "fold_outcome rewrite_entry (filter used es) o1 = Done out"
      "list_ex (\<lambda>e. de_vs e = table \<and> de_rs e = table) es" "0x1000 \<le> length rom"
      "max_or_0 (map (\<lambda>e. unat (de_ve e)) (filter used es)) \<le> 0x4000000"
    by (auto simp: yaz0_dmadata_def Let_def bind_outcome_Done_iff split: if_splits)
  show thesis
    by (rule that [OF o1 rest(1) _ rest(2-4)]) (use length_place_files [OF o1] rest(3) in simp)
qed

lemma distinct_slots:
  assumes "dma_entries rom table = Inr es"
  shows "distinct (filter used es)"
    and "e \<in> set es \<Longrightarrow> e' \<in> set es \<Longrightarrow> e \<noteq> e' \<Longrightarrow> apart (de_at e, 16) (de_at e', 16)"
proof -
  have at': "k < length es \<Longrightarrow> de_at (es ! k) = table + 16 * k" for k
    by (rule dma_entries_table(3) [OF assms])
  then have "distinct es" by (auto simp: distinct_conv_nth) (metis add_left_cancel mult_cancel1 zero_neq_numeral)
  then show "distinct (filter used es)" by simp
  show "apart (de_at e, 16) (de_at e', 16)" if "e \<in> set es" "e' \<in> set es" "e \<noteq> e'"
  proof -
    from that obtain j k where "j < length es" "k < length es" "e = es ! j" "e' = es ! k" "j \<noteq> k"
      by (metis in_set_conv_nth)
    then show ?thesis using at' [of j] at' [of k] by (cases "j < k") (auto simp: apart_def)
  qed
qed

text \<open>C34: Decompressing an image: the result is as long as its last file needs, every file in use has its
  entry rewritten as stored plain at its vrom, and a file that nothing else overlaps is there byte for
  byte as its entry in the ROM stores it, decompressed where it is compressed. What the game reads
  through the new entry is what it reads through the old one, when the file fills its span.\<close>

theorem decompressed_image_holds_files:
  assumes "yaz0_dmadata rom table = Done out" "dma_entries rom (unat table) = Inr es"
    and "e \<in> set es" "used e" "alone rom es e"
  shows "\<exists>data. stored_file rom e = Inr data \<and>
    get_range out (unat (de_vs e)) (unat (de_vs e) + length data) = Some data \<and>
    read_entry out (de_at e) = Some (e\<lparr>de_rs := de_vs e, de_re := 0\<rparr>) \<and>
    (length data = unat (de_ve e - de_vs e) \<longrightarrow>
       stored_file out (e\<lparr>de_rs := de_vs e, de_re := 0\<rparr>) = stored_file rom e)"
proof -
  define us where "us = filter used es"
  obtain o0 o1 where placed: "fold_outcome (place_file rom) us o0 = Done o1"
    and rewritten: "fold_outcome rewrite_entry us o1 = Done out"
    by (rule yaz0_dmadata_steps [OF assms(1,2), folded us_def]) (rule that; assumption)
  obtain as bs where us: "us = as @ e # bs"
    using assms(3,4) split_list [of e us] by (auto simp: us_def)
  have distinct: "e \<notin> set as" "e \<notin> set bs"
    using distinct_slots(1) [OF assms(2)] us by (auto simp flip: us_def)
  obtain a1 b1 where a1: "fold_outcome (place_file rom) as o0 = Done a1"
    and b1: "place_file rom e a1 = Done b1" and rest: "fold_outcome (place_file rom) bs b1 = Done o1"
    using placed by (auto simp: us fold_outcome_append bind_outcome_Done_iff)
  from b1 obtain data where data: "stored_file rom e = Inr data"
    and fits: "unat (de_vs e) + length data \<le> length a1" and b1': "b1 = splice (unat (de_vs e)) data a1"
    by (auto simp: place_file_Done)
  define i n where "i = unat (de_vs e)" and "n = length data"
  have span: "file_span rom e = (i, n)" by (simp add: file_span_def data i_def n_def)
  have lens: "length b1 = length a1" "length o1 = length b1"
    using fits length_place_files [OF rest] by (simp_all add: b1')
  have others: "list_all (\<lambda>e. apart (i, n) (file_span rom e)) bs"
      "list_all (\<lambda>e. apart (i, n) (de_at e, 16)) us"
    using assms(5) distinct us span by (auto simp: alone_def list_all_iff simp flip: us_def)
  have "slice i (i + n) b1 = data" using fits by (simp add: b1' i_def n_def)
  moreover have "slice i (i + n) o1 = slice i (i + n) b1"
    using place_files_apart [OF rest _ others(1)] fits lens by (simp add: i_def n_def)
  moreover have out: "length out = length o1 \<and> slice i (i + n) out = slice i (i + n) o1"
    using rewrite_entries_apart [OF rewritten _ others(2)] fits lens by (simp add: i_def n_def)
  ultimately have range: "get_range out i (i + n) = Some data"
    using fits lens by (simp add: get_range_def i_def n_def)
  have "read_entry out (de_at e) = Some (e\<lparr>de_rs := de_vs e, de_re := 0\<rparr>)"
  proof -
    obtain c1 d1 where c1: "fold_outcome rewrite_entry as o1 = Done c1"
      and d1: "rewrite_entry e c1 = Done d1" and end': "fold_outcome rewrite_entry bs d1 = Done out"
      using rewritten by (auto simp: us fold_outcome_append bind_outcome_Done_iff)
    have slots: "list_all (\<lambda>e'. apart (de_at e, 16) (de_at e', 16)) bs"
    proof -
      have "set bs \<subseteq> set es" using us by (metis us_def Un_upper2 filter_is_subset set_append set_subset_Cons subset_trans)
      then show ?thesis
        using distinct_slots(2) [OF assms(2,3)] distinct(2) by (auto simp: list_all_iff)
    qed
    have room: "de_at e + 16 \<le> length c1" and d1': "d1 = splice (de_at e)
        (concat (map be32 [de_vs e, de_ve e, de_vs e, 0])) c1"
      using d1 by (simp_all add: rewrite_entry_Done)
    then have len: "length d1 = length c1" by simp
    have "length out = length d1 \<and> slice (de_at e) (de_at e + 16) out = slice (de_at e) (de_at e + 16) d1"
      using rewrite_entries_apart [OF end' _ slots] room len by simp
    then have "read_entry out (de_at e) = read_entry d1 (de_at e)"
      using room len by (intro read_entry_slice) simp_all
    also have "\<dots> = Some (e\<lparr>de_rs := de_vs e, de_re := 0\<rparr>)"
      unfolding d1' read_entry_splice [OF room] by (cases e) simp
    finally show ?thesis .
  qed
  moreover have "stored_file out (e\<lparr>de_rs := de_vs e, de_re := 0\<rparr>) = stored_file rom e"
    if "length data = unat (de_ve e - de_vs e)"
  proof -
    have "\<not> de_ve e < de_vs e" using data by (auto simp: stored_file_def)
    then show ?thesis using range that data by (simp add: stored_file_def i_def n_def)
  qed
  ultimately show ?thesis using data range by (simp add: i_def n_def)
qed

text \<open>A ROM with a table of two files, itself and one of four bytes.\<close>

definition two_files :: octets where
  "two_files = replicate 0x1000 0 @
     [0, 0, 0x10, 0, 0, 0, 0x10, 0x30, 0, 0, 0x10, 0, 0, 0, 0, 0,
      0, 0, 0x20, 0, 0, 0, 0x20, 0x04, 0, 0, 0x10, 0x30, 0, 0, 0, 0,
      0, 0, 0, 0, 0, 0, 0, 0, 0, 0, 0, 0, 0, 0, 0, 0] @ [1, 2, 3, 4]"

definition table_file :: dma_entry where
  "table_file = \<lparr>de_at = 0x1000, de_vs = 0x1000, de_ve = 0x1030, de_rs = 0x1000, de_re = 0\<rparr>"

definition small_file :: dma_entry where
  "small_file = \<lparr>de_at = 0x1010, de_vs = 0x2000, de_ve = 0x2004, de_rs = 0x1030, de_re = 0\<rparr>"

lemma two_files_entries:
  "read_entry two_files 0x1000 = Some table_file"
  "read_entry two_files 0x1010 = Some small_file"
  "read_entry two_files 0x1020 = Some \<lparr>de_at = 0x1020, de_vs = 0, de_ve = 0, de_rs = 0, de_re = 0\<rparr>"
  by (simp_all add: read_entry_def read_u32_def get_range_def slice_def two_files_def of_be32_def
      table_file_def small_file_def)

lemma two_files_table: "dma_entries two_files 0x1000 = Inr [table_file, small_file]"
  unfolding dma_entries_def
  by (simp add: dma_loop.simps two_files_entries)
    (simp add: table_file_def small_file_def)

lemma length_two_files: "length two_files = 0x1034"
  by (simp add: two_files_def)

lemma two_files_stored:
  "stored_file two_files table_file = Inr (slice 0x1000 0x1030 two_files)"
  "stored_file two_files small_file = Inr [1, 2, 3, 4]"
  by (simp add: stored_file_def get_range_def length_two_files table_file_def)
    (simp add: stored_file_def get_range_def slice_def two_files_def small_file_def)

lemma two_files_decompress: "\<exists>out. yaz0_dmadata two_files 0x1000 = Done out"
  by (simp add: yaz0_dmadata_def two_files_table used_def table_file_def ABSENT_def small_file_def
      length_two_files max_or_0_def place_file_def two_files_stored [unfolded table_file_def small_file_def]
      copy_into_def rewrite_entry_def write_words_eq Let_def)

lemma two_files_spans:
  "file_span two_files table_file = (0x1000, 0x30)" "file_span two_files small_file = (0x2000, 4)"
  by (simp_all add: file_span_def two_files_stored length_two_files)
    (simp_all add: table_file_def small_file_def)

theorem decompressed_image_holds_files_witness:
  "\<exists>out. yaz0_dmadata two_files 0x1000 = Done out \<and> get_range out 0x2000 0x2004 = Some [1, 2, 3, 4]"
proof -
  obtain out where out: "yaz0_dmadata two_files 0x1000 = Done out" using two_files_decompress by blast
  have "alone two_files [table_file, small_file] small_file" "used small_file"
    by (simp_all add: alone_def two_files_spans apart_def used_def ABSENT_def)
      (simp_all add: table_file_def small_file_def)
  with decompressed_image_holds_files [OF out, of "[table_file, small_file]" small_file] two_files_table
  obtain data where "stored_file two_files small_file = Inr data"
      "get_range out (unat (de_vs small_file)) (unat (de_vs small_file) + length data) = Some data"
    by auto
  then have "get_range out 0x2000 0x2004 = Some [1, 2, 3, 4]"
    by (auto simp: two_files_stored) (simp add: small_file_def)
  then show ?thesis using out by blast
qed

end
