(* ===== verification/Rom_Profile.thy ===== *)
theory Rom_Profile
  imports Rom_Image
begin

text \<open>
  Game profiles (crates/ap64-core/src/profile.rs) and the carts a build is for (cart.rs): how a seed
  of one game is recognized, what must still hold in it, and what is written. The TOML reader is a
  third-party crate, so \<open>parse_profile\<close> takes it as the parameter \<open>toml\<close>; the checks that follow are
  \<open>check_profile\<close>. Texts are ASCII, one \<open>char\<close> per byte. The offsets are \<open>i64\<close>, whose sums wrap in a
  release build: \<open>wrap64\<close>.
\<close>

subsection \<open>Numbers in text\<close>

definition is_white :: "char \<Rightarrow> bool" where
  "is_white c \<longleftrightarrow> (let n = of_char c :: nat in 9 \<le> n \<and> n \<le> 13 \<or> n = 32)"

definition trim :: "string \<Rightarrow> string" where
  "trim s = rev (dropWhile is_white (rev (dropWhile is_white s)))"

definition digit_value :: "nat \<Rightarrow> char \<Rightarrow> nat option" where
  "digit_value radix c =
     (let n = of_char c :: nat;
          v = (if 48 \<le> n \<and> n \<le> 57 then Some (n - 48)
               else if 97 \<le> n \<and> n \<le> 122 then Some (n - 87)
               else if 65 \<le> n \<and> n \<le> 90 then Some (n - 55)
               else None)
      in case v of None \<Rightarrow> None | Some d \<Rightarrow> if d < radix then Some d else None)"

fun digits :: "nat \<Rightarrow> nat \<Rightarrow> string \<Rightarrow> nat option" where
  "digits radix acc [] = Some acc"
| "digits radix acc (c # cs) =
     (case digit_value radix c of None \<Rightarrow> None | Some d \<Rightarrow> digits radix (acc * radix + d) cs)"

text \<open>\<open>from_str_radix\<close>: a sign is taken, a minus only by the signed types; at least one digit; the value
  must fit.\<close>

definition parse_unsigned :: "nat \<Rightarrow> nat \<Rightarrow> string \<Rightarrow> nat option" where
  "parse_unsigned radix bits s =
     (let body = (case s of CHR ''+'' # cs \<Rightarrow> cs | _ \<Rightarrow> s)
      in if body = [] then None
         else case digits radix 0 body of
                None \<Rightarrow> None
              | Some v \<Rightarrow> if v < 2 ^ bits then Some v else None)"

definition parse_i64 :: "nat \<Rightarrow> string \<Rightarrow> int option" where
  "parse_i64 radix s =
     (let (neg, body) = (case s of
             CHR ''+'' # cs \<Rightarrow> (False, cs)
           | CHR ''-'' # cs \<Rightarrow> (True, cs)
           | _ \<Rightarrow> (False, s))
      in if body = [] then None
         else case digits radix 0 body of
                None \<Rightarrow> None
              | Some v \<Rightarrow>
                  (let i = (if neg then - int v else int v)
                   in if - (2 ^ 63) \<le> i \<and> i < 2 ^ 63 then Some i else None))"

definition strip_prefix :: "string \<Rightarrow> string \<Rightarrow> string option" where
  "strip_prefix p s = (if take (length p) s = p then Some (drop (length p) s) else None)"

definition wrap64 :: "int \<Rightarrow> int" where
  "wrap64 x = (x + 2 ^ 63) mod 2 ^ 64 - 2 ^ 63"

datatype profile_error =
    UnknownCic string
  | MeasuredIncomplete
  | MeasuredEmpty
  | BadGameCode string
  | BadFindName string
  | BadFindHash string
  | BadImmCheck string
  | AgentBeforeRegion
  | ReachesAgent int u32
  | InsideFind string
  | SlotNotPinned u32
  | ReplaceLengths string
  | RestoreLength string string nat
  | BlobNotPinned string
  | JalNotPinned string
  | CopyOutside string
  | ImmNotPinned string
  | UnknownImmValue string string
  | AgentMoves
  | BadPlace string
  | NoSuchFind string
  | FindWithoutVram string string
  | OddHex string
  | BadHex string
  | NotToml string

text \<open>\<open>u8::from_str_radix\<close> of two digits at a time, white space aside.\<close>

fun hex_pairs :: "string \<Rightarrow> octets option" where
  "hex_pairs (a # b # s) =
     (case parse_unsigned 16 8 [a, b] of
        None \<Rightarrow> None
      | Some v \<Rightarrow> map_option (\<lambda>bs. word_of_nat v # bs) (hex_pairs s))"
| "hex_pairs s = Some []"

definition parse_hex :: "string \<Rightarrow> profile_error + octets" where
  "parse_hex s =
     (let t = filter (\<lambda>c. \<not> is_white c) s
      in if odd (length t) then Inl (OddHex t) else ok_or (BadHex t) (hex_pairs t))"

subsection \<open>Carts (cart.rs)\<close>

datatype cart = Sc64 | Ed64 | Ed64pro

definition all_carts :: "cart list" where
  "all_carts = [Sc64, Ed64, Ed64pro]"

fun cart_id :: "cart \<Rightarrow> string" where
  "cart_id Sc64 = ''sc64''"
| "cart_id Ed64 = ''ed64''"
| "cart_id Ed64pro = ''ed64pro''"

fun cart_name :: "cart \<Rightarrow> string" where
  "cart_name Sc64 = ''SummerCart64''"
| "cart_name Ed64 = ''EverDrive-64 X7''"
| "cart_name Ed64pro = ''EverDrive-64 PRO''"

definition cart_tested :: "cart \<Rightarrow> bool" where
  "cart_tested c \<longleftrightarrow> c = Sc64"

definition parse_cart :: "string \<Rightarrow> cart option" where
  "parse_cart s = find (\<lambda>c. cart_id c = s) all_carts"

lemma parse_cart_id [simp]: "parse_cart (cart_id c) = Some c"
  by (cases c) (simp_all add: parse_cart_def all_carts_def)

lemma parse_cart_Some_iff: "parse_cart s = Some c \<longleftrightarrow> s = cart_id c"
  by (auto simp: find_Some_iff parse_cart_def) (metis parse_cart_def parse_cart_id find_Some_iff)

subsection \<open>The parts of a profile\<close>

datatype addr = RomAt u32 | FoundAt string

datatype imm_source = ConstValue u32 | NamedValue string

datatype bound = BoundValue u32 | AgentEnd

fun bound_value :: "bound \<Rightarrow> u32 \<Rightarrow> u32" where
  "bound_value (BoundValue v) agent_end = v"
| "bound_value AgentEnd agent_end = agent_end"

datatype require =
    NeedWord string addr u32 string
  | NeedSha1 string addr u32 string string
  | NeedImm string addr addr u32 u32 bound bound string

fun require_label :: "require \<Rightarrow> string" where
  "require_label (NeedWord l _ _ _) = l"
| "require_label (NeedSha1 l _ _ _ _) = l"
| "require_label (NeedImm l _ _ _ _ _ _ _) = l"

fun require_places :: "require \<Rightarrow> (addr \<times> u32) list" where
  "require_places (NeedWord _ a _ _) = [(a, 4)]"
| "require_places (NeedSha1 _ a len _ _) = [(a, len)]"
| "require_places (NeedImm _ hi lo _ _ _ _ _) = [(hi, 4), (lo, 4)]"

datatype rom_write =
    WriteBlob string addr string u32
  | WriteJal string addr u32
  | WriteCopy string u32 u32 u32
  | WriteImm string addr "addr option" imm_source
  | WriteRestore string u32 string "string list"
  | WriteReplace string u32 string string

fun write_label :: "rom_write \<Rightarrow> string" where
  "write_label (WriteBlob l _ _ _) = l"
| "write_label (WriteJal l _ _) = l"
| "write_label (WriteCopy l _ _ _) = l"
| "write_label (WriteImm l _ _ _) = l"
| "write_label (WriteRestore l _ _ _) = l"
| "write_label (WriteReplace l _ _ _) = l"

record find_spec =
  fs_name :: string
  fs_label :: string
  fs_word :: u32
  fs_len :: u32
  fs_sha1 :: string
  fs_vram :: "u32 option"
  fs_hint :: string

record agent_spec =
  ag_image :: string
  ag_rom :: u32
  ag_region :: "u32 option"
  ag_bss :: u32
  ag_dma_slot :: "u32 option"
  ag_vram :: u32
  ag_min_ram :: u32

definition agent_region :: "agent_spec \<Rightarrow> u32" where
  "agent_region a = (case ag_region a of None \<Rightarrow> ag_rom a | Some r \<Rightarrow> r)"

definition needs_expansion_pak :: "agent_spec \<Rightarrow> bool" where
  "needs_expansion_pak a \<longleftrightarrow> ag_vram a \<ge> 0x80400000 \<or> ag_min_ram a > 0x400000"

datatype transform = Yaz0Dmadata u32

datatype adjust = BmtsaRomAdjuster

record measured =
  ms_world :: "string option"
  ms_version :: "string option"
  ms_header_name :: "string option"

record profile =
  pf_id :: string
  pf_name :: string
  pf_release :: string
  pf_game_code :: string
  pf_version :: u8
  pf_cic :: string
  pf_randomizer :: string
  pf_measured :: "measured option"
  pf_connector :: string
  pf_game_needs_pak :: bool
  pf_notes :: "string list"
  pf_transform :: "transform option"
  pf_adjust :: "adjust option"
  pf_agent :: agent_spec
  pf_find :: "find_spec list"
  pf_require :: "require list"
  pf_write :: "rom_write list"

definition silence_may_be_the_pak :: "profile \<Rightarrow> bool" where
  "silence_may_be_the_pak p \<longleftrightarrow> needs_expansion_pak (pf_agent p) \<and> \<not> pf_game_needs_pak p"

text \<open>The value a \<open>lui\<close> and an \<open>addiu\<close> or \<open>ori\<close> load together; \<open>addiu\<close> extends the sign.\<close>

definition imm_value :: "u32 \<Rightarrow> u32 \<Rightarrow> u32" where
  "imm_value hi lo =
     (let low = (if drop_bit 26 lo = 0x09 then scast (ucast lo :: u16) else lo AND 0xFFFF)
      in push_bit 16 hi + low)"

subsection \<open>Reading a profile\<close>

fun agent_rom_imm_of :: "rom_write \<Rightarrow> (addr \<times> addr option) option" where
  "agent_rom_imm_of (WriteImm l hi lo (NamedValue n)) = (if n = ''agent_rom'' then Some (hi, lo) else None)"
| "agent_rom_imm_of w = None"

fun find_map :: "('a \<Rightarrow> 'b option) \<Rightarrow> 'a list \<Rightarrow> 'b option" where
  "find_map f [] = None"
| "find_map f (x # xs) = (case f x of None \<Rightarrow> find_map f xs | Some y \<Rightarrow> Some y)"

definition agent_rom_imm :: "profile \<Rightarrow> (addr \<times> addr option) option" where
  "agent_rom_imm p = find_map agent_rom_imm_of (pf_write p)"

definition profile_cic :: "profile \<Rightarrow> profile_error + cic" where
  "profile_cic p = ok_or (UnknownCic (pf_cic p)) (cic_of_string (pf_cic p))"

text \<open>An address as an offset from the start of a find, or from the start of the ROM (\<open>None\<close>).\<close>

definition place_number :: "string \<Rightarrow> string \<Rightarrow> profile_error + int" where
  "place_number text n0 =
     (let n = trim n0
      in ok_or (BadPlace text)
           (case strip_prefix ''0x'' n of Some h \<Rightarrow> parse_i64 16 h | None \<Rightarrow> parse_i64 10 n))"

definition is_place_sign :: "char \<Rightarrow> bool" where
  "is_place_sign c \<longleftrightarrow> c \<in> set ''+-@''"

text \<open>What follows the name: nothing, \<open>+N\<close>, \<open>-N\<close>, or \<open>@VRAM\<close>.\<close>

fun place_offset :: "string \<Rightarrow> find_spec \<Rightarrow> string \<Rightarrow> profile_error + int" where
  "place_offset text f [] = Inr 0"
| "place_offset text f (c # n) =
     (if c = CHR ''+'' then place_number text n
      else if c = CHR ''-'' then bind_result (place_number text n) (\<lambda>v. Inr (wrap64 (- v)))
      else
        bind_result (ok_or (FindWithoutVram text (fs_name f)) (fs_vram f)) (\<lambda>vram.
          bind_result (place_number text n) (\<lambda>v. Inr (wrap64 (v - int (unat vram))))))"

fun place :: "profile \<Rightarrow> addr \<Rightarrow> profile_error + (string option \<times> int)" where
  "place p (RomAt i) = Inr (None, int (unat i))"
| "place p (FoundAt text) =
     bind_result (ok_or (NoSuchFind text)
         (find (\<lambda>f. fs_name f = trim (takeWhile (\<lambda>c. \<not> is_place_sign c) text)) (pf_find p)))
       (\<lambda>f. bind_result (place_offset text f (dropWhile (\<lambda>c. \<not> is_place_sign c) text))
         (\<lambda>offset. Inr (Some (fs_name f), offset)))"

definition ensure :: "bool \<Rightarrow> 'e \<Rightarrow> 'e + unit" where
  "ensure ok e = (if ok then Inr () else Inl e)"

fun check_all :: "('a \<Rightarrow> 'e + unit) \<Rightarrow> 'a list \<Rightarrow> 'e + unit" where
  "check_all f [] = Inr ()"
| "check_all f (x # xs) = bind_result (f x) (\<lambda>_. check_all f xs)"

definition find_name_char :: "char \<Rightarrow> bool" where
  "find_name_char c \<longleftrightarrow>
     (let n = of_char c :: nat in 97 \<le> n \<and> n \<le> 122 \<or> 48 \<le> n \<and> n \<le> 57 \<or> c = CHR ''_'')"

definition check_measured :: "profile \<Rightarrow> profile_error + unit" where
  "check_measured p =
     (case pf_measured p of
        None \<Rightarrow> Inr ()
      | Some m \<Rightarrow>
          if (ms_world m \<noteq> None) \<noteq> (ms_version m \<noteq> None) then Inl MeasuredIncomplete
          else if ms_world m = None \<and> ms_header_name m = None then Inl MeasuredEmpty
          else Inr ())"

text \<open>The finds, with the names seen so far.\<close>

fun check_finds :: "string list \<Rightarrow> find_spec list \<Rightarrow> profile_error + unit" where
  "check_finds names [] = Inr ()"
| "check_finds names (f # fs) =
     (if \<not> (fs_name f \<noteq> [] \<and> list_all find_name_char (fs_name f)) \<or> fs_name f \<in> set names
      then Inl (BadFindName (fs_name f))
      else if fs_len f < 4 \<or> length (fs_sha1 f) \<noteq> 40 \<or> (case parse_hex (fs_sha1 f) of Inl _ \<Rightarrow> True | Inr _ \<Rightarrow> False)
      then Inl (BadFindHash (fs_name f))
      else check_finds (fs_name f # names) fs)"

fun imm_shape :: "require \<Rightarrow> bool" where
  "imm_shape (NeedImm l hi lo hi_word lo_word mn mx h) =
     (drop_bit 26 hi_word = 0x0F \<and> (drop_bit 26 lo_word = 0x09 \<or> drop_bit 26 lo_word = 0x0D) \<and>
      (hi_word OR lo_word) AND 0xFFFF = 0 \<and>
      (case (mn, mx) of (BoundValue a, BoundValue b) \<Rightarrow> \<not> a > b | _ \<Rightarrow> True))"
| "imm_shape r = True"

definition check_require :: "profile \<Rightarrow> require \<Rightarrow> profile_error + unit" where
  "check_require p r =
     bind_result (check_all (\<lambda>(a, _). bind_result (place p a) (\<lambda>_. Inr ())) (require_places r))
       (\<lambda>_. ensure (imm_shape r) (BadImmCheck (require_label r)))"

text \<open>
  \<open>pinned\<close>: whether the bytes a write lands on are covered by a check. A write may not reach the
  agent of a profile that can move it, nor land in a find's own region; the appended region needs no
  check.
\<close>

fun covered_by :: "profile \<Rightarrow> string option \<Rightarrow> int \<Rightarrow> int \<Rightarrow> (addr \<times> u32) list \<Rightarrow> profile_error + bool" where
  "covered_by p base i len [] = Inr False"
| "covered_by p base i len ((s, n) # places) =
     bind_result (place p s) (\<lambda>(b, s').
       if b = base \<and> s' \<le> i \<and> wrap64 (i + len) \<le> wrap64 (s' + int (unat n)) then Inr True
       else covered_by p base i len places)"

definition pinned :: "profile \<Rightarrow> addr \<Rightarrow> u32 \<Rightarrow> profile_error + bool" where
  "pinned p a len32 =
     bind_result (place p a) (\<lambda>(base, i).
       let len = int (unat len32);
           region = agent_region (pf_agent p);
           moves = agent_rom_imm p \<noteq> None
       in if moves \<and> base = None \<and> wrap64 (i + len) > int (unat region) then Inl (ReachesAgent i region)
          else if base = None \<and> i \<ge> int (unat region) then Inr True
          else
            (case (case base of None \<Rightarrow> None | Some b \<Rightarrow> find (\<lambda>f. fs_name f = b) (pf_find p)) of
               Some f \<Rightarrow>
                 if i < int (unat (fs_len f)) \<and> wrap64 (i + len) > 0 then Inl (InsideFind (fs_name f))
                 else covered_by p base i len (concat (map require_places (pf_require p)))
             | None \<Rightarrow> covered_by p base i len (concat (map require_places (pf_require p)))))"

definition need_pinned :: "profile \<Rightarrow> profile_error \<Rightarrow> addr \<Rightarrow> u32 \<Rightarrow> profile_error + unit" where
  "need_pinned p e a len = bind_result (pinned p a len) (\<lambda>ok. ensure ok e)"

fun check_write :: "profile \<Rightarrow> rom_write \<Rightarrow> profile_error + unit" where
  "check_write p (WriteReplace l i fro bytes) =
     bind_result (parse_hex fro) (\<lambda>f. bind_result (parse_hex bytes) (\<lambda>b.
       ensure (length f = length b) (ReplaceLengths l)))"
| "check_write p (WriteRestore l i bytes accept) =
     bind_result (parse_hex bytes) (\<lambda>b.
       check_all (\<lambda>a. bind_result (parse_hex a) (\<lambda>x.
         ensure (length x = length b) (RestoreLength l a (length b)))) accept)"
| "check_write p (WriteBlob l a f max_len) = need_pinned p (BlobNotPinned l) a max_len"
| "check_write p (WriteJal l a t) = need_pinned p (JalNotPinned l) a 4"
| "check_write p (WriteCopy l fro len i) =
     ensure (\<not> (i < agent_region (pf_agent p) \<or> i + len > ag_rom (pf_agent p))) (CopyOutside l)"
| "check_write p (WriteImm l hi lo v) =
     bind_result (check_all (\<lambda>a. need_pinned p (ImmNotPinned l) a 4)
                   (hi # (case lo of None \<Rightarrow> [] | Some a \<Rightarrow> [a])))
       (\<lambda>_. case v of
          ConstValue _ \<Rightarrow> Inr ()
        | NamedValue n \<Rightarrow>
            ensure (n \<in> set [''region_start'', ''region_size'', ''agent_rom'']) (UnknownImmValue l n))"

fun is_copy :: "rom_write \<Rightarrow> bool" where
  "is_copy (WriteCopy _ _ _ _) = True"
| "is_copy w = False"

definition check_slot :: "profile \<Rightarrow> profile_error + unit" where
  "check_slot p =
     (case ag_dma_slot (pf_agent p) of
        None \<Rightarrow> Inr ()
      | Some slot \<Rightarrow> need_pinned p (SlotNotPinned slot) (RomAt slot) 32)"

definition check_moves :: "profile \<Rightarrow> profile_error + unit" where
  "check_moves p =
     ensure (\<not> (agent_rom_imm p \<noteq> None \<and>
                (ag_region (pf_agent p) \<noteq> None \<or> ag_dma_slot (pf_agent p) \<noteq> None \<or>
                 pf_transform p \<noteq> None \<or> list_ex is_copy (pf_write p)))) AgentMoves"

definition check_profile :: "profile \<Rightarrow> profile_error + unit" where
  "check_profile p =
     bind_result (profile_cic p) (\<lambda>_.
     bind_result (check_measured p) (\<lambda>_.
     bind_result (ensure (length (pf_game_code p) = 4) (BadGameCode (pf_game_code p))) (\<lambda>_.
     bind_result (check_finds [] (pf_find p)) (\<lambda>_.
     bind_result (check_all (check_require p) (pf_require p)) (\<lambda>_.
     bind_result (ensure (\<not> ag_rom (pf_agent p) < agent_region (pf_agent p)) AgentBeforeRegion) (\<lambda>_.
     bind_result (check_slot p) (\<lambda>_.
     bind_result (check_all (check_write p) (pf_write p)) (\<lambda>_.
     check_moves p))))))))"

definition parse_profile :: "(string \<Rightarrow> string + profile) \<Rightarrow> string \<Rightarrow> profile_error + profile" where
  "parse_profile toml text =
     bind_result (case toml text of Inl e \<Rightarrow> Inl (NotToml e) | Inr p \<Rightarrow> Inr p) (\<lambda>p. bind_result (check_profile p) (\<lambda>_. Inr p))"

subsection \<open>Lemmas\<close>

lemma ensure_Inr_iff [simp, m64_result]: "ensure b e = Inr u \<longleftrightarrow> b"
  by (simp add: ensure_def)

lemma check_all_Inr_iff [simp, m64_result]: "check_all f xs = Inr u \<longleftrightarrow> (\<forall>x \<in> set xs. f x = Inr ())"
  by (induction xs) (auto simp: bind_result_Inr_iff)

lemma wrap64_small: "- (2 ^ 63) \<le> x \<Longrightarrow> x < 2 ^ 63 \<Longrightarrow> wrap64 x = x"
  by (simp add: wrap64_def)

lemma wrap64_range: "- (2 ^ 63) \<le> wrap64 x" "wrap64 x < 2 ^ 63"
  unfolding wrap64_def using pos_mod_bound [of "2 ^ 64" "x + 2 ^ 63"] pos_mod_sign [of "2 ^ 64" "x + 2 ^ 63"]
  by simp_all

lemma place_number_range: "place_number text n = Inr i \<Longrightarrow> - (2 ^ 63) \<le> i \<and> i < 2 ^ 63"
  by (auto simp: place_number_def Let_def ok_or_Inr_iff parse_i64_def
      split: option.splits prod.splits if_splits)

lemma place_offset_range:
  "place_offset text f rest = Inr i \<Longrightarrow> - (2 ^ 63) \<le> i \<and> i < 2 ^ 63"
  using wrap64_range
  by (cases rest) (auto simp: bind_result_Inr_iff split: if_splits dest: place_number_range)

lemma place_range: "place p a = Inr (base, i) \<Longrightarrow> - (2 ^ 63) \<le> i \<and> i < 2 ^ 63"
proof (cases a)
  case (RomAt x)
  assume "place p a = Inr (base, i)"
  with RomAt have i: "i = uint x" by simp
  then have "0 \<le> i" "i < 4294967296" using uint_lt2p [of x] by simp_all
  then show ?thesis by simp
qed (auto simp: bind_result_Inr_iff dest: place_offset_range)

lemma covered_by_Inr_True:
  "covered_by p base i len places = Inr True \<Longrightarrow>
   \<exists>s n s'. (s, n) \<in> set places \<and> place p s = Inr (base, s') \<and> s' \<le> i \<and>
     wrap64 (i + len) \<le> wrap64 (s' + int (unat n))"
  by (induction p base i len places rule: covered_by.induct)
    (fastforce simp: bind_result_Inr_iff split: if_splits prod.splits)+

end
