(* ===== verification/Rom_Patch.thy ===== *)
theory Rom_Patch
  imports Rom_Files Rom_Profile
begin

text \<open>
  Verifying a seed against a profile and splicing the agent into it
  (crates/ap64-core/src/patch.rs), and finding the profile of a seed (lib.rs). SHA-1 is the
  parameter \<open>sha1\<close>. The texts shown to the user are kept as data, \<open>check_detail\<close>; the summary lines
  of a patched ROM are left out. A panic is \<open>None\<close>, or \<open>Panicked\<close> where there are errors too.
\<close>

subsection \<open>Bundles\<close>

datatype game_bundle =
  Bundle (bd_profile: profile) (bd_blobs: "string \<Rightarrow> octets option") (bd_cart: cart)
    (bd_layout: string) (bd_others: "game_bundle list")

datatype bundle_error =
    MissingBlob string string
  | NoLayoutKey string
  | BadLayoutValue string string
  | InBuild cart bundle_error
  | NoBuilds

definition blob :: "game_bundle \<Rightarrow> string \<Rightarrow> bundle_error + octets" where
  "blob b name = ok_or (MissingBlob (pf_id (bd_profile b)) name) (bd_blobs b name)"

fun write_blob_file :: "rom_write \<Rightarrow> string option" where
  "write_blob_file (WriteBlob l a f m) = Some f"
| "write_blob_file w = None"

definition need_blob :: "game_bundle \<Rightarrow> string \<Rightarrow> bundle_error + unit" where
  "need_blob b name = bind_result (blob b name) (\<lambda>_. Inr ())"

definition new_bundle :: "profile \<Rightarrow> (string \<Rightarrow> octets option) \<Rightarrow> bundle_error + game_bundle" where
  "new_bundle p blobs =
     (let b = Bundle p blobs Sc64 [] []
      in bind_result (need_blob b (ag_image (pf_agent p))) (\<lambda>_.
         bind_result (check_all (\<lambda>w. case write_blob_file w of None \<Rightarrow> Inr () | Some f \<Rightarrow> need_blob b f)
           (pf_write p)) (\<lambda>_. Inr b)))"

text \<open>A \<open>KEY=0x...\<close> value of a layout.env: the first line that starts with the key and an equals sign.\<close>

fun split_lines :: "string \<Rightarrow> string list" where
  "split_lines [] = [[]]"
| "split_lines (c # cs) =
     (if of_char c = (10 :: nat) then [] # split_lines cs
      else case split_lines cs of l # ls \<Rightarrow> (c # l) # ls | [] \<Rightarrow> [[c]])"

definition layout_value :: "string \<Rightarrow> string \<Rightarrow> bundle_error + u32" where
  "layout_value layout key =
     (case find_map (\<lambda>l. case strip_prefix key (trim l) of
                           None \<Rightarrow> None | Some rest \<Rightarrow> strip_prefix ''='' rest) (split_lines layout) of
        None \<Rightarrow> Inl (NoLayoutKey key)
      | Some v0 \<Rightarrow>
          (let v = trim v0
           in ok_or (BadLayoutValue key v)
                (map_option word_of_nat
                  (case strip_prefix ''0x'' v of
                     Some h \<Rightarrow> parse_unsigned 16 32 h
                   | None \<Rightarrow> parse_unsigned 10 32 v))))"

definition build_for :: "profile \<Rightarrow> cart \<times> string \<times> (string \<Rightarrow> octets option) \<Rightarrow> bundle_error + game_bundle" where
  "build_for profile' build =
     (let (c, layout, blobs) = build
      in bind_result
           (if ag_bss (pf_agent profile') > 0
            then bind_result (layout_value layout ''AGENT_BSS_END'') (\<lambda>e.
                 bind_result (layout_value layout ''AGENT_BSS_START'') (\<lambda>s.
                   Inr (profile'\<lparr>pf_agent := (pf_agent profile')\<lparr>ag_bss := e - s\<rparr>\<rparr>)))
            else Inr profile')
           (\<lambda>p. case new_bundle p blobs of
                  Inl e \<Rightarrow> Inl (InBuild c e)
                | Inr b \<Rightarrow> Inr (Bundle (bd_profile b) (bd_blobs b) c layout [])))"

fun map_result :: "('a \<Rightarrow> 'e + 'b) \<Rightarrow> 'a list \<Rightarrow> 'e + 'b list" where
  "map_result f [] = Inr []"
| "map_result f (x # xs) = bind_result (f x) (\<lambda>y. bind_result (map_result f xs) (\<lambda>ys. Inr (y # ys)))"

definition with_builds ::
    "profile \<Rightarrow> (cart \<times> string \<times> (string \<Rightarrow> octets option)) list \<Rightarrow> bundle_error + game_bundle" where
  "with_builds p builds =
     bind_result (map_result (build_for p) builds) (\<lambda>made.
       case made of
         [] \<Rightarrow> Inl NoBuilds
       | first # rest \<Rightarrow>
           Inr (Bundle (bd_profile first) (bd_blobs first) (bd_cart first) (bd_layout first) rest))"

definition builds_of :: "game_bundle \<Rightarrow> game_bundle list" where
  "builds_of b = b # bd_others b"

definition for_cart :: "game_bundle \<Rightarrow> cart \<Rightarrow> game_bundle option" where
  "for_cart b c = find (\<lambda>x. bd_cart x = c) (builds_of b)"

definition agent_ram_end :: "game_bundle \<Rightarrow> u32 option" where
  "agent_ram_end b = (case layout_value (bd_layout b) ''AGENT_BSS_END'' of Inl _ \<Rightarrow> None | Inr v \<Rightarrow> Some v)"

subsection \<open>Checks\<close>

datatype check_detail =
    HeaderSays string u8
  | SizeIs nat
  | FindNowhere
  | FindAt nat "u32 option"
  | FindTwice nat nat
  | NotLocated string
  | WordHolds u32 u32 u32
  | WordPastEnd u32
  | RegionUnchanged u32 u32
  | RegionDiffers u32 u32
  | RegionPastEnd u32 u32
  | PairPastEnd u32 u32
  | PairDiffers u32 u32 u32 u32
  | PairLoads u32 u32 u32 bool u32 u32
  | HoldsOriginal u32
  | Restoring u32 octets string
  | HoldsOther u32 octets
  | HoldsNew u32 string
  | Replacing u32 string string
  | HoldsUnexpected u32 octets string
  | BytesPastEnd u32
  | BlobRoom nat u32
  | CopyRange u32 u32
  | BootCode "cic option"
  | AgentRoom nat nat bool u32
  | DecompressFailed files_error

record check =
  ck_label :: string
  ck_ok :: bool
  ck_detail :: check_detail
  ck_hint :: string

record report =
  rp_profile_id :: string
  rp_game :: string
  rp_release :: string
  rp_randomizer :: string
  rp_checks :: "check list"

definition report_ok :: "report \<Rightarrow> bool" where
  "report_ok r = list_all ck_ok (rp_checks r)"

definition make_check :: "string \<Rightarrow> bool \<Rightarrow> check_detail \<Rightarrow> string \<Rightarrow> check" where
  "make_check label ok detail hint =
     \<lparr>ck_label = label, ck_ok = ok, ck_detail = detail, ck_hint = (if ok then [] else hint)\<rparr>"

definition make_report :: "profile \<Rightarrow> check list \<Rightarrow> report" where
  "make_report p checks =
     \<lparr>rp_profile_id = pf_id p, rp_game = pf_name p, rp_release = pf_release p,
      rp_randomizer = pf_randomizer p, rp_checks = checks\<rparr>"

definition region :: "octets \<Rightarrow> u32 \<Rightarrow> nat \<Rightarrow> octets option" where
  "region rom i len = get_range rom (unat i) (unat i + len)"

subsection \<open>Finds\<close>

type_synonym found = "string \<Rightarrow> u32 option"

text \<open>The loop stops at the second hit.\<close>

definition find_hits :: "(octets \<Rightarrow> octets) \<Rightarrow> octets \<Rightarrow> find_spec \<Rightarrow> nat list" where
  "find_hits sha1 rom f =
     take 2 (filter (\<lambda>i. slice i (i + 4) rom = be32 (fs_word f) \<and>
        (case get_range rom i (i + unat (fs_len f)) of
           None \<Rightarrow> False | Some r \<Rightarrow> hex (sha1 r) = fs_sha1 f))
      (map (\<lambda>k. 4 * k) [0..<length rom div 4]))"

definition find_check :: "find_spec \<Rightarrow> nat list \<Rightarrow> check" where
  "find_check f hits =
     make_check (fs_label f) (length hits = 1)
       (case hits of [] \<Rightarrow> FindNowhere | [i] \<Rightarrow> FindAt i (fs_vram f) | i # j # _ \<Rightarrow> FindTwice i j)
       (fs_hint f)"

fun locate_from :: "(octets \<Rightarrow> octets) \<Rightarrow> octets \<Rightarrow> find_spec list \<Rightarrow> check list \<times> found \<Rightarrow> check list \<times> found" where
  "locate_from sha1 rom [] st = st"
| "locate_from sha1 rom (f # fs) st =
     (let hits = find_hits sha1 rom f;
          fnd = (case hits of [i] \<Rightarrow> (snd st)(fs_name f \<mapsto> word_of_nat i) | _ \<Rightarrow> snd st)
      in locate_from sha1 rom fs (fst st @ [find_check f hits], fnd))"

definition locate :: "(octets \<Rightarrow> octets) \<Rightarrow> profile \<Rightarrow> octets \<Rightarrow> check list \<times> found" where
  "locate sha1 p rom = locate_from sha1 rom (pf_find p) ([], \<lambda>_. None)"

definition u32_of_int :: "int \<Rightarrow> u32 option" where
  "u32_of_int x = (if 0 \<le> x \<and> x < 2 ^ 32 then Some (word_of_int x) else None)"

definition resolve :: "profile \<Rightarrow> found \<Rightarrow> addr \<Rightarrow> u32 option" where
  "resolve p fnd a =
     (case place p a of
        Inl _ \<Rightarrow> None
      | Inr (base, offset) \<Rightarrow>
          (case base of
             None \<Rightarrow> u32_of_int (wrap64 (0 + offset))
           | Some name \<Rightarrow>
               (case fnd name of None \<Rightarrow> None | Some i \<Rightarrow> u32_of_int (wrap64 (int (unat i) + offset)))))"

definition missing :: "profile \<Rightarrow> addr \<Rightarrow> check_detail" where
  "missing p a =
     (let name = (case place p a of Inr (Some n, _) \<Rightarrow> n | _ \<Rightarrow> [])
      in NotLocated (case find (\<lambda>f. fs_name f = name) (pf_find p) of None \<Rightarrow> name | Some f \<Rightarrow> fs_label f))"

subsection \<open>Preparing and checking\<close>

definition prepare :: "game_bundle \<Rightarrow> octets \<Rightarrow> (files_error, octets) outcome" where
  "prepare b rom =
     (case pf_transform (bd_profile b) of
        None \<Rightarrow> Done rom
      | Some (Yaz0Dmadata table) \<Rightarrow> yaz0_dmadata rom table)"

fun show_nat :: "nat \<Rightarrow> string" where
  "show_nat n = (if n < 10 then [char_of (48 + n)] else show_nat (n div 10) @ [char_of (48 + n mod 10)])"

declare show_nat.simps [simp del]

definition game_check :: "profile \<Rightarrow> octets \<Rightarrow> check" where
  "game_check p rom =
     (let (code, version) = (case header rom of
            None \<Rightarrow> (''?'', 0) | Some h \<Rightarrow> (rh_game_code h, rh_version h))
      in make_check ''Game'' (code = pf_game_code p \<and> version = pf_version p) (HeaderSays code version)
           (''this profile is for '' @ pf_name p @ '' '' @ pf_release p @ '' ('' @ pf_game_code p @
            '' v'' @ show_nat (unat (pf_version p)) @ '')''))"

definition size_check :: "octets \<Rightarrow> check" where
  "size_check rom =
     make_check ''Size'' (length rom \<ge> CRC_END) (SizeIs (length rom)) ''too small to be an N64 ROM''"

text \<open>Where the agent's RAM ends for an \<open>imm\<close> check; a bundle without a layout that lacks its image
  panics.\<close>

definition agent_end_for :: "game_bundle \<Rightarrow> u32 option" where
  "agent_end_for b =
     (case agent_ram_end b of
        Some e \<Rightarrow> Some e
      | None \<Rightarrow>
          map_option (\<lambda>image. ag_vram (pf_agent (bd_profile b)) + word_of_nat (length image) +
              ag_bss (pf_agent (bd_profile b)))
            (bd_blobs b (ag_image (pf_agent (bd_profile b)))))"

fun check_at :: "(octets \<Rightarrow> octets) \<Rightarrow> game_bundle \<Rightarrow> octets \<Rightarrow> require \<Rightarrow> u32 list \<Rightarrow> check option" where
  "check_at sha1 b rom (NeedWord label a equals hint) ats =
     (let i = ats ! 0; w = read_u32 rom (unat i)
      in Some (make_check label (w = Some equals)
           (case w of Some v \<Rightarrow> WordHolds i v equals | None \<Rightarrow> WordPastEnd i) hint))"
| "check_at sha1 b rom (NeedSha1 label a len want hint) ats =
     (let i = ats ! 0; h = map_option (\<lambda>r. hex (sha1 r)) (region rom i (unat len))
      in Some (make_check label (h = Some want)
           (case h of
              None \<Rightarrow> RegionPastEnd i len
            | Some x \<Rightarrow> if x = want then RegionUnchanged i len else RegionDiffers i len) hint))"
| "check_at sha1 b rom (NeedImm label hi lo hi_word lo_word mn mx hint) ats =
     (let i = ats ! 0; j = ats ! 1
      in case (read_u32 rom (unat i), read_u32 rom (unat j)) of
           (Some h, Some l) \<Rightarrow>
             if h AND 0xFFFF0000 \<noteq> hi_word \<or> l AND 0xFFFF0000 \<noteq> lo_word
             then Some (make_check label False (PairDiffers i h j l) hint)
             else (case agent_end_for b of
                     None \<Rightarrow> None
                   | Some e \<Rightarrow>
                       (let v = imm_value h l;
                            from = bound_value mn e;
                            upto = bound_value mx e;
                            ok = (from \<le> v \<and> v \<le> upto)
                        in Some (make_check label ok (PairLoads i j v ok from upto) hint)))
         | _ \<Rightarrow> Some (make_check label False (PairPastEnd i j) hint))"

definition require_check ::
    "(octets \<Rightarrow> octets) \<Rightarrow> game_bundle \<Rightarrow> octets \<Rightarrow> found \<Rightarrow> require \<Rightarrow> check option" where
  "require_check sha1 b rom fnd r =
     (let p = bd_profile b; places = map fst (require_places r)
      in case those (map (resolve p fnd) places) of
           Some ats \<Rightarrow> check_at sha1 b rom r ats
         | None \<Rightarrow>
             (case find (\<lambda>a. resolve p fnd a = None) places of
                None \<Rightarrow> None
              | Some lost \<Rightarrow> Some (make_check (require_label r) False (missing p lost) [])))"

definition hex_or_empty :: "string \<Rightarrow> octets" where
  "hex_or_empty s = (case parse_hex s of Inl _ \<Rightarrow> [] | Inr bs \<Rightarrow> bs)"

text \<open>The checks the writes make, and the scratch copy the restores apply to.\<close>

fun write_check :: "game_bundle \<Rightarrow> octets \<Rightarrow> rom_write \<Rightarrow> check list \<times> octets \<Rightarrow> check list \<times> octets" where
  "write_check b rom (WriteRestore label i bytes accept) (checks, restored) =
     (let want = hex_or_empty bytes;
          fnd = region rom i (length want);
          accepted = (case fnd of
             None \<Rightarrow> False
           | Some f \<Rightarrow> f = want \<or> list_ex (\<lambda>a. parse_hex a = Inr f) accept)
      in (checks @ [make_check label accepted
            (case fnd of
               None \<Rightarrow> BytesPastEnd i
             | Some f \<Rightarrow> if f = want then HoldsOriginal i
                         else if accepted then Restoring i f bytes else HoldsOther i f)
            ''the patch changed these bytes in a way this profile does not know how to undo''],
          if accepted then splice (unat i) want restored else restored))"
| "write_check b rom (WriteReplace label i fro bytes) (checks, restored) =
     (let want = hex_or_empty bytes;
          known = hex_or_empty fro;
          fnd = region rom i (length want);
          accepted = (case fnd of None \<Rightarrow> False | Some f \<Rightarrow> f = want \<or> f = known)
      in (checks @ [make_check label accepted
            (case fnd of
               None \<Rightarrow> BytesPastEnd i
             | Some f \<Rightarrow> if f = want then HoldsNew i bytes
                         else if accepted then Replacing i fro bytes else HoldsUnexpected i f fro)
            ''the randomizer changed the code this profile changes; it has not been measured against this release''],
          restored))"
| "write_check b rom (WriteBlob label a file max_len) (checks, restored) =
     (let len = (case bd_blobs b file of None \<Rightarrow> 0 | Some x \<Rightarrow> length x)
      in (checks @ [make_check label ((word_of_nat len :: u32) \<le> max_len) (BlobRoom len max_len)
            ''the profile's blob does not fit where it goes''], restored))"
| "write_check b rom (WriteCopy label fro len i) (checks, restored) =
     (checks @ [make_check label (region rom fro (unat len) \<noteq> None) (CopyRange fro len)
        ''the seed is too short to hold what this copies''], restored)"
| "write_check b rom (WriteJal label a t) st = st"
| "write_check b rom (WriteImm label hi lo v) st = st"

definition boot_check :: "(octets \<Rightarrow> octets) \<Rightarrow> profile \<Rightarrow> octets \<Rightarrow> check" where
  "boot_check sha1 p restored =
     (let expected = (case profile_cic p of Inl _ \<Rightarrow> None | Inr c \<Rightarrow> Some c);
          fnd = identify sha1 restored
      in make_check ''Boot code (IPL3)'' (fnd \<noteq> None \<and> fnd = expected) (BootCode fnd)
           ''the output would carry boot code whose checksum this tool cannot produce'')"

definition ROM_LIMIT :: nat where "ROM_LIMIT = 0x4000000"
definition MOVED_ALIGN :: nat where "MOVED_ALIGN = 0x1000"

text \<open>Just past the last byte that is not padding.\<close>

definition data_end :: "octets \<Rightarrow> nat" where
  "data_end rom = length (dropWhile is_pad (rev rom))"

definition agent_place :: "profile \<Rightarrow> octets \<Rightarrow> nat" where
  "agent_place p rom =
     (let usual = unat (agent_region (pf_agent p));
          clear = list_all is_pad (drop usual rom)
      in if clear \<or> agent_rom_imm p = None then usual
         else next_multiple (data_end rom) MOVED_ALIGN)"

definition room_check :: "game_bundle \<Rightarrow> octets \<Rightarrow> check" where
  "room_check b rom =
     (let p = bd_profile b;
          agent_rom = agent_place p rom;
          image = (case bd_blobs b (ag_image (pf_agent p)) of None \<Rightarrow> 0 | Some x \<Rightarrow> length x);
          agent_end = agent_rom + image + unat (ag_bss (pf_agent p));
          fits = (pf_transform p \<noteq> None \<or> agent_end \<le> ROM_LIMIT)
      in make_check ''Room for the agent'' (list_all is_pad (drop agent_rom rom) \<and> fits)
           (AgentRoom (data_end rom) agent_rom (agent_rom = unat (ag_rom (pf_agent p))) (ag_rom (pf_agent p)))
           (if \<not> fits then ''the seed leaves no room for the agent in the 64 MiB a cart can hold''
            else ''the randomizer's data reaches where the agent goes''))"

definition verify_prepared :: "(octets \<Rightarrow> octets) \<Rightarrow> game_bundle \<Rightarrow> octets \<Rightarrow> (report \<times> found) option" where
  "verify_prepared sha1 b rom =
     (let p = bd_profile b;
          first = [game_check p rom, size_check rom]
      in if length rom < CRC_END then Some (make_report p first, \<lambda>_. None)
         else
           let (located, fnd) = locate sha1 p rom
           in (case those (map (require_check sha1 b rom fnd) (pf_require p)) of
                 None \<Rightarrow> None
               | Some required \<Rightarrow>
                   (let (writes, restored) = fold (write_check b rom) (pf_write p) ([], rom)
                    in Some (make_report p (first @ located @ required @ writes @
                         [boot_check sha1 p restored, room_check b rom]), fnd))))"

definition verify :: "(octets \<Rightarrow> octets) \<Rightarrow> game_bundle \<Rightarrow> octets \<Rightarrow> report option" where
  "verify sha1 b rom =
     (case prepare b rom of
        Panicked \<Rightarrow> None
      | Done prepared \<Rightarrow> map_option fst (verify_prepared sha1 b prepared)
      | Refused e \<Rightarrow>
          Some (make_report (bd_profile b) [make_check ''Decompress'' False (DecompressFailed e)
            ''this does not look like a seed of this game'']))"

subsection \<open>Applying a profile\<close>

datatype internal_error =
    NotPlacedAt addr
  | BadProfile profile_error
  | NoBlob bundle_error
  | CopySourcePastEnd
  | WriteOverAgent
  | NotAddiuOrOri string u32
  | NeedsLowHalf string u32
  | ImmPastEnd string
  | UnexpectedChange nat
  | NoBootCheck
  | BadFiles files_error
  | NotThePatchedImage
  | NoRepackedBootCheck

datatype apply_error = RefusedReport report | Internal internal_error

text \<open>A range of offsets; \<open>None\<close> is the end \<open>usize::MAX\<close>, which every index is below.\<close>

type_synonym offsets = "nat \<times> nat option"

fun in_offsets :: "nat \<Rightarrow> offsets \<Rightarrow> bool" where
  "in_offsets i (a, None) = (a \<le> i)"
| "in_offsets i (a, Some b) = (a \<le> i \<and> i < b)"

definition jal :: "u32 \<Rightarrow> u32" where
  "jal target = 0x0C000000 OR (drop_bit 2 target AND 0x03FFFFFF)"

text \<open>The output so far, and the ranges the writes so far account for.\<close>

type_synonym patching = "octets \<times> offsets list"

definition put :: "nat \<Rightarrow> octets \<Rightarrow> patching \<Rightarrow> patching" where
  "put i bytes st =
     (let (out, allowed) = st;
          grown = (if length out < i + length bytes then resize0 (i + length bytes) out else out)
      in (splice i bytes grown, allowed @ [(i, Some (i + length bytes))]))"

definition placed_at :: "profile \<Rightarrow> found \<Rightarrow> addr \<Rightarrow> internal_error + u32" where
  "placed_at p fnd a = ok_or (NotPlacedAt a) (resolve p fnd a)"

definition relabel :: "('e \<Rightarrow> 'f) \<Rightarrow> 'e + 'a \<Rightarrow> 'f + 'a" where
  "relabel f r = (case r of Inl e \<Rightarrow> Inl (f e) | Inr v \<Rightarrow> Inr v)"

text \<open>What each write puts where; an \<open>imm\<close> write waits until the agent is in place.\<close>

fun write_bytes :: "game_bundle \<Rightarrow> octets \<Rightarrow> found \<Rightarrow> rom_write \<Rightarrow> internal_error + (nat \<times> octets) option" where
  "write_bytes b input fnd (WriteBlob l a file m) =
     bind_result (placed_at (bd_profile b) fnd a) (\<lambda>i.
     bind_result (relabel NoBlob (blob b file)) (\<lambda>bytes. Inr (Some (unat i, bytes))))"
| "write_bytes b input fnd (WriteJal l a target) =
     bind_result (placed_at (bd_profile b) fnd a) (\<lambda>i. Inr (Some (unat i, be32 (jal target))))"
| "write_bytes b input fnd (WriteRestore l i bytes accept) =
     bind_result (relabel BadProfile (parse_hex bytes)) (\<lambda>bs. Inr (Some (unat i, bs)))"
| "write_bytes b input fnd (WriteReplace l i fro bytes) =
     bind_result (relabel BadProfile (parse_hex bytes)) (\<lambda>bs. Inr (Some (unat i, bs)))"
| "write_bytes b input fnd (WriteCopy l fro len i) =
     bind_result (ok_or CopySourcePastEnd (region input fro (unat len))) (\<lambda>bs. Inr (Some (unat i, bs)))"
| "write_bytes b input fnd (WriteImm l hi lo v) = Inr None"

definition apply_write ::
    "game_bundle \<Rightarrow> octets \<Rightarrow> found \<Rightarrow> rom_write \<Rightarrow> patching \<Rightarrow> (internal_error, patching) outcome" where
  "apply_write b input fnd w st =
     bind_outcome (of_result (write_bytes b input fnd w)) (\<lambda>r.
       case r of None \<Rightarrow> Done st | Some (i, bytes) \<Rightarrow> Done (put i bytes st))"

text \<open>The agent, its BSS, and the alignment after it, past everything written so far.\<close>

definition append_agent :: "profile \<Rightarrow> octets \<Rightarrow> nat \<Rightarrow> patching \<Rightarrow> (internal_error, patching) outcome" where
  "append_agent p agent agent_rom st =
     (let (out, allowed) = st
      in if length out > agent_rom then Refused WriteOverAgent
         else
           let out1 = resize0 agent_rom out @ agent;
               out2 = resize0 (length out1 + unat (ag_bss (pf_agent p))) out1;
               align = (if ag_dma_slot (pf_agent p) \<noteq> None then 16 else 4)
           in Done (resize0 (next_multiple (length out2) align) out2, allowed))"

definition dma_slot_entry :: "profile \<Rightarrow> nat \<Rightarrow> u32 \<Rightarrow> patching \<Rightarrow> patching" where
  "dma_slot_entry p region_start region_size st =
     (case ag_dma_slot (pf_agent p) of
        None \<Rightarrow> st
      | Some slot \<Rightarrow>
          (let start = word_of_nat region_start
           in put (unat slot) (concat (map be32 [start, start + region_size, start, 0])) st))"

definition imm_source_value :: "imm_source \<Rightarrow> nat \<Rightarrow> nat \<Rightarrow> u32 \<Rightarrow> u32" where
  "imm_source_value v region_start agent_rom region_size =
     (case v of
        ConstValue c \<Rightarrow> c
      | NamedValue n \<Rightarrow>
          if n = ''region_start'' then word_of_nat region_start
          else if n = ''agent_rom'' then word_of_nat agent_rom
          else region_size)"

text \<open>
  How a value splits into the halves of the two instructions: \<open>addiu\<close> (opcode 9) extends the sign of
  its half, so the \<open>lui\<close> carries it; \<open>ori\<close> (opcode 13) does not.
\<close>

definition split_halves :: "u32 \<Rightarrow> u32 \<Rightarrow> (u32 \<times> u32) option" where
  "split_halves opcode v =
     (if opcode = 0x09 then Some (drop_bit 16 (v + 0x8000) AND 0xFFFF, v AND 0xFFFF)
      else if opcode = 0x0D then Some (drop_bit 16 v, v AND 0xFFFF)
      else None)"

definition imm_halves :: "string \<Rightarrow> octets \<Rightarrow> u32 \<Rightarrow> u32 option \<Rightarrow> internal_error + (u32 \<times> u32)" where
  "imm_halves label out v lo =
     (case lo of
        Some l \<Rightarrow>
          (case read_u32 out (unat l) of
             None \<Rightarrow> Inl (NotAddiuOrOri label l)
           | Some w \<Rightarrow> ok_or (NotAddiuOrOri label l) (split_halves (drop_bit 26 w) v))
      | None \<Rightarrow> if v AND 0xFFFF = 0 then Inr (drop_bit 16 v, 0) else Inl (NeedsLowHalf label v))"

definition put_imm :: "string \<Rightarrow> u32 \<times> u32 \<Rightarrow> patching \<Rightarrow> (internal_error, patching) outcome" where
  "put_imm label ai st =
     (case read_u32 (fst st) (unat (fst ai)) of
        None \<Rightarrow> Refused (ImmPastEnd label)
      | Some old \<Rightarrow> Done (put (unat (fst ai)) (be32 ((old AND 0xFFFF0000) OR snd ai)) st))"

fun apply_imm ::
    "profile \<Rightarrow> found \<Rightarrow> nat \<Rightarrow> nat \<Rightarrow> u32 \<Rightarrow> rom_write \<Rightarrow> patching \<Rightarrow> (internal_error, patching) outcome" where
  "apply_imm p fnd region_start agent_rom region_size (WriteImm label hi lo value) st =
     (let v = imm_source_value value region_start agent_rom region_size
      in bind_outcome (of_result (placed_at p fnd hi)) (\<lambda>hi'.
         bind_outcome (of_result (case lo of None \<Rightarrow> Inr None
             | Some l \<Rightarrow> bind_result (placed_at p fnd l) (\<lambda>i. Inr (Some i)))) (\<lambda>lo'.
         bind_outcome (of_result (imm_halves label (fst st) v lo')) (\<lambda>(hi16, lo16).
           fold_outcome (put_imm label)
             ((hi', hi16) # (case lo' of None \<Rightarrow> [] | Some l \<Rightarrow> [(l, lo16)])) st))))"
| "apply_imm p fnd region_start agent_rom region_size w st = Done st"

text \<open>The writes, the agent, its file table entry and the \<open>imm\<close> writes, on the prepared image.\<close>

definition patch_image :: "game_bundle \<Rightarrow> octets \<Rightarrow> found \<Rightarrow> octets \<Rightarrow> (internal_error, patching) outcome" where
  "patch_image b input fnd agent =
     (let p = bd_profile b;
          region_start = agent_place p input;
          out = resize0 region_start (take region_start input);
          allowed = [(CRC_OFFSET, Some (CRC_OFFSET + 8)), (region_start, None)]
      in bind_outcome (fold_outcome (apply_write b input fnd) (pf_write p) (out, allowed)) (\<lambda>st1.
           let agent_rom = (if agent_rom_imm p \<noteq> None then region_start else unat (ag_rom (pf_agent p)))
           in bind_outcome (append_agent p agent agent_rom st1) (\<lambda>st2.
                let region_size = word_of_nat (length (fst st2) - region_start)
                in fold_outcome (apply_imm p fnd region_start agent_rom region_size) (pf_write p)
                     (dma_slot_entry p region_start region_size st2))))"

text \<open>The first byte that differs and that no write accounts for.\<close>

definition unexpected_change :: "octets \<Rightarrow> octets \<Rightarrow> offsets list \<Rightarrow> nat option" where
  "unexpected_change input out allowed =
     find (\<lambda>i. input ! i \<noteq> out ! i \<and> \<not> list_ex (in_offsets i) allowed)
       [0..<min (length input) (length out)]"

definition boot_checks :: "(octets \<Rightarrow> octets) \<Rightarrow> octets \<Rightarrow> cic \<Rightarrow> bool" where
  "boot_checks sha1 out c \<longleftrightarrow> identify sha1 out = Some c \<and> stored out = compute out c"

text \<open>
  The patched image laid out over the seed, checked to decompress to what was patched. \<open>compute\<close> and
  \<open>crc::fix\<close> panic on an image too short to hold the summed range.
\<close>

definition repacked_rom ::
    "(octets \<Rightarrow> octets) \<Rightarrow> octets \<Rightarrow> octets \<Rightarrow> octets \<Rightarrow> u32 \<Rightarrow> cic \<Rightarrow> (internal_error, octets) outcome" where
  "repacked_rom sha1 seed original patched table c =
     bind_outcome (map_refused BadFiles (repack seed original patched table)) (\<lambda>r.
     bind_outcome (or_panic (fix_checksum (rp_rom r) c)) (\<lambda>(out, _).
     bind_outcome (map_refused BadFiles (yaz0_dmadata out table)) (\<lambda>seen0.
       let seen = (if length seen0 \<ge> CRC_OFFSET + 8
                   then splice CRC_OFFSET (slice CRC_OFFSET (CRC_OFFSET + 8) patched) seen0 else seen0)
       in if seen \<noteq> patched then Refused NotThePatchedImage
          else if \<not> boot_checks sha1 out c then Refused NoRepackedBootCheck
          else Done out)))"

definition finish_image ::
    "(octets \<Rightarrow> octets) \<Rightarrow> octets \<Rightarrow> cic \<Rightarrow> patching \<Rightarrow> (internal_error, octets) outcome" where
  "finish_image sha1 input c st =
     bind_outcome (or_panic (fix_checksum (fst st) c)) (\<lambda>(out, _).
       case unexpected_change input out (snd st) of
         Some i \<Rightarrow> Refused (UnexpectedChange i)
       | None \<Rightarrow> if \<not> boot_checks sha1 out c then Refused NoBootCheck else Done out)"

record patched =
  pt_rom :: octets
  pt_sha1 :: string

text \<open>\<open>to_uppercase\<close> on the hex digits.\<close>

definition upper_hex :: "string \<Rightarrow> string" where
  "upper_hex s = map (\<lambda>c. let n = of_char c :: nat in if 97 \<le> n \<and> n \<le> 122 then char_of (n - 32) else c) s"

definition apply_profile :: "(octets \<Rightarrow> octets) \<Rightarrow> game_bundle \<Rightarrow> octets \<Rightarrow> (apply_error, patched) outcome" where
  "apply_profile sha1 b rom =
     (let p = bd_profile b
      in case prepare b rom of
           Panicked \<Rightarrow> Panicked
         | Refused _ \<Rightarrow> bind_outcome (or_panic (verify sha1 b rom)) (\<lambda>r. Refused (RefusedReport r))
         | Done input \<Rightarrow>
             bind_outcome (or_panic (verify_prepared sha1 b input)) (\<lambda>(rep, fnd).
               if \<not> report_ok rep then Refused (RefusedReport rep)
               else map_refused Internal (
                 bind_outcome (of_result (relabel BadProfile (profile_cic p))) (\<lambda>c.
                 bind_outcome (of_result (relabel NoBlob (blob b (ag_image (pf_agent p))))) (\<lambda>agent.
                 bind_outcome (patch_image b input fnd agent) (\<lambda>st.
                 bind_outcome (finish_image sha1 input c st) (\<lambda>out.
                 bind_outcome (case pf_transform p of
                     None \<Rightarrow> Done out
                   | Some (Yaz0Dmadata table) \<Rightarrow> repacked_rom sha1 rom input out table c) (\<lambda>final.
                   Done \<lparr>pt_rom = final, pt_sha1 = upper_hex (hex (sha1 final))\<rparr>))))))))"

subsection \<open>Whether a ROM already carries the agent\<close>

fun imm_addrs :: "rom_write \<Rightarrow> addr list" where
  "imm_addrs (WriteImm l hi lo v) = hi # (case lo of None \<Rightarrow> [] | Some a \<Rightarrow> [a])"
| "imm_addrs w = []"

text \<open>A blob in place, but for the words an \<open>imm\<close> write set.\<close>

definition blob_holds :: "u32 list \<Rightarrow> u32 \<Rightarrow> octets \<Rightarrow> octets \<Rightarrow> bool" where
  "blob_holds rewritten a r bs \<longleftrightarrow>
     list_all (\<lambda>(i, x, y). x = y \<or> a + 4 * word_of_nat i \<in> set rewritten)
       (enumerate 0 (zip (chunks 4 r) (chunks 4 bs)))"

fun write_holds :: "game_bundle \<Rightarrow> octets \<Rightarrow> found \<Rightarrow> u32 list \<Rightarrow> rom_write \<Rightarrow> bool" where
  "write_holds b rom fnd rewritten (WriteJal l a target) =
     (case resolve (bd_profile b) fnd a of
        None \<Rightarrow> False | Some i \<Rightarrow> read_u32 rom (unat i) = Some (jal target))"
| "write_holds b rom fnd rewritten (WriteBlob l a file m) =
     (case (resolve (bd_profile b) fnd a, bd_blobs b file) of
        (Some i, Some bs) \<Rightarrow>
          (case region rom i (length bs) of None \<Rightarrow> False | Some r \<Rightarrow> blob_holds rewritten i r bs)
      | _ \<Rightarrow> False)"
| "write_holds b rom fnd rewritten (WriteReplace l i fro bytes) =
     (case parse_hex bytes of Inl _ \<Rightarrow> False | Inr bs \<Rightarrow> region rom i (length bs) = Some bs)"
| "write_holds b rom fnd rewritten w = True"

definition agent_rom_of :: "profile \<Rightarrow> octets \<Rightarrow> found \<Rightarrow> u32 option" where
  "agent_rom_of p rom fnd =
     (let word = (\<lambda>a. case resolve p fnd a of None \<Rightarrow> None | Some i \<Rightarrow> read_u32 rom (unat i))
      in case agent_rom_imm p of
           None \<Rightarrow> Some (ag_rom (pf_agent p))
         | Some (hi, None) \<Rightarrow> map_option (push_bit 16) (word hi)
         | Some (hi, Some lo) \<Rightarrow>
             (case (word hi, word lo) of (Some h, Some l) \<Rightarrow> Some (imm_value h l) | _ \<Rightarrow> None))"

definition has_agent :: "(octets \<Rightarrow> octets) \<Rightarrow> game_bundle \<Rightarrow> octets \<Rightarrow> bool option" where
  "has_agent sha1 b rom0 =
     (case prepare b rom0 of
        Panicked \<Rightarrow> None
      | Refused _ \<Rightarrow> Some False
      | Done rom \<Rightarrow>
          (let p = bd_profile b
           in case bd_blobs b (ag_image (pf_agent p)) of
                None \<Rightarrow> Some False
              | Some agent \<Rightarrow>
                  (let fnd = snd (locate sha1 p rom);
                       rewritten = List.map_filter (resolve p fnd) (concat (map imm_addrs (pf_write p)))
                   in Some (list_all (write_holds b rom fnd rewritten) (pf_write p) \<and>
                        (case agent_rom_of p rom fnd of
                           None \<Rightarrow> False | Some a \<Rightarrow> region rom a (length agent) = Some agent)))))"

end
