(* ===== verification/Rom_Patch_Safety.thy ===== *)
theory Rom_Patch_Safety
  imports Rom_Patch
begin

text \<open>
  What \<open>apply\<close> guarantees: the ranges its writes account for, why its own alarm never goes off, that
  a seed loses only bytes the profile checked, and that an instruction pair loads the value written
  into it.
\<close>

subsection \<open>What a patch changes\<close>

text \<open>
  The output so far agrees with the input wherever no range accounts for a difference, and every
  range is one that \<open>Q\<close> admits.
\<close>

definition accounted :: "(offsets \<Rightarrow> bool) \<Rightarrow> octets \<Rightarrow> nat \<Rightarrow> patching \<Rightarrow> bool" where
  "accounted Q input start st \<longleftrightarrow>
     start \<le> length (fst st) \<and> (start, None) \<in> set (snd st) \<and>
     (CRC_OFFSET, Some (CRC_OFFSET + 8)) \<in> set (snd st) \<and> (\<forall>r \<in> set (snd st). Q r) \<and>
     (\<forall>i < length input. i < length (fst st) \<longrightarrow> \<not> list_ex (in_offsets i) (snd st) \<longrightarrow>
        fst st ! i = input ! i)"

lemma length_resize0 [simp]: "length (resize0 n xs) = n"
  by (simp add: resize0_def)

lemma nth_resize0: "i < n \<Longrightarrow> i < length xs \<Longrightarrow> resize0 n xs ! i = xs ! i"
  by (simp add: resize0_def nth_append)

lemma accounted_put:
  assumes "accounted Q input start st" "Q (i, Some (i + length bs))"
  shows "accounted Q input start (put i bs st)"
proof -
  obtain out allowed where st: "st = (out, allowed)" by (cases st)
  define grown where "grown = (if length out < i + length bs then resize0 (i + length bs) out else out)"
  have fits: "i + length bs \<le> length grown" and grown: "length out \<le> length grown"
    by (simp_all add: grown_def)
  have put: "put i bs st = (splice i bs grown, allowed @ [(i, Some (i + length bs))])"
    by (simp add: put_def st grown_def)
  have "splice i bs grown ! k = input ! k"
    if k: "k < length input" "k < length grown" "\<not> list_ex (in_offsets k) (allowed @ [(i, Some (i + length bs))])" for k
  proof -
    have "\<not> in_offsets k (start, None)" using k(3) assms(1) by (auto simp: accounted_def st list_ex_iff)
    then have out: "k < length out" using assms(1) by (simp add: accounted_def st)
    then have "grown ! k = out ! k" by (auto simp: grown_def nth_resize0)
    moreover have "out ! k = input ! k" using assms(1) k out by (simp add: accounted_def st)
    moreover have "\<not> (i \<le> k \<and> k < i + length bs)" using k(3) by auto
    ultimately show ?thesis using k(2) fits by (auto simp: nth_splice)
  qed
  then show ?thesis
    using assms fits grown unfolding put by (simp add: accounted_def st)
qed

lemma accounted_longer:
  assumes "accounted Q input start (out, allowed)" "length out \<le> length out'" "take (length out) out' = out"
  shows "accounted Q input start (out', allowed)"
proof -
  have "out' ! k = input ! k"
    if k: "k < length input" "k < length out'" "\<not> list_ex (in_offsets k) allowed" for k
  proof -
    have "\<not> in_offsets k (start, None)" using k(3) assms(1) by (auto simp: accounted_def list_ex_iff)
    then have out: "k < length out" using assms(1) by (simp add: accounted_def)
    then have "out' ! k = out ! k" using assms(3) by (metis nth_take)
    then show ?thesis using assms(1) k out by (simp add: accounted_def)
  qed
  then show ?thesis using assms(1,2) by (simp add: accounted_def)
qed

lemma take_resize0: "length xs \<le> n \<Longrightarrow> take (length xs) (resize0 n xs) = xs"
  by (simp add: resize0_def)

lemma next_multiple_ge: "0 < k \<Longrightarrow> n \<le> next_multiple n k"
proof -
  assume "0 < k"
  then have "(n + (k - 1)) mod k \<le> k - 1" using mod_less_divisor [of k "n + (k - 1)"] by linarith
  moreover have "(n + (k - 1)) div k * k + (n + (k - 1)) mod k = n + (k - 1)" by (rule div_mult_mod_eq)
  ultimately show ?thesis unfolding next_multiple_def by linarith
qed

lemma append_agent_accounted:
  assumes "append_agent p agent agent_rom st = Done st'" "accounted Q input start st"
  shows "accounted Q input start st'"
proof -
  obtain out allowed where st: "st = (out, allowed)" by (cases st)
  define out1 where "out1 = resize0 agent_rom out @ agent"
  define out2 where "out2 = resize0 (length out1 + unat (ag_bss (pf_agent p))) out1"
  define align :: nat where "align = (if ag_dma_slot (pf_agent p) \<noteq> None then 16 else 4)"
  have fits: "length out \<le> agent_rom"
    and st': "st' = (resize0 (next_multiple (length out2) align) out2, allowed)"
    using assms(1) by (simp_all add: append_agent_def st Let_def out1_def out2_def align_def split: if_splits)
  have "take (length out) out1 = out" using fits by (simp add: out1_def resize0_def)
  then have "accounted Q input start (out1, allowed)"
    using assms(2) fits accounted_longer [of Q input start out allowed out1] by (simp add: st out1_def)
  then have "accounted Q input start (out2, allowed)"
    by (rule accounted_longer) (simp_all add: out2_def take_resize0)
  then show ?thesis
    unfolding st'
    by (rule accounted_longer) (simp_all add: take_resize0 next_multiple_ge align_def)
qed

text \<open>The ranges the writes of a profile may account for.\<close>

definition write_ranges_ok :: "(offsets \<Rightarrow> bool) \<Rightarrow> game_bundle \<Rightarrow> octets \<Rightarrow> found \<Rightarrow> bool" where
  "write_ranges_ok Q b input fnd \<longleftrightarrow>
     Q (CRC_OFFSET, Some (CRC_OFFSET + 8)) \<and> Q (agent_place (bd_profile b) input, None) \<and>
     (\<forall>w \<in> set (pf_write (bd_profile b)). \<forall>i bs. write_bytes b input fnd w = Inr (Some (i, bs)) \<longrightarrow>
        Q (i, Some (i + length bs))) \<and>
     (\<forall>slot. ag_dma_slot (pf_agent (bd_profile b)) = Some slot \<longrightarrow> Q (unat slot, Some (unat slot + 16))) \<and>
     (\<forall>w \<in> set (pf_write (bd_profile b)). \<forall>a \<in> set (imm_addrs w). \<forall>i.
        resolve (bd_profile b) fnd a = Some i \<longrightarrow> Q (unat i, Some (unat i + 4)))"

lemma accounted_start:
  assumes "write_ranges_ok Q b input fnd"
  shows "accounted Q input (agent_place (bd_profile b) input)
    (resize0 (agent_place (bd_profile b) input) (take (agent_place (bd_profile b) input) input),
     [(CRC_OFFSET, Some (CRC_OFFSET + 8)), (agent_place (bd_profile b) input, None)])"
  using assms by (auto simp: accounted_def write_ranges_ok_def nth_resize0)

lemma apply_write_accounted:
  assumes "apply_write b input fnd w st = Done st'" "accounted Q input start st"
    and "write_ranges_ok Q b input fnd" "w \<in> set (pf_write (bd_profile b))"
  shows "accounted Q input start st'"
  using assms
  by (auto simp: apply_write_def bind_outcome_Done_iff write_ranges_ok_def split: option.splits
      intro!: accounted_put)

lemma put_imm_accounted:
  assumes "put_imm label ai st = Done st'" "accounted Q input start st" "Q (unat (fst ai), Some (unat (fst ai) + 4))"
  shows "accounted Q input start st'"
  using assms by (auto simp: put_imm_def split: option.splits intro!: accounted_put)

lemma placed_at_Inr_iff [simp]: "placed_at p fnd a = Inr i \<longleftrightarrow> resolve p fnd a = Some i"
  by (simp add: placed_at_def ok_or_Inr_iff)

lemma apply_imm_Done:
  assumes "apply_imm p fnd rs ar rz (WriteImm label hi lo value) st = Done st'"
  obtains hi' lo' hi16 lo16 where "resolve p fnd hi = Some hi'"
    "case lo of None \<Rightarrow> lo' = None | Some l \<Rightarrow> \<exists>i. resolve p fnd l = Some i \<and> lo' = Some i"
    "imm_halves label (fst st) (imm_source_value value rs ar rz) lo' = Inr (hi16, lo16)"
    "fold_outcome (put_imm label) ((hi', hi16) # (case lo' of None \<Rightarrow> [] | Some l \<Rightarrow> [(l, lo16)])) st = Done st'"
proof -
  from assms obtain hi' lo' halves where "resolve p fnd hi = Some hi'"
    and lo: "(case lo of None \<Rightarrow> Inr None | Some l \<Rightarrow> bind_result (placed_at p fnd l) (\<lambda>i. Inr (Some i))) = Inr lo'"
    and "imm_halves label (fst st) (imm_source_value value rs ar rz) lo' = Inr halves"
      "(case halves of (hi16, lo16) \<Rightarrow> fold_outcome (put_imm label)
         ((hi', hi16) # (case lo' of None \<Rightarrow> [] | Some l \<Rightarrow> [(l, lo16)])) st) = Done st'"
    unfolding apply_imm.simps Let_def bind_outcome_Done_iff of_result_Done_iff placed_at_Inr_iff
    by blast
  moreover have "case lo of None \<Rightarrow> lo' = None | Some l \<Rightarrow> \<exists>i. resolve p fnd l = Some i \<and> lo' = Some i"
    using lo by (auto simp: bind_result_Inr_iff split: option.splits)
  ultimately show thesis using that by (cases halves) simp
qed

lemma apply_imm_accounted:
  assumes "apply_imm (bd_profile b) fnd rs ar rz w st = Done st'" "accounted Q input start st"
    and "write_ranges_ok Q b input fnd" "w \<in> set (pf_write (bd_profile b))"
  shows "accounted Q input start st'"
proof (cases w)
  case (WriteImm label hi lo src)
  obtain hi' lo' hi16 lo16 where hi: "resolve (bd_profile b) fnd hi = Some hi'"
    and lo: "case lo of None \<Rightarrow> lo' = None | Some l \<Rightarrow> \<exists>i. resolve (bd_profile b) fnd l = Some i \<and> lo' = Some i"
    and puts: "fold_outcome (put_imm label) ((hi', hi16) # (case lo' of None \<Rightarrow> [] | Some l \<Rightarrow> [(l, lo16)])) st = Done st'"
    using assms(1) unfolding WriteImm by (rule apply_imm_Done) (rule that; assumption)
  have Q: "Q (unat i, Some (unat i + 4))" if "a \<in> set (imm_addrs w)" "resolve (bd_profile b) fnd a = Some i" for a i
    using assms(3,4) that by (auto simp: write_ranges_ok_def)
  have "Q (unat (fst ai), Some (unat (fst ai) + 4))"
    if "ai \<in> set ((hi', hi16) # (case lo' of None \<Rightarrow> [] | Some l \<Rightarrow> [(l, lo16)]))" for ai
    using that hi lo by (auto simp: WriteImm split: option.splits intro: Q [unfolded WriteImm])
  then show ?thesis
    using fold_outcome_invariant [OF puts, of "accounted Q input start"] assms(2) put_imm_accounted by blast
qed (use assms(1,2) in simp_all)

lemma patch_image_accounted:
  assumes "patch_image b input fnd agent = Done st" "write_ranges_ok Q b input fnd"
  shows "accounted Q input (agent_place (bd_profile b) input) st"
proof -
  define p start where "p = bd_profile b" and "start = agent_place p input"
  obtain st1 st2 ar rz where st1: "fold_outcome (apply_write b input fnd) (pf_write p)
      (resize0 start (take start input), [(CRC_OFFSET, Some (CRC_OFFSET + 8)), (start, None)]) = Done st1"
    and st2: "append_agent p agent ar st1 = Done st2"
    and st: "fold_outcome (apply_imm p fnd start ar rz) (pf_write p) (dma_slot_entry p start rz st2) = Done st"
    using assms(1) by (auto simp: patch_image_def Let_def bind_outcome_Done_iff start_def p_def)
  have "accounted Q input start st1"
    using fold_outcome_invariant [OF st1, of "accounted Q input start"]
      accounted_start [OF assms(2)] apply_write_accounted assms(2) by (simp add: start_def p_def)
  then have "accounted Q input start st2" by (rule append_agent_accounted [OF st2])
  then have "accounted Q input start (dma_slot_entry p start rz st2)"
    using assms(2) by (auto simp: dma_slot_entry_def Let_def write_ranges_ok_def p_def split: option.split
        intro!: accounted_put)
  then show ?thesis
    using fold_outcome_invariant [OF st, of "accounted Q input start"] apply_imm_accounted assms(2)
    by (simp add: p_def start_def)
qed

lemma unexpected_change_Some:
  assumes "unexpected_change input out allowed = Some i"
  shows "i < length input" "i < length out" "input ! i \<noteq> out ! i" "\<not> list_ex (in_offsets i) allowed"
  using assms by (auto simp: unexpected_change_def find_Some_iff)

lemma bind_outcome_Refused_iff [m64_result]:
  "bind_outcome r f = Refused e \<longleftrightarrow> r = Refused e \<or> (\<exists>v. r = Done v \<and> f v = Refused e)"
  by (cases r) auto

lemma of_result_Refused_iff [simp, m64_result]: "of_result r = Refused e \<longleftrightarrow> r = Inl e"
  by (cases r) auto

lemma or_panic_not_Refused [simp, m64_result]: "or_panic r \<noteq> Refused e"
  by (cases r) auto

lemma map_refused_Refused_iff [simp, m64_result]:
  "map_refused f r = Refused e \<longleftrightarrow> (\<exists>e'. r = Refused e' \<and> e = f e')"
  by (cases r) (auto simp: map_refused_def)

lemma relabel_Inl_iff [simp, m64_result]: "relabel f r = Inl e \<longleftrightarrow> (\<exists>e'. r = Inl e' \<and> e = f e')"
  by (cases r) (auto simp: relabel_def)

lemma bind_result_Inl_iff [m64_result]:
  "bind_result r f = Inl e \<longleftrightarrow> r = Inl e \<or> (\<exists>v. r = Inr v \<and> f v = Inl e)"
  by (cases r) auto

lemma ok_or_Inl_iff [m64_result]: "ok_or e r = Inl e' \<longleftrightarrow> r = None \<and> e' = e"
  by (cases r) auto

lemma fold_outcome_Refused:
  "fold_outcome f xs s = Refused e \<Longrightarrow> \<exists>x \<in> set xs. \<exists>s. f x s = Refused e"
  by (induction xs arbitrary: s) (auto simp: bind_outcome_Refused_iff)

lemma write_bytes_no_alarm: "write_bytes b input fnd w \<noteq> Inl (UnexpectedChange i)"
  by (cases w) (auto simp: bind_result_Inl_iff ok_or_Inl_iff placed_at_def)

lemma apply_imm_no_alarm: "apply_imm p fnd rs ar rz w st \<noteq> Refused (UnexpectedChange i)"
proof (cases w)
  case (WriteImm label hi lo src)
  have "fold_outcome (put_imm label) xs t \<noteq> Refused (UnexpectedChange i)" for xs t
    by (auto dest!: fold_outcome_Refused simp: put_imm_def split: option.splits)
  then show ?thesis
    by (auto simp: WriteImm Let_def bind_outcome_Refused_iff bind_result_Inl_iff ok_or_Inl_iff placed_at_def
        imm_halves_def split: option.splits if_splits prod.splits simp del: fold_outcome.simps)
qed simp_all

lemma patch_image_no_alarm: "patch_image b input fnd agent \<noteq> Refused (UnexpectedChange i)"
  using write_bytes_no_alarm apply_imm_no_alarm
  by (fastforce simp: patch_image_def Let_def bind_outcome_Refused_iff append_agent_def apply_write_def
      split: option.splits if_splits prod.splits dest!: fold_outcome_Refused)

lemma finish_image_no_alarm:
  assumes "accounted (\<lambda>_. True) input start st"
  shows "finish_image sha1 input c st \<noteq> Refused (UnexpectedChange i)"
proof
  assume "finish_image sha1 input c st = Refused (UnexpectedChange i)"
  then obtain out s1 s2 where fixed: "fix_checksum (fst st) c = Some (out, s1, s2)"
    and alarm: "unexpected_change input out (snd st) = Some i"
    by (auto simp: finish_image_def bind_outcome_Refused_iff split: option.splits if_splits)
  note change = unexpected_change_Some [OF alarm]
  have "\<not> (CRC_OFFSET \<le> i \<and> i < CRC_OFFSET + 8)" using change(4) assms by (auto simp: accounted_def list_ex_iff)
  then have "out ! i = fst st ! i"
    using fix_checksum_Some(2,3) [OF fixed] change(2) by auto
  then show False
    using change assms fix_checksum_Some(2) [OF fixed] by (simp add: accounted_def)
qed

text \<open>C32: The patcher's own alarm never goes off: whatever the profile and the seed, the bytes that differ
  between the prepared seed and the output are all accounted for by a write, the checksum or the
  appended region, so \<open>apply\<close> never reports an unexpected change.\<close>

theorem apply_changes_are_accounted_for:
  "apply_profile sha1 b rom \<noteq> Refused (Internal (UnexpectedChange i))"
proof
  assume *: "apply_profile sha1 b rom = Refused (Internal (UnexpectedChange i))"
  have repacked: "repacked_rom sha1 seed original patched' table c \<noteq> Refused (UnexpectedChange i)"
    for seed original patched' table c
    by (auto simp: repacked_rom_def Let_def bind_outcome_Refused_iff)
  obtain input fnd agent st c where patch: "patch_image b input fnd agent = Done st"
    and finish: "finish_image sha1 input c st = Refused (UnexpectedChange i)"
  proof (cases "pf_transform (bd_profile b)")
    case None
    with * show ?thesis
      using that patch_image_no_alarm
      by (auto simp: apply_profile_def Let_def bind_outcome_Refused_iff bind_result_Inl_iff
          split: outcome.splits if_splits prod.splits)
  next
    case (Some y)
    moreover obtain table where "y = Yaz0Dmadata table" by (cases y)
    ultimately show ?thesis
      using * that patch_image_no_alarm repacked
      by (auto simp: apply_profile_def Let_def bind_outcome_Refused_iff bind_result_Inl_iff
          split: outcome.splits if_splits prod.splits)
  qed
  have "write_ranges_ok (\<lambda>_. True) b input fnd" by (simp add: write_ranges_ok_def)
  with patch have "accounted (\<lambda>_. True) input (agent_place (bd_profile b) input) st"
    by (rule patch_image_accounted)
  then show False using finish finish_image_no_alarm by blast
qed

subsection \<open>Every byte of the seed that changes was checked\<close>

text \<open>A byte a passed check of the profile reads.\<close>

definition checked_at :: "(octets \<Rightarrow> octets) \<Rightarrow> game_bundle \<Rightarrow> octets \<Rightarrow> found \<Rightarrow> nat \<Rightarrow> bool" where
  "checked_at sha1 b rom fnd i \<longleftrightarrow>
     list_ex (\<lambda>r.
       (case require_check sha1 b rom fnd r of None \<Rightarrow> False | Some c \<Rightarrow> ck_ok c) \<and>
       list_ex (\<lambda>(a, n). case resolve (bd_profile b) fnd a of
           None \<Rightarrow> False | Some s \<Rightarrow> unat s \<le> i \<and> i < unat s + unat n) (require_places r))
       (pf_require (bd_profile b))"

text \<open>A byte a \<open>restore\<close> or \<open>replace\<close> write covers, where the seed holds bytes the write names.\<close>

fun known_write :: "octets \<Rightarrow> nat \<Rightarrow> rom_write \<Rightarrow> bool" where
  "known_write rom i (WriteRestore l a bytes accept) =
     (case region rom a (length (hex_or_empty bytes)) of
        None \<Rightarrow> False
      | Some f \<Rightarrow> unat a \<le> i \<and> i < unat a + length f \<and>
          (f = hex_or_empty bytes \<or> list_ex (\<lambda>x. parse_hex x = Inr f) accept))"
| "known_write rom i (WriteReplace l a fro bytes) =
     (case region rom a (length (hex_or_empty bytes)) of
        None \<Rightarrow> False
      | Some f \<Rightarrow> unat a \<le> i \<and> i < unat a + length f \<and>
          (f = hex_or_empty bytes \<or> f = hex_or_empty fro))"
| "known_write rom i w = False"

definition known_at :: "profile \<Rightarrow> octets \<Rightarrow> nat \<Rightarrow> bool" where
  "known_at p rom i \<longleftrightarrow> list_ex (known_write rom i) (pf_write p)"

lemma those_Some: "those xs = Some ys \<Longrightarrow> xs = map Some ys"
  by (induction xs arbitrary: ys) (auto split: option.splits)

lemma fst_write_check: "fst (write_check b rom w (cs, r)) = cs @ fst (write_check b rom w ([], r'))"
  by (cases w) (simp_all add: Let_def)

lemma fst_fold_write_check:
  "fst (fold (write_check b rom) ws (cs, r)) = cs @ concat (map (\<lambda>w. fst (write_check b rom w ([], []))) ws)"
proof (induction ws arbitrary: cs r)
  case (Cons w ws)
  obtain cs' r' where "write_check b rom w (cs, r) = (cs', r')" by fastforce
  then show ?case using Cons.IH [of cs' r'] fst_write_check [of b rom w cs r "[]"] by simp
qed simp

lemma verified_facts:
  assumes "verify_prepared sha1 b rom = Some (rep, fnd)" "report_ok rep"
  shows "CRC_END \<le> length rom"
    and "r \<in> set (pf_require (bd_profile b)) \<Longrightarrow> \<exists>c. require_check sha1 b rom fnd r = Some c \<and> ck_ok c"
    and "w \<in> set (pf_write (bd_profile b)) \<Longrightarrow> list_all ck_ok (fst (write_check b rom w ([], [])))"
    and "list_all is_pad (drop (agent_place (bd_profile b) rom) rom)"
proof -
  define p where "p = bd_profile b"
  show len: "CRC_END \<le> length rom"
    using assms by (auto simp: verify_prepared_def Let_def report_ok_def make_report_def size_check_def
        make_check_def split: if_splits)
  obtain located required writes restored where
      req: "those (map (require_check sha1 b rom fnd) (pf_require p)) = Some required"
    and wr: "fold (write_check b rom) (pf_write p) ([], rom) = (writes, restored)"
    and rep: "rep = make_report p ([game_check p rom, size_check rom] @ located @ required @ writes @
      [boot_check sha1 p restored, room_check b rom])"
    using assms(1) len by (auto simp: verify_prepared_def Let_def p_def split: option.splits prod.splits)
  from rep assms(2) have ok: "list_all ck_ok required" "list_all ck_ok writes" "ck_ok (room_check b rom)"
    by (simp_all add: report_ok_def make_report_def)
  show "\<exists>c. require_check sha1 b rom fnd r = Some c \<and> ck_ok c" if "r \<in> set (pf_require (bd_profile b))"
  proof -
    have "require_check sha1 b rom fnd r \<in> Some ` set required"
      using those_Some [OF req] that by (metis image_eqI list.set_map p_def)
    then show ?thesis using ok(1) by (auto simp: list_all_iff)
  qed
  show "list_all ck_ok (fst (write_check b rom w ([], [])))" if "w \<in> set (pf_write (bd_profile b))"
    using ok(2) wr fst_fold_write_check [of b rom "pf_write p" "[]" rom] that
    by (auto simp: list_all_iff p_def)
  show "list_all is_pad (drop (agent_place (bd_profile b) rom) rom)"
    using ok(3) by (simp add: room_check_def make_check_def Let_def)
qed

lemma require_resolved:
  assumes "require_check sha1 b rom fnd r = Some c" "ck_ok c" "(a, n) \<in> set (require_places r)"
  shows "\<exists>s. resolve (bd_profile b) fnd a = Some s"
proof (cases "those (map (resolve (bd_profile b) fnd) (map fst (require_places r)))")
  case None
  then show ?thesis
    using assms(1,2) by (auto simp: require_check_def Let_def make_check_def split: option.splits)
next
  case (Some ats)
  have "resolve (bd_profile b) fnd a \<in> set (map (resolve (bd_profile b) fnd) (map fst (require_places r)))"
    using assms(3) by force
  then have "resolve (bd_profile b) fnd a \<in> Some ` set ats"
    unfolding those_Some [OF Some] by simp
  then show ?thesis by blast
qed

definition base_of :: "found \<Rightarrow> string option \<Rightarrow> int option" where
  "base_of fnd base = (case base of None \<Rightarrow> Some 0 | Some name \<Rightarrow> map_option (\<lambda>w. int (unat w)) (fnd name))"

lemma u32_of_int_Some: "u32_of_int x = Some w \<Longrightarrow> int (unat w) = x \<and> 0 \<le> x \<and> x < 2 ^ 32"
  by (auto simp: u32_of_int_def uint_word_of_int_eq take_bit_eq_mod split: if_splits)

lemma wrap64_near: "- 17179869184 \<le> x \<Longrightarrow> x \<le> 17179869184 \<Longrightarrow> wrap64 x = x"
  by (rule wrap64_small) simp_all

lemma wrap64_u32:
  assumes "- (2 ^ 63) \<le> off" "off < 2 ^ 63" "0 \<le> B" "B < 2 ^ 32" "0 \<le> wrap64 (B + off)" "wrap64 (B + off) < 2 ^ 32"
  shows "wrap64 (B + off) = B + off"
proof (cases "B + off < 2 ^ 63")
  case True
  then show ?thesis using assms by (intro wrap64_small) simp_all
next
  case False
  have "wrap64 (B + off) = B + off - 2 ^ 64"
  proof -
    have "(B + off + 2 ^ 63) mod 2 ^ 64 = (B + off - 2 ^ 63) mod 2 ^ 64"
      using mod_add_self2 [of "B + off - 2 ^ 63" "2 ^ 64"] by (simp add: algebra_simps)
    also have "\<dots> = B + off - 2 ^ 63" using False assms by (intro mod_pos_pos_trivial) simp_all
    finally show ?thesis by (simp add: wrap64_def)
  qed
  then show ?thesis using assms by simp
qed

lemma resolve_Some:
  assumes "resolve p fnd a = Some x"
  obtains base off B where "place p a = Inr (base, off)" "base_of fnd base = Some B"
    "int (unat x) = B + off" "0 \<le> B" "B < 4294967296"
proof -
  obtain base off where place: "place p a = Inr (base, off)"
    using assms by (auto simp: resolve_def split: sum.splits)
  obtain B where B: "base_of fnd base = Some B" "u32_of_int (wrap64 (B + off)) = Some x" "0 \<le> B" "B < 2 ^ 32"
  proof (cases base)
    case None
    then show ?thesis using that [of 0] assms place by (simp add: resolve_def base_of_def)
  next
    case (Some name)
    then obtain w where w: "fnd name = Some w" "u32_of_int (wrap64 (int (unat w) + off)) = Some x"
      using assms place by (auto simp: resolve_def split: option.splits)
    have "int (unat w) < 2 ^ 32" using unsigned_less [of w] by simp
    then show ?thesis using that [of "int (unat w)"] w Some by (simp add: base_of_def)
  qed
  from u32_of_int_Some [OF B(2)] have "int (unat x) = wrap64 (B + off)" "0 \<le> wrap64 (B + off)"
      "wrap64 (B + off) < 2 ^ 32" by simp_all
  with wrap64_u32 [of off B] place_range [OF place] B have "int (unat x) = B + off" by simp
  with place B show thesis by (intro that [of base off B]) simp_all
qed

lemma resolve_RomAt [simp]: "resolve p fnd (RomAt x) = Some x"
proof -
  have x: "uint x < 4294967296" using uint_lt2p [of x] by simp
  have "wrap64 (uint x) = uint x"
    by (rule wrap64_near) (use x uint_ge_0 [of x] in linarith)+
  then show ?thesis using x by (simp add: resolve_def u32_of_int_def)
qed

lemma agent_place_fixed: "agent_rom_imm p = None \<Longrightarrow> agent_place p rom = unat (agent_region (pf_agent p))"
  by (simp add: agent_place_def Let_def)

lemma pinned_checked:
  assumes "pinned (bd_profile b) a len = Inr True" "resolve (bd_profile b) fnd a = Some x"
    and checked: "\<And>r. r \<in> set (pf_require (bd_profile b)) \<Longrightarrow>
      \<exists>c. require_check sha1 b rom fnd r = Some c \<and> ck_ok c"
    and i: "unat x \<le> i" "i < unat x + unat len" "i < agent_place (bd_profile b) rom"
  shows "checked_at sha1 b rom fnd i"
proof -
  define p reg where "p = bd_profile b" and "reg = int (unat (agent_region (pf_agent p)))"
  obtain base off B where place: "place p a = Inr (base, off)" and B: "base_of fnd base = Some B"
    and x: "int (unat x) = B + off" and bounds: "0 \<le> B" "B < 4294967296"
    using resolve_Some [OF assms(2)] unfolding p_def by metis
  have x32: "int (unat x) < 4294967296" using unsigned_less [of x] by simp
  have len32: "int (unat len) < 4294967296" using unsigned_less [of len] by simp
  have small: "wrap64 (off + int (unat len)) = off + int (unat len)"
    using x x32 len32 bounds by (intro wrap64_near) linarith+
  have covered: "covered_by p base off (int (unat len)) (concat (map require_places (pf_require p))) = Inr True"
  proof (rule ccontr)
    assume "\<not> ?thesis"
    then have base: "base = None" "reg \<le> off"
        "\<not> (agent_rom_imm p \<noteq> None \<and> off + int (unat len) > reg)"
      using assms(1) place small
      by (auto simp: pinned_def p_def reg_def Let_def bind_result_Inr_iff split: if_splits option.splits)
    then have off: "off = int (unat x)" using B x by (simp add: base_of_def)
    have above: "unat (agent_region (pf_agent p)) \<le> unat x"
      using base(2) off by (simp only: reg_def of_nat_le_iff)
    show False
    proof (cases "agent_rom_imm p")
      case None
      then show False using agent_place_fixed [OF None, of rom] i above by (simp add: p_def)
    next
      case (Some y)
      then have "off + int (unat len) \<le> reg" using base(3) by (simp only: not_None_eq) auto
      with base(2) i show False by linarith
    qed
  qed
  from covered_by_Inr_True [OF this] obtain s n s' where s: "(s, n) \<in> set (concat (map require_places (pf_require p)))"
      "place p s = Inr (base, s')" "s' \<le> off"
      "wrap64 (off + int (unat len)) \<le> wrap64 (s' + int (unat n))"
    by blast
  then obtain r where r: "r \<in> set (pf_require p)" "(s, n) \<in> set (require_places r)" by auto
  then obtain c where c: "require_check sha1 b rom fnd r = Some c" "ck_ok c" using checked p_def by blast
  obtain y where y: "resolve p fnd s = Some y" using require_resolved [OF c r(2)] p_def by blast
  obtain base' off' B' where "place p s = Inr (base', off')" "base_of fnd base' = Some B'"
      "int (unat y) = B' + off'"
    using resolve_Some [OF y] by metis
  with s(2) B have y': "int (unat y) = B + s'" by simp
  have n32: "int (unat n) < 4294967296" using unsigned_less [of n] by simp
  have y32: "int (unat y) < 4294967296" using unsigned_less [of y] by simp
  have "wrap64 (s' + int (unat n)) = s' + int (unat n)"
    using y' y32 n32 bounds by (intro wrap64_near) linarith+
  with s(4) small have "off + int (unat len) \<le> s' + int (unat n)" by simp
  with s(3) x y' i have "unat y \<le> i \<and> i < unat y + unat n" by linarith
  then have "list_ex (\<lambda>(a, n). case resolve p fnd a of None \<Rightarrow> False
      | Some s \<Rightarrow> unat s \<le> i \<and> i < unat s + unat n) (require_places r)"
    using r(2) y by (auto simp: list_ex_iff intro!: bexI [of _ "(s, n)"])
  then show ?thesis
    using r(1) c unfolding checked_at_def list_ex_iff p_def by (intro bexI [of _ r]) auto
qed

lemma need_pinned_True: "need_pinned p e a len = Inr u \<longleftrightarrow> pinned p a len = Inr True"
  by (auto simp: need_pinned_def bind_result_Inr_iff)

lemma check_profile_facts:
  assumes "check_profile p = Inr ()"
  shows "w \<in> set (pf_write p) \<Longrightarrow> check_write p w = Inr ()"
    and "ag_dma_slot (pf_agent p) = Some slot \<Longrightarrow> pinned p (RomAt slot) 32 = Inr True"
    and "WriteCopy l fro len i \<in> set (pf_write p) \<Longrightarrow> agent_rom_imm p = None"
  using assms
  by (auto simp: check_profile_def bind_result_Inr_iff check_slot_def need_pinned_True check_moves_def
      list_ex_iff simp del: not_None_eq)

definition legit :: "(octets \<Rightarrow> octets) \<Rightarrow> game_bundle \<Rightarrow> octets \<Rightarrow> found \<Rightarrow> nat \<Rightarrow> bool" where
  "legit sha1 b rom fnd i \<longleftrightarrow>
     CRC_OFFSET \<le> i \<and> i < CRC_OFFSET + 8 \<or> checked_at sha1 b rom fnd i \<or> known_at (bd_profile b) rom i"

lemma hex_or_empty_Inr: "parse_hex s = Inr bs \<Longrightarrow> hex_or_empty s = bs"
  by (simp add: hex_or_empty_def)

lemma written_bytes_legit:
  assumes profile: "check_profile (bd_profile b) = Inr ()"
    and verified: "verify_prepared sha1 b rom = Some (rep, fnd)" "report_ok rep"
    and small: "\<And>f bs. bd_blobs b f = Some bs \<Longrightarrow> length bs < 2 ^ 32"
    and w: "w \<in> set (pf_write (bd_profile b))" "write_bytes b rom fnd w = Inr (Some (i0, bs))"
    and i: "i0 \<le> i" "i < i0 + length bs" "i < agent_place (bd_profile b) rom"
  shows "legit sha1 b rom fnd i"
proof -
  note facts = verified_facts [OF verified]
  have ok: "list_all ck_ok (fst (write_check b rom w ([], [])))" by (rule facts(3) [OF w(1)])
  have parsed: "check_write (bd_profile b) w = Inr ()" by (rule check_profile_facts(1) [OF profile w(1)])
  show ?thesis
  proof (cases w)
    case (WriteBlob l a f max_len)
    then obtain x where x: "resolve (bd_profile b) fnd a = Some x" "i0 = unat x" "bd_blobs b f = Some bs"
      using w(2) by (auto simp: bind_result_Inr_iff relabel_def blob_def ok_or_Inr_iff split: sum.splits)
    have "(word_of_nat (length bs) :: u32) \<le> max_len"
      using ok x(3) by (simp add: WriteBlob make_check_def Let_def)
    then have "length bs \<le> unat max_len"
      using small [OF x(3)] by (simp add: word_le_nat_alt unsigned_of_nat take_bit_eq_mod)
    moreover have "pinned (bd_profile b) a max_len = Inr True"
      using parsed by (simp add: WriteBlob need_pinned_True)
    ultimately show ?thesis
      using pinned_checked [OF _ x(1) facts(2), of max_len i] i x(2) by (simp add: legit_def)
  next
    case (WriteJal l a target)
    then obtain x where x: "resolve (bd_profile b) fnd a = Some x" "i0 = unat x" "length bs = 4"
      using w(2) by (auto simp: bind_result_Inr_iff)
    have "pinned (bd_profile b) a 4 = Inr True"
      using parsed by (simp add: WriteJal need_pinned_True)
    then show ?thesis
      using pinned_checked [OF _ x(1) facts(2), of 4 i] i x(2,3) by (simp add: legit_def)
  next
    case (WriteCopy l fro len at')
    then have "agent_rom_imm (bd_profile b) = None" "i0 = unat at'" "\<not> at' < agent_region (pf_agent (bd_profile b))"
      using w check_profile_facts(3) [OF profile] parsed by (auto simp: bind_result_Inr_iff)
    then have "agent_place (bd_profile b) rom \<le> i"
      using i(1) by (simp add: agent_place_fixed word_less_nat_alt)
    then show ?thesis using i(3) by simp
  next
    case (WriteRestore l a bytes accept)
    then have bs: "parse_hex bytes = Inr bs" "i0 = unat a"
      using w(2) by (auto simp: bind_result_Inr_iff relabel_def split: sum.splits)
    then have "known_write rom i w"
      using ok i by (auto simp: WriteRestore make_check_def Let_def hex_or_empty_Inr region_def get_range_def
          list_ex_iff split: option.splits if_splits)
    then show ?thesis using w(1) by (auto simp: legit_def known_at_def list_ex_iff)
  next
    case (WriteReplace l a fro bytes)
    then have bs: "parse_hex bytes = Inr bs" "i0 = unat a"
      using w(2) by (auto simp: bind_result_Inr_iff relabel_def split: sum.splits)
    then have "known_write rom i w"
      using ok i by (auto simp: WriteReplace make_check_def Let_def hex_or_empty_Inr region_def get_range_def
          split: option.splits if_splits)
    then show ?thesis using w(1) by (auto simp: legit_def known_at_def list_ex_iff)
  next
    case (WriteImm l hi lo v)
    then show ?thesis using w(2) by simp
  qed
qed


subsection \<open>The two halves of a value\<close>

lemma and_FFFF: "(w :: u32) AND 0xFFFF = take_bit 16 w"
  by (simp add: take_bit_eq_mask mask_eq_exp_minus_1)

lemma and_FFFF0000: "(w :: u32) AND 0xFFFF0000 = push_bit 16 (drop_bit 16 w)"
proof -
  have "push_bit 16 (drop_bit 16 w) = w AND NOT (mask 16)"
    by (rule bit_word_eqI) (auto simp: bit_simps)
  also have "NOT (mask 16) = (0xFFFF0000 :: u32)"
    by (simp add: mask_eq_exp_minus_1)
  finally show ?thesis by simp
qed

lemma add_halves: "push_bit 16 (drop_bit 16 (w :: u32)) + take_bit 16 w = w"
  by (metis bits_ident)

text \<open>The sign of the low half: what \<open>addiu\<close> takes off again, and why the \<open>lui\<close> carries it.\<close>

lemma sign_extend: "scast (ucast (l :: u32) :: u16) = take_bit 16 l - (0x10000 :: u32) * of_bool (bit l 15)"
proof -
  have "scast (ucast l :: u16) = (signed_take_bit 15 l :: u32)"
    by (simp add: signed_ucast_eq)
  then show ?thesis by (simp add: signed_take_bit_eq_take_bit_minus)
qed

lemma take_bit_16_add: "take_bit 16 (a + b :: u32) = take_bit 16 (take_bit 16 a + take_bit 16 b)"
  by transfer (simp add: take_bit_add)

lemma bit_8000 [simp]: "bit (0x8000 :: int) n \<longleftrightarrow> n = 15"
proof -
  have "(0x8000 :: int) = 2 ^ 15" by simp
  then show ?thesis by (simp only: bit_exp_iff) auto
qed

lemma carried_half:
  "push_bit 16 (drop_bit 16 (v + 0x8000 :: u32)) = push_bit 16 (drop_bit 16 v) + 0x10000 * of_bool (bit v 15)"
proof (cases "bit v 15")
  case False
  have "v + 0x8000 = v OR 0x8000"
  proof (rule disjunctive_add_eq_or)
    show "v AND 0x8000 = 0" by (rule bit_word_eqI) (use False in \<open>auto simp: bit_and_iff\<close>)
  qed
  then have "drop_bit 16 (v + 0x8000) = drop_bit 16 v"
    by (auto intro!: bit_word_eqI simp: bit_simps)
  then show ?thesis using False by simp
next
  case True
  define u where "u = v AND NOT 0x8000"
  have v: "v = u OR 0x8000" using True by (auto intro!: bit_word_eqI simp: u_def bit_simps)
  also have "\<dots> = u + 0x8000"
    by (intro disjunctive_add_eq_or [symmetric]) (auto simp: u_def bit_eq_iff bit_simps)
  finally have sum: "v + 0x8000 = u + 0x10000" by simp
  have "take_bit 16 (u + 0x10000) = take_bit 16 u"
    by (subst take_bit_16_add) simp
  then have "push_bit 16 (drop_bit 16 (u + 0x10000)) + take_bit 16 u = u + 0x10000"
    using add_halves [of "u + 0x10000"] by simp
  also have "\<dots> = push_bit 16 (drop_bit 16 u) + 0x10000 + take_bit 16 u"
  proof -
    have "push_bit 16 (drop_bit 16 u) + 0x10000 + take_bit 16 u = push_bit 16 (drop_bit 16 u) + take_bit 16 u + 0x10000"
      by (simp only: ac_simps)
    then show ?thesis by (simp only: add_halves)
  qed
  finally have "push_bit 16 (drop_bit 16 (u + 0x10000)) = push_bit 16 (drop_bit 16 u) + 0x10000"
    by (rule add_right_imp_eq)
  moreover have "drop_bit 16 u = drop_bit 16 v"
    by (auto intro!: bit_word_eqI simp: v bit_simps)
  ultimately show ?thesis unfolding sum using True by simp
qed

text \<open>Whatever value an \<open>imm\<close> write puts into a pair of instructions, the pair then loads exactly that
  value, be the second an \<open>addiu\<close> or an \<open>ori\<close>, and the opcodes and registers of both are kept.\<close>

theorem imm_pair_loads_value:
  assumes "split_halves (drop_bit 26 l) v = Some (hi16, lo16)"
  shows "imm_value ((h AND 0xFFFF0000) OR hi16) ((l AND 0xFFFF0000) OR lo16) = v \<and>
    ((h AND 0xFFFF0000) OR hi16) AND 0xFFFF0000 = h AND 0xFFFF0000 \<and>
    ((l AND 0xFFFF0000) OR lo16) AND 0xFFFF0000 = l AND 0xFFFF0000"
proof -
  define h' l' where "h' = (h AND 0xFFFF0000) OR hi16" and "l' = (l AND 0xFFFF0000) OR lo16"
  have lo16: "lo16 = take_bit 16 v" and op: "drop_bit 26 l = 0x09 \<or> drop_bit 26 l = 0x0D"
    and hi16: "hi16 = (if drop_bit 26 l = 0x09 then take_bit 16 (drop_bit 16 (v + 0x8000)) else drop_bit 16 v)"
    using assms by (auto simp: split_halves_def and_FFFF split: if_splits)
  have hi_small: "take_bit 16 hi16 = hi16"
    by (simp add: hi16 take_bit_drop_bit take_bit_word_eq_self)
  have keep: "drop_bit 16 ((x AND 0xFFFF0000) OR y) = drop_bit 16 x" "take_bit 16 ((x AND 0xFFFF0000) OR y) = y"
    if "take_bit 16 y = y" for x y :: u32
  proof -
    from that have y: "bit y n \<Longrightarrow> n < 16" for n by (metis bit_take_bit_iff)
    show "drop_bit 16 ((x AND 0xFFFF0000) OR y) = drop_bit 16 x"
      unfolding and_FFFF0000
      by (rule bit_word_eqI) (auto simp: bit_simps dest: y bit_imp_le_length [of x])
    show "take_bit 16 ((x AND 0xFFFF0000) OR y) = y"
      unfolding and_FFFF0000 by (rule bit_word_eqI) (auto simp: bit_simps dest: y)
  qed
  have l: "drop_bit 16 l' = drop_bit 16 l" "take_bit 16 l' = take_bit 16 v"
  proof -
    have small: "take_bit 16 lo16 = lo16" by (simp add: lo16)
    show "drop_bit 16 l' = drop_bit 16 l" unfolding l'_def by (rule keep(1) [OF small])
    show "take_bit 16 l' = take_bit 16 v" unfolding l'_def keep(2) [OF small] by (rule lo16)
  qed
  have h: "drop_bit 16 h' = drop_bit 16 h" "take_bit 16 h' = hi16"
    unfolding h'_def by (rule keep(1) [OF hi_small], rule keep(2) [OF hi_small])
  have "drop_bit 26 l' = drop_bit 10 (drop_bit 16 l')" by simp
  then have op': "drop_bit 26 l' = drop_bit 26 l" unfolding l by simp
  have "push_bit 16 h' = push_bit 16 (take_bit 16 h')"
    by (rule bit_word_eqI) (auto simp: bit_simps)
  then have ph: "push_bit 16 h' = push_bit 16 hi16" unfolding h .
  have "imm_value h' l' = v"
  proof (cases "drop_bit 26 l = 0x09")
    case True
    have "bit l' 15 = bit (take_bit 16 l') 15" by (simp add: bit_simps)
    then have sign: "bit l' 15 = bit v 15" unfolding l by (simp add: bit_simps)
    have "push_bit 16 hi16 = push_bit 16 (drop_bit 16 (v + 0x8000))"
      by (rule bit_word_eqI) (auto simp: hi16 True bit_simps)
    then have "imm_value h' l' =
        push_bit 16 (drop_bit 16 v) + 0x10000 * of_bool (bit v 15) + (take_bit 16 v - 0x10000 * of_bool (bit v 15))"
      by (simp add: imm_value_def op' True ph carried_half sign_extend l sign)
    then show ?thesis using add_halves [of v] by simp
  next
    case False
    then show ?thesis
      using op add_halves [of v] by (simp add: imm_value_def op' ph hi16 and_FFFF l)
  qed
  moreover have "h' AND 0xFFFF0000 = h AND 0xFFFF0000" "l' AND 0xFFFF0000 = l AND 0xFFFF0000"
    unfolding and_FFFF0000 h l by simp_all
  ultimately show ?thesis unfolding h'_def l'_def by simp
qed

theorem imm_pair_loads_value_witness:
  "imm_value 0x3C048042 0x24849000 = 0x80419000 \<and> imm_value 0x3C048041 0x34849000 = 0x80419000"
proof -
  have "split_halves (drop_bit 26 (0x24840000 :: u32)) 0x80419000 = Some (0x8042, 0x9000)"
      "split_halves (drop_bit 26 (0x34840000 :: u32)) 0x80419000 = Some (0x8041, 0x9000)"
    by (simp_all add: split_halves_def drop_bit_eq_div and_FFFF take_bit_eq_mod)
  from imm_pair_loads_value [OF this(1), of "0x3C040000"] imm_pair_loads_value [OF this(2), of "0x3C040000"]
  show ?thesis by simp
qed

subsection \<open>A seed that is patched\<close>

text \<open>A blank ROM, a profile that hooks one word of it, and a hash that takes its boot code for the 6102's.\<close>

definition demo_sha1 :: "octets \<Rightarrow> octets" where
  "demo_sha1 x =
     [0xb2, 0xaf, 0xae, 0x24, 0x6e, 0x1d, 0xab, 0x74, 0x6b, 0xfb,
      0x28, 0xcb, 0x34, 0x6e, 0x29, 0x11, 0x96, 0x5e, 0xef, 0xa1]"

definition demo_profile :: profile where
  "demo_profile =
     \<lparr>pf_id = ''demo'', pf_name = ''Demo'', pf_release = ''1'', pf_game_code = ''....'', pf_version = 0,
      pf_cic = ''6102'', pf_randomizer = '''', pf_measured = None, pf_connector = '''',
      pf_game_needs_pak = False, pf_notes = [], pf_transform = None, pf_adjust = None,
      pf_agent = \<lparr>ag_image = ''agent'', ag_rom = 0x101000, ag_region = None, ag_bss = 0,
        ag_dma_slot = None, ag_vram = 0x80400000, ag_min_ram = 0\<rparr>,
      pf_find = [], pf_require = [NeedWord ''hook'' (RomAt 0x2000) 0 []],
      pf_write = [WriteJal ''hook'' (RomAt 0x2000) 0x80400000]\<rparr>"

definition demo_bundle :: game_bundle where
  "demo_bundle = Bundle demo_profile [''agent'' \<mapsto> [1, 2, 3, 4]] Sc64 [] []"

definition demo_rom :: octets where
  "demo_rom = replicate CRC_END 0"

lemma demo_hash: "hex (demo_sha1 x) = ''b2afae246e1dab746bfb28cb346e2911965eefa1''"
  unfolding demo_sha1_def by code_simp

lemma demo_identify: "IPL3_END \<le> length rom \<Longrightarrow> identify demo_sha1 rom = Some Cic6102"
  by (simp add: identify_def get_range_def demo_hash KNOWN_IPL3_def IPL3_START_def IPL3_END_def)

lemma demo_checked: "check_profile demo_profile = Inr ()"
  by (simp add: demo_profile_def check_profile_def check_measured_def check_slot_def check_moves_def
      profile_cic_def cic_of_string_def check_require_def need_pinned_def pinned_def agent_rom_imm_def
      agent_region_def wrap64_near ensure_def)

lemma demo_word: "read_u32 demo_rom 0x2000 = Some 0"
  by (simp add: read_u32_Some_iff demo_rom_def CRC_END_def be32_at_def of_be32_def)

lemma demo_verified: "\<exists>rep. verify_prepared demo_sha1 demo_bundle demo_rom = Some (rep, \<lambda>_. None) \<and> report_ok rep"
proof -
  have dots: "replicate 4 CHR ''.'' = ''....''" by (simp add: numeral_eq_Suc)
  then have "ck_ok (game_check demo_profile demo_rom)"
    by (simp add: game_check_def header_def demo_rom_def CRC_END_def slice_def shown_char_def demo_profile_def
        make_check_def dots)
  moreover have "require_check demo_sha1 demo_bundle demo_rom (\<lambda>_. None) (NeedWord ''hook'' (RomAt 0x2000) 0 []) =
      Some (make_check ''hook'' True (WordHolds 0x2000 0 0) [])"
    by (simp add: require_check_def demo_bundle_def demo_word Let_def)
  moreover have "ck_ok (boot_check demo_sha1 demo_profile demo_rom)"
    by (simp add: boot_check_def demo_identify demo_rom_def crc_bounds profile_cic_def demo_profile_def
        cic_of_string_def make_check_def)
  moreover have "ck_ok (room_check demo_bundle demo_rom)"
    by (simp add: room_check_def demo_bundle_def demo_profile_def agent_place_def agent_region_def demo_rom_def
        CRC_END_def make_check_def ROM_LIMIT_def Let_def)
  ultimately show ?thesis
    by (simp add: verify_prepared_def Let_def demo_bundle_def demo_profile_def locate_def report_ok_def
        make_report_def size_check_def make_check_def demo_rom_def)
qed

lemma demo_patched:
  "patch_image demo_bundle demo_rom (\<lambda>_. None) [1, 2, 3, 4] =
     Done (splice 0x2000 [0x0C, 0x10, 0, 0] demo_rom @ [1, 2, 3, 4],
       [(CRC_OFFSET, Some (CRC_OFFSET + 8)), (CRC_END, None), (0x2000, Some 0x2004)])"
proof -
  have place: "agent_place demo_profile demo_rom = CRC_END"
    by (simp add: agent_place_def agent_region_def demo_profile_def demo_rom_def CRC_END_def)
  have start: "resize0 CRC_END (take CRC_END demo_rom) = demo_rom"
    by (simp add: resize0_def demo_rom_def)
  have word: "be32 (jal 0x80400000) = [0x0C, 0x10, 0, 0]" by (simp add: jal_def be32_def)
  show ?thesis
    by (simp add: patch_image_def demo_bundle_def place start Let_def)
      (simp add: demo_profile_def apply_write_def placed_at_def put_def word Let_def append_agent_def agent_rom_imm_def
        dma_slot_entry_def demo_rom_def CRC_END_def resize0_def next_multiple_def)
qed

lemma demo_finished:
  "\<exists>out. finish_image demo_sha1 demo_rom Cic6102
     (splice 0x2000 [0x0C, 0x10, 0, 0] demo_rom @ [1, 2, 3, 4],
      [(CRC_OFFSET, Some (CRC_OFFSET + 8)), (CRC_END, None), (0x2000, Some 0x2004)]) = Done out \<and>
    out ! 0x2000 = 0x0C \<and> 0x2000 < length out"
proof -
  define st where "st = (splice 0x2000 [0x0C, 0x10, 0, 0] demo_rom @ [1, 2, 3, 4 :: u8],
    [(CRC_OFFSET, Some (CRC_OFFSET + 8)), (CRC_END, None), (0x2000, Some 0x2004)])"
  have len: "length (fst st) = CRC_END + 4"
    by (simp add: st_def demo_rom_def CRC_END_def)
  then obtain out s1 s2 where fixed: "fix_checksum (fst st) Cic6102 = Some (out, s1, s2)"
    using fix_checksum_returns [of "fst st" Cic6102] by auto
  note facts = fix_checksum_Some [OF fixed]
  have "write_ranges_ok (\<lambda>_. True) demo_bundle demo_rom (\<lambda>_. None)" by (simp add: write_ranges_ok_def)
  from patch_image_accounted [OF demo_patched this]
  have "accounted (\<lambda>_. True) demo_rom (agent_place (bd_profile demo_bundle) demo_rom) st"
    by (simp add: st_def)
  then have quiet: "finish_image demo_sha1 demo_rom Cic6102 st \<noteq> Refused (UnexpectedChange i)" for i
    by (rule finish_image_no_alarm)
  have "unexpected_change demo_rom out (snd st) = None"
  proof (cases "unexpected_change demo_rom out (snd st)")
    case (Some i)
    then show ?thesis using quiet [of i] fixed by (simp add: finish_image_def)
  qed simp
  moreover have "boot_checks demo_sha1 out Cic6102"
    using facts len by (simp add: boot_checks_def demo_identify crc_bounds)
  ultimately have "finish_image demo_sha1 demo_rom Cic6102 st = Done out"
    using fixed by (simp add: finish_image_def)
  moreover have "out ! 0x2000 = 0x0C"
    using facts(3) [of "0x2000"] len
    by (simp add: crc_bounds st_def nth_append demo_rom_def nth_splice)
  ultimately show ?thesis using facts(2) len unfolding st_def [symmetric] by (auto simp: CRC_END_def)
qed

lemma demo_applies:
  "\<exists>out. apply_profile demo_sha1 demo_bundle demo_rom = Done out \<and>
     pt_rom out ! 0x2000 = 0x0C \<and> 0x2000 < length (pt_rom out)"
proof -
  obtain rep where verified: "verify_prepared demo_sha1 demo_bundle demo_rom = Some (rep, \<lambda>_. None)" "report_ok rep"
    using demo_verified by blast
  have parts: "prepare demo_bundle demo_rom = Done demo_rom" "profile_cic (bd_profile demo_bundle) = Inr Cic6102"
      "blob demo_bundle (ag_image (pf_agent (bd_profile demo_bundle))) = Inr [1, 2, 3, 4]"
      "pf_transform (bd_profile demo_bundle) = None"
    by (simp_all add: prepare_def demo_bundle_def demo_profile_def profile_cic_def cic_of_string_def blob_def)
  then show ?thesis
    using verified demo_patched demo_finished
    by (auto simp: apply_profile_def relabel_def Let_def)
qed


end
