(* ===== verification/Rom_Detect.thy ===== *)
theory Rom_Detect
  imports Rom_Patch
begin

text \<open>
  Finding the profile of a seed (crates/ap64-core/src/lib.rs), and the parts of a world's ROM adjuster
  that AP64 performs itself (adjust.rs): what the seed asks for and the door data of one stage map.
  Running the adjuster, which unpacks files with a program of the world's, is the parameter \<open>run\<close>.
\<close>

subsection \<open>The list of games\<close>

definition lower :: "string \<Rightarrow> string" where
  "lower s = map (\<lambda>c. let n = of_char c :: nat in if 65 \<le> n \<and> n \<le> 90 then char_of (n + 32) else c) s"

text \<open>Library order: a title files under its first word that is not an article.\<close>

definition library_key :: "string \<Rightarrow> string" where
  "library_key name =
     (let l = lower name
      in case find_map (\<lambda>article. strip_prefix article l) [''the '', ''an '', ''a ''] of
           None \<Rightarrow> l | Some rest \<Rightarrow> rest)"

subsection \<open>Adjusting (adjust.rs)\<close>

definition BMTSA_FLAG :: nat where "BMTSA_FLAG = 0xF8000"

definition pending :: "profile \<Rightarrow> octets \<Rightarrow> bool" where
  "pending p rom =
     (case pf_adjust p of
        None \<Rightarrow> False
      | Some BmtsaRomAdjuster \<Rightarrow>
          (case get_at rom BMTSA_FLAG of None \<Rightarrow> False | Some f \<Rightarrow> f AND 1 = 0))"

datatype adjust_error = SettingsPastEnd | NotAModel string

definition is_hex_digit :: "char \<Rightarrow> bool" where
  "is_hex_digit c \<longleftrightarrow> digit_value 16 c \<noteq> None"

text \<open>\<open>strip_suffix(".bin")\<close>, of hex digits.\<close>

definition is_asset :: "string \<Rightarrow> bool" where
  "is_asset name \<longleftrightarrow>
     (let n = length name - 4
      in 4 \<le> length name \<and> drop n name = ''.bin'' \<and> take n name \<noteq> [] \<and> list_all is_hex_digit (take n name))"

definition model_name :: "octets \<Rightarrow> string" where
  "model_name field = map (\<lambda>b. char_of (unat b)) (filter (\<lambda>b. 32 \<le> b \<and> b < 128) field)"

fun bmtsa_names_from :: "octets \<Rightarrow> nat list \<Rightarrow> adjust_error + string list" where
  "bmtsa_names_from data [] = Inr []"
| "bmtsa_names_from data (i # is) =
     (let name = model_name (slice (0x10 + i * 8) (0x18 + i * 8) data)
      in if is_asset name \<or> (i > 0 \<and> name = ''None'')
         then bind_result (bmtsa_names_from data is) (\<lambda>names. Inr (name # names))
         else Inl (NotAModel name))"

definition bmtsa_names :: "octets \<Rightarrow> adjust_error + string list" where
  "bmtsa_names rom =
     bind_result (ok_or SettingsPastEnd (get_range rom BMTSA_FLAG (BMTSA_FLAG + 0x38)))
       (\<lambda>data. bmtsa_names_from data [0..<5])"

text \<open>The copies \<open>bmtsa_models\<close> makes, in order: the character over its file, then each part.\<close>

definition model_copies :: "string list \<Rightarrow> (string \<times> string) list" where
  "model_copies names =
     filter (\<lambda>(from, to). from \<noteq> to)
       ((hd names, ''17e.bin'') #
        map (\<lambda>(part, to). (if part = ''None'' then hd names else part, to))
          (zip (tl names) [''3e7.bin'', ''3e8.bin'', ''3e9.bin'', ''3ea.bin'']))"

text \<open>A byte written past the end extends the file with zeros.\<close>

definition set_byte :: "nat \<Rightarrow> u8 \<Rightarrow> octets \<Rightarrow> octets" where
  "set_byte i b m = (if length m \<le> i then resize0 (i + 1) m else m)[i := b]"

definition door_bytes :: "u16 \<Rightarrow> (nat \<times> u8) list" where
  "door_bytes flag =
     [(0x1B, 2), (0x1E, be16 flag ! 0), (0x1F, be16 flag ! 1), (0x20, 0xFF), (0x21, 0xFF), (0x22, 0xFF),
      (0x23, 0xFF)]"

definition door_base :: "octets \<Rightarrow> nat" where
  "door_base orig = (case get_at orig 0xB of None \<Rightarrow> 0 | Some b \<Rightarrow> unat b) * 0x20 + 0x10"

definition door_count :: "octets \<Rightarrow> nat" where
  "door_count orig = (case get_at orig 0xF of None \<Rightarrow> 0 | Some b \<Rightarrow> unat b)"

definition door_object :: "octets \<Rightarrow> u16 \<Rightarrow> nat \<Rightarrow> octets \<Rightarrow> octets" where
  "door_object orig flag i m =
     (let obj = door_base orig + i * 0x4C
      in if get_at orig (obj + 0x13) \<noteq> Some 1 then m
         else fold (\<lambda>(k, b). set_byte (obj + k) b) (door_bytes flag) m)"

definition doors :: "octets \<Rightarrow> u16 \<Rightarrow> octets" where
  "doors orig flag = fold (door_object orig flag) [0..<door_count orig] orig"

subsection \<open>Detection (lib.rs)\<close>

record detection =
  dt_byte_order :: byte_order
  dt_header :: "rom_header option"
  dt_cic :: "cic option"
  dt_candidates :: "report list"

text \<open>The one candidate that passes every check.\<close>

definition chosen :: "detection \<Rightarrow> report option" where
  "chosen d =
     (case filter report_ok (dt_candidates d) of [r] \<Rightarrow> Some r | _ \<Rightarrow> None)"

definition needs_adjusting :: "game_bundle list \<Rightarrow> detection \<Rightarrow> octets \<Rightarrow> profile option" where
  "needs_adjusting bundles d rom =
     (if chosen d \<noteq> None then None
      else find_map (\<lambda>r.
        case find (\<lambda>b. pf_id (bd_profile b) = rp_profile_id r) bundles of
          None \<Rightarrow> None
        | Some b \<Rightarrow> if pending (bd_profile b) rom then Some (bd_profile b) else None)
        (dt_candidates d))"

definition adjust_pending ::
    "(profile \<Rightarrow> octets \<Rightarrow> 'e + 'a) \<Rightarrow> game_bundle list \<Rightarrow> detection \<Rightarrow> octets \<Rightarrow> ('e + 'a) option" where
  "adjust_pending run bundles d rom = map_option (\<lambda>p. run p rom) (needs_adjusting bundles d rom)"

datatype load_error = NotARom

definition detect ::
    "(octets \<Rightarrow> octets) \<Rightarrow> game_bundle list \<Rightarrow> octets \<Rightarrow> (load_error, octets \<times> detection) outcome" where
  "detect sha1 bundles data0 =
     bind_outcome (of_result (ok_or NotARom (byte_order_of data0))) (\<lambda>bo.
       let data = to_big_endian data0 bo;
           h = header data
       in bind_outcome (or_panic (those (map (\<lambda>b. verify sha1 b data)
              (filter (\<lambda>b. case h of None \<Rightarrow> False | Some x \<Rightarrow> rh_game_code x = pf_game_code (bd_profile b))
                bundles))))
            (\<lambda>candidates.
               Done (data, \<lparr>dt_byte_order = bo, dt_header = h, dt_cic = identify sha1 data,
                 dt_candidates = candidates\<rparr>)))"

definition builds_for :: "game_bundle list \<Rightarrow> cart \<Rightarrow> game_bundle list" where
  "builds_for bundles c = List.map_filter (\<lambda>b. for_cart b c) bundles"

subsection \<open>Lemmas\<close>

lemma chosen_Some_iff: "chosen d = Some r \<longleftrightarrow> filter report_ok (dt_candidates d) = [r]"
  by (auto simp: chosen_def split: list.splits)

lemma detect_normal_form:
  assumes "detect sha1 bundles data0 = Done (data, d)"
  shows "byte_order_of data = Some Z64" "length data = length data0"
    and "to_big_endian data (dt_byte_order d) = data0"
  using assms byte_order_of_to_big_endian
  by (auto simp: detect_def Let_def bind_outcome_Done_iff ok_or_Inr_iff)

text \<open>C38: All three byte orders of one image are detected alike: the bytes are brought into the console's
  order first, and the header, the boot code and every candidate's report are those of that form.\<close>

theorem detect_ignores_byte_order:
  assumes "byte_order_of rom = Some Z64"
  shows "detect sha1 bundles (to_big_endian rom bo) =
    bind_outcome (detect sha1 bundles rom) (\<lambda>(data, d). Done (data, d\<lparr>dt_byte_order := bo\<rparr>))"
proof -
  obtain a b c e xs where rom: "rom = a # b # c # e # xs"
    using assms by (auto simp: byte_order_of_def get_range_def numeral_eq_Suc Suc_le_length_iff split: if_splits)
  have "byte_order_of (to_big_endian rom bo) = Some bo"
    using assms by (cases bo) (auto simp: rom byte_order_of_def get_range_def slice_def split: if_splits)
  then show ?thesis
    using assms
    by (cases "those (map (\<lambda>b. verify sha1 b rom)
        (filter (\<lambda>b. case header rom of None \<Rightarrow> False | Some x \<Rightarrow> rh_game_code x = pf_game_code (bd_profile b)) bundles))")
      (simp_all add: detect_def Let_def)
qed

theorem detect_ignores_byte_order_witness:
  "detect (\<lambda>x. x) [] (to_big_endian [0x80, 0x37, 0x12, 0x40, 1, 2] V64) =
     bind_outcome (detect (\<lambda>x. x) [] [0x80, 0x37, 0x12, 0x40, 1, 2])
       (\<lambda>(data, d). Done (data, d\<lparr>dt_byte_order := V64\<rparr>))"
  by (rule detect_ignores_byte_order) (simp add: byte_order_of_def get_range_def slice_def)

end
