(* ===== verification/Exfat_Volume.thy ===== *)
theory Exfat_Volume
  imports Sector_Disk
begin

text \<open>
  An exFAT volume as \<open>crates/multi64-sc64-sd/src/partition.rs\<close> reads and writes it: calls that may
  fail or not return, byte access to the partition (\<open>exfat_volume_reader\<close>, \<open>exfat_write_bytes_at\<close>),
  the volume's parameters, the FAT, and the cluster chain of a directory or file
  (\<open>ExfatDirSlots::load_with\<close>). \<open>exfat_volume\<close> is the contract the directory and file layers rest
  on; the partition disk over any steady sector transport satisfies it. The methods of the
  \<open>hadris-fat\<close> crate are the parameters in the record \<open>hadris\<close>.
\<close>

named_theorems reads_intro "rules for calls that only read"

subsection \<open>Calls that may fail or not return\<close>

type_synonym ('w, 'a) io = "'w \<Rightarrow> ((io_kind + 'a) \<times> 'w) option"

definition io_bind :: "('w, 'a) io \<Rightarrow> ('a \<Rightarrow> ('w, 'b) io) \<Rightarrow> ('w, 'b) io" where
  "io_bind m f w =
     (case m w of
        None \<Rightarrow> None
      | Some (Inl e, w') \<Rightarrow> Some (Inl e, w')
      | Some (Inr v, w') \<Rightarrow> f v w')"

definition io_return :: "'a \<Rightarrow> ('w, 'a) io" where
  "io_return v w = Some (Inr v, w)"

definition io_fail :: "io_kind \<Rightarrow> ('w, 'a) io" where
  "io_fail e w = Some (Inl e, w)"

definition io_of :: "io_kind + 'a \<Rightarrow> ('w, 'a) io" where
  "io_of r w = Some (r, w)"

lemma io_simps [simp]:
  "io_bind (io_return v) f w = f v w"
  "io_bind (io_fail e) f w = Some (Inl e, w)"
  "io_bind (io_of (Inl e)) f w = Some (Inl e, w)"
  "io_bind (io_of (Inr v)) f w = f v w"
  "io_return v w = Some (Inr v, w)"
  "io_fail e w = Some (Inl e, w)"
  "io_of r w = Some (r, w)"
  by (simp_all add: io_bind_def io_return_def io_fail_def io_of_def)

lemma io_bind_cong [fundef_cong]:
  "m = m' \<Longrightarrow> w = w' \<Longrightarrow> (\<And>v v'. f v v' = f' v v') \<Longrightarrow> io_bind m f w = io_bind m' f' w'"
  by (simp add: io_bind_def split: option.splits prod.splits sum.splits)

text \<open>A loop over a list that ends at the first error, also where its body is the function being defined.\<close>

primrec io_each :: "('a \<Rightarrow> ('w, unit) io) \<Rightarrow> 'a list \<Rightarrow> ('w, unit) io" where
  "io_each f [] = io_return ()"
| "io_each f (x # xs) = io_bind (f x) (\<lambda>_. io_each f xs)"

lemma io_bind_bind: "io_bind m f w = Option.bind (m w) (\<lambda>(r, w'). case r of Inl e \<Rightarrow> Some (Inl e, w') | Inr v \<Rightarrow> f v w')"
  by (simp add: io_bind_def split: option.splits sum.splits prod.splits)

lemma io_each_mono [partial_function_mono]:
  assumes "\<And>x w. mono_option (\<lambda>f. B f x w)"
  shows "mono_option (\<lambda>f. io_each (B f) xs w)"
proof (induction xs arbitrary: w)
  case (Cons x xs)
  have "mono_option (\<lambda>f. Option.bind (B f x w)
      (\<lambda>(r, w'). case r of Inl e \<Rightarrow> Some (Inl e, w') | Inr v \<Rightarrow> io_each (B f) xs w'))"
  proof (rule bind_mono [OF assms])
    fix rw :: "(io_kind + unit) \<times> 'b"
    obtain r w' where rw: "rw = (r, w')" by fastforce
    show "mono_option (\<lambda>f. case rw of (r, w') \<Rightarrow> (case r of Inl e \<Rightarrow> Some (Inl e, w') | Inr v \<Rightarrow> io_each (B f) xs w'))"
      by (cases r) (use Cons.IH in \<open>simp_all add: rw option.const_mono\<close>)
  qed
  then show ?case by (simp add: io_bind_bind)
qed (simp add: option.const_mono)

text \<open>A call that returns, keeps what can be seen, and if it succeeds gives a value as described.\<close>

definition reads ::
  "('w \<Rightarrow> bool) \<Rightarrow> ('w \<Rightarrow> 'c) \<Rightarrow> 'w \<Rightarrow> ('w, 'a) io \<Rightarrow> ('a \<Rightarrow> bool) \<Rightarrow> bool" where
  "reads ok view w m P \<longleftrightarrow>
     (\<exists>r w'. m w = Some (r, w') \<and> ok w' \<and> view w' = view w \<and> (\<forall>v. r = Inr v \<longrightarrow> P v))"

lemma reads_return [reads_intro]: "ok w \<Longrightarrow> P v \<Longrightarrow> reads ok view w (io_return v) P"
  by (simp add: reads_def)

lemma reads_fail [reads_intro]: "ok w \<Longrightarrow> reads ok view w (io_fail e) P"
  by (simp add: reads_def)

lemma reads_of [reads_intro]: "ok w \<Longrightarrow> (\<And>v. r = Inr v \<Longrightarrow> P v) \<Longrightarrow> reads ok view w (io_of r) P"
  by (simp add: reads_def)

lemma reads_bind:
  assumes "reads ok view w m Q"
    and "\<And>v w'. ok w' \<Longrightarrow> view w' = view w \<Longrightarrow> Q v \<Longrightarrow> reads ok view w' (f v) P"
  shows "reads ok view w (io_bind m f) P"
proof -
  from assms(1) obtain r w' where m: "m w = Some (r, w')" "ok w'" "view w' = view w"
      "\<forall>v. r = Inr v \<longrightarrow> Q v"
    by (auto simp: reads_def)
  show ?thesis
  proof (cases r)
    case (Inl e)
    with m show ?thesis by (simp add: reads_def io_bind_def)
  next
    case (Inr v)
    with m assms(2) [of w' v] show ?thesis by (simp add: reads_def io_bind_def)
  qed
qed

lemma reads_mono: "reads ok view w m Q \<Longrightarrow> (\<And>v. Q v \<Longrightarrow> P v) \<Longrightarrow> reads ok view w m P"
  unfolding reads_def by blast

lemma reads_if [reads_intro]:
  "(b \<Longrightarrow> reads ok view w m P) \<Longrightarrow> (\<not> b \<Longrightarrow> reads ok view w m' P) \<Longrightarrow>
   reads ok view w (if b then m else m') P"
  by simp

subsection \<open>What a call does\<close>

text \<open>The call returns, and its result and the state it leaves are as described, whether it failed or
  not.\<close>

definition does :: "('s, 'a) io \<Rightarrow> 's \<Rightarrow> (io_kind + 'a \<Rightarrow> 's \<Rightarrow> bool) \<Rightarrow> bool" where
  "does m s Q \<longleftrightarrow> (\<exists>r s'. m s = Some (r, s') \<and> Q r s')"

lemma does_bind:
  assumes "does m s Q"
    and "\<And>e s'. Q (Inl e) s' \<Longrightarrow> R (Inl e) s'"
    and "\<And>v s'. Q (Inr v) s' \<Longrightarrow> does (f v) s' R"
  shows "does (io_bind m f) s R"
proof -
  from assms(1) obtain r s' where "m s = Some (r, s')" "Q r s'" by (auto simp: does_def)
  with assms(2,3) show ?thesis by (cases r) (auto simp: does_def io_bind_def)
qed

lemma does_bind_same: "does m s Q \<Longrightarrow> (\<And>r s'. Q r s' \<Longrightarrow> (case r of Inl e \<Rightarrow> R (Inl e) s' | Inr v \<Rightarrow> does (f v) s' R)) \<Longrightarrow> does (io_bind m f) s R"
  by (erule does_bind) fastforce+

lemma does_mono: "does m s Q \<Longrightarrow> (\<And>r s'. Q r s' \<Longrightarrow> R r s') \<Longrightarrow> does m s R"
  unfolding does_def by blast

lemma does_simps [simp]:
  "does (io_return v) s Q \<longleftrightarrow> Q (Inr v) s"
  "does (io_fail e) s Q \<longleftrightarrow> Q (Inl e) s"
  "does (io_of r) s Q \<longleftrightarrow> Q r s"
  "does (\<lambda>s. Some (r, s)) s Q \<longleftrightarrow> Q r s"
  by (auto simp: does_def)

lemma does_bind_simps [simp]:
  "does (io_bind (io_return v) f) s Q \<longleftrightarrow> does (f v) s Q"
  "does (io_bind (io_of (Inr v)) f) s Q \<longleftrightarrow> does (f v) s Q"
  "does (io_bind (io_of (Inl e)) f) s Q \<longleftrightarrow> Q (Inl e) s"
  "does (io_bind (io_fail e) f) s Q \<longleftrightarrow> Q (Inl e) s"
  by (auto simp: does_def)

lemma does_if: "(b \<Longrightarrow> does m s Q) \<Longrightarrow> (\<not> b \<Longrightarrow> does m' s Q) \<Longrightarrow> does (if b then m else m') s Q"
  by simp

lemma does_reads:
  "reads ok view w m P \<longleftrightarrow>
     does m w (\<lambda>r w'. ok w' \<and> view w' = view w \<and> (\<forall>v. r = Inr v \<longrightarrow> P v))"
  by (auto simp: reads_def does_def)

subsection \<open>A state beside the volume's\<close>

text \<open>The source of a copy's bytes, or where they go, and its progress call have a state of their
  own, beside the volume's.\<close>

type_synonym 'd progress = "nat \<Rightarrow> 'd \<Rightarrow> bool \<times> 'd"

definition on_volume :: "('w, 'a) io \<Rightarrow> ('d \<times> 'w, 'a) io" where
  "on_volume m dw = map_option (\<lambda>(r, w'). (r, fst dw, w')) (m (snd dw))"

definition on_source :: "('d \<Rightarrow> (io_kind + 'a) \<times> 'd) \<Rightarrow> ('d \<times> 'w, 'a) io" where
  "on_source f dw = (case f (fst dw) of (r, d') \<Rightarrow> Some (r, d', snd dw))"

definition goes_on :: "'d progress \<Rightarrow> nat \<Rightarrow> 'd \<Rightarrow> (io_kind + bool) \<times> 'd" where
  "goes_on progress n d = (case progress n d of (go, d') \<Rightarrow> (Inr go, d'))"

lemma does_on_volume: "does m w Q \<Longrightarrow> does (on_volume m) (d, w) (\<lambda>r (d', w'). d' = d \<and> Q r w')"
  by (auto simp: does_def on_volume_def)

lemma does_on_source: "(\<And>r d'. f d = (r, d') \<Longrightarrow> Q r (d', w)) \<Longrightarrow> does (on_source f) (d, w) Q"
  by (auto simp: does_def on_source_def split: prod.splits)

subsection \<open>Little-endian fields\<close>

fun of_le :: "octets \<Rightarrow> nat" where
  "of_le [] = 0"
| "of_le (b # bs) = unat b + 256 * of_le bs"

fun to_le :: "nat \<Rightarrow> nat \<Rightarrow> octets" where
  "to_le 0 n = []"
| "to_le (Suc k) n = word_of_nat n # to_le k (n div 256)"

lemma length_to_le [simp, m64_bytes]: "length (to_le k n) = k"
  by (induction k arbitrary: n) simp_all

lemma unat_word_of_nat8 [simp]: "unat (word_of_nat n :: u8) = n mod 256"
  by (simp add: unat_of_nat)

lemma of_le_to_le [simp, m64_bytes]: "of_le (to_le k n) = n mod 256 ^ k"
  by (induction k arbitrary: n) (simp_all add: mod_mult2_eq)

lemma of_le_less: "of_le bs < 256 ^ length bs"
proof (induction bs)
  case (Cons b bs)
  have "unat b < 256" using unsigned_less [of b] by simp
  with Cons show ?case by simp
qed simp

text \<open>\<open>u16_at\<close>, \<open>u32_at\<close> and \<open>u64_at\<close> of the source: a field of a sector or slot.\<close>

definition le16_at :: "octets \<Rightarrow> nat \<Rightarrow> u16" where
  "le16_at s at' = word_of_nat (of_le (slice at' (at' + 2) s))"

definition le32_at :: "octets \<Rightarrow> nat \<Rightarrow> u32" where
  "le32_at s at' = word_of_nat (of_le (slice at' (at' + 4) s))"

definition le64_at :: "octets \<Rightarrow> nat \<Rightarrow> u64" where
  "le64_at s at' = word_of_nat (of_le (slice at' (at' + 8) s))"

subsection \<open>Byte access to the partition\<close>

definition saturating_add64 :: "nat \<Rightarrow> nat \<Rightarrow> nat" where
  "saturating_add64 a b = min (a + b) (2 ^ 64 - 1)"

text \<open>\<open>read_exact\<close> and \<open>write_all\<close> of the standard library over the partition disk: an interrupted
  call is made again.\<close>

partial_function (option) read_exact ::
  "'w sd_read \<Rightarrow> nat \<Rightarrow> octets \<Rightarrow> partition_disk \<Rightarrow> 'w \<Rightarrow> ((io_kind + octets) \<times> 'w) option" where
  "read_exact rd n got d w =
     (if n \<le> length got then Some (Inr got, w)
      else case disk_read rd (n - length got) d w of
        None \<Rightarrow> None
      | Some (Inl e, d', w') \<Rightarrow>
          if e = Interrupted then read_exact rd n got d' w' else Some (Inl e, w')
      | Some (Inr bs, d', w') \<Rightarrow>
          if bs = [] then Some (Inl UnexpectedEof, w') else read_exact rd n (got @ bs) d' w')"

partial_function (option) write_all ::
  "'w sd_read \<Rightarrow> 'w sd_write \<Rightarrow> octets \<Rightarrow> partition_disk \<Rightarrow> 'w \<Rightarrow> ((io_kind + unit) \<times> 'w) option" where
  "write_all rd wr buf d w =
     (if buf = [] then Some (Inr (), w)
      else case disk_write rd wr buf d w of
        None \<Rightarrow> None
      | Some (Inl e, d', w') \<Rightarrow>
          if e = Interrupted then write_all rd wr buf d' w' else Some (Inl e, w')
      | Some (Inr n, d', w') \<Rightarrow>
          if n = 0 then Some (Inl WriteZero, w') else write_all rd wr (drop n buf) d' w')"

text \<open>\<open>disk.seek(SeekFrom::Start(at))?; disk.read_exact(buf)\<close>, and the same for a write.\<close>

definition disk_get :: "'w sd_read \<Rightarrow> partition_disk \<Rightarrow> nat \<Rightarrow> nat \<Rightarrow> ('w, octets) io" where
  "disk_get rd d at' n w =
     (case disk_seek (SeekStart at') d of
        (Inl e, d') \<Rightarrow> Some (Inl e, w)
      | (Inr _, d') \<Rightarrow> read_exact rd n [] d' w)"

definition disk_put ::
  "'w sd_read \<Rightarrow> 'w sd_write \<Rightarrow> partition_disk \<Rightarrow> nat \<Rightarrow> octets \<Rightarrow> ('w, unit) io" where
  "disk_put rd wr d at' bs w =
     (case disk_seek (SeekStart at') d of
        (Inl e, d') \<Rightarrow> Some (Inl e, w)
      | (Inr _, d') \<Rightarrow> write_all rd wr bs d' w)"

definition exfat_volume_reader :: "'w sd_read \<Rightarrow> nat \<Rightarrow> nat \<Rightarrow> nat \<Rightarrow> nat \<Rightarrow> ('w, octets) io" where
  "exfat_volume_reader rd part_start part_bytes at' n =
     (if part_bytes < saturating_add64 at' n then io_fail InvalidData
      else disk_get rd (partition_disk_new part_start part_bytes) at' n)"

text \<open>Reading through a handle of the partition without that guard; a writable handle reads the same.\<close>

definition volume_get :: "'w sd_read \<Rightarrow> nat \<Rightarrow> nat \<Rightarrow> nat \<Rightarrow> nat \<Rightarrow> ('w, octets) io" where
  "volume_get rd part_start part_bytes = disk_get rd (partition_disk_new part_start part_bytes)"

definition volume_put ::
  "'w sd_read \<Rightarrow> 'w sd_write \<Rightarrow> nat \<Rightarrow> nat \<Rightarrow> nat \<Rightarrow> octets \<Rightarrow> ('w, unit) io" where
  "volume_put rd wr part_start part_bytes =
     disk_put rd wr (partition_disk_new_writable part_start part_bytes)"

definition exfat_write_bytes_at ::
  "nat \<Rightarrow> (nat \<Rightarrow> octets \<Rightarrow> ('w, unit) io) \<Rightarrow> ('w, unit) io \<Rightarrow> nat \<Rightarrow> octets \<Rightarrow> ('w, unit) io" where
  "exfat_write_bytes_at part_bytes wr flush offset bytes =
     (if part_bytes < saturating_add64 offset (length bytes) then io_fail InvalidData
      else io_bind (wr offset bytes) (\<lambda>_. flush))"

text \<open>What the layers above rely on. \<open>rd\<close> and \<open>wr\<close> always return; a read gives the volume's bytes
  and a write that fails may have changed only the sectors it was for.\<close>

locale exfat_volume =
  fixes ok :: "'w \<Rightarrow> bool"
    and content :: "'w \<Rightarrow> nat \<Rightarrow> u8"
    and rd :: "nat \<Rightarrow> nat \<Rightarrow> ('w, octets) io"
    and get :: "nat \<Rightarrow> nat \<Rightarrow> ('w, octets) io"
    and wr :: "nat \<Rightarrow> octets \<Rightarrow> ('w, unit) io"
    and flush :: "('w, unit) io"
  assumes rd_reads: "ok w \<Longrightarrow> reads ok content w (rd at' n) (\<lambda>bs. bs = bytes_at (content w) at' n)"
    and get_reads: "ok w \<Longrightarrow> reads ok content w (get at' n) (\<lambda>bs. bs = bytes_at (content w) at' n)"
    and wr_returns: "ok w \<Longrightarrow> \<exists>r w'. wr at' bs w = Some (r, w')"
    and wr_ok: "ok w \<Longrightarrow> wr at' bs w = Some (r, w') \<Longrightarrow> ok w'"
    and wr_writes: "ok w \<Longrightarrow> wr at' bs w = Some (Inr u, w') \<Longrightarrow>
      content w' = overlay (content w) at' bs"
    and wr_apart: "ok w \<Longrightarrow> wr at' bs w = Some (r, w') \<Longrightarrow> a \<notin> touched at' (length bs) \<Longrightarrow>
      content w' a = content w a"
    and flush_keeps: "ok w \<Longrightarrow> reads ok content w flush (\<lambda>_. True)"

text \<open>A sector transport that never asks for the same call again, with its flush.\<close>

locale steady_transport = sector_transport ok content rd wr
  for ok :: "'w \<Rightarrow> bool" and content rd wr +
  fixes flush :: "('w, unit) io"
  assumes rd_steady: "ok w \<Longrightarrow> rd lba n w \<noteq> Some (Inl Interrupted, w')"
    and wr_steady: "ok w \<Longrightarrow> wr lba bs w \<noteq> Some (Inl Interrupted, w')"
    and flush_reads: "ok w \<Longrightarrow> reads ok content w flush (\<lambda>_. True)"
begin

lemma disk_read_loop_steady:
  assumes "ok w" "want \<le> pd_bytes d - pd_pos d" "length got \<le> want"
  shows "disk_read_loop rd d want got w \<noteq> Some (Inl Interrupted, w')"
  using assms
proof (induction "want - length got" arbitrary: got w rule: less_induct)
  case less
  show ?case
  proof (cases "want \<le> length got")
    case True
    then show ?thesis by (subst disk_read_loop.simps) simp
  next
    case False
    let ?a = "pd_pos d + length got"
    let ?sec = "pd_start d + ?a div 512"
    have step: "disk_read_loop rd d want (got @ bs) v \<noteq> Some (Inl Interrupted, w')"
      if "ok v" "0 < length bs" "length bs \<le> want - length got" for bs v
      by (rule less.hyps) (use that less.prems False in \<open>auto simp del: length_greater_0_conv\<close>)
    have pos: "0 < min (512 - ?a mod 512) (want - length got)" "0 < min (want - length got) (pd_bytes d - ?a)"
      using False less.prems(2) by auto
    show ?thesis
    proof (cases "?a mod 512 = 0")
      case aligned: False
      from rd_cases [OF less.prems(1), of ?sec 512] show ?thesis
      proof cases
        case (1 e v)
        with False aligned rd_steady [OF less.prems(1)] show ?thesis
          by (subst disk_read_loop.simps) (auto simp: Let_def)
      next
        case (2 v)
        have "disk_read_loop rd d want (got @ slice (?a mod 512)
              (?a mod 512 + min (512 - ?a mod 512) (want - length got))
              (bytes_at (content w) (?sec * SECTOR_BYTES) 512)) v \<noteq> Some (Inl Interrupted, w')"
          by (rule step [OF 2(2)]) (use pos in auto)
        with 2 False aligned show ?thesis by (subst disk_read_loop.simps) (simp add: Let_def)
      qed
    next
      case aligned: True
      let ?c = "min (want - length got) (pd_bytes d - ?a)"
      show ?thesis
      proof (cases "batch_bytes ?c")
        case None
        then have small: "?c < 512" by (simp only: batch_bytes_None)
        from rd_cases [OF less.prems(1), of ?sec 512] show ?thesis
        proof cases
          case (1 e v)
          with False aligned None rd_steady [OF less.prems(1)] show ?thesis
            by (subst disk_read_loop.simps) (auto simp: Let_def)
        next
          case (2 v)
          have "disk_read_loop rd d want (got @ slice 0 ?c (bytes_at (content w) (?sec * SECTOR_BYTES) 512)) v
              \<noteq> Some (Inl Interrupted, w')"
            by (rule step [OF 2(2)]) (use pos small in auto)
          with 2 False aligned None show ?thesis by (subst disk_read_loop.simps) (simp add: Let_def)
        qed
      next
        case (Some b)
        note b = batch_bytes_Some [OF Some]
        from rd_cases [OF less.prems(1), of ?sec b] show ?thesis
        proof cases
          case (1 e v)
          with False aligned Some rd_steady [OF less.prems(1)] show ?thesis
            by (subst disk_read_loop.simps) (auto simp: Let_def)
        next
          case (2 v)
          have "disk_read_loop rd d want (got @ bytes_at (content w) (?sec * SECTOR_BYTES) b) v
              \<noteq> Some (Inl Interrupted, w')"
            by (rule step [OF 2(2)]) (use b in auto)
          with 2 False aligned Some show ?thesis by (subst disk_read_loop.simps) (simp add: Let_def)
        qed
      qed
    qed
  qed
qed

lemma patch_sector_steady:
  assumes "ok w"
  shows "patch_sector rd wr sec off bs w \<noteq> Some (Inl Interrupted, w')"
  by (rule rd_cases [OF assms, of sec 512])
    (use assms rd_steady [OF assms, of sec 512] wr_steady in \<open>auto simp: patch_sector_def\<close>)

lemma disk_write_loop_steady:
  assumes "ok w"
  shows "disk_write_loop rd wr d buf written w \<noteq> Some (Inl Interrupted, w')"
  using assms
proof (induction "length buf - written" arbitrary: written w rule: less_induct)
  case less
  show ?case
  proof (cases "length buf \<le> written \<or> pd_bytes d \<le> pd_pos d + written")
    case True
    then show ?thesis by (subst disk_write_loop.simps) auto
  next
    case False
    let ?a = "pd_pos d + written"
    let ?sec = "pd_start d + ?a div 512"
    have go: "disk_write_loop rd wr d buf (written + k) v \<noteq> Some (Inl Interrupted, w')"
      if "writes_at w at' bs (Some (Inr u, v))" "0 < k" for at' bs u v k
      by (rule less.hyps) (use that False in \<open>auto simp: writes_at_def\<close>)
    have part: "writes_at w (?sec * SECTOR_BYTES + off) bs (patch_sector rd wr ?sec off bs w)"
      if "off + length bs \<le> 512" "bs \<noteq> []" for off bs
      using less.prems that by (rule patch_sector_writes_at)
    show ?thesis
    proof (cases "?a mod 512 = 0")
      case aligned: False
      let ?k = "min (512 - ?a mod 512) (length buf - written)"
      let ?bs = "slice written (written + ?k) buf"
      have k: "0 < ?k" "length ?bs = ?k" using False by auto
      have "writes_at w (?sec * SECTOR_BYTES + ?a mod 512) ?bs (patch_sector rd wr ?sec (?a mod 512) ?bs w)"
        by (rule part) (use k in \<open>auto simp flip: length_greater_0_conv\<close>)
      with go [OF _ k(1)] patch_sector_steady [OF less.prems] False aligned show ?thesis
        by (subst disk_write_loop.simps) (force simp: Let_def split: option.splits sum.splits)
    next
      case aligned: True
      let ?c = "min (length buf - written) (pd_bytes d - ?a)"
      have c: "0 < ?c" using False by auto
      show ?thesis
      proof (cases "batch_bytes ?c")
        case None
        then have small: "?c < 512" by (simp only: batch_bytes_None)
        let ?bs = "slice written (written + ?c) buf"
        have "writes_at w (?sec * SECTOR_BYTES + 0) ?bs (patch_sector rd wr ?sec 0 ?bs w)"
          by (rule part) (use c small False in \<open>auto simp flip: length_greater_0_conv\<close>)
        with go [OF _ c] patch_sector_steady [OF less.prems] False aligned None show ?thesis
          by (subst disk_write_loop.simps) (force simp: Let_def split: option.splits sum.splits)
      next
        case (Some b)
        note b = batch_bytes_Some [OF Some]
        let ?bs = "slice written (written + b) buf"
        have "length ?bs = b" using b(2) by simp
        then have "writes_at w (?sec * SECTOR_BYTES) ?bs (wr ?sec ?bs w)"
          using b(3) by (intro wr_writes_at [OF less.prems]) simp
        with go [OF _ b(1)] wr_steady [OF less.prems] False aligned Some show ?thesis
          by (subst disk_write_loop.simps) (force simp: Let_def split: option.splits sum.splits)
      qed
    qed
  qed
qed

lemma disk_read_steady: "ok w \<Longrightarrow> disk_read rd n d w \<noteq> Some (Inl Interrupted, d', w')"
  using disk_read_loop_steady [of w "min n (pd_bytes d - pd_pos d)" d "[]"]
  by (auto simp: disk_read_def Let_def split: option.splits sum.splits)

lemma disk_write_steady: "ok w \<Longrightarrow> disk_write rd wr buf d w \<noteq> Some (Inl Interrupted, d', w')"
  using disk_write_loop_steady [of w d buf 0]
  by (auto simp: disk_write_def split: option.splits sum.splits)

lemma read_exact_result:
  assumes "ok w"
  shows "reads ok content w (\<lambda>w. read_exact rd n [] d w)
    (\<lambda>bs. bs = bytes_at (content w) (disk_base d + pd_pos d) n \<and> (n = 0 \<or> pd_pos d + n \<le> pd_bytes d))"
proof (cases "n = 0")
  case True
  with assms show ?thesis by (simp add: reads_def read_exact.simps)
next
  case False
  have finished: "read_exact rd n got d v = Some (Inr got, v)" if "n \<le> length got" for got d v
    using that by (simp add: read_exact.simps)
  from disk_read_result [OF assms, of n d] obtain r d1 w1 where
    one: "disk_read rd n d w = Some (r, d1, w1)" "ok w1" "content w1 = content w"
      "\<forall>bs. r = Inr bs \<longrightarrow> bs = bytes_at (content w) (disk_base d + pd_pos d) (min n (pd_bytes d - pd_pos d)) \<and>
        d1 = d\<lparr>pd_pos := pd_pos d + length bs\<rparr>" by blast
  show ?thesis
  proof (cases r)
    case (Inl e)
    with one disk_read_steady [OF assms, of n d d1 w1] False show ?thesis
      by (auto simp: reads_def read_exact.simps [of rd n "[]"])
  next
    case (Inr bs)
    show ?thesis
    proof (cases "pd_pos d + n \<le> pd_bytes d")
      case True
      with Inr one(4) have "bs = bytes_at (content w) (disk_base d + pd_pos d) n" by simp
      with Inr one False True show ?thesis
        by (auto simp: reads_def read_exact.simps [of rd n "[]"] finished)
    next
      case short: False
      let ?k = "pd_bytes d - pd_pos d"
      have bs: "length bs = min n ?k" using Inr one(4) by simp
      show ?thesis
      proof (cases "bs = []")
        case True
        with Inr one False show ?thesis by (auto simp: reads_def read_exact.simps [of rd n "[]"])
      next
        case more: False
        have "disk_read rd (n - length bs) d1 w1 = Some (Inr [], d1, w1)"
          using Inr one(4) bs short by (auto simp: disk_read_def)
        then have "read_exact rd n bs d1 w1 = Some (Inl UnexpectedEof, w1)"
          using bs short more by (subst read_exact.simps) (auto simp flip: length_greater_0_conv)
        with Inr one(1-3) False more show ?thesis
          by (simp add: reads_def read_exact.simps [of rd n "[]"])
      qed
    qed
  qed
qed

lemma write_all_result:
  assumes "ok w"
  shows "writes_at w (disk_base d + pd_pos d) buf (write_all rd wr buf d w)"
proof (cases "buf = []")
  case True
  with assms show ?thesis by (simp add: writes_at_def write_all.simps)
next
  case False
  from disk_write_result [OF assms(1), of buf d] obtain r d1 w1 where
    one: "disk_write rd wr buf d w = Some (r, d1, w1)" "ok w1"
      "\<forall>n. r = Inr n \<longrightarrow> n = length buf \<and> content w1 = overlay (content w) (disk_base d + pd_pos d) buf"
      "\<forall>a. a \<notin> touched (disk_base d + pd_pos d) (length buf) \<longrightarrow> content w1 a = content w a"
    by blast
  show ?thesis
  proof (cases r)
    case (Inl e)
    with one disk_write_steady [OF assms(1), of buf d d1 w1] False
    have "write_all rd wr buf d w = Some (Inl e, w1)" by (auto simp: write_all.simps [of rd wr buf])
    with one show ?thesis by (simp add: writes_at_def)
  next
    case (Inr n)
    with one(3) False have n: "n = length buf" "0 < n" by simp_all
    have "write_all rd wr (drop n buf) d1 w1 = Some (Inr (), w1)"
      by (simp add: n write_all.simps [of rd wr "[]"])
    with one(1) Inr n(2) False have "write_all rd wr buf d w = Some (Inr (), w1)"
      by (simp add: write_all.simps [of rd wr buf])
    with one Inr show ?thesis by (simp add: writes_at_def)
  qed
qed

end

lemma disk_seek_Start:
  "disk_seek (SeekStart at') d =
     (if pd_bytes d < at' then (Inl InvalidInput, d) else (Inr at', d\<lparr>pd_pos := at'\<rparr>))"
  by (simp add: disk_seek_def)

lemma touched_offset: "a \<notin> touched at' n \<Longrightarrow> b * 512 + a \<notin> touched (b * 512 + at') n"
proof -
  have "(b * 512 + at') div 512 = b + at' div 512" by simp
  moreover have "(b * 512 + at' + n + 511) div 512 = b + (at' + n + 511) div 512"
    by (simp add: add.assoc)
  ultimately show "a \<notin> touched at' n \<Longrightarrow> b * 512 + a \<notin> touched (b * 512 + at') n"
    by (auto simp: touched_def add_mult_distrib)
qed

definition partition_view :: "nat \<Rightarrow> (nat \<Rightarrow> u8) \<Rightarrow> nat \<Rightarrow> u8" where
  "partition_view part_start f a = f (part_start * SECTOR_BYTES + a)"

lemma bytes_at_partition_view:
  "bytes_at (partition_view ps f) a n = bytes_at f (ps * SECTOR_BYTES + a) n"
  by (rule nth_equalityI) (simp_all add: partition_view_def add.assoc)

sublocale steady_transport \<subseteq> volume: exfat_volume
  ok "\<lambda>w. partition_view part_start (content w)" "exfat_volume_reader rd part_start part_bytes"
  "volume_get rd part_start part_bytes" "volume_put rd wr part_start part_bytes" flush
  for part_start part_bytes
proof unfold_locales
  fix w w' :: 'w and at' n a :: nat and bs :: octets and r and u :: unit
  let ?d = "partition_disk_new_writable part_start part_bytes"
  assume w: "ok w"
  show get: "reads ok (\<lambda>w. partition_view part_start (content w)) w
      (volume_get rd part_start part_bytes at' n)
      (\<lambda>bs. bs = bytes_at (partition_view part_start (content w)) at' n)"
    using w read_exact_result [OF w, of n "(partition_disk_new part_start part_bytes)\<lparr>pd_pos := at'\<rparr>"]
    by (auto simp: reads_def volume_get_def disk_get_def disk_seek_Start partition_disk_new_def
        disk_base_def bytes_at_partition_view)
  then show "reads ok (\<lambda>w. partition_view part_start (content w)) w
      (exfat_volume_reader rd part_start part_bytes at' n)
      (\<lambda>bs. bs = bytes_at (partition_view part_start (content w)) at' n)"
    using w by (auto simp: exfat_volume_reader_def volume_get_def intro!: reads_if reads_fail)
  have base: "disk_base (?d\<lparr>pd_pos := at'\<rparr>) = part_start * SECTOR_BYTES"
    by (simp add: disk_base_def partition_disk_new_writable_def)
  have put: "writes_at w (part_start * SECTOR_BYTES + at') bs (volume_put rd wr part_start part_bytes at' bs w)"
  proof (cases "part_bytes < at'")
    case True
    with w show ?thesis
      by (simp add: volume_put_def disk_put_def disk_seek_Start partition_disk_new_writable_def writes_at_def)
  next
    case False
    with write_all_result [OF w, of "?d\<lparr>pd_pos := at'\<rparr>" bs] show ?thesis
      by (simp add: base volume_put_def disk_put_def disk_seek_Start)
        (simp add: partition_disk_new_writable_def)
  qed
  then show "\<exists>r w'. volume_put rd wr part_start part_bytes  at' bs w = Some (r, w')"
    by (auto simp: writes_at_def)
  show "ok w'" if "volume_put rd wr part_start part_bytes at' bs w = Some (r, w')"
    using put that by (auto simp: writes_at_def)
  show "partition_view part_start (content w') = overlay (partition_view part_start (content w)) at' bs"
    if "volume_put rd wr part_start part_bytes at' bs w = Some (Inr u, w')"
    using put that by (auto simp: writes_at_def partition_view_def overlay_def fun_eq_iff)
  show "partition_view part_start (content w') a = partition_view part_start (content w) a"
    if "volume_put rd wr part_start part_bytes at' bs w = Some (r, w')" "a \<notin> touched at' (length bs)"
    using put that touched_offset [OF that(2), of part_start]
    by (auto simp: writes_at_def partition_view_def SECTOR_BYTES_def)
  show "reads ok (\<lambda>w. partition_view part_start (content w)) w flush (\<lambda>_. True)"
    using flush_reads [OF w] by (auto simp: reads_def)
qed

text \<open>The image behind the session cache, which the repository's tests run the file system on, is such
  a transport.\<close>

lemma read_sd_sectors_image_steady:
  "read_sd_sectors image_fetch lba n cw \<noteq> Some (Inl Interrupted, cw')"
  by (auto simp: read_sd_sectors_def read_through_def image_fetch_def ok_or_def
      split: option.splits prod.splits if_splits)

lemma write_sd_sectors_image_steady:
  "write_sd_sectors image_store lba bs cw \<noteq> Some (Inl Interrupted, cw')"
  by (auto simp: write_sd_sectors_def write_through_def image_store_def split: prod.splits if_splits)

interpretation img_steady: steady_transport
  "\<lambda>(c, w). cache_inv c \<and> img.coherent w c" "\<lambda>(c, w). image_content w" "read_sd_sectors image_fetch"
  "write_sd_sectors image_store" "io_return ()"
  by unfold_locales
    (auto simp: read_sd_sectors_image_steady write_sd_sectors_image_steady reads_def)

interpretation img_volume: exfat_volume
  "\<lambda>(c, w). cache_inv c \<and> img.coherent w c"
  "\<lambda>cw. partition_view part_start (case cw of (c, w) \<Rightarrow> image_content w)"
  "exfat_volume_reader (read_sd_sectors image_fetch) part_start part_bytes"
  "volume_get (read_sd_sectors image_fetch) part_start part_bytes"
  "volume_put (read_sd_sectors image_fetch) (write_sd_sectors image_store) part_start part_bytes"
  "io_return ()" for part_start part_bytes
  by (rule img_steady.volume.exfat_volume_axioms)

text \<open>A volume held as a function, which never fails: what the properties are tried on.\<close>

definition mem_get :: "nat \<Rightarrow> nat \<Rightarrow> (nat \<Rightarrow> u8, octets) io" where
  "mem_get at' n f = Some (Inr (bytes_at f at' n), f)"

definition mem_put :: "nat \<Rightarrow> octets \<Rightarrow> (nat \<Rightarrow> u8, unit) io" where
  "mem_put at' bs f = Some (Inr (), overlay f at' bs)"

lemma in_touched: "at' \<le> a \<Longrightarrow> a < at' + n \<Longrightarrow> a \<in> touched at' n"
proof -
  assume a: "at' \<le> a" "a < at' + n"
  have "at' div 512 * 512 \<le> at'" by simp
  moreover have "at' + n \<le> (at' + n + 511) div 512 * 512" by linarith
  ultimately show ?thesis using a unfolding touched_def atLeastLessThan_iff by linarith
qed

interpretation mem: exfat_volume "\<lambda>_. True" "\<lambda>f. f" mem_get mem_get mem_put "io_return ()"
  by unfold_locales
    (auto simp: reads_def mem_get_def mem_put_def overlay_def intro: in_touched)

end
