(* ===== verification/Exfat_Chain.thy ===== *)
theory Exfat_Chain
  imports Exfat_Volume
begin

text \<open>
  The parameters of an exFAT volume (\<open>exfat_info_from_disk\<close>), its FAT entries, the clusters of a
  directory or file in stream order (\<open>ExfatDirSlots::load_with\<close>) and the slots of a directory.
  All from \<open>crates/multi64-sc64-sd/src/partition.rs\<close>.
\<close>

subsection \<open>The volume's parameters\<close>

record exfat_info =
  ei_bytes_per_sector :: nat
  ei_sectors_per_cluster :: nat
  ei_bytes_per_cluster :: nat
  ei_fat_offset :: nat
  ei_fat_length :: nat
  ei_cluster_heap_offset :: nat
  ei_cluster_count :: u32
  ei_root_cluster :: u32
  ei_volume_serial :: u32
  ei_fat_count :: u8

text \<open>A Rust string, as its Unicode scalar values.\<close>

type_synonym rstring = "nat list"

text \<open>The methods of \<open>hadris-fat\<close>'s \<open>ExFatInfo\<close> and \<open>ExFatFs\<close> that need no file system state.\<close>

record hadris =
  hd_is_valid_cluster :: "exfat_info \<Rightarrow> u32 \<Rightarrow> bool"
  hd_cluster_to_offset :: "exfat_info \<Rightarrow> u32 \<Rightarrow> nat"
  hd_name_hash :: "rstring \<Rightarrow> u16"

text \<open>What the code relies on: cluster numbers begin at 2 and run through the cluster heap, whose
  clusters lie one after the other (exFAT specification, sections 3.1 and 5).\<close>

definition hadris_ok :: "hadris \<Rightarrow> bool" where
  "hadris_ok fs \<longleftrightarrow>
     (\<forall>info c. hd_is_valid_cluster fs info c \<longleftrightarrow> 2 \<le> unat c \<and> unat c < 2 + unat (ei_cluster_count info)) \<and>
     (\<forall>info c. hd_cluster_to_offset fs info c =
        ei_cluster_heap_offset info + (unat c - 2) * ei_bytes_per_cluster info)"

definition EXFAT_MAGIC :: octets where
  "EXFAT_MAGIC = [0x45, 0x58, 0x46, 0x41, 0x54, 0x20, 0x20, 0x20]"

definition exfat_info_of :: "octets \<Rightarrow> io_kind + exfat_info" where
  "exfat_info_of bs =
     (if slice 3 11 bs \<noteq> EXFAT_MAGIC then Inl InvalidData
      else if bs ! 108 < 9 \<or> 12 < bs ! 108 \<or> 25 < bs ! 109 then Inl InvalidData
      else
        let bytes_per_sector = 2 ^ unat (bs ! 108);
            sectors_per_cluster = 2 ^ unat (bs ! 109)
        in Inr \<lparr>ei_bytes_per_sector = bytes_per_sector,
             ei_sectors_per_cluster = sectors_per_cluster,
             ei_bytes_per_cluster = bytes_per_sector * sectors_per_cluster,
             ei_fat_offset = unat (le32_at bs 80) * bytes_per_sector,
             ei_fat_length = unat (le32_at bs 84) * bytes_per_sector,
             ei_cluster_heap_offset = unat (le32_at bs 88) * bytes_per_sector,
             ei_cluster_count = le32_at bs 92,
             ei_root_cluster = le32_at bs 96,
             ei_volume_serial = le32_at bs 100,
             ei_fat_count = bs ! 110\<rparr>)"

definition exfat_info_from_disk :: "(nat \<Rightarrow> nat \<Rightarrow> ('w, octets) io) \<Rightarrow> ('w, exfat_info) io" where
  "exfat_info_from_disk get = io_bind (get 0 512) (\<lambda>bs. io_of (exfat_info_of bs))"

subsection \<open>The FAT and cluster chains\<close>

definition exfat_read_fat_entry_with ::
  "(nat \<Rightarrow> nat \<Rightarrow> ('w, octets) io) \<Rightarrow> exfat_info \<Rightarrow> u32 \<Rightarrow> ('w, u32) io" where
  "exfat_read_fat_entry_with read_at info cluster =
     io_bind (read_at (ei_fat_offset info + unat cluster * 4) 4) (\<lambda>buf. io_return (le32_at buf 0))"

text \<open>The clusters of a directory or file in stream order. \<open>checked_add u32\<close> and the test
  for a valid cluster end a run past the heap.\<close>

function contiguous_run ::
  "hadris \<Rightarrow> exfat_info \<Rightarrow> u32 \<Rightarrow> nat \<Rightarrow> nat \<Rightarrow> u32 list \<Rightarrow> io_kind + u32 list" where
  "contiguous_run fs info first i n clusters =
     (if n \<le> i then Inr clusters
      else if 2 ^ 32 \<le> i \<or> 2 ^ 32 \<le> unat first + i \<or>
          \<not> hd_is_valid_cluster fs info (first + word_of_nat i)
      then Inl InvalidData
      else contiguous_run fs info first (i + 1) n (clusters @ [first + word_of_nat i]))"
  by pat_completeness auto
termination by (relation "measure (\<lambda>(fs, info, first, i, n, clusters). n - i)") auto

function chain_run ::
  "hadris \<Rightarrow> (nat \<Rightarrow> nat \<Rightarrow> ('w, octets) io) \<Rightarrow> exfat_info \<Rightarrow> u64 \<Rightarrow> nat \<Rightarrow> u32 \<Rightarrow> u32 list \<Rightarrow>
     ('w, u32 list) io" where
  "chain_run fs read_at info sz size_clusters c clusters =
     (if sz = 0 \<or> length clusters < size_clusters then
        io_bind (exfat_read_fat_entry_with read_at info c) (\<lambda>next'.
          if \<not> hd_is_valid_cluster fs info next' then io_return clusters
          else if unat (ei_cluster_count info) \<le> length clusters then io_fail InvalidData
          else chain_run fs read_at info sz size_clusters next' (clusters @ [next']))
      else io_return clusters)"
  by pat_completeness auto
termination
  by (relation "measure (\<lambda>(fs, read_at, info, sz, size_clusters, c, clusters).
        unat (ei_cluster_count info) - length clusters)") auto

declare contiguous_run.simps [simp del] chain_run.simps [simp del]

record dir_slots =
  ds_cluster_offsets :: "nat list"
  ds_slots_per_cluster :: nat

definition SLOT_BYTES :: nat where "SLOT_BYTES = 32"

text \<open>\<open>(size + cluster_bytes - 1) / cluster_bytes\<close> in \<open>u64\<close>, which wraps in a release build.\<close>

definition size_in_clusters :: "u64 \<Rightarrow> nat \<Rightarrow> nat" where
  "size_in_clusters sz cluster_bytes = unat (sz + word_of_nat cluster_bytes - 1) div cluster_bytes"

definition load_with ::
  "hadris \<Rightarrow> (nat \<Rightarrow> nat \<Rightarrow> ('w, octets) io) \<Rightarrow> exfat_info \<Rightarrow> u32 \<Rightarrow> bool \<Rightarrow> u64 \<Rightarrow> ('w, dir_slots) io" where
  "load_with fs read_at info first_cluster is_contiguous sz =
     (let cluster_bytes = ei_bytes_per_cluster info in
      if cluster_bytes < SLOT_BYTES \<or> \<not> hd_is_valid_cluster fs info first_cluster
      then io_fail InvalidData
      else
        let size_clusters = size_in_clusters sz cluster_bytes in
        io_bind
          (if is_contiguous
           then io_of (contiguous_run fs info first_cluster 1 (max size_clusters 1) [first_cluster])
           else chain_run fs read_at info sz size_clusters first_cluster [first_cluster])
          (\<lambda>clusters. io_return
             \<lparr>ds_cluster_offsets = map (hd_cluster_to_offset fs info) clusters,
              ds_slots_per_cluster = cluster_bytes div SLOT_BYTES\<rparr>))"

definition slot_count :: "dir_slots \<Rightarrow> nat" where
  "slot_count dir = length (ds_cluster_offsets dir) * ds_slots_per_cluster dir"

definition slot_offset :: "dir_slots \<Rightarrow> nat \<Rightarrow> io_kind + nat" where
  "slot_offset dir slot =
     (case get_at (ds_cluster_offsets dir) (slot div ds_slots_per_cluster dir) of
        None \<Rightarrow> Inl InvalidData
      | Some base \<Rightarrow> Inr (base + slot mod ds_slots_per_cluster dir * SLOT_BYTES))"

fun slot_offsets :: "dir_slots \<Rightarrow> nat \<Rightarrow> nat \<Rightarrow> io_kind + nat list" where
  "slot_offsets dir first 0 = Inr []"
| "slot_offsets dir first (Suc n) =
     bind_result (slot_offset dir first) (\<lambda>o'.
       bind_result (slot_offsets dir (first + 1) n) (\<lambda>os. Inr (o' # os)))"

subsection \<open>What a walk finds\<close>

definition fat_next :: "(nat \<Rightarrow> u8) \<Rightarrow> exfat_info \<Rightarrow> u32 \<Rightarrow> u32" where
  "fat_next f info c = le32_at (bytes_at f (ei_fat_offset info + unat c * 4) 4) 0"

text \<open>The clusters of a chain: each names the next, and the last names none unless the chain was cut
  at the size.\<close>

definition fat_chain :: "hadris \<Rightarrow> (nat \<Rightarrow> u8) \<Rightarrow> exfat_info \<Rightarrow> u32 \<Rightarrow> u32 list \<Rightarrow> bool" where
  "fat_chain fs f info first cs \<longleftrightarrow>
     cs \<noteq> [] \<and> hd cs = first \<and> successively (\<lambda>c d. fat_next f info c = d) cs \<and>
     (\<forall>c \<in> set cs. hd_is_valid_cluster fs info c)"

definition stream_clusters ::
  "hadris \<Rightarrow> (nat \<Rightarrow> u8) \<Rightarrow> exfat_info \<Rightarrow> u32 \<Rightarrow> bool \<Rightarrow> u64 \<Rightarrow> u32 list \<Rightarrow> bool" where
  "stream_clusters fs f info first is_contiguous sz cs \<longleftrightarrow>
     (let n = size_in_clusters sz (ei_bytes_per_cluster info) in
      if is_contiguous
      then cs = map (\<lambda>i. first + word_of_nat i) [0 ..< max n 1] \<and> unat first + (max n 1 - 1) < 2 ^ 32 \<and>
        (\<forall>c \<in> set cs. hd_is_valid_cluster fs info c)
      else fat_chain fs f info first cs \<and>
        length cs \<le> max 1 (unat (ei_cluster_count info)) \<and>
        (sz \<noteq> 0 \<longrightarrow> length cs \<le> max 1 n) \<and>
        (sz = 0 \<or> length cs < n \<longrightarrow> \<not> hd_is_valid_cluster fs info (fat_next f info (last cs))))"

lemma contiguous_run_result:
  assumes "contiguous_run fs info first i n cs = Inr ds"
    and "cs = map (\<lambda>i. first + word_of_nat i) [0 ..< i]" "\<forall>c \<in> set cs. hd_is_valid_cluster fs info c"
    and "0 < i" "unat first + (i - 1) < 2 ^ 32"
  shows "ds = map (\<lambda>i. first + word_of_nat i) [0 ..< max n i] \<and> unat first + (max n i - 1) < 2 ^ 32 \<and>
    (\<forall>c \<in> set ds. hd_is_valid_cluster fs info c)"
  using assms
proof (induction fs info first i n cs rule: contiguous_run.induct)
  case (1 fs info first i n cs)
  show ?case
  proof (cases "n \<le> i")
    case True
    with 1 show ?thesis by (simp add: contiguous_run.simps max_absorb2)
  next
    case False
    with "1.prems"(1) have go: "\<not> (2 ^ 32 \<le> i \<or> 2 ^ 32 \<le> unat first + i \<or>
        \<not> hd_is_valid_cluster fs info (first + word_of_nat i))"
      and run: "contiguous_run fs info first (i + 1) n (cs @ [first + word_of_nat i]) = Inr ds"
      by (auto simp: contiguous_run.simps [of fs info first i n cs] split: if_splits)
    have "max n (i + 1) = max n i" using False by simp
    with "1.IH" [OF False go run] "1.prems" go show ?thesis by simp
  qed
qed

context exfat_volume
begin

lemma fat_entry_reads:
  "ok w \<Longrightarrow> reads ok content w (exfat_read_fat_entry_with rd info c) (\<lambda>v. v = fat_next (content w) info c)"
  unfolding exfat_read_fat_entry_with_def fat_next_def
  by (rule reads_bind [OF rd_reads]) (simp_all add: reads_intro)

lemma chain_run_reads:
  assumes "ok w" "fat_chain fs (content w) info first cs" "c = last cs"
    and "length cs \<le> max 1 (unat (ei_cluster_count info))" "sz \<noteq> 0 \<longrightarrow> length cs \<le> max 1 n"
  shows "reads ok content w (chain_run fs rd info sz n c cs)
    (\<lambda>ds. fat_chain fs (content w) info first ds \<and> length ds \<le> max 1 (unat (ei_cluster_count info)) \<and>
       (sz \<noteq> 0 \<longrightarrow> length ds \<le> max 1 n) \<and>
       (sz = 0 \<or> length ds < n \<longrightarrow> \<not> hd_is_valid_cluster fs info (fat_next (content w) info (last ds))))"
  using assms
proof (induction "unat (ei_cluster_count info) - length cs" arbitrary: c cs w rule: less_induct)
  case less
  show ?case
  proof (cases "sz = 0 \<or> length cs < n")
    case False
    with less.prems show ?thesis
      by (subst chain_run.simps) (simp add: reads_intro)
  next
    case True
    let ?P = "\<lambda>ds. fat_chain fs (content w) info first ds \<and> length ds \<le> max 1 (unat (ei_cluster_count info)) \<and>
       (sz \<noteq> 0 \<longrightarrow> length ds \<le> max 1 n) \<and>
       (sz = 0 \<or> length ds < n \<longrightarrow> \<not> hd_is_valid_cluster fs info (fat_next (content w) info (last ds)))"
    have "reads ok content w (io_bind (exfat_read_fat_entry_with rd info c) (\<lambda>next'.
          if \<not> hd_is_valid_cluster fs info next' then io_return cs
          else if unat (ei_cluster_count info) \<le> length cs then io_fail InvalidData
          else chain_run fs rd info sz n next' (cs @ [next']))) ?P"
    proof (rule reads_bind [OF fat_entry_reads [OF less.prems(1)]])
      fix d w'
      assume w': "ok w'" "content w' = content w" and d: "d = fat_next (content w) info c"
      show "reads ok content w'
          (if \<not> hd_is_valid_cluster fs info d then io_return cs
           else if unat (ei_cluster_count info) \<le> length cs then io_fail InvalidData
           else chain_run fs rd info sz n d (cs @ [d])) ?P"
      proof (intro reads_if reads_return reads_fail)
        assume "\<not> \<not> hd_is_valid_cluster fs info d" "\<not> unat (ei_cluster_count info) \<le> length cs"
        moreover from this less.prems(2,3) d
        have "fat_chain fs (content w) info first (cs @ [d])"
          by (auto simp: fat_chain_def successively_append_iff)
        ultimately show "reads ok content w' (chain_run fs rd info sz n d (cs @ [d])) ?P"
          using less.hyps [of "cs @ [d]" w' d] w' True less.prems(5) by auto
      qed (use w' less.prems d in auto)
    qed
    with True show ?thesis by (subst chain_run.simps) simp
  qed
qed

lemma load_with_reads:
  assumes "ok w"
  shows "reads ok content w (load_with fs rd info first is_contiguous sz)
    (\<lambda>dir. \<exists>cs. stream_clusters fs (content w) info first is_contiguous sz cs \<and>
       SLOT_BYTES \<le> ei_bytes_per_cluster info \<and>
       dir = \<lparr>ds_cluster_offsets = map (hd_cluster_to_offset fs info) cs,
              ds_slots_per_cluster = ei_bytes_per_cluster info div SLOT_BYTES\<rparr>)"
proof -
  let ?n = "size_in_clusters sz (ei_bytes_per_cluster info)"
  have walk: "reads ok content w
      (if is_contiguous then io_of (contiguous_run fs info first 1 (max ?n 1) [first])
       else chain_run fs rd info sz ?n first [first])
      (stream_clusters fs (content w) info first is_contiguous sz)"
    if "hd_is_valid_cluster fs info first"
  proof (intro reads_if reads_of assms)
    fix cs
    assume "is_contiguous" and run: "contiguous_run fs info first 1 (max ?n 1) [first] = Inr cs"
    moreover have "unat first + (1 - 1) < 2 ^ 32" using unsigned_less [of first] by simp
    ultimately show "stream_clusters fs (content w) info first is_contiguous sz cs"
      using contiguous_run_result [OF run] that by (simp add: stream_clusters_def Let_def)
  next
    assume "\<not> is_contiguous"
    then show "reads ok content w (chain_run fs rd info sz ?n first [first])
        (stream_clusters fs (content w) info first is_contiguous sz)"
      by (intro reads_mono [OF chain_run_reads [OF assms, of fs info first "[first]" first sz ?n]])
        (use that in \<open>auto simp: fat_chain_def stream_clusters_def Let_def\<close>)
  qed
  show ?thesis
    unfolding load_with_def Let_def
    by (intro reads_if reads_fail assms reads_bind [OF walk] reads_return) auto
qed

end

end
