(* ===== verification/Exfat_Names.thy ===== *)
theory Exfat_Names
  imports Exfat_Chain
begin

text \<open>
  Names and paths on an exFAT volume, from \<open>crates/multi64-sc64-sd/src/partition.rs\<close>: UTF-16 as the
  standard library converts it, the checks on a new name, the comparison that ignores case, and the
  parts of a path. A string is the list of its Unicode scalar values.
\<close>

subsection \<open>UTF-16\<close>

definition scalar :: "nat \<Rightarrow> bool" where
  "scalar c \<longleftrightarrow> c < 0xD800 \<or> 0xE000 \<le> c \<and> c < 0x110000"

definition encode_char :: "nat \<Rightarrow> u16 list" where
  "encode_char c =
     (if c < 0x10000 then [word_of_nat c]
      else [word_of_nat (0xD800 + (c - 0x10000) div 0x400), word_of_nat (0xDC00 + (c - 0x10000) mod 0x400)])"

definition encode_utf16 :: "rstring \<Rightarrow> u16 list" where
  "encode_utf16 s = concat (map encode_char s)"

text \<open>\<open>String::from_utf16_lossy\<close>: a surrogate without its partner reads as U+FFFD.\<close>

fun from_utf16_lossy :: "u16 list \<Rightarrow> rstring" where
  "from_utf16_lossy [] = []"
| "from_utf16_lossy (u # us) =
     (if u < 0xD800 \<or> 0xDFFF < u then unat u # from_utf16_lossy us
      else if 0xDC00 \<le> u then 0xFFFD # from_utf16_lossy us
      else case us of
        [] \<Rightarrow> [0xFFFD]
      | v # vs \<Rightarrow>
          if 0xDC00 \<le> v \<and> v \<le> 0xDFFF
          then (0x10000 + (unat u - 0xD800) * 0x400 + (unat v - 0xDC00)) # from_utf16_lossy vs
          else 0xFFFD # from_utf16_lossy us)"

lemma from_utf16_lossy_char:
  assumes "scalar c"
  shows "from_utf16_lossy (encode_char c @ us) = c # from_utf16_lossy us"
proof (cases "c < 0x10000")
  case True
  then have "unat (word_of_nat c :: u16) = c" by (simp add: unat_of_nat)
  moreover from this assms True have "(word_of_nat c :: u16) < 0xD800 \<or> 0xDFFF < (word_of_nat c :: u16)"
    by (auto simp: scalar_def word_less_nat_alt)
  ultimately show ?thesis using True by (simp add: encode_char_def)
next
  case False
  define k where "k = c - 0x10000"
  have c: "c = k + 0x10000" "k < 0x100000" using False assms by (auto simp: k_def scalar_def)
  then have "k div 0x400 < 0x400" by auto
  define h l where "h = (word_of_nat (0xD800 + k div 0x400) :: u16)"
    and "l = (word_of_nat (0xDC00 + k mod 0x400) :: u16)"
  have small: "unat (word_of_nat n :: u16) = n" if "n < 0x10000" for n
    using that by (simp add: unat_of_nat)
  have h: "unat h = 0xD800 + k div 0x400"
    unfolding h_def by (rule small) (use \<open>k div 0x400 < 0x400\<close> in simp)
  have "k mod 0x400 < 0x400" by simp
  then have l: "unat l = 0xDC00 + k mod 0x400"
    unfolding l_def by (intro small) linarith
  have "\<not> h < 0xD800" "\<not> 0xDFFF < h" "\<not> 0xDC00 \<le> h" "0xDC00 \<le> l" "l \<le> 0xDFFF"
    using \<open>k div 0x400 < 0x400\<close> \<open>k mod 0x400 < 0x400\<close>
    by (simp_all add: word_less_nat_alt word_le_nat_alt h l)
  moreover have "encode_char c = [h, l]" using False by (simp add: encode_char_def h_def l_def k_def)
  ultimately show ?thesis by (simp add: h l c)
qed

lemma from_utf16_lossy_encode: "list_all scalar s \<Longrightarrow> from_utf16_lossy (encode_utf16 s) = s"
  by (induction s) (simp_all add: encode_utf16_def from_utf16_lossy_char)

subsection \<open>New names\<close>

definition EXFAT_CHARS_PER_NAME_ENTRY :: nat where "EXFAT_CHARS_PER_NAME_ENTRY = 15"
definition EXFAT_MAX_FILENAME_LEN :: nat where "EXFAT_MAX_FILENAME_LEN = 255"

definition refuse_dot_name :: "rstring \<Rightarrow> io_kind + unit" where
  "refuse_dot_name name = (if name = [0x2E] \<or> name = [0x2E, 0x2E] then Inl InvalidInput else Inr ())"

text \<open>Control characters and \<open>" * / : < > ? \\ |\<close>.\<close>

definition exfat_invalid_filename_char :: "nat \<Rightarrow> bool" where
  "exfat_invalid_filename_char c \<longleftrightarrow>
     c \<le> 0x1F \<or> c \<in> {0x22, 0x2A, 0x2F, 0x3A, 0x3C, 0x3E, 0x3F, 0x5C, 0x7C}"

definition exfat_validate_rename_name :: "rstring \<Rightarrow> io_kind + unit" where
  "exfat_validate_rename_name name =
     bind_result (refuse_dot_name name) (\<lambda>_.
       let len = length (encode_utf16 name) in
       if len = 0 \<or> EXFAT_MAX_FILENAME_LEN < len then Inl InvalidInput
       else if list_ex exfat_invalid_filename_char name then Inl InvalidInput
       else Inr ())"

text \<open>File, Stream Extension, then one File Name entry per 15 UTF-16 units.\<close>

definition exfat_entry_set_len :: "rstring \<Rightarrow> nat" where
  "exfat_entry_set_len name = 2 + (length (encode_utf16 name) + 14) div 15"

lemma valid_name:
  assumes "exfat_validate_rename_name name = Inr u"
  shows "0 < length (encode_utf16 name)" "length (encode_utf16 name) \<le> 255"
    "list_all (\<lambda>c. \<not> exfat_invalid_filename_char c) name" "name \<noteq> [0x2E]" "name \<noteq> [0x2E, 0x2E]"
  using assms
  by (auto simp: exfat_validate_rename_name_def refuse_dot_name_def Let_def EXFAT_MAX_FILENAME_LEN_def
      list_ex_iff list_all_iff split: if_splits)

subsection \<open>Comparing names\<close>

text \<open>\<open>char::to_uppercase\<close> is the parameter \<open>upper\<close>: the Unicode tables of the standard library.\<close>

definition fat_upcase_unit :: "(nat \<Rightarrow> nat list) \<Rightarrow> u16 \<Rightarrow> u16" where
  "fat_upcase_unit upper unit =
     (if 0xD800 \<le> unit \<and> unit \<le> 0xDFFF then unit
      else case upper (unat unit) of
        [single] \<Rightarrow> (if single < 2 ^ 16 then word_of_nat single else unit)
      | _ \<Rightarrow> unit)"

definition fat_name_key :: "(nat \<Rightarrow> nat list) \<Rightarrow> rstring \<Rightarrow> u16 list" where
  "fat_name_key upper name = map (fat_upcase_unit upper) (encode_utf16 name)"

definition fat_names_equal :: "(nat \<Rightarrow> nat list) \<Rightarrow> rstring \<Rightarrow> rstring \<Rightarrow> bool" where
  "fat_names_equal upper a b \<longleftrightarrow>
     a = b \<or> map (fat_upcase_unit upper) (encode_utf16 a) = map (fat_upcase_unit upper) (encode_utf16 b)"

lemma fat_names_equal_key: "fat_names_equal upper a b \<longleftrightarrow> fat_name_key upper a = fat_name_key upper b"
  by (auto simp: fat_names_equal_def fat_name_key_def)

lemma fat_names_equal_refl [simp]: "fat_names_equal upper a a"
  by (simp add: fat_names_equal_def)

text \<open>Names that match take the same number of slots, as the replacement of a file relies on.\<close>

lemma fat_names_equal_slots:
  "fat_names_equal upper a b \<Longrightarrow> exfat_entry_set_len a = exfat_entry_set_len b"
  by (auto simp: fat_names_equal_def exfat_entry_set_len_def dest: map_eq_imp_length_eq)

subsection \<open>Paths\<close>

text \<open>\<open>char::is_whitespace\<close>, the Unicode property White_Space.\<close>

definition is_whitespace :: "nat \<Rightarrow> bool" where
  "is_whitespace c \<longleftrightarrow>
     9 \<le> c \<and> c \<le> 13 \<or> 0x2000 \<le> c \<and> c \<le> 0x200A \<or>
     c \<in> {0x20, 0x85, 0xA0, 0x1680, 0x2028, 0x2029, 0x202F, 0x205F, 0x3000}"

definition trim_end :: "(nat \<Rightarrow> bool) \<Rightarrow> rstring \<Rightarrow> rstring" where
  "trim_end p s = rev (dropWhile p (rev s))"

definition str_trim :: "rstring \<Rightarrow> rstring" where
  "str_trim s = trim_end is_whitespace (dropWhile is_whitespace s)"

definition SLASH :: nat where "SLASH = 0x2F"

definition slashes :: "rstring \<Rightarrow> rstring" where
  "slashes s = map (\<lambda>c. if c = 0x5C then SLASH else c) s"

text \<open>\<open>s.split('/').filter(|s| !s.is_empty())\<close>.\<close>

fun split_on :: "nat \<Rightarrow> rstring \<Rightarrow> rstring \<Rightarrow> rstring list" where
  "split_on d acc [] = [acc]"
| "split_on d acc (c # cs) = (if c = d then acc # split_on d [] cs else split_on d (acc @ [c]) cs)"

definition segments :: "rstring \<Rightarrow> rstring list" where
  "segments s = filter (\<lambda>seg. seg \<noteq> []) (split_on SLASH [] s)"

definition rsplit_once :: "nat \<Rightarrow> rstring \<Rightarrow> (rstring \<times> rstring) option" where
  "rsplit_once d s =
     (if d \<in> set s
      then Some (butlast (rev (dropWhile (\<lambda>c. c \<noteq> d) (rev s))), rev (takeWhile (\<lambda>c. c \<noteq> d) (rev s)))
      else None)"

definition exfat_parent_path_and_name :: "rstring \<Rightarrow> rstring \<times> rstring" where
  "exfat_parent_path_and_name path =
     (let p = dropWhile (\<lambda>c. c = SLASH) (str_trim path) in
      case rsplit_once SLASH p of None \<Rightarrow> ([], p) | Some pn \<Rightarrow> pn)"

definition cart_rel_path_trimmed :: "rstring \<Rightarrow> rstring option" where
  "cart_rel_path_trimmed path =
     (let normalized = trim_end (\<lambda>c. c = SLASH) (dropWhile (\<lambda>c. c = SLASH) (slashes (str_trim path))) in
      if normalized = [] then None else Some normalized)"

definition cart_path_parts :: "rstring \<Rightarrow> rstring \<times> rstring" where
  "cart_path_parts path =
     (let p = trim_end (\<lambda>c. c = SLASH) (dropWhile (\<lambda>c. c = SLASH) (slashes (str_trim path))) in
      if p = [] then ([], [])
      else case rsplit_once SLASH p of None \<Rightarrow> ([], p) | Some pn \<Rightarrow> pn)"

lemma rsplit_once_Some:
  "rsplit_once d s = Some (p, n) \<longleftrightarrow> s = p @ d # n \<and> d \<notin> set n"
proof
  assume split: "rsplit_once d s = Some (p, n)"
  let ?r = "dropWhile (\<lambda>c. c \<noteq> d) (rev s)"
  have d: "d \<in> set s" using split by (simp add: rsplit_once_def split: if_splits)
  then have ne: "?r \<noteq> []" and hd: "List.hd ?r = d"
    using hd_dropWhile [of "\<lambda>c. c \<noteq> d" "rev s"] by (auto simp: dropWhile_eq_Nil_conv)
  have "s = rev (takeWhile (\<lambda>c. c \<noteq> d) (rev s) @ ?r)" by simp
  also have "\<dots> = rev ?r @ rev (takeWhile (\<lambda>c. c \<noteq> d) (rev s))" by (simp only: rev_append)
  also have "rev ?r = butlast (rev ?r) @ [d]"
    using ne hd append_butlast_last_id [of "rev ?r"] by (simp add: last_rev)
  finally have "s = butlast (rev ?r) @ d # rev (takeWhile (\<lambda>c. c \<noteq> d) (rev s))" by simp
  moreover have "d \<notin> set (rev (takeWhile (\<lambda>c. c \<noteq> d) (rev s)))" by (auto dest: set_takeWhileD)
  moreover have "p = butlast (rev ?r)" "n = rev (takeWhile (\<lambda>c. c \<noteq> d) (rev s))"
    using split unfolding rsplit_once_def if_P [OF d] by blast+
  ultimately show "s = p @ d # n \<and> d \<notin> set n" by (simp only:) simp
next
  assume s: "s = p @ d # n \<and> d \<notin> set n"
  then have "takeWhile (\<lambda>c. c \<noteq> d) (rev s) = rev n" "dropWhile (\<lambda>c. c \<noteq> d) (rev s) = d # rev p"
    by (auto simp: takeWhile_append dropWhile_append)
  with s show "rsplit_once d s = Some (p, n)" by (simp add: rsplit_once_def)
qed

end
