(* ===== verification/Exfat_Slots.thy ===== *)
theory Exfat_Slots
  imports Exfat_Names
begin

text \<open>
  Reading a directory of an exFAT volume slot by slot, from \<open>crates/multi64-sc64-sd/src/partition.rs\<close>:
  the reader that keeps the chunks it has read (\<open>ExfatSlotReader\<close>), decoding and listing entry sets,
  finding one by its identity, a run of free slots, and resolving a path. Each scan is shown to
  return what a plain function of the directory's slots says, whatever the chunks and clusters.
\<close>

definition EXFAT_ENTRY_IN_USE :: u8 where "EXFAT_ENTRY_IN_USE = 0x80"
definition EXFAT_ENTRY_FILE_DIRECTORY :: u8 where "EXFAT_ENTRY_FILE_DIRECTORY = 0x85"
definition EXFAT_ENTRY_STREAM_EXT :: u8 where "EXFAT_ENTRY_STREAM_EXT = 0xC0"
definition EXFAT_ENTRY_FILE_NAME :: u8 where "EXFAT_ENTRY_FILE_NAME = 0xC1"
definition END_OF_DIRECTORY :: u8 where "END_OF_DIRECTORY = 0"

abbreviation slot_type :: "octets \<Rightarrow> u8" where "slot_type s \<equiv> s ! 0"

definition in_use :: "octets \<Rightarrow> bool" where
  "in_use s \<longleftrightarrow> slot_type s AND EXFAT_ENTRY_IN_USE \<noteq> 0"

subsection \<open>The slot reader\<close>

type_synonym chunk_map = "nat \<Rightarrow> octets option"

definition MAX_CHUNK_SLOTS :: nat where "MAX_CHUNK_SLOTS = 256"

definition chunk_slots :: "dir_slots \<Rightarrow> nat" where
  "chunk_slots dir =
     (if MAX_CHUNK_SLOTS dvd ds_slots_per_cluster dir then MAX_CHUNK_SLOTS else ds_slots_per_cluster dir)"

definition read_slot ::
  "(nat \<Rightarrow> nat \<Rightarrow> ('w, octets) io) \<Rightarrow> dir_slots \<Rightarrow> nat \<Rightarrow> (chunk_map \<times> 'w, octets) io" where
  "read_slot read_at dir slot cw =
     (let k = chunk_slots dir;
          chunk = slot div k;
          off = slot mod k * SLOT_BYTES
      in case fst cw chunk of
           Some buf \<Rightarrow> Some (Inr (slice off (off + SLOT_BYTES) buf), cw)
         | None \<Rightarrow>
             (case slot_offset dir (chunk * k) of
                Inl e \<Rightarrow> Some (Inl e, cw)
              | Inr at' \<Rightarrow>
                  (case read_at at' (k * SLOT_BYTES) (snd cw) of
                     None \<Rightarrow> None
                   | Some (Inl e, w') \<Rightarrow> Some (Inl e, fst cw, w')
                   | Some (Inr buf, w') \<Rightarrow>
                       Some (Inr (slice off (off + SLOT_BYTES) buf), (fst cw)(chunk \<mapsto> buf), w'))))"

text \<open>A scan with a reader of its own, as each of the functions below starts.\<close>

definition with_reader :: "(chunk_map \<times> 'w, 'a) io \<Rightarrow> ('w, 'a) io" where
  "with_reader m w = map_option (\<lambda>(r, _, w'). (r, w')) (m (\<lambda>_. None, w))"

subsection \<open>Entry sets\<close>

record decoded_entry =
  xe_name :: rstring
  xe_attributes :: u16
  xe_first_cluster :: u32
  xe_data_length :: u64
  xe_valid_data_length :: u64
  xe_no_fat_chain :: bool
  xe_primary :: octets

definition ATTR_HIDDEN :: u16 where "ATTR_HIDDEN = 0x02"
definition ATTR_DIRECTORY :: u16 where "ATTR_DIRECTORY = 0x10"

definition entry_is_dir :: "decoded_entry \<Rightarrow> bool" where
  "entry_is_dir e \<longleftrightarrow> xe_attributes e AND ATTR_DIRECTORY \<noteq> 0"

definition entry_is_hidden :: "decoded_entry \<Rightarrow> bool" where
  "entry_is_hidden e \<longleftrightarrow> xe_attributes e AND ATTR_HIDDEN \<noteq> 0"

text \<open>The little-endian units of a File Name slot.\<close>

fun units16 :: "octets \<Rightarrow> u16 list" where
  "units16 (a # b # bs) = word_of_nat (of_le [a, b]) # units16 bs"
| "units16 bs = []"

function name_units ::
  "(nat \<Rightarrow> ('s, octets) io) \<Rightarrow> nat \<Rightarrow> nat \<Rightarrow> nat \<Rightarrow> u16 list \<Rightarrow> ('s, u16 list option) io" where
  "name_units slot s last_slot name_len units =
     (if last_slot < s \<or> name_len \<le> length units then io_return (Some units)
      else io_bind (slot s) (\<lambda>entry.
        if slot_type entry \<noteq> EXFAT_ENTRY_FILE_NAME then io_return None
        else name_units slot (s + 1) last_slot name_len
          (units @ take (name_len - length units) (units16 (drop 2 entry)))))"
  by pat_completeness auto
termination by (relation "measure (\<lambda>(slot, s, last_slot, name_len, units). last_slot + 1 - s)") auto

declare name_units.simps [simp del]

definition make_entry :: "octets \<Rightarrow> octets \<Rightarrow> u16 list \<Rightarrow> decoded_entry" where
  "make_entry primary stream units =
     \<lparr>xe_name = from_utf16_lossy units,
      xe_attributes = le16_at primary 4,
      xe_first_cluster = le32_at stream 20,
      xe_data_length = le64_at stream 24,
      xe_valid_data_length = le64_at stream 8,
      xe_no_fat_chain = (stream ! 1 AND 0x02 \<noteq> 0),
      xe_primary = primary\<rparr>"

definition exfat_decode_entry_set ::
  "(nat \<Rightarrow> ('s, octets) io) \<Rightarrow> nat \<Rightarrow> nat \<Rightarrow> ('s, (decoded_entry \<times> nat) option) io" where
  "exfat_decode_entry_set slot primary_slot count =
     io_bind (slot primary_slot) (\<lambda>primary.
       if slot_type primary \<noteq> EXFAT_ENTRY_FILE_DIRECTORY then io_return None
       else
         let secondaries = unat (primary ! 1) in
         if secondaries < 2 \<or> 18 < secondaries \<or> count \<le> primary_slot + secondaries then io_return None
         else io_bind (slot (primary_slot + 1)) (\<lambda>stream.
           if slot_type stream \<noteq> EXFAT_ENTRY_STREAM_EXT then io_return None
           else
             let name_len = unat (stream ! 3) in
             io_bind (name_units slot (primary_slot + 2) (primary_slot + secondaries) name_len [])
               (\<lambda>got. case got of
                  None \<Rightarrow> io_return None
                | Some units \<Rightarrow>
                    if length units \<noteq> name_len then io_return None
                    else io_return (Some (make_entry primary stream units, secondaries)))))"

function list_from ::
  "(nat \<Rightarrow> ('s, octets) io) \<Rightarrow> nat \<Rightarrow> nat \<Rightarrow> decoded_entry list \<Rightarrow> ('s, decoded_entry list) io" where
  "list_from slot count i out =
     (if count \<le> i then io_return out
      else io_bind (slot i) (\<lambda>primary.
        if slot_type primary = END_OF_DIRECTORY then io_return out
        else if \<not> in_use primary then list_from slot count (i + 1) out
        else io_bind (exfat_decode_entry_set slot i count) (\<lambda>got.
          case got of
            Some (entry, secondaries) \<Rightarrow> list_from slot count (i + 1 + secondaries) (out @ [entry])
          | None \<Rightarrow> list_from slot count (i + 1) out)))"
  by pat_completeness auto
termination by (relation "measure (\<lambda>(slot, count, i, out). count - i)") auto

declare list_from.simps [simp del]

definition exfat_list_entries ::
  "(nat \<Rightarrow> nat \<Rightarrow> ('w, octets) io) \<Rightarrow> dir_slots \<Rightarrow> ('w, decoded_entry list) io" where
  "exfat_list_entries read_at dir =
     with_reader (list_from (read_slot read_at dir) (slot_count dir) 0 [])"

subsection \<open>Finding an entry set\<close>

record entry_identity =
  id_name :: rstring
  id_is_directory :: bool
  id_first_cluster :: u32
  id_valid_data_length :: u64
  id_data_length :: u64

definition of_decoded :: "decoded_entry \<Rightarrow> entry_identity" where
  "of_decoded e =
     \<lparr>id_name = xe_name e, id_is_directory = entry_is_dir e, id_first_cluster = xe_first_cluster e,
      id_valid_data_length = xe_valid_data_length e, id_data_length = xe_data_length e\<rparr>"

function match_name ::
  "(nat \<Rightarrow> ('s, octets) io) \<Rightarrow> nat \<Rightarrow> nat \<Rightarrow> u16 list \<Rightarrow> nat \<Rightarrow> ('s, bool) io" where
  "match_name slot s last_slot name units =
     (if length name \<le> units then io_return True
      else if last_slot < s then io_return False
      else io_bind (slot s) (\<lambda>entry.
        if slot_type entry \<noteq> EXFAT_ENTRY_FILE_NAME then io_return False
        else
          let part = take (length name - units) (units16 (drop 2 entry)) in
          if part = take (length part) (drop units name)
          then match_name slot (s + 1) last_slot name (units + length part)
          else io_return False))"
  by pat_completeness auto
termination by (relation "measure (\<lambda>(slot, s, last_slot, name, units). last_slot + 1 - s)") auto

declare match_name.simps [simp del]

definition identity_fields :: "entry_identity \<Rightarrow> octets \<Rightarrow> octets \<Rightarrow> bool" where
  "identity_fields want primary stream \<longleftrightarrow>
     (le16_at primary 4 AND ATTR_DIRECTORY \<noteq> 0) = id_is_directory want \<and>
     unat (stream ! 3) = length (encode_utf16 (id_name want)) \<and>
     le64_at stream 8 = id_valid_data_length want \<and>
     le32_at stream 20 = id_first_cluster want \<and>
     le64_at stream 24 = id_data_length want"

function find_from ::
  "(nat \<Rightarrow> ('s, octets) io) \<Rightarrow> entry_identity \<Rightarrow> nat \<Rightarrow> nat \<Rightarrow> ('s, nat option) io" where
  "find_from slot want count i =
     (if count \<le> i then io_return None
      else io_bind (slot i) (\<lambda>primary.
        if slot_type primary = END_OF_DIRECTORY then io_return None
        else
          let secondaries = unat (primary ! 1) in
          if slot_type primary \<noteq> EXFAT_ENTRY_FILE_DIRECTORY \<or> secondaries < 2 \<or> 18 < secondaries \<or>
            count \<le> i + secondaries
          then find_from slot want count (i + 1)
          else io_bind (slot (i + 1)) (\<lambda>stream.
            if slot_type stream \<noteq> EXFAT_ENTRY_STREAM_EXT then find_from slot want count (i + 1)
            else io_bind
              (if identity_fields want primary stream
               then match_name slot (i + 2) (i + secondaries) (encode_utf16 (id_name want)) 0
               else io_return False)
              (\<lambda>matched.
                if matched then io_return (Some i)
                else find_from slot want count (i + (1 + secondaries))))))"
  by pat_completeness auto
termination by (relation "measure (\<lambda>(slot, want, count, i). count - i)") auto

declare find_from.simps [simp del]

definition exfat_find_entry_set ::
  "(nat \<Rightarrow> nat \<Rightarrow> ('w, octets) io) \<Rightarrow> dir_slots \<Rightarrow> entry_identity \<Rightarrow> ('w, nat option) io" where
  "exfat_find_entry_set read_at dir want =
     with_reader (find_from (read_slot read_at dir) want (slot_count dir) 0)"

subsection \<open>Free slots, and one entry set's slots\<close>

function free_run_from ::
  "(nat \<Rightarrow> ('s, octets) io) \<Rightarrow> nat \<Rightarrow> nat \<Rightarrow> nat \<times> nat \<Rightarrow> nat \<Rightarrow> nat \<Rightarrow> nat \<Rightarrow> ('s, nat) io" where
  "free_run_from slot count needed skip s run_start run_len =
     (if count \<le> s then io_fail StorageFull
      else io_bind
        (if fst skip \<le> s \<and> s < snd skip then io_return False
         else io_bind (slot s) (\<lambda>entry. io_return (\<not> in_use entry)))
        (\<lambda>is_free.
          if is_free then
            let start = (if run_len = 0 then s else run_start) in
            if needed \<le> run_len + 1 then io_return start
            else free_run_from slot count needed skip (s + 1) start (run_len + 1)
          else free_run_from slot count needed skip (s + 1) run_start 0))"
  by pat_completeness auto
termination
  by (relation "measure (\<lambda>(slot, count, needed, skip, s, run_start, run_len). count - s)") auto

declare free_run_from.simps [simp del]

definition exfat_find_free_entry_run ::
  "(nat \<Rightarrow> nat \<Rightarrow> ('w, octets) io) \<Rightarrow> dir_slots \<Rightarrow> nat \<Rightarrow> nat \<times> nat \<Rightarrow> ('w, nat) io" where
  "exfat_find_free_entry_run read_at dir slots_needed skip =
     with_reader (free_run_from (read_slot read_at dir) (slot_count dir) slots_needed skip 0 0 0)"

fun slots_from :: "(nat \<Rightarrow> ('s, octets) io) \<Rightarrow> nat \<Rightarrow> nat \<Rightarrow> ('s, octets list) io" where
  "slots_from slot s 0 = io_return []"
| "slots_from slot s (Suc n) =
     io_bind (slot s) (\<lambda>e. io_bind (slots_from slot (s + 1) n) (\<lambda>es. io_return (e # es)))"

definition exfat_read_entry_set ::
  "(nat \<Rightarrow> nat \<Rightarrow> ('w, octets) io) \<Rightarrow> dir_slots \<Rightarrow> nat \<Rightarrow> ('w, octets list option) io" where
  "exfat_read_entry_set read_at dir primary_slot =
     with_reader (io_bind (read_slot read_at dir primary_slot) (\<lambda>primary.
       let secondaries = unat (primary ! 1) in
       if secondaries < 2 \<or> 18 < secondaries then io_return None
       else io_bind (slots_from (read_slot read_at dir) primary_slot (secondaries + 1))
         (\<lambda>entries. io_return (Some entries))))"

subsection \<open>Paths\<close>

fun resolve_segments ::
  "(nat \<Rightarrow> nat list) \<Rightarrow> hadris \<Rightarrow> (nat \<Rightarrow> nat \<Rightarrow> ('w, octets) io) \<Rightarrow> exfat_info \<Rightarrow> rstring list \<Rightarrow> dir_slots \<Rightarrow>
     ('w, dir_slots) io" where
  "resolve_segments upper fs read_at info [] dir = io_return dir"
| "resolve_segments upper fs read_at info (seg # segs) dir =
     io_bind (exfat_list_entries read_at dir) (\<lambda>es.
       case find (\<lambda>e. fat_names_equal upper (xe_name e) seg) es of
         None \<Rightarrow> io_fail NotFound
       | Some found \<Rightarrow>
           if \<not> entry_is_dir found then io_fail InvalidInput
           else io_bind (load_with fs read_at info (xe_first_cluster found) (xe_no_fat_chain found)
               (xe_data_length found)) (resolve_segments upper fs read_at info segs))"

definition exfat_resolve_dir_slots ::
  "(nat \<Rightarrow> nat list) \<Rightarrow> hadris \<Rightarrow> (nat \<Rightarrow> nat \<Rightarrow> ('w, octets) io) \<Rightarrow> exfat_info \<Rightarrow> rstring \<Rightarrow>
     ('w, dir_slots) io" where
  "exfat_resolve_dir_slots upper fs read_at info path =
     io_bind (load_with fs read_at info (ei_root_cluster info) False 0)
       (resolve_segments upper fs read_at info (segments (slashes (str_trim path))))"

definition exfat_resolve_entry ::
  "(nat \<Rightarrow> nat list) \<Rightarrow> hadris \<Rightarrow> (nat \<Rightarrow> nat \<Rightarrow> ('w, octets) io) \<Rightarrow> exfat_info \<Rightarrow> rstring \<Rightarrow>
     ('w, decoded_entry) io" where
  "exfat_resolve_entry upper fs read_at info path =
     (case exfat_parent_path_and_name (slashes (str_trim path)) of
        (parent, name) \<Rightarrow>
          if name = [] then io_fail InvalidInput
          else io_bind (exfat_resolve_dir_slots upper fs read_at info parent) (\<lambda>dir.
            io_bind (exfat_list_entries read_at dir) (\<lambda>es.
              case find (\<lambda>e. fat_names_equal upper (xe_name e) name) es of
                None \<Rightarrow> io_fail NotFound
              | Some e \<Rightarrow> io_return e)))"

definition exfat_locate_entry_set ::
  "(nat \<Rightarrow> nat list) \<Rightarrow> hadris \<Rightarrow> (nat \<Rightarrow> nat \<Rightarrow> ('w, octets) io) \<Rightarrow> exfat_info \<Rightarrow> rstring \<Rightarrow>
     entry_identity \<Rightarrow> ('w, dir_slots \<times> nat) io" where
  "exfat_locate_entry_set upper fs read_at info entry_path want =
     io_bind (exfat_resolve_dir_slots upper fs read_at info (fst (exfat_parent_path_and_name entry_path)))
       (\<lambda>dir. io_bind (exfat_find_entry_set read_at dir want) (\<lambda>got.
          case got of
            Some slot \<Rightarrow> io_return (dir, slot)
          | None \<Rightarrow> io_fail InvalidData))"

subsection \<open>The directory as a list of slots\<close>

definition slot_at :: "dir_slots \<Rightarrow> nat \<Rightarrow> nat" where
  "slot_at dir i =
     ds_cluster_offsets dir ! (i div ds_slots_per_cluster dir) + i mod ds_slots_per_cluster dir * SLOT_BYTES"

definition dir_stream :: "(nat \<Rightarrow> u8) \<Rightarrow> dir_slots \<Rightarrow> octets list" where
  "dir_stream f dir = map (\<lambda>i. bytes_at f (slot_at dir i) SLOT_BYTES) [0 ..< slot_count dir]"

lemma length_dir_stream [simp]: "length (dir_stream f dir) = slot_count dir"
  by (simp add: dir_stream_def)

lemma nth_dir_stream [simp]:
  "i < slot_count dir \<Longrightarrow> dir_stream f dir ! i = bytes_at f (slot_at dir i) SLOT_BYTES"
  by (simp add: dir_stream_def)

lemma slot_offset_in: "i < slot_count dir \<Longrightarrow> slot_offset dir i = Inr (slot_at dir i)"
  by (simp add: slot_offset_def slot_at_def slot_count_def get_at_def less_mult_imp_div_less)

lemma slot_offset_out:
  "0 < ds_slots_per_cluster dir \<Longrightarrow> slot_count dir \<le> i \<Longrightarrow> slot_offset dir i = Inl InvalidData"
  by (simp add: slot_offset_def slot_count_def get_at_def div_less_iff_less_mult flip: not_less)

text \<open>What the scans compute, as functions of the slots from where they look.\<close>

fun collect_units :: "nat \<Rightarrow> octets list \<Rightarrow> u16 list option" where
  "collect_units n [] = (if n = 0 then Some [] else None)"
| "collect_units n (e # es) =
     (if n = 0 then Some []
      else if slot_type e \<noteq> EXFAT_ENTRY_FILE_NAME then None
      else
        let part = take n (units16 (drop 2 e)) in
        map_option ((@) part) (collect_units (n - length part) es))"

definition set_size :: "octets list \<Rightarrow> nat option" where
  "set_size ss =
     (let secondaries = unat (ss ! 0 ! 1) in
      if slot_type (ss ! 0) \<noteq> EXFAT_ENTRY_FILE_DIRECTORY \<or> secondaries < 2 \<or> 18 < secondaries \<or>
        length ss \<le> secondaries \<or> slot_type (ss ! 1) \<noteq> EXFAT_ENTRY_STREAM_EXT
      then None else Some secondaries)"

definition decode_slots :: "octets list \<Rightarrow> (decoded_entry \<times> nat) option" where
  "decode_slots ss =
     (case set_size ss of
        None \<Rightarrow> None
      | Some secondaries \<Rightarrow>
          map_option (\<lambda>units. (make_entry (ss ! 0) (ss ! 1) units, secondaries))
            (collect_units (unat (ss ! 1 ! 3)) (take (secondaries - 1) (drop 2 ss))))"

function entries_of :: "octets list \<Rightarrow> decoded_entry list" where
  "entries_of ss =
     (if ss = [] \<or> slot_type (ss ! 0) = END_OF_DIRECTORY then []
      else if \<not> in_use (ss ! 0) then entries_of (drop 1 ss)
      else case decode_slots ss of
        Some (entry, secondaries) \<Rightarrow> entry # entries_of (drop (1 + secondaries) ss)
      | None \<Rightarrow> entries_of (drop 1 ss))"
  by pat_completeness auto
termination by (relation "measure length") auto

declare entries_of.simps [simp del]

fun match_units :: "u16 list \<Rightarrow> octets list \<Rightarrow> bool" where
  "match_units name [] = (name = [])"
| "match_units name (e # es) =
     (name = [] \<or>
      slot_type e = EXFAT_ENTRY_FILE_NAME \<and>
      (let part = take (length name) (units16 (drop 2 e)) in
       part = take (length part) name \<and> match_units (drop (length part) name) es))"

definition set_matches :: "entry_identity \<Rightarrow> octets list \<Rightarrow> nat \<Rightarrow> bool" where
  "set_matches want ss secondaries \<longleftrightarrow>
     identity_fields want (ss ! 0) (ss ! 1) \<and>
     match_units (encode_utf16 (id_name want)) (take (secondaries - 1) (drop 2 ss))"

function find_in :: "entry_identity \<Rightarrow> octets list \<Rightarrow> nat option" where
  "find_in want ss =
     (if ss = [] \<or> slot_type (ss ! 0) = END_OF_DIRECTORY then None
      else case set_size ss of
        None \<Rightarrow> map_option Suc (find_in want (drop 1 ss))
      | Some secondaries \<Rightarrow>
          if set_matches want ss secondaries then Some 0
          else map_option ((+) (1 + secondaries)) (find_in want (drop (1 + secondaries) ss)))"
  by pat_completeness auto
termination by (relation "measure (\<lambda>(want, ss). length ss)") auto

declare find_in.simps [simp del]

text \<open>A free run lies in the directory, holds no slot in use and none of the skipped ones, and does
  not follow a slot that could have begun it.\<close>

definition free_slot :: "octets list \<Rightarrow> nat \<times> nat \<Rightarrow> nat \<Rightarrow> bool" where
  "free_slot ss skip s \<longleftrightarrow> \<not> (fst skip \<le> s \<and> s < snd skip) \<and> \<not> in_use (ss ! s)"

definition free_run :: "octets list \<Rightarrow> nat \<Rightarrow> nat \<times> nat \<Rightarrow> nat \<Rightarrow> bool" where
  "free_run ss needed skip r \<longleftrightarrow>
     r + max needed 1 \<le> length ss \<and> (\<forall>s. r \<le> s \<and> s < r + max needed 1 \<longrightarrow> free_slot ss skip s) \<and>
     (0 < r \<longrightarrow> \<not> free_slot ss skip (r - 1))"

locale slot_source =
  fixes ok :: "'s \<Rightarrow> bool"
    and view :: "'s \<Rightarrow> 'c"
    and slot :: "nat \<Rightarrow> ('s, octets) io"
    and v :: 'c
    and ss :: "octets list"
  assumes slot_reads: "ok w \<Longrightarrow> view w = v \<Longrightarrow> reads ok view w (slot i) (\<lambda>s. i < length ss \<longrightarrow> s = ss ! i)"
begin

lemma slot_bind:
  assumes "ok w" "view w = v" "i < length ss"
    and "\<And>w'. ok w' \<Longrightarrow> view w' = v \<Longrightarrow> reads ok view w' (f (ss ! i)) P"
  shows "reads ok view w (io_bind (slot i) f) P"
  by (rule reads_bind [OF slot_reads [OF assms(1,2)]]) (use assms in auto)

lemma map_option_append [simp]:
  "map_option ((@) a) (map_option ((@) b) o') = map_option ((@) (a @ b)) o'"
  "map_option ((@) []) o' = o'"
  by (cases o'; simp)+

lemma map_option_Suc: "map_option Suc o' = map_option ((+) (Suc 0)) o'"
  by (cases o') simp_all

lemma map_option_plus [simp]:
  "map_option ((+) (a :: nat)) (map_option ((+) b) o') = map_option ((+) (a + b)) o'"
  "map_option ((+) (0 :: nat)) o' = o'"
  by (cases o'; simp)+

lemma name_units_reads:
  assumes "ok w" "view w = v" "last_slot < length ss" "length units \<le> n" "s \<le> last_slot + 1"
  shows "reads ok view w (name_units slot s last_slot n units)
    (\<lambda>r. (case r of None \<Rightarrow> None | Some us \<Rightarrow> if length us = n then Some us else None) =
       map_option ((@) units) (collect_units (n - length units) (take (last_slot + 1 - s) (drop s ss))))"
  using assms
proof (induction "last_slot + 1 - s" arbitrary: s units w rule: less_induct)
  case less
  show ?case
  proof (cases "last_slot < s \<or> n \<le> length units")
    case True
    then have "name_units slot s last_slot n units = io_return (Some units)"
      by (subst name_units.simps) simp
    with True less.prems show ?thesis
      by (cases "take (last_slot + 1 - s) (drop s ss)") (auto intro!: reads_return)
  next
    case False
    then have s: "s < length ss" "s \<le> last_slot" using less.prems(3) by auto
    let ?part = "take (n - length units) (units16 (drop 2 (ss ! s)))"
    have drops: "take (last_slot + 1 - s) (drop s ss) = ss ! s # take (last_slot + 1 - (s + 1)) (drop (s + 1) ss)"
      using s by (simp add: Cons_nth_drop_Suc [symmetric] Suc_diff_le)
    have "reads ok view w (io_bind (slot s) (\<lambda>entry.
        if slot_type entry \<noteq> EXFAT_ENTRY_FILE_NAME then io_return None
        else name_units slot (s + 1) last_slot n
          (units @ take (n - length units) (units16 (drop 2 entry)))))
      (\<lambda>r. (case r of None \<Rightarrow> None | Some us \<Rightarrow> if length us = n then Some us else None) =
         map_option ((@) units) (collect_units (n - length units) (take (last_slot + 1 - s) (drop s ss))))"
    proof (rule slot_bind [OF less.prems(1,2) s(1)], intro reads_if reads_return)
      fix w' assume w': "ok w'" "view w' = v" and "\<not> slot_type (ss ! s) \<noteq> EXFAT_ENTRY_FILE_NAME"
      moreover have "reads ok view w' (name_units slot (s + 1) last_slot n (units @ ?part))
        (\<lambda>r. (case r of None \<Rightarrow> None | Some us \<Rightarrow> if length us = n then Some us else None) =
          map_option ((@) (units @ ?part)) (collect_units (n - length (units @ ?part))
            (take (last_slot + 1 - (s + 1)) (drop (s + 1) ss))))"
        by (rule less.hyps) (use w' less.prems s in auto)
      ultimately show "reads ok view w' (name_units slot (s + 1) last_slot n (units @ ?part))
        (\<lambda>r. (case r of None \<Rightarrow> None | Some us \<Rightarrow> if length us = n then Some us else None) =
          map_option ((@) units) (collect_units (n - length units) (take (last_slot + 1 - s) (drop s ss))))"
        using False
        by (elim reads_mono) (auto simp: drops [simplified] Let_def diff_diff_left)
    qed (use False in \<open>simp_all add: drops [simplified]\<close>)
    with False show ?thesis by (subst name_units.simps) simp
  qed
qed

lemma decode_reads:
  assumes "ok w" "view w = v" "i < length ss"
  shows "reads ok view w (exfat_decode_entry_set slot i (length ss)) (\<lambda>r. r = decode_slots (drop i ss))"
  unfolding exfat_decode_entry_set_def Let_def
proof (rule slot_bind [OF assms], intro reads_if reads_return)
  let ?sec = "unat (ss ! i ! 1)"
  fix w' assume w': "ok w'" "view w' = v"
    and type_ok: "\<not> slot_type (ss ! i) \<noteq> EXFAT_ENTRY_FILE_DIRECTORY"
    and count: "\<not> (?sec < 2 \<or> 18 < ?sec \<or> length ss \<le> i + ?sec)"
  then have "i + 1 < length ss" by simp
  then show "reads ok view w' (io_bind (slot (i + 1)) (\<lambda>stream.
      if slot_type stream \<noteq> EXFAT_ENTRY_STREAM_EXT then io_return None
      else io_bind (name_units slot (i + 2) (i + ?sec) (unat (stream ! 3)) []) (\<lambda>got.
        case got of None \<Rightarrow> io_return None
        | Some units \<Rightarrow> if length units \<noteq> unat (stream ! 3) then io_return None
            else io_return (Some (make_entry (ss ! i) stream units, ?sec)))))
    (\<lambda>r. r = decode_slots (drop i ss))"
  proof (rule slot_bind [OF w'], intro reads_if reads_return)
    let ?n = "unat (ss ! (i + 1) ! 3)"
    fix w'' assume w'': "ok w''" "view w'' = v"
      and stream: "\<not> slot_type (ss ! (i + 1)) \<noteq> EXFAT_ENTRY_STREAM_EXT"
    have size: "set_size (drop i ss) = Some ?sec"
      using type_ok count stream assms(3) by (auto simp: set_size_def Let_def)
    define c where "c = collect_units ?n (take (?sec - 1) (drop 2 (drop i ss)))"
    have dec: "decode_slots (drop i ss) =
        map_option (\<lambda>units. (make_entry (ss ! i) (ss ! (i + 1)) units, ?sec)) c"
      using assms(3) by (simp add: decode_slots_def size c_def)
    have "i + ?sec + 1 - (i + 2) = ?sec - 1" "drop (i + 2) ss = drop 2 (drop i ss)" by simp_all
    then have "reads ok view w'' (name_units slot (i + 2) (i + ?sec) ?n [])
      (\<lambda>r. (case r of None \<Rightarrow> None | Some us \<Rightarrow> if length us = ?n then Some us else None) = c)"
      using name_units_reads [OF w'', of "i + ?sec" "[]" ?n "i + 2"] count
      by (simp add: c_def)
    then show "reads ok view w'' (io_bind (name_units slot (i + 2) (i + ?sec) ?n []) (\<lambda>got.
        case got of None \<Rightarrow> io_return None
        | Some units \<Rightarrow> if length units \<noteq> ?n then io_return None
            else io_return (Some (make_entry (ss ! i) (ss ! (i + 1)) units, ?sec))))
      (\<lambda>r. r = decode_slots (drop i ss))"
    proof (rule reads_bind)
      fix got and w3
      assume "ok w3" "(case got of None \<Rightarrow> None | Some us \<Rightarrow> if length us = ?n then Some us else None) = c"
      then show "reads ok view w3 (case got of None \<Rightarrow> io_return None
          | Some units \<Rightarrow> if length units \<noteq> ?n then io_return None
              else io_return (Some (make_entry (ss ! i) (ss ! (i + 1)) units, ?sec)))
        (\<lambda>r. r = decode_slots (drop i ss))"
        unfolding dec by (cases got) (auto intro!: reads_return reads_if split: if_splits)
    qed
  qed (use type_ok count assms(3) in \<open>auto simp: decode_slots_def set_size_def Let_def\<close>)
qed (use assms(3) in \<open>auto simp: decode_slots_def set_size_def Let_def\<close>)

lemma list_from_reads:
  assumes "ok w" "view w = v"
  shows "reads ok view w (list_from slot (length ss) i out) (\<lambda>r. r = out @ entries_of (drop i ss))"
  using assms
proof (induction "length ss - i" arbitrary: i out w rule: less_induct)
  case less
  show ?case
  proof (cases "length ss \<le> i")
    case True
    with less.prems show ?thesis
      by (subst list_from.simps) (auto simp: entries_of.simps intro!: reads_return)
  next
    case False
    then have i: "i < length ss" by simp
    have fst': "drop i ss \<noteq> []" "drop i ss ! 0 = ss ! i" using i by simp_all
    have go: "reads ok view w' (list_from slot (length ss) (i + Suc k) out') (\<lambda>r. r = out @ es)"
      if "ok w'" "view w' = v" "out' @ entries_of (drop (i + Suc k) ss) = out @ es" for w' out' es k
      using less.hyps [of "i + Suc k" w' out'] i that by simp
    have "reads ok view w (io_bind (slot i) (\<lambda>primary.
        if slot_type primary = END_OF_DIRECTORY then io_return out
        else if \<not> in_use primary then list_from slot (length ss) (i + 1) out
        else io_bind (exfat_decode_entry_set slot i (length ss)) (\<lambda>got.
          case got of
            Some (entry, secondaries) \<Rightarrow> list_from slot (length ss) (i + 1 + secondaries) (out @ [entry])
          | None \<Rightarrow> list_from slot (length ss) (i + 1) out)))
      (\<lambda>r. r = out @ entries_of (drop i ss))"
    proof (rule slot_bind [OF less.prems i], intro reads_if reads_return reads_bind [OF decode_reads [OF _ _ i]])
      fix w' assume w': "ok w'" "view w' = v" and ty: "slot_type (ss ! i) \<noteq> END_OF_DIRECTORY"
      show "reads ok view w' (list_from slot (length ss) (i + 1) out) (\<lambda>r. r = out @ entries_of (drop i ss))"
        if "\<not> in_use (ss ! i)"
        using go [OF w', of out 0 "entries_of (drop i ss)"] fst' ty that
        by (simp add: entries_of.simps [of "drop i ss"])
      fix got w'' assume "ok w''" "view w'' = view w'" and got: "got = decode_slots (drop i ss)"
        and used: "\<not> \<not> in_use (ss ! i)"
      with w' have w'': "ok w''" "view w'' = v" by simp_all
      show "reads ok view w'' (case got of
            Some (entry, secondaries) \<Rightarrow> list_from slot (length ss) (i + 1 + secondaries) (out @ [entry])
          | None \<Rightarrow> list_from slot (length ss) (i + 1) out) (\<lambda>r. r = out @ entries_of (drop i ss))"
      proof (cases got)
        case None
        with go [OF w'', of out 0 "entries_of (drop i ss)"] fst' ty used got show ?thesis
          by (simp add: entries_of.simps [of "drop i ss"])
      next
        case (Some es)
        obtain e k where es: "es = (e, k)" by fastforce
        have "entries_of (drop i ss) = e # entries_of (drop (i + Suc k) ss)"
          using fst' ty used got [symmetric] Some es by (simp add: entries_of.simps [of "drop i ss"] add.commute)
        with go [OF w'', of "out @ [e]" k "entries_of (drop i ss)"] Some es show ?thesis by simp
      qed
    qed (use less.prems fst' in \<open>simp_all add: entries_of.simps [of "drop i ss"]\<close>)
    with i show ?thesis by (subst list_from.simps) simp
  qed
qed

lemma match_name_reads:
  assumes "ok w" "view w = v" "last_slot < length ss" "units \<le> length name" "s \<le> last_slot + 1"
  shows "reads ok view w (match_name slot s last_slot name units)
    (\<lambda>r. r = match_units (drop units name) (take (last_slot + 1 - s) (drop s ss)))"
  using assms
proof (induction "last_slot + 1 - s" arbitrary: s units w rule: less_induct)
  case less
  show ?case
  proof (cases "length name \<le> units \<or> last_slot < s")
    case True
    then have "match_name slot s last_slot name units = io_return (length name \<le> units)"
      by (subst match_name.simps) auto
    with True less.prems show ?thesis
      by (cases "take (last_slot + 1 - s) (drop s ss)") (auto intro!: reads_return)
  next
    case False
    then have s: "s < length ss" "s \<le> last_slot" using less.prems(3) by auto
    let ?part = "\<lambda>e. take (length name - units) (units16 (drop 2 e))"
    have drops: "take (last_slot + 1 - s) (drop s ss) = ss ! s # take (last_slot + 1 - (s + 1)) (drop (s + 1) ss)"
      using s by (simp add: Cons_nth_drop_Suc [symmetric] Suc_diff_le)
    have "reads ok view w (io_bind (slot s) (\<lambda>entry.
        if slot_type entry \<noteq> EXFAT_ENTRY_FILE_NAME then io_return False
        else if ?part entry = take (length (?part entry)) (drop units name)
          then match_name slot (s + 1) last_slot name (units + length (?part entry))
          else io_return False))
      (\<lambda>r. r = match_units (drop units name) (take (last_slot + 1 - s) (drop s ss)))"
    proof (rule slot_bind [OF less.prems(1,2) s(1)], intro reads_if reads_return)
      fix w' assume w': "ok w'" "view w' = v" and ty: "\<not> slot_type (ss ! s) \<noteq> EXFAT_ENTRY_FILE_NAME"
        and same: "?part (ss ! s) = take (length (?part (ss ! s))) (drop units name)"
      have "reads ok view w' (match_name slot (s + 1) last_slot name (units + length (?part (ss ! s))))
        (\<lambda>r. r = match_units (drop (units + length (?part (ss ! s))) name)
            (take (last_slot + 1 - (s + 1)) (drop (s + 1) ss)))"
        by (rule less.hyps) (use w' less.prems s False in auto)
      then show "reads ok view w' (match_name slot (s + 1) last_slot name (units + length (?part (ss ! s))))
        (\<lambda>r. r = match_units (drop units name) (take (last_slot + 1 - s) (drop s ss)))"
        using False ty same
        by (elim reads_mono) (auto simp: drops [simplified] Let_def add.commute)
    qed (use False in \<open>auto simp: drops [simplified] Let_def\<close>)
    with False show ?thesis
      by (subst match_name.simps) (simp only: Let_def de_Morgan_disj if_False)
  qed
qed

lemma find_from_reads:
  assumes "ok w" "view w = v"
  shows "reads ok view w (find_from slot want (length ss) i)
    (\<lambda>r. r = map_option ((+) i) (find_in want (drop i ss)))"
  using assms
proof (induction "length ss - i" arbitrary: i w rule: less_induct)
  case less
  show ?case
  proof (cases "length ss \<le> i")
    case True
    with less.prems show ?thesis
      by (subst find_from.simps) (auto simp: find_in.simps intro!: reads_return)
  next
    case False
    then have i: "i < length ss" by simp
    let ?sec = "unat (ss ! i ! 1)"
    let ?P = "\<lambda>r. r = map_option ((+) i) (find_in want (drop i ss))"
    have fst': "drop i ss \<noteq> []" "drop i ss ! 0 = ss ! i" using i by simp_all
    have go: "reads ok view w' (find_from slot want (length ss) (i + Suc k)) ?P"
      if "ok w'" "view w' = v" "find_in want (drop i ss) = map_option ((+) (Suc k)) (find_in want (drop (i + Suc k) ss))"
      for w' k
      using less.hyps [of "i + Suc k" w'] i that
      by simp
    have none: "reads ok view w' (find_from slot want (length ss) (i + 1)) ?P"
      if "ok w'" "view w' = v" "slot_type (ss ! i) \<noteq> END_OF_DIRECTORY" "set_size (drop i ss) = None" for w'
      using go [of w' 0] that fst'
      by (simp add: find_in.simps [of want "drop i ss"] map_option_Suc)
    have "reads ok view w (io_bind (slot i) (\<lambda>primary.
        if slot_type primary = END_OF_DIRECTORY then io_return None
        else
          if slot_type primary \<noteq> EXFAT_ENTRY_FILE_DIRECTORY \<or> unat (primary ! 1) < 2 \<or>
            18 < unat (primary ! 1) \<or> length ss \<le> i + unat (primary ! 1)
          then find_from slot want (length ss) (i + 1)
          else io_bind (slot (i + 1)) (\<lambda>stream.
            if slot_type stream \<noteq> EXFAT_ENTRY_STREAM_EXT then find_from slot want (length ss) (i + 1)
            else io_bind
              (if identity_fields want primary stream
               then match_name slot (i + 2) (i + unat (primary ! 1)) (encode_utf16 (id_name want)) 0
               else io_return False)
              (\<lambda>matched.
                if matched then io_return (Some i)
                else find_from slot want (length ss) (i + (1 + unat (primary ! 1))))))) ?P"
    proof (rule slot_bind [OF less.prems i], intro reads_if reads_return)
      fix w' assume w': "ok w'" "view w' = v" and ty: "slot_type (ss ! i) \<noteq> END_OF_DIRECTORY"
      show "reads ok view w' (find_from slot want (length ss) (i + 1)) ?P"
        if "slot_type (ss ! i) \<noteq> EXFAT_ENTRY_FILE_DIRECTORY \<or> ?sec < 2 \<or> 18 < ?sec \<or> length ss \<le> i + ?sec"
        using that by (intro none [OF w' ty]) (auto simp: set_size_def Let_def fst')
      assume dims: "\<not> (slot_type (ss ! i) \<noteq> EXFAT_ENTRY_FILE_DIRECTORY \<or> ?sec < 2 \<or> 18 < ?sec \<or>
          length ss \<le> i + ?sec)"
      then have "i + 1 < length ss" by simp
      then show "reads ok view w' (io_bind (slot (i + 1)) (\<lambda>stream.
            if slot_type stream \<noteq> EXFAT_ENTRY_STREAM_EXT then find_from slot want (length ss) (i + 1)
            else io_bind
              (if identity_fields want (ss ! i) stream
               then match_name slot (i + 2) (i + ?sec) (encode_utf16 (id_name want)) 0
               else io_return False)
              (\<lambda>matched. if matched then io_return (Some i)
                else find_from slot want (length ss) (i + (1 + ?sec))))) ?P"
      proof (rule slot_bind [OF w'], intro reads_if)
        fix w'' assume w'': "ok w''" "view w'' = v"
        show "reads ok view w'' (find_from slot want (length ss) (i + 1)) ?P"
          if "slot_type (ss ! (i + 1)) \<noteq> EXFAT_ENTRY_STREAM_EXT"
          using that \<open>i + 1 < length ss\<close> by (intro none [OF w'' ty]) (auto simp: set_size_def Let_def)
        assume "\<not> slot_type (ss ! (i + 1)) \<noteq> EXFAT_ENTRY_STREAM_EXT"
        with dims i have size: "set_size (drop i ss) = Some ?sec" by (auto simp: set_size_def Let_def)
        have "i + ?sec + 1 - (i + 2) = ?sec - 1" "drop (i + 2) ss = drop 2 (drop i ss)"
          "drop i ss ! 1 = ss ! (i + 1)" using i by simp_all
        then have "reads ok view w''
            (if identity_fields want (ss ! i) (ss ! (i + 1))
             then match_name slot (i + 2) (i + ?sec) (encode_utf16 (id_name want)) 0
             else io_return False) (\<lambda>r. r = set_matches want (drop i ss) ?sec)"
          using match_name_reads [OF w'', of "i + ?sec" 0 "encode_utf16 (id_name want)" "i + 2"] dims
          by (auto simp: set_matches_def fst' w'' intro!: reads_return)
        then show "reads ok view w'' (io_bind
            (if identity_fields want (ss ! i) (ss ! (i + 1))
             then match_name slot (i + 2) (i + ?sec) (encode_utf16 (id_name want)) 0
             else io_return False)
            (\<lambda>matched. if matched then io_return (Some i)
              else find_from slot want (length ss) (i + (1 + ?sec)))) ?P"
        proof (rule reads_bind, intro reads_if reads_return)
          fix matched w3 assume w3: "ok w3" "view w3 = view w''" and m: "matched = set_matches want (drop i ss) ?sec"
          show "ok w3" by (rule w3)
          show "Some i = map_option ((+) i) (find_in want (drop i ss))" if matched
            using that m size ty fst' by (simp add: find_in.simps [of want "drop i ss"])
          show "reads ok view w3 (find_from slot want (length ss) (i + (1 + ?sec))) ?P" if "\<not> matched"
          proof -
            have "find_in want (drop i ss) = map_option ((+) (Suc ?sec)) (find_in want (drop (i + Suc ?sec) ss))"
              using that m size ty fst' by (simp add: find_in.simps [of want "drop i ss"] add.commute)
            with go [of w3 ?sec] w3 w'' show ?thesis by simp
          qed
        qed
      qed
    qed (use less.prems fst' in \<open>simp_all add: find_in.simps [of want "drop i ss"]\<close>)
    with i show ?thesis by (subst find_from.simps) (simp only: Let_def not_less [symmetric] not_True_eq_False if_False)
  qed
qed

lemma free_run_from_reads:
  assumes "ok w" "view w = v" "run_len \<le> s" "run_len < max needed 1"
    and "run_len = 0 \<or> run_start + run_len = s"
    and "\<forall>q. s - run_len \<le> q \<and> q < s \<longrightarrow> free_slot ss skip q"
    and "run_len < s \<longrightarrow> \<not> free_slot ss skip (s - run_len - 1)"
  shows "reads ok view w (free_run_from slot (length ss) needed skip s run_start run_len) (free_run ss needed skip)"
  using assms
proof (induction "length ss - s" arbitrary: s run_start run_len w rule: less_induct)
  case less
  show ?case
  proof (cases "length ss \<le> s")
    case True
    with less.prems show ?thesis by (subst free_run_from.simps) (simp add: reads_intro)
  next
    case False
    then have s: "s < length ss" by simp
    let ?start = "if run_len = 0 then s else run_start"
    have is_free: "reads ok view w
        (if fst skip \<le> s \<and> s < snd skip then io_return False
         else io_bind (slot s) (\<lambda>entry. io_return (\<not> in_use entry))) (\<lambda>b. b = free_slot ss skip s)"
    proof (intro reads_if reads_return)
      show "reads ok view w (io_bind (slot s) (\<lambda>entry. io_return (\<not> in_use entry))) (\<lambda>b. b = free_slot ss skip s)"
        if "\<not> (fst skip \<le> s \<and> s < snd skip)"
        by (rule slot_bind [OF less.prems(1,2) s], rule reads_return) (use that in \<open>auto simp: free_slot_def\<close>)
    qed (use less.prems in \<open>auto simp: free_slot_def\<close>)
    have start: "?start = s - run_len" using less.prems(5) by auto
    have "reads ok view w (io_bind
        (if fst skip \<le> s \<and> s < snd skip then io_return False
         else io_bind (slot s) (\<lambda>entry. io_return (\<not> in_use entry)))
        (\<lambda>is_free. if is_free then
            if needed \<le> run_len + 1 then io_return ?start
            else free_run_from slot (length ss) needed skip (s + 1) ?start (run_len + 1)
          else free_run_from slot (length ss) needed skip (s + 1) run_start 0)) (free_run ss needed skip)"
    proof (rule reads_bind [OF is_free], intro reads_if reads_return)
      fix b w' assume w': "ok w'" "view w' = view w" and b: "b = free_slot ss skip s"
      show "ok w'" by (rule w')
      show "free_run ss needed skip ?start" if b "needed \<le> run_len + 1"
      proof -
        have "max needed 1 = run_len + 1" using that(2) less.prems(4) by linarith
        moreover have "free_slot ss skip q" if "s - run_len \<le> q" "q < s + 1" for q
          using less.prems(6) that b \<open>b\<close> by (cases "q = s") auto
        ultimately show ?thesis
          using less.prems(3,7) s unfolding start free_run_def by auto
      qed
      show "reads ok view w' (free_run_from slot (length ss) needed skip (s + 1) ?start (run_len + 1))
          (free_run ss needed skip)" if "b" "\<not> needed \<le> run_len + 1"
      proof (rule less.hyps)
        show "\<forall>q. s + 1 - (run_len + 1) \<le> q \<and> q < s + 1 \<longrightarrow> free_slot ss skip q"
          using less.prems(3,6) b \<open>b\<close> by (auto simp: less_Suc_eq)
      qed (use w' less.prems that s start in auto)
      show "reads ok view w' (free_run_from slot (length ss) needed skip (s + 1) run_start 0)
          (free_run ss needed skip)" if "\<not> b"
        by (rule less.hyps) (use w' less.prems that b s in auto)
    qed
    with s show ?thesis by (subst free_run_from.simps) (simp only: Let_def not_less [symmetric] not_True_eq_False if_False)
  qed
qed

lemma slots_from_reads:
  assumes "ok w" "view w = v"
  shows "reads ok view w (slots_from slot s n) (\<lambda>es. length es = n \<and> (s + n \<le> length ss \<longrightarrow> es = take n (drop s ss)))"
  using assms
proof (induction n arbitrary: s w)
  case 0
  show ?case unfolding slots_from.simps by (rule reads_return) (use 0 in auto)
next
  case (Suc n)
  show ?case
    unfolding slots_from.simps
  proof (intro reads_bind [OF slot_reads [OF Suc.prems]] reads_bind [OF Suc.IH] reads_return)
    fix e es w' w''
    assume "s < length ss \<longrightarrow> e = ss ! s" "length es = n \<and> (s + 1 + n \<le> length ss \<longrightarrow> es = take n (drop (s + 1) ss))"
    then show "length (e # es) = Suc n \<and> (s + Suc n \<le> length ss \<longrightarrow> e # es = take (Suc n) (drop s ss))"
      by (auto simp: Cons_nth_drop_Suc [symmetric])
  qed (use Suc.prems in auto)
qed

end

subsection \<open>The slots as the volume holds them\<close>

definition chunks_hold :: "(nat \<Rightarrow> u8) \<Rightarrow> dir_slots \<Rightarrow> chunk_map \<Rightarrow> bool" where
  "chunks_hold f dir m \<longleftrightarrow>
     (\<forall>c buf. m c = Some buf \<longrightarrow>
        (\<exists>at'. slot_offset dir (c * chunk_slots dir) = Inr at' \<and>
          buf = bytes_at f at' (chunk_slots dir * SLOT_BYTES)))"

lemma chunk_slots_dvd: "chunk_slots dir dvd ds_slots_per_cluster dir"
  by (simp add: chunk_slots_def)

lemma slot_in_chunk:
  assumes "i < slot_count dir"
    and "slot_offset dir (i div chunk_slots dir * chunk_slots dir) = Inr at'"
  shows "slot_at dir i = at' + i mod chunk_slots dir * SLOT_BYTES"
    and "i mod chunk_slots dir * SLOT_BYTES + SLOT_BYTES \<le> chunk_slots dir * SLOT_BYTES"
proof -
  let ?k = "chunk_slots dir" and ?c = "ds_slots_per_cluster dir"
  have pos: "0 < ?c" using assms(1) by (auto simp: slot_count_def intro: gr0I)
  from chunk_slots_dvd [of dir] obtain m where m: "?c = ?k * m" by (rule dvdE)
  with pos have k: "0 < ?k" by (auto intro: gr0I)
  have i: "i = i div ?k * ?k + i mod ?k" by simp
  have base: "i div ?k * ?k < slot_count dir" using assms(1) by (meson div_times_less_eq_dividend le_less_trans)
  have "i div ?c = i div ?k * ?k div ?c" "i mod ?c = i div ?k * ?k mod ?c + i mod ?k"
    using k by (simp_all add: m div_mult2_eq mod_mult2_eq)
  then show "slot_at dir i = at' + i mod ?k * SLOT_BYTES"
    using assms(2) slot_offset_in [OF base] by (simp add: slot_at_def add_mult_distrib)
  have "i mod ?k < ?k" using k by simp
  then have "(i mod ?k + 1) * SLOT_BYTES \<le> ?k * SLOT_BYTES" by (intro mult_le_mono1) simp
  then show "i mod ?k * SLOT_BYTES + SLOT_BYTES \<le> ?k * SLOT_BYTES" by simp
qed

sublocale exfat_volume \<subseteq> reader: slot_source
  "\<lambda>(m, w). ok w \<and> chunks_hold (content w) dir m" "\<lambda>(m, w). content w" "read_slot rd dir" f "dir_stream f dir"
  for dir f
proof unfold_locales
  fix cw :: "chunk_map \<times> 'w" and i
  obtain m w where cw: "cw = (m, w)" by fastforce
  assume "case cw of (m, w) \<Rightarrow> ok w \<and> chunks_hold (content w) dir m" and "(case cw of (m, w) \<Rightarrow> content w) = f"
  then have ok: "ok w" "chunks_hold (content w) dir m" "content w = f" by (simp_all add: cw)
  let ?k = "chunk_slots dir"
  let ?c = "i div ?k" and ?off = "i mod ?k * SLOT_BYTES"
  have part: "slice ?off (?off + SLOT_BYTES) (bytes_at f at' (?k * SLOT_BYTES)) = dir_stream f dir ! i"
    if "slot_offset dir (?c * ?k) = Inr at'" "i < slot_count dir" for at'
    using slot_in_chunk [OF that(2,1)] that(2) by (simp add: slice_bytes_at)
  show "reads (\<lambda>(m, w). ok w \<and> chunks_hold (content w) dir m) (\<lambda>(m, w). content w) cw (read_slot rd dir i)
      (\<lambda>s. i < length (dir_stream f dir) \<longrightarrow> s = dir_stream f dir ! i)"
  proof (cases "m ?c")
    case (Some buf)
    with ok obtain at' where "slot_offset dir (?c * ?k) = Inr at'" "buf = bytes_at f at' (?k * SLOT_BYTES)"
      by (auto simp: chunks_hold_def)
    with Some ok part show ?thesis by (auto simp: reads_def read_slot_def cw Let_def)
  next
    case None
    show ?thesis
    proof (cases "slot_offset dir (?c * ?k)")
      case (Inl e)
      with None ok show ?thesis by (simp add: reads_def read_slot_def cw Let_def)
    next
      case (Inr at')
      from rd_reads [OF ok(1), of at' "?k * SLOT_BYTES"] obtain r w' where
        r: "rd at' (?k * SLOT_BYTES) w = Some (r, w')" "ok w'" "content w' = f"
          "\<forall>bs. r = Inr bs \<longrightarrow> bs = bytes_at f at' (?k * SLOT_BYTES)"
        using ok(3) by (auto simp: reads_def)
      show ?thesis
      proof (cases r)
        case (Inl e)
        with None Inr r ok show ?thesis by (simp add: reads_def read_slot_def cw Let_def)
      next
        case got: (Inr buf)
        have "chunks_hold f dir (m(?c \<mapsto> buf))"
          using ok Inr got r(4) by (auto simp: chunks_hold_def)
        with None Inr got r ok part [OF Inr] show ?thesis
          by (auto simp: reads_def read_slot_def cw Let_def)
      qed
    qed
  qed
qed

lemma with_reader_reads:
  assumes "reads (\<lambda>(m, w). ok' w \<and> Q w m) (\<lambda>(m, w). view w) (\<lambda>_. None, w) m P"
  shows "reads ok' view w (with_reader m) P"
  using assms by (auto simp: reads_def with_reader_def)

text \<open>The directory a cluster stream is, and the walk along the folders of a path.\<close>

definition dir_of ::
  "hadris \<Rightarrow> (nat \<Rightarrow> u8) \<Rightarrow> exfat_info \<Rightarrow> u32 \<Rightarrow> bool \<Rightarrow> u64 \<Rightarrow> dir_slots \<Rightarrow> bool" where
  "dir_of fs f info first is_contiguous sz dir \<longleftrightarrow>
     SLOT_BYTES \<le> ei_bytes_per_cluster info \<and>
     (\<exists>cs. stream_clusters fs f info first is_contiguous sz cs \<and>
       dir = \<lparr>ds_cluster_offsets = map (hd_cluster_to_offset fs info) cs,
              ds_slots_per_cluster = ei_bytes_per_cluster info div SLOT_BYTES\<rparr>)"

fun walks ::
  "(nat \<Rightarrow> nat list) \<Rightarrow> hadris \<Rightarrow> (nat \<Rightarrow> u8) \<Rightarrow> exfat_info \<Rightarrow> dir_slots \<Rightarrow> rstring list \<Rightarrow> dir_slots \<Rightarrow> bool" where
  "walks upper fs f info dir [] dir' \<longleftrightarrow> dir' = dir"
| "walks upper fs f info dir (seg # segs) dir' \<longleftrightarrow>
     (\<exists>e dir1. find (\<lambda>e. fat_names_equal upper (xe_name e) seg) (entries_of (dir_stream f dir)) = Some e \<and>
        entry_is_dir e \<and>
        dir_of fs f info (xe_first_cluster e) (xe_no_fat_chain e) (xe_data_length e) dir1 \<and>
        walks upper fs f info dir1 segs dir')"

definition names_dir ::
  "(nat \<Rightarrow> nat list) \<Rightarrow> hadris \<Rightarrow> (nat \<Rightarrow> u8) \<Rightarrow> exfat_info \<Rightarrow> rstring \<Rightarrow> dir_slots \<Rightarrow> bool" where
  "names_dir upper fs f info path dir \<longleftrightarrow>
     (\<exists>root. dir_of fs f info (ei_root_cluster info) False 0 root \<and>
        walks upper fs f info root (segments (slashes (str_trim path))) dir)"

definition names_entry ::
  "(nat \<Rightarrow> nat list) \<Rightarrow> hadris \<Rightarrow> (nat \<Rightarrow> u8) \<Rightarrow> exfat_info \<Rightarrow> rstring \<Rightarrow> decoded_entry \<Rightarrow> bool" where
  "names_entry upper fs f info path e \<longleftrightarrow>
     (case exfat_parent_path_and_name (slashes (str_trim path)) of
        (parent, name) \<Rightarrow> name \<noteq> [] \<and>
          (\<exists>dir. names_dir upper fs f info parent dir \<and>
            find (\<lambda>e. fat_names_equal upper (xe_name e) name) (entries_of (dir_stream f dir)) = Some e))"

context exfat_volume
begin

lemma reader_start: "ok w \<Longrightarrow> case (\<lambda>_. None, w) of (m, w) \<Rightarrow> ok w \<and> chunks_hold (content w) dir m"
  by (simp add: chunks_hold_def)

lemma load_dir_reads:
  "ok w \<Longrightarrow> reads ok content w (load_with fs rd info first is_contiguous sz)
    (dir_of fs (content w) info first is_contiguous sz)"
  by (rule reads_mono [OF load_with_reads]) (auto simp: dir_of_def)

lemma list_entries_reads:
  assumes "ok w"
  shows "reads ok content w (exfat_list_entries rd dir) (\<lambda>es. es = entries_of (dir_stream (content w) dir))"
  unfolding exfat_list_entries_def
  using reader.list_from_reads [OF reader_start [OF assms], of "content w" dir 0 "[]"]
  by (intro with_reader_reads) simp

lemma find_entry_set_reads:
  assumes "ok w"
  shows "reads ok content w (exfat_find_entry_set rd dir want)
    (\<lambda>r. r = find_in want (dir_stream (content w) dir))"
  unfolding exfat_find_entry_set_def
  using reader.find_from_reads [OF reader_start [OF assms], of "content w" dir want 0]
  by (intro with_reader_reads) simp

lemma find_free_entry_run_reads:
  assumes "ok w"
  shows "reads ok content w (exfat_find_free_entry_run rd dir needed skip)
    (free_run (dir_stream (content w) dir) needed skip)"
  unfolding exfat_find_free_entry_run_def
  using reader.free_run_from_reads [OF reader_start [OF assms] refl, where run_len = 0 and s = 0 and
      needed = needed and run_start = 0 and skip = skip and dir = dir]
  by (intro with_reader_reads) (simp add: less_max_iff_disj)

lemma read_entry_set_reads:
  assumes "ok w" "i < slot_count dir"
  shows "reads ok content w (exfat_read_entry_set rd dir i)
    (\<lambda>r. let ss = dir_stream (content w) dir; sec = unat (ss ! i ! 1) in
       if sec < 2 \<or> 18 < sec then r = None
       else i + sec < slot_count dir \<longrightarrow> r = Some (take (sec + 1) (drop i ss)))"
proof -
  let ?ss = "dir_stream (content w) dir"
  let ?sec = "unat (?ss ! i ! 1)"
  let ?ok = "\<lambda>(m, w). ok w \<and> chunks_hold (content w) dir m" and ?view = "\<lambda>(m, w). content w"
  have "reads ?ok ?view (\<lambda>_. None, w) (io_bind (read_slot rd dir i) (\<lambda>primary.
       let secondaries = unat (primary ! 1) in
       if secondaries < 2 \<or> 18 < secondaries then io_return None
       else io_bind (slots_from (read_slot rd dir) i (secondaries + 1)) (\<lambda>entries. io_return (Some entries))))
    (\<lambda>r. let ss = ?ss; sec = unat (ss ! i ! 1) in
       if sec < 2 \<or> 18 < sec then r = None
       else i + sec < slot_count dir \<longrightarrow> r = Some (take (sec + 1) (drop i ss)))"
    unfolding Let_def
  proof (rule reader.slot_bind [OF reader_start [OF assms(1)]], simp, simp add: assms(2),
      intro reads_if reads_return)
    fix mw assume mw: "?ok mw" "?view mw = content w"
    assume dims: "\<not> (?sec < 2 \<or> 18 < ?sec)"
    show "reads ?ok ?view mw (io_bind (slots_from (read_slot rd dir) i (?sec + 1))
          (\<lambda>entries. io_return (Some entries)))
        (\<lambda>r. if ?sec < 2 \<or> 18 < ?sec then r = None
           else i + ?sec < slot_count dir \<longrightarrow> r = Some (take (?sec + 1) (drop i ?ss)))"
      by (rule reads_bind [OF reader.slots_from_reads [OF mw]], rule reads_return) (use dims in auto)
  qed auto
  then show ?thesis unfolding exfat_read_entry_set_def by (rule with_reader_reads)
qed

lemma resolve_segments_reads:
  assumes "ok w"
  shows "reads ok content w (resolve_segments upper fs rd info segs dir) (walks upper fs (content w) info dir segs)"
  using assms
proof (induction segs arbitrary: dir w)
  case Nil
  show ?case unfolding resolve_segments.simps by (rule reads_return) (use Nil in auto)
next
  case (Cons seg segs)
  show ?case
    unfolding resolve_segments.simps
  proof (rule reads_bind [OF list_entries_reads [OF Cons.prems]])
    fix es w' assume w': "ok w'" "content w' = content w" and es: "es = entries_of (dir_stream (content w) dir)"
    show "reads ok content w' (case find (\<lambda>e. fat_names_equal upper (xe_name e) seg) es of
         None \<Rightarrow> io_fail NotFound
       | Some found \<Rightarrow>
           if \<not> entry_is_dir found then io_fail InvalidInput
           else io_bind (load_with fs rd info (xe_first_cluster found) (xe_no_fat_chain found)
               (xe_data_length found)) (resolve_segments upper fs rd info segs))
      (walks upper fs (content w) info dir (seg # segs))"
    proof (cases "find (\<lambda>e. fat_names_equal upper (xe_name e) seg) es")
      case None
      with w' show ?thesis by (simp add: reads_def)
    next
      case (Some e)
      have "reads ok content w' (io_bind (load_with fs rd info (xe_first_cluster e) (xe_no_fat_chain e)
          (xe_data_length e)) (resolve_segments upper fs rd info segs))
        (walks upper fs (content w) info dir (seg # segs))" if "entry_is_dir e"
      proof (rule reads_bind [OF load_dir_reads [OF w'(1)]])
        fix dir1 w'' assume w'': "ok w''" and "content w'' = content w'"
          "dir_of fs (content w') info (xe_first_cluster e) (xe_no_fat_chain e) (xe_data_length e) dir1"
        with Some that es w'(2)
        show "reads ok content w'' (resolve_segments upper fs rd info segs dir1)
            (walks upper fs (content w) info dir (seg # segs))"
          by (intro reads_mono [OF Cons.IH [OF w'']]) auto
      qed
      with Some w' show ?thesis by (auto simp: reads_def)
    qed
  qed
qed

lemma resolve_dir_slots_reads:
  assumes "ok w"
  shows "reads ok content w (exfat_resolve_dir_slots upper fs rd info path)
    (names_dir upper fs (content w) info path)"
  unfolding exfat_resolve_dir_slots_def
proof (rule reads_bind [OF load_dir_reads [OF assms]])
  fix root w' assume w': "ok w'" and "content w' = content w" "dir_of fs (content w) info (ei_root_cluster info) False 0 root"
  then show "reads ok content w' (resolve_segments upper fs rd info (segments (slashes (str_trim path))) root)
      (names_dir upper fs (content w) info path)"
    by (intro reads_mono [OF resolve_segments_reads [OF w']]) (auto simp: names_dir_def)
qed

lemma resolve_entry_reads:
  assumes "ok w"
  shows "reads ok content w (exfat_resolve_entry upper fs rd info path) (names_entry upper fs (content w) info path)"
proof -
  obtain parent name where pn: "exfat_parent_path_and_name (slashes (str_trim path)) = (parent, name)"
    by fastforce
  have "reads ok content w (io_bind (exfat_resolve_dir_slots upper fs rd info parent) (\<lambda>dir.
      io_bind (exfat_list_entries rd dir) (\<lambda>es.
        case find (\<lambda>e. fat_names_equal upper (xe_name e) name) es of
          None \<Rightarrow> io_fail NotFound
        | Some e \<Rightarrow> io_return e))) (names_entry upper fs (content w) info path)" if "name \<noteq> []"
  proof (rule reads_bind [OF resolve_dir_slots_reads [OF assms]], rule reads_bind [OF list_entries_reads])
    fix dir w' es w''
    assume "names_dir upper fs (content w) info parent dir" "content w' = content w"
      "es = entries_of (dir_stream (content w') dir)" "ok w''" "content w'' = content w'"
    then show "reads ok content w'' (case find (\<lambda>e. fat_names_equal upper (xe_name e) name) es of
          None \<Rightarrow> io_fail NotFound
        | Some e \<Rightarrow> io_return e) (names_entry upper fs (content w) info path)"
      using that pn
      by (cases "find (\<lambda>e. fat_names_equal upper (xe_name e) name) es") (auto simp: reads_def names_entry_def)
  qed simp
  then show ?thesis using assms pn by (auto simp: exfat_resolve_entry_def intro!: reads_if reads_fail)
qed

end

end
