(* ===== verification/Exfat_Entry.thy ===== *)
theory Exfat_Entry
  imports Exfat_Slots
begin

text \<open>
  The bytes of an exFAT entry set, from \<open>crates/multi64-sc64-sd/src/partition.rs\<close>: the set of a new
  file or folder, the set of a renamed one, what deleting one turns it into, and the checksum. The
  field order and widths are those of the raw structs the source fills in, which are the layout of
  the exFAT specification (7.4, 7.6 and 7.7). A built set decodes to exactly what it was built from.
\<close>

subsection \<open>The bytes of an entry set\<close>

definition le16 :: "u16 \<Rightarrow> octets" where "le16 v = to_le 2 (unat v)"
definition le32 :: "u32 \<Rightarrow> octets" where "le32 v = to_le 4 (unat v)"
definition le64 :: "u64 \<Rightarrow> octets" where "le64 v = to_le 8 (unat v)"

lemma length_le [simp]: "length (le16 a) = 2" "length (le32 b) = 4" "length (le64 c) = 8"
  by (simp_all add: le16_def le32_def le64_def)

lemma unat_mod_self:
  "unat (a :: u8) mod 256 = unat a" "unat (b :: u16) mod 65536 = unat b"
  "unat (c :: u32) mod 4294967296 = unat c"
  "unat (d :: u64) mod 18446744073709551616 = unat d"
proof -
  have "unat a < 256" "unat b < 65536" "unat c < 4294967296" "unat d < 18446744073709551616"
    using unsigned_less [of a] unsigned_less [of b] unsigned_less [of c] unsigned_less [of d] by simp_all
  then show "unat a mod 256 = unat a" "unat b mod 65536 = unat b" "unat c mod 4294967296 = unat c"
    "unat d mod 18446744073709551616 = unat d" by simp_all
qed

lemma le_at [simp]:
  "length xs = i \<Longrightarrow> le16_at (xs @ le16 a @ ys) i = a"
  "length xs = i \<Longrightarrow> le32_at (xs @ le32 b @ ys) i = b"
  "length xs = i \<Longrightarrow> le64_at (xs @ le64 c @ ys) i = c"
  by (simp_all add: unat_mod_self le16_at_def le32_at_def le64_at_def slice_def le16_def le32_def le64_def)

text \<open>\<open>ExFatTimestamp::now().to_raw()\<close>: time stamp, its 10 ms part and the UTC offset.\<close>

type_synonym timestamp = "u32 \<times> u8 \<times> u8"

definition raw_file_entry :: "u8 \<Rightarrow> u16 \<Rightarrow> timestamp \<Rightarrow> octets" where
  "raw_file_entry secondary_count attributes now =
     (case now of (ts, ts_10ms, ts_utc) \<Rightarrow>
        [EXFAT_ENTRY_FILE_DIRECTORY, secondary_count] @ le16 0 @ le16 attributes @ le16 0 @
        le32 ts @ le32 ts @ le32 ts @ [ts_10ms, ts_10ms, ts_utc, ts_utc, ts_utc] @ replicate 7 0)"

definition raw_stream_entry :: "bool \<Rightarrow> nat \<Rightarrow> u16 \<Rightarrow> u64 \<Rightarrow> u32 \<Rightarrow> u64 \<Rightarrow> octets" where
  "raw_stream_entry contiguous name_len name_hash valid_data_length first_cluster data_length =
     [EXFAT_ENTRY_STREAM_EXT, 0x01 OR (if contiguous then 0x02 else 0), 0, word_of_nat name_len] @
     le16 name_hash @ le16 0 @ le64 valid_data_length @ le32 0 @ le32 first_cluster @ le64 data_length"

definition raw_name_entry :: "u16 list \<Rightarrow> octets" where
  "raw_name_entry chunk =
     [EXFAT_ENTRY_FILE_NAME, 0] @ splice 0 (concat (map le16 chunk)) (replicate 30 0)"

definition exfat_compute_entry_set_checksum :: "octets list \<Rightarrow> u16" where
  "exfat_compute_entry_set_checksum entries =
     fold (\<lambda>(entry_idx, entry) sum.
       fold (\<lambda>(byte_idx, byte) sum.
         if entry_idx = 0 \<and> (byte_idx = 2 \<or> byte_idx = 3) then sum else word_rotr 1 sum + ucast byte)
         (enumerate 0 entry) sum) (enumerate 0 entries) 0"

text \<open>\<open>out[0][2] = checksum & 0xff; out[0][3] = checksum >> 8\<close>.\<close>

definition with_checksum :: "octets list \<Rightarrow> octets list" where
  "with_checksum out =
     (let sum = exfat_compute_entry_set_checksum out
      in out[0 := (out ! 0)[2 := ucast (sum AND 0xFF), 3 := ucast (drop_bit 8 sum)]])"

definition name_entry_count :: "nat \<Rightarrow> nat" where
  "name_entry_count name_len = (name_len + EXFAT_CHARS_PER_NAME_ENTRY - 1) div EXFAT_CHARS_PER_NAME_ENTRY"

definition exfat_build_new_entry_set_bytes ::
  "hadris \<Rightarrow> timestamp \<Rightarrow> rstring \<Rightarrow> u16 \<Rightarrow> u32 \<Rightarrow> u64 \<Rightarrow> bool \<Rightarrow> io_kind + octets list" where
  "exfat_build_new_entry_set_bytes fs now name attributes first_cluster data_length contiguous =
     bind_result (exfat_validate_rename_name name) (\<lambda>_.
       let name_utf16 = encode_utf16 name;
           name_len = length name_utf16;
           secondary_count = word_of_nat (1 + name_entry_count name_len)
       in Inr (with_checksum
            ([raw_file_entry secondary_count attributes now,
              raw_stream_entry contiguous name_len (hd_name_hash fs name) data_length first_cluster data_length] @
             map raw_name_entry (chunks EXFAT_CHARS_PER_NAME_ENTRY name_utf16))))"

definition exfat_build_rename_entry_set_bytes ::
  "hadris \<Rightarrow> decoded_entry \<Rightarrow> rstring \<Rightarrow> io_kind + octets list" where
  "exfat_build_rename_entry_set_bytes fs entry new_name =
     bind_result (exfat_validate_rename_name new_name) (\<lambda>_.
       let name_utf16 = encode_utf16 new_name;
           name_len = length name_utf16;
           secondary_count = word_of_nat (1 + name_entry_count name_len);
           file_entry = (xe_primary entry)[1 := secondary_count, 2 := 0, 3 := 0]
       in Inr (with_checksum
            ([file_entry,
              raw_stream_entry (xe_no_fat_chain entry) name_len (hd_name_hash fs new_name)
                (xe_valid_data_length entry) (xe_first_cluster entry) (xe_data_length entry)] @
             map raw_name_entry (chunks EXFAT_CHARS_PER_NAME_ENTRY name_utf16))))"

definition DELETED_FILE :: u8 where "DELETED_FILE = 0x05"
definition EXFAT_STREAM_EXT_DELETED :: u8 where "EXFAT_STREAM_EXT_DELETED = EXFAT_ENTRY_STREAM_EXT AND NOT EXFAT_ENTRY_IN_USE"

text \<open>What \<open>exfat_finalize_deleted_entry_set\<close> turns an entry set into.\<close>

definition deleted_set :: "octets list \<Rightarrow> octets list" where
  "deleted_set entries =
     (let marked = (entries ! 0)[0 := DELETED_FILE] # map (\<lambda>e. e[0 := e ! 0 AND 0x7F]) (tl entries);
          stream = marked ! 1;
          cleared =
            (if slot_type stream = EXFAT_STREAM_EXT_DELETED
             then marked[1 := (splice 8 (replicate 24 0) stream)[1 := 0x01]] else marked)
      in with_checksum cleared)"

subsection \<open>Checksums\<close>

definition checksum_holds :: "octets list \<Rightarrow> bool" where
  "checksum_holds es \<longleftrightarrow> le16_at (es ! 0) 2 = exfat_compute_entry_set_checksum es"

lemma checksum_ignores_field:
  assumes "es \<noteq> []"
  shows "exfat_compute_entry_set_checksum (es[0 := (es ! 0)[2 := a, 3 := b]]) =
    exfat_compute_entry_set_checksum es"
proof -
  let ?g = "\<lambda>(byte_idx, byte) (sum :: u16).
      if byte_idx = 2 \<or> byte_idx = 3 then sum else word_rotr 1 sum + ucast (byte :: u8)"
  have one: "fold ?g (enumerate k (e[j := c])) s = fold ?g (enumerate k e) s"
    if "k + j = 2 \<or> k + j = 3" for k j e s and c :: u8
    using that
  proof (induction e arbitrary: j k s)
    case (Cons x xs)
    then show ?case by (cases j) auto
  qed simp
  obtain x xs where "es = x # xs" using assms by (cases es) auto
  then show ?thesis using one [of 0 3 "x[2 := a]" b] one [of 0 2 x a]
    by (simp add: exfat_compute_entry_set_checksum_def)
qed

lemma ucast_halves: "of_le [ucast (w AND 0xFF), ucast (drop_bit 8 w)] = unat (w :: u16)"
proof -
  have "w AND 0xFF = take_bit 8 w" by (simp add: take_bit_eq_mask mask_eq_exp_minus_1)
  then have "unat (ucast (w AND 0xFF) :: u8) = take_bit 8 (take_bit 8 (unat w))"
    by (simp only: unsigned_ucast_eq unsigned_take_bit_eq len_num0 len_num1 len_bit0 len_bit1) simp
  then have "unat (ucast (w AND 0xFF) :: u8) = unat w mod 256" by (simp add: take_bit_eq_mod)
  moreover have "unat (ucast (drop_bit 8 w) :: u8) = unat w div 256"
  proof -
    have w: "unat w < 65536" using unsigned_less [of w] by simp
    then have "unat w div 256 < 256" by (simp add: div_less_iff_less_mult)
    moreover have "unat (ucast (drop_bit 8 w) :: u8) = take_bit 8 (drop_bit 8 (unat w))"
      by (simp only: unsigned_ucast_eq unsigned_drop_bit_eq len_num0 len_num1 len_bit0 len_bit1)
        (use w in \<open>simp add: take_bit_nat_eq_self\<close>)
    ultimately show ?thesis by (simp add: take_bit_eq_mod drop_bit_eq_div)
  qed
  ultimately show ?thesis by simp
qed

lemma with_checksum_holds:
  assumes "es \<noteq> []" "4 \<le> length (es ! 0)"
  shows "checksum_holds (with_checksum es)"
proof -
  obtain a b c d r where e: "es ! 0 = a # b # c # d # r"
    using assms(2) by (auto simp: numeral_eq_Suc Suc_le_length_iff)
  have upd: "(a # b # c # d # r)[2 := x, 3 := y] = a # b # x # y # r" for x y
    by (simp add: numeral_eq_Suc)
  have "of_le (slice 2 4 (a # b # ucast (x AND 0xFF) # ucast (drop_bit 8 x) # r)) = unat x" for x :: u16
    using ucast_halves [of x] by (simp add: slice_def numeral_2_eq_2)
  then have "le16_at (a # b # ucast (x AND 0xFF) # ucast (drop_bit 8 x) # r) 2 = x" for x
    by (simp add: le16_at_def)
  then show ?thesis
    using checksum_ignores_field [OF assms(1)] assms(1)
    by (simp add: checksum_holds_def with_checksum_def Let_def e upd)
qed

subsection \<open>What a built entry set says\<close>

lemma units16_le16: "units16 (concat (map le16 us) @ replicate n 0) = us @ units16 (replicate n 0)"
proof (induction us)
  case (Cons u us)
  obtain a b where ab: "le16 u = [a, b]" by (simp add: le16_def numeral_2_eq_2)
  moreover have "word_of_nat (of_le (le16 u)) = u"
    using unat_mod_self(2) [of u] by (simp add: le16_def)
  ultimately show ?case using Cons by (simp del: of_le.simps)
qed simp

lemma length_concat_le16 [simp]: "length (concat (map le16 us)) = 2 * length us"
  by (induction us) simp_all

lemma raw_name_entry_units:
  assumes "length us \<le> 15"
  shows "take (length us) (units16 (drop 2 (raw_name_entry us))) = us"
proof -
  have "drop 2 (raw_name_entry us) = concat (map le16 us) @ replicate (30 - 2 * length us) 0"
    using assms by (simp add: raw_name_entry_def splice_def)
  then show ?thesis by (simp add: units16_le16)
qed

lemma raw_name_entry_type [simp]: "slot_type (raw_name_entry us) = EXFAT_ENTRY_FILE_NAME"
  by (simp add: raw_name_entry_def)

lemma length_units16: "length (units16 bs) = length bs div 2"
  by (induction bs rule: units16.induct) simp_all

lemma length_raw_name_entry [simp]: "length us \<le> 15 \<Longrightarrow> length (raw_name_entry us) = 32"
  by (simp add: raw_name_entry_def splice_def)

lemma collect_units_chunks:
  "collect_units (length us) (map raw_name_entry (chunks 15 us)) = Some us"
proof (induction "length us" arbitrary: us rule: less_induct)
  case less
  show ?case
  proof (cases "us = []")
    case True
    then show ?thesis by simp
  next
    case False
    let ?c = "take 15 us"
    have chunk: "chunks 15 us = ?c # chunks 15 (drop 15 us)"
      using False by (subst chunks.simps) simp
    have full: "length (units16 (drop 2 (raw_name_entry ?c))) = 15" by (simp add: length_units16)
    have part: "take (length us) (units16 (drop 2 (raw_name_entry ?c))) = ?c"
    proof (cases "length us \<le> 15")
      case True
      then show ?thesis using raw_name_entry_units [of us] by simp
    next
      case False
      then show ?thesis using raw_name_entry_units [of ?c] full by simp
    qed
    have "collect_units (length (drop 15 us)) (map raw_name_entry (chunks 15 (drop 15 us))) = Some (drop 15 us)"
      by (rule less) (use False in simp)
    moreover have "length us - length ?c = length (drop 15 us)" by auto
    ultimately show ?thesis
      using False by (simp add: chunk part Let_def)
  qed
qed

lemma length_chunks: "0 < n \<Longrightarrow> length (chunks n xs) = (length xs + n - 1) div n"
proof (induction n xs rule: chunks.induct)
  case (1 n xs)
  show ?case
  proof (cases "xs = []")
    case True
    with "1.prems" show ?thesis by simp
  next
    case False
    have step: "(length xs + n - 1) div n = Suc ((length xs - n + n - 1) div n)"
    proof (cases "length xs \<le> n")
      case True
      with False "1.prems" have "(length xs + n - 1) div n = 1"
        by (intro div_nat_eqI) (auto simp: Suc_le_eq simp flip: length_greater_0_conv)
      moreover have "(length xs - n + n - 1) div n = 0" using True "1.prems" by simp
      ultimately show ?thesis by simp
    next
      case more: False
      then have "length xs + n - 1 = length xs - n + n - 1 + n" using "1.prems" by simp
      then show ?thesis using "1.prems" by (simp only: div_add_self2)
    qed
    show ?thesis
      using 1 False by (subst chunks.simps) (simp add: step del: One_nat_def)
  qed
qed

lemma slice_list_update [simp]: "k < i \<or> j \<le> k \<Longrightarrow> slice i j (xs[k := v]) = slice i j xs"
  by (rule nth_equalityI) (auto simp: slice_def nth_list_update)

lemma le16_at_update [simp]: "k < i \<or> i + 2 \<le> k \<Longrightarrow> le16_at (xs[k := v]) i = le16_at xs i"
  by (simp add: le16_at_def)

definition set_ok :: "octets list \<Rightarrow> bool" where
  "set_ok es \<longleftrightarrow>
     (\<forall>s \<in> set es. length s = SLOT_BYTES \<and> in_use s \<and> slot_type s AND 0x7F \<noteq> 0) \<and>
     (\<exists>e. decode_slots es = Some (e, length es - 1))"

definition set_entry :: "octets list \<Rightarrow> decoded_entry" where
  "set_entry es = fst (the (decode_slots es))"

lemma decode_slots_append:
  assumes "decode_slots es = Some (e, length es - 1)"
  shows "decode_slots (es @ rest) = Some (e, length es - 1)"
proof -
  from assms have size: "set_size es = Some (length es - 1)"
    by (auto simp: decode_slots_def split: option.splits)
  then have len: "2 < length es" by (auto simp: set_size_def Let_def split: if_splits)
  with size have "set_size (es @ rest) = Some (length es - 1)"
    by (auto simp: set_size_def Let_def nth_append split: if_splits)
  with assms size len show ?thesis
    by (auto simp: decode_slots_def nth_append take_append)
qed

lemma entry_bytes [simp]:
  "slot_type (raw_file_entry c a t) = EXFAT_ENTRY_FILE_DIRECTORY"
  "raw_file_entry c a t ! Suc 0 = c"
  "le16_at (raw_file_entry c a t) 4 = a"
  "length (raw_file_entry c a t) = 32"
  using le_at(1) [of "[EXFAT_ENTRY_FILE_DIRECTORY, c] @ le16 0" 4 a]
  by (cases t; simp add: raw_file_entry_def)+

lemma stream_bytes [simp]:
  "slot_type (raw_stream_entry b n h v f d) = EXFAT_ENTRY_STREAM_EXT"
  "raw_stream_entry b n h v f d ! 3 = word_of_nat n"
  "(raw_stream_entry b n h v f d ! Suc 0 AND 0x02 \<noteq> 0) = b"
  "le64_at (raw_stream_entry b n h v f d) 8 = v"
  "le32_at (raw_stream_entry b n h v f d) 20 = f"
  "le64_at (raw_stream_entry b n h v f d) 24 = d"
  "length (raw_stream_entry b n h v f d) = 32"
proof -
  let ?h = "[EXFAT_ENTRY_STREAM_EXT, 0x01 OR (if b then 0x02 else 0), 0, word_of_nat n] @ le16 h @ le16 0"
  show "le64_at (raw_stream_entry b n h v f d) 8 = v"
    using le_at(3) [of ?h 8 v] by (simp add: raw_stream_entry_def)
  show "le32_at (raw_stream_entry b n h v f d) 20 = f"
    using le_at(2) [of "?h @ le64 v @ le32 0" 20 f] by (simp add: raw_stream_entry_def)
  show "le64_at (raw_stream_entry b n h v f d) 24 = d"
    using le_at(3) [of "?h @ le64 v @ le32 0 @ le32 f" 24 d "[]"] by (simp add: raw_stream_entry_def)
qed (simp_all add: raw_stream_entry_def)

lemma built_set:
  assumes "0 < length units" "length units \<le> 255"
    and "length p = 32" "slot_type p = EXFAT_ENTRY_FILE_DIRECTORY"
    and "p ! 1 = word_of_nat (1 + name_entry_count (length units))"
    and "es = with_checksum ([p, raw_stream_entry b (length units) h v f d] @
        map raw_name_entry (chunks EXFAT_CHARS_PER_NAME_ENTRY units))"
  shows "set_ok es" "length es = 2 + name_entry_count (length units)" "checksum_holds es"
    and "decode_slots es = Some (make_entry (es ! 0) (raw_stream_entry b (length units) h v f d) units, length es - 1)"
    and "\<exists>x y. es ! 0 = p[2 := x, 3 := y]"
proof -
  let ?s = "raw_stream_entry b (length units) h v f d" and ?n = "map raw_name_entry (chunks 15 units)"
  obtain x y where es: "es = p[2 := x, 3 := y] # ?s # ?n"
    using assms(6) by (auto simp: with_checksum_def Let_def EXFAT_CHARS_PER_NAME_ENTRY_def)
  have count: "length ?n = name_entry_count (length units)"
    by (simp add: length_chunks name_entry_count_def EXFAT_CHARS_PER_NAME_ENTRY_def)
  have "name_entry_count (length units) \<le> (255 + 15 - 1) div 15"
    unfolding name_entry_count_def EXFAT_CHARS_PER_NAME_ENTRY_def using assms(2) by (intro div_le_mono) simp
  then have max': "name_entry_count (length units) \<le> 17" by simp
  have min': "1 \<le> name_entry_count (length units)"
    using assms(1) by (simp add: name_entry_count_def EXFAT_CHARS_PER_NAME_ENTRY_def Suc_le_eq div_greater_zero_iff)
  have sec: "unat (p ! 1) = 1 + name_entry_count (length units)"
    using max' unfolding assms(5) unat_of_nat by simp
  have n: "unat (?s ! 3) = length units" using assms(2) by (simp add: unat_of_nat)
  show len: "length es = 2 + name_entry_count (length units)" by (simp add: es count del: length_map)
  have size: "set_size es = Some (length es - 1)"
    using assms(3,4) sec max' min' len by (simp add: set_size_def Let_def es nth_list_update)
  have "take (length es - 1 - 1) (drop 2 es) = ?n" using len count by (simp add: es)
  then show dec: "decode_slots es = Some (make_entry (es ! 0) ?s units, length es - 1)"
    using collect_units_chunks [of units] n by (simp add: decode_slots_def size) (simp add: es)
  have names: "s \<in> set ?n \<Longrightarrow> length s = 32 \<and> slot_type s = EXFAT_ENTRY_FILE_NAME" for s
    using chunks_bounds [of _ 15 units] by auto
  have used: "in_use s \<and> slot_type s AND 0x7F \<noteq> 0"
    if "slot_type s \<in> {EXFAT_ENTRY_FILE_DIRECTORY, EXFAT_ENTRY_STREAM_EXT, EXFAT_ENTRY_FILE_NAME}" for s
    using that by (auto simp: in_use_def EXFAT_ENTRY_IN_USE_def EXFAT_ENTRY_FILE_DIRECTORY_def
        EXFAT_ENTRY_STREAM_EXT_def EXFAT_ENTRY_FILE_NAME_def)
  have "length s = SLOT_BYTES \<and> in_use s \<and> slot_type s AND 0x7F \<noteq> 0" if "s \<in> set es" for s
  proof -
    from that consider "s = p[2 := x, 3 := y]" | "s = ?s" | "s \<in> set ?n" by (auto simp: es)
    then show ?thesis
      by cases (use names assms(3,4) used [of s] in \<open>auto simp: SLOT_BYTES_def nth_list_update\<close>)
  qed
  with dec show "set_ok es" by (auto simp: set_ok_def)
  show "checksum_holds es" unfolding assms(6) using assms(3) by (intro with_checksum_holds) simp_all
  show "\<exists>x y. es ! 0 = p[2 := x, 3 := y]" by (auto simp: es)
qed

lemma new_set:
  assumes "exfat_build_new_entry_set_bytes fs now name attributes first len contiguous = Inr es"
    and "list_all scalar name"
  shows "set_ok es" "length es = exfat_entry_set_len name" "checksum_holds es"
    and "decode_slots es = Some (\<lparr>xe_name = name, xe_attributes = attributes, xe_first_cluster = first,
      xe_data_length = len, xe_valid_data_length = len, xe_no_fat_chain = contiguous,
      xe_primary = es ! 0\<rparr>, length es - 1)"
proof -
  let ?u = "encode_utf16 name"
  let ?p = "raw_file_entry (word_of_nat (1 + name_entry_count (length ?u))) attributes now"
  from assms(1) obtain u where valid: "exfat_validate_rename_name name = Inr u"
    and es: "es = with_checksum ([?p, raw_stream_entry contiguous (length ?u) (hd_name_hash fs name) len first len] @
        map raw_name_entry (chunks EXFAT_CHARS_PER_NAME_ENTRY ?u))"
    by (auto simp: exfat_build_new_entry_set_bytes_def Let_def bind_result_Inr_iff)
  note built = built_set [OF valid_name(1,2) [OF valid] _ _ _ es]
  show "set_ok es" "length es = exfat_entry_set_len name" "checksum_holds es"
    using built by (simp_all add: exfat_entry_set_len_def name_entry_count_def EXFAT_CHARS_PER_NAME_ENTRY_def)
  from built(5) obtain x y where "es ! 0 = ?p[2 := x, 3 := y]" by auto
  then have "le16_at (es ! 0) 4 = attributes" by simp
  with built(4) show "decode_slots es = Some (\<lparr>xe_name = name, xe_attributes = attributes,
      xe_first_cluster = first, xe_data_length = len, xe_valid_data_length = len,
      xe_no_fat_chain = contiguous, xe_primary = es ! 0\<rparr>, length es - 1)"
    by (simp add: make_entry_def from_utf16_lossy_encode assms(2))
qed

text \<open>A rename changes the name and nothing else: the primary slot keeps every byte but the number of
  secondaries and the checksum.\<close>

lemma rename_set:
  assumes "exfat_build_rename_entry_set_bytes fs entry name = Inr es"
    and "list_all scalar name"
    and "length (xe_primary entry) = 32" "slot_type (xe_primary entry) = EXFAT_ENTRY_FILE_DIRECTORY"
    and "xe_attributes entry = le16_at (xe_primary entry) 4"
  shows "set_ok es" "length es = exfat_entry_set_len name" "checksum_holds es"
    and "decode_slots es = Some (entry\<lparr>xe_name := name, xe_primary := es ! 0\<rparr>, length es - 1)"
    and "\<forall>i. i \<notin> {1, 2, 3} \<longrightarrow> es ! 0 ! i = xe_primary entry ! i"
proof -
  let ?u = "encode_utf16 name"
  let ?p = "(xe_primary entry)[1 := word_of_nat (1 + name_entry_count (length ?u)), 2 := 0, 3 := 0]"
  let ?s = "raw_stream_entry (xe_no_fat_chain entry) (length ?u) (hd_name_hash fs name)
      (xe_valid_data_length entry) (xe_first_cluster entry) (xe_data_length entry)"
  from assms(1) obtain u where valid: "exfat_validate_rename_name name = Inr u"
    and es: "es = with_checksum ([?p, ?s] @ map raw_name_entry (chunks EXFAT_CHARS_PER_NAME_ENTRY ?u))"
    by (auto simp: exfat_build_rename_entry_set_bytes_def Let_def bind_result_Inr_iff)
  have p: "length ?p = 32" "slot_type ?p = EXFAT_ENTRY_FILE_DIRECTORY"
    "?p ! 1 = word_of_nat (1 + name_entry_count (length ?u))"
    using assms(3,4) by simp_all
  note built = built_set [OF valid_name(1,2) [OF valid] p es]
  show "set_ok es" "length es = exfat_entry_set_len name" "checksum_holds es"
    using built by (simp_all add: exfat_entry_set_len_def name_entry_count_def EXFAT_CHARS_PER_NAME_ENTRY_def)
  from built(5) obtain x y where first: "es ! 0 = ?p[2 := x, 3 := y]" by auto
  then have "le16_at (es ! 0) 4 = xe_attributes entry"
    by (simp add: assms(5))
  with built(4) show "decode_slots es = Some (entry\<lparr>xe_name := name, xe_primary := es ! 0\<rparr>, length es - 1)"
    by (simp add: make_entry_def from_utf16_lossy_encode assms(2))
  show "\<forall>i. i \<notin> {1, 2, 3} \<longrightarrow> es ! 0 ! i = xe_primary entry ! i"
    by (simp add: first)
qed

lemma deleted_set_free:
  assumes "\<forall>s \<in> set es. length s = SLOT_BYTES \<and> slot_type s AND 0x7F \<noteq> 0" and "2 \<le> length es"
  shows "length (deleted_set es) = length es"
    and "\<forall>s \<in> set (deleted_set es). length s = SLOT_BYTES \<and> \<not> in_use s \<and> slot_type s \<noteq> END_OF_DIRECTORY"
    and "checksum_holds (deleted_set es)"
proof -
  obtain p s r where es: "es = p # s # r"
    using assms(2) by (auto simp: numeral_2_eq_2 Suc_le_length_iff)
  let ?m = "\<lambda>e :: octets. e[0 := e ! 0 AND 0x7F]"
  let ?s = "if slot_type (?m s) = EXFAT_STREAM_EXT_DELETED
      then (splice 8 (replicate 24 0) (?m s))[1 := 0x01] else ?m s"
  have del: "deleted_set es = with_checksum (p[0 := DELETED_FILE] # ?s # map ?m r)"
    by (simp add: deleted_set_def es Let_def)
  then obtain x y where d: "deleted_set es = p[0 := DELETED_FILE, 2 := x, 3 := y] # ?s # map ?m r"
    by (auto simp: with_checksum_def Let_def)
  then show "length (deleted_set es) = length es" by (simp add: es)
  have cleared: "length (?m e) = SLOT_BYTES \<and> \<not> in_use (?m e) \<and> slot_type (?m e) \<noteq> END_OF_DIRECTORY"
    if "e \<in> set es" for e
  proof -
    have "(e ! 0 AND 0x7F) AND 0x80 = e ! 0 AND (0x7F AND 0x80)" by (simp only: and.assoc)
    also have "\<dots> = (0 :: u8)" by simp
    finally have "(e ! 0 AND 0x7F) AND 0x80 = (0 :: u8)" .
    with assms(1) that show ?thesis
      by (auto simp: in_use_def EXFAT_ENTRY_IN_USE_def END_OF_DIRECTORY_def SLOT_BYTES_def nth_list_update)
  qed
  have stream: "length ?s = SLOT_BYTES \<and> \<not> in_use ?s \<and> slot_type ?s \<noteq> END_OF_DIRECTORY"
    using cleared [of s] by (auto simp: es SLOT_BYTES_def in_use_def nth_splice)
  have "\<not> in_use (p[0 := DELETED_FILE, 2 := x, 3 := y])"
      "slot_type (p[0 := DELETED_FILE, 2 := x, 3 := y]) \<noteq> END_OF_DIRECTORY"
    using assms(1) by (auto simp: es in_use_def DELETED_FILE_def EXFAT_ENTRY_IN_USE_def END_OF_DIRECTORY_def
        SLOT_BYTES_def nth_list_update)
  moreover have "length (p[0 := DELETED_FILE, 2 := x, 3 := y]) = SLOT_BYTES" using assms(1) by (simp add: es)
  ultimately show "\<forall>s \<in> set (deleted_set es). length s = SLOT_BYTES \<and> \<not> in_use s \<and> slot_type s \<noteq> END_OF_DIRECTORY"
    unfolding d using stream cleared by (simp add: es)
  show "checksum_holds (deleted_set es)"
    unfolding del using assms(1) by (intro with_checksum_holds) (simp_all add: es SLOT_BYTES_def)
qed

end
