(* ===== verification/Exfat_Dir.thy ===== *)
theory Exfat_Dir
  imports Exfat_Entry
begin

text \<open>
  The abstract view of an exFAT directory: a sequence of entry sets, other entries and free slots,
  then end markers. What the scans of \<open>Exfat_Slots\<close> return is read off that sequence, and putting an
  entry set into a free run, or replacing a stretch of the sequence, changes it there only.
\<close>

subsection \<open>A directory as a sequence of items\<close>

datatype dir_item = FreeSlot octets | OtherSlot octets | EntrySet "octets list"

fun item_slots :: "dir_item \<Rightarrow> octets list" where
  "item_slots (FreeSlot s) = [s]"
| "item_slots (OtherSlot s) = [s]"
| "item_slots (EntrySet es) = es"

fun item_ok :: "dir_item \<Rightarrow> bool" where
  "item_ok (FreeSlot s) \<longleftrightarrow> length s = SLOT_BYTES \<and> \<not> in_use s \<and> slot_type s \<noteq> END_OF_DIRECTORY"
| "item_ok (OtherSlot s) \<longleftrightarrow>
     length s = SLOT_BYTES \<and> in_use s \<and> slot_type s \<noteq> EXFAT_ENTRY_FILE_DIRECTORY"
| "item_ok (EntrySet es) \<longleftrightarrow> set_ok es"

fun item_entries :: "dir_item \<Rightarrow> decoded_entry list" where
  "item_entries (EntrySet es) = [set_entry es]"
| "item_entries i = []"

definition slots_of :: "dir_item list \<Rightarrow> octets list" where
  "slots_of items = concat (map item_slots items)"

definition listing :: "dir_item list \<Rightarrow> decoded_entry list" where
  "listing items = concat (map item_entries items)"

text \<open>What the exFAT specification asks of a directory: whole entry sets, single other entries, slots
  free for use, and after the end marker only end markers.\<close>

definition layout :: "dir_item list \<Rightarrow> octets list \<Rightarrow> octets list \<Rightarrow> bool" where
  "layout items tail ss \<longleftrightarrow>
     ss = slots_of items @ tail \<and> (\<forall>i \<in> set items. item_ok i) \<and>
     (\<forall>s \<in> set tail. length s = SLOT_BYTES \<and> slot_type s = END_OF_DIRECTORY)"

lemma slots_of_simps [simp]:
  "slots_of [] = []" "slots_of (i # items) = item_slots i @ slots_of items"
  "slots_of (xs @ ys) = slots_of xs @ slots_of ys"
  by (simp_all add: slots_of_def)

lemma listing_simps [simp]:
  "listing [] = []" "listing (i # items) = item_entries i @ listing items"
  "listing (xs @ ys) = listing xs @ listing ys"
  by (simp_all add: listing_def)

lemma free_items [simp]: "slots_of (map FreeSlot ss) = ss" "listing (map FreeSlot ss) = []"
  by (induction ss) simp_all

lemma end_not_in_use: "slot_type s = END_OF_DIRECTORY \<Longrightarrow> \<not> in_use s"
  by (simp add: in_use_def END_OF_DIRECTORY_def)

lemma in_use_not_end: "in_use s \<Longrightarrow> slot_type s \<noteq> END_OF_DIRECTORY"
  using end_not_in_use by blast

lemma set_okD:
  assumes "set_ok es"
  shows "decode_slots es = Some (set_entry es, length es - 1)" "set_size es = Some (length es - 1)"
    "3 \<le> length es" "slot_type (es ! 0) = EXFAT_ENTRY_FILE_DIRECTORY"
proof -
  from assms obtain e where e: "decode_slots es = Some (e, length es - 1)" by (auto simp: set_ok_def)
  then show "decode_slots es = Some (set_entry es, length es - 1)" by (simp add: set_entry_def)
  from e show size: "set_size es = Some (length es - 1)" by (auto simp: decode_slots_def split: option.splits)
  then show "3 \<le> length es" "slot_type (es ! 0) = EXFAT_ENTRY_FILE_DIRECTORY"
    by (auto simp: set_size_def Let_def split: if_splits)
qed

lemma set_ok_first: "set_ok es \<Longrightarrow> es \<noteq> [] \<and> in_use (es ! 0)"
  using set_okD(3) [of es] by (cases es) (auto simp: set_ok_def)

lemma set_size_append:
  assumes "set_ok es"
  shows "set_size (es @ rest) = Some (length es - 1)"
  using set_okD(2-3) [OF assms] by (auto simp: set_size_def Let_def nth_append split: if_splits)

lemma no_set_size: "slot_type s \<noteq> EXFAT_ENTRY_FILE_DIRECTORY \<Longrightarrow> set_size (s # rest) = None"
  by (simp add: set_size_def Let_def)

lemma free_not_file: "\<not> in_use s \<Longrightarrow> slot_type s \<noteq> EXFAT_ENTRY_FILE_DIRECTORY"
  by (auto simp: in_use_def EXFAT_ENTRY_IN_USE_def EXFAT_ENTRY_FILE_DIRECTORY_def)

lemma entries_of_tail: "\<forall>s \<in> set tail. slot_type s = END_OF_DIRECTORY \<Longrightarrow> entries_of tail = []"
  by (cases tail) (simp_all add: entries_of.simps)

lemma entries_of_items:
  assumes "\<forall>i \<in> set items. item_ok i"
  shows "entries_of (slots_of items @ tail) = listing items @ entries_of tail"
  using assms
proof (induction items)
  case (Cons i items)
  show ?case
  proof (cases i)
    case (FreeSlot s)
    with Cons show ?thesis by (subst entries_of.simps) simp
  next
    case (OtherSlot s)
    with Cons have "decode_slots (s # slots_of items @ tail) = None" by (simp add: decode_slots_def no_set_size)
    with Cons OtherSlot show ?thesis by (subst entries_of.simps) (simp add: in_use_not_end)
  next
    case (EntrySet es)
    with Cons.prems have es: "set_ok es" by simp
    note d = set_okD [OF es]
    from d(3) have ne: "es \<noteq> []" by auto
    then have first: "(es @ x) ! 0 = es ! 0" for x by (simp add: nth_append)
    from es ne have "in_use (es ! 0)" by (simp add: set_ok_def)
    then have "entries_of (es @ slots_of items @ tail) = set_entry es # entries_of (slots_of items @ tail)"
      using d(3) decode_slots_append [OF d(1)] ne first
      by (subst entries_of.simps) (simp add: in_use_not_end)
    with Cons EntrySet show ?thesis by simp
  qed
qed simp

lemma entries_of_layout: "layout items tail ss \<Longrightarrow> entries_of ss = listing items"
  by (simp add: layout_def entries_of_items entries_of_tail)

lemma layout_replace:
  assumes "layout (xs @ ms @ ys) tail ss" "\<forall>i \<in> set ns. item_ok i"
    and "length (slots_of ns) = length (slots_of ms)"
  shows "layout (xs @ ns @ ys) tail (splice (length (slots_of xs)) (slots_of ns) ss)"
  using assms by (auto simp: layout_def splice_def)

lemma in_use_item: "item_ok i \<Longrightarrow> 0 < k \<Longrightarrow> k < length (item_slots i) \<Longrightarrow> in_use (item_slots i ! k)"
  by (cases i) (auto simp: set_ok_def)

lemma item_slots_ne: "item_ok i \<Longrightarrow> item_slots i \<noteq> []"
  using set_okD(3) [of "[]"] by (cases i) auto

lemma split_at_free:
  assumes "\<forall>i \<in> set items. item_ok i" "r < length (slots_of items)" "\<not> in_use (slots_of items ! r)"
  shows "\<exists>xs ys. items = xs @ ys \<and> length (slots_of xs) = r"
  using assms
proof (induction items arbitrary: r)
  case (Cons i items)
  consider (here) "r = 0" | (inside) "0 < r" "r < length (item_slots i)" | (later) "length (item_slots i) \<le> r"
    by fastforce
  then show ?case
  proof cases
    case here
    then have "i # items = [] @ i # items \<and> length (slots_of []) = r" by simp
    then show ?thesis by blast
  next
    case inside
    with Cons.prems in_use_item [of i r] show ?thesis by (simp add: nth_append)
  next
    case later
    with Cons.prems have "\<not> in_use (slots_of items ! (r - length (item_slots i)))"
      "r - length (item_slots i) < length (slots_of items)" by (auto simp: nth_append)
    with Cons.IH [of "r - length (item_slots i)"] Cons.prems(1) obtain xs ys where
      "items = xs @ ys" "length (slots_of xs) = r - length (item_slots i)" by auto
    with later have "i # items = (i # xs) @ ys \<and> length (slots_of (i # xs)) = r" by simp
    then show ?thesis by blast
  qed
qed simp

lemma free_prefix:
  assumes "\<forall>i \<in> set items. item_ok i"
    and "\<forall>s < n. s < length (slots_of items) \<longrightarrow> \<not> in_use (slots_of items ! s)"
  shows "\<exists>fs ys. items = map FreeSlot fs @ ys \<and> length fs = min n (length (slots_of items))"
  using assms
proof (induction items arbitrary: n)
  case (Cons i items)
  show ?case
  proof (cases n)
    case 0
    then have "i # items = map FreeSlot [] @ i # items \<and> length [] = min n (length (slots_of (i # items)))" by simp
    then show ?thesis by blast
  next
    case (Suc m)
    with Cons.prems item_slots_ne [of i] have "\<not> in_use (item_slots i ! 0)" by (auto simp: nth_append)
    with Cons.prems(1) obtain s where i: "i = FreeSlot s"
      using set_ok_first by (cases i) auto
    have "\<forall>q < m. q < length (slots_of items) \<longrightarrow> \<not> in_use (slots_of items ! q)"
      using Cons.prems(2) Suc i by auto
    from Cons.IH [OF _ this] Cons.prems(1) obtain fs ys where
      "items = map FreeSlot fs @ ys" "length fs = min m (length (slots_of items))"
      by (meson list.set_intros(2))
    with i Suc have "i # items = map FreeSlot (s # fs) @ ys \<and> length (s # fs) = min n (length (slots_of (i # items)))"
      by simp
    then show ?thesis by blast
  qed
qed simp

text \<open>Where a free run can be: over free slots, and then perhaps into the end of the directory.\<close>

lemma free_run_split:
  assumes "layout items tail ss" "free_run ss n skip r" "0 < n"
    and "\<forall>s. fst skip \<le> s \<and> s < snd skip \<longrightarrow> s < length (slots_of items)"
  shows "\<exists>xs fs ys t1 t2. items = xs @ map FreeSlot fs @ ys \<and> tail = t1 @ t2 \<and>
    length (slots_of xs) = r \<and> length fs + length t1 = n \<and> (t1 \<noteq> [] \<longrightarrow> ys = [])"
proof -
  let ?l = "length (slots_of items)"
  from assms(1) have ss: "ss = slots_of items @ tail" and ok: "\<forall>i \<in> set items. item_ok i"
    and ends: "\<forall>s \<in> set tail. slot_type s = END_OF_DIRECTORY" by (auto simp: layout_def)
  from assms(2,3) have run: "r + n \<le> length ss" "\<forall>s. r \<le> s \<and> s < r + n \<longrightarrow> \<not> in_use (ss ! s)"
    and before: "0 < r \<longrightarrow> \<not> free_slot ss skip (r - 1)"
    by (auto simp: free_run_def free_slot_def)
  have "r \<le> ?l"
  proof (rule ccontr)
    assume "\<not> r \<le> ?l"
    then have past: "?l \<le> r - 1" "r - 1 < length ss" "0 < r" using run(1) assms(3) by auto
    then have "ss ! (r - 1) \<in> set tail" by (simp add: ss nth_append)
    with ends end_not_in_use have "\<not> in_use (ss ! (r - 1))" by blast
    moreover have "\<not> (fst skip \<le> r - 1 \<and> r - 1 < snd skip)" using assms(4) past(1) by fastforce
    ultimately show False using before past(3) by (simp add: free_slot_def)
  qed
  have "\<exists>xs zs. items = xs @ zs \<and> length (slots_of xs) = r"
  proof (cases "r < ?l")
    case True
    with run(2) assms(3) have "\<not> in_use (slots_of items ! r)" by (auto simp: ss nth_append)
    with split_at_free [OF ok True] show ?thesis by blast
  next
    case False
    with \<open>r \<le> ?l\<close> have "items = items @ [] \<and> length (slots_of items) = r" by simp
    then show ?thesis by blast
  qed
  then obtain xs zs where xs: "items = xs @ zs" "length (slots_of xs) = r" by blast
  have "\<forall>s < n. s < length (slots_of zs) \<longrightarrow> \<not> in_use (slots_of zs ! s)"
  proof (intro allI impI)
    fix s assume "s < n" "s < length (slots_of zs)"
    with run(2) have "\<not> in_use (ss ! (r + s))" by simp
    with xs \<open>s < length (slots_of zs)\<close> show "\<not> in_use (slots_of zs ! s)" by (simp add: ss nth_append)
  qed
  moreover have "\<forall>i \<in> set zs. item_ok i" using ok xs(1) by simp
  ultimately obtain fs ys where fs: "zs = map FreeSlot fs @ ys" "length fs = min n (length (slots_of zs))"
    using free_prefix [of zs n] by blast
  define k where "k = n - length fs"
  have "k \<le> length tail" using run(1) xs fs(2) by (simp add: k_def ss)
  moreover have "ys = []" if "take k tail \<noteq> []"
  proof -
    from that have "length fs = length (slots_of zs)" using fs(2) by (auto simp: k_def)
    then have "slots_of ys = []" using fs(1) by simp
    then show ?thesis using ok xs(1) fs(1) item_slots_ne by (cases ys) auto
  qed
  moreover have "length fs + k = n" using fs(2) by (simp add: k_def)
  ultimately have "items = xs @ map FreeSlot fs @ ys \<and> tail = take k tail @ drop k tail \<and>
      length (slots_of xs) = r \<and> length fs + length (take k tail) = n \<and> (take k tail \<noteq> [] \<longrightarrow> ys = [])"
    using xs fs(1) by (simp only: append_take_drop_id length_take min_absorb2) blast
  then show ?thesis by (intro exI)
qed

text \<open>A new entry set in a free run: the directory stays well formed, and its listing gains that entry
  and changes in nothing else.\<close>

lemma insert_set:
  assumes "layout items tail ss" "free_run ss (length es) skip r" "set_ok es"
    and "\<forall>s. fst skip \<le> s \<and> s < snd skip \<longrightarrow> s < length (slots_of items)"
  shows "\<exists>xs fs ys tail'. items = xs @ map FreeSlot fs @ ys \<and> length (slots_of xs) = r \<and>
    (ys \<noteq> [] \<longrightarrow> length fs = length es) \<and> layout (xs @ EntrySet es # ys) tail' (splice r es ss)"
proof -
  have "0 < length es" using set_okD(3) [OF assms(3)] by auto
  from free_run_split [OF assms(1,2) this assms(4)] obtain xs fs ys t1 t2 where
    split: "items = xs @ map FreeSlot fs @ ys" "tail = t1 @ t2" "length (slots_of xs) = r"
      "length fs + length t1 = length es" "t1 \<noteq> [] \<longrightarrow> ys = []" by blast
  have "layout (xs @ EntrySet es # ys) t2 (splice r es ss)"
  proof (cases "t1 = []")
    case True
    with split assms(1,3) show ?thesis by (auto simp: layout_def splice_def)
  next
    case False
    with split assms(1,3) show ?thesis by (auto simp: layout_def splice_def)
  qed
  moreover have "ys \<noteq> [] \<longrightarrow> length fs = length es" using split(4,5) by auto
  ultimately show ?thesis using split by blast
qed

subsection \<open>Finding an entry set\<close>

lemma set_matches_append:
  assumes "set_ok es"
  shows "set_matches want (es @ rest) (length es - 1) = set_matches want es (length es - 1)"
  using set_okD(3) [OF assms] set_ok_first [OF assms] by (simp add: set_matches_def nth_append)

lemma find_in_tail: "\<forall>s \<in> set tail. slot_type s = END_OF_DIRECTORY \<Longrightarrow> find_in want tail = None"
  by (cases tail) (simp_all add: find_in.simps)

lemma find_in_items:
  assumes "\<forall>i \<in> set items. item_ok i" "\<forall>s \<in> set tail. slot_type s = END_OF_DIRECTORY"
    and "find_in want (slots_of items @ tail) = Some r"
  shows "\<exists>xs es ys. items = xs @ EntrySet es # ys \<and> length (slots_of xs) = r \<and> set_matches want es (length es - 1)"
  using assms
proof (induction items arbitrary: r)
  case Nil
  then show ?case by (simp add: find_in_tail)
next
  case (Cons i items)
  have later: ?case if "find_in want (slots_of items @ tail) = Some q" "r = length (item_slots i) + q" for q
  proof -
    from Cons.IH [OF _ Cons.prems(2) that(1)] Cons.prems(1) obtain xs es ys where
      "items = xs @ EntrySet es # ys" "length (slots_of xs) = q" "set_matches want es (length es - 1)" by auto
    with that(2) have "i # items = (i # xs) @ EntrySet es # ys \<and> length (slots_of (i # xs)) = r \<and>
        set_matches want es (length es - 1)" by simp
    then show ?thesis by blast
  qed
  show ?case
  proof (cases i)
    case (FreeSlot s)
    with Cons.prems have "find_in want (s # slots_of items @ tail) = map_option Suc (find_in want (slots_of items @ tail))"
      by (subst find_in.simps) (simp add: no_set_size free_not_file)
    with Cons.prems FreeSlot later show ?thesis by auto
  next
    case (OtherSlot s)
    with Cons.prems have "find_in want (s # slots_of items @ tail) = map_option Suc (find_in want (slots_of items @ tail))"
      by (subst find_in.simps) (simp add: no_set_size in_use_not_end)
    with Cons.prems OtherSlot later show ?thesis by auto
  next
    case (EntrySet es)
    with Cons.prems(1) have es: "set_ok es" by simp
    have ne: "es \<noteq> []" using set_okD(3) [OF es] by auto
    have len: "1 + (length es - 1) = length es" using ne by (cases es) simp_all
    have "slot_type ((es @ x) ! 0) \<noteq> END_OF_DIRECTORY" for x
      using es ne by (simp add: set_ok_def nth_append in_use_not_end)
    then have find: "find_in want (es @ slots_of items @ tail) =
        (if set_matches want es (length es - 1) then Some 0
         else map_option ((+) (length es)) (find_in want (slots_of items @ tail)))"
      using ne len by (subst find_in.simps)
        (simp add: set_size_append [OF es] set_matches_append [OF es] del: One_nat_def)
    show ?thesis
    proof (cases "set_matches want es (length es - 1)")
      case True
      with find Cons.prems(3) EntrySet have "i # items = [] @ EntrySet es # items \<and> length (slots_of []) = r" by simp
      with True show ?thesis by blast
    next
      case False
      with find Cons.prems(3) EntrySet obtain q where
        "find_in want (slots_of items @ tail) = Some q" "r = length (item_slots i) + q" by auto
      then show ?thesis by (rule later)
    qed
  qed
qed

lemma find_in_layout:
  assumes "layout items tail ss" "find_in want ss = Some r"
  shows "\<exists>xs es ys. items = xs @ EntrySet es # ys \<and> length (slots_of xs) = r \<and> set_matches want es (length es - 1)"
  using assms by (intro find_in_items) (auto simp: layout_def)

text \<open>What a matching set says about the entry it holds.\<close>

lemma match_units_collect:
  "match_units us ss \<Longrightarrow> collect_units (length us) ss = Some us"
proof (induction ss arbitrary: us)
  case (Cons e es)
  show ?case
  proof (cases "us = []")
    case False
    let ?part = "take (length us) (units16 (drop 2 e))"
    from False Cons.prems have ty: "slot_type e = EXFAT_ENTRY_FILE_NAME" and part: "?part = take (length ?part) us"
      and rest: "match_units (drop (length ?part) us) es" by (auto simp: Let_def)
    have "collect_units (length us - length ?part) es = Some (drop (length ?part) us)"
      using Cons.IH [OF rest] by simp
    moreover have "?part @ drop (length ?part) us = us" by (subst (1) part) simp
    ultimately show ?thesis using False ty by (simp add: Let_def)
  qed simp
qed simp

lemma set_matches_entry:
  assumes "set_ok es" "set_matches want es (length es - 1)"
  shows "entry_is_dir (set_entry es) = id_is_directory want"
    "xe_first_cluster (set_entry es) = id_first_cluster want"
    "xe_data_length (set_entry es) = id_data_length want"
    "xe_valid_data_length (set_entry es) = id_valid_data_length want"
    "list_all scalar (id_name want) \<Longrightarrow> xe_name (set_entry es) = id_name want"
proof -
  let ?us = "encode_utf16 (id_name want)"
  from assms(2) have fields: "identity_fields want (es ! 0) (es ! 1)"
    and units: "match_units ?us (take (length es - 1 - 1) (drop 2 es))" by (auto simp: set_matches_def)
  note d = set_okD [OF assms(1)]
  from fields have "unat (es ! 1 ! 3) = length ?us" by (simp add: identity_fields_def)
  with d(1,2) match_units_collect [OF units] have e: "set_entry es = make_entry (es ! 0) (es ! 1) ?us"
    by (simp add: decode_slots_def)
  show "entry_is_dir (set_entry es) = id_is_directory want"
    "xe_first_cluster (set_entry es) = id_first_cluster want"
    "xe_data_length (set_entry es) = id_data_length want"
    "xe_valid_data_length (set_entry es) = id_valid_data_length want"
    using fields by (simp_all add: e make_entry_def identity_fields_def entry_is_dir_def)
  show "xe_name (set_entry es) = id_name want" if "list_all scalar (id_name want)"
    using that by (simp add: e make_entry_def from_utf16_lossy_encode)
qed

end
