(* ===== verification/Exfat_Write.thy ===== *)
theory Exfat_Write
  imports Exfat_Dir
begin

text \<open>
  Writing entry sets to an exFAT directory, from \<open>crates/multi64-sc64-sd/src/partition.rs\<close>: a set goes
  out one whole sector at a time, and on a failure the sectors already written are put back
  (\<open>exfat_write_entry_slabs_restoring\<close>); marking slots deleted and deleting a set. The last part
  relates the bytes of the volume to the slots of a directory.
\<close>

subsection \<open>Writing an entry set\<close>

record entry_write_failed =
  ewf_error :: io_kind
  ewf_restored :: bool

text \<open>Consecutive slabs in the same sector: the sector's start and the indices into \<open>slabs\<close>.\<close>

fun group_sectors ::
  "nat \<Rightarrow> nat \<Rightarrow> nat list \<Rightarrow> (nat \<times> nat list) list \<Rightarrow> io_kind + (nat \<times> nat list) list" where
  "group_sectors part_bytes i [] sectors = Inr sectors"
| "group_sectors part_bytes i (offset # offsets) sectors =
     (let start = offset - offset mod 512 in
      if part_bytes < saturating_add64 start 512 then Inl InvalidData
      else group_sectors part_bytes (i + 1) offsets
        (if sectors \<noteq> [] \<and> fst (last sectors) = start
         then butlast sectors @ [(start, snd (last sectors) @ [i])]
         else sectors @ [(start, [i])]))"

definition patched :: "nat list \<Rightarrow> octets list \<Rightarrow> nat \<Rightarrow> nat list \<Rightarrow> octets \<Rightarrow> octets" where
  "patched offsets slabs start grp sector =
     fold (\<lambda>i s. splice (offsets ! i - start) (slabs ! i) s) grp sector"

text \<open>One sector: what it held is kept in \<open>before\<close> as soon as it has been read.\<close>

definition write_sector ::
  "(nat \<Rightarrow> nat \<Rightarrow> ('w, octets) io) \<Rightarrow> (nat \<Rightarrow> octets \<Rightarrow> ('w, unit) io) \<Rightarrow> ('w, unit) io \<Rightarrow>
     nat list \<Rightarrow> octets list \<Rightarrow> nat \<times> nat list \<Rightarrow> (nat \<times> octets) list \<Rightarrow> 'w \<Rightarrow>
     ((io_kind + unit) \<times> (nat \<times> octets) list \<times> 'w) option" where
  "write_sector get wr flush offsets slabs sec before w =
     (case get (fst sec) 512 w of
        None \<Rightarrow> None
      | Some (Inl e, w') \<Rightarrow> Some (Inl e, before, w')
      | Some (Inr sector, w') \<Rightarrow>
          map_option (\<lambda>(r, w''). (r, before @ [(fst sec, sector)], w''))
            (io_bind (wr (fst sec) (patched offsets slabs (fst sec) (snd sec) sector)) (\<lambda>_. flush) w'))"

fun restore_sectors ::
  "(nat \<Rightarrow> octets \<Rightarrow> ('w, unit) io) \<Rightarrow> ('w, unit) io \<Rightarrow> (nat \<times> octets) list \<Rightarrow> bool \<Rightarrow> 'w \<Rightarrow>
     (bool \<times> 'w) option" where
  "restore_sectors wr flush [] restored w = Some (restored, w)"
| "restore_sectors wr flush ((start, sector) # rest) restored w =
     (case io_bind (wr start sector) (\<lambda>_. flush) w of
        None \<Rightarrow> None
      | Some (r, w') \<Rightarrow> restore_sectors wr flush rest (restored \<and> \<not> isl r) w')"

fun write_sectors ::
  "(nat \<Rightarrow> nat \<Rightarrow> ('w, octets) io) \<Rightarrow> (nat \<Rightarrow> octets \<Rightarrow> ('w, unit) io) \<Rightarrow> ('w, unit) io \<Rightarrow>
     nat list \<Rightarrow> octets list \<Rightarrow> (nat \<times> nat list) list \<Rightarrow> (nat \<times> octets) list \<Rightarrow> 'w \<Rightarrow>
     ((entry_write_failed + unit) \<times> 'w) option" where
  "write_sectors get wr flush offsets slabs [] before w = Some (Inr (), w)"
| "write_sectors get wr flush offsets slabs (sec # secs) before w =
     (case write_sector get wr flush offsets slabs sec before w of
        None \<Rightarrow> None
      | Some (Inr _, before', w') \<Rightarrow> write_sectors get wr flush offsets slabs secs before' w'
      | Some (Inl e, before', w') \<Rightarrow>
          map_option (\<lambda>(restored, w''). (Inl \<lparr>ewf_error = e, ewf_restored = restored\<rparr>, w''))
            (restore_sectors wr flush (rev before') True w'))"

definition exfat_write_entry_slabs_restoring ::
  "nat \<Rightarrow> (nat \<Rightarrow> nat \<Rightarrow> ('w, octets) io) \<Rightarrow> (nat \<Rightarrow> octets \<Rightarrow> ('w, unit) io) \<Rightarrow> ('w, unit) io \<Rightarrow>
     nat list \<Rightarrow> octets list \<Rightarrow> 'w \<Rightarrow> ((entry_write_failed + unit) \<times> 'w) option" where
  "exfat_write_entry_slabs_restoring part_bytes get wr flush offsets slabs w =
     (case group_sectors part_bytes 0 offsets [] of
        Inl e \<Rightarrow> Some (Inl \<lparr>ewf_error = e, ewf_restored = True\<rparr>, w)
      | Inr sectors \<Rightarrow> write_sectors get wr flush offsets slabs sectors [] w)"

definition exfat_write_entry_slabs_at ::
  "nat \<Rightarrow> (nat \<Rightarrow> nat \<Rightarrow> ('w, octets) io) \<Rightarrow> (nat \<Rightarrow> octets \<Rightarrow> ('w, unit) io) \<Rightarrow> ('w, unit) io \<Rightarrow>
     nat list \<Rightarrow> octets list \<Rightarrow> ('w, unit) io" where
  "exfat_write_entry_slabs_at part_bytes get wr flush offsets slabs w =
     map_option (\<lambda>(r, w'). (case r of Inl failed \<Rightarrow> Inl (ewf_error failed) | Inr u \<Rightarrow> Inr u, w'))
       (exfat_write_entry_slabs_restoring part_bytes get wr flush offsets slabs w)"

definition exfat_mark_slots_deleted ::
  "nat \<Rightarrow> (nat \<Rightarrow> nat \<Rightarrow> ('w, octets) io) \<Rightarrow> (nat \<Rightarrow> octets \<Rightarrow> ('w, unit) io) \<Rightarrow> ('w, unit) io \<Rightarrow>
     nat list \<Rightarrow> octets list \<Rightarrow> ('w, unit) io" where
  "exfat_mark_slots_deleted part_bytes get wr flush offsets entries =
     (if offsets = [] then io_return ()
      else exfat_write_entry_slabs_at part_bytes get wr flush offsets
        (map (\<lambda>e. e[0 := e ! 0 AND NOT EXFAT_ENTRY_IN_USE]) entries))"

definition exfat_finalize_deleted_entry_set ::
  "nat \<Rightarrow> (nat \<Rightarrow> nat \<Rightarrow> ('w, octets) io) \<Rightarrow> (nat \<Rightarrow> nat \<Rightarrow> ('w, octets) io) \<Rightarrow>
     (nat \<Rightarrow> octets \<Rightarrow> ('w, unit) io) \<Rightarrow> ('w, unit) io \<Rightarrow> dir_slots \<Rightarrow> nat \<Rightarrow> ('w, unit) io" where
  "exfat_finalize_deleted_entry_set part_bytes rd get wr flush dir primary_slot =
     io_bind (exfat_read_entry_set rd dir primary_slot) (\<lambda>got.
       case got of
         None \<Rightarrow> io_return ()
       | Some entries \<Rightarrow>
           io_bind (io_of (slot_offsets dir primary_slot (length entries))) (\<lambda>offsets.
             exfat_write_entry_slabs_at part_bytes get wr flush offsets (deleted_set entries)))"

subsection \<open>Slabs laid over the volume\<close>

definition lay_slabs :: "nat list \<Rightarrow> octets list \<Rightarrow> (nat \<Rightarrow> u8) \<Rightarrow> nat \<Rightarrow> u8" where
  "lay_slabs offsets slabs = fold (\<lambda>(o', s) f. overlay f o' s) (zip offsets slabs)"

definition lay_group :: "nat list \<Rightarrow> octets list \<Rightarrow> nat list \<Rightarrow> (nat \<Rightarrow> u8) \<Rightarrow> nat \<Rightarrow> u8" where
  "lay_group offsets slabs grp = fold (\<lambda>i f. overlay f (offsets ! i) (slabs ! i)) grp"

definition slab_ok :: "nat list \<Rightarrow> octets list \<Rightarrow> bool" where
  "slab_ok offsets slabs \<longleftrightarrow>
     length offsets = length slabs \<and> (\<forall>o' \<in> set offsets. 32 dvd o') \<and> (\<forall>s \<in> set slabs. length s = 32)"

lemma in_sector:
  assumes "32 dvd (o' :: nat)"
  shows "o' - o' mod 512 \<le> o'" "o' + 32 \<le> o' - o' mod 512 + 512"
proof -
  from assms obtain k where "o' = 32 * k" by (rule dvdE)
  then have m: "o' mod 512 = 32 * (k mod 16)" using mod_mult_mult1 [of 32 k 16] by simp
  have "k mod 16 < 16" by simp
  then have "o' mod 512 + 32 \<le> 512" unfolding m by linarith
  moreover have "o' mod 512 \<le> o'" by simp
  ultimately show "o' - o' mod 512 \<le> o'" "o' + 32 \<le> o' - o' mod 512 + 512" by simp_all
qed

lemma lay_group_outside:
  assumes "\<forall>i \<in> set grp. start \<le> offsets ! i \<and> offsets ! i + length (slabs ! i) \<le> start + 512"
    and "a < start \<or> start + 512 \<le> a"
  shows "lay_group offsets slabs grp f a = f a"
  using assms
proof (induction grp arbitrary: f)
  case (Cons i grp)
  then have "lay_group offsets slabs (i # grp) f a = overlay f (offsets ! i) (slabs ! i) a"
    by (simp add: lay_group_def)
  with Cons.prems show ?case by (auto simp: overlay_def)
qed (simp add: lay_group_def)

lemma patched_lay:
  assumes "\<forall>i \<in> set grp. start \<le> offsets ! i \<and> offsets ! i + length (slabs ! i) \<le> start + 512"
  shows "patched offsets slabs start grp (bytes_at f start 512) = bytes_at (lay_group offsets slabs grp f) start 512"
  using assms
proof (induction grp arbitrary: f)
  case (Cons i grp)
  then have "offsets ! i - start + length (slabs ! i) \<le> 512" "start \<le> offsets ! i" by auto
  then have "splice (offsets ! i - start) (slabs ! i) (bytes_at f start 512) =
      bytes_at (overlay f (offsets ! i) (slabs ! i)) start 512"
    using bytes_at_overlay_splice [of "offsets ! i - start" "slabs ! i" 512 f start] by simp
  with Cons show ?case by (simp add: patched_def lay_group_def)
qed (simp add: patched_def lay_group_def)

lemma overlay_bytes_at:
  assumes "\<forall>a. a < start \<or> start + n \<le> a \<longrightarrow> g a = f a"
  shows "overlay g start (bytes_at f start n) = f"
  using assms by (auto simp: overlay_def fun_eq_iff)

text \<open>The groups of \<open>group_sectors\<close> are the slabs in order, each grp within its sector.\<close>

definition groups_ok :: "nat list \<Rightarrow> octets list \<Rightarrow> (nat \<times> nat list) list \<Rightarrow> bool" where
  "groups_ok offsets slabs sectors \<longleftrightarrow>
     (\<forall>(start, grp) \<in> set sectors. 512 dvd start \<and>
        (\<forall>i \<in> set grp. start \<le> offsets ! i \<and> offsets ! i + length (slabs ! i) \<le> start + 512))"

lemma group_sectors_result:
  assumes "group_sectors pb i os sectors = Inr secs" "slab_ok offsets slabs" "os = drop i offsets"
    and "groups_ok offsets slabs sectors" "concat (map snd sectors) = [0 ..< i]"
  shows "groups_ok offsets slabs secs \<and> concat (map snd secs) = [0 ..< i + length os]"
  using assms
proof (induction pb i os sectors rule: group_sectors.induct)
  case (2 pb i offset os sectors)
  let ?start = "offset - offset mod 512"
  let ?next = "if sectors \<noteq> [] \<and> fst (last sectors) = ?start
      then butlast sectors @ [(?start, snd (last sectors) @ [i])] else sectors @ [(?start, [i])]"
  from "2.prems"(1) have fits: "\<not> pb < saturating_add64 ?start 512"
    and run: "group_sectors pb (i + 1) os ?next = Inr secs" by (auto simp: Let_def split: if_splits)
  have "i < length offsets" using "2.prems"(3) by (metis drop_all leI list.distinct(1))
  moreover from this have "offsets ! i # drop (i + 1) offsets = offset # os"
    using "2.prems"(3) by (simp add: Cons_nth_drop_Suc)
  ultimately have i: "i < length offsets" "offsets ! i = offset" "os = drop (i + 1) offsets" by simp_all
  with "2.prems"(2) have off: "32 dvd offset" "length (slabs ! i) = 32"
    by (auto simp: slab_ok_def)
  note within = in_sector [OF off(1)]
  have "512 dvd ?start" by (simp add: minus_mod_eq_mult_div)
  have "groups_ok offsets slabs ?next \<and> concat (map snd ?next) = [0 ..< i + 1]"
  proof (cases "sectors \<noteq> [] \<and> fst (last sectors) = ?start")
    case True
    then obtain pre g where sectors: "sectors = pre @ [(?start, g)]"
      by (metis append_butlast_last_id prod.collapse)
    with "2.prems"(4,5) within off(2) i(2) \<open>512 dvd ?start\<close> show ?thesis
      by (auto simp: groups_ok_def)
  next
    case False
    with "2.prems"(4,5) within off(2) i(2) \<open>512 dvd ?start\<close> show ?thesis by (auto simp: groups_ok_def)
  qed
  then show ?case using "2.IH" [OF refl fits run "2.prems"(2) i(3)] by simp
qed simp

lemma lay_groups:
  assumes "concat (map snd secs) = [0 ..< length offsets]" "length offsets = length slabs"
  shows "fold (\<lambda>sec. lay_group offsets slabs (snd sec)) secs f = lay_slabs offsets slabs f"
proof -
  have "fold (\<lambda>sec. lay_group offsets slabs (snd sec)) secs f = lay_group offsets slabs (concat (map snd secs)) f" for f
    by (induction secs arbitrary: f) (simp_all add: lay_group_def)
  also have "lay_group offsets slabs (concat (map snd secs)) f = lay_slabs offsets slabs f"
  proof -
    have "zip offsets slabs = map (\<lambda>i. (offsets ! i, slabs ! i)) [0 ..< length offsets]"
      by (rule nth_equalityI) (simp_all add: assms(2))
    then show ?thesis by (simp add: assms(1) lay_group_def lay_slabs_def fold_map comp_def)
  qed
  finally show ?thesis .
qed

context exfat_volume
begin

lemma flush_bind:
  assumes "ok w"
  shows "\<exists>r w'. io_bind (wr at' bs) (\<lambda>_. flush) w = Some (r, w') \<and> ok w' \<and>
    (\<forall>u. r = Inr u \<longrightarrow> content w' = overlay (content w) at' bs) \<and>
    (\<forall>a. a \<notin> touched at' (length bs) \<longrightarrow> content w' a = content w a)"
proof -
  obtain r w1 where w1: "wr at' bs w = Some (r, w1)" using wr_returns [OF assms] by blast
  note ok1 = wr_ok [OF assms w1]
  obtain r2 w2 where w2: "flush w1 = Some (r2, w2)" "ok w2" "content w2 = content w1"
    using flush_keeps [OF ok1] by (auto simp: reads_def)
  show ?thesis
  proof (cases r)
    case (Inl e)
    with w1 ok1 wr_apart [OF assms w1] show ?thesis by (simp add: io_bind_def)
  next
    case (Inr u)
    with w1 w2 wr_apart [OF assms w1] wr_writes [OF assms, of at' bs u w1] show ?thesis
      by (simp add: io_bind_def)
  qed
qed

lemma restore_sectors_result:
  assumes "ok w"
  shows "\<exists>b w'. restore_sectors wr flush bs restored w = Some (b, w') \<and> ok w' \<and>
    (b \<longrightarrow> restored \<and> content w' = fold (\<lambda>(s, x) f. overlay f s x) bs (content w))"
  using assms
proof (induction bs arbitrary: w restored)
  case (Cons sx bs)
  obtain s x where sx: "sx = (s, x)" by fastforce
  from flush_bind [OF Cons.prems, of s x] obtain r w1 where
    one: "io_bind (wr s x) (\<lambda>_. flush) w = Some (r, w1)" "ok w1"
      "\<forall>u. r = Inr u \<longrightarrow> content w1 = overlay (content w) s x" by blast
  from Cons.IH [OF one(2), of "restored \<and> \<not> isl r"] one sx show ?case by (cases r) auto
qed simp

text \<open>Putting back what was read, in reverse order, gives the volume as it was.\<close>

lemma write_sectors_result:
  assumes "ok w" "groups_ok offsets slabs secs"
    and "fold (\<lambda>(s, x) f. overlay f s x) (rev before) (content w) = f0"
  shows "\<exists>r w'. write_sectors get wr flush offsets slabs secs before w = Some (r, w') \<and> ok w' \<and>
    (\<forall>u. r = Inr u \<longrightarrow> content w' = fold (\<lambda>sec. lay_group offsets slabs (snd sec)) secs (content w)) \<and>
    (\<forall>e. r = Inl e \<longrightarrow> ewf_restored e \<longrightarrow> content w' = f0)"
  using assms
proof (induction secs arbitrary: w before)
  case Nil
  then show ?case by simp
next
  case (Cons sec secs)
  obtain start grp where sec: "sec = (start, grp)" by fastforce
  from Cons.prems(2) sec have start: "512 dvd start"
    and within: "\<forall>i \<in> set grp. start \<le> offsets ! i \<and> offsets ! i + length (slabs ! i) \<le> start + 512"
    and rest: "groups_ok offsets slabs secs" by (auto simp: groups_ok_def)
  let ?b = "bytes_at (content w) start 512"
  let ?p = "patched offsets slabs start grp ?b"
  have failed: "\<exists>r w'. write_sectors get wr flush offsets slabs (sec # secs) before w = Some (r, w') \<and> ok w' \<and>
      (\<forall>u. r = Inr u \<longrightarrow> content w' = fold (\<lambda>sec. lay_group offsets slabs (snd sec)) (sec # secs) (content w)) \<and>
      (\<forall>e. r = Inl e \<longrightarrow> ewf_restored e \<longrightarrow> content w' = f0)"
    if "write_sector get wr flush offsets slabs sec before w = Some (Inl e, before', v)" "ok v"
      "fold (\<lambda>(s, x) f. overlay f s x) (rev before') (content v) = f0" for e before' v
  proof -
    note prems = that
    from restore_sectors_result [OF prems(2), of "rev before'" True] obtain b v' where
      "restore_sectors wr flush (rev before') True v = Some (b, v')" "ok v'" "b \<longrightarrow> content v' = f0"
      using prems(3) by auto
    moreover from this(1) prems(1) have "write_sectors get wr flush offsets slabs (sec # secs) before w =
        Some (Inl \<lparr>ewf_error = e, ewf_restored = b\<rparr>, v')" by simp
    ultimately show ?thesis by auto
  qed
  from get_reads [OF Cons.prems(1), of start 512] obtain r1 w1 where
    r1: "get start 512 w = Some (r1, w1)" "ok w1" "content w1 = content w" "\<forall>bs. r1 = Inr bs \<longrightarrow> bs = ?b"
    by (auto simp: reads_def)
  show ?case
  proof (cases r1)
    case (Inl e)
    with r1 sec Cons.prems(3) show ?thesis by (intro failed [of e before w1]) (auto simp: write_sector_def)
  next
    case (Inr bs)
    with r1 have bs: "r1 = Inr ?b" by simp
    obtain r2 w2 where
      r2: "io_bind (wr start ?p) (\<lambda>_. flush) w1 = Some (r2, w2)" "ok w2"
        "\<forall>u. r2 = Inr u \<longrightarrow> content w2 = overlay (content w1) start ?p"
        "\<forall>a. a \<notin> touched start (length ?p) \<longrightarrow> content w2 a = content w1 a"
      using flush_bind [OF r1(2), of start ?p] by (elim exE conjE)
    have one: "write_sector get wr flush offsets slabs sec before w = Some (r2, before @ [(start, ?b)], w2)"
      using r1(1) r2(1) bs sec by (simp add: write_sector_def)
    have "touched start (length ?p) = {start ..< start + 512}"
      using start touched_aligned [of "start div 512" 1] by (simp add: patched_lay [OF within])
    with r2(4) r1(3) have "\<forall>a. a < start \<or> start + 512 \<le> a \<longrightarrow> content w2 a = content w a" by auto
    then have "overlay (content w2) start ?b = content w" by (rule overlay_bytes_at)
    then have undo: "fold (\<lambda>(s, x) f. overlay f s x) (rev (before @ [(start, ?b)])) (content w2) = f0"
      using Cons.prems(3) by simp
    show ?thesis
    proof (cases r2)
      case (Inl e)
      with one have "write_sector get wr flush offsets slabs sec before w =
          Some (Inl e, before @ [(start, ?b)], w2)" by simp
      from failed [OF this r2(2) undo] show ?thesis .
    next
      case (Inr u)
      have "overlay (content w) start (bytes_at (lay_group offsets slabs grp (content w)) start 512) =
          lay_group offsets slabs grp (content w)"
        by (rule overlay_bytes_at) (use lay_group_outside [OF within] in auto)
      with r2(3) r1(3) Inr have "content w2 = lay_group offsets slabs grp (content w)"
        by (simp add: patched_lay [OF within])
      with Cons.IH [OF r2(2) rest undo] one Inr sec show ?thesis by auto
    qed
  qed
qed

lemma write_slabs_result:
  assumes "ok w" "slab_ok offsets slabs"
  shows "\<exists>r w'. exfat_write_entry_slabs_restoring pb get wr flush offsets slabs w = Some (r, w') \<and> ok w' \<and>
    (\<forall>u. r = Inr u \<longrightarrow> content w' = lay_slabs offsets slabs (content w)) \<and>
    (\<forall>e. r = Inl e \<longrightarrow> ewf_restored e \<longrightarrow> content w' = content w)"
proof (cases "group_sectors pb 0 offsets []")
  case (Inl e)
  with assms show ?thesis by (simp add: exfat_write_entry_slabs_restoring_def)
next
  case (Inr secs)
  from group_sectors_result [OF Inr assms(2)] have
    secs: "groups_ok offsets slabs secs" "concat (map snd secs) = [0 ..< length offsets]"
    by (simp_all add: groups_ok_def)
  have "length offsets = length slabs" using assms(2) by (simp add: slab_ok_def)
  with write_sectors_result [OF assms(1) secs(1), of "[]" "content w"] Inr lay_groups [OF secs(2)]
  show ?thesis by (simp add: exfat_write_entry_slabs_restoring_def)
qed

end

subsection \<open>A directory's slots in the volume\<close>

text \<open>The clusters of a directory do not overlap, and begin on sector boundaries.\<close>

definition dir_geometry :: "dir_slots \<Rightarrow> bool" where
  "dir_geometry dir \<longleftrightarrow>
     0 < ds_slots_per_cluster dir \<and> (\<forall>o' \<in> set (ds_cluster_offsets dir). 32 dvd o') \<and>
     (\<forall>i j. i < j \<and> j < length (ds_cluster_offsets dir) \<longrightarrow>
        ds_cluster_offsets dir ! i + ds_slots_per_cluster dir * SLOT_BYTES \<le> ds_cluster_offsets dir ! j \<or>
        ds_cluster_offsets dir ! j + ds_slots_per_cluster dir * SLOT_BYTES \<le> ds_cluster_offsets dir ! i)"

lemma slot_at_aligned:
  assumes "dir_geometry dir" "i < slot_count dir"
  shows "32 dvd slot_at dir i"
proof -
  have "i div ds_slots_per_cluster dir < length (ds_cluster_offsets dir)"
    using assms(2) by (simp add: slot_count_def less_mult_imp_div_less)
  then have "ds_cluster_offsets dir ! (i div ds_slots_per_cluster dir) \<in> set (ds_cluster_offsets dir)" by simp
  with assms(1) show ?thesis by (auto simp: slot_at_def dir_geometry_def SLOT_BYTES_def intro!: dvd_add)
qed

lemma slot_at_apart:
  assumes "dir_geometry dir" "i < slot_count dir" "j < slot_count dir" "i \<noteq> j"
  shows "slot_at dir i + SLOT_BYTES \<le> slot_at dir j \<or> slot_at dir j + SLOT_BYTES \<le> slot_at dir i"
proof -
  let ?c = "ds_slots_per_cluster dir" and ?os = "ds_cluster_offsets dir"
  have pos: "0 < ?c" using assms(1) by (simp add: dir_geometry_def)
  have inside: "k div ?c < length ?os" "k mod ?c * SLOT_BYTES + SLOT_BYTES \<le> ?c * SLOT_BYTES"
    if "k < slot_count dir" for k
  proof -
    show "k div ?c < length ?os" using that by (simp add: slot_count_def less_mult_imp_div_less)
    have "k mod ?c < ?c" using pos by simp
    then have "(k mod ?c + 1) * SLOT_BYTES \<le> ?c * SLOT_BYTES" by (intro mult_le_mono1) simp
    then show "k mod ?c * SLOT_BYTES + SLOT_BYTES \<le> ?c * SLOT_BYTES" by simp
  qed
  note ii = inside [OF assms(2)] and jj = inside [OF assms(3)]
  show ?thesis
  proof (cases "i div ?c = j div ?c")
    case True
    with assms(4) have "i mod ?c \<noteq> j mod ?c" by (metis div_mult_mod_eq)
    then consider "i mod ?c + 1 \<le> j mod ?c" | "j mod ?c + 1 \<le> i mod ?c" by linarith
    then have "(i mod ?c + 1) * SLOT_BYTES \<le> j mod ?c * SLOT_BYTES \<or>
        (j mod ?c + 1) * SLOT_BYTES \<le> i mod ?c * SLOT_BYTES" by cases (blast intro: mult_le_mono1)+
    with True show ?thesis by (auto simp: slot_at_def)
  next
    case False
    then consider "i div ?c < j div ?c" | "j div ?c < i div ?c" by linarith
    then have "?os ! (i div ?c) + ?c * SLOT_BYTES \<le> ?os ! (j div ?c) \<or>
        ?os ! (j div ?c) + ?c * SLOT_BYTES \<le> ?os ! (i div ?c)"
      by cases (use assms(1) ii jj in \<open>auto simp: dir_geometry_def\<close>)
    with ii jj show ?thesis by (auto simp: slot_at_def)
  qed
qed

lemma dir_stream_overlay:
  assumes "dir_geometry dir" "i < slot_count dir" "length s = SLOT_BYTES"
  shows "dir_stream (overlay f (slot_at dir i) s) dir = (dir_stream f dir)[i := s]"
proof (rule nth_equalityI)
  fix j assume "j < length (dir_stream (overlay f (slot_at dir i) s) dir)"
  then have j: "j < slot_count dir" by simp
  show "dir_stream (overlay f (slot_at dir i) s) dir ! j = (dir_stream f dir)[i := s] ! j"
  proof (cases "j = i")
    case True
    with assms j bytes_at_overlay [of f "slot_at dir i" s] show ?thesis by simp
  next
    case False
    with slot_at_apart [OF assms(1,2) j] have
      "bytes_at (overlay f (slot_at dir i) s) (slot_at dir j) SLOT_BYTES = bytes_at f (slot_at dir j) SLOT_BYTES"
      by (intro nth_equalityI) (auto simp: overlay_def assms(3))
    with False j show ?thesis by simp
  qed
qed simp

lemma slot_offsets_in:
  "first + n \<le> slot_count dir \<Longrightarrow> slot_offsets dir first n = Inr (map (slot_at dir) [first ..< first + n])"
  by (induction n arbitrary: first) (simp_all add: slot_offset_in upt_rec)

lemma slot_offsets_Inr:
  assumes "slot_offsets dir first n = Inr os" "0 < ds_slots_per_cluster dir" "0 < n"
  shows "first + n \<le> slot_count dir"
  using assms(1,3)
proof (induction n arbitrary: first os)
  case (Suc n)
  then obtain o' os' where o': "slot_offset dir first = Inr o'" "slot_offsets dir (first + 1) n = Inr os'"
    by (auto simp: bind_result_Inr_iff)
  have "first < slot_count dir"
    using o'(1) slot_offset_out [OF assms(2), of first] by (metis Inl_Inr_False not_less)
  with Suc.IH [OF o'(2)] show ?case by (cases n) simp_all
qed simp

lemma splice_update:
  "p < length xs \<Longrightarrow> p + Suc (length ys) \<le> length xs \<Longrightarrow>
   splice (p + 1) ys (xs[p := y]) = splice p (y # ys) xs"
  by (rule nth_equalityI) (auto simp: nth_splice nth_list_update nth_Cons' Suc_le_eq)

lemma lay_slabs_stream:
  assumes "dir_geometry dir" "first + length slabs \<le> slot_count dir" "\<forall>s \<in> set slabs. length s = SLOT_BYTES"
  shows "dir_stream (lay_slabs (map (slot_at dir) [first ..< first + length slabs]) slabs f) dir =
    splice first slabs (dir_stream f dir)"
  using assms
proof (induction slabs arbitrary: first f)
  case Nil
  then show ?case by (simp add: lay_slabs_def)
next
  case (Cons s slabs)
  have "map (slot_at dir) [first ..< first + length (s # slabs)] =
      slot_at dir first # map (slot_at dir) [first + 1 ..< first + 1 + length slabs]"
    by (simp add: upt_rec)
  then have "lay_slabs (map (slot_at dir) [first ..< first + length (s # slabs)]) (s # slabs) f =
      lay_slabs (map (slot_at dir) [first + 1 ..< first + 1 + length slabs]) slabs (overlay f (slot_at dir first) s)"
    by (simp add: lay_slabs_def)
  then have "dir_stream (lay_slabs (map (slot_at dir) [first ..< first + length (s # slabs)]) (s # slabs) f) dir =
      splice (first + 1) slabs (dir_stream (overlay f (slot_at dir first) s) dir)"
    using Cons.IH [of "first + 1" "overlay f (slot_at dir first) s"] Cons.prems by simp
  also have "\<dots> = splice (first + 1) slabs ((dir_stream f dir)[first := s])"
    using Cons.prems by (subst dir_stream_overlay) simp_all
  also have "\<dots> = splice first (s # slabs) (dir_stream f dir)"
    using Cons.prems by (intro splice_update) simp_all
  finally show ?case .
qed

lemma slab_ok_slots:
  assumes "dir_geometry dir" "first + length slabs \<le> slot_count dir" "\<forall>s \<in> set slabs. length s = SLOT_BYTES"
  shows "slab_ok (map (slot_at dir) [first ..< first + length slabs]) slabs"
  using assms slot_at_aligned [OF assms(1)] by (auto simp: slab_ok_def SLOT_BYTES_def)

end
