(* ===== verification/Exfat_Create.thy ===== *)
theory Exfat_Create
  imports Exfat_Write
begin

text \<open>
  Creating, replacing and deleting on an exFAT volume, from \<open>crates/multi64-sc64-sd/src/partition.rs\<close>:
  the FAT entries of an allocation, taking clusters, copying a file into them, and the order in which
  the data, the bitmap and the entry set are written. The mounted file system of \<open>hadris-fat\<close>
  (allocation and the bitmap it keeps in memory) is a parameter, the operations in \<open>exfat_fs\<close>.
\<close>

subsection \<open>The mounted volume\<close>

record 'w exfat_fs =
  xf_part_bytes :: nat
  xf_read :: "nat \<Rightarrow> nat \<Rightarrow> ('w, octets) io"
  xf_get :: "nat \<Rightarrow> nat \<Rightarrow> ('w, octets) io"
  xf_put :: "nat \<Rightarrow> octets \<Rightarrow> ('w, unit) io"
  xf_flush :: "('w, unit) io"
  xf_info :: exfat_info
  xf_hadris :: hadris
  xf_upper :: "nat \<Rightarrow> nat list"
  xf_now :: timestamp
  xf_allocate_cluster :: "u32 \<Rightarrow> ('w, u32) io"
  xf_free_clusters :: "u32 \<Rightarrow> u32 \<Rightarrow> bool \<Rightarrow> ('w, unit) io"
  xf_is_cluster_allocated :: "u32 \<Rightarrow> ('w, bool) io"
  xf_free_cluster_count :: "'w \<Rightarrow> nat"
  xf_sync_bitmap :: "('w, unit) io"

definition xf_cluster_bytes :: "'w exfat_fs \<Rightarrow> nat" where
  "xf_cluster_bytes X = ei_bytes_per_cluster (xf_info X)"

definition xf_valid :: "'w exfat_fs \<Rightarrow> u32 \<Rightarrow> bool" where
  "xf_valid X c = hd_is_valid_cluster (xf_hadris X) (xf_info X) c"

definition xf_offset :: "'w exfat_fs \<Rightarrow> u32 \<Rightarrow> nat" where
  "xf_offset X c = hd_cluster_to_offset (xf_hadris X) (xf_info X) c"

definition xf_write_bytes :: "'w exfat_fs \<Rightarrow> nat \<Rightarrow> octets \<Rightarrow> ('w, unit) io" where
  "xf_write_bytes X = exfat_write_bytes_at (xf_part_bytes X) (xf_put X) (xf_flush X)"

subsection \<open>FAT entries\<close>

definition exfat_read_fat_entry_inner :: "'w exfat_fs \<Rightarrow> u32 \<Rightarrow> ('w, u32) io" where
  "exfat_read_fat_entry_inner X cluster =
     (let off = ei_fat_offset (xf_info X) + unat cluster * 4 in
      if xf_part_bytes X < off + 4 then io_fail InvalidData
      else io_bind (xf_get X off 4) (\<lambda>buf. io_return (le32_at buf 0)))"

function should_zero_from :: "'w exfat_fs \<Rightarrow> u32 \<Rightarrow> nat \<Rightarrow> nat \<Rightarrow> ('w, bool) io" where
  "should_zero_from X first i n =
     (if n \<le> i then io_return True
      else if 2 ^ 32 \<le> unat first + i then io_fail InvalidData
      else io_bind (exfat_read_fat_entry_inner X (first + word_of_nat i)) (\<lambda>fat.
        if xf_valid X fat then io_return False else should_zero_from X first (i + 1) n))"
  by pat_completeness auto
termination by (relation "measure (\<lambda>(X, first, i, n). n - i)") auto

declare should_zero_from.simps [simp del]

definition exfat_should_zero_fat_for_nofatchain_range ::
  "'w exfat_fs \<Rightarrow> u32 \<Rightarrow> nat \<Rightarrow> ('w, bool) io" where
  "exfat_should_zero_fat_for_nofatchain_range X first_cluster cluster_count =
     should_zero_from X first_cluster 0 cluster_count"

fun write_fat_copies :: "'w exfat_fs \<Rightarrow> u32 \<Rightarrow> u32 \<Rightarrow> nat list \<Rightarrow> ('w, unit) io" where
  "write_fat_copies X cluster val [] = io_return ()"
| "write_fat_copies X cluster val (fat_idx # rest) =
     (let off = ei_fat_offset (xf_info X) + fat_idx * ei_fat_length (xf_info X) + unat cluster * 4 in
      if xf_part_bytes X < off + 4 then io_fail InvalidData
      else io_bind (xf_put X off (le32 val)) (\<lambda>_. write_fat_copies X cluster val rest))"

fun write_fat_list :: "'w exfat_fs \<Rightarrow> (u32 \<times> u32) list \<Rightarrow> ('w, unit) io" where
  "write_fat_list X [] = io_return ()"
| "write_fat_list X ((cluster, val) # entries) =
     (if \<not> xf_valid X cluster then io_fail InvalidData
      else io_bind (write_fat_copies X cluster val [0 ..< unat (ei_fat_count (xf_info X))])
        (\<lambda>_. write_fat_list X entries))"

definition exfat_write_fat_entries :: "'w exfat_fs \<Rightarrow> (u32 \<times> u32) list \<Rightarrow> ('w, unit) io" where
  "exfat_write_fat_entries X entries = io_bind (write_fat_list X entries) (\<lambda>_. xf_flush X)"

fun free_entries :: "u32 \<Rightarrow> nat list \<Rightarrow> io_kind + (u32 \<times> u32) list" where
  "free_entries first [] = Inr []"
| "free_entries first (i # is) =
     (if 2 ^ 32 \<le> unat first + i then Inl InvalidData
      else bind_result (free_entries first is) (\<lambda>es. Inr ((first + word_of_nat i, 0) # es)))"

definition exfat_clear_fat_contiguous_range :: "'w exfat_fs \<Rightarrow> u32 \<Rightarrow> nat \<Rightarrow> ('w, unit) io" where
  "exfat_clear_fat_contiguous_range X first_cluster cluster_count =
     io_bind (io_of (free_entries first_cluster [0 ..< cluster_count])) (exfat_write_fat_entries X)"

subsection \<open>Freeing and taking clusters\<close>

text \<open>The count is computed in \<open>u64\<close>, which wraps in a release build, and cut to \<open>u32\<close>.\<close>

definition exfat_free_entry_clusters :: "'w exfat_fs \<Rightarrow> decoded_entry \<Rightarrow> ('w, unit) io" where
  "exfat_free_entry_clusters X entry =
     (if xe_first_cluster entry < 2 then io_return ()
      else
        let stream_len = max (xe_data_length entry) (xe_valid_data_length entry);
            cluster_count :: u32 =
              (if xe_no_fat_chain entry
               then word_of_nat (max (size_in_clusters stream_len (xf_cluster_bytes X)) 1) else 0)
        in io_bind (xf_free_clusters X (xe_first_cluster entry) cluster_count (xe_no_fat_chain entry)) (\<lambda>_.
             if xe_no_fat_chain entry \<and> 0 < cluster_count
             then exfat_clear_fat_contiguous_range X (xe_first_cluster entry) (unat cluster_count)
             else io_return ()))"

text \<open>The first run of \<open>count\<close> free clusters, or how far the last one got.\<close>

function scan_free :: "'w exfat_fs \<Rightarrow> nat \<Rightarrow> nat \<Rightarrow> nat \<Rightarrow> nat option \<Rightarrow> nat \<Rightarrow> ('w, nat option \<times> nat) io" where
  "scan_free X last_cluster count c run_start run_len =
     (if last_cluster < c then io_return (run_start, run_len)
      else io_bind (xf_is_cluster_allocated X (word_of_nat c)) (\<lambda>taken.
        if taken then scan_free X last_cluster count (c + 1) run_start 0
        else
          let start = (if run_len = 0 then Some c else run_start) in
          if run_len + 1 = count then io_return (start, run_len + 1)
          else scan_free X last_cluster count (c + 1) start (run_len + 1)))"
  by pat_completeness auto
termination
  by (relation "measure (\<lambda>(X, last_cluster, count, c, run_start, run_len). last_cluster + 1 - c)") auto

declare scan_free.simps [simp del]

text \<open>The clusters taken so far are part of the result, whether it is an error or not.\<close>

type_synonym ('w, 'a) alloc_result = "((io_kind + 'a) \<times> u32 list \<times> 'w) option"

fun take_run :: "'w exfat_fs \<Rightarrow> nat \<Rightarrow> nat \<Rightarrow> u32 list \<Rightarrow> 'w \<Rightarrow> ('w, unit) alloc_result" where
  "take_run X want 0 clusters w = Some (Inr (), clusters, w)"
| "take_run X want (Suc n) clusters w =
     (case xf_allocate_cluster X (word_of_nat want) w of
        None \<Rightarrow> None
      | Some (Inl e, w') \<Rightarrow> Some (Inl e, clusters, w')
      | Some (Inr got, w') \<Rightarrow>
          if got \<noteq> word_of_nat want then Some (Inl InvalidData, clusters @ [got], w')
          else take_run X (want + 1) n (clusters @ [got]) w')"

fun take_any :: "'w exfat_fs \<Rightarrow> u32 \<Rightarrow> nat \<Rightarrow> u32 list \<Rightarrow> 'w \<Rightarrow> ('w, unit) alloc_result" where
  "take_any X hint 0 clusters w = Some (Inr (), clusters, w)"
| "take_any X hint (Suc n) clusters w =
     (case xf_allocate_cluster X hint w of
        None \<Rightarrow> None
      | Some (Inl e, w') \<Rightarrow> Some (Inl e, clusters, w')
      | Some (Inr c, w') \<Rightarrow>
          if \<not> xf_valid X c then Some (Inl InvalidData, clusters, w')
          else take_any X (if c = - 1 then c else c + 1) n (clusters @ [c]) w')"

definition then_io :: "('w, unit) alloc_result \<Rightarrow> (u32 list \<Rightarrow> ('w, 'a) io) \<Rightarrow> ('w, 'a) alloc_result" where
  "then_io res f =
     (case res of
        None \<Rightarrow> None
      | Some (Inl e, clusters, w) \<Rightarrow> Some (Inl e, clusters, w)
      | Some (Inr _, clusters, w) \<Rightarrow> map_option (\<lambda>(r, w'). (r, clusters, w')) (f clusters w))"

definition exfat_allocate_file_clusters :: "'w exfat_fs \<Rightarrow> nat \<Rightarrow> 'w \<Rightarrow> ('w, bool) alloc_result" where
  "exfat_allocate_file_clusters X count w =
     (if count = 0 then Some (Inr True, [], w)
      else if xf_free_cluster_count X w < count then Some (Inl StorageFull, [], w)
      else
        case scan_free X (unat (ei_cluster_count (xf_info X) + 1)) count 2 None 0 w of
          None \<Rightarrow> None
        | Some (Inl e, w1) \<Rightarrow> Some (Inl e, [], w1)
        | Some (Inr (run_start, run_len), w1) \<Rightarrow>
            if run_len = count then
              let start = the run_start in
              case exfat_should_zero_fat_for_nofatchain_range X (word_of_nat start) count w1 of
                None \<Rightarrow> None
              | Some (Inl e, w2) \<Rightarrow> Some (Inl e, [], w2)
              | Some (Inr zero, w2) \<Rightarrow>
                  if \<not> zero then Some (Inl InvalidData, [], w2)
                  else then_io (take_run X start count [] w2) (\<lambda>_.
                    io_bind (exfat_clear_fat_contiguous_range X (word_of_nat start) count)
                      (\<lambda>_. io_return True))
            else then_io (take_any X 2 count [] w1) (\<lambda>clusters.
              io_bind (exfat_write_fat_entries X (zip clusters (tl clusters))) (\<lambda>_. io_return False)))"

text \<open>\<open>let _ = ...\<close>: a result that is ignored.\<close>

definition ignoring :: "('w, 'a) io \<Rightarrow> ('w, unit) io" where
  "ignoring m w = map_option (\<lambda>(r, w'). (Inr (), w')) (m w)"

fun release_each :: "'w exfat_fs \<Rightarrow> u32 list \<Rightarrow> ('w, unit) io" where
  "release_each X [] = io_return ()"
| "release_each X (c # cs) = io_bind (ignoring (xf_free_clusters X c 1 True)) (\<lambda>_. release_each X cs)"

definition exfat_release_file_clusters :: "'w exfat_fs \<Rightarrow> u32 list \<Rightarrow> ('w, unit) io" where
  "exfat_release_file_clusters X clusters =
     (if clusters = [] then io_return ()
      else io_bind (release_each X clusters) (\<lambda>_.
        io_bind (ignoring (exfat_write_fat_entries X (map (\<lambda>c. (c, 0)) clusters))) (\<lambda>_.
          ignoring (xf_sync_bitmap X))))"

definition exfat_undo_failed_create :: "'w exfat_fs \<Rightarrow> u32 list \<Rightarrow> entry_write_failed \<Rightarrow> ('w, 'a) io" where
  "exfat_undo_failed_create X clusters failed =
     io_bind
       (if ewf_restored failed then exfat_release_file_clusters X clusters else ignoring (xf_sync_bitmap X))
       (\<lambda>_. io_fail (ewf_error failed))"

subsection \<open>Copying a file into its clusters\<close>

text \<open>The source of the bytes (\<open>impl Read\<close>).\<close>

type_synonym 'd source = "nat \<Rightarrow> 'd \<Rightarrow> (io_kind + octets) \<times> 'd"

function fill_buf :: "'d source \<Rightarrow> nat \<Rightarrow> octets \<Rightarrow> 'd \<Rightarrow> (io_kind + octets) \<times> 'd" where
  "fill_buf src want got d =
     (if want \<le> length got then (Inr got, d)
      else case src (want - length got) d of
        (Inl e, d') \<Rightarrow> (Inl e, d')
      | (Inr xs, d') \<Rightarrow>
          if xs = [] then (Inr got, d') else fill_buf src want (got @ take (want - length got) xs) d')"
  by pat_completeness auto
termination
  by (relation "measure (\<lambda>(src, want, got, d). want - length got)") (auto simp flip: length_greater_0_conv)

declare fill_buf.simps [simp del]

fun write_stream_to ::
  "'w exfat_fs \<Rightarrow> 'd source \<Rightarrow> 'd progress \<Rightarrow> nat \<Rightarrow> u32 list \<Rightarrow> nat \<Rightarrow> ('d \<times> 'w, nat) io" where
  "write_stream_to X src progress len [] written = io_return written"
| "write_stream_to X src progress len (cluster # clusters) written =
     (let want = min (len - written) (xf_cluster_bytes X) in
      io_bind (on_source (fill_buf src want [])) (\<lambda>got.
      io_bind (on_volume (xf_write_bytes X (xf_offset X cluster)
        (got @ replicate (xf_cluster_bytes X - length got) 0))) (\<lambda>_.
      io_bind (if got \<noteq> [] then on_source (goes_on progress (length got))
          else io_return True) (\<lambda>go.
        if \<not> go then io_fail Interrupted
        else if length got < want then io_return (written + length got)
        else write_stream_to X src progress len clusters (written + length got)))))"

definition exfat_write_stream_to_clusters ::
  "'w exfat_fs \<Rightarrow> 'd source \<Rightarrow> 'd progress \<Rightarrow> u32 list \<Rightarrow> nat \<Rightarrow> ('d \<times> 'w, nat) io" where
  "exfat_write_stream_to_clusters X src progress clusters len = write_stream_to X src progress len clusters 0"

partial_function (option) has_more :: "'d source \<Rightarrow> 'd \<Rightarrow> ((io_kind + bool) \<times> 'd) option" where
  "has_more src d =
     (case src 1 d of
        (Inr xs, d') \<Rightarrow> Some (Inr (xs \<noteq> []), d')
      | (Inl e, d') \<Rightarrow> if e = Interrupted then has_more src d' else Some (Inl e, d'))"

definition exfat_source_has_more :: "'d source \<Rightarrow> ('d \<times> 'w, bool) io" where
  "exfat_source_has_more src dw = map_option (\<lambda>(r, d'). (r, d', snd dw)) (has_more src (fst dw))"

subsection \<open>Files\<close>

definition EXFAT_ATTR_DIRECTORY :: u16 where "EXFAT_ATTR_DIRECTORY = 0x10"
definition EXFAT_ATTR_ARCHIVE :: u16 where "EXFAT_ATTR_ARCHIVE = 0x20"

text \<open>Where the entry set goes: a free run, or the slots of the file that is replaced.\<close>

definition file_target ::
  "'w exfat_fs \<Rightarrow> dir_slots \<Rightarrow> rstring \<Rightarrow> nat \<Rightarrow> decoded_entry option \<Rightarrow> ('w, dir_slots \<times> nat) io" where
  "file_target X parent rel_path slot_count' replacing =
     (case replacing of
        None \<Rightarrow>
          io_bind (exfat_find_free_entry_run (xf_read X) parent slot_count' (0, 0)) (\<lambda>first_slot.
            io_return (parent, first_slot))
      | Some old \<Rightarrow>
          io_bind (exfat_locate_entry_set (xf_upper X) (xf_hadris X) (xf_read X) (xf_info X) rel_path (of_decoded old))
            (\<lambda>(dir, slot).
              if 1 + unat (xe_primary old ! 1) \<noteq> slot_count' then io_fail InvalidData
              else io_return (dir, slot)))"

text \<open>The data, then the bitmap, then the bytes of the entry set that will name them.\<close>

definition file_data ::
  "'w exfat_fs \<Rightarrow> 'd source \<Rightarrow> 'd progress \<Rightarrow> rstring \<Rightarrow> nat \<Rightarrow> u32 list \<Rightarrow> bool \<Rightarrow>
     ('d \<times> 'w, octets list) io" where
  "file_data X src progress name len clusters contiguous =
     io_bind (exfat_write_stream_to_clusters X src progress clusters len) (\<lambda>written.
       if written \<noteq> len then io_fail InvalidData
       else io_bind (exfat_source_has_more src) (\<lambda>more'.
         if more' then io_fail InvalidData
         else io_bind (on_volume (xf_sync_bitmap X)) (\<lambda>_.
           io_of (exfat_build_new_entry_set_bytes (xf_hadris X) (xf_now X) name EXFAT_ATTR_ARCHIVE
             (if clusters = [] then 0 else hd clusters) (word_of_nat len) contiguous))))"

definition publish ::
  "'w exfat_fs \<Rightarrow> nat list \<Rightarrow> u32 list \<Rightarrow> io_kind + octets list \<Rightarrow> ('w, unit) io" where
  "publish X offsets clusters result w =
     (case result of
        Inl e \<Rightarrow> exfat_undo_failed_create X clusters \<lparr>ewf_error = e, ewf_restored = True\<rparr> w
      | Inr slabs \<Rightarrow>
          (case exfat_write_entry_slabs_restoring (xf_part_bytes X) (xf_get X) (xf_put X) (xf_flush X)
              offsets slabs w of
             None \<Rightarrow> None
           | Some (Inl failed, w') \<Rightarrow> exfat_undo_failed_create X clusters failed w'
           | Some (Inr u, w') \<Rightarrow> Some (Inr u, w')))"

text \<open>Once the new file is on the card, what the old one held is given back; failing at that is
  reported and undoes nothing.\<close>

definition free_replaced :: "'w exfat_fs \<Rightarrow> decoded_entry option \<Rightarrow> ('w, unit) io" where
  "free_replaced X replacing w =
     (case replacing of
        None \<Rightarrow> Some (Inr (), w)
      | Some old \<Rightarrow>
          (case exfat_free_entry_clusters X old w of
             None \<Rightarrow> None
           | Some (freed, w') \<Rightarrow> io_bind (xf_sync_bitmap X) (\<lambda>_. io_of freed) w'))"

definition create_at ::
  "'w exfat_fs \<Rightarrow> rstring \<Rightarrow> decoded_entry option \<Rightarrow> nat \<Rightarrow> 'd source \<Rightarrow> 'd progress \<Rightarrow> nat \<Rightarrow> nat list \<Rightarrow>
     ('d \<times> 'w, unit) io" where
  "create_at X name replacing len src progress cluster_count offsets dw =
     (case exfat_allocate_file_clusters X cluster_count (snd dw) of
        None \<Rightarrow> None
      | Some (allocated, clusters, w1) \<Rightarrow>
          (case (case allocated of
                   Inl e \<Rightarrow> Some (Inl e, fst dw, w1)
                 | Inr contiguous \<Rightarrow> file_data X src progress name len clusters contiguous (fst dw, w1)) of
             None \<Rightarrow> None
           | Some (result, dw2) \<Rightarrow>
               io_bind (on_volume (publish X offsets clusters result))
                 (\<lambda>_. on_volume (free_replaced X replacing)) dw2))"

definition exfat_create_file_in ::
  "'w exfat_fs \<Rightarrow> dir_slots \<Rightarrow> rstring \<Rightarrow> rstring \<Rightarrow> decoded_entry option \<Rightarrow> nat \<Rightarrow> 'd source \<Rightarrow>
     'd progress \<Rightarrow> ('d \<times> 'w, unit) io" where
  "exfat_create_file_in X parent rel_path name replacing len src progress =
     io_bind (io_of (exfat_validate_rename_name name)) (\<lambda>_.
       let n = exfat_entry_set_len name in
       io_bind (on_volume (file_target X parent rel_path n replacing)) (\<lambda>(dir, slot).
       io_bind (io_of (slot_offsets dir slot n)) (\<lambda>offsets.
         let cluster_count = (len + xf_cluster_bytes X - 1) div xf_cluster_bytes X in
         if 2 ^ 32 \<le> cluster_count then io_fail InvalidInput
         else create_at X name replacing len src progress cluster_count offsets)))"

subsection \<open>Folders\<close>

definition folder_data :: "'w exfat_fs \<Rightarrow> rstring \<Rightarrow> u32 \<Rightarrow> ('w, octets list) io" where
  "folder_data X name cluster =
     (if \<not> xf_valid X cluster then io_fail InvalidData
      else io_bind (exfat_clear_fat_contiguous_range X cluster 1) (\<lambda>_.
        io_bind (xf_write_bytes X (xf_offset X cluster) (replicate (xf_cluster_bytes X) 0)) (\<lambda>_.
        io_bind (xf_sync_bitmap X) (\<lambda>_.
          io_of (exfat_build_new_entry_set_bytes (xf_hadris X) (xf_now X) name EXFAT_ATTR_DIRECTORY cluster
            (word_of_nat (xf_cluster_bytes X)) True)))))"

definition exfat_create_dir_in :: "'w exfat_fs \<Rightarrow> dir_slots \<Rightarrow> rstring \<Rightarrow> ('w, unit) io" where
  "exfat_create_dir_in X parent name =
     io_bind (io_of (exfat_validate_rename_name name)) (\<lambda>_.
       let n = exfat_entry_set_len name in
       io_bind (exfat_find_free_entry_run (xf_read X) parent n (0, 0)) (\<lambda>slot.
       io_bind (io_of (slot_offsets parent slot n)) (\<lambda>offsets.
       io_bind (xf_allocate_cluster X 2) (\<lambda>cluster w.
         case folder_data X name cluster w of
           None \<Rightarrow> None
         | Some (Inl e, w') \<Rightarrow>
             if \<not> xf_valid X cluster then Some (Inl e, w')
             else exfat_undo_failed_create X [cluster] \<lparr>ewf_error = e, ewf_restored = True\<rparr> w'
         | Some (Inr slabs, w') \<Rightarrow> publish X offsets [cluster] (Inr slabs) w'))))"

fun create_missing ::
  "'w exfat_fs \<Rightarrow> rstring list \<Rightarrow> rstring \<Rightarrow> ('w, rstring) io" where
  "create_missing X [] path_prefix = io_return path_prefix"
| "create_missing X (p # parts) path_prefix =
     io_bind (exfat_resolve_dir_slots (xf_upper X) (xf_hadris X) (xf_read X) (xf_info X) path_prefix) (\<lambda>parent.
     io_bind (exfat_list_entries (xf_read X) parent) (\<lambda>es.
     io_bind
       (case find (\<lambda>e. fat_names_equal (xf_upper X) (xe_name e) p) es of
          Some e \<Rightarrow> if entry_is_dir e then io_return () else io_fail AlreadyExists
        | None \<Rightarrow> exfat_create_dir_in X parent p)
       (\<lambda>_. create_missing X parts ((if path_prefix = [] then [] else path_prefix @ [SLASH]) @ p))))"

definition exfat_create_missing_dirs :: "'w exfat_fs \<Rightarrow> rstring list \<Rightarrow> ('w, rstring) io" where
  "exfat_create_missing_dirs X parts = create_missing X parts []"

subsection \<open>Deleting and renaming\<close>

definition exfat_delete_entry_resolved ::
  "'w exfat_fs \<Rightarrow> rstring \<Rightarrow> decoded_entry \<Rightarrow> ('w, unit) io" where
  "exfat_delete_entry_resolved X entry_path entry =
     io_bind
       (if entry_is_dir entry \<and> 2 \<le> xe_first_cluster entry then
          io_bind (load_with (xf_hadris X) (xf_read X) (xf_info X) (xe_first_cluster entry)
            (xe_no_fat_chain entry) (xe_data_length entry)) (\<lambda>children.
          io_bind (exfat_list_entries (xf_read X) children) (\<lambda>es.
            if es \<noteq> [] then io_fail OtherKind else io_return ()))
        else io_return ()) (\<lambda>_.
     io_bind (exfat_locate_entry_set (xf_upper X) (xf_hadris X) (xf_read X) (xf_info X) entry_path (of_decoded entry))
       (\<lambda>(dir, primary_slot).
     io_bind (exfat_finalize_deleted_entry_set (xf_part_bytes X) (xf_read X) (xf_get X) (xf_put X) (xf_flush X)
         dir primary_slot) (\<lambda>_ w.
       case exfat_free_entry_clusters X entry w of
         None \<Rightarrow> None
       | Some (freed, w1) \<Rightarrow>
           (case xf_sync_bitmap X w1 of
              None \<Rightarrow> None
            | Some (synced, w2) \<Rightarrow>
                Some (case freed of Inl e \<Rightarrow> Inl e | Inr _ \<Rightarrow> synced, w2)))))"

fun read_each :: "(nat \<Rightarrow> nat \<Rightarrow> ('w, octets) io) \<Rightarrow> nat list \<Rightarrow> ('w, octets list) io" where
  "read_each get [] = io_return []"
| "read_each get (offset # offsets) =
     io_bind (get offset SLOT_BYTES) (\<lambda>s. io_bind (read_each get offsets) (\<lambda>ss. io_return (s # ss)))"

text \<open>Both ways the new entry set is written: over the old slots, the rest marked deleted; or, when
  it is longer, into free slots before the old ones are marked, and taken out again if that fails.\<close>

definition write_renamed :: "'w exfat_fs \<Rightarrow> dir_slots \<Rightarrow> nat \<Rightarrow> octets list \<Rightarrow> ('w, unit) io" where
  "write_renamed X dir old_slot new_slabs =
     (let put_slabs = exfat_write_entry_slabs_at (xf_part_bytes X) (xf_get X) (xf_put X) (xf_flush X);
          mark = exfat_mark_slots_deleted (xf_part_bytes X) (xf_get X) (xf_put X) (xf_flush X);
          new_total = length new_slabs
      in io_bind (exfat_read_entry_set (xf_read X) dir old_slot) (\<lambda>got.
         case got of
           None \<Rightarrow> io_fail InvalidData
         | Some old_entries \<Rightarrow>
             io_bind (io_of (slot_offsets dir old_slot (length old_entries))) (\<lambda>old_offsets.
               if new_total \<le> length old_entries then
                 io_bind (put_slabs (take new_total old_offsets) new_slabs) (\<lambda>_.
                   mark (drop new_total old_offsets) (drop new_total old_entries))
               else
                 io_bind (exfat_find_free_entry_run (xf_read X) dir new_total
                     (old_slot, old_slot + length old_entries)) (\<lambda>dest_slot.
                 io_bind (io_of (slot_offsets dir dest_slot new_total)) (\<lambda>dest_offsets.
                 io_bind (read_each (xf_get X) dest_offsets) (\<lambda>free_before.
                 io_bind (put_slabs dest_offsets new_slabs) (\<lambda>_ w.
                   case mark old_offsets old_entries w of
                     None \<Rightarrow> None
                   | Some (Inr u, w') \<Rightarrow> Some (Inr u, w')
                   | Some (Inl e, w') \<Rightarrow>
                       map_option (\<lambda>(_, w''). (Inl e, w'')) (put_slabs dest_offsets free_before w'))))))))"

definition rename_cart_exfat :: "'w exfat_fs \<Rightarrow> ('w, unit) io \<Rightarrow> rstring \<Rightarrow> rstring \<Rightarrow> ('w, unit) io" where
  "rename_cart_exfat X flush_serial from_rel to_rel =
     (let parent_path = fst (cart_path_parts from_rel);
          name_to = snd (cart_path_parts to_rel);
          to_path = (if parent_path = [] then name_to else parent_path @ [SLASH] @ name_to)
      in io_bind (exfat_resolve_entry (xf_upper X) (xf_hadris X) (xf_read X) (xf_info X) from_rel) (\<lambda>old.
         io_bind (exfat_locate_entry_set (xf_upper X) (xf_hadris X) (xf_read X) (xf_info X) from_rel (of_decoded old))
           (\<lambda>(dir, old_slot).
         io_bind (exfat_resolve_dir_slots (xf_upper X) (xf_hadris X) (xf_read X) (xf_info X) parent_path)
           (\<lambda>parent_slots.
         io_bind (exfat_list_entries (xf_read X) parent_slots) (\<lambda>es.
         io_bind
           (case find (\<lambda>e. fat_names_equal (xf_upper X) (xe_name e) name_to) es of
              None \<Rightarrow> io_return ()
            | Some candidate \<Rightarrow>
                io_bind (exfat_locate_entry_set (xf_upper X) (xf_hadris X) (xf_read X) (xf_info X) to_path
                    (of_decoded candidate)) (\<lambda>(_, cand_slot).
                  if cand_slot \<noteq> old_slot then io_fail AlreadyExists else io_return ()))
           (\<lambda>_.
         io_bind (io_of (exfat_validate_rename_name name_to)) (\<lambda>_.
         io_bind (io_of (exfat_build_rename_entry_set_bytes (xf_hadris X) old name_to)) (\<lambda>new_slabs.
         io_bind (write_renamed X dir old_slot new_slabs) (\<lambda>_. flush_serial)))))))))"

definition mkdir_cart_exfat :: "'w exfat_fs \<Rightarrow> ('w, unit) io \<Rightarrow> rstring \<Rightarrow> ('w, unit) io" where
  "mkdir_cart_exfat X flush_serial path =
     io_bind (exfat_create_missing_dirs X (segments (dropWhile (\<lambda>c. c = SLASH) (slashes (str_trim path)))))
       (\<lambda>_. flush_serial)"

end
