(* ===== verification/Exfat_Mounted.thy ===== *)
theory Exfat_Mounted
  imports Exfat_Create
begin

text \<open>
  What an operation on a mounted exFAT volume may change. \<open>mounted_volume\<close> is the contract with the
  file system of \<open>hadris-fat\<close>: which clusters its bitmap has taken, and that its own operations
  write only the volume's metadata. Under it, each step of a create changes only metadata, clusters
  that were free, and the sectors of the entry set.
\<close>

subsection \<open>Changes outside a region\<close>

definition same_outside :: "nat set \<Rightarrow> (nat \<Rightarrow> u8) \<Rightarrow> (nat \<Rightarrow> u8) \<Rightarrow> bool" where
  "same_outside R f g \<longleftrightarrow> (\<forall>a. a \<notin> R \<longrightarrow> g a = f a)"

lemma same_outside_refl [simp]: "same_outside R f f"
  by (simp add: same_outside_def)

lemma same_outside_trans:
  "same_outside R f g \<Longrightarrow> same_outside S g h \<Longrightarrow> R \<subseteq> T \<Longrightarrow> S \<subseteq> T \<Longrightarrow> same_outside T f h"
  unfolding same_outside_def by (metis subsetD)

lemma same_outside_mono: "same_outside R f g \<Longrightarrow> R \<subseteq> T \<Longrightarrow> same_outside T f g"
  by (auto simp: same_outside_def)

lemma same_outside_bytes_at:
  "same_outside R f g \<Longrightarrow> {a ..< a + n} \<inter> R = {} \<Longrightarrow> bytes_at g a n = bytes_at f a n"
  by (auto simp: same_outside_def bytes_at_def disjoint_iff)

definition kept ::
  "('w \<Rightarrow> bool) \<Rightarrow> ('w \<Rightarrow> nat \<Rightarrow> u8) \<Rightarrow> ('w \<Rightarrow> u32 set) \<Rightarrow> nat set \<Rightarrow> 'w \<Rightarrow> 'w \<Rightarrow> bool" where
  "kept ok content taken R w w' \<longleftrightarrow>
     ok w' \<and> taken w' = taken w \<and> same_outside R (content w) (content w')"

lemma kept_trans:
  "kept ok content taken R w w1 \<Longrightarrow> kept ok content taken R w1 w2 \<Longrightarrow> kept ok content taken R w w2"
  by (auto simp: kept_def intro: same_outside_trans)

lemma kept_same [simp]: "kept ok content taken R w w \<longleftrightarrow> ok w"
  by (simp add: kept_def)

lemma kept_ok: "kept ok content taken R w w' \<Longrightarrow> ok w'"
  by (simp add: kept_def)

lemma kept_mono: "kept ok content taken R w w' \<Longrightarrow> R \<subseteq> S \<Longrightarrow> kept ok content taken S w w'"
  by (auto simp: kept_def intro: same_outside_mono)

lemma does_kept_bind:
  assumes "does m w (\<lambda>_. kept ok content taken R w)"
    and "\<And>v w'. kept ok content taken R w w' \<Longrightarrow> does (f v) w' (\<lambda>_. kept ok content taken R w')"
  shows "does (io_bind m f) w (\<lambda>_. kept ok content taken R w)"
  using assms(1) by (rule does_bind) (auto intro: kept_trans does_mono [OF assms(2)])

subsection \<open>The contract\<close>

definition cluster_range :: "'w exfat_fs \<Rightarrow> u32 \<Rightarrow> nat set" where
  "cluster_range X c = {xf_offset X c ..< xf_offset X c + xf_cluster_bytes X}"

definition cluster_ranges :: "'w exfat_fs \<Rightarrow> u32 set \<Rightarrow> nat set" where
  "cluster_ranges X cs = (\<Union>c \<in> cs. cluster_range X c)"

locale mounted_volume =
  fixes ok :: "'w \<Rightarrow> bool"
    and content :: "'w \<Rightarrow> nat \<Rightarrow> u8"
    and taken :: "'w \<Rightarrow> u32 set"
    and meta :: "nat set"
    and X :: "'w exfat_fs"
  assumes volume: "exfat_volume (\<lambda>w. ok w \<and> taken w = T) content (xf_read X) (xf_get X) (xf_put X) (xf_flush X)"
    and hadris: "hadris_ok (xf_hadris X)"
    and geometry: "0 < xf_cluster_bytes X" "512 dvd xf_cluster_bytes X" "512 dvd ei_cluster_heap_offset (xf_info X)"
    and fat_in_meta: "xf_valid X c \<Longrightarrow> i < unat (ei_fat_count (xf_info X)) \<Longrightarrow>
      touched (ei_fat_offset (xf_info X) + i * ei_fat_length (xf_info X) + unat c * 4) 4 \<subseteq> meta"
    and clusters_apart: "xf_valid X c \<Longrightarrow> cluster_range X c \<inter> meta = {}"
    and knows: "ok w \<Longrightarrow> does (xf_is_cluster_allocated X c) w
      (\<lambda>r w'. kept ok content taken {} w w' \<and> (\<forall>b. r = Inr b \<longrightarrow> (b \<longleftrightarrow> c \<in> taken w)))"
    and allocates: "ok w \<Longrightarrow> does (xf_allocate_cluster X hint) w
      (\<lambda>r w'. ok w' \<and> same_outside meta (content w) (content w') \<and>
        (case r of Inl e \<Rightarrow> taken w' = taken w | Inr c \<Rightarrow> c \<notin> taken w \<and> taken w' = insert c (taken w)))"
    and frees: "ok w \<Longrightarrow> does (xf_free_clusters X c n contiguous) w
      (\<lambda>r w'. ok w' \<and> same_outside meta (content w) (content w') \<and> taken w' \<subseteq> taken w)"
    and syncs: "ok w \<Longrightarrow> does (xf_sync_bitmap X) w (\<lambda>_. kept ok content taken meta w)"

sublocale mounted_volume \<subseteq> vol: exfat_volume "\<lambda>w. ok w \<and> taken w = T" content "xf_read X" "xf_get X"
  "xf_put X" "xf_flush X" for T
  by (rule volume)

context mounted_volume
begin

lemma valid_iff:
  "xf_valid X c \<longleftrightarrow> 2 \<le> unat c \<and> unat c < 2 + unat (ei_cluster_count (xf_info X))"
  using hadris by (simp add: xf_valid_def hadris_ok_def)

lemma offset_eq:
  "xf_offset X c = ei_cluster_heap_offset (xf_info X) + (unat c - 2) * xf_cluster_bytes X"
  using hadris by (simp add: xf_offset_def hadris_ok_def xf_cluster_bytes_def)

lemma offset_aligned: "512 dvd xf_offset X c"
  using geometry by (simp add: offset_eq)

lemma ranges_disjoint:
  assumes "xf_valid X c" "xf_valid X d" "c \<noteq> d"
  shows "cluster_range X c \<inter> cluster_range X d = {}"
proof -
  let ?b = "xf_cluster_bytes X"
  have "unat c \<noteq> unat d" using assms(3) by (simp add: word_unat_eq_iff)
  with assms have "unat c - 2 \<noteq> unat d - 2" unfolding valid_iff by linarith
  then consider "unat c - 2 + 1 \<le> unat d - 2" | "unat d - 2 + 1 \<le> unat c - 2" by linarith
  then show ?thesis
  proof cases
    case 1
    then have "(unat c - 2 + 1) * ?b \<le> (unat d - 2) * ?b" by (rule mult_le_mono1)
    then show ?thesis by (auto simp: cluster_range_def offset_eq)
  next
    case 2
    then have "(unat d - 2 + 1) * ?b \<le> (unat c - 2) * ?b" by (rule mult_le_mono1)
    then show ?thesis by (auto simp: cluster_range_def offset_eq)
  qed
qed

lemma reads_kept:
  "reads (\<lambda>w'. ok w' \<and> taken w' = taken w) content w m P \<Longrightarrow>
   does m w (\<lambda>r w'. kept ok content taken {} w w' \<and> content w' = content w \<and> (\<forall>v. r = Inr v \<longrightarrow> P v))"
  unfolding does_reads by (erule does_mono) (auto simp: kept_def)

lemma put_kept:
  assumes "ok w" "touched at' (length bs) \<subseteq> R"
  shows "does (xf_put X at' bs) w (\<lambda>r w'. kept ok content taken R w w' \<and>
    (\<forall>u. r = Inr u \<longrightarrow> content w' = overlay (content w) at' bs))"
proof -
  have w: "ok w \<and> taken w = taken w" using assms(1) by simp
  obtain r w' where put: "xf_put X at' bs w = Some (r, w')" using vol.wr_returns [OF w] by blast
  have "same_outside R (content w) (content w')"
    using vol.wr_apart [OF w put] assms(2) by (auto simp: same_outside_def)
  with put vol.wr_ok [OF w put] have "kept ok content taken R w w'" by (simp add: kept_def)
  moreover have "content w' = overlay (content w) at' bs" if "r = Inr u" for u
    using vol.wr_writes [OF w put [unfolded that]] .
  ultimately show ?thesis using put by (auto simp: does_def)
qed

lemma flush_kept:
  "ok w \<Longrightarrow> does (xf_flush X) w (\<lambda>r w'. kept ok content taken {} w w' \<and> content w' = content w)"
  by (rule does_mono [OF reads_kept [OF vol.flush_keeps]]) auto

lemma write_bytes_kept:
  assumes "ok w" "touched offset (length bs) \<subseteq> R"
  shows "does (xf_write_bytes X offset bs) w (\<lambda>r w'. kept ok content taken R w w' \<and>
    (\<forall>u. r = Inr u \<longrightarrow> content w' = overlay (content w) offset bs))"
  unfolding xf_write_bytes_def exfat_write_bytes_at_def
proof (rule does_if)
  show "does (io_fail InvalidData) w (\<lambda>r w'. kept ok content taken R w w' \<and>
    (\<forall>u. r = Inr u \<longrightarrow> content w' = overlay (content w) offset bs))"
    using assms by (simp add: kept_def)
  show "does (io_bind (xf_put X offset bs) (\<lambda>_. xf_flush X)) w (\<lambda>r w'. kept ok content taken R w w' \<and>
    (\<forall>u. r = Inr u \<longrightarrow> content w' = overlay (content w) offset bs))"
  proof (rule does_bind [OF put_kept [OF assms]])
    fix v w' assume w': "kept ok content taken R w w' \<and>
      (\<forall>u. Inr v = Inr u \<longrightarrow> content w' = overlay (content w) offset bs)"
    then have "ok w'" by (simp add: kept_def)
    from flush_kept [OF this] show "does (xf_flush X) w' (\<lambda>r w'. kept ok content taken R w w' \<and>
      (\<forall>u. r = Inr u \<longrightarrow> content w' = overlay (content w) offset bs))"
      by (rule does_mono) (use w' in \<open>auto simp: kept_def same_outside_def\<close>)
  qed auto
qed

subsection \<open>FAT entries\<close>

lemma write_fat_copies_kept:
  assumes "ok w" "xf_valid X cluster" "set idxs \<subseteq> {..< unat (ei_fat_count (xf_info X))}"
  shows "does (write_fat_copies X cluster val idxs) w (\<lambda>_. kept ok content taken meta w)"
  using assms
proof (induction idxs arbitrary: w)
  case (Cons i idxs)
  let ?off = "ei_fat_offset (xf_info X) + i * ei_fat_length (xf_info X) + unat cluster * 4"
  have "touched ?off (length (le32 val)) \<subseteq> meta"
    using fat_in_meta [OF Cons.prems(2), of i] Cons.prems(3) by simp
  from put_kept [OF Cons.prems(1) this] have "does (xf_put X ?off (le32 val)) w (\<lambda>_. kept ok content taken meta w)"
    by (rule does_mono) simp
  then have "does (io_bind (xf_put X ?off (le32 val)) (\<lambda>_. write_fat_copies X cluster val idxs)) w
      (\<lambda>_. kept ok content taken meta w)"
    by (rule does_kept_bind) (use Cons in \<open>auto dest: kept_ok\<close>)
  then show ?case using Cons.prems by (auto simp: Let_def)
qed (simp add: kept_def)

lemma write_fat_list_kept:
  assumes "ok w"
  shows "does (write_fat_list X entries) w (\<lambda>_. kept ok content taken meta w)"
  using assms
proof (induction entries arbitrary: w)
  case (Cons e entries)
  obtain cluster val where e: "e = (cluster, val)" by fastforce
  have "does (io_bind (write_fat_copies X cluster val [0 ..< unat (ei_fat_count (xf_info X))])
      (\<lambda>_. write_fat_list X entries)) w (\<lambda>_. kept ok content taken meta w)" if "xf_valid X cluster"
    using write_fat_copies_kept [OF Cons.prems that]
    by (rule does_kept_bind) (use Cons.IH in \<open>auto dest: kept_ok\<close>)
  with Cons.prems show ?case by (auto simp: e)
qed (simp add: kept_def)

lemma write_fat_entries_kept:
  "ok w \<Longrightarrow> does (exfat_write_fat_entries X entries) w (\<lambda>_. kept ok content taken meta w)"
  unfolding exfat_write_fat_entries_def
  by (rule does_kept_bind [OF write_fat_list_kept], assumption, drule kept_ok, rule does_mono [OF flush_kept])
    (auto intro: kept_mono)

lemma clear_fat_kept:
  "ok w \<Longrightarrow> does (exfat_clear_fat_contiguous_range X first n) w (\<lambda>_. kept ok content taken meta w)"
  unfolding exfat_clear_fat_contiguous_range_def
  by (rule does_kept_bind) (auto dest: kept_ok intro: write_fat_entries_kept)

lemma should_zero_kept:
  assumes "ok w"
  shows "does (should_zero_from X first i n) w (\<lambda>_. kept ok content taken {} w)"
  using assms
proof (induction "n - i" arbitrary: i w rule: less_induct)
  case less
  have entry: "does (exfat_read_fat_entry_inner X c) w (\<lambda>_. kept ok content taken {} w)" for c
  proof -
    have w: "ok w \<and> taken w = taken w" using less.prems by simp
    have "does (xf_get X off 4) w (\<lambda>_. kept ok content taken {} w)" for off
      using reads_kept [OF vol.get_reads [OF w]] by (rule does_mono) simp
    then show ?thesis
      unfolding exfat_read_fat_entry_inner_def Let_def
      by (intro does_if does_kept_bind) (auto simp: kept_def less.prems)
  qed
  have "does (io_bind (exfat_read_fat_entry_inner X (first + word_of_nat i)) (\<lambda>fat.
        if xf_valid X fat then io_return False else should_zero_from X first (i + 1) n)) w
      (\<lambda>_. kept ok content taken {} w)" if "i < n"
  proof (rule does_kept_bind [OF entry])
    fix fat w' assume w': "kept ok content taken {} w w'"
    show "does (if xf_valid X fat then io_return False else should_zero_from X first (i + 1) n) w'
        (\<lambda>_. kept ok content taken {} w')"
      using less.hyps [of "i + 1" w'] that w' by (auto simp: kept_def)
  qed
  with less.prems show ?case by (subst should_zero_from.simps) auto
qed

subsection \<open>Taking clusters\<close>

lemma scan_free_kept:
  assumes "ok w" "run_len < count" "lo + run_len \<le> c" "0 < run_len \<longrightarrow> run_start = Some (c - run_len)"
    and "\<forall>j. c - run_len \<le> j \<and> j < c \<longrightarrow> word_of_nat j \<notin> taken w"
  shows "does (scan_free X last_cluster count c run_start run_len) w (\<lambda>r w'. kept ok content taken {} w w' \<and>
    (\<forall>rs rl. r = Inr (rs, rl) \<longrightarrow> rl = count \<longrightarrow> (\<exists>s. rs = Some s \<and> lo \<le> s \<and> s + count \<le> last_cluster + 1)))"
    (is "does _ _ (?Q w)")
  using assms
proof (induction "last_cluster + 1 - c" arbitrary: c run_start run_len w rule: less_induct)
  case less
  show ?case
  proof (cases "last_cluster < c")
    case True
    with less.prems show ?thesis by (subst scan_free.simps) auto
  next
    case False
    let ?start = "if run_len = 0 then Some c else run_start"
    have next': "does (scan_free X last_cluster count (c + 1) rs rl) w1 (?Q w)"
      if "kept ok content taken {} w w1" "does (scan_free X last_cluster count (c + 1) rs rl) w1 (?Q w1)" for rs rl w1
      using that(2) by (rule does_mono) (use that(1) in \<open>auto intro: kept_trans\<close>)
    have "does (io_bind (xf_is_cluster_allocated X (word_of_nat c)) (\<lambda>taken'.
        if taken' then scan_free X last_cluster count (c + 1) run_start 0
        else if run_len + 1 = count then io_return (?start, run_len + 1)
          else scan_free X last_cluster count (c + 1) ?start (run_len + 1))) w (?Q w)"
    proof (rule does_bind [OF knows [OF less.prems(1)]])
      fix b w1 assume w1: "kept ok content taken {} w w1 \<and> (\<forall>b'. Inr b = Inr b' \<longrightarrow> (b' \<longleftrightarrow> word_of_nat c \<in> taken w))"
      then have ok1: "ok w1" "taken w1 = taken w" by (simp_all add: kept_def)
      have start: "?start = Some (c - run_len)" using less.prems(4) by auto
      show "does (if b then scan_free X last_cluster count (c + 1) run_start 0
          else if run_len + 1 = count then io_return (?start, run_len + 1)
          else scan_free X last_cluster count (c + 1) ?start (run_len + 1)) w1 (?Q w)"
      proof (intro does_if)
        show "does (scan_free X last_cluster count (c + 1) run_start 0) w1 (?Q w)"
        proof (rule next')
          show "does (scan_free X last_cluster count (c + 1) run_start 0) w1 (?Q w1)"
            by (rule less.hyps) (use ok1 less.prems(2,3) False in auto)
        qed (use w1 in simp)
        show "does (io_return (?start, run_len + 1)) w1 (?Q w)" if "run_len + 1 = count"
          using that w1 less.prems(3) False start by auto
        assume b: "\<not> b" "run_len + 1 \<noteq> count"
        show "does (scan_free X last_cluster count (c + 1) ?start (run_len + 1)) w1 (?Q w)"
        proof (rule next')
          have "word_of_nat j \<notin> taken w1" if "c + 1 - (run_len + 1) \<le> j" "j < c + 1" for j
            using that less.prems(5) w1 b ok1(2) by (cases "j = c") auto
          then show "does (scan_free X last_cluster count (c + 1) ?start (run_len + 1)) w1 (?Q w1)"
            using ok1 less.prems(2,3) False start b by (intro less.hyps) auto
        qed (use w1 in simp)
      qed
    qed auto
    with False show ?thesis by (subst scan_free.simps) (simp only: Let_def if_False)
  qed
qed

text \<open>The clusters taken are new, and what was taken before still is.\<close>

definition took :: "u32 list \<Rightarrow> 'w \<Rightarrow> u32 list \<Rightarrow> 'w \<Rightarrow> bool" where
  "took clusters w cs w' \<longleftrightarrow>
     ok w' \<and> same_outside meta (content w) (content w') \<and> taken w \<subseteq> taken w' \<and>
     (\<exists>new. cs = clusters @ new \<and> distinct new \<and> set new \<inter> taken w = {} \<and> set new \<subseteq> taken w')"

lemma took_refl: "ok w \<Longrightarrow> took clusters w clusters w"
  by (auto simp: took_def)

lemma took_step:
  assumes "same_outside meta (content w) (content w1)" "c \<notin> taken w" "taken w1 = insert c (taken w)"
    and "took (clusters @ [c]) w1 cs w'"
  shows "took clusters w cs w'"
proof -
  from assms(4) obtain new where "cs = clusters @ c # new" "distinct new" "set new \<inter> taken w1 = {}"
    "set new \<subseteq> taken w'" "ok w'" "taken w1 \<subseteq> taken w'" "same_outside meta (content w1) (content w')"
    by (auto simp: took_def)
  with assms(1-3) show ?thesis
    by (auto simp: took_def intro: same_outside_trans intro!: exI [of _ "c # new"])
qed

lemma allocate_cases:
  assumes "ok w"
  obtains (failed) e w1 where "xf_allocate_cluster X hint w = Some (Inl e, w1)" "ok w1"
      "same_outside meta (content w) (content w1)" "taken w1 = taken w"
  | (got) c w1 where "xf_allocate_cluster X hint w = Some (Inr c, w1)" "ok w1"
      "same_outside meta (content w) (content w1)" "c \<notin> taken w" "taken w1 = insert c (taken w)"
proof -
  obtain r w1 where r: "xf_allocate_cluster X hint w = Some (r, w1)" "ok w1"
      "same_outside meta (content w) (content w1)"
      "case r of Inl e \<Rightarrow> taken w1 = taken w | Inr c \<Rightarrow> c \<notin> taken w \<and> taken w1 = insert c (taken w)"
    using allocates [OF assms, of hint] by (auto simp: does_def)
  then show thesis using failed got by (cases r) auto
qed

lemma take_run_result:
  assumes "ok w"
  shows "\<exists>r cs w'. take_run X want n clusters w = Some (r, cs, w') \<and> took clusters w cs w' \<and>
    (\<forall>u. r = Inr u \<longrightarrow> cs = clusters @ map word_of_nat [want ..< want + n])"
  using assms
proof (induction n arbitrary: want clusters w)
  case (Suc n)
  from Suc.prems show ?case
  proof (cases rule: allocate_cases [where hint = "word_of_nat want"])
    case (failed e w1)
    then show ?thesis by (auto simp: took_def)
  next
    case (got c w1)
    show ?thesis
    proof (cases "c = word_of_nat want")
      case True
      from Suc.IH [OF got(2), of "want + 1" "clusters @ [c]"] obtain r cs w' where
        "take_run X (want + 1) n (clusters @ [c]) w1 = Some (r, cs, w')" "took (clusters @ [c]) w1 cs w'"
        "\<forall>u. r = Inr u \<longrightarrow> cs = (clusters @ [c]) @ map word_of_nat [want + 1 ..< want + 1 + n]" by blast
      with True got took_step [OF got(3-5)] show ?thesis by (auto simp: upt_rec)
    next
      case False
      with got took_step [OF got(3-5) took_refl [OF got(2)]] show ?thesis by auto
    qed
  qed
qed (auto simp: took_refl)

lemma take_any_result:
  assumes "ok w"
  shows "\<exists>r cs w'. take_any X hint n clusters w = Some (r, cs, w') \<and> took clusters w cs w' \<and>
    (\<forall>u. r = Inr u \<longrightarrow> length cs = length clusters + n \<and> (\<forall>c \<in> set cs - set clusters. xf_valid X c))"
  using assms
proof (induction n arbitrary: hint clusters w)
  case (Suc n)
  from Suc.prems show ?case
  proof (cases rule: allocate_cases [where hint = hint])
    case (failed e w1)
    then show ?thesis by (auto simp: took_def)
  next
    case (got c w1)
    show ?thesis
    proof (cases "xf_valid X c")
      case True
      let ?h = "if c = - 1 then c else c + 1"
      from Suc.IH [OF got(2), of ?h "clusters @ [c]"] obtain r cs w' where
        "take_any X ?h n (clusters @ [c]) w1 = Some (r, cs, w')" "took (clusters @ [c]) w1 cs w'"
        "\<forall>u. r = Inr u \<longrightarrow> length cs = length (clusters @ [c]) + n \<and> (\<forall>c \<in> set cs - set (clusters @ [c]). xf_valid X c)"
        by blast
      with True got took_step [OF got(3-5)] show ?thesis by auto
    next
      case False
      with got show ?thesis by (auto simp: took_def)
    qed
  qed
qed (auto simp: took_refl)

lemma then_io_took:
  assumes "res = Some (r, cs, w1)" "took [] w cs w1"
    and "\<And>u. r = Inr u \<Longrightarrow> does (f cs) w1 (\<lambda>r' w'. kept ok content taken meta w1 w' \<and> (\<forall>v. r' = Inr v \<longrightarrow> P v cs))"
  shows "\<exists>r' cs w'. then_io res f = Some (r', cs, w') \<and> took [] w cs w' \<and> (\<forall>v. r' = Inr v \<longrightarrow> P v cs)"
proof (cases r)
  case (Inl e)
  with assms(1,2) show ?thesis by (auto simp: then_io_def)
next
  case (Inr u)
  from assms(3) [OF this] obtain r' w' where "f cs w1 = Some (r', w')" "kept ok content taken meta w1 w'"
    "\<forall>v. r' = Inr v \<longrightarrow> P v cs" by (auto simp: does_def)
  with assms(1,2) Inr show ?thesis
    by (auto simp: then_io_def took_def kept_def intro: same_outside_trans)
qed

definition taken_run :: "bool \<Rightarrow> u32 list \<Rightarrow> bool" where
  "taken_run contiguous cs \<longleftrightarrow>
     (\<forall>c \<in> set cs. xf_valid X c) \<and>
     (contiguous \<longrightarrow> cs = map (\<lambda>i. hd cs + word_of_nat i) [0 ..< length cs])"

lemma allocate_result:
  assumes "ok w"
  shows "\<exists>r cs w'. exfat_allocate_file_clusters X count w = Some (r, cs, w') \<and> took [] w cs w' \<and>
    (\<forall>contiguous. r = Inr contiguous \<longrightarrow> length cs = count \<and> taken_run contiguous cs)"
proof (cases "count = 0 \<or> xf_free_cluster_count X w < count")
  case True
  with assms show ?thesis by (auto simp: exfat_allocate_file_clusters_def took_refl taken_run_def)
next
  case nz: False
  let ?last = "unat (ei_cluster_count (xf_info X) + 1)"
  have "does (scan_free X ?last count 2 None 0) w (\<lambda>r w'. kept ok content taken {} w w' \<and>
    (\<forall>rs rl. r = Inr (rs, rl) \<longrightarrow> rl = count \<longrightarrow> (\<exists>s. rs = Some s \<and> 2 \<le> s \<and> s + count \<le> ?last + 1)))"
    using nz assms by (intro scan_free_kept) auto
  then obtain r1 w1 where scan: "scan_free X ?last count 2 None 0 w = Some (r1, w1)"
    and w1: "kept ok content taken {} w w1"
    and run: "\<forall>rs rl. r1 = Inr (rs, rl) \<longrightarrow> rl = count \<longrightarrow> (\<exists>s. rs = Some s \<and> 2 \<le> s \<and> s + count \<le> ?last + 1)"
    by (auto simp: does_def)
  have via: "took [] w cs w'" if "took [] v cs w'" "kept ok content taken {} w v" for cs v w'
    using that by (auto simp: took_def kept_def intro: same_outside_trans)
  have stop: "took [] w [] v" if "kept ok content taken {} w v" for v
    using that by (intro via [OF took_refl]) (auto simp: kept_def)
  show ?thesis
  proof (cases r1)
    case (Inl e)
    with scan nz stop [OF w1] show ?thesis by (simp add: exfat_allocate_file_clusters_def)
  next
    case (Inr rs)
    obtain run_start run_len where rs: "rs = (run_start, run_len)" by fastforce
    show ?thesis
    proof (cases "run_len = count")
      case True
      with run Inr rs obtain start where start: "run_start = Some start" "2 \<le> start" "start + count \<le> ?last + 1"
        by auto
      obtain r2 w2 where zero: "exfat_should_zero_fat_for_nofatchain_range X (word_of_nat start) count w1 = Some (r2, w2)"
        and w2: "kept ok content taken {} w1 w2"
        using should_zero_kept [OF kept_ok [OF w1], of "word_of_nat start" 0 count]
        by (auto simp: does_def exfat_should_zero_fat_for_nofatchain_range_def)
      note to2 = kept_trans [OF w1 w2]
      show ?thesis
      proof (cases "r2 = Inr True")
        case False
        with scan Inr rs True start zero stop [OF to2] nz show ?thesis
          by (cases r2) (auto simp: exfat_allocate_file_clusters_def)
      next
        case go: True
        have bound: "?last \<le> unat (ei_cluster_count (xf_info X)) + 1" "?last < 2 ^ 32"
          using unsigned_less [of "ei_cluster_count (xf_info X) + 1"]
          by (simp_all add: unat_word_ariths(1))
        have cs: "taken_run True (map word_of_nat [start ..< start + count])"
        proof -
          have "xf_valid X (word_of_nat j)" if "start \<le> j" "j < start + count" for j
          proof -
            have "j < 2 ^ 32" using that start(3) bound(2) by linarith
            then have "unat (word_of_nat j :: u32) = j" by (simp add: unat_of_nat)
            with that start(2,3) bound(1) show ?thesis by (simp add: valid_iff)
          qed
          moreover have "map word_of_nat [start ..< start + count] =
              map (\<lambda>i. word_of_nat start + word_of_nat i :: u32) [0 ..< count]"
            by (rule nth_equalityI) simp_all
          moreover have "hd (map word_of_nat [start ..< start + count]) = (word_of_nat start :: u32)"
            using nz by (simp add: hd_map)
          moreover have "\<forall>c \<in> set (map word_of_nat [start ..< start + count]). xf_valid X c"
            using calculation(1) by simp
          ultimately show ?thesis unfolding taken_run_def by (metis diff_add_inverse length_map length_upt)
        qed
        obtain r3 cs3 w3 where t: "take_run X start count [] w2 = Some (r3, cs3, w3)" "took [] w2 cs3 w3"
          "\<forall>u. r3 = Inr u \<longrightarrow> cs3 = [] @ map word_of_nat [start ..< start + count]"
          using take_run_result [OF kept_ok [OF w2]] by blast
        have "\<exists>r' cs w'. then_io (take_run X start count [] w2) (\<lambda>_.
              io_bind (exfat_clear_fat_contiguous_range X (word_of_nat start) count) (\<lambda>_. io_return True)) =
            Some (r', cs, w') \<and> took [] w2 cs w' \<and>
            (\<forall>v. r' = Inr v \<longrightarrow> (v = True \<and> length cs = count \<and> taken_run True cs))"
        proof (rule then_io_took [OF t(1,2)])
          fix u assume "r3 = Inr u"
          with t(3) cs have done': "length cs3 = count \<and> taken_run True cs3" by simp
          have "ok w3" using t(2) by (simp add: took_def)
          show "does (io_bind (exfat_clear_fat_contiguous_range X (word_of_nat start) count) (\<lambda>_. io_return True)) w3
            (\<lambda>r' w'. kept ok content taken meta w3 w' \<and>
              (\<forall>v. r' = Inr v \<longrightarrow> v = True \<and> length cs3 = count \<and> taken_run True cs3))"
            by (rule does_bind [OF clear_fat_kept [OF \<open>ok w3\<close>]]) (use done' in auto)
        qed
        with scan Inr rs True start zero go via [OF _ to2] nz show ?thesis
          by (auto simp: exfat_allocate_file_clusters_def)
      qed
    next
      case False
      obtain r3 cs3 w3 where t: "take_any X 2 count [] w1 = Some (r3, cs3, w3)" "took [] w1 cs3 w3"
        "\<forall>u. r3 = Inr u \<longrightarrow> length cs3 = length ([] :: u32 list) + count \<and> (\<forall>c \<in> set cs3 - set []. xf_valid X c)"
        using take_any_result [OF kept_ok [OF w1]] by blast
      have "\<exists>r' cs w'. then_io (take_any X 2 count [] w1) (\<lambda>clusters.
            io_bind (exfat_write_fat_entries X (zip clusters (tl clusters))) (\<lambda>_. io_return False)) =
          Some (r', cs, w') \<and> took [] w1 cs w' \<and>
          (\<forall>v. r' = Inr v \<longrightarrow> (v = False \<and> length cs = count \<and> taken_run False cs))"
      proof (rule then_io_took [OF t(1,2)])
        fix u assume "r3 = Inr u"
        with t(3) have done': "length cs3 = count \<and> taken_run False cs3" by (simp add: taken_run_def)
        have "ok w3" using t(2) by (simp add: took_def)
        show "does (io_bind (exfat_write_fat_entries X (zip cs3 (tl cs3))) (\<lambda>_. io_return False)) w3
          (\<lambda>r' w'. kept ok content taken meta w3 w' \<and>
            (\<forall>v. r' = Inr v \<longrightarrow> v = False \<and> length cs3 = count \<and> taken_run False cs3))"
          by (rule does_bind [OF write_fat_entries_kept [OF \<open>ok w3\<close>]]) (use done' in auto)
      qed
      with scan Inr rs False via [OF _ w1] nz show ?thesis
        by (auto simp: exfat_allocate_file_clusters_def)
    qed
  qed
qed

subsection \<open>Giving clusters back\<close>

definition undone :: "'w \<Rightarrow> 'w \<Rightarrow> bool" where
  "undone w w' \<longleftrightarrow> ok w' \<and> taken w' \<subseteq> taken w \<and> same_outside meta (content w) (content w')"

lemma undone_trans: "undone w w1 \<Longrightarrow> undone w1 w2 \<Longrightarrow> undone w w2"
  by (auto simp: undone_def intro: same_outside_trans)

lemma kept_undone: "kept ok content taken meta w w' \<Longrightarrow> undone w w'"
  by (simp add: kept_def undone_def)

lemma undone_bind:
  assumes "does m w (\<lambda>_. undone w)" "\<And>v w'. undone w w' \<Longrightarrow> does (f v) w' (\<lambda>_. undone w')"
  shows "does (io_bind m f) w (\<lambda>_. undone w)"
  using assms(1) by (rule does_bind) (auto intro: undone_trans does_mono [OF assms(2)])

lemma ignoring_undone: "does m w (\<lambda>_. undone w) \<Longrightarrow> does (ignoring m) w (\<lambda>r w'. undone w w' \<and> r = Inr ())"
  by (auto simp: does_def ignoring_def)

lemma does_undone: "does m w (\<lambda>r w'. undone w w' \<and> P r) \<Longrightarrow> does m w (\<lambda>_. undone w)"
  by (erule does_mono) simp

lemma frees_undone: "ok w \<Longrightarrow> does (xf_free_clusters X c n contiguous) w (\<lambda>_. undone w)"
  by (rule does_mono [OF frees]) (auto simp: undone_def)

lemma syncs_undone: "ok w \<Longrightarrow> does (xf_sync_bitmap X) w (\<lambda>_. undone w)"
  by (rule does_mono [OF syncs]) (auto intro: kept_undone)

lemma undone_ok: "undone w w' \<Longrightarrow> ok w'"
  by (simp add: undone_def)

lemma ignored_bind:
  assumes "does m w (\<lambda>_. undone w)"
    and "\<And>w'. undone w w' \<Longrightarrow> does (f ()) w' (\<lambda>r w''. undone w' w'' \<and> P r)"
  shows "does (io_bind (ignoring m) f) w (\<lambda>r w'. undone w w' \<and> P r)"
  using ignoring_undone [OF assms(1)]
  by (rule does_bind) (auto intro: undone_trans does_mono [OF assms(2)])

lemma release_each_undone:
  "ok w \<Longrightarrow> does (release_each X cs) w (\<lambda>r w'. undone w w' \<and> r = Inr ())"
proof (induction cs arbitrary: w)
  case (Cons c cs)
  show ?case unfolding release_each.simps
    by (rule ignored_bind [OF frees_undone [OF Cons.prems]]) (rule Cons.IH [OF undone_ok])
qed (simp add: undone_def)

lemma release_undone:
  assumes "ok w"
  shows "does (exfat_release_file_clusters X cs) w (\<lambda>r w'. undone w w' \<and> r = Inr ())"
  unfolding exfat_release_file_clusters_def
proof (rule does_if)
  have fat: "does (exfat_write_fat_entries X es) w' (\<lambda>_. undone w')" if "ok w'" for es w'
    by (rule does_mono [OF write_fat_entries_kept [OF that]]) (rule kept_undone)
  show "does (io_bind (release_each X cs) (\<lambda>_.
        io_bind (ignoring (exfat_write_fat_entries X (map (\<lambda>c. (c, 0)) cs))) (\<lambda>_. ignoring (xf_sync_bitmap X)))) w
      (\<lambda>r w'. undone w w' \<and> r = Inr ())"
  proof (rule does_bind [OF release_each_undone [OF assms]])
    fix u w1 assume "undone w w1 \<and> Inr u = Inr ()"
    then have w1: "undone w w1" by simp
    have "does (io_bind (ignoring (exfat_write_fat_entries X (map (\<lambda>c. (c, 0)) cs))) (\<lambda>_. ignoring (xf_sync_bitmap X))) w1
        (\<lambda>r w'. undone w1 w' \<and> r = Inr ())"
      by (rule ignored_bind [OF fat [OF undone_ok [OF w1]]], rule ignoring_undone, rule syncs_undone, rule undone_ok)
    then show "does (io_bind (ignoring (exfat_write_fat_entries X (map (\<lambda>c. (c, 0)) cs))) (\<lambda>_. ignoring (xf_sync_bitmap X))) w1
        (\<lambda>r w'. undone w w' \<and> r = Inr ())"
      by (rule does_mono) (use w1 in \<open>auto intro: undone_trans\<close>)
  qed auto
qed (use assms in \<open>simp add: undone_def\<close>)

lemma undo_create_undone:
  assumes "ok w"
  shows "does (exfat_undo_failed_create X cs failed) w (\<lambda>r w'. undone w w' \<and> r = Inl (ewf_error failed))"
  unfolding exfat_undo_failed_create_def
proof (rule does_bind)
  show "does (if ewf_restored failed then exfat_release_file_clusters X cs else ignoring (xf_sync_bitmap X)) w
    (\<lambda>r w'. undone w w' \<and> r = Inr ())"
    by (intro does_if release_undone ignoring_undone syncs_undone assms)
qed auto

lemma free_entry_undone:
  assumes "ok w"
  shows "does (exfat_free_entry_clusters X e) w (\<lambda>_. undone w)"
proof -
  have clear: "does (if b then exfat_clear_fat_contiguous_range X c n else io_return ()) w' (\<lambda>_. undone w')"
    if "ok w'" for b c n w'
    using that by (intro does_if does_mono [OF clear_fat_kept [OF that, of c n]]) (auto simp: undone_def kept_def)
  show ?thesis
    unfolding exfat_free_entry_clusters_def Let_def
    by (intro does_if undone_bind [OF frees_undone [OF assms]] clear) (use assms in \<open>auto simp: undone_def\<close>)
qed

lemma free_replaced_undone:
  assumes "ok w"
  shows "does (free_replaced X replacing) w (\<lambda>_. undone w)"
proof (cases replacing)
  case None
  with assms show ?thesis by (simp add: does_def free_replaced_def undone_def)
next
  case (Some old)
  obtain r w1 where r: "exfat_free_entry_clusters X old w = Some (r, w1)" "undone w w1"
    using free_entry_undone [OF assms, of old] by (auto simp: does_def)
  have "does (io_bind (xf_sync_bitmap X) (\<lambda>_. io_of r)) w1 (\<lambda>_. undone w1)"
    by (rule undone_bind [OF syncs_undone]) (use r(2) in \<open>auto simp: undone_def\<close>)
  with r Some show ?thesis by (auto simp: does_def free_replaced_def intro: undone_trans)
qed

end

subsection \<open>The data of a file\<close>

text \<open>What is relied on of the source of a copy (\<open>std::io::Read\<close>): a read gives the next bytes, none only
  at the end, and it is not interrupted for ever.\<close>

locale copy_source =
  fixes src :: "'d source" and progress :: "'d progress" and rest :: "'d \<Rightarrow> octets"
  assumes src_gives: "src n d = (Inr xs, d') \<Longrightarrow> rest d = xs @ rest d' \<and> length xs \<le> n"
    and src_ends: "src n d = (Inr [], d') \<Longrightarrow> 0 < n \<Longrightarrow> rest d = []"
    and src_fails: "src n d = (Inl e, d') \<Longrightarrow> rest d' = rest d"
    and src_returns: "\<exists>r d'. has_more src d = Some (r, d')"
    and progress_gives: "progress n d = (go, d') \<Longrightarrow> rest d' = rest d"
begin

lemma fill_buf_gives:
  assumes "fill_buf src want got d = (Inr bs, d')"
  shows "\<exists>xs. bs = got @ xs \<and> rest d = xs @ rest d' \<and> length bs \<le> max want (length got) \<and>
    (length bs < want \<longrightarrow> rest d' = [])"
  using assms
proof (induction "want - length got" arbitrary: got d rule: less_induct)
  case less
  show ?case
  proof (cases "want \<le> length got")
    case True
    with less.prems show ?thesis by (auto simp: fill_buf.simps [of src want got d])
  next
    case False
    obtain r d1 where r: "src (want - length got) d = (r, d1)" by fastforce
    with False less.prems obtain xs where xs: "r = Inr xs"
      by (cases r) (auto simp: fill_buf.simps [of src want got d])
    note gives = src_gives [OF r [unfolded xs]]
    show ?thesis
    proof (cases "xs = []")
      case True
      with False less.prems r xs gives src_ends [of "want - length got" d d1] show ?thesis
        by (auto simp: fill_buf.simps [of src want got d])
    next
      case more: False
      have "fill_buf src want (got @ xs) d1 = (Inr bs, d')"
        using False less.prems r xs more gives by (simp add: fill_buf.simps [of src want got d])
      moreover have "want - length (got @ xs) < want - length got"
        using more False by (simp flip: length_greater_0_conv)
      ultimately obtain ys where ys: "bs = (got @ xs) @ ys" "rest d1 = ys @ rest d'"
        "length bs \<le> max want (length (got @ xs))" "length bs < want \<longrightarrow> rest d' = []"
        using less.hyps by blast
      have "bs = got @ (xs @ ys) \<and> rest d = (xs @ ys) @ rest d' \<and> length bs \<le> max want (length got)"
        using ys(1-3) gives False by (auto simp: max_def split: if_splits)
      with ys(4) show ?thesis by blast
    qed
  qed
qed

lemma has_more_ends:
  assumes "has_more src d = Some (Inr False, d')"
  shows "rest d = []"
proof -
  have "s = src \<longrightarrow> fst rd = Inr False \<longrightarrow> rest d = []" if "has_more s d = Some rd" for s d rd
  proof (rule has_more.raw_induct [OF _ that])
    fix hm s d rd
    assume IH: "\<And>s d rd. hm s d = Some rd \<Longrightarrow> s = src \<longrightarrow> fst rd = Inr False \<longrightarrow> rest d = []"
      and step: "(case s 1 d of
          (Inl e, d') \<Rightarrow> if e = Interrupted then hm s d' else Some (Inl e, d')
        | (Inr xs, d') \<Rightarrow> Some (Inr (xs \<noteq> []), d')) = Some rd"
    obtain r d' where r: "s 1 d = (r, d')" by fastforce
    show "s = src \<longrightarrow> fst rd = Inr False \<longrightarrow> rest d = []"
      using step r IH [of s d'] src_ends [of 1 d d'] src_fails [of 1 d _ d']
      by (cases r) (auto split: if_splits)
  qed
  with assms show ?thesis by force
qed

end

end
