(* ===== verification/Exfat_Sample.thy ===== *)
theory Exfat_Sample
  imports Exfat_Slots
begin

text \<open>
  A small exFAT volume: what the properties of the exFAT layer are tried on. One sector to a cluster;
  the boot sector, one sector of FAT, then the clusters: the root folder in cluster 2 with one file,
  \<open>ab\<close> in cluster 3, of 5 bytes of which 3 were written.
\<close>

fun bytes_of_pieces :: "(nat \<times> octets) list \<Rightarrow> nat \<Rightarrow> u8" where
  "bytes_of_pieces [] a = 0"
| "bytes_of_pieces ((p, bs) # ps) a =
     (if a < p then bytes_of_pieces ps a
      else case get_at bs (a - p) of Some b \<Rightarrow> b | None \<Rightarrow> bytes_of_pieces ps a)"

text \<open>From the last piece to the first.\<close>

definition sample_volume :: "nat \<Rightarrow> u8" where
  "sample_volume = bytes_of_pieces
     [(1536, [104, 101, 108, 108, 111]),
      (1088, [0xC1, 0, 97, 0, 98]),
      (1076, [3, 0, 0, 0, 5]), (1056, [0xC0, 3, 0, 2, 0, 0, 0, 0, 3]),
      (1024, [0x85, 2, 0, 0, 0x20]),
      (520, [0xFF, 0xFF, 0xFF, 0xFF]),
      (108, [9, 0, 1]), (96, [2]), (92, [4]), (88, [2]), (84, [1]), (80, [1]), (3, EXFAT_MAGIC)]"

definition sample_hadris :: hadris where
  "sample_hadris =
     \<lparr>hd_is_valid_cluster = (\<lambda>info c. 2 \<le> unat c \<and> unat c < 2 + unat (ei_cluster_count info)),
      hd_cluster_to_offset = (\<lambda>info c. ei_cluster_heap_offset info + (unat c - 2) * ei_bytes_per_cluster info),
      hd_name_hash = (\<lambda>_. 0)\<rparr>"

lemma sample_hadris_ok: "hadris_ok sample_hadris"
  by (simp add: hadris_ok_def sample_hadris_def)

definition sample_info :: exfat_info where
  "sample_info =
     \<lparr>ei_bytes_per_sector = 512, ei_sectors_per_cluster = 1, ei_bytes_per_cluster = 512, ei_fat_offset = 512,
      ei_fat_length = 512, ei_cluster_heap_offset = 1024, ei_cluster_count = 4, ei_root_cluster = 2,
      ei_volume_serial = 0, ei_fat_count = 1\<rparr>"

definition sample_root :: dir_slots where
  "sample_root = \<lparr>ds_cluster_offsets = [1024], ds_slots_per_cluster = 16\<rparr>"

definition sample_entry :: decoded_entry where
  "sample_entry =
     \<lparr>xe_name = [97, 98], xe_attributes = 0x20, xe_first_cluster = 3, xe_data_length = 5,
      xe_valid_data_length = 3, xe_no_fat_chain = True, xe_primary = [0x85, 2, 0, 0, 0x20] @ replicate 27 0\<rparr>"

lemma sample_fields [simp]:
  "xe_name sample_entry = [97, 98]" "xe_first_cluster sample_entry = 3" "xe_data_length sample_entry = 5"
  "xe_valid_data_length sample_entry = 3" "xe_no_fat_chain sample_entry" "\<not> entry_is_dir sample_entry"
  "ei_bytes_per_cluster sample_info = 512" "ei_root_cluster sample_info = 2"
  by (simp_all add: sample_entry_def sample_info_def entry_is_dir_def ATTR_DIRECTORY_def)

subsection \<open>Reading it\<close>

lemma bytes_at_small:
  "bytes_at f a 2 = [f a, f (a + 1)]"
  "bytes_at f a 3 = [f a, f (a + 1), f (a + 2)]"
  "bytes_at f a 4 = [f a, f (a + 1), f (a + 2), f (a + 3)]"
  "bytes_at f a 8 = [f a, f (a + 1), f (a + 2), f (a + 3), f (a + 4), f (a + 5), f (a + 6), f (a + 7)]"
  by (simp_all add: bytes_at_def upt_rec numeral_eq_Suc)

lemma sample_info: "exfat_info_of (bytes_at sample_volume 0 512) = Inr sample_info"
  by (simp add: exfat_info_of_def slice_bytes_at Let_def le32_at_def bytes_at_small sample_volume_def EXFAT_MAGIC_def
      get_at_def sample_info_def)

lemma sample_info_from_disk: "exfat_info_from_disk mem_get sample_volume = Some (Inr sample_info, sample_volume)"
  by (simp add: exfat_info_from_disk_def mem_get_def io_bind_def sample_info)

text \<open>A reader that gives the sample's bytes, whatever state it keeps.\<close>

definition serves :: "(nat \<Rightarrow> nat \<Rightarrow> ('s, octets) io) \<Rightarrow> 's \<Rightarrow> bool" where
  "serves read_at s \<longleftrightarrow> (\<forall>a n. read_at a n s = Some (Inr (bytes_at sample_volume a n), s))"

lemma servesD: "serves read_at s \<Longrightarrow> read_at a n s = Some (Inr (bytes_at sample_volume a n), s)"
  by (simp add: serves_def)

lemma sample_serves [simp]: "serves mem_get sample_volume" "serves (\<lambda>a n. on_volume (mem_get a n)) (b, sample_volume)"
  by (simp_all add: serves_def mem_get_def on_volume_def)

lemma sample_load_root:
  "serves read_at s \<Longrightarrow> load_with sample_hadris read_at sample_info 2 False 0 s = Some (Inr sample_root, s)"
  by (simp add: load_with_def Let_def SLOT_BYTES_def sample_hadris_def sample_info_def sample_root_def chain_run.simps
      exfat_read_fat_entry_with_def io_bind_def servesD le32_at_def slice_def bytes_at_small
      sample_volume_def get_at_def)

lemma sample_slot:
  assumes "serves read_at s" "i < 16" "m 0 = None \<or> m 0 = Some (bytes_at sample_volume 1024 512)"
  shows "read_slot read_at sample_root i (m, s) =
    Some (Inr (bytes_at sample_volume (1024 + 32 * i) 32), m(0 \<mapsto> bytes_at sample_volume 1024 512), s)"
  using assms
  by (auto simp: read_slot_def sample_root_def chunk_slots_def MAX_CHUNK_SLOTS_def slot_offset_def servesD
      SLOT_BYTES_def slice_bytes_at get_at_def Let_def add.commute mult.commute fun_upd_idem)

lemma replicate_num: "replicate (numeral k) x = x # replicate (pred_numeral k) x"
  by (simp add: numeral_eq_Suc)

lemma sample_slots:
  "bytes_at sample_volume 1024 32 = [0x85, 2, 0, 0, 0x20] @ replicate 27 0"
  "bytes_at sample_volume 1056 32 =
     [0xC0, 3, 0, 2, 0, 0, 0, 0, 3] @ replicate 11 0 @ [3, 0, 0, 0, 5] @ replicate 7 0"
  "bytes_at sample_volume 1088 32 = [0xC1, 0, 97, 0, 98] @ replicate 27 0"
  "bytes_at sample_volume 1120 32 = replicate 32 0"
  by (simp_all add: bytes_at_def sample_volume_def EXFAT_MAGIC_def get_at_def replicate_num)

lemma sample_decoded:
  "make_entry (bytes_at sample_volume 1024 32) (bytes_at sample_volume 1056 32) [97, 98] = sample_entry"
  by (simp add: make_entry_def sample_slots sample_entry_def le16_at_def le32_at_def le64_at_def slice_def
      from_utf16_lossy.simps replicate_num)

lemma sample_first:
  "sample_volume 1024 = 0x85" "sample_volume 1025 = 2" "sample_volume 1056 = 0xC0" "sample_volume 1059 = 2"
  "sample_volume 1088 = 0xC1" "sample_volume 1120 = 0"
  by (simp_all add: sample_volume_def EXFAT_MAGIC_def get_at_def)

lemma sample_units: "take 2 (units16 (drop 2 (bytes_at sample_volume 1088 32))) = [97, 98]"
  by (simp add: sample_slots replicate_num)

lemma sample_list:
  assumes [simp]: "serves read_at s"
  shows "exfat_list_entries read_at sample_root s = Some (Inr [sample_entry], s)"
proof -
  let ?m = "[0 \<mapsto> bytes_at sample_volume 1024 512]"
  have count: "slot_count sample_root = 16" by (simp add: slot_count_def sample_root_def)
  have units: "name_units (read_slot read_at sample_root) 2 2 2 [] (?m, s) =
      Some (Inr (Some [97, 98]), ?m, s)"
    by (subst name_units.simps, subst name_units.simps)
      (simp add: io_bind_def sample_slot sample_units sample_first EXFAT_ENTRY_FILE_NAME_def)
  have set': "exfat_decode_entry_set (read_slot read_at sample_root) 0 16 (?m, s) =
      Some (Inr (Some (sample_entry, 2)), ?m, s)"
    using units by (simp add: exfat_decode_entry_set_def numeral_2_eq_2 [symmetric] io_bind_def sample_slot sample_first
        EXFAT_ENTRY_FILE_DIRECTORY_def EXFAT_ENTRY_STREAM_EXT_def sample_decoded)
  have stop: "list_from (read_slot read_at sample_root) 16 3 [sample_entry] (?m, s) =
      Some (Inr [sample_entry], ?m, s)"
    by (subst list_from.simps) (simp add: io_bind_def sample_slot sample_first END_OF_DIRECTORY_def)
  have "list_from (read_slot read_at sample_root) 16 0 [] (\<lambda>_. None, s) =
      Some (Inr [sample_entry], ?m, s)"
    using set' stop
    by (subst list_from.simps) (simp add: io_bind_def sample_slot sample_first
        END_OF_DIRECTORY_def in_use_def EXFAT_ENTRY_IN_USE_def)
  then show ?thesis by (simp add: exfat_list_entries_def with_reader_def count)
qed

end
