(* ===== verification/Exfat_Atomic.thy ===== *)
theory Exfat_Atomic
  imports Exfat_Mounted Exfat_Sample
begin

text \<open>
  Creating and replacing a file on an exFAT volume as one step: whatever fails, the folder lists what
  it listed before, or what it listed with the new file; nothing else on the volume changes but its
  metadata and clusters that were free. The one exception the source has is stated as such: a sector
  of the entry set that could be neither written nor put back.
\<close>

subsection \<open>What an entry-set write may change\<close>

definition sectors_of :: "nat list \<Rightarrow> nat set" where
  "sectors_of offsets = (\<Union>o' \<in> set offsets. {o' - o' mod 512 ..< o' - o' mod 512 + 512})"

lemma group_sectors_starts:
  assumes "group_sectors pb i offsets secs = Inr secs'"
  shows "fst ` set secs' \<subseteq> fst ` set secs \<union> (\<lambda>o'. o' - o' mod 512) ` set offsets"
  using assms
proof (induction pb i offsets secs rule: group_sectors.induct)
  case (2 pb i offset offsets secs)
  let ?start = "offset - offset mod 512"
  let ?secs = "if secs \<noteq> [] \<and> fst (last secs) = ?start
         then butlast secs @ [(?start, snd (last secs) @ [i])] else secs @ [(?start, [i])]"
  have fits: "\<not> pb < saturating_add64 ?start 512" and run: "group_sectors pb (i + 1) offsets ?secs = Inr secs'"
    using "2.prems" by (auto simp: Let_def split: if_splits)
  have "fst ` set ?secs \<subseteq> insert ?start (fst ` set secs)" by (auto dest: in_set_butlastD)
  with "2.IH" [OF refl fits run] show ?case by auto
qed simp

context exfat_volume
begin

lemma flush_bind_apart:
  assumes "ok w" "io_bind (wr start bs) (\<lambda>_. flush) w = Some (r, w')" "touched start (length bs) \<subseteq> R"
  shows "ok w' \<and> same_outside R (content w) (content w')"
  using flush_bind [OF assms(1), of start bs] assms(2,3) by (auto simp: same_outside_def)

lemma restore_sectors_apart:
  assumes "ok w" "restore_sectors wr flush bs restored w = Some (b, w')"
    and "\<forall>(s, x) \<in> set bs. 512 dvd s \<and> length x = 512 \<and> {s ..< s + 512} \<subseteq> R"
  shows "same_outside R (content w) (content w')"
  using assms
proof (induction bs arbitrary: w restored)
  case (Cons sx bs)
  obtain s x where sx: "sx = (s, x)" by fastforce
  obtain r w1 where one: "io_bind (wr s x) (\<lambda>_. flush) w = Some (r, w1)"
    and rest: "restore_sectors wr flush bs (restored \<and> \<not> isl r) w1 = Some (b, w')"
    using Cons.prems(2) sx by (auto split: option.splits)
  have "touched s (length x) \<subseteq> R"
    using Cons.prems(3) sx touched_aligned [of "s div 512" 1] by auto
  from flush_bind_apart [OF Cons.prems(1) one this] Cons.IH [OF _ rest] Cons.prems(3) show ?case
    by (auto intro: same_outside_trans)
qed simp

lemma write_sectors_apart:
  assumes "ok w" "groups_ok offsets slabs secs"
    and "write_sectors get wr flush offsets slabs secs before w = Some (r, w')"
    and "\<forall>s \<in> fst ` set secs. {s ..< s + 512} \<subseteq> R"
    and "\<forall>(s, x) \<in> set before. 512 dvd s \<and> length x = 512 \<and> {s ..< s + 512} \<subseteq> R"
  shows "same_outside R (content w) (content w')"
  using assms
proof (induction secs arbitrary: w before)
  case (Cons sec secs)
  obtain start grp where sec: "sec = (start, grp)" by fastforce
  from Cons.prems(2) sec have start: "512 dvd start"
    and within: "\<forall>i \<in> set grp. start \<le> offsets ! i \<and> offsets ! i + length (slabs ! i) \<le> start + 512"
    and rest: "groups_ok offsets slabs secs" by (auto simp: groups_ok_def)
  from get_reads [OF Cons.prems(1), of start 512] obtain r1 w1 where
    r1: "get start 512 w = Some (r1, w1)" "ok w1" "content w1 = content w"
      "\<forall>bs. r1 = Inr bs \<longrightarrow> bs = bytes_at (content w) start 512"
    by (auto simp: reads_def)
  have undo: "same_outside R (content v) (content w')"
    if "map_option (\<lambda>(restored, w''). (Inl \<lparr>ewf_error = e, ewf_restored = restored\<rparr>, w''))
          (restore_sectors wr flush (rev before') True v) = Some (r, w')" "ok v"
      "\<forall>(s, x) \<in> set before'. 512 dvd s \<and> length x = 512 \<and> {s ..< s + 512} \<subseteq> R" for e before' v
    using restore_sectors_apart [OF that(2), of "rev before'" True _ w'] that(1,3) by auto
  show ?case
  proof (cases r1)
    case (Inl e)
    with Cons.prems(3) r1 sec have "map_option (\<lambda>(restored, w''). (Inl \<lparr>ewf_error = e, ewf_restored = restored\<rparr>, w''))
          (restore_sectors wr flush (rev before) True w1) = Some (r, w')"
      by (simp add: write_sector_def)
    from undo [OF this r1(2) Cons.prems(5)] r1(3) show ?thesis by simp
  next
    case (Inr bs)
    let ?b = "bytes_at (content w) start 512"
    let ?p = "patched offsets slabs start grp ?b"
    let ?before = "before @ [(start, ?b)]"
    have bs: "bs = ?b" using r1(4) Inr by simp
    obtain r2 w2 where r2: "io_bind (wr start ?p) (\<lambda>_. flush) w1 = Some (r2, w2)"
      using flush_bind [OF r1(2), of start ?p] by blast
    have "touched start (length ?p) \<subseteq> R"
      using start touched_aligned [of "start div 512" 1] Cons.prems(4) sec by (simp add: patched_lay [OF within])
    from flush_bind_apart [OF r1(2) r2 this] have two: "ok w2" "same_outside R (content w) (content w2)"
      using r1(3) by simp_all
    have before: "\<forall>(s, x) \<in> set ?before. 512 dvd s \<and> length x = 512 \<and> {s ..< s + 512} \<subseteq> R"
      using Cons.prems(4,5) start sec by auto
    show ?thesis
    proof (cases r2)
      case (Inl e)
      with Cons.prems(3) r1(1) Inr bs r2 sec have
        "map_option (\<lambda>(restored, w''). (Inl \<lparr>ewf_error = e, ewf_restored = restored\<rparr>, w''))
          (restore_sectors wr flush (rev ?before) True w2) = Some (r, w')"
        by (simp add: write_sector_def)
      from undo [OF this two(1) before] two(2) show ?thesis by (auto intro: same_outside_trans)
    next
      case done': (Inr u)
      with Cons.prems(3) r1(1) Inr bs r2 sec have "write_sectors get wr flush offsets slabs secs ?before w2 = Some (r, w')"
        by (simp add: write_sector_def)
      from Cons.IH [OF two(1) rest this _ before] Cons.prems(4) two(2) show ?thesis
        by (auto intro: same_outside_trans)
    qed
  qed
qed simp

lemma write_slabs_apart:
  assumes "ok w" "slab_ok offsets slabs"
    and "exfat_write_entry_slabs_restoring pb get wr flush offsets slabs w = Some (r, w')"
  shows "same_outside (sectors_of offsets) (content w) (content w')"
proof (cases "group_sectors pb 0 offsets []")
  case (Inl e)
  with assms(3) show ?thesis by (simp add: exfat_write_entry_slabs_restoring_def)
next
  case (Inr secs)
  have secs: "groups_ok offsets slabs secs"
    using group_sectors_result [OF Inr assms(2)] by (simp add: groups_ok_def)
  have starts: "\<forall>s \<in> fst ` set secs. {s ..< s + 512} \<subseteq> sectors_of offsets"
  proof
    fix s assume "s \<in> fst ` set secs"
    with group_sectors_starts [OF Inr] obtain o' where "o' \<in> set offsets" "s = o' - o' mod 512" by auto
    then show "{s ..< s + 512} \<subseteq> sectors_of offsets" by (auto simp: sectors_of_def)
  qed
  from Inr assms(3) have "write_sectors get wr flush offsets slabs secs [] w = Some (r, w')"
    by (simp add: exfat_write_entry_slabs_restoring_def)
  from write_sectors_apart [OF assms(1) secs this starts] show ?thesis by simp
qed

end

lemma lay_slabs_outside:
  assumes "slab_ok offsets slabs"
  shows "same_outside (sectors_of offsets) f (lay_slabs offsets slabs f)"
proof -
  have "same_outside (sectors_of offsets) f (fold (\<lambda>(o', s) f. overlay f o' s) os f)"
    if "\<forall>(o', s) \<in> set os. o' \<in> set offsets \<and> 32 dvd o' \<and> length s = 32" for os
    using that
  proof (induction os arbitrary: f)
    case (Cons os1 os)
    obtain o' s where os1: "os1 = (o', s)" by fastforce
    with Cons.prems have o': "o' \<in> set offsets" "32 dvd o'" "length s = 32" by auto
    have "same_outside (sectors_of offsets) f (overlay f o' s)"
      using in_sector [OF o'(2)] o'(1,3) by (fastforce simp: same_outside_def overlay_def sectors_of_def)
    moreover have "same_outside (sectors_of offsets) (overlay f o' s) (fold (\<lambda>(o', s) f. overlay f o' s) os (overlay f o' s))"
      using Cons by simp
    ultimately show ?case by (auto simp: os1 intro: same_outside_trans)
  qed simp
  moreover have "\<forall>(o', s) \<in> set (zip offsets slabs). o' \<in> set offsets \<and> 32 dvd o' \<and> length s = 32"
    using assms by (auto simp: slab_ok_def dest: set_zip_leftD set_zip_rightD)
  ultimately show ?thesis by (simp add: lay_slabs_def)
qed

lemma lay_slabs_same:
  "same_outside R f g \<Longrightarrow> same_outside R (lay_slabs offsets slabs f) (lay_slabs offsets slabs g)"
proof -
  have "same_outside R (fold (\<lambda>(o', s) f. overlay f o' s) os f) (fold (\<lambda>(o', s) f. overlay f o' s) os g)"
    if "same_outside R f g" for os f g
    using that
  proof (induction os arbitrary: f g)
    case (Cons os1 os)
    from Cons.prems have "same_outside R (overlay f (fst os1) (snd os1)) (overlay g (fst os1) (snd os1))"
      by (auto simp: same_outside_def overlay_def)
    from Cons.IH [OF this] show ?case by (simp add: case_prod_unfold)
  qed simp
  then show "same_outside R f g \<Longrightarrow> ?thesis" by (simp add: lay_slabs_def)
qed

subsection \<open>Copying the bytes in\<close>

definition cluster_data :: "'w exfat_fs \<Rightarrow> (nat \<Rightarrow> u8) \<Rightarrow> u32 list \<Rightarrow> octets" where
  "cluster_data X f cs = concat (map (\<lambda>c. bytes_at f (xf_offset X c) (xf_cluster_bytes X)) cs)"

lemma cluster_data_simps [simp]:
  "cluster_data X f [] = []"
  "cluster_data X f (c # cs) = bytes_at f (xf_offset X c) (xf_cluster_bytes X) @ cluster_data X f cs"
  by (simp_all add: cluster_data_def)

lemma cluster_data_same:
  assumes "same_outside R f g" "\<forall>c \<in> set cs. cluster_range X c \<inter> R = {}"
  shows "cluster_data X g cs = cluster_data X f cs"
  using assms(2)
  by (induction cs) (simp_all add: same_outside_bytes_at [OF assms(1)] cluster_range_def)

text \<open>The entry set that names the clusters.\<close>

definition named :: "'w exfat_fs \<Rightarrow> rstring \<Rightarrow> nat \<Rightarrow> u32 list \<Rightarrow> bool \<Rightarrow> octets list \<Rightarrow> bool" where
  "named X name len cs contiguous slabs \<longleftrightarrow>
     exfat_build_new_entry_set_bytes (xf_hadris X) (xf_now X) name EXFAT_ATTR_ARCHIVE
       (if cs = [] then 0 else hd cs) (word_of_nat len) contiguous = Inr slabs"

text \<open>A write of an entry set that failed at a sector and failed to put a sector back.\<close>

definition not_put_back :: "'w exfat_fs \<Rightarrow> nat list \<Rightarrow> octets list \<Rightarrow> 'w \<Rightarrow> bool" where
  "not_put_back X offsets slabs w \<longleftrightarrow>
     (\<exists>failed w'. exfat_write_entry_slabs_restoring (xf_part_bytes X) (xf_get X) (xf_put X) (xf_flush X)
        offsets slabs w = Some (Inl failed, w') \<and> \<not> ewf_restored failed)"

text \<open>The clusters that were free, and a file over some of them that holds the data.\<close>

definition free_region :: "'w exfat_fs \<Rightarrow> u32 set \<Rightarrow> nat set" where
  "free_region X T = cluster_ranges X {c. xf_valid X c \<and> c \<notin> T}"

definition made_file ::
  "'w exfat_fs \<Rightarrow> u32 set \<Rightarrow> rstring \<Rightarrow> octets \<Rightarrow> (nat \<Rightarrow> u8) \<Rightarrow> u32 list \<Rightarrow> bool \<Rightarrow> octets list \<Rightarrow> bool" where
  "made_file X T name data g cs contiguous slabs \<longleftrightarrow>
     named X name (length data) cs contiguous slabs \<and>
     distinct cs \<and> (\<forall>c \<in> set cs. xf_valid X c \<and> c \<notin> T) \<and>
     (contiguous \<longrightarrow> cs = map (\<lambda>i. hd cs + word_of_nat i) [0 ..< length cs]) \<and>
     take (length data) (cluster_data X g cs) = data"

locale file_create = mounted_volume ok content taken meta X + copy_source src progress rest
  for ok :: "'w \<Rightarrow> bool" and content taken meta and X :: "'w exfat_fs"
    and src :: "'d source" and progress :: "'d progress" and rest :: "'d \<Rightarrow> octets"
begin

lemma cluster_touched: "touched (xf_offset X c) (xf_cluster_bytes X) = cluster_range X c"
proof -
  obtain a b where "xf_offset X c = 512 * a" "xf_cluster_bytes X = 512 * b"
    using offset_aligned [of c] geometry(2) by (auto elim!: dvdE)
  then show ?thesis using touched_aligned [of a b] by (simp add: cluster_range_def mult.commute)
qed

lemma write_stream_writes:
  assumes "ok w" "distinct cs" "\<forall>c \<in> set cs. xf_valid X c" "written \<le> len"
  shows "does (write_stream_to X src progress len cs written) (d, w) (\<lambda>r (d', w').
    kept ok content taken (cluster_ranges X (set cs)) w w' \<and>
    (\<forall>n. r = Inr n \<longrightarrow> (\<exists>xs. rest d = xs @ rest d' \<and> n = written + length xs \<and>
       (n = len \<longrightarrow> take (len - written) (cluster_data X (content w') cs) = xs))))"
  using assms
proof (induction cs arbitrary: w d written)
  case Nil
  then show ?case by simp
next
  case (Cons c cs)
  let ?cb = "xf_cluster_bytes X"
  let ?R = "cluster_ranges X (set (c # cs))"
  define want where "want = min (len - written) ?cb"
  let ?Q = "\<lambda>r (d', w'). kept ok content taken ?R w w' \<and>
    (\<forall>n. r = Inr n \<longrightarrow> (\<exists>xs. rest d = xs @ rest d' \<and> n = written + length xs \<and>
       (n = len \<longrightarrow> take (len - written) (cluster_data X (content w') (c # cs)) = xs)))"
  have failing: "?Q (Inl e) (d', w')" if "kept ok content taken ?R w w'" for e d' w' using that by simp
  have R: "cluster_range X c \<subseteq> ?R" "cluster_ranges X (set cs) \<subseteq> ?R" by (auto simp: cluster_ranges_def)
  have "does (io_bind (on_source (fill_buf src want [])) (\<lambda>got.
      io_bind (on_volume (xf_write_bytes X (xf_offset X c) (got @ replicate (?cb - length got) 0))) (\<lambda>_.
      io_bind (if got \<noteq> [] then on_source (goes_on progress (length got)) else io_return True) (\<lambda>go.
        if \<not> go then io_fail Interrupted
        else if length got < want then io_return (written + length got)
        else write_stream_to X src progress len cs (written + length got))))) (d, w) ?Q"
  proof (rule does_bind [OF does_on_source, where Q = "\<lambda>r (d1, w1). w1 = w \<and> (\<forall>bs. r = Inr bs \<longrightarrow>
      rest d = bs @ rest d1 \<and> length bs \<le> want)"])
    fix r d1 assume "fill_buf src want [] d = (r, d1)"
    then show "case (d1, w) of (d1, w1) \<Rightarrow> w1 = w \<and> (\<forall>bs. r = Inr bs \<longrightarrow> rest d = bs @ rest d1 \<and> length bs \<le> want)"
      using fill_buf_gives [of want "[]" d _ d1] by (cases r) auto
  next
    fix got s1 assume "case s1 of (d1, w1) \<Rightarrow> w1 = w \<and> (\<forall>bs. Inr got = Inr bs \<longrightarrow> rest d = bs @ rest d1 \<and> length bs \<le> want)"
    then obtain d1 where s1: "s1 = (d1, w)" and got: "rest d = got @ rest d1" "length got \<le> want" by auto
    let ?buf = "got @ replicate (?cb - length got) 0"
    have len: "length ?buf = ?cb" using got(2) by (simp add: want_def)
    then have touch: "touched (xf_offset X c) (length ?buf) \<subseteq> ?R" using R(1) cluster_touched by simp
    show "does (io_bind (on_volume (xf_write_bytes X (xf_offset X c) ?buf)) (\<lambda>_.
      io_bind (if got \<noteq> [] then on_source (goes_on progress (length got)) else io_return True) (\<lambda>go.
        if \<not> go then io_fail Interrupted
        else if length got < want then io_return (written + length got)
        else write_stream_to X src progress len cs (written + length got)))) s1 ?Q"
      unfolding s1
    proof (rule does_bind [OF does_on_volume [OF write_bytes_kept [OF Cons.prems(1) touch]]])
      fix u s2 assume "case s2 of (d', w') \<Rightarrow> d' = d1 \<and> kept ok content taken ?R w w' \<and>
        (\<forall>v. Inr u = Inr v \<longrightarrow> content w' = overlay (content w) (xf_offset X c) ?buf)"
      then obtain w2 where s2: "s2 = (d1, w2)" and w2: "kept ok content taken ?R w w2"
        "content w2 = overlay (content w) (xf_offset X c) ?buf" by (cases s2) auto
      show "does (io_bind (if got \<noteq> [] then on_source (goes_on progress (length got)) else io_return True) (\<lambda>go.
        if \<not> go then io_fail Interrupted
        else if length got < want then io_return (written + length got)
        else write_stream_to X src progress len cs (written + length got))) s2 ?Q"
        unfolding s2
      proof (rule does_bind [where Q = "\<lambda>r (d3, w3). w3 = w2 \<and> rest d3 = rest d1"])
        show "does (if got \<noteq> [] then on_source (goes_on progress (length got)) else io_return True) (d1, w2)
          (\<lambda>r (d3, w3). w3 = w2 \<and> rest d3 = rest d1)"
          by (intro does_if does_on_source) (auto simp: goes_on_def split: prod.splits dest: progress_gives)
      next
        fix go s3 assume "case s3 of (d3, w3) \<Rightarrow> w3 = w2 \<and> rest d3 = rest d1"
        then obtain d3 where s3: "s3 = (d3, w2)" "rest d3 = rest d1" by (cases s3) auto
        show "does (if \<not> go then io_fail Interrupted
          else if length got < want then io_return (written + length got)
          else write_stream_to X src progress len cs (written + length got)) s3 ?Q"
          unfolding s3(1)
        proof (intro does_if)
          show "does (io_fail Interrupted) (d3, w2) ?Q" using w2(1) by simp
          show "does (io_return (written + length got)) (d3, w2) ?Q" if "length got < want"
            using that w2(1) got s3(2) by (auto simp: want_def)
          assume full: "\<not> length got < want"
          with got(2) have n: "length got = want" by simp
          have w': "written + length got \<le> len" using n Cons.prems(4) by (simp add: want_def)
          have "ok w2" using w2(1) by (rule kept_ok)
          show "does (write_stream_to X src progress len cs (written + length got)) (d3, w2) ?Q"
          proof (rule does_mono [OF Cons.IH [OF \<open>ok w2\<close> _ _ w']])
            show "distinct cs" "\<forall>c \<in> set cs. xf_valid X c" using Cons.prems by auto
          next
            fix r s4 assume s4: "case s4 of (d', w') \<Rightarrow> kept ok content taken (cluster_ranges X (set cs)) w2 w' \<and>
              (\<forall>n. r = Inr n \<longrightarrow> (\<exists>xs. rest d3 = xs @ rest d' \<and> n = written + length got + length xs \<and>
                 (n = len \<longrightarrow> take (len - (written + length got)) (cluster_data X (content w') cs) = xs)))"
            obtain d4 w4 where s: "s4 = (d4, w4)" by fastforce
            have k: "kept ok content taken (cluster_ranges X (set cs)) w2 w4" using s4 s by simp
            then have "same_outside (cluster_ranges X (set cs)) (content w2) (content w4)" by (simp add: kept_def)
            moreover have "cluster_range X c \<inter> cluster_ranges X (set cs) = {}"
              using ranges_disjoint [of c] Cons.prems(2,3) by (fastforce simp: cluster_ranges_def)
            ultimately have "bytes_at (content w4) (xf_offset X c) ?cb = bytes_at (content w2) (xf_offset X c) ?cb"
              by (intro same_outside_bytes_at) (auto simp: cluster_range_def)
            also have "\<dots> = ?buf" using bytes_at_overlay [of "content w" "xf_offset X c" ?buf] len w2(2) by simp
            finally have c: "bytes_at (content w4) (xf_offset X c) ?cb = ?buf" .
            have tk: "take (len - written) (cluster_data X (content w4) (c # cs)) =
                got @ take (len - (written + length got)) (cluster_data X (content w4) cs)"
            proof (cases "len - written \<le> ?cb")
              case True
              then show ?thesis using c n by (simp add: want_def)
            next
              case False
              then show ?thesis using c n by (simp add: want_def)
            qed
            have "kept ok content taken ?R w w4"
              using kept_trans [OF w2(1) kept_mono [OF k R(2)]] .
            moreover have "\<exists>ys. rest d = ys @ rest d4 \<and> m = written + length ys \<and>
              (m = len \<longrightarrow> take (len - written) (cluster_data X (content w4) (c # cs)) = ys)" if "r = Inr m" for m
            proof -
              from s4 s that obtain xs where "rest d3 = xs @ rest d4" "m = written + length got + length xs"
                "m = len \<longrightarrow> take (len - (written + length got)) (cluster_data X (content w4) cs) = xs" by auto
              then show ?thesis using got(1) s3(2) tk by (intro exI [of _ "got @ xs"]) auto
            qed
            ultimately show "?Q r s4" by (simp add: s)
          qed
        qed
      qed (use w2(1) in auto)
    qed (use s1 in auto)
  qed (use Cons.prems(1) in auto)
  then show ?case by (simp only: write_stream_to.simps Let_def want_def)
qed

lemma source_more:
  "does (exfat_source_has_more src) (d, w) (\<lambda>r (d', w'). w' = w \<and> (r = Inr False \<longrightarrow> rest d = []))"
proof -
  obtain r d' where "has_more src d = Some (r, d')" using src_returns by blast
  then show ?thesis using has_more_ends by (auto simp: does_def exfat_source_has_more_def)
qed

lemma file_data_writes:
  assumes "ok w" "distinct cs" "\<forall>c \<in> set cs. xf_valid X c"
  shows "does (file_data X src progress name len cs contiguous) (d, w) (\<lambda>r (d', w').
    kept ok content taken (meta \<union> cluster_ranges X (set cs)) w w' \<and>
    (\<forall>slabs. r = Inr slabs \<longrightarrow> named X name len cs contiguous slabs \<and> length (rest d) = len \<and>
       take len (cluster_data X (content w') cs) = rest d))"
    (is "does _ _ ?Q")
  unfolding file_data_def exfat_write_stream_to_clusters_def
proof (rule does_bind [OF write_stream_writes [OF assms le0]])
  let ?S = "meta \<union> cluster_ranges X (set cs)"
  fix n and s1 :: "'d \<times> 'w" assume s1: "case s1 of (d', w') \<Rightarrow> kept ok content taken (cluster_ranges X (set cs)) w w' \<and>
    (\<forall>m. Inr n = Inr m \<longrightarrow> (\<exists>xs. rest d = xs @ rest d' \<and> m = 0 + length xs \<and>
       (m = len \<longrightarrow> take (len - 0) (cluster_data X (content w') cs) = xs)))"
  then obtain d1 w1 xs where s: "s1 = (d1, w1)" and k: "kept ok content taken (cluster_ranges X (set cs)) w w1"
    and xs: "rest d = xs @ rest d1" "n = length xs" "n = len \<longrightarrow> take len (cluster_data X (content w1) cs) = xs"
    by (cases s1) auto
  have k1: "kept ok content taken ?S w w1" using k by (rule kept_mono) simp
  show "does (if n \<noteq> len then io_fail InvalidData
       else io_bind (exfat_source_has_more src) (\<lambda>more'.
         if more' then io_fail InvalidData
         else io_bind (on_volume (xf_sync_bitmap X)) (\<lambda>_.
           io_of (exfat_build_new_entry_set_bytes (xf_hadris X) (xf_now X) name EXFAT_ATTR_ARCHIVE
             (if cs = [] then 0 else hd cs) (word_of_nat len) contiguous)))) s1 ?Q"
    unfolding s
  proof (rule does_if)
    show "does (io_fail InvalidData) (d1, w1) ?Q" using k1 by simp
    assume n: "\<not> n \<noteq> len"
    show "does (io_bind (exfat_source_has_more src) (\<lambda>more'.
         if more' then io_fail InvalidData
         else io_bind (on_volume (xf_sync_bitmap X)) (\<lambda>_.
           io_of (exfat_build_new_entry_set_bytes (xf_hadris X) (xf_now X) name EXFAT_ATTR_ARCHIVE
             (if cs = [] then 0 else hd cs) (word_of_nat len) contiguous)))) (d1, w1) ?Q"
    proof (rule does_bind [OF source_more])
      fix more' and s2 :: "'d \<times> 'w" assume "case s2 of (d', w') \<Rightarrow> w' = w1 \<and> (Inr more' = Inr False \<longrightarrow> rest d1 = [])"
      then obtain d2 where s2: "s2 = (d2, w1)" "\<not> more' \<longrightarrow> rest d1 = []" by (cases s2) auto
      show "does (if more' then io_fail InvalidData
         else io_bind (on_volume (xf_sync_bitmap X)) (\<lambda>_.
           io_of (exfat_build_new_entry_set_bytes (xf_hadris X) (xf_now X) name EXFAT_ATTR_ARCHIVE
             (if cs = [] then 0 else hd cs) (word_of_nat len) contiguous))) s2 ?Q"
        unfolding s2(1)
      proof (rule does_if)
        show "does (io_fail InvalidData) (d2, w1) ?Q" using k1 by simp
        assume "\<not> more'"
        with s2(2) xs n have all: "rest d = xs" "length xs = len" "take len (cluster_data X (content w1) cs) = xs" by simp_all
        show "does (io_bind (on_volume (xf_sync_bitmap X)) (\<lambda>_.
           io_of (exfat_build_new_entry_set_bytes (xf_hadris X) (xf_now X) name EXFAT_ATTR_ARCHIVE
             (if cs = [] then 0 else hd cs) (word_of_nat len) contiguous))) (d2, w1) ?Q"
        proof (rule does_bind [OF does_on_volume [OF syncs [OF kept_ok [OF k1]]]])
          fix u and s3 :: "'d \<times> 'w" assume "case s3 of (d', w') \<Rightarrow> d' = d2 \<and> kept ok content taken meta w1 w'"
          then obtain w3 where s3: "s3 = (d2, w3)" and k3: "kept ok content taken meta w1 w3" by (cases s3) auto
          have "cluster_data X (content w3) cs = cluster_data X (content w1) cs"
            using k3 assms(3) clusters_apart by (intro cluster_data_same) (auto simp: kept_def)
          moreover have "kept ok content taken ?S w w3"
            using kept_trans [OF k1 kept_mono [OF k3]] by simp
          ultimately show "does (io_of (exfat_build_new_entry_set_bytes (xf_hadris X) (xf_now X) name EXFAT_ATTR_ARCHIVE
             (if cs = [] then 0 else hd cs) (word_of_nat len) contiguous)) s3 ?Q"
            using all by (simp add: s3 named_def)
        qed (use k1 in \<open>auto intro: kept_trans kept_mono\<close>)
      qed
    qed (use k1 in auto)
  qed
qed (auto intro: kept_mono)

subsection \<open>The entry set\<close>

text \<open>How publishing ends: the set is written; or nothing but metadata changed; or a sector could not be
  put back.\<close>

lemma publish_result:
  assumes "ok w" "\<forall>slabs. result = Inr slabs \<longrightarrow> slab_ok offsets slabs"
  shows "does (publish X offsets cs result) w (\<lambda>r w'. ok w' \<and>
    (case r of
       Inr u \<Rightarrow> \<exists>slabs. result = Inr slabs \<and> taken w' = taken w \<and> content w' = lay_slabs offsets slabs (content w)
     | Inl e \<Rightarrow> same_outside meta (content w) (content w') \<or>
         (\<exists>slabs. result = Inr slabs \<and> not_put_back X offsets slabs w \<and>
            same_outside (meta \<union> sectors_of offsets) (content w) (content w'))))"
proof (cases result)
  case (Inl e)
  obtain w1 where "exfat_undo_failed_create X cs \<lparr>ewf_error = e, ewf_restored = True\<rparr> w =
      Some (Inl e :: io_kind + unit, w1)" "undone w w1"
    using undo_create_undone [OF assms(1), of cs "\<lparr>ewf_error = e, ewf_restored = True\<rparr>"]
    by (auto simp: does_def)
  then show ?thesis by (simp add: does_def publish_def Inl undone_def)
next
  case (Inr slabs)
  with assms(2) have slabs: "slab_ok offsets slabs" by simp
  have w: "ok w \<and> taken w = taken w" using assms(1) by simp
  obtain r w1 where wrote: "exfat_write_entry_slabs_restoring (xf_part_bytes X) (xf_get X) (xf_put X) (xf_flush X)
        offsets slabs w = Some (r, w1)" and w1: "ok w1" "taken w1 = taken w"
    and good: "\<forall>u. r = Inr u \<longrightarrow> content w1 = lay_slabs offsets slabs (content w)"
    and bad: "\<forall>e. r = Inl e \<longrightarrow> ewf_restored e \<longrightarrow> content w1 = content w"
    using vol.write_slabs_result [OF w slabs, of "xf_part_bytes X"] by blast
  show ?thesis
  proof (cases r)
    case done': (Inr u)
    with Inr wrote w1 good show ?thesis by (simp add: does_def publish_def)
  next
    case (Inl failed)
    obtain w2 where undo: "exfat_undo_failed_create X cs failed w1 = Some (Inl (ewf_error failed) :: io_kind + unit, w2)"
      "undone w1 w2"
      using undo_create_undone [OF w1(1), of cs failed] by (auto simp: does_def)
    have run: "publish X offsets cs result w = Some (Inl (ewf_error failed), w2)"
      using Inr wrote Inl undo(1) by (simp add: publish_def)
    show ?thesis
    proof (cases "ewf_restored failed")
      case True
      with bad Inl undo(2) show ?thesis by (auto simp: does_def run undone_def)
    next
      case False
      have "same_outside (sectors_of offsets) (content w) (content w1)"
        using vol.write_slabs_apart [OF w slabs wrote] .
      with undo(2) have "same_outside (meta \<union> sectors_of offsets) (content w) (content w2)"
        by (auto simp: undone_def intro: same_outside_trans)
      moreover have "not_put_back X offsets slabs w" using wrote Inl False by (auto simp: not_put_back_def)
      ultimately show ?thesis using Inr undo(2) by (simp add: does_def run [unfolded Inr] undone_def)
    qed
  qed
qed

subsection \<open>Creating, step by step\<close>

lemma create_at_result:
  assumes "ok w"
    and slabs: "\<forall>cs contiguous slabs. named X name len cs contiguous slabs \<longrightarrow> slab_ok offsets slabs"
    and apart: "sectors_of offsets \<inter> (meta \<union> free_region X (taken w)) = {}"
  shows "does (create_at X name replacing len src progress count offsets) (d, w) (\<lambda>r (d', w'). ok w' \<and>
    (let S = meta \<union> free_region X (taken w);
         made = \<exists>cs contiguous slabs. made_file X (taken w) name (rest d) (content w') cs contiguous slabs \<and>
           length (rest d) = len \<and> length cs = count \<and> (replacing = None \<longrightarrow> (\<exists>u. r = Inr u)) \<and>
           same_outside S (lay_slabs offsets slabs (content w)) (content w')
     in made \<or> (\<not> (\<exists>u. r = Inr u) \<and>
          (same_outside S (content w) (content w') \<or>
           (\<exists>slabs w1. not_put_back X offsets slabs w1) \<and>
             same_outside (S \<union> sectors_of offsets) (content w) (content w')))))"
    (is "does _ _ (\<lambda>r (d', w'). ok w' \<and> ?Q r w')")
proof -
  let ?S = "meta \<union> free_region X (taken w)"
  obtain r cs w1 where alloc: "exfat_allocate_file_clusters X count w = Some (r, cs, w1)" "took [] w cs w1"
    "\<forall>contiguous. r = Inr contiguous \<longrightarrow> length cs = count \<and> taken_run contiguous cs"
    using allocate_result [OF assms(1)] by blast
  then have w1: "ok w1" "same_outside ?S (content w) (content w1)" "distinct cs" "set cs \<inter> taken w = {}"
    by (auto simp: took_def intro: same_outside_mono)
  show ?thesis
  proof (cases r)
    case (Inl e)
    obtain r2 w2 where pub: "publish X offsets cs (Inl e) w1 = Some (r2, w2)" "ok w2"
      "case r2 of Inr u \<Rightarrow> False | Inl e \<Rightarrow> same_outside meta (content w1) (content w2)"
      using publish_result [OF w1(1), of "Inl e" offsets cs] by (simp add: does_def case_prod_unfold cong: sum.case_cong) fast
    then obtain e2 where e2: "r2 = Inl e2" "same_outside meta (content w1) (content w2)" by (cases r2) auto
    have "same_outside ?S (content w) (content w2)"
      using w1(2) e2(2) by (rule same_outside_trans) auto
    then show ?thesis
      using pub(1,2) e2(1) alloc(1) Inl by (simp add: does_def create_at_def on_volume_def io_bind_def)
  next
    case (Inr contiguous)
    with alloc(3) have cs: "length cs = count" "taken_run contiguous cs" by auto
    then have valid: "\<forall>c \<in> set cs. xf_valid X c" by (simp add: taken_run_def)
    then have ranges: "cluster_ranges X (set cs) \<subseteq> free_region X (taken w)"
      using w1(4) by (auto simp: free_region_def cluster_ranges_def)
    obtain res d2 w2 where data: "file_data X src progress name len cs contiguous (d, w1) = Some (res, d2, w2)"
      and w2: "kept ok content taken (meta \<union> cluster_ranges X (set cs)) w1 w2"
      and res: "\<forall>slabs. res = Inr slabs \<longrightarrow> named X name len cs contiguous slabs \<and> length (rest d) = len \<and>
        take len (cluster_data X (content w2) cs) = rest d"
      using file_data_writes [OF w1(1,3) valid, of name len contiguous d] by (auto simp: does_def)
    have same2: "same_outside ?S (content w) (content w2)"
      using w1(2) w2 ranges by (auto simp: kept_def intro: same_outside_trans)
    have "\<forall>slabs. res = Inr slabs \<longrightarrow> slab_ok offsets slabs" using res slabs by blast
    from publish_result [OF kept_ok [OF w2] this, of cs] obtain r3 w3 where
      pub: "publish X offsets cs res w2 = Some (r3, w3)" "ok w3"
      "case r3 of
         Inr u \<Rightarrow> \<exists>slabs. res = Inr slabs \<and> taken w3 = taken w2 \<and> content w3 = lay_slabs offsets slabs (content w2)
       | Inl e \<Rightarrow> same_outside meta (content w2) (content w3) \<or>
           (\<exists>slabs. res = Inr slabs \<and> not_put_back X offsets slabs w2 \<and>
              same_outside (meta \<union> sectors_of offsets) (content w2) (content w3))"
      by (auto simp: does_def)
    show ?thesis
    proof (cases r3)
      case (Inl e)
      from pub(3) Inl consider (old) "same_outside meta (content w2) (content w3)"
        | (mixed) slabs where "not_put_back X offsets slabs w2"
            "same_outside (meta \<union> sectors_of offsets) (content w2) (content w3)" by auto
      then have "?Q (Inl e) w3"
      proof cases
        case old
        have "same_outside ?S (content w) (content w3)"
          using same2 old by (rule same_outside_trans) auto
        then show ?thesis by (simp add: Let_def)
      next
        case mixed
        have "same_outside (?S \<union> sectors_of offsets) (content w) (content w3)"
          using same2 mixed(2) by (rule same_outside_trans) auto
        with mixed(1) show ?thesis by (auto simp: Let_def)
      qed
      with pub alloc(1) Inr data Inl show ?thesis
        by (simp add: does_def create_at_def on_volume_def io_bind_def)
    next
      case done': (Inr u)
      with pub(3) obtain slabs where s: "res = Inr slabs" "content w3 = lay_slabs offsets slabs (content w2)" by auto
      with res have named: "named X name len cs contiguous slabs" "length (rest d) = len"
        "take len (cluster_data X (content w2) cs) = rest d" by auto
      obtain r4 w4 where free: "free_replaced X replacing w3 = Some (r4, w4)" "undone w3 w4"
        using free_replaced_undone [OF pub(2), of replacing] by (auto simp: does_def)
      have "replacing = None \<longrightarrow> (\<exists>u. r4 = Inr u)" using free(1) by (auto simp: free_replaced_def)
      have ok': "slab_ok offsets slabs" using slabs named(1) by blast
      have "same_outside ?S (content w3) (content w4)" using free(2) by (auto simp: undone_def intro: same_outside_mono)
      moreover have "same_outside ?S (lay_slabs offsets slabs (content w)) (content w3)"
        unfolding s(2) using same2 by (rule lay_slabs_same)
      ultimately have final: "same_outside ?S (lay_slabs offsets slabs (content w)) (content w4)"
        by (auto intro: same_outside_trans)
      have "cluster_data X (content w4) cs = cluster_data X (content w3) cs"
        using free(2) valid clusters_apart by (intro cluster_data_same) (auto simp: undone_def)
      also have "\<dots> = cluster_data X (content w2) cs"
        unfolding s(2) using lay_slabs_outside [OF ok'] apart ranges
        by (intro cluster_data_same) (auto simp: cluster_ranges_def)
      finally have "take len (cluster_data X (content w4) cs) = rest d" using named(3) by simp
      then have "made_file X (taken w) name (rest d) (content w4) cs contiguous slabs"
        using named cs(2) w1(3,4) valid by (auto simp: made_file_def taken_run_def)
      with final cs(1) named(2) \<open>replacing = None \<longrightarrow> _\<close> have "?Q r4 w4" by (auto simp: Let_def)
      moreover have "ok w4" using free(2) by (simp add: undone_def)
      ultimately show ?thesis
        using pub alloc(1) Inr data done' free(1)
        by (simp add: does_def create_at_def on_volume_def io_bind_def)
    qed
  qed
qed

end

subsection \<open>The folder's clusters\<close>

text \<open>A folder over clusters in use, none of them twice, and the bytes it takes on the volume.\<close>

definition dir_in :: "'w exfat_fs \<Rightarrow> u32 set \<Rightarrow> dir_slots \<Rightarrow> bool" where
  "dir_in X T dir \<longleftrightarrow>
     (\<exists>cs. distinct cs \<and> (\<forall>c \<in> set cs. xf_valid X c \<and> c \<in> T) \<and>
       dir = \<lparr>ds_cluster_offsets = map (xf_offset X) cs, ds_slots_per_cluster = xf_cluster_bytes X div SLOT_BYTES\<rparr>)"

definition dir_bytes :: "dir_slots \<Rightarrow> nat set" where
  "dir_bytes dir = (\<Union>o' \<in> set (ds_cluster_offsets dir). {o' ..< o' + ds_slots_per_cluster dir * SLOT_BYTES})"

lemma slot_in_dir_bytes:
  assumes "i < slot_count dir"
  shows "\<exists>o' \<in> set (ds_cluster_offsets dir). \<exists>k < ds_slots_per_cluster dir. slot_at dir i = o' + k * SLOT_BYTES"
proof -
  from assms have n: "0 < ds_slots_per_cluster dir" by (cases "ds_slots_per_cluster dir") (auto simp: slot_count_def)
  with assms have "i div ds_slots_per_cluster dir < length (ds_cluster_offsets dir)"
    by (simp add: slot_count_def less_mult_imp_div_less)
  with n show ?thesis unfolding slot_at_def by (metis mod_less_divisor nth_mem)
qed

lemma dir_stream_same:
  assumes "same_outside R f g" "dir_bytes dir \<inter> R = {}"
  shows "dir_stream g dir = dir_stream f dir"
  unfolding dir_stream_def
proof (rule map_cong)
  fix i assume "i \<in> set [0 ..< slot_count dir]"
  then have "i < slot_count dir" by simp
  from slot_in_dir_bytes [OF this] obtain o' k where o': "o' \<in> set (ds_cluster_offsets dir)"
    "k < ds_slots_per_cluster dir" "slot_at dir i = o' + k * SLOT_BYTES" by blast
  then have "(k + 1) * SLOT_BYTES \<le> ds_slots_per_cluster dir * SLOT_BYTES" by (intro mult_le_mono1) simp
  with o'(3) have "{slot_at dir i ..< slot_at dir i + SLOT_BYTES} \<subseteq> {o' ..< o' + ds_slots_per_cluster dir * SLOT_BYTES}"
    by auto
  with o'(1) have "{slot_at dir i ..< slot_at dir i + SLOT_BYTES} \<subseteq> dir_bytes dir" by (auto simp: dir_bytes_def)
  with assms(2) show "bytes_at g (slot_at dir i) SLOT_BYTES = bytes_at f (slot_at dir i) SLOT_BYTES"
    by (intro same_outside_bytes_at [OF assms(1)]) auto
qed simp

context mounted_volume
begin

lemma cluster_slots: "xf_cluster_bytes X div SLOT_BYTES * SLOT_BYTES = xf_cluster_bytes X"
proof -
  have "(32::nat) dvd 512" by simp
  from dvd_trans [OF this geometry(2)] show ?thesis by (simp add: SLOT_BYTES_def)
qed

lemma dir_in_bytes:
  assumes "distinct cs" "\<forall>c \<in> set cs. xf_valid X c \<and> c \<in> T"
    and "dir = \<lparr>ds_cluster_offsets = map (xf_offset X) cs, ds_slots_per_cluster = xf_cluster_bytes X div SLOT_BYTES\<rparr>"
  shows "dir_bytes dir = cluster_ranges X (set cs)" "dir_geometry dir"
proof -
  show "dir_bytes dir = cluster_ranges X (set cs)"
    by (simp add: dir_bytes_def cluster_ranges_def cluster_range_def assms(3) cluster_slots)
  have "32 dvd xf_offset X c" for c using dvd_trans [OF _ offset_aligned, of 32] by simp
  moreover have "0 < xf_cluster_bytes X div SLOT_BYTES"
    using cluster_slots geometry(1) by (cases "xf_cluster_bytes X div SLOT_BYTES") auto
  moreover have "xf_offset X (cs ! i) + xf_cluster_bytes X \<le> xf_offset X (cs ! j) \<or>
      xf_offset X (cs ! j) + xf_cluster_bytes X \<le> xf_offset X (cs ! i)" if "i < j" "j < length cs" for i j
  proof -
    have "cs ! i \<noteq> cs ! j" using that assms(1) by (simp add: nth_eq_iff_index_eq)
    with ranges_disjoint [of "cs ! i" "cs ! j"] assms(2) that
    have "cluster_range X (cs ! i) \<inter> cluster_range X (cs ! j) = {}" by simp
    then have "xf_offset X (cs ! i) \<notin> cluster_range X (cs ! j) \<and> xf_offset X (cs ! j) \<notin> cluster_range X (cs ! i)"
      using geometry(1) by (auto simp: cluster_range_def disjoint_iff)
    then show ?thesis by (auto simp: cluster_range_def)
  qed
  ultimately show "dir_geometry dir"
    by (simp add: dir_geometry_def assms(3) cluster_slots)
qed

lemma dir_in_apart:
  assumes "dir_in X T dir"
  shows "dir_geometry dir" "dir_bytes dir \<inter> (meta \<union> free_region X T) = {}"
proof -
  from assms obtain cs where cs: "distinct cs" "\<forall>c \<in> set cs. xf_valid X c \<and> c \<in> T"
    "dir = \<lparr>ds_cluster_offsets = map (xf_offset X) cs, ds_slots_per_cluster = xf_cluster_bytes X div SLOT_BYTES\<rparr>"
    by (auto simp: dir_in_def)
  from dir_in_bytes [OF cs] show "dir_geometry dir" by simp
  have "cluster_range X c \<inter> cluster_range X d = {}" if "c \<in> set cs" "xf_valid X d" "d \<notin> T" for c d
    using ranges_disjoint [of c d] cs(2) that by auto
  then show "dir_bytes dir \<inter> (meta \<union> free_region X T) = {}"
    unfolding dir_in_bytes [OF cs] using clusters_apart cs(2)
    by (auto simp: cluster_ranges_def free_region_def disjoint_iff)
qed

lemma sectors_in_dir:
  assumes "dir_in X T dir" "first + n \<le> slot_count dir"
  shows "sectors_of (map (slot_at dir) [first ..< first + n]) \<subseteq> dir_bytes dir"
proof
  fix a assume "a \<in> sectors_of (map (slot_at dir) [first ..< first + n])"
  then obtain i where "i \<in> {first ..< first + n}"
    and a: "slot_at dir i - slot_at dir i mod 512 \<le> a" "a < slot_at dir i - slot_at dir i mod 512 + 512"
    by (auto simp: sectors_of_def)
  with assms(2) have i: "i < slot_count dir" by simp
  from assms(1) obtain cs where dir: "ds_cluster_offsets dir = map (xf_offset X) cs"
    "ds_slots_per_cluster dir * SLOT_BYTES = xf_cluster_bytes X" by (auto simp: dir_in_def cluster_slots)
  from slot_in_dir_bytes [OF i] obtain o' k where o': "o' \<in> set (ds_cluster_offsets dir)"
    "k < ds_slots_per_cluster dir" "slot_at dir i = o' + k * SLOT_BYTES" by blast
  with dir(1) have "512 dvd o'" using offset_aligned by auto
  then obtain b where b: "o' = 512 * b" by (rule dvdE)
  from geometry(2) obtain c where c: "xf_cluster_bytes X = 512 * c" by (rule dvdE)
  define x where "x = k * SLOT_BYTES"
  have "x < 512 * c"
    unfolding x_def using o'(2) dir(2) c by (metis SLOT_BYTES_def mult_less_mono1 zero_less_numeral)
  then have "x div 512 < c" by (simp add: less_mult_imp_div_less mult.commute)
  then have "512 * (x div 512) + 512 \<le> 512 * c" by linarith
  moreover have "slot_at dir i = 512 * b + x" using o'(3) b by (simp add: x_def)
  then have "slot_at dir i - slot_at dir i mod 512 = 512 * b + 512 * (x div 512)"
    using mod_less_eq_dividend [of x 512] by (simp add: minus_mod_eq_mult_div [symmetric])
  ultimately have "o' \<le> a" "a < o' + ds_slots_per_cluster dir * SLOT_BYTES"
    using a b c dir(2) by simp_all
  with o'(1) show "a \<in> dir_bytes dir" by (auto simp: dir_bytes_def)
qed

end

subsection \<open>The folder afterwards\<close>

definition new_file_entry :: "rstring \<Rightarrow> nat \<Rightarrow> u32 list \<Rightarrow> bool \<Rightarrow> octets \<Rightarrow> decoded_entry" where
  "new_file_entry name len cs contiguous primary =
     \<lparr>xe_name = name, xe_attributes = EXFAT_ATTR_ARCHIVE, xe_first_cluster = (if cs = [] then 0 else hd cs),
      xe_data_length = word_of_nat len, xe_valid_data_length = word_of_nat len,
      xe_no_fat_chain = contiguous, xe_primary = primary\<rparr>"

text \<open>The folder holds the items \<open>xs\<close>, the new file, and the items \<open>ys\<close>; the new file's clusters were
  free and hold its data.\<close>

definition file_between ::
  "'w exfat_fs \<Rightarrow> u32 set \<Rightarrow> dir_slots \<Rightarrow> dir_item list \<Rightarrow> dir_item list \<Rightarrow> rstring \<Rightarrow> octets \<Rightarrow> (nat \<Rightarrow> u8) \<Rightarrow> bool" where
  "file_between X T dir xs ys name data g \<longleftrightarrow>
     (\<exists>cs contiguous es tail. made_file X T name data g cs contiguous es \<and>
        layout (xs @ EntrySet es # ys) tail (dir_stream g dir) \<and>
        entries_of (dir_stream g dir) =
          listing xs @ new_file_entry name (length data) cs contiguous (es ! 0) # listing ys)"

lemma named_set:
  assumes "named X name len cs contiguous es" "list_all scalar name"
  shows "set_ok es" "length es = exfat_entry_set_len name"
    "set_entry es = new_file_entry name len cs contiguous (es ! 0)"
  using new_set [OF assms(1) [unfolded named_def] assms(2)]
  by (simp_all add: set_entry_def new_file_entry_def)

text \<open>How a create can end: the set is in the folder; nothing but free clusters and metadata changed; or
  a sector of the folder could not be put back.\<close>

definition create_outcome ::
  "('w \<Rightarrow> nat \<Rightarrow> u8) \<Rightarrow> ('w \<Rightarrow> u32 set) \<Rightarrow> nat set \<Rightarrow> 'w exfat_fs \<Rightarrow> dir_slots \<Rightarrow> bool \<Rightarrow> 'w \<Rightarrow> 'w \<Rightarrow> bool" where
  "create_outcome content taken meta X dir made w w' \<longleftrightarrow>
     (let S = meta \<union> free_region X (taken w) in
      if made then same_outside (S \<union> dir_bytes dir) (content w) (content w')
      else dir_stream (content w') dir = dir_stream (content w) dir \<and> same_outside S (content w) (content w') \<or>
        (\<exists>offsets slabs w1. not_put_back X offsets slabs w1) \<and>
        same_outside (S \<union> dir_bytes dir) (content w) (content w'))"

context file_create
begin

lemma create_in_dir:
  assumes "ok w" "dir_in X (taken w) dir" "list_all scalar name"
    and n: "n = exfat_entry_set_len name" and inside: "first + n \<le> slot_count dir"
  shows "does (create_at X name replacing len src progress count (map (slot_at dir) [first ..< first + n])) (d, w)
    (\<lambda>r (d', w'). ok w' \<and>
      (\<exists>made. create_outcome content taken meta X dir made w w' \<and> ((\<exists>u. r = Inr u) \<longrightarrow> made) \<and>
        (made \<longrightarrow> length (rest d) = len \<and> (replacing = None \<longrightarrow> (\<exists>u. r = Inr u)) \<and>
          (\<exists>cs contiguous es. made_file X (taken w) name (rest d) (content w') cs contiguous es \<and>
             dir_stream (content w') dir = splice first es (dir_stream (content w) dir)))))"
    (is "does ?m _ ?Q")
proof -
  let ?os = "map (slot_at dir) [first ..< first + n]"
  let ?S = "meta \<union> free_region X (taken w)"
  note apart = dir_in_apart [OF assms(2)]
  have sectors: "sectors_of ?os \<subseteq> dir_bytes dir" using sectors_in_dir [OF assms(2) inside] .
  have slabs: "slab_ok ?os es \<and> length es = n \<and> (\<forall>s \<in> set es. length s = SLOT_BYTES)"
    if "named X name len cs contiguous es" for cs contiguous es
  proof -
    from named_set [OF that assms(3)] have es: "set_ok es" "length es = n" by (simp_all add: n)
    then have len: "\<forall>s \<in> set es. length s = SLOT_BYTES" by (simp add: set_ok_def)
    with slab_ok_slots [OF apart(1), of first es] es(2) inside show ?thesis by simp
  qed
  have "sectors_of ?os \<inter> ?S = {}" using sectors apart(2) by blast
  from create_at_result [OF assms(1) _ this, of name len replacing count d] slabs
  have "does ?m (d, w) (\<lambda>r (d', w'). ok w' \<and>
    (let S = ?S;
         made = \<exists>cs contiguous slabs. made_file X (taken w) name (rest d) (content w') cs contiguous slabs \<and>
           length (rest d) = len \<and> length cs = count \<and> (replacing = None \<longrightarrow> (\<exists>u. r = Inr u)) \<and>
           same_outside S (lay_slabs ?os slabs (content w)) (content w')
     in made \<or> (\<not> (\<exists>u. r = Inr u) \<and>
          (same_outside S (content w) (content w') \<or>
           (\<exists>slabs w1. not_put_back X ?os slabs w1) \<and>
             same_outside (S \<union> sectors_of ?os) (content w) (content w')))))" by blast
  then show ?thesis
  proof (rule does_mono)
    fix r :: "io_kind + unit" and s' :: "'d \<times> 'w"
    obtain d' w' where s': "s' = (d', w')" by fastforce
    assume "case s' of (d', w') \<Rightarrow> ok w' \<and>
    (let S = ?S;
         made = \<exists>cs contiguous slabs. made_file X (taken w) name (rest d) (content w') cs contiguous slabs \<and>
           length (rest d) = len \<and> length cs = count \<and> (replacing = None \<longrightarrow> (\<exists>u. r = Inr u)) \<and>
           same_outside S (lay_slabs ?os slabs (content w)) (content w')
     in made \<or> (\<not> (\<exists>u. r = Inr u) \<and>
          (same_outside S (content w) (content w') \<or>
           (\<exists>slabs w1. not_put_back X ?os slabs w1) \<and>
             same_outside (S \<union> sectors_of ?os) (content w) (content w'))))"
    then consider (made) cs contiguous es where "ok w'"
        "made_file X (taken w) name (rest d) (content w') cs contiguous es" "length (rest d) = len"
        "replacing = None \<longrightarrow> (\<exists>u. r = Inr u)" "same_outside ?S (lay_slabs ?os es (content w)) (content w')"
      | (old) "ok w'" "\<not> (\<exists>u. r = Inr u)" "same_outside ?S (content w) (content w')"
      | (mixed) es w1 where "ok w'" "\<not> (\<exists>u. r = Inr u)" "not_put_back X ?os es w1"
        "same_outside (?S \<union> sectors_of ?os) (content w) (content w')"
      unfolding s' Let_def by blast
    then show "?Q r s'"
    proof cases
      case made
      then have "named X name len cs contiguous es" by (simp add: made_file_def)
      note es = slabs [OF this]
      have "dir_stream (content w') dir = dir_stream (lay_slabs ?os es (content w)) dir"
        using dir_stream_same [OF made(5) apart(2)] .
      also have "\<dots> = splice first es (dir_stream (content w) dir)"
        using lay_slabs_stream [OF apart(1), of first es "content w"] es inside by simp
      finally have new: "\<exists>cs contiguous es. made_file X (taken w) name (rest d) (content w') cs contiguous es \<and>
             dir_stream (content w') dir = splice first es (dir_stream (content w) dir)" using made(2) by blast
      have "same_outside (dir_bytes dir) (content w) (lay_slabs ?os es (content w))"
        using lay_slabs_outside [of ?os es "content w"] es sectors by (auto intro: same_outside_mono)
      then have "same_outside (?S \<union> dir_bytes dir) (content w) (content w')"
        using made(5) by (rule same_outside_trans) auto
      then have "create_outcome content taken meta X dir True w w'" by (simp add: create_outcome_def)
      with made new show ?thesis unfolding s' prod.case by blast
    next
      case old
      then have "create_outcome content taken meta X dir False w w'"
        using dir_stream_same [OF old(3) apart(2)] by (simp add: create_outcome_def)
      with old show ?thesis by (auto simp: s' intro!: exI [of _ False])
    next
      case mixed
      have "same_outside (?S \<union> dir_bytes dir) (content w) (content w')"
        using mixed(4) sectors by (auto intro: same_outside_mono)
      with mixed have "create_outcome content taken meta X dir False w w'" by (auto simp: create_outcome_def)
      with mixed show ?thesis by (auto simp: s' intro!: exI [of _ False])
    qed
  qed
qed

end

end
