(* ===== verification/Exfat_Read.thy ===== *)
theory Exfat_Read
  imports Exfat_Sample "HOL-Library.Product_Lexorder" "HOL-Library.List_Lexorder"
begin

text \<open>
  Reading files and listing folders of an exFAT volume, from
  \<open>crates/multi64-sc64-sd/src/partition.rs\<close>: \<open>list_dir_exfat\<close> with the order of its rows,
  \<open>exfat_copy_clusters\<close> and \<open>exfat_read_file_with\<close>. Where the bytes of a copy go (\<open>impl Write\<close>)
  and the progress call are parameters; \<open>copy_sink\<close> is what the copy relies on. The lower-casing of
  the standard library is the parameter \<open>lower\<close>.
\<close>

definition STREAM_CHUNK :: nat where "STREAM_CHUNK = 256 * 1024"

subsection \<open>Listing a folder\<close>

record session_entry =
  se_name :: rstring
  se_path :: rstring
  se_is_dir :: bool
  se_size :: nat
  se_hidden :: bool

definition DOT :: nat where "DOT = 46"

definition session_entry_of :: "rstring \<Rightarrow> decoded_entry \<Rightarrow> session_entry" where
  "session_entry_of path_prefix e =
     \<lparr>se_name = xe_name e, se_path = path_prefix @ xe_name e, se_is_dir = entry_is_dir e,
      se_size = (if entry_is_dir e then 0 else unat (xe_data_length e)),
      se_hidden = (entry_is_hidden e \<or> (xe_name e \<noteq> [] \<and> hd (xe_name e) = DOT))\<rparr>"

fun join_slash :: "rstring list \<Rightarrow> rstring" where
  "join_slash [] = []"
| "join_slash [s] = s"
| "join_slash (s # ss) = s @ SLASH # join_slash ss"

text \<open>Folders first, then by the lower-cased name: \<open>sort_by\<close> keeps rows that compare equal in order.\<close>

definition sort_row :: "(rstring \<Rightarrow> rstring) \<Rightarrow> session_entry \<Rightarrow> bool \<times> rstring" where
  "sort_row lower e = (\<not> se_is_dir e, lower (se_name e))"

definition sort_session_entries :: "(rstring \<Rightarrow> rstring) \<Rightarrow> session_entry list \<Rightarrow> session_entry list" where
  "sort_session_entries lower out = (if length out \<le> 1 then out else sort_key (sort_row lower) out)"

definition list_rows :: "rstring \<Rightarrow> decoded_entry list \<Rightarrow> session_entry list" where
  "list_rows path es =
     (let segs = segments (slashes (str_trim path));
          path_prefix = (if segs = [] then [] else join_slash segs @ [SLASH])
      in map (session_entry_of path_prefix) (filter (\<lambda>e. xe_name e \<noteq> [DOT] \<and> xe_name e \<noteq> [DOT, DOT]) es))"

definition list_dir_exfat ::
  "(nat \<Rightarrow> nat list) \<Rightarrow> (rstring \<Rightarrow> rstring) \<Rightarrow> hadris \<Rightarrow> (nat \<Rightarrow> nat \<Rightarrow> ('w, octets) io) \<Rightarrow>
     (nat \<Rightarrow> nat \<Rightarrow> ('w, octets) io) \<Rightarrow> rstring \<Rightarrow> ('w, session_entry list) io" where
  "list_dir_exfat upper lower fs get read_at path =
     io_bind (exfat_info_from_disk get) (\<lambda>info.
     io_bind (exfat_resolve_dir_slots upper fs read_at info path) (\<lambda>dir.
     io_bind (exfat_list_entries read_at dir) (\<lambda>es.
       io_return (sort_session_entries lower (list_rows path es)))))"

lemma sort_session_entries_key: "sort_session_entries lower out = sort_key (sort_row lower) out"
proof (cases out)
  case (Cons e rest)
  then show ?thesis by (cases rest) (simp_all add: sort_session_entries_def)
qed (simp add: sort_session_entries_def)

subsection \<open>Copying a file out\<close>

type_synonym 'd sink = "octets \<Rightarrow> 'd \<Rightarrow> (io_kind + unit) \<times> 'd"

text \<open>\<open>out.write_all\<close> and then the progress call, which may ask to stop.\<close>

definition hand_over :: "'d sink \<Rightarrow> 'd progress \<Rightarrow> octets \<Rightarrow> ('d \<times> 'w, unit) io" where
  "hand_over out progress bs =
     io_bind (on_source (out bs)) (\<lambda>_.
     io_bind (on_source (goes_on progress (length bs))) (\<lambda>go.
       if go then io_return () else io_fail Interrupted))"

function copy_cluster ::
  "(nat \<Rightarrow> nat \<Rightarrow> ('w, octets) io) \<Rightarrow> 'd sink \<Rightarrow> 'd progress \<Rightarrow> nat \<Rightarrow> nat \<Rightarrow> nat \<Rightarrow> nat \<Rightarrow> nat \<Rightarrow>
     ('d \<times> 'w, nat) io" where
  "copy_cluster read_at out progress cluster_bytes limit base within copied =
     (if within < cluster_bytes \<and> copied < limit then
        let n = min (min (min cluster_bytes STREAM_CHUNK) (limit - copied)) (cluster_bytes - within) in
        io_bind (on_volume (read_at (base + within) n)) (\<lambda>buf.
        io_bind (hand_over out progress buf) (\<lambda>_.
          copy_cluster read_at out progress cluster_bytes limit base (within + n) (copied + n)))
      else io_return copied)"
  by pat_completeness auto
termination
  by (relation "measure (\<lambda>(read_at, out, progress, cluster_bytes, limit, base, within, copied).
        cluster_bytes - within)") (auto simp: STREAM_CHUNK_def)

declare copy_cluster.simps [simp del]

fun copy_clusters_from ::
  "(nat \<Rightarrow> nat \<Rightarrow> ('w, octets) io) \<Rightarrow> 'd sink \<Rightarrow> 'd progress \<Rightarrow> nat \<Rightarrow> nat \<Rightarrow> nat list \<Rightarrow> nat \<Rightarrow>
     ('d \<times> 'w, nat) io" where
  "copy_clusters_from read_at out progress cluster_bytes limit [] copied = io_return copied"
| "copy_clusters_from read_at out progress cluster_bytes limit (base # bases) copied =
     (if limit \<le> copied then io_return copied
      else io_bind (copy_cluster read_at out progress cluster_bytes limit base 0 copied)
        (copy_clusters_from read_at out progress cluster_bytes limit bases))"

definition exfat_copy_clusters ::
  "hadris \<Rightarrow> (nat \<Rightarrow> nat \<Rightarrow> ('w, octets) io) \<Rightarrow> exfat_info \<Rightarrow> decoded_entry \<Rightarrow> nat \<Rightarrow> 'd sink \<Rightarrow> 'd progress \<Rightarrow>
     ('d \<times> 'w, nat) io" where
  "exfat_copy_clusters fs read_at info entry limit out progress =
     io_bind (on_volume (load_with fs read_at info (xe_first_cluster entry) (xe_no_fat_chain entry)
         (max (xe_data_length entry) (xe_valid_data_length entry)))) (\<lambda>chain.
       copy_clusters_from read_at out progress (ei_bytes_per_cluster info) limit (ds_cluster_offsets chain) 0)"

text \<open>The zeros up to the end of the file. With an empty buffer the loop would not end.\<close>

partial_function (option) write_zeros ::
  "'d sink \<Rightarrow> 'd progress \<Rightarrow> nat \<Rightarrow> nat \<Rightarrow> nat \<Rightarrow> ('d \<times> 'w) \<Rightarrow> ((io_kind + unit) \<times> ('d \<times> 'w)) option" where
  "write_zeros out progress buf_len limit copied dw =
     (if copied < limit then
        (case hand_over out progress (replicate (min buf_len (limit - copied)) 0) dw of
           None \<Rightarrow> None
         | Some (Inl e, dw') \<Rightarrow> Some (Inl e, dw')
         | Some (Inr _, dw') \<Rightarrow>
             write_zeros out progress buf_len limit (copied + min buf_len (limit - copied)) dw')
      else Some (Inr (), dw))"

definition exfat_read_file_with ::
  "(nat \<Rightarrow> nat list) \<Rightarrow> hadris \<Rightarrow> (nat \<Rightarrow> nat \<Rightarrow> ('w, octets) io) \<Rightarrow> exfat_info \<Rightarrow> rstring \<Rightarrow> 'd sink \<Rightarrow>
     'd progress \<Rightarrow> nat option \<Rightarrow> ('d \<times> 'w, unit) io" where
  "exfat_read_file_with upper fs read_at info path out progress max_bytes =
     io_bind (on_volume (exfat_resolve_entry upper fs read_at info path)) (\<lambda>entry.
       if entry_is_dir entry then io_fail InvalidInput
       else
         let data_length = unat (xe_data_length entry);
             limit = (case max_bytes of Some m \<Rightarrow> min m data_length | None \<Rightarrow> data_length);
             stored = min limit (unat (xe_valid_data_length entry));
             buf_len = min (ei_bytes_per_cluster info) STREAM_CHUNK
         in io_bind
              (if 0 < stored \<and> 2 \<le> xe_first_cluster entry
               then exfat_copy_clusters fs read_at info entry stored out progress else io_return 0)
              (\<lambda>copied.
                if copied < stored then io_fail UnexpectedEof
                else write_zeros out progress buf_len limit copied))"

definition read_file_exfat_streaming ::
  "(nat \<Rightarrow> nat list) \<Rightarrow> hadris \<Rightarrow> (nat \<Rightarrow> nat \<Rightarrow> ('w, octets) io) \<Rightarrow> (nat \<Rightarrow> nat \<Rightarrow> ('w, octets) io) \<Rightarrow>
     rstring \<Rightarrow> 'd sink \<Rightarrow> 'd progress \<Rightarrow> nat option \<Rightarrow> ('d \<times> 'w, unit) io" where
  "read_file_exfat_streaming upper fs get read_at path out progress max_bytes =
     io_bind (on_volume (exfat_info_from_disk get)) (\<lambda>info.
       exfat_read_file_with upper fs read_at info path out progress max_bytes)"

subsection \<open>What a copy hands over\<close>

text \<open>The first \<open>limit\<close> bytes of a file: what its clusters hold, up to the length that was written, then
  zeros.\<close>

definition stream_bytes :: "(nat \<Rightarrow> u8) \<Rightarrow> exfat_info \<Rightarrow> dir_slots \<Rightarrow> octets" where
  "stream_bytes f info chain =
     concat (map (\<lambda>b. bytes_at f b (ei_bytes_per_cluster info)) (ds_cluster_offsets chain))"

definition file_bytes :: "hadris \<Rightarrow> (nat \<Rightarrow> u8) \<Rightarrow> exfat_info \<Rightarrow> decoded_entry \<Rightarrow> nat \<Rightarrow> octets \<Rightarrow> bool" where
  "file_bytes fs f info e limit bs \<longleftrightarrow>
     (let stored = min limit (unat (xe_valid_data_length e)) in
      if stored = 0 then bs = replicate limit 0
      else \<exists>chain. dir_of fs f info (xe_first_cluster e) (xe_no_fat_chain e)
            (max (xe_data_length e) (xe_valid_data_length e)) chain \<and>
          stored \<le> length (stream_bytes f info chain) \<and>
          bs = take stored (stream_bytes f info chain) @ replicate (limit - stored) 0)"

definition copy_limit :: "decoded_entry \<Rightarrow> nat option \<Rightarrow> nat" where
  "copy_limit e max_bytes =
     (case max_bytes of Some m \<Rightarrow> min m (unat (xe_data_length e)) | None \<Rightarrow> unat (xe_data_length e))"

lemma length_stream_bytes:
  "length (stream_bytes f info chain) = length (ds_cluster_offsets chain) * ei_bytes_per_cluster info"
  by (simp add: stream_bytes_def length_concat comp_def sum_list_triv)

text \<open>What the copy relies on: a write that succeeds has added its bytes, and the progress call adds
  none.\<close>

locale copy_sink =
  fixes out :: "'d sink" and progress :: "'d progress" and written :: "'d \<Rightarrow> octets"
  assumes out_adds: "out bs d = (Inr u, d') \<Longrightarrow> written d' = written d @ bs"
    and progress_adds: "progress n d = (go, d') \<Longrightarrow> written d' = written d"
begin

lemma hand_over_adds:
  "does (hand_over out progress bs) (d, w)
    (\<lambda>r (d', w'). w' = w \<and> (\<forall>u. r = Inr u \<longrightarrow> written d' = written d @ bs))"
  unfolding hand_over_def
proof (rule does_bind [OF does_on_source])
  fix r d1 assume out: "out bs d = (r, d1)"
  then show "(\<lambda>r (d', w'). w' = w \<and> (\<forall>u. r = Inr u \<longrightarrow> written d' = written d @ bs)) r (d1, w)"
    by (auto dest: out_adds)
next
  fix u s' assume "case s' of (d', w') \<Rightarrow> w' = w \<and> (\<forall>v. Inr u = Inr v \<longrightarrow> written d' = written d @ bs)"
  then obtain d1 where s': "s' = (d1, w)" "written d1 = written d @ bs" by (cases s') auto
  show "does (io_bind (on_source (goes_on progress (length bs)))
      (\<lambda>go. if go then io_return () else io_fail Interrupted)) s'
    (\<lambda>r (d', w'). w' = w \<and> (\<forall>u. r = Inr u \<longrightarrow> written d' = written d @ bs))"
    unfolding s'(1)
    by (rule does_bind [OF does_on_source, where Q = "\<lambda>r (d', w'). w' = w \<and> written d' = written d @ bs"])
      (auto simp: goes_on_def s'(2) split: prod.splits dest: progress_adds)
qed auto

lemma write_zeros_adds:
  assumes "0 < buf_len" "copied \<le> limit"
  shows "does (write_zeros out progress buf_len limit copied) (d, w)
    (\<lambda>r (d', w'). w' = w \<and> (\<forall>u. r = Inr u \<longrightarrow> written d' = written d @ replicate (limit - copied) 0))"
  using assms(2)
proof (induction "limit - copied" arbitrary: copied d rule: less_induct)
  case less
  show ?case
  proof (cases "copied < limit")
    case False
    then show ?thesis by (simp add: does_def write_zeros.simps)
  next
    case True
    let ?n = "min buf_len (limit - copied)"
    from hand_over_adds [of "replicate ?n 0" d w] obtain r d1 where one:
      "hand_over out progress (replicate ?n 0) (d, w) = Some (r, d1, w)"
      "\<forall>u. r = Inr u \<longrightarrow> written d1 = written d @ replicate ?n 0" by (auto simp: does_def)
    show ?thesis
    proof (cases r)
      case (Inl e)
      with one True show ?thesis by (simp add: does_def write_zeros.simps [of out progress buf_len limit copied])
    next
      case (Inr u)
      have "replicate ?n 0 @ replicate (limit - (copied + ?n)) (0 :: u8) = replicate (limit - copied) 0"
        by (simp flip: replicate_add)
      with less.hyps [of "copied + ?n" d1] assms(1) True one Inr show ?thesis
        by (simp add: does_def write_zeros.simps [of out progress buf_len limit copied])
    qed
  qed
qed

end

locale file_copy = exfat_volume ok content rd get wr flush + copy_sink out progress written
  for ok :: "'w \<Rightarrow> bool" and content rd get wr flush
    and out :: "'d sink" and progress :: "'d progress" and written :: "'d \<Rightarrow> octets"
begin

lemma copy_cluster_adds:
  assumes "ok w" "content w = f" "copied \<le> limit"
  shows "does (copy_cluster rd out progress cb limit base within copied) (d, w)
    (\<lambda>r (d', w'). ok w' \<and> content w' = f \<and> (\<forall>c. r = Inr c \<longrightarrow>
       c = copied + min (cb - within) (limit - copied) \<and>
       written d' = written d @ bytes_at f (base + within) (min (cb - within) (limit - copied))))"
  using assms
proof (induction "cb - within" arbitrary: within copied d w rule: less_induct)
  case less
  show ?case
  proof (cases "within < cb \<and> copied < limit")
    case False
    then have "min (cb - within) (limit - copied) = 0" by auto
    with False less.prems show ?thesis by (subst copy_cluster.simps) auto
  next
    case True
    define n where "n = min (min (min cb STREAM_CHUNK) (limit - copied)) (cb - within)"
    let ?left = "min (cb - within) (limit - copied)"
    let ?Q = "\<lambda>r (d', w'). ok w' \<and> content w' = f \<and> (\<forall>c. r = Inr c \<longrightarrow>
       c = copied + ?left \<and> written d' = written d @ bytes_at f (base + within) ?left)"
    have pos: "0 < n" using True by (auto simp: STREAM_CHUNK_def n_def)
    have "n \<le> cb - within" "n \<le> limit - copied" by (simp_all add: n_def)
    then have left: "?left = n + min (cb - (within + n)) (limit - (copied + n))" by (auto simp: min_def)
    have "does (io_bind (on_volume (rd (base + within) n)) (\<lambda>buf.
        io_bind (hand_over out progress buf) (\<lambda>_.
          copy_cluster rd out progress cb limit base (within + n) (copied + n)))) (d, w) ?Q"
    proof (rule does_bind [OF does_on_volume [OF rd_reads [OF less.prems(1), unfolded does_reads]]])
      fix buf s1 assume "case s1 of (d', w') \<Rightarrow> d' = d \<and> ok w' \<and> content w' = content w \<and>
          (\<forall>v. Inr buf = Inr v \<longrightarrow> v = bytes_at (content w) (base + within) n)"
      then obtain w1 where s1: "s1 = (d, w1)" "ok w1" "content w1 = f" and buf: "buf = bytes_at f (base + within) n"
        using less.prems(2) by (cases s1) simp
      show "does (io_bind (hand_over out progress buf) (\<lambda>_.
          copy_cluster rd out progress cb limit base (within + n) (copied + n))) s1 ?Q"
        unfolding s1(1)
      proof (rule does_bind [OF hand_over_adds])
        fix u s2 assume "case s2 of (d', w') \<Rightarrow> w' = w1 \<and> (\<forall>v. Inr u = Inr v \<longrightarrow> written d' = written d @ buf)"
        then obtain d2 where s2: "s2 = (d2, w1)" "written d2 = written d @ buf" by (cases s2) auto
        have "does (copy_cluster rd out progress cb limit base (within + n) (copied + n)) (d2, w1)
          (\<lambda>r (d', w'). ok w' \<and> content w' = f \<and> (\<forall>c. r = Inr c \<longrightarrow>
             c = copied + n + min (cb - (within + n)) (limit - (copied + n)) \<and>
             written d' = written d2 @ bytes_at f (base + (within + n))
               (min (cb - (within + n)) (limit - (copied + n)))))"
          by (rule less.hyps) (use pos True s1 in \<open>auto simp: n_def\<close>)
        then show "does (copy_cluster rd out progress cb limit base (within + n) (copied + n)) s2 ?Q"
          unfolding s2(1)
        proof (rule does_mono)
          fix r s3
          assume "case s3 of (d', w') \<Rightarrow> ok w' \<and> content w' = f \<and> (\<forall>c. r = Inr c \<longrightarrow>
             c = copied + n + min (cb - (within + n)) (limit - (copied + n)) \<and>
             written d' = written d2 @ bytes_at f (base + (within + n))
               (min (cb - (within + n)) (limit - (copied + n))))"
          then show "?Q r s3"
            unfolding left bytes_at_add s2(2) buf by (auto simp: add.assoc)
        qed
      qed (use s1 in auto)
    qed (use less.prems in auto)
    with True show ?thesis by (subst copy_cluster.simps) (simp only: Let_def if_True n_def simp_thms)
  qed
qed

lemma copy_clusters_from_adds:
  assumes "ok w" "content w = f" "copied \<le> limit"
  shows "does (copy_clusters_from rd out progress cb limit bases copied) (d, w)
    (\<lambda>r (d', w'). ok w' \<and> content w' = f \<and> (\<forall>c. r = Inr c \<longrightarrow>
       c = copied + min (length bases * cb) (limit - copied) \<and>
       written d' = written d @ take (limit - copied) (concat (map (\<lambda>b. bytes_at f b cb) bases))))"
  using assms
proof (induction bases arbitrary: copied d w)
  case Nil
  then show ?case by simp
next
  case (Cons base bases)
  show ?case
  proof (cases "limit \<le> copied")
    case True
    with Cons.prems show ?thesis by simp
  next
    case False
    let ?Q = "\<lambda>r (d', w'). ok w' \<and> content w' = f \<and> (\<forall>c. r = Inr c \<longrightarrow>
       c = copied + min (length (base # bases) * cb) (limit - copied) \<and>
       written d' = written d @ take (limit - copied) (concat (map (\<lambda>b. bytes_at f b cb) (base # bases))))"
    have "does (io_bind (copy_cluster rd out progress cb limit base 0 copied)
        (copy_clusters_from rd out progress cb limit bases)) (d, w) ?Q"
    proof (rule does_bind [OF copy_cluster_adds [OF Cons.prems]])
      fix c s1 assume "case s1 of (d', w') \<Rightarrow> ok w' \<and> content w' = f \<and> (\<forall>v. Inr c = Inr v \<longrightarrow>
         v = copied + min (cb - 0) (limit - copied) \<and>
         written d' = written d @ bytes_at f (base + 0) (min (cb - 0) (limit - copied)))"
      then obtain d1 w1 where s1: "s1 = (d1, w1)" "ok w1" "content w1 = f"
        and c: "c = copied + min cb (limit - copied)"
        and out: "written d1 = written d @ bytes_at f base (min cb (limit - copied))" by (cases s1) auto
      have "c \<le> limit" using c Cons.prems(3) by auto
      show "does (copy_clusters_from rd out progress cb limit bases c) s1 ?Q"
        unfolding s1(1)
      proof (rule does_mono [OF Cons.IH [OF s1(2,3) \<open>c \<le> limit\<close>]])
        fix r s2 assume s2: "case s2 of (d', w') \<Rightarrow> ok w' \<and> content w' = f \<and> (\<forall>v. r = Inr v \<longrightarrow>
           v = c + min (length bases * cb) (limit - c) \<and>
           written d' = written d1 @ take (limit - c) (concat (map (\<lambda>b. bytes_at f b cb) bases)))"
        have "take (limit - copied) (concat (map (\<lambda>b. bytes_at f b cb) (base # bases))) =
            bytes_at f base (min cb (limit - copied)) @ take (limit - c) (concat (map (\<lambda>b. bytes_at f b cb) bases))"
        proof (cases "cb \<le> limit - copied")
          case True
          then show ?thesis using c by (simp add: diff_diff_left add.commute)
        next
          case False
          then have "take (limit - copied) (bytes_at f base cb) = bytes_at f base (limit - copied)"
            by (simp add: bytes_at_def take_map take_upt)
          with False c \<open>\<not> limit \<le> copied\<close> show ?thesis by simp
        qed
        moreover have "c + min (length bases * cb) (limit - c) =
            copied + min (length (base # bases) * cb) (limit - copied)"
          using c False by (auto simp: min_def)
        ultimately show "?Q r s2"
          using s2 out by (cases s2) (simp only: split_conv append_assoc, blast)
      qed
    qed (use Cons.prems in auto)
    with False show ?thesis by simp
  qed
qed

lemma copied_clusters_adds:
  assumes "ok w" "0 < stored"
  shows "does (exfat_copy_clusters fs rd info e stored out progress) (d, w)
    (\<lambda>r (d', w'). ok w' \<and> content w' = content w \<and> (\<forall>c. r = Inr c \<longrightarrow>
       (\<exists>chain. dir_of fs (content w) info (xe_first_cluster e) (xe_no_fat_chain e)
          (max (xe_data_length e) (xe_valid_data_length e)) chain \<and>
          c = min (length (stream_bytes (content w) info chain)) stored \<and>
          written d' = written d @ take stored (stream_bytes (content w) info chain))))"
  unfolding exfat_copy_clusters_def
proof (rule does_bind [OF does_on_volume [OF load_dir_reads [OF assms(1), unfolded does_reads]]])
  fix chain s2 assume "case s2 of (d', w') \<Rightarrow> d' = d \<and> ok w' \<and> content w' = content w \<and>
    (\<forall>v. Inr chain = Inr v \<longrightarrow> dir_of fs (content w) info (xe_first_cluster e) (xe_no_fat_chain e)
      (max (xe_data_length e) (xe_valid_data_length e)) v)"
  then obtain w2 where s2: "s2 = (d, w2)" "ok w2" "content w2 = content w"
    and chain: "dir_of fs (content w) info (xe_first_cluster e) (xe_no_fat_chain e)
      (max (xe_data_length e) (xe_valid_data_length e)) chain" by (cases s2) auto
  show "does (copy_clusters_from rd out progress (ei_bytes_per_cluster info) stored (ds_cluster_offsets chain) 0) s2
    (\<lambda>r (d', w'). ok w' \<and> content w' = content w \<and> (\<forall>c. r = Inr c \<longrightarrow>
       (\<exists>chain. dir_of fs (content w) info (xe_first_cluster e) (xe_no_fat_chain e)
          (max (xe_data_length e) (xe_valid_data_length e)) chain \<and>
          c = min (length (stream_bytes (content w) info chain)) stored \<and>
          written d' = written d @ take stored (stream_bytes (content w) info chain))))"
    unfolding s2(1)
    by (rule does_mono [OF copy_clusters_from_adds [OF s2(2,3)]])
      (use chain in \<open>auto simp: length_stream_bytes stream_bytes_def [symmetric]\<close>)
qed (use assms in auto)

lemma read_file_adds:
  assumes "ok w" "0 < ei_bytes_per_cluster info"
  shows "does (exfat_read_file_with upper fs rd info path out progress max_bytes) (d, w)
    (\<lambda>r (d', w'). ok w' \<and> content w' = content w \<and> (\<forall>u. r = Inr u \<longrightarrow>
       (\<exists>e bs. names_entry upper fs (content w) info path e \<and> \<not> entry_is_dir e \<and>
          file_bytes fs (content w) info e (copy_limit e max_bytes) bs \<and> written d' = written d @ bs)))"
    (is "does _ _ ?Q")
  unfolding exfat_read_file_with_def
proof (rule does_bind [OF does_on_volume [OF resolve_entry_reads [OF assms(1), unfolded does_reads]]])
  fix e s1 assume "case s1 of (d', w') \<Rightarrow> d' = d \<and> ok w' \<and> content w' = content w \<and>
      (\<forall>v. Inr e = Inr v \<longrightarrow> names_entry upper fs (content w) info path v)"
  then obtain w1 where s1: "s1 = (d, w1)" "ok w1" "content w1 = content w"
    and e: "names_entry upper fs (content w) info path e" by (cases s1) auto
  define limit where "limit = copy_limit e max_bytes"
  define stored where "stored = min limit (unat (xe_valid_data_length e))"
  let ?len = "min (ei_bytes_per_cluster info) STREAM_CHUNK"
  have buf: "0 < ?len" using assms(2) by (simp add: STREAM_CHUNK_def)
  have zeros: "does (write_zeros out progress ?len limit c) (d1, w2) ?Q"
    if "\<not> entry_is_dir e" "ok w2" "content w2 = content w" "c = stored"
      "written d1 = written d @ bs1" "file_bytes fs (content w) info e limit (bs1 @ replicate (limit - stored) 0)"
    for c d1 w2 bs1
    by (rule does_mono [OF write_zeros_adds [OF buf]])
      (use that e in \<open>auto simp: stored_def limit_def\<close>)
  have "does (io_bind
              (if 0 < stored \<and> 2 \<le> xe_first_cluster e
               then exfat_copy_clusters fs rd info e stored out progress else io_return 0)
              (\<lambda>copied. if copied < stored then io_fail UnexpectedEof
                else write_zeros out progress ?len limit copied)) s1 ?Q"
    if notdir: "\<not> entry_is_dir e"
  proof (cases "0 < stored \<and> 2 \<le> xe_first_cluster e")
    case True
    have "does (io_bind (exfat_copy_clusters fs rd info e stored out progress)
              (\<lambda>copied. if copied < stored then io_fail UnexpectedEof
                else write_zeros out progress ?len limit copied)) (d, w1) ?Q"
    proof (rule does_bind [OF copied_clusters_adds [OF s1(2)]])
      show "0 < stored" using True by simp
    next
      fix c s2 assume "case s2 of (d', w') \<Rightarrow> ok w' \<and> content w' = content w1 \<and> (\<forall>v. Inr c = Inr v \<longrightarrow>
         (\<exists>chain. dir_of fs (content w1) info (xe_first_cluster e) (xe_no_fat_chain e)
            (max (xe_data_length e) (xe_valid_data_length e)) chain \<and>
            v = min (length (stream_bytes (content w1) info chain)) stored \<and>
            written d' = written d @ take stored (stream_bytes (content w1) info chain)))"
      then obtain d2 w2 chain where s2: "s2 = (d2, w2)" "ok w2" "content w2 = content w"
        and chain: "dir_of fs (content w) info (xe_first_cluster e) (xe_no_fat_chain e)
            (max (xe_data_length e) (xe_valid_data_length e)) chain"
          "c = min (length (stream_bytes (content w) info chain)) stored"
          "written d2 = written d @ take stored (stream_bytes (content w) info chain)"
        using s1(3) by (cases s2) auto
      show "does (if c < stored then io_fail UnexpectedEof else write_zeros out progress ?len limit c) s2 ?Q"
        unfolding s2(1)
      proof (rule does_if)
        assume "\<not> c < stored"
        then have "c = stored" "stored \<le> length (stream_bytes (content w) info chain)" using chain(2) by auto
        then show "does (write_zeros out progress ?len limit c) (d2, w2) ?Q"
          by (intro zeros [OF notdir s2(2,3) _ chain(3)])
            (use chain(1) True in \<open>auto simp: file_bytes_def Let_def stored_def [symmetric]\<close>)
      qed (use s2 in simp)
    qed (use s1 in auto)
    with True s1(1) show ?thesis by simp
  next
    case False
    have "does (write_zeros out progress ?len limit 0) (d, w1) ?Q" if "stored = 0"
      by (rule zeros [OF notdir s1(2,3), of 0 d "[]"])
        (use that in \<open>auto simp: file_bytes_def Let_def stored_def [symmetric]\<close>)
    with False s1 show ?thesis by (cases "stored = 0") simp_all
  qed
  then show "does (if entry_is_dir e then io_fail InvalidInput
       else
         let data_length = unat (xe_data_length e);
             limit = (case max_bytes of Some m \<Rightarrow> min m data_length | None \<Rightarrow> data_length);
             stored = min limit (unat (xe_valid_data_length e));
             buf_len = ?len
         in io_bind
              (if 0 < stored \<and> 2 \<le> xe_first_cluster e
               then exfat_copy_clusters fs rd info e stored out progress else io_return 0)
              (\<lambda>copied.
                if copied < stored then io_fail UnexpectedEof
                else write_zeros out progress buf_len limit copied)) s1 ?Q"
    using s1 unfolding stored_def limit_def copy_limit_def Let_def by (intro does_if) auto
qed (use assms in auto)

end

text \<open>A vector takes every byte, and no progress call asks to stop (\<open>read_file_exfat\<close>).\<close>

definition vec_write :: "octets sink" where
  "vec_write bs d = (Inr (), d @ bs)"

definition never_stop :: "octets progress" where
  "never_stop n d = (True, d)"

definition read_file_exfat ::
  "(nat \<Rightarrow> nat list) \<Rightarrow> hadris \<Rightarrow> (nat \<Rightarrow> nat \<Rightarrow> ('w, octets) io) \<Rightarrow> (nat \<Rightarrow> nat \<Rightarrow> ('w, octets) io) \<Rightarrow>
     rstring \<Rightarrow> ('w, octets) io" where
  "read_file_exfat upper fs get read_at path w =
     map_option (\<lambda>(r, d, w'). (bind_result r (\<lambda>_. Inr d), w'))
       (read_file_exfat_streaming upper fs get read_at path vec_write never_stop None ([], w))"

interpretation vec: copy_sink vec_write never_stop "\<lambda>d. d"
  by unfold_locales (auto simp: vec_write_def never_stop_def)

interpretation img_copy: file_copy
  "\<lambda>(c, w). cache_inv c \<and> img.coherent w c"
  "\<lambda>cw. partition_view part_start (case cw of (c, w) \<Rightarrow> image_content w)"
  "exfat_volume_reader (read_sd_sectors image_fetch) part_start part_bytes"
  "volume_get (read_sd_sectors image_fetch) part_start part_bytes"
  "volume_put (read_sd_sectors image_fetch) (write_sd_sectors image_store) part_start part_bytes"
  "io_return ()" vec_write never_stop "\<lambda>d. d" for part_start part_bytes
  by unfold_locales

interpretation mem_copy: file_copy "\<lambda>_. True" "\<lambda>f. f" mem_get mem_get mem_put "io_return ()"
  vec_write never_stop "\<lambda>d. d"
  by unfold_locales

subsection \<open>Folders and files as they are on the card\<close>

lemma exfat_info_of_bytes: "exfat_info_of bs = Inr info \<Longrightarrow> 0 < ei_bytes_per_cluster info"
  by (auto simp: exfat_info_of_def Let_def split: if_splits)

context exfat_volume
begin

lemma info_reads:
  "ok w \<Longrightarrow> reads ok content w (exfat_info_from_disk get)
    (\<lambda>info. exfat_info_of (bytes_at (content w) 0 512) = Inr info)"
  unfolding exfat_info_from_disk_def by (rule reads_bind [OF get_reads]) (auto intro: reads_of)

lemma list_dir_reads:
  assumes "ok w"
  shows "reads ok content w (list_dir_exfat upper lower fs get rd path)
    (\<lambda>out. \<exists>info dir. exfat_info_of (bytes_at (content w) 0 512) = Inr info \<and>
       names_dir upper fs (content w) info path dir \<and>
       out = sort_key (sort_row lower) (list_rows path (entries_of (dir_stream (content w) dir))))"
  unfolding list_dir_exfat_def
proof (rule reads_bind [OF info_reads [OF assms]])
  fix info w1 assume w1: "ok w1" "content w1 = content w"
    and info: "exfat_info_of (bytes_at (content w) 0 512) = Inr info"
  show "reads ok content w1 (io_bind (exfat_resolve_dir_slots upper fs rd info path) (\<lambda>dir.
     io_bind (exfat_list_entries rd dir) (\<lambda>es. io_return (sort_session_entries lower (list_rows path es)))))
    (\<lambda>out. \<exists>info dir. exfat_info_of (bytes_at (content w) 0 512) = Inr info \<and>
       names_dir upper fs (content w) info path dir \<and>
       out = sort_key (sort_row lower) (list_rows path (entries_of (dir_stream (content w) dir))))"
    by (rule reads_bind [OF resolve_dir_slots_reads [OF w1(1)]],
        rule reads_bind [OF list_entries_reads], assumption, rule reads_return)
      (use w1 info in \<open>auto simp: sort_session_entries_key\<close>)
qed

end

context file_copy
begin

lemma read_streaming_adds:
  assumes "ok w"
  shows "does (read_file_exfat_streaming upper fs get rd path out progress max_bytes) (d, w)
    (\<lambda>r (d', w'). ok w' \<and> content w' = content w \<and> (\<forall>u. r = Inr u \<longrightarrow>
       (\<exists>info e bs. exfat_info_of (bytes_at (content w) 0 512) = Inr info \<and>
          names_entry upper fs (content w) info path e \<and> \<not> entry_is_dir e \<and>
          file_bytes fs (content w) info e (copy_limit e max_bytes) bs \<and> written d' = written d @ bs)))"
  unfolding read_file_exfat_streaming_def
proof (rule does_bind [OF does_on_volume [OF info_reads [OF assms, unfolded does_reads]]])
  fix info s1 assume "case s1 of (d', w') \<Rightarrow> d' = d \<and> ok w' \<and> content w' = content w \<and>
      (\<forall>v. Inr info = Inr v \<longrightarrow> exfat_info_of (bytes_at (content w) 0 512) = Inr v)"
  then obtain w1 where s1: "s1 = (d, w1)" "ok w1" "content w1 = content w"
    and info: "exfat_info_of (bytes_at (content w) 0 512) = Inr info" by (cases s1) auto
  show "does (exfat_read_file_with upper fs rd info path out progress max_bytes) s1
    (\<lambda>r (d', w'). ok w' \<and> content w' = content w \<and> (\<forall>u. r = Inr u \<longrightarrow>
       (\<exists>info e bs. exfat_info_of (bytes_at (content w) 0 512) = Inr info \<and>
          names_entry upper fs (content w) info path e \<and> \<not> entry_is_dir e \<and>
          file_bytes fs (content w) info e (copy_limit e max_bytes) bs \<and> written d' = written d @ bs)))"
    unfolding s1(1)
    by (rule does_mono [OF read_file_adds [OF s1(2) exfat_info_of_bytes [OF info]]])
      (use info s1(3) in \<open>auto simp del: not_ex\<close>)
qed (use assms in auto)

end

text \<open>C11: a folder is listed as it is on the card. Listing returns, whatever the transport fails at, and
  changes nothing; when it succeeds, every folder of the path was found by its name, and the rows are
  those of the entry sets in the folder's slots, in all its clusters, folders first and then by name.\<close>

theorem list_dir_exfat_exact:
  assumes "exfat_volume ok content read_at get wr flush" "ok w"
  shows "does (list_dir_exfat upper lower fs get read_at path) w (\<lambda>r w'.
    ok w' \<and> content w' = content w \<and>
    (case r of
       Inl e \<Rightarrow> True
     | Inr rows \<Rightarrow> \<exists>info dir.
         exfat_info_of (bytes_at (content w) 0 512) = Inr info \<and>
         names_dir upper fs (content w) info path dir \<and>
         rows = sort_key (sort_row lower) (list_rows path (entries_of (dir_stream (content w) dir)))))"
  using exfat_volume.list_dir_reads [OF assms, of upper lower fs path]
  unfolding does_reads by (rule does_mono) (auto split: sum.splits)

lemma sample_paths:
  "segments (slashes (str_trim [])) = []" "exfat_parent_path_and_name (slashes (str_trim [97, 98])) = ([], [97, 98])"
  by (simp_all add: str_trim_def trim_end_def is_whitespace_def slashes_def segments_def SLASH_def
      exfat_parent_path_and_name_def rsplit_once_def Let_def)

lemma sample_resolve_root:
  "serves read_at s \<Longrightarrow> exfat_resolve_dir_slots upper sample_hadris read_at sample_info [] s = Some (Inr sample_root, s)"
  by (simp add: exfat_resolve_dir_slots_def io_bind_def sample_load_root sample_paths)

lemma sample_resolve:
  "serves read_at s \<Longrightarrow> exfat_resolve_entry (\<lambda>c. [c]) sample_hadris read_at sample_info [97, 98] s = Some (Inr sample_entry, s)"
  by (simp add: exfat_resolve_entry_def io_bind_def sample_resolve_root sample_list sample_paths)

theorem list_dir_exfat_exact_witness:
  "\<exists>info dir. exfat_info_of (bytes_at sample_volume 0 512) = Inr info \<and>
     names_dir (\<lambda>c. [c]) sample_hadris sample_volume info [] dir \<and>
     list_dir_exfat (\<lambda>c. [c]) (\<lambda>s. s) sample_hadris mem_get mem_get [] sample_volume =
       Some (Inr (sort_key (sort_row (\<lambda>s. s)) (list_rows [] (entries_of (dir_stream sample_volume dir)))), sample_volume) \<and>
     list_dir_exfat (\<lambda>c. [c]) (\<lambda>s. s) sample_hadris mem_get mem_get [] sample_volume =
       Some (Inr [\<lparr>se_name = [97, 98], se_path = [97, 98], se_is_dir = False, se_size = 5, se_hidden = False\<rparr>],
         sample_volume)"
proof -
  let ?rows = "[\<lparr>se_name = [97, 98], se_path = [97, 98], se_is_dir = False, se_size = 5, se_hidden = False\<rparr>]"
  have "sort_session_entries (\<lambda>s. s) (list_rows [] [sample_entry]) = ?rows"
    by (simp add: list_rows_def session_entry_of_def sample_entry_def entry_is_dir_def entry_is_hidden_def
        ATTR_DIRECTORY_def ATTR_HIDDEN_def DOT_def sort_session_entries_def sample_paths)
  then have run: "list_dir_exfat (\<lambda>c. [c]) (\<lambda>s. s) sample_hadris mem_get mem_get [] sample_volume =
      Some (Inr ?rows, sample_volume)"
    by (simp add: list_dir_exfat_def io_bind_def sample_info_from_disk sample_resolve_root sample_list)
  from list_dir_exfat_exact [OF mem.exfat_volume_axioms TrueI, of "\<lambda>c. [c]" "\<lambda>s. s" sample_hadris "[]" sample_volume] run
  show ?thesis by (auto simp: does_def)
qed

text \<open>C10: a file is copied as it is on the card. Reading a file returns and changes nothing; when it
  succeeds, what was handed over is the file the path names: the bytes of its clusters up to the length
  that was written, then zeros, up to its length or the most that was asked for. A chain that ends
  before the file does is an error, never a short copy.\<close>

theorem read_file_exact:
  assumes "file_copy ok content read_at get wr flush out progress written" "ok w"
  shows "does (read_file_exfat_streaming upper fs get read_at path out progress max_bytes) (d, w)
    (\<lambda>r (d', w'). ok w' \<and> content w' = content w \<and>
      (case r of
         Inl e \<Rightarrow> True
       | Inr u \<Rightarrow> \<exists>info e bs.
           exfat_info_of (bytes_at (content w) 0 512) = Inr info \<and>
           names_entry upper fs (content w) info path e \<and> \<not> entry_is_dir e \<and>
           file_bytes fs (content w) info e (copy_limit e max_bytes) bs \<and> written d' = written d @ bs))"
  by (rule does_mono [OF file_copy.read_streaming_adds [OF assms]]) (auto split: sum.splits)

theorem read_file_exact_witness:
  "\<exists>info e bs. exfat_info_of (bytes_at sample_volume 0 512) = Inr info \<and>
     names_entry (\<lambda>c. [c]) sample_hadris sample_volume info [97, 98] e \<and>
     file_bytes sample_hadris sample_volume info e (copy_limit e None) bs \<and>
     read_file_exfat_streaming (\<lambda>c. [c]) sample_hadris mem_get mem_get [97, 98] vec_write never_stop None
       ([], sample_volume) = Some (Inr (), bs, sample_volume) \<and> bs = [104, 101, 108, 0, 0]"
proof -
  have load: "load_with sample_hadris mem_get sample_info 3 True 5 sample_volume =
      Some (Inr \<lparr>ds_cluster_offsets = [1536], ds_slots_per_cluster = 16\<rparr>, sample_volume)"
    by (simp add: load_with_def Let_def SLOT_BYTES_def sample_hadris_def sample_info_def size_in_clusters_def
        contiguous_run.simps)
  have out: "hand_over vec_write never_stop bs (d, w) = Some (Inr (), d @ bs, w)" for bs d and w :: "nat \<Rightarrow> u8"
    by (simp add: hand_over_def io_bind_def on_source_def goes_on_def vec_write_def never_stop_def)
  have data: "bytes_at sample_volume 1536 3 = [104, 101, 108]"
    by (simp add: bytes_at_small sample_volume_def get_at_def)
  have copy: "copy_cluster mem_get vec_write never_stop 512 3 1536 0 0 ([], sample_volume) =
      Some (Inr 3, [104, 101, 108], sample_volume)"
    by (subst copy_cluster.simps, subst copy_cluster.simps)
      (simp add: io_bind_def on_volume_def mem_get_def STREAM_CHUNK_def out data)
  have zeros: "write_zeros vec_write never_stop 512 5 3 ([104, 101, 108], sample_volume) =
      Some (Inr (), [104, 101, 108, 0, 0], sample_volume)"
    by (subst write_zeros.simps, subst write_zeros.simps) (simp add: out numeral_2_eq_2)
  have run: "read_file_exfat_streaming (\<lambda>c. [c]) sample_hadris mem_get mem_get [97, 98] vec_write never_stop None
       ([], sample_volume) = Some (Inr (), [104, 101, 108, 0, 0], sample_volume)"
    using load copy zeros
    by (simp add: read_file_exfat_streaming_def exfat_read_file_with_def io_bind_def on_volume_def
        sample_info_from_disk sample_resolve exfat_copy_clusters_def STREAM_CHUNK_def)
  from read_file_exact [OF mem_copy.file_copy_axioms TrueI, of "\<lambda>c. [c]" sample_hadris "[97, 98]" None "[]" sample_volume] run
  show ?thesis by (auto simp: does_def)
qed

end
