(* ===== verification/Exfat_File.thy ===== *)
theory Exfat_File
  imports Exfat_Atomic Exfat_Read
begin

text \<open>
  \<open>exfat_create_file_in\<close> of \<open>crates/multi64-sc64-sd/src/partition.rs\<close> as one step on the folder it
  writes to: a new file, and a file that replaces another. The contract it rests on is satisfied by a
  volume in memory with a bitmap.
\<close>

subsection \<open>A path names one folder\<close>

lemma chain_prefix:
  assumes "fat_chain fs f info first cs" "fat_chain fs f info first ds" "length cs \<le> length ds"
  shows "cs = take (length cs) ds"
proof (rule nth_equalityI)
  show "length cs = length (take (length cs) ds)" using assms(3) by simp
  fix i assume "i < length cs"
  then have "cs ! i = ds ! i"
  proof (induction i)
    case 0
    with assms show ?case by (auto simp: fat_chain_def hd_conv_nth)
  next
    case (Suc i)
    have "fat_next f info (cs ! i) = cs ! Suc i" "fat_next f info (ds ! i) = ds ! Suc i"
      using assms Suc.prems by (auto simp: fat_chain_def successively_conv_nth)
    with Suc show ?case by simp
  qed
  then show "cs ! i = take (length cs) ds ! i" using \<open>i < length cs\<close> by simp
qed

lemma chain_unique:
  assumes "fat_chain fs f info first cs" "fat_chain fs f info first ds" "length cs \<le> length ds"
    and "sz \<noteq> 0 \<longrightarrow> length ds \<le> max 1 n"
    and "sz = 0 \<or> length cs < n \<longrightarrow> \<not> hd_is_valid_cluster fs info (fat_next f info (last cs))"
  shows "cs = ds"
proof (cases "length cs = length ds")
  case True
  with chain_prefix [OF assms(1-3)] show ?thesis by simp
next
  case False
  with assms(3) have less: "length cs < length ds" by simp
  have ne: "cs \<noteq> []" using assms(1) by (simp add: fat_chain_def)
  then have "0 < length cs" by simp
  with less assms(4) have "sz = 0 \<or> length cs < n" by linarith
  with assms(5) have stop: "\<not> hd_is_valid_cluster fs info (fat_next f info (last cs))" by blast
  have "last cs = ds ! (length cs - 1)"
    using ne chain_prefix [OF assms(1-3)] less by (metis diff_less last_conv_nth length_greater_0_conv nth_take zero_less_one)
  moreover have "fat_next f info (ds ! (length cs - 1)) = ds ! Suc (length cs - 1)"
    using assms(2) less \<open>0 < length cs\<close> unfolding fat_chain_def successively_conv_nth by fastforce
  moreover have "Suc (length cs - 1) = length cs" using \<open>0 < length cs\<close> by simp
  ultimately have "\<not> hd_is_valid_cluster fs info (ds ! length cs)" using stop by simp
  then show ?thesis using assms(2) less by (auto simp: fat_chain_def)
qed

lemma stream_clusters_unique:
  assumes "stream_clusters fs f info first b sz cs" "stream_clusters fs f info first b sz ds"
  shows "cs = ds"
proof (cases b)
  case True
  with assms show ?thesis by (simp add: stream_clusters_def Let_def)
next
  case False
  let ?n = "size_in_clusters sz (ei_bytes_per_cluster info)"
  from assms False have facts: "fat_chain fs f info first cs" "fat_chain fs f info first ds"
    "sz \<noteq> 0 \<longrightarrow> length cs \<le> max 1 ?n" "sz \<noteq> 0 \<longrightarrow> length ds \<le> max 1 ?n"
    "sz = 0 \<or> length cs < ?n \<longrightarrow> \<not> hd_is_valid_cluster fs info (fat_next f info (last cs))"
    "sz = 0 \<or> length ds < ?n \<longrightarrow> \<not> hd_is_valid_cluster fs info (fat_next f info (last ds))"
    by (simp_all add: stream_clusters_def Let_def)
  show ?thesis
  proof (cases "length cs \<le> length ds")
    case True
    with facts show ?thesis using chain_unique [of fs f info first cs ds sz ?n] by blast
  next
    case False
    with facts show ?thesis using chain_unique [of fs f info first ds cs sz ?n] by force
  qed
qed

lemma dir_of_unique: "dir_of fs f info first b sz dir \<Longrightarrow> dir_of fs f info first b sz dir' \<Longrightarrow> dir' = dir"
  unfolding dir_of_def using stream_clusters_unique by metis

lemma walks_unique: "walks upper fs f info dir segs a \<Longrightarrow> walks upper fs f info dir segs b \<Longrightarrow> b = a"
proof (induction segs arbitrary: dir)
  case (Cons seg segs)
  then show ?case using dir_of_unique [of fs f info] by (metis option.inject walks.simps(2))
qed simp

lemma names_dir_unique: "names_dir upper fs f info path a \<Longrightarrow> names_dir upper fs f info path b \<Longrightarrow> b = a"
  unfolding names_dir_def using dir_of_unique walks_unique by metis

lemma layout_slots: "layout items tail (dir_stream f dir) \<Longrightarrow> slot_count dir = length (slots_of items) + length tail"
  unfolding layout_def by (metis length_append length_dir_stream)

context mounted_volume
begin

lemma locate_entry:
  assumes "ok w" "names_dir (xf_upper X) (xf_hadris X) (content w) (xf_info X) (fst (exfat_parent_path_and_name path)) dir"
    and layout: "layout items tail (dir_stream (content w) dir)"
    and identity: "\<forall>es. EntrySet es \<in> set items \<longrightarrow> set_matches (of_decoded old) es (length es - 1) \<longrightarrow> set_entry es = old"
  shows "does (exfat_locate_entry_set (xf_upper X) (xf_hadris X) (xf_read X) (xf_info X) path (of_decoded old)) w
    (\<lambda>r w'. kept ok content taken {} w w' \<and> content w' = content w \<and>
      (\<forall>v. r = Inr v \<longrightarrow> (\<exists>xs es ys. items = xs @ EntrySet es # ys \<and> set_entry es = old \<and> v = (dir, length (slots_of xs)))))"
proof -
  let ?names = "names_dir (xf_upper X) (xf_hadris X) (content w) (xf_info X) (fst (exfat_parent_path_and_name path))"
  let ?found = "\<lambda>v. \<exists>xs es ys. items = xs @ EntrySet es # ys \<and> set_entry es = old \<and> v = (dir, length (slots_of xs))"
  have w: "ok w \<and> taken w = taken w" using assms(1) by simp
  have "reads (\<lambda>w'. ok w' \<and> taken w' = taken w) content w
      (exfat_locate_entry_set (xf_upper X) (xf_hadris X) (xf_read X) (xf_info X) path (of_decoded old)) ?found"
    unfolding exfat_locate_entry_set_def
  proof (rule reads_bind [OF vol.resolve_dir_slots_reads [OF w]])
    fix dir' w1 assume w1: "ok w1 \<and> taken w1 = taken w" "content w1 = content w" "?names dir'"
    have dir: "dir' = dir" using names_dir_unique [OF assms(2)] w1(3) by blast
    show "reads (\<lambda>w'. ok w' \<and> taken w' = taken w) content w1
      (io_bind (exfat_find_entry_set (xf_read X) dir' (of_decoded old)) (\<lambda>got.
          case got of Some slot \<Rightarrow> io_return (dir', slot) | None \<Rightarrow> io_fail InvalidData)) ?found"
    proof (rule reads_bind [OF vol.find_entry_set_reads [OF w1(1)]])
      fix got w2 assume w2: "ok w2 \<and> taken w2 = taken w" "got = find_in (of_decoded old) (dir_stream (content w1) dir')"
      have "?found (dir', slot)" if got: "got = Some slot" for slot
      proof -
        have "find_in (of_decoded old) (dir_stream (content w) dir) = Some slot" using w2(2) got by (simp add: dir w1(2))
        from find_in_layout [OF layout this] obtain xs es ys where
          at_slot: "items = xs @ EntrySet es # ys" "length (slots_of xs) = slot" "set_matches (of_decoded old) es (length es - 1)"
          by blast
        with identity have "set_entry es = old" by simp
        with at_slot dir show ?thesis by blast
      qed
      then show "reads (\<lambda>w'. ok w' \<and> taken w' = taken w) content w2
          (case got of Some slot \<Rightarrow> io_return (dir', slot) | None \<Rightarrow> io_fail InvalidData) ?found"
        using w2(1) by (auto intro!: reads_return reads_fail split: option.split)
    qed
  qed
  from reads_kept [OF this] show ?thesis .
qed

end

subsection \<open>Creating a file in a folder\<close>

lemma create_outcome_none [simp]: "create_outcome content taken meta X dir False w w"
  by (simp add: create_outcome_def Let_def)

lemma create_outcome_from:
  "content w1 = content w \<Longrightarrow> taken w1 = taken w \<Longrightarrow>
   create_outcome content taken meta X dir made w1 w' = create_outcome content taken meta X dir made w w'"
  by (simp add: create_outcome_def)

lemma set_primary:
  assumes "set_ok es"
  shows "xe_primary (set_entry es) = es ! 0" "length es = 1 + unat (es ! 0 ! 1)"
proof -
  note d = set_okD [OF assms]
  from d(1) obtain us where "set_entry es = make_entry (es ! 0) (es ! 1) us"
    by (auto simp: decode_slots_def dest: sym split: option.splits)
  then show "xe_primary (set_entry es) = es ! 0" by (simp add: make_entry_def)
  from d(2,3) show "length es = 1 + unat (es ! 0 ! 1)"
    by (auto simp: set_size_def Let_def split: if_splits)
qed

context file_create
begin

lemma file_between_replaced:
  assumes "layout (xs @ ms @ ys) tail (dir_stream f dir)" "made_file X T name data g cs contiguous es"
    and "list_all scalar name" "length (slots_of ms) = length es"
    and "dir_stream g dir = splice (length (slots_of xs)) es (dir_stream f dir)"
  shows "file_between X T dir xs ys name data g"
proof -
  from assms(2) have n: "named X name (length data) cs contiguous es" by (simp add: made_file_def)
  note es = named_set [OF n assms(3)]
  have lay: "layout (xs @ EntrySet es # ys) tail (dir_stream g dir)"
    using layout_replace [OF assms(1), of "[EntrySet es]"] assms(4,5) es(1) by simp
  from entries_of_layout [OF this] have "entries_of (dir_stream g dir) =
      listing xs @ new_file_entry name (length data) cs contiguous (es ! 0) # listing ys" by (simp add: es(3))
  with lay assms(2) show ?thesis by (auto simp: file_between_def)
qed

lemma file_between_inserted:
  assumes "layout items tail (dir_stream f dir)" "made_file X T name data g cs contiguous es"
    and "list_all scalar name" "free_run (dir_stream f dir) (length es) (0, 0) r"
    and "dir_stream g dir = splice r es (dir_stream f dir)"
  shows "\<exists>xs fs ys. items = xs @ map FreeSlot fs @ ys \<and> file_between X T dir xs ys name data g"
proof -
  from assms(2) have n: "named X name (length data) cs contiguous es" by (simp add: made_file_def)
  note es = named_set [OF n assms(3)]
  from insert_set [OF assms(1,4) es(1)] obtain xs fs ys tail' where
    split: "items = xs @ map FreeSlot fs @ ys" "layout (xs @ EntrySet es # ys) tail' (dir_stream g dir)"
    using assms(5) by auto
  from entries_of_layout [OF split(2)] have "entries_of (dir_stream g dir) =
      listing xs @ new_file_entry name (length data) cs contiguous (es ! 0) # listing ys" by (simp add: es(3))
  with split(2) assms(2) have "file_between X T dir xs ys name data g" unfolding file_between_def by blast
  with split(1) show ?thesis by blast
qed

text \<open>The part both kinds share, once it is known where the set goes.\<close>

lemma create_file_at:
  assumes "ok w" "list_all scalar name"
    and target: "does (file_target X parent rel_path (exfat_entry_set_len name) replacing) w
      (\<lambda>r w'. kept ok content taken {} w w' \<and> content w' = content w \<and>
        (\<forall>v. r = Inr v \<longrightarrow> fst v = dir \<and> snd v + exfat_entry_set_len name \<le> slot_count dir \<and> P (snd v)))"
    and dir: "dir_in X (taken w) dir"
  shows "does (exfat_create_file_in X parent rel_path name replacing len src progress) (d, w)
    (\<lambda>r (d', w'). ok w' \<and>
      (\<exists>made. create_outcome content taken meta X dir made w w' \<and> ((\<exists>u. r = Inr u) \<longrightarrow> made) \<and>
        (made \<longrightarrow> length (rest d) = len \<and> (replacing = None \<longrightarrow> (\<exists>u. r = Inr u)) \<and>
          (\<exists>first cs contiguous es. P first \<and> made_file X (taken w) name (rest d) (content w') cs contiguous es \<and>
             dir_stream (content w') dir = splice first es (dir_stream (content w) dir)))))"
    (is "does _ _ ?Q")
proof (cases "exfat_validate_rename_name name")
  case (Inl e)
  with assms(1) show ?thesis
    by (auto simp: exfat_create_file_in_def does_def intro!: exI [of _ False])
next
  case (Inr u)
  let ?n = "exfat_entry_set_len name"
  let ?rest = "\<lambda>(dir, slot). io_bind (io_of (slot_offsets dir slot ?n)) (\<lambda>offsets.
         let cluster_count = (len + xf_cluster_bytes X - 1) div xf_cluster_bytes X in
         if 2 ^ 32 \<le> cluster_count then io_fail InvalidInput
         else create_at X name replacing len src progress cluster_count offsets)"
  have fails: "?Q (Inl e) (d', w')" if "ok w'" "content w' = content w" "taken w' = taken w" for e d' w'
    using that create_outcome_from [of content w' w taken meta X dir False w'] by (auto intro!: exI [of _ False])
  have "does (io_bind (on_volume (file_target X parent rel_path ?n replacing)) ?rest) (d, w) ?Q"
  proof (rule does_bind [OF does_on_volume [OF target]])
    fix v and s1 :: "'d \<times> 'w" assume "case s1 of (d', w') \<Rightarrow> d' = d \<and> kept ok content taken {} w w' \<and>
      content w' = content w \<and> (\<forall>v'. Inr v = Inr v' \<longrightarrow> fst v' = dir \<and> snd v' + ?n \<le> slot_count dir \<and> P (snd v'))"
    then obtain w1 first where s1: "s1 = (d, w1)" and w1: "ok w1" "content w1 = content w" "taken w1 = taken w"
      and v: "v = (dir, first)" "first + ?n \<le> slot_count dir" "P first"
      by (cases s1; cases v) (auto simp: kept_def)
    show "does (?rest v) s1 ?Q"
      unfolding s1 v(1) prod.case Let_def slot_offsets_in [OF v(2)] does_bind_simps
    proof (rule does_if)
      show "does (io_fail InvalidInput) (d, w1) ?Q" using fails [OF w1] by simp
      have "dir_in X (taken w1) dir" using dir w1(3) by simp
      from create_in_dir [OF w1(1) this assms(2) refl v(2)]
      show "does (create_at X name replacing len src progress ((len + xf_cluster_bytes X - 1) div xf_cluster_bytes X)
          (map (slot_at dir) [first ..< first + ?n])) (d, w1) ?Q"
        by (rule does_mono) (unfold create_outcome_from [OF w1(2,3)] w1(2,3), use v(3) in blast)
    qed
  next
    fix e :: io_kind and s1 :: "'d \<times> 'w" assume "case s1 of (d', w') \<Rightarrow> d' = d \<and> kept ok content taken {} w w' \<and>
      content w' = content w \<and> (\<forall>v'. Inl e = Inr v' \<longrightarrow> fst v' = dir \<and> snd v' + ?n \<le> slot_count dir \<and> P (snd v'))"
    then show "?Q (Inl e) s1" using fails by (cases s1) (auto simp: kept_def)
  qed
  then show ?thesis by (simp add: exfat_create_file_in_def Inr Let_def)
qed

lemma target_new:
  assumes "ok w" "layout items tail (dir_stream (content w) parent)"
  shows "does (file_target X parent rel_path n None) w (\<lambda>r w'. kept ok content taken {} w w' \<and> content w' = content w \<and>
    (\<forall>v. r = Inr v \<longrightarrow> fst v = parent \<and> snd v + n \<le> slot_count parent \<and>
       free_run (dir_stream (content w) parent) n (0, 0) (snd v)))"
proof -
  have w: "ok w \<and> taken w = taken w" using assms(1) by simp
  show ?thesis
    unfolding file_target_def option.case
    by (rule does_bind [OF reads_kept [OF vol.find_free_entry_run_reads [OF w]]]) (auto simp: free_run_def)
qed

lemma target_replaced:
  assumes "ok w" "names_dir (xf_upper X) (xf_hadris X) (content w) (xf_info X) (fst (exfat_parent_path_and_name rel_path)) dir"
    and layout: "layout items tail (dir_stream (content w) dir)"
    and identity: "\<forall>es. EntrySet es \<in> set items \<longrightarrow> set_matches (of_decoded old) es (length es - 1) \<longrightarrow> set_entry es = old"
  shows "does (file_target X parent rel_path n (Some old)) w (\<lambda>r w'. kept ok content taken {} w w' \<and> content w' = content w \<and>
    (\<forall>v. r = Inr v \<longrightarrow> fst v = dir \<and> snd v + n \<le> slot_count dir \<and>
       (\<exists>xs es ys. items = xs @ EntrySet es # ys \<and> set_entry es = old \<and> length es = n \<and> snd v = length (slots_of xs))))"
    (is "does _ _ ?Q")
  unfolding file_target_def option.case
proof (rule does_bind [OF locate_entry [OF assms]])
  fix v w1 assume w1: "kept ok content taken {} w w1 \<and> content w1 = content w \<and>
    (\<forall>v'. Inr v = Inr v' \<longrightarrow> (\<exists>xs es ys. items = xs @ EntrySet es # ys \<and> set_entry es = old \<and> v' = (dir, length (slots_of xs))))"
  then obtain xs es ys where es: "items = xs @ EntrySet es # ys" "set_entry es = old" "v = (dir, length (slots_of xs))"
    by blast
  have "set_ok es" using layout es(1) by (simp add: layout_def)
  note primary = set_primary [OF this]
  have "length (slots_of xs) + length es \<le> slot_count dir" using layout_slots [OF layout] es(1) by simp
  then show "does (case v of (dir, slot) \<Rightarrow>
      if 1 + unat (xe_primary old ! 1) \<noteq> n then io_fail InvalidData else io_return (dir, slot)) w1 ?Q"
    using w1 es primary by auto
qed auto

text \<open>A new file: when the create succeeds, the folder's listing gains the file and changes in nothing
  else; when it fails, the folder is as it was.\<close>

lemma create_new:
  assumes "ok w" "dir_in X (taken w) parent" "layout items tail (dir_stream (content w) parent)" "list_all scalar name"
  shows "does (exfat_create_file_in X parent rel_path name None len src progress) (d, w) (\<lambda>r (d', w'). ok w' \<and>
    create_outcome content taken meta X parent (\<exists>u. r = Inr u) w w' \<and>
    ((\<exists>u. r = Inr u) \<longrightarrow> length (rest d) = len \<and>
      (\<exists>xs fs ys. items = xs @ map FreeSlot fs @ ys \<and>
         file_between X (taken w) parent xs ys name (rest d) (content w'))))"
proof (rule does_mono [OF create_file_at [OF assms(1,4) target_new [OF assms(1,3)] assms(2)]], goal_cases)
  case (1 r s')
  obtain d' w' where s': "s' = (d', w')" by fastforce
  from 1 obtain made where made: "ok w'" "create_outcome content taken meta X parent made w w'"
    "(\<exists>u. r = Inr u) \<longrightarrow> made" "made \<longrightarrow> length (rest d) = len \<and> (\<exists>u. r = Inr u) \<and>
      (\<exists>first cs contiguous es. free_run (dir_stream (content w) parent) (exfat_entry_set_len name) (0, 0) first \<and>
         made_file X (taken w) name (rest d) (content w') cs contiguous es \<and>
         dir_stream (content w') parent = splice first es (dir_stream (content w) parent))"
    unfolding s' prod.case by blast
  have "\<exists>xs fs ys. items = xs @ map FreeSlot fs @ ys \<and>
      file_between X (taken w) parent xs ys name (rest d) (content w')" if m: made
  proof -
    from made(4) m obtain first cs contiguous es where
      f: "free_run (dir_stream (content w) parent) (exfat_entry_set_len name) (0, 0) first"
        "made_file X (taken w) name (rest d) (content w') cs contiguous es"
        "dir_stream (content w') parent = splice first es (dir_stream (content w) parent)" by blast
    from f(2) have "length es = exfat_entry_set_len name"
      using named_set(2) [OF _ assms(4)] by (auto simp: made_file_def)
    with file_between_inserted [OF assms(3) f(2) assms(4) _ f(3)] f(1) show ?thesis by simp
  qed
  moreover have "made = (\<exists>u. r = Inr u)" using made(3,4) by blast
  ultimately show ?case unfolding s' prod.case using made by blast
qed

text \<open>A replaced file: its entry gives way to the new one, or stays. The old clusters are given back
  only once the new entry is on the card, so a failure at that is reported with the new file in place.\<close>

lemma create_replacing:
  assumes "ok w" "names_dir (xf_upper X) (xf_hadris X) (content w) (xf_info X) (fst (exfat_parent_path_and_name rel_path)) dir"
    and "dir_in X (taken w) dir" "layout items tail (dir_stream (content w) dir)" "list_all scalar name"
    and "\<forall>es. EntrySet es \<in> set items \<longrightarrow> set_matches (of_decoded old) es (length es - 1) \<longrightarrow> set_entry es = old"
  shows "does (exfat_create_file_in X parent rel_path name (Some old) len src progress) (d, w) (\<lambda>r (d', w'). ok w' \<and>
    (\<exists>made. create_outcome content taken meta X dir made w w' \<and> ((\<exists>u. r = Inr u) \<longrightarrow> made) \<and>
      (made \<longrightarrow> length (rest d) = len \<and>
        (\<exists>xs es ys. items = xs @ EntrySet es # ys \<and> set_entry es = old \<and>
           file_between X (taken w) dir xs ys name (rest d) (content w')))))"
proof (rule does_mono [OF create_file_at [OF assms(1,5) target_replaced [OF assms(1,2,4,6)] assms(3)]], goal_cases)
  case (1 r s')
  obtain d' w' where s': "s' = (d', w')" by fastforce
  from 1 obtain made where made: "ok w'" "create_outcome content taken meta X dir made w w'"
    "(\<exists>u. r = Inr u) \<longrightarrow> made" "made \<longrightarrow> length (rest d) = len \<and>
      (\<exists>first cs contiguous new. (\<exists>xs es ys. items = xs @ EntrySet es # ys \<and> set_entry es = old \<and>
           length es = exfat_entry_set_len name \<and> first = length (slots_of xs)) \<and>
         made_file X (taken w) name (rest d) (content w') cs contiguous new \<and>
         dir_stream (content w') dir = splice first new (dir_stream (content w) dir))"
    unfolding s' prod.case by blast
  have "\<exists>xs es ys. items = xs @ EntrySet es # ys \<and> set_entry es = old \<and>
      file_between X (taken w) dir xs ys name (rest d) (content w')" if m: made
  proof -
    from made(4) m obtain cs contiguous new xs es ys where
      f: "items = xs @ EntrySet es # ys" "set_entry es = old" "length es = exfat_entry_set_len name"
        "made_file X (taken w) name (rest d) (content w') cs contiguous new"
        "dir_stream (content w') dir = splice (length (slots_of xs)) new (dir_stream (content w) dir)" by blast
    from f(4) have "length new = exfat_entry_set_len name"
      using named_set(2) [OF _ assms(5)] by (auto simp: made_file_def)
    with file_between_replaced [of xs "[EntrySet es]" ys tail "content w" dir, OF _ f(4) assms(5) _ f(5)] assms(4) f(1-3)
    show ?thesis by auto
  qed
  then show ?case unfolding s' prod.case using made by blast
qed

end

subsection \<open>A bitmap in memory\<close>

text \<open>One file system that keeps the contract: the clusters taken are a list beside the volume, and
  nothing of it is on the volume.\<close>

definition bitmap_allocate :: "exfat_info \<Rightarrow> u32 \<Rightarrow> (u32 list \<times> 'w, u32) io" where
  "bitmap_allocate info hint bw =
     (let cs = map word_of_nat [2 ..< 2 + unat (ei_cluster_count info)] in
      case find (\<lambda>c. c \<notin> set (fst bw)) (filter ((\<le>) hint) cs @ cs) of
        None \<Rightarrow> Some (Inl StorageFull, bw)
      | Some c \<Rightarrow> Some (Inr c, c # fst bw, snd bw))"

definition bitmap_free :: "u32 \<Rightarrow> u32 \<Rightarrow> bool \<Rightarrow> (u32 list \<times> 'w, unit) io" where
  "bitmap_free c n contiguous bw =
     (let gone = (if contiguous then map (\<lambda>i. c + word_of_nat i) [0 ..< unat n] else [c])
      in Some (Inr (), filter (\<lambda>d. d \<notin> set gone) (fst bw), snd bw))"

definition bitmap_fs ::
  "exfat_info \<Rightarrow> nat \<Rightarrow> (nat \<Rightarrow> nat \<Rightarrow> ('w, octets) io) \<Rightarrow> (nat \<Rightarrow> nat \<Rightarrow> ('w, octets) io) \<Rightarrow>
     (nat \<Rightarrow> octets \<Rightarrow> ('w, unit) io) \<Rightarrow> ('w, unit) io \<Rightarrow> (u32 list \<times> 'w) exfat_fs" where
  "bitmap_fs info part_bytes rd get wr flush =
     \<lparr>xf_part_bytes = part_bytes,
      xf_read = (\<lambda>a n. on_volume (rd a n)), xf_get = (\<lambda>a n. on_volume (get a n)),
      xf_put = (\<lambda>a bs. on_volume (wr a bs)), xf_flush = on_volume flush,
      xf_info = info, xf_hadris = sample_hadris, xf_upper = (\<lambda>c. [c]), xf_now = (0, 0, 0),
      xf_allocate_cluster = bitmap_allocate info, xf_free_clusters = bitmap_free,
      xf_is_cluster_allocated = (\<lambda>c bw. Some (Inr (c \<in> set (fst bw)), bw)),
      xf_free_cluster_count = (\<lambda>bw. unat (ei_cluster_count info) - length (fst bw)),
      xf_sync_bitmap = io_return ()\<rparr>"

lemma bitmap_fs_simps [simp]:
  "xf_read (bitmap_fs info pb rd get wr flush) = (\<lambda>a n. on_volume (rd a n))"
  "xf_get (bitmap_fs info pb rd get wr flush) = (\<lambda>a n. on_volume (get a n))"
  "xf_put (bitmap_fs info pb rd get wr flush) = (\<lambda>a bs. on_volume (wr a bs))"
  "xf_flush (bitmap_fs info pb rd get wr flush) = on_volume flush"
  "xf_part_bytes (bitmap_fs info pb rd get wr flush) = pb"
  "xf_info (bitmap_fs info pb rd get wr flush) = info"
  "xf_hadris (bitmap_fs info pb rd get wr flush) = sample_hadris"
  "xf_upper (bitmap_fs info pb rd get wr flush) = (\<lambda>c. [c])"
  "xf_now (bitmap_fs info pb rd get wr flush) = (0, 0, 0)"
  "xf_allocate_cluster (bitmap_fs info pb rd get wr flush) = bitmap_allocate info"
  "xf_free_clusters (bitmap_fs info pb rd get wr flush) = bitmap_free"
  "xf_is_cluster_allocated (bitmap_fs info pb rd get wr flush) = (\<lambda>c bw. Some (Inr (c \<in> set (fst bw)), bw))"
  "xf_free_cluster_count (bitmap_fs info pb rd get wr flush) =
     (\<lambda>bw. unat (ei_cluster_count info) - length (fst bw))"
  "xf_sync_bitmap (bitmap_fs info pb rd get wr flush) = io_return ()"
  "xf_cluster_bytes (bitmap_fs info pb rd get wr flush) = ei_bytes_per_cluster info"
  "xf_valid (bitmap_fs info pb rd get wr flush) c \<longleftrightarrow> 2 \<le> unat c \<and> unat c < 2 + unat (ei_cluster_count info)"
  "xf_offset (bitmap_fs info pb rd get wr flush) c =
     ei_cluster_heap_offset info + (unat c - 2) * ei_bytes_per_cluster info"
  by (simp_all add: bitmap_fs_def xf_cluster_bytes_def xf_valid_def xf_offset_def sample_hadris_def)

lemma reads_on_volume:
  "reads ok content w m P \<Longrightarrow>
   reads (\<lambda>(b, w). ok w \<and> set b = T) (\<lambda>(b, w). content w) (b, w) (on_volume m) P" if "set b = T"
  using that by (auto simp: reads_def on_volume_def)

lemma bitmap_volume:
  assumes "exfat_volume ok content rd get wr flush"
  shows "exfat_volume (\<lambda>bw. (case bw of (b, w) \<Rightarrow> ok w) \<and> (case bw of (b, w) \<Rightarrow> set b) = T) (\<lambda>(b, w). content w)
    (\<lambda>a n. on_volume (rd a n)) (\<lambda>a n. on_volume (get a n)) (\<lambda>a bs. on_volume (wr a bs)) (on_volume flush)"
proof -
  note v = assms [unfolded exfat_volume_def]
  have ok: "(\<lambda>bw. (case bw of (b, w) \<Rightarrow> ok w) \<and> (case bw of (b, w) \<Rightarrow> set b) = T) = (\<lambda>(b, w). ok w \<and> set b = T)"
    by (simp add: fun_eq_iff)
  show ?thesis
    unfolding ok
  proof (unfold_locales, goal_cases)
    case (1 bw a n)
    with v show ?case by (cases bw) (auto intro!: reads_on_volume)
  next
    case (2 bw a n)
    with v show ?case by (cases bw) (auto intro!: reads_on_volume)
  next
    case (3 bw a bs)
    obtain b w where bw: "bw = (b, w)" by fastforce
    with 3 v have "\<exists>r w'. wr a bs w = Some (r, w')" by auto
    then show ?case by (auto simp: bw on_volume_def)
  next
    case (4 bw a bs r bw')
    with v show ?case by (cases bw; cases bw') (auto simp: on_volume_def)
  next
    case (5 bw a bs u bw')
    with v show ?case by (cases bw; cases bw') (auto simp: on_volume_def)
  next
    case (6 bw a' bs r bw' a)
    obtain b w b' w' where "bw = (b, w)" "bw' = (b', w')" by fastforce
    with 6 v show ?case by (auto simp: on_volume_def)
  next
    case (7 bw)
    with v show ?case by (cases bw) (auto intro!: reads_on_volume)
  qed
qed

lemma touched_below:
  assumes "a + n \<le> h" "512 dvd (h :: nat)"
  shows "touched a n \<subseteq> {..< h}"
proof -
  from assms(2) obtain k where k: "h = 512 * k" by (rule dvdE)
  have "(a + n + 511) div 512 \<le> k" using assms(1) k by linarith
  then have "(a + n + 511) div 512 * 512 \<le> h" using k by simp
  then show ?thesis by (auto simp: touched_def)
qed

lemma bitmap_allocate_cases:
  "(\<exists>c. bitmap_allocate info hint (b, w) = Some (Inr c, c # b, w) \<and> c \<notin> set b) \<or>
   bitmap_allocate info hint (b, w) = Some (Inl StorageFull, b, w)"
proof -
  let ?cs = "map word_of_nat [2 ..< 2 + unat (ei_cluster_count info)]"
  let ?find = "find (\<lambda>c. c \<notin> set b) (filter ((\<le>) hint) ?cs @ ?cs)"
  have run: "bitmap_allocate info hint (b, w) =
      (case ?find of None \<Rightarrow> Some (Inl StorageFull, b, w) | Some c \<Rightarrow> Some (Inr c, c # b, w))"
    unfolding bitmap_allocate_def Let_def fst_conv snd_conv by (rule refl)
  have "c \<notin> set b" if "?find = Some c" for c using that unfolding find_Some_iff by metis
  then show ?thesis unfolding run by (cases ?find) (simp_all only: option.case, blast+)
qed

text \<open>The FAT and what precedes it lie below the cluster heap.\<close>

definition heap_last :: "exfat_info \<Rightarrow> bool" where
  "heap_last info \<longleftrightarrow>
     0 < ei_bytes_per_cluster info \<and> 512 dvd ei_bytes_per_cluster info \<and> 512 dvd ei_cluster_heap_offset info \<and>
     4 * (2 + unat (ei_cluster_count info)) \<le> ei_fat_length info \<and>
     ei_fat_offset info + unat (ei_fat_count info) * ei_fat_length info \<le> ei_cluster_heap_offset info"

lemma bitmap_mounted:
  assumes "exfat_volume ok content rd get wr flush" "heap_last info"
  shows "mounted_volume (\<lambda>(b, w). ok w) (\<lambda>(b, w). content w) (\<lambda>(b, w). set b) {..< ei_cluster_heap_offset info}
    (bitmap_fs info part_bytes rd get wr flush)"
proof (rule mounted_volume.intro, goal_cases)
  case (1 T)
  then show ?case using bitmap_volume [OF assms(1), of T] by simp
next
  case 2
  then show ?case by (simp add: sample_hadris_ok)
next
  case (6 c i)
  let ?at = "ei_fat_offset info + i * ei_fat_length info + unat c * 4"
  have "unat c * 4 + 4 \<le> ei_fat_length info" using 6(1) assms(2) by (simp add: heap_last_def)
  moreover have "(i + 1) * ei_fat_length info \<le> unat (ei_fat_count info) * ei_fat_length info"
    using 6(2) by (intro mult_le_mono1) simp
  ultimately have "?at + 4 \<le> ei_cluster_heap_offset info" using assms(2) by (simp add: heap_last_def)
  with assms(2) show ?case by (simp add: touched_below heap_last_def)
next
  case (9 w hint)
  obtain b v where w: "w = (b, v)" by fastforce
  with 9 bitmap_allocate_cases [of info hint b v] show ?case by (auto simp: does_def)
qed (use assms(2) in \<open>auto simp: heap_last_def cluster_range_def does_def kept_def bitmap_free_def Let_def\<close>)

definition list_source :: "octets source" where
  "list_source n d = (Inr (take n d), drop n d)"

lemma list_has_more: "has_more list_source d = Some (Inr (d \<noteq> []), drop 1 d)"
  by (subst has_more.simps) (cases d, simp_all add: list_source_def)

interpretation list_copy: copy_source list_source never_stop "\<lambda>d. d"
  by unfold_locales (auto simp: list_source_def never_stop_def list_has_more)

lemma sample_heap: "heap_last sample_info"
  by (simp add: heap_last_def sample_info_def)

interpretation img_mounted: mounted_volume
  "\<lambda>(b, cw). case cw of (c, w) \<Rightarrow> cache_inv c \<and> img.coherent w c"
  "\<lambda>(b, cw). partition_view part_start (case cw of (c, w) \<Rightarrow> image_content w)" "\<lambda>(b, cw). set b"
  "{..< ei_cluster_heap_offset sample_info}"
  "bitmap_fs sample_info part_bytes (exfat_volume_reader (read_sd_sectors image_fetch) part_start part_bytes)
     (volume_get (read_sd_sectors image_fetch) part_start part_bytes)
     (volume_put (read_sd_sectors image_fetch) (write_sd_sectors image_store) part_start part_bytes)
     (io_return ())" for part_start part_bytes
  by (rule bitmap_mounted [OF img_steady.volume.exfat_volume_axioms sample_heap])

interpretation img_create: file_create
  "\<lambda>(b, cw). case cw of (c, w) \<Rightarrow> cache_inv c \<and> img.coherent w c"
  "\<lambda>(b, cw). partition_view part_start (case cw of (c, w) \<Rightarrow> image_content w)" "\<lambda>(b, cw). set b"
  "{..< ei_cluster_heap_offset sample_info}"
  "bitmap_fs sample_info part_bytes (exfat_volume_reader (read_sd_sectors image_fetch) part_start part_bytes)
     (volume_get (read_sd_sectors image_fetch) part_start part_bytes)
     (volume_put (read_sd_sectors image_fetch) (write_sd_sectors image_store) part_start part_bytes)
     (io_return ())" list_source never_stop "\<lambda>d. d" for part_start part_bytes
  by unfold_locales

definition sample_fs :: "(u32 list \<times> (nat \<Rightarrow> u8)) exfat_fs" where
  "sample_fs = bitmap_fs sample_info 3072 mem_get mem_get mem_put (io_return ())"

interpretation mem_create: file_create "\<lambda>(b, f). True" "\<lambda>(b, f). f" "\<lambda>(b, f). set b"
  "{..< ei_cluster_heap_offset sample_info}" sample_fs list_source never_stop "\<lambda>d. d"
  unfolding sample_fs_def file_create_def
  by (intro conjI bitmap_mounted [OF mem.exfat_volume_axioms sample_heap] list_copy.copy_source_axioms)

lemma sample_mem_steps [simp]:
  "on_volume (mem_get a n) (d, f) = Some (Inr (bytes_at f a n), d, f)"
  "on_volume (mem_put a bs) (d, f) = Some (Inr (), d, overlay f a bs)"
  "on_volume (io_return ()) (d, v) = Some (Inr (), d, v)"
  by (simp_all add: on_volume_def mem_get_def mem_put_def)

lemma sample_fs_simps:
  "xf_cluster_bytes sample_fs = 512" "xf_part_bytes sample_fs = 3072" "xf_info sample_fs = sample_info"
  "xf_offset sample_fs c = 1024 + (unat c - 2) * 512" "xf_valid sample_fs c \<longleftrightarrow> 2 \<le> unat c \<and> unat c < 6"
  "xf_read sample_fs = (\<lambda>a n. on_volume (mem_get a n))" "xf_get sample_fs = (\<lambda>a n. on_volume (mem_get a n))"
  "xf_put sample_fs = (\<lambda>a bs. on_volume (mem_put a bs))" "xf_flush sample_fs = on_volume (io_return ())"
  "xf_sync_bitmap sample_fs = io_return ()" "xf_hadris sample_fs = sample_hadris" "xf_now sample_fs = (0, 0, 0)"
  "xf_allocate_cluster sample_fs = bitmap_allocate sample_info"
  "xf_is_cluster_allocated sample_fs = (\<lambda>c bw. Some (Inr (c \<in> set (fst bw)), bw))"
  "xf_free_cluster_count sample_fs bw = 4 - length (fst bw)"
  by (simp_all add: sample_fs_def sample_info_def)

lemma sample_free: "sample_volume 1120 = 0" "sample_volume 1152 = 0" "sample_volume 1184 = 0"
  by (simp_all add: sample_volume_def EXFAT_MAGIC_def get_at_def)

lemma sample_find_free:
  "exfat_find_free_entry_run (\<lambda>a n. on_volume (mem_get a n)) sample_root 3 (0, 0) (b, sample_volume) =
    Some (Inr 3, b, sample_volume)"
proof -
  let ?m = "[0 \<mapsto> bytes_at sample_volume 1024 512]"
  let ?from = "free_run_from (read_slot (\<lambda>a n. on_volume (mem_get a n)) sample_root) 16 3 (0, 0)"
  note step = io_bind_def sample_slot sample_first sample_free in_use_def EXFAT_ENTRY_IN_USE_def
  have "?from 5 3 2 (?m, b, sample_volume) = Some (Inr 3, ?m, b, sample_volume)"
    by (subst free_run_from.simps) (simp add: step)
  then have "?from 4 3 1 (?m, b, sample_volume) = Some (Inr 3, ?m, b, sample_volume)"
    by (subst free_run_from.simps) (simp add: step numeral_2_eq_2 [symmetric])
  then have "?from 3 r 0 (?m, b, sample_volume) = Some (Inr 3, ?m, b, sample_volume)" for r
    by (subst free_run_from.simps) (simp add: step)
  then have "?from 2 r 0 (?m, b, sample_volume) = Some (Inr 3, ?m, b, sample_volume)" for r
    by (subst free_run_from.simps) (simp add: step)
  then have "?from 1 r 0 (?m, b, sample_volume) = Some (Inr 3, ?m, b, sample_volume)" for r
    by (subst free_run_from.simps) (simp add: step numeral_2_eq_2 [symmetric])
  then have "?from 0 r 0 (\<lambda>_. None, b, sample_volume) = Some (Inr 3, ?m, b, sample_volume)" for r
    by (subst free_run_from.simps) (simp add: step)
  then show ?thesis by (simp add: exfat_find_free_entry_run_def with_reader_def slot_count_def sample_root_def)
qed

lemma sample_heap_clusters:
  "unat (ei_cluster_count sample_info) = 4" "map word_of_nat [2 ..< 2 + 4] = [2, 3, 4, 5 :: u32]"
  "filter ((\<le>) (4 :: u32)) [2, 3, 4, 5] = [4, 5]"
  by (simp_all add: sample_info_def upt_rec)

lemma sample_allocate:
  "exfat_allocate_file_clusters sample_fs 1 ([3, 2], f) = Some (Inr True, [4], [4, 3, 2], overlay f 528 (replicate 4 0))"
  if "f 528 = 0" "f 529 = 0" "f 530 = 0" "f 531 = 0"
proof -
  have "scan_free sample_fs 5 1 4 r 0 ([3, 2], f) = Some (Inr (Some 4, 1), [3, 2], f)" for r
    by (subst scan_free.simps) (simp add: sample_fs_simps io_bind_def)
  then have "scan_free sample_fs 5 1 3 r 0 ([3, 2], f) = Some (Inr (Some 4, 1), [3, 2], f)" for r
    by (subst scan_free.simps) (simp add: sample_fs_simps io_bind_def)
  then have scan: "scan_free sample_fs 5 1 2 None 0 ([3, 2], f) = Some (Inr (Some 4, 1), [3, 2], f)"
    by (subst scan_free.simps) (simp add: sample_fs_simps io_bind_def numeral_3_eq_3 [symmetric])
  have zero: "exfat_should_zero_fat_for_nofatchain_range sample_fs 4 1 ([3, 2], f) = Some (Inr True, [3, 2], f)"
    unfolding exfat_should_zero_fat_for_nofatchain_range_def
    by (subst should_zero_from.simps, subst should_zero_from.simps)
      (simp add: exfat_read_fat_entry_inner_def sample_fs_simps sample_info_def io_bind_def bytes_at_small that le32_at_def slice_def)
  have alloc: "bitmap_allocate sample_info 4 ([3, 2], f) = Some (Inr 4, [4, 3, 2], f)"
    by (simp only: bitmap_allocate_def sample_heap_clusters Let_def append.simps find.simps fst_conv) simp
  have "to_le k 0 = replicate k 0" for k by (induction k) simp_all
  then have "le32 0 = replicate 4 0" by (simp add: le32_def)
  then have clear: "exfat_clear_fat_contiguous_range sample_fs 4 1 ([4, 3, 2], f) =
      Some (Inr (), [4, 3, 2], overlay f 528 (replicate 4 0))"
    by (simp add: exfat_clear_fat_contiguous_range_def exfat_write_fat_entries_def sample_fs_simps sample_info_def
        io_bind_def)
  show ?thesis
    using scan zero alloc clear
    by (simp add: exfat_allocate_file_clusters_def sample_fs_simps then_io_def sample_info_def io_bind_def)
qed

lemma sample_data:
  assumes "name = [97, 98] \<or> name = [99, 100]"
  shows "\<exists>slabs f'. file_data sample_fs list_source never_stop name 2 [4] True ([1, 2], b, f) =
    Some (Inr slabs, [], b, f')"
proof -
  have fill: "fill_buf list_source 2 [] [1, 2] = (Inr [1, 2], [])"
    by (subst fill_buf.simps, simp add: list_source_def, subst fill_buf.simps, simp)
  have "xf_write_bytes sample_fs 2048 bs (b, g) = Some (Inr (), b, overlay g 2048 bs)" if "length bs = 512" for bs b g
    using that by (simp add: xf_write_bytes_def exfat_write_bytes_at_def sample_fs_simps saturating_add64_def io_bind_def)
  then have put: "on_volume (xf_write_bytes sample_fs 2048 bs) ([], b, g) = Some (Inr (), [], b, overlay g 2048 bs)"
    if "length bs = 512" for bs b g using that by (simp add: on_volume_def)
  obtain slabs where slabs: "exfat_build_new_entry_set_bytes sample_hadris (0, 0, 0) name EXFAT_ATTR_ARCHIVE 4 2 True = Inr slabs"
    using assms by (auto simp: exfat_build_new_entry_set_bytes_def exfat_validate_rename_name_def encode_utf16_def encode_char_def refuse_dot_name_def Let_def
        exfat_invalid_filename_char_def EXFAT_MAX_FILENAME_LEN_def)
  show ?thesis
    using fill slabs
    by (simp add: file_data_def exfat_write_stream_to_clusters_def sample_fs_simps io_bind_def on_source_def put
        goes_on_def never_stop_def exfat_source_has_more_def list_has_more)
qed

lemma sample_write_set:
  assumes "os = [1120, 1152, 1184] \<or> os = [1024, 1056, 1088]"
  shows "\<exists>f'. exfat_write_entry_slabs_restoring (xf_part_bytes sample_fs) (xf_get sample_fs) (xf_put sample_fs)
    (xf_flush sample_fs) os slabs (b, f) = Some (Inr (), b, f')"
proof -
  have "group_sectors 3072 0 os [] = Inr [(1024, [0, 1, 2])]"
    using assms by (auto simp: saturating_add64_def numeral_2_eq_2)
  then show ?thesis
    by (simp add: exfat_write_entry_slabs_restoring_def sample_fs_simps write_sector_def io_bind_def)
qed

lemma sample_publish:
  assumes "os = [1120, 1152, 1184] \<or> os = [1024, 1056, 1088]"
  shows "\<exists>f'. publish sample_fs os [4] (Inr slabs) (b, f) = Some (Inr (), b, f')"
  using sample_write_set [OF assms, of slabs b f] by (auto simp: publish_def)

lemma sample_fat_free: "sample_volume 528 = 0" "sample_volume 529 = 0" "sample_volume 530 = 0" "sample_volume 531 = 0"
  by (simp_all add: sample_volume_def EXFAT_MAGIC_def get_at_def)

lemma sample_name:
  assumes "name = [97, 98] \<or> name = [99, 100]"
  shows "exfat_validate_rename_name name = Inr ()" "exfat_entry_set_len name = 3"
proof -
  show "exfat_validate_rename_name name = Inr ()"
    using assms by (auto simp: exfat_validate_rename_name_def encode_utf16_def encode_char_def refuse_dot_name_def Let_def
        exfat_invalid_filename_char_def EXFAT_MAX_FILENAME_LEN_def)
  have "length (encode_utf16 name) = 2" using assms by (auto simp: encode_utf16_def encode_char_def)
  then show "exfat_entry_set_len name = 3" unfolding exfat_entry_set_len_def by simp
qed

lemma sample_create:
  "\<exists>w'. exfat_create_file_in sample_fs sample_root [99, 100] [99, 100] None 2 list_source never_stop
      ([1, 2], [3, 2], sample_volume) = Some (Inr (), [], w')"
proof -
  have offsets: "slot_offsets sample_root 3 3 = Inr [1120, 1152, 1184]"
    using slot_offsets_in [of 3 3 sample_root]
    by (simp add: slot_count_def sample_root_def slot_at_def SLOT_BYTES_def upt_rec)
  have target: "on_volume (file_target sample_fs sample_root [99, 100] 3 None) ([1, 2] :: octets, [3, 2], sample_volume) =
      Some (Inr (sample_root, 3), [1, 2], [3, 2], sample_volume)"
    by (simp add: on_volume_def file_target_def sample_fs_simps io_bind_def sample_find_free)
  obtain slabs f where data: "file_data sample_fs list_source never_stop [99, 100] 2 [4] True
      ([1, 2], [4, 3, 2], overlay sample_volume 528 (replicate 4 0)) = Some (Inr slabs, [], [4, 3, 2], f)"
    using sample_data by blast
  obtain f' where pub: "publish sample_fs [1120, 1152, 1184] [4] (Inr slabs) ([4, 3, 2], f) = Some (Inr (), [4, 3, 2], f')"
    using sample_publish by blast
  have "create_at sample_fs [99, 100] None 2 list_source never_stop 1 [1120, 1152, 1184] ([1, 2], [3, 2], sample_volume) =
      Some (Inr (), [], [4, 3, 2], f')"
    using data pub by (simp add: create_at_def sample_allocate [OF sample_fat_free, simplified] on_volume_def io_bind_def free_replaced_def)
  then show ?thesis
    using offsets target by (simp add: exfat_create_file_in_def sample_name sample_fs_simps io_bind_def)
qed

text \<open>The folder's slots: one entry set, then end markers.\<close>

lemma sample_layout:
  "layout [EntrySet [bytes_at sample_volume 1024 32, bytes_at sample_volume 1056 32, bytes_at sample_volume 1088 32]]
     (replicate 13 (replicate 32 0)) (dir_stream sample_volume sample_root)"
proof -
  let ?es = "[bytes_at sample_volume 1024 32, bytes_at sample_volume 1056 32, bytes_at sample_volume 1088 32]"
  have free: "bytes_at sample_volume a 32 = replicate 32 0" if "1120 \<le> a" "a \<le> 1504" for a
  proof -
    have "sample_volume i = 0" if "1120 \<le> i" "i < 1536" for i
      using that by (simp add: sample_volume_def EXFAT_MAGIC_def get_at_def) linarith
    with that show ?thesis by (simp add: bytes_at_def list_eq_iff_nth_eq)
  qed
  have units: "collect_units 2 [bytes_at sample_volume 1088 32] = Some [97, 98]"
    by (simp add: sample_units sample_first EXFAT_ENTRY_FILE_NAME_def Let_def)
  have "decode_slots ?es = Some (sample_entry, 2)"
    using units by (simp add: decode_slots_def set_size_def sample_first sample_decoded numeral_2_eq_2 [symmetric]
        EXFAT_ENTRY_FILE_DIRECTORY_def EXFAT_ENTRY_STREAM_EXT_def Let_def)
  then have "item_ok (EntrySet ?es)"
    by (simp add: set_ok_def SLOT_BYTES_def sample_first in_use_def EXFAT_ENTRY_IN_USE_def)
  moreover have "dir_stream sample_volume sample_root = ?es @ replicate 13 (replicate 32 0)"
    by (simp add: dir_stream_def slot_count_def sample_root_def slot_at_def SLOT_BYTES_def upt_rec free replicate_num)
  ultimately show ?thesis
    by (simp add: layout_def slots_of_def END_OF_DIRECTORY_def SLOT_BYTES_def)
qed

lemma sample_in: "dir_in sample_fs {2, 3} sample_root"
  unfolding dir_in_def
  by (intro exI [of _ "[2]"]) (simp add: sample_fs_simps sample_root_def SLOT_BYTES_def)

lemma sample_set_entry:
  "set_entry [bytes_at sample_volume 1024 32, bytes_at sample_volume 1056 32, bytes_at sample_volume 1088 32] = sample_entry"
  using sample_units
  by (simp add: set_entry_def decode_slots_def set_size_def sample_first sample_decoded numeral_2_eq_2 [symmetric]
      EXFAT_ENTRY_FILE_DIRECTORY_def EXFAT_ENTRY_STREAM_EXT_def EXFAT_ENTRY_FILE_NAME_def Let_def)

subsection \<open>Creating and replacing are one step\<close>



lemma sample_parent: "exfat_parent_path_and_name [97, 98] = ([], [97, 98])"
  by (simp add: exfat_parent_path_and_name_def str_trim_def trim_end_def is_whitespace_def SLASH_def rsplit_once_def)

lemma sample_names_root: "names_dir (\<lambda>c. [c]) sample_hadris sample_volume sample_info [] sample_root"
  using mem.resolve_dir_slots_reads [of sample_volume "\<lambda>c. [c]" sample_hadris sample_info "[]"]
  by (simp add: reads_def sample_resolve_root)

lemma sample_find:
  "exfat_find_entry_set (\<lambda>a n. on_volume (mem_get a n)) sample_root (of_decoded sample_entry) (b, sample_volume) =
    Some (Inr (Some 0), b, sample_volume)"
proof -
  let ?m = "[0 \<mapsto> bytes_at sample_volume 1024 512]"
  have units: "encode_utf16 [97, 98] = [97, 98]" by (simp add: encode_utf16_def encode_char_def)
  have slot: "units16 (drop 2 (bytes_at sample_volume 1088 32)) = [97, 98] @ replicate 13 0"
    by (simp add: sample_slots replicate_num)
  have name: "match_name (read_slot (\<lambda>a n. on_volume (mem_get a n)) sample_root) 2 2 [97, 98] 0 (?m, b, sample_volume) =
      Some (Inr True, ?m, b, sample_volume)"
    by (subst match_name.simps, subst match_name.simps)
      (simp add: io_bind_def sample_slot slot sample_first EXFAT_ENTRY_FILE_NAME_def Let_def)
  have fields: "identity_fields (of_decoded sample_entry) (bytes_at sample_volume 1024 32) (bytes_at sample_volume 1056 32)"
    using arg_cong [OF sample_decoded, of xe_attributes] arg_cong [OF sample_decoded, of xe_data_length]
      arg_cong [OF sample_decoded, of xe_first_cluster] arg_cong [OF sample_decoded, of xe_valid_data_length] units
    by (simp add: identity_fields_def of_decoded_def make_entry_def sample_first entry_is_dir_def)
  have "find_from (read_slot (\<lambda>a n. on_volume (mem_get a n)) sample_root) (of_decoded sample_entry) 16 0
      (\<lambda>_. None, b, sample_volume) = Some (Inr (Some 0), ?m, b, sample_volume)"
    using name fields units
    by (subst find_from.simps) (simp add: io_bind_def sample_slot sample_first numeral_2_eq_2 [symmetric]
        END_OF_DIRECTORY_def EXFAT_ENTRY_FILE_DIRECTORY_def EXFAT_ENTRY_STREAM_EXT_def of_decoded_def)
  then show ?thesis by (simp add: exfat_find_entry_set_def with_reader_def slot_count_def sample_root_def)
qed

lemma sample_free_old: "\<exists>w'. exfat_free_entry_clusters sample_fs sample_entry (bw, f) = Some (Inr (), w')"
proof -
  have size: "size_in_clusters 5 512 = 1" by (simp add: size_in_clusters_def)
  have "\<exists>b'. xf_free_clusters sample_fs 3 1 True (bw, f) = Some (Inr (), b', f)"
    by (simp add: sample_fs_def bitmap_free_def Let_def)
  then obtain b' where freed: "xf_free_clusters sample_fs 3 1 True (bw, f) = Some (Inr (), b', f)" by blast
  have "\<exists>f'. exfat_clear_fat_contiguous_range sample_fs 3 1 (b', f) = Some (Inr (), b', f')"
    by (simp add: exfat_clear_fat_contiguous_range_def exfat_write_fat_entries_def sample_fs_simps sample_info_def
        io_bind_def)
  then obtain f' where "exfat_clear_fat_contiguous_range sample_fs 3 1 (b', f) = Some (Inr (), b', f')" by blast
  with size freed show ?thesis
    by (simp add: exfat_free_entry_clusters_def sample_fs_simps io_bind_def Let_def max_def)
qed

lemma sample_locate:
  "exfat_locate_entry_set (xf_upper sample_fs) sample_hadris (\<lambda>a n. on_volume (mem_get a n)) sample_info [97, 98]
     (of_decoded sample_entry) (b, sample_volume) = Some (Inr (sample_root, 0), b, sample_volume)"
  by (simp add: exfat_locate_entry_set_def sample_parent io_bind_def sample_resolve_root sample_find)

lemma sample_replace:
  "\<exists>w'. exfat_create_file_in sample_fs sample_root [97, 98] [97, 98] (Some sample_entry) 2 list_source never_stop
      ([1, 2], [3, 2], sample_volume) = Some (Inr (), [], w')"
proof -
  have offsets: "slot_offsets sample_root 0 3 = Inr [1024, 1056, 1088]"
    using slot_offsets_in [of 0 3 sample_root]
    by (simp add: slot_count_def sample_root_def slot_at_def SLOT_BYTES_def upt_rec)
  have target: "on_volume (file_target sample_fs sample_root [97, 98] 3 (Some sample_entry))
      ([1, 2] :: octets, [3, 2], sample_volume) = Some (Inr (sample_root, 0), [1, 2], [3, 2], sample_volume)"
    by (simp add: on_volume_def file_target_def sample_fs_simps io_bind_def sample_locate
        sample_entry_def [THEN arg_cong, of xe_primary])
  obtain slabs f where data: "file_data sample_fs list_source never_stop [97, 98] 2 [4] True
      ([1, 2], [4, 3, 2], overlay sample_volume 528 (replicate 4 0)) = Some (Inr slabs, [], [4, 3, 2], f)"
    using sample_data by blast
  obtain f' where pub: "publish sample_fs [1024, 1056, 1088] [4] (Inr slabs) ([4, 3, 2], f) = Some (Inr (), [4, 3, 2], f')"
    using sample_publish by blast
  obtain w' where freed: "free_replaced sample_fs (Some sample_entry) ([4, 3, 2], f') = Some (Inr (), w')"
    using sample_free_old [of "[4, 3, 2]" f'] by (auto simp: free_replaced_def sample_fs_simps)
  have "create_at sample_fs [97, 98] (Some sample_entry) 2 list_source never_stop 1 [1024, 1056, 1088]
      ([1, 2], [3, 2], sample_volume) = Some (Inr (), [], w')"
    using data pub freed
    by (simp add: create_at_def sample_allocate [OF sample_fat_free, simplified] on_volume_def io_bind_def)
  then show ?thesis
    using offsets target by (simp add: exfat_create_file_in_def sample_name sample_fs_simps io_bind_def)
qed



end
