(* ===== verification/Exfat_Delete.thy ===== *)
theory Exfat_Delete
  imports Exfat_File
begin

text \<open>
  \<open>exfat_delete_entry_resolved\<close> of \<open>crates/multi64-sc64-sd/src/partition.rs\<close>: the entry set goes
  first, and only then are the clusters it named given back.
\<close>

lemma free_item_ok: "length s = SLOT_BYTES \<Longrightarrow> \<not> in_use s \<Longrightarrow> slot_type s \<noteq> END_OF_DIRECTORY \<Longrightarrow> item_ok (FreeSlot s)"
  by simp

text \<open>The entry set of \<open>entry\<close> is gone and the rest of the folder as it was, and no cluster was taken; or
  nothing changed and every cluster is still taken, unless a sector could not be put back.\<close>

definition delete_outcome ::
  "('w \<Rightarrow> nat \<Rightarrow> u8) \<Rightarrow> ('w \<Rightarrow> u32 set) \<Rightarrow> nat set \<Rightarrow> 'w exfat_fs \<Rightarrow> dir_slots \<Rightarrow> dir_item list \<Rightarrow> octets list \<Rightarrow>
     decoded_entry \<Rightarrow> bool \<Rightarrow> 'w \<Rightarrow> 'w \<Rightarrow> bool" where
  "delete_outcome content taken meta X dir items tail entry gone w w' \<longleftrightarrow>
     (if gone then
        taken w' \<subseteq> taken w \<and> same_outside (meta \<union> dir_bytes dir) (content w) (content w') \<and>
        (\<exists>xs es ys. items = xs @ EntrySet es # ys \<and> set_entry es = entry \<and>
           layout (xs @ map FreeSlot (deleted_set es) @ ys) tail (dir_stream (content w') dir) \<and>
           entries_of (dir_stream (content w') dir) = listing xs @ listing ys)
      else
        taken w' = taken w \<and>
        (content w' = content w \<or>
         (\<exists>offsets slabs w1. not_put_back X offsets slabs w1) \<and>
         same_outside (dir_bytes dir) (content w) (content w')))"

context mounted_volume
begin

lemma slabs_at_result:
  assumes "ok w" "slab_ok offsets slabs"
  shows "does (exfat_write_entry_slabs_at (xf_part_bytes X) (xf_get X) (xf_put X) (xf_flush X) offsets slabs) w (\<lambda>r w'.
    ok w' \<and> taken w' = taken w \<and>
    (case r of
       Inr u \<Rightarrow> content w' = lay_slabs offsets slabs (content w)
     | Inl e \<Rightarrow> content w' = content w \<or>
         not_put_back X offsets slabs w \<and> same_outside (sectors_of offsets) (content w) (content w')))"
proof -
  have w: "ok w \<and> taken w = taken w" using assms(1) by simp
  obtain r w1 where wrote: "exfat_write_entry_slabs_restoring (xf_part_bytes X) (xf_get X) (xf_put X) (xf_flush X)
        offsets slabs w = Some (r, w1)" and w1: "ok w1" "taken w1 = taken w"
    and good: "\<forall>u. r = Inr u \<longrightarrow> content w1 = lay_slabs offsets slabs (content w)"
    and bad: "\<forall>e. r = Inl e \<longrightarrow> ewf_restored e \<longrightarrow> content w1 = content w"
    using vol.write_slabs_result [OF w assms(2), of "xf_part_bytes X"] by blast
  show ?thesis
  proof (cases r)
    case (Inr u)
    with wrote w1 good show ?thesis by (simp add: does_def exfat_write_entry_slabs_at_def)
  next
    case (Inl failed)
    have apart: "same_outside (sectors_of offsets) (content w) (content w1)"
      using vol.write_slabs_apart [OF w assms(2) wrote] .
    have "content w1 = content w \<or> not_put_back X offsets slabs w"
      using bad Inl wrote by (auto simp: not_put_back_def)
    with Inl wrote w1 apart show ?thesis by (simp add: does_def exfat_write_entry_slabs_at_def)
  qed
qed

text \<open>Slots of one folder: written, or as before, or one of them could not be put back.\<close>

lemma dir_slabs_result:
  assumes "ok w" "dir_in X T dir" "first + length slabs \<le> slot_count dir" "\<forall>s \<in> set slabs. length s = SLOT_BYTES"
  shows "does (exfat_write_entry_slabs_at (xf_part_bytes X) (xf_get X) (xf_put X) (xf_flush X)
      (map (slot_at dir) [first ..< first + length slabs]) slabs) w (\<lambda>r w'. ok w' \<and> taken w' = taken w \<and>
    same_outside (dir_bytes dir) (content w) (content w') \<and>
    (case r of
       Inr u \<Rightarrow> dir_stream (content w') dir = splice first slabs (dir_stream (content w) dir)
     | Inl e \<Rightarrow> content w' = content w \<or> (\<exists>offsets slabs w1. not_put_back X offsets slabs w1)))"
proof -
  let ?os = "map (slot_at dir) [first ..< first + length slabs]"
  note apart = dir_in_apart [OF assms(2)]
  have ok': "slab_ok ?os slabs" using slab_ok_slots [OF apart(1) assms(3,4)] .
  have sectors: "sectors_of ?os \<subseteq> dir_bytes dir" using sectors_in_dir [OF assms(2,3)] .
  have laid: "same_outside (dir_bytes dir) (content w) (lay_slabs ?os slabs (content w))"
    using lay_slabs_outside [OF ok'] sectors by (rule same_outside_mono)
  from slabs_at_result [OF assms(1) ok'] show ?thesis
    by (rule does_mono)
      (use laid sectors lay_slabs_stream [OF apart(1) assms(3,4), of "content w"] in
        \<open>auto split: sum.splits intro: same_outside_mono\<close>)
qed

lemma read_set_at:
  assumes "ok w" "layout (xs @ EntrySet es # ys) tail (dir_stream (content w) dir)"
  shows "does (exfat_read_entry_set (xf_read X) dir (length (slots_of xs))) w
    (\<lambda>r w'. kept ok content taken {} w w' \<and> content w' = content w \<and> (\<forall>v. r = Inr v \<longrightarrow> v = Some es))"
proof -
  let ?i = "length (slots_of xs)" and ?ss = "dir_stream (content w) dir"
  have w: "ok w \<and> taken w = taken w" using assms(1) by simp
  have es: "set_ok es" using assms(2) by (simp add: layout_def)
  have ss: "?ss = slots_of xs @ es @ slots_of ys @ tail" using assms(2) by (simp add: layout_def)
  have len: "?i + length es \<le> slot_count dir" using layout_slots [OF assms(2)] by simp
  note primary = set_primary [OF es]
  have size: "2 \<le> length es - 1" "length es - 1 \<le> 18"
    using set_okD(2) [OF es] by (auto simp: set_size_def Let_def split: if_splits)
  have ne: "es \<noteq> []" using size by auto
  then have i: "?i < slot_count dir" using len by (cases es) auto
  have "?ss ! ?i = es ! 0" using ne by (simp add: ss nth_append)
  then have sec: "unat (?ss ! ?i ! 1) = length es - 1" using primary(2) by simp
  have taken': "take (length es) (drop ?i ?ss) = es" by (simp add: ss)
  have "reads (\<lambda>w'. ok w' \<and> taken w' = taken w) content w (exfat_read_entry_set (xf_read X) dir ?i) (\<lambda>v. v = Some es)"
    by (rule reads_mono [OF vol.read_entry_set_reads [OF w i]])
      (use size len ne in \<open>simp add: Let_def sec taken' del: One_nat_def nth_dir_stream\<close>)
  from reads_kept [OF this] show ?thesis .
qed

lemma finalize_result:
  assumes "ok w" "dir_in X T dir" "layout (xs @ EntrySet es # ys) tail (dir_stream (content w) dir)"
  shows "does (exfat_finalize_deleted_entry_set (xf_part_bytes X) (xf_read X) (xf_get X) (xf_put X) (xf_flush X) dir
      (length (slots_of xs))) w (\<lambda>r w'. ok w' \<and> taken w' = taken w \<and>
    same_outside (dir_bytes dir) (content w) (content w') \<and>
    (case r of
       Inr u \<Rightarrow> layout (xs @ map FreeSlot (deleted_set es) @ ys) tail (dir_stream (content w') dir)
     | Inl e \<Rightarrow> content w' = content w \<or> (\<exists>offsets slabs w1. not_put_back X offsets slabs w1)))"
    (is "does _ _ ?Q")
  unfolding exfat_finalize_deleted_entry_set_def
proof (rule does_bind [OF read_set_at [OF assms(1,3)]])
  fix got w1 assume "kept ok content taken {} w w1 \<and> content w1 = content w \<and> (\<forall>v. Inr got = Inr v \<longrightarrow> v = Some es)"
  then have got: "got = Some es" and w1: "ok w1" "taken w1 = taken w" "content w1 = content w" by (auto simp: kept_def)
  have es: "set_ok es" using assms(3) by (simp add: layout_def)
  have "2 \<le> length es" using set_okD(3) [OF es] by simp
  moreover have "\<forall>s \<in> set es. length s = SLOT_BYTES \<and> slot_type s AND 0x7F \<noteq> 0" using es by (simp add: set_ok_def)
  ultimately have del: "length (deleted_set es) = length es"
    "\<forall>s \<in> set (deleted_set es). length s = SLOT_BYTES \<and> \<not> in_use s \<and> slot_type s \<noteq> END_OF_DIRECTORY"
    using deleted_set_free(1,2) [of es] by auto
  have len: "length (slots_of xs) + length es \<le> slot_count dir" using layout_slots [OF assms(3)] by simp
  have lay: "layout (xs @ map FreeSlot (deleted_set es) @ ys) tail
      (splice (length (slots_of xs)) (deleted_set es) (dir_stream (content w) dir))"
    using layout_replace [of xs "[EntrySet es]" ys tail _ "map FreeSlot (deleted_set es)"] assms(3) del by auto
  have "does (exfat_write_entry_slabs_at (xf_part_bytes X) (xf_get X) (xf_put X) (xf_flush X)
      (map (slot_at dir) [length (slots_of xs) ..< length (slots_of xs) + length (deleted_set es)]) (deleted_set es)) w1 ?Q"
    by (rule does_mono [OF dir_slabs_result [OF w1(1) assms(2)]])
      (use del len lay w1 in \<open>auto split: sum.splits\<close>)
  then show "does (case got of
         None \<Rightarrow> io_return ()
       | Some entries \<Rightarrow>
           io_bind (io_of (slot_offsets dir (length (slots_of xs)) (length entries))) (\<lambda>offsets.
             exfat_write_entry_slabs_at (xf_part_bytes X) (xf_get X) (xf_put X) (xf_flush X) offsets (deleted_set entries)))
      w1 ?Q"
    by (simp add: got slot_offsets_in [OF len] del(1))
qed (auto simp: kept_def)

text \<open>How a delete can end.\<close>

lemma delete_result:
  assumes "ok w" "names_dir (xf_upper X) (xf_hadris X) (content w) (xf_info X) (fst (exfat_parent_path_and_name path)) dir"
    and "dir_in X T dir" "layout items tail (dir_stream (content w) dir)"
    and "\<forall>es. EntrySet es \<in> set items \<longrightarrow> set_matches (of_decoded entry) es (length es - 1) \<longrightarrow> set_entry es = entry"
  shows "does (exfat_delete_entry_resolved X path entry) w (\<lambda>r w'. ok w' \<and>
    (\<exists>gone. delete_outcome content taken meta X dir items tail entry gone w w' \<and>
      ((\<exists>u. r = Inr u) \<longrightarrow> gone \<and> (entry_is_dir entry \<and> 2 \<le> xe_first_cluster entry \<longrightarrow>
        (\<exists>children. dir_of (xf_hadris X) (content w) (xf_info X) (xe_first_cluster entry) (xe_no_fat_chain entry)
           (xe_data_length entry) children \<and> entries_of (dir_stream (content w) children) = [])))))"
    (is "does _ _ ?Q")
proof -
  let ?empty = "\<exists>children. dir_of (xf_hadris X) (content w) (xf_info X) (xe_first_cluster entry) (xe_no_fat_chain entry)
           (xe_data_length entry) children \<and> entries_of (dir_stream (content w) children) = []"
  let ?is_dir = "entry_is_dir entry \<and> 2 \<le> xe_first_cluster entry"
  let ?check = "if ?is_dir then
          io_bind (load_with (xf_hadris X) (xf_read X) (xf_info X) (xe_first_cluster entry)
            (xe_no_fat_chain entry) (xe_data_length entry)) (\<lambda>children.
          io_bind (exfat_list_entries (xf_read X) children) (\<lambda>es.
            if es \<noteq> [] then io_fail OtherKind else io_return ()))
        else io_return ()"
  have w: "ok w \<and> taken w = taken w" using assms(1) by simp
  have kept_gone: "delete_outcome content taken meta X dir items tail entry False w w'"
    if "kept ok content taken {} w w'" "content w' = content w" for w'
    using that by (simp add: delete_outcome_def kept_def)
  have "reads (\<lambda>w'. ok w' \<and> taken w' = taken w) content w ?check (\<lambda>_. ?is_dir \<longrightarrow> ?empty)"
  proof (rule reads_if)
    show "reads (\<lambda>w'. ok w' \<and> taken w' = taken w) content w (io_bind (load_with (xf_hadris X) (xf_read X) (xf_info X)
          (xe_first_cluster entry) (xe_no_fat_chain entry) (xe_data_length entry)) (\<lambda>children.
          io_bind (exfat_list_entries (xf_read X) children) (\<lambda>es.
            if es \<noteq> [] then io_fail OtherKind else io_return ()))) (\<lambda>_. ?is_dir \<longrightarrow> ?empty)"
    proof (rule reads_bind [OF vol.load_dir_reads [OF w]], rule reads_bind [OF vol.list_entries_reads], assumption)
      fix children es w1 w2
      assume "ok w2 \<and> taken w2 = taken w" "content w1 = content w"
        "dir_of (xf_hadris X) (content w) (xf_info X) (xe_first_cluster entry) (xe_no_fat_chain entry)
           (xe_data_length entry) children" "es = entries_of (dir_stream (content w1) children)"
      then show "reads (\<lambda>w'. ok w' \<and> taken w' = taken w) content w2
          (if es \<noteq> [] then io_fail OtherKind else io_return ()) (\<lambda>_. ?is_dir \<longrightarrow> ?empty)"
        by (intro reads_if reads_fail reads_return) auto
    qed
  qed (use w in \<open>auto intro: reads_return\<close>)
  from reads_kept [OF this] show ?thesis
    unfolding exfat_delete_entry_resolved_def
  proof (rule does_bind)
    fix u w1 assume "kept ok content taken {} w w1 \<and> content w1 = content w \<and>
      (\<forall>v. Inr u = Inr v \<longrightarrow> ?is_dir \<longrightarrow> ?empty)"
    then have w1: "ok w1" "content w1 = content w" "taken w1 = taken w" and empty: "?is_dir \<longrightarrow> ?empty"
      by (auto simp: kept_def)
    have names1: "names_dir (xf_upper X) (xf_hadris X) (content w1) (xf_info X) (fst (exfat_parent_path_and_name path)) dir"
      and layout1: "layout items tail (dir_stream (content w1) dir)" using assms(2,4) w1(2) by simp_all
    let ?then = "\<lambda>(dir, primary_slot).
     io_bind (exfat_finalize_deleted_entry_set (xf_part_bytes X) (xf_read X) (xf_get X) (xf_put X) (xf_flush X)
         dir primary_slot) (\<lambda>_ w.
       case exfat_free_entry_clusters X entry w of
         None \<Rightarrow> None
       | Some (freed, w1) \<Rightarrow>
           (case xf_sync_bitmap X w1 of
              None \<Rightarrow> None
            | Some (synced, w2) \<Rightarrow>
                Some (case freed of Inl e \<Rightarrow> Inl e | Inr _ \<Rightarrow> synced, w2)))"
    show "does (io_bind (exfat_locate_entry_set (xf_upper X) (xf_hadris X) (xf_read X) (xf_info X) path
        (of_decoded entry)) ?then) w1 ?Q"
    proof (rule does_bind [OF locate_entry [OF w1(1) names1 layout1 assms(5)]])
      fix v w2 assume v: "kept ok content taken {} w1 w2 \<and> content w2 = content w1 \<and>
        (\<forall>v'. Inr v = Inr v' \<longrightarrow> (\<exists>xs es ys. items = xs @ EntrySet es # ys \<and> set_entry es = entry \<and>
          v' = (dir, length (slots_of xs))))"
      then obtain xs es ys where at_slot: "items = xs @ EntrySet es # ys" "set_entry es = entry" "v = (dir, length (slots_of xs))"
        by blast
      have w2: "ok w2" "content w2 = content w" "taken w2 = taken w" using v w1 by (auto simp: kept_def)
      have layout2: "layout (xs @ EntrySet es # ys) tail (dir_stream (content w2) dir)"
        using assms(4) at_slot(1) w2(2) by simp
      show "does (?then v) w2 ?Q"
        unfolding at_slot(3) prod.case
      proof (rule does_bind [OF finalize_result [OF w2(1) assms(3) layout2]])
        fix e :: io_kind and w3 assume "ok w3 \<and> taken w3 = taken w2 \<and> same_outside (dir_bytes dir) (content w2) (content w3) \<and>
          (case Inl e of
             Inr u \<Rightarrow> layout (xs @ map FreeSlot (deleted_set es) @ ys) tail (dir_stream (content w3) dir)
           | Inl e \<Rightarrow> content w3 = content w2 \<or> (\<exists>offsets slabs w1. not_put_back X offsets slabs w1))"
        then show "?Q (Inl e) w3" using w2 by (auto simp: delete_outcome_def intro!: exI [of _ False])
      next
        fix u w3 assume "ok w3 \<and> taken w3 = taken w2 \<and> same_outside (dir_bytes dir) (content w2) (content w3) \<and>
          (case Inr u of
             Inr u \<Rightarrow> layout (xs @ map FreeSlot (deleted_set es) @ ys) tail (dir_stream (content w3) dir)
           | Inl e \<Rightarrow> content w3 = content w2 \<or> (\<exists>offsets slabs w1. not_put_back X offsets slabs w1))"
        then have w3: "ok w3" "taken w3 = taken w" "same_outside (dir_bytes dir) (content w) (content w3)"
          "layout (xs @ map FreeSlot (deleted_set es) @ ys) tail (dir_stream (content w3) dir)" using w2 by auto
        obtain freed w4 where freed: "exfat_free_entry_clusters X entry w3 = Some (freed, w4)" "undone w3 w4"
          using free_entry_undone [OF w3(1), of entry] by (auto simp: does_def)
        obtain synced w5 where synced: "xf_sync_bitmap X w4 = Some (synced, w5)" "undone w4 w5"
          using syncs_undone [OF undone_ok [OF freed(2)]] by (auto simp: does_def)
        have w5: "ok w5" "taken w5 \<subseteq> taken w" "same_outside meta (content w3) (content w5)"
          using undone_trans [OF freed(2) synced(2)] w3(2) by (auto simp: undone_def)
        have "dir_stream (content w5) dir = dir_stream (content w3) dir"
          using dir_stream_same [OF w5(3)] dir_in_apart(2) [OF assms(3)] by blast
        with w3(4) have lay: "layout (xs @ map FreeSlot (deleted_set es) @ ys) tail (dir_stream (content w5) dir)" by simp
        then have "entries_of (dir_stream (content w5) dir) = listing xs @ listing ys"
          by (simp add: entries_of_layout)
        moreover have "same_outside (meta \<union> dir_bytes dir) (content w) (content w5)"
          using w3(3) w5(3) by (rule same_outside_trans) auto
        ultimately have "delete_outcome content taken meta X dir items tail entry True w w5"
          using at_slot lay w5 by (auto simp: delete_outcome_def)
        with w5(1) empty show "does (\<lambda>w. case exfat_free_entry_clusters X entry w of
             None \<Rightarrow> None
           | Some (freed, w1) \<Rightarrow>
               (case xf_sync_bitmap X w1 of
                  None \<Rightarrow> None
                | Some (synced, w2) \<Rightarrow> Some (case freed of Inl e \<Rightarrow> Inl e | Inr _ \<Rightarrow> synced, w2))) w3 ?Q"
          by (auto simp: does_def freed(1) synced(1) intro!: exI [of _ True])
      qed
    qed (use w1 in \<open>auto simp: kept_def delete_outcome_def intro!: exI [of _ False]\<close>)
  qed (use kept_gone in \<open>auto simp: kept_def intro!: exI [of _ False]\<close>)
qed

end

subsection \<open>Deleting removes one entry, and its clusters last\<close>

abbreviation sample_set :: "octets list" where
  "sample_set \<equiv> [bytes_at sample_volume 1024 32, bytes_at sample_volume 1056 32, bytes_at sample_volume 1088 32]"

lemma sample_read_set:
  "exfat_read_entry_set (\<lambda>a n. on_volume (mem_get a n)) sample_root 0 (b, sample_volume) =
     Some (Inr (Some sample_set), b, sample_volume)" for b :: "u32 list"
proof -
  let ?read = "\<lambda>a n. on_volume (mem_get a n)" and ?m = "[0 \<mapsto> bytes_at sample_volume 1024 512]"
  have "slots_from (read_slot ?read sample_root) 0 3 (?m, b, sample_volume) = Some (Inr sample_set, ?m, b, sample_volume)"
    by (simp only: numeral_3_eq_3 slots_from.simps) (simp add: io_bind_def sample_slot numeral_2_eq_2 [symmetric])
  then show ?thesis by (simp add: exfat_read_entry_set_def with_reader_def io_bind_def sample_slot sample_first)
qed

lemma sample_offsets: "slot_offsets sample_root 0 3 = Inr [1024, 1056, 1088]"
  using slot_offsets_in [of 0 3 sample_root]
  by (simp add: slot_count_def sample_root_def slot_at_def SLOT_BYTES_def upt_rec)

lemma sample_delete: "\<exists>w'. exfat_delete_entry_resolved sample_fs [97, 98] sample_entry ([3, 2], sample_volume) = Some (Inr (), w')"
proof -
  have three: "length sample_set = 3"
    by simp
  obtain f where wrote: "exfat_write_entry_slabs_restoring (xf_part_bytes sample_fs) (xf_get sample_fs) (xf_put sample_fs)
      (xf_flush sample_fs) [1024, 1056, 1088] (deleted_set sample_set) ([3, 2], sample_volume) = Some (Inr (), [3, 2], f)"
    using sample_write_set by blast
  then have gone: "exfat_finalize_deleted_entry_set (xf_part_bytes sample_fs) (xf_read sample_fs) (xf_get sample_fs)
      (xf_put sample_fs) (xf_flush sample_fs) sample_root 0 ([3, 2], sample_volume) = Some (Inr (), [3, 2], f)"
    unfolding exfat_finalize_deleted_entry_set_def io_bind_def sample_fs_simps(6) sample_read_set
    by (simp only: option.case sum.case prod.case three sample_offsets) (simp add: exfat_write_entry_slabs_at_def)
  obtain w' where "exfat_free_entry_clusters sample_fs sample_entry ([3, 2], f) = Some (Inr (), w')"
    using sample_free_old by blast
  with gone show ?thesis
    by (simp add: exfat_delete_entry_resolved_def io_bind_def sample_locate sample_fs_simps(10) sample_fs_simps(3,6,11))
qed



end
