(* ===== verification/Exfat_Rename.thy ===== *)
theory Exfat_Rename
  imports Exfat_Delete "HOL-Library.Multiset"
begin

text \<open>
  \<open>rename_cart_exfat\<close> of \<open>crates/multi64-sc64-sd/src/partition.rs\<close>: the new entry set goes over the
  old one's slots, or, when it is longer, into free slots before the old one is marked deleted.
\<close>

subsection \<open>Entry sets and marked slots in a folder\<close>

abbreviation marked :: "octets list \<Rightarrow> octets list" where
  "marked es \<equiv> map (\<lambda>e. e[0 := e ! 0 AND NOT EXFAT_ENTRY_IN_USE]) es"

lemma marked_free:
  assumes "length s = SLOT_BYTES" "slot_type s AND 0x7F \<noteq> 0"
  shows "item_ok (FreeSlot (s[0 := s ! 0 AND NOT EXFAT_ENTRY_IN_USE]))"
proof -
  have ne: "0 < length s" using assms(1) by (simp add: SLOT_BYTES_def)
  have "NOT EXFAT_ENTRY_IN_USE = 0x7F" by (simp add: EXFAT_ENTRY_IN_USE_def word_uint_eq_iff)
  then have "s ! 0 AND NOT EXFAT_ENTRY_IN_USE = s ! 0 AND 0x7F" by simp
  with ne show ?thesis
    using assms by (simp add: in_use_def EXFAT_ENTRY_IN_USE_def END_OF_DIRECTORY_def and.assoc)
qed

lemma marked_set_free: "set_ok es \<Longrightarrow> \<forall>i \<in> set (map FreeSlot (marked es)). item_ok i"
  using marked_free by (auto simp: set_ok_def)

text \<open>The old set stands before the free slots that were taken, or after them.\<close>

lemma split_around:
  assumes "xs @ EntrySet es # ys = as @ map FreeSlot fs @ bs"
  shows "(\<exists>us. as = xs @ EntrySet es # us \<and> ys = us @ map FreeSlot fs @ bs) \<or>
    (\<exists>us. bs = us @ EntrySet es # ys \<and> xs = as @ map FreeSlot fs @ us)"
proof -
  from assms consider (before) us where "as = xs @ us" "us @ map FreeSlot fs @ bs = EntrySet es # ys"
    | (after) us where "xs = as @ us" "us @ EntrySet es # ys = map FreeSlot fs @ bs"
    by (auto simp: append_eq_append_conv2)
  then show ?thesis
  proof cases
    case before
    show ?thesis
    proof (cases us)
      case Nil
      with before have "fs = []" by (cases fs) auto
      with before Nil show ?thesis by auto
    next
      case (Cons u us')
      with before show ?thesis by auto
    qed
  next
    case after
    then consider us' where "us = map FreeSlot fs @ us'" "us' @ EntrySet es # ys = bs"
      | us' where "us @ us' = map FreeSlot fs" "us' @ bs = EntrySet es # ys"
      by (auto simp: append_eq_append_conv2)
    then show ?thesis
    proof cases
      case 1
      with after show ?thesis by auto
    next
      case 2
      then have "set us' \<subseteq> FreeSlot ` set fs" by (metis list.set_map set_append sup.cobounded2)
      with 2 have "us' = []" by (cases us') auto
      with 2 after show ?thesis by auto
    qed
  qed
qed

text \<open>Two entry sets after one was added: the old one may be marked.\<close>

lemma marked_old:
  assumes "layout (xs @ EntrySet es # ys) tail ss" "layout (as @ EntrySet new # bs) tail' ss'"
    and "xs @ EntrySet es # ys = as @ map FreeSlot fs @ bs" "bs \<noteq> [] \<longrightarrow> length fs = length new"
  shows "\<exists>items. layout items tail' (splice (length (slots_of xs)) (marked es) ss') \<and>
    add_mset (set_entry es) (mset (listing items)) = add_mset (set_entry new) (mset (listing (xs @ EntrySet es # ys)))"
proof -
  have free: "\<forall>i \<in> set (map FreeSlot (marked es)). item_ok i" "length (slots_of (map FreeSlot (marked es))) = length (slots_of [EntrySet es])"
    using assms(1) marked_set_free by (auto simp: layout_def simp del: map_map)
  from split_around [OF assms(3)] show ?thesis
  proof (elim disjE exE conjE)
    fix us assume us: "as = xs @ EntrySet es # us" "ys = us @ map FreeSlot fs @ bs"
    from assms(2) us have "layout (xs @ [EntrySet es] @ us @ EntrySet new # bs) tail' ss'" by simp
    from layout_replace [OF this free] us show ?thesis
      by (intro exI [of _ "xs @ map FreeSlot (marked es) @ us @ EntrySet new # bs"] conjI) (simp_all del: map_map)
  next
    fix us assume us: "bs = us @ EntrySet es # ys" "xs = as @ map FreeSlot fs @ us"
    from assms(2) us have "layout ((as @ EntrySet new # us) @ [EntrySet es] @ ys) tail' ss'" by simp
    from layout_replace [OF this free] have "layout ((as @ EntrySet new # us) @ map FreeSlot (marked es) @ ys) tail'
        (splice (length (slots_of (as @ EntrySet new # us))) (marked es) ss')" by (simp del: map_map)
    moreover have "length (slots_of (as @ EntrySet new # us)) = length (slots_of xs)" using us assms(4) by simp
    ultimately show ?thesis using us
      by (intro exI [of _ "(as @ EntrySet new # us) @ map FreeSlot (marked es) @ ys"] conjI) (simp_all del: map_map)
  qed
qed

subsection \<open>Writing the renamed set\<close>

definition rename_outcome ::
  "('w \<Rightarrow> nat \<Rightarrow> u8) \<Rightarrow> ('w \<Rightarrow> u32 set) \<Rightarrow> 'w exfat_fs \<Rightarrow> dir_slots \<Rightarrow> dir_item list \<Rightarrow> decoded_entry \<Rightarrow> decoded_entry \<Rightarrow>
     bool \<Rightarrow> 'w \<Rightarrow> 'w \<Rightarrow> bool" where
  "rename_outcome content taken X dir items old new done' w w' \<longleftrightarrow>
     taken w' = taken w \<and> same_outside (dir_bytes dir) (content w) (content w') \<and>
     (if done' then
        (\<exists>items' tail'. layout items' tail' (dir_stream (content w') dir)) \<and>
        add_mset old (mset (entries_of (dir_stream (content w') dir))) = add_mset new (mset (listing items))
      else
        dir_stream (content w') dir = dir_stream (content w) dir \<or>
        (\<exists>first slabs. set_entry slabs = new \<and>
           dir_stream (content w') dir = splice first slabs (dir_stream (content w) dir)) \<or>
        (\<exists>offsets slabs w1. not_put_back X offsets slabs w1))"

lemma rename_outcome_from:
  assumes "content w1 = content w" "taken w1 = taken w"
  shows "rename_outcome content taken X dir items old new b w1 w' = rename_outcome content taken X dir items old new b w w'"
  using assms by (simp add: rename_outcome_def)

context mounted_volume
begin

lemma read_each_reads:
  assumes "ok w"
  shows "does (read_each (xf_get X) os) w (\<lambda>r w'. kept ok content taken {} w w' \<and> content w' = content w \<and>
    (\<forall>v. r = Inr v \<longrightarrow> v = map (\<lambda>o'. bytes_at (content w) o' SLOT_BYTES) os))"
  using assms
proof (induction os arbitrary: w)
  case (Cons o' os)
  have w: "ok w \<and> taken w = taken w" using Cons.prems by simp
  have "does (io_bind (xf_get X o' SLOT_BYTES) (\<lambda>s. io_bind (read_each (xf_get X) os) (\<lambda>ss. io_return (s # ss)))) w
    (\<lambda>r w'. kept ok content taken {} w w' \<and> content w' = content w \<and>
      (\<forall>v. r = Inr v \<longrightarrow> v = map (\<lambda>o'. bytes_at (content w) o' SLOT_BYTES) (o' # os)))"
  proof (rule does_bind [OF reads_kept [OF vol.get_reads [OF w]]])
    fix s w1 assume w1: "kept ok content taken {} w w1 \<and> content w1 = content w \<and>
      (\<forall>v. Inr s = Inr v \<longrightarrow> v = bytes_at (content w) o' SLOT_BYTES)"
    show "does (io_bind (read_each (xf_get X) os) (\<lambda>ss. io_return (s # ss))) w1 (\<lambda>r w'. kept ok content taken {} w w' \<and>
      content w' = content w \<and> (\<forall>v. r = Inr v \<longrightarrow> v = map (\<lambda>o'. bytes_at (content w) o' SLOT_BYTES) (o' # os)))"
      by (rule does_bind [OF Cons.IH]) (use w1 in \<open>auto simp: kept_def\<close>)
  qed auto
  then show ?case by simp
qed (simp add: kept_def)

lemma put_set_result:
  assumes "ok w" "dir_in X T dir" "set_ok new" "first + length new \<le> slot_count dir"
  shows "does (exfat_write_entry_slabs_at (xf_part_bytes X) (xf_get X) (xf_put X) (xf_flush X)
      (map (slot_at dir) [first ..< first + length new]) new) w (\<lambda>r w'. ok w' \<and> taken w' = taken w \<and>
    same_outside (dir_bytes dir) (content w) (content w') \<and>
    (case r of
       Inr u \<Rightarrow> dir_stream (content w') dir = splice first new (dir_stream (content w) dir)
     | Inl e \<Rightarrow> content w' = content w \<or> (\<exists>offsets slabs w1. not_put_back X offsets slabs w1)))"
  using dir_slabs_result [OF assms(1,2,4)] assms(3) by (simp add: set_ok_def)

lemma mark_result:
  assumes "ok w" "dir_in X T dir" "\<forall>s \<in> set es. length s = SLOT_BYTES" "first + length es \<le> slot_count dir"
  shows "does (exfat_mark_slots_deleted (xf_part_bytes X) (xf_get X) (xf_put X) (xf_flush X)
      (map (slot_at dir) [first ..< first + length es]) es) w (\<lambda>r w'. ok w' \<and> taken w' = taken w \<and>
    same_outside (dir_bytes dir) (content w) (content w') \<and>
    (case r of
       Inr u \<Rightarrow> dir_stream (content w') dir = splice first (marked es) (dir_stream (content w) dir)
     | Inl e \<Rightarrow> content w' = content w \<or> (\<exists>offsets slabs w1. not_put_back X offsets slabs w1)))"
proof (cases "es = []")
  case True
  with assms(1) show ?thesis by (simp add: exfat_mark_slots_deleted_def)
next
  case False
  then have "map (slot_at dir) [first ..< first + length es] \<noteq> []" by simp
  moreover have "length (marked es) = length es" "\<forall>s \<in> set (marked es). length s = SLOT_BYTES"
    using assms(3) by auto
  ultimately show ?thesis
    using dir_slabs_result [OF assms(1,2), of first "marked es"] assms(4)
    unfolding exfat_mark_slots_deleted_def by (simp only: if_False)
qed

text \<open>The new set fits over the old one's slots.\<close>

lemma renamed_in_place:
  assumes "ok w" "dir_in X T dir" "layout (xs @ EntrySet es # ys) tail (dir_stream (content w) dir)"
    and "set_ok new" "length new \<le> length es" "r = length (slots_of xs)"
  shows "does (io_bind (exfat_write_entry_slabs_at (xf_part_bytes X) (xf_get X) (xf_put X) (xf_flush X)
        (map (slot_at dir) [r ..< r + length new]) new) (\<lambda>_.
      exfat_mark_slots_deleted (xf_part_bytes X) (xf_get X) (xf_put X) (xf_flush X)
        (map (slot_at dir) [r + length new ..< r + length es]) (drop (length new) es))) w
    (\<lambda>r w'. ok w' \<and> (\<exists>b. rename_outcome content taken X dir (xs @ EntrySet es # ys) (set_entry es) (set_entry new) b w w' \<and>
      ((\<exists>u. r = Inr u) \<longrightarrow> b)))"
    (is "does _ _ ?Q")
proof -
  let ?items = "xs @ EntrySet es # ys" and ?ss = "dir_stream (content w) dir"
  have es: "set_ok es" using assms(3) by (simp add: layout_def)
  have len: "r + length es \<le> slot_count dir" using layout_slots [OF assms(3)] assms(6) by simp
  then have fits: "r + length new \<le> slot_count dir" using assms(5) by simp
  show ?thesis
  proof (rule does_bind [OF put_set_result [OF assms(1,2,4) fits]])
    fix e :: io_kind and w1 assume "ok w1 \<and> taken w1 = taken w \<and> same_outside (dir_bytes dir) (content w) (content w1) \<and>
      (case Inl e of
         Inr u \<Rightarrow> dir_stream (content w1) dir = splice r new ?ss
       | Inl e \<Rightarrow> content w1 = content w \<or> (\<exists>offsets slabs w1. not_put_back X offsets slabs w1))"
    then show "?Q (Inl e) w1" by (auto simp: rename_outcome_def intro!: exI [of _ False])
  next
    fix u w1 assume "ok w1 \<and> taken w1 = taken w \<and> same_outside (dir_bytes dir) (content w) (content w1) \<and>
      (case Inr u of
         Inr u \<Rightarrow> dir_stream (content w1) dir = splice r new ?ss
       | Inl e \<Rightarrow> content w1 = content w \<or> (\<exists>offsets slabs w1. not_put_back X offsets slabs w1))"
    then have w1: "ok w1" "taken w1 = taken w" "same_outside (dir_bytes dir) (content w) (content w1)"
      "dir_stream (content w1) dir = splice r new ?ss" by auto
    let ?rest = "drop (length new) es"
    have rest: "\<forall>s \<in> set ?rest. length s = SLOT_BYTES" "r + length new + length ?rest = r + length es"
      using es assms(5) by (auto simp: set_ok_def dest: in_set_dropD)
    have "r + length new + length ?rest \<le> slot_count dir" using rest(2) len by simp
    from mark_result [OF w1(1) assms(2) rest(1) this]
    have mark: "does (exfat_mark_slots_deleted (xf_part_bytes X) (xf_get X) (xf_put X) (xf_flush X)
        (map (slot_at dir) [r + length new ..< r + length es]) ?rest) w1 (\<lambda>r' w'. ok w' \<and> taken w' = taken w1 \<and>
      same_outside (dir_bytes dir) (content w1) (content w') \<and>
      (case r' of
         Inr u \<Rightarrow> dir_stream (content w') dir = splice (r + length new) (marked ?rest) (dir_stream (content w1) dir)
       | Inl e \<Rightarrow> content w' = content w1 \<or> (\<exists>offsets slabs w1. not_put_back X offsets slabs w1)))"
      unfolding rest(2) .
    show "does (exfat_mark_slots_deleted (xf_part_bytes X) (xf_get X) (xf_put X) (xf_flush X)
        (map (slot_at dir) [r + length new ..< r + length es]) ?rest) w1 ?Q"
    proof (rule does_mono [OF mark])
      fix r' :: "io_kind + unit" and w2 assume w2: "ok w2 \<and> taken w2 = taken w1 \<and> same_outside (dir_bytes dir) (content w1) (content w2) \<and>
        (case r' of
           Inr u \<Rightarrow> dir_stream (content w2) dir = splice (r + length new) (marked ?rest) (dir_stream (content w1) dir)
         | Inl e \<Rightarrow> content w2 = content w1 \<or> (\<exists>offsets slabs w1. not_put_back X offsets slabs w1))"
      then have same: "same_outside (dir_bytes dir) (content w) (content w2)"
        using w1(3) by (auto intro: same_outside_trans)
      show "?Q r' w2"
      proof (cases r')
        case (Inl e)
        have "content w2 = content w1 \<or> (\<exists>offsets slabs w1. not_put_back X offsets slabs w1)" using w2 Inl by simp
        then have "rename_outcome content taken X dir ?items (set_entry es) (set_entry new) False w w2"
          using w2 w1(2) w1(4) same unfolding rename_outcome_def if_False by metis
        with w2 Inl show ?thesis by auto
      next
        case (Inr u)
        have ns: "\<forall>i \<in> set (EntrySet new # map FreeSlot (marked ?rest)). item_ok i"
          using assms(4) marked_free es by (auto simp: set_ok_def dest!: in_set_dropD)
        have "length (slots_of (EntrySet new # map FreeSlot (marked ?rest))) = length (slots_of [EntrySet es])"
          using assms(5) by (simp del: map_map)
        from layout_replace [of xs "[EntrySet es]" ys tail ?ss, OF _ ns this] assms(3)
        have lay: "layout (xs @ EntrySet new # map FreeSlot (marked ?rest) @ ys) tail (splice r (new @ marked ?rest) ?ss)"
          by (simp add: assms(6) del: map_map)
        have "splice (r + length new) (marked ?rest) (splice r new ?ss) = splice r (new @ marked ?rest) ?ss"
          using fits by (simp add: splice_def ac_simps)
        then have "dir_stream (content w2) dir = splice r (new @ marked ?rest) ?ss" using w2 Inr w1(4) by simp
        with lay have lay2: "layout (xs @ EntrySet new # map FreeSlot (marked ?rest) @ ys) tail (dir_stream (content w2) dir)"
          by simp
        from entries_of_layout [OF lay2] have "entries_of (dir_stream (content w2) dir) = listing xs @ set_entry new # listing ys"
          by (simp del: map_map)
        with lay2 have "rename_outcome content taken X dir ?items (set_entry es) (set_entry new) True w w2"
          using w2 w1(2) same by (auto simp: rename_outcome_def)
        with w2 show ?thesis by auto
      qed
    qed
  qed
qed


text \<open>The new set goes into free slots first.\<close>

lemma splice_back: "d + n \<le> length ss \<Longrightarrow> length new = n \<Longrightarrow> splice d (take n (drop d ss)) (splice d new ss) = ss"
  by (simp add: splice_def) (metis append_take_drop_id add.commute drop_drop)

definition moved ::
  "dir_slots \<Rightarrow> octets list \<Rightarrow> nat \<Rightarrow> octets list \<Rightarrow> nat \<Rightarrow> ('w, unit) io" where
  "moved dir es r new dest =
     io_bind (read_each (xf_get X) (map (slot_at dir) [dest ..< dest + length new])) (\<lambda>free_before.
     io_bind (exfat_write_entry_slabs_at (xf_part_bytes X) (xf_get X) (xf_put X) (xf_flush X)
        (map (slot_at dir) [dest ..< dest + length new]) new) (\<lambda>_ w.
       case exfat_mark_slots_deleted (xf_part_bytes X) (xf_get X) (xf_put X) (xf_flush X)
          (map (slot_at dir) [r ..< r + length es]) es w of
         None \<Rightarrow> None
       | Some (Inr u, w') \<Rightarrow> Some (Inr u, w')
       | Some (Inl e, w') \<Rightarrow>
           map_option (\<lambda>(_, w''). (Inl e, w''))
             (exfat_write_entry_slabs_at (xf_part_bytes X) (xf_get X) (xf_put X) (xf_flush X)
               (map (slot_at dir) [dest ..< dest + length new]) free_before w')))"

lemma renamed_elsewhere:
  assumes "ok w" "dir_in X T dir" "layout (xs @ EntrySet es # ys) tail (dir_stream (content w) dir)"
    and "set_ok new" "r = length (slots_of xs)"
    and run: "free_run (dir_stream (content w) dir) (length new) (r, r + length es) dest"
  shows "does (moved dir es r new dest) w (\<lambda>r' w'. ok w' \<and>
    (\<exists>b. rename_outcome content taken X dir (xs @ EntrySet es # ys) (set_entry es) (set_entry new) b w w' \<and>
      ((\<exists>u. r' = Inr u) \<longrightarrow> b)))"
    (is "does _ _ ?Q")
proof -
  let ?items = "xs @ EntrySet es # ys" and ?ss = "dir_stream (content w) dir"
  let ?dest = "map (slot_at dir) [dest ..< dest + length new]"
  have es: "set_ok es" using assms(3) by (simp add: layout_def)
  have len: "r + length es \<le> slot_count dir" using layout_slots [OF assms(3)] assms(5) by simp
  have fits: "dest + length new \<le> slot_count dir" using run by (auto simp: free_run_def)
  have "\<forall>s. fst (r, r + length es) \<le> s \<and> s < snd (r, r + length es) \<longrightarrow> s < length (slots_of ?items)"
    using assms(5) by simp
  from insert_set [OF assms(3) run assms(4) this] obtain as fs bs tail' where added:
    "?items = as @ map FreeSlot fs @ bs" "bs \<noteq> [] \<longrightarrow> length fs = length new"
    "layout (as @ EntrySet new # bs) tail' (splice dest new ?ss)" by blast
  from marked_old [OF assms(3) added(3,1,2)] obtain items' where
    lay: "layout items' tail' (splice r (marked es) (splice dest new ?ss))"
      "add_mset (set_entry es) (mset (listing items')) = add_mset (set_entry new) (mset (listing ?items))"
    using assms(5) by blast
  have old: "?Q (Inl e) w'" if "ok w'" "taken w' = taken w" "same_outside (dir_bytes dir) (content w) (content w')"
      "dir_stream (content w') dir = ?ss \<or> dir_stream (content w') dir = splice dest new ?ss \<or>
       (\<exists>offsets slabs w1. not_put_back X offsets slabs w1)" for e :: io_kind and w'
  proof -
    have "rename_outcome content taken X dir ?items (set_entry es) (set_entry new) False w w'"
      using that(2-4) unfolding rename_outcome_def if_False by metis
    with that(1) show ?thesis by auto
  qed
  show ?thesis
    unfolding moved_def
  proof (rule does_bind [OF read_each_reads [OF assms(1)]])
    fix free_before w0 assume "kept ok content taken {} w w0 \<and> content w0 = content w \<and>
      (\<forall>v. Inr free_before = Inr v \<longrightarrow> v = map (\<lambda>o'. bytes_at (content w) o' SLOT_BYTES) ?dest)"
    then have w0: "ok w0" "taken w0 = taken w" "content w0 = content w"
      and before: "free_before = map (\<lambda>i. bytes_at (content w) (slot_at dir i) SLOT_BYTES) [dest ..< dest + length new]"
      by (auto simp: kept_def)
    have free: "free_before = take (length new) (drop dest ?ss)"
      unfolding before using fits by (intro nth_equalityI) simp_all
    have lens: "length free_before = length new" "\<forall>s \<in> set free_before. length s = SLOT_BYTES" by (auto simp: before)
    show "does (io_bind (exfat_write_entry_slabs_at (xf_part_bytes X) (xf_get X) (xf_put X) (xf_flush X) ?dest new) (\<lambda>_ w.
       case exfat_mark_slots_deleted (xf_part_bytes X) (xf_get X) (xf_put X) (xf_flush X)
          (map (slot_at dir) [r ..< r + length es]) es w of
         None \<Rightarrow> None
       | Some (Inr u, w') \<Rightarrow> Some (Inr u, w')
       | Some (Inl e, w') \<Rightarrow>
           map_option (\<lambda>(_, w''). (Inl e, w''))
             (exfat_write_entry_slabs_at (xf_part_bytes X) (xf_get X) (xf_put X) (xf_flush X) ?dest free_before w'))) w0 ?Q"
    proof (rule does_bind [OF put_set_result [OF w0(1) assms(2,4) fits]])
      fix e :: io_kind and w1 assume "ok w1 \<and> taken w1 = taken w0 \<and> same_outside (dir_bytes dir) (content w0) (content w1) \<and>
        (case Inl e of
           Inr u \<Rightarrow> dir_stream (content w1) dir = splice dest new (dir_stream (content w0) dir)
         | Inl e \<Rightarrow> content w1 = content w0 \<or> (\<exists>offsets slabs w1. not_put_back X offsets slabs w1))"
      with w0 show "?Q (Inl e) w1" by (intro old) auto
    next
      fix u w1 assume "ok w1 \<and> taken w1 = taken w0 \<and> same_outside (dir_bytes dir) (content w0) (content w1) \<and>
        (case Inr u of
           Inr u \<Rightarrow> dir_stream (content w1) dir = splice dest new (dir_stream (content w0) dir)
         | Inl e \<Rightarrow> content w1 = content w0 \<or> (\<exists>offsets slabs w1. not_put_back X offsets slabs w1))"
      with w0 have w1: "ok w1" "taken w1 = taken w" "same_outside (dir_bytes dir) (content w) (content w1)"
        "dir_stream (content w1) dir = splice dest new ?ss" by auto
      have sizes: "\<forall>s \<in> set es. length s = SLOT_BYTES" using es by (simp add: set_ok_def)
      from mark_result [OF w1(1) assms(2) sizes len] obtain r2 w2 where mark:
        "exfat_mark_slots_deleted (xf_part_bytes X) (xf_get X) (xf_put X) (xf_flush X)
          (map (slot_at dir) [r ..< r + length es]) es w1 = Some (r2, w2)"
        and w2: "ok w2" "taken w2 = taken w1" "same_outside (dir_bytes dir) (content w1) (content w2)"
          "case r2 of
             Inr u \<Rightarrow> dir_stream (content w2) dir = splice r (marked es) (dir_stream (content w1) dir)
           | Inl e \<Rightarrow> content w2 = content w1 \<or> (\<exists>offsets slabs w1. not_put_back X offsets slabs w1)"
        by (simp add: does_def) blast
      have same2: "same_outside (dir_bytes dir) (content w) (content w2)"
        using w1(3) w2(3) by (auto intro: same_outside_trans)
      show "does (\<lambda>w. case exfat_mark_slots_deleted (xf_part_bytes X) (xf_get X) (xf_put X) (xf_flush X)
          (map (slot_at dir) [r ..< r + length es]) es w of
         None \<Rightarrow> None
       | Some (Inr u, w') \<Rightarrow> Some (Inr u, w')
       | Some (Inl e, w') \<Rightarrow>
           map_option (\<lambda>(_, w''). (Inl e, w''))
             (exfat_write_entry_slabs_at (xf_part_bytes X) (xf_get X) (xf_put X) (xf_flush X) ?dest free_before w')) w1 ?Q"
      proof (cases r2)
        case (Inr u)
        with w2(4) w1(4) have "dir_stream (content w2) dir = splice r (marked es) (splice dest new ?ss)" by simp
        with lay have lay2: "layout items' tail' (dir_stream (content w2) dir)" by simp
        have "rename_outcome content taken X dir ?items (set_entry es) (set_entry new) True w w2"
          using lay2 lay(2) entries_of_layout [OF lay2] w2(2) w1(2) same2 by (auto simp: rename_outcome_def)
        with w2(1) mark Inr show ?thesis by (auto simp: does_def)
      next
        case (Inl e)
        have "dest + length free_before \<le> slot_count dir" using fits lens(1) by simp
        from dir_slabs_result [OF w2(1) assms(2) this lens(2)] obtain r3 w3 where put:
          "exfat_write_entry_slabs_at (xf_part_bytes X) (xf_get X) (xf_put X) (xf_flush X) ?dest free_before w2 = Some (r3, w3)"
          and w3: "ok w3" "taken w3 = taken w2" "same_outside (dir_bytes dir) (content w2) (content w3)"
            "case r3 of
               Inr u \<Rightarrow> dir_stream (content w3) dir = splice dest free_before (dir_stream (content w2) dir)
             | Inl e \<Rightarrow> content w3 = content w2 \<or> (\<exists>offsets slabs w1. not_put_back X offsets slabs w1)"
          unfolding lens(1) does_def by blast
        have "?Q (Inl e) w3"
        proof (rule old)
          show "same_outside (dir_bytes dir) (content w) (content w3)" using same2 w3(3) by (auto intro: same_outside_trans)
          have undo: "splice dest free_before (splice dest new ?ss) = ?ss"
            unfolding free using fits by (intro splice_back) simp_all
          show "dir_stream (content w3) dir = ?ss \<or> dir_stream (content w3) dir = splice dest new ?ss \<or>
              (\<exists>offsets slabs w1. not_put_back X offsets slabs w1)"
          proof (cases "content w2 = content w1")
            case True
            with w3(4) w1(4) undo show ?thesis by (cases r3) auto
          next
            case False
            with w2(4) Inl show ?thesis by auto
          qed
        qed (use w3 w2 w1 in simp_all)
        with mark Inl put show ?thesis by (auto simp: does_def)
      qed
    qed
  next
    fix e :: io_kind and w0 assume "kept ok content taken {} w w0 \<and> content w0 = content w \<and>
      (\<forall>v. Inl e = Inr v \<longrightarrow> v = map (\<lambda>o'. bytes_at (content w) o' SLOT_BYTES) ?dest)"
    then show "?Q (Inl e) w0" by (intro old) (auto simp: kept_def)
  qed
qed


lemma write_renamed_result:
  assumes "ok w" "dir_in X T dir" "layout (xs @ EntrySet es # ys) tail (dir_stream (content w) dir)"
    and "set_ok new" "r = length (slots_of xs)"
  shows "does (write_renamed X dir r new) w (\<lambda>r' w'. ok w' \<and>
    (\<exists>b. rename_outcome content taken X dir (xs @ EntrySet es # ys) (set_entry es) (set_entry new) b w w' \<and>
      ((\<exists>u. r' = Inr u) \<longrightarrow> b)))"
    (is "does _ _ ?Q")
proof -
  let ?items = "xs @ EntrySet es # ys"
  have len: "r + length es \<le> slot_count dir" using layout_slots [OF assms(3)] assms(5) by simp
  have failed: "?Q (Inl e) w'" if "kept ok content taken {} w w'" "content w' = content w" for e :: io_kind and w'
    using that by (auto simp: kept_def rename_outcome_def intro!: exI [of _ False])
  have later: "?Q r' w'" if "content w1 = content w" "taken w1 = taken w" "ok w' \<and>
      (\<exists>b. rename_outcome content taken X dir ?items (set_entry es) (set_entry new) b w1 w' \<and> ((\<exists>u. r' = Inr u) \<longrightarrow> b))"
    for r' :: "io_kind + unit" and w1 w'
    using that(3) unfolding rename_outcome_from [OF that(1,2)] .
  show ?thesis
    unfolding write_renamed_def Let_def
  proof (rule does_bind [OF read_set_at [OF assms(1,3), folded assms(5)]])
    fix got w1 assume "kept ok content taken {} w w1 \<and> content w1 = content w \<and> (\<forall>v. Inr got = Inr v \<longrightarrow> v = Some es)"
    then have got: "got = Some es" and w1: "ok w1" "taken w1 = taken w" "content w1 = content w" by (auto simp: kept_def)
    have layout1: "layout ?items tail (dir_stream (content w1) dir)" using assms(3) w1(3) by simp
    have w1': "ok w1 \<and> taken w1 = taken w1" using w1(1) by simp
    show "does (case got of
           None \<Rightarrow> io_fail InvalidData
         | Some old_entries \<Rightarrow>
             io_bind (io_of (slot_offsets dir r (length old_entries))) (\<lambda>old_offsets.
               if length new \<le> length old_entries then
                 io_bind (exfat_write_entry_slabs_at (xf_part_bytes X) (xf_get X) (xf_put X) (xf_flush X)
                     (take (length new) old_offsets) new) (\<lambda>_.
                   exfat_mark_slots_deleted (xf_part_bytes X) (xf_get X) (xf_put X) (xf_flush X)
                     (drop (length new) old_offsets) (drop (length new) old_entries))
               else
                 io_bind (exfat_find_free_entry_run (xf_read X) dir (length new)
                     (r, r + length old_entries)) (\<lambda>dest_slot.
                 io_bind (io_of (slot_offsets dir dest_slot (length new))) (\<lambda>dest_offsets.
                 io_bind (read_each (xf_get X) dest_offsets) (\<lambda>free_before.
                 io_bind (exfat_write_entry_slabs_at (xf_part_bytes X) (xf_get X) (xf_put X) (xf_flush X)
                     dest_offsets new) (\<lambda>_ w.
                   case exfat_mark_slots_deleted (xf_part_bytes X) (xf_get X) (xf_put X) (xf_flush X)
                       old_offsets old_entries w of
                     None \<Rightarrow> None
                   | Some (Inr u, w') \<Rightarrow> Some (Inr u, w')
                   | Some (Inl e, w') \<Rightarrow>
                       map_option (\<lambda>(_, w''). (Inl e, w''))
                         (exfat_write_entry_slabs_at (xf_part_bytes X) (xf_get X) (xf_put X) (xf_flush X)
                           dest_offsets free_before w'))))))) w1 ?Q"
      unfolding got option.case slot_offsets_in [OF len] does_bind_simps
    proof (rule does_if)
      assume le: "length new \<le> length es"
      from le have parts: "take (length new) (map (slot_at dir) [r ..< r + length es]) = map (slot_at dir) [r ..< r + length new]"
        "drop (length new) (map (slot_at dir) [r ..< r + length es]) = map (slot_at dir) [r + length new ..< r + length es]"
        by (simp_all add: take_map drop_map)
      show "does (io_bind (exfat_write_entry_slabs_at (xf_part_bytes X) (xf_get X) (xf_put X) (xf_flush X)
                     (take (length new) (map (slot_at dir) [r ..< r + length es])) new) (\<lambda>_.
                   exfat_mark_slots_deleted (xf_part_bytes X) (xf_get X) (xf_put X) (xf_flush X)
                     (drop (length new) (map (slot_at dir) [r ..< r + length es])) (drop (length new) es))) w1 ?Q"
        unfolding parts
        by (rule does_mono [OF renamed_in_place [OF w1(1) assms(2) layout1 assms(4) le assms(5)]])
          (rule later [OF w1(3,2)])
    next
      show "does (io_bind (exfat_find_free_entry_run (xf_read X) dir (length new) (r, r + length es)) (\<lambda>dest_slot.
                 io_bind (io_of (slot_offsets dir dest_slot (length new))) (\<lambda>dest_offsets.
                 io_bind (read_each (xf_get X) dest_offsets) (\<lambda>free_before.
                 io_bind (exfat_write_entry_slabs_at (xf_part_bytes X) (xf_get X) (xf_put X) (xf_flush X)
                     dest_offsets new) (\<lambda>_ w.
                   case exfat_mark_slots_deleted (xf_part_bytes X) (xf_get X) (xf_put X) (xf_flush X)
                       (map (slot_at dir) [r ..< r + length es]) es w of
                     None \<Rightarrow> None
                   | Some (Inr u, w') \<Rightarrow> Some (Inr u, w')
                   | Some (Inl e, w') \<Rightarrow>
                       map_option (\<lambda>(_, w''). (Inl e, w''))
                         (exfat_write_entry_slabs_at (xf_part_bytes X) (xf_get X) (xf_put X) (xf_flush X)
                           dest_offsets free_before w')))))) w1 ?Q"
      proof (rule does_bind [OF reads_kept [OF vol.find_free_entry_run_reads [OF w1']]])
        fix dest w2 assume "kept ok content taken {} w1 w2 \<and> content w2 = content w1 \<and>
          (\<forall>v. Inr dest = Inr v \<longrightarrow> free_run (dir_stream (content w1) dir) (length new) (r, r + length es) v)"
        then have w2: "ok w2" "taken w2 = taken w" "content w2 = content w"
          and run: "free_run (dir_stream (content w2) dir) (length new) (r, r + length es) dest"
          using w1 by (auto simp: kept_def)
        have layout2: "layout ?items tail (dir_stream (content w2) dir)" using assms(3) w2(3) by simp
        have fits: "dest + length new \<le> slot_count dir" using run by (auto simp: free_run_def)
        show "does (io_bind (io_of (slot_offsets dir dest (length new))) (\<lambda>dest_offsets.
                 io_bind (read_each (xf_get X) dest_offsets) (\<lambda>free_before.
                 io_bind (exfat_write_entry_slabs_at (xf_part_bytes X) (xf_get X) (xf_put X) (xf_flush X)
                     dest_offsets new) (\<lambda>_ w.
                   case exfat_mark_slots_deleted (xf_part_bytes X) (xf_get X) (xf_put X) (xf_flush X)
                       (map (slot_at dir) [r ..< r + length es]) es w of
                     None \<Rightarrow> None
                   | Some (Inr u, w') \<Rightarrow> Some (Inr u, w')
                   | Some (Inl e, w') \<Rightarrow>
                       map_option (\<lambda>(_, w''). (Inl e, w''))
                         (exfat_write_entry_slabs_at (xf_part_bytes X) (xf_get X) (xf_put X) (xf_flush X)
                           dest_offsets free_before w'))))) w2 ?Q"
          unfolding slot_offsets_in [OF fits] does_bind_simps
          by (rule does_mono [OF renamed_elsewhere [OF w2(1) assms(2) layout2 assms(4,5) run, unfolded moved_def]])
            (rule later [OF w2(3,2)])
      qed (use w1 in \<open>auto simp: kept_def rename_outcome_def intro!: exI [of _ False]\<close>)
    qed
  qed (use failed in blast)
qed


end

subsection \<open>The whole rename\<close>

lemma set_fields:
  assumes "set_ok es"
  shows "length (xe_primary (set_entry es)) = 32" "slot_type (xe_primary (set_entry es)) = EXFAT_ENTRY_FILE_DIRECTORY"
    "xe_attributes (set_entry es) = le16_at (xe_primary (set_entry es)) 4"
proof -
  note d = set_okD [OF assms]
  from d(1) obtain us where e: "set_entry es = make_entry (es ! 0) (es ! 1) us"
    by (auto simp: decode_slots_def dest: sym split: option.splits)
  have "es ! 0 \<in> set es" using d(3) by (intro nth_mem) linarith
  then have "length (es ! 0) = 32" using assms by (simp add: set_ok_def SLOT_BYTES_def)
  with e d(4) show "length (xe_primary (set_entry es)) = 32" "slot_type (xe_primary (set_entry es)) = EXFAT_ENTRY_FILE_DIRECTORY"
    "xe_attributes (set_entry es) = le16_at (xe_primary (set_entry es)) 4" by (simp_all add: make_entry_def)
qed

text \<open>One place in a folder, one entry set.\<close>

lemma same_place:
  assumes "xs @ EntrySet es # ys = xs' @ EntrySet es' # ys'" "length (slots_of xs) = length (slots_of xs')"
    and "\<forall>i \<in> set (xs @ EntrySet es # ys). item_ok i"
  shows "es' = es"
proof -
  have ne: "us = []" if "length (slots_of us) = 0" "\<forall>i \<in> set us. item_ok i" for us
    using that item_slots_ne by (cases us) auto
  from assms(1) consider us where "xs = xs' @ us" "us @ EntrySet es # ys = EntrySet es' # ys'"
    | us where "xs' = xs @ us" "EntrySet es # ys = us @ EntrySet es' # ys'"
    by (auto simp: append_eq_append_conv2)
  then show ?thesis
  proof cases
    case 1
    from assms(3) have "\<forall>i \<in> set (xs' @ us). item_ok i" by (auto simp: 1(1))
    with 1 assms(2) have "us = []" by (intro ne) auto
    with 1(2) show ?thesis by simp
  next
    case 2
    from assms(3) have "\<forall>i \<in> set (us @ EntrySet es' # ys'). item_ok i" by (simp add: 2(2) [symmetric])
    with 2 assms(2) have "us = []" by (intro ne) auto
    with 2(2) show ?thesis by simp
  qed
qed

text \<open>What the paths of a rename have in common: they name entries of one folder.\<close>

definition renames_in :: "'w exfat_fs \<Rightarrow> (nat \<Rightarrow> u8) \<Rightarrow> rstring \<Rightarrow> rstring \<Rightarrow> dir_slots \<Rightarrow> bool" where
  "renames_in X f from_rel to_rel dir \<longleftrightarrow>
     (let parent_path = fst (cart_path_parts from_rel);
          name_to = snd (cart_path_parts to_rel);
          to_path = (if parent_path = [] then name_to else parent_path @ [SLASH] @ name_to)
      in fst (exfat_parent_path_and_name (slashes (str_trim from_rel))) = parent_path \<and>
         fst (exfat_parent_path_and_name from_rel) = parent_path \<and>
         fst (exfat_parent_path_and_name to_path) = parent_path \<and>
         names_dir (xf_upper X) (xf_hadris X) f (xf_info X) parent_path dir)"

text \<open>An entry under a new name: the same clusters, lengths, attributes and times.\<close>

definition renamed_to :: "decoded_entry \<Rightarrow> rstring \<Rightarrow> decoded_entry \<Rightarrow> bool" where
  "renamed_to old name new \<longleftrightarrow>
     (\<exists>p. new = old\<lparr>xe_name := name, xe_primary := p\<rparr> \<and> (\<forall>i. i \<notin> {1, 2, 3} \<longrightarrow> p ! i = xe_primary old ! i))"

definition one_renamed ::
  "('w \<Rightarrow> nat \<Rightarrow> u8) \<Rightarrow> ('w \<Rightarrow> u32 set) \<Rightarrow> 'w exfat_fs \<Rightarrow> dir_slots \<Rightarrow> dir_item list \<Rightarrow> decoded_entry \<Rightarrow> rstring \<Rightarrow>
     bool \<Rightarrow> 'w \<Rightarrow> 'w \<Rightarrow> bool" where
  "one_renamed content taken X dir items old name finished w w' \<longleftrightarrow>
     (\<exists>new b. renamed_to old name new \<and> rename_outcome content taken X dir items old new b w w' \<and>
        (finished \<longrightarrow> b \<and>
          distinct (map (fat_name_key (xf_upper X) \<circ> xe_name) (entries_of (dir_stream (content w') dir)))))"

lemma distinct_keys_renamed:
  assumes "add_mset old (mset es') = add_mset new (mset es)" "distinct (map f es)" "old \<in> set es"
    and "\<forall>e \<in> set es. f e = f new \<longrightarrow> e = old"
  shows "distinct (map f es')"
proof -
  from assms(3) obtain xs ys where es: "es = xs @ old # ys" by (auto simp: in_set_conv_decomp)
  have "add_mset old (mset es') = add_mset old (mset (new # xs @ ys))" using assms(1) by (simp add: es)
  then have m: "mset es' = mset (new # xs @ ys)" by (rule add_mset_add_mset_same_iff [THEN iffD1])
  have "old \<notin> set (xs @ ys)" using assms(2) by (auto simp: es)
  then have "f new \<notin> f ` set (xs @ ys)" using assms(4) unfolding es by (metis (no_types, lifting) Un_iff image_iff list.set_intros(2) set_append)
  then have "distinct (map f (new # xs @ ys))" using assms(2) by (auto simp: es)
  moreover have "mset (map f es') = mset (map f (new # xs @ ys))" unfolding mset_map m ..
  ultimately show ?thesis using mset_eq_imp_distinct_iff by blast
qed

context mounted_volume
begin

lemma rename_tail:
  assumes "ok w6" "content w6 = content w" "taken w6 = taken w"
    and unique: "\<forall>e \<in> set (listing items). fat_name_key (xf_upper X) (xe_name e) = fat_name_key (xf_upper X) name \<longrightarrow> e = set_entry es"
    and items: "items = xs @ EntrySet es # ys" and layout: "layout items tail (dir_stream (content w) dir)"
    and dir: "dir_in X T dir" and scalar: "list_all scalar name"
    and flush: "\<forall>w. ok w \<longrightarrow> does flush_serial w (\<lambda>_. kept ok content taken {} w)"
    and names: "distinct (map (fat_name_key (xf_upper X) \<circ> xe_name) (listing items))"
  shows "does (io_bind (io_of (exfat_validate_rename_name name)) (\<lambda>_.
         io_bind (io_of (exfat_build_rename_entry_set_bytes (xf_hadris X) (set_entry es) name)) (\<lambda>new_slabs.
         io_bind (write_renamed X dir (length (slots_of xs)) new_slabs) (\<lambda>_. flush_serial)))) w6 (\<lambda>r w'. ok w' \<and>
    (content w' = content w \<and> taken w' = taken w \<and> \<not> (\<exists>u. r = Inr u) \<or>
     one_renamed content taken X dir items (set_entry es) name (\<exists>u. r = Inr u) w w'))"
    (is "does _ _ ?Q")
proof (cases "exfat_validate_rename_name name")
  case (Inl e)
  then show ?thesis using assms(1-3) by simp
next
  case (Inr u)
  show ?thesis
  proof (cases "exfat_build_rename_entry_set_bytes (xf_hadris X) (set_entry es) name")
    case (Inl e)
    with Inr show ?thesis using assms(1-3) by simp
  next
    case built: (Inr new)
    have es: "set_ok es" using layout items by (simp add: layout_def)
    let ?old = "set_entry es" and ?new = "(set_entry es)\<lparr>xe_name := name, xe_primary := new ! 0\<rparr>"
    note new = rename_set [OF built scalar set_fields [OF es]]
    have entry: "set_entry new = ?new" using new(4) by (simp add: set_entry_def)
    have to: "renamed_to ?old name ?new" using new(5) by (auto simp: renamed_to_def)
    have old: "?old \<in> set (listing items)" by (simp add: items)
    have lay6: "layout (xs @ EntrySet es # ys) tail (dir_stream (content w6) dir)" using layout items assms(2) by simp
    note from6 = rename_outcome_from [OF assms(2,3)]
    have "does (io_bind (write_renamed X dir (length (slots_of xs)) new) (\<lambda>_. flush_serial)) w6 ?Q"
    proof (rule does_bind [OF write_renamed_result [OF assms(1) dir lay6 new(1) refl]])
      fix e :: io_kind and w7 assume "ok w7 \<and> (\<exists>b. rename_outcome content taken X dir (xs @ EntrySet es # ys) ?old (set_entry new) b w6 w7 \<and>
        ((\<exists>u. Inl e = Inr u) \<longrightarrow> b))"
      then obtain b where "ok w7" "rename_outcome content taken X dir items ?old ?new b w w7"
        unfolding entry items [symmetric] from6 by blast
      with to show "?Q (Inl e) w7" by (auto simp: one_renamed_def)
    next
      fix u w7 assume "ok w7 \<and> (\<exists>b. rename_outcome content taken X dir (xs @ EntrySet es # ys) ?old (set_entry new) b w6 w7 \<and>
        ((\<exists>v. Inr u = Inr v) \<longrightarrow> b))"
      then have w7: "ok w7" "rename_outcome content taken X dir items ?old ?new True w w7"
        unfolding entry items [symmetric] from6 by auto
      show "does flush_serial w7 ?Q"
      proof (rule does_mono)
        show "does flush_serial w7 (\<lambda>_. kept ok content taken {} w7)" using flush w7(1) by blast
        fix r w8 assume "kept ok content taken {} w7 w8"
        then have w8: "ok w8" "content w8 = content w7" "taken w8 = taken w7"
          by (auto simp: kept_def same_outside_def)
        then have out: "rename_outcome content taken X dir items ?old ?new True w w8"
          using w7(2) by (simp add: rename_outcome_def)
        then have "add_mset ?old (mset (entries_of (dir_stream (content w8) dir))) = add_mset ?new (mset (listing items))"
          by (simp add: rename_outcome_def)
        from distinct_keys_renamed [OF this names old] unique
        have "distinct (map (fat_name_key (xf_upper X) \<circ> xe_name) (entries_of (dir_stream (content w8) dir)))"
          by simp
        with to out w8(1) show "?Q r w8" by (auto simp: one_renamed_def)
      qed
    qed
    with Inr built show ?thesis by simp
  qed
qed


lemma rename_result:
  assumes "ok w" "renames_in X (content w) from_rel to_rel dir" "dir_in X T dir"
    and layout: "layout items tail (dir_stream (content w) dir)"
    and scalar: "list_all scalar (snd (cart_path_parts to_rel))"
    and flush: "\<forall>w. ok w \<longrightarrow> does flush_serial w (\<lambda>_. kept ok content taken {} w)"
    and unique: "\<forall>e \<in> set (listing items). \<forall>es. EntrySet es \<in> set items \<longrightarrow>
      set_matches (of_decoded e) es (length es - 1) \<longrightarrow> set_entry es = e"
    and names: "distinct (map (fat_name_key (xf_upper X) \<circ> xe_name) (listing items))"
  shows "does (rename_cart_exfat X flush_serial from_rel to_rel) w (\<lambda>r w'. ok w' \<and>
    (content w' = content w \<and> taken w' = taken w \<and> \<not> (\<exists>u. r = Inr u) \<or>
     (\<exists>old. names_entry (xf_upper X) (xf_hadris X) (content w) (xf_info X) from_rel old \<and>
        one_renamed content taken X dir items old (snd (cart_path_parts to_rel)) (\<exists>u. r = Inr u) w w')))"
    (is "does _ _ ?Q")
proof -
  let ?parent = "fst (cart_path_parts from_rel)" and ?name = "snd (cart_path_parts to_rel)"
  let ?to = "if ?parent = [] then ?name else ?parent @ [SLASH] @ ?name"
  let ?key = "\<lambda>e. fat_name_key (xf_upper X) (xe_name e)"
  from assms(2) have parents: "fst (exfat_parent_path_and_name (slashes (str_trim from_rel))) = ?parent"
    "fst (exfat_parent_path_and_name from_rel) = ?parent" "fst (exfat_parent_path_and_name ?to) = ?parent"
    and named: "names_dir (xf_upper X) (xf_hadris X) (content w) (xf_info X) ?parent dir"
    by (simp_all only: renames_in_def Let_def)
  have entries: "entries_of (dir_stream (content w) dir) = listing items" using layout by (rule entries_of_layout)
  have failed: "?Q (Inl e) w'" if "kept ok content taken {} w w' \<and> content w' = content w \<and> P" for e :: io_kind and w' P
    using that by (auto simp: kept_def)
  have from_state: "ok w1 \<and> taken w1 = taken w1" "layout items tail (dir_stream (content w1) dir)"
    "names_dir (xf_upper X) (xf_hadris X) (content w1) (xf_info X) ?parent dir"
    "entries_of (dir_stream (content w1) dir) = listing items"
    if "ok w1" "content w1 = content w" for w1 using that layout named entries by simp_all
  note reads_simps = reads_kept
  have step: "kept ok content taken {} w w2 \<and> content w2 = content w"
    if "kept ok content taken {} w w1 \<and> content w1 = content w" "kept ok content taken {} w1 w2 \<and> content w2 = content w1 \<and> P"
    for w1 w2 P using that by (auto simp: kept_def)
  have w: "ok w \<and> taken w = taken w" using assms(1) by simp
  show ?thesis
    unfolding rename_cart_exfat_def Let_def
  proof (rule does_bind [OF reads_kept [OF vol.resolve_entry_reads [OF w]]])
    fix old w1 assume a: "kept ok content taken {} w w1 \<and> content w1 = content w \<and>
      (\<forall>v. Inr old = Inr v \<longrightarrow> names_entry (xf_upper X) (xf_hadris X) (content w) (xf_info X) from_rel v)"
    then have k1: "kept ok content taken {} w w1 \<and> content w1 = content w" and w1: "ok w1" "content w1 = content w"
      by (auto simp: kept_def)
    from a have named_old: "names_entry (xf_upper X) (xf_hadris X) (content w) (xf_info X) from_rel old" by blast
    from a obtain dir' where dir': "names_dir (xf_upper X) (xf_hadris X) (content w) (xf_info X) ?parent dir'"
      "\<exists>name. find (\<lambda>e. fat_names_equal (xf_upper X) (xe_name e) name) (entries_of (dir_stream (content w) dir')) = Some old"
      using parents(1) by (auto simp: names_entry_def split: prod.splits)
    with names_dir_unique [OF named] entries have old: "old \<in> set (listing items)"
      by (auto simp: find_Some_iff)
    have unique': "\<forall>es. EntrySet es \<in> set items \<longrightarrow> set_matches (of_decoded e) es (length es - 1) \<longrightarrow> set_entry es = e"
      if "e \<in> set (listing items)" for e using unique that by blast
    note at1 = from_state [OF w1]
    show "does (io_bind (exfat_locate_entry_set (xf_upper X) (xf_hadris X) (xf_read X) (xf_info X) from_rel (of_decoded old))
           (\<lambda>(dir, old_slot).
         io_bind (exfat_resolve_dir_slots (xf_upper X) (xf_hadris X) (xf_read X) (xf_info X) ?parent)
           (\<lambda>parent_slots.
         io_bind (exfat_list_entries (xf_read X) parent_slots) (\<lambda>es.
         io_bind
           (case find (\<lambda>e. fat_names_equal (xf_upper X) (xe_name e) ?name) es of
              None \<Rightarrow> io_return ()
            | Some candidate \<Rightarrow>
                io_bind (exfat_locate_entry_set (xf_upper X) (xf_hadris X) (xf_read X) (xf_info X) ?to
                    (of_decoded candidate)) (\<lambda>(_, cand_slot).
                  if cand_slot \<noteq> old_slot then io_fail AlreadyExists else io_return ()))
           (\<lambda>_.
         io_bind (io_of (exfat_validate_rename_name ?name)) (\<lambda>_.
         io_bind (io_of (exfat_build_rename_entry_set_bytes (xf_hadris X) old ?name)) (\<lambda>new_slabs.
         io_bind (write_renamed X dir old_slot new_slabs) (\<lambda>_. flush_serial)))))))) w1 ?Q"
    proof (rule does_bind [OF locate_entry [OF w1(1), of from_rel, unfolded parents(2), OF at1(3,2) unique' [OF old]]])
      fix v w2 assume b: "kept ok content taken {} w1 w2 \<and> content w2 = content w1 \<and>
        (\<forall>v'. Inr v = Inr v' \<longrightarrow> (\<exists>xs es ys. items = xs @ EntrySet es # ys \<and> set_entry es = old \<and> v' = (dir, length (slots_of xs))))"
      then obtain xs es ys where at_slot: "items = xs @ EntrySet es # ys" "set_entry es = old" "v = (dir, length (slots_of xs))"
        by blast
      have k2: "kept ok content taken {} w w2 \<and> content w2 = content w" using step [OF k1] b by blast
      then have w2: "ok w2" "content w2 = content w" by (auto simp: kept_def)
      let ?r = "length (slots_of xs)"
      have es: "set_ok es" using layout at_slot(1) by (simp add: layout_def)
      show "does (case v of (dir, old_slot) \<Rightarrow>
         io_bind (exfat_resolve_dir_slots (xf_upper X) (xf_hadris X) (xf_read X) (xf_info X) ?parent)
           (\<lambda>parent_slots.
         io_bind (exfat_list_entries (xf_read X) parent_slots) (\<lambda>es.
         io_bind
           (case find (\<lambda>e. fat_names_equal (xf_upper X) (xe_name e) ?name) es of
              None \<Rightarrow> io_return ()
            | Some candidate \<Rightarrow>
                io_bind (exfat_locate_entry_set (xf_upper X) (xf_hadris X) (xf_read X) (xf_info X) ?to
                    (of_decoded candidate)) (\<lambda>(_, cand_slot).
                  if cand_slot \<noteq> old_slot then io_fail AlreadyExists else io_return ()))
           (\<lambda>_.
         io_bind (io_of (exfat_validate_rename_name ?name)) (\<lambda>_.
         io_bind (io_of (exfat_build_rename_entry_set_bytes (xf_hadris X) old ?name)) (\<lambda>new_slabs.
         io_bind (write_renamed X dir old_slot new_slabs) (\<lambda>_. flush_serial))))))) w2 ?Q"
        unfolding at_slot(3) prod.case
      proof (rule does_bind [OF reads_kept [OF vol.resolve_dir_slots_reads [OF from_state(1) [OF w2]]]])
        fix parent_slots w3 assume c: "kept ok content taken {} w2 w3 \<and> content w3 = content w2 \<and>
          (\<forall>v. Inr parent_slots = Inr v \<longrightarrow> names_dir (xf_upper X) (xf_hadris X) (content w2) (xf_info X) ?parent v)"
        then have k3: "kept ok content taken {} w w3 \<and> content w3 = content w" using step [OF k2] by blast
        then have w3: "ok w3" "content w3 = content w" by (auto simp: kept_def)
        have slots: "parent_slots = dir" using c names_dir_unique [OF named] w2(2) by auto
        show "does (io_bind (exfat_list_entries (xf_read X) parent_slots) (\<lambda>es.
         io_bind
           (case find (\<lambda>e. fat_names_equal (xf_upper X) (xe_name e) ?name) es of
              None \<Rightarrow> io_return ()
            | Some candidate \<Rightarrow>
                io_bind (exfat_locate_entry_set (xf_upper X) (xf_hadris X) (xf_read X) (xf_info X) ?to
                    (of_decoded candidate)) (\<lambda>(_, cand_slot).
                  if cand_slot \<noteq> ?r then io_fail AlreadyExists else io_return ()))
           (\<lambda>_.
         io_bind (io_of (exfat_validate_rename_name ?name)) (\<lambda>_.
         io_bind (io_of (exfat_build_rename_entry_set_bytes (xf_hadris X) old ?name)) (\<lambda>new_slabs.
         io_bind (write_renamed X dir ?r new_slabs) (\<lambda>_. flush_serial)))))) w3 ?Q"
          unfolding slots
        proof (rule does_bind [OF reads_kept [OF vol.list_entries_reads [OF from_state(1) [OF w3]]]])
          fix all w4 assume d: "kept ok content taken {} w3 w4 \<and> content w4 = content w3 \<and>
            (\<forall>v. Inr all = Inr v \<longrightarrow> v = entries_of (dir_stream (content w3) dir))"
          then have k4: "kept ok content taken {} w w4 \<and> content w4 = content w" using step [OF k3] by blast
          then have w4: "ok w4" "content w4 = content w" by (auto simp: kept_def)
          have all: "all = listing items" using d w3(2) entries by simp
          have check: "does (case find (\<lambda>e. fat_names_equal (xf_upper X) (xe_name e) ?name) all of
              None \<Rightarrow> io_return ()
            | Some candidate \<Rightarrow>
                io_bind (exfat_locate_entry_set (xf_upper X) (xf_hadris X) (xf_read X) (xf_info X) ?to
                    (of_decoded candidate)) (\<lambda>(_, cand_slot).
                  if cand_slot \<noteq> ?r then io_fail AlreadyExists else io_return ())) w4
            (\<lambda>r w'. kept ok content taken {} w w' \<and> content w' = content w \<and>
              (\<forall>u. r = Inr u \<longrightarrow> (\<forall>e \<in> set (listing items). ?key e = fat_name_key (xf_upper X) ?name \<longrightarrow> e = old)))"
            (is "does _ _ ?C")
          proof (cases "find (\<lambda>e. fat_names_equal (xf_upper X) (xe_name e) ?name) all")
            case None
            then have "\<forall>e \<in> set (listing items). ?key e \<noteq> fat_name_key (xf_upper X) ?name"
              by (auto simp: find_None_iff all fat_names_equal_key)
            then show ?thesis unfolding None option.case using k4 by simp
          next
            case (Some cand)
            then have cand: "cand \<in> set (listing items)" "?key cand = fat_name_key (xf_upper X) ?name"
              by (auto simp: find_Some_iff all fat_names_equal_key)
            note at4 = from_state [OF w4]
            have "does (io_bind (exfat_locate_entry_set (xf_upper X) (xf_hadris X) (xf_read X) (xf_info X) ?to
                    (of_decoded cand)) (\<lambda>(_, cand_slot).
                  if cand_slot \<noteq> ?r then io_fail AlreadyExists else io_return ())) w4 ?C"
            proof (rule does_bind [OF locate_entry [OF w4(1), of ?to, unfolded parents(3), OF at4(3,2) unique' [OF cand(1)]]])
              fix v5 w5 assume e: "kept ok content taken {} w4 w5 \<and> content w5 = content w4 \<and>
                (\<forall>v'. Inr v5 = Inr v' \<longrightarrow> (\<exists>xs es ys. items = xs @ EntrySet es # ys \<and> set_entry es = cand \<and>
                  v' = (dir, length (slots_of xs))))"
              then obtain xs5 es5 ys5 where five: "items = xs5 @ EntrySet es5 # ys5" "set_entry es5 = cand"
                "v5 = (dir, length (slots_of xs5))" by blast
              have k5: "kept ok content taken {} w w5 \<and> content w5 = content w" using step [OF k4] e by blast
              have only: "\<forall>e \<in> set (listing items). ?key e = fat_name_key (xf_upper X) ?name \<longrightarrow> e = old"
                if "length (slots_of xs5) = ?r"
              proof -
                have "\<forall>i \<in> set items. item_ok i" using layout by (simp add: layout_def)
                with same_place [of xs es ys xs5 es5 ys5] that have "es5 = es" unfolding at_slot(1) [symmetric] using five(1) by simp
                then have "cand = old" using five(2) at_slot(2) by simp
                with names cand show ?thesis by (metis (no_types, lifting) comp_apply distinct_map inj_onD)
              qed
              show "does (case v5 of (_, cand_slot) \<Rightarrow> if cand_slot \<noteq> ?r then io_fail AlreadyExists else io_return ()) w5 ?C"
                using k5 only by (auto simp: five(3))
            qed (use step [OF k4] in blast)
            with Some show ?thesis by simp
          qed
          show "does (io_bind
           (case find (\<lambda>e. fat_names_equal (xf_upper X) (xe_name e) ?name) all of
              None \<Rightarrow> io_return ()
            | Some candidate \<Rightarrow>
                io_bind (exfat_locate_entry_set (xf_upper X) (xf_hadris X) (xf_read X) (xf_info X) ?to
                    (of_decoded candidate)) (\<lambda>(_, cand_slot).
                  if cand_slot \<noteq> ?r then io_fail AlreadyExists else io_return ()))
           (\<lambda>_.
         io_bind (io_of (exfat_validate_rename_name ?name)) (\<lambda>_.
         io_bind (io_of (exfat_build_rename_entry_set_bytes (xf_hadris X) old ?name)) (\<lambda>new_slabs.
         io_bind (write_renamed X dir ?r new_slabs) (\<lambda>_. flush_serial))))) w4 ?Q"
          proof (rule does_bind [OF check])
            fix u w6 assume f: "kept ok content taken {} w w6 \<and> content w6 = content w \<and>
              (\<forall>v. Inr u = Inr v \<longrightarrow> (\<forall>e \<in> set (listing items). ?key e = fat_name_key (xf_upper X) ?name \<longrightarrow> e = old))"
            then show "does (io_bind (io_of (exfat_validate_rename_name ?name)) (\<lambda>_.
         io_bind (io_of (exfat_build_rename_entry_set_bytes (xf_hadris X) old ?name)) (\<lambda>new_slabs.
         io_bind (write_renamed X dir ?r new_slabs) (\<lambda>_. flush_serial)))) w6 ?Q"
              unfolding at_slot(2) [symmetric]
              by (intro does_mono [OF rename_tail [OF _ _ _ _ at_slot(1) layout assms(3) scalar flush names]])
                (use named_old at_slot(2) in \<open>auto simp: kept_def\<close>)
          qed (use failed in blast)
        qed (use failed step [OF k3] in blast)
      qed (use failed step [OF k2] in blast)
    qed (use failed step [OF k1] in blast)
  qed (use failed in blast)
qed

end

subsection \<open>A rename changes one entry\<close>

lemma sample_to: "cart_path_parts [97, 98] = ([], [97, 98])" "cart_path_parts [99, 100] = ([], [99, 100])"
  by (simp_all add: cart_path_parts_def str_trim_def trim_end_def is_whitespace_def slashes_def SLASH_def rsplit_once_def Let_def)

lemma sample_other: "\<not> fat_names_equal (\<lambda>c. [c]) [97, 98] [99, 100]"
  by (simp add: fat_names_equal_key fat_name_key_def encode_utf16_def encode_char_def fat_upcase_unit_def)

lemma sample_built: "\<exists>es. exfat_build_rename_entry_set_bytes sample_hadris sample_entry [99, 100] = Inr es \<and> length es = 3"
proof -
  have name: "exfat_validate_rename_name [99, 100] = Inr ()" "exfat_entry_set_len [99, 100] = 3" using sample_name by blast+
  then obtain es where es: "exfat_build_rename_entry_set_bytes sample_hadris sample_entry [99, 100] = Inr es"
    by (simp add: exfat_build_rename_entry_set_bytes_def Let_def)
  have "length es = 3"
    using rename_set(2) [OF es] name by (simp add: scalar_def sample_entry_def le16_at_def slice_def EXFAT_ENTRY_FILE_DIRECTORY_def)
  with es show ?thesis by blast
qed

lemma sample_rename:
  "\<exists>w'. rename_cart_exfat sample_fs (io_return ()) [97, 98] [99, 100] ([3, 2], sample_volume) = Some (Inr (), w')"
proof -
  obtain es where es: "exfat_build_rename_entry_set_bytes sample_hadris sample_entry [99, 100] = Inr es" "length es = 3"
    using sample_built by blast
  obtain f where wrote: "exfat_write_entry_slabs_restoring (xf_part_bytes sample_fs) (xf_get sample_fs) (xf_put sample_fs)
      (xf_flush sample_fs) [1024, 1056, 1088] es ([3, 2], sample_volume) = Some (Inr (), [3, 2], f)"
    using sample_write_set by blast
  have three: "length sample_set = 3" by simp
  have "write_renamed sample_fs sample_root 0 es ([3, 2], sample_volume) = Some (Inr (), [3, 2], f)"
    unfolding write_renamed_def Let_def io_bind_def sample_fs_simps(6) sample_read_set
    by (simp only: option.case sum.case prod.case three sample_offsets)
      (simp add: es(2) io_bind_def exfat_write_entry_slabs_at_def wrote exfat_mark_slots_deleted_def)
  moreover have "exfat_validate_rename_name [99, 100] = Inr ()" using sample_name by blast
  moreover have upper: "xf_upper sample_fs = (\<lambda>c. [c])" by (simp add: sample_fs_def)
  ultimately show ?thesis
    by (simp add: rename_cart_exfat_def Let_def sample_to io_bind_def sample_resolve sample_fs_simps(3,6,11)
        sample_locate [unfolded upper] sample_resolve_root sample_list sample_other es(1))
qed

text \<open>C5: a rename changes one entry of one folder. When it succeeds the folder lists every other entry as
  before and, in place of the entry that the old path names, one entry with the new name and the same
  clusters, lengths and attributes; no two names of the folder are equal, whatever their case, if none
  were; and nothing outside the folder's own clusters changed. When it fails, the folder is as it was,
  or every old slot is still there with the new entry set beside them or over the old one's (the
  clusters an entry names stay allocated), unless a sector could not be put back.\<close>

theorem rename_safe:
  assumes "mounted_volume ok content taken meta X" "ok w"
    and "renames_in X (content w) from_rel to_rel dir" "dir_in X T dir"
    and "layout items tail (dir_stream (content w) dir)" "list_all scalar (snd (cart_path_parts to_rel))"
    and "\<forall>w. ok w \<longrightarrow> does flush_serial w (\<lambda>_. kept ok content taken {} w)"
    and "\<forall>e \<in> set (listing items). \<forall>es. EntrySet es \<in> set items \<longrightarrow>
      set_matches (of_decoded e) es (length es - 1) \<longrightarrow> set_entry es = e"
    and "distinct (map (fat_name_key (xf_upper X) \<circ> xe_name) (listing items))"
  shows "does (rename_cart_exfat X flush_serial from_rel to_rel) w (\<lambda>r w'. ok w' \<and>
    (content w' = content w \<and> taken w' = taken w \<and> \<not> (\<exists>u. r = Inr u) \<or>
     (\<exists>old. names_entry (xf_upper X) (xf_hadris X) (content w) (xf_info X) from_rel old \<and>
        one_renamed content taken X dir items old (snd (cart_path_parts to_rel)) (\<exists>u. r = Inr u) w w')))"
  by (rule mounted_volume.rename_result [OF assms])

theorem rename_safe_witness:
  "\<exists>w' new. rename_cart_exfat sample_fs (io_return ()) [97, 98] [99, 100] ([3, 2], sample_volume) = Some (Inr (), w') \<and>
    entries_of (dir_stream (snd w') sample_root) = [new] \<and> xe_name new = [99, 100] \<and> xe_first_cluster new = 3"
proof -
  let ?w = "([3, 2] :: u32 list, sample_volume)"
  let ?content = "\<lambda>(b :: u32 list, f :: nat \<Rightarrow> u8). f" and ?taken = "\<lambda>(b :: u32 list, f :: nat \<Rightarrow> u8). set b"
  obtain w' where run: "rename_cart_exfat sample_fs (io_return ()) [97, 98] [99, 100] ?w = Some (Inr (), w')"
    using sample_rename by blast
  have upper: "xf_upper sample_fs = (\<lambda>c. [c])" by (simp add: sample_fs_def)
  have "renames_in sample_fs sample_volume [97, 98] [99, 100] sample_root"
    using sample_names_root by (simp add: renames_in_def sample_to sample_paths sample_parent upper sample_fs_simps(3,11)
        exfat_parent_path_and_name_def str_trim_def trim_end_def is_whitespace_def slashes_def SLASH_def rsplit_once_def)
  moreover have "layout [EntrySet sample_set] (replicate 13 (replicate 32 0)) (dir_stream sample_volume sample_root)"
    using sample_layout by simp
  moreover have "list_all scalar (snd (cart_path_parts [99, 100]))" by (simp add: sample_to scalar_def)
  ultimately have "?content w' = sample_volume \<and> ?taken w' = {2, 3} \<and> \<not> (\<exists>u :: unit. (Inr () :: io_kind + unit) = Inr u) \<or>
     (\<exists>old. names_entry (xf_upper sample_fs) (xf_hadris sample_fs) sample_volume (xf_info sample_fs) [97, 98] old \<and>
        one_renamed ?content ?taken sample_fs sample_root [EntrySet sample_set] old [99, 100] True ?w w')"
    using rename_safe [OF mem_create.mounted_volume_axioms, of ?w "[97, 98]" "[99, 100]" sample_root "{2, 3}"
        "[EntrySet sample_set]" "replicate 13 (replicate 32 0)" "io_return ()"] sample_in sample_set_entry
    by (auto simp: does_def run sample_to kept_def io_return_def)
  then obtain old new where out: "names_entry (xf_upper sample_fs) (xf_hadris sample_fs) sample_volume (xf_info sample_fs) [97, 98] old"
    "renamed_to old [99, 100] new"
    "rename_outcome ?content ?taken sample_fs sample_root [EntrySet sample_set] old new True ?w w'"
    by (auto simp: one_renamed_def)
  have listed: "listing [EntrySet sample_set] = [sample_entry]" using sample_set_entry by simp
  have "entries_of (dir_stream sample_volume sample_root) = [sample_entry]"
    using entries_of_layout [OF sample_layout] listed by simp
  moreover obtain dir name where "names_dir (xf_upper sample_fs) (xf_hadris sample_fs) sample_volume (xf_info sample_fs) [] dir"
    "find (\<lambda>e. fat_names_equal (xf_upper sample_fs) (xe_name e) name) (entries_of (dir_stream sample_volume dir)) = Some old"
    using out(1) by (auto simp: names_entry_def sample_paths split: prod.splits)
  moreover from this(1) have "dir = sample_root"
    using names_dir_unique [OF sample_names_root] by (simp add: upper sample_fs_simps(3,11))
  ultimately have old: "old = sample_entry" by (simp split: if_splits)
  then have "mset (entries_of (dir_stream (snd w') sample_root)) = {#new#}"
    using out(3) listed by (auto simp: rename_outcome_def case_prod_unfold add_mset_commute)
  then have "entries_of (dir_stream (snd w') sample_root) = [new]" by (simp add: mset_single_iff_right)
  with run out(2) old show ?thesis by (auto simp: renamed_to_def)
qed

end
