(* ===== verification/Sd_Volume.thy ===== *)
theory Sd_Volume
  imports Exfat_Rename
begin

text \<open>
  Finding the volume on a card, from \<open>crates/multi64-sc64-sd/src/partition.rs\<close>: partition tables
  (\<open>detect_partition_start\<close>), boot sectors, and the length of the volume. \<open>partitioned\<close> says how a card
  can be formatted, independently of how the code looks.
\<close>

subsection \<open>Boot sectors and partition tables\<close>

definition legacy_mbr_first_partition_lba :: "octets \<Rightarrow> nat" where
  "legacy_mbr_first_partition_lba sector0 =
     (if length sector0 < 512 then 0
      else
        let boot_flag = sector0 ! 0x1BE;
            part_type = sector0 ! 0x1C2;
            lba = le32_at sector0 0x1C6
        in if (boot_flag = 0x00 \<or> boot_flag = 0x80) \<and> part_type \<noteq> 0 \<and> lba \<noteq> 0 then unat lba else 0)"

definition is_exfat_boot_sector :: "octets \<Rightarrow> bool" where
  "is_exfat_boot_sector sector \<longleftrightarrow> 11 \<le> length sector \<and> slice 3 11 sector = EXFAT_MAGIC"

text \<open>\<open>u8::is_power_of_two\<close>.\<close>

definition is_power_of_two8 :: "u8 \<Rightarrow> bool" where
  "is_power_of_two8 b \<longleftrightarrow> b \<noteq> 0 \<and> b AND (b - 1) = 0"

definition is_fat_boot_sector :: "octets \<Rightarrow> bool" where
  "is_fat_boot_sector s \<longleftrightarrow>
     512 \<le> length s \<and>
     (s ! 0 = 0xEB \<and> s ! 2 = 0x90 \<or> s ! 0 = 0xE9) \<and>
     le16_at s 0x0B \<in> {512, 1024, 2048, 4096} \<and>
     is_power_of_two8 (s ! 0x0D) \<and>
     le16_at s 0x0E \<noteq> 0 \<and>
     (s ! 0x10 = 1 \<or> s ! 0x10 = 2) \<and>
     (s ! 0x15 = 0xF0 \<or> 0xF8 \<le> s ! 0x15) \<and>
     (le16_at s 0x13 \<noteq> 0 \<or> le32_at s 0x20 \<noteq> 0) \<and>
     (le16_at s 0x16 \<noteq> 0 \<or> le32_at s 0x24 \<noteq> 0)"

definition EFI_PART :: octets where
  "EFI_PART = [0x45, 0x46, 0x49, 0x20, 0x50, 0x41, 0x52, 0x54]"

definition detect_partition_start :: "octets \<Rightarrow> (nat \<Rightarrow> ('w, octets) io) \<Rightarrow> ('w, nat) io" where
  "detect_partition_start sector0 read_sector =
     (if length sector0 < 512 then io_return 0
      else if is_exfat_boot_sector sector0 \<or> is_fat_boot_sector sector0 then io_return 0
      else if sector0 ! 510 \<noteq> 0x55 \<or> sector0 ! 511 \<noteq> 0xAA then io_return 0
      else if sector0 ! 0x1C2 = 0xEE then
        io_bind (read_sector 1) (\<lambda>gpt_hdr.
          if slice 0 8 gpt_hdr \<noteq> EFI_PART then io_return (legacy_mbr_first_partition_lba sector0)
          else
            io_bind (read_sector (unat (le64_at gpt_hdr 0x48))) (\<lambda>pe.
              let start_lba = unat (le64_at pe 0x20)
              in if start_lba = 0 then io_return (legacy_mbr_first_partition_lba sector0)
                 else io_return start_lba))
      else io_return (legacy_mbr_first_partition_lba sector0))"

definition exfat_partition_byte_length :: "octets \<Rightarrow> io_kind + nat" where
  "exfat_partition_byte_length sector =
     (if length sector < 0x6E then Inl InvalidData
      else
        let bps_shift = unat (sector ! 0x6C)
        in if \<not> (9 \<le> bps_shift \<and> bps_shift \<le> 12) then Inl InvalidData
           else
             let bytes_per_sector = 2 ^ bps_shift;
                 volume_length = unat (le64_at sector 0x48)
             in if volume_length * bytes_per_sector < 2 ^ 64 then Inr (volume_length * bytes_per_sector)
                else Inl InvalidData)"

definition fat_partition_byte_length :: "octets \<Rightarrow> io_kind + nat" where
  "fat_partition_byte_length bpb =
     (let bps = unat (le16_at bpb 0x0B) in
      if bps = 0 \<or> bps mod 512 \<noteq> 0 then Inl InvalidData
      else
        let t16 = unat (le16_at bpb 0x13);
            t32 = unat (le32_at bpb 0x20);
            total' = (if t16 \<noteq> 0 then t16 else t32)
        in Inr (total' * bps))"

definition partition_volume_bytes :: "octets \<Rightarrow> io_kind + nat" where
  "partition_volume_bytes bpb =
     (if length bpb < 512 then Inl InvalidData
      else if is_exfat_boot_sector bpb then exfat_partition_byte_length bpb
      else fat_partition_byte_length bpb)"

text \<open>The probe both sessions make when they open: where the volume starts, whether it is exFAT, and its
  length.\<close>

definition probe_volume :: "(nat \<Rightarrow> ('w, octets) io) \<Rightarrow> ('w, nat \<times> bool \<times> nat) io" where
  "probe_volume read_sector =
     io_bind (read_sector 0) (\<lambda>s0.
     io_bind (detect_partition_start s0 read_sector) (\<lambda>part_start.
     io_bind (read_sector part_start) (\<lambda>bpb.
     io_bind (io_of (partition_volume_bytes bpb)) (\<lambda>part_bytes.
       io_return (part_start, is_exfat_boot_sector bpb, part_bytes)))))"

subsection \<open>Cards and their volumes\<close>

text \<open>How a card can be formatted, read from its bytes: a volume without a partition table, the first
  entry of an MBR, or the first entry of a GPT behind a protective MBR. A volume's own boot sector ends
  in \<open>55 AA\<close> as an MBR does.\<close>

abbreviation sector_at :: "(nat \<Rightarrow> u8) \<Rightarrow> nat \<Rightarrow> octets" where
  "sector_at f lba \<equiv> bytes_at f (lba * SECTOR_BYTES) 512"

definition is_volume :: "octets \<Rightarrow> bool" where
  "is_volume s \<longleftrightarrow> is_exfat_boot_sector s \<or> is_fat_boot_sector s"

definition is_mbr :: "octets \<Rightarrow> bool" where
  "is_mbr s \<longleftrightarrow> \<not> is_volume s \<and> s ! 510 = 0x55 \<and> s ! 511 = 0xAA"

inductive partitioned :: "(nat \<Rightarrow> u8) \<Rightarrow> nat \<Rightarrow> bool" for f where
  no_table: "is_volume (sector_at f 0) \<Longrightarrow> partitioned f 0"
| mbr: "is_mbr (sector_at f 0) \<Longrightarrow> f 0x1BE \<in> {0x00, 0x80} \<Longrightarrow> f 0x1C2 \<notin> {0, 0xEE} \<Longrightarrow>
    lba = le32_at (sector_at f 0) 0x1C6 \<Longrightarrow> lba \<noteq> 0 \<Longrightarrow> partitioned f (unat lba)"
| gpt: "is_mbr (sector_at f 0) \<Longrightarrow> f 0x1C2 = 0xEE \<Longrightarrow> slice 0 8 (sector_at f 1) = EFI_PART \<Longrightarrow>
    entries = le64_at (sector_at f 1) 0x48 \<Longrightarrow>
    start = le64_at (sector_at f (unat entries)) 0x20 \<Longrightarrow> start \<noteq> 0 \<Longrightarrow> partitioned f (unat start)"

text \<open>The length a volume's boot sector gives it.\<close>

definition volume_bytes :: "octets \<Rightarrow> nat" where
  "volume_bytes s =
     (if is_exfat_boot_sector s then unat (le64_at s 0x48) * 2 ^ unat (s ! 0x6C)
      else (if le16_at s 0x13 \<noteq> 0 then unat (le16_at s 0x13) else unat (le32_at s 0x20)) * unat (le16_at s 0x0B))"

lemma detect_gpt:
  assumes "length s = 512" "is_mbr s" "s ! 0x1C2 = 0xEE"
  shows "detect_partition_start s read_sector = io_bind (read_sector 1) (\<lambda>gpt_hdr.
          if slice 0 8 gpt_hdr \<noteq> EFI_PART then io_return (legacy_mbr_first_partition_lba s)
          else
            io_bind (read_sector (unat (le64_at gpt_hdr 0x48))) (\<lambda>pe.
              let start_lba = unat (le64_at pe 0x20)
              in if start_lba = 0 then io_return (legacy_mbr_first_partition_lba s)
                 else io_return start_lba))"
  using assms by (simp add: detect_partition_start_def is_mbr_def is_volume_def)

lemma detect_reads:
  assumes "\<And>lba w. ok w \<Longrightarrow> reads ok content w (read_sector lba) (\<lambda>bs. bs = sector_at (content w) lba)"
    and "ok w" "partitioned (content w) start"
  shows "reads ok content w (detect_partition_start (sector_at (content w) 0) read_sector) (\<lambda>v. v = start)"
  using assms(3)
proof (cases rule: partitioned.cases)
  case no_table
  then show ?thesis using assms(2)
    by (auto simp: detect_partition_start_def is_volume_def intro!: reads_intro)
next
  case (mbr lba)
  then have "detect_partition_start (sector_at (content w) 0) read_sector = io_return start"
    by (auto simp: detect_partition_start_def is_mbr_def is_volume_def legacy_mbr_first_partition_lba_def Let_def)
  then show ?thesis using assms(2) by (auto intro!: reads_intro)
next
  case (gpt entries first)
  let ?f = "content w"
  have start: "unat (le64_at (sector_at ?f (unat entries)) 0x20) = start" "start \<noteq> 0"
    using gpt by (auto simp: unat_eq_0)
  have "reads ok content w (io_bind (read_sector 1) (\<lambda>gpt_hdr.
          if slice 0 8 gpt_hdr \<noteq> EFI_PART then io_return (legacy_mbr_first_partition_lba (sector_at ?f 0))
          else
            io_bind (read_sector (unat (le64_at gpt_hdr 0x48))) (\<lambda>pe.
              let start_lba = unat (le64_at pe 0x20)
              in if start_lba = 0 then io_return (legacy_mbr_first_partition_lba (sector_at ?f 0))
                 else io_return start_lba))) (\<lambda>v. v = start)"
  proof (rule reads_bind [OF assms(1) [OF assms(2)]])
    fix hdr w1 assume w1: "ok w1" "content w1 = ?f" "hdr = sector_at ?f 1"
    have "reads ok content w1 (io_bind (read_sector (unat entries)) (\<lambda>pe.
              let start_lba = unat (le64_at pe 0x20)
              in if start_lba = 0 then io_return (legacy_mbr_first_partition_lba (sector_at ?f 0))
                 else io_return start_lba)) (\<lambda>v. v = start)"
      by (rule reads_bind [OF assms(1) [OF w1(1)]]) (use w1 start in \<open>auto simp: Let_def intro!: reads_intro\<close>)
    then show "reads ok content w1 (if slice 0 8 hdr \<noteq> EFI_PART then io_return (legacy_mbr_first_partition_lba (sector_at ?f 0))
          else
            io_bind (read_sector (unat (le64_at hdr 0x48))) (\<lambda>pe.
              let start_lba = unat (le64_at pe 0x20)
              in if start_lba = 0 then io_return (legacy_mbr_first_partition_lba (sector_at ?f 0))
                 else io_return start_lba)) (\<lambda>v. v = start)"
      using gpt w1 by simp
  qed
  moreover have "sector_at ?f 0 ! 0x1C2 = 0xEE" using gpt by simp
  ultimately show ?thesis using gpt detect_gpt [of "sector_at ?f 0" read_sector] by (simp only: length_bytes_at)
qed

lemma volume_bytes_of:
  assumes "partition_volume_bytes s = Inr n"
  shows "n = volume_bytes s" "n < 2 ^ 64"
proof -
  show n: "n = volume_bytes s"
    using assms
    by (auto simp: partition_volume_bytes_def exfat_partition_byte_length_def fat_partition_byte_length_def
        volume_bytes_def Let_def unat_eq_0 split: if_splits)
  show "n < 2 ^ 64"
  proof (cases "is_exfat_boot_sector s")
    case True
    with assms show ?thesis
      by (auto simp: partition_volume_bytes_def exfat_partition_byte_length_def Let_def split: if_splits)
  next
    case False
    have "unat (le16_at s 0x0B) < 2 ^ 16" "unat (le16_at s 0x13) < 2 ^ 16" "unat (le32_at s 0x20) < 2 ^ 32"
      using unsigned_less [of "le16_at s 0x0B"] unsigned_less [of "le16_at s 0x13"] unsigned_less [of "le32_at s 0x20"]
      by simp_all
    then have "(if le16_at s 0x13 \<noteq> 0 then unat (le16_at s 0x13) else unat (le32_at s 0x20)) * unat (le16_at s 0x0B) \<le> 2 ^ 32 * 2 ^ 16"
      by (intro mult_le_mono) auto
    with False n show ?thesis by (simp add: volume_bytes_def)
  qed
qed

lemma probe_reads:
  assumes "\<And>lba w. ok w \<Longrightarrow> reads ok content w (read_sector lba) (\<lambda>bs. bs = sector_at (content w) lba)"
    and "ok w" "partitioned (content w) start"
  shows "reads ok content w (probe_volume read_sector)
    (\<lambda>v. v = (start, is_exfat_boot_sector (sector_at (content w) start), volume_bytes (sector_at (content w) start)) \<and>
      snd (snd v) < 2 ^ 64)"
  unfolding probe_volume_def
proof (rule reads_bind [OF assms(1) [OF assms(2)]])
  fix s0 w1 assume w1: "ok w1" "content w1 = content w" "s0 = sector_at (content w) 0"
  show "reads ok content w1 (io_bind (detect_partition_start s0 read_sector) (\<lambda>part_start.
     io_bind (read_sector part_start) (\<lambda>bpb.
     io_bind (io_of (partition_volume_bytes bpb)) (\<lambda>part_bytes.
       io_return (part_start, is_exfat_boot_sector bpb, part_bytes)))))
    (\<lambda>v. v = (start, is_exfat_boot_sector (sector_at (content w) start), volume_bytes (sector_at (content w) start)) \<and>
      snd (snd v) < 2 ^ 64)"
    unfolding w1(3) w1(2) [symmetric]
  proof (rule reads_bind [OF detect_reads [OF assms(1) w1(1)]])
    show "partitioned (content w1) start" using assms(3) w1(2) by simp
    fix s w2 assume w2: "ok w2" "content w2 = content w1" "s = start"
    show "reads ok content w2 (io_bind (read_sector s) (\<lambda>bpb.
     io_bind (io_of (partition_volume_bytes bpb)) (\<lambda>part_bytes.
       io_return (s, is_exfat_boot_sector bpb, part_bytes))))
    (\<lambda>v. v = (start, is_exfat_boot_sector (sector_at (content w1) start), volume_bytes (sector_at (content w1) start)) \<and>
      snd (snd v) < 2 ^ 64)"
      unfolding w2(3) w2(2) [symmetric]
      by (rule reads_bind [OF assms(1) [OF w2(1)]], rule reads_bind
          [where Q = "\<lambda>n. n = volume_bytes (sector_at (content w2) start) \<and> n < 2 ^ 64", OF reads_of])
        (auto dest: volume_bytes_of intro!: reads_intro)
  qed
qed

subsection \<open>The volume is found\<close>


text \<open>A card with a GPT: the header in sector 1, its entries in sector 2, an exFAT boot sector in sector 3.\<close>

definition mem_sectors :: "(nat \<Rightarrow> u8) sd_read" where
  "mem_sectors lba n f = Some (Inr (bytes_at f (lba * SECTOR_BYTES) n), f)"

definition mem_store :: "(nat \<Rightarrow> u8) sd_write" where
  "mem_store lba bs f = Some (Inr (), overlay f (lba * SECTOR_BYTES) bs)"

interpretation mem_card: sector_transport "\<lambda>_. True" "\<lambda>f. f" mem_sectors mem_store
proof unfold_locales
  fix lba a :: nat and bytes :: octets and w w' res
  assume "mem_store lba bytes w = Some (res, w')"
    and "a < lba * SECTOR_BYTES \<or> cache_end lba (length bytes) * SECTOR_BYTES \<le> a"
  then show "w' a = w a" using cache_end_covers [of lba "length bytes"]
    by (auto simp: mem_store_def overlay_def)
qed (auto simp: mem_sectors_def mem_store_def overlay_def)

definition sample_card :: "nat \<Rightarrow> u8" where
  "sample_card = bytes_of_pieces
     [(1644, [9]), (1608, [16]), (1539, EXFAT_MAGIC), (1056, [3]), (584, [2]), (512, EFI_PART),
      (510, [0x55, 0xAA]), (0x1C2, [0xEE])]"

lemma bytes_at_8: "bytes_at f a 8 = [f a, f (a + 1), f (a + 2), f (a + 3), f (a + 4), f (a + 5), f (a + 6), f (a + 7)]"
  by (rule bytes_at_small)

lemmas sample_card_simps = sample_card_def slice_bytes_at bytes_at_8 get_at_def EXFAT_MAGIC_def EFI_PART_def
  SECTOR_BYTES_def le64_at_def

lemma sample_card_sectors:
  "is_mbr (sector_at sample_card 0)" "sample_card 0x1C2 = 0xEE" "slice 0 8 (sector_at sample_card 1) = EFI_PART"
  "le64_at (sector_at sample_card 1) 0x48 = 2" "le64_at (sector_at sample_card 2) 0x20 = 3"
  "is_exfat_boot_sector (sector_at sample_card 3)" "unat (sector_at sample_card 3 ! 0x6C) = 9"
  "le64_at (sector_at sample_card 3) 0x48 = 16"
  by (simp_all add: sample_card_simps is_mbr_def is_volume_def is_exfat_boot_sector_def is_fat_boot_sector_def)

lemmas sample_card_eqs = sample_card_sectors [simplified]


end
