(* ===== verification/Fat_Files.thy ===== *)
theory Fat_Files
  imports Exfat_Rename
begin

text \<open>
  Files on a FAT volume, from \<open>crates/multi64-sc64-sd/src/partition.rs\<close>: writing a file under a temporary
  name until it is complete (\<open>write_file_fat_streaming_impl\<close>), folders, renaming, deleting, reading and
  listing. The file system is the \<open>fatfs\<close> crate: its methods are the record \<open>fatfs\<close>, and what is
  relied on about them is \<open>fat_laws\<close>.
\<close>

subsection \<open>The file system\<close>

record fat_item =
  fi_name :: rstring
  fi_is_dir :: bool
  fi_len :: nat
  fi_hidden :: bool

text \<open>Folders and open files are handles \<open>'h\<close> and \<open>'f\<close>. A handle that goes out of scope is dropped, which
  may still write; a failure of that is only logged.\<close>

record ('w, 'h, 'f) fatfs =
  ff_mount :: "('w, unit) io"
  ff_unmount :: "('w, unit) io"
  ff_drop_fs :: "('w, unit) io"
  ff_root :: 'h
  ff_open_dir :: "'h \<Rightarrow> rstring \<Rightarrow> ('w, 'h) io"
  ff_create_dir :: "'h \<Rightarrow> rstring \<Rightarrow> ('w, 'h) io"
  ff_open_file :: "'h \<Rightarrow> rstring \<Rightarrow> ('w, 'f) io"
  ff_create_file :: "'h \<Rightarrow> rstring \<Rightarrow> ('w, 'f) io"
  ff_remove :: "'h \<Rightarrow> rstring \<Rightarrow> ('w, unit) io"
  ff_rename :: "'h \<Rightarrow> rstring \<Rightarrow> rstring \<Rightarrow> ('w, unit) io"
  ff_iter :: "'h \<Rightarrow> 'w \<Rightarrow> ((io_kind + fat_item) list \<times> 'w) option"
  ff_truncate :: "'f \<Rightarrow> ('w, unit) io"
  ff_read :: "'f \<Rightarrow> nat \<Rightarrow> ('w, octets) io"
  ff_write_all :: "'f \<Rightarrow> octets \<Rightarrow> ('w, unit) io"
  ff_flush :: "'f \<Rightarrow> ('w, unit) io"
  ff_drop_file :: "'f \<Rightarrow> ('w, unit) io"

text \<open>A call whose result is ignored, and one made whatever another's result was.\<close>

definition io_ignore :: "('w, 'a) io \<Rightarrow> ('w, unit) io" where
  "io_ignore m w = map_option (\<lambda>(_, w'). (Inr (), w')) (m w)"

definition io_finally :: "('w, 'a) io \<Rightarrow> ('w, 'b) io \<Rightarrow> ('w, 'a) io" where
  "io_finally m last' w =
     (case m w of
        None \<Rightarrow> None
      | Some (r, w') \<Rightarrow> map_option (\<lambda>(_, w''). (r, w'')) (last' w'))"

definition io_on_error :: "('w, 'a) io \<Rightarrow> ('w, 'b) io \<Rightarrow> ('w, 'a) io" where
  "io_on_error m undo w =
     (case m w of
        Some (Inl e, w') \<Rightarrow> map_option (\<lambda>(_, w''). (Inl e, w'')) (undo w')
      | result \<Rightarrow> result)"

lemma does_ignore: "does m w (\<lambda>_. Q (Inr ())) \<Longrightarrow> does (io_ignore m) w Q"
  by (auto simp: does_def io_ignore_def)

lemma does_finally:
  assumes "does m w P" and "\<And>r w'. P r w' \<Longrightarrow> does last' w' (\<lambda>_. Q r)"
  shows "does (io_finally m last') w Q"
  using assms by (fastforce simp: does_def io_finally_def)

lemma does_on_error:
  assumes "does m w P" and "\<And>v w'. P (Inr v) w' \<Longrightarrow> Q (Inr v) w'"
    and "\<And>e w'. P (Inl e) w' \<Longrightarrow> does undo w' (\<lambda>_. Q (Inl e))"
  shows "does (io_on_error m undo) w Q"
proof -
  from assms(1) obtain r w' where r: "m w = Some (r, w')" "P r w'" by (auto simp: does_def)
  show ?thesis
  proof (cases r)
    case (Inl e)
    with r assms(3) show ?thesis by (fastforce simp: does_def io_on_error_def)
  next
    case (Inr v)
    with r assms(2) show ?thesis by (simp add: does_def io_on_error_def)
  qed
qed

text \<open>A mounted volume is unmounted at the end, and dropped if something failed before.\<close>

definition fat_mounted :: "('w, 'h, 'f) fatfs \<Rightarrow> ('d \<times> 'w, unit) io \<Rightarrow> ('d \<times> 'w, unit) io" where
  "fat_mounted F body =
     io_bind (on_volume (ff_mount F)) (\<lambda>_.
     io_bind (io_on_error body (on_volume (ff_drop_fs F))) (\<lambda>_. on_volume (ff_unmount F)))"

subsection \<open>Temporary names\<close>

definition len_utf8 :: "nat \<Rightarrow> nat" where
  "len_utf8 c = (if c < 0x80 then 1 else if c < 0x800 then 2 else if c < 0x10000 then 3 else 4)"

fun take_fitting :: "nat \<Rightarrow> nat \<Rightarrow> rstring \<Rightarrow> rstring" where
  "take_fitting room bytes [] = []"
| "take_fitting room bytes (c # cs) =
     (if bytes + len_utf8 c \<le> room then c # take_fitting room (bytes + len_utf8 c) cs else [])"

definition fat_temp_name :: "rstring \<Rightarrow> rstring \<Rightarrow> rstring" where
  "fat_temp_name prefix name = prefix @ take_fitting (255 - sum_list (map len_utf8 prefix)) 0 name"

text \<open>\<open>~multi64-replace-\<close> and \<open>~multi64-rename-\<close>.\<close>

definition REPLACE_PREFIX :: rstring where
  "REPLACE_PREFIX = [0x7E, 0x6D, 0x75, 0x6C, 0x74, 0x69, 0x36, 0x34, 0x2D, 0x72, 0x65, 0x70, 0x6C, 0x61, 0x63, 0x65, 0x2D]"

definition RENAME_PREFIX :: rstring where
  "RENAME_PREFIX = [0x7E, 0x6D, 0x75, 0x6C, 0x74, 0x69, 0x36, 0x34, 0x2D, 0x72, 0x65, 0x6E, 0x61, 0x6D, 0x65, 0x2D]"

definition fat_replace_temp_name :: "rstring \<Rightarrow> rstring" where
  "fat_replace_temp_name name = fat_temp_name REPLACE_PREFIX name"

definition fat_rename_temp_name :: "rstring \<Rightarrow> rstring" where
  "fat_rename_temp_name name = fat_temp_name RENAME_PREFIX name"

lemma take_fitting_bytes: "bytes \<le> room \<Longrightarrow> bytes + sum_list (map len_utf8 (take_fitting room bytes s)) \<le> room"
proof (induction s arbitrary: bytes)
  case (Cons c s)
  then show ?case by (simp add: add.assoc) (metis add.assoc)
qed simp

text \<open>A temporary name fits the 255 bytes a FAT long name may have.\<close>

lemma temp_names_fit:
  "sum_list (map len_utf8 (fat_replace_temp_name name)) \<le> 255"
  "sum_list (map len_utf8 (fat_rename_temp_name name)) \<le> 255"
  using take_fitting_bytes [of 0 "255 - 17" name] take_fitting_bytes [of 0 "255 - 16" name]
  by (simp_all add: fat_replace_temp_name_def fat_rename_temp_name_def fat_temp_name_def REPLACE_PREFIX_def
      RENAME_PREFIX_def len_utf8_def)

subsection \<open>Writing a file\<close>

function fat_copy ::
  "('w, 'h, 'f) fatfs \<Rightarrow> 'f \<Rightarrow> 'd source \<Rightarrow> 'd progress \<Rightarrow> nat \<Rightarrow> nat \<Rightarrow> ('d \<times> 'w, nat) io" where
  "fat_copy F f src progress len written dw =
     (case on_source (src STREAM_CHUNK) dw of
        None \<Rightarrow> None
      | Some (Inl e, dw') \<Rightarrow> Some (Inl e, dw')
      | Some (Inr bs, dw') \<Rightarrow>
          if bs = [] then Some (Inr written, dw')
          else if len < written + length bs then Some (Inl InvalidData, dw')
          else
            io_bind (on_volume (ff_write_all F f bs)) (\<lambda>_.
            io_bind (on_source (goes_on progress (length bs))) (\<lambda>go.
              if go then fat_copy F f src progress len (written + length bs) else io_fail Interrupted)) dw')"
  by pat_completeness auto
termination
  by (relation "measure (\<lambda>(F, f, src, progress, len, written, dw). len - written)") (auto simp: neq_Nil_conv)

declare fat_copy.simps [simp del]

text \<open>The inner closure: create or open \<open>target\<close>, empty it, copy, and flush. The handle is dropped at its
  end.\<close>

definition fat_write_target ::
  "('w, 'h, 'f) fatfs \<Rightarrow> 'h \<Rightarrow> rstring \<Rightarrow> nat \<Rightarrow> 'd source \<Rightarrow> 'd progress \<Rightarrow> ('d \<times> 'w, unit) io" where
  "fat_write_target F dir target len src progress =
     io_bind (on_volume (ff_create_file F dir target)) (\<lambda>f.
       io_finally
         (io_bind (on_volume (ff_truncate F f)) (\<lambda>_.
          io_bind (fat_copy F f src progress len 0) (\<lambda>written.
            if written \<noteq> len then io_fail InvalidData else on_volume (ff_flush F f))))
         (on_volume (ff_drop_file F f)))"

text \<open>Whether the name is taken: only \<open>NotFound\<close> says that it is not.\<close>

definition fat_is_replacing :: "('w, 'h, 'f) fatfs \<Rightarrow> 'h \<Rightarrow> rstring \<Rightarrow> ('w, bool) io" where
  "fat_is_replacing F dir name w =
     (case ff_open_file F dir name w of
        None \<Rightarrow> None
      | Some (Inr f, w') \<Rightarrow> map_option (\<lambda>(_, w''). (Inr True, w'')) (ff_drop_file F f w')
      | Some (Inl e, w') \<Rightarrow> if e = NotFound then Some (Inr False, w') else Some (Inl e, w'))"

definition fat_write_in ::
  "('w, 'h, 'f) fatfs \<Rightarrow> 'h \<Rightarrow> rstring \<Rightarrow> nat \<Rightarrow> 'd source \<Rightarrow> 'd progress \<Rightarrow> ('d \<times> 'w, unit) io" where
  "fat_write_in F dir name len src progress =
     io_bind (on_volume (fat_is_replacing F dir name)) (\<lambda>replacing.
     io_bind
       (if replacing
        then io_bind (on_volume (io_ignore (ff_remove F dir (fat_replace_temp_name name))))
          (\<lambda>_. io_return (fat_replace_temp_name name))
        else io_return name) (\<lambda>target.
     io_bind
       (io_on_error (fat_write_target F dir target len src progress)
         (on_volume (io_ignore (ff_remove F dir target)))) (\<lambda>_.
       if replacing
       then io_bind (on_volume (ff_remove F dir name)) (\<lambda>_. on_volume (ff_rename F dir target name))
       else io_return ())))"

fun fat_open_or_create :: "('w, 'h, 'f) fatfs \<Rightarrow> 'h \<Rightarrow> rstring list \<Rightarrow> ('w, 'h) io" where
  "fat_open_or_create F dir [] w = Some (Inr dir, w)"
| "fat_open_or_create F dir (p # ps) w =
     (case ff_open_dir F dir p w of
        None \<Rightarrow> None
      | Some (Inr d, w') \<Rightarrow> fat_open_or_create F d ps w'
      | Some (Inl _, w') \<Rightarrow> io_bind (ff_create_dir F dir p) (\<lambda>d. fat_open_or_create F d ps) w')"

fun refuse_dot_names :: "rstring list \<Rightarrow> io_kind + unit" where
  "refuse_dot_names [] = Inr ()"
| "refuse_dot_names (p # ps) = bind_result (refuse_dot_name p) (\<lambda>_. refuse_dot_names ps)"

definition write_file_fat_streaming_impl ::
  "('w, 'h, 'f) fatfs \<Rightarrow> rstring \<Rightarrow> nat \<Rightarrow> 'd source \<Rightarrow> 'd progress \<Rightarrow> ('d \<times> 'w, unit) io" where
  "write_file_fat_streaming_impl F rel_path len src progress =
     fat_mounted F
       (let parts = segments rel_path in
        if parts = [] then io_fail InvalidInput
        else
          io_bind (io_of (refuse_dot_names parts)) (\<lambda>_.
          io_bind (on_volume (fat_open_or_create F (ff_root F) (butlast parts))) (\<lambda>dir.
            fat_write_in F dir (last parts) len src progress)))"

subsection \<open>Folders, names and reading\<close>

fun fat_make_dirs :: "('w, 'h, 'f) fatfs \<Rightarrow> 'h \<Rightarrow> rstring list \<Rightarrow> ('w, unit) io" where
  "fat_make_dirs F dir [] w = Some (Inr (), w)"
| "fat_make_dirs F dir (p # ps) w =
     (case refuse_dot_name p of
        Inl e \<Rightarrow> Some (Inl e, w)
      | Inr _ \<Rightarrow>
          (case ff_open_dir F dir p w of
             None \<Rightarrow> None
           | Some (Inr d, w') \<Rightarrow> fat_make_dirs F d ps w'
           | Some (Inl _, w') \<Rightarrow> io_bind (ff_create_dir F dir p) (\<lambda>d. fat_make_dirs F d ps) w'))"

definition fat_mounted' :: "('w, 'h, 'f) fatfs \<Rightarrow> ('w, unit) io \<Rightarrow> ('w, unit) io" where
  "fat_mounted' F body =
     io_bind (ff_mount F) (\<lambda>_.
     io_bind (io_on_error body (ff_drop_fs F)) (\<lambda>_. ff_unmount F))"

text \<open>A path without its leading slashes, and its names.\<close>

definition fat_trimmed :: "rstring \<Rightarrow> rstring" where
  "fat_trimmed path = dropWhile (\<lambda>c. c = SLASH) (slashes (str_trim path))"

definition fat_parts :: "rstring \<Rightarrow> rstring list" where
  "fat_parts path = segments (fat_trimmed path)"

definition mkdir_fat_impl :: "('w, 'h, 'f) fatfs \<Rightarrow> rstring \<Rightarrow> ('w, unit) io" where
  "mkdir_fat_impl F path = fat_mounted' F (fat_make_dirs F (ff_root F) (fat_parts path))"

fun fat_open_path :: "('w, 'h, 'f) fatfs \<Rightarrow> 'h \<Rightarrow> rstring list \<Rightarrow> ('w, 'h) io" where
  "fat_open_path F dir [] w = Some (Inr dir, w)"
| "fat_open_path F dir (p # ps) w = io_bind (ff_open_dir F dir p) (\<lambda>d. fat_open_path F d ps) w"

definition fat_rename_case_only_via ::
  "rstring \<Rightarrow> rstring \<Rightarrow> (rstring \<Rightarrow> rstring \<Rightarrow> ('w, unit) io) \<Rightarrow> ('w, unit) io" where
  "fat_rename_case_only_via name_from name_to rename =
     (let temp = fat_rename_temp_name name_from in
      io_bind (rename name_from temp) (\<lambda>_. io_on_error (rename temp name_to) (rename temp name_from)))"

definition rename_fat_impl ::
  "(nat \<Rightarrow> nat list) \<Rightarrow> ('w, 'h, 'f) fatfs \<Rightarrow> rstring \<Rightarrow> rstring \<Rightarrow> rstring \<Rightarrow> ('w, unit) io" where
  "rename_fat_impl upper F parent_path name_from name_to =
     fat_mounted' F
       (io_bind (fat_open_path F (ff_root F) (fat_parts parent_path)) (\<lambda>dir.
        io_bind (io_of (refuse_dot_name name_to)) (\<lambda>_.
          if name_from \<noteq> name_to \<and> fat_names_equal upper name_from name_to
          then fat_rename_case_only_via name_from name_to (ff_rename F dir)
          else ff_rename F dir name_from name_to)))"

text \<open>The names a listing gives, up to its first error.\<close>

fun fat_items :: "(io_kind + fat_item) list \<Rightarrow> io_kind + fat_item list" where
  "fat_items [] = Inr []"
| "fat_items (Inl e # rs) = Inl e"
| "fat_items (Inr i # rs) = bind_result (fat_items rs) (\<lambda>items. Inr (i # items))"

definition fat_read_dir :: "('w, 'h, 'f) fatfs \<Rightarrow> 'h \<Rightarrow> ('w, fat_item list) io" where
  "fat_read_dir F dir w = map_option (\<lambda>(rs, w'). (fat_items rs, w')) (ff_iter F dir w)"

definition not_dots :: "fat_item list \<Rightarrow> fat_item list" where
  "not_dots = filter (\<lambda>i. fi_name i \<noteq> [DOT] \<and> fi_name i \<noteq> [DOT, DOT])"

text \<open>Children first. A folder that is among its own children would be followed for ever.\<close>

partial_function (option) delete_fat_tree_recursive ::
  "('w, 'h, 'f) fatfs \<Rightarrow> rstring \<Rightarrow> 'w \<Rightarrow> ((io_kind + unit) \<times> 'w) option" where
  "delete_fat_tree_recursive F rel w =
     (case ff_open_dir F (ff_root F) rel w of
        None \<Rightarrow> None
      | Some (opened, w1) \<Rightarrow>
          (case opened of
             Inl _ \<Rightarrow> ff_remove F (ff_root F) rel w1
           | Inr dir \<Rightarrow>
               (case fat_read_dir F dir w1 of
                  None \<Rightarrow> None
                | Some (listed, w2) \<Rightarrow>
                    (case listed of
                       Inl e \<Rightarrow> Some (Inl e, w2)
                     | Inr items \<Rightarrow>
                         Option.bind
                           (io_each (\<lambda>n. delete_fat_tree_recursive F (rel @ SLASH # n))
                             (map fi_name (not_dots items)) w2)
                           (\<lambda>(deleted, w3).
                             case deleted of
                               Inl e \<Rightarrow> Some (Inl e, w3)
                             | Inr _ \<Rightarrow> ff_remove F (ff_root F) rel w3)))))"

definition remove_cart_path_fat_unified ::
  "('w, 'h, 'f) fatfs \<Rightarrow> ('w, unit) io \<Rightarrow> rstring \<Rightarrow> ('w, unit) io" where
  "remove_cart_path_fat_unified F flush_link_serial path =
     (case cart_rel_path_trimmed path of
        None \<Rightarrow> io_fail InvalidInput
      | Some normalized \<Rightarrow>
          io_bind (ff_mount F) (\<lambda>_.
          io_bind (io_on_error (delete_fat_tree_recursive F normalized) (ff_drop_fs F)) (\<lambda>_.
          io_bind (ff_unmount F) (\<lambda>_. flush_link_serial))))"

text \<open>Reading stops at the length the folder's entry gives; a chain that ends before is an error. The
  file's handle and the volume are dropped at the end.\<close>

function fat_copy_out ::
  "('w, 'h, 'f) fatfs \<Rightarrow> 'f \<Rightarrow> 'd sink \<Rightarrow> 'd progress \<Rightarrow> nat \<Rightarrow> nat \<Rightarrow> ('d \<times> 'w, unit) io" where
  "fat_copy_out F f out progress len copied =
     (if copied < len then
        io_bind (on_volume (ff_read F f (min STREAM_CHUNK (len - copied)))) (\<lambda>bs.
          if bs = [] then io_fail InvalidData
          else
            io_bind (hand_over out progress bs) (\<lambda>_.
              fat_copy_out F f out progress len (copied + length bs)))
      else io_return ())"
  by pat_completeness auto
termination
  by (relation "measure (\<lambda>(F, f, out, progress, len, copied). len - copied)") (auto simp: neq_Nil_conv)

declare fat_copy_out.simps [simp del]

definition read_file_fat_streaming ::
  "('w, 'h, 'f) fatfs \<Rightarrow> rstring \<Rightarrow> 'd sink \<Rightarrow> 'd progress \<Rightarrow> nat \<Rightarrow> ('d \<times> 'w, unit) io" where
  "read_file_fat_streaming F path out progress len =
     io_bind (on_volume (ff_mount F)) (\<lambda>_.
     io_finally
       (let parts = fat_parts path in
        if parts = [] then io_fail InvalidInput
        else
          io_bind (on_volume (fat_open_path F (ff_root F) (butlast parts))) (\<lambda>dir.
          io_bind (on_volume (ff_open_file F dir (last parts))) (\<lambda>f.
            io_finally (fat_copy_out F f out progress len 0) (on_volume (ff_drop_file F f)))))
       (on_volume (ff_drop_fs F)))"

definition fat_row :: "rstring \<Rightarrow> fat_item \<Rightarrow> session_entry" where
  "fat_row path_prefix i =
     \<lparr>se_name = fi_name i, se_path = path_prefix @ fi_name i, se_is_dir = fi_is_dir i,
      se_size = (if fi_is_dir i then 0 else fi_len i),
      se_hidden = (fi_hidden i \<or> (fi_name i \<noteq> [] \<and> hd (fi_name i) = DOT))\<rparr>"

definition list_dir_fat ::
  "(rstring \<Rightarrow> rstring) \<Rightarrow> ('w, 'h, 'f) fatfs \<Rightarrow> rstring \<Rightarrow> ('w, session_entry list) io" where
  "list_dir_fat lower F path =
     io_bind (ff_mount F) (\<lambda>_.
     io_finally
       (let trimmed = fat_trimmed path;
            path_prefix = (if trimmed = [] then [] else trimmed @ [SLASH])
        in io_bind (if trimmed = [] then io_return (ff_root F) else ff_open_dir F (ff_root F) trimmed) (\<lambda>dir.
           io_bind (fat_read_dir F dir) (\<lambda>items.
             io_return (sort_session_entries lower (map (fat_row path_prefix) (not_dots items))))))
       (ff_drop_fs F))"

end
