(* ===== verification/Fat_Replace.thy ===== *)
theory Fat_Replace
  imports Fat_Files
begin

text \<open>
  Replacing a file on a FAT volume keeps the original until its copy is complete
  (\<open>write_file_fat_streaming_impl\<close>). \<open>fat_volume\<close> is what is relied on about the \<open>fatfs\<close> crate: which
  files each of its calls may change. A call that fails may have changed the files it names in any way.
\<close>

subsection \<open>The contract\<close>

definition alters :: "('w \<Rightarrow> bool) \<Rightarrow> ('w \<Rightarrow> 'p \<Rightarrow> octets option) \<Rightarrow> 'p set \<Rightarrow> 'w \<Rightarrow> 'w \<Rightarrow> bool" where
  "alters ok files K w w' \<longleftrightarrow> ok w' \<and> (\<forall>k. k \<notin> K \<longrightarrow> files w' k = files w k)"

text \<open>\<open>files\<close> is the data of every file of the volume, \<open>place\<close> the folder of a handle, \<open>sub\<close> the entry of a
  folder by its name in either case, and \<open>cur\<close> what an open file was given since it was emptied and
  whether all of it is in the volume.\<close>

locale fat_volume =
  fixes ok :: "'w \<Rightarrow> bool"
    and files :: "'w \<Rightarrow> 'p \<Rightarrow> octets option"
    and cur :: "'w \<Rightarrow> 'f \<Rightarrow> ('p \<times> octets \<times> bool) option"
    and place :: "'h \<Rightarrow> 'p"
    and sub :: "'p \<Rightarrow> rstring \<Rightarrow> 'p"
    and F :: "('w, 'h, 'f) fatfs"
  assumes mounts: "ok w \<Longrightarrow> does (ff_mount F) w (\<lambda>_. alters ok files {} w)"
    and unmounts: "ok w \<Longrightarrow> does (ff_unmount F) w (\<lambda>_. alters ok files {} w)"
    and drops_fs: "ok w \<Longrightarrow> does (ff_drop_fs F) w (\<lambda>_. alters ok files {} w)"
    and opens_dir: "ok w \<Longrightarrow> does (ff_open_dir F h n) w
      (\<lambda>r w'. alters ok files {} w w' \<and> (\<forall>d. r = Inr d \<longrightarrow> place d = sub (place h) n))"
    and creates_dir: "ok w \<Longrightarrow> does (ff_create_dir F h n) w
      (\<lambda>r w'. alters ok files {} w w' \<and> (\<forall>d. r = Inr d \<longrightarrow> place d = sub (place h) n))"
    and opens_file: "ok w \<Longrightarrow> does (ff_open_file F h n) w
      (\<lambda>r w'. alters ok files {} w w' \<and>
        (case r of Inl e \<Rightarrow> e = NotFound \<longrightarrow> files w (sub (place h) n) = None
         | Inr f \<Rightarrow> files w (sub (place h) n) \<noteq> None \<and> (\<exists>bs. cur w' f = Some (sub (place h) n, bs, True))))"
    and creates_file: "ok w \<Longrightarrow> does (ff_create_file F h n) w
      (\<lambda>r w'. alters ok files {sub (place h) n} w w' \<and>
        (\<forall>f. r = Inr f \<longrightarrow> (\<exists>bs b. cur w' f = Some (sub (place h) n, bs, b))))"
    and removes: "ok w \<Longrightarrow> does (ff_remove F h n) w
      (\<lambda>r w'. alters ok files {sub (place h) n} w w' \<and> (r = Inr () \<longrightarrow> files w' (sub (place h) n) = None))"
    and renames: "ok w \<Longrightarrow> does (ff_rename F h n m) w
      (\<lambda>r w'. alters ok files {sub (place h) n, sub (place h) m} w w' \<and>
        (r = Inr () \<longrightarrow> files w' (sub (place h) m) = files w (sub (place h) n) \<and>
           (sub (place h) n \<noteq> sub (place h) m \<longrightarrow> files w' (sub (place h) n) = None)))"
    and truncates: "ok w \<Longrightarrow> cur w f = Some (k, bs, b) \<Longrightarrow> does (ff_truncate F f) w
      (\<lambda>r w'. alters ok files {k} w w' \<and> (\<exists>bs' b'. cur w' f = Some (k, bs', b')) \<and>
        (r = Inr () \<longrightarrow> (\<exists>b'. cur w' f = Some (k, [], b'))))"
    and writes: "ok w \<Longrightarrow> cur w f = Some (k, bs, b) \<Longrightarrow> does (ff_write_all F f new) w
      (\<lambda>r w'. alters ok files {k} w w' \<and> (\<exists>bs' b'. cur w' f = Some (k, bs', b')) \<and>
        (r = Inr () \<longrightarrow> (\<exists>b'. cur w' f = Some (k, bs @ new, b'))))"
    and flushes: "ok w \<Longrightarrow> cur w f = Some (k, bs, b) \<Longrightarrow> does (ff_flush F f) w
      (\<lambda>r w'. alters ok files {k} w w' \<and> (\<exists>bs' b'. cur w' f = Some (k, bs', b')) \<and>
        (r = Inr () \<longrightarrow> cur w' f = Some (k, bs, True) \<and> files w' k = Some bs))"
    and drops_file: "ok w \<Longrightarrow> cur w f = Some (k, bs, b) \<Longrightarrow> does (ff_drop_file F f) w
      (\<lambda>_ w'. alters ok files {k} w w' \<and> (b \<longrightarrow> files w' k = files w k))"

text \<open>The copy is complete under the temporary name, the original is whole, and then one of the last two
  steps fails.\<close>

definition swap_failed ::
  "('w \<Rightarrow> bool) \<Rightarrow> ('w \<Rightarrow> 'p \<Rightarrow> octets option) \<Rightarrow> ('w, 'h, 'f) fatfs \<Rightarrow> 'h \<Rightarrow> rstring \<Rightarrow> 'p \<Rightarrow> octets \<Rightarrow> 'w \<Rightarrow> 'w \<Rightarrow> bool" where
  "swap_failed ok files F h name temp data w w' \<longleftrightarrow>
     (\<exists>w1 w2 e. alters ok files {temp} w w1 \<and> files w1 temp = Some data \<and>
        io_bind (ff_remove F h name) (\<lambda>_. ff_rename F h (fat_replace_temp_name name) name) w1 = Some (Inl e, w2) \<and>
        alters ok files {} w2 w')"

text \<open>What a write leaves: the file complete under its name, or what the name held before; beside the name
  only the temporary one is touched.\<close>

definition replaced ::
  "('w \<Rightarrow> bool) \<Rightarrow> ('w \<Rightarrow> 'p \<Rightarrow> octets option) \<Rightarrow> ('w, 'h, 'f) fatfs \<Rightarrow> 'h \<Rightarrow> rstring \<Rightarrow> 'p \<Rightarrow> 'p \<Rightarrow> nat \<Rightarrow>
     octets \<Rightarrow> 'w \<Rightarrow> io_kind + unit \<Rightarrow> 'w \<Rightarrow> bool" where
  "replaced ok files F h name k t len data w r w' \<longleftrightarrow>
     alters ok files {k, t} w w' \<and>
     (case r of
        Inr _ \<Rightarrow> files w' k = Some data \<and> length data = len \<and> (files w' t = None \<or> files w' t = files w t)
      | Inl e \<Rightarrow> files w k \<noteq> None \<longrightarrow> files w' k = files w k \<or> swap_failed ok files F h name t data w w')"

subsection \<open>The steps\<close>

lemma alters_trans: "alters ok files K w w1 \<Longrightarrow> alters ok files L w1 w2 \<Longrightarrow> K \<subseteq> M \<Longrightarrow> L \<subseteq> M \<Longrightarrow> alters ok files M w w2"
  unfolding alters_def by (metis subsetD)

lemma alters_ok: "alters ok files K w w' \<Longrightarrow> ok w'"
  by (simp add: alters_def)

lemma alters_refl: "ok w \<Longrightarrow> alters ok files K w w"
  by (simp add: alters_def)

lemma alters_kept: "alters ok files K w w' \<Longrightarrow> k \<notin> K \<Longrightarrow> files w' k = files w k"
  by (simp add: alters_def)

locale fat_write = fat_volume ok files cur place sub F + copy_source src progress rest
  for ok :: "'w \<Rightarrow> bool" and files :: "'w \<Rightarrow> 'p \<Rightarrow> octets option" and cur and place :: "'h \<Rightarrow> 'p" and sub
    and F :: "('w, 'h, 'f) fatfs" and src :: "'d source" and progress and rest
begin

abbreviation "altered \<equiv> alters ok files"

text \<open>The copy loop appends to the file what the source gives, and ends well only when the source has ended.\<close>

lemma copies:
  assumes "ok w" "cur w f = Some (k, bs, b)" "length bs = written"
  shows "does (fat_copy F f src progress len written) (d, w) (\<lambda>r (d', w'). altered {k} w w' \<and>
    (\<exists>bs' b'. cur w' f = Some (k, bs', b')) \<and>
    (\<forall>n. r = Inr n \<longrightarrow> n = written + length (rest d) \<and> (\<exists>b'. cur w' f = Some (k, bs @ rest d, b'))))"
  using assms
proof (induction "len - written" arbitrary: w bs b d written rule: less_induct)
  case less
  let ?Q = "\<lambda>r (d', w'). altered {k} w w' \<and> (\<exists>bs' b'. cur w' f = Some (k, bs', b')) \<and>
    (\<forall>n. r = Inr n \<longrightarrow> n = written + length (rest d) \<and> (\<exists>b'. cur w' f = Some (k, bs @ rest d, b')))"
  obtain r d1 where src: "src STREAM_CHUNK d = (r, d1)" by fastforce
  show ?case
  proof (cases r)
    case (Inl e)
    with src less.prems show ?thesis
      by (simp add: fat_copy.simps [of _ _ _ _ _ _ "(d, w)"] does_def on_source_def alters_refl)
  next
    case (Inr xs)
    note src = src [unfolded Inr]
    note gives = src_gives [OF src]
    show ?thesis
    proof (cases "xs = [] \<or> len < written + length xs")
      case True
      have "fat_copy F f src progress len written (d, w) =
          Some (if xs = [] then Inr written else Inl InvalidData, d1, w)"
        using True src by (auto simp: fat_copy.simps [of _ _ _ _ _ _ "(d, w)"] on_source_def)
      moreover have "rest d = []" if "xs = []"
        using src_ends [of STREAM_CHUNK d d1] src that by (simp add: STREAM_CHUNK_def)
      ultimately show ?thesis using less.prems by (simp add: does_def alters_refl)
    next
      case False
      let ?step = "io_bind (on_volume (ff_write_all F f xs)) (\<lambda>_.
            io_bind (on_source (goes_on progress (length xs))) (\<lambda>go.
              if go then fat_copy F f src progress len (written + length xs) else io_fail Interrupted))"
      have "does ?step (d1, w) ?Q"
      proof (rule does_bind [OF does_on_volume [OF writes [OF less.prems(1,2)]]], goal_cases)
        case (1 e s')
        then show ?case by auto
      next
        case (2 v s')
        then obtain w1 b1 where s': "s' = (d1, w1)" "altered {k} w w1" "cur w1 f = Some (k, bs @ xs, b1)"
          by (auto split: prod.splits)
        show ?case unfolding s'(1)
        proof (rule does_bind [where Q = "\<lambda>r s. \<exists>go d2. r = Inr go \<and> s = (d2, w1) \<and> rest d2 = rest d1"], goal_cases)
          case 1
          then show ?case by (intro does_on_source) (auto simp: goes_on_def split: prod.splits dest: progress_gives)
        next
          case (3 go s')
          then obtain d2 where d2: "s' = (d2, w1)" "rest d2 = rest d1" by auto
          have "does (fat_copy F f src progress len (written + length xs)) (d2, w1) ?Q"
          proof (rule does_mono [OF less.hyps [of "written + length xs" w1 "bs @ xs" b1 d2]], goal_cases)
            case 1
            then show ?case using False by (auto simp: neq_Nil_conv)
          next
            case 2
            then show ?case using s' by (rule_tac alters_ok)
          next
            case (5 r s)
            obtain d' w' where s: "s = (d', w')" by fastforce
            from 5 have a: "altered {k} w1 w'" "\<exists>bs' b'. cur w' f = Some (k, bs', b')"
              and c: "\<forall>n. r = Inr n \<longrightarrow> n = written + length xs + length (rest d2) \<and>
                (\<exists>b'. cur w' f = Some (k, (bs @ xs) @ rest d2, b'))"
              by (simp_all add: s)
            have "altered {k} w w'" using alters_trans [OF s'(2) a(1)] by blast
            moreover have "rest d = xs @ rest d2" using gives d2(2) by simp
            ultimately show ?case using a(2) c by (cases r) (simp_all add: s)
          qed (use s' less.prems in auto)
          then show ?case using s' d2 by (auto intro!: does_if)
        qed auto
      qed
      with False src show ?thesis
        by (simp add: fat_copy.simps [of _ _ _ _ _ _ "(d, w)"] does_def on_source_def)
    qed
  qed
qed

lemma writes_target:
  assumes "ok w" "k = sub (place h) n"
  shows "does (fat_write_target F h n len src progress) (d, w) (\<lambda>r (d', w'). altered {k} w w' \<and>
    (r = Inr () \<longrightarrow> files w' k = Some (rest d) \<and> length (rest d) = len))"
  unfolding fat_write_target_def
proof (rule does_bind [OF does_on_volume [OF creates_file [OF assms(1)]]], goal_cases)
  case (1 e s)
  then show ?case using assms(2) by auto
next
  case (2 f s)
  then obtain w1 where s: "s = (d, w1)" and w1: "altered {k} w w1" "\<exists>bs b. cur w1 f = Some (k, bs, b)"
    using assms(2) by (auto split: prod.splits)
  let ?open = "\<lambda>w'. \<exists>bs b. cur w' f = Some (k, bs, b)"
  have "does (io_bind (on_volume (ff_truncate F f)) (\<lambda>_.
          io_bind (fat_copy F f src progress len 0) (\<lambda>written.
            if written \<noteq> len then io_fail InvalidData else on_volume (ff_flush F f)))) (d, w1)
    (\<lambda>r (d', w'). altered {k} w w' \<and> ?open w' \<and>
      (r = Inr () \<longrightarrow> cur w' f = Some (k, rest d, True) \<and> files w' k = Some (rest d) \<and> length (rest d) = len))"
  proof -
    from w1 obtain bs b where cur: "cur w1 f = Some (k, bs, b)" by blast
    note truncated = truncates [OF alters_ok [OF w1(1)] cur]
    show ?thesis
    proof (rule does_bind [OF does_on_volume [OF truncated]], goal_cases)
      case (1 e s')
      then show ?case using alters_trans [OF w1(1)] by (auto split: prod.splits)
    next
      case (2 v s')
      then obtain w2 b2 where s': "s' = (d, w2)" "altered {k} w1 w2" "cur w2 f = Some (k, [], b2)"
        by (auto split: prod.splits)
      have w2: "altered {k} w w2" using alters_trans [OF w1(1) s'(2)] by blast
      show ?case unfolding s'(1)
      proof (rule does_bind [OF copies [OF alters_ok [OF s'(2)] s'(3) list.size(3)]], goal_cases)
        case (1 e s3)
        then show ?case using alters_trans [OF w2] by (auto split: prod.splits)
      next
        case (2 n s3)
        then obtain d3 w3 b3 where s3: "s3 = (d3, w3)" "altered {k} w2 w3" "n = length (rest d)"
            "cur w3 f = Some (k, rest d, b3)"
          by (auto split: prod.splits)
        have w3: "altered {k} w w3" using alters_trans [OF w2 s3(2)] by blast
        show ?case unfolding s3(1)
        proof (rule does_if)
          assume "n \<noteq> len"
          with w3 s3(4) show "does (io_fail InvalidData) (d3, w3) (\<lambda>r (d', w'). altered {k} w w' \<and> ?open w' \<and>
            (r = Inr () \<longrightarrow> cur w' f = Some (k, rest d, True) \<and> files w' k = Some (rest d) \<and> length (rest d) = len))"
            by simp
        next
          assume "\<not> n \<noteq> len"
          with s3(3) show "does (on_volume (ff_flush F f)) (d3, w3) (\<lambda>r (d', w'). altered {k} w w' \<and> ?open w' \<and>
            (r = Inr () \<longrightarrow> cur w' f = Some (k, rest d, True) \<and> files w' k = Some (rest d) \<and> length (rest d) = len))"
            by (rule_tac does_mono [OF does_on_volume [OF flushes [OF alters_ok [OF w3] s3(4)]]])
              (auto intro: alters_trans [OF w3])
        qed
      qed
    qed
  qed
  then show ?case unfolding s
  proof (rule does_finally)
    fix r and s' :: "'d \<times> 'w"
    assume s': "case s' of (d', w') \<Rightarrow> altered {k} w w' \<and> ?open w' \<and>
      (r = Inr () \<longrightarrow> cur w' f = Some (k, rest d, True) \<and> files w' k = Some (rest d) \<and> length (rest d) = len)"
    obtain d' w' where s'_eq: "s' = (d', w')" by fastforce
    from s' obtain bs b where w': "altered {k} w w'" "cur w' f = Some (k, bs, b)"
      and done_: "r = Inr () \<Longrightarrow> b \<and> files w' k = Some (rest d) \<and> length (rest d) = len"
      by (auto simp: s'_eq)
    show "does (on_volume (ff_drop_file F f)) s' (\<lambda>_ (d', w'). altered {k} w w' \<and>
      (r = Inr () \<longrightarrow> files w' k = Some (rest d) \<and> length (rest d) = len))"
      unfolding s'_eq
      by (rule does_mono [OF does_on_volume [OF drops_file [OF alters_ok [OF w'(1)] w'(2)]]])
        (use done_ in \<open>auto intro: alters_trans [OF w'(1)]\<close>)
  qed
qed

lemma asks_replacing:
  assumes "ok w" "k = sub (place h) n"
  shows "does (fat_is_replacing F h n) w (\<lambda>r w'. altered {} w w' \<and> (r = Inr False \<longrightarrow> files w k = None))"
proof -
  from opens_file [OF assms(1), of h n] obtain r w1 where r: "ff_open_file F h n w = Some (r, w1)" "altered {} w w1"
      "case r of Inl e \<Rightarrow> e = NotFound \<longrightarrow> files w k = None
       | Inr f \<Rightarrow> files w k \<noteq> None \<and> (\<exists>bs. cur w1 f = Some (k, bs, True))"
    unfolding does_def assms(2) by blast
  show ?thesis
  proof (cases r)
    case (Inl e)
    with r show ?thesis by (auto simp: does_def fat_is_replacing_def alters_def)
  next
    case (Inr f)
    with r obtain bs where "cur w1 f = Some (k, bs, True)" by auto
    from drops_file [OF alters_ok [OF r(2)] this] r Inr show ?thesis
      by (auto simp: does_def fat_is_replacing_def alters_def)
  qed
qed

lemma writes_in:
  assumes "ok w" and k: "k = sub (place h) name" and t: "t = sub (place h) (fat_replace_temp_name name)" and "t \<noteq> k"
  shows "does (fat_write_in F h name len src progress) (d, w)
    (\<lambda>r (d', w'). replaced ok files F h name k t len (rest d) w r w')"
  unfolding fat_write_in_def replaced_def
proof (rule does_bind_same [OF does_on_volume [OF asks_replacing [OF assms(1) k]]], goal_cases)
  case (1 r s)
  then obtain w1 where s: "s = (d, w1)" and w1: "altered {} w w1" "r = Inr False \<Longrightarrow> files w k = None"
    by (auto split: prod.splits)
  let ?P = "\<lambda>r (d', w'). altered {k, t} w w' \<and>
         (case r of
            Inr _ \<Rightarrow> files w' k = Some (rest d) \<and> length (rest d) = len \<and> (files w' t = None \<or> files w' t = files w t)
          | Inl e \<Rightarrow> files w k \<noteq> None \<longrightarrow> files w' k = files w k \<or> swap_failed ok files F h name t (rest d) w w')"
  show ?case
  proof (cases r)
    case (Inl e)
    with w1 show ?thesis by (auto simp: s alters_def)
  next
    case (Inr replacing)
    show ?thesis
    proof (cases replacing)
      case False
      with Inr w1 have none: "files w k = None" by simp
      have "does (io_on_error (fat_write_target F h name len src progress)
         (on_volume (io_ignore (ff_remove F h name)))) (d, w1)
        (\<lambda>r (d', w'). altered {k} w w' \<and> (r = Inr () \<longrightarrow> files w' k = Some (rest d) \<and> length (rest d) = len))"
      proof (rule does_on_error [OF writes_target [OF alters_ok [OF w1(1)] k]], goal_cases)
        case (1 v s')
        then show ?case by (auto intro: alters_trans [OF w1(1)])
      next
        case (2 e s')
        obtain d' w2 where s': "s' = (d', w2)" by fastforce
        with 2 have w2: "altered {k} w w2" using alters_trans [OF w1(1)] by auto
        show ?case unfolding s'
          by (rule does_mono [OF does_on_volume [OF does_ignore [OF does_mono [OF removes [OF alters_ok [OF w2]]], where Q = "\<lambda>_. altered {k} w"]]])
            (auto simp: k [symmetric] intro: alters_trans [OF w2])
      qed
      then have "does (io_bind (io_on_error (fat_write_target F h name len src progress)
         (on_volume (io_ignore (ff_remove F h name)))) (\<lambda>_. io_return ())) (d, w1) ?P"
        by (rule does_bind_same) (use none assms(4) in \<open>auto simp: alters_def split: sum.splits\<close>)
      with Inr False show ?thesis by (simp add: s)
    next
      case True
      let ?temp = "fat_replace_temp_name name"
      let ?target_written = "io_on_error (fat_write_target F h ?temp len src progress) (on_volume (io_ignore (ff_remove F h ?temp)))"
      have "does (io_bind (on_volume (io_ignore (ff_remove F h ?temp))) (\<lambda>_. io_return ?temp)) (d, w1)
        (\<lambda>r s. r = Inr ?temp \<and> fst s = d \<and> altered {t} w (snd s))"
        by (rule does_bind_same [OF does_on_volume [OF does_ignore [OF does_mono [OF removes [OF alters_ok [OF w1(1)]]],
              where Q = "\<lambda>r w'. r = Inr () \<and> altered {t} w w'"]]])
          (auto simp: t [symmetric] intro: alters_trans [OF w1(1)])
      then have "does (io_bind (io_bind (on_volume (io_ignore (ff_remove F h ?temp))) (\<lambda>_. io_return ?temp)) (\<lambda>target.
          io_bind (io_on_error (fat_write_target F h target len src progress)
            (on_volume (io_ignore (ff_remove F h target)))) (\<lambda>_.
            io_bind (on_volume (ff_remove F h name)) (\<lambda>_. on_volume (ff_rename F h target name))))) (d, w1) ?P"
      proof (rule does_bind_same, goal_cases)
        case (1 r2 s2)
        then obtain w2 where s2: "r2 = Inr ?temp" "s2 = (d, w2)" and w2: "altered {t} w w2" by (cases s2) auto
        have "does ?target_written (d, w2) (\<lambda>r (d', w'). altered {t} w w' \<and>
            (r = Inr () \<longrightarrow> files w' t = Some (rest d) \<and> length (rest d) = len))"
        proof (rule does_on_error [OF writes_target [OF alters_ok [OF w2] t]], goal_cases)
          case (1 v s')
          then show ?case by (auto intro: alters_trans [OF w2])
        next
          case (2 e s')
          obtain d' w3 where s': "s' = (d', w3)" by fastforce
          with 2 have w3: "altered {t} w w3" using alters_trans [OF w2] by auto
          show ?case unfolding s'
            by (rule does_mono [OF does_on_volume [OF does_ignore [OF does_mono [OF removes [OF alters_ok [OF w3]]], where Q = "\<lambda>_. altered {t} w"]]])
              (auto simp: t [symmetric] intro: alters_trans [OF w3])
        qed
        then have "does (io_bind ?target_written (\<lambda>_.
            io_bind (on_volume (ff_remove F h name)) (\<lambda>_. on_volume (ff_rename F h ?temp name)))) (d, w2) ?P"
        proof (rule does_bind_same, goal_cases)
          case (1 r3 s3)
          then obtain d3 w3 where s3: "s3 = (d3, w3)" and w3: "altered {t} w w3"
              "r3 = Inr () \<Longrightarrow> files w3 t = Some (rest d) \<and> length (rest d) = len" by (cases s3) auto
          show ?case
          proof (cases r3)
            case (Inl e)
            with w3 assms(4) show ?thesis by (auto simp: s3 alters_def)
          next
            case (Inr v)
            with w3 have done_: "files w3 t = Some (rest d)" "length (rest d) = len" by auto
            let ?swap = "io_bind (ff_remove F h name) (\<lambda>_. ff_rename F h ?temp name)"
            have "does ?swap w3 (\<lambda>r w'. altered {k, t} w w' \<and>
              (r = Inr () \<longrightarrow> files w' k = Some (rest d) \<and> files w' t = None))"
            proof (rule does_bind_same [OF removes [OF alters_ok [OF w3(1)]]], goal_cases)
              case (1 r4 w4)
              then have w4: "altered {k} w3 w4" by (simp add: k)
              then have "files w4 t = Some (rest d)" using done_ assms(4) by (simp add: alters_def)
              moreover have w4': "altered {k, t} w w4" by (rule alters_trans [OF w3(1) w4]) auto
              ultimately show ?case
                using renames [OF alters_ok [OF w4], of h ?temp name] assms(4)
                by (auto simp: k [symmetric] t [symmetric] split: sum.splits elim!: does_mono intro: alters_trans [OF w4'])
            qed
            then obtain r4 w4 where swap: "?swap w3 = Some (r4, w4)" "altered {k, t} w w4"
                "r4 = Inr () \<Longrightarrow> files w4 k = Some (rest d) \<and> files w4 t = None"
              unfolding does_def by blast
            have "swap_failed ok files F h name t (rest d) w w4" if "r4 = Inl e" for e
              unfolding swap_failed_def using that swap(1) w3(1) done_(1) alters_ok [OF swap(2)]
              by (intro exI [of _ w3] exI [of _ w4] exI [of _ e]) (simp add: alters_refl)
            moreover have "io_bind (on_volume (ff_remove F h name)) (\<lambda>_. on_volume (ff_rename F h ?temp name)) (d3, w3) =
                Some (r4, d3, w4)"
              using swap(1) by (auto simp: io_bind_def on_volume_def split: option.splits sum.splits prod.splits)
            ultimately show ?thesis using Inr swap done_ by (auto simp: s3 does_def split: sum.splits)
          qed
        qed
        then show ?case by (simp add: s2)
      qed
      with Inr True show ?thesis by (simp add: s)
    qed
  qed
qed

lemma opens_or_creates:
  "ok w \<Longrightarrow> does (fat_open_or_create F h ps) w
     (\<lambda>r w'. altered {} w w' \<and> (\<forall>d. r = Inr d \<longrightarrow> place d = foldl sub (place h) ps))"
proof (induction ps arbitrary: h w)
  case Nil
  then show ?case by (simp add: does_def alters_refl)
next
  case (Cons p ps)
  let ?Q = "\<lambda>w r w'. altered {} w w' \<and> (\<forall>d. r = Inr d \<longrightarrow> place d = foldl sub (place h) (p # ps))"
  have step: "does (fat_open_or_create F d ps) w1 (?Q w)" if "altered {} w w1" "place d = sub (place h) p" for d w1
    using that by (auto intro!: does_mono [OF Cons.IH [OF alters_ok [OF that(1)]]] intro: alters_trans)
  obtain r w1 where r: "ff_open_dir F h p w = Some (r, w1)" "altered {} w w1"
      "\<forall>d. r = Inr d \<longrightarrow> place d = sub (place h) p"
    using opens_dir [OF Cons.prems, of h p] unfolding does_def by blast
  show ?case
  proof (cases r)
    case (Inr d)
    with r step [of w1 d] show ?thesis by (simp add: does_def)
  next
    case (Inl e)
    have "does (io_bind (ff_create_dir F h p) (\<lambda>d. fat_open_or_create F d ps)) w1 (?Q w)"
    proof (rule does_bind_same [OF creates_dir [OF alters_ok [OF r(2)]]], goal_cases)
      case (1 r2 w2)
      have w2: "altered {} w w2" by (rule alters_trans [OF r(2)]) (use 1 in auto)
      show ?case
      proof (cases r2)
        case (Inr d)
        with 1 step [OF w2, of d] show ?thesis by simp
      qed (use w2 in simp)
    qed
    with r Inl show ?thesis by (simp add: does_def)
  qed
qed

lemma swap_after: "altered {} w w1 \<Longrightarrow> swap_failed ok files F h name t data w1 w' \<Longrightarrow> swap_failed ok files F h name t data w w'"
  unfolding swap_failed_def by (blast intro: alters_trans)

lemma swap_before: "swap_failed ok files F h name t data w w1 \<Longrightarrow> altered {} w1 w' \<Longrightarrow> swap_failed ok files F h name t data w w'"
  unfolding swap_failed_def by (blast intro: alters_trans)

lemma replaced_after: "altered {} w w1 \<Longrightarrow> replaced ok files F h name k t len data w1 r w' \<Longrightarrow> replaced ok files F h name k t len data w r w'"
  unfolding replaced_def by (auto split: sum.splits intro: swap_after alters_trans simp: alters_kept)

lemma replaced_before:
  "replaced ok files F h name k t len data w r w1 \<Longrightarrow> altered {} w1 w' \<Longrightarrow> replaced ok files F h name k t len data w r w'"
  unfolding replaced_def by (auto split: sum.splits intro: swap_before alters_trans simp: alters_kept)

lemma replaced_early: "altered {} w w' \<Longrightarrow> replaced ok files F h name k t len data w (Inl e) w'"
  unfolding replaced_def by (auto simp: alters_def)

text \<open>The whole write, up to the unmount at its end.\<close>

lemma writes_file:
  assumes "ok w" and parts: "parts = segments rel_path" "parts \<noteq> []"
    and dir: "dir = foldl sub (place (ff_root F)) (butlast parts)"
    and k: "k = sub dir (last parts)" and t: "t = sub dir (fat_replace_temp_name (last parts))" and "t \<noteq> k"
  shows "does (write_file_fat_streaming_impl F rel_path len src progress) (d, w) (\<lambda>r (d', w').
    \<exists>h r1 w1. replaced ok files F h (last parts) k t len (rest d) w r1 w1 \<and> altered {} w1 w' \<and>
      (r1 = r \<or> r1 = Inr ()))"
  (is "does _ _ ?Q")
  unfolding write_file_fat_streaming_impl_def fat_mounted_def Let_def parts(1) [symmetric]
proof (rule does_bind_same [OF does_on_volume [OF mounts [OF assms(1)]]], goal_cases)
  case (1 r s)
  then obtain w1 where s: "s = (d, w1)" and w1: "altered {} w w1" by (auto split: prod.splits)
  have inner: "does (io_on_error
     (if parts = [] then io_fail InvalidInput
        else
          io_bind (io_of (refuse_dot_names parts)) (\<lambda>_.
          io_bind (on_volume (fat_open_or_create F (ff_root F) (butlast parts))) (\<lambda>dir.
            fat_write_in F dir (last parts) len src progress)))
     (on_volume (ff_drop_fs F))) (d, w1)
     (\<lambda>r (d', w'). \<exists>h. replaced ok files F h (last parts) k t len (rest d) w r w')"
  proof (rule does_on_error [where P = "\<lambda>r (d', w'). \<exists>h. replaced ok files F h (last parts) k t len (rest d) w r w'"], goal_cases)
    case 1
    show ?case
    proof (rule does_if, goal_cases)
      case 2
      show ?case
      proof (rule does_bind_same [where Q = "\<lambda>r s. s = (d, w1)"], goal_cases)
        case (2 r' s')
        show ?case
        proof (cases r')
          case (Inl e)
          with 2 show ?thesis using replaced_early [OF w1] by auto
        next
          case (Inr u)
          have "does (io_bind (on_volume (fat_open_or_create F (ff_root F) (butlast parts))) (\<lambda>dir.
            fat_write_in F dir (last parts) len src progress)) (d, w1)
            (\<lambda>r (d', w'). \<exists>h. replaced ok files F h (last parts) k t len (rest d) w r w')"
          proof (rule does_bind_same [OF does_on_volume [OF opens_or_creates [OF alters_ok [OF w1]]]], goal_cases)
            case (1 r2 s2)
            then obtain w2 where s2: "s2 = (d, w2)" and w2: "altered {} w1 w2"
                "\<forall>h. r2 = Inr h \<longrightarrow> place h = dir" by (auto simp: dir split: prod.splits)
            have w2': "altered {} w w2" by (rule alters_trans [OF w1 w2(1)]) auto
            show ?case
            proof (cases r2)
              case (Inl e)
              then show ?thesis using replaced_early [OF w2'] by (auto simp: s2)
            next
              case (Inr h)
              with w2 have "place h = dir" by simp
              then show ?thesis
                using writes_in [OF alters_ok [OF w2'], of k h "last parts" t len d] assms(7) replaced_after [OF w2']
                by (fastforce simp: Inr s2 k t elim!: does_mono)
            qed
          qed
          with Inr 2 show ?thesis by simp
        qed
      qed simp
    qed (use parts in simp)
  next
    case (2 v w')
    then show ?case by (auto split: prod.splits)
  next
    case (3 e s')
    then obtain d' w' h where s': "s' = (d', w')" and h: "replaced ok files F h (last parts) k t len (rest d) w (Inl e) w'"
      by (cases s') auto
    then have "ok w'" by (simp add: replaced_def alters_def)
    from does_on_volume [OF drops_fs [OF this]] show ?case unfolding s'
      by (rule does_mono) (use h in \<open>auto intro: replaced_before\<close>)
  qed
  have "does (io_bind (io_on_error
     (if parts = [] then io_fail InvalidInput
        else
          io_bind (io_of (refuse_dot_names parts)) (\<lambda>_.
          io_bind (on_volume (fat_open_or_create F (ff_root F) (butlast parts))) (\<lambda>dir.
            fat_write_in F dir (last parts) len src progress)))
     (on_volume (ff_drop_fs F))) (\<lambda>_. on_volume (ff_unmount F))) (d, w1) ?Q"
  proof (rule does_bind_same [OF inner], goal_cases)
    case (1 r3 s3)
    then obtain d3 w3 h where s3: "s3 = (d3, w3)" and h: "replaced ok files F h (last parts) k t len (rest d) w r3 w3"
      by (cases s3) auto
    then have "ok w3" by (simp add: replaced_def alters_def)
    then show ?case
      using h does_on_volume [OF unmounts [OF \<open>ok w3\<close>], of d3]
      by (fastforce simp: s3 alters_refl split: sum.splits elim!: does_mono)
  qed
  moreover have "?Q (Inl e) (d, w1)" for e 
    using replaced_early [OF w1] alters_refl [of ok w1 files "{}"] alters_ok [OF w1]
    by (auto intro!: exI [of _ w1] exI [of _ "Inl e"])
  ultimately show ?case by (auto simp: s split: sum.splits)
qed

lemma replace_result:
  assumes "ok w" "parts = segments rel_path" "parts \<noteq> []"
    "dir = foldl sub (place (ff_root F)) (butlast parts)"
    "k = sub dir (last parts)" "t = sub dir (fat_replace_temp_name (last parts))" "t \<noteq> k"
  shows "does (write_file_fat_streaming_impl F rel_path len src progress) (d, w) (\<lambda>r (d', w').
    alters ok files {k, t} w w' \<and>
    (case r of
       Inr _ \<Rightarrow> files w' k = Some (rest d) \<and> length (rest d) = len \<and> (files w' t = None \<or> files w' t = files w t)
     | Inl e \<Rightarrow> files w k \<noteq> None \<longrightarrow>
         files w' k = files w k \<or> files w' k = Some (rest d) \<or>
         (\<exists>h. swap_failed ok files F h (last parts) t (rest d) w w')))"
proof (rule does_mono [OF writes_file [OF assms]], clarify)
  fix r d' w' h r1 w1
  assume r1: "replaced ok files F h (last parts) k t len (rest d) w r1 w1" "altered {} w1 w'" "r1 = r \<or> r1 = Inr ()"
  from replaced_before [OF r1(1,2)] r1(3)
  show "altered {k, t} w w' \<and>
    (case r of
       Inr _ \<Rightarrow> files w' k = Some (rest d) \<and> length (rest d) = len \<and> (files w' t = None \<or> files w' t = files w t)
     | Inl e \<Rightarrow> files w k \<noteq> None \<longrightarrow>
         files w' k = files w k \<or> files w' k = Some (rest d) \<or>
         (\<exists>h. swap_failed ok files F h (last parts) t (rest d) w w'))"
    by (cases r) (auto simp: replaced_def)
qed

end

subsection \<open>A replace keeps the file\<close>


text \<open>The temporary name differs from every name but those made of its own prefix. A name that repeats the
  prefix to the limit is its own temporary name: such a file is removed before its copy is written.\<close>

lemma temp_name_differs:
  assumes "take 17 name \<noteq> REPLACE_PREFIX"
  shows "fat_replace_temp_name name \<noteq> name"
proof
  assume "fat_replace_temp_name name = name"
  then have "take 17 name = take 17 (fat_replace_temp_name name)" by simp
  then show False using assms by (simp add: fat_replace_temp_name_def fat_temp_name_def REPLACE_PREFIX_def)
qed

lemma temp_name_of_prefixes:
  "let name = concat (replicate 15 REPLACE_PREFIX) in fat_replace_temp_name name = name"
  by code_simp

subsection \<open>Files in a map\<close>

text \<open>A file system whose state is the map itself; an open file is its path.\<close>

type_synonym file_map = "rstring list \<Rightarrow> octets option"

definition map_fs :: "(file_map, rstring list, rstring list) fatfs" where
  "map_fs =
     \<lparr>ff_mount = io_return (), ff_unmount = io_return (), ff_drop_fs = io_return (), ff_root = [],
      ff_open_dir = (\<lambda>h n. io_return (h @ [n])), ff_create_dir = (\<lambda>h n. io_return (h @ [n])),
      ff_open_file = (\<lambda>h n w. Some (if w (h @ [n]) = None then Inl NotFound else Inr (h @ [n]), w)),
      ff_create_file = (\<lambda>h n w. Some (Inr (h @ [n]), if w (h @ [n]) = None then w(h @ [n] := Some []) else w)),
      ff_remove = (\<lambda>h n w. Some (if w (h @ [n]) = None then (Inl NotFound, w) else (Inr (), w(h @ [n] := None)))),
      ff_rename = (\<lambda>h n m w. Some (if w (h @ [n]) = None then (Inl NotFound, w)
        else (Inr (), w(h @ [n] := None, h @ [m] := w (h @ [n]))))),
      ff_iter = (\<lambda>h w. Some ([], w)),
      ff_truncate = (\<lambda>f w. Some (Inr (), w(f := Some []))),
      ff_read = (\<lambda>f n w. Some (case w f of None \<Rightarrow> (Inl NotFound, w) | Some bs \<Rightarrow> (Inr (take n bs), w))),
      ff_write_all = (\<lambda>f bs w. Some (Inr (), w(f := map_option (\<lambda>old. old @ bs) (w f)))),
      ff_flush = (\<lambda>f. io_return ()), ff_drop_file = (\<lambda>f. io_return ())\<rparr>"

interpretation map_write: fat_write "\<lambda>_. True" "\<lambda>w. w" "\<lambda>w f. map_option (\<lambda>bs. (f, bs, True)) (w f)" "\<lambda>h. h"
  "\<lambda>p n. p @ [n]" map_fs list_source never_stop "\<lambda>d. d"
  by unfold_locales (auto simp: map_fs_def alters_def does_def list_source_def never_stop_def list_has_more)

lemma map_volume:
  "fat_volume (\<lambda>_. True) (\<lambda>w. w) (\<lambda>w f. map_option (\<lambda>bs. (f, bs, True)) (w f)) (\<lambda>h. h) (\<lambda>p n. p @ [n]) map_fs"
  by (rule map_write.fat_volume_axioms)

text \<open>A name that is its own temporary name: the complete copy itself is removed, and nothing is left under
  the name.\<close>

lemma replace_loses_own_temp_name:
  assumes "fat_replace_temp_name name = name" "w (h @ [name]) = Some [1]"
  shows "fat_write_in map_fs h name 2 list_source never_stop ([2, 3], w) =
    Some (Inl NotFound, [], w(h @ [name] := None))"
  using assms
  by (simp add: fat_write_in_def fat_is_replacing_def fat_write_target_def io_bind_def on_volume_def io_on_error_def
      io_finally_def io_ignore_def map_fs_def fat_copy.simps on_source_def list_source_def STREAM_CHUNK_def
      goes_on_def never_stop_def)


end
