(* ===== verification/Pro_Wire.thy ===== *)
theory Pro_Wire
  imports Exfat_Read
begin

text \<open>
  The wire encoding of the EverDrive-64 PRO, from \<open>crates/ed64pro-link/src/wire.rs\<close>: command frames, string
  fields, transfer requests and file records, with the UTF-8 coding of the standard library they rely on.
\<close>

subsection \<open>UTF-8\<close>

text \<open>\<open>str::as_bytes\<close>.\<close>

definition to_u8 :: "nat \<Rightarrow> u8" where "to_u8 n = of_nat n"

lemma unat_to_u8 [simp]: "unat (to_u8 n) = n mod 256"
  by (simp add: to_u8_def)

definition utf8_char :: "nat \<Rightarrow> octets" where
  "utf8_char c =
     (if c < 0x80 then [to_u8 c]
      else if c < 0x800 then [to_u8 (0xC0 + c div 64), to_u8 (0x80 + c mod 64)]
      else if c < 0x10000
      then [to_u8 (0xE0 + c div 4096), to_u8 (0x80 + c div 64 mod 64), to_u8 (0x80 + c mod 64)]
      else [to_u8 (0xF0 + c div 262144), to_u8 (0x80 + c div 4096 mod 64), to_u8 (0x80 + c div 64 mod 64),
        to_u8 (0x80 + c mod 64)])"

definition utf8_bytes :: "rstring \<Rightarrow> octets" where
  "utf8_bytes s = concat (map utf8_char s)"

text \<open>\<open>String::from_utf8_lossy\<close>: each longest piece that no character starts with becomes U+FFFD.
  \<open>utf8_next\<close> gives the character at the start of the bytes and how many of them it takes.\<close>

definition REPLACEMENT :: nat where "REPLACEMENT = 0xFFFD"

definition byte_in :: "nat \<Rightarrow> nat \<Rightarrow> octets \<Rightarrow> nat \<Rightarrow> bool" where
  "byte_in lo hi bs i \<longleftrightarrow> i < length bs \<and> lo \<le> unat (bs ! i) \<and> unat (bs ! i) \<le> hi"

definition utf8_next :: "octets \<Rightarrow> nat \<times> nat" where
  "utf8_next bs =
     (let a = unat (bs ! 0); low = (\<lambda>i. unat (bs ! i) mod 64) in
      if a < 0x80 then (a, 1)
      else if 0xC2 \<le> a \<and> a < 0xE0 then
        if byte_in 0x80 0xBF bs 1 then ((a - 0xC0) * 64 + low 1, 2) else (REPLACEMENT, 1)
      else if 0xE0 \<le> a \<and> a < 0xF0 then
        if \<not> byte_in (if a = 0xE0 then 0xA0 else 0x80) (if a = 0xED then 0x9F else 0xBF) bs 1 then (REPLACEMENT, 1)
        else if \<not> byte_in 0x80 0xBF bs 2 then (REPLACEMENT, 2)
        else ((a - 0xE0) * 4096 + low 1 * 64 + low 2, 3)
      else if 0xF0 \<le> a \<and> a < 0xF5 then
        if \<not> byte_in (if a = 0xF0 then 0x90 else 0x80) (if a = 0xF4 then 0x8F else 0xBF) bs 1 then (REPLACEMENT, 1)
        else if \<not> byte_in 0x80 0xBF bs 2 then (REPLACEMENT, 2)
        else if \<not> byte_in 0x80 0xBF bs 3 then (REPLACEMENT, 3)
        else ((a - 0xF0) * 262144 + low 1 * 4096 + low 2 * 64 + low 3, 4)
      else (REPLACEMENT, 1))"

lemma utf8_next_positive: "0 < snd (utf8_next bs)"
  by (simp add: utf8_next_def Let_def)

function from_utf8_lossy :: "octets \<Rightarrow> rstring" where
  "from_utf8_lossy bs =
     (if bs = [] then [] else fst (utf8_next bs) # from_utf8_lossy (drop (snd (utf8_next bs)) bs))"
  by pat_completeness auto
termination
  by (relation "measure length") (auto simp: utf8_next_positive)

declare from_utf8_lossy.simps [simp del]

lemma length_utf8_char: "length (utf8_char c) = (if c < 0x80 then 1 else if c < 0x800 then 2 else if c < 0x10000 then 3 else 4)"
  by (simp add: utf8_char_def)

lemma utf8_next_char:
  assumes "scalar c"
  shows "utf8_next (utf8_char c @ rest) = (c, length (utf8_char c))"
proof -
  have low: "(128 + b) mod 64 = b" if "b < 64" for b :: nat using that mod_mult_self3 [of 2 64 b] by simp
  consider "c < 0x80" | "0x80 \<le> c" "c < 0x800" | "0x800 \<le> c" "c < 0x10000" | "0x10000 \<le> c" "c < 0x110000"
    using assms unfolding scalar_def by linarith
  then show ?thesis
  proof cases
    case 1
    then show ?thesis by (simp add: utf8_char_def utf8_next_def)
  next
    case 2
    define a b where ab: "a = c div 64" "b = c mod 64"
    have "c = a * 64 + b" "b < 64" using div_mult_mod_eq [of c 64] by (simp_all add: ab)
    moreover from this 2 have "2 \<le> a" "a < 32" by linarith+
    ultimately show ?thesis using 2
      by (auto simp: utf8_char_def utf8_next_def byte_in_def Let_def low ab [symmetric])
  next
    case 3
    define a b d where abd: "a = c div 4096" "b = c div 64 mod 64" "d = c mod 64"
    have a: "a = c div 64 div 64" by (simp add: abd div_mult2_eq [symmetric])
    have c: "c = a * 4096 + b * 64 + d" "b < 64" "d < 64"
      using div_mult_mod_eq [of c 64] div_mult_mod_eq [of "c div 64" 64]
      unfolding a abd(2,3) by (linarith | simp)+
    moreover have "a < 16" using c(1) 3 by linarith
    moreover have "a = 0 \<longrightarrow> 32 \<le> b" "a = 13 \<longrightarrow> b < 32" using 3 c assms by (auto simp: scalar_def)
    moreover have "utf8_char c = [to_u8 (0xE0 + a), to_u8 (0x80 + b), to_u8 (0x80 + d)]"
      using 3 by (simp add: utf8_char_def abd)
    ultimately show ?thesis
      by (auto simp: utf8_next_def byte_in_def Let_def low)
  next
    case 4
    define a b d e where abd: "a = c div 262144" "b = c div 4096 mod 64" "d = c div 64 mod 64" "e = c mod 64"
    have a: "a = c div 64 div 64 div 64" "b = c div 64 div 64 mod 64"
      by (simp_all add: abd div_mult2_eq [symmetric])
    have c: "c = a * 262144 + b * 4096 + d * 64 + e" "b < 64" "d < 64" "e < 64"
      using div_mult_mod_eq [of c 64] div_mult_mod_eq [of "c div 64" 64] div_mult_mod_eq [of "c div 64 div 64" 64]
      unfolding a abd(3,4) by (linarith | simp)+
    moreover have "a < 5" using c(1) 4 by linarith
    moreover have "a = 0 \<longrightarrow> 16 \<le> b" "a = 4 \<longrightarrow> b < 16" using 4 c by auto
    moreover have "utf8_char c = [to_u8 (0xF0 + a), to_u8 (0x80 + b), to_u8 (0x80 + d), to_u8 (0x80 + e)]"
      using 4 by (simp add: utf8_char_def abd)
    ultimately show ?thesis
      by (auto simp: utf8_next_def byte_in_def Let_def low)
  qed
qed

lemma from_utf8_bytes: "\<forall>c \<in> set s. scalar c \<Longrightarrow> from_utf8_lossy (utf8_bytes s) = s"
proof (induction s)
  case (Cons c s)
  have "utf8_char c \<noteq> []" by (simp add: utf8_char_def)
  with Cons utf8_next_char [of c "utf8_bytes s"] show ?case
    by (simp add: utf8_bytes_def from_utf8_lossy.simps [of "utf8_char c @ _"])
qed (simp add: utf8_bytes_def from_utf8_lossy.simps)

subsection \<open>Constants and frames\<close>

definition STATUS_KEY :: u8 where "STATUS_KEY = 0x5A"
definition STATUS_KEY_LEGACY :: u8 where "STATUS_KEY_LEGACY = 0xA5"
definition PROTOCOL_ID :: u8 where "PROTOCOL_ID = 0x07"
definition DEVICE_ID_ED64_PRO :: u8 where "DEVICE_ID_ED64_PRO = 0x27"
definition PROTOCOL_ID_MEGA :: u8 where "PROTOCOL_ID_MEGA = 0x05"
definition PROTOCOL_ID_N8 :: u8 where "PROTOCOL_ID_N8 = 0x06"

definition CMD_STATUS :: u8 where "CMD_STATUS = 0x10"
definition CMD_NRESP :: u8 where "CMD_NRESP = 0x13"
definition CMD_STATUS2 :: u8 where "CMD_STATUS2 = 0x40"
definition CMD_FS :: u8 where "CMD_FS = 0x80"
definition CMD_EPO :: u8 where "CMD_EPO = 0x81"
definition EPO_SCMD_XFER :: u8 where "EPO_SCMD_XFER = 0x10"

definition FS_INIT :: u8 where "FS_INIT = 0x10"
definition FS_DIR_LOAD :: u8 where "FS_DIR_LOAD = 0x13"
definition FS_DIR_SIZE :: u8 where "FS_DIR_SIZE = 0x14"
definition FS_DIR_GET :: u8 where "FS_DIR_GET = 0x16"
definition FS_FILE_OPEN :: u8 where "FS_FILE_OPEN = 0x17"
definition FS_FILE_CLOSE :: u8 where "FS_FILE_CLOSE = 0x18"
definition FS_FILE_SEEK :: u8 where "FS_FILE_SEEK = 0x19"
definition FS_FILE_INFO :: u8 where "FS_FILE_INFO = 0x1A"
definition FS_DIR_MAKE :: u8 where "FS_DIR_MAKE = 0x1C"
definition FS_DELETE :: u8 where "FS_DELETE = 0x1D"
definition FS_AVAILABLE :: u8 where "FS_AVAILABLE = 0x1F"
definition FS_DIR_TEST :: u8 where "FS_DIR_TEST = 0x22"
definition FS_FILE_TEST :: u8 where "FS_FILE_TEST = 0x23"

definition ACK_BLOCK :: nat where "ACK_BLOCK = 1024"
definition MAX_WRITE_BLOCK :: nat where "MAX_WRITE_BLOCK = 4096"
definition WAKE_ZEROS :: nat where "WAKE_ZEROS = 64 + 2"
definition FIFO_ADDR :: u32 where "FIFO_ADDR = 0x10010000"
definition ATTR_DIR :: u8 where "ATTR_DIR = 0x10"

definition MODE_READ :: u8 where "MODE_READ = 0x01"
definition MODE_WRITE :: u8 where "MODE_WRITE = 0x02"
definition MODE_CREATE_NEW :: u8 where "MODE_CREATE_NEW = 0x04"
definition MODE_CREATE_ALWAYS :: u8 where "MODE_CREATE_ALWAYS = 0x08"
definition MODE_OPEN_ALWAYS :: u8 where "MODE_OPEN_ALWAYS = 0x10"
definition MODE_MAKE_PATH :: u8 where "MODE_MAKE_PATH = 0x80"

definition DIR_SORTED :: u8 where "DIR_SORTED = 0x01"

datatype endpoint = Link | LinkAck | EpFile | Memory

fun endpoint_code :: "endpoint \<Rightarrow> u8" where
  "endpoint_code Link = 0x10"
| "endpoint_code LinkAck = 0x11"
| "endpoint_code EpFile = 0x12"
| "endpoint_code Memory = 0x13"

text \<open>\<open>b'+'\<close> is \<open>2B\<close>.\<close>

definition cmd_frame :: "u8 \<Rightarrow> octets" where
  "cmd_frame cmd = [0x2B, 0x2B XOR 0xFF, cmd, cmd XOR 0xFF]"

definition scmd_frame :: "u8 \<Rightarrow> u8 \<Rightarrow> octets" where
  "scmd_frame cmd scmd = [0x2B, 0x2B XOR 0xFF, cmd, cmd XOR 0xFF, scmd]"

definition string_field :: "rstring \<Rightarrow> octets option" where
  "string_field s =
     (let bytes = utf8_bytes s in
      if length bytes < 2 ^ 16 then Some (be16 (of_nat (length bytes)) @ bytes) else None)"

definition epo_xfer :: "endpoint \<Rightarrow> endpoint \<Rightarrow> u32 \<Rightarrow> u32 \<Rightarrow> u32 \<Rightarrow> octets" where
  "epo_xfer src dst src_addr dst_addr len =
     be32 src_addr @ be32 dst_addr @ be32 len @ [endpoint_code src, endpoint_code dst, 0, 0, 0]"

record file_info =
  info_size :: u32
  info_date :: u16
  info_time :: u16
  info_attributes :: u8
  info_name :: rstring

definition info_is_dir :: "file_info \<Rightarrow> bool" where
  "info_is_dir i \<longleftrightarrow> info_attributes i AND ATTR_DIR \<noteq> 0"

definition file_info_head :: "octets \<Rightarrow> u32 \<times> u16 \<times> u16 \<times> u8" where
  "file_info_head b = (be32_at b 0, be16_at b 4, be16_at b 6, b ! 8)"

end
