(* ===== verification/Pro_Device.thy ===== *)
theory Pro_Device
  imports Pro_Wire
begin

text \<open>
  Commands to an EverDrive-64 PRO, from \<open>crates/ed64pro-link/src/device.rs\<close>: the handshake, status, file and
  memory commands over a byte transport (\<open>crates/ed64pro-link/src/transport.rs\<close>, the record
  \<open>transport\<close>).
\<close>

subsection \<open>Errors and calls\<close>

datatype link_error =
    LinkIo io_kind
  | UnexpectedStatusKey u8
  | OtherConsole u8
  | WrongProtocol u8
  | WrongDevice u8
  | Operation u8 "u8 option"
  | BadAck u8
  | PathTooLong nat

type_synonym ('w, 'a) lio = "'w \<Rightarrow> ((link_error + 'a) \<times> 'w) option"

definition lk_bind :: "('w, 'a) lio \<Rightarrow> ('a \<Rightarrow> ('w, 'b) lio) \<Rightarrow> ('w, 'b) lio" where
  "lk_bind m f w =
     (case m w of
        None \<Rightarrow> None
      | Some (Inl e, w') \<Rightarrow> Some (Inl e, w')
      | Some (Inr v, w') \<Rightarrow> f v w')"

definition lk_return :: "'a \<Rightarrow> ('w, 'a) lio" where "lk_return v w = Some (Inr v, w)"

definition lk_fail :: "link_error \<Rightarrow> ('w, 'a) lio" where "lk_fail e w = Some (Inl e, w)"

text \<open>\<open>From<io::Error>\<close>.\<close>

definition lk_io :: "('w, 'a) io \<Rightarrow> ('w, 'a) lio" where
  "lk_io m w = map_option (\<lambda>(r, w'). (map_sum LinkIo id r, w')) (m w)"

lemma lk_bind_cong [fundef_cong]:
  "m = m' \<Longrightarrow> w = w' \<Longrightarrow> (\<And>v v'. f v v' = f' v v') \<Longrightarrow> lk_bind m f w = lk_bind m' f' w'"
  by (simp add: lk_bind_def split: option.splits prod.splits sum.splits)

lemma lk_simps [simp]:
  "lk_bind (lk_return v) f w = f v w"
  "lk_bind (lk_fail e) f w = Some (Inl e, w)"
  "lk_return v w = Some (Inr v, w)"
  "lk_fail e w = Some (Inl e, w)"
  by (simp_all add: lk_bind_def lk_return_def lk_fail_def)

subsection \<open>The transport\<close>

record 'w transport =
  tr_set_timeout :: "nat \<Rightarrow> ('w, unit) io"
  tr_clear_input :: "('w, unit) io"
  tr_bytes_to_read :: "('w, u32) io"
  tr_read :: "nat \<Rightarrow> ('w, octets) io"
  tr_write :: "octets \<Rightarrow> ('w, nat) io"
  tr_flush :: "('w, unit) io"

text \<open>\<open>read_exact\<close> and \<open>write_all\<close> of the standard library.\<close>

partial_function (option) tr_read_exact ::
  "'w transport \<Rightarrow> nat \<Rightarrow> octets \<Rightarrow> 'w \<Rightarrow> ((io_kind + octets) \<times> 'w) option" where
  "tr_read_exact T n got w =
     (if n \<le> length got then Some (Inr got, w)
      else case tr_read T (n - length got) w of
        None \<Rightarrow> None
      | Some (Inl e, w') \<Rightarrow> if e = Interrupted then tr_read_exact T n got w' else Some (Inl e, w')
      | Some (Inr bs, w') \<Rightarrow> if bs = [] then Some (Inl UnexpectedEof, w') else tr_read_exact T n (got @ bs) w')"

partial_function (option) tr_write_all ::
  "'w transport \<Rightarrow> octets \<Rightarrow> 'w \<Rightarrow> ((io_kind + unit) \<times> 'w) option" where
  "tr_write_all T buf w =
     (if buf = [] then Some (Inr (), w)
      else case tr_write T buf w of
        None \<Rightarrow> None
      | Some (Inl e, w') \<Rightarrow> if e = Interrupted then tr_write_all T buf w' else Some (Inl e, w')
      | Some (Inr n, w') \<Rightarrow> if n = 0 then Some (Inl WriteZero, w') else tr_write_all T (drop n buf) w')"

definition pro_recv :: "'w transport \<Rightarrow> nat \<Rightarrow> ('w, octets) lio" where
  "pro_recv T n = lk_io (tr_read_exact T n [])"

subsection \<open>Sending\<close>

text \<open>Blocks of at most 4096 bytes, and never one of 512.\<close>

definition block_of :: "nat \<Rightarrow> nat" where
  "block_of n = (let block = min n MAX_WRITE_BLOCK in if block = 512 then 256 else block)"

lemma block_of_bounds: "0 < n \<Longrightarrow> 0 < block_of n" "block_of n \<le> n" "block_of n \<le> 4096" "block_of n \<noteq> 512"
  by (auto simp: block_of_def MAX_WRITE_BLOCK_def Let_def)

function pro_send_loop :: "'w transport \<Rightarrow> octets \<Rightarrow> ('w, unit) lio" where
  "pro_send_loop T rest =
     (if rest = [] then lk_return ()
      else
        lk_bind (lk_io (tr_write_all T (take (block_of (length rest)) rest))) (\<lambda>_.
          pro_send_loop T (drop (block_of (length rest)) rest)))"
  by pat_completeness auto
termination
  by (relation "measure (\<lambda>(T, rest). length rest)") (use block_of_bounds(1) in \<open>auto\<close>)

declare pro_send_loop.simps [simp del]

definition pro_send :: "'w transport \<Rightarrow> octets \<Rightarrow> ('w, unit) lio" where
  "pro_send T bytes = lk_bind (pro_send_loop T bytes) (\<lambda>_. lk_io (tr_flush T))"

text \<open>Before each block of up to 1024 bytes the cart sends \<open>0\<close>.\<close>

fun send_acked_blocks :: "'w transport \<Rightarrow> octets list \<Rightarrow> ('w, unit) lio" where
  "send_acked_blocks T [] = lk_return ()"
| "send_acked_blocks T (block # blocks) =
     lk_bind (pro_recv T 1) (\<lambda>ack.
       if ack ! 0 \<noteq> 0 then lk_fail (BadAck (ack ! 0))
       else lk_bind (pro_send T block) (\<lambda>_. send_acked_blocks T blocks))"

definition send_acked :: "'w transport \<Rightarrow> octets \<Rightarrow> ('w, unit) lio" where
  "send_acked T bytes = send_acked_blocks T (chunks ACK_BLOCK bytes)"

definition pro_epo :: "'w transport \<Rightarrow> endpoint \<Rightarrow> endpoint \<Rightarrow> u32 \<Rightarrow> u32 \<Rightarrow> u32 \<Rightarrow> ('w, unit) lio" where
  "pro_epo T src dst src_addr dst_addr len =
     pro_send T (scmd_frame CMD_EPO EPO_SCMD_XFER @ epo_xfer src dst src_addr dst_addr len)"

definition path_field :: "rstring \<Rightarrow> link_error + octets" where
  "path_field path =
     (case string_field path of None \<Rightarrow> Inl (PathTooLong (length (utf8_bytes path))) | Some f \<Rightarrow> Inr f)"

definition lk_of :: "link_error + 'a \<Rightarrow> ('w, 'a) lio" where "lk_of r w = Some (r, w)"

definition path_command :: "'w transport \<Rightarrow> u8 \<Rightarrow> rstring \<Rightarrow> ('w, unit) lio" where
  "path_command T scmd path =
     lk_bind (lk_of (path_field path)) (\<lambda>f. pro_send T (scmd_frame CMD_FS scmd @ f))"

definition transfer_len :: "nat \<Rightarrow> link_error + u32" where
  "transfer_len n = (if n < 2 ^ 32 then Inr (of_nat n) else Inl (LinkIo InvalidInput))"

subsection \<open>Status\<close>

record identity =
  id_protocol :: u8
  id_device :: u8
  id_status :: u8

definition pro_identity :: "'w transport \<Rightarrow> ('w, identity) lio" where
  "pro_identity T =
     lk_bind (pro_send T (cmd_frame CMD_STATUS)) (\<lambda>_.
     lk_bind (pro_recv T 4) (\<lambda>i.
       if i ! 0 \<noteq> STATUS_KEY then lk_fail (UnexpectedStatusKey (i ! 0))
       else if i ! 1 \<noteq> PROTOCOL_ID then lk_fail (WrongProtocol (i ! 1))
       else lk_return \<lparr>id_protocol = i ! 1, id_device = i ! 2, id_status = i ! 3\<rparr>))"

definition check_status :: "'w transport \<Rightarrow> ('w, unit) lio" where
  "check_status T =
     lk_bind (pro_identity T) (\<lambda>i.
       if id_status i = 0 then lk_return ()
       else
         lk_bind (pro_send T (cmd_frame CMD_NRESP @ [id_status i])) (\<lambda>_.
         lk_bind (pro_recv T 1) (\<lambda>detail. lk_fail (Operation (id_status i) (Some (detail ! 0))))))"

definition OPEN_TIMEOUT :: nat where "OPEN_TIMEOUT = 200"
definition OPERATION_TIMEOUT :: nat where "OPERATION_TIMEOUT = 2000"
definition MAX_NAME_LEN :: u16 where "MAX_NAME_LEN = 1023"

text \<open>The handshake. A Gen2 cart answers both commands: its second reply is consumed, whether or not it
  comes.\<close>

definition lk_ignore :: "('w, 'a) lio \<Rightarrow> ('w, unit) lio" where
  "lk_ignore m w = map_option (\<lambda>(_, w'). (Inr (), w')) (m w)"

definition pro_connect :: "'w transport \<Rightarrow> ('w, unit) lio" where
  "pro_connect T =
     lk_bind (lk_io (tr_set_timeout T OPEN_TIMEOUT)) (\<lambda>_.
     lk_bind (lk_io (tr_write_all T (replicate WAKE_ZEROS 0))) (\<lambda>_.
     lk_bind (lk_io (tr_flush T)) (\<lambda>_.
     lk_bind (lk_io (tr_clear_input T)) (\<lambda>_.
     lk_bind (lk_io (tr_write_all T (cmd_frame CMD_STATUS2 @ cmd_frame CMD_STATUS))) (\<lambda>_.
     lk_bind (lk_io (tr_flush T)) (\<lambda>_.
     lk_bind (pro_recv T 2) (\<lambda>head.
       if head ! 0 \<noteq> STATUS_KEY then
         if head ! 0 = STATUS_KEY_LEGACY \<or> head ! 1 = STATUS_KEY_LEGACY then lk_fail (OtherConsole (head ! 1))
         else lk_fail (UnexpectedStatusKey (head ! 0))
       else
         lk_bind (pro_recv T 2) (\<lambda>tail.
           if head ! 1 = PROTOCOL_ID_MEGA \<or> head ! 1 = PROTOCOL_ID_N8 then
             lk_bind (lk_ignore (pro_recv T 2)) (\<lambda>_. lk_fail (OtherConsole (head ! 1)))
           else
             lk_bind (pro_identity T) (\<lambda>i.
               if id_device i \<noteq> DEVICE_ID_ED64_PRO then lk_fail (WrongDevice (id_device i))
               else lk_io (tr_set_timeout T OPERATION_TIMEOUT))))))))))"

subsection \<open>Files\<close>

definition fs_init :: "'w transport \<Rightarrow> ('w, unit) lio" where
  "fs_init T = lk_bind (pro_send T (scmd_frame CMD_FS FS_INIT)) (\<lambda>_. check_status T)"

definition file_open :: "'w transport \<Rightarrow> rstring \<Rightarrow> u8 \<Rightarrow> ('w, unit) lio" where
  "file_open T path mode =
     lk_bind (lk_of (path_field path)) (\<lambda>f.
     lk_bind (pro_send T (scmd_frame CMD_FS FS_FILE_OPEN @ [mode] @ f)) (\<lambda>_. check_status T))"

definition file_close :: "'w transport \<Rightarrow> ('w, unit) lio" where
  "file_close T = lk_bind (pro_send T (scmd_frame CMD_FS FS_FILE_CLOSE)) (\<lambda>_. check_status T)"

definition file_available :: "'w transport \<Rightarrow> ('w, nat) lio" where
  "file_available T =
     lk_bind (pro_send T (scmd_frame CMD_FS FS_AVAILABLE)) (\<lambda>_.
     lk_bind (pro_recv T 8) (\<lambda>b.
       lk_return (unat (be32_at b 0) + unat (be32_at b 4) * 2 ^ 32)))"

definition file_seek :: "'w transport \<Rightarrow> u32 \<Rightarrow> ('w, unit) lio" where
  "file_seek T position =
     lk_bind (pro_send T (scmd_frame CMD_FS FS_FILE_SEEK @ be32 position)) (\<lambda>_. check_status T)"

definition file_read :: "'w transport \<Rightarrow> nat \<Rightarrow> ('w, octets) lio" where
  "file_read T n =
     (if n = 0 then lk_return []
      else
        lk_bind (lk_of (transfer_len n)) (\<lambda>len.
        lk_bind (pro_epo T EpFile Link 0 0 len) (\<lambda>_.
        lk_bind (pro_recv T n) (\<lambda>bs.
        lk_bind (check_status T) (\<lambda>_. lk_return bs)))))"

definition file_write :: "'w transport \<Rightarrow> octets \<Rightarrow> ('w, unit) lio" where
  "file_write T bytes =
     (if bytes = [] then lk_return ()
      else
        lk_bind (lk_of (transfer_len (length bytes))) (\<lambda>len.
        lk_bind (pro_epo T LinkAck EpFile 0 0 len) (\<lambda>_.
        lk_bind (send_acked T bytes) (\<lambda>_. check_status T))))"

definition read_record :: "'w transport \<Rightarrow> ('w, file_info) lio" where
  "read_record T =
     lk_bind (pro_recv T 1) (\<lambda>resp.
       if resp ! 0 \<noteq> 0 then lk_fail (Operation (resp ! 0) None)
       else
         lk_bind (pro_recv T 9) (\<lambda>head.
         lk_bind (pro_recv T 2) (\<lambda>len.
         lk_bind (pro_recv T (unat (of_be16 (len ! 0) (len ! 1)))) (\<lambda>name.
           case file_info_head head of (sz, date, time, attributes) \<Rightarrow>
             lk_return \<lparr>info_size = sz, info_date = date, info_time = time, info_attributes = attributes,
               info_name = from_utf8_lossy name\<rparr>))))"

definition pro_file_info :: "'w transport \<Rightarrow> rstring \<Rightarrow> ('w, file_info) lio" where
  "pro_file_info T path =
     lk_bind (lk_of (path_field path)) (\<lambda>f.
     lk_bind (pro_send T (scmd_frame CMD_FS FS_FILE_INFO @ f)) (\<lambda>_. read_record T))"

text \<open>One record for each index from \<open>index\<close> on.\<close>

fun dir_get :: "'w transport \<Rightarrow> nat \<Rightarrow> nat \<Rightarrow> ('w, file_info list) lio" where
  "dir_get T index 0 = lk_return []"
| "dir_get T index (Suc left) =
     lk_bind (pro_send T (scmd_frame CMD_FS FS_DIR_GET @ be16 (of_nat index) @ be16 1 @ be16 MAX_NAME_LEN)) (\<lambda>_.
     lk_bind (read_record T) (\<lambda>i.
     lk_bind (dir_get T (index + 1) left) (\<lambda>is'. lk_return (i # is'))))"

definition dir_list :: "'w transport \<Rightarrow> rstring \<Rightarrow> u8 \<Rightarrow> ('w, file_info list) lio" where
  "dir_list T path options =
     lk_bind (lk_of (path_field path)) (\<lambda>f.
     lk_bind (pro_send T (scmd_frame CMD_FS FS_DIR_LOAD @ [options] @ f)) (\<lambda>_.
     lk_bind (check_status T) (\<lambda>_.
     lk_bind (pro_send T (scmd_frame CMD_FS FS_DIR_SIZE)) (\<lambda>_.
     lk_bind (pro_recv T 2) (\<lambda>count. dir_get T 0 (unat (of_be16 (count ! 0) (count ! 1))))))))"

definition dir_make :: "'w transport \<Rightarrow> rstring \<Rightarrow> ('w, unit) lio" where
  "dir_make T path = lk_bind (path_command T FS_DIR_MAKE path) (\<lambda>_. check_status T)"

definition pro_delete :: "'w transport \<Rightarrow> rstring \<Rightarrow> ('w, unit) lio" where
  "pro_delete T path = lk_bind (path_command T FS_DELETE path) (\<lambda>_. check_status T)"

definition file_exists :: "'w transport \<Rightarrow> rstring \<Rightarrow> ('w, bool) lio" where
  "file_exists T path =
     lk_bind (path_command T FS_FILE_TEST path) (\<lambda>_.
     lk_bind (pro_identity T) (\<lambda>i. lk_return (id_status i = 0)))"

definition dir_exists :: "'w transport \<Rightarrow> rstring \<Rightarrow> ('w, bool) lio" where
  "dir_exists T path =
     lk_bind (path_command T FS_DIR_TEST path) (\<lambda>_.
     lk_bind (pro_identity T) (\<lambda>i. lk_return (id_status i = 0)))"

subsection \<open>Memory and the link to a running ROM\<close>

definition mem_read :: "'w transport \<Rightarrow> u32 \<Rightarrow> nat \<Rightarrow> ('w, octets) lio" where
  "mem_read T addr n =
     (if n = 0 then lk_return []
      else
        lk_bind (lk_of (transfer_len n)) (\<lambda>len.
        lk_bind (pro_epo T Memory Link addr 0 len) (\<lambda>_.
        lk_bind (pro_recv T n) (\<lambda>bs.
        lk_bind (check_status T) (\<lambda>_. lk_return bs)))))"

definition mem_write :: "'w transport \<Rightarrow> u32 \<Rightarrow> octets \<Rightarrow> ('w, unit) lio" where
  "mem_write T addr bytes =
     (if bytes = [] then lk_return ()
      else
        lk_bind (lk_of (transfer_len (length bytes))) (\<lambda>len.
        lk_bind (pro_epo T Link Memory 0 addr len) (\<lambda>_. pro_send T bytes)))"

definition fifo_write :: "'w transport \<Rightarrow> octets \<Rightarrow> ('w, unit) lio" where
  "fifo_write T bytes = mem_write T FIFO_ADDR bytes"

text \<open>A read that fails after some bytes returns them.\<close>

partial_function (option) usb_read_loop ::
  "'w transport \<Rightarrow> nat \<Rightarrow> octets \<Rightarrow> 'w \<Rightarrow> ((link_error + octets) \<times> 'w) option" where
  "usb_read_loop T want got w =
     (if want \<le> length got then Some (Inr got, w)
      else case tr_read T (want - length got) w of
        None \<Rightarrow> None
      | Some (Inl e, w') \<Rightarrow>
          if e = Interrupted then usb_read_loop T want got w'
          else if got = [] then Some (Inl (LinkIo e), w')
          else Some (Inr got, w')
      | Some (Inr bs, w') \<Rightarrow>
          if bs = [] then Some (if got = [] then Inl (LinkIo UnexpectedEof) else Inr got, w')
          else usb_read_loop T want (got @ bs) w')"

definition usb_read :: "'w transport \<Rightarrow> nat \<Rightarrow> ('w, octets) lio" where
  "usb_read T cap =
     lk_bind (lk_io (tr_bytes_to_read T)) (\<lambda>waiting. usb_read_loop T (min (unat waiting) cap) [])"

definition discard_input :: "'w transport \<Rightarrow> ('w, unit) lio" where
  "discard_input T = lk_io (tr_clear_input T)"

end
