(* ===== verification/Pro_Session.thy ===== *)
theory Pro_Session
  imports Pro_Device
begin

text \<open>
  SD access on an EverDrive-64 PRO at file level, from \<open>crates/multi64-sc64-sd/src/ed64pro.rs\<close>: looking
  entries up, copying files to and from the PC, folders, renaming by copy, and deleting. The file on the PC
  and the temporary file of a rename are the record \<open>host_file\<close>.
\<close>

subsection \<open>Commands as I/O\<close>

text \<open>Refusals of the cart become \<open>Other\<close>; failures of the transport keep their kind.\<close>

fun link_err :: "link_error \<Rightarrow> io_kind" where
  "link_err (LinkIo e) = e"
| "link_err (PathTooLong n) = InvalidInput"
| "link_err e = OtherKind"

definition linked :: "('w, 'a) lio \<Rightarrow> ('w, 'a) io" where
  "linked m w = map_option (\<lambda>(r, w'). (map_sum link_err id r, w')) (m w)"

record 'w pro_dev =
  pd_fs_init :: "('w, unit) io"
  pd_dir_list :: "rstring \<Rightarrow> ('w, file_info list) io"
  pd_file_open :: "rstring \<Rightarrow> u8 \<Rightarrow> ('w, unit) io"
  pd_file_close :: "('w, unit) io"
  pd_file_available :: "('w, nat) io"
  pd_file_read :: "nat \<Rightarrow> ('w, octets) io"
  pd_file_write :: "octets \<Rightarrow> ('w, unit) io"
  pd_dir_make :: "rstring \<Rightarrow> ('w, unit) io"
  pd_delete :: "rstring \<Rightarrow> ('w, unit) io"

definition pro_dev_of :: "'w transport \<Rightarrow> 'w pro_dev" where
  "pro_dev_of T =
     \<lparr>pd_fs_init = linked (fs_init T),
      pd_dir_list = (\<lambda>path. linked (dir_list T path DIR_SORTED)),
      pd_file_open = (\<lambda>path mode. linked (file_open T path mode)),
      pd_file_close = linked (file_close T),
      pd_file_available = linked (file_available T),
      pd_file_read = (\<lambda>n. linked (file_read T n)),
      pd_file_write = (\<lambda>bs. linked (file_write T bs)),
      pd_dir_make = (\<lambda>path. linked (dir_make T path)),
      pd_delete = (\<lambda>path. linked (pro_delete T path))\<rparr>"

definition from_device :: "'w pro_dev \<Rightarrow> ('w, unit) io" where
  "from_device D = pd_fs_init D"

subsection \<open>Paths and entries\<close>

definition ATTR_HIDDEN_PRO :: u8 where "ATTR_HIDDEN_PRO = 0x02"
definition CHUNK :: nat where "CHUNK = 64 * 1024"

definition pro_path :: "rstring \<Rightarrow> rstring" where
  "pro_path path = trim_end (\<lambda>c. c = SLASH) (dropWhile (\<lambda>c. c = SLASH) (slashes (str_trim path)))"

definition join_path :: "rstring \<Rightarrow> rstring \<Rightarrow> rstring" where
  "join_path parent name = (if parent = [] then name else parent @ SLASH # name)"

definition pro_entry :: "rstring \<Rightarrow> file_info \<Rightarrow> session_entry" where
  "pro_entry parent i =
     \<lparr>se_name = info_name i, se_path = join_path parent (info_name i), se_is_dir = info_is_dir i,
      se_size = (if info_is_dir i then 0 else unat (info_size i)),
      se_hidden = (info_attributes i AND ATTR_HIDDEN_PRO \<noteq> 0 \<or> (info_name i \<noteq> [] \<and> hd (info_name i) = DOT))\<rparr>"

definition pro_list_dir :: "'w pro_dev \<Rightarrow> rstring \<Rightarrow> ('w, session_entry list) io" where
  "pro_list_dir D path =
     (let dir = pro_path path in
      io_bind (pd_dir_list D dir) (\<lambda>infos.
        io_return (map (pro_entry dir) (filter (\<lambda>i. info_name i \<noteq> [DOT] \<and> info_name i \<noteq> [DOT, DOT]) infos))))"

text \<open>A folder that cannot be listed is absent only if the folder above it, listed, does not show it as a
  folder.\<close>

lemma length_cart_path_parts:
  assumes "cart_path_parts path = (parent, name)" "name \<noteq> []"
  shows "length parent < length path"
proof -
  have trim: "length (trim_end p s) \<le> length s" for p s
    using length_dropWhile_le [of p "rev s"] by (simp add: trim_end_def)
  let ?p = "trim_end (\<lambda>c. c = SLASH) (dropWhile (\<lambda>c. c = SLASH) (slashes (str_trim path)))"
  have "length ?p \<le> length path"
    using trim [of "\<lambda>c. c = SLASH" "dropWhile (\<lambda>c. c = SLASH) (slashes (str_trim path))"]
      length_dropWhile_le [of "\<lambda>c. c = SLASH" "slashes (str_trim path)"]
      trim [of is_whitespace "dropWhile is_whitespace path"] length_dropWhile_le [of is_whitespace path]
    by (simp add: slashes_def str_trim_def)
  with assms show ?thesis
    by (auto simp: cart_path_parts_def Let_def rsplit_once_Some split: if_splits option.splits)
qed

function find_entry ::
  "(nat \<Rightarrow> nat list) \<Rightarrow> 'w pro_dev \<Rightarrow> rstring \<Rightarrow> ('w, session_entry option) io" where
  "find_entry upper D path w =
     (let (parent, name) = cart_path_parts path in
      if name = [] then Some (Inr None, w)
      else case pro_list_dir D parent w of
        None \<Rightarrow> None
      | Some (Inr es, w') \<Rightarrow> Some (Inr (find (\<lambda>e. fat_names_equal upper (se_name e) name) es), w')
      | Some (Inl e, w') \<Rightarrow>
          if parent \<noteq> [] \<and> e = OtherKind then
            (case find_entry upper D parent w' of
               None \<Rightarrow> None
             | Some (Inl e', w'') \<Rightarrow> Some (Inl e', w'')
             | Some (Inr found, w'') \<Rightarrow>
                 if (\<exists>p. found = Some p \<and> se_is_dir p) then Some (Inl e, w'') else Some (Inr None, w''))
          else Some (Inl e, w'))"
  by pat_completeness auto
termination
  by (relation "measure (\<lambda>(upper, D, path, w). length path)") (auto dest: length_cart_path_parts [OF sym])

declare find_entry.simps [simp del]

definition cart_path_entry_kind ::
  "(nat \<Rightarrow> nat list) \<Rightarrow> 'w pro_dev \<Rightarrow> rstring \<Rightarrow> ('w, bool option) io" where
  "cart_path_entry_kind upper D path =
     io_bind (find_entry upper D path) (\<lambda>found. io_return (map_option se_is_dir found))"

text \<open>No case folding: this spelling is listed.\<close>

definition find_exact :: "'w pro_dev \<Rightarrow> rstring \<Rightarrow> ('w, session_entry option) io" where
  "find_exact D path =
     (case cart_path_parts path of
        (parent, name) \<Rightarrow>
          io_bind (pro_list_dir D parent) (\<lambda>es. io_return (find (\<lambda>e. se_name e = name) es)))"

subsection \<open>Copies\<close>

text \<open>A file on the PC: \<open>create\<close> to \<open>finish\<close> write a temporary file and put it in place
  (\<open>write_host_file\<close>), \<open>discard\<close> removes it; \<open>open\<close> and \<open>read\<close> are the buffered reader. \<open>keep\<close> leaves
  the file of a rename in place and \<open>drop\<close> removes it.\<close>

record 'h host_file =
  hf_create :: "'h \<Rightarrow> (io_kind + unit) \<times> 'h"
  hf_write :: "octets \<Rightarrow> 'h \<Rightarrow> (io_kind + unit) \<times> 'h"
  hf_finish :: "'h \<Rightarrow> (io_kind + unit) \<times> 'h"
  hf_discard :: "'h \<Rightarrow> (io_kind + unit) \<times> 'h"
  hf_open :: "'h \<Rightarrow> (io_kind + unit) \<times> 'h"
  hf_read :: "nat \<Rightarrow> 'h \<Rightarrow> (io_kind + octets) \<times> 'h"
  hf_keep :: "'h \<Rightarrow> (io_kind + unit) \<times> 'h"
  hf_drop :: "'h \<Rightarrow> (io_kind + unit) \<times> 'h"

function copy_out_loop ::
  "'w pro_dev \<Rightarrow> 'h host_file \<Rightarrow> 'h progress \<Rightarrow> nat \<Rightarrow> ('h \<times> 'w, unit) io" where
  "copy_out_loop D H progress remaining =
     (if 0 < remaining then
        let n = min remaining CHUNK in
        io_bind (on_volume (pd_file_read D n)) (\<lambda>buf.
        io_bind (on_source (hf_write H buf)) (\<lambda>_.
        io_bind (on_source (goes_on progress n)) (\<lambda>go.
          if go then copy_out_loop D H progress (remaining - n) else io_fail Interrupted)))
      else io_return ())"
  by pat_completeness auto
termination
  by (relation "measure (\<lambda>(D, H, progress, remaining). remaining)") (auto simp: CHUNK_def)

declare copy_out_loop.simps [simp del]

text \<open>\<open>write_host_file\<close>: only a complete file takes the place of the destination.\<close>

definition write_host_file :: "'h host_file \<Rightarrow> ('h \<times> 'w, unit) io \<Rightarrow> ('h \<times> 'w, unit) io" where
  "write_host_file H fill =
     io_bind (on_source (hf_create H)) (\<lambda>_ s.
       case io_bind fill (\<lambda>_. on_source (hf_finish H)) s of
         None \<Rightarrow> None
       | Some (Inl e, s') \<Rightarrow> map_option (\<lambda>(_, s''). (Inl e, s'')) (on_source (hf_discard H) s')
       | Some (Inr u, s') \<Rightarrow> Some (Inr u, s'))"

text \<open>The file is closed whatever happened; \<open>result.and(closed)\<close>.\<close>

definition copy_file_to_host ::
  "'w pro_dev \<Rightarrow> 'h host_file \<Rightarrow> 'h progress \<Rightarrow> rstring \<Rightarrow> ('h \<times> 'w, unit) io" where
  "copy_file_to_host D H progress cart_file =
     io_bind (on_volume (pd_file_open D (pro_path cart_file) MODE_READ)) (\<lambda>_ s.
       case write_host_file H
           (io_bind (on_volume (pd_file_available D)) (\<lambda>remaining. copy_out_loop D H progress remaining)) s of
         None \<Rightarrow> None
       | Some (result, s') \<Rightarrow>
           map_option (\<lambda>(closed, s''). (case result of Inl e \<Rightarrow> Inl e | Inr _ \<Rightarrow> closed, s''))
             (on_volume (pd_file_close D) s'))"

text \<open>\<open>read_full\<close> fills the buffer unless the reader ends first; an interrupted read is made again.\<close>

partial_function (option) read_full ::
  "'h host_file \<Rightarrow> nat \<Rightarrow> octets \<Rightarrow> 'h \<Rightarrow> ((io_kind + octets) \<times> 'h) option" where
  "read_full H want filled h =
     (if want \<le> length filled then Some (Inr filled, h)
      else case hf_read H (want - length filled) h of
        (Inl e, h') \<Rightarrow> if e = Interrupted then read_full H want filled h' else Some (Inl e, h')
      | (Inr bs, h') \<Rightarrow> if bs = [] then Some (Inr filled, h') else read_full H want (filled @ bs) h')"

definition on_host :: "('h \<Rightarrow> ((io_kind + 'a) \<times> 'h) option) \<Rightarrow> ('h \<times> 'w, 'a) io" where
  "on_host f s = map_option (\<lambda>(r, h'). (r, h', snd s)) (f (fst s))"

partial_function (option) copy_in_loop ::
  "'w pro_dev \<Rightarrow> 'h host_file \<Rightarrow> 'h progress \<Rightarrow> 'h \<times> 'w \<Rightarrow> ((io_kind + unit) \<times> 'h \<times> 'w) option" where
  "copy_in_loop D H progress s =
     Option.bind (on_host (read_full H CHUNK []) s) (\<lambda>(r, s1).
       case r of
         Inl e \<Rightarrow> Some (Inl e, s1)
       | Inr buf \<Rightarrow>
           if buf = [] then Some (Inr (), s1)
           else Option.bind (on_volume (pd_file_write D buf) s1) (\<lambda>(r2, s2).
             case r2 of
               Inl e \<Rightarrow> Some (Inl e, s2)
             | Inr _ \<Rightarrow>
                 Option.bind (on_source (goes_on progress (length buf)) s2) (\<lambda>(r3, s3).
                   case r3 of
                     Inl e \<Rightarrow> Some (Inl e, s3)
                   | Inr go \<Rightarrow> if go then copy_in_loop D H progress s3 else Some (Inl Interrupted, s3))))"

definition MODE_REPLACE :: u8 where
  "MODE_REPLACE = MODE_WRITE OR MODE_CREATE_ALWAYS OR MODE_MAKE_PATH"

text \<open>The cart's file is emptied when it is opened, so the caller hears of it before the first chunk. An
  interrupted copy is deleted.\<close>

definition write_file_from_pc ::
  "'w pro_dev \<Rightarrow> 'h host_file \<Rightarrow> 'h progress \<Rightarrow> rstring \<Rightarrow> ('h \<times> 'w, unit) io" where
  "write_file_from_pc D H progress cart_path =
     io_bind (on_source (hf_open H)) (\<lambda>_.
     io_bind (on_volume (pd_file_open D (pro_path cart_path) MODE_REPLACE)) (\<lambda>_ s.
       case io_bind (on_source (goes_on progress 0)) (\<lambda>go.
           if go then copy_in_loop D H progress else io_fail Interrupted) s of
         None \<Rightarrow> None
       | Some (result, s1) \<Rightarrow>
           (case on_volume (pd_file_close D) s1 of
              None \<Rightarrow> None
            | Some (closed, s2) \<Rightarrow>
                (case result of
                   Inr _ \<Rightarrow> Some (closed, s2)
                 | Inl e \<Rightarrow>
                     if e = Interrupted
                     then map_option (\<lambda>(_, s3). (Inl e, s3)) (on_volume (pd_delete D (pro_path cart_path)) s2)
                     else Some (Inl e, s2)))))"

definition always_on :: "'h progress" where "always_on n h = (True, h)"

text \<open>A result as a value, so that a failure can be looked at.\<close>

definition io_try :: "('w, 'a) io \<Rightarrow> ('w, io_kind + 'a) io" where
  "io_try m w = map_option (\<lambda>(r, w'). (Inr r, w')) (m w)"

definition complete :: "nat \<Rightarrow> session_entry \<Rightarrow> bool" where
  "complete n f \<longleftrightarrow> \<not> se_is_dir f \<and> se_size f = n"

definition is_found :: "(session_entry \<Rightarrow> bool) \<Rightarrow> io_kind + session_entry option \<Rightarrow> bool" where
  "is_found p r = (case r of Inr (Some f) \<Rightarrow> p f | _ \<Rightarrow> False)"

definition copy_file_within_cart ::
  "'w pro_dev \<Rightarrow> 'h host_file \<Rightarrow> session_entry \<Rightarrow> rstring \<Rightarrow> ('h \<times> 'w, unit) io" where
  "copy_file_within_cart D H e dest s =
     (case copy_file_to_host D H always_on (se_path e) s of
        None \<Rightarrow> None
      | Some (Inl err, s1) \<Rightarrow> map_option (\<lambda>(_, s2). (Inl err, s2)) (on_source (hf_drop H) s1)
      | Some (Inr _, s1) \<Rightarrow>
          io_bind (io_try (write_file_from_pc D H always_on dest)) (\<lambda>uploaded.
          io_bind (on_volume (io_try (find_exact D (se_path e)))) (\<lambda>source.
          io_bind (on_volume (io_try (find_exact D dest))) (\<lambda>copy.
            let source_intact = is_found (complete (se_size e)) source;
                copy_listed = is_found (\<lambda>f. \<not> se_is_dir f) copy;
                copy_complete = (uploaded = Inr () \<and> is_found (complete (se_size e)) copy)
            in if source_intact \<and> copy_complete
               then io_bind (io_try (on_source (hf_drop H))) (\<lambda>_. io_return ())
               else
                 io_bind (if source_intact \<and> copy_listed then on_volume (io_try (pd_delete D dest))
                   else io_return (Inr ())) (\<lambda>_.
                 io_bind (io_try (on_source (if source_intact \<or> copy_complete then hf_drop H else hf_keep H))) (\<lambda>_.
                   io_fail (case uploaded of Inl err \<Rightarrow> err | Inr _ \<Rightarrow> OtherKind)))))) s1)"

subsection \<open>Folders, renaming and deleting\<close>

definition io_and :: "('w, bool) io \<Rightarrow> ('w, bool) io \<Rightarrow> ('w, bool) io" where
  "io_and a b = io_bind a (\<lambda>x. if x then b else io_return False)"

definition lists_folder :: "'w pro_dev \<Rightarrow> rstring \<Rightarrow> ('w, bool) io" where
  "lists_folder D path =
     io_bind (find_exact D path) (\<lambda>found. io_return (case found of None \<Rightarrow> False | Some f \<Rightarrow> se_is_dir f))"

text \<open>A failed look counts as not listed.\<close>

definition or_false :: "('w, bool) io \<Rightarrow> ('w, bool) io" where
  "or_false m = io_bind (io_try m) (\<lambda>r. io_return (r = Inr True))"

definition remove_folder_made_for_move :: "'w pro_dev \<Rightarrow> session_entry \<Rightarrow> rstring \<Rightarrow> ('w, bool) io" where
  "remove_folder_made_for_move D source made =
     io_and (or_false (lists_folder D (se_path source)))
    (io_and (or_false (lists_folder D made))
    (io_and (or_false (io_bind (pro_list_dir D made) (\<lambda>children. io_return (children = []))))
            (or_false (io_bind (pd_delete D made) (\<lambda>_. io_return True)))))"

text \<open>A folder is made at the new path and its children are moved one by one; a folder that contains itself
  would be followed for ever.\<close>

partial_function (option) move_entry ::
  "'w pro_dev \<Rightarrow> 'h host_file \<Rightarrow> session_entry \<Rightarrow> rstring \<Rightarrow> 'h \<times> 'w \<Rightarrow> ((io_kind + unit) \<times> 'h \<times> 'w) option" where
  "move_entry D H e dest s =
     (if se_is_dir e then
        Option.bind
          (io_bind (on_volume (pd_dir_make D dest)) (\<lambda>_.
             io_bind (on_volume (io_try (io_and (lists_folder D (se_path e)) (lists_folder D dest)))) (\<lambda>separate.
               if separate \<noteq> Inr True
               then io_bind (on_volume (remove_folder_made_for_move D e dest)) (\<lambda>_. io_fail OtherKind)
               else on_volume (pro_list_dir D (se_path e)))) s)
          (\<lambda>(r, s1).
             case r of
               Inl err \<Rightarrow> Some (Inl err, s1)
             | Inr children \<Rightarrow>
                 Option.bind (io_each (\<lambda>child. move_entry D H child (join_path dest (se_name child))) children s1)
                   (\<lambda>(r2, s2).
                      case r2 of
                        Inl err \<Rightarrow> Some (Inl err, s2)
                      | Inr _ \<Rightarrow> on_volume (pd_delete D (se_path e)) s2))
      else io_bind (copy_file_within_cart D H e dest) (\<lambda>_. on_volume (pd_delete D (se_path e))) s)"

definition rename_cart_pro ::
  "(nat \<Rightarrow> nat list) \<Rightarrow> 'w pro_dev \<Rightarrow> 'h host_file \<Rightarrow> rstring \<Rightarrow> rstring \<Rightarrow> ('h \<times> 'w, unit) io" where
  "rename_cart_pro upper D H from_path to_path =
     (case cart_path_parts from_path of
        (parent_from, name_from) \<Rightarrow>
          (case cart_path_parts to_path of
             (parent_to, name_to) \<Rightarrow>
               if parent_from \<noteq> parent_to then io_fail InvalidInput
               else if name_from = [] \<or> name_to = [] then io_fail InvalidInput
               else
                 io_bind (io_of (refuse_dot_name name_to)) (\<lambda>_.
                   if name_from = name_to then io_return ()
                   else if fat_names_equal upper name_from name_to then io_fail InvalidInput
                   else
                     io_bind (on_volume (find_entry upper D from_path)) (\<lambda>found.
                       case found of
                         None \<Rightarrow> io_fail NotFound
                       | Some source \<Rightarrow>
                           io_bind (on_volume (find_entry upper D to_path)) (\<lambda>other.
                             if other \<noteq> None then io_fail AlreadyExists
                             else move_entry D H source (join_path (pro_path parent_from) name_to))))))"

partial_function (option) remove_entry ::
  "'w pro_dev \<Rightarrow> session_entry \<Rightarrow> 'w \<Rightarrow> ((io_kind + unit) \<times> 'w) option" where
  "remove_entry D e w =
     (if se_is_dir e then
        Option.bind (pro_list_dir D (se_path e) w) (\<lambda>(r, w1).
          case r of
            Inl err \<Rightarrow> Some (Inl err, w1)
          | Inr children \<Rightarrow>
              Option.bind (io_each (remove_entry D) children w1) (\<lambda>(r2, w2).
                case r2 of
                  Inl err \<Rightarrow> Some (Inl err, w2)
                | Inr _ \<Rightarrow> pd_delete D (se_path e) w2))
      else pd_delete D (se_path e) w)"

definition remove_cart_path_pro ::
  "(nat \<Rightarrow> nat list) \<Rightarrow> 'w pro_dev \<Rightarrow> rstring \<Rightarrow> ('w, unit) io" where
  "remove_cart_path_pro upper D path =
     (if pro_path path = [] then io_fail InvalidInput
      else
        io_bind (find_entry upper D path) (\<lambda>found.
          case found of None \<Rightarrow> io_fail NotFound | Some e \<Rightarrow> remove_entry D e))"

fun mkdir_parts ::
  "(nat \<Rightarrow> nat list) \<Rightarrow> 'w pro_dev \<Rightarrow> rstring \<Rightarrow> rstring list \<Rightarrow> ('w, unit) io" where
  "mkdir_parts upper D before [] = io_return ()"
| "mkdir_parts upper D before (part # parts) =
     io_bind (io_of (refuse_dot_name part)) (\<lambda>_.
     io_bind (cart_path_entry_kind upper D (join_path before part)) (\<lambda>kind.
     io_bind (case kind of
         Some True \<Rightarrow> io_return ()
       | Some False \<Rightarrow> io_fail AlreadyExists
       | None \<Rightarrow> pd_dir_make D (join_path before part)) (\<lambda>_.
       mkdir_parts upper D (join_path before part) parts)))"

definition mkdir_cart_pro :: "(nat \<Rightarrow> nat list) \<Rightarrow> 'w pro_dev \<Rightarrow> rstring \<Rightarrow> ('w, unit) io" where
  "mkdir_cart_pro upper D path = mkdir_parts upper D [] (segments (pro_path path))"

text \<open>Sizes for progress; \<open>total\<close> is a \<open>u64\<close>.\<close>

primrec sum_each :: "('a \<Rightarrow> ('w, nat) io) \<Rightarrow> 'a list \<Rightarrow> nat \<Rightarrow> ('w, nat) io" where
  "sum_each f [] total' = io_return total'"
| "sum_each f (x # xs) total' = io_bind (f x) (\<lambda>n. sum_each f xs (total' + n))"

lemma sum_each_mono [partial_function_mono]:
  assumes "\<And>x w. mono_option (\<lambda>f. B f x w)"
  shows "mono_option (\<lambda>f. sum_each (B f) xs n w)"
proof (induction xs arbitrary: n w)
  case (Cons x xs)
  have "mono_option (\<lambda>f. Option.bind (B f x w)
      (\<lambda>(r, w'). case r of Inl e \<Rightarrow> Some (Inl e, w') | Inr v \<Rightarrow> sum_each (B f) xs (n + v) w'))"
  proof (rule bind_mono [OF assms])
    fix rw :: "(io_kind + nat) \<times> 'b"
    obtain r w' where rw: "rw = (r, w')" by fastforce
    show "mono_option (\<lambda>f. case rw of (r, w') \<Rightarrow> (case r of Inl e \<Rightarrow> Some (Inl e, w') | Inr v \<Rightarrow> sum_each (B f) xs (n + v) w'))"
      by (cases r) (use Cons.IH in \<open>simp_all add: rw option.const_mono\<close>)
  qed
  then show ?case by (simp add: io_bind_bind)
qed (simp add: option.const_mono)

partial_function (option) dir_total_bytes ::
  "'w pro_dev \<Rightarrow> rstring \<Rightarrow> 'w \<Rightarrow> ((io_kind + nat) \<times> 'w) option" where
  "dir_total_bytes D dir w =
     Option.bind (pro_list_dir D dir w) (\<lambda>(r, w1).
       case r of
         Inl err \<Rightarrow> Some (Inl err, w1)
       | Inr es \<Rightarrow>
           sum_each (\<lambda>e w2. if se_is_dir e then dir_total_bytes D (se_path e) w2 else Some (Inr (se_size e), w2)) es 0 w1)"

definition total_bytes_for_cart_entry ::
  "(nat \<Rightarrow> nat list) \<Rightarrow> 'w pro_dev \<Rightarrow> rstring \<Rightarrow> ('w, nat) io" where
  "total_bytes_for_cart_entry upper D path =
     io_bind (find_entry upper D path) (\<lambda>found.
       case found of
         None \<Rightarrow> io_fail NotFound
       | Some e \<Rightarrow> if se_is_dir e then dir_total_bytes D (se_path e) else io_return (se_size e))"

end
