(* ===== verification/Pro_Rename.thy ===== *)
theory Pro_Rename
  imports Pro_Session Fat_Replace
begin

text \<open>
  A rename on the EverDrive-64 PRO copies the file and then deletes the original, and keeps its data whatever
  fails (\<open>rename_cart\<close> of \<open>crates/multi64-sc64-sd/src/ed64pro.rs\<close>). \<open>pro_cart\<close> is what is relied on about the
  cart, \<open>pc_file\<close> about the file on the PC. Which names the cart takes for the same is not assumed.
\<close>

subsection \<open>The cart\<close>

text \<open>\<open>files\<close> is the data of every file, \<open>key\<close> the file a path leads to, \<open>names\<close> how the entries of a folder are
  listed, and \<open>cur\<close> the open file: whether it was opened to be written, which one, and the position. Two
  names listed in one folder are two files. A command that fails may have been carried out in part.\<close>

locale pro_cart =
  fixes ok :: "'w \<Rightarrow> bool"
    and files :: "'w \<Rightarrow> 'k \<Rightarrow> octets option"
    and names :: "'w \<Rightarrow> rstring \<Rightarrow> rstring set"
    and cur :: "'w \<Rightarrow> (bool \<times> 'k \<times> nat) option"
    and key :: "rstring \<Rightarrow> 'k"
    and D :: "'w pro_dev"
  assumes listed_apart: "ok w \<Longrightarrow> n \<in> names w dir \<Longrightarrow> m \<in> names w dir \<Longrightarrow> n \<noteq> m \<Longrightarrow>
      key (join_path dir n) \<noteq> key (join_path dir m)"
    and lists: "ok w \<Longrightarrow> does (pd_dir_list D dir) w (\<lambda>r w'. alters ok files {} w w' \<and> names w' = names w \<and>
      (\<forall>infos. r = Inr infos \<longrightarrow> (\<forall>i \<in> set infos. info_name i \<in> names w dir \<and>
        (\<not> info_is_dir i \<longrightarrow> (\<exists>x. files w (key (join_path dir (info_name i))) = Some x \<and> length x = unat (info_size i))))))"
    and opens: "ok w \<Longrightarrow> does (pd_file_open D p MODE_READ) w (\<lambda>r w'. alters ok files {} w w' \<and>
      (r = Inr () \<longrightarrow> files w (key p) \<noteq> None \<and> cur w' = Some (False, key p, 0)))"
    and empties: "ok w \<Longrightarrow> does (pd_file_open D p MODE_REPLACE) w (\<lambda>r w'. alters ok files {key p} w w' \<and>
      (files w' (key p) = files w (key p) \<or> files w' (key p) = Some []) \<and>
      (r = Inr () \<longrightarrow> files w' (key p) = Some [] \<and> cur w' = Some (True, key p, 0)))"
    and available: "ok w \<Longrightarrow> cur w = Some (b, k, pos) \<Longrightarrow> files w k = Some x \<Longrightarrow>
      does (pd_file_available D) w (\<lambda>r w'. alters ok files {} w w' \<and> cur w' = cur w \<and>
        (\<forall>left. r = Inr left \<longrightarrow> left = length x - pos))"
    and gives: "ok w \<Longrightarrow> cur w = Some (b, k, pos) \<Longrightarrow> files w k = Some x \<Longrightarrow>
      does (pd_file_read D want) w (\<lambda>r w'. alters ok files {} w w' \<and> (\<exists>pos'. cur w' = Some (b, k, pos')) \<and>
        (\<forall>bs. r = Inr bs \<longrightarrow> bs = take want (drop pos x) \<and> length bs = want \<and>
          cur w' = Some (b, k, pos + want)))"
    and takes: "ok w \<Longrightarrow> cur w = Some (True, k, pos) \<Longrightarrow> files w k = Some x \<Longrightarrow> pos = length x \<Longrightarrow>
      does (pd_file_write D bs) w (\<lambda>r w'. alters ok files {k} w w' \<and>
        (\<exists>ys zs pos'. bs = ys @ zs \<and> files w' k = Some (x @ ys) \<and> cur w' = Some (True, k, pos') \<and>
          (r = Inr () \<longrightarrow> zs = [] \<and> pos' = length (x @ ys))))"
    and closes: "ok w \<Longrightarrow> cur w = Some (b, k, pos) \<Longrightarrow> files w k = Some x \<Longrightarrow>
      does (pd_file_close D) w (\<lambda>r w'. alters ok files (if b then {k} else {}) w w' \<and>
        (\<exists>ys zs. x = ys @ zs \<and> files w' k = Some ys \<and> (r = Inr () \<longrightarrow> zs = [])))"
    and deletes: "ok w \<Longrightarrow> does (pd_delete D p) w (\<lambda>r w'. alters ok files {key p} w w' \<and>
      (files w' (key p) = None \<or> files w' (key p) = files w (key p)) \<and> (r = Inr () \<longrightarrow> files w' (key p) = None))"

text \<open>\<open>pending\<close> is what was written to the temporary file, \<open>pc\<close> the file itself, \<open>unread\<close> what its reader
  still gives, and \<open>saved\<close> the copies left for the user.\<close>

locale pc_file =
  fixes pending :: "'h \<Rightarrow> octets" and pc :: "'h \<Rightarrow> octets option" and unread :: "'h \<Rightarrow> octets"
    and saved :: "'h \<Rightarrow> octets set" and H :: "'h host_file"
  assumes creates: "hf_create H h = (r, h') \<Longrightarrow> saved h' = saved h \<and> (r = Inr () \<longrightarrow> pending h' = [])"
    and appends: "hf_write H bs h = (r, h') \<Longrightarrow> saved h' = saved h \<and> (r = Inr () \<longrightarrow> pending h' = pending h @ bs)"
    and finishes: "hf_finish H h = (r, h') \<Longrightarrow> saved h' = saved h \<and> (r = Inr () \<longrightarrow> pc h' = Some (pending h))"
    and discards: "hf_discard H h = (r, h') \<Longrightarrow> saved h' = saved h"
    and opens_pc: "hf_open H h = (r, h') \<Longrightarrow> saved h' = saved h \<and> pc h' = pc h \<and> (r = Inr () \<longrightarrow> pc h = Some (unread h'))"
    and reads_pc: "read_full H CHUNK [] h = Some (got, h') \<Longrightarrow> saved h' = saved h \<and> pc h' = pc h \<and>
      (\<forall>bs. got = Inr bs \<longrightarrow> unread h = bs @ unread h' \<and> (bs = [] \<longrightarrow> unread h = []))"
    and returns_pc: "\<exists>got h'. read_full H CHUNK [] h = Some (got, h')"
    and keeps: "hf_keep H h = (r, h') \<Longrightarrow> pc h = Some x \<Longrightarrow> saved h' = insert x (saved h)"
    and drops: "hf_drop H h = (r, h') \<Longrightarrow> saved h' = saved h"

text \<open>A name that leads back to itself: no blanks at the ends of the path, no slash in the name.\<close>

definition plain_name :: "rstring \<Rightarrow> rstring \<Rightarrow> bool" where
  "plain_name dir n \<longleftrightarrow>
     pro_path (join_path dir n) = join_path dir n \<and>
     map_prod pro_path id (cart_path_parts (join_path dir n)) = (dir, n)"

text \<open>A file being written holds a prefix of what it will hold.\<close>

definition partly :: "octets option \<Rightarrow> octets \<Rightarrow> bool" where
  "partly held x \<longleftrightarrow> (\<exists>ys zs. x = ys @ zs \<and> held = Some ys)"

locale pro_rename = pro_cart ok files names cur key D + pc_file pending pc unread saved H
  for ok :: "'w \<Rightarrow> bool" and files :: "'w \<Rightarrow> 'k \<Rightarrow> octets option" and names cur key D
    and pending :: "'h \<Rightarrow> octets" and pc unread saved H
begin

abbreviation "altered \<equiv> alters ok files"

lemma does_try: "does (io_try m) w Q \<longleftrightarrow> does m w (\<lambda>r. Q (Inr r))"
  by (auto simp: does_def io_try_def)

lemma copies_out_loop:
  assumes "ok w" "cur w = Some (False, k, pos)" "files w k = Some x" "remaining = length x - pos" "pos \<le> length x"
    and "pending h = take pos x"
  shows "does (copy_out_loop D H always_on remaining) (h, w) (\<lambda>r (h', w'). altered {} w w' \<and> saved h' = saved h \<and>
    (\<exists>pos'. cur w' = Some (False, k, pos')) \<and> (r = Inr () \<longrightarrow> pending h' = x))"
  using assms
proof (induction remaining arbitrary: h w pos rule: less_induct)
  case (less remaining)
  let ?Q = "\<lambda>r (h', w'). altered {} w w' \<and> saved h' = saved h \<and>
    (\<exists>pos'. cur w' = Some (False, k, pos')) \<and> (r = Inr () \<longrightarrow> pending h' = x)"
  show ?case
  proof (cases "0 < remaining")
    case False
    with less.prems show ?thesis by (simp add: copy_out_loop.simps [of D H always_on 0] alters_refl)
  next
    case True
    define n where "n = min remaining CHUNK"
    have n: "0 < n" "n \<le> remaining" using True by (simp_all add: n_def CHUNK_def)
    have "does (io_bind (on_volume (pd_file_read D n)) (\<lambda>buf.
        io_bind (on_source (hf_write H buf)) (\<lambda>_.
        io_bind (on_source (goes_on always_on n)) (\<lambda>go.
          if go then copy_out_loop D H always_on (remaining - n) else io_fail Interrupted)))) (h, w) ?Q"
    proof (rule does_bind_same [OF does_on_volume [OF gives [OF less.prems(1-3)]]], goal_cases)
      case (1 r s)
      then obtain w1 where s: "s = (h, w1)" and w1: "altered {} w w1" "\<exists>pos'. cur w1 = Some (False, k, pos')"
        "\<forall>bs. r = Inr bs \<longrightarrow> bs = take n (drop pos x) \<and> length bs = n \<and> cur w1 = Some (False, k, pos + n)"
        by (auto split: prod.splits)
      show ?case
      proof (cases r)
        case (Inl e)
        with w1 show ?thesis by (simp add: s)
      next
        case (Inr bs)
        with w1 have bs: "bs = take n (drop pos x)" "cur w1 = Some (False, k, pos + n)" by auto
        have "does (io_bind (on_source (hf_write H bs)) (\<lambda>_.
          io_bind (on_source (goes_on always_on n)) (\<lambda>go.
            if go then copy_out_loop D H always_on (remaining - n) else io_fail Interrupted))) (h, w1) ?Q"
        proof (rule does_bind_same [where Q = "\<lambda>r s. \<exists>h1. s = (h1, w1) \<and> saved h1 = saved h \<and>
            (r = Inr () \<longrightarrow> pending h1 = take pos x @ bs)"], goal_cases)
          case 1
          then show ?case by (rule does_on_source) (use appends less.prems(6) in fastforce)
        next
          case (2 r2 s2)
          then obtain h1 where h1: "s2 = (h1, w1)" "saved h1 = saved h" "r2 = Inr () \<Longrightarrow> pending h1 = take pos x @ bs"
            by blast
          show ?case
          proof (cases r2)
            case (Inl e)
            with h1 w1 show ?thesis by simp
          next
            case (Inr u)
            have "does (copy_out_loop D H always_on (remaining - n)) (h1, w1)
              (\<lambda>r (h', w'). altered {} w1 w' \<and> saved h' = saved h1 \<and> (\<exists>pos'. cur w' = Some (False, k, pos')) \<and>
                (r = Inr () \<longrightarrow> pending h' = x))"
            proof (rule less.IH [where pos = "pos + n"])
              show "ok w1" using w1(1) by (rule alters_ok)
              show "files w1 k = Some x" using w1(1) less.prems(3) by (simp add: alters_def)
              show "pending h1 = take (pos + n) x" using h1(3) Inr bs(1) by (simp add: take_add)
            qed (use n less.prems bs in auto)
            then have "does (copy_out_loop D H always_on (remaining - n)) (h1, w1) ?Q"
              by (rule does_mono) (use w1 h1 in \<open>auto intro: alters_trans\<close>)
            with Inr h1 show ?thesis
              by (simp add: does_def io_bind_def on_source_def goes_on_def always_on_def)
          qed
        qed
        with Inr show ?thesis by (simp add: s)
      qed
    qed
    with True show ?thesis by (simp add: copy_out_loop.simps [of D H always_on remaining] n_def [symmetric] Let_def)
  qed
qed

lemma copies_out:
  assumes "ok w"
  shows "does (copy_file_to_host D H always_on p) (h, w) (\<lambda>r (h', w'). altered {} w w' \<and> saved h' = saved h \<and>
    (r = Inr () \<longrightarrow> (\<exists>x. files w (key (pro_path p)) = Some x \<and> pc h' = Some x)))"
  (is "does _ _ ?Q")
  unfolding copy_file_to_host_def
proof (rule does_bind_same [OF does_on_volume [OF opens [OF assms]]], goal_cases)
  case (1 r s)
  then obtain w1 where s: "s = (h, w1)" and w1: "altered {} w w1"
    "r = Inr () \<Longrightarrow> files w (key (pro_path p)) \<noteq> None \<and> cur w1 = Some (False, key (pro_path p), 0)"
    by (auto split: prod.splits)
  let ?k = "key (pro_path p)"
  show ?case
  proof (cases r)
    case (Inl e)
    with w1 show ?thesis by (simp add: s)
  next
    case (Inr u)
    with w1 obtain x where x: "files w ?k = Some x" "cur w1 = Some (False, ?k, 0)" by auto
    then have x1: "files w1 ?k = Some x" using w1(1) by (simp add: alters_def)
    let ?P = "\<lambda>r s. \<exists>h' w' pos'. s = (h', w') \<and> altered {} w w' \<and> saved h' = saved h \<and> cur w' = Some (False, ?k, pos') \<and>
      (r = Inr () \<longrightarrow> pc h' = Some x)"
    let ?fill = "io_bind (on_volume (pd_file_available D)) (\<lambda>remaining. copy_out_loop D H always_on remaining)"
    have fill: "does ?fill (h1, w1) (\<lambda>r s. \<exists>h' w' pos'. s = (h', w') \<and> altered {} w w' \<and> saved h' = saved h \<and>
        cur w' = Some (False, ?k, pos') \<and> (r = Inr () \<longrightarrow> pending h' = x))"
      if h1: "saved h1 = saved h" "pending h1 = []" for h1
    proof (rule does_bind_same [OF does_on_volume [OF available [OF alters_ok [OF w1(1)] x(2) x1]]], goal_cases)
      case (1 r2 s2)
      then obtain w2 where s2: "s2 = (h1, w2)" and w2: "altered {} w1 w2" "cur w2 = Some (False, ?k, 0)"
          "\<forall>n. r2 = Inr n \<longrightarrow> n = length x"
        using x(2) by (auto split: prod.splits)
      have w2': "altered {} w w2" using alters_trans [OF w1(1) w2(1)] by blast
      show ?case
      proof (cases r2)
        case (Inl e)
        with w2 w2' h1 show ?thesis by (auto simp: s2)
      next
        case (Inr n)
        have "does (copy_out_loop D H always_on n) (h1, w2) (\<lambda>r (h', w'). altered {} w2 w' \<and> saved h' = saved h1 \<and>
          (\<exists>pos'. cur w' = Some (False, ?k, pos')) \<and> (r = Inr () \<longrightarrow> pending h' = x))"
        proof (rule copies_out_loop [where pos = 0])
          show "files w2 ?k = Some x" using w2(1) x1 by (simp add: alters_def)
        qed (use w2 Inr h1 alters_ok [OF w2(1)] in auto)
        then have "does (copy_out_loop D H always_on n) (h1, w2) (\<lambda>r s. \<exists>h' w' pos'. s = (h', w') \<and> altered {} w w' \<and>
            saved h' = saved h \<and> cur w' = Some (False, ?k, pos') \<and> (r = Inr () \<longrightarrow> pending h' = x))"
          by (rule does_mono) (use h1 w2' in \<open>auto intro: alters_trans\<close>)
        with Inr show ?thesis by (simp add: s2)
      qed
    qed
    have host: "does (write_host_file H ?fill) (h, w1) ?P"
      unfolding write_host_file_def
    proof (rule does_bind_same [where Q = "\<lambda>r s. \<exists>h1. s = (h1, w1) \<and> saved h1 = saved h \<and>
        (r = Inr () \<longrightarrow> pending h1 = [])"], goal_cases)
      case 1
      show ?case by (rule does_on_source) (use creates in fastforce)
    next
      case (2 r2 s2)
      then obtain h1 where h1: "s2 = (h1, w1)" "saved h1 = saved h" "r2 = Inr () \<Longrightarrow> pending h1 = []" by blast
      show ?case
      proof (cases r2)
        case (Inl e)
        with h1 w1 x show ?thesis by auto
      next
        case (Inr u)
        then have empty: "pending h1 = []" using h1(3) by simp
        have "does (io_bind ?fill (\<lambda>_. on_source (hf_finish H))) (h1, w1) ?P"
        proof (rule does_bind_same [OF fill [OF h1(2) empty]], goal_cases)
          case (1 r3 s3)
          then obtain h3 w3 pos3 where s3: "s3 = (h3, w3)" "altered {} w w3" "saved h3 = saved h"
              "cur w3 = Some (False, ?k, pos3)" "r3 = Inr () \<Longrightarrow> pending h3 = x" by blast
          obtain r4 h4 where fin: "hf_finish H h3 = (r4, h4)" by fastforce
          from finishes [OF fin] s3 fin show ?case
            by (cases r3) (auto simp: does_def on_source_def)
        qed
        then obtain r3 s3 where r3: "io_bind ?fill (\<lambda>_. on_source (hf_finish H)) (h1, w1) = Some (r3, s3)" "?P r3 s3"
          unfolding does_def by blast
        then obtain h3 w3 pos3 where s3: "s3 = (h3, w3)" "altered {} w w3" "saved h3 = saved h"
            "cur w3 = Some (False, ?k, pos3)" "r3 = Inr () \<Longrightarrow> pc h3 = Some x" by blast
        obtain r4 h4 where disc: "hf_discard H h3 = (r4, h4)" by fastforce
        from discards [OF disc] disc r3(1) s3 Inr h1 show ?thesis
          by (cases r3) (auto simp: does_def on_source_def)
      qed
    qed
    then obtain r3 s3 where r3: "write_host_file H ?fill (h, w1) = Some (r3, s3)" "?P r3 s3"
      unfolding does_def by blast
    then obtain h3 w3 pos3 where s3: "s3 = (h3, w3)" "altered {} w w3" "saved h3 = saved h"
        "cur w3 = Some (False, ?k, pos3)" "r3 = Inr () \<Longrightarrow> pc h3 = Some x" by blast
    have "files w3 ?k = Some x" using s3(2) x(1) by (simp add: alters_def)
    from closes [OF alters_ok [OF s3(2)] s3(4) this] obtain r4 w4 where
      close: "pd_file_close D w3 = Some (r4, w4)" "altered {} w3 w4" unfolding does_def by auto
    have w4: "altered {} w w4" using alters_trans [OF s3(2) close(2)] by blast
    show ?thesis
      using r3(1) s3(1,3,5) close(1) w4 x(1) Inr
      by (cases r3) (auto simp: s does_def on_volume_def)
  qed
qed

lemma copies_in_loop:
  assumes "ok w" "cur w = Some (True, k, length ys)" "files w k = Some ys" "pc h = Some x" "x = ys @ unread h"
  shows "does (copy_in_loop D H always_on) (h, w) (\<lambda>r (h', w'). altered {k} w w' \<and> saved h' = saved h \<and> pc h' = pc h \<and>
    (\<exists>pos'. cur w' = Some (True, k, pos')) \<and> partly (files w' k) x \<and> (r = Inr () \<longrightarrow> files w' k = Some x))"
  using assms
proof (induction "length (unread h)" arbitrary: h w ys rule: less_induct)
  case less
  let ?Q = "\<lambda>r (h', w'). altered {k} w w' \<and> saved h' = saved h \<and> pc h' = pc h \<and>
    (\<exists>pos'. cur w' = Some (True, k, pos')) \<and> partly (files w' k) x \<and> (r = Inr () \<longrightarrow> files w' k = Some x)"
  have part: "partly (files w k) x" using less.prems(3,5) by (simp add: partly_def)
  obtain r h1 where got: "read_full H CHUNK [] h = Some (r, h1)" using returns_pc by blast
  note h1 = reads_pc [OF got]
  show ?case
  proof (cases r)
    case (Inl e)
    with got h1 less.prems part show ?thesis
      by (simp add: copy_in_loop.simps [of D H always_on "(h, w)"] does_def on_host_def alters_refl)
  next
    case (Inr bs)
    with h1 have bs: "unread h = bs @ unread h1" "bs = [] \<Longrightarrow> unread h = []" by auto
    show ?thesis
    proof (cases "bs = []")
      case True
      with bs(2) got Inr h1 less.prems part show ?thesis
        by (simp add: copy_in_loop.simps [of D H always_on "(h, w)"] does_def on_host_def alters_refl)
    next
      case False
      from takes [OF less.prems(1-3) refl, of bs] obtain r2 w2 as zs pos2 where
        w2: "pd_file_write D bs w = Some (r2, w2)" "altered {k} w w2" "bs = as @ zs" "files w2 k = Some (ys @ as)"
          "cur w2 = Some (True, k, pos2)" "r2 = Inr () \<Longrightarrow> zs = [] \<and> pos2 = length (ys @ as)"
        unfolding does_def by blast
      have part2: "partly (files w2 k) x"
        using w2(3,4) less.prems(5) bs(1) by (auto simp: partly_def)
      show ?thesis
      proof (cases r2)
        case (Inl e)
        with False Inr got h1 w2 part2 show ?thesis
          by (auto simp: copy_in_loop.simps [of D H always_on "(h, w)"] does_def on_host_def on_volume_def)
      next
        case (Inr u)
        with w2(3-6) have w2': "files w2 k = Some (ys @ bs)" "cur w2 = Some (True, k, length (ys @ bs))" by auto
        have "does (copy_in_loop D H always_on) (h1, w2) (\<lambda>r (h', w'). altered {k} w2 w' \<and> saved h' = saved h1 \<and>
          pc h' = pc h1 \<and> (\<exists>pos'. cur w' = Some (True, k, pos')) \<and> partly (files w' k) x \<and>
          (r = Inr () \<longrightarrow> files w' k = Some x))"
          by (rule less.hyps [OF _ alters_ok [OF w2(2)] w2'(2,1)]) (use False bs(1) h1 less.prems(4,5) in auto)
        then have "does (copy_in_loop D H always_on) (h1, w2) ?Q"
          by (rule does_mono) (use h1 alters_trans [OF w2(2)] in auto)
        with False \<open>r = Inr bs\<close> Inr got w2(1) show ?thesis
          by (simp add: copy_in_loop.simps [of D H always_on "(h, w)"] does_def on_host_def on_volume_def on_source_def goes_on_def always_on_def)
      qed
    qed
  qed
qed

text \<open>An upload puts the PC's file under the name, or leaves what was there, a part, or nothing.\<close>

lemma uploads:
  assumes "ok w" "pc h = Some x" and k: "k = key (pro_path p)"
  shows "does (write_file_from_pc D H always_on p) (h, w) (\<lambda>r (h', w'). altered {k} w w' \<and> saved h' = saved h \<and>
    pc h' = Some x \<and> (files w' k = files w k \<or> files w' k = None \<or> partly (files w' k) x) \<and>
    (r = Inr () \<longrightarrow> files w' k = Some x))"
  (is "does _ _ ?Q")
proof -
  obtain r1 h1 where h1: "hf_open H h = (r1, h1)" by fastforce
  note host = opens_pc [OF h1]
  from empties [OF assms(1), of "pro_path p"] obtain r2 w2 where w2: "pd_file_open D (pro_path p) MODE_REPLACE w = Some (r2, w2)"
      "altered {k} w w2" "files w2 k = files w k \<or> files w2 k = Some []"
      "r2 = Inr () \<Longrightarrow> files w2 k = Some [] \<and> cur w2 = Some (True, k, 0)"
    unfolding does_def k by blast
  show ?thesis
  proof (cases "r1 = Inr () \<and> r2 = Inr ()")
    case False
    then show ?thesis
    proof (cases r1)
      case (Inl e)
      with h1 host assms(1,2) show ?thesis
        by (simp add: write_file_from_pc_def does_def io_bind_def on_source_def alters_refl)
    next
      case (Inr u)
      with False obtain e where "r2 = Inl e" by (cases r2) auto
      with Inr h1 host assms(2) w2(1-3) show ?thesis
        by (auto simp: write_file_from_pc_def does_def io_bind_def on_source_def on_volume_def partly_def)
    qed
  next
    case True
    with host w2(4) have start: "unread h1 = x" "saved h1 = saved h" "pc h1 = Some x" "files w2 k = Some []"
        "cur w2 = Some (True, k, 0)"
      using assms(2) by auto
    have "does (copy_in_loop D H always_on) (h1, w2) (\<lambda>r (h', w'). altered {k} w2 w' \<and> saved h' = saved h1 \<and>
        pc h' = pc h1 \<and> (\<exists>pos'. cur w' = Some (True, k, pos')) \<and> partly (files w' k) x \<and>
        (r = Inr () \<longrightarrow> files w' k = Some x))"
      by (rule copies_in_loop [OF alters_ok [OF w2(2)], where ys = "[]"]) (use start in auto)
    then obtain r3 h3 w3 pos3 where w3: "copy_in_loop D H always_on (h1, w2) = Some (r3, h3, w3)" "altered {k} w2 w3"
        "saved h3 = saved h" "pc h3 = Some x" "cur w3 = Some (True, k, pos3)" "partly (files w3 k) x"
        "r3 = Inr () \<Longrightarrow> files w3 k = Some x"
      unfolding does_def using start(2,3) by auto
    from w3(6) obtain ys zs where ys: "x = ys @ zs" "files w3 k = Some ys" by (auto simp: partly_def)
    from closes [OF alters_ok [OF w3(2)] w3(5) ys(2)] obtain r4 w4 as bs where
      w4: "pd_file_close D w3 = Some (r4, w4)" "altered {k} w3 w4" "ys = as @ bs" "files w4 k = Some as" "r4 = Inr () \<Longrightarrow> bs = []"
      unfolding does_def by auto
    have w4': "altered {k} w w4" using alters_trans [OF alters_trans [OF w2(2) w3(2)] w4(2)] by blast
    have part: "partly (files w4 k) x" using ys(1) w4(3,4) by (auto simp: partly_def)
    from deletes [OF alters_ok [OF w4(2)], of "pro_path p"] obtain r5 w5 where
      w5: "pd_delete D (pro_path p) w4 = Some (r5, w5)" "altered {k} w4 w5" "files w5 k = None \<or> files w5 k = files w4 k"
      unfolding does_def k by blast
    have w5': "altered {k} w w5" using alters_trans [OF w4' w5(2)] by blast
    have run: "write_file_from_pc D H always_on p (h, w) =
      (case r3 of
         Inr _ \<Rightarrow> Some (r4, h3, w4)
       | Inl e \<Rightarrow> if e = Interrupted then Some (Inl e, h3, w5) else Some (Inl e, h3, w4))"
      using True h1 w2(1) w3(1) w4(1) w5(1)
      by (simp add: write_file_from_pc_def io_bind_def on_source_def on_volume_def goes_on_def always_on_def
          split: sum.splits)
    show ?thesis
    proof (cases r3)
      case (Inl e)
      with run w3(3,4) w4' w5' part w5(3) show ?thesis
        by (cases "e = Interrupted") (auto simp: does_def)
    next
      case (Inr u)
      with w3(7) ys w4(3-5) have "r4 = Inr () \<Longrightarrow> files w4 k = Some x" by auto
      with Inr run w3(3,4) w4' part show ?thesis by (simp add: does_def)
    qed
  qed
qed

lemma lists_dir:
  assumes "ok w" "dir = pro_path p"
  shows "does (pro_list_dir D p) w (\<lambda>r w'. altered {} w w' \<and> names w' = names w \<and>
    (\<forall>es. r = Inr es \<longrightarrow> (\<forall>e \<in> set es. se_name e \<in> names w dir \<and> se_path e = join_path dir (se_name e) \<and>
      (\<not> se_is_dir e \<longrightarrow> (\<exists>x. files w (key (se_path e)) = Some x \<and> length x = se_size e)))))"
  unfolding pro_list_dir_def Let_def assms(2) [symmetric]
proof (rule does_bind_same [OF lists [OF assms(1), of dir]], goal_cases)
  case (1 r w1)
  then show ?case by (cases r) (auto simp: pro_entry_def)
qed

lemma looks_exact:
  assumes "ok w" "plain_name dir n"
  shows "does (find_exact D (join_path dir n)) w (\<lambda>r w'. altered {} w w' \<and> names w' = names w \<and>
    (\<forall>f. r = Inr (Some f) \<longrightarrow> n \<in> names w dir \<and>
      (\<not> se_is_dir f \<longrightarrow> (\<exists>x. files w (key (join_path dir n)) = Some x \<and> length x = se_size f))))"
proof -
  obtain parent where parts: "cart_path_parts (join_path dir n) = (parent, n)" "dir = pro_path parent"
    using assms(2) by (cases "cart_path_parts (join_path dir n)") (auto simp: plain_name_def)
  show ?thesis
    unfolding find_exact_def parts(1) prod.case
  proof (rule does_bind_same [OF lists_dir [OF assms(1) parts(2)]], goal_cases)
    case (1 r w1)
    show ?case
    proof (cases r)
      case (Inl e)
      with 1 show ?thesis by simp
    next
      case (Inr es)
      have "se_name f = n \<and> f \<in> set es" if "find (\<lambda>e. se_name e = n) es = Some f" for f
        using that by (auto simp: find_Some_iff)
      with Inr 1 show ?thesis by fastforce
    qed
  qed
qed

lemma looks_up: "ok w \<Longrightarrow> does (find_entry upper D p) w (\<lambda>r w'. altered {} w w' \<and> names w' = names w)"
proof (induction "length p" arbitrary: p w rule: less_induct)
  case less
  obtain parent n where parts: "cart_path_parts p = (parent, n)" by fastforce
  show ?case
  proof (cases "n = []")
    case True
    with parts less.prems show ?thesis by (simp add: find_entry.simps [of _ _ p] does_def alters_refl)
  next
    case False
    from lists_dir [OF less.prems refl, of parent] obtain r w1 where
      r: "pro_list_dir D parent w = Some (r, w1)" "altered {} w w1" "names w1 = names w"
      unfolding does_def by blast
    from less.hyps [OF length_cart_path_parts [OF parts False] alters_ok [OF r(2)]] obtain r2 w2 where
      r2: "find_entry upper D parent w1 = Some (r2, w2)" "altered {} w1 w2" "names w2 = names w1"
      unfolding does_def by blast
    have "altered {} w w2" using alters_trans [OF r(2) r2(2)] by blast
    with False parts r r2 show ?thesis
      by (simp add: find_entry.simps [of _ _ p] does_def split: sum.splits)
  qed
qed

lemma found_entry:
  assumes "ok w" "find_entry upper D p w = Some (Inr (Some e), w1)"
    and "cart_path_parts p = (parent, n)" "dir = pro_path parent"
  shows "fat_names_equal upper (se_name e) n \<and> se_path e = join_path dir (se_name e) \<and>
    (\<not> se_is_dir e \<longrightarrow> (\<exists>x. files w (key (se_path e)) = Some x \<and> length x = se_size e))"
proof -
  from lists_dir [OF assms(1,4)] obtain r w2 where r: "pro_list_dir D parent w = Some (r, w2)"
    "\<forall>es. r = Inr es \<longrightarrow> (\<forall>e \<in> set es. se_path e = join_path dir (se_name e) \<and>
      (\<not> se_is_dir e \<longrightarrow> (\<exists>x. files w (key (se_path e)) = Some x \<and> length x = se_size e)))"
    unfolding does_def by blast
  show ?thesis
  proof (cases r)
    case (Inl err)
    with assms(2,3) r(1) show ?thesis
      by (auto simp: find_entry.simps [of _ _ p] Let_def split: if_splits option.splits sum.splits)
  next
    case (Inr es)
    with assms(2,3) r(1) have "find (\<lambda>e. fat_names_equal upper (se_name e) n) es = Some e"
      by (auto simp: find_entry.simps [of _ _ p] Let_def split: if_splits)
    then have "e \<in> set es" "fat_names_equal upper (se_name e) n" by (auto simp: find_Some_iff)
    with Inr r(2) show ?thesis by blast
  qed
qed

text \<open>The copy of a file whose old and new names are plain names of one folder.\<close>

lemma copies_within:
  assumes "ok w" "plain_name dir (se_name e)" "plain_name dir n" "se_name e \<noteq> n"
    and e: "se_path e = join_path dir (se_name e)" "\<not> se_is_dir e"
    and x: "files w ks = Some x" "length x = se_size e"
    and ks: "ks = key (se_path e)" and dest: "dest = join_path dir n" and kd: "kd = key dest"
  shows "does (copy_file_within_cart D H e dest) (h, w) (\<lambda>r (h', w'). altered {kd} w w' \<and> saved h \<subseteq> saved h' \<and>
    (case r of
       Inr _ \<Rightarrow> ks \<noteq> kd \<and> files w' kd = Some x
     | Inl _ \<Rightarrow> files w' ks = Some x \<or> files w' kd = Some x \<or> x \<in> saved h'))"
  (is "does _ _ ?Q")
proof -
  have paths: "pro_path (se_path e) = se_path e" "pro_path dest = dest"
    using assms(2,3) by (auto simp: plain_name_def e(1) dest)
  from copies_out [OF assms(1), of "se_path e" h] obtain r1 h1 w1 where
    out: "copy_file_to_host D H always_on (se_path e) (h, w) = Some (r1, h1, w1)" "altered {} w w1" "saved h1 = saved h"
      "r1 = Inr () \<Longrightarrow> pc h1 = Some x"
    unfolding does_def paths ks [symmetric] using x(1) by auto
  have w1: "files w1 k = files w k" for k using out(2) by (simp add: alters_def)
  show ?thesis
  proof (cases r1)
    case (Inl err)
    obtain r h' where drop: "hf_drop H h1 = (r, h')" by fastforce
    have "altered {kd} w w1" using out(2) by (simp add: alters_def)
    with Inl out drop drops [OF drop] w1 x(1) show ?thesis
      by (simp add: copy_file_within_cart_def does_def on_source_def)
  next
    case (Inr u)
    with out(4) have pc: "pc h1 = Some x" by simp
    from uploads [OF alters_ok [OF out(2)] pc, of kd dest] obtain r2 h2 w2 where
      up: "write_file_from_pc D H always_on dest (h1, w1) = Some (r2, h2, w2)" "altered {kd} w1 w2" "saved h2 = saved h1"
        "pc h2 = Some x" "files w2 kd = files w1 kd \<or> files w2 kd = None \<or> partly (files w2 kd) x"
        "r2 = Inr () \<Longrightarrow> files w2 kd = Some x"
      unfolding does_def paths kd by auto
    from looks_exact [OF alters_ok [OF up(2)] assms(2)] obtain r3 w3 where
      source: "find_exact D (se_path e) w2 = Some (r3, w3)" "altered {} w2 w3" "names w3 = names w2"
        "\<forall>f. r3 = Inr (Some f) \<longrightarrow> se_name e \<in> names w2 dir \<and>
          (\<not> se_is_dir f \<longrightarrow> (\<exists>y. files w2 ks = Some y \<and> length y = se_size f))"
      unfolding does_def e(1) [symmetric] ks by blast
    from looks_exact [OF alters_ok [OF source(2)] assms(3)] obtain r4 w4 where
      copy: "find_exact D dest w3 = Some (r4, w4)" "altered {} w3 w4"
        "\<forall>f. r4 = Inr (Some f) \<longrightarrow> n \<in> names w3 dir"
      unfolding does_def dest by blast
    let ?intact = "is_found (complete (se_size e)) r3"
    let ?listed = "is_found (\<lambda>f. \<not> se_is_dir f) r4"
    let ?complete = "r2 = Inr () \<and> is_found (complete (se_size e)) r4"
    have same: "files w4 k = files w2 k" for k using source(2) copy(2) by (simp add: alters_def)
    have w4: "altered {kd} w w4"
      by (rule alters_trans [OF alters_trans [OF out(2) up(2)] alters_trans [OF source(2) copy(2)]]) auto
    have intact: "se_name e \<in> names w2 dir \<and> (\<exists>y. files w2 ks = Some y \<and> length y = length x)" if ?intact
      using that source(4) x(2) by (auto simp: is_found_def complete_def split: sum.splits option.splits)
    have listed: "n \<in> names w2 dir" if "?listed \<or> ?complete"
      using that copy(3) source(3) by (auto simp: is_found_def complete_def split: sum.splits option.splits)
    have apart: "ks \<noteq> kd" if "?intact" "?listed \<or> ?complete"
      using listed_apart [OF alters_ok [OF up(2)]] intact [OF that(1)] listed [OF that(2)] assms(4)
      unfolding ks kd e(1) dest by blast
    have held: "files w2 ks = Some x" if ?intact
    proof (cases "ks = kd")
      case False
      then show ?thesis using up(2) w1 x(1) by (simp add: alters_def)
    next
      case True
      with intact [OF that] up(5) w1 x(1) show ?thesis by (auto simp: partly_def)
    qed
    obtain rd hd' where drop: "hf_drop H h2 = (rd, hd')" by fastforce
    obtain rk hk where keep: "hf_keep H h2 = (rk, hk)" by fastforce
    have saved: "saved hd' = saved h" "saved hk = insert x (saved h)"
      using drops [OF drop] keeps [OF keep up(4)] up(3) out(3) by simp_all
    from deletes [OF alters_ok [OF copy(2)], of dest] obtain r5 w5 where
      del: "pd_delete D dest w4 = Some (r5, w5)" "altered {kd} w4 w5" unfolding does_def kd by blast
    have w5: "altered {kd} w w5" using alters_trans [OF w4 del(2)] by blast
    have run: "copy_file_within_cart D H e dest (h, w) =
      (let w' = (if ?intact \<and> ?listed then w5 else w4) in
       if ?intact \<and> ?complete then Some (Inr (), hd', w4)
       else Some (Inl (case r2 of Inl err \<Rightarrow> err | Inr _ \<Rightarrow> OtherKind), if ?intact \<or> ?complete then hd' else hk, w'))"
      using Inr out(1) up(1) source(1) copy(1) del(1) drop keep
      by (simp add: copy_file_within_cart_def io_bind_def io_try_def on_volume_def on_source_def Let_def)
    show ?thesis
    proof (cases "?intact \<and> ?complete")
      case True
      then have "ks \<noteq> kd" "files w4 kd = Some x" using apart up(6) same by auto
      with True run saved(1) w4 show ?thesis by (simp add: does_def Let_def)
    next
      case False
      have "files (if ?intact \<and> ?listed then w5 else w4) ks = Some x" if ?intact
      proof (cases ?listed)
        case True
        with apart that have "ks \<noteq> kd" by blast
        with True that held same del(2) show ?thesis by (simp add: alters_def)
      next
        case False
        with that held same show ?thesis by simp
      qed
      moreover have "files w4 kd = Some x" if ?complete using that up(6) same by simp
      ultimately show ?thesis
        using False run saved w4 w5 by (auto simp: does_def Let_def)
    qed
  qed
qed

lemma moves_file:
  assumes "ok w" "plain_name dir (se_name e)" "plain_name dir n" "se_name e \<noteq> n"
    and e: "se_path e = join_path dir (se_name e)" "\<not> se_is_dir e"
    and x: "files w ks = Some x" "length x = se_size e"
    and ks: "ks = key (se_path e)" and dest: "dest = join_path dir n" and kd: "kd = key dest"
  shows "does (move_entry D H e dest) (h, w) (\<lambda>r (h', w'). altered {ks, kd} w w' \<and> saved h \<subseteq> saved h' \<and>
    (case r of
       Inr _ \<Rightarrow> ks \<noteq> kd \<and> files w' kd = Some x \<and> files w' ks = None
     | Inl _ \<Rightarrow> files w' ks = Some x \<or> files w' kd = Some x \<or> x \<in> saved h'))"
proof -
  from copies_within [OF assms, of h] obtain r1 h1 w1 where copy:
    "copy_file_within_cart D H e dest (h, w) = Some (r1, h1, w1)" "altered {kd} w w1" "saved h \<subseteq> saved h1"
    "case r1 of Inr _ \<Rightarrow> ks \<noteq> kd \<and> files w1 kd = Some x
       | Inl _ \<Rightarrow> files w1 ks = Some x \<or> files w1 kd = Some x \<or> x \<in> saved h1"
    unfolding does_def by auto
  have w1: "altered {ks, kd} w w1" using copy(2) by (simp add: alters_def)
  show ?thesis
  proof (cases r1)
    case (Inl err)
    with copy w1 e(2) show ?thesis
      by (simp add: move_entry.simps [of D H e dest "(h, w)"] does_def io_bind_def)
  next
    case (Inr u)
    with copy(4) have done_: "ks \<noteq> kd" "files w1 kd = Some x" by auto
    from deletes [OF alters_ok [OF w1], of "se_path e"] obtain r2 w2 where del: "pd_delete D (se_path e) w1 = Some (r2, w2)"
      "altered {ks} w1 w2" "r2 = Inr () \<Longrightarrow> files w2 ks = None" unfolding does_def ks by blast
    have "altered {ks, kd} w w2" by (rule alters_trans [OF w1 del(2)]) auto
    moreover have "files w2 kd = Some x" using del(2) done_ by (simp add: alters_def)
    ultimately show ?thesis using Inr copy(1,3) del(1,3) done_(1) e(2)
      by (cases r2) (simp_all add: move_entry.simps [of D H e dest "(h, w)"] does_def io_bind_def on_volume_def)
  qed
qed

lemma rename_result:
  assumes "ok w" and from_parts: "cart_path_parts from_path = (parent, name_from)"
    and to_parts: "cart_path_parts to_path = (parent, name_to)" and dir: "dir = pro_path parent"
    and found: "find_entry upper D from_path w = Some (Inr (Some e), w0)" "\<not> se_is_dir e"
    and "name_from \<noteq> name_to" "plain_name dir (se_name e)" "plain_name dir name_to"
    and ks: "ks = key (join_path dir (se_name e))" and kd: "kd = key (join_path dir name_to)" and x: "files w ks = Some x"
  shows "does (rename_cart_pro upper D H from_path to_path) (h, w) (\<lambda>r (h', w'). altered {ks, kd} w w' \<and> saved h \<subseteq> saved h' \<and>
    (case r of
       Inr _ \<Rightarrow> ks \<noteq> kd \<and> files w' kd = Some x \<and> files w' ks = None
     | Inl _ \<Rightarrow> files w' ks = Some x \<or> files w' kd = Some x \<or> x \<in> saved h'))"
proof -
  let ?Q = "\<lambda>r (h', w'). altered {ks, kd} w w' \<and> saved h \<subseteq> saved h' \<and>
    (case r of
       Inr _ \<Rightarrow> ks \<noteq> kd \<and> files w' kd = Some x \<and> files w' ks = None
     | Inl _ \<Rightarrow> files w' ks = Some x \<or> files w' kd = Some x \<or> x \<in> saved h')"
  have early: "?Q (Inl err) (h, w')" if "altered {} w w'" for err w'
    using that x by (simp add: alters_def)
  note e = found_entry [OF assms(1) found(1) from_parts dir]
  have size: "length x = se_size e" using e found(2) x ks by auto
  from looks_up [OF assms(1), of upper from_path] found(1) have w0: "altered {} w w0" by (simp add: does_def)
  from looks_up [OF alters_ok [OF w0], of upper to_path] obtain r1 w1 where
    other: "find_entry upper D to_path w0 = Some (r1, w1)" "altered {} w0 w1" unfolding does_def by blast
  have w1: "altered {} w w1" using alters_trans [OF w0 other(2)] by blast
  show ?thesis
  proof (cases "name_from = [] \<or> name_to = [] \<or> refuse_dot_name name_to \<noteq> Inr () \<or>
      fat_names_equal upper name_from name_to \<or> r1 \<noteq> Inr None")
    case True
    then have "\<exists>err w'. rename_cart_pro upper D H from_path to_path (h, w) = Some (Inl err, h, w') \<and> altered {} w w'"
      using from_parts to_parts assms(7) found(1) other(1) w1 alters_refl [of ok w files "{}"] assms(1)
      by (cases r1) (auto simp: rename_cart_pro_def io_bind_def io_of_def on_volume_def refuse_dot_name_def split: option.splits)
    then show ?thesis using early by (auto simp: does_def)
  next
    case False
    then have run: "rename_cart_pro upper D H from_path to_path (h, w) =
        move_entry D H e (join_path dir name_to) (h, w1)"
      using from_parts to_parts assms(7) found(1) other(1) dir
      by (simp add: rename_cart_pro_def io_bind_def io_of_def on_volume_def)
    have "se_name e \<noteq> name_to" using False e by (auto simp: fat_names_equal_key)
    moreover have "files w1 ks = Some x" using w1 x by (simp add: alters_def)
    ultimately have "does (move_entry D H e (join_path dir name_to)) (h, w1) (\<lambda>r (h', w'). altered {ks, kd} w1 w' \<and>
      saved h \<subseteq> saved h' \<and>
      (case r of
         Inr _ \<Rightarrow> ks \<noteq> kd \<and> files w' kd = Some x \<and> files w' ks = None
       | Inl _ \<Rightarrow> files w' ks = Some x \<or> files w' kd = Some x \<or> x \<in> saved h'))"
      using moves_file [OF alters_ok [OF w1] assms(8,9), of ks x "join_path dir name_to" kd h] e found(2) size ks kd by simp
    then have "does (move_entry D H e (join_path dir name_to)) (h, w1) ?Q"
      by (rule does_mono) (use alters_trans [OF w1] in auto)
    then show ?thesis by (simp add: does_def run)
  qed
qed

end

subsection \<open>A rename keeps the file\<close>

text \<open>C6: renaming a file on the EverDrive-64 PRO never loses its data, whatever fails and whichever names the
  cart takes for the same. If the rename reports success, the file is under the new name only, with all its
  data. If it fails, the data is still in the file under the old name, or complete under the new one, or a
  copy of it is left on the PC. Of the card's files only the one the old name leads to and the one the new
  name leads to are touched.\<close>

theorem pro_rename_keeps_file:
  assumes "pro_cart ok files names cur key D" "pc_file pending pc unread saved H" "ok w"
    and "cart_path_parts from_path = (parent, name_from)" "cart_path_parts to_path = (parent, name_to)"
    and "dir = pro_path parent" "find_entry upper D from_path w = Some (Inr (Some e), w0)" "\<not> se_is_dir e"
    and "name_from \<noteq> name_to" "plain_name dir (se_name e)" "plain_name dir name_to"
    and "ks = key (join_path dir (se_name e))" "kd = key (join_path dir name_to)" "files w ks = Some x"
  shows "does (rename_cart_pro upper D H from_path to_path) (h, w) (\<lambda>r (h', w').
    alters ok files {ks, kd} w w' \<and> saved h \<subseteq> saved h' \<and>
    (case r of
       Inr _ \<Rightarrow> ks \<noteq> kd \<and> files w' kd = Some x \<and> files w' ks = None
     | Inl _ \<Rightarrow> files w' ks = Some x \<or> files w' kd = Some x \<or> x \<in> saved h'))"
proof -
  have "pro_rename ok files names cur key D pending pc unread saved H"
    by (simp add: pro_rename_def assms(1,2))
  from pro_rename.rename_result [OF this assms(3-14)] show ?thesis .
qed

subsection \<open>A cart in memory\<close>

text \<open>Files and how they are listed, and the open file; a path leads to the file of the same name. The PC's
  file is held with what is still to be read of it and the copies left.\<close>

record mem_cart =
  mc_files :: "rstring \<Rightarrow> octets option"
  mc_listing :: "rstring \<Rightarrow> rstring list"
  mc_cur :: "(bool \<times> rstring \<times> nat) option"

definition mem_info :: "(rstring \<Rightarrow> octets option) \<Rightarrow> rstring \<Rightarrow> rstring \<Rightarrow> file_info option" where
  "mem_info fs dir n =
     (case fs (join_path dir n) of
        None \<Rightarrow> None
      | Some x \<Rightarrow> Some \<lparr>info_size = of_nat (length x), info_date = 0, info_time = 0, info_attributes = 0, info_name = n\<rparr>)"

definition mem_dev :: "mem_cart pro_dev" where
  "mem_dev =
     \<lparr>pd_fs_init = io_return (),
      pd_dir_list = (\<lambda>dir w. Some (Inr (filter (\<lambda>i. \<exists>x. mc_files w (join_path dir (info_name i)) = Some x \<and> length x < 2 ^ 32)
        (List.map_filter (mem_info (mc_files w) dir) (mc_listing w dir))), w)),
      pd_file_open = (\<lambda>p mode w.
        if mode = MODE_REPLACE then Some (Inr (), w\<lparr>mc_files := (mc_files w)(p := Some []), mc_cur := Some (True, p, 0)\<rparr>)
        else if mc_files w p = None then Some (Inl OtherKind, w)
        else Some (Inr (), w\<lparr>mc_cur := Some (False, p, 0)\<rparr>)),
      pd_file_close = (\<lambda>w. Some (Inr (), w\<lparr>mc_cur := None\<rparr>)),
      pd_file_available = (\<lambda>w. Some (case mc_cur w of None \<Rightarrow> Inl OtherKind
        | Some (b, p, pos) \<Rightarrow> (case mc_files w p of None \<Rightarrow> Inl OtherKind | Some x \<Rightarrow> Inr (length x - pos)), w)),
      pd_file_read = (\<lambda>n w. case mc_cur w of None \<Rightarrow> Some (Inl OtherKind, w)
        | Some (b, p, pos) \<Rightarrow>
            (case mc_files w p of None \<Rightarrow> Some (Inl OtherKind, w)
             | Some x \<Rightarrow>
                 if length x < pos + n then Some (Inl OtherKind, w)
                 else Some (Inr (take n (drop pos x)), w\<lparr>mc_cur := Some (b, p, pos + n)\<rparr>))),
      pd_file_write = (\<lambda>bs w. case mc_cur w of None \<Rightarrow> Some (Inl OtherKind, w)
        | Some (b, p, pos) \<Rightarrow>
            (case mc_files w p of None \<Rightarrow> Some (Inl OtherKind, w)
             | Some x \<Rightarrow> Some (Inr (), w\<lparr>mc_files := (mc_files w)(p := Some (x @ bs)), mc_cur := Some (b, p, length (x @ bs))\<rparr>))),
      pd_dir_make = (\<lambda>p w. Some (Inl OtherKind, w)),
      pd_delete = (\<lambda>p w. Some (Inr (), w\<lparr>mc_files := (mc_files w)(p := None)\<rparr>))\<rparr>"

type_synonym pc_copy = "octets \<times> octets option \<times> octets \<times> octets set"

definition mem_host :: "pc_copy host_file" where
  "mem_host =
     \<lparr>hf_create = (\<lambda>(p, f, u, k). (Inr (), [], f, u, k)),
      hf_write = (\<lambda>bs (p, f, u, k). (Inr (), p @ bs, f, u, k)),
      hf_finish = (\<lambda>(p, f, u, k). (Inr (), p, Some p, u, k)),
      hf_discard = (\<lambda>h. (Inr (), h)),
      hf_open = (\<lambda>(p, f, u, k). (case f of None \<Rightarrow> (Inl NotFound, p, f, u, k) | Some x \<Rightarrow> (Inr (), p, f, x, k))),
      hf_read = (\<lambda>n (p, f, u, k). (Inr (take n u), p, f, drop n u, k)),
      hf_keep = (\<lambda>(p, f, u, k). (Inr (), p, f, u, case f of None \<Rightarrow> k | Some x \<Rightarrow> insert x k)),
      hf_drop = (\<lambda>h. (Inr (), h))\<rparr>"

lemma mem_read_full:
  "read_full mem_host CHUNK [] (p, f, u, k) = Some (Inr (take CHUNK u), p, f, drop CHUNK u, k)"
proof -
  have again: "read_full mem_host CHUNK bs (p, f, [], k) = Some (Inr bs, p, f, [], k)" for bs
    by (subst read_full.simps) (simp add: mem_host_def)
  show ?thesis
  proof (cases "take CHUNK u = []")
    case True
    then have "u = []" by (simp add: CHUNK_def)
    with again show ?thesis by simp
  next
    case False
    have full: "read_full mem_host CHUNK bs h = Some (Inr bs, h)" if "CHUNK \<le> length bs" for bs h
      using that by (subst read_full.simps) simp
    from False full [of "take CHUNK u"] again [of "take CHUNK u"] show ?thesis
      by (subst read_full.simps) (cases "CHUNK \<le> length u", auto simp: mem_host_def CHUNK_def)
  qed
qed

lemma mem_listed:
  assumes "i \<in> set (List.map_filter (mem_info fs dir) ns)" "\<exists>x. fs (join_path dir (info_name i)) = Some x \<and> length x < 2 ^ 32"
  shows "\<exists>x. fs (join_path dir (info_name i)) = Some x \<and> length x = unat (info_size i)"
proof -
  from assms(1) obtain n where "mem_info fs dir n = Some i" by (auto simp: List.map_filter_def)
  then obtain x where "fs (join_path dir n) = Some x" "info_name i = n" "info_size i = of_nat (length x)"
    by (auto simp: mem_info_def split: option.splits)
  with assms(2) show ?thesis by (auto simp: unat_of_nat)
qed

lemma CHUNK_positive: "CHUNK \<noteq> 0"
  by (simp add: CHUNK_def)

interpretation mem_rename: pro_rename "\<lambda>_. True" mc_files "\<lambda>w dir. {n. mc_files w (join_path dir n) \<noteq> None}" mc_cur "\<lambda>p. p"
  mem_dev "\<lambda>(p, f, u, k). p" "\<lambda>(p, f, u, k). f" "\<lambda>(p, f, u, k). u" "\<lambda>(p, f, u, k). k" mem_host
proof (unfold_locales, goal_cases)
  case (1 w n dir m)
  then show ?case by (simp add: join_path_def)
next
  case (2 w dir)
  then show ?case using mem_listed [of _ "mc_files w" dir "mc_listing w dir"]
    by (fastforce simp: mem_dev_def does_def alters_def)
next
  case (4 w p)
  then show ?case by (simp add: mem_dev_def does_def alters_def)
next
  case (15 h got h')
  then show ?case by (cases h) (auto simp: mem_read_full CHUNK_positive)
next
  case (16 h)
  then show ?case by (cases h) (auto simp: mem_read_full)
qed (auto simp: mem_dev_def does_def alters_def MODE_READ_def MODE_REPLACE_def MODE_WRITE_def MODE_CREATE_ALWAYS_def
    MODE_MAKE_PATH_def mem_host_def mem_read_full CHUNK_def split: option.splits)

lemma mem_laws:
  "pro_cart (\<lambda>_. True) mc_files (\<lambda>w dir. {n. mc_files w (join_path dir n) \<noteq> None}) mc_cur (\<lambda>p. p) mem_dev"
  "pc_file (\<lambda>(p, f, u, k). p) (\<lambda>(p, f, u, k). f) (\<lambda>(p, f, u, k). u) (\<lambda>(p, f, u, k). k) mem_host"
  by (rule mem_rename.pro_cart_axioms, rule mem_rename.pc_file_axioms)

lemmas mem_ops = arg_cong [OF mem_dev_def, of pd_dir_list, simplified] arg_cong [OF mem_dev_def, of pd_file_open, simplified]
  arg_cong [OF mem_dev_def, of pd_file_close, simplified] arg_cong [OF mem_dev_def, of pd_file_available, simplified]
  arg_cong [OF mem_dev_def, of pd_file_read, simplified] arg_cong [OF mem_dev_def, of pd_file_write, simplified]
  arg_cong [OF mem_dev_def, of pd_delete, simplified] arg_cong [OF mem_host_def, of hf_create, simplified]
  arg_cong [OF mem_host_def, of hf_write, simplified] arg_cong [OF mem_host_def, of hf_finish, simplified]
  arg_cong [OF mem_host_def, of hf_open, simplified] arg_cong [OF mem_host_def, of hf_drop, simplified]

lemmas mem_run = mem_ops io_bind_def on_volume_def on_source_def on_host_def goes_on_def always_on_def

lemma take_chunk2: "take CHUNK [a, b] = [a, b]" "drop CHUNK [a, b] = []"
  by (simp_all add: CHUNK_def)

text \<open>The file \<open>a\<close> becomes \<open>b\<close>.\<close>

definition mem_start :: mem_cart where
  "mem_start = \<lparr>mc_files = [[97] \<mapsto> [1, 2]], mc_listing = (\<lambda>_. [[97], [98]]), mc_cur = None\<rparr>"

theorem pro_rename_keeps_file_witness:
  "\<exists>h' w'. rename_cart_pro (\<lambda>c. [c]) mem_dev mem_host [97] [98] (([], None, [], {}), mem_start) = Some (Inr (), h', w') \<and>
     mc_files w' [98] = Some [1, 2] \<and> mc_files w' [97] = None"
proof -
  have parts: "cart_path_parts [97] = ([], [97])" "cart_path_parts [98] = ([], [98])" "pro_path [] = []"
      "pro_path [97] = [97]" "pro_path [98] = [98]"
    by (simp_all add: cart_path_parts_def pro_path_def slashes_def str_trim_def trim_end_def is_whitespace_def SLASH_def
        rsplit_once_def)
  let ?e = "pro_entry [] \<lparr>info_size = 2, info_date = 0, info_time = 0, info_attributes = 0, info_name = [97]\<rparr>"
  have found: "find_entry (\<lambda>c. [c]) mem_dev [97] mem_start = Some (Inr (Some ?e), mem_start)"
    "find_entry (\<lambda>c. [c]) mem_dev [98] mem_start = Some (Inr None, mem_start)"
    by (simp_all add: find_entry.simps [of _ _ "[_]"] parts pro_list_dir_def mem_dev_def mem_start_def List.map_filter_def
        mem_info_def join_path_def io_bind_def pro_entry_def DOT_def fat_names_equal_key
        fat_name_key_def encode_utf16_def encode_char_def fat_upcase_unit_def)
  let ?w = "\<lparr>mc_files = [[97] \<mapsto> [1, 2], [98] \<mapsto> [1, 2]], mc_listing = (\<lambda>_. [[97], [98]]), mc_cur = None\<rparr>"
  let ?h = "([1, 2], Some [1, 2], [], {}) :: pc_copy"
  have out: "copy_file_to_host mem_dev mem_host always_on [97] (([], None, [], {}), mem_start) = Some (Inr (), ?h, mem_start)"
    by (simp add: copy_file_to_host_def write_host_file_def copy_out_loop.simps mem_run parts mem_start_def CHUNK_def
        MODE_READ_def MODE_REPLACE_def MODE_WRITE_def MODE_CREATE_ALWAYS_def MODE_MAKE_PATH_def)
  have in': "write_file_from_pc mem_dev mem_host always_on [98] (?h, mem_start) = Some (Inr (), ?h, ?w)"
    by (simp add: write_file_from_pc_def copy_in_loop.simps mem_read_full mem_run parts mem_start_def take_chunk2)
  have look: "find_exact mem_dev [97] ?w = Some (Inr (Some ?e), ?w)"
    "find_exact mem_dev [98] ?w = Some (Inr (Some (?e\<lparr>se_name := [98], se_path := [98]\<rparr>)), ?w)"
    by (simp_all add: find_exact_def pro_list_dir_def mem_run List.map_filter_def mem_info_def join_path_def
        parts pro_entry_def DOT_def info_is_dir_def)
  have "copy_file_within_cart mem_dev mem_host ?e [98] (([], None, [], {}), mem_start) = Some (Inr (), ?h, ?w)"
    by (simp add: copy_file_within_cart_def out in' look io_try_def mem_run is_found_def complete_def pro_entry_def
        join_path_def info_is_dir_def)
  then have "\<exists>h' w'. rename_cart_pro (\<lambda>c. [c]) mem_dev mem_host [97] [98] (([], None, [], {}), mem_start) = Some (Inr (), h', w')"
    by (simp add: rename_cart_pro_def parts found refuse_dot_name_def fat_names_equal_key
        fat_name_key_def encode_utf16_def encode_char_def fat_upcase_unit_def move_entry.simps mem_run
        pro_entry_def info_is_dir_def join_path_def)
  moreover have "does (rename_cart_pro (\<lambda>c. [c]) mem_dev mem_host [97] [98]) (([], None, [], {}), mem_start)
    (\<lambda>r (h', w'). r = Inr () \<longrightarrow> mc_files w' [98] = Some [1, 2] \<and> mc_files w' [97] = None)"
    by (rule does_mono [OF pro_rename_keeps_file [OF mem_laws TrueI parts(1,2) refl found(1), of "[97]" "[98]"]])
      (auto simp: pro_entry_def info_is_dir_def parts plain_name_def join_path_def mem_start_def)
  ultimately show ?thesis by (auto simp: does_def)
qed

end
