(* ===== verification/Pro_Trees.thy ===== *)
theory Pro_Trees
  imports Pro_Session
begin

text \<open>
  Copying files and folders between the PC and an EverDrive-64 PRO, from
  \<open>crates/multi64-sc64-sd/src/ed64pro.rs\<close>. Paths of the PC are \<open>'p\<close>; its file system is the record
  \<open>host_tree\<close>, in which \<open>ht_file\<close> is the file at a path.
\<close>

subsection \<open>The PC's file system\<close>

record ('h, 'p) host_tree =
  ht_exists :: "'p \<Rightarrow> 'h \<Rightarrow> bool"
  ht_is_dir :: "'p \<Rightarrow> 'h \<Rightarrow> bool"
  ht_is_file :: "'p \<Rightarrow> 'h \<Rightarrow> bool"
  ht_join :: "'p \<Rightarrow> rstring \<Rightarrow> 'p"
  ht_parent :: "'p \<Rightarrow> 'p option"
  ht_create_dir_all :: "'p \<Rightarrow> 'h \<Rightarrow> (io_kind + unit) \<times> 'h"
  ht_read_dir :: "'p \<Rightarrow> 'h \<Rightarrow> (io_kind + (io_kind + rstring \<times> 'p) list) \<times> 'h"
  ht_metadata :: "'p \<Rightarrow> 'h \<Rightarrow> (io_kind + unit) \<times> 'h"
  ht_entry_is_dir :: "'p \<Rightarrow> 'h \<Rightarrow> (io_kind + bool) \<times> 'h"
  ht_file :: "'p \<Rightarrow> 'h host_file"

definition on_pc :: "('h \<Rightarrow> 'a) \<Rightarrow> ('h \<times> 'w, 'a) io" where
  "on_pc f s = Some (Inr (f (fst s)), s)"

text \<open>The \<open>?\<close> operator inside a \<open>partial_function\<close>.\<close>

abbreviation and_then :: "((io_kind + 'a) \<times> 's) option \<Rightarrow> ('a \<Rightarrow> 's \<Rightarrow> ((io_kind + 'b) \<times> 's) option) \<Rightarrow> ((io_kind + 'b) \<times> 's) option" where
  "and_then m f \<equiv> Option.bind m (\<lambda>(r, s). case r of Inl e \<Rightarrow> Some (Inl e, s) | Inr v \<Rightarrow> f v s)"

subsection \<open>To the PC\<close>

partial_function (option) copy_dir_to_host ::
  "'w pro_dev \<Rightarrow> ('h, 'p) host_tree \<Rightarrow> 'h progress \<Rightarrow> bool \<Rightarrow> rstring \<Rightarrow> 'p \<Rightarrow> 'h \<times> 'w \<Rightarrow>
     ((io_kind + unit) \<times> 'h \<times> 'w) option" where
  "copy_dir_to_host D P progress skip_existing cart_dir dest_dir s =
     and_then (on_source (ht_create_dir_all P dest_dir) s) (\<lambda>_ s1.
     and_then (on_volume (pro_list_dir D cart_dir) s1) (\<lambda>es s2.
       io_each (\<lambda>e s3.
         let sub = ht_join P dest_dir (se_name e) in
         if se_is_dir e then
           if ht_is_file P sub (fst s3) then Some (Inl AlreadyExists, s3)
           else copy_dir_to_host D P progress skip_existing (se_path e) sub s3
         else if skip_existing \<and> ht_exists P sub (fst s3) then Some (Inr (), s3)
         else copy_file_to_host D (ht_file P sub) progress (se_path e) s3) es s2))"

definition copy_cart_entry_to_host ::
  "(nat \<Rightarrow> nat list) \<Rightarrow> 'w pro_dev \<Rightarrow> ('h, 'p) host_tree \<Rightarrow> 'h progress \<Rightarrow> bool \<Rightarrow> rstring \<Rightarrow> 'p \<Rightarrow> ('h \<times> 'w, unit) io" where
  "copy_cart_entry_to_host upper D P progress skip_existing cart_path dest =
     io_bind (on_volume (find_entry upper D cart_path)) (\<lambda>found.
       case found of
         None \<Rightarrow> io_fail NotFound
       | Some e \<Rightarrow>
           if se_is_dir e then copy_dir_to_host D P progress skip_existing (se_path e) dest
           else
             io_bind (on_pc (\<lambda>h. (ht_exists P dest h, ht_is_dir P dest h))) (\<lambda>(exists', dir').
               if exists' \<and> dir' then io_fail AlreadyExists
               else if exists' \<and> skip_existing then io_return ()
               else
                 io_bind (case ht_parent P dest of None \<Rightarrow> io_return () | Some p \<Rightarrow> on_source (ht_create_dir_all P p)) (\<lambda>_.
                   copy_file_to_host D (ht_file P dest) progress (se_path e))))"

subsection \<open>From the PC\<close>

partial_function (option) import_dir ::
  "(nat \<Rightarrow> nat list) \<Rightarrow> 'w pro_dev \<Rightarrow> ('h, 'p) host_tree \<Rightarrow> 'h progress \<Rightarrow> bool \<Rightarrow> 'p \<Rightarrow> rstring \<Rightarrow> 'h \<times> 'w \<Rightarrow>
     ((io_kind + unit) \<times> 'h \<times> 'w) option" where
  "import_dir upper D P progress skip_existing src_dir cart_base s =
     and_then (on_source (ht_read_dir P src_dir) s) (\<lambda>entries s1.
       io_each (\<lambda>entry s2.
         case entry of
           Inl err \<Rightarrow> Some (Inl err, s2)
         | Inr (name, path) \<Rightarrow>
             let cart_sub = join_path cart_base name in
             and_then (on_source (ht_entry_is_dir P path) s2) (\<lambda>is_dir s3.
               if is_dir then
                 and_then (on_volume (cart_path_entry_kind upper D cart_sub) s3) (\<lambda>kind s4.
                   if kind = Some False then Some (Inl AlreadyExists, s4)
                   else
                     and_then (on_volume (mkdir_cart_pro upper D cart_sub) s4) (\<lambda>_ s5.
                       import_dir upper D P progress skip_existing path cart_sub s5))
               else
                 and_then (on_volume (cart_path_entry_kind upper D cart_sub) s3) (\<lambda>kind s4.
                   if kind = Some True then Some (Inl AlreadyExists, s4)
                   else if kind = Some False \<and> skip_existing then Some (Inr (), s4)
                   else write_file_from_pc D (ht_file P path) progress cart_sub s4))) entries s1)"

definition import_from_pc ::
  "(nat \<Rightarrow> nat list) \<Rightarrow> 'w pro_dev \<Rightarrow> ('h, 'p) host_tree \<Rightarrow> 'h progress \<Rightarrow> bool \<Rightarrow> 'p \<Rightarrow> rstring \<Rightarrow> rstring \<Rightarrow>
     ('h \<times> 'w, unit) io" where
  "import_from_pc upper D P progress skip_existing src cart_parent dest_name =
     io_bind (\<lambda>s. case on_source (ht_metadata P src) s of Some (Inl e, s') \<Rightarrow> Some (Inl OtherKind, s') | r \<Rightarrow> r) (\<lambda>_.
     io_bind (on_pc (\<lambda>h. (ht_is_file P src h, ht_is_dir P src h))) (\<lambda>(file', dir').
       let cart_root = join_path (pro_path cart_parent) dest_name in
       if file' then
         io_bind (on_volume (cart_path_entry_kind upper D cart_root)) (\<lambda>kind.
           if kind = Some True then io_fail AlreadyExists
           else if kind = Some False \<and> skip_existing then io_return ()
           else write_file_from_pc D (ht_file P src) progress cart_root)
       else if dir' then
         io_bind (on_volume (cart_path_entry_kind upper D cart_root)) (\<lambda>kind.
           if kind = Some False then io_fail AlreadyExists
           else
             io_bind (on_volume (mkdir_cart_pro upper D cart_root)) (\<lambda>_.
               import_dir upper D P progress skip_existing src cart_root))
       else io_fail InvalidInput))"

text \<open>A file that is already on the cart is left alone when the caller asks for that: nothing is opened to be
  written.\<close>

lemma import_skips_existing:
  assumes "ht_metadata P src h = (Inr (), h)" "ht_is_file P src h"
    and "find_entry upper D (join_path (pro_path cart_parent) dest_name) w = Some (Inr (Some e), w')" "\<not> se_is_dir e"
  shows "import_from_pc upper D P progress True src cart_parent dest_name (h, w) = Some (Inr (), h, w')"
  using assms
  by (simp add: import_from_pc_def io_bind_def on_source_def on_pc_def on_volume_def cart_path_entry_kind_def Let_def)

end
