(* ===== verification/Sc64_Link.thy ===== *)
theory Sc64_Link
  imports Sc64_Wire Exfat_Volume
begin

text \<open>
  The serial link to a SummerCart64's SD card and memory, \<open>crates/multi64-sc64-sd/src/link.rs\<close>: a command
  and its reply (\<open>send_cmp_raw\<close>), identification, the SD session, cart memory, and sectors. The serial port is
  the record \<open>serial\<close>; \<open>sc64_port\<close> says what a port with a cart behind it does, and over any such port the
  sector calls are the transport the FAT and exFAT layers are built on. Times are in nanoseconds.
\<close>

subsection \<open>The serial port\<close>

text \<open>The \<open>SerialPort\<close> trait. A read also says how long it took, and a sleep how much longer it lasted than
  asked, so that \<open>Instant::elapsed\<close> is the sum of the times passed.\<close>

record 'p serial =
  sr_set_timeout :: "nat \<Rightarrow> 'p \<Rightarrow> (io_kind + unit) \<times> 'p"
  sr_write_all :: "octets \<Rightarrow> 'p \<Rightarrow> (io_kind + unit) \<times> 'p"
  sr_flush :: "'p \<Rightarrow> (io_kind + unit) \<times> 'p"
  sr_read :: "nat \<Rightarrow> 'p \<Rightarrow> (io_kind + octets) \<times> nat \<times> 'p"
  sr_clear :: "'p \<Rightarrow> (io_kind + unit) \<times> 'p"
  sr_set_dtr :: "bool \<Rightarrow> 'p \<Rightarrow> (io_kind + unit) \<times> 'p"
  sr_sleep :: "nat \<Rightarrow> 'p \<Rightarrow> nat \<times> 'p"

definition MILLIS :: "nat \<Rightarrow> nat" where "MILLIS n = n * 1000000"
definition SECS :: "nat \<Rightarrow> nat" where "SECS n = MILLIS (n * 1000)"

definition SD_CARD_BUFFER_ADDR :: u32 where "SD_CARD_BUFFER_ADDR = 0x03FE0000"

definition memory_io_timeout :: "nat \<Rightarrow> nat" where
  "memory_io_timeout len = (if len \<le> 4096 then SECS 5 else SECS 30)"

definition sd_rw_timeout :: "nat \<Rightarrow> nat" where
  "sd_rw_timeout sector_count = min (SECS (8 + sector_count * 2 div 25)) (SECS 90)"

text \<open>The part of \<open>Sc64Link\<close> below the session cache.\<close>

record 'p sc64_wire =
  sw_port :: 'p
  sw_rb :: octets

subsection \<open>A command and its reply\<close>

lemma next_cmp_shrinks: "next_cmp buf = (Some c, r) \<Longrightarrow> length r < length buf"
proof (induction buf rule: next_cmp.induct)
  case (1 buf)
  obtain o' r1 where n: "next_event buf = (o', r1)" by fastforce
  show ?case
  proof (cases o')
    case None
    with n "1.prems" show ?thesis by (simp add: next_cmp.simps [of buf])
  next
    case (Some ev)
    with n have n: "next_event buf = (Some ev, r1)" by simp
    have "length r1 < length buf" by (rule sc64.pull_shrinks [OF n])
    moreover have "length r < length r1" if "ev = Pkt p" for p
      using that "1.IH" [OF n [symmetric]] "1.prems" n by (simp add: next_cmp.simps [of buf])
    ultimately show ?thesis
      using "1.prems" n by (cases ev) (fastforce simp: next_cmp.simps [of buf])+
  qed
qed

text \<open>Replies to other commands are dropped.\<close>

function next_cmp_for :: "u8 \<Rightarrow> octets \<Rightarrow> cmp_response option \<times> octets" where
  "next_cmp_for expect rb =
     (case next_cmp rb of
        (None, r) \<Rightarrow> (None, r)
      | (Some c, r) \<Rightarrow> if cmp_cmd_id c = expect then (Some c, r) else next_cmp_for expect r)"
  by pat_completeness auto
termination
  by (relation "measure (\<lambda>(expect, rb). length rb)") (auto dest: next_cmp_shrinks [OF sym])

declare next_cmp_for.simps [simp del]

function reply_loop ::
  "'p serial \<Rightarrow> u8 \<Rightarrow> nat \<Rightarrow> nat \<Rightarrow> 'p sc64_wire \<Rightarrow> (io_kind + cmp_response) \<times> 'p sc64_wire" where
  "reply_loop S expect total_timeout elapsed w =
     (if elapsed < total_timeout then
        (case sr_read S 512 (sw_port w) of
           (res, dt, p) \<Rightarrow>
             (case (case res of Inr bs \<Rightarrow> Inr bs | Inl e \<Rightarrow> if e = TimedOut then Inr [] else Inl e) of
                Inl e \<Rightarrow> (Inl e, w\<lparr>sw_port := p\<rparr>)
              | Inr bs \<Rightarrow>
                  (case next_cmp_for expect (sw_rb w @ bs) of
                     (Some r, rb) \<Rightarrow> (Inr r, \<lparr>sw_port = p, sw_rb = rb\<rparr>)
                   | (None, rb) \<Rightarrow>
                       (case sr_sleep S (MILLIS 1) p of
                          (over, p') \<Rightarrow>
                            reply_loop S expect total_timeout (elapsed + dt + MILLIS 1 + over)
                              \<lparr>sw_port = p', sw_rb = rb\<rparr>))))
      else (Inl TimedOut, w))"
  by pat_completeness auto
termination
  by (relation "measure (\<lambda>(S, expect, total_timeout, elapsed, w). total_timeout - elapsed)")
    (auto simp: MILLIS_def)

declare reply_loop.simps [simp del]

definition send_cmp_raw ::
  "'p serial \<Rightarrow> octets \<Rightarrow> u8 \<Rightarrow> nat \<Rightarrow> 'p sc64_wire \<Rightarrow> (io_kind + cmp_response) \<times> 'p sc64_wire" where
  "send_cmp_raw S cmd expect total_timeout w =
     (case sr_write_all S cmd (sw_port w) of
        (Inl e, p) \<Rightarrow> (Inl e, w\<lparr>sw_port := p\<rparr>)
      | (Inr _, p) \<Rightarrow>
          (case sr_flush S p of
             (Inl e, p') \<Rightarrow> (Inl e, w\<lparr>sw_port := p'\<rparr>)
           | (Inr _, p') \<Rightarrow> reply_loop S expect total_timeout 0 (w\<lparr>sw_port := p'\<rparr>)))"

text \<open>What every command makes of its reply: an \<open>ERR\<close> becomes an error of kind \<open>Other\<close>.\<close>

definition cmp_reply :: "(io_kind + cmp_response) \<times> 'w \<Rightarrow> (io_kind + octets) \<times> 'w" where
  "cmp_reply rw =
     (case rw of
        (Inl e, w) \<Rightarrow> (Inl e, w)
      | (Inr r, w) \<Rightarrow> if cmp_ok r then (Inr (cmp_data r), w) else (Inl OtherKind, w))"

subsection \<open>Commands\<close>

definition SC_PREFIX :: octets where "SC_PREFIX = [0x53, 0x43]"

definition sc64_identify :: "'p serial \<Rightarrow> 'p sc64_wire \<Rightarrow> (io_kind + unit) \<times> 'p sc64_wire" where
  "sc64_identify S w =
     (case cmp_reply (send_cmp_raw S (cmd_packet CMD_IDENTIFIER_GET 0 0 []) CMD_IDENTIFIER_GET (SECS 5) w) of
        (Inl e, w') \<Rightarrow> (Inl e, w')
      | (Inr data, w') \<Rightarrow> if take 2 data = SC_PREFIX then (Inr (), w') else (Inl OtherKind, w'))"

definition sd_card_op :: "'p serial \<Rightarrow> u32 \<Rightarrow> nat \<Rightarrow> 'p sc64_wire \<Rightarrow> (io_kind + unit) \<times> 'p sc64_wire" where
  "sd_card_op S opn total_timeout w =
     (case cmp_reply (send_cmp_raw S (cmd_packet CMD_SD_CARD_OP 0 opn []) CMD_SD_CARD_OP total_timeout w) of
        (Inl e, w') \<Rightarrow> (Inl e, w')
      | (Inr _, w') \<Rightarrow> (Inr (), w'))"

definition sc64_memory_write ::
  "'p serial \<Rightarrow> u32 \<Rightarrow> octets \<Rightarrow> 'p sc64_wire \<Rightarrow> (io_kind + unit) \<times> 'p sc64_wire" where
  "sc64_memory_write S addr data w =
     (if 2 ^ 32 - 1 < length data then (Inl OtherKind, w)
      else
        case cmp_reply (send_cmp_raw S (cmd_packet CMD_MEMORY_WRITE addr (of_nat (length data)) data)
            CMD_MEMORY_WRITE (SECS 30) w) of
          (Inl e, w') \<Rightarrow> (Inl e, w')
        | (Inr _, w') \<Rightarrow> (Inr (), w'))"

definition sc64_memory_read ::
  "'p serial \<Rightarrow> u32 \<Rightarrow> nat \<Rightarrow> 'p sc64_wire \<Rightarrow> (io_kind + octets) \<times> 'p sc64_wire" where
  "sc64_memory_read S addr len w =
     (case cmp_reply (send_cmp_raw S (cmd_packet CMD_MEMORY_READ addr (of_nat len) [])
         CMD_MEMORY_READ (memory_io_timeout len) w) of
        (Inl e, w') \<Rightarrow> (Inl e, w')
      | (Inr data, w') \<Rightarrow> if length data \<noteq> len then (Inl OtherKind, w') else (Inr data, w'))"

definition sd_read_uncached ::
  "'p serial \<Rightarrow> nat \<Rightarrow> nat \<Rightarrow> 'p sc64_wire \<Rightarrow> (io_kind + octets) \<times> 'p sc64_wire" where
  "sd_read_uncached S start_lba len w =
     (let count = of_nat (len div SECTOR_BYTES) :: u32; sec = of_nat start_lba :: u32 in
      case cmp_reply (send_cmp_raw S (cmd_packet CMD_SD_READ SD_CARD_BUFFER_ADDR count (be32 sec))
          CMD_SD_READ (sd_rw_timeout (unat count)) w) of
        (Inl e, w') \<Rightarrow> (Inl e, w')
      | (Inr _, w') \<Rightarrow>
          (case sc64_memory_read S SD_CARD_BUFFER_ADDR len w' of
             (Inl e, w'') \<Rightarrow> (Inl e, w'')
           | (Inr mem, w'') \<Rightarrow> if length mem \<noteq> len then (Inl OtherKind, w'') else (Inr mem, w'')))"

definition sd_write_uncached ::
  "'p serial \<Rightarrow> nat \<Rightarrow> octets \<Rightarrow> 'p sc64_wire \<Rightarrow> (io_kind + unit) \<times> 'p sc64_wire" where
  "sd_write_uncached S start_lba bytes w =
     (let count = of_nat (length bytes div SECTOR_BYTES) :: u32; sec = of_nat start_lba :: u32 in
      case sc64_memory_write S SD_CARD_BUFFER_ADDR bytes w of
        (Inl e, w') \<Rightarrow> (Inl e, w')
      | (Inr _, w') \<Rightarrow>
          (case cmp_reply (send_cmp_raw S (cmd_packet CMD_SD_WRITE SD_CARD_BUFFER_ADDR count (be32 sec))
              CMD_SD_WRITE (sd_rw_timeout (unat count)) w') of
             (Inl e, w'') \<Rightarrow> (Inl e, w'')
           | (Inr _, w'') \<Rightarrow> (Inr (), w'')))"

text \<open>The session operations forget what was read before they send anything.\<close>

definition sc64_sd_init ::
  "'p serial \<Rightarrow> sd_read_cache \<times> 'p sc64_wire \<Rightarrow> (io_kind + unit) \<times> sd_read_cache \<times> 'p sc64_wire" where
  "sc64_sd_init S cw = (case sd_card_op S 1 (SECS 5) (snd cw) of (r, w) \<Rightarrow> (r, cache_clear (fst cw), w))"

definition sc64_sd_deinit ::
  "'p serial \<Rightarrow> sd_read_cache \<times> 'p sc64_wire \<Rightarrow> (io_kind + unit) \<times> sd_read_cache \<times> 'p sc64_wire" where
  "sc64_sd_deinit S cw = (case sd_card_op S 0 (SECS 3) (snd cw) of (r, w) \<Rightarrow> (r, cache_clear (fst cw), w))"

definition sc64_sd_deinit_try ::
  "'p serial \<Rightarrow> sd_read_cache \<times> 'p sc64_wire \<Rightarrow> sd_read_cache \<times> 'p sc64_wire" where
  "sc64_sd_deinit_try S cw =
     (case send_cmp_raw S (cmd_packet CMD_SD_CARD_OP 0 0 []) CMD_SD_CARD_OP (SECS 2) (snd cw) of
        (_, w) \<Rightarrow> (cache_clear (fst cw), w))"

definition sc64_flush_serial ::
  "'p serial \<Rightarrow> sd_read_cache \<times> 'p sc64_wire \<Rightarrow> (io_kind + unit) \<times> sd_read_cache \<times> 'p sc64_wire" where
  "sc64_flush_serial S cw =
     (case sr_flush S (sw_port (snd cw)) of (r, p) \<Rightarrow> (r, fst cw, (snd cw)\<lparr>sw_port := p\<rparr>))"

definition release_usb_session ::
  "'p serial \<Rightarrow> sd_read_cache \<times> 'p sc64_wire \<Rightarrow> (io_kind + unit) \<times> sd_read_cache \<times> 'p sc64_wire" where
  "release_usb_session S cw =
     (case sc64_sd_deinit S cw of
        (Inl e, cw') \<Rightarrow> (Inl e, cw')
      | (Inr _, cw') \<Rightarrow> sc64_flush_serial S cw')"

text \<open>\<open>usb_reset_link\<close>. The reads after the last clear stop at the first that gives nothing, or when 200 ms
  have passed; a port that never stops giving bytes in no time would keep the loop running.\<close>

partial_function (option) drain_loop ::
  "'p serial \<Rightarrow> nat \<Rightarrow> 'p sc64_wire \<Rightarrow> ((io_kind + unit) \<times> 'p sc64_wire) option" where
  "drain_loop S elapsed w =
     (if elapsed < MILLIS 200 then
        (case sr_read S 256 (sw_port w) of
           (res, dt, p) \<Rightarrow>
             (case res of
                Inr bs \<Rightarrow>
                  if bs = [] then Some (Inr (), w\<lparr>sw_port := p\<rparr>)
                  else drain_loop S (elapsed + dt) \<lparr>sw_port = p, sw_rb = sw_rb w @ bs\<rparr>
              | Inl e \<Rightarrow>
                  if e = TimedOut then Some (Inr (), w\<lparr>sw_port := p\<rparr>) else Some (Inl e, w\<lparr>sw_port := p\<rparr>)))
      else Some (Inr (), w))"

definition usb_reset_link ::
  "'p serial \<Rightarrow> 'p sc64_wire \<Rightarrow> ((io_kind + unit) \<times> 'p sc64_wire) option" where
  "usb_reset_link S w =
     (let p1 = snd (sr_clear S (sw_port w));
          p2 = snd (sr_set_dtr S True p1);
          p3 = snd (sr_sleep S (MILLIS 80) p2);
          p4 = snd (sr_clear S p3);
          p5 = snd (sr_set_dtr S False p4);
          p6 = snd (sr_sleep S (MILLIS 80) p5);
          p7 = snd (sr_clear S p6)
      in case drain_loop S 0 \<lparr>sw_port = p7, sw_rb = []\<rparr> of
           None \<Rightarrow> None
         | Some (Inl e, w') \<Rightarrow> Some (Inl e, w')
         | Some (Inr _, w') \<Rightarrow> Some (Inr (), w'\<lparr>sw_rb := []\<rparr>))"

end
