(* ===== verification/Sc64_Cart.thy ===== *)
theory Sc64_Cart
  imports Sc64_Link
begin

text \<open>
  What a SummerCart64 promises the link of \<open>crates/multi64-sc64-sd/src/link.rs\<close>, and what the link makes of
  it. \<open>cart_effect\<close> says what each command does to the card, the cart's memory and the SD session;
  \<open>sc64_port\<close> that commands are executed in order, each with one reply, and the replies arrive whole and in
  time, in any pieces and with packets between them. Over such a port the sector calls are a
  \<open>steady_transport\<close>.
\<close>

subsection \<open>The cart\<close>

record cart =
  ct_card :: "nat \<Rightarrow> u8"
  ct_ram :: "nat \<Rightarrow> u8"
  ct_held :: bool

text \<open>The bytes of \<open>sectors\<close> sectors from \<open>sec\<close> on.\<close>

definition in_sectors :: "nat \<Rightarrow> nat \<Rightarrow> nat \<Rightarrow> bool" where
  "in_sectors sec sectors a \<longleftrightarrow> sec * SECTOR_BYTES \<le> a \<and> a < (sec + sectors) * SECTOR_BYTES"

definition cart_effect :: "u8 \<Rightarrow> u32 \<Rightarrow> u32 \<Rightarrow> octets \<Rightarrow> cart \<Rightarrow> cmp_response \<Rightarrow> cart \<Rightarrow> bool" where
  "cart_effect i a0 a1 data c r c' \<longleftrightarrow>
     (if i = CMD_SD_CARD_OP then
        ct_card c' = ct_card c \<and>
        (if a1 = 0 then cmp_ok r = ct_held c \<and> \<not> ct_held c' else ct_held c' = (ct_held c \<or> cmp_ok r))
      else if i = CMD_SD_READ then
        ct_card c' = ct_card c \<and> ct_held c' = ct_held c \<and>
        (cmp_ok r \<longrightarrow>
          bytes_at (ct_ram c') (unat a0) (unat a1 * SECTOR_BYTES) =
          bytes_at (ct_card c) (unat (be32_at data 0) * SECTOR_BYTES) (unat a1 * SECTOR_BYTES))
      else if i = CMD_SD_WRITE then
        ct_held c' = ct_held c \<and>
        (\<forall>a. \<not> in_sectors (unat (be32_at data 0)) (unat a1) a \<longrightarrow> ct_card c' a = ct_card c a) \<and>
        (cmp_ok r \<longrightarrow>
          bytes_at (ct_card c') (unat (be32_at data 0) * SECTOR_BYTES) (unat a1 * SECTOR_BYTES) =
          bytes_at (ct_ram c) (unat a0) (unat a1 * SECTOR_BYTES))
      else if i = CMD_MEMORY_WRITE then
        ct_card c' = ct_card c \<and> ct_held c' = ct_held c \<and>
        (cmp_ok r \<longrightarrow> bytes_at (ct_ram c') (unat a0) (length data) = data)
      else if i = CMD_MEMORY_READ then
        c' = c \<and> (cmp_ok r \<longrightarrow> cmp_data r = bytes_at (ct_ram c) (unat a0) (unat a1))
      else if i = CMD_IDENTIFIER_GET then c' = c
      else True)"

text \<open>How long the link waits for the reply to a command.\<close>

definition patience :: "u8 \<Rightarrow> u32 \<Rightarrow> nat" where
  "patience i a1 =
     (if i = CMD_SD_READ \<or> i = CMD_SD_WRITE then sd_rw_timeout (unat a1)
      else if i = CMD_MEMORY_READ then memory_io_timeout (unat a1)
      else if i = CMD_MEMORY_WRITE then SECS 30
      else if i = CMD_IDENTIFIER_GET then SECS 5
      else SECS 2)"

definition all_pkts :: "wire_event list \<Rightarrow> bool" where
  "all_pkts evs \<longleftrightarrow> (\<forall>ev \<in> set evs. event_wf ev \<and> (\<exists>p. ev = Pkt p))"

definition wire_bytes :: "wire_event list \<Rightarrow> octets" where
  "wire_bytes evs = concat (map event_bytes evs)"

text \<open>
  \<open>pending p\<close> are the bytes the cart has sent or will send that no read has given yet, \<open>due p\<close> a time in which
  the link's own reads (512 bytes, then a sleep of 1 ms) get all of them, and \<open>cart p\<close> the cart once it has
  executed everything it was sent. A port that fails, other than by timing out, has gone, with the cart or without.
\<close>

locale sc64_port =
  fixes S :: "'p serial"
    and alive :: "'p \<Rightarrow> bool"
    and pending :: "'p \<Rightarrow> octets"
    and due :: "'p \<Rightarrow> nat"
    and dtr :: "'p \<Rightarrow> bool"
    and cart :: "'p \<Rightarrow> cart"
  assumes write_alive: "alive p \<Longrightarrow> sr_write_all S (cmd_packet i a0 a1 data) p = (Inr u, p') \<Longrightarrow>
      alive p' \<and> due p' < patience i a1 \<and>
      (\<exists>pre r post. all_pkts pre \<and> all_pkts post \<and> event_wf (Cmp r) \<and> cmp_cmd_id r = i \<and>
        pending p' = pending p @ wire_bytes (pre @ Cmp r # post) \<and> cart_effect i a0 a1 data (cart p) r (cart p'))"
    and write_dies: "alive p \<Longrightarrow> sr_write_all S (cmd_packet i a0 a1 data) p = (Inl e, p') \<Longrightarrow>
      \<not> alive p' \<and> e \<noteq> Interrupted \<and>
      (cart p' = cart p \<or> (\<exists>r. cart_effect i a0 a1 data (cart p) r (cart p')))"
    and write_gone: "\<not> alive p \<Longrightarrow> sr_write_all S bs p = (r1, p') \<Longrightarrow>
      \<not> alive p' \<and> cart p' = cart p \<and> (\<exists>e. r1 = Inl e \<and> e \<noteq> Interrupted)"
    and flush_keeps: "sr_flush S p = (r1, p') \<Longrightarrow> cart p' = cart p \<and> (\<not> alive p \<longrightarrow> \<not> alive p') \<and>
      (case r1 of Inr u \<Rightarrow> alive p \<longrightarrow> alive p' \<and> pending p' = pending p \<and> due p' \<le> due p
       | Inl e \<Rightarrow> \<not> alive p' \<and> e \<noteq> Interrupted)"
    and read_keeps: "sr_read S n p = (r2, dt, p') \<Longrightarrow> cart p' = cart p \<and> (\<not> alive p \<longrightarrow> \<not> alive p' \<and> (\<exists>e. r2 = Inl e)) \<and>
      (case r2 of Inr bs \<Rightarrow> alive p' \<and> length bs \<le> n \<and> pending p = bs @ pending p'
       | Inl e \<Rightarrow> if e = TimedOut then alive p \<longrightarrow> alive p' \<and> pending p' = pending p else \<not> alive p' \<and> e \<noteq> Interrupted)"
    and sleep_keeps: "sr_sleep S n p = (more', p') \<Longrightarrow> cart p' = cart p \<and> alive p' = alive p \<and>
      pending p' = pending p \<and> dtr p' = dtr p"
    and poll_in_time: "alive p \<Longrightarrow> sr_read S 512 p = (r2, dt, p1) \<Longrightarrow> alive p1 \<Longrightarrow> pending p1 \<noteq> [] \<Longrightarrow>
      sr_sleep S (MILLIS 1) p1 = (more', p') \<Longrightarrow> dt + MILLIS 1 + more' + due p' \<le> due p"
    and clear_keeps: "sr_clear S p = (r1, p') \<Longrightarrow> cart p' = cart p \<and> dtr p' = dtr p \<and> (\<not> alive p \<longrightarrow> \<not> alive p') \<and>
      (alive p' \<longrightarrow> dtr p \<or> pending p = [] \<longrightarrow> pending p' = [])"
    and dtr_keeps: "sr_set_dtr S b p = (r1, p') \<Longrightarrow> cart p' = cart p \<and> (\<not> alive p \<longrightarrow> \<not> alive p') \<and>
      (alive p' \<longrightarrow> dtr p' = b \<and> (pending p = [] \<longrightarrow> pending p' = []))"
    and timeout_keeps: "sr_set_timeout S n p = (r1, p') \<Longrightarrow> cart p' = cart p \<and> (\<not> alive p \<longrightarrow> \<not> alive p')"

subsection \<open>Reading replies\<close>

lemma all_pkts_simps [simp]:
  "all_pkts []" "all_pkts (ev # evs) \<longleftrightarrow> event_wf ev \<and> (\<exists>p. ev = Pkt p) \<and> all_pkts evs"
  "all_pkts (xs @ ys) \<longleftrightarrow> all_pkts xs \<and> all_pkts ys"
  by (auto simp: all_pkts_def)

lemma wire_bytes_simps [simp]:
  "wire_bytes [] = []" "wire_bytes (ev # evs) = event_bytes ev @ wire_bytes evs"
  "wire_bytes (xs @ ys) = wire_bytes xs @ wire_bytes ys"
  by (simp_all add: wire_bytes_def)

lemma event_bytes_ne: "event_bytes ev \<noteq> []"
  by (simp add: event_bytes_def sc64_tags split: wire_event.splits)

lemma next_event_prefix:
  assumes "event_wf ev" "buf @ xs = event_bytes ev @ ys"
  shows "(\<exists>r. next_event buf = (Some ev, r) \<and> r @ xs = ys) \<or> next_event buf = (None, buf) \<and> xs \<noteq> []"
proof -
  have full: "next_event_step (buf @ xs) = Emit ev ys"
    unfolding assms(2) by (rule next_event_step_bytes [OF assms(1)])
  show ?thesis
  proof (cases "next_event_step buf")
    case (Wait r)
    then have "r = buf" by (auto simp: next_event_step_def Let_def split: if_splits option.splits)
    with Wait full show ?thesis by (cases "xs = []") (auto simp: sc64.pull_Wait)
  next
    case (Skip r)
    with full show ?thesis using sc64.skip_extend [OF Skip, of xs] by simp
  next
    case (Emit e r)
    with full show ?thesis using sc64.emit_extend [OF Emit, of xs] by (simp add: sc64.pull_Emit)
  qed
qed

lemma next_event_Nil: "next_event [] = (None, [])"
  by (simp add: next_event.simps next_event_step_def)

text \<open>What the buffer holds of the packets and the reply is either enough to find the reply, or all kept.\<close>

lemma next_cmp_prefix:
  assumes "all_pkts pre" "event_wf (Cmp c)" "buf @ xs = wire_bytes (pre @ Cmp c # post)"
  shows "(\<exists>r. next_cmp buf = (Some c, r) \<and> r @ xs = wire_bytes post) \<or>
    (\<exists>r pre'. next_cmp buf = (None, r) \<and> xs \<noteq> [] \<and> all_pkts pre' \<and> r @ xs = wire_bytes (pre' @ Cmp c # post))"
  using assms
proof (induction pre arbitrary: buf)
  case Nil
  from next_event_prefix [OF Nil(2), of buf xs "wire_bytes post"] Nil(3)
  have "(\<exists>r. next_event buf = (Some (Cmp c), r) \<and> r @ xs = wire_bytes post) \<or>
      next_event buf = (None, buf) \<and> xs \<noteq> []" by simp
  then show ?case
  proof (elim disjE exE conjE, goal_cases)
    case (1 r)
    then show ?case by (simp add: next_cmp.simps [of buf])
  next
    case 2
    with Nil(3) show ?case
      by (intro disjI2 exI [of _ buf] exI [of _ "[]"]) (simp add: next_cmp.simps [of buf])
  qed
next
  case (Cons ev pre)
  then obtain p where ev: "ev = Pkt p" by auto
  from next_event_prefix [of ev buf xs "wire_bytes (pre @ Cmp c # post)"] Cons.prems
  have "(\<exists>r. next_event buf = (Some ev, r) \<and> r @ xs = wire_bytes (pre @ Cmp c # post)) \<or>
      next_event buf = (None, buf) \<and> xs \<noteq> []" by simp
  then show ?case
  proof (elim disjE exE conjE, goal_cases)
    case (1 r)
    then show ?case using Cons.IH [of r] Cons.prems(1,2) by (simp add: next_cmp.simps [of buf] ev)
  next
    case 2
    with Cons.prems show ?case
      by (intro disjI2 exI [of _ buf] exI [of _ "ev # pre"]) (simp add: next_cmp.simps [of buf])
  qed
qed

lemma next_cmp_for_prefix:
  assumes "all_pkts pre" "event_wf (Cmp c)" "buf @ xs = wire_bytes (pre @ Cmp c # post)" "cmp_cmd_id c = i"
  shows "(\<exists>r. next_cmp_for i buf = (Some c, r) \<and> r @ xs = wire_bytes post) \<or>
    (\<exists>r pre'. next_cmp_for i buf = (None, r) \<and> xs \<noteq> [] \<and> all_pkts pre' \<and> r @ xs = wire_bytes (pre' @ Cmp c # post))"
  using next_cmp_prefix [OF assms(1-3)] assms(4) by (auto simp: next_cmp_for.simps [of i buf])

subsection \<open>A command over the port\<close>

text \<open>Nothing but packets is outstanding, or the port has gone.\<close>

definition quiet :: "('p \<Rightarrow> bool) \<Rightarrow> ('p \<Rightarrow> octets) \<Rightarrow> 'p sc64_wire \<Rightarrow> bool" where
  "quiet alive pending w \<longleftrightarrow>
     (alive (sw_port w) \<longrightarrow> (\<exists>pks. all_pkts pks \<and> sw_rb w @ pending (sw_port w) = wire_bytes pks))"

lemma quiet_gone: "\<not> alive (sw_port w) \<Longrightarrow> quiet alive pending w"
  by (simp add: quiet_def)

context sc64_port
begin

lemma reply_loop_gets:
  assumes "alive (sw_port w)" "all_pkts pre" "event_wf (Cmp r)" "cmp_cmd_id r = i"
    and "sw_rb w @ pending (sw_port w) = wire_bytes (pre @ Cmp r # post)"
    and "elapsed + due (sw_port w) < T"
  shows "\<exists>res w'. reply_loop S i T elapsed w = (res, w') \<and> cart (sw_port w') = cart (sw_port w) \<and>
    (res = Inr r \<and> alive (sw_port w') \<and> sw_rb w' @ pending (sw_port w') = wire_bytes post \<or>
     (\<exists>e. res = Inl e \<and> e \<noteq> Interrupted \<and> \<not> alive (sw_port w')))"
  using assms
proof (induction "T - elapsed" arbitrary: elapsed w pre rule: less_induct)
  case less
  obtain p rb where w: "w = \<lparr>sw_port = p, sw_rb = rb\<rparr>" by (cases w)
  obtain res dt p1 where rd: "sr_read S 512 p = (res, dt, p1)" by (metis prod_cases3)
  note keeps = read_keeps [OF rd]
  note loop = reply_loop.simps [of S i T elapsed "\<lparr>sw_port = p, sw_rb = rb\<rparr>"]
  have time: "elapsed < T" using less.prems(6) by simp
  show ?case
  proof (cases "\<exists>e. res = Inl e \<and> e \<noteq> TimedOut")
    case True
    then show ?thesis using keeps rd time by (auto simp: loop w)
  next
    case False
    define bs where "bs = (case res of Inr bs \<Rightarrow> bs | Inl _ \<Rightarrow> [])"
    have got: "(case res of Inr bs \<Rightarrow> Inr bs | Inl e \<Rightarrow> if e = TimedOut then Inr [] else Inl e) = (Inr bs :: io_kind + octets)"
      using False by (cases res) (auto simp: bs_def)
    have p1: "alive p1" "cart p1 = cart p" "pending p = bs @ pending p1"
      using keeps less.prems(1) False by (cases res; force simp: bs_def w)+
    have stream: "(rb @ bs) @ pending p1 = wire_bytes (pre @ Cmp r # post)"
      using less.prems(5) p1(3) by (simp add: w)
    from next_cmp_for_prefix [OF less.prems(2,3) stream less.prems(4)] show ?thesis
    proof (elim disjE exE conjE)
      fix rest assume "next_cmp_for i (rb @ bs) = (Some r, rest)" "rest @ pending p1 = wire_bytes post"
      then show ?thesis using rd got p1 time by (simp add: loop w)
    next
      fix rest pre'
      assume next': "next_cmp_for i (rb @ bs) = (None, rest)" "pending p1 \<noteq> []" "all_pkts pre'"
        "rest @ pending p1 = wire_bytes (pre' @ Cmp r # post)"
      obtain over p2 where sl: "sr_sleep S (MILLIS 1) p1 = (over, p2)" by fastforce
      let ?elapsed = "elapsed + dt + MILLIS 1 + over" and ?w = "\<lparr>sw_port = p2, sw_rb = rest\<rparr>"
      have due: "dt + MILLIS 1 + over + due p2 \<le> due p"
        using poll_in_time [OF _ rd p1(1) next'(2) sl] less.prems(1) by (simp add: w)
      have "\<exists>res w'. reply_loop S i T ?elapsed ?w = (res, w') \<and> cart (sw_port w') = cart (sw_port ?w) \<and>
        (res = Inr r \<and> alive (sw_port w') \<and> sw_rb w' @ pending (sw_port w') = wire_bytes post \<or>
         (\<exists>e. res = Inl e \<and> e \<noteq> Interrupted \<and> \<not> alive (sw_port w')))"
      proof (rule less.hyps [OF _ _ next'(3) less.prems(3,4)])
        show "T - ?elapsed < T - elapsed" using time by (simp add: MILLIS_def)
        show "?elapsed + due (sw_port ?w) < T" using due less.prems(6) by (simp add: w)
      qed (use sleep_keeps [OF sl] p1 next' in simp_all)
      then show ?thesis using rd got next'(1) sl time sleep_keeps [OF sl] p1(2) by (simp add: loop w)
    qed
  qed
qed

lemma send_cmp_result:
  assumes quiet: "quiet alive pending w" and T: "patience i a1 \<le> T"
  shows "\<exists>res w'. send_cmp_raw S (cmd_packet i a0 a1 data) i T w = (res, w') \<and> quiet alive pending w' \<and>
    ((\<exists>r. res = Inr r \<and> alive (sw_port w) \<and> alive (sw_port w') \<and>
        cart_effect i a0 a1 data (cart (sw_port w)) r (cart (sw_port w'))) \<or>
     (\<exists>e. res = Inl e \<and> e \<noteq> Interrupted \<and> \<not> alive (sw_port w') \<and>
        (cart (sw_port w') = cart (sw_port w) \<or>
         (\<exists>r. cart_effect i a0 a1 data (cart (sw_port w)) r (cart (sw_port w'))))))"
proof -
  obtain p rb where w: "w = \<lparr>sw_port = p, sw_rb = rb\<rparr>" by (cases w)
  obtain res1 p1 where wr: "sr_write_all S (cmd_packet i a0 a1 data) p = (res1, p1)" by fastforce
  show ?thesis
  proof (cases res1)
    case (Inl e)
    then show ?thesis
      using wr write_dies [of p i a0 a1 data e p1] write_gone [of p "cmd_packet i a0 a1 data" res1 p1]
      by (cases "alive p") (auto simp: send_cmp_raw_def w quiet_def)
  next
    case (Inr u)
    then have p: "alive p" using write_gone [OF _ wr] by (cases "alive p") auto
    from write_alive [OF p wr [unfolded Inr]] obtain pre r post where
      sent: "alive p1" "due p1 < patience i a1" "all_pkts pre" "all_pkts post" "event_wf (Cmp r)"
        "cmp_cmd_id r = i" "pending p1 = pending p @ wire_bytes (pre @ Cmp r # post)"
        "cart_effect i a0 a1 data (cart p) r (cart p1)" by blast
    obtain pks where pks: "all_pkts pks" "rb @ pending p = wire_bytes pks"
      using quiet p by (auto simp: quiet_def w)
    obtain res2 p2 where fl: "sr_flush S p1 = (res2, p2)" by fastforce
    note flushed = flush_keeps [OF fl]
    show ?thesis
    proof (cases res2)
      case (Inl e)
      then show ?thesis using wr fl flushed \<open>res1 = Inr u\<close> sent(8) by (auto simp: send_cmp_raw_def w quiet_def)
    next
      case (Inr u')
      then have p2: "alive p2" "pending p2 = pending p1" "due p2 \<le> due p1" "cart p2 = cart p1"
        using flushed sent(1) by simp_all
      let ?w = "\<lparr>sw_port = p2, sw_rb = rb\<rparr>"
      have "rb @ pending p1 = wire_bytes (pks @ pre @ Cmp r # post)"
        using pks(2) by (simp add: sent(7))
      then have "\<exists>res w'. reply_loop S i T 0 ?w = (res, w') \<and> cart (sw_port w') = cart (sw_port ?w) \<and>
        (res = Inr r \<and> alive (sw_port w') \<and> sw_rb w' @ pending (sw_port w') = wire_bytes post \<or>
         (\<exists>e. res = Inl e \<and> e \<noteq> Interrupted \<and> \<not> alive (sw_port w')))"
        using sent p2 pks T by (intro reply_loop_gets [of ?w "pks @ pre"]) simp_all
      then show ?thesis
        using wr fl \<open>res1 = Inr u\<close> Inr sent(4,8) p p2(4) by (auto simp: send_cmp_raw_def w quiet_def)
    qed
  qed
qed

text \<open>The same for what a command makes of its reply.\<close>

lemma cmp_reply_result:
  assumes "quiet alive pending w" "patience i a1 \<le> T"
  shows "\<exists>res w'. cmp_reply (send_cmp_raw S (cmd_packet i a0 a1 data) i T w) = (res, w') \<and> quiet alive pending w' \<and>
    res \<noteq> Inl Interrupted \<and>
    ((\<exists>r. alive (sw_port w) \<and> cart_effect i a0 a1 data (cart (sw_port w)) r (cart (sw_port w')) \<and>
        (if cmp_ok r then res = Inr (cmp_data r) else res = Inl OtherKind)) \<or>
     (\<exists>e. res = Inl e \<and> \<not> alive (sw_port w') \<and>
        (cart (sw_port w') = cart (sw_port w) \<or>
         (\<exists>r. cart_effect i a0 a1 data (cart (sw_port w)) r (cart (sw_port w'))))))"
  using send_cmp_result [OF assms, of a0 data]
proof (elim exE conjE disjE, goal_cases)
  case (1 res w' r)
  then show ?case by (cases "cmp_ok r") (auto simp: cmp_reply_def)
next
  case (2 res w' e)
  then show ?case by (auto simp: cmp_reply_def)
next
  case (3 res w' e r)
  then show ?case by (auto simp: cmp_reply_def)
qed

end

subsection \<open>Memory and sectors\<close>

lemmas sc64_cmds =
  CMD_IDENTIFIER_GET_def CMD_MEMORY_READ_def CMD_MEMORY_WRITE_def CMD_SD_CARD_OP_def CMD_SD_READ_def
  CMD_SD_WRITE_def

lemma be32_at_whole [simp]: "be32_at (be32 x) 0 = x"
  using be32_at_be32 [of "[]" 0 x "[]"] by simp

text \<open>The requests the guards of \<open>read_sd_sectors\<close> and \<open>write_sd_sectors\<close> let through.\<close>

definition sd_request :: "nat \<Rightarrow> nat \<Rightarrow> bool" where
  "sd_request lba len \<longleftrightarrow>
     SECTOR_BYTES dvd len \<and> 0 < len \<and> len \<le> SD_CARD_BUFFER_MAX_BYTES \<and> lba < 2 ^ 32"

lemma sd_request_words:
  assumes "sd_request lba len"
  shows "unat (of_nat lba :: u32) = lba" "unat (of_nat (len div SECTOR_BYTES) :: u32) * SECTOR_BYTES = len"
    "unat (of_nat len :: u32) = len"
proof -
  have len: "len < 2 ^ 32" "len div SECTOR_BYTES < 2 ^ 32" and lba: "lba < 2 ^ 32"
    using assms by (auto simp: sd_request_def SD_CARD_BUFFER_MAX_BYTES_def SECTOR_BYTES_def)
  show "unat (of_nat lba :: u32) = lba" "unat (of_nat len :: u32) = len"
    using lba len by (simp_all add: unat_of_nat)
  have "unat (of_nat (len div SECTOR_BYTES) :: u32) = len div SECTOR_BYTES"
    using len(2) by (simp add: unat_of_nat)
  then show "unat (of_nat (len div SECTOR_BYTES) :: u32) * SECTOR_BYTES = len"
    using assms by (simp add: sd_request_def)
qed

lemma cache_end_request: "sd_request lba len \<Longrightarrow> cache_end lba len = lba + len div SECTOR_BYTES"
  by (auto simp: sd_request_def cache_end_def SECTOR_BYTES_def elim!: dvdE)

definition card_of :: "('p \<Rightarrow> cart) \<Rightarrow> 'p sc64_wire \<Rightarrow> nat \<Rightarrow> u8" where
  "card_of cart w = ct_card (cart (sw_port w))"

definition held_by :: "('p \<Rightarrow> cart) \<Rightarrow> 'p sc64_wire \<Rightarrow> bool" where
  "held_by cart w \<longleftrightarrow> ct_held (cart (sw_port w))"

text \<open>Who holds the card is as it was, and a port that had gone is still gone.\<close>

definition same_hold :: "('p \<Rightarrow> bool) \<Rightarrow> ('p \<Rightarrow> cart) \<Rightarrow> 'p sc64_wire \<Rightarrow> 'p sc64_wire \<Rightarrow> bool" where
  "same_hold alive cart w w' \<longleftrightarrow>
     held_by cart w' = held_by cart w \<and> (alive (sw_port w') \<longrightarrow> alive (sw_port w))"

lemma same_hold_refl [simp]: "same_hold alive cart w w"
  and same_hold_trans: "same_hold alive cart w w1 \<Longrightarrow> same_hold alive cart w1 w' \<Longrightarrow> same_hold alive cart w w'"
  by (simp_all add: same_hold_def)

lemmas seen_defs = card_of_def held_by_def same_hold_def

context sc64_port
begin

lemma memory_write_result:
  assumes "quiet alive pending w"
  shows "\<exists>res w'. sc64_memory_write S addr data w = (res, w') \<and> quiet alive pending w' \<and> res \<noteq> Inl Interrupted \<and>
    card_of cart w' = card_of cart w \<and> same_hold alive cart w w' \<and>
    (res = Inr () \<longrightarrow> bytes_at (ct_ram (cart (sw_port w'))) (unat addr) (length data) = data)"
proof (cases "2 ^ 32 - 1 < length data")
  case True
  with assms show ?thesis by (simp add: sc64_memory_write_def)
next
  case False
  have "patience CMD_MEMORY_WRITE (of_nat (length data)) \<le> SECS 30" by (simp add: patience_def sc64_cmds)
  from cmp_reply_result [OF assms this, of addr data] show ?thesis
  proof (elim exE conjE disjE, goal_cases)
    case (1 res w' r)
    with False show ?case by (cases "cmp_ok r") (auto simp: sc64_memory_write_def seen_defs cart_effect_def sc64_cmds)
  qed (use False in \<open>auto simp: sc64_memory_write_def seen_defs cart_effect_def sc64_cmds\<close>)
qed

lemma memory_read_result:
  assumes "quiet alive pending w" and len: "unat (of_nat len :: u32) = len"
  shows "\<exists>res w'. sc64_memory_read S addr len w = (res, w') \<and> quiet alive pending w' \<and> res \<noteq> Inl Interrupted \<and>
    cart (sw_port w') = cart (sw_port w) \<and> same_hold alive cart w w' \<and>
    (\<forall>bs. res = Inr bs \<longrightarrow> bs = bytes_at (ct_ram (cart (sw_port w))) (unat addr) len)"
proof -
  have "patience CMD_MEMORY_READ (of_nat len) \<le> memory_io_timeout len"
    by (simp add: patience_def sc64_cmds len)
  from cmp_reply_result [OF assms(1) this, of addr "[]"] show ?thesis
  proof (elim exE conjE disjE, goal_cases)
    case (1 res w' r)
    then show ?case
      by (cases "cmp_ok r") (auto simp: sc64_memory_read_def cart_effect_def sc64_cmds len seen_defs)
  qed (auto simp: sc64_memory_read_def cart_effect_def sc64_cmds seen_defs)
qed

lemma sd_read_uncached_result:
  assumes "quiet alive pending w" "sd_request lba len"
  shows "\<exists>res w'. sd_read_uncached S lba len w = (res, w') \<and> quiet alive pending w' \<and> res \<noteq> Inl Interrupted \<and>
    card_of cart w' = card_of cart w \<and> same_hold alive cart w w' \<and>
    (\<forall>bs. res = Inr bs \<longrightarrow> bs = bytes_at (card_of cart w) (lba * SECTOR_BYTES) len)"
proof -
  note words = sd_request_words [OF assms(2)]
  let ?count = "of_nat (len div SECTOR_BYTES) :: u32" and ?sec = "be32 (of_nat lba)"
  have "patience CMD_SD_READ ?count \<le> sd_rw_timeout (unat ?count)" by (simp add: patience_def)
  from cmp_reply_result [OF assms(1) this, of SD_CARD_BUFFER_ADDR ?sec] obtain res w1 where
    sent: "cmp_reply (send_cmp_raw S (cmd_packet CMD_SD_READ SD_CARD_BUFFER_ADDR ?count ?sec) CMD_SD_READ
        (sd_rw_timeout (unat ?count)) w) = (res, w1)" "quiet alive pending w1" "res \<noteq> Inl Interrupted"
      "card_of cart w1 = card_of cart w" "same_hold alive cart w w1"
      "\<And>d. res = Inr d \<Longrightarrow> bytes_at (ct_ram (cart (sw_port w1))) (unat SD_CARD_BUFFER_ADDR) len =
        bytes_at (card_of cart w) (lba * SECTOR_BYTES) len"
  proof (elim exE conjE disjE, goal_cases)
    case (1 res w' r)
    then show ?case
      by (cases "cmp_ok r") (auto simp: seen_defs cart_effect_def sc64_cmds words)
  qed (auto simp: seen_defs cart_effect_def sc64_cmds)
  from memory_read_result [OF sent(2) words(3), of SD_CARD_BUFFER_ADDR] obtain res2 w2 where
    mem: "sc64_memory_read S SD_CARD_BUFFER_ADDR len w1 = (res2, w2)" "quiet alive pending w2"
      "res2 \<noteq> Inl Interrupted" "cart (sw_port w2) = cart (sw_port w1)" "same_hold alive cart w1 w2"
      "\<forall>bs. res2 = Inr bs \<longrightarrow> bs = bytes_at (ct_ram (cart (sw_port w1))) (unat SD_CARD_BUFFER_ADDR) len"
    by blast
  show ?thesis
  proof (cases res)
    case (Inl e)
    with sent show ?thesis by (simp add: sd_read_uncached_def)
  next
    case (Inr d)
    with sent mem show ?thesis
      by (cases res2) (simp_all add: sd_read_uncached_def seen_defs)
  qed
qed

lemma sd_write_uncached_result:
  assumes "quiet alive pending w" "sd_request lba (length bytes)"
  shows "\<exists>res w'. sd_write_uncached S lba bytes w = (res, w') \<and> quiet alive pending w' \<and> res \<noteq> Inl Interrupted \<and>
    same_hold alive cart w w' \<and>
    (\<forall>a. a < lba * SECTOR_BYTES \<or> cache_end lba (length bytes) * SECTOR_BYTES \<le> a \<longrightarrow>
       card_of cart w' a = card_of cart w a) \<and>
    (res = Inr () \<longrightarrow> bytes_at (card_of cart w') (lba * SECTOR_BYTES) (length bytes) = bytes)"
proof -
  note words = sd_request_words [OF assms(2)]
  let ?count = "of_nat (length bytes div SECTOR_BYTES) :: u32" and ?sec = "be32 (of_nat lba)"
  from memory_write_result [OF assms(1), of SD_CARD_BUFFER_ADDR bytes] obtain res w1 where
    mem: "sc64_memory_write S SD_CARD_BUFFER_ADDR bytes w = (res, w1)" "quiet alive pending w1"
      "res \<noteq> Inl Interrupted" "card_of cart w1 = card_of cart w" "same_hold alive cart w w1"
      "res = Inr () \<longrightarrow> bytes_at (ct_ram (cart (sw_port w1))) (unat SD_CARD_BUFFER_ADDR) (length bytes) = bytes"
    by blast
  have outside: "\<not> in_sectors lba (unat ?count) a"
    if "a < lba * SECTOR_BYTES \<or> cache_end lba (length bytes) * SECTOR_BYTES \<le> a" for a
  proof -
    have "cache_end lba (length bytes) = lba + unat ?count"
      using cache_end_request [OF assms(2)] words(2) by (simp add: SECTOR_BYTES_def)
    with that show ?thesis by (auto simp: in_sectors_def)
  qed
  have "patience CMD_SD_WRITE ?count \<le> sd_rw_timeout (unat ?count)" by (simp add: patience_def)
  from cmp_reply_result [OF mem(2) this, of SD_CARD_BUFFER_ADDR ?sec] obtain res2 w2 where
    sent: "cmp_reply (send_cmp_raw S (cmd_packet CMD_SD_WRITE SD_CARD_BUFFER_ADDR ?count ?sec) CMD_SD_WRITE
        (sd_rw_timeout (unat ?count)) w1) = (res2, w2)" "quiet alive pending w2" "res2 \<noteq> Inl Interrupted"
      "same_hold alive cart w1 w2"
      "\<And>a. \<not> in_sectors lba (unat ?count) a \<Longrightarrow> card_of cart w2 a = card_of cart w1 a"
      "\<And>d. res2 = Inr d \<Longrightarrow> bytes_at (card_of cart w2) (lba * SECTOR_BYTES) (length bytes) =
        bytes_at (ct_ram (cart (sw_port w1))) (unat SD_CARD_BUFFER_ADDR) (length bytes)"
  proof (elim exE conjE disjE, goal_cases)
    case (1 res w' r)
    then show ?case
      by (cases "cmp_ok r") (auto simp: seen_defs cart_effect_def sc64_cmds words)
  qed (auto simp: seen_defs cart_effect_def sc64_cmds words)
  show ?thesis
  proof (cases res)
    case (Inl e)
    with mem show ?thesis by (simp add: sd_write_uncached_def)
  next
    case (Inr u)
    with mem sent outside show ?thesis
      by (cases res2) (simp_all add: sd_write_uncached_def same_hold_def)
  qed
qed

end

subsection \<open>The link as a card, and as a transport\<close>

definition link_flush :: "'p serial \<Rightarrow> (sd_read_cache \<times> 'p sc64_wire, unit) io" where
  "link_flush S cw = Some (sc64_flush_serial S cw)"

sublocale sc64_port \<subseteq> link: guarded_card
  "quiet alive pending" sd_request "card_of cart" "sd_read_uncached S" "sd_write_uncached S"
proof unfold_locales
  fix w w' :: "'p sc64_wire" and lba len i a :: nat and bytes :: octets and r and res and u :: unit
  assume w: "quiet alive pending w"
  { assume "sd_request lba len" "sd_read_uncached S lba len w = (r, w')"
    with sd_read_uncached_result [OF w this(1)]
    have "quiet alive pending w' \<and> card_of cart w' = card_of cart w \<and>
      (\<forall>bs. r = Inr bs \<longrightarrow> bs = bytes_at (card_of cart w) (lba * SECTOR_BYTES) len)" by auto
  } note rd = this
  show "quiet alive pending w' \<and> card_of cart w' = card_of cart w"
    if "sd_request lba len" "sd_read_uncached S lba len w = (r, w')"
    using rd [OF that] by simp
  show "bytes = map (card_of cart w) [lba * SECTOR_BYTES ..< lba * SECTOR_BYTES + len]"
    if "sd_request lba len" "sd_read_uncached S lba len w = (Inr bytes, w')"
    using sd_read_uncached_result [OF w that(1)] that(2) by (auto simp: bytes_at_def)
  { assume "sd_request lba (length bytes)" "sd_write_uncached S lba bytes w = (res, w')"
    with sd_write_uncached_result [OF w this(1)]
    have "quiet alive pending w' \<and>
      (\<forall>a. a < lba * SECTOR_BYTES \<or> cache_end lba (length bytes) * SECTOR_BYTES \<le> a \<longrightarrow>
        card_of cart w' a = card_of cart w a) \<and>
      (res = Inr () \<longrightarrow> bytes_at (card_of cart w') (lba * SECTOR_BYTES) (length bytes) = bytes)"
      by auto
  } note wr = this
  show "quiet alive pending w'"
    if "sd_request lba (length bytes)" "sd_write_uncached S lba bytes w = (res, w')"
    using wr [OF that] by simp
  show "card_of cart w' a = card_of cart w a"
    if "sd_request lba (length bytes)" "sd_write_uncached S lba bytes w = (res, w')"
      and "a < lba * SECTOR_BYTES \<or> cache_end lba (length bytes) * SECTOR_BYTES \<le> a"
    using wr [OF that(1,2)] that(3) by auto
  show "card_of cart w' (lba * SECTOR_BYTES + i) = bytes ! i"
    if "sd_request lba (length bytes)" "sd_write_uncached S lba bytes w = (Inr u, w')" "i < length bytes"
  proof -
    have "bytes_at (card_of cart w') (lba * SECTOR_BYTES) (length bytes) = bytes"
      using sd_write_uncached_result [OF w that(1)] that(2) by auto
    then have "bytes_at (card_of cart w') (lba * SECTOR_BYTES) (length bytes) ! i = bytes ! i" by simp
    with that(3) show ?thesis by simp
  qed
next
  show "sd_request lba len" if "SECTOR_BYTES dvd len" "0 < len" "len \<le> SD_CARD_BUFFER_MAX_BYTES" "lba < 2 ^ 32"
    for len lba
    using that by (simp add: sd_request_def)
qed

context sc64_port
begin

lemma sc64_flush_result:
  assumes "quiet alive pending w"
  shows "\<exists>res w'. sc64_flush_serial S (c, w) = (res, c, w') \<and> quiet alive pending w' \<and> res \<noteq> Inl Interrupted \<and>
    card_of cart w' = card_of cart w \<and> same_hold alive cart w w'"
proof -
  obtain r p' where fl: "sr_flush S (sw_port w) = (r, p')" by fastforce
  from flush_keeps [OF fl] assms fl show ?thesis
    by (cases r) (auto simp: sc64_flush_serial_def quiet_def seen_defs)
qed

lemma read_sd_sectors_steady:
  assumes "quiet alive pending w"
  shows "read_sd_sectors (sd_read_uncached S) lba n (c, w) \<noteq> Some (Inl Interrupted, cw')"
proof (cases "sd_request lba n")
  case True
  from sd_read_uncached_result [OF assms True] obtain r w' where
    "sd_read_uncached S lba n w = (r, w')" "r \<noteq> Inl Interrupted" by blast
  then show ?thesis
    by (cases r) (auto simp: read_sd_sectors_def read_through_def split: option.splits)
next
  case False
  then show ?thesis by (auto simp: read_sd_sectors_def sd_request_def)
qed

lemma write_sd_sectors_steady:
  assumes "quiet alive pending w"
  shows "write_sd_sectors (sd_write_uncached S) lba bytes (c, w) \<noteq> Some (Inl Interrupted, cw')"
proof (cases "sd_request lba (length bytes)")
  case True
  from sd_write_uncached_result [OF assms True] show ?thesis
    by (auto simp: write_sd_sectors_def write_through_def)
next
  case False
  then show ?thesis by (auto simp: write_sd_sectors_def sd_request_def)
qed

end

sublocale sc64_port \<subseteq> link: steady_transport
  "\<lambda>(c, w). cache_inv c \<and> link.coherent w c \<and> quiet alive pending w" "\<lambda>(c, w). card_of cart w"
  "read_sd_sectors (sd_read_uncached S)" "write_sd_sectors (sd_write_uncached S)" "link_flush S"
proof unfold_locales
  fix cw :: "sd_read_cache \<times> 'p sc64_wire"
  obtain c w where cw: "cw = (c, w)" by fastforce
  assume "case cw of (c, w) \<Rightarrow> cache_inv c \<and> link.coherent w c \<and> quiet alive pending w"
  then have ok: "cache_inv c" "link.coherent w c" "quiet alive pending w" by (simp_all add: cw)
  from sc64_flush_result [OF ok(3), of c] ok
  show "reads (\<lambda>(c, w). cache_inv c \<and> link.coherent w c \<and> quiet alive pending w) (\<lambda>(c, w). card_of cart w) cw
      (link_flush S) (\<lambda>_. True)"
    by (auto simp: reads_def link_flush_def cw link.coherent_def)
qed (auto dest: read_sd_sectors_steady write_sd_sectors_steady)

subsection \<open>A cart to try it on\<close>

text \<open>A cart that executes a command when it is written and queues the reply. It gives at most what is asked
  for at a time, and a queue that would pass 512 KiB makes it fail.\<close>

record mem_cart =
  mc_cart :: cart
  mc_out :: octets
  mc_gone :: bool
  mc_dtr :: bool

definition mem_exec :: "u8 \<Rightarrow> u32 \<Rightarrow> u32 \<Rightarrow> octets \<Rightarrow> cart \<Rightarrow> bool \<times> octets \<times> cart" where
  "mem_exec i a0 a1 data c =
     (if i = CMD_SD_CARD_OP then
        (if a1 = 0 then (ct_held c, [], c\<lparr>ct_held := False\<rparr>) else (True, [], c\<lparr>ct_held := True\<rparr>))
      else if i = CMD_SD_READ then
        (if ct_held c
         then (True, [], c\<lparr>ct_ram := overlay (ct_ram c) (unat a0)
                 (bytes_at (ct_card c) (unat (be32_at data 0) * SECTOR_BYTES) (unat a1 * SECTOR_BYTES))\<rparr>)
         else (False, [], c))
      else if i = CMD_SD_WRITE then
        (if ct_held c
         then (True, [], c\<lparr>ct_card := overlay (ct_card c) (unat (be32_at data 0) * SECTOR_BYTES)
                 (bytes_at (ct_ram c) (unat a0) (unat a1 * SECTOR_BYTES))\<rparr>)
         else (False, [], c))
      else if i = CMD_MEMORY_WRITE then (True, [], c\<lparr>ct_ram := overlay (ct_ram c) (unat a0) data\<rparr>)
      else if i = CMD_MEMORY_READ then
        (if unat a1 \<le> SD_CARD_BUFFER_MAX_BYTES then (True, bytes_at (ct_ram c) (unat a0) (unat a1), c)
         else (False, [], c))
      else if i = CMD_IDENTIFIER_GET then (True, [0x53, 0x43, 0x76, 0x32], c)
      else (False, [], c))"

definition MEM_QUEUE :: nat where "MEM_QUEUE = 512 * 1024"

definition mem_alive :: "mem_cart \<Rightarrow> bool" where
  "mem_alive p \<longleftrightarrow> \<not> mc_gone p \<and> length (mc_out p) \<le> MEM_QUEUE"

definition mem_write_all :: "octets \<Rightarrow> mem_cart \<Rightarrow> (io_kind + unit) \<times> mem_cart" where
  "mem_write_all bs p =
     (if \<not> mem_alive p then (Inl OtherKind, p)
      else case mem_exec (bs ! 3) (be32_at bs 4) (be32_at bs 8) (drop 12 bs) (mc_cart p) of
        (ok, data, c) \<Rightarrow>
          (let out' = mc_out p @ event_bytes (Cmp \<lparr>cmp_ok = ok, cmp_cmd_id = bs ! 3, cmp_data = data\<rparr>) in
           if MEM_QUEUE < length out' then (Inl WriteZero, p\<lparr>mc_gone := True\<rparr>)
           else (Inr (), p\<lparr>mc_cart := c, mc_out := out'\<rparr>)))"

definition mem_serial :: "mem_cart serial" where
  "mem_serial =
     \<lparr>sr_set_timeout = (\<lambda>n p. (Inr (), p)),
      sr_write_all = mem_write_all,
      sr_flush = (\<lambda>p. (Inr (), p)),
      sr_read = (\<lambda>n p. if \<not> mem_alive p then (Inl OtherKind, 0, p)
        else if mc_out p = [] then (Inl TimedOut, MILLIS 100, p)
        else (Inr (take n (mc_out p)), 0, p\<lparr>mc_out := drop n (mc_out p)\<rparr>)),
      sr_clear = (\<lambda>p. if mem_alive p then (Inr (), p\<lparr>mc_out := []\<rparr>) else (Inl OtherKind, p)),
      sr_set_dtr = (\<lambda>b p. (Inr (), p\<lparr>mc_dtr := b\<rparr>)),
      sr_sleep = (\<lambda>n p. (0, p))\<rparr>"

lemmas mem_serial_sel [simp] =
  arg_cong [OF mem_serial_def, of sr_set_timeout, simplified]
  arg_cong [OF mem_serial_def, of sr_write_all, simplified]
  arg_cong [OF mem_serial_def, of sr_flush, simplified]
  arg_cong [OF mem_serial_def, of sr_read, simplified]
  arg_cong [OF mem_serial_def, of sr_clear, simplified]
  arg_cong [OF mem_serial_def, of sr_set_dtr, simplified]
  arg_cong [OF mem_serial_def, of sr_sleep, simplified]

definition mem_due :: "mem_cart \<Rightarrow> nat" where
  "mem_due p = MILLIS ((length (mc_out p) + 511) div 512)"

lemma bytes_at_overlay_bytes [simp]: "bytes_at (overlay f at' (bytes_at g b n)) at' n = bytes_at g b n"
  using bytes_at_overlay [of f at' "bytes_at g b n"] by simp

lemma mem_exec_effect:
  assumes "mem_exec i a0 a1 data c = (ok, d, c')"
  shows "cart_effect i a0 a1 data c \<lparr>cmp_ok = ok, cmp_cmd_id = i, cmp_data = d\<rparr> c'"
  using assms
  by (auto simp: mem_exec_def cart_effect_def bytes_at_overlay in_sectors_def overlay_def add_mult_distrib
      split: if_splits)

lemma mem_exec_reply: "mem_exec i a0 a1 data c = (ok, d, c') \<Longrightarrow> length d \<le> MAX_CMP_DATA_LEN"
  by (auto simp: mem_exec_def SD_CARD_BUFFER_MAX_BYTES_def MAX_CMP_DATA_LEN_def split: if_splits)

lemma mem_due_bound: "mem_alive p \<Longrightarrow> mem_due p < patience i a1"
  by (auto simp: mem_alive_def mem_due_def MEM_QUEUE_def patience_def SECS_def MILLIS_def sd_rw_timeout_def
      memory_io_timeout_def)

lemma cmd_packet_fields:
  "cmd_packet i a0 a1 data ! 3 = i" "be32_at (cmd_packet i a0 a1 data) 4 = a0"
  "be32_at (cmd_packet i a0 a1 data) 8 = a1" "drop 12 (cmd_packet i a0 a1 data) = data"
  using be32_at_be32 [of "TAG_CMD @ [i]" 4 a0 "be32 a1 @ data"]
    be32_at_be32 [of "TAG_CMD @ [i] @ be32 a0" 8 a1 data]
  by (simp_all add: cmd_packet_def TAG_CMD_def be32_def)

lemma mem_write_all_alive:
  assumes "mem_alive p" "mem_write_all (cmd_packet i a0 a1 data) p = (Inr u, p')"
  shows "mem_alive p' \<and>
    (\<exists>r. event_wf (Cmp r) \<and> cmp_cmd_id r = i \<and> mc_out p' = mc_out p @ event_bytes (Cmp r) \<and>
      cart_effect i a0 a1 data (mc_cart p) r (mc_cart p'))"
proof -
  obtain ok d c where x: "mem_exec i a0 a1 data (mc_cart p) = (ok, d, c)" by (metis prod_cases3)
  with assms show ?thesis
    using mem_exec_effect [OF x] mem_exec_reply [OF x]
    by (auto simp: mem_write_all_def cmd_packet_fields mem_alive_def event_wf_def Let_def split: if_splits
        intro!: exI [of _ "\<lparr>cmp_ok = ok, cmp_cmd_id = i, cmp_data = d\<rparr>"])
qed

interpretation mem_port: sc64_port mem_serial mem_alive mc_out mem_due mc_dtr mc_cart
proof unfold_locales
  fix p p' p1 :: mem_cart and i :: u8 and a0 a1 :: u32 and data :: octets
    and u :: unit and dt more' n :: nat and r2 :: "io_kind + octets"
  assume p: "mem_alive p"
  show "mem_alive p' \<and> mem_due p' < patience i a1 \<and>
      (\<exists>pre r post. all_pkts pre \<and> all_pkts post \<and> event_wf (Cmp r) \<and> cmp_cmd_id r = i \<and>
        mc_out p' = mc_out p @ wire_bytes (pre @ Cmp r # post) \<and> cart_effect i a0 a1 data (mc_cart p) r (mc_cart p'))"
    if "sr_write_all mem_serial (cmd_packet i a0 a1 data) p = (Inr u, p')"
    using mem_write_all_alive [OF p, of i a0 a1 data u p'] that mem_due_bound [of p' i a1]
    by (auto intro!: exI [of _ "[]"])
  show "\<not> mem_alive p' \<and> e \<noteq> Interrupted \<and>
      (mc_cart p' = mc_cart p \<or> (\<exists>r. cart_effect i a0 a1 data (mc_cart p) r (mc_cart p')))"
    if "sr_write_all mem_serial (cmd_packet i a0 a1 data) p = (Inl e, p')" for e
    using that p by (auto simp: mem_write_all_def mem_alive_def Let_def split: if_splits prod.splits)
  show "dt + MILLIS 1 + more' + mem_due p' \<le> mem_due p"
    if "sr_read mem_serial 512 p = (r2, dt, p1)" "mem_alive p1" "mc_out p1 \<noteq> []"
      "sr_sleep mem_serial (MILLIS 1) p1 = (more', p')"
  proof -
    from that p have len: "mc_out p1 = drop 512 (mc_out p)" "512 < length (mc_out p)" "dt = 0" "more' = 0" "p' = p1"
      by (auto split: if_splits)
    then have "(length (mc_out p) + 511) div 512 = (length (mc_out p1) + 511) div 512 + 1" by simp
    then show ?thesis using len by (simp add: mem_due_def MILLIS_def)
  qed
qed (auto simp: mem_write_all_def mem_alive_def mem_due_def split: if_splits)

subsection \<open>A reply that comes late\<close>

text \<open>Replies carry the command's letter and nothing else that would tell two commands apart. A reply still
  outstanding when the next command of its kind is sent, because the wait for it was given up, is taken for
  that command's.\<close>

context sc64_port
begin

lemma late_reply_taken:
  assumes p: "alive (sw_port w)" and late: "all_pkts pre" "event_wf (Cmp late)" "cmp_cmd_id late = i"
    and stream: "sw_rb w @ pending (sw_port w) = wire_bytes (pre @ Cmp late # post)"
    and T: "patience i a1 \<le> T"
  shows "\<exists>res w'. send_cmp_raw S (cmd_packet i a0 a1 data) i T w = (res, w') \<and>
    (alive (sw_port w') \<longrightarrow> res = Inr late \<and>
      (\<exists>r. cart_effect i a0 a1 data (cart (sw_port w)) r (cart (sw_port w'))))"
proof -
  obtain p rb where w: "w = \<lparr>sw_port = p, sw_rb = rb\<rparr>" by (cases w)
  obtain res1 p1 where wr: "sr_write_all S (cmd_packet i a0 a1 data) p = (res1, p1)" by fastforce
  obtain res2 p2 where fl: "sr_flush S p1 = (res2, p2)" by fastforce
  note flushed = flush_keeps [OF fl]
  show ?thesis
  proof (cases "alive p2 \<and> (\<exists>u. res1 = Inr u) \<and> (\<exists>u. res2 = Inr u)")
    case False
    show ?thesis
    proof (cases res1)
      case (Inl e)
      then have "\<not> alive p1" using wr write_dies [of p i a0 a1 data e p1] p by (simp add: w)
      with Inl show ?thesis using wr by (simp add: send_cmp_raw_def w)
    next
      case (Inr u)
      then have "alive p1" using wr write_alive [of p i a0 a1 data u p1] p by (simp add: w)
      with False flushed Inr obtain e where "res2 = Inl e" "\<not> alive p2" by (cases res2) auto
      with Inr show ?thesis using wr fl by (simp add: send_cmp_raw_def w)
    qed
  next
    case True
    then have alive2: "alive p2" and res: "res1 = Inr ()" "res2 = Inr ()" by auto
    from write_alive [OF _ wr [unfolded res]] p obtain own r more' where
      sent: "alive p1" "due p1 < patience i a1" "pending p1 = pending p @ wire_bytes (own @ Cmp r # more')"
        "cart_effect i a0 a1 data (cart p) r (cart p1)" by (auto simp: w)
    have p2: "pending p2 = pending p1" "due p2 \<le> due p1" "cart p2 = cart p1"
      using flushed sent(1) res by simp_all
    let ?w = "\<lparr>sw_port = p2, sw_rb = rb\<rparr>"
    have all: "rb @ pending p2 = wire_bytes (pre @ Cmp late # post @ own @ Cmp r # more')"
    proof -
      have "rb @ pending p2 = (rb @ pending p) @ wire_bytes (own @ Cmp r # more')" by (simp add: p2(1) sent(3))
      also have "rb @ pending p = wire_bytes (pre @ Cmp late # post)" using stream by (simp add: w)
      finally show ?thesis by simp
    qed
    have "\<exists>res w'. reply_loop S i T 0 ?w = (res, w') \<and> cart (sw_port w') = cart (sw_port ?w) \<and>
      (res = Inr late \<and> alive (sw_port w') \<and> sw_rb w' @ pending (sw_port w') = wire_bytes (post @ own @ Cmp r # more') \<or>
       (\<exists>e. res = Inl e \<and> e \<noteq> Interrupted \<and> \<not> alive (sw_port w')))"
      using sent(2) p2 T late alive2 all by (intro reply_loop_gets) simp_all
    then show ?thesis using wr fl res sent(4) p2(3) by (auto simp: send_cmp_raw_def w)
  qed
qed

end

text \<open>C40: If the reply to the \<open>deinit\<close> that \<open>open\<close> begins with comes later than the 2 s it waits, and says
  \<open>ERR\<close> as a cart without a session does, then \<open>sd_init\<close> takes it for its own reply and fails, although the
  cart has executed the \<open>init\<close>: where it granted it, the card is left with the PC.\<close>

theorem late_reply_fails_init:
  assumes "sc64_port S alive pending due dtr cart" "alive (sw_port w)"
    and "all_pkts pre" "event_wf (Cmp late)" "cmp_cmd_id late = CMD_SD_CARD_OP" "\<not> cmp_ok late"
    and "sw_rb w @ pending (sw_port w) = wire_bytes (pre @ Cmp late # post)"
  shows "\<exists>res c' w'. sc64_sd_init S (c, w) = (res, c', w') \<and>
    (alive (sw_port w') \<longrightarrow> res = Inl OtherKind \<and>
      (\<exists>r. cart_effect CMD_SD_CARD_OP 0 1 [] (cart (sw_port w)) r (cart (sw_port w')) \<and>
        (cmp_ok r \<longrightarrow> held_by cart w')))"
proof -
  have "patience CMD_SD_CARD_OP 1 \<le> SECS 5" by (simp add: patience_def sc64_cmds SECS_def MILLIS_def)
  from sc64_port.late_reply_taken [OF assms(1-5,7) this, of 0 "[]"] obtain res w' where
    r: "send_cmp_raw S (cmd_packet CMD_SD_CARD_OP 0 1 []) CMD_SD_CARD_OP (SECS 5) w = (res, w')"
      "alive (sw_port w') \<longrightarrow> res = Inr late \<and>
        (\<exists>r. cart_effect CMD_SD_CARD_OP 0 1 [] (cart (sw_port w)) r (cart (sw_port w')))" by blast
  then show ?thesis using assms(6)
    by (auto simp: sc64_sd_init_def sd_card_op_def cmp_reply_def cart_effect_def held_by_def split: sum.splits)
qed

subsection \<open>Byte access over the link\<close>

context sc64_port
begin

lemma disk_run_link:
  assumes "quiet alive pending w" "512 dvd pd_bytes d" "pd_pos d \<le> pd_bytes d"
  shows "\<exists>rs d' c' w'. disk_run (read_sd_sectors (sd_read_uncached S)) (write_sd_sectors (sd_write_uncached S)) xs
      (d, cache_default, w) = Some (rs, d', c', w') \<and>
    (list_all2 io_fine xs rs \<longrightarrow>
      ram_run xs (ram_view (card_of cart w) d) = (rs, ram_view (card_of cart w') d'))"
  using link.cached.sim_run [of "(cache_default, w)" d xs] assms
  by (fastforce simp: cache_inv_default link.coherent_default)

end

text \<open>C14: A partition read and written over the SummerCart64's serial link is a RAM disk. Whatever reads, writes
  and seeks of any lengths are made, through the sectors' batches, the session's cache and the commands and
  replies on the wire, they return; and if none fails, each result and the partition's bytes are those of the
  RAM disk that held the card's bytes. The replies may come in any pieces, with packets between them, as long
  as they come in the time the link waits.\<close>

theorem sc64_disk_refines_ram:
  assumes "sc64_port S alive pending due dtr cart" "quiet alive pending w"
    and "512 dvd pd_bytes d" "pd_pos d \<le> pd_bytes d"
  shows "\<exists>rs d' c' w'. disk_run (read_sd_sectors (sd_read_uncached S)) (write_sd_sectors (sd_write_uncached S)) xs
      (d, cache_default, w) = Some (rs, d', c', w') \<and>
    (list_all2 io_fine xs rs \<longrightarrow>
      ram_run xs (ram_view (card_of cart w) d) = (rs, ram_view (card_of cart w') d'))"
  by (rule sc64_port.disk_run_link [OF assms])

subsection \<open>The sample cart answers\<close>

lemma mem_loop_alive:
  assumes "mem_alive (sw_port w)"
  shows "mem_alive (sw_port (snd (reply_loop mem_serial i T elapsed w))) \<and>
    mc_cart (sw_port (snd (reply_loop mem_serial i T elapsed w))) = mc_cart (sw_port w)"
  using assms
proof (induction "T - elapsed" arbitrary: elapsed w rule: less_induct)
  case less
  note loop = reply_loop.simps [of mem_serial i T elapsed w]
  show ?case
  proof (cases "elapsed < T")
    case False
    with less.prems show ?thesis by (simp add: loop)
  next
    case True
    have again: "mem_alive (sw_port (snd (reply_loop mem_serial i T (elapsed + dt + MILLIS 1) w'))) \<and>
        mc_cart (sw_port (snd (reply_loop mem_serial i T (elapsed + dt + MILLIS 1) w'))) = mc_cart (sw_port w')"
      if "mem_alive (sw_port w')" for dt w'
      by (rule less.hyps) (use that True in \<open>simp_all add: MILLIS_def\<close>)
    from less.prems have "mem_alive (sw_port w\<lparr>mc_out := drop 512 (mc_out (sw_port w))\<rparr>)"
      unfolding mem_alive_def by simp arith
    with True less.prems again again [where dt = 0] show ?thesis
      by (auto simp: loop split: option.split prod.split)
  qed
qed

lemma mem_send_alive:
  assumes "mem_alive (sw_port w)" "mem_write_all cmd (sw_port w) = (Inr u, p)" "mem_alive p"
  shows "mem_alive (sw_port (snd (send_cmp_raw mem_serial cmd i T w))) \<and>
    mc_cart (sw_port (snd (send_cmp_raw mem_serial cmd i T w))) = mc_cart p"
  using mem_loop_alive [of "w\<lparr>sw_port := p\<rparr>" i T 0] assms by (simp add: send_cmp_raw_def)

definition mem_idle :: "mem_cart sc64_wire \<Rightarrow> bool" where
  "mem_idle w \<longleftrightarrow> sw_rb w = [] \<and> mc_out (sw_port w) = [] \<and> \<not> mc_gone (sw_port w)"

lemma mem_idle_quiet: "mem_idle w \<Longrightarrow> quiet mem_alive mc_out w"
  by (auto simp: mem_idle_def quiet_def intro: exI [of _ "[]"])

lemma mem_reply:
  assumes "mem_idle w" "mem_exec i a0 a1 data (mc_cart (sw_port w)) = (ok, d, c)"
    and "length d \<le> 2 ^ 18" "patience i a1 \<le> T"
  shows "\<exists>w'. send_cmp_raw mem_serial (cmd_packet i a0 a1 data) i T w =
      (Inr \<lparr>cmp_ok = ok, cmp_cmd_id = i, cmp_data = d\<rparr>, w') \<and> mem_idle w' \<and> mc_cart (sw_port w') = c"
proof -
  let ?r = "\<lparr>cmp_ok = ok, cmp_cmd_id = i, cmp_data = d\<rparr>"
  let ?p = "(sw_port w)\<lparr>mc_cart := c, mc_out := event_bytes (Cmp ?r)\<rparr>"
  let ?w = "w\<lparr>sw_port := ?p\<rparr>"
  have idle: "sw_rb w = []" "mc_out (sw_port w) = []" "\<not> mc_gone (sw_port w)"
    using assms(1) by (simp_all add: mem_idle_def)
  have len: "length (event_bytes (Cmp ?r)) = 8 + length d" by (simp add: event_bytes_def sc64_tags be32_def)
  have alive: "mem_alive ?p" using idle(3) assms(3) len by (simp add: mem_alive_def MEM_QUEUE_def)
  have wr: "mem_write_all (cmd_packet i a0 a1 data) (sw_port w) = (Inr (), ?p)"
    using idle assms(2,3) len
    by (simp add: mem_write_all_def cmd_packet_fields mem_alive_def MEM_QUEUE_def)
  have "event_wf (Cmp ?r)" using mem_exec_reply [OF assms(2)] by (simp add: event_wf_def)
  moreover have "0 + mem_due (sw_port ?w) < T" using mem_due_bound [OF alive, of i a1] assms(4) by simp
  ultimately obtain res w' where r: "reply_loop mem_serial i T 0 ?w = (res, w')" "mc_cart (sw_port w') = c"
      "res = Inr ?r \<and> mem_alive (sw_port w') \<and> sw_rb w' @ mc_out (sw_port w') = [] \<or> \<not> mem_alive (sw_port w')"
    using mem_port.reply_loop_gets [of ?w "[]" ?r i "[]" 0 T] alive idle by auto
  moreover have "mem_alive (sw_port w')" using mem_loop_alive [of ?w i T 0] alive r(1) by simp
  ultimately show ?thesis
    using wr by (auto simp: send_cmp_raw_def mem_idle_def mem_alive_def)
qed

lemma mem_request:
  assumes "mem_idle w" "mem_exec i a0 a1 data (mc_cart (sw_port w)) = (True, d, c)"
    and "length d \<le> 2 ^ 18" "patience i a1 \<le> T"
  shows "\<exists>w'. cmp_reply (send_cmp_raw mem_serial (cmd_packet i a0 a1 data) i T w) = (Inr d, w') \<and>
    mem_idle w' \<and> mc_cart (sw_port w') = c"
  using mem_reply [OF assms] by (auto simp: cmp_reply_def)

lemma mem_sector:
  assumes "mem_idle w" "held_by mc_cart w" "sd_request lba len"
  shows "\<exists>w'. sd_read_uncached mem_serial lba len w = (Inr (bytes_at (card_of mc_cart w) (lba * SECTOR_BYTES) len), w') \<and>
    mem_idle w' \<and> held_by mc_cart w' \<and> card_of mc_cart w' = card_of mc_cart w"
proof -
  note words = sd_request_words [OF assms(3)]
  let ?count = "of_nat (len div SECTOR_BYTES) :: u32" and ?sec = "be32 (of_nat lba)"
  let ?c = "mc_cart (sw_port w)"
  let ?c' = "?c\<lparr>ct_ram := overlay (ct_ram ?c) (unat SD_CARD_BUFFER_ADDR) (bytes_at (ct_card ?c) (lba * SECTOR_BYTES) len)\<rparr>"
  have exec: "mem_exec CMD_SD_READ SD_CARD_BUFFER_ADDR ?count ?sec ?c = (True, [], ?c')"
    using assms(2) by (simp add: mem_exec_def sc64_cmds held_by_def words)
  have "patience CMD_SD_READ ?count \<le> sd_rw_timeout (unat ?count)" by (simp add: patience_def)
  from mem_request [OF assms(1) exec _ this] obtain w1 where
    w1: "cmp_reply (send_cmp_raw mem_serial (cmd_packet CMD_SD_READ SD_CARD_BUFFER_ADDR ?count ?sec) CMD_SD_READ
        (sd_rw_timeout (unat ?count)) w) = (Inr [], w1)" "mem_idle w1" "mc_cart (sw_port w1) = ?c'" by auto
  have len: "len \<le> 2 ^ 18" "unat (of_nat len :: u32) \<le> SD_CARD_BUFFER_MAX_BYTES"
    using assms(3) by (simp_all add: words(3)) (simp_all add: sd_request_def SD_CARD_BUFFER_MAX_BYTES_def)
  have exec2: "mem_exec CMD_MEMORY_READ SD_CARD_BUFFER_ADDR (of_nat len) [] (mc_cart (sw_port w1)) =
      (True, bytes_at (ct_card ?c) (lba * SECTOR_BYTES) len, ?c')"
    using len(2) by (simp add: mem_exec_def sc64_cmds w1(3) words(3))
  have "patience CMD_MEMORY_READ (of_nat len) \<le> memory_io_timeout len"
    by (simp add: patience_def sc64_cmds words(3))
  from mem_request [OF w1(2) exec2 _ this] len(1) obtain w2 where
    "cmp_reply (send_cmp_raw mem_serial (cmd_packet CMD_MEMORY_READ SD_CARD_BUFFER_ADDR (of_nat len) []) CMD_MEMORY_READ
        (memory_io_timeout len) w1) = (Inr (bytes_at (ct_card ?c) (lba * SECTOR_BYTES) len), w2)" "mem_idle w2"
      "mc_cart (sw_port w2) = ?c'" by auto
  with w1 assms(2) show ?thesis by (simp add: sd_read_uncached_def sc64_memory_read_def seen_defs)
qed

text \<open>The cart with nothing outstanding, or with a late reply.\<close>

definition sample_wire :: "cart \<Rightarrow> octets \<Rightarrow> mem_cart sc64_wire" where
  "sample_wire c out' = \<lparr>sw_port = \<lparr>mc_cart = c, mc_out = out', mc_gone = False, mc_dtr = False\<rparr>, sw_rb = []\<rparr>"

lemma mem_link_sector:
  assumes "mem_idle w" "held_by mc_cart w" "lba < 2 ^ 32"
  shows "\<exists>c w'. read_sd_sectors (sd_read_uncached mem_serial) lba 512 (cache_default, w) =
    Some (Inr (bytes_at (card_of mc_cart w) (lba * SECTOR_BYTES) 512), c, w')"
proof -
  have "sd_request lba 512" using assms(3) by (simp add: sd_request_def SECTOR_BYTES_def SD_CARD_BUFFER_MAX_BYTES_def)
  from mem_sector [OF assms(1,2) this] obtain w' where
    w': "sd_read_uncached mem_serial lba 512 w = (Inr (bytes_at (card_of mc_cart w) (lba * SECTOR_BYTES) 512), w')"
    by blast
  let ?bs = "bytes_at (card_of mc_cart w) (lba * SECTOR_BYTES) 512"
  have "?bs \<noteq> []" using length_bytes_at [of "card_of mc_cart w" "lba * SECTOR_BYTES" 512] by fastforce
  from cache_insert_total [OF cache_inv_default this] obtain c where "cache_insert lba ?bs cache_default = Some c"
    by blast
  with w' assms(3) show ?thesis
    by (simp add: read_sd_sectors_def read_through_def covering_def cache_default_def bt_last_le_def SECTOR_BYTES_def
        SD_CARD_BUFFER_MAX_BYTES_def)
qed

theorem late_reply_fails_init_witness:
  "\<exists>c' w'. sc64_sd_init mem_serial (cache_default,
      sample_wire \<lparr>ct_card = (\<lambda>a. 7), ct_ram = (\<lambda>a. 0), ct_held = False\<rparr>
        (event_bytes (Cmp \<lparr>cmp_ok = False, cmp_cmd_id = CMD_SD_CARD_OP, cmp_data = []\<rparr>))) = (Inl OtherKind, c', w') \<and>
    held_by mc_cart w'"
proof -
  let ?late = "\<lparr>cmp_ok = False, cmp_cmd_id = CMD_SD_CARD_OP, cmp_data = []\<rparr>"
  let ?w = "sample_wire \<lparr>ct_card = (\<lambda>a. 7), ct_ram = (\<lambda>a. 0), ct_held = False\<rparr> (event_bytes (Cmp ?late))"
  have w: "mem_alive (sw_port ?w)" "sw_rb ?w @ mc_out (sw_port ?w) = wire_bytes ([] @ Cmp ?late # [])"
    by (simp_all add: sample_wire_def mem_alive_def MEM_QUEUE_def event_bytes_def sc64_tags be32_def)
  obtain p where p: "mem_write_all (cmd_packet CMD_SD_CARD_OP 0 1 []) (sw_port ?w) = (Inr (), p)" "mem_alive p"
      "ct_held (mc_cart p)"
    by (simp add: mem_write_all_def cmd_packet_fields sample_wire_def mem_alive_def mem_exec_def MEM_QUEUE_def
        event_bytes_def sc64_tags be32_def sc64_cmds)
  from late_reply_fails_init [OF mem_port.sc64_port_axioms w(1) _ _ _ _ w(2), of cache_default]
  obtain res c' w' where r: "sc64_sd_init mem_serial (cache_default, ?w) = (res, c', w')"
      "mem_alive (sw_port w') \<longrightarrow> res = Inl OtherKind"
    by (auto simp: event_wf_def)
  have "mem_alive (sw_port w') \<and> held_by mc_cart w'"
    using mem_send_alive [OF w(1) p(1,2), of CMD_SD_CARD_OP "SECS 5"] p(3) r(1)
    by (auto simp: sc64_sd_init_def sd_card_op_def cmp_reply_def held_by_def split: prod.splits sum.splits if_splits)
  with r show ?thesis by auto
qed

theorem sc64_disk_refines_ram_witness:
  "\<exists>rs d' c' w'. disk_run (read_sd_sectors (sd_read_uncached mem_serial)) (write_sd_sectors (sd_write_uncached mem_serial))
      [OpRead 3] (partition_disk_new_writable 63 1024, cache_default, sample_wire \<lparr>ct_card = (\<lambda>a. 7), ct_ram = (\<lambda>a. 0), ct_held = True\<rparr> []) =
        Some (rs, d', c', w') \<and> rs = [GotBytes [7, 7, 7]] \<and> pd_pos d' = 3"
proof -
  let ?w = "sample_wire \<lparr>ct_card = (\<lambda>a. 7), ct_ram = (\<lambda>a. 0), ct_held = True\<rparr> []"
  let ?d = "partition_disk_new_writable 63 1024"
  let ?rd = "read_sd_sectors (sd_read_uncached mem_serial)" and ?wr = "write_sd_sectors (sd_write_uncached mem_serial)"
  have idle: "mem_idle ?w" "held_by mc_cart ?w" by (simp_all add: sample_wire_def mem_idle_def held_by_def)
  from sc64_disk_refines_ram [OF mem_port.sc64_port_axioms mem_idle_quiet [OF idle(1)], of ?d "[OpRead 3]"]
  obtain rs d' c' w' where r: "disk_run ?rd ?wr [OpRead 3] (?d, cache_default, ?w) = Some (rs, d', c', w')"
      "list_all2 io_fine [OpRead 3] rs \<longrightarrow>
        ram_run [OpRead 3] (ram_view (card_of mc_cart ?w) ?d) = (rs, ram_view (card_of mc_cart w') d')"
    by (auto simp: partition_disk_new_writable_def)
  from mem_link_sector [OF idle, of 63] obtain c2 w2 where
    "?rd 63 512 (cache_default, ?w) = Some (Inr (bytes_at (card_of mc_cart ?w) (63 * SECTOR_BYTES) 512), c2, w2)" by auto
  moreover have "pd_pos ?d = 0" "pd_start ?d = 63" "pd_bytes ?d = 1024"
    by (simp_all add: partition_disk_new_writable_def)
  ultimately have "disk_read_loop ?rd ?d 3 [] (cache_default, ?w) =
      Some (Inr (slice 0 3 (bytes_at (card_of mc_cart ?w) (63 * SECTOR_BYTES) 512)), c2, w2)"
    by (simp add: disk_read_loop.simps [of ?rd ?d 3] batch_bytes_def slice_def)
  then have "\<exists>got. rs = [GotBytes got]"
    using r(1) by (auto simp: disk_read_def partition_disk_new_writable_def result_of_def)
  then have "list_all2 io_fine [OpRead 3] rs" by auto
  with r(2) have "ram_run [OpRead 3] (ram_view (card_of mc_cart ?w) ?d) = (rs, ram_view (card_of mc_cart w') d')" by blast
  moreover have "bytes_at (\<lambda>a. 7) b n = replicate n 7" for b n by (simp add: bytes_at_def map_replicate_const)
  ultimately have "rs = [GotBytes [7, 7, 7]] \<and> pd_pos d' = 3"
    by (auto simp: ram_read_def ram_view_def partition_disk_new_writable_def card_of_def sample_wire_def slice_def
        result_of_def numeral_eq_Suc Let_def)
  with r(1) show ?thesis by blast
qed

end
