(* ===== verification/Sc64_Session.thy ===== *)
theory Sc64_Session
  imports Sc64_Cart Sd_Volume
begin

text \<open>
  An SD session on a SummerCart64, from \<open>crates/multi64-sc64-sd/src/partition.rs\<close>: \<open>Sc64SdSession::open\<close>
  over an opened port, \<open>close\<close>, and the release when the session is dropped. While the cart holds the card for
  the PC the console does not boot from it, so every path that took it has to give it back.
\<close>

subsection \<open>Opening and releasing\<close>

type_synonym 'p sc64_state = "sd_read_cache \<times> 'p sc64_wire"

record sc64_session =
  ss_start :: nat
  ss_bytes :: nat
  ss_exfat :: bool
  ss_released :: bool

definition link_sector :: "'p serial \<Rightarrow> nat \<Rightarrow> ('p sc64_state, octets) io" where
  "link_sector S lba = read_sd_sectors (sd_read_uncached S) lba 512"

definition sc64_session_open :: "'p serial \<Rightarrow> 'p \<Rightarrow> ((io_kind + sc64_session) \<times> 'p sc64_state) option" where
  "sc64_session_open S port =
     (case sr_set_timeout S (MILLIS 500) port of
        (Inl e, p) \<Rightarrow> Some (Inl e, cache_default, \<lparr>sw_port = p, sw_rb = []\<rparr>)
      | (Inr _, p) \<Rightarrow>
          (case usb_reset_link S \<lparr>sw_port = p, sw_rb = []\<rparr> of
             None \<Rightarrow> None
           | Some (_, w1) \<Rightarrow>
               (case sc64_identify S w1 of
                  (Inl e, w2) \<Rightarrow> Some (Inl e, cache_default, w2)
                | (Inr _, w2) \<Rightarrow>
                    (case sc64_sd_init S (sc64_sd_deinit_try S (cache_default, w2)) of
                       (Inl e, cw) \<Rightarrow> Some (Inl e, cw)
                     | (Inr _, cw) \<Rightarrow>
                         (case probe_volume (link_sector S) cw of
                            None \<Rightarrow> None
                          | Some (Inl e, cw') \<Rightarrow> Some (Inl e, sc64_sd_deinit_try S cw')
                          | Some (Inr (part_start, exfat, part_bytes), cw') \<Rightarrow>
                              Some (Inr \<lparr>ss_start = part_start, ss_bytes = part_bytes, ss_exfat = exfat,
                                ss_released = False\<rparr>, cw'))))))"

text \<open>The lock on the link is taken to be free: nothing panicked while it was held.\<close>

definition release_once ::
  "'p serial \<Rightarrow> sc64_session \<Rightarrow> 'p sc64_state \<Rightarrow> (io_kind + unit) \<times> sc64_session \<times> 'p sc64_state" where
  "release_once S s cw =
     (if ss_released s then (Inr (), s, cw)
      else
        let s = s\<lparr>ss_released := True\<rparr> in
        case release_usb_session S cw of
          (Inl e, cw') \<Rightarrow> (Inl e, s\<lparr>ss_released := False\<rparr>, cw')
        | (Inr _, cw') \<Rightarrow> (Inr (), s, cw'))"

definition session_close ::
  "'p serial \<Rightarrow> sc64_session \<Rightarrow> 'p sc64_state \<Rightarrow> (io_kind + unit) \<times> sc64_session \<times> 'p sc64_state" where
  "session_close S = release_once S"

definition session_drop :: "'p serial \<Rightarrow> sc64_session \<Rightarrow> 'p sc64_state \<Rightarrow> 'p sc64_state" where
  "session_drop S s cw = snd (snd (release_once S s cw))"

subsection \<open>A session in use\<close>

text \<open>The file system and the copies reach the cart by reading and writing sectors and by flushing; a caller
  may close the session, more than once, and go on.\<close>

datatype session_op = SessRead nat nat | SessWrite nat octets | SessFlush | SessClose

fun session_do ::
  "'p serial \<Rightarrow> session_op \<Rightarrow> sc64_session \<times> 'p sc64_state \<Rightarrow> (sc64_session \<times> 'p sc64_state) option" where
  "session_do S (SessRead lba n) (s, cw) =
     map_option (\<lambda>(_, cw'). (s, cw')) (read_sd_sectors (sd_read_uncached S) lba n cw)"
| "session_do S (SessWrite lba bytes) (s, cw) =
     map_option (\<lambda>(_, cw'). (s, cw')) (write_sd_sectors (sd_write_uncached S) lba bytes cw)"
| "session_do S SessFlush (s, cw) = Some (s, snd (sc64_flush_serial S cw))"
| "session_do S SessClose (s, cw) = Some (snd (session_close S s cw))"

fun session_run ::
  "'p serial \<Rightarrow> session_op list \<Rightarrow> sc64_session \<times> 'p sc64_state \<Rightarrow> (sc64_session \<times> 'p sc64_state) option" where
  "session_run S [] st = Some st"
| "session_run S (x # xs) st = (case session_do S x st of None \<Rightarrow> None | Some st' \<Rightarrow> session_run S xs st')"

text \<open>What the cart is left with: unless the port has gone, the card is the console's again.\<close>

definition given_back :: "('p \<Rightarrow> bool) \<Rightarrow> ('p \<Rightarrow> cart) \<Rightarrow> 'p sc64_wire \<Rightarrow> bool" where
  "given_back alive cart w \<longleftrightarrow> (alive (sw_port w) \<longrightarrow> \<not> held_by cart w)"

lemma given_back_same: "same_hold alive cart w w' \<Longrightarrow> given_back alive cart w \<Longrightarrow> given_back alive cart w'"
  by (auto simp: given_back_def same_hold_def)

context sc64_port
begin

definition in_session :: "'p sc64_state \<Rightarrow> bool" where
  "in_session = (\<lambda>(c, w). cache_inv c \<and> link.coherent w c \<and> quiet alive pending w)"

lemma sd_card_op_result:
  assumes "quiet alive pending w" "SECS 2 \<le> T"
  shows "\<exists>res w'. sd_card_op S opn T w = (res, w') \<and> quiet alive pending w' \<and> res \<noteq> Inl Interrupted \<and>
    card_of cart w' = card_of cart w \<and> (res = Inr () \<longrightarrow> opn \<noteq> 0 \<longrightarrow> held_by cart w') \<and>
    (opn = 0 \<longrightarrow> given_back alive cart w') \<and>
    (given_back alive cart w \<longrightarrow> res \<noteq> Inr () \<longrightarrow> given_back alive cart w')"
proof -
  have "patience CMD_SD_CARD_OP opn \<le> T" using assms(2) by (simp add: patience_def sc64_cmds)
  from cmp_reply_result [OF assms(1) this, of 0 "[]"] show ?thesis
  proof (elim exE conjE disjE, goal_cases)
    case (1 res w' r)
    then show ?case
      by (cases "cmp_ok r") (auto simp: sd_card_op_def cart_effect_def seen_defs given_back_def split: if_splits)
  next
    case (2 res w' e)
    then show ?case by (auto simp: sd_card_op_def seen_defs given_back_def)
  next
    case (3 res w' e r)
    then show ?case
      by (auto simp: sd_card_op_def cart_effect_def seen_defs given_back_def split: if_splits)
  qed
qed

lemma usb_reset_result:
  "\<exists>res w'. usb_reset_link S w = Some (res, w') \<and> quiet alive pending w' \<and> cart (sw_port w') = cart (sw_port w)"
proof -
  obtain p1 r1 where p1: "sr_clear S (sw_port w) = (r1, p1)" by fastforce
  obtain p2 r2 where p2: "sr_set_dtr S True p1 = (r2, p2)" by fastforce
  obtain p3 r3 where p3: "sr_sleep S (MILLIS 80) p2 = (r3, p3)" by fastforce
  obtain p4 r4 where p4: "sr_clear S p3 = (r4, p4)" by fastforce
  obtain p5 r5 where p5: "sr_set_dtr S False p4 = (r5, p5)" by fastforce
  obtain p6 r6 where p6: "sr_sleep S (MILLIS 80) p5 = (r6, p6)" by fastforce
  obtain p7 r7 where p7: "sr_clear S p6 = (r7, p7)" by fastforce
  obtain res dt p8 where rd: "sr_read S 256 p7 = (res, dt, p8)" by (metis prod_cases3)
  note k = clear_keeps [OF p1] dtr_keeps [OF p2] sleep_keeps [OF p3] clear_keeps [OF p4] dtr_keeps [OF p5]
    sleep_keeps [OF p6] clear_keeps [OF p7]
  have same: "cart p7 = cart (sw_port w)" using k by simp
  have empty: "pending p7 = []" if "alive p7"
  proof -
    have "alive p6" "alive p5" "alive p4" "alive p3" "alive p2" using that k by blast+
    then have "pending p4 = []" using k by blast
    then have "pending p6 = []" using k \<open>alive p5\<close> by simp
    with that k show ?thesis by blast
  qed
  note loop = drain_loop.simps [of S 0 "\<lparr>sw_port = p7, sw_rb = []\<rparr>"]
  note keeps = read_keeps [OF rd]
  have reset: "usb_reset_link S w =
      (case drain_loop S 0 \<lparr>sw_port = p7, sw_rb = []\<rparr> of
         None \<Rightarrow> None
       | Some (Inl e, w') \<Rightarrow> Some (Inl e, w')
       | Some (Inr _, w') \<Rightarrow> Some (Inr (), w'\<lparr>sw_rb := []\<rparr>))"
    by (simp add: usb_reset_link_def p1 p2 p3 p4 p5 p6 p7)
  show ?thesis
  proof (cases res)
    case (Inl e)
    then show ?thesis
      using rd keeps empty same
      by (cases "alive p7"; cases "e = TimedOut") (auto simp: reset loop MILLIS_def quiet_def intro: exI [of _ "[]"])
  next
    case (Inr bs)
    then have "alive p7" using keeps by (cases "alive p7") auto
    then have "bs = []" "pending p8 = []" using keeps empty Inr by simp_all
    then show ?thesis
      using rd keeps same Inr by (auto simp: reset loop MILLIS_def quiet_def intro: exI [of _ "[]"])
  qed
qed

lemma identify_result:
  assumes "quiet alive pending w"
  shows "\<exists>res w'. sc64_identify S w = (res, w') \<and> quiet alive pending w' \<and>
    card_of cart w' = card_of cart w \<and> held_by cart w' = held_by cart w"
proof -
  have "patience CMD_IDENTIFIER_GET 0 \<le> SECS 5" by (simp add: patience_def sc64_cmds)
  from cmp_reply_result [OF assms this, of 0 "[]"] show ?thesis
  proof (elim exE conjE disjE, goal_cases)
    case (1 res w' r)
    then show ?case by (cases "cmp_ok r") (auto simp: sc64_identify_def cart_effect_def sc64_cmds seen_defs)
  qed (auto simp: sc64_identify_def cart_effect_def sc64_cmds seen_defs)
qed

lemma deinit_try_result:
  assumes "quiet alive pending w"
  shows "\<exists>c' w'. sc64_sd_deinit_try S (c, w) = (c', w') \<and> in_session (c', w') \<and> card_of cart w' = card_of cart w \<and>
    given_back alive cart w'"
proof -
  have "patience CMD_SD_CARD_OP 0 \<le> SECS 2" by (simp add: patience_def sc64_cmds)
  from send_cmp_result [OF assms this, of 0 "[]"] show ?thesis
    by (auto simp: sc64_sd_deinit_try_def in_session_def cache_inv_clear link.coherent_clear cart_effect_def seen_defs
        given_back_def)
qed

lemma sd_init_result:
  assumes "quiet alive pending w"
  shows "\<exists>res c' w'. sc64_sd_init S (c, w) = (res, c', w') \<and> in_session (c', w') \<and>
    card_of cart w' = card_of cart w \<and> (res = Inr () \<longrightarrow> held_by cart w') \<and>
    (given_back alive cart w \<longrightarrow> res \<noteq> Inr () \<longrightarrow> given_back alive cart w')"
  using sd_card_op_result [OF assms, of "SECS 5" 1]
  by (auto simp: sc64_sd_init_def in_session_def cache_inv_clear link.coherent_clear SECS_def MILLIS_def)

lemma release_usb_result:
  assumes "quiet alive pending w"
  shows "\<exists>res c' w'. release_usb_session S (c, w) = (res, c', w') \<and> in_session (c', w') \<and>
    card_of cart w' = card_of cart w \<and> given_back alive cart w'"
proof -
  obtain res w1 where d: "sd_card_op S 0 (SECS 3) w = (res, w1)" "quiet alive pending w1"
      "card_of cart w1 = card_of cart w" "given_back alive cart w1"
    using sd_card_op_result [OF assms, of "SECS 3" 0] by (auto simp: SECS_def MILLIS_def)
  obtain r2 w2 where f: "sc64_flush_serial S (cache_clear c, w1) = (r2, cache_clear c, w2)" "quiet alive pending w2"
      "card_of cart w2 = card_of cart w1" "same_hold alive cart w1 w2"
    using sc64_flush_result [OF d(2)] by blast
  have "given_back alive cart w2" by (rule given_back_same [OF f(4) d(4)])
  with d f show ?thesis
    by (cases res) (auto simp: release_usb_session_def sc64_sd_deinit_def in_session_def cache_inv_clear
        link.coherent_clear)
qed

text \<open>Sectors through the cache keep who holds the card.\<close>

lemma read_sd_sectors_held:
  assumes "in_session (c, w)" "read_sd_sectors (sd_read_uncached S) lba n (c, w) = Some (r, c', w')"
  shows "same_hold alive cart w w'"
proof (cases "sd_request lba n")
  case True
  have quiet: "quiet alive pending w" using assms(1) by (simp add: in_session_def)
  obtain r1 w1 where "sd_read_uncached S lba n w = (r1, w1)" "same_hold alive cart w w1"
    using sd_read_uncached_result [OF quiet True] by blast
  with assms(2) show ?thesis
    by (auto simp: read_sd_sectors_def read_through_def split: if_splits option.splits sum.splits)
next
  case False
  with assms(2) show ?thesis by (auto simp: read_sd_sectors_def sd_request_def split: if_splits)
qed

lemma write_sd_sectors_held:
  assumes "in_session (c, w)" "write_sd_sectors (sd_write_uncached S) lba bytes (c, w) = Some (r, c', w')"
  shows "same_hold alive cart w w'"
proof (cases "sd_request lba (length bytes)")
  case True
  have quiet: "quiet alive pending w" using assms(1) by (simp add: in_session_def)
  obtain r1 w1 where "sd_write_uncached S lba bytes w = (r1, w1)" "same_hold alive cart w w1"
    using sd_write_uncached_result [OF quiet True] by blast
  with assms(2) show ?thesis
    by (auto simp: write_sd_sectors_def write_through_def split: if_splits)
next
  case False
  with assms(2) show ?thesis by (auto simp: write_sd_sectors_def sd_request_def split: if_splits)
qed

definition holding :: "'p sc64_state \<Rightarrow> bool" where
  "holding cw \<longleftrightarrow> in_session cw \<and> held_by cart (snd cw)"

lemma link_sector_reads:
  assumes "holding cw"
  shows "reads holding (\<lambda>(c, w). card_of cart w) cw (link_sector S lba)
    (\<lambda>bs. bs = sector_at (case cw of (c, w) \<Rightarrow> card_of cart w) lba)"
proof -
  obtain c w where cw: "cw = (c, w)" by fastforce
  have s: "in_session (c, w)" "held_by cart w" using assms by (simp_all add: holding_def cw)
  then have ok: "(\<lambda>(c, w). cache_inv c \<and> link.coherent w c \<and> quiet alive pending w) (c, w)"
    by (simp add: in_session_def)
  show ?thesis
    by (rule link.cached.rd_cases [OF ok, of lba 512])
      (use read_sd_sectors_held [OF s(1), of lba 512] s(2) in
        \<open>auto simp: reads_def link_sector_def holding_def in_session_def cw same_hold_def\<close>)
qed

end

lemma probe_returns:
  assumes "\<And>lba w. ok w \<Longrightarrow> reads ok content w (read_sector lba) (\<lambda>_. True)" and "ok w"
  shows "reads ok content w (probe_volume read_sector) (\<lambda>_. True)"
proof -
  have "reads ok content w (detect_partition_start s read_sector) (\<lambda>_. True)" if "ok w" for w s
    using that unfolding detect_partition_start_def
    by (auto simp: Let_def intro!: reads_intro reads_bind [OF assms(1)])
  then show ?thesis
    using assms(2) unfolding probe_volume_def
    by (auto intro!: reads_bind [where Q = "\<lambda>_. True"] reads_intro assms(1))
qed

subsection \<open>The card is given back\<close>

text \<open>What the boot sectors of the card say of its volume.\<close>

definition volume_of_card :: "(nat \<Rightarrow> u8) \<Rightarrow> sc64_session \<Rightarrow> bool" where
  "volume_of_card f s \<longleftrightarrow>
     (\<forall>start. partitioned f start \<longrightarrow>
        ss_start s = start \<and> ss_exfat s = is_exfat_boot_sector (sector_at f start) \<and>
        ss_bytes s = volume_bytes (sector_at f start))"

context sc64_port
begin

lemma probe_result:
  assumes "holding (c, w)"
  shows "\<exists>r c' w'. probe_volume (link_sector S) (c, w) = Some (r, c', w') \<and> holding (c', w') \<and>
    card_of cart w' = card_of cart w \<and>
    (\<forall>start exfat bytes. r = Inr (start, exfat, bytes) \<longrightarrow>
      volume_of_card (card_of cart w) \<lparr>ss_start = start, ss_bytes = bytes, ss_exfat = exfat, ss_released = b\<rparr>)"
proof -
  let ?view = "\<lambda>(c, w). card_of cart w"
  have "reads holding ?view (c, w) (probe_volume (link_sector S)) (\<lambda>_. True)"
    using assms by (auto intro!: probe_returns intro: reads_mono [OF link_sector_reads])
  then obtain r c' w' where r: "probe_volume (link_sector S) (c, w) = Some (r, c', w')" "holding (c', w')"
      "card_of cart w' = card_of cart w" by (auto simp: reads_def)
  have "r = Inr (start, exfat, bytes) \<longrightarrow> partitioned (card_of cart w) st \<longrightarrow>
      start = st \<and> exfat = is_exfat_boot_sector (sector_at (card_of cart w) st) \<and>
      bytes = volume_bytes (sector_at (card_of cart w) st)" for start exfat bytes st
  proof (intro impI)
    assume v: "r = Inr (start, exfat, bytes)" and st: "partitioned (card_of cart w) st"
    have "reads holding ?view (c, w) (probe_volume (link_sector S))
      (\<lambda>v. v = (st, is_exfat_boot_sector (sector_at (?view (c, w)) st), volume_bytes (sector_at (?view (c, w)) st)) \<and>
        snd (snd v) < 2 ^ 64)"
      using probe_reads [of holding ?view "link_sector S" "(c, w)" st, OF link_sector_reads assms] st by simp
    with r(1) v show "start = st \<and> exfat = is_exfat_boot_sector (sector_at (card_of cart w) st) \<and>
      bytes = volume_bytes (sector_at (card_of cart w) st)" by (simp add: reads_def)
  qed
  then have "r = Inr (start, exfat, bytes) \<longrightarrow>
      volume_of_card (card_of cart w) \<lparr>ss_start = start, ss_bytes = bytes, ss_exfat = exfat, ss_released = b\<rparr>"
    for start exfat bytes
    unfolding volume_of_card_def sc64_session.select_convs by blast
  with r show ?thesis by (intro exI conjI allI) (rule r(1), simp_all)
qed

text \<open>A session that opens holds the card; one that does not has given it back, unless it was held before and
  the cart did not say that it is a SummerCart64.\<close>

lemma session_open_result:
  "\<exists>res c w. sc64_session_open S port = Some (res, c, w) \<and>
    card_of cart w = ct_card (cart port) \<and>
    (\<forall>e. res = Inl e \<longrightarrow> given_back alive cart w \<or> held_by cart w = ct_held (cart port)) \<and>
    (\<forall>s. res = Inr s \<longrightarrow> holding (c, w) \<and> \<not> ss_released s \<and> volume_of_card (ct_card (cart port)) s)"
proof -
  obtain r0 p0 where p0: "sr_set_timeout S (MILLIS 500) port = (r0, p0)" by fastforce
  have p0': "cart p0 = cart port" "\<not> alive port \<longrightarrow> \<not> alive p0" using timeout_keeps [OF p0] by simp_all
  obtain r1 w1 where w1: "usb_reset_link S \<lparr>sw_port = p0, sw_rb = []\<rparr> = Some (r1, w1)" "quiet alive pending w1"
      "cart (sw_port w1) = cart port"
    using usb_reset_result [of "\<lparr>sw_port = p0, sw_rb = []\<rparr>"] p0'(1) by auto
  obtain r2 w2 where w2: "sc64_identify S w1 = (r2, w2)" "quiet alive pending w2" "card_of cart w2 = card_of cart w1"
      "held_by cart w2 = held_by cart w1"
    using identify_result [OF w1(2)] by blast
  obtain c3 w3 where w3: "sc64_sd_deinit_try S (cache_default, w2) = (c3, w3)" "in_session (c3, w3)"
      "card_of cart w3 = card_of cart w2" "given_back alive cart w3"
    using deinit_try_result [OF w2(2), of cache_default] by blast
  have q3: "quiet alive pending w3" using w3(2) by (simp add: in_session_def)
  obtain r4 c4 w4 where w4: "sc64_sd_init S (c3, w3) = (r4, c4, w4)" "in_session (c4, w4)"
      "card_of cart w4 = card_of cart w3" "r4 = Inr () \<longrightarrow> held_by cart w4"
      "r4 \<noteq> Inr () \<longrightarrow> given_back alive cart w4"
    using sd_init_result [OF q3, of c3] w3(4) by blast
  have card: "card_of cart w1 = ct_card (cart port)" "held_by cart w1 = ct_held (cart port)"
    using w1(3) by (simp_all add: seen_defs)
  note open_def = sc64_session_open_def p0
  show ?thesis
  proof (cases r0)
    case (Inl e)
    with p0' timeout_keeps [OF p0] show ?thesis
      by (auto simp: open_def seen_defs)
  next
    case (Inr u)
    note opened = open_def Inr w1(1) w2(1) w3(1) w4(1)
    show ?thesis
    proof (cases r2)
      case (Inl e)
      then show ?thesis using card w2
        by (auto simp: opened in_session_def cache_inv_default link.coherent_default)
    next
      case r2: (Inr u2)
      show ?thesis
      proof (cases r4)
        case (Inl e)
        then show ?thesis using card w2(3) w3(3) w4 by (auto simp: opened r2)
      next
        case r4: (Inr u4)
        then have "holding (c4, w4)" using w4 by (simp add: holding_def)
        from probe_result [OF this, where b = False] obtain r5 c5 w5 where
          w5: "probe_volume (link_sector S) (c4, w4) = Some (r5, c5, w5)" "holding (c5, w5)"
            "card_of cart w5 = card_of cart w4"
            "\<forall>start exfat bytes. r5 = Inr (start, exfat, bytes) \<longrightarrow>
              volume_of_card (card_of cart w4) \<lparr>ss_start = start, ss_bytes = bytes, ss_exfat = exfat, ss_released = False\<rparr>"
          by blast
        have q5: "quiet alive pending w5" using w5(2) by (simp add: holding_def in_session_def)
        from deinit_try_result [OF q5, of c5] obtain c6 w6 where
          w6: "sc64_sd_deinit_try S (c5, w5) = (c6, w6)" "in_session (c6, w6)" "card_of cart w6 = card_of cart w5"
            "given_back alive cart w6" by blast
        have same: "card_of cart w4 = ct_card (cart port)" using card w2(3) w3(3) w4(3) by simp
        show ?thesis
        proof (cases r5)
          case (Inl e)
          then show ?thesis using w5(1,3) w6 same by (simp add: opened r2 r4)
        next
          case (Inr v)
          obtain start exfat bytes where v: "v = (start, exfat, bytes)" by (metis prod_cases3)
          show ?thesis using w5 same Inr v by (auto simp: opened r2 r4 holding_def)
        qed
      qed
    qed
  qed
qed

lemma release_once_result:
  assumes "in_session (c, w)" "ss_released s \<longrightarrow> given_back alive cart w"
  shows "\<exists>res s' c' w'. release_once S s (c, w) = (res, s', c', w') \<and> in_session (c', w') \<and>
    card_of cart w' = card_of cart w \<and> given_back alive cart w'"
proof (cases "ss_released s")
  case True
  with assms show ?thesis by (simp add: release_once_def)
next
  case False
  have "quiet alive pending w" using assms(1) by (simp add: in_session_def)
  from release_usb_result [OF this, of c] obtain res c' w' where
    r: "release_usb_session S (c, w) = (res, c', w')" "in_session (c', w')" "card_of cart w' = card_of cart w"
      "given_back alive cart w'" by blast
  with False show ?thesis by (cases res) (auto simp: release_once_def)
qed

lemma session_do_keeps:
  assumes "in_session (c, w)" "ss_released s \<longrightarrow> given_back alive cart w"
  shows "\<exists>s' c' w'. session_do S x (s, c, w) = Some (s', c', w') \<and> in_session (c', w') \<and>
    (ss_released s' \<longrightarrow> given_back alive cart w')"
proof -
  have ok: "(\<lambda>(c, w). cache_inv c \<and> link.coherent w c \<and> quiet alive pending w) (c, w)"
    using assms(1) by (simp add: in_session_def)
  show ?thesis
  proof (cases x)
    case (SessRead lba n)
    from link.cached.rd_total [OF ok, of lba n] obtain r c' w' where
      r: "read_sd_sectors (sd_read_uncached S) lba n (c, w) = Some (r, c', w')" by auto
    from link.cached.rd_keeps [OF ok r] have "in_session (c', w')" by (simp add: in_session_def)
    with r SessRead assms(2) given_back_same [OF read_sd_sectors_held [OF assms(1) r]] show ?thesis by auto
  next
    case (SessWrite lba bytes)
    from link.cached.wr_total [OF ok, of lba bytes] obtain r c' w' where
      r: "write_sd_sectors (sd_write_uncached S) lba bytes (c, w) = Some (r, c', w')" by auto
    from link.cached.wr_ok [OF ok r] have "in_session (c', w')" by (simp add: in_session_def)
    with r SessWrite assms(2) given_back_same [OF write_sd_sectors_held [OF assms(1) r]] show ?thesis by auto
  next
    case SessFlush
    have "quiet alive pending w" using assms(1) by (simp add: in_session_def)
    from sc64_flush_result [OF this, of c] obtain r w' where
      r: "sc64_flush_serial S (c, w) = (r, c, w')" "quiet alive pending w'" "card_of cart w' = card_of cart w"
        "same_hold alive cart w w'" by blast
    then have "in_session (c, w')" using assms(1) by (auto simp: in_session_def link.coherent_def)
    with r SessFlush assms(2) given_back_same [OF r(4)] show ?thesis by auto
  next
    case SessClose
    with release_once_result [OF assms] show ?thesis by (auto simp: session_close_def)
  qed
qed

lemma session_run_keeps:
  assumes "in_session (c, w)" "ss_released s \<longrightarrow> given_back alive cart w"
  shows "\<exists>s' c' w'. session_run S xs (s, c, w) = Some (s', c', w') \<and> in_session (c', w') \<and>
    (ss_released s' \<longrightarrow> given_back alive cart w')"
  using assms
proof (induction xs arbitrary: s c w)
  case (Cons x xs)
  from session_do_keeps [OF Cons.prems, of x] Cons.IH show ?case by fastforce
qed simp

lemma session_drop_result:
  assumes "in_session (c, w)" "ss_released s \<longrightarrow> given_back alive cart w"
  shows "given_back alive cart (snd (session_drop S s (c, w)))"
  using release_once_result [OF assms] by (auto simp: session_drop_def)

lemma release_twice:
  assumes "release_once S s cw = (Inr u, s', cw')"
  shows "release_once S s' cw' = (Inr (), s', cw')"
  using assms by (auto simp: release_once_def Let_def split: if_splits prod.splits sum.splits)

end


subsection \<open>A session on the sample cart\<close>

lemma mem_link_reads:
  assumes "mem_port.in_session (c, w)" "mem_idle w" "held_by mc_cart w" "lba < 2 ^ 32"
  shows "\<exists>c' w'. link_sector mem_serial lba (c, w) = Some (Inr (sector_at (card_of mc_cart w) lba), c', w') \<and>
    mem_port.in_session (c', w') \<and> mem_idle w' \<and> held_by mc_cart w' \<and> card_of mc_cart w' = card_of mc_cart w"
proof -
  have rq: "sd_request lba 512" using assms(4) by (simp add: sd_request_def SECTOR_BYTES_def SD_CARD_BUFFER_MAX_BYTES_def)
  from mem_sector [OF assms(2,3) rq] obtain w1 where
    w1: "sd_read_uncached mem_serial lba 512 w = (Inr (sector_at (card_of mc_cart w) lba), w1)" "mem_idle w1"
      "held_by mc_cart w1" "card_of mc_cart w1 = card_of mc_cart w" by blast
  have inv: "cache_inv c" "mem_port.link.coherent w c" "quiet mem_alive mc_out w"
    using assms(1) by (simp_all add: mem_port.in_session_def)
  from mem_port.link.read_through_coherent [OF inv rq] obtain r c' w' where
    r: "read_through (sd_read_uncached mem_serial) lba 512 c w = Some (r, c', w')" "cache_inv c'"
      "mem_port.link.coherent w' c'" "quiet mem_alive mc_out w'" by blast
  have "w' = w \<or> w' = w1" "\<exists>bs. r = Inr bs"
    using r(1) w1(1) by (auto simp: read_through_def split: option.splits)
  moreover have "link_sector mem_serial lba (c, w) = Some (r, c', w')"
    using r(1) assms(4) by (simp add: link_sector_def read_sd_sectors_def SECTOR_BYTES_def SD_CARD_BUFFER_MAX_BYTES_def)
  moreover have "bs = sector_at (card_of mc_cart w) lba" if "r = Inr bs" for bs
    using mem_port.link.read_through_coherent [OF inv rq] r(1) that by (simp add: bytes_at_def)
  ultimately show ?thesis
    using r w1 assms(2,3) by (auto simp: mem_port.in_session_def)
qed

lemma mem_probe:
  assumes "mem_port.in_session (c, w)" "mem_idle w" "held_by mc_cart w" "card_of mc_cart w = sample_card"
  shows "\<exists>cw'. probe_volume (link_sector mem_serial) (c, w) = Some (Inr (3, True, 8192), cw')"
proof -
  obtain c1 w1 where r0: "link_sector mem_serial 0 (c, w) = Some (Inr (sector_at sample_card 0), c1, w1)"
      "mem_port.in_session (c1, w1)" "mem_idle w1" "held_by mc_cart w1" "card_of mc_cart w1 = sample_card"
    using mem_link_reads [OF assms(1-3), of 0] assms(4) by auto
  obtain c2 w2 where r1: "link_sector mem_serial 1 (c1, w1) = Some (Inr (sector_at sample_card 1), c2, w2)"
      "mem_port.in_session (c2, w2)" "mem_idle w2" "held_by mc_cart w2" "card_of mc_cart w2 = sample_card"
    using mem_link_reads [OF r0(2-4), of 1] r0(5) by auto
  obtain c3 w3 where r2: "link_sector mem_serial 2 (c2, w2) = Some (Inr (sector_at sample_card 2), c3, w3)"
      "mem_port.in_session (c3, w3)" "mem_idle w3" "held_by mc_cart w3" "card_of mc_cart w3 = sample_card"
    using mem_link_reads [OF r1(2-4), of 2] r1(5) by auto
  obtain c4 w4 where r3: "link_sector mem_serial 3 (c3, w3) = Some (Inr (sector_at sample_card 3), c4, w4)"
    using mem_link_reads [OF r2(2-4), of 3] r2(5) by auto
  have "detect_partition_start (sector_at sample_card 0) (link_sector mem_serial) (c1, w1) = Some (Inr 3, c3, w3)"
    using detect_gpt [of "sector_at sample_card 0" "link_sector mem_serial"] sample_card_sectors(1,2) r1(1) r2(1)
    by (simp add: io_bind_def sample_card_eqs)
  moreover have "partition_volume_bytes (sector_at sample_card 3) = Inr 8192"
    by (simp add: partition_volume_bytes_def exfat_partition_byte_length_def sample_card_sectors Let_def del: nth_bytes_at)
  ultimately show ?thesis
    using r0(1) r3 sample_card_sectors(6) by (simp add: probe_volume_def io_bind_def)
qed

definition sample_port :: mem_cart where
  "sample_port = \<lparr>mc_cart = \<lparr>ct_card = sample_card, ct_ram = (\<lambda>a. 0), ct_held = True\<rparr>, mc_out = [1, 2, 3],
     mc_gone = False, mc_dtr = False\<rparr>"

lemma sample_opens:
  "\<exists>s cw. sc64_session_open mem_serial sample_port = Some (Inr s, cw) \<and> ss_start s = 3 \<and> ss_exfat s \<and> ss_bytes s = 8192"
proof -
  let ?cart = "mc_cart sample_port"
  obtain r1 w1 where reset: "usb_reset_link mem_serial \<lparr>sw_port = sample_port, sw_rb = []\<rparr> = Some (r1, w1)"
      "mem_idle w1" "mc_cart (sw_port w1) = ?cart"
    by (simp add: usb_reset_link_def drain_loop.simps [of _ 0] sample_port_def mem_alive_def MEM_QUEUE_def MILLIS_def
        mem_idle_def)
  have "mem_exec CMD_IDENTIFIER_GET 0 0 [] (mc_cart (sw_port w1)) = (True, [0x53, 0x43, 0x76, 0x32], ?cart)"
    by (simp add: mem_exec_def sc64_cmds reset(3))
  from mem_request [OF reset(2) this, of "SECS 5"] obtain w2 where
    ident: "sc64_identify mem_serial w1 = (Inr (), w2)" "mem_idle w2" "mc_cart (sw_port w2) = ?cart"
    by (auto simp: sc64_identify_def SC_PREFIX_def patience_def sc64_cmds)
  have "mem_exec CMD_SD_CARD_OP 0 0 [] (mc_cart (sw_port w2)) = (True, [], ?cart\<lparr>ct_held := False\<rparr>)"
    by (simp add: mem_exec_def ident(3)) (simp add: sample_port_def)
  from mem_reply [OF ident(2) this, of "SECS 2"] obtain w3 where
    deinit: "sc64_sd_deinit_try mem_serial (cache_default, w2) = (cache_clear cache_default, w3)" "mem_idle w3"
      "mc_cart (sw_port w3) = ?cart\<lparr>ct_held := False\<rparr>"
    by (auto simp: sc64_sd_deinit_try_def patience_def sc64_cmds)
  have "mem_exec CMD_SD_CARD_OP 0 1 [] (mc_cart (sw_port w3)) = (True, [], ?cart\<lparr>ct_held := True\<rparr>)"
    by (simp add: mem_exec_def deinit(3))
  from mem_request [OF deinit(2) this, of "SECS 5"] obtain w4 where
    init: "sc64_sd_init mem_serial (cache_clear cache_default, w3) = (Inr (), cache_clear (cache_clear cache_default), w4)"
      "mem_idle w4" "mc_cart (sw_port w4) = ?cart\<lparr>ct_held := True\<rparr>"
    by (auto simp: sc64_sd_init_def sd_card_op_def patience_def sc64_cmds SECS_def MILLIS_def)
  have "mem_port.in_session (cache_clear (cache_clear cache_default), w4)" "held_by mc_cart w4"
      "card_of mc_cart w4 = sample_card"
    using init(2,3)
    by (simp_all add: mem_port.in_session_def cache_inv_clear mem_port.link.coherent_clear mem_idle_quiet seen_defs)
      (simp_all add: sample_port_def)
  from mem_probe [OF this(1) init(2) this(2,3)] show ?thesis
    using reset(1) ident(1) deinit(1) init(1) by (auto simp: sc64_session_open_def)
qed


end
