(* ===== verification/Spec2Isabelle.thy ===== *)
theory Spec2Isabelle
  imports L3_Stream L3_Session Sc64_L2 Ed64_L2 Sector_Disk Backend_Memory Cart_Transport Rom_Patch_Safety Rom_Detect Exfat_Rename Sd_Volume Fat_Replace Pro_Rename Pro_Trees Sc64_Session
begin

text \<open>
  A model of the host side of \<open>multi64\<close>, the bridge between a PC and an N64 flash cart, of the
  memory client built on it, and of the patcher that puts the client's agent into a game.

  \<^bold>\<open>The program.\<close> An application on the cart and one on the PC exchange L3 frames
  (\<open>crates/l3\<close>). An L2 adapter carries the frames' bytes over a serial port: for a SummerCart64
  (\<open>crates/sc64-link\<close>, \<open>crates/sc64-l2\<close>) as \<open>PKT U\<close> packets and \<open>USB_WRITE\<close> commands, for an
  EverDrive-64 X7 (\<open>crates/ed64-l2\<close>) as \<open>DMA@\<close> messages. Over the L3 link, \<open>crates/ap64-cart\<close> reads
  and writes the console's memory with the M64P protocol, through a daemon's WebSocket.
  \<open>crates/multi64-sc64-sd\<close> reaches the cart's SD card through the same cable: sector by sector on a
  SummerCart64, with the FAT or exFAT volume handled on the PC, and file by file on an EverDrive-64 PRO
  (\<open>crates/ed64pro-link\<close>), whose microcontroller owns the volume. \<open>crates/ap64-core\<close> recognizes a
  randomizer's seed and splices the agent that answers M64P into it.

  \<^bold>\<open>The theories.\<close>
  \<^item> \<open>M64_Prelude\<close>: machine types, big-endian fields, byte ranges, \<open>chunks\<close>, the search for a
    magic, results with an error branch.
  \<^item> \<open>Stream_Scan\<close>: the contract of an incremental parser, and that reads may be cut anywhere.
  \<^item> \<open>L3_Frame\<close>, \<open>L3_Stream\<close>, \<open>L3_Session\<close>: \<open>crates/l3\<close>, its codec, its \<open>StreamDecoder\<close>, and its
    handshake and session.
  \<^item> \<open>L2_Port\<close>: port reads, and the contract between an adapter's parser and its queue.
  \<^item> \<open>Sc64_Wire\<close>, \<open>Sc64_L2\<close>: the SummerCart64 packets and pipe. \<open>Ed64_L2\<close>: the EverDrive pipe.
  \<^item> \<open>Byte_Store\<close>, \<open>Sd_Cache\<close>, \<open>Sector_Disk\<close>: \<open>sd_read_cache.rs\<close>, and partitions over sectors
    (\<open>partition.rs\<close>, \<open>link.rs\<close>, \<open>mem_disk.rs\<close>).
  \<^item> \<open>Sd_Volume\<close>: finding the volume on a card (\<open>detect_partition_start\<close> and the probe a session opens with).
  \<^item> \<open>Sc64_Link\<close>: the commands of \<open>link.rs\<close> over a serial port. \<open>Sc64_Cart\<close>: what the cart promises, and the
    link over it as a sector transport. \<open>Sc64_Session\<close>: opening, closing and dropping a session
    (\<open>Sc64SdSession\<close> of \<open>partition.rs\<close>).
  \<^item> \<open>Exfat_Volume\<close> to \<open>Exfat_Rename\<close>: the exFAT layer of \<open>partition.rs\<close>. \<open>Exfat_Volume\<close> reads and writes the
    volume's bytes; \<open>Exfat_Chain\<close>, \<open>Exfat_Names\<close>, \<open>Exfat_Slots\<close> and \<open>Exfat_Entry\<close> are cluster chains, names and
    paths, directory slots and entry sets; \<open>Exfat_Write\<close> and \<open>Exfat_Create\<close> the operations that change a
    volume. \<open>Exfat_Dir\<close> says what a well-formed folder is, \<open>Exfat_Mounted\<close> what a mounted volume may change,
    \<open>Exfat_Atomic\<close> and \<open>Exfat_File\<close> prove creating and replacing files atomic, \<open>Exfat_Delete\<close> and
    \<open>Exfat_Rename\<close> deleting and renaming safe, \<open>Exfat_Read\<close> reading and listing exact. \<open>Exfat_Sample\<close> is a
    small volume for the witnesses.
  \<^item> \<open>Fat_Files\<close>, \<open>Fat_Replace\<close>: the FAT operations of \<open>partition.rs\<close> over the \<open>fatfs\<close> crate, and that a
    replace keeps the original until its copy is complete.
  \<^item> \<open>Pro_Wire\<close>, \<open>Pro_Device\<close>: \<open>wire.rs\<close> and \<open>device.rs\<close> of \<open>crates/ed64pro-link\<close>; \<open>Pro_Session\<close>, \<open>Pro_Trees\<close>:
    \<open>ed64pro.rs\<close> and \<open>host_file.rs\<close>; \<open>Pro_Rename\<close>: a rename by copying never loses the file.
  \<^item> \<open>M64p\<close>, \<open>Watch_Queue\<close>: \<open>m64p.rs\<close> and \<open>watch.rs\<close> of \<open>crates/ap64-cart\<close>.
  \<^item> \<open>Backend_Batch\<close>, \<open>Backend_Link\<close>, \<open>Backend_Memory\<close>, \<open>Rom_Pages\<close>, \<open>Link_Clock\<close>: \<open>backend.rs\<close>,
    from planning requests to retries, reconnects, the \<open>Backend\<close> operations, the ROM page cache, and
    what a clock must do for all of them to return.
  \<^item> \<open>Cart_Transport\<close>: \<open>transport.rs\<close>, the requests in flight, the early copy and the wait for a
    reply, over a script of what the daemon's socket delivers and when.
  \<^item> \<open>Rom_Image\<close>, \<open>Rom_Files\<close>: \<open>rom.rs\<close>, \<open>crc.rs\<close> and \<open>transform.rs\<close> of \<open>crates/ap64-core\<close>, byte
    orders, the boot checksum, the Yaz0 decoder, the file table and the repacked layout.
  \<^item> \<open>Rom_Profile\<close>, \<open>Rom_Patch\<close>, \<open>Rom_Detect\<close>: \<open>profile.rs\<close>, \<open>cart.rs\<close>, \<open>patch.rs\<close>, \<open>lib.rs\<close> and the
    bytes of \<open>adjust.rs\<close>; \<open>Rom_Patch_Safety\<close> proves what patching may change.

  \<^bold>\<open>How code becomes definitions.\<close> A struct is a record, an enum a datatype, \<open>io::Result\<close> a sum with
  \<open>io_kind\<close> on the left; messages of errors and log lines are left out. A call that may not return
  is a \<open>partial_function (option)\<close>, where \<open>None\<close> is not returning; a panic is \<open>None\<close> too where the
  code has one, and \<open>Panicked\<close> in the patcher. A serial port is the list of the results of its
  reads, or, for the SD link, the record \<open>serial\<close> of its operations with the time they take. Machine integers keep their width in protocol fields and file headers; lengths, sector
  numbers and positions are natural numbers, the \<open>i64\<close> sums of profile addresses wrap. A string is the
  list of its Unicode scalar values; the Unicode tables of the standard library (\<open>to_uppercase\<close>,
  \<open>to_lowercase\<close>) are parameters. Crates that are not part of the repository are parameters too: SHA-1,
  the TOML reader, the file systems \<open>hadris-fat\<close> (records \<open>hadris\<close> and \<open>exfat_fs\<close>) and \<open>fatfs\<close> (record
  \<open>fatfs\<close>), the PC's files (records \<open>host_file\<close>, \<open>host_tree\<close>). What is relied on about them is stated as
  laws of a locale (\<open>mounted_volume\<close>, \<open>fat_volume\<close>, \<open>pc_file\<close>, \<open>sc64_port\<close>), with failures of every call allowed.

  \<^bold>\<open>What the lemmas show.\<close> Parsers: round trips, independence of chunking, memory bounds.
  Pipes: conservation (what was read followed by what is owed is what was sent) and progress.
  Cache and disks: coherence and refinement to a RAM disk, also over the
  SummerCart64's serial link; the card is given back at the end of a session. Backend: planned requests respect the
  wire limits and have the effect of what was asked; reads give one consistent image; a write lands
  at most once as long as the ROM header is not cached, and may land twice once it is; every call
  returns. Patcher: a successful patch changes only bytes that a check pinned, padding and the
  checksum, which it leaves right; the decompressed image holds every file; the Yaz0 decoder agrees
  with a reference reading of the format but may give more than its caller allows. Files on a card:
  whatever fails, a create, replace, rename or delete leaves the folder with the old entry or the new one,
  an entry never stands on clusters that are free, no file but the named ones changes, and what is read
  or listed is what the volume holds.

  \<^bold>\<open>Bounds and fuel.\<close> Loops recurse on a measure the code itself has: octets left to parse, reads left
  in the script, time left to a deadline, output still missing (Yaz0), entries left below 0x2000
  (file table). No definition takes fuel.

  \<^bold>\<open>Interfaces.\<close> \<open>scanner\<close>, \<open>draining\<close>, \<open>pulling\<close> (parsers), \<open>l2_parser\<close> (adapters), \<open>card_io\<close>,
  \<open>guarded_card\<close> and \<open>sector_transport\<close> (cards), \<open>sc64_port\<close> (a serial port with a cart behind it), \<open>poke_link\<close> (a transport, by what it puts on the wire), \<open>clocked_link\<close>
  (a transport, by its clock) and \<open>memory_backend\<close> (the \<open>Backend\<close> trait) are locales, each
  interpreted on the model's definitions. So are \<open>exfat_volume\<close> and \<open>steady_transport\<close> (the bytes of a
  volume), \<open>slot_source\<close> (directory slots), \<open>mounted_volume\<close> (a file system with its bitmap), \<open>copy_source\<close>,
  \<open>copy_sink\<close>, \<open>file_copy\<close> and \<open>file_create\<close> (copies in and out). \<open>mounted_volume\<close> is interpreted on the
  code's own sector stack with a bitmap that takes the first free cluster in place of \<open>hadris-fat\<close>'s, and
  \<open>fat_volume\<close>, \<open>pro_cart\<close> and \<open>pc_file\<close> (a \<open>fatfs\<close> volume, a PRO's card, the PC's file) on maps from
  names to data.

  \<^bold>\<open>Not modelled.\<close> Opening serial ports, threads and locks, the graphical and
  command-line applications and the daemon (they call what is modelled here and otherwise draw, log and
  start processes), the test benches and probes, the console-side C agents (except for how the memory
  agent holds the last write), the Lua and emulator connectors, reading the installed worlds and running
  their ROM adjuster, and what \<open>hadris-fat\<close>, \<open>fatfs\<close> and the PRO's firmware do beyond the laws above.
\<close>

section \<open>Frames across a SummerCart64\<close>

text \<open>A part of the L3 stream as the cart sends it: a \<open>PKT U\<close> with the L3 datatype and a 24-bit length.\<close>

definition l3_packet :: "octets \<Rightarrow> wire_event" where
  "l3_packet part =
     Pkt \<lparr>pkt_id = PKT_U, pkt_data = [MULTI64_L3_TYPE] @ drop 1 (be32 (of_nat (length part))) @ part\<rparr>"

definition read_octets :: "io_kind + octets \<Rightarrow> octets" where
  "read_octets r = (case r of Inl e \<Rightarrow> [] | Inr bs \<Rightarrow> bs)"

lemma all_octets:
  "concat (map read_items rs) = octet_items xs \<Longrightarrow>
   (\<forall>r \<in> set rs. \<exists>bs. r = Inr bs) \<and> concat (map read_octets rs) = xs"
proof (induction rs arbitrary: xs)
  case Nil
  then show ?case by (simp add: octet_items_def)
next
  case (Cons r rs)
  show ?case
  proof (cases r)
    case (Inl e)
    with Cons.prems show ?thesis by (cases xs) (auto simp: read_items_def octet_items_def)
  next
    case (Inr bs)
    with Cons.prems have "octet_items bs @ concat (map read_items rs) = octet_items xs"
      unfolding read_items_def by simp
    then obtain ys where "xs = bs @ ys" "concat (map read_items rs) = octet_items ys"
      by (auto simp: octet_items_def append_eq_map_conv inj_map_eq_map [OF inj_Inr])
    with Cons.IH [OF this(2)] Inr show ?thesis by (simp add: read_octets_def)
  qed
qed

lemma l3_packet_wf: "length part \<le> 0xFFFFFF \<Longrightarrow> event_wf (l3_packet part)"
  by (simp add: l3_packet_def event_wf_def MAX_PKT_DATA_LEN_def be32_def)

lemma l3_packet_items:
  assumes "length part \<le> 0xFFFFFF"
  shows "event_items (l3_packet part) = octet_items part"
proof -
  let ?w = "of_nat (length part) :: u32"
  have w: "unat ?w = length part" using assms by (intro unat_u32_length) simp
  have "unat (drop_bit 24 ?w) = 0" unfolding unat_drop_bit_eq w using assms by (simp add: drop_bit_eq_div)
  then have "drop_bit 24 ?w = 0" by (simp add: unat_eq_0)
  then have "of_be32 0 (ucast (drop_bit 16 ?w)) (ucast (drop_bit 8 ?w)) (ucast ?w) = ?w"
    using of_be32_be32 [of ?w] by simp
  with w show ?thesis
    by (simp add: event_items_def l3_packet_def pkt_u_multi64_l3_payload_def be32_def slice_def Let_def)
qed

lemma l3_packets_items:
  assumes "\<forall>part \<in> set parts. length part \<le> 0xFFFFFF"
  shows "sc64_items (concat (map (event_bytes \<circ> l3_packet) parts)) = octet_items (concat parts)"
proof -
  have "wire_events (concat (map event_bytes (map l3_packet parts)) @ []) = (map l3_packet parts, [])"
    using wire_events_bytes [of "map l3_packet parts" "[]"] assms l3_packet_wf
    by (simp add: wire_events.simps next_event_step_def)
  then have "sc64_items (concat (map (event_bytes \<circ> l3_packet) parts)) = concat (map (event_items \<circ> l3_packet) parts)"
    by (simp add: sc64_items_def comp_def)
  also have "\<dots> = octet_items (concat parts)"
    using assms by (induction parts) (simp_all add: l3_packet_items)
  finally show ?thesis .
qed

text \<open>C8: Frames cross a SummerCart64. Whatever frames the cart encodes, whatever packets it cuts the
  stream into, whatever reads the serial port makes of them (time-outs among them) and whatever
  buffers the application reads into, once it has read often enough its \<open>StreamDecoder\<close> has given
  exactly those frames, in order, with nothing left over and no error.\<close>

theorem summercart_delivers_frames:
  assumes "list_all2 (\<lambda>f b. encode_frame f = Inr b) fs bs" and "concat parts = concat bs"
    and "\<forall>part \<in> set parts. length part \<le> 0xFFFFFF"
    and "port_bytes script = concat (map (event_bytes \<circ> l3_packet) parts)" and "port_clean script"
    and "sc64_reads ns (sc64_pipe_open script) = (rs, p')" and "\<forall>n \<in> set ns. 0 < n"
    and "length (concat bs) + length script \<le> length ns"
  shows "push_all stream_decoder_new (map read_octets rs) = (fs, stream_decoder_new) \<and>
    (\<forall>r \<in> set rs. \<exists>bytes. r = Inr bytes)"
proof -
  have items: "sc64_items (port_bytes script) = octet_items (concat bs)"
    using l3_packets_items [OF assms(3)] by (simp add: assms(2,4))
  have empty: "sc64_items [] = []" by (rule sc64_l2.items_Nil)
  let ?p = "sc64_pipe_open script"
  have owed: "sc64_owed ?p = octet_items (concat bs)"
    by (simp add: sc64_pipe_open_def sc64_owed_def sc64_l2.owed_def items)
  then have "sc64_settled ?p" "sc64_left ?p \<le> length ns"
    using assms(5,8) empty by (auto simp: sc64_settled_def sc64_left_def sc64_pipe_open_def octet_items_def)
  from sc64_reads_progress [OF assms(6,7) this] sc64_reads_conserve [OF assms(6)] owed assms(5)
  have "concat (map read_items rs) = octet_items (concat bs)" by (simp add: sc64_pipe_open_def)
  note got = all_octets [OF this]
  have "push_all stream_decoder_new (map read_octets rs) = push_all stream_decoder_new bs"
    by (simp add: push_all_feed stream_decoder_new_def l3.feed_concat got)
  also have "\<dots> = (fs, stream_decoder_new)" by (rule push_encoded [OF assms(1)])
  finally show ?thesis using got by simp
qed

definition sample_script :: "octets list \<Rightarrow> port_read list" where
  "sample_script parts =
     (let raw = concat (map (event_bytes \<circ> l3_packet) parts)
      in [PortBytes (take 7 raw), PortErr TimedOut, PortBytes (drop 7 raw)])"

theorem summercart_delivers_frames_witness:
  "\<exists>rs p'. sc64_reads (replicate 21 3) (sc64_pipe_open
       (sample_script [take 5 (header_bytes sample_frame), drop 5 (header_bytes sample_frame) @ [1, 2]])) = (rs, p') \<and>
     push_all stream_decoder_new (map read_octets rs) = ([sample_frame], stream_decoder_new)"
proof -
  let ?parts = "[take 5 (header_bytes sample_frame), drop 5 (header_bytes sample_frame) @ [1, 2]]"
  let ?bs = "[header_bytes sample_frame @ [1, 2]]"
  have len: "length (header_bytes sample_frame) = 16" by simp
  obtain rs p' where run: "sc64_reads (replicate 21 3) (sc64_pipe_open (sample_script ?parts)) = (rs, p')"
    by fastforce
  have a: "list_all2 (\<lambda>f b. encode_frame f = Inr b) [sample_frame] ?bs"
    by (simp add: encode_frame_iff frame_valid_def sample_frame_def unat_ceiling)
  have b: "concat ?parts = concat ?bs" by simp
  have c: "\<forall>part \<in> set ?parts. length part \<le> 0xFFFFFF" by (simp add: len)
  have d: "port_bytes (sample_script ?parts) = concat (map (event_bytes \<circ> l3_packet) ?parts)"
    by (simp only: sample_script_def Let_def port_bytes.simps append_take_drop_id append_Nil2)
  have e: "port_clean (sample_script ?parts)" by (simp add: sample_script_def port_clean_def Let_def)
  have f: "\<forall>n \<in> set (replicate 21 (3 :: nat)). 0 < n" by simp
  have g: "length (concat ?bs) + length (sample_script ?parts) \<le> length (replicate 21 (3 :: nat))"
    by (simp add: len sample_script_def Let_def)
  from summercart_delivers_frames [OF a b c d e run f g] run show ?thesis by blast
qed

end
